(* ===== verification/Prelude.thy ===== *)
theory Prelude
  imports Main "HOL-Library.Word" "HOL-Library.Multiset"
begin

text \<open>
  Shared vocabulary of the development: the machine integer types of the C and C++ sources,
  the collections of rewrite rules the component theories add to, and generic facts on words
  and lists that more than one component needs.
\<close>

unbundle bit_operations_syntax

section \<open>Machine integers\<close>

type_synonym u8 = "8 word"
type_synonym u16 = "16 word"
type_synonym u32 = "32 word"
type_synonym u64 = "64 word"
type_synonym u128 = "128 word"
type_synonym i32 = "32 word"
type_synonym bytes = "8 word list"

named_theorems codec_simps \<open>round trips and lengths of the integer codecs\<close>
named_theorems ct_simps \<open>constant-time primitives in terms of their specification\<close>
named_theorems len_simps \<open>lengths of the buffers that operations return\<close>

section \<open>Words\<close>

lemma bit_word_beyond [simp]: "LENGTH('a) \<le> n \<Longrightarrow> \<not> bit (w :: 'a::len word) n"
  using bit_imp_le_length leD by blast

lemma bit_numeral_mask8 [simp]: "bit (255 :: 'a::len word) n \<longleftrightarrow> n < 8 \<and> n < LENGTH('a)"
  using bit_mask_iff [where 'a = "'a word", of 8 n] by (auto simp: mask_eq_exp_minus_1 possible_bit_word)

lemma unat_lt_pow [simp]: "unat (w :: 'a::len word) < 2 ^ LENGTH('a)"
  by transfer simp

text \<open>Equality of words of a fixed width, bit by bit: the list of positions evaluates.\<close>

lemma word_eq_bitwiseI:
  fixes v w :: "'a::len word"
  assumes "list_all (\<lambda>n. bit v n = bit w n) [0..<LENGTH('a)]"
  shows "v = w"
  using assms by (intro bit_word_eqI) (simp add: list_all_iff)

lemma upt_bits:
  "[0..<8] =
    [0, 1, 2, 3, 4, 5, 6, 7]"
  "[0..<16] =
    [0, 1, 2, 3, 4, 5, 6, 7, 8, 9, 10, 11, 12, 13, 14, 15]"
  "[0..<32] =
    [0, 1, 2, 3, 4, 5, 6, 7, 8, 9, 10, 11, 12, 13, 14, 15, 16, 17, 18, 19, 20, 21, 22, 23, 24,
    25, 26, 27, 28, 29, 30, 31]"
  "[0..<64] =
    [0, 1, 2, 3, 4, 5, 6, 7, 8, 9, 10, 11, 12, 13, 14, 15, 16, 17, 18, 19, 20, 21, 22, 23, 24,
    25, 26, 27, 28, 29, 30, 31, 32, 33, 34, 35, 36, 37, 38, 39, 40, 41, 42, 43, 44, 45, 46, 47,
    48, 49, 50, 51, 52, 53, 54, 55, 56, 57, 58, 59, 60, 61, 62, 63]"
  "[0..<128] =
    [0, 1, 2, 3, 4, 5, 6, 7, 8, 9, 10, 11, 12, 13, 14, 15, 16, 17, 18, 19, 20, 21, 22, 23, 24,
    25, 26, 27, 28, 29, 30, 31, 32, 33, 34, 35, 36, 37, 38, 39, 40, 41, 42, 43, 44, 45, 46, 47,
    48, 49, 50, 51, 52, 53, 54, 55, 56, 57, 58, 59, 60, 61, 62, 63, 64, 65, 66, 67, 68, 69, 70,
    71, 72, 73, 74, 75, 76, 77, 78, 79, 80, 81, 82, 83, 84, 85, 86, 87, 88, 89, 90, 91, 92, 93,
    94, 95, 96, 97, 98, 99, 100, 101, 102, 103, 104, 105, 106, 107, 108, 109, 110, 111, 112,
    113, 114, 115, 116, 117, 118, 119, 120, 121, 122, 123, 124, 125, 126, 127]"
  by (simp_all add: upt_rec)

text \<open>The C idiom for rotations, by two shifts.\<close>

lemma shifts_rotl:
  fixes x :: "'a::len word"
  assumes "0 < n" "n < LENGTH('a)"
  shows "push_bit n x OR drop_bit (LENGTH('a) - n) x = word_rotl n x"
proof (rule bit_word_eqI)
  fix k assume k: "k < LENGTH('a)"
  have "(k + (LENGTH('a) - n)) mod LENGTH('a) = (if n \<le> k then k - n else k + (LENGTH('a) - n))"
  proof (cases "n \<le> k")
    case True
    then have "k + (LENGTH('a) - n) = (k - n) + LENGTH('a)" using assms by simp
    then have "(k + (LENGTH('a) - n)) mod LENGTH('a) = (k - n) mod LENGTH('a)"
      by (simp only: mod_add_self2)
    then show ?thesis using True k by simp
  next
    case False
    then show ?thesis using assms k by simp
  qed
  then show "bit (push_bit n x OR drop_bit (LENGTH('a) - n) x) k = bit (word_rotl n x) k"
    using assms k by (auto simp: bit_simps bit_word_rotl_iff add.commute)
qed

lemma shifts_rotr:
  fixes x :: "'a::len word"
  assumes "0 < n" "n < LENGTH('a)"
  shows "push_bit (LENGTH('a) - n) x OR drop_bit n x = word_rotr n x"
proof (rule bit_word_eqI)
  fix k assume k: "k < LENGTH('a)"
  have "(k + n) mod LENGTH('a) = (if LENGTH('a) - n \<le> k then k - (LENGTH('a) - n) else k + n)"
  proof (cases "LENGTH('a) - n \<le> k")
    case True
    then have "k + n = (k - (LENGTH('a) - n)) + LENGTH('a)" using assms by simp
    then have "(k + n) mod LENGTH('a) = (k - (LENGTH('a) - n)) mod LENGTH('a)"
      by (simp only: mod_add_self2)
    then show ?thesis using True k assms by simp
  next
    case False
    then show ?thesis using assms k by simp
  qed
  then show "bit (push_bit (LENGTH('a) - n) x OR drop_bit n x) k = bit (word_rotr n x) k"
    using assms k by (auto simp: bit_simps bit_word_rotr_iff add.commute)
qed

text \<open>The byte of weight \<open>256\<^sup>k\<close> of a word, which is what a C cast to \<open>unsigned char\<close> of a
  shifted integer keeps.\<close>

definition byte_of :: "nat \<Rightarrow> 'a::len word \<Rightarrow> u8" where
  "byte_of k w = ucast (drop_bit (8 * k) w)"

lemma bit_byte_of: "bit (byte_of k w) n \<longleftrightarrow> n < 8 \<and> bit w (8 * k + n)"
  by (simp add: byte_of_def bit_simps)

section \<open>Lists\<close>

text \<open>Splitting a buffer into consecutive chunks of \<open>n\<close> elements; the incomplete chunk at the
  end, if there is one, is kept.\<close>

function chunks :: "nat \<Rightarrow> 'a list \<Rightarrow> 'a list list" where
  "chunks n xs = (if n = 0 \<or> xs = [] then [] else take n xs # chunks n (drop n xs))"
  by pat_completeness auto
termination by (relation "measure (\<lambda>(n, xs). length xs)") auto

declare chunks.simps [simp del]

lemma chunks_Nil [simp]: "chunks n [] = []"
  by (simp add: chunks.simps)

lemma chunks_append:
  "0 < n \<Longrightarrow> length xs = n \<Longrightarrow> chunks n (xs @ ys) = xs # chunks n ys"
  by (subst chunks.simps) auto

lemma chunks_concat: "0 < n \<Longrightarrow> list_all (\<lambda>x. length x = n) xs \<Longrightarrow> chunks n (concat xs) = xs"
  by (induction xs) (simp_all add: chunks_append)

lemma concat_chunks [simp]: "0 < n \<Longrightarrow> concat (chunks n xs) = xs"
proof (induction n xs rule: chunks.induct)
  case (1 n xs)
  then show ?case by (subst chunks.simps) auto
qed

lemma chunks_append_dvd:
  assumes "0 < n" "n dvd length xs"
  shows "chunks n (xs @ ys) = chunks n xs @ chunks n ys"
  using assms
proof (induction n xs rule: chunks.induct)
  case (1 n xs)
  show ?case
  proof (cases "xs = []")
    case False
    then have "n \<le> length xs" using 1(3) by (auto intro!: dvd_imp_le)
    then show ?thesis using 1 False
      by (subst (1 2) chunks.simps) (auto simp: dvd_minus_self)
  qed simp
qed

lemma chunks_lengths:
  assumes "0 < n" "n dvd length xs" "c \<in> set (chunks n xs)"
  shows "length c = n"
  using assms
proof (induction n xs rule: chunks.induct)
  case (1 n xs)
  show ?case
  proof (cases "xs = []")
    case False
    then have "n \<le> length xs" using 1(3) by (auto intro!: dvd_imp_le)
    moreover have "c = take n xs \<or> c \<in> set (chunks n (drop n xs))"
      using 1(2,4) False by (simp add: chunks.simps [of n xs])
    ultimately show ?thesis using 1 False by (auto simp: dvd_minus_self)
  qed (use 1 in simp)
qed

lemma foldl_blocks:
  "(\<And>r i. i \<in> set is \<Longrightarrow> g r i = foldl f r (b i)) \<Longrightarrow> foldl g r is = foldl f r (concat (map b is))"
  by (induction "is" arbitrary: r) simp_all

text \<open>An invariant of a fold, indexed by the number of elements consumed.\<close>

lemma foldl_inv:
  assumes "P 0 s" "\<And>i s. i < length xs \<Longrightarrow> P i s \<Longrightarrow> P (Suc i) (f s (xs ! i))"
  shows "P (length xs) (foldl f s xs)"
  using assms
proof (induction xs rule: rev_induct)
  case (snoc x xs)
  have "P (length xs) (foldl f s xs)"
  proof (rule snoc.IH [OF snoc.prems(1)])
    fix i s assume i: "i < length xs" and p: "P i s"
    from snoc.prems(2) [OF _ p] i show "P (Suc i) (f s (xs ! i))" by (simp add: nth_append)
  qed
  from snoc.prems(2) [OF _ this] show ?case by simp
qed simp

text \<open>The C library's \<open>memcpy (dst + off, src, n)\<close> and \<open>memset (dst + off, c, n)\<close> on a
  buffer; the callers keep \<open>off + n\<close> within the buffer.\<close>

definition memcpy :: "'a list \<Rightarrow> nat \<Rightarrow> 'a list \<Rightarrow> 'a list" where
  "memcpy dst off src = take off dst @ src @ drop (off + length src) dst"

definition memset :: "'a list \<Rightarrow> nat \<Rightarrow> 'a \<Rightarrow> nat \<Rightarrow> 'a list" where
  "memset dst off c n = memcpy dst off (replicate n c)"

lemma length_memcpy [simp, len_simps]:
  "off + length src \<le> length dst \<Longrightarrow> length (memcpy dst off src) = length dst"
  by (simp add: memcpy_def)

lemma length_memset [simp, len_simps]:
  "off + n \<le> length dst \<Longrightarrow> length (memset dst off c n) = length dst"
  by (simp add: memset_def)

lemma take_memcpy:
  "off \<le> length dst \<Longrightarrow> take (off + length src) (memcpy dst off src) = take off dst @ src"
  by (simp add: memcpy_def)

lemma memcpy_to_end:
  "off + length src = length dst \<Longrightarrow> memcpy dst off src = take off dst @ src"
  by (simp add: memcpy_def)

lemma memcpy_0: "memcpy dst 0 src = src @ drop (length src) dst"
  by (simp add: memcpy_def)

lemma list_eq_4: "length xs = 4 \<Longrightarrow> xs = [xs ! 0, xs ! 1, xs ! 2, xs ! 3]"
  by (auto simp: numeral_eq_Suc length_Suc_conv)

end
