(* ===== verification/Codec.thy ===== *)
theory Codec
  imports Prelude
begin

text \<open>
  Integer codecs of BearSSL: the inline functions \<open>br_enc*\<close> and \<open>br_dec*\<close> and the byte swap of
  \<open>inner.h\<close>, and the range codecs of \<open>codec/enc32be.c\<close> and \<open>codec/dec32be.c\<close>.  A destination
  buffer is the list of bytes written, a source buffer the list of bytes read from.  The shifts
  of the portable branch are followed; on a machine where \<open>BR_LE_UNALIGNED\<close> or
  \<open>BR_BE_UNALIGNED\<close> is set the union access produces the same bytes.
\<close>

section \<open>Definitions\<close>

definition br_enc16le :: "u32 \<Rightarrow> bytes" where
  "br_enc16le x = [ucast x, ucast (drop_bit 8 x)]"

definition br_enc16be :: "u32 \<Rightarrow> bytes" where
  "br_enc16be x = [ucast (drop_bit 8 x), ucast x]"

definition br_dec16le :: "bytes \<Rightarrow> u32" where
  "br_dec16le buf = ucast (buf ! 0) OR push_bit 8 (ucast (buf ! 1))"

definition br_dec16be :: "bytes \<Rightarrow> u32" where
  "br_dec16be buf = push_bit 8 (ucast (buf ! 0)) OR ucast (buf ! 1)"

definition br_enc32le :: "u32 \<Rightarrow> bytes" where
  "br_enc32le x =
    [ucast x, ucast (drop_bit 8 x), ucast (drop_bit 16 x), ucast (drop_bit 24 x)]"

definition br_enc32be :: "u32 \<Rightarrow> bytes" where
  "br_enc32be x =
    [ucast (drop_bit 24 x), ucast (drop_bit 16 x), ucast (drop_bit 8 x), ucast x]"

definition br_dec32le :: "bytes \<Rightarrow> u32" where
  "br_dec32le buf =
    ucast (buf ! 0) OR push_bit 8 (ucast (buf ! 1))
      OR push_bit 16 (ucast (buf ! 2)) OR push_bit 24 (ucast (buf ! 3))"

definition br_dec32be :: "bytes \<Rightarrow> u32" where
  "br_dec32be buf =
    push_bit 24 (ucast (buf ! 0)) OR push_bit 16 (ucast (buf ! 1))
      OR push_bit 8 (ucast (buf ! 2)) OR ucast (buf ! 3)"

definition br_enc64le :: "u64 \<Rightarrow> bytes" where
  "br_enc64le x = br_enc32le (ucast x) @ br_enc32le (ucast (drop_bit 32 x))"

definition br_enc64be :: "u64 \<Rightarrow> bytes" where
  "br_enc64be x = br_enc32be (ucast (drop_bit 32 x)) @ br_enc32be (ucast x)"

definition br_dec64le :: "bytes \<Rightarrow> u64" where
  "br_dec64le buf = ucast (br_dec32le buf) OR push_bit 32 (ucast (br_dec32le (drop 4 buf)))"

definition br_dec64be :: "bytes \<Rightarrow> u64" where
  "br_dec64be buf = push_bit 32 (ucast (br_dec32be buf)) OR ucast (br_dec32be (drop 4 buf))"

definition br_swap32 :: "u32 \<Rightarrow> u32" where
  "br_swap32 x =
    (let x = push_bit 8 (x AND 0x00FF00FF) OR (drop_bit 8 x AND 0x00FF00FF)
     in push_bit 16 x OR drop_bit 16 x)"

text \<open>The range encoder writes \<open>num\<close> words, the range decoder fills \<open>num\<close> words.\<close>

fun br_range_enc32be :: "u32 list \<Rightarrow> nat \<Rightarrow> bytes" where
  "br_range_enc32be v 0 = []"
| "br_range_enc32be v (Suc num) = br_enc32be (hd v) @ br_range_enc32be (tl v) num"

fun br_range_dec32be :: "nat \<Rightarrow> bytes \<Rightarrow> u32 list" where
  "br_range_dec32be 0 buf = []"
| "br_range_dec32be (Suc num) buf = br_dec32be buf # br_range_dec32be num (drop 4 buf)"

section \<open>The contract of a fixed-width codec\<close>

locale fixed_codec =
  fixes enc :: "'a \<Rightarrow> bytes" and dec :: "bytes \<Rightarrow> 'a" and width :: nat
  assumes width_pos: "0 < width"
    and length_enc: "length (enc x) = width"
    and dec_enc: "dec (enc x @ r) = x"
    and enc_dec: "width \<le> length b \<Longrightarrow> enc (dec b) = take width b"
begin

lemma dec_enc_exact: "dec (enc x) = x"
  using dec_enc [of x "[]"] by simp

lemma enc_inj: "enc x = enc y \<longleftrightarrow> x = y"
  using dec_enc_exact by metis

lemma dec_local: "width \<le> length b \<Longrightarrow> dec (take width b) = dec b"
  using enc_dec dec_enc_exact by metis

lemma enc_prefix_free: "enc x @ r = enc y @ s \<longleftrightarrow> x = y \<and> r = s"
  using dec_enc length_enc by (metis append_eq_append_conv)

lemma seq_length: "length (concat (map enc xs)) = width * length xs"
  by (induction xs) (simp_all add: length_enc)

lemma seq_round_trip: "map dec (chunks width (concat (map enc xs))) = xs"
  by (induction xs) (simp_all add: chunks_append width_pos length_enc dec_enc_exact)

lemma seq_round_trip': "width dvd length b \<Longrightarrow> concat (map (enc \<circ> dec) (chunks width b)) = b"
  using concat_chunks [OF width_pos, of b] chunks_lengths [OF width_pos, of b]
  by (metis (mono_tags, lifting) comp_apply enc_dec list.map_ident_strong nle_le take_all)

end

section \<open>Lengths and round trips\<close>

lemma length_br_enc [simp, len_simps]:
  "length (br_enc16le y) = 2" "length (br_enc16be y) = 2"
  "length (br_enc32le x) = 4" "length (br_enc32be x) = 4"
  "length (br_enc64le z) = 8" "length (br_enc64be z) = 8"
  by (simp_all add: br_enc16le_def br_enc16be_def br_enc32le_def br_enc32be_def
      br_enc64le_def br_enc64be_def)

lemmas codec_defs =
  br_enc16le_def br_enc16be_def br_dec16le_def br_dec16be_def
  br_enc32le_def br_enc32be_def br_dec32le_def br_dec32be_def

lemma take_2: "2 \<le> length b \<Longrightarrow> take 2 b = [b ! 0, b ! 1]"
  by (cases b; cases "tl b") auto

lemma take_4: "4 \<le> length b \<Longrightarrow> take 4 b = [b ! 0, b ! 1, b ! 2, b ! 3]"
  using list_eq_4 [of "take 4 b"] by simp

interpretation le16: fixed_codec "\<lambda>x :: u16. br_enc16le (ucast x)" "\<lambda>b. ucast (br_dec16le b)" 2
proof unfold_locales
  show "ucast (br_dec16le (br_enc16le (ucast x) @ r)) = x" for x :: u16 and r
    by (rule word_eq_bitwiseI) (simp add: codec_defs bit_simps upt_bits)
  show "2 \<le> length b \<Longrightarrow> br_enc16le (ucast (ucast (br_dec16le b) :: u16)) = take 2 b" for b
    unfolding codec_defs take_2 list.inject
    by (intro conjI refl; rule word_eq_bitwiseI; simp add: bit_simps upt_bits)
qed simp_all

interpretation be16: fixed_codec "\<lambda>x :: u16. br_enc16be (ucast x)" "\<lambda>b. ucast (br_dec16be b)" 2
proof unfold_locales
  show "ucast (br_dec16be (br_enc16be (ucast x) @ r)) = x" for x :: u16 and r
    by (rule word_eq_bitwiseI) (simp add: codec_defs bit_simps upt_bits)
  show "2 \<le> length b \<Longrightarrow> br_enc16be (ucast (ucast (br_dec16be b) :: u16)) = take 2 b" for b
    unfolding codec_defs take_2 list.inject
    by (intro conjI refl; rule word_eq_bitwiseI; simp add: bit_simps upt_bits)
qed simp_all

interpretation le32: fixed_codec br_enc32le br_dec32le 4
proof unfold_locales
  show "br_dec32le (br_enc32le x @ r) = x" for x r
    by (rule word_eq_bitwiseI) (simp add: codec_defs bit_simps upt_bits)
  show "4 \<le> length b \<Longrightarrow> br_enc32le (br_dec32le b) = take 4 b" for b
    unfolding codec_defs take_4 list.inject
    by (intro conjI refl; rule word_eq_bitwiseI; simp add: bit_simps upt_bits)
qed simp_all

interpretation be32: fixed_codec br_enc32be br_dec32be 4
proof unfold_locales
  show "br_dec32be (br_enc32be x @ r) = x" for x r
    by (rule word_eq_bitwiseI) (simp add: codec_defs bit_simps upt_bits)
  show "4 \<le> length b \<Longrightarrow> br_enc32be (br_dec32be b) = take 4 b" for b
    unfolding codec_defs take_4 list.inject
    by (intro conjI refl; rule word_eq_bitwiseI; simp add: bit_simps upt_bits)
qed simp_all

lemma u64_halves:
  "ucast (ucast x :: u32) OR push_bit 32 (ucast (ucast (drop_bit 32 x) :: u32)) = (x :: u64)"
  "push_bit 32 (ucast (ucast (drop_bit 32 x) :: u32)) OR ucast (ucast x :: u32) = (x :: u64)"
  by (rule word_eq_bitwiseI; simp add: bit_simps upt_bits)+

lemma u64_low_high:
  "ucast (ucast (a :: u32) OR push_bit 32 (ucast (b :: u32)) :: u64) = a"
  "ucast (drop_bit 32 (ucast (a :: u32) OR push_bit 32 (ucast (b :: u32)) :: u64)) = b"
  by (rule word_eq_bitwiseI; simp add: bit_simps upt_bits)+

lemma take_8_split: "take 8 b = take 4 b @ take 4 (drop 4 b)"
  using take_add [of 4 4 b] by simp

interpretation le64: fixed_codec br_enc64le br_dec64le 8
proof unfold_locales
  show "br_dec64le (br_enc64le x @ r) = x" for x r
    by (simp add: br_dec64le_def br_enc64le_def le32.dec_enc u64_halves)
  show "8 \<le> length b \<Longrightarrow> br_enc64le (br_dec64le b) = take 8 b" for b
    by (simp add: br_dec64le_def br_enc64le_def u64_low_high le32.enc_dec take_8_split
        del: drop_bit_or)
qed simp_all

interpretation be64: fixed_codec br_enc64be br_dec64be 8
proof unfold_locales
  show "br_dec64be (br_enc64be x @ r) = x" for x r
    by (simp add: br_dec64be_def br_enc64be_def be32.dec_enc u64_halves)
  show "8 \<le> length b \<Longrightarrow> br_enc64be (br_dec64be b) = take 8 b" for b
    by (simp add: br_dec64be_def br_enc64be_def u64_low_high be32.enc_dec take_8_split or.commute
        del: drop_bit_or)
qed simp_all

lemmas codec_round_trips [simp, codec_simps] =
  le32.dec_enc be32.dec_enc le64.dec_enc be64.dec_enc
  le32.dec_enc_exact be32.dec_enc_exact le64.dec_enc_exact be64.dec_enc_exact

section \<open>The range codecs\<close>

lemma br_range_enc32be_concat:
  "num \<le> length v \<Longrightarrow> br_range_enc32be v num = concat (map br_enc32be (take num v))"
proof (induction v num rule: br_range_enc32be.induct)
  case (2 v num)
  then show ?case by (cases v) simp_all
qed simp

lemma length_br_range_enc32be [simp, len_simps]: "length (br_range_enc32be v num) = 4 * num"
  by (induction v num rule: br_range_enc32be.induct) simp_all

lemma length_br_range_dec32be [simp, len_simps]: "length (br_range_dec32be num b) = num"
  by (induction num b rule: br_range_dec32be.induct) simp_all

lemma br_range_dec32be_nth: "i < n \<Longrightarrow> br_range_dec32be n b ! i = br_dec32be (drop (4 * i) b)"
proof (induction n b arbitrary: i rule: br_range_dec32be.induct)
  case (2 n b)
  then show ?case by (cases i) (simp_all add: add.commute)
qed simp

lemma br_range_dec32be_enc [simp, codec_simps]:
  "num \<le> length v \<Longrightarrow> br_range_dec32be num (br_range_enc32be v num @ r) = take num v"
proof (induction v num rule: br_range_enc32be.induct)
  case (2 v num)
  then show ?case by (cases v) simp_all
qed simp

lemma br_range_enc32be_dec:
  "4 * num \<le> length b \<Longrightarrow> br_range_enc32be (br_range_dec32be num b) num = take (4 * num) b"
proof (induction num b rule: br_range_dec32be.induct)
  case (2 num b)
  then show ?case
    using take_add [of 4 "4 * num" b] by (simp add: be32.enc_dec)
qed simp

lemma br_swap32_bytes: "br_enc32le (br_swap32 x) = br_enc32be x"
  unfolding br_swap32_def br_enc32be_def br_enc32le_def Let_def list.inject
  by (intro conjI refl; rule word_eq_bitwiseI; simp add: bit_simps upt_bits)

end
