(* ===== verification/Sysrng.thy ===== *)
theory Sysrng
  imports Codec
begin

text \<open>
  The system seeders (\<open>rand/sysrng.c\<close>).  The \<open>rdrand\<close> instruction and the file operations act on an
  abstract world; the generator that is seeded is any type with an update operation.  The loop
  that reads from the device is a partial function: it does not return if the device keeps
  failing with \<open>EINTR\<close> or keeps returning no bytes.
\<close>

section \<open>Definitions\<close>

text \<open>At most ten attempts for one word.\<close>

fun rdrand_tries :: "('w \<Rightarrow> u32 option \<times> 'w) \<Rightarrow> nat \<Rightarrow> 'w \<Rightarrow> u32 option \<times> 'w" where
  "rdrand_tries rdrand32_step 0 w = (None, w)"
| "rdrand_tries rdrand32_step (Suc j) w =
    (case rdrand32_step w of (Some x, w) \<Rightarrow> (Some x, w) | (None, w) \<Rightarrow> rdrand_tries rdrand32_step j w)"

fun rdrand_words :: "('w \<Rightarrow> u32 option \<times> 'w) \<Rightarrow> nat \<Rightarrow> bytes \<Rightarrow> 'w \<Rightarrow> bytes option \<times> 'w" where
  "rdrand_words rdrand32_step 0 tmp w = (Some tmp, w)"
| "rdrand_words rdrand32_step (Suc n) tmp w =
    (case rdrand_tries rdrand32_step 10 w of (None, w) \<Rightarrow> (None, w)
     | (Some x, w) \<Rightarrow> rdrand_words rdrand32_step n (tmp @ br_enc32le x) w)"

definition seeder_rdrand :: "('w \<Rightarrow> u32 option \<times> 'w) \<Rightarrow> ('c \<Rightarrow> bytes \<Rightarrow> 'c) \<Rightarrow> 'c \<Rightarrow> 'w \<Rightarrow> bool \<times> 'c \<times> 'w" where
  "seeder_rdrand rdrand32_step update ctx w =
    (case rdrand_words rdrand32_step 8 [] w of (None, w) \<Rightarrow> (False, ctx, w) | (Some tmp, w) \<Rightarrow> (True, update ctx tmp, w))"

datatype read_result = Read_bytes bytes | Read_eintr | Read_error

record 'w file_ops =
  fo_open :: "'w \<Rightarrow> bool \<times> 'w"
  fo_read :: "nat \<Rightarrow> 'w \<Rightarrow> read_result \<times> 'w"
  fo_close :: "'w \<Rightarrow> 'w"

partial_function (option) urandom_loop :: "'w file_ops \<Rightarrow> bytes \<Rightarrow> 'w \<Rightarrow> (bytes \<times> 'w) option" where
  "urandom_loop F tmp w =
    (if length tmp < 32
     then case fo_read F (32 - length tmp) w of
       (Read_eintr, w) \<Rightarrow> urandom_loop F tmp w
     | (Read_error, w) \<Rightarrow> Some (tmp, w)
     | (Read_bytes b, w) \<Rightarrow> urandom_loop F (tmp @ b) w
     else Some (tmp, w))"

definition seeder_urandom :: "'w file_ops \<Rightarrow> ('c \<Rightarrow> bytes \<Rightarrow> 'c) \<Rightarrow> 'c \<Rightarrow> 'w \<Rightarrow> (bool \<times> 'c \<times> 'w) option" where
  "seeder_urandom F update ctx w =
    (case fo_open F w of (f, w) \<Rightarrow>
      if f
      then Option.bind (urandom_loop F [] w) (\<lambda>(tmp, w).
        let w = fo_close F w
        in if length tmp = 32 then Some (True, update ctx tmp, w) else Some (False, ctx, w))
      else Some (False, ctx, w))"

section \<open>What a successful seeding does\<close>

lemma rdrand_words_length: "rdrand_words r n tmp w = (Some t, w') \<Longrightarrow> length t = length tmp + 4 * n"
  by (induction n arbitrary: tmp w) (auto split: prod.splits option.splits)

text \<open>The generator is updated exactly when the seeder reports success, once, with 32 bytes.\<close>

theorem rdrand_seeds:
  "case seeder_rdrand r update ctx w of (ok, ctx', w') \<Rightarrow>
    if ok then \<exists>t. length t = 32 \<and> ctx' = update ctx t else ctx' = ctx"
  using rdrand_words_length [of r 8 "[]" w] by (auto simp: seeder_rdrand_def split: prod.splits option.splits)

theorem urandom_seeds:
  assumes "seeder_urandom F update ctx w = Some (ok, ctx', w')"
  shows "if ok then \<exists>t. length t = 32 \<and> ctx' = update ctx t else ctx' = ctx"
  using assms by (auto simp: seeder_urandom_def Let_def split: prod.splits if_splits bind_splits)

text \<open>A device that fills every read makes the seeding return.\<close>

theorem urandom_returns:
  assumes "\<And>n w. \<exists>b w'. fo_read F n w = (Read_bytes b, w') \<and> length b = n" "fst (fo_open F w)"
  shows "\<exists>t w'. seeder_urandom F update ctx w = Some (True, update ctx t, w') \<and> length t = 32"
proof -
  obtain w1 where o: "fo_open F w = (True, w1)" using assms(2) by (cases "fo_open F w") auto
  obtain b w2 where b: "fo_read F 32 w1 = (Read_bytes b, w2)" "length b = 32" using assms(1) by blast
  have "urandom_loop F b w2 = Some (b, w2)" using b(2) by (subst urandom_loop.simps) simp
  then have "urandom_loop F [] w1 = Some (b, w2)" using b by (subst urandom_loop.simps) simp
  then show ?thesis using b(2) by (auto simp: seeder_urandom_def o)
qed

end
