(* ===== verification/Sse.thy ===== *)
theory Sse
  imports Prelude
begin

text \<open>
  The vector type \<open>__m128i\<close> and the SSE intrinsics the AES-NI and PCLMULQDQ code uses, as the
  instruction set defines them: a register is a 128-bit word, read and written as lanes of 8, 32
  or 64 bits, lane 0 being the least significant.  The carry-less product of two 64-bit lanes is
  a sum of shifted copies without carries.
\<close>

section \<open>Lanes\<close>

definition lane :: "nat \<Rightarrow> u128 \<Rightarrow> 'a::len word" where
  "lane i x = ucast (drop_bit (i * LENGTH('a)) x)"

definition pack :: "'a::len word list \<Rightarrow> u128" where
  "pack ws = foldr (\<lambda>w acc. ucast w OR push_bit LENGTH('a) acc) ws 0"

section \<open>Intrinsics\<close>

definition mm_loadu_si128 :: "bytes \<Rightarrow> u128" where
  "mm_loadu_si128 bs = pack (take 16 bs)"

definition mm_storeu_si128 :: "u128 \<Rightarrow> bytes" where
  "mm_storeu_si128 x = map (\<lambda>i. lane i x) [0..<16]"

definition mm_xor_si128 :: "u128 \<Rightarrow> u128 \<Rightarrow> u128" where
  "mm_xor_si128 x y = x XOR y"

definition mm_or_si128 :: "u128 \<Rightarrow> u128 \<Rightarrow> u128" where
  "mm_or_si128 x y = x OR y"

definition mm_slli_si128 :: "u128 \<Rightarrow> nat \<Rightarrow> u128" where
  "mm_slli_si128 x n = push_bit (8 * n) x"

definition mm_shuffle_epi32 :: "u128 \<Rightarrow> nat \<Rightarrow> u128" where
  "mm_shuffle_epi32 x imm = pack (map (\<lambda>i. lane (imm div 4 ^ i mod 4) x :: u32) [0, 1, 2, 3])"

definition mm_insert_epi32 :: "u128 \<Rightarrow> u32 \<Rightarrow> nat \<Rightarrow> u128" where
  "mm_insert_epi32 x w k = pack (map (\<lambda>i. if i = k then w else lane i x) [0, 1, 2, 3])"

definition mm_slli_epi64 :: "u128 \<Rightarrow> nat \<Rightarrow> u128" where
  "mm_slli_epi64 x n = pack (map (\<lambda>i. push_bit n (lane i x :: u64)) [0, 1])"

definition mm_srli_epi64 :: "u128 \<Rightarrow> nat \<Rightarrow> u128" where
  "mm_srli_epi64 x n = pack (map (\<lambda>i. drop_bit n (lane i x :: u64)) [0, 1])"

definition mm_unpacklo_epi64 :: "u128 \<Rightarrow> u128 \<Rightarrow> u128" where
  "mm_unpacklo_epi64 x y = pack [lane 0 x :: u64, lane 0 y]"

definition mm_shuffle_pd :: "u128 \<Rightarrow> u128 \<Rightarrow> nat \<Rightarrow> u128" where
  "mm_shuffle_pd x y imm = pack [lane (imm mod 2) x :: u64, lane (imm div 2 mod 2) y]"

text \<open>The arguments of \<open>_mm_set_epi8\<close> come most significant byte first.\<close>

definition mm_set_epi8 :: "bytes \<Rightarrow> u128" where
  "mm_set_epi8 bs = pack (rev bs)"

definition mm_shuffle_epi8 :: "u128 \<Rightarrow> u128 \<Rightarrow> u128" where
  "mm_shuffle_epi8 x idx = pack (map (\<lambda>i.
     let c = lane i idx :: u8 in if bit c 7 then 0 else lane (unat (c AND 15)) x :: u8) [0..<16])"

definition clmul64 :: "u64 \<Rightarrow> u64 \<Rightarrow> u128" where
  "clmul64 a b = foldr (\<lambda>i acc. if bit a i then acc XOR push_bit i (ucast b) else acc) [0..<64] 0"

definition mm_clmulepi64_si128 :: "u128 \<Rightarrow> u128 \<Rightarrow> nat \<Rightarrow> u128" where
  "mm_clmulepi64_si128 x y imm = clmul64 (lane (imm mod 2) x) (lane (imm div 16 mod 2) y)"

section \<open>Laws of lanes\<close>

lemma bit_lane: "bit (lane i x :: 'a::len word) n \<longleftrightarrow> n < LENGTH('a) \<and> bit x (i * LENGTH('a) + n)"
  by (simp add: lane_def bit_simps)

lemma bit_pack:
  "n < 128 \<Longrightarrow> bit (pack (ws :: 'a::len word list)) n \<longleftrightarrow>
    n div LENGTH('a) < length ws \<and> bit (ws ! (n div LENGTH('a))) (n mod LENGTH('a))"
proof (induction ws arbitrary: n)
  case Nil
  then show ?case by (simp add: pack_def)
next
  case (Cons w ws)
  have p: "pack (w # ws) = ucast w OR push_bit LENGTH('a) (pack ws)" by (simp add: pack_def)
  show ?case
  proof (cases "n < LENGTH('a)")
    case True
    then show ?thesis using Cons.prems by (simp add: p bit_simps)
  next
    case False
    define m where "m = n - LENGTH('a)"
    have n: "n = m + LENGTH('a)" using False by (simp add: m_def)
    have "m < 128" using Cons.prems by (simp add: n)
    moreover have "(m + LENGTH('a)) div LENGTH('a) = Suc (m div LENGTH('a))" by (simp add: div_add_self2)
    ultimately show ?thesis using Cons by (simp add: p n bit_simps)
  qed
qed

lemma lane_pack [simp]:
  fixes ws :: "'a::len word list"
  assumes "i < length ws" "Suc i * LENGTH('a) \<le> 128"
  shows "lane i (pack ws) = ws ! i"
proof (rule bit_word_eqI)
  fix n assume n: "n < LENGTH('a)"
  then have "i * LENGTH('a) + n < 128" using assms(2) by simp
  moreover have "(i * LENGTH('a) + n) div LENGTH('a) = i" using n by simp
  ultimately show "bit (lane i (pack ws) :: 'a word) n = bit (ws ! i) n"
    using n assms(1) by (simp add: bit_lane bit_pack)
qed

text \<open>Two registers are equal when their lanes are.\<close>

lemma lanes_eqI:
  assumes "\<And>i. i * LENGTH('a::len) < 128 \<Longrightarrow> (lane i x :: 'a word) = lane i y"
  shows "x = y"
proof (rule bit_word_eqI)
  fix n assume "n < LENGTH(128)"
  then have n: "n < 128" by simp
  define i where "i = n div LENGTH('a)"
  have "i * LENGTH('a) < 128" using n unfolding i_def by (metis div_times_less_eq_dividend le_less_trans)
  from assms [OF this] have "bit (lane i x :: 'a word) (n mod LENGTH('a)) = bit (lane i y :: 'a word) (n mod LENGTH('a))"
    by simp
  then show "bit x n = bit y n" by (simp add: bit_lane i_def)
qed

lemma lane32_eqI:
  assumes "(lane 0 x :: u32) = lane 0 y" "(lane 1 x :: u32) = lane 1 y"
    "(lane 2 x :: u32) = lane 2 y" "(lane 3 x :: u32) = lane 3 y"
  shows "x = y"
proof (rule lanes_eqI [where 'a = 32])
  fix i assume "i * LENGTH(32) < 128"
  then have "i = 0 \<or> i = 1 \<or> i = 2 \<or> i = 3" by auto
  then show "(lane i x :: u32) = lane i y" using assms by auto
qed

lemma lane64_eqI:
  assumes "(lane 0 x :: u64) = lane 0 y" "(lane 1 x :: u64) = lane 1 y"
  shows "x = y"
proof (rule lanes_eqI [where 'a = 64])
  fix i assume "i * LENGTH(64) < 128"
  then have "i = 0 \<or> i = 1" by auto
  then show "(lane i x :: u64) = lane i y" using assms by auto
qed

lemma lane_xor: "lane i (x XOR y) = lane i x XOR lane i y"
  by (simp add: lane_def bit_eq_iff) (simp add: bit_simps)

lemma lane_or: "lane i (x OR y) = lane i x OR lane i y"
  by (rule bit_word_eqI) (auto simp: bit_lane bit_simps)

lemma lane_push:
  "lane i (push_bit (k * LENGTH('a)) x) = (if i < k then 0 else lane (i - k) x :: 'a::len word)"
  if "Suc i * LENGTH('a) \<le> 128"
proof (rule bit_word_eqI)
  fix n assume n: "n < LENGTH('a)"
  have "i * LENGTH('a) + n < 128" using that n by simp
  moreover have "k * LENGTH('a) \<le> i * LENGTH('a) + n \<longleftrightarrow> k \<le> i"
  proof
    assume "k * LENGTH('a) \<le> i * LENGTH('a) + n"
    also have "\<dots> < Suc i * LENGTH('a)" using n by simp
    finally show "k \<le> i" by (metis less_Suc_eq_le mult_less_cancel2)
  next
    assume "k \<le> i"
    then show "k * LENGTH('a) \<le> i * LENGTH('a) + n" by (simp add: trans_le_add1)
  qed
  moreover have "k \<le> i \<Longrightarrow> i * LENGTH('a) + n - k * LENGTH('a) = (i - k) * LENGTH('a) + n"
    by (simp add: diff_mult_distrib)
  ultimately show "bit (lane i (push_bit (k * LENGTH('a)) x) :: 'a word) n
      = bit (if i < k then 0 else lane (i - k) x :: 'a word) n"
    using n by (auto simp: bit_lane bit_simps)
qed

lemma load_store [simp]: "mm_loadu_si128 (mm_storeu_si128 x) = x"
proof (rule lanes_eqI [where 'a = 8])
  fix i assume "i * LENGTH(8) < 128"
  then show "(lane i (mm_loadu_si128 (mm_storeu_si128 x)) :: u8) = lane i x"
    by (simp add: mm_loadu_si128_def mm_storeu_si128_def)
qed

lemma store_load [simp]: "16 \<le> length bs \<Longrightarrow> mm_storeu_si128 (mm_loadu_si128 bs) = take 16 bs"
  by (rule nth_equalityI) (simp_all add: mm_loadu_si128_def mm_storeu_si128_def)

lemma length_store [simp, len_simps]: "length (mm_storeu_si128 x) = 16"
  by (simp add: mm_storeu_si128_def)

lemma store_xor: "mm_storeu_si128 (x XOR y) = map2 (XOR) (mm_storeu_si128 x) (mm_storeu_si128 y)"
  by (rule nth_equalityI) (simp_all add: mm_storeu_si128_def lane_xor)

end
