(* ===== verification/Const_Time.thy ===== *)
theory Const_Time
  imports Prelude
begin

text \<open>
  The constant-time primitives of BearSSL's \<open>inner.h\<close>: branch-free comparisons, multiplexers,
  minimum, maximum, bit length and the 31-bit and 15-bit multiplications.  Boolean control
  values are the words 0 and 1.  A C \<open>int32_t\<close> is a 32-bit word read through \<^const>\<open>sint\<close>.
\<close>

section \<open>Definitions\<close>

definition NOT_ct :: "u32 \<Rightarrow> u32" where
  "NOT_ct ctl = ctl XOR 1"

definition MUX :: "u32 \<Rightarrow> u32 \<Rightarrow> u32 \<Rightarrow> u32" where
  "MUX ctl x y = y XOR (- ctl AND (x XOR y))"

definition EQ :: "u32 \<Rightarrow> u32 \<Rightarrow> u32" where
  "EQ x y = (let q = x XOR y in NOT_ct (drop_bit 31 (q OR - q)))"

definition NEQ :: "u32 \<Rightarrow> u32 \<Rightarrow> u32" where
  "NEQ x y = (let q = x XOR y in drop_bit 31 (q OR - q))"

definition GT :: "u32 \<Rightarrow> u32 \<Rightarrow> u32" where
  "GT x y = (let z = y - x in drop_bit 31 (z XOR ((x XOR y) AND (x XOR z))))"

definition GE :: "u32 \<Rightarrow> u32 \<Rightarrow> u32" where
  "GE x y = NOT_ct (GT y x)"

definition LT :: "u32 \<Rightarrow> u32 \<Rightarrow> u32" where
  "LT x y = GT y x"

definition LE :: "u32 \<Rightarrow> u32 \<Rightarrow> u32" where
  "LE x y = NOT_ct (GT x y)"

definition CMP :: "u32 \<Rightarrow> u32 \<Rightarrow> i32" where
  "CMP x y = GT x y OR - GT y x"

definition EQ0 :: "i32 \<Rightarrow> u32" where
  "EQ0 x = (let q = x in drop_bit 31 (NOT (q OR - q)))"

definition GT0 :: "i32 \<Rightarrow> u32" where
  "GT0 x = (let q = x in drop_bit 31 (NOT q AND - q))"

definition GE0 :: "i32 \<Rightarrow> u32" where
  "GE0 x = drop_bit 31 (NOT x)"

definition LT0 :: "i32 \<Rightarrow> u32" where
  "LT0 x = drop_bit 31 x"

definition LE0 :: "i32 \<Rightarrow> u32" where
  "LE0 x = (let q = x in drop_bit 31 (q OR NOT (- q)))"

definition BIT_LENGTH :: "u32 \<Rightarrow> u32" where
  "BIT_LENGTH x =
    (let k = NEQ x 0;
         c = GT x 0xFFFF; x = MUX c (drop_bit 16 x) x; k = k + push_bit 4 c;
         c = GT x 0x00FF; x = MUX c (drop_bit 8 x) x; k = k + push_bit 3 c;
         c = GT x 0x000F; x = MUX c (drop_bit 4 x) x; k = k + push_bit 2 c;
         c = GT x 0x0003; x = MUX c (drop_bit 2 x) x; k = k + push_bit 1 c
     in k + GT x 0x0001)"

definition MIN_ct :: "u32 \<Rightarrow> u32 \<Rightarrow> u32" where
  "MIN_ct x y = MUX (GT x y) y x"

definition MAX_ct :: "u32 \<Rightarrow> u32 \<Rightarrow> u32" where
  "MAX_ct x y = MUX (GT x y) x y"

definition MUL :: "u32 \<Rightarrow> u32 \<Rightarrow> u64" where
  "MUL x y = ucast x * ucast y"

text \<open>The two variants of the 31-bit product: the default one and the one selected by
  \<open>BR_CT_MUL31\<close>; likewise for \<open>BR_CT_MUL15\<close>.\<close>

definition MUL31 :: "u32 \<Rightarrow> u32 \<Rightarrow> u64" where
  "MUL31 x y = ucast x * ucast y"

definition MUL31_lo :: "u32 \<Rightarrow> u32 \<Rightarrow> u32" where
  "MUL31_lo x y = (x * y) AND 0x7FFFFFFF"

definition MUL31_ct :: "u32 \<Rightarrow> u32 \<Rightarrow> u64" where
  "MUL31_ct x y =
    ucast (x OR 0x80000000) * ucast (y OR 0x80000000)
      - push_bit 31 (ucast x) - push_bit 31 (ucast y) - push_bit 62 1"

definition MUL31_lo_ct :: "u32 \<Rightarrow> u32 \<Rightarrow> u32" where
  "MUL31_lo_ct x y =
    (let xl = (x AND 0xFFFF) OR 0x80000000;
         xh = drop_bit 16 x OR 0x80000000;
         yl = (y AND 0xFFFF) OR 0x80000000;
         yh = drop_bit 16 y OR 0x80000000
     in (xl * yl + push_bit 16 (xl * yh + xh * yl)) AND 0x7FFFFFFF)"

definition MUL15 :: "u32 \<Rightarrow> u32 \<Rightarrow> u32" where
  "MUL15 x y = x * y"

definition MUL15_ct :: "u32 \<Rightarrow> u32 \<Rightarrow> u32" where
  "MUL15_ct x y = ((x OR 0x80000000) * (y OR 0x80000000)) AND 0x7FFFFFFF"

text \<open>The two variants of the arithmetic shift; the second one is selected by
  \<open>BR_NO_ARITH_SHIFT\<close>.\<close>

definition ARSH :: "i32 \<Rightarrow> nat \<Rightarrow> i32" where
  "ARSH x n = signed_drop_bit n x"

definition ARSH_portable :: "i32 \<Rightarrow> nat \<Rightarrow> i32" where
  "ARSH_portable x n = drop_bit n x OR push_bit (32 - n) (- drop_bit 31 x)"

section \<open>Specifications\<close>

lemma drop_bit_top32: "drop_bit 31 (x :: u32) = of_bool (bit x 31)"
proof (rule bit_word_eqI)
  fix n assume "n < LENGTH(32)"
  show "bit (drop_bit 31 x) n = bit (of_bool (bit x 31) :: u32) n"
    by (cases n) (simp_all add: bit_simps bit_of_bool_iff)
qed

lemma bit31_iff: "bit (x :: u32) 31 \<longleftrightarrow> 2 ^ 31 \<le> uint x"
proof -
  have "uint x < 2 ^ 32" using uint_lt2p [of x] by simp
  then have "uint x div 2 ^ 31 = 0 \<or> uint x div 2 ^ 31 = 1"
    by (auto simp: div_eq_0_iff)
  moreover have "bit x 31 \<longleftrightarrow> odd (uint x div 2 ^ 31)"
    by (metis bit_iff_odd bit_uint_iff bit_imp_le_length)
  ultimately show ?thesis by (auto simp: div_eq_0_iff)
qed

lemma uint32_bounds: "0 \<le> uint (x :: u32)" "uint x < 4294967296"
  using uint_lt2p [of x] by simp_all

lemma uint_uminus32: "uint (- x :: u32) = (if x = 0 then 0 else 4294967296 - uint x)"
proof -
  have "uint (- x) = uint (0 - x)" by simp
  also have "\<dots> = (if x = 0 then 0 else 4294967296 - uint x)"
    by (subst uint_sub_if') (simp add: uint_0_iff not_le)
  finally show ?thesis .
qed

lemma bit31_neg: "x \<noteq> 0 \<Longrightarrow> bit (x :: u32) 31 \<or> bit (- x) 31"
  using uint32_bounds [of x] unfolding bit31_iff uint_uminus32 by simp linarith

lemma xor_eq_0_word: "x XOR y = 0 \<longleftrightarrow> x = (y :: 'a::len word)"
  by (metis xor.assoc xor.left_neutral xor_self_eq xor.right_neutral)

lemma NOT_ct_of_bool [ct_simps]: "NOT_ct (of_bool b) = of_bool (\<not> b)"
  by (cases b) (simp_all add: NOT_ct_def)

lemma MUX_1: "MUX 1 x y = x"
  by (rule bit_word_eqI) (auto simp: MUX_def bit_simps)

lemma MUX_0: "MUX 0 x y = y"
  by (simp add: MUX_def)

lemma MUX_spec [ct_simps]: "MUX (of_bool c) x y = (if c then x else y)"
  by (simp add: MUX_0 MUX_1)

lemma NEQ_spec [ct_simps]: "NEQ x y = of_bool (x \<noteq> y)"
  using bit31_neg [of "x XOR y"]
  by (cases "x = y") (auto simp: NEQ_def Let_def drop_bit_top32 bit_or_iff xor_eq_0_word)

lemma EQ_spec [ct_simps]: "EQ x y = of_bool (x = y)"
  using NEQ_spec [of x y] by (simp add: EQ_def NEQ_def Let_def NOT_ct_of_bool)

text \<open>The comparison by the sign of \<open>y - x\<close>, corrected when the operands lie on different
  sides of \<open>2^31\<close>.\<close>

lemma sign_borrow:
  fixes X Y Z :: int
  assumes "0 \<le> X" "0 \<le> Y" "X < 4294967296" "Y < 4294967296"
    and "Z = (if X \<le> Y then Y - X else Y - X + 4294967296)"
  shows "((2 ^ 31 \<le> Z) \<noteq> (((2 ^ 31 \<le> X) \<noteq> (2 ^ 31 \<le> Y)) \<and> ((2 ^ 31 \<le> X) \<noteq> (2 ^ 31 \<le> Z)))) \<longleftrightarrow> Y < X"
  using assms by auto

lemma GT_spec [ct_simps]: "GT x y = of_bool (x > y)"
proof -
  have "uint (y - x) = (if uint x \<le> uint y then uint y - uint x else uint y - uint x + 4294967296)"
    by (simp add: uint_sub_if')
  then have "bit ((y - x) XOR ((x XOR y) AND (x XOR (y - x)))) 31 \<longleftrightarrow> uint y < uint x"
    unfolding bit_xor_iff bit_and_iff unfolding bit31_iff
    by (intro sign_borrow uint32_bounds)
  then show ?thesis
    by (simp only: GT_def Let_def drop_bit_top32 word_less_def)
qed

lemma GE_spec [ct_simps]: "GE x y = of_bool (x \<ge> y)"
  by (simp add: GE_def GT_spec NOT_ct_of_bool not_less)

lemma LT_spec [ct_simps]: "LT x y = of_bool (x < y)"
  by (simp add: LT_def GT_spec)

lemma LE_spec [ct_simps]: "LE x y = of_bool (x \<le> y)"
  by (simp add: LE_def GT_spec NOT_ct_of_bool not_less)

lemma CMP_spec: "sint (CMP x y) = (if x < y then -1 else if x = y then 0 else 1)"
  by (auto simp: CMP_def GT_spec)

lemma sint_0_iff: "sint (x :: i32) = 0 \<longleftrightarrow> x = 0"
  by (metis signed_0 signed_word_eqI)

lemma sint_sign32: "bit (x :: i32) 31 \<longleftrightarrow> sint x < 0"
  using bit_last_iff [of x] by simp

lemma EQ0_spec [ct_simps]: "EQ0 x = of_bool (sint x = 0)"
  using bit31_neg [of x]
  by (cases "x = 0") (auto simp: EQ0_def Let_def drop_bit_top32 bit_or_iff bit_not_iff sint_0_iff)

lemma GE0_spec [ct_simps]: "GE0 x = of_bool (sint x \<ge> 0)"
  by (simp add: GE0_def drop_bit_top32 bit_not_iff not_less flip: sint_sign32)
    (simp add: sint_sign32 not_less)

lemma LT0_spec [ct_simps]: "LT0 x = of_bool (sint x < 0)"
  by (simp add: LT0_def drop_bit_top32 sint_sign32)

lemma GT0_spec [ct_simps]: "GT0 x = of_bool (sint x > 0)"
proof -
  have "bit (NOT x AND - x) 31 \<longleftrightarrow> \<not> bit x 31 \<and> x \<noteq> 0"
    using bit31_neg [of x] by (auto simp: bit_and_iff bit_not_iff)
  moreover have "0 < sint x \<longleftrightarrow> \<not> bit x 31 \<and> x \<noteq> 0"
    by (auto simp: sint_sign32 order.strict_iff_order sint_0_iff)
  ultimately show ?thesis
    by (simp only: GT0_def Let_def drop_bit_top32)
qed

lemma LE0_spec [ct_simps]: "LE0 x = of_bool (sint x \<le> 0)"
proof -
  have "bit (x OR NOT (- x)) 31 \<longleftrightarrow> bit x 31 \<or> x = 0"
    using bit31_neg [of x] by (auto simp: bit_or_iff bit_not_iff)
  moreover have "sint x \<le> 0 \<longleftrightarrow> bit x 31 \<or> x = 0"
    by (auto simp: sint_sign32 order.strict_iff_order sint_0_iff)
  ultimately show ?thesis
    by (simp only: LE0_def Let_def drop_bit_top32)
qed

lemma MIN_ct_spec [ct_simps]: "MIN_ct x y = min x y"
  by (auto simp: MIN_ct_def GT_spec MUX_spec min_def dest: leD)

lemma MAX_ct_spec [ct_simps]: "MAX_ct x y = max x y"
  by (auto simp: MAX_ct_def GT_spec MUX_spec max_def)

subsection \<open>Bit length\<close>

fun blen :: "nat \<Rightarrow> nat" where
  "blen n = (if n = 0 then 0 else Suc (blen (n div 2)))"

declare blen.simps [simp del]

lemma blen_shift: "2 ^ m \<le> n \<Longrightarrow> blen n = m + blen (n div 2 ^ m)"
proof (induction m arbitrary: n)
  case (Suc m)
  then have "2 ^ m \<le> n div 2" by auto
  moreover have "n \<noteq> 0" using Suc.prems by (metis not_less zero_less_power zero_less_numeral)
  ultimately
show ?case
    using Suc.IH [of "n div 2"] by (simp add: blen.simps [of n] div_mult2_eq)
qed simp

lemma blen_bounds: "n < 2 ^ blen n" "0 < n \<Longrightarrow> 2 ^ (blen n - 1) \<le> n"
proof (induction n rule: blen.induct)
  case (1 n)
  { case 1
    then show ?case using \<open>n \<noteq> 0 \<Longrightarrow> n div 2 < 2 ^ blen (n div 2)\<close>
      by (cases "n = 0") (simp_all add: blen.simps [of n])
  next
    case 2
    show ?case
    proof (cases "n div 2 = 0")
      case True
      with 2 show ?thesis by (simp add: blen.simps)
    next
      case False
      then have "2 ^ (blen (n div 2) - 1) \<le> n div 2" "0 < blen (n div 2)"
        using 1(2) 2 by (auto simp: blen.simps [of "n div 2"])
      then show ?thesis using 2 by (cases "blen (n div 2)") (auto simp: blen.simps [of n])
    qed }
qed

text \<open>One halving step of the search: the test, the shift and the contribution to \<open>k\<close>.\<close>

lemma blen_step:
  fixes x :: "'a::len word"
  assumes "unat x < 2 ^ (2 * m)" "c \<longleftrightarrow> 2 ^ m \<le> unat x"
  shows "unat (if c then drop_bit m x else x) < 2 ^ m"
    and "blen (unat x) = of_bool c * m + blen (unat (if c then drop_bit m x else x))"
proof -
  have d: "unat (drop_bit m x) = unat x div 2 ^ m"
    by (metis drop_bit_eq_div unat_drop_bit_eq)
  show "unat (if c then drop_bit m x else x) < 2 ^ m"
    using assms by (simp add: d less_mult_imp_div_less power_add mult_2)
  show "blen (unat x) = of_bool c * m + blen (unat (if c then drop_bit m x else x))"
    using assms blen_shift [of m "unat x"] by (simp add: d)
qed

lemma blen_small: "n < 4 \<Longrightarrow> blen n = of_bool (n \<noteq> 0) + of_bool (1 < n)"
proof -
  assume "n < 4"
  then have "n = 0 \<or> n = 1 \<or> n = 2 \<or> n = 3" by arith
  then show ?thesis by (elim disjE) (simp_all add: blen.simps)
qed

lemma drop_step_zero_iff:
  fixes x :: u32
  assumes "c \<longleftrightarrow> 2 ^ m \<le> unat x"
  shows "(if c then drop_bit m x else x) = 0 \<longleftrightarrow> x = 0"
proof -
  have "unat (drop_bit m x) = unat x div 2 ^ m"
    by (metis drop_bit_eq_div unat_drop_bit_eq)
  moreover have "0 < unat x" if "2 ^ m \<le> unat x"
    using that zero_less_power [of "2 :: nat" m] by linarith
  ultimately show ?thesis using assms by (auto simp: unat_eq_0 [symmetric] div_eq_0_iff)
qed

lemma BIT_LENGTH_blen: "BIT_LENGTH x = of_nat (blen (unat x))"
proof -
  define c1 where "c1 \<longleftrightarrow> x > 0xFFFF"
  define x1 where "x1 = (if c1 then drop_bit 16 x else x)"
  define c2 where "c2 \<longleftrightarrow> x1 > 0xFF"
  define x2 where "x2 = (if c2 then drop_bit 8 x1 else x1)"
  define c3 where "c3 \<longleftrightarrow> x2 > 0xF"
  define x3 where "x3 = (if c3 then drop_bit 4 x2 else x2)"
  define c4 where "c4 \<longleftrightarrow> x3 > 3"
  define x4 where "x4 = (if c4 then drop_bit 2 x3 else x3)"
  have c: "c1 \<longleftrightarrow> 2 ^ 16 \<le> unat x" "c2 \<longleftrightarrow> 2 ^ 8 \<le> unat x1"
    "c3 \<longleftrightarrow> 2 ^ 4 \<le> unat x2" "c4 \<longleftrightarrow> 2 ^ 2 \<le> unat x3"
    by (auto simp: c1_def c2_def c3_def c4_def word_less_nat_alt)
  note d1 = blen_step [of x 16 c1, folded x1_def, OF _ c(1)]
  note d2 = blen_step [of x1 8 c2, folded x2_def, OF _ c(2)]
  note d3 = blen_step [of x2 4 c3, folded x3_def, OF _ c(3)]
  note d4 = blen_step [of x3 2 c4, folded x4_def, OF _ c(4)]
  have b0: "unat x < 2 ^ (2 * 16)" using unat_lt_pow [of x] by simp
  have b1: "unat x1 < 2 ^ (2 * 8)" using d1(1) [OF b0] by simp
  have b2: "unat x2 < 2 ^ (2 * 4)" using d2(1) [OF b1] by simp
  have b3: "unat x3 < 2 ^ (2 * 2)" using d3(1) [OF b2] by simp
  have b4: "unat x4 < 4" using d4(1) [OF b3] by simp
  have "x4 = 0 \<longleftrightarrow> x = 0"
    using drop_step_zero_iff [OF c(1)] drop_step_zero_iff [OF c(2)]
      drop_step_zero_iff [OF c(3)] drop_step_zero_iff [OF c(4)]
    by (simp add: x1_def x2_def x3_def x4_def)
  moreover have "1 < unat x4 \<longleftrightarrow> x4 > 1" by (simp add: word_less_nat_alt)
  ultimately have "of_nat (blen (unat x)) =
      of_bool (x \<noteq> 0) + of_bool c1 * 16 + of_bool c2 * 8 + of_bool c3 * 4 + of_bool c4 * 2
        + (of_bool (x4 > 1) :: u32)"
    using d1(2) [OF b0] d2(2) [OF b1] d3(2) [OF b2] d4(2) [OF b3] blen_small [OF b4]
    by (simp add: unat_eq_0)
  moreover have "BIT_LENGTH x = of_bool (x \<noteq> 0) + push_bit 4 (of_bool c1) + push_bit 3 (of_bool c2)
      + push_bit 2 (of_bool c3) + push_bit 1 (of_bool c4) + of_bool (x4 > 1)"
    unfolding BIT_LENGTH_def Let_def GT_spec NEQ_spec MUX_spec
      c1_def x1_def c2_def x2_def c3_def x3_def c4_def x4_def ..
  ultimately show ?thesis by (simp add: push_bit_eq_mult)
qed

lemma BIT_LENGTH_spec:
  "unat x < 2 ^ unat (BIT_LENGTH x)"
  "x \<noteq> 0 \<Longrightarrow> 2 ^ (unat (BIT_LENGTH x) - 1) \<le> unat x"
  "unat (BIT_LENGTH x) \<le> 32"
proof -
  have le: "blen (unat x) \<le> 32"
  proof (rule ccontr)
    assume "\<not> blen (unat x) \<le> 32"
    then have "(2::nat) ^ 32 \<le> 2 ^ (blen (unat x) - 1)"
      by (intro power_increasing) auto
    moreover have "0 < unat x"
      using \<open>\<not> blen (unat x) \<le> 32\<close> by (auto intro: gr0I simp: blen.simps [of 0])
    ultimately show False
      using blen_bounds(2) [of "unat x"] unat_lt_pow [of x] by simp
  qed
  then have u: "unat (BIT_LENGTH x) = blen (unat x)"
    by (simp add: BIT_LENGTH_blen unat_of_nat)
  show "unat x < 2 ^ unat (BIT_LENGTH x)" using blen_bounds(1) by (simp add: u)
  show "x \<noteq> 0 \<Longrightarrow> 2 ^ (unat (BIT_LENGTH x) - 1) \<le> unat x"
    using blen_bounds(2) [of "unat x"] by (simp add: u unat_gt_0)
  show "unat (BIT_LENGTH x) \<le> 32" using le by (simp add: u)
qed

subsection \<open>Multiplications and the arithmetic shift\<close>

lemma or_top_add: "\<not> bit (x :: 'a::len word) n \<Longrightarrow> x OR 2 ^ n = x + 2 ^ n"
  by (rule disjunctive_add [symmetric]) (auto simp: bit_simps)

lemma ucast_or_top:
  fixes z :: u32
  assumes "\<not> bit z 31"
  shows "ucast (z OR 0x80000000) = (ucast z + 2 ^ 31 :: u64)"
proof -
  have "ucast (z OR 0x80000000) = (ucast z OR 2 ^ 31 :: u64)"
    by (rule word_eq_bitwiseI) (simp add: bit_simps upt_bits)
  also have "\<dots> = ucast z + 2 ^ 31"
    using assms by (intro or_top_add) (simp add: bit_simps)
  finally show ?thesis .
qed

lemma MUL31_ct_eq:
  assumes "\<not> bit x 31" "\<not> bit y 31"
  shows "MUL31_ct x y = MUL31 x y"
proof -
  have "(a + 2 ^ 31) * (b + 2 ^ 31) - a * 2 ^ 31 - b * 2 ^ 31 - 1 * 2 ^ 62 = a * b" for a b :: u64
    by (simp add: algebra_simps)
  then show ?thesis
    unfolding MUL31_ct_def MUL31_def push_bit_eq_mult
      ucast_or_top [OF assms(1)] ucast_or_top [OF assms(2)] .
qed

lemma take_bit_31_add: "take_bit 31 (w + 2 ^ 31 * t :: u32) = take_bit 31 w"
proof -
  have "w + 2 ^ 31 * t = of_nat (unat w + 2 ^ 31 * unat t)" by simp
  then have "unat (w + 2 ^ 31 * t) = (unat w + 2 ^ 31 * unat t) mod 2 ^ 32"
    by (simp only: unat_of_nat) simp
  then have "unat (w + 2 ^ 31 * t) mod 2 ^ 31 = unat w mod 2 ^ 31"
    by (simp add: mod_mod_cancel)
  then show ?thesis
    by (simp only: word_unat_eq_iff unsigned_take_bit_eq) (simp add: take_bit_eq_mod)
qed

lemma top_square: "(2 ^ 31 * 2 ^ 31 :: u32) = 0"
  by (simp only: exp_eq_zero_iff flip: power_add) simp

lemma top_product: "(a + 2 ^ 31) * (b + 2 ^ 31) = a * b + 2 ^ 31 * (a + b :: u32)"
proof -
  have "(a + h) * (b + h) = a * b + h * (a + b) + h * h" for h
    by (simp add: algebra_simps)
  from this [of "2 ^ 31"] show ?thesis by (simp only: top_square add_0_right)
qed

lemma and_7F: "(w :: u32) AND 0x7FFFFFFF = take_bit 31 w"
  by (rule word_eq_bitwiseI) (simp add: bit_simps upt_bits)

lemma and_FFFF: "(w :: u32) AND 0xFFFF = take_bit 16 w"
  by (rule word_eq_bitwiseI) (simp add: bit_simps upt_bits)

lemma MUL15_ct_eq:
  assumes "\<not> bit x 31" "\<not> bit y 31" "unat x * unat y < 2 ^ 31"
  shows "MUL15_ct x y = MUL15 x y"
proof -
  have "(x OR 2 ^ 31) * (y OR 2 ^ 31) = x * y + 2 ^ 31 * (x + y)"
    unfolding or_top_add [OF assms(1)] or_top_add [OF assms(2)] by (rule top_product)
  then have "MUL15_ct x y = take_bit 31 (x * y + 2 ^ 31 * (x + y))"
    unfolding MUL15_ct_def and_7F by simp
  also have "\<dots> = take_bit 31 (x * y)" by (rule take_bit_31_add)
  finally have "MUL15_ct x y = take_bit 31 (x * y)" .
  moreover have "unat (take_bit 31 (x * y)) = unat (x * y)"
    using assms(3) by (simp add: unsigned_take_bit_eq unat_word_ariths take_bit_eq_mod)
  ultimately show ?thesis
    by (simp add: MUL15_def word_unat_eq_iff)
qed

lemma MUL31_lo_ct_eq: "MUL31_lo_ct x y = MUL31_lo x y"
proof -
  define xl where "xl = x AND 0xFFFF"
  define xh where "xh = drop_bit 16 x"
  define yl where "yl = y AND 0xFFFF"
  define yh where "yh = drop_bit 16 y"
  have split: "z = (z AND 0xFFFF) + 2 ^ 16 * drop_bit 16 z" for z :: u32
  proof -
    have "z = (z AND 0xFFFF) OR push_bit 16 (drop_bit 16 z)"
      by (rule word_eq_bitwiseI) (simp add: bit_simps upt_bits)
    also have "\<dots> = (z AND 0xFFFF) + push_bit 16 (drop_bit 16 z)"
      unfolding and_FFFF by (rule disjunctive_add [symmetric]) (auto simp: bit_simps)
    finally show ?thesis by (simp only: push_bit_eq_mult mult.commute)
  qed
  have top: "\<not> bit xl 31" "\<not> bit xh 31" "\<not> bit yl 31" "\<not> bit yh 31"
    by (simp_all add: xl_def xh_def yl_def yh_def bit_simps)
  have wrap: "a * b + (a * d + c * b) * m = (a + m * c) * (b + m * d)"
    if "m * m = 0" for a b c d m :: u32
  proof -
    have "(a + m * c) * (b + m * d) = a * b + (a * d + c * b) * m + (m * m) * (c * d)"
      by (simp add: algebra_simps)
    with that show ?thesis by simp
  qed
  have carry: "(a * b + h * (a + b)) + ((a * d + h * (a + d)) + (c * b + h * (c + b))) * m
      = (a * b + (a * d + c * b) * m) + h * (a + b) + (h * (a + d + c + b)) * m"
    for a b c d h m :: u32 by (simp add: algebra_simps)
  have "(2 ^ 16 * 2 ^ 16 :: u32) = 0" by (simp only: exp_eq_zero_iff flip: power_add) simp
  moreover have "(2 ^ 31 * v) * 2 ^ 16 = 0" for v :: u32
  proof -
    have "(2 ^ 31 * v) * 2 ^ 16 = (2 ^ 31 * 2 ^ 16) * v" by (simp only: ac_simps)
    also have "(2 ^ 31 * 2 ^ 16 :: u32) = 0" by (simp only: exp_eq_zero_iff flip: power_add) simp
    finally show ?thesis by simp
  qed
  ultimately have "(xl OR 2 ^ 31) * (yl OR 2 ^ 31)
      + ((xl OR 2 ^ 31) * (yh OR 2 ^ 31) + (xh OR 2 ^ 31) * (yl OR 2 ^ 31)) * 2 ^ 16
      = (xl + 2 ^ 16 * xh) * (yl + 2 ^ 16 * yh) + 2 ^ 31 * (xl + yl)"
    unfolding or_top_add [OF top(1)] or_top_add [OF top(2)] or_top_add [OF top(3)]
      or_top_add [OF top(4)] top_product
    by (simp only: wrap [symmetric] carry add_0_right)
  moreover have "x = xl + 2 ^ 16 * xh" "y = yl + 2 ^ 16 * yh"
    using split [of x] split [of y] by (simp_all only: xl_def xh_def yl_def yh_def)
  ultimately have "take_bit 31 ((xl OR 2 ^ 31) * (yl OR 2 ^ 31)
      + push_bit 16 ((xl OR 2 ^ 31) * (yh OR 2 ^ 31) + (xh OR 2 ^ 31) * (yl OR 2 ^ 31)))
      = take_bit 31 (x * y)"
    by (simp only: push_bit_eq_mult take_bit_31_add)
  then show ?thesis
    by (simp add: MUL31_lo_ct_def MUL31_lo_def Let_def and_7F flip: xl_def xh_def yl_def yh_def)
qed

lemma ARSH_portable_eq:
  assumes "0 < n" "n < 32"
  shows "ARSH_portable x n = ARSH x n"
proof (rule bit_word_eqI)
  fix k assume "k < LENGTH(32)"
  then show "bit (ARSH_portable x n) k = bit (ARSH x n) k"
    using assms
    by (auto simp: ARSH_portable_def ARSH_def drop_bit_top32 bit_simps)
qed

end
