(* ===== verification/Gcm.thy ===== *)
theory Gcm
  imports Codec Const_Time
begin

text \<open>
  Galois/Counter mode (\<open>aead/gcm.c\<close>) over any CTR implementation and any GHASH implementation.
  The object pointer \<open>bctx\<close> with its \<open>run\<close> method and the function pointer \<open>gh\<close> of the context are
  functions: \<open>run\<close> maps the IV, the counter and the data to the next counter and the new data,
  \<open>gh\<close> maps the hash state, the key and the data to the next hash state.  The contracts of the
  two are the locales \<open>ctr_mode\<close> and \<open>ghash_fun\<close>; over them, any sequence of calls is proved to
  compute the GCM of the whole message, decryption to invert encryption, and the tag check to
  accept exactly the right tag.
\<close>

section \<open>Definitions\<close>

type_synonym ctr_run = "bytes \<Rightarrow> u32 \<Rightarrow> bytes \<Rightarrow> u32 \<times> bytes"
type_synonym br_ghash = "bytes \<Rightarrow> bytes \<Rightarrow> bytes \<Rightarrow> bytes"

record br_gcm_context =
  bctx_run :: ctr_run
  gcm_gh :: br_ghash
  gcm_h :: bytes
  j0_1 :: bytes
  gcm_buf :: bytes
  gcm_y :: bytes
  j0_2 :: u32
  jc :: u32
  count_aad :: u64
  count_ctr :: u64

definition br_gcm_init :: "br_gcm_context \<Rightarrow> ctr_run \<Rightarrow> br_ghash \<Rightarrow> br_gcm_context" where
  "br_gcm_init ctx bctx g =
    (let ctx = ctx\<lparr>bctx_run := bctx, gcm_gh := g\<rparr>;
         h0 = replicate 16 0;
         iv = replicate 12 0;
         (c, h0) = bctx iv 0 h0
     in ctx\<lparr>gcm_h := h0\<rparr>)"

definition br_gcm_reset :: "br_gcm_context \<Rightarrow> bytes \<Rightarrow> br_gcm_context" where
  "br_gcm_reset ctx iv =
    (let len = length iv;
         ctx =
           (if len = 12 then ctx\<lparr>j0_1 := iv, j0_2 := 1\<rparr>
            else let ty = replicate 16 0;
                     ty = gcm_gh ctx ty (gcm_h ctx) iv;
                     tmp = replicate 8 0 @ br_enc64be (push_bit 3 (of_nat len));
                     ty = gcm_gh ctx ty (gcm_h ctx) tmp
                 in ctx\<lparr>j0_1 := take 12 ty, j0_2 := br_dec32be (drop 12 ty)\<rparr>)
     in ctx\<lparr>jc := j0_2 ctx + 1, gcm_y := replicate 16 0, count_aad := 0, count_ctr := 0\<rparr>)"

text \<open>The second part of \<open>br_gcm_aad_inject\<close>, reached with the data aligned on a block.\<close>

definition gcm_aad_blocks :: "br_gcm_context \<Rightarrow> bytes \<Rightarrow> br_gcm_context" where
  "gcm_aad_blocks ctx data =
    (let len = length data;
         dlen = 16 * (len div 16);
         ctx = ctx\<lparr>gcm_y := gcm_gh ctx (gcm_y ctx) (gcm_h ctx) (take dlen data)\<rparr>
     in ctx\<lparr>gcm_buf := memcpy (gcm_buf ctx) 0 (drop dlen data),
            count_aad := count_aad ctx + of_nat len\<rparr>)"

definition br_gcm_aad_inject :: "br_gcm_context \<Rightarrow> bytes \<Rightarrow> br_gcm_context" where
  "br_gcm_aad_inject ctx data =
    (let len = length data;
         ptr = unat (count_aad ctx AND 15)
     in if ptr \<noteq> 0
        then let clen = 16 - ptr
             in if len < clen
                then ctx\<lparr>gcm_buf := memcpy (gcm_buf ctx) ptr data,
                         count_aad := count_aad ctx + of_nat len\<rparr>
                else let ctx = ctx\<lparr>gcm_buf := memcpy (gcm_buf ctx) ptr (take clen data)\<rparr>;
                         ctx = ctx\<lparr>gcm_y := gcm_gh ctx (gcm_y ctx) (gcm_h ctx) (gcm_buf ctx),
                                   count_aad := count_aad ctx + of_nat clen\<rparr>
                     in gcm_aad_blocks ctx (drop clen data)
        else gcm_aad_blocks ctx data)"

definition br_gcm_flip :: "br_gcm_context \<Rightarrow> br_gcm_context" where
  "br_gcm_flip ctx =
    (let ptr = unat (count_aad ctx AND 15)
     in if ptr \<noteq> 0 then ctx\<lparr>gcm_y := gcm_gh ctx (gcm_y ctx) (gcm_h ctx) (take ptr (gcm_buf ctx))\<rparr> else ctx)"

text \<open>The loop \<open>x = buf[u]; y = x ^ ctx->buf[ptr + u]; ctx->buf[ptr + u] = encrypt ? y : x; buf[u] = y\<close>
  over a part of the data that fits the block buffer.\<close>

definition gcm_xor_partial :: "br_gcm_context \<Rightarrow> bool \<Rightarrow> nat \<Rightarrow> bytes \<Rightarrow> br_gcm_context \<times> bytes" where
  "gcm_xor_partial ctx encrypt ptr xs =
    (let ys = map2 (XOR) xs (drop ptr (gcm_buf ctx))
     in (ctx\<lparr>gcm_buf := memcpy (gcm_buf ctx) ptr (if encrypt then ys else xs)\<rparr>, ys))"

text \<open>The part of \<open>br_gcm_run\<close> after a partial block has been completed: full blocks, then the
  final partial block.\<close>

definition gcm_run_blocks :: "br_gcm_context \<Rightarrow> bool \<Rightarrow> bytes \<Rightarrow> br_gcm_context \<times> bytes" where
  "gcm_run_blocks ctx encrypt data =
    (let dlen = 16 * (length data div 16);
         blocks = take dlen data;
         rest = drop dlen data;
         ctx = (if \<not> encrypt then ctx\<lparr>gcm_y := gcm_gh ctx (gcm_y ctx) (gcm_h ctx) blocks\<rparr> else ctx);
         (cc, blocks') = bctx_run ctx (j0_1 ctx) (jc ctx) blocks;
         ctx = ctx\<lparr>jc := cc\<rparr>;
         ctx = (if encrypt then ctx\<lparr>gcm_y := gcm_gh ctx (gcm_y ctx) (gcm_h ctx) blocks'\<rparr> else ctx);
         ctx = ctx\<lparr>count_ctr := count_ctr ctx + of_nat dlen\<rparr>
     in if length rest > 0
        then let (cc, kb) = bctx_run ctx (j0_1 ctx) (jc ctx) (replicate 16 0);
                 ctx = ctx\<lparr>gcm_buf := kb, jc := cc\<rparr>;
                 (ctx, rest') = gcm_xor_partial ctx encrypt 0 rest
             in (ctx\<lparr>count_ctr := count_ctr ctx + of_nat (length rest)\<rparr>, blocks' @ rest')
        else (ctx, blocks'))"

definition br_gcm_run :: "br_gcm_context \<Rightarrow> bool \<Rightarrow> bytes \<Rightarrow> br_gcm_context \<times> bytes" where
  "br_gcm_run ctx encrypt data =
    (let len = length data;
         ptr = unat (count_ctr ctx AND 15)
     in if ptr \<noteq> 0
        then let clen = (if len < 16 - ptr then len else 16 - ptr);
                 (ctx, first') = gcm_xor_partial ctx encrypt ptr (take clen data);
                 ctx = ctx\<lparr>count_ctr := count_ctr ctx + of_nat clen\<rparr>
             in if ptr + clen < 16 then (ctx, first')
                else let ctx = ctx\<lparr>gcm_y := gcm_gh ctx (gcm_y ctx) (gcm_h ctx) (gcm_buf ctx)\<rparr>;
                         (ctx, rest') = gcm_run_blocks ctx encrypt (drop clen data)
                     in (ctx, first' @ rest')
        else gcm_run_blocks ctx encrypt data)"

definition br_gcm_get_tag :: "br_gcm_context \<Rightarrow> br_gcm_context \<times> bytes" where
  "br_gcm_get_tag ctx =
    (let ptr = unat (count_ctr ctx AND 15);
         ctx = (if ptr > 0 then ctx\<lparr>gcm_y := gcm_gh ctx (gcm_y ctx) (gcm_h ctx) (take ptr (gcm_buf ctx))\<rparr> else ctx);
         tmp = br_enc64be (push_bit 3 (count_aad ctx)) @ br_enc64be (push_bit 3 (count_ctr ctx));
         ctx = ctx\<lparr>gcm_y := gcm_gh ctx (gcm_y ctx) (gcm_h ctx) tmp\<rparr>;
         (cc, tag) = bctx_run ctx (j0_1 ctx) (j0_2 ctx) (gcm_y ctx)
     in (ctx, tag))"

definition br_gcm_get_tag_trunc :: "br_gcm_context \<Rightarrow> nat \<Rightarrow> br_gcm_context \<times> bytes" where
  "br_gcm_get_tag_trunc ctx len =
    (case br_gcm_get_tag ctx of (ctx, tmp) \<Rightarrow> (ctx, take len tmp))"

definition br_gcm_check_tag_trunc :: "br_gcm_context \<Rightarrow> bytes \<Rightarrow> nat \<Rightarrow> br_gcm_context \<times> u32" where
  "br_gcm_check_tag_trunc ctx tag len =
    (case br_gcm_get_tag ctx of (ctx, tmp) \<Rightarrow>
      let x = foldl (\<lambda>x u. x OR ucast (tmp ! u XOR tag ! u)) 0 [0..<len]
      in (ctx, EQ0 x))"

definition br_gcm_check_tag :: "br_gcm_context \<Rightarrow> bytes \<Rightarrow> br_gcm_context \<times> u32" where
  "br_gcm_check_tag ctx tag = br_gcm_check_tag_trunc ctx tag 16"

section \<open>The contracts\<close>

text \<open>The keystream byte at a position, from the block function of the cipher, and the CTR
  transformation of data that starts at a position of the keystream.\<close>

definition ks_at :: "(bytes \<Rightarrow> u32 \<Rightarrow> bytes) \<Rightarrow> bytes \<Rightarrow> u32 \<Rightarrow> nat \<Rightarrow> u8" where
  "ks_at blk iv cc n = blk iv (cc + of_nat (n div 16)) ! (n mod 16)"

definition ctr_xor :: "(bytes \<Rightarrow> u32 \<Rightarrow> bytes) \<Rightarrow> bytes \<Rightarrow> u32 \<Rightarrow> nat \<Rightarrow> bytes \<Rightarrow> bytes" where
  "ctr_xor blk iv cc off d = map2 (XOR) d (map (ks_at blk iv cc) [off..<off + length d])"

lemma length_ctr_xor [simp, len_simps]: "length (ctr_xor blk iv cc off d) = length d"
  by (simp add: ctr_xor_def)

lemma nth_ctr_xor: "i < length d \<Longrightarrow> ctr_xor blk iv cc off d ! i = d ! i XOR ks_at blk iv cc (off + i)"
  by (simp add: ctr_xor_def)

lemma ctr_xor_Nil [simp]: "ctr_xor blk iv cc off [] = []"
  by (simp add: ctr_xor_def)

lemma ctr_xor_append:
  "ctr_xor blk iv cc off (a @ b) = ctr_xor blk iv cc off a @ ctr_xor blk iv cc (off + length a) b"
  by (rule nth_equalityI) (auto simp: nth_ctr_xor nth_append)

lemma ctr_xor_involution [simp]: "ctr_xor blk iv cc off (ctr_xor blk iv cc off d) = d"
  by (rule nth_equalityI) (simp_all add: nth_ctr_xor xor.assoc)

lemma ks_at_shift: "ks_at blk iv (cc + of_nat k) n = ks_at blk iv cc (16 * k + n)"
  by (simp add: ks_at_def ac_simps)

lemma ctr_xor_shift: "ctr_xor blk iv (cc + of_nat k) off d = ctr_xor blk iv cc (16 * k + off) d"
  by (rule nth_equalityI) (simp_all add: nth_ctr_xor ks_at_shift add.assoc)

locale ctr_mode =
  fixes run :: ctr_run and blk :: "bytes \<Rightarrow> u32 \<Rightarrow> bytes"
  assumes run_eq: "length iv = 12 \<Longrightarrow>
      run iv cc d = (cc + of_nat (length d div 16), ctr_xor blk iv cc 0 d)"
    and blk_length: "length iv = 12 \<Longrightarrow> length (blk iv cc) = 16"

definition pad16 :: "bytes \<Rightarrow> bytes" where
  "pad16 d = d @ replicate ((16 - length d mod 16) mod 16) 0"

locale ghash_fun =
  fixes g :: br_ghash
  assumes g_append: "16 dvd length a \<Longrightarrow> g y k (a @ b) = g (g y k a) k b"
    and g_pad: "g y k d = g y k (pad16 d)"
    and g_Nil: "length y = 16 \<Longrightarrow> g y k [] = y"
    and g_length: "length (g y k d) = 16"


section \<open>Blocks of sixteen bytes\<close>

definition full16 :: "bytes \<Rightarrow> bytes" where
  "full16 a = take (16 * (length a div 16)) a"

definition rest16 :: "bytes \<Rightarrow> bytes" where
  "rest16 a = drop (16 * (length a div 16)) a"

lemma full16_rest16: "full16 a @ rest16 a = a"
  by (simp add: full16_def rest16_def)

lemma length_rest16 [simp]: "length (rest16 a) = length a mod 16"
  by (simp add: rest16_def minus_mult_div_eq_mod)

lemma length_full16: "length (full16 a) = 16 * (length a div 16)"
  by (simp add: full16_def)

lemma dvd_full16 [simp]: "16 dvd length (full16 a)"
  by (simp add: length_full16)

lemma full16_aligned: "16 dvd length a \<Longrightarrow> full16 a = a" "16 dvd length a \<Longrightarrow> rest16 a = []"
  by (simp_all add: full16_def rest16_def)

lemma full16_append_small:
  assumes "length a mod 16 + length c < 16"
  shows "full16 (a @ c) = full16 a" "rest16 (a @ c) = rest16 a @ c"
proof -
  have "(length a + length c) div 16 = length a div 16"
    using assms div_add1_eq [of "length a" "length c" 16] by simp
  then show "full16 (a @ c) = full16 a" "rest16 (a @ c) = rest16 a @ c"
    by (simp_all add: full16_def rest16_def)
qed

lemma full16_append_block:
  assumes "length a mod 16 + length c = 16"
  shows "16 dvd length (a @ c)" "a @ c = full16 a @ (rest16 a @ c)"
proof -
  have "length (a @ c) = 16 * (length a div 16) + 16"
    using assms by (metis add.assoc length_append mult_div_mod_eq)
  then show "16 dvd length (a @ c)" by simp
  show "a @ c = full16 a @ (rest16 a @ c)" using full16_rest16 [of a] by simp
qed

lemma full16_append_aligned:
  assumes "16 dvd length a"
  shows "full16 (a @ d) = a @ full16 d" "rest16 (a @ d) = rest16 d"
proof -
  obtain k where "length a = 16 * k" using assms by (auto elim: dvdE)
  then show "full16 (a @ d) = a @ full16 d" "rest16 (a @ d) = rest16 d"
    by (simp_all add: full16_def rest16_def)
qed

lemma ceil16: "0 < r \<Longrightarrow> r < 16 \<Longrightarrow> (16 * q + r + 15) div 16 = Suc q" for q r :: nat
  by (rule div_nat_eqI) simp_all

lemma count_mod_16: "unat (of_nat n AND 15 :: u64) = n mod 16"
proof -
  have "(of_nat n AND 15 :: u64) = take_bit 4 (of_nat n)"
    by (rule word_eq_bitwiseI) (simp add: bit_simps upt_bits)
  then have "unat (of_nat n AND 15 :: u64) = n mod 2 ^ 64 mod 16"
    by (simp only: unsigned_take_bit_eq) (simp add: take_bit_eq_mod unat_of_nat)
  then show ?thesis by (simp add: mod_mod_cancel)
qed

lemma dvd_pad16: "16 dvd length (pad16 d)"
proof (cases "length d mod 16 = 0")
  case False
  define q r where "q = length d div 16" "r = length d mod 16"
  then have "length d = 16 * q + r" "r < 16" "r \<noteq> 0" using False by simp_all
  then have "length (pad16 d) = 16 * (q + 1)" by (simp add: pad16_def)
  then show ?thesis by simp
qed (simp add: pad16_def dvd_eq_mod_eq_0)

lemma pad16_aligned: "16 dvd length d \<Longrightarrow> pad16 d = d"
  by (auto simp: pad16_def elim!: dvdE)

lemma pad16_append: "16 dvd length a \<Longrightarrow> pad16 (a @ b) = a @ pad16 b"
  by (auto simp: pad16_def elim!: dvdE)

section \<open>Correctness over the contracts\<close>

locale gcm_parts = ctr_mode run blk + ghash_fun g
  for run :: ctr_run and blk :: "bytes \<Rightarrow> u32 \<Rightarrow> bytes" and g :: br_ghash
begin

text \<open>The state after injecting the additional data \<open>a\<close>.\<close>

definition aad_state :: "br_gcm_context \<Rightarrow> bytes \<Rightarrow> bool" where
  "aad_state ctx a \<longleftrightarrow> gcm_gh ctx = g \<and> length (gcm_buf ctx) = 16
    \<and> count_aad ctx = of_nat (length a)
    \<and> gcm_y ctx = g (replicate 16 0) (gcm_h ctx) (full16 a)
    \<and> take (length a mod 16) (gcm_buf ctx) = rest16 a"

lemma aad_blocks:
  assumes "aad_state ctx a" "16 dvd length a"
  shows "aad_state (gcm_aad_blocks ctx d) (a @ d)"
proof -
  have "length d mod 16 = (length a + length d) mod 16"
    using assms(2) by (auto elim: dvdE)
  moreover have "length (rest16 d) \<le> 16" by (simp add: less_imp_le)
  ultimately show ?thesis
    using assms g_append [of a "replicate 16 0" "gcm_h ctx" "full16 d"]
      take_memcpy [of 0 "gcm_buf ctx" "rest16 d"] length_memcpy [of 0 "rest16 d" "gcm_buf ctx"]
    by (simp add: aad_state_def gcm_aad_blocks_def Let_def full16_append_aligned full16_aligned
        flip: full16_def rest16_def)
qed

lemma aad_inject:
  assumes "aad_state ctx a"
  shows "aad_state (br_gcm_aad_inject ctx d) (a @ d)"
proof -
  define ptr where "ptr = length a mod 16"
  have ptr: "unat (count_aad ctx AND 15) = ptr"
    using assms by (simp add: aad_state_def count_mod_16 ptr_def)
  have buf: "length (gcm_buf ctx) = 16" "take ptr (gcm_buf ctx) = rest16 a"
    using assms by (simp_all add: aad_state_def ptr_def)
  consider "ptr = 0" | "ptr \<noteq> 0" "length d < 16 - ptr" | "ptr \<noteq> 0" "16 - ptr \<le> length d" by linarith
  then show ?thesis
  proof cases
    case 1
    then show ?thesis
      using aad_blocks [OF assms] ptr
      by (simp add: br_gcm_aad_inject_def Let_def dvd_eq_mod_eq_0 ptr_def)
  next
    case 2
    then have small: "length a mod 16 + length d < 16" by (simp add: ptr_def)
    moreover from this have "(length a + length d) mod 16 = ptr + length d"
      by (metis mod_add_left_eq mod_less ptr_def)
    ultimately show ?thesis
      using 2 ptr assms buf take_memcpy [of ptr "gcm_buf ctx" d]
      by (simp add: br_gcm_aad_inject_def Let_def aad_state_def full16_append_small)
  next
    case 3
    define c where "c = take (16 - ptr) d"
    define ctx1 where "ctx1 = ctx\<lparr>gcm_buf := memcpy (gcm_buf ctx) ptr c,
        gcm_y := g (gcm_y ctx) (gcm_h ctx) (memcpy (gcm_buf ctx) ptr c),
        count_aad := count_aad ctx + of_nat (16 - ptr)\<rparr>"
    have c: "length c = 16 - ptr" "ptr < 16" "d = c @ drop (16 - ptr) d"
      using 3 by (simp_all add: c_def ptr_def)
    then have blk: "length a mod 16 + length c = 16" by (simp add: ptr_def)
    note al = full16_append_block [OF blk]
    have m: "memcpy (gcm_buf ctx) ptr c = rest16 a @ c"
      using buf c by (simp add: memcpy_to_end)
    have "length (a @ c) mod 16 = 0" using al(1) by (simp only: dvd_eq_mod_eq_0)
    moreover have "full16 (a @ c) = full16 a @ (rest16 a @ c)" "rest16 (a @ c) = []"
      using full16_aligned(2) [OF al(1)] trans [OF full16_aligned(1) [OF al(1)] al(2)] by blast+
    moreover have "length (rest16 a @ c) = 16" using c by (simp add: ptr_def)
    moreover have "of_nat (length a) + of_nat (16 - ptr) = (of_nat (length (a @ c)) :: u64)"
      by (simp only: length_append of_nat_add c(1))
    ultimately have "aad_state ctx1 (a @ c)"
      using assms c g_append [OF dvd_full16, of "replicate 16 0" "gcm_h ctx" a "rest16 a @ c"]
      by (simp add: aad_state_def ctx1_def m del: length_append of_nat_diff)
    moreover have "br_gcm_aad_inject ctx d = gcm_aad_blocks ctx1 (drop (16 - ptr) d)"
      using 3 ptr assms by (simp add: br_gcm_aad_inject_def Let_def ctx1_def c_def aad_state_def)
    ultimately show ?thesis
      using aad_blocks [of ctx1 "a @ c" "drop (16 - ptr) d"] al(1) c(3) by simp
  qed
qed

lemma aad_injects:
  "aad_state ctx a \<Longrightarrow> aad_state (foldl br_gcm_aad_inject ctx ds) (a @ concat ds)"
proof (induction ds arbitrary: ctx a)
  case (Cons d ds)
  from Cons.IH [OF aad_inject [OF Cons.prems, of d]] show ?case by simp
qed simp

lemma flip_y:
  assumes "aad_state ctx a"
  shows "gcm_y (br_gcm_flip ctx) = g (replicate 16 0) (gcm_h ctx) a"
proof -
  have "g (replicate 16 0) (gcm_h ctx) a = g (gcm_y ctx) (gcm_h ctx) (rest16 a)"
    using assms g_append [OF dvd_full16, of "replicate 16 0" "gcm_h ctx" a "rest16 a"]
    by (simp add: aad_state_def full16_rest16)
  moreover have "unat (count_aad ctx AND 15) = length a mod 16"
    using assms by (simp add: aad_state_def count_mod_16)
  moreover have "length a mod 16 = 0 \<Longrightarrow> rest16 a = []" "length a mod 16 = 0 \<Longrightarrow> full16 a = a"
    by (simp_all add: full16_aligned dvd_eq_mod_eq_0)
  ultimately show ?thesis
    using assms by (cases "length a mod 16 = 0") (simp_all add: br_gcm_flip_def Let_def aad_state_def)
qed

text \<open>The state after processing data whose ciphertext is \<open>c\<close>, with additional data \<open>a\<close>, for a
  fixed initial counter block.\<close>

definition ct_block :: "bytes \<Rightarrow> u32 \<Rightarrow> nat \<Rightarrow> bytes" where
  "ct_block iv j n = blk iv (j + 1 + of_nat (n div 16))"

definition data_state :: "br_gcm_context \<Rightarrow> bytes \<Rightarrow> bytes \<Rightarrow> bytes \<Rightarrow> u32 \<Rightarrow> bytes \<Rightarrow> bool" where
  "data_state ctx k a iv j c \<longleftrightarrow> gcm_gh ctx = g \<and> bctx_run ctx = run \<and> gcm_h ctx = k
    \<and> j0_1 ctx = iv \<and> j0_2 ctx = j \<and> length iv = 12 \<and> length (gcm_buf ctx) = 16
    \<and> count_aad ctx = of_nat (length a) \<and> count_ctr ctx = of_nat (length c)
    \<and> gcm_y ctx = g (g (replicate 16 0) k a) k (full16 c)
    \<and> jc ctx = j + 1 + of_nat ((length c + 15) div 16)
    \<and> (length c mod 16 \<noteq> 0 \<longrightarrow> gcm_buf ctx = rest16 c @ drop (length c mod 16) (ct_block iv j (length c)))"

lemma zero_block: "length iv = 12 \<Longrightarrow> ctr_xor blk iv cc 0 (replicate 16 0) = blk iv cc"
  by (rule nth_equalityI) (simp_all add: blk_length nth_ctr_xor ks_at_def)

lemma xor_in_block:
  assumes "length iv = 12" "length xs \<le> 16 - n mod 16"
  shows "map2 (XOR) xs (drop (n mod 16) (ct_block iv j n)) = ctr_xor blk iv (j + 1) n xs"
proof (rule nth_equalityI)
  show "length (map2 (XOR) xs (drop (n mod 16) (ct_block iv j n))) = length (ctr_xor blk iv (j + 1) n xs)"
    using assms by (simp add: ct_block_def blk_length)
  fix i assume "i < length (map2 (XOR) xs (drop (n mod 16) (ct_block iv j n)))"
  then have i: "i < length xs" by simp
  then have s: "n mod 16 + i < 16" using assms(2) by linarith
  have "n + i = 16 * (n div 16) + (n mod 16 + i)" by simp
  then have "(n + i) div 16 = n div 16" "(n + i) mod 16 = n mod 16 + i"
    using s by (metis div_mult_self4 add.commute add.right_neutral div_less zero_neq_numeral)
      (metis s mod_add_left_eq mod_less)
  then show "map2 (XOR) xs (drop (n mod 16) (ct_block iv j n)) ! i = ctr_xor blk iv (j + 1) n xs ! i"
    using i assms s by (simp add: nth_ctr_xor ks_at_def ct_block_def blk_length)
qed

lemma run_blocks:
  assumes st: "data_state ctx k a iv j c" and al: "16 dvd length c"
    and run: "gcm_run_blocks ctx enc d = (ctx', d')"
  shows "d' = ctr_xor blk iv (j + 1) (length c) d"
    and "data_state ctx' k a iv j (c @ (if enc then d' else d))"
proof -
  obtain q where q: "length c = 16 * q" using al by (auto elim: dvdE)
  define bl where "bl = full16 d"
  define rs where "rs = rest16 d"
  define bl' where "bl' = ctr_xor blk iv (j + 1) (length c) bl"
  define rs' where "rs' = ctr_xor blk iv (j + 1) (length c + length bl) rs"
  define jn where "jn = j + 1 + of_nat (length (c @ bl) div 16)"
  have d: "d = bl @ rs" by (simp add: bl_def rs_def full16_rest16)
  have lb: "length bl = 16 * (length d div 16)" "length rs = length d mod 16" "16 dvd length bl"
    by (simp_all add: bl_def rs_def length_full16)
  have ctx: "gcm_gh ctx = g" "bctx_run ctx = run" "gcm_h ctx = k" "j0_1 ctx = iv" "j0_2 ctx = j"
    "length iv = 12" "length (gcm_buf ctx) = 16" "count_aad ctx = of_nat (length a)"
    "count_ctr ctx = of_nat (length c)" "gcm_y ctx = g (g (replicate 16 0) k a) k c"
    "jc ctx = j + 1 + of_nat q"
    using st al by (simp_all add: data_state_def full16_aligned q)
  have run1: "run iv (j + 1 + of_nat q) bl = (jn, bl')"
    using run_eq [OF ctx(6)] ctr_xor_shift [of blk iv "j + 1" q 0 bl] lb
    by (simp add: bl'_def jn_def q ac_simps)
  have run2: "run iv jn (replicate 16 0) = (jn + 1, blk iv jn)"
    using run_eq [OF ctx(6)] zero_block [OF ctx(6)] by simp
  have kb: "blk iv jn = ct_block iv j (length (c @ bl))" by (simp add: ct_block_def jn_def)
  have al2: "16 dvd length (c @ bl)" using al lb(3) by simp
  have rs_mod: "length (c @ bl) mod 16 = 0" using al2 by (simp add: dvd_eq_mod_eq_0)
  have rxor: "map2 (XOR) rs (blk iv jn) = rs'"
    using xor_in_block [OF ctx(6), of rs "length (c @ bl)" j] rs_mod lb(2)
    by (simp add: kb rs'_def less_imp_le)
  define ob where "ob = (if enc then bl' else bl)"
  define orr where "orr = (if enc then rs' else rs)"
  have lo: "length ob = length bl" "length orr = length rs" by (simp_all add: ob_def orr_def bl'_def rs'_def)
  define ctx1 where "ctx1 = ctx\<lparr>gcm_y := g (g (replicate 16 0) k a) k (c @ ob), jc := jn,
      count_ctr := of_nat (length (c @ ob))\<rparr>"
  define ctx2 where "ctx2 = ctx1\<lparr>gcm_buf := orr @ drop (length rs) (blk iv jn), jc := jn + 1,
      count_ctr := of_nat (length ((c @ ob) @ orr))\<rparr>"
  have y: "g (g (g (replicate 16 0) k a) k c) k ob = g (g (replicate 16 0) k a) k (c @ ob)"
    using g_append [OF al] by simp
  have rb: "gcm_run_blocks ctx enc d = (if rs = [] then (ctx1, bl') else (ctx2, bl' @ rs'))"
  proof -
    have "memcpy (blk iv jn) 0 orr = orr @ drop (length rs) (blk iv jn)"
      by (simp add: memcpy_0 lo)
    moreover have "gcm_run_blocks ctx enc d =
        (let ctx = (if \<not> enc then ctx\<lparr>gcm_y := gcm_gh ctx (gcm_y ctx) (gcm_h ctx) bl\<rparr> else ctx);
             (cc, blocks') = bctx_run ctx (j0_1 ctx) (jc ctx) bl;
             ctx = ctx\<lparr>jc := cc\<rparr>;
             ctx = (if enc then ctx\<lparr>gcm_y := gcm_gh ctx (gcm_y ctx) (gcm_h ctx) blocks'\<rparr> else ctx);
             ctx = ctx\<lparr>count_ctr := count_ctr ctx + of_nat (length bl)\<rparr>
         in if length rs > 0
            then let (cc, kb) = bctx_run ctx (j0_1 ctx) (jc ctx) (replicate 16 0);
                     ctx = ctx\<lparr>gcm_buf := kb, jc := cc\<rparr>;
                     (ctx, rest') = gcm_xor_partial ctx enc 0 rs
                 in (ctx\<lparr>count_ctr := count_ctr ctx + of_nat (length rs)\<rparr>, blocks' @ rest')
            else (ctx, blocks'))"
      unfolding lb(1) unfolding gcm_run_blocks_def bl_def rs_def full16_def rest16_def
      by (simp only: Let_def)
    ultimately show ?thesis
      using y lo
      by (cases enc; cases "rs = []")
        (simp_all add: ctx run1 [unfolded add.assoc] run2 gcm_xor_partial_def rxor
          ctx1_def ctx2_def ob_def orr_def add.assoc)
  qed
  have d'_eq: "d' = bl' @ rs'" using run by (simp add: rb rs'_def split: if_splits)
  then show "d' = ctr_xor blk iv (j + 1) (length c) d"
    by (simp add: d ctr_xor_append bl'_def rs'_def)
  have out: "c @ (if enc then d' else d) = (c @ ob) @ orr"
    by (simp add: d'_eq d ob_def orr_def)
  have al3: "16 dvd length (c @ ob)" using al2 lo by simp
  obtain q2 where q2: "length (c @ ob) = 16 * q2" using al3 by (auto elim: dvdE)
  show "data_state ctx' k a iv j (c @ (if enc then d' else d))"
  proof (cases "rs = []")
    case True
    then have "ctx' = ctx1" "orr = []" using run lo by (simp_all add: rb)
    moreover have "jn = j + 1 + of_nat ((length (c @ ob) + 15) div 16)"
      using q2 lo by (simp add: jn_def)
    ultimately show ?thesis
      using ctx al3 unfolding out
      by (simp add: data_state_def ctx1_def full16_aligned dvd_eq_mod_eq_0)
  next
    case False
    have "0 < length orr" using False lo(2) by (metis length_greater_0_conv)
    moreover have "length orr < 16" using lo(2) lb(2) by simp
    ultimately have rl: "0 < length orr" "length orr < 16" by blast+
    have "ctx' = ctx2" using run False by (simp add: rb)
    moreover have "jn + 1 = j + 1 + of_nat ((length ((c @ ob) @ orr) + 15) div 16)"
    proof -
      have "(length ((c @ ob) @ orr) + 15) div 16 = Suc q2"
        using ceil16 [OF rl] q2 by (simp only: length_append)
      moreover have "length (c @ bl) div 16 = q2" using q2 lo by simp
      ultimately show ?thesis by (simp only: jn_def of_nat_Suc) (simp only: ac_simps)
    qed
    moreover have "ct_block iv j (length ((c @ ob) @ orr)) = blk iv jn"
    proof -
      have "length ((c @ ob) @ orr) = 16 * q2 + length orr" using q2 by simp
      then have "length ((c @ ob) @ orr) div 16 = q2" using rl by (simp del: length_append)
      moreover have "length (c @ bl) div 16 = q2" using q2 lo by simp
      ultimately show ?thesis by (simp only: ct_block_def jn_def)
    qed
    moreover have "full16 orr = []" "rest16 orr = orr" using rl by (simp_all add: full16_def rest16_def)
    moreover have "length ((c @ ob) @ orr) mod 16 = length rs"
    proof -
      have "length ((c @ ob) @ orr) = 16 * q2 + length rs" using q2 lo by simp
      then show ?thesis using rl lo by (simp del: length_append)
    qed
    ultimately show ?thesis
      using ctx al3 rl lo blk_length [OF ctx(6), of jn] unfolding out
      by (simp add: data_state_def ctx2_def ctx1_def full16_append_aligned del: append_assoc length_append)
        simp
  qed
qed

lemma run_data:
  assumes st: "data_state ctx k a iv j c" and run: "br_gcm_run ctx enc d = (ctx', d')"
  shows "d' = ctr_xor blk iv (j + 1) (length c) d \<and> data_state ctx' k a iv j (c @ (if enc then d' else d))"
proof -
  define ptr where "ptr = length c mod 16"
  have ptr: "unat (count_ctr ctx AND 15) = ptr" "ptr < 16"
    using st by (simp_all add: data_state_def count_mod_16 ptr_def)
  show ?thesis
  proof (cases "ptr = 0")
    case True
    then have "16 dvd length c" by (simp add: ptr_def dvd_eq_mod_eq_0)
    moreover have "gcm_run_blocks ctx enc d = (ctx', d')"
      using run ptr True by (simp add: br_gcm_run_def)
    ultimately show ?thesis using run_blocks [OF st] by blast
  next
    case False
    define clen where "clen = (if length d < 16 - ptr then length d else 16 - ptr)"
    define xs where "xs = take clen d"
    define ys where "ys = ctr_xor blk iv (j + 1) (length c) xs"
    define zs where "zs = (if enc then ys else xs)"
    define B where "B = ct_block iv j (length c)"
    have ctx: "gcm_gh ctx = g" "bctx_run ctx = run" "gcm_h ctx = k" "j0_1 ctx = iv" "j0_2 ctx = j"
      "length iv = 12" "length (gcm_buf ctx) = 16" "count_aad ctx = of_nat (length a)"
      "count_ctr ctx = of_nat (length c)" "gcm_y ctx = g (g (replicate 16 0) k a) k (full16 c)"
      "jc ctx = j + 1 + of_nat ((length c + 15) div 16)"
      using st by (simp_all add: data_state_def)
    have bufc: "gcm_buf ctx = rest16 c @ drop ptr B"
      using st False by (simp add: data_state_def ptr_def B_def)
    have lx: "length xs = clen" "length ys = clen" "length zs = clen" "clen \<le> 16 - ptr" "d = xs @ drop clen d"
      by (simp_all add: xs_def ys_def zs_def clen_def)
    have lB: "length B = 16" using blk_length [OF ctx(6)] by (simp add: B_def ct_block_def)
    have xor: "map2 (XOR) xs (drop ptr (gcm_buf ctx)) = ys"
      using xor_in_block [OF ctx(6), of xs "length c" j] lx
      by (simp add: bufc ys_def B_def ptr_def)
    have cp: "memcpy (gcm_buf ctx) ptr zs = rest16 (c @ zs) @ drop (ptr + clen) B"
      if "ptr + clen < 16"
      using that lx lB by (simp add: bufc memcpy_def full16_append_small ptr_def add.commute)
    define ctx1 where "ctx1 = ctx\<lparr>gcm_buf := memcpy (gcm_buf ctx) ptr zs,
        count_ctr := of_nat (length (c @ zs))\<rparr>"
    have part: "gcm_xor_partial ctx enc ptr xs = (ctx\<lparr>gcm_buf := memcpy (gcm_buf ctx) ptr zs\<rparr>, ys)"
      by (simp add: gcm_xor_partial_def xor zs_def Let_def)
    have cnt: "count_ctr ctx + of_nat clen = of_nat (length (c @ zs))"
      by (simp only: length_append of_nat_add lx(3) ctx(9))
    have runeq: "br_gcm_run ctx enc d =
        (let (ctx, first') = gcm_xor_partial ctx enc ptr xs;
             ctx = ctx\<lparr>count_ctr := count_ctr ctx + of_nat clen\<rparr>
         in if ptr + clen < 16 then (ctx, first')
            else let ctx = ctx\<lparr>gcm_y := gcm_gh ctx (gcm_y ctx) (gcm_h ctx) (gcm_buf ctx)\<rparr>;
                     (ctx, rest') = gcm_run_blocks ctx enc (drop clen d)
                 in (ctx, first' @ rest'))"
      using False by (simp only: br_gcm_run_def ptr(1) Let_def clen_def xs_def if_True simp_thms)
    show ?thesis
    proof (cases "ptr + clen < 16")
      case True
      then have short: "clen = length d" "xs = d" by (auto simp: clen_def xs_def split: if_splits)
      have res: "ctx' = ctx1" "d' = ys"
        using run True unfolding runeq by (simp_all add: part cnt ctx1_def del: length_append)
      have arith: "(length c + clen) mod 16 = ptr + clen" "(length c + clen) div 16 = length c div 16"
        using True div_add1_eq [of "length c" clen 16] mod_add_left_eq [of "length c" 16 clen]
        by (simp_all add: ptr_def)
      have ceil: "(length c + clen + 15) div 16 = (length c + 15) div 16"
      proof -
        define q where "q = length c div 16"
        have "length c = 16 * q + ptr" by (simp add: q_def ptr_def)
        then show ?thesis
          using True False ceil16 [of ptr q] ceil16 [of "ptr + clen" q] by (simp add: add.assoc)
      qed
      have f: "full16 (c @ zs) = full16 c" "length (rest16 (c @ zs)) = ptr + clen"
        using True lx arith by (simp_all add: full16_append_small ptr_def)
      have "data_state ctx1 k a iv j (c @ zs)"
        using ctx True False cp [OF True] lB lx arith ceil f
        by (simp add: data_state_def ctx1_def ct_block_def B_def [unfolded ct_block_def])
      moreover have "c @ (if enc then d' else d) = c @ zs" by (simp add: zs_def short res)
      ultimately show ?thesis by (simp add: res ys_def short)
    next
      case F: False
      then have clen: "ptr + clen = 16" "length c mod 16 + length zs = 16" using lx by (simp_all add: ptr_def)
      note al = full16_append_block [OF clen(2)]
      define ctx2 where "ctx2 = ctx1\<lparr>gcm_y := g (gcm_y ctx) k (memcpy (gcm_buf ctx) ptr zs)\<rparr>"
      obtain ctx3 r' where rb: "gcm_run_blocks ctx2 enc (drop clen d) = (ctx3, r')" by fastforce
      have res: "ctx' = ctx3" "d' = ys @ r'"
        using run F rb unfolding runeq by (simp_all add: part cnt ctx1_def ctx2_def ctx(1,3) del: length_append)
      have m: "memcpy (gcm_buf ctx) ptr zs = rest16 c @ zs"
        using clen lx lB by (simp add: bufc memcpy_def)
      obtain q where q: "length (c @ zs) = 16 * q" using al(1) by (auto elim: dvdE)
      have jcq: "(length c + 15) div 16 = q"
      proof -
        define p where "p = length c div 16"
        have "length c = 16 * p + ptr" by (simp add: p_def ptr_def)
        then show ?thesis using q clen lx False by simp
      qed
      have "full16 (c @ zs) = full16 c @ (rest16 c @ zs)"
        using full16_aligned(1) [OF al(1)] al(2) by (rule trans)
      then have "data_state ctx2 k a iv j (c @ zs)"
        using ctx g_append [OF dvd_full16] q jcq clen lx
        by (simp add: data_state_def ctx2_def ctx1_def m del: append_assoc length_append) (simp add: ptr_def)
      note rest = run_blocks [OF this al(1) rb]
      have xd: "xs @ drop clen d = d" by (simp add: xs_def)
      have "ctr_xor blk iv (j + 1) (length c) d = ys @ r'"
        using ctr_xor_append [of blk iv "j + 1" "length c" xs "drop clen d"] rest(1) lx
        by (simp add: xd ys_def)
      moreover have "(c @ zs) @ (if enc then r' else drop clen d) = c @ (if enc then ys @ r' else d)"
        using xd by (simp add: zs_def)
      ultimately show ?thesis using rest(2) by (cases enc) (simp_all add: res)
    qed
  qed
qed

lemma runs_data:
  assumes "data_state ctx k a iv j c"
  shows "\<exists>ctx' d'. foldl (\<lambda>(ctx, out) d. case br_gcm_run ctx enc d of (ctx, d') \<Rightarrow> (ctx, out @ d')) (ctx, o0) ds = (ctx', o0 @ d')
    \<and> d' = ctr_xor blk iv (j + 1) (length c) (concat ds)
    \<and> data_state ctx' k a iv j (c @ (if enc then d' else concat ds))"
  using assms
proof (induction ds arbitrary: ctx c o0)
  case Nil
  then show ?case by (auto simp: ctr_xor_def)
next
  case (Cons d ds)
  obtain ctx1 d1 where r1: "br_gcm_run ctx enc d = (ctx1, d1)" by fastforce
  note s1 = run_data [OF Cons.prems r1]
  have len: "length (if enc then d1 else d) = length d" using s1 by simp
  from Cons.IH [OF conjunct2 [OF s1], of "o0 @ d1"]
  show ?case using s1 len by (auto simp: r1 ctr_xor_append)
qed

text \<open>The tag of ciphertext \<open>c\<close> with additional data \<open>a\<close>.\<close>

definition gcm_tag :: "bytes \<Rightarrow> bytes \<Rightarrow> u32 \<Rightarrow> bytes \<Rightarrow> bytes \<Rightarrow> bytes" where
  "gcm_tag k iv j a c =
    map2 (XOR) (g (g (g (replicate 16 0) k a) k c) k
      (br_enc64be (of_nat (8 * length a)) @ br_enc64be (of_nat (8 * length c)))) (blk iv j)"

lemma length_gcm_tag: "length iv = 12 \<Longrightarrow> length (gcm_tag k iv j a c) = 16"
  by (simp add: gcm_tag_def g_length blk_length)

lemma get_tag:
  assumes "data_state ctx k a iv j c" "br_gcm_get_tag ctx = (ctx', tag)"
  shows "tag = gcm_tag k iv j a c"
proof -
  have ctx: "gcm_gh ctx = g" "bctx_run ctx = run" "gcm_h ctx = k" "j0_1 ctx = iv" "j0_2 ctx = j"
    "length iv = 12" "count_aad ctx = of_nat (length a)" "count_ctr ctx = of_nat (length c)"
    "gcm_y ctx = g (g (replicate 16 0) k a) k (full16 c)"
    using assms(1) by (simp_all add: data_state_def)
  define y1 where "y1 = (if length c mod 16 > 0 then g (gcm_y ctx) k (take (length c mod 16) (gcm_buf ctx))
    else gcm_y ctx)"
  have "y1 = g (g (replicate 16 0) k a) k c"
  proof (cases "length c mod 16 = 0")
    case True
    then show ?thesis by (simp add: y1_def ctx full16_aligned dvd_eq_mod_eq_0)
  next
    case False
    then have "take (length c mod 16) (gcm_buf ctx) = rest16 c"
      using assms(1) by (simp add: data_state_def)
    then show ?thesis
      using False g_append [OF dvd_full16, of "g (replicate 16 0) k a" k c "rest16 c"]
      by (simp add: y1_def ctx full16_rest16)
  qed
  moreover define y2 where "y2 = g y1 k (br_enc64be (of_nat (8 * length a)) @ br_enc64be (of_nat (8 * length c)))"
  ultimately have y2: "length y2 = 16" "gcm_tag k iv j a c = map2 (XOR) y2 (blk iv j)"
    by (simp_all add: gcm_tag_def g_length)
  have "tag = ctr_xor blk iv j 0 y2"
    using assms(2) run_eq [OF ctx(6)]
    by (auto simp: br_gcm_get_tag_def Let_def ctx count_mod_16 y2_def y1_def push_bit_eq_mult mult.commute
        split: prod.splits)
  also have "\<dots> = map2 (XOR) y2 (blk iv j)"
    using y2(1) blk_length [OF ctx(6)]
    by (intro nth_equalityI) (simp_all add: nth_ctr_xor ks_at_def)
  finally show ?thesis by (simp add: y2)
qed

text \<open>The key of GHASH and the initial counter block of the standard.\<close>

definition hash_key :: bytes where
  "hash_key = blk (replicate 12 0) 0"

definition init_block :: "bytes \<Rightarrow> bytes \<times> u32" where
  "init_block iv =
    (if length iv = 12 then (iv, 1)
     else let y = g (replicate 16 0) hash_key (pad16 iv @ replicate 8 0 @ br_enc64be (of_nat (8 * length iv)))
          in (take 12 y, br_dec32be (drop 12 y)))"

lemma length_init_block: "length (fst (init_block iv)) = 12"
  by (simp add: init_block_def Let_def g_length)

lemma g_twice: "g (g y k a) k b = g y k (pad16 a @ b)"
  using g_append [OF dvd_pad16, of y k a b] g_pad [of y k a] by simp

lemma init_reset:
  assumes "length (gcm_buf ctx) = 16" "br_gcm_reset (br_gcm_init ctx run g) iv = ctx'"
  shows "aad_state ctx' []" "bctx_run ctx' = run" "gcm_h ctx' = hash_key"
    "(j0_1 ctx', j0_2 ctx') = init_block iv" "jc ctx' = j0_2 ctx' + 1" "count_ctr ctx' = 0"
proof -
  have h: "snd (run (replicate 12 0) 0 (replicate 16 0)) = hash_key"
    using run_eq [of "replicate 12 0"] by (simp add: zero_block hash_key_def)
  have i: "br_gcm_init ctx run g = ctx\<lparr>bctx_run := run, gcm_gh := g, gcm_h := hash_key\<rparr>"
    using h by (simp add: br_gcm_init_def Let_def split_def)
  have len: "push_bit 3 (of_nat (length iv) :: u64) = of_nat (8 * length iv)"
    by (simp add: push_bit_eq_mult mult.commute)
  have j: "(j0_1 ctx', j0_2 ctx') = init_block iv"
    using assms(2) by (auto simp: i br_gcm_reset_def Let_def init_block_def g_twice len)
  show "(j0_1 ctx', j0_2 ctx') = init_block iv" by (rule j)
  show "aad_state ctx' []" "bctx_run ctx' = run" "gcm_h ctx' = hash_key" "jc ctx' = j0_2 ctx' + 1" "count_ctr ctx' = 0"
    using assms by (auto simp: i br_gcm_reset_def Let_def aad_state_def full16_def rest16_def g_Nil)
qed

lemma aad_inject_frame:
  "bctx_run (br_gcm_aad_inject ctx d) = bctx_run ctx" "gcm_h (br_gcm_aad_inject ctx d) = gcm_h ctx"
  "j0_1 (br_gcm_aad_inject ctx d) = j0_1 ctx" "j0_2 (br_gcm_aad_inject ctx d) = j0_2 ctx"
  "jc (br_gcm_aad_inject ctx d) = jc ctx" "count_ctr (br_gcm_aad_inject ctx d) = count_ctr ctx"
  by (simp_all add: br_gcm_aad_inject_def gcm_aad_blocks_def Let_def)

lemma aad_injects_frame:
  "bctx_run (foldl br_gcm_aad_inject ctx ds) = bctx_run ctx" "gcm_h (foldl br_gcm_aad_inject ctx ds) = gcm_h ctx"
  "j0_1 (foldl br_gcm_aad_inject ctx ds) = j0_1 ctx" "j0_2 (foldl br_gcm_aad_inject ctx ds) = j0_2 ctx"
  "jc (foldl br_gcm_aad_inject ctx ds) = jc ctx" "count_ctr (foldl br_gcm_aad_inject ctx ds) = count_ctr ctx"
  by (induction ds arbitrary: ctx) (simp_all add: aad_inject_frame)

lemma flip_frame:
  "gcm_gh (br_gcm_flip ctx) = gcm_gh ctx" "bctx_run (br_gcm_flip ctx) = bctx_run ctx"
  "gcm_h (br_gcm_flip ctx) = gcm_h ctx" "gcm_buf (br_gcm_flip ctx) = gcm_buf ctx"
  "j0_1 (br_gcm_flip ctx) = j0_1 ctx" "j0_2 (br_gcm_flip ctx) = j0_2 ctx" "jc (br_gcm_flip ctx) = jc ctx"
  "count_aad (br_gcm_flip ctx) = count_aad ctx" "count_ctr (br_gcm_flip ctx) = count_ctr ctx"
  by (simp_all add: br_gcm_flip_def Let_def)

lemma start_data:
  assumes "length (gcm_buf ctx) = 16"
  shows "data_state (br_gcm_flip (foldl br_gcm_aad_inject (br_gcm_reset (br_gcm_init ctx run g) iv) as))
    hash_key (concat as) (fst (init_block iv)) (snd (init_block iv)) []"
proof -
  define c0 where "c0 = br_gcm_reset (br_gcm_init ctx run g) iv"
  note i = init_reset [OF assms c0_def [symmetric]]
  define c1 where "c1 = foldl br_gcm_aad_inject c0 as"
  have a: "aad_state c1 (concat as)" using aad_injects [OF i(1), of as] by (simp add: c1_def)
  have f: "bctx_run c1 = run" "gcm_h c1 = hash_key" "j0_1 c1 = fst (init_block iv)" "j0_2 c1 = snd (init_block iv)"
    "jc c1 = snd (init_block iv) + 1" "count_ctr c1 = 0"
    using i by (simp_all add: c1_def aad_injects_frame flip: i(4))
  show ?thesis
    using a f flip_y [OF a] g_length [of "replicate 16 0" hash_key "concat as"]
    unfolding c0_def [symmetric] c1_def [symmetric]
    by (simp add: data_state_def flip_frame aad_state_def length_init_block full16_def g_Nil)
qed

text \<open>A whole session: initialisation, the additional data in any pieces, the data in any pieces, the tag.\<close>

lemma session:
  assumes "length (gcm_buf ctx) = 16"
    and "foldl (\<lambda>(ctx, out) d. case br_gcm_run ctx enc d of (ctx, d') \<Rightarrow> (ctx, out @ d'))
      (br_gcm_flip (foldl br_gcm_aad_inject (br_gcm_reset (br_gcm_init ctx run g) iv) as), []) ds = (ctx', out)"
  shows "out = ctr_xor blk (fst (init_block iv)) (snd (init_block iv) + 1) 0 (concat ds)"
    and "snd (br_gcm_get_tag ctx') = gcm_tag hash_key (fst (init_block iv)) (snd (init_block iv)) (concat as)
      (if enc then out else concat ds)"
proof -
  from runs_data [OF start_data [OF assms(1), of iv as], of enc "[]" ds] assms(2)
  have o: "out = ctr_xor blk (fst (init_block iv)) (snd (init_block iv) + 1) 0 (concat ds)"
    and st: "data_state ctx' hash_key (concat as) (fst (init_block iv)) (snd (init_block iv)) (if enc then out else concat ds)"
    by auto
  show "out = ctr_xor blk (fst (init_block iv)) (snd (init_block iv) + 1) 0 (concat ds)" by (rule o)
  show "snd (br_gcm_get_tag ctx') = gcm_tag hash_key (fst (init_block iv)) (snd (init_block iv)) (concat as)
      (if enc then out else concat ds)"
    using get_tag [OF st, of "fst (br_gcm_get_tag ctx')"] by simp
qed

lemma gcm_tag_single:
  "gcm_tag k iv j a c = map2 (XOR) (g (replicate 16 0) k
    (pad16 a @ pad16 c @ br_enc64be (of_nat (8 * length a)) @ br_enc64be (of_nat (8 * length c)))) (blk iv j)"
proof -
  have "pad16 (pad16 a @ c) = pad16 a @ pad16 c"
    by (rule pad16_append [OF dvd_pad16])
  then show ?thesis by (simp add: gcm_tag_def g_twice)
qed

end

text \<open>The comparison of \<open>br_gcm_check_tag_trunc\<close> accumulates the differences of all bytes.\<close>

lemma foldl_or_zero:
  "foldl (\<lambda>x u. x OR f u) (z :: 'a::len word) us = 0 \<longleftrightarrow> z = 0 \<and> (\<forall>u\<in>set us. f u = 0)"
proof (induction us arbitrary: z)
  case (Cons u us)
  have "z OR f u = 0 \<longleftrightarrow> z = 0 \<and> f u = 0"
    by (auto simp: bit_eq_iff bit_simps)
  then show ?case using Cons by auto
qed simp

lemma xor_eq_0: "a XOR b = 0 \<longleftrightarrow> a = b" for a b :: "'a::len word"
  by (auto simp: bit_eq_iff bit_simps)

lemma check_tag_trunc_iff:
  assumes "length (snd (br_gcm_get_tag ctx)) = 16" "n \<le> 16" "n \<le> length tag"
  shows "snd (br_gcm_check_tag_trunc ctx tag n) = (if take n tag = take n (snd (br_gcm_get_tag ctx)) then 1 else 0)"
proof -
  obtain c tmp where t: "br_gcm_get_tag ctx = (c, tmp)" by fastforce
  have u: "ucast (w :: u8) = (0 :: u32) \<longleftrightarrow> w = 0" for w
  proof
    assume "ucast w = (0 :: u32)"
    then have "ucast (ucast w :: u32) = (0 :: u8)" by simp
    then show "w = 0" by (simp add: is_up ucast_up_ucast_id)
  qed simp
  have "foldl (\<lambda>x u. x OR ucast (tmp ! u XOR tag ! u)) (0 :: u32) [0..<n] = 0 \<longleftrightarrow> (\<forall>i<n. tmp ! i = tag ! i)"
    by (auto simp: foldl_or_zero u xor_eq_0)
  also have "\<dots> \<longleftrightarrow> take n tag = take n tmp"
    using assms t by (auto simp: list_eq_iff_nth_eq)
  finally show ?thesis
    by (simp add: br_gcm_check_tag_trunc_def t Let_def EQ0_spec sint_0_iff)
qed

end
