(* ===== verification/Aes_Ni.thy ===== *)
theory Aes_Ni
  imports Sse Gcm
begin

text \<open>
  AES with the AES-NI instructions: the key schedule (\<open>symcipher/aes_x86ni.c\<close>) and counter mode
  (\<open>symcipher/aes_x86ni_ctr.c\<close>).  The instructions are modelled on the sixteen bytes of a
  register as the instruction set defines them.  The key schedules for the three key sizes are
  proved to be the key expansion of FIPS 197, and the counter-mode loop, which works on four
  blocks at a time, to be the counter mode of the AES cipher; it is an instance of the contract
  that GCM relies on.
\<close>

section \<open>The AES instructions\<close>

definition sbox :: "u8 list" where
  "sbox = [
    0x63, 0x7C, 0x77, 0x7B, 0xF2, 0x6B, 0x6F, 0xC5, 0x30, 0x01, 0x67, 0x2B, 0xFE, 0xD7, 0xAB, 0x76,
    0xCA, 0x82, 0xC9, 0x7D, 0xFA, 0x59, 0x47, 0xF0, 0xAD, 0xD4, 0xA2, 0xAF, 0x9C, 0xA4, 0x72, 0xC0,
    0xB7, 0xFD, 0x93, 0x26, 0x36, 0x3F, 0xF7, 0xCC, 0x34, 0xA5, 0xE5, 0xF1, 0x71, 0xD8, 0x31, 0x15,
    0x04, 0xC7, 0x23, 0xC3, 0x18, 0x96, 0x05, 0x9A, 0x07, 0x12, 0x80, 0xE2, 0xEB, 0x27, 0xB2, 0x75,
    0x09, 0x83, 0x2C, 0x1A, 0x1B, 0x6E, 0x5A, 0xA0, 0x52, 0x3B, 0xD6, 0xB3, 0x29, 0xE3, 0x2F, 0x84,
    0x53, 0xD1, 0x00, 0xED, 0x20, 0xFC, 0xB1, 0x5B, 0x6A, 0xCB, 0xBE, 0x39, 0x4A, 0x4C, 0x58, 0xCF,
    0xD0, 0xEF, 0xAA, 0xFB, 0x43, 0x4D, 0x33, 0x85, 0x45, 0xF9, 0x02, 0x7F, 0x50, 0x3C, 0x9F, 0xA8,
    0x51, 0xA3, 0x40, 0x8F, 0x92, 0x9D, 0x38, 0xF5, 0xBC, 0xB6, 0xDA, 0x21, 0x10, 0xFF, 0xF3, 0xD2,
    0xCD, 0x0C, 0x13, 0xEC, 0x5F, 0x97, 0x44, 0x17, 0xC4, 0xA7, 0x7E, 0x3D, 0x64, 0x5D, 0x19, 0x73,
    0x60, 0x81, 0x4F, 0xDC, 0x22, 0x2A, 0x90, 0x88, 0x46, 0xEE, 0xB8, 0x14, 0xDE, 0x5E, 0x0B, 0xDB,
    0xE0, 0x32, 0x3A, 0x0A, 0x49, 0x06, 0x24, 0x5C, 0xC2, 0xD3, 0xAC, 0x62, 0x91, 0x95, 0xE4, 0x79,
    0xE7, 0xC8, 0x37, 0x6D, 0x8D, 0xD5, 0x4E, 0xA9, 0x6C, 0x56, 0xF4, 0xEA, 0x65, 0x7A, 0xAE, 0x08,
    0xBA, 0x78, 0x25, 0x2E, 0x1C, 0xA6, 0xB4, 0xC6, 0xE8, 0xDD, 0x74, 0x1F, 0x4B, 0xBD, 0x8B, 0x8A,
    0x70, 0x3E, 0xB5, 0x66, 0x48, 0x03, 0xF6, 0x0E, 0x61, 0x35, 0x57, 0xB9, 0x86, 0xC1, 0x1D, 0x9E,
    0xE1, 0xF8, 0x98, 0x11, 0x69, 0xD9, 0x8E, 0x94, 0x9B, 0x1E, 0x87, 0xE9, 0xCE, 0x55, 0x28, 0xDF,
    0x8C, 0xA1, 0x89, 0x0D, 0xBF, 0xE6, 0x42, 0x68, 0x41, 0x99, 0x2D, 0x0F, 0xB0, 0x54, 0xBB, 0x16]"

definition sub_byte :: "u8 \<Rightarrow> u8" where
  "sub_byte b = sbox ! unat b"

definition xtime :: "u8 \<Rightarrow> u8" where
  "xtime b = push_bit 1 b XOR (if bit b 7 then 0x1B else 0)"

text \<open>Product in the field of AES, by doubling.\<close>

primrec gmul8 :: "nat \<Rightarrow> u8 \<Rightarrow> u8 \<Rightarrow> u8" where
  "gmul8 0 a b = 0"
| "gmul8 (Suc n) a b = (if bit a 0 then b else 0) XOR gmul8 n (drop_bit 1 a) (xtime b)"

definition shift_rows :: "bytes \<Rightarrow> bytes" where
  "shift_rows s = map (\<lambda>i. s ! ((i + 4 * (i mod 4)) mod 16)) [0..<16]"

text \<open>Row \<open>r\<close> of a column times the circulant matrix with first row \<open>m\<close>.\<close>

definition mix_with :: "u8 list \<Rightarrow> bytes \<Rightarrow> bytes" where
  "mix_with m s = map (\<lambda>i. let c = 4 * (i div 4); r = i mod 4
     in foldr (XOR) (map (\<lambda>j. gmul8 8 (m ! ((j + 4 - r) mod 4)) (s ! (c + j))) [0..<4]) 0) [0..<16]"

definition mm_aesenc_si128 :: "u128 \<Rightarrow> u128 \<Rightarrow> u128" where
  "mm_aesenc_si128 x k = mm_loadu_si128
     (mix_with [2, 3, 1, 1] (map sub_byte (shift_rows (mm_storeu_si128 x)))) XOR k"

definition mm_aesenclast_si128 :: "u128 \<Rightarrow> u128 \<Rightarrow> u128" where
  "mm_aesenclast_si128 x k = mm_loadu_si128 (map sub_byte (shift_rows (mm_storeu_si128 x))) XOR k"

definition mm_aesimc_si128 :: "u128 \<Rightarrow> u128" where
  "mm_aesimc_si128 x = mm_loadu_si128 (mix_with [14, 11, 13, 9] (mm_storeu_si128 x))"

definition SubWord :: "u32 \<Rightarrow> u32" where
  "SubWord w = br_dec32le (map sub_byte (br_enc32le w))"

definition RotWord :: "u32 \<Rightarrow> u32" where
  "RotWord w = word_rotr 8 w"

definition mm_aeskeygenassist_si128 :: "u128 \<Rightarrow> u32 \<Rightarrow> u128" where
  "mm_aeskeygenassist_si128 x rcon =
    pack [SubWord (lane 1 x), RotWord (SubWord (lane 1 x)) XOR rcon,
          SubWord (lane 3 x), RotWord (SubWord (lane 3 x)) XOR rcon]"

section \<open>Key schedule\<close>

definition expand_step128 :: "u128 \<Rightarrow> u128 \<Rightarrow> u128" where
  "expand_step128 k k2 =
    (let k = mm_xor_si128 k (mm_slli_si128 k 4);
         k = mm_xor_si128 k (mm_slli_si128 k 4);
         k = mm_xor_si128 k (mm_slli_si128 k 4);
         k2 = mm_shuffle_epi32 k2 0xFF
     in mm_xor_si128 k k2)"

definition expand_step192 :: "u128 \<times> u128 \<times> u128 \<Rightarrow> u128 \<times> u128 \<times> u128" where
  "expand_step192 t =
    (case t of (t1, t2, t3) \<Rightarrow>
      let t2 = mm_shuffle_epi32 t2 0x55;
          t4 = mm_slli_si128 t1 4;
          t1 = mm_xor_si128 t1 t4;
          t4 = mm_slli_si128 t4 4;
          t1 = mm_xor_si128 t1 t4;
          t4 = mm_slli_si128 t4 4;
          t1 = mm_xor_si128 t1 t4;
          t1 = mm_xor_si128 t1 t2;
          t2 = mm_shuffle_epi32 t1 0xFF;
          t4 = mm_slli_si128 t3 4;
          t3 = mm_xor_si128 t3 t4;
          t3 = mm_xor_si128 t3 t2
      in (t1, t2, t3))"

definition expand_step256_1 :: "u128 \<Rightarrow> u128 \<Rightarrow> u128 \<times> u128" where
  "expand_step256_1 t1 t2 =
    (let t2 = mm_shuffle_epi32 t2 0xFF;
         t4 = mm_slli_si128 t1 4;
         t1 = mm_xor_si128 t1 t4;
         t4 = mm_slli_si128 t4 4;
         t1 = mm_xor_si128 t1 t4;
         t4 = mm_slli_si128 t4 4;
         t1 = mm_xor_si128 t1 t4;
         t1 = mm_xor_si128 t1 t2
     in (t1, t2))"

definition expand_step256_2 :: "u128 \<Rightarrow> u128 \<Rightarrow> u128" where
  "expand_step256_2 t1 t3 =
    (let t4 = mm_aeskeygenassist_si128 t1 0;
         t2 = mm_shuffle_epi32 t4 0xAA;
         t4 = mm_slli_si128 t3 4;
         t3 = mm_xor_si128 t3 t4;
         t4 = mm_slli_si128 t4 4;
         t3 = mm_xor_si128 t3 t4;
         t4 = mm_slli_si128 t4 4;
         t3 = mm_xor_si128 t3 t4
     in mm_xor_si128 t3 t2)"

definition KEXP128 :: "u128 \<times> u128 list \<Rightarrow> nat \<times> u32 \<Rightarrow> u128 \<times> u128 list" where
  "KEXP128 st ir =
    (case st of (k, sk) \<Rightarrow> case ir of (i, rcon) \<Rightarrow>
      let k = expand_step128 k (mm_aeskeygenassist_si128 k rcon) in (k, sk[i := k]))"

definition KEXP192 :: "u128 \<times> u128 \<times> u128 list \<Rightarrow> nat \<times> u32 \<times> u32 \<Rightarrow> u128 \<times> u128 \<times> u128 list" where
  "KEXP192 st ir =
    (case st of (t1, t3, sk) \<Rightarrow> case ir of (i, rcon1, rcon2) \<Rightarrow>
      let sk = sk[i := t1];
          sk = sk[i + 1 := t3];
          t2 = mm_aeskeygenassist_si128 t3 rcon1;
          (t1, t2, t3) = expand_step192 (t1, t2, t3);
          sk = sk[i + 1 := mm_shuffle_pd (sk ! (i + 1)) t1 0];
          sk = sk[i + 2 := mm_shuffle_pd t1 t3 1];
          t2 = mm_aeskeygenassist_si128 t3 rcon2;
          (t1, t2, t3) = expand_step192 (t1, t2, t3)
      in (t1, t3, sk))"

definition KEXP256 :: "u128 \<times> u128 \<times> u128 list \<Rightarrow> nat \<times> u32 \<Rightarrow> u128 \<times> u128 \<times> u128 list" where
  "KEXP256 st ir =
    (case st of (t1, t3, sk) \<Rightarrow> case ir of (i, rcon) \<Rightarrow>
      let sk = sk[i := t3];
          t2 = mm_aeskeygenassist_si128 t3 rcon;
          (t1, t2) = expand_step256_1 t1 t2;
          sk = sk[i + 1 := t1];
          t3 = expand_step256_2 t1 t3
      in (t1, t3, sk))"

text \<open>The array \<open>sk\<close> of fifteen registers is declared by the callers without initialisation: its
  indeterminate contents are the argument \<open>u\<close> of the callers below.  The repeated macro calls of
  each case are a fold over their arguments, in order.\<close>

definition x86ni_keysched :: "u128 list \<Rightarrow> bytes \<Rightarrow> u128 list \<times> nat" where
  "x86ni_keysched sk kb =
    (if length kb = 16
     then let t1 = mm_loadu_si128 kb;
              sk = sk[0 := t1];
              (t1, sk) = foldl KEXP128 (t1, sk)
                [(1, 0x01), (2, 0x02), (3, 0x04), (4, 0x08), (5, 0x10),
                 (6, 0x20), (7, 0x40), (8, 0x80), (9, 0x1B), (10, 0x36)]
          in (sk, 10)
     else if length kb = 24
     then let t1 = mm_loadu_si128 kb;
              t3 = mm_loadu_si128 (drop 8 kb);
              t3 = mm_shuffle_epi32 t3 0x4E;
              (t1, t3, sk) = foldl KEXP192 (t1, t3, sk)
                [(0, 0x01, 0x02), (3, 0x04, 0x08), (6, 0x10, 0x20), (9, 0x40, 0x80)];
              sk = sk[12 := t1]
          in (sk, 12)
     else if length kb = 32
     then let t1 = mm_loadu_si128 kb;
              t3 = mm_loadu_si128 (drop 16 kb);
              sk = sk[0 := t1];
              (t1, t3, sk) = foldl KEXP256 (t1, t3, sk)
                [(1, 0x01), (3, 0x02), (5, 0x04), (7, 0x08), (9, 0x10), (11, 0x20)];
              sk = sk[13 := t3];
              t2 = mm_aeskeygenassist_si128 t3 0x40;
              (t1, t2) = expand_step256_1 t1 t2;
              sk = sk[14 := t1]
          in (sk, 14)
     else (sk, 0))"

definition br_aes_x86ni_keysched_enc :: "(nat \<Rightarrow> u128) \<Rightarrow> bytes \<Rightarrow> bytes \<Rightarrow> bytes \<times> nat" where
  "br_aes_x86ni_keysched_enc u skni key =
    (let sk = map u [0..<15];
         (sk, num_rounds) = x86ni_keysched sk key
     in (memcpy skni 0 (concat (map mm_storeu_si128 (take (num_rounds + 1) sk))), num_rounds))"

definition br_aes_x86ni_keysched_dec :: "(nat \<Rightarrow> u128) \<Rightarrow> bytes \<Rightarrow> bytes \<Rightarrow> bytes \<times> nat" where
  "br_aes_x86ni_keysched_dec u skni key =
    (let sk = map u [0..<15];
         (sk, num_rounds) = x86ni_keysched sk key;
         skni = memcpy skni 0 (mm_storeu_si128 (sk ! num_rounds));
         skni = foldl (\<lambda>skni i. memcpy skni (i * 16)
             (mm_storeu_si128 (mm_aesimc_si128 (sk ! (num_rounds - i))))) skni [1..<num_rounds];
         skni = memcpy skni (num_rounds * 16) (mm_storeu_si128 (sk ! 0))
     in (skni, num_rounds))"

section \<open>Counter mode\<close>

record br_aes_x86ni_ctr_keys =
  skni :: bytes
  num_rounds :: nat

definition br_aes_x86ni_ctr_init :: "(nat \<Rightarrow> u128) \<Rightarrow> br_aes_x86ni_ctr_keys \<Rightarrow> bytes \<Rightarrow> br_aes_x86ni_ctr_keys" where
  "br_aes_x86ni_ctr_init u ctx key =
    (let (s, n) = br_aes_x86ni_keysched_enc u (skni ctx) key in ctx\<lparr>skni := s, num_rounds := n\<rparr>)"

text \<open>The rounds applied to each of the four registers \<open>x0\<close> to \<open>x3\<close>.\<close>

definition aes_rounds :: "u128 list \<Rightarrow> nat \<Rightarrow> u128 \<Rightarrow> u128" where
  "aes_rounds sk nr x =
    (let x = mm_xor_si128 x (sk ! 0);
         x = foldl (\<lambda>x i. mm_aesenc_si128 x (sk ! i)) x [1, 2, 3, 4, 5, 6, 7, 8, 9]
     in if nr = 10 then mm_aesenclast_si128 x (sk ! 10)
        else if nr = 12
        then let x = foldl (\<lambda>x i. mm_aesenc_si128 x (sk ! i)) x [10, 11] in mm_aesenclast_si128 x (sk ! 12)
        else let x = foldl (\<lambda>x i. mm_aesenc_si128 x (sk ! i)) x [10, 11, 12, 13] in mm_aesenclast_si128 x (sk ! 14))"

definition br_bswap32 :: "u32 \<Rightarrow> u32" where
  "br_bswap32 x = br_dec32le (br_enc32be x)"

function ctr_loop :: "u128 list \<Rightarrow> nat \<Rightarrow> u128 \<Rightarrow> u32 \<Rightarrow> bytes \<Rightarrow> u32 \<times> bytes" where
  "ctr_loop sk nr ivx cc buf =
    (if length buf = 0 then (cc, [])
     else let x0 = aes_rounds sk nr (mm_insert_epi32 ivx (br_bswap32 (cc + 0)) 3);
              x1 = aes_rounds sk nr (mm_insert_epi32 ivx (br_bswap32 (cc + 1)) 3);
              x2 = aes_rounds sk nr (mm_insert_epi32 ivx (br_bswap32 (cc + 2)) 3);
              x3 = aes_rounds sk nr (mm_insert_epi32 ivx (br_bswap32 (cc + 3)) 3)
          in if length buf \<ge> 64
             then let x0 = mm_xor_si128 x0 (mm_loadu_si128 buf);
                      x1 = mm_xor_si128 x1 (mm_loadu_si128 (drop 16 buf));
                      x2 = mm_xor_si128 x2 (mm_loadu_si128 (drop 32 buf));
                      x3 = mm_xor_si128 x3 (mm_loadu_si128 (drop 48 buf));
                      (cc', rest) = ctr_loop sk nr ivx (cc + 4) (drop 64 buf)
                  in (cc', mm_storeu_si128 x0 @ mm_storeu_si128 x1 @ mm_storeu_si128 x2 @ mm_storeu_si128 x3 @ rest)
             else let tmp = mm_storeu_si128 x0 @ mm_storeu_si128 x1 @ mm_storeu_si128 x2 @ mm_storeu_si128 x3
                  in (cc + drop_bit 4 (of_nat (length buf)), map2 (XOR) buf tmp))"
  by pat_completeness auto
termination by (relation "measure (\<lambda>(sk, nr, ivx, cc, buf). length buf)") auto

declare ctr_loop.simps [simp del]

text \<open>The last four bytes of \<open>ivbuf\<close> are indeterminate in the source; every use of \<open>ivx\<close> replaces
  them.  They are the argument \<open>junk\<close>.\<close>

definition br_aes_x86ni_ctr_run :: "(nat \<Rightarrow> u8) \<Rightarrow> br_aes_x86ni_ctr_keys \<Rightarrow> bytes \<Rightarrow> u32 \<Rightarrow> bytes \<Rightarrow> u32 \<times> bytes" where
  "br_aes_x86ni_ctr_run junk ctx iv cc data =
    (let ivbuf = take 12 iv @ map junk [12..<16];
         nr = num_rounds ctx;
         sk = map (\<lambda>u. mm_loadu_si128 (drop (u * 16) (skni ctx))) [0..<nr + 1];
         ivx = mm_loadu_si128 ivbuf
     in ctr_loop sk nr ivx cc data)"

section \<open>The key expansion of FIPS 197\<close>

definition rcon_word :: "nat \<Rightarrow> u32" where
  "rcon_word i = ucast ((xtime ^^ (i - 1)) 1)"

text \<open>Word \<open>i\<close> of the expansion of a key of \<open>nk\<close> words (a word is four bytes, the first one least
  significant).\<close>

fun key_word :: "nat \<Rightarrow> u32 list \<Rightarrow> nat \<Rightarrow> u32" where
  "key_word nk ws i =
    (if i < nk \<or> nk = 0 then ws ! i
     else let t = key_word nk ws (i - 1)
          in key_word nk ws (i - nk) XOR
            (if i mod nk = 0 then SubWord (RotWord t) XOR rcon_word (i div nk)
             else if nk > 6 \<and> i mod nk = 4 then SubWord t else t))"

declare key_word.simps [simp del]

definition key_words :: "bytes \<Rightarrow> u32 list" where
  "key_words kb = map (\<lambda>i. br_dec32le (drop (4 * i) kb)) [0..<length kb div 4]"

definition round_key :: "nat \<Rightarrow> u32 list \<Rightarrow> nat \<Rightarrow> u128" where
  "round_key nk ws i = pack (map (\<lambda>j. key_word nk ws (4 * i + j)) [0, 1, 2, 3])"

lemma lane_load:
  assumes "i < 4" "4 * i + 4 \<le> length kb"
  shows "(lane i (mm_loadu_si128 kb) :: u32) = br_dec32le (drop (4 * i) kb)"
proof (rule bit_word_eqI)
  fix n assume "n < LENGTH(32)"
  then have n: "n < 32" by simp
  have b: "bit (lane i (mm_loadu_si128 kb) :: u32) n = bit (kb ! (4 * i + n div 8)) (n mod 8)"
  proof -
    have "i * 32 + n = 8 * (4 * i) + n" by simp
    then have "(i * 32 + n) div 8 = 4 * i + n div 8" "(i * 32 + n) mod 8 = n mod 8"
      by (simp_all only: div_mult_self4 mod_mult_self4 zero_neq_numeral not_False_eq_True)
    moreover have "i * 32 + n < 128" using assms(1) n by simp
    moreover have "4 * i + n div 8 < length kb" "4 * i + n div 8 < 16" using assms n by auto
    ultimately show ?thesis using n by (simp add: bit_lane mm_loadu_si128_def bit_pack)
  qed
  consider "n < 8" | "8 \<le> n" "n < 16" | "16 \<le> n" "n < 24" | "24 \<le> n" "n < 32" using n by linarith
  then show "bit (lane i (mm_loadu_si128 kb) :: u32) n = bit (br_dec32le (drop (4 * i) kb)) n"
  proof cases
    case 1
    then show ?thesis unfolding b using assms by (auto simp: br_dec32le_def bit_simps)
  next
    case 2
    then have "n div 8 = 1" "n mod 8 = n - 8" by presburger+
    then show ?thesis unfolding b using assms 2 by (auto simp: br_dec32le_def bit_simps)
  next
    case 3
    then have "n div 8 = 2" "n mod 8 = n - 16" by presburger+
    then show ?thesis unfolding b using assms 3 by (auto simp: br_dec32le_def bit_simps)
  next
    case 4
    then have "n div 8 = 3" "n mod 8 = n - 24" by presburger+
    then show ?thesis unfolding b using assms 4 by (auto simp: br_dec32le_def bit_simps)
  qed
qed

lemma SubWord_RotWord: "SubWord (RotWord w) = RotWord (SubWord w)"
proof -
  have e: "br_enc32le (RotWord w) = [byte_of 1 w, byte_of 2 w, byte_of 3 w, byte_of 0 w]" for w
    unfolding br_enc32le_def RotWord_def list.inject
    by (intro conjI refl; rule word_eq_bitwiseI; simp add: bit_simps upt_bits bit_byte_of bit_word_rotr_iff)
  have d: "RotWord (br_dec32le [a, b, c, d]) = br_dec32le [b, c, d, a]" for a b c d
    unfolding br_dec32le_def RotWord_def
    by (rule word_eq_bitwiseI; simp add: bit_simps upt_bits bit_word_rotr_iff)
  have "br_enc32le w = [byte_of 0 w, byte_of 1 w, byte_of 2 w, byte_of 3 w]"
    by (simp add: br_enc32le_def byte_of_def)
  then show ?thesis by (simp add: SubWord_def e d)
qed

lemma lane_slli4: "i < 4 \<Longrightarrow> (lane i (mm_slli_si128 x 4) :: u32) = (if i = 0 then 0 else lane (i - 1) x)"
  using lane_push [where 'a = 32, of i 1 x] by (simp add: mm_slli_si128_def)

lemma lane_shuffle:
  "i < 4 \<Longrightarrow> (lane i (mm_shuffle_epi32 x imm) :: u32) = lane (imm div 4 ^ i mod 4) x"
proof -
  assume i: "i < 4"
  then have "(lane i (mm_shuffle_epi32 x imm) :: u32) = map (\<lambda>i. lane (imm div 4 ^ i mod 4) x) [0, 1, 2, 3] ! i"
    unfolding mm_shuffle_epi32_def by (intro lane_pack) simp_all
  also have "[0, 1, 2, 3] ! i = i" using i by (auto simp: less_Suc_eq numeral_eq_Suc)
  then have "map (\<lambda>i. lane (imm div 4 ^ i mod 4) x :: u32) [0, 1, 2, 3] ! i = lane (imm div 4 ^ i mod 4) x"
    using i by (simp only: nth_map list.size)
  finally show ?thesis .
qed

lemma lane_assist:
  "(lane 1 (mm_aeskeygenassist_si128 x r) :: u32) = SubWord (RotWord (lane 1 x)) XOR r"
  "(lane 2 (mm_aeskeygenassist_si128 x r) :: u32) = SubWord (lane 3 x)"
  "(lane 3 (mm_aeskeygenassist_si128 x r) :: u32) = SubWord (RotWord (lane 3 x)) XOR r"
  by (simp_all add: mm_aeskeygenassist_si128_def SubWord_RotWord)

text \<open>Every expansion step makes the running exclusive or of the lanes of its first register.\<close>

definition run_xor :: "u128 \<Rightarrow> u32 \<Rightarrow> u128" where
  "run_xor k r = pack [lane 0 k XOR r, lane 0 k XOR lane 1 k XOR r,
    lane 0 k XOR lane 1 k XOR lane 2 k XOR r, lane 0 k XOR lane 1 k XOR lane 2 k XOR lane 3 k XOR r]"

lemmas step_lanes = mm_xor_si128_def lane_xor lane_slli4 lane_shuffle

lemma xor_word_self_left [simp]: "a XOR a XOR b = b" for a b :: "'a::len word"
  by (simp flip: xor.assoc)

lemma expand_step128_eq: "expand_step128 k k2 = run_xor k (lane 3 k2)"
  by (rule lane32_eqI) (simp_all add: expand_step128_def run_xor_def Let_def step_lanes xor.assoc xor.commute xor.left_commute)

lemma expand_step256_1_eq: "fst (expand_step256_1 k k2) = run_xor k (lane 3 k2)"
  by (rule lane32_eqI) (simp_all add: expand_step256_1_def run_xor_def Let_def step_lanes xor.assoc xor.commute xor.left_commute)

lemma expand_step256_2_eq: "expand_step256_2 t1 t3 = run_xor t3 (SubWord (lane 3 t1))"
  by (rule lane32_eqI) (simp_all add: expand_step256_2_def run_xor_def Let_def step_lanes lane_assist xor.assoc xor.commute xor.left_commute)

lemma expand_step192_eq:
  assumes "expand_step192 (t1, t2, t3) = (u1, u2, u3)"
  shows "u1 = run_xor t1 (lane 1 t2)" "(lane 0 u3 :: u32) = lane 0 t3 XOR lane 3 u1"
    "(lane 1 u3 :: u32) = lane 0 t3 XOR lane 1 t3 XOR lane 3 u1"
proof -
  show u1: "u1 = run_xor t1 (lane 1 t2)"
  proof -
    have "u1 = fst (expand_step192 (t1, t2, t3))" using assms by simp
    also have "\<dots> = run_xor t1 (lane 1 t2)"
      by (rule lane32_eqI)
        (simp_all add: expand_step192_def run_xor_def Let_def step_lanes xor.assoc xor.commute xor.left_commute)
    finally show ?thesis .
  qed
  show "(lane 0 u3 :: u32) = lane 0 t3 XOR lane 3 u1" "(lane 1 u3 :: u32) = lane 0 t3 XOR lane 1 t3 XOR lane 3 u1"
    using assms by (auto simp: expand_step192_def Let_def step_lanes xor.assoc xor.commute xor.left_commute)
qed

lemma run_xor_words:
  assumes "(lane 0 k :: u32) = w a" "(lane 1 k :: u32) = w (a + 1)" "(lane 2 k :: u32) = w (a + 2)" "(lane 3 k :: u32) = w (a + 3)"
    and "w b = w a XOR r" "w (b + 1) = w (a + 1) XOR w b" "w (b + 2) = w (a + 2) XOR w (b + 1)" "w (b + 3) = w (a + 3) XOR w (b + 2)"
  shows "run_xor k r = pack [w b, w (b + 1), w (b + 2), w (b + 3)]"
  unfolding run_xor_def assms by (simp add: xor.assoc xor.commute xor.left_commute)

lemma key_word_step: "0 < nk \<Longrightarrow> nk \<le> i \<Longrightarrow> i mod nk \<noteq> 0 \<Longrightarrow> \<not> (6 < nk \<and> i mod nk = 4) \<Longrightarrow>
    key_word nk ws i = key_word nk ws (i - nk) XOR key_word nk ws (i - 1)"
  by (subst key_word.simps) (auto simp: Let_def)

lemma key_word_first: "0 < nk \<Longrightarrow> key_word nk ws (nk * Suc j) =
    key_word nk ws (nk * j) XOR SubWord (RotWord (key_word nk ws (nk * Suc j - 1))) XOR rcon_word (Suc j)"
  by (subst key_word.simps) (simp add: Let_def)

lemma key_word_mid: "key_word 8 ws (8 * Suc j + 4) =
    key_word 8 ws (8 * j + 4) XOR SubWord (key_word 8 ws (8 * Suc j + 3))"
  by (subst key_word.simps) (simp add: Let_def add.commute)

abbreviation words4 :: "(nat \<Rightarrow> u32) \<Rightarrow> nat \<Rightarrow> u128" where
  "words4 w a \<equiv> pack [w a, w (a + 1), w (a + 2), w (a + 3)]"

lemma round_key_words4: "round_key nk ws i = words4 (key_word nk ws) (4 * i)"
  by (simp add: round_key_def)

lemma words4_lanes:
  "(lane 0 (words4 w a) :: u32) = w a" "(lane 1 (words4 w a) :: u32) = w (a + 1)"
  "(lane 2 (words4 w a) :: u32) = w (a + 2)" "(lane 3 (words4 w a) :: u32) = w (a + 3)"
  by simp_all

lemma KEXP128_step:
  "expand_step128 (round_key 4 ws i) (mm_aeskeygenassist_si128 (round_key 4 ws i) (rcon_word (Suc i)))
    = round_key 4 ws (Suc i)"
proof -
  let ?w = "key_word 4 ws"
  have *: "?w (4 * Suc i) = ?w (4 * i) XOR SubWord (RotWord (?w (4 * i + 3))) XOR rcon_word (Suc i)"
    using key_word_first [of 4 ws i] by (simp add: add.commute)
  have n: "?w (4 * Suc i + 1) = ?w (4 * i + 1) XOR ?w (4 * Suc i)"
    "?w (4 * Suc i + 2) = ?w (4 * i + 2) XOR ?w (4 * Suc i + 1)"
    "?w (4 * Suc i + 3) = ?w (4 * i + 3) XOR ?w (4 * Suc i + 2)"
    using key_word_step [of 4 "4 * Suc i + 1" ws] key_word_step [of 4 "4 * Suc i + 2" ws]
      key_word_step [of 4 "4 * Suc i + 3" ws] by (simp_all add: add.commute)
  show ?thesis
    unfolding expand_step128_eq lane_assist round_key_words4 words4_lanes
    by (rule run_xor_words [where w = ?w and a = "4 * i"]) (simp_all only: words4_lanes * n)
qed

lemma KEXP256_steps:
  assumes "t1 = words4 (key_word 8 ws) (8 * j)" "t3 = words4 (key_word 8 ws) (8 * j + 4)"
    and "t1' = fst (expand_step256_1 t1 (mm_aeskeygenassist_si128 t3 (rcon_word (Suc j))))"
  shows "t1' = words4 (key_word 8 ws) (8 * Suc j)"
    and "expand_step256_2 t1' t3 = words4 (key_word 8 ws) (8 * Suc j + 4)"
proof -
  let ?w = "key_word 8 ws"
  have *: "?w (8 * Suc j) = ?w (8 * j) XOR SubWord (RotWord (?w (8 * j + 4 + 3))) XOR rcon_word (Suc j)"
    using key_word_first [of 8 ws j] by (simp add: add.commute)
  have n: "?w (8 * Suc j + 1) = ?w (8 * j + 1) XOR ?w (8 * Suc j)"
    "?w (8 * Suc j + 2) = ?w (8 * j + 2) XOR ?w (8 * Suc j + 1)"
    "?w (8 * Suc j + 3) = ?w (8 * j + 3) XOR ?w (8 * Suc j + 2)"
    using key_word_step [of 8 "8 * Suc j + 1" ws] key_word_step [of 8 "8 * Suc j + 2" ws]
      key_word_step [of 8 "8 * Suc j + 3" ws] by (simp_all add: add.commute)
  have m: "?w (8 * Suc j + 4 + 1) = ?w (8 * j + 4 + 1) XOR ?w (8 * Suc j + 4)"
    "?w (8 * Suc j + 4 + 2) = ?w (8 * j + 4 + 2) XOR ?w (8 * Suc j + 4 + 1)"
    "?w (8 * Suc j + 4 + 3) = ?w (8 * j + 4 + 3) XOR ?w (8 * Suc j + 4 + 2)"
    using key_word_step [of 8 "8 * Suc j + 4 + 1" ws] key_word_step [of 8 "8 * Suc j + 4 + 2" ws]
      key_word_step [of 8 "8 * Suc j + 4 + 3" ws] by (simp_all add: add.commute)
  show t1': "t1' = words4 ?w (8 * Suc j)"
    unfolding assms expand_step256_1_eq lane_assist words4_lanes
    by (rule run_xor_words [where w = ?w and a = "8 * j"]) (simp_all only: words4_lanes * n)
  show "expand_step256_2 t1' t3 = words4 ?w (8 * Suc j + 4)"
    unfolding expand_step256_2_eq t1' assms(2) words4_lanes
    by (rule run_xor_words [where w = ?w and a = "8 * j + 4"]) (simp_all only: words4_lanes key_word_mid m)
qed

lemma expand192_step:
  assumes "t1 = words4 (key_word 6 ws) (6 * j)" "(lane 0 t3 :: u32) = key_word 6 ws (6 * j + 4)"
    "(lane 1 t3 :: u32) = key_word 6 ws (6 * j + 5)"
    and "expand_step192 (t1, mm_aeskeygenassist_si128 t3 (rcon_word (Suc j)), t3) = (u1, u2, u3)"
  shows "u1 = words4 (key_word 6 ws) (6 * Suc j)" "(lane 0 u3 :: u32) = key_word 6 ws (6 * Suc j + 4)"
    "(lane 1 u3 :: u32) = key_word 6 ws (6 * Suc j + 5)"
proof -
  let ?w = "key_word 6 ws"
  note e = expand_step192_eq [OF assms(4)]
  have *: "?w (6 * Suc j) = ?w (6 * j) XOR SubWord (RotWord (?w (6 * j + 5))) XOR rcon_word (Suc j)"
    using key_word_first [of 6 ws j] by (simp add: add.commute)
  have n: "?w (6 * Suc j + 1) = ?w (6 * j + 1) XOR ?w (6 * Suc j)"
    "?w (6 * Suc j + 2) = ?w (6 * j + 2) XOR ?w (6 * Suc j + 1)"
    "?w (6 * Suc j + 3) = ?w (6 * j + 3) XOR ?w (6 * Suc j + 2)"
    "?w (6 * Suc j + 4) = ?w (6 * j + 4) XOR ?w (6 * Suc j + 3)"
    "?w (6 * Suc j + 5) = ?w (6 * j + 5) XOR ?w (6 * Suc j + 4)"
    using key_word_step [of 6 "6 * Suc j + 1" ws] key_word_step [of 6 "6 * Suc j + 2" ws]
      key_word_step [of 6 "6 * Suc j + 3" ws] key_word_step [of 6 "6 * Suc j + 4" ws]
      key_word_step [of 6 "6 * Suc j + 5" ws] by (simp_all add: add.commute)
  show u1: "u1 = words4 ?w (6 * Suc j)"
    unfolding e(1) assms(1) lane_assist assms(3)
    by (rule run_xor_words [where w = ?w and a = "6 * j"]) (simp_all only: words4_lanes * n)
  show "(lane 0 u3 :: u32) = ?w (6 * Suc j + 4)" "(lane 1 u3 :: u32) = ?w (6 * Suc j + 5)"
    unfolding e(2,3) u1 words4_lanes assms(2,3) n(4,5) by (simp_all add: xor.assoc xor.left_commute)
qed

definition sched_upto :: "nat \<Rightarrow> u32 list \<Rightarrow> nat \<Rightarrow> u128 list \<Rightarrow> bool" where
  "sched_upto nk ws n sk \<longleftrightarrow> length sk = 15 \<and> (\<forall>j<n. sk ! j = round_key nk ws j)"

lemma sched_upto_update:
  "sched_upto nk ws n sk \<Longrightarrow> n < 15 \<Longrightarrow> x = round_key nk ws n \<Longrightarrow> sched_upto nk ws (Suc n) (sk[n := x])"
  by (auto simp: sched_upto_def nth_list_update less_Suc_eq)

lemma key_words_lanes:
  "length kb = 4 * n \<Longrightarrow> i < n \<Longrightarrow> key_words kb ! i = br_dec32le (drop (4 * i) kb)"
  by (simp add: key_words_def)

lemma load_words4:
  assumes "length kb = 4 * nk" "a + 4 \<le> nk"
  shows "mm_loadu_si128 (drop (4 * a) kb) = words4 (key_word nk (key_words kb)) a"
proof -
  have k: "key_word nk (key_words kb) (a + i) = br_dec32le (drop (4 * i) (drop (4 * a) kb))" if "i < 4" for i
    using assms that key_words_lanes [OF assms(1), of "a + i"]
    by (subst key_word.simps) (simp add: add.commute)
  have l: "(lane i (mm_loadu_si128 (drop (4 * a) kb)) :: u32) = key_word nk (key_words kb) (a + i)" if "i < 4" for i
    using lane_load [OF that, of "drop (4 * a) kb"] assms that by (simp add: k [OF that])
  show ?thesis
    by (rule lane32_eqI) (simp_all only: words4_lanes, use l [of 0] l [of 1] l [of 2] l [of 3] in simp_all)
qed

lemma keysched128:
  assumes "length kb = 16" "length sk = 15"
  shows "snd (x86ni_keysched sk kb) = 10" "sched_upto 4 (key_words kb) 11 (fst (x86ni_keysched sk kb))"
proof -
  define ws where "ws = key_words kb"
  define xs :: "(nat \<times> u32) list" where "xs = [(1, 0x01), (2, 0x02), (3, 0x04), (4, 0x08), (5, 0x10),
      (6, 0x20), (7, 0x40), (8, 0x80), (9, 0x1B), (10, 0x36)]"
  have xs: "xs = map (\<lambda>i. (Suc i, rcon_word (Suc i))) [0..<10]"
    unfolding xs_def by code_simp
  define t1 where "t1 = mm_loadu_si128 kb"
  define P where "P = (\<lambda>i (k, sk). k = round_key 4 ws i \<and> sched_upto 4 ws (Suc i) sk)"
  have "t1 = round_key 4 ws 0"
    using load_words4 [of kb 4 0] assms by (simp add: t1_def ws_def round_key_words4)
  then have "P 0 (t1, sk[0 := t1])"
    using sched_upto_update [of 4 ws 0 sk t1] assms(2) by (simp add: P_def sched_upto_def)
  then have "P (length xs) (foldl KEXP128 (t1, sk[0 := t1]) xs)"
  proof (rule foldl_inv)
    fix i and s :: "u128 \<times> u128 list" assume i: "i < length xs" and p: "P i s"
    obtain k sk where s: "s = (k, sk)" by fastforce
    have "KEXP128 s (xs ! i) = (round_key 4 ws (Suc i), sk[Suc i := round_key 4 ws (Suc i)])"
      using i p by (simp add: xs KEXP128_def s P_def Let_def KEXP128_step)
    then show "P (Suc i) (KEXP128 s (xs ! i))"
      using p i sched_upto_update [of 4 ws "Suc i" sk] by (simp add: P_def s xs)
  qed
  then have "P 10 (foldl KEXP128 (t1, sk[0 := t1]) xs)" by (simp add: xs)
  moreover have "x86ni_keysched sk kb = (snd (foldl KEXP128 (t1, sk[0 := t1]) xs), 10)"
  proof -
    have "(length kb = 16) = True" using assms(1) by simp
    then show ?thesis by (simp only: x86ni_keysched_def Let_def xs_def t1_def split_def if_True)
  qed
  ultimately show "snd (x86ni_keysched sk kb) = 10" "sched_upto 4 (key_words kb) 11 (fst (x86ni_keysched sk kb))"
    by (simp_all add: P_def split_def ws_def)
qed

lemma lane32_halves:
  "(lane 0 x :: u32) = ucast (lane 0 x :: u64)" "(lane 1 x :: u32) = ucast (drop_bit 32 (lane 0 x :: u64))"
  "(lane 2 x :: u32) = ucast (lane 1 x :: u64)" "(lane 3 x :: u32) = ucast (drop_bit 32 (lane 1 x :: u64))"
  by (rule word_eq_bitwiseI, simp add: bit_lane bit_simps upt_bits)+

lemma lanes_shuffle_pd:
  "(lane 0 (mm_shuffle_pd x y 0) :: u32) = lane 0 x" "(lane 1 (mm_shuffle_pd x y 0) :: u32) = lane 1 x"
  "(lane 2 (mm_shuffle_pd x y 0) :: u32) = lane 0 y" "(lane 3 (mm_shuffle_pd x y 0) :: u32) = lane 1 y"
  "(lane 0 (mm_shuffle_pd x y 1) :: u32) = lane 2 x" "(lane 1 (mm_shuffle_pd x y 1) :: u32) = lane 3 x"
  "(lane 2 (mm_shuffle_pd x y 1) :: u32) = lane 0 y" "(lane 3 (mm_shuffle_pd x y 1) :: u32) = lane 1 y"
  unfolding lane32_halves by (simp_all add: mm_shuffle_pd_def)

lemma KEXP192_step:
  assumes "t1 = words4 (key_word 6 ws) (6 * j)" "(lane 0 t3 :: u32) = key_word 6 ws (6 * j + 4)"
    "(lane 1 t3 :: u32) = key_word 6 ws (6 * j + 5)" "sched_upto 6 ws i sk" "i + 2 < 15" "6 * j = 4 * i"
    and "KEXP192 (t1, t3, sk) (i, rcon_word (Suc j), rcon_word (Suc (Suc j))) = (u1, u3, sk')"
  shows "u1 = words4 (key_word 6 ws) (6 * (j + 2))" "(lane 0 u3 :: u32) = key_word 6 ws (6 * (j + 2) + 4)"
    "(lane 1 u3 :: u32) = key_word 6 ws (6 * (j + 2) + 5)" "sched_upto 6 ws (i + 3) sk'"
proof -
  obtain v1 v2 v3 where v: "expand_step192 (t1, mm_aeskeygenassist_si128 t3 (rcon_word (Suc j)), t3) = (v1, v2, v3)"
    using prod_cases3 by blast
  obtain w1 w2 w3 where w: "expand_step192 (v1, mm_aeskeygenassist_si128 v3 (rcon_word (Suc (Suc j))), v3) = (w1, w2, w3)"
    using prod_cases3 by blast
  note s1 = expand192_step [OF assms(1-3) v]
  note s2 = expand192_step [OF s1 w]
  have len: "length sk = 15" using assms(4) by (simp add: sched_upto_def)
  have u: "u1 = w1" "u3 = w3"
    and sk': "sk' = sk[i := t1, i + 1 := t3, i + 1 := mm_shuffle_pd t3 v1 0, i + 2 := mm_shuffle_pd v1 v3 1]"
    using assms(5,7) v w len by (auto simp: KEXP192_def Let_def)
  show "u1 = words4 (key_word 6 ws) (6 * (j + 2))" "(lane 0 u3 :: u32) = key_word 6 ws (6 * (j + 2) + 4)"
    "(lane 1 u3 :: u32) = key_word 6 ws (6 * (j + 2) + 5)"
    using s2 by (simp_all add: u)
  have r0: "t1 = round_key 6 ws i" by (simp only: assms(1,6) round_key_words4)
  have i1: "4 * Suc i = 6 * j + 4" "4 * Suc (Suc i) = 6 * Suc j + 2" using assms(6) by simp_all
  have r1: "mm_shuffle_pd t3 v1 0 = round_key 6 ws (Suc i)"
    unfolding round_key_words4 i1
    by (rule lane32_eqI) (simp_all only: lanes_shuffle_pd words4_lanes assms(2,3) s1(1), simp_all add: add.commute)
  have r2: "mm_shuffle_pd v1 v3 1 = round_key 6 ws (Suc (Suc i))"
    unfolding round_key_words4 i1
    by (rule lane32_eqI) (simp_all only: lanes_shuffle_pd words4_lanes s1, simp_all add: add.commute)
  have "sched_upto 6 ws (Suc (Suc (Suc i))) (sk[i := t1, Suc i := mm_shuffle_pd t3 v1 0, Suc (Suc i) := mm_shuffle_pd v1 v3 1])"
    using assms(4,5) r0 r1 r2 by (intro sched_upto_update) simp_all
  then show "sched_upto 6 ws (i + 3) sk'" by (simp add: sk' numeral_eq_Suc)
qed

lemma keysched192:
  assumes "length kb = 24" "length sk = 15"
  shows "snd (x86ni_keysched sk kb) = 12" "sched_upto 6 (key_words kb) 13 (fst (x86ni_keysched sk kb))"
proof -
  define ws where "ws = key_words kb"
  define xs :: "(nat \<times> u32 \<times> u32) list" where "xs = [(0, 0x01, 0x02), (3, 0x04, 0x08), (6, 0x10, 0x20), (9, 0x40, 0x80)]"
  have xs: "xs = map (\<lambda>i. (3 * i, rcon_word (Suc (2 * i)), rcon_word (Suc (Suc (2 * i))))) [0..<4]"
    unfolding xs_def by code_simp
  define t1 where "t1 = mm_loadu_si128 kb"
  define t3 where "t3 = mm_shuffle_epi32 (mm_loadu_si128 (drop 8 kb)) 0x4E"
  define P where "P = (\<lambda>i (t1, t3 :: u128, sk). t1 = words4 (key_word 6 ws) (6 * (2 * i))
      \<and> (lane 0 t3 :: u32) = key_word 6 ws (6 * (2 * i) + 4) \<and> (lane 1 t3 :: u32) = key_word 6 ws (6 * (2 * i) + 5)
      \<and> sched_upto 6 ws (3 * i) sk)"
  have "t1 = words4 (key_word 6 ws) 0"
    using load_words4 [of kb 6 0] assms by (simp add: t1_def ws_def)
  moreover have "mm_loadu_si128 (drop 8 kb) = words4 (key_word 6 ws) 2"
    using load_words4 [of kb 6 2] assms by (simp add: ws_def)
  then have "(lane 0 t3 :: u32) = key_word 6 ws 4" "(lane 1 t3 :: u32) = key_word 6 ws 5"
    by (simp_all add: t3_def lane_shuffle)
  ultimately have "P 0 (t1, t3, sk)" using assms(2) by (simp add: P_def sched_upto_def)
  then have "P (length xs) (foldl KEXP192 (t1, t3, sk) xs)"
  proof (rule foldl_inv)
    fix i and s :: "u128 \<times> u128 \<times> u128 list" assume i: "i < length xs" and p: "P i s"
    obtain a b sk where s: "s = (a, b, sk)" using prod_cases3 by blast
    obtain a' b' sk' where r: "KEXP192 (a, b, sk) (3 * i, rcon_word (Suc (2 * i)), rcon_word (Suc (Suc (2 * i)))) = (a', b', sk')"
      using prod_cases3 by blast
    have i3: "3 * i + 2 < 15" "6 * (2 * i) = 4 * (3 * i)" using i by (simp_all add: xs)
    have "a = words4 (key_word 6 ws) (6 * (2 * i))" "(lane 0 b :: u32) = key_word 6 ws (6 * (2 * i) + 4)"
      "(lane 1 b :: u32) = key_word 6 ws (6 * (2 * i) + 5)" "sched_upto 6 ws (3 * i) sk"
      using p by (simp_all add: P_def s)
    note st = KEXP192_step [OF this i3 r]
    have "KEXP192 s (xs ! i) = (a', b', sk')" "2 * Suc i = 2 * i + 2" "3 * Suc i = 3 * i + 3"
      using i r by (simp_all add: xs s)
    then show "P (Suc i) (KEXP192 s (xs ! i))" using st by (simp only: P_def prod.case)
  qed
  then have "P 4 (foldl KEXP192 (t1, t3, sk) xs)" by (simp add: xs)
  moreover obtain a b sk' where f: "foldl KEXP192 (t1, t3, sk) xs = (a, b, sk')" using prod_cases3 by blast
  ultimately have p: "a = round_key 6 ws 12" "sched_upto 6 ws 12 sk'" by (simp_all add: P_def round_key_words4)
  have "x86ni_keysched sk kb = (sk'[12 := a], 12)"
  proof -
    have "(length kb = 16) = False" "(length kb = 24) = True" using assms(1) by simp_all
    then have "x86ni_keysched sk kb = (case foldl KEXP192 (t1, t3, sk) xs of (t1, t3, sk) \<Rightarrow> (sk[12 := t1], 12))"
      by (simp only: x86ni_keysched_def Let_def xs_def t1_def t3_def if_True if_False)
    then show ?thesis by (simp add: f)
  qed
  then show "snd (x86ni_keysched sk kb) = 12" "sched_upto 6 (key_words kb) 13 (fst (x86ni_keysched sk kb))"
    using sched_upto_update [OF p(2) _ p(1)] by (simp_all add: ws_def)
qed

lemma keysched256:
  assumes "length kb = 32" "length sk = 15"
  shows "snd (x86ni_keysched sk kb) = 14" "sched_upto 8 (key_words kb) 15 (fst (x86ni_keysched sk kb))"
proof -
  define ws where "ws = key_words kb"
  define xs :: "(nat \<times> u32) list" where "xs = [(1, 0x01), (3, 0x02), (5, 0x04), (7, 0x08), (9, 0x10), (11, 0x20)]"
  have xs: "xs = map (\<lambda>i. (Suc (2 * i), rcon_word (Suc i))) [0..<6]"
    unfolding xs_def by code_simp
  have rc7: "rcon_word (Suc 6) = 0x40" by code_simp
  define t1 where "t1 = mm_loadu_si128 kb"
  define t3 where "t3 = mm_loadu_si128 (drop 16 kb)"
  define P where "P = (\<lambda>i (t1, t3 :: u128, sk). t1 = words4 (key_word 8 ws) (8 * i)
      \<and> t3 = words4 (key_word 8 ws) (8 * i + 4) \<and> sched_upto 8 ws (Suc (2 * i)) sk)"
  have "t1 = words4 (key_word 8 ws) 0" "t3 = words4 (key_word 8 ws) 4"
    using load_words4 [of kb 8 0] load_words4 [of kb 8 4] assms by (simp_all add: t1_def t3_def ws_def)
  then have "P 0 (t1, t3, sk[0 := t1])"
    using assms(2) sched_upto_update [of 8 ws 0 sk t1] by (simp add: P_def sched_upto_def round_key_words4)
  then have "P (length xs) (foldl KEXP256 (t1, t3, sk[0 := t1]) xs)"
  proof (rule foldl_inv)
    fix i and s :: "u128 \<times> u128 \<times> u128 list" assume i: "i < length xs" and p: "P i s"
    obtain a b sk where s: "s = (a, b, sk)" using prod_cases3 by blast
    have a: "a = words4 (key_word 8 ws) (8 * i)" and b: "b = words4 (key_word 8 ws) (8 * i + 4)"
      and sk: "sched_upto 8 ws (Suc (2 * i)) sk" using p by (simp_all add: P_def s)
    define a' where "a' = fst (expand_step256_1 a (mm_aeskeygenassist_si128 b (rcon_word (Suc i))))"
    note st = KEXP256_steps [OF a b a'_def]
    have r: "KEXP256 s (xs ! i) = (a', expand_step256_2 a' b, sk[Suc (2 * i) := b, Suc (Suc (2 * i)) := a'])"
      using i by (simp add: s xs KEXP256_def Let_def a'_def split_def)
    have "b = round_key 8 ws (Suc (2 * i))" "a' = round_key 8 ws (Suc (Suc (2 * i)))"
      unfolding round_key_words4 by (simp_all add: b st(1) add.commute)
    then have "sched_upto 8 ws (Suc (Suc (Suc (2 * i)))) (sk[Suc (2 * i) := b, Suc (Suc (2 * i)) := a'])"
      using sk i by (intro sched_upto_update) (simp_all add: xs)
    then show "P (Suc i) (KEXP256 s (xs ! i))" using st by (simp add: r P_def)
  qed
  then have "P 6 (foldl KEXP256 (t1, t3, sk[0 := t1]) xs)" by (simp add: xs)
  moreover obtain a b sk' where f: "foldl KEXP256 (t1, t3, sk[0 := t1]) xs = (a, b, sk')" using prod_cases3 by blast
  ultimately have p: "a = words4 (key_word 8 ws) (8 * 6)" "b = words4 (key_word 8 ws) (8 * 6 + 4)" "sched_upto 8 ws 13 sk'"
    by (simp_all add: P_def)
  define c where "c = fst (expand_step256_1 a (mm_aeskeygenassist_si128 b 0x40))"
  have rk: "b = round_key 8 ws 13" "c = round_key 8 ws 14"
    using KEXP256_steps(1) [OF p(1,2), unfolded rc7, OF c_def] by (simp_all add: round_key_words4 p(2))
  have "x86ni_keysched sk kb = (sk'[13 := b, 14 := c], 14)"
  proof -
    have "(length kb = 16) = False" "(length kb = 24) = False" "(length kb = 32) = True" using assms(1) by simp_all
    then have "x86ni_keysched sk kb = (case foldl KEXP256 (t1, t3, sk[0 := t1]) xs of (t1, t3, sk) \<Rightarrow>
        (case expand_step256_1 t1 (mm_aeskeygenassist_si128 t3 0x40) of (t1, t2) \<Rightarrow> (sk[13 := t3, 14 := t1], 14)))"
      by (simp only: x86ni_keysched_def Let_def xs_def t1_def t3_def if_True if_False)
    then show ?thesis by (simp add: f c_def split_def)
  qed
  moreover have "sched_upto 8 ws (Suc (Suc 13)) (sk'[13 := b, Suc 13 := c])"
    using p(3) rk by (intro sched_upto_update) simp_all
  ultimately show "snd (x86ni_keysched sk kb) = 14" "sched_upto 8 (key_words kb) 15 (fst (x86ni_keysched sk kb))"
    by (simp_all add: ws_def)
qed

section \<open>The cipher and counter mode\<close>

text \<open>The cipher of FIPS 197 on blocks of sixteen bytes.\<close>

definition fips_round :: "bytes \<Rightarrow> bytes \<Rightarrow> bytes" where
  "fips_round s rk = map2 (XOR) (mix_with [2, 3, 1, 1] (shift_rows (map sub_byte s))) rk"

definition fips_last :: "bytes \<Rightarrow> bytes \<Rightarrow> bytes" where
  "fips_last s rk = map2 (XOR) (shift_rows (map sub_byte s)) rk"

definition fips_key :: "bytes \<Rightarrow> nat \<Rightarrow> bytes" where
  "fips_key key i = mm_storeu_si128 (round_key (length key div 4) (key_words key) i)"

definition aes_cipher :: "bytes \<Rightarrow> bytes \<Rightarrow> bytes" where
  "aes_cipher key s =
    (let nr = length key div 4 + 6;
         s = map2 (XOR) s (fips_key key 0);
         s = foldl (\<lambda>s i. fips_round s (fips_key key i)) s [1..<nr]
     in fips_last s (fips_key key nr))"

lemma length_shift_rows [simp]: "length (shift_rows s) = 16"
  by (simp add: shift_rows_def)

lemma length_mix_with [simp]: "length (mix_with m s) = 16"
  by (simp add: mix_with_def Let_def)

lemma shift_rows_sub: "length s = 16 \<Longrightarrow> map sub_byte (shift_rows s) = shift_rows (map sub_byte s)"
  by (simp add: shift_rows_def)

lemma store_aesenc: "mm_storeu_si128 (mm_aesenc_si128 x k) = fips_round (mm_storeu_si128 x) (mm_storeu_si128 k)"
  by (simp add: mm_aesenc_si128_def fips_round_def store_xor shift_rows_sub)

lemma store_aesenclast: "mm_storeu_si128 (mm_aesenclast_si128 x k) = fips_last (mm_storeu_si128 x) (mm_storeu_si128 k)"
  by (simp add: mm_aesenclast_si128_def fips_last_def store_xor shift_rows_sub)

lemma store_rounds:
  "mm_storeu_si128 (foldl (\<lambda>x i. mm_aesenc_si128 x (sk ! i)) x is)
    = foldl (\<lambda>s i. fips_round s (mm_storeu_si128 (sk ! i))) (mm_storeu_si128 x) is"
  by (induction "is" arbitrary: x) (simp_all add: store_aesenc)

lemma aes_rounds_unfold:
  assumes "nr = 10 \<or> nr = 12 \<or> nr = 14"
  shows "aes_rounds sk nr x =
    mm_aesenclast_si128 (foldl (\<lambda>x i. mm_aesenc_si128 x (sk ! i)) (mm_xor_si128 x (sk ! 0)) [1..<nr]) (sk ! nr)"
proof -
  have "[1..<10] = [1, 2, 3, 4, 5, 6, 7, 8, 9]" "[1..<12] = [1, 2, 3, 4, 5, 6, 7, 8, 9] @ [10, 11]"
    "[1..<14] = [1, 2, 3, 4, 5, 6, 7, 8, 9] @ [10, 11, 12, 13]"
    by (simp_all add: upt_rec)
  then show ?thesis using assms by (auto simp: aes_rounds_def Let_def)
qed

typedef aes_key = "{k :: bytes. length k = 16 \<or> length k = 24 \<or> length k = 32}"
  morphisms aes_key_bytes Aes_key
  by (rule exI [of _ "replicate 16 0"]) simp

lemma keysched_correct:
  assumes "length key = 16 \<or> length key = 24 \<or> length key = 32" "length sk = 15"
    and "x86ni_keysched sk key = (sk', nr)"
  shows "nr = length key div 4 + 6" "length sk' = 15"
    "\<And>i. i \<le> nr \<Longrightarrow> sk' ! i = round_key (length key div 4) (key_words key) i"
proof -
  consider "length key = 16" | "length key = 24" | "length key = 32" using assms(1) by blast
  then have "nr = length key div 4 + 6 \<and> sched_upto (length key div 4) (key_words key) (Suc nr) sk'"
  proof cases
    case 1
    then show ?thesis using keysched128 [OF 1 assms(2)] assms(3) by simp
  next
    case 2
    then show ?thesis using keysched192 [OF 2 assms(2)] assms(3) by simp
  next
    case 3
    then show ?thesis using keysched256 [OF 3 assms(2)] assms(3) by simp
  qed
  then show "nr = length key div 4 + 6" "length sk' = 15"
    "\<And>i. i \<le> nr \<Longrightarrow> sk' ! i = round_key (length key div 4) (key_words key) i"
    by (simp_all add: sched_upto_def less_Suc_eq_le)
qed

lemma aes_rounds_cipher:
  assumes "length key = 16 \<or> length key = 24 \<or> length key = 32" "nr = length key div 4 + 6"
    and sk: "\<And>i. i \<le> nr \<Longrightarrow> mm_storeu_si128 (sk ! i) = fips_key key i"
  shows "mm_storeu_si128 (aes_rounds sk nr x) = aes_cipher key (mm_storeu_si128 x)"
proof -
  have nr: "nr = 10 \<or> nr = 12 \<or> nr = 14" using assms(1,2) by auto
  have "foldl (\<lambda>s i. fips_round s (mm_storeu_si128 (sk ! i))) s [1..<nr] = foldl (\<lambda>s i. fips_round s (fips_key key i)) s [1..<nr]" for s
    by (rule foldl_cong) (simp_all add: sk)
  then show ?thesis
    by (simp add: aes_rounds_unfold [OF nr] store_aesenclast store_rounds mm_xor_si128_def store_xor sk
        aes_cipher_def Let_def flip: assms(2))
qed

lemma insert_counter:
  assumes "length iv = 12" "length j = 4"
  shows "mm_insert_epi32 (mm_loadu_si128 (iv @ j)) (br_bswap32 cc) 3 = mm_loadu_si128 (iv @ br_enc32be cc)"
proof -
  have e: "length (br_enc32be cc) = 4" by (simp add: br_enc32be_def)
  have d: "br_dec32le (drop k (iv @ j)) = br_dec32le (drop k (iv @ br_enc32be cc))" if "k + 4 \<le> 12" for k
    using that assms by (simp add: br_dec32le_def nth_append)
  have "(lane 3 (mm_loadu_si128 (iv @ br_enc32be cc)) :: u32) = br_bswap32 cc"
    using lane_load [of 3 "iv @ br_enc32be cc"] assms e by (simp add: br_bswap32_def)
  moreover have "(lane i (mm_loadu_si128 (iv @ j)) :: u32) = lane i (mm_loadu_si128 (iv @ br_enc32be cc))" if "i < 3" for i
    using lane_load [of i "iv @ br_enc32be cc"] lane_load [of i "iv @ j"] d [of "4 * i"] assms e that by simp
  ultimately show ?thesis
    by (intro lane32_eqI) (simp_all add: mm_insert_epi32_def)
qed

lemma div_mod_16: "16 * k \<le> i \<Longrightarrow> i < 16 * k + 16 \<Longrightarrow> i div 16 = k \<and> i mod 16 = i - 16 * k" for i k :: nat
proof -
  assume "16 * k \<le> i" "i < 16 * k + 16"
  then have "i div 16 = k" by (intro div_nat_eqI) simp_all
  then show ?thesis using minus_mult_div_eq_mod [of i 16] by simp
qed

lemma nth_blocks4:
  assumes "length b0 = 16" "length b1 = 16" "length b2 = 16" "i < 64"
  shows "(b0 @ b1 @ b2 @ b3) ! i = [b0, b1, b2, b3] ! (i div 16) ! (i mod 16)"
proof -
  consider "i < 16" | "16 \<le> i" "i < 32" | "32 \<le> i" "i < 48" | "48 \<le> i" "i < 64" using assms(4) by linarith
  then show ?thesis
  proof cases
    case 2
    then have "i div 16 = 1" "i mod 16 = i - 16" "i - 16 < 16" using div_mod_16 [of 1 i] by auto
    then show ?thesis using 2 assms by (simp add: nth_append)
  next
    case 3
    then have "i div 16 = 2" "i mod 16 = i - 32" "i - 32 < 16" "\<not> i - 16 < 16" using div_mod_16 [of 2 i] by auto
    then show ?thesis using 3 assms by (simp add: nth_append)
  next
    case 4
    then have "i div 16 = 3" "i mod 16 = i - 48" "\<not> i - 16 < 16" "\<not> i - 32 < 16" using div_mod_16 [of 3 i] by auto
    then show ?thesis using 4 assms by (simp add: nth_append)
  qed (use assms in \<open>simp add: nth_append\<close>)
qed

lemma xor_blocks4:
  assumes "\<And>c. length (blk iv c) = 16" "length d \<le> 64"
  shows "map2 (XOR) d (blk iv cc @ blk iv (cc + 1) @ blk iv (cc + 2) @ blk iv (cc + 3)) = ctr_xor blk iv cc 0 d"
proof (rule nth_equalityI)
  fix i assume "i < length (map2 (XOR) d (blk iv cc @ blk iv (cc + 1) @ blk iv (cc + 2) @ blk iv (cc + 3)))"
  then have i: "i < length d" by simp
  then have q: "i div 16 = 0 \<or> i div 16 = 1 \<or> i div 16 = 2 \<or> i div 16 = 3" using assms(2) by auto
  have "(blk iv cc @ blk iv (cc + 1) @ blk iv (cc + 2) @ blk iv (cc + 3)) ! i = ks_at blk iv cc i"
    using nth_blocks4 [of "blk iv cc" "blk iv (cc + 1)" "blk iv (cc + 2)" i "blk iv (cc + 3)"] q i assms
    by (auto simp: ks_at_def)
  then show "map2 (XOR) d (blk iv cc @ blk iv (cc + 1) @ blk iv (cc + 2) @ blk iv (cc + 3)) ! i = ctr_xor blk iv cc 0 d ! i"
    using i assms by (simp add: nth_ctr_xor)
qed (use assms in simp)

lemma blocks_split:
  "64 \<le> length d \<Longrightarrow> d = take 16 d @ take 16 (drop 16 d) @ take 16 (drop 32 d) @ take 16 (drop 48 d) @ drop 64 d"
proof -
  have s: "drop k d = take 16 (drop k d) @ drop (k + 16) d" for k
    by (metis append_take_drop_id drop_drop add.commute)
  show ?thesis using s [of 0] s [of 16] s [of 32] s [of 48] by simp
qed

lemma ctr_loop_eq:
  assumes blk: "\<And>c. mm_storeu_si128 (aes_rounds sk nr (mm_insert_epi32 ivx (br_bswap32 c) 3)) = blk iv c"
  shows "ctr_loop sk nr ivx cc d = (cc + of_nat (length d div 16), ctr_xor blk iv cc 0 d)"
proof (induction "length d" arbitrary: cc d rule: less_induct)
  case less
  let ?x = "\<lambda>c. aes_rounds sk nr (mm_insert_epi32 ivx (br_bswap32 c) 3)"
  have lb: "length (blk iv c) = 16" for c by (simp flip: blk)
  consider "d = []" | "d \<noteq> []" "length d < 64" | "64 \<le> length d" by linarith
  then show ?case
  proof cases
    case 1
    then show ?thesis by (simp add: ctr_loop.simps [of sk nr ivx cc "[]"])
  next
    case 2
    have "drop_bit 4 (of_nat (length d) :: u32) = of_nat (length d div 16)"
      using 2 by (simp add: drop_bit_eq_div of_nat_div unat_of_nat word_unat_eq_iff unat_div)
    then show ?thesis
      using 2 xor_blocks4 [of blk iv d cc] lb
      by (simp add: ctr_loop.simps [of sk nr ivx cc d] Let_def blk)
  next
    case 3
    define r where "r = drop 64 d"
    have "d = take 64 d @ r" by (simp add: r_def)
    have ih: "ctr_loop sk nr ivx (cc + 4) r = (cc + 4 + of_nat (length r div 16), ctr_xor blk iv (cc + 4) 0 r)"
      using 3 by (intro less) (simp add: r_def)
    have x: "mm_storeu_si128 (?x c XOR mm_loadu_si128 (drop k d)) = map2 (XOR) (take 16 (drop k d)) (blk iv c)"
      if "k \<le> 48" for k c
      using 3 that by (subst xor.commute) (simp add: store_xor blk)
    have "mm_storeu_si128 (?x cc XOR mm_loadu_si128 d) @ mm_storeu_si128 (?x (cc + 1) XOR mm_loadu_si128 (drop 16 d))
        @ mm_storeu_si128 (?x (cc + 2) XOR mm_loadu_si128 (drop 32 d)) @ mm_storeu_si128 (?x (cc + 3) XOR mm_loadu_si128 (drop 48 d))
      = map2 (XOR) (take 16 d @ take 16 (drop 16 d) @ take 16 (drop 32 d) @ take 16 (drop 48 d))
          (blk iv cc @ blk iv (cc + 1) @ blk iv (cc + 2) @ blk iv (cc + 3))"
      using x [of 0 cc] x [of 16 "cc + 1"] x [of 32 "cc + 2"] x [of 48 "cc + 3"] 3 by (simp add: lb)
    also have "take 16 d @ take 16 (drop 16 d) @ take 16 (drop 32 d) @ take 16 (drop 48 d) = take 64 d"
      using arg_cong [OF blocks_split [OF 3], of "take 64"] 3 by simp
    also have "map2 (XOR) (take 64 d) (blk iv cc @ blk iv (cc + 1) @ blk iv (cc + 2) @ blk iv (cc + 3)) = ctr_xor blk iv cc 0 (take 64 d)"
      by (rule xor_blocks4) (simp_all add: lb)
    finally have first: "mm_storeu_si128 (?x cc XOR mm_loadu_si128 d) @ mm_storeu_si128 (?x (cc + 1) XOR mm_loadu_si128 (drop 16 d))
        @ mm_storeu_si128 (?x (cc + 2) XOR mm_loadu_si128 (drop 32 d)) @ mm_storeu_si128 (?x (cc + 3) XOR mm_loadu_si128 (drop 48 d))
      = ctr_xor blk iv cc 0 (take 64 d)" .
    have "ctr_loop sk nr ivx cc d = (cc + 4 + of_nat (length r div 16), ctr_xor blk iv cc 0 (take 64 d) @ ctr_xor blk iv (cc + 4) 0 r)"
      unfolding first [symmetric]
      using 3 ih by (subst ctr_loop.simps) (auto simp: Let_def mm_xor_si128_def r_def)
    moreover have "ctr_xor blk iv (cc + 4) 0 r = ctr_xor blk iv cc 64 r"
      using ctr_xor_shift [of blk iv cc 4 0 r] by simp
    moreover have "length d div 16 = 4 + length r div 16" using 3 by (simp add: r_def div_diff)
    ultimately show ?thesis
      using ctr_xor_append [of blk iv cc 0 "take 64 d" r] 3 by (simp add: r_def)
  qed
qed

lemma nth_concat_stores:
  "i < length xs \<Longrightarrow> mm_loadu_si128 (drop (i * 16) (concat (map mm_storeu_si128 xs) @ r)) = xs ! i"
proof (induction xs arbitrary: i)
  case (Cons x xs)
  show ?case
  proof (cases i)
    case 0
    have "mm_loadu_si128 (mm_storeu_si128 x @ r') = mm_loadu_si128 (mm_storeu_si128 x)" for r'
      by (simp only: mm_loadu_si128_def take_append length_store) simp
    then show ?thesis using 0 by simp
  next
    case (Suc j)
    then show ?thesis using Cons by simp
  qed
qed simp

lemma ctr_init_keys:
  assumes "length key = 16 \<or> length key = 24 \<or> length key = 32"
  shows "num_rounds (br_aes_x86ni_ctr_init u ctx key) = length key div 4 + 6"
    "i \<le> length key div 4 + 6 \<Longrightarrow> mm_loadu_si128 (drop (i * 16) (skni (br_aes_x86ni_ctr_init u ctx key)))
      = round_key (length key div 4) (key_words key) i"
proof -
  obtain sk nr where k: "x86ni_keysched (map u [0..<15]) key = (sk, nr)" by fastforce
  note c = keysched_correct [OF assms _ k, simplified]
  have n: "num_rounds (br_aes_x86ni_ctr_init u ctx key) = nr"
    "skni (br_aes_x86ni_ctr_init u ctx key) = memcpy (skni ctx) 0 (concat (map mm_storeu_si128 (take (nr + 1) sk)))"
    by (simp_all add: br_aes_x86ni_ctr_init_def br_aes_x86ni_keysched_enc_def Let_def k)
  then show "num_rounds (br_aes_x86ni_ctr_init u ctx key) = length key div 4 + 6" by (simp add: c)
  assume i: "i \<le> length key div 4 + 6"
  then have "i < length (take (nr + 1) sk)" using c(1,2) assms by auto
  from nth_concat_stores [OF this, of "drop _ (skni ctx)"]
  show "mm_loadu_si128 (drop (i * 16) (skni (br_aes_x86ni_ctr_init u ctx key)))
      = round_key (length key div 4) (key_words key) i"
    using c(3) [of i] i by (simp add: n memcpy_0 c(1))
qed

lemma ctr_run_eq:
  assumes "length key = 16 \<or> length key = 24 \<or> length key = 32" "length iv = 12"
  shows "br_aes_x86ni_ctr_run junk (br_aes_x86ni_ctr_init u ctx key) iv cc d =
    (cc + of_nat (length d div 16), ctr_xor (\<lambda>iv c. aes_cipher key (iv @ br_enc32be c)) iv cc 0 d)"
proof -
  define nr where "nr = length key div 4 + 6"
  define sk where "sk = map (\<lambda>u'. mm_loadu_si128 (drop (u' * 16) (skni (br_aes_x86ni_ctr_init u ctx key)))) [0..<nr + 1]"
  have sk: "mm_storeu_si128 (sk ! i) = fips_key key i" if "i \<le> nr" for i
  proof -
    have "sk ! i = mm_loadu_si128 (drop (i * 16) (skni (br_aes_x86ni_ctr_init u ctx key)))"
      using that unfolding sk_def by (subst nth_map) (simp_all del: upt_Suc)
    then show ?thesis using ctr_init_keys(2) [OF assms(1), of i u ctx] that by (simp add: nr_def fips_key_def)
  qed
  have "mm_storeu_si128 (aes_rounds sk nr (mm_insert_epi32 (mm_loadu_si128 (iv @ map junk [12..<16])) (br_bswap32 c) 3))
      = aes_cipher key (iv @ br_enc32be c)" for c
  proof -
    have "length (iv @ br_enc32be c) = 16" using assms(2) by (simp add: br_enc32be_def)
    then show ?thesis
      using aes_rounds_cipher [OF assms(1) nr_def sk, where x = "mm_loadu_si128 (iv @ br_enc32be c)"]
        insert_counter [OF assms(2), of "map junk [12..<16]" c] by simp
  qed
  from ctr_loop_eq [where blk = "\<lambda>iv c. aes_cipher key (iv @ br_enc32be c)" and iv = iv, OF this]
  show ?thesis
    using ctr_init_keys(1) [OF assms(1), of u ctx] assms(2)
    unfolding br_aes_x86ni_ctr_run_def Let_def nr_def [symmetric] sk_def [symmetric]
    by (simp only: nr_def [symmetric] sk_def [symmetric]) simp
qed

lemma length_aes_cipher [simp]: "length (aes_cipher key s) = 16"
  by (simp add: aes_cipher_def Let_def fips_last_def fips_key_def)

interpretation x86ni: ctr_mode "br_aes_x86ni_ctr_run junk (br_aes_x86ni_ctr_init u ctx (aes_key_bytes key))"
  "\<lambda>iv c. aes_cipher (aes_key_bytes key) (iv @ br_enc32be c)"
  using aes_key_bytes [of key] by unfold_locales (simp_all add: ctr_run_eq)

text \<open>(C23) The AES key schedule with AES-NI instructions is the key expansion of FIPS 197 for keys of 128, 192
  and 256 bits, whatever the uninitialised array held: the number of rounds is 10, 12 or 14, and round
  key \<open>i\<close> consists of words \<open>4i\<close> to \<open>4i + 3\<close> of the expansion; the encryption schedule is stored as
  consecutive 16-byte round keys.  Any other key length is refused with zero rounds.\<close>

theorem keysched_fips197:
  assumes "length sk = 15"
  shows "case x86ni_keysched sk key of (sk', nr) \<Rightarrow>
    (if length key = 16 \<or> length key = 24 \<or> length key = 32
     then nr = length key div 4 + 6 \<and> (\<forall>i\<le>nr. sk' ! i = pack (map (\<lambda>j. key_word (length key div 4) (key_words key) (4 * i + j)) [0, 1, 2, 3]))
     else nr = 0 \<and> sk' = sk)"
proof (cases "length key = 16 \<or> length key = 24 \<or> length key = 32")
  case True
  then show ?thesis
    using keysched_correct [OF True assms] by (simp add: split_def round_key_def) (metis prod.collapse)
next
  case False
  then show ?thesis by (simp add: x86ni_keysched_def)
qed

theorem keysched_fips197_witness:
  "case x86ni_keysched (replicate 15 0) (replicate 24 7) of (sk', nr) \<Rightarrow>
    nr = 12 \<and> (\<forall>i\<le>12. sk' ! i = pack (map (\<lambda>j. key_word 6 (key_words (replicate 24 7)) (4 * i + j)) [0, 1, 2, 3]))"
  using keysched_fips197 [of "replicate 15 0" "replicate 24 7"] by (auto split: prod.splits)

text \<open>Counter mode with AES-NI: for every valid key, every 12-byte IV, every counter and every length of
  data, the routine that encrypts four counter blocks at a time returns the data combined with the
  keystream of the FIPS 197 cipher on \<open>iv || counter\<close> (big-endian, modulo \<open>2^32\<close>), and the counter advanced
  by the number of full blocks; neither the uninitialised bytes of the IV buffer nor those of the key
  schedule matter.\<close>

lemma x86ni_ctr_correct:
  assumes "length key = 16 \<or> length key = 24 \<or> length key = 32" "length iv = 12"
  shows "br_aes_x86ni_ctr_run junk (br_aes_x86ni_ctr_init u ctx key) iv cc d =
    (cc + of_nat (length d div 16),
     map (\<lambda>n. d ! n XOR aes_cipher key (iv @ br_enc32be (cc + of_nat (n div 16))) ! (n mod 16)) [0..<length d])"
proof -
  have "ctr_xor (\<lambda>iv c. aes_cipher key (iv @ br_enc32be c)) iv cc 0 d =
      map (\<lambda>n. d ! n XOR aes_cipher key (iv @ br_enc32be (cc + of_nat (n div 16))) ! (n mod 16)) [0..<length d]"
    by (rule nth_equalityI) (simp_all add: nth_ctr_xor ks_at_def)
  then show ?thesis by (simp add: ctr_run_eq [OF assms])
qed

end
