(* ===== verification/Clmul.thy ===== *)
theory Clmul
  imports Prelude
begin

text \<open>
  Polynomials over the field with two elements, as natural numbers: exclusive or is addition, and
  \<open>cmul\<close> is multiplication without carries.  The congruence modulo the (bit-reversed) polynomial
  of GCM is developed far enough to make the reduction of \<open>hash/ghash_pclmul.c\<close> unique: a residue of
  less than 128 bits is determined by any power of two times it.
\<close>

section \<open>Multiplication without carries\<close>

fun cmul :: "nat \<Rightarrow> nat \<Rightarrow> nat" where
  "cmul a b = (if a = 0 then 0 else (if odd a then b else 0) XOR push_bit 1 (cmul (a div 2) b))"

declare cmul.simps [simp del]

lemma xor_nat_self [simp]: "a XOR a = 0" for a :: nat
  by (rule bit_eqI) (simp add: bit_simps)

lemma xor_nat_self_left [simp]: "a XOR a XOR b = b" for a b :: nat
  by (simp flip: xor.assoc)

lemmas xor_ac = xor.assoc xor.commute xor.left_commute

lemma cmul_rec: "cmul a b = (if odd a then b else 0) XOR push_bit 1 (cmul (a div 2) b)"
  by (cases "a = 0") (simp_all add: cmul.simps [of a] cmul.simps [of 0])

lemma cmul_0 [simp]: "cmul 0 b = 0" "cmul a 0 = 0"
proof -
  show "cmul 0 b = 0" by (simp add: cmul.simps)
  show "cmul a 0 = 0" by (induction a "0 :: nat" rule: cmul.induct) (subst cmul.simps, simp)
qed

lemma cmul_1 [simp]: "cmul 1 b = b" "cmul (Suc 0) b = b"
  by (simp_all add: cmul.simps [of 1] cmul.simps [of "Suc 0"])

lemma push_bit_xor_nat: "push_bit n (a XOR b) = push_bit n a XOR push_bit n b" for a b :: nat
  by (rule bit_eqI) (auto simp: bit_simps)

lemma cmul_xor_right: "cmul a (b XOR c) = cmul a b XOR cmul a c"
proof (induction a b rule: cmul.induct)
  case (1 a b)
  show ?case
  proof (cases "a = 0")
    case False
    show ?thesis
      by (subst (1 2 3) cmul_rec) (simp add: 1 [OF False] push_bit_xor_nat xor_ac)
  qed simp
qed

lemma cmul_push_right: "cmul a (push_bit n b) = push_bit n (cmul a b)"
proof (induction a b rule: cmul.induct)
  case (1 a b)
  show ?case
  proof (cases "a = 0")
    case False
    have "push_bit 1 (push_bit n x) = push_bit n (push_bit 1 x)" for x :: nat
      by (simp add: add.commute)
    then show ?thesis
      by (subst (1 2) cmul_rec) (simp add: 1 [OF False] push_bit_xor_nat del: push_bit_push_bit)
  qed simp
qed

lemma xor_div_2: "(a XOR b) div 2 = a div 2 XOR b div 2" for a b :: nat
  using drop_bit_xor [of 1 a b] by (simp add: drop_bit_eq_div)

lemma odd_xor: "odd (a XOR b) \<longleftrightarrow> odd a \<noteq> odd b" for a b :: nat
  by (simp add: even_xor_iff)

lemma low_bit_split: "(if odd a then 1 else 0) XOR push_bit 1 (a div 2) = a" for a :: nat
proof (rule bit_eqI)
  fix n
  show "bit ((if odd a then 1 else 0) XOR push_bit 1 (a div 2)) n = bit a n"
    by (cases n) (auto simp: bit_0 even_xor_iff bit_Suc xor_div_2 push_bit_double)
qed

lemma cmul_xor_left: "cmul (a XOR b) c = cmul a c XOR cmul b c"
proof (induction a c arbitrary: b rule: cmul.induct)
  case (1 a c)
  show ?case
  proof (cases "a = 0")
    case False
    show ?thesis
      by (subst (1 2 3) cmul_rec) (auto simp: 1 [OF False] push_bit_xor_nat xor_div_2 odd_xor xor_ac)
  qed simp
qed

lemma cmul_push1_left: "cmul (push_bit 1 a) b = push_bit 1 (cmul a b)"
  by (subst cmul_rec) (simp add: push_bit_Suc)

lemma cmul_push_left: "cmul (push_bit n a) b = push_bit n (cmul a b)"
proof (induction n)
  case (Suc n)
  have s: "push_bit (Suc n) x = push_bit 1 (push_bit n x)" for x :: nat by simp
  show ?case unfolding s by (simp only: cmul_push1_left Suc.IH)
qed simp

lemma cmul_assoc: "cmul (cmul a b) c = cmul a (cmul b c)"
proof (induction a b rule: cmul.induct)
  case (1 a b)
  show ?case
  proof (cases "a = 0")
    case False
    have "cmul (cmul a b) c = cmul ((if odd a then b else 0) XOR push_bit 1 (cmul (a div 2) b)) c"
      by (simp only: cmul_rec [of a b])
    also have "\<dots> = (if odd a then cmul b c else 0) XOR push_bit 1 (cmul (a div 2) (cmul b c))"
      by (simp only: cmul_xor_left cmul_push1_left 1 [OF False] cmul_0 if_distrib [of "\<lambda>x. cmul x c"])
    also have "\<dots> = cmul a (cmul b c)" by (rule cmul_rec [symmetric])
    finally show ?thesis .
  qed simp
qed

lemma cmul_1_right: "cmul a 1 = a"
proof (induction a "1 :: nat" rule: cmul.induct)
  case (1 a)
  show ?case
  proof (cases "a = 0")
    case False
    show ?thesis by (subst cmul_rec) (simp only: 1 [OF False] low_bit_split)
  qed simp
qed

lemma cmul_commute: "cmul a b = cmul b a"
proof (induction a b rule: cmul.induct)
  case (1 a b)
  show ?case
  proof (cases "a = 0")
    case False
    have "cmul b a = cmul b ((if odd a then 1 else 0) XOR push_bit 1 (a div 2))"
      by (simp only: low_bit_split)
    also have "\<dots> = cmul b (if odd a then 1 else 0) XOR push_bit 1 (cmul (a div 2) b)"
      by (simp only: cmul_xor_right cmul_push_right 1 [OF False])
    also have "cmul b (if odd a then 1 else 0) = (if odd a then b else 0)"
      using cmul_1_right by simp
    also have "\<dots> XOR push_bit 1 (cmul (a div 2) b) = cmul a b"
      by (rule cmul_rec [symmetric])
    finally show ?thesis by (rule sym)
  qed simp
qed

lemma cmul_exp: "cmul (2 ^ n) a = push_bit n a"
  using cmul_push_left [of n 1 a] by (simp add: push_bit_eq_mult)

section \<open>Degrees\<close>

lemma xor_nat_less: "a < 2 ^ n \<Longrightarrow> b < 2 ^ n \<Longrightarrow> a XOR b < 2 ^ n" for a b :: nat
  by (metis take_bit_nat_eq_self_iff take_bit_xor)

lemma cmul_less: "a < 2 ^ m \<Longrightarrow> b < 2 ^ Suc n \<Longrightarrow> cmul a b < 2 ^ (m + n)"
proof (induction m arbitrary: a)
  case (Suc m)
  have "cmul (a div 2) b < 2 ^ (m + n)" using Suc by simp
  then have "push_bit 1 (cmul (a div 2) b) < 2 ^ (Suc m + n)" by (simp add: push_bit_eq_mult)
  moreover have "(if odd a then b else 0) < 2 ^ (Suc m + n)"
  proof -
    have "(2 :: nat) ^ Suc n \<le> 2 ^ (Suc m + n)" by (rule power_increasing) simp_all
    then have "b < 2 ^ (Suc m + n)" using Suc.prems(2) by (rule less_le_trans [rotated])
    then show ?thesis by simp
  qed
  ultimately show ?case using xor_nat_less by (subst cmul_rec) blast
qed simp

lemma xor_nat_ge: "a < 2 ^ n \<Longrightarrow> 2 ^ n \<le> b \<Longrightarrow> 2 ^ n \<le> a XOR b" for a b :: nat
proof -
  assume "a < 2 ^ n" "2 ^ n \<le> b"
  then have "drop_bit n (a XOR b) = drop_bit n b" "0 < drop_bit n b"
    by (simp_all only: drop_bit_xor) (simp_all add: drop_bit_eq_div div_greater_zero_iff)
  then have "0 < (a XOR b) div 2 ^ n" by (simp add: drop_bit_eq_div)
  then show ?thesis by (simp add: div_greater_zero_iff)
qed

lemma cmul_ge:
  assumes "2 ^ k \<le> p" "p < 2 ^ Suc k" "q \<noteq> 0"
  shows "2 ^ k \<le> cmul q p"
  using assms
proof (induction q p rule: cmul.induct)
  case (1 q p)
  show ?case
  proof (cases "q div 2 = 0")
    case True
    then have "q = 1" using 1(4) by linarith
    then show ?thesis using 1(2) by simp
  next
    case False
    then have "2 ^ k \<le> cmul (q div 2) p" using 1 by simp
    then have "2 ^ Suc k \<le> push_bit 1 (cmul (q div 2) p)" by (simp add: push_bit_eq_mult)
    moreover have "(if odd q then p else 0) < 2 ^ Suc k" using 1(3) by simp
    ultimately have "2 ^ Suc k \<le> cmul q p" using xor_nat_ge by (subst cmul_rec) blast
    then show ?thesis by simp
  qed
qed

section \<open>Congruence modulo the polynomial of GCM\<close>

text \<open>The polynomial \<open>x^128 + x^127 + x^126 + x^121 + 1\<close>.\<close>

definition gcm_poly :: nat where
  "gcm_poly = 2 ^ 128 + 2 ^ 127 + 2 ^ 126 + 2 ^ 121 + 1"

definition pcong :: "nat \<Rightarrow> nat \<Rightarrow> bool" where
  "pcong a b \<longleftrightarrow> (\<exists>q. a XOR b = cmul q gcm_poly)"

lemma gcm_poly_bounds: "2 ^ 128 \<le> gcm_poly" "gcm_poly < 2 ^ Suc 128" "odd gcm_poly"
  by (simp_all add: gcm_poly_def)

lemma pcong_refl [simp]: "pcong a a"
  unfolding pcong_def by (rule exI [of _ 0]) simp

lemma pcong_sym: "pcong a b \<Longrightarrow> pcong b a"
  by (simp add: pcong_def xor.commute)

lemma xor_cancel_mid: "(a XOR b) XOR (b XOR c) = a XOR c" for a b c :: nat
  by (rule bit_eqI) (auto simp: bit_simps)

lemma pcong_trans [trans]: "pcong a b \<Longrightarrow> pcong b c \<Longrightarrow> pcong a c"
  unfolding pcong_def by (metis cmul_xor_left xor_cancel_mid)

lemma pcong_xor: "pcong a b \<Longrightarrow> pcong c d \<Longrightarrow> pcong (a XOR c) (b XOR d)"
  unfolding pcong_def
proof (elim exE)
  fix p q assume "a XOR b = cmul p gcm_poly" "c XOR d = cmul q gcm_poly"
  moreover have "(a XOR c) XOR (b XOR d) = (a XOR b) XOR (c XOR d)"
    by (simp add: xor_ac)
  ultimately show "\<exists>q. (a XOR c) XOR b XOR d = cmul q gcm_poly"
    by (metis cmul_xor_left)
qed

lemma pcong_cmul: "pcong a b \<Longrightarrow> pcong (cmul c a) (cmul c b)"
  unfolding pcong_def by (metis cmul_assoc cmul_xor_right)

lemma pcong_push: "pcong a b \<Longrightarrow> pcong (push_bit n a) (push_bit n b)"
  using pcong_cmul [of a b "2 ^ n"] by (simp add: cmul_exp)

text \<open>The constant coefficient of the modulus is 1, so that a factor \<open>x\<close> cancels.\<close>

lemma pcong_cancel1: "pcong (push_bit 1 a) (push_bit 1 b) \<Longrightarrow> pcong a b"
proof -
  assume "pcong (push_bit 1 a) (push_bit 1 b)"
  then obtain q where q: "push_bit 1 (a XOR b) = cmul q gcm_poly"
    by (auto simp: pcong_def push_bit_xor_nat)
  have c: "cmul q gcm_poly = (if odd q then gcm_poly else 0) XOR push_bit 1 (cmul (q div 2) gcm_poly)"
    by (rule cmul_rec)
  have "even (push_bit 1 x)" for x :: nat by simp
  then have "even q" using gcm_poly_bounds(3) c q by (metis odd_xor)
  then have "push_bit 1 (a XOR b) = push_bit 1 (cmul (q div 2) gcm_poly)" using q c by simp
  then have "a XOR b = cmul (q div 2) gcm_poly" by (simp add: push_bit_eq_mult)
  then show "pcong a b" by (auto simp: pcong_def)
qed

lemma pcong_cancel: "pcong (push_bit n a) (push_bit n b) \<Longrightarrow> pcong a b"
proof (induction n)
  case (Suc n)
  have s: "push_bit (Suc n) x = push_bit 1 (push_bit n x)" for x :: nat by simp
  show ?case using Suc pcong_cancel1 unfolding s by blast
qed simp

lemma pcong_unique: "pcong a b \<Longrightarrow> a < 2 ^ 128 \<Longrightarrow> b < 2 ^ 128 \<Longrightarrow> a = b"
proof -
  assume "pcong a b" "a < 2 ^ 128" "b < 2 ^ 128"
  then obtain q where q: "a XOR b = cmul q gcm_poly" "a XOR b < 2 ^ 128"
    unfolding pcong_def using xor_nat_less by blast
  have "q = 0"
  proof (rule ccontr)
    assume "q \<noteq> 0"
    from cmul_ge [OF gcm_poly_bounds(1,2) this] q show False by simp
  qed
  then have "a XOR b = 0" using q(1) by simp
  then show "a = b" by (metis xor.assoc xor.right_neutral xor_nat_self xor.commute)
qed

text \<open>The reduction rule: \<open>1\<close> is congruent to the other terms of the modulus.\<close>

lemma pcong_fold:
  "pcong a (push_bit 128 a XOR push_bit 127 a XOR push_bit 126 a XOR push_bit 121 a)"
proof -
  have p: "gcm_poly = 2 ^ 128 XOR 2 ^ 127 XOR 2 ^ 126 XOR 2 ^ 121 XOR 1"
    by (simp add: gcm_poly_def)
  have "cmul gcm_poly a = push_bit 128 a XOR push_bit 127 a XOR push_bit 126 a XOR push_bit 121 a XOR a"
    unfolding p by (simp only: cmul_xor_left cmul_exp cmul_1)
  then have "cmul a gcm_poly = push_bit 128 a XOR push_bit 127 a XOR push_bit 126 a XOR push_bit 121 a XOR a"
    by (simp only: cmul_commute [of a gcm_poly])
  then show ?thesis
    unfolding pcong_def by (intro exI [of _ a]) (simp only: xor_ac)
qed

end
