(* ===== verification/Ghash.thy ===== *)
theory Ghash
  imports Sse Clmul Gcm
begin

text \<open>
  GHASH with the carry-less multiplication instruction (\<open>hash/ghash_pclmul.c\<close>).  Every macro of
  the source is a function on 128-bit registers.  The routine is proved equal to the GHASH of
  NIST SP 800-38D, whose block multiplication is the bitwise loop \<open>gcm_mult\<close>: Karatsuba products,
  the one-bit shift that corrects the reversed bit order, the folding reduction, and the
  four-block aggregation with the powers of the key all compute the same field elements.
\<close>

section \<open>Definitions\<close>

definition byteswap_index :: u128 where
  "byteswap_index = mm_set_epi8 [0, 1, 2, 3, 4, 5, 6, 7, 8, 9, 10, 11, 12, 13, 14, 15]"

definition BYTESWAP :: "u128 \<Rightarrow> u128" where
  "BYTESWAP x = mm_shuffle_epi8 x byteswap_index"

definition pclmulqdq00 :: "u128 \<Rightarrow> u128 \<Rightarrow> u128" where
  "pclmulqdq00 x y = mm_clmulepi64_si128 x y 0x00"

definition pclmulqdq11 :: "u128 \<Rightarrow> u128 \<Rightarrow> u128" where
  "pclmulqdq11 x y = mm_clmulepi64_si128 x y 0x11"

definition BK :: "u128 \<Rightarrow> u128" where
  "BK kw = mm_xor_si128 kw (mm_shuffle_epi32 kw 0x0E)"

definition PBK :: "u128 \<Rightarrow> u128 \<Rightarrow> u128 \<times> u128" where
  "PBK k0 k1 = (mm_unpacklo_epi64 k1 k0, mm_xor_si128 k0 k1)"

type_synonym quad = "u128 \<times> u128 \<times> u128 \<times> u128"

fun SL_256 :: "quad \<Rightarrow> quad" where
  "SL_256 (x0, x1, x2, x3) =
    (let x0 = mm_or_si128 (mm_slli_epi64 x0 1) (mm_srli_epi64 x1 63);
         x1 = mm_or_si128 (mm_slli_epi64 x1 1) (mm_srli_epi64 x2 63);
         x2 = mm_or_si128 (mm_slli_epi64 x2 1) (mm_srli_epi64 x3 63);
         x3 = mm_slli_epi64 x3 1
     in (x0, x1, x2, x3))"

fun REDUCE_F128 :: "quad \<Rightarrow> u128 \<times> u128" where
  "REDUCE_F128 (x0, x1, x2, x3) =
    (let x1 = mm_xor_si128 x1
           (mm_xor_si128 (mm_xor_si128 x3 (mm_srli_epi64 x3 1))
             (mm_xor_si128 (mm_srli_epi64 x3 2) (mm_srli_epi64 x3 7)));
         x2 = mm_xor_si128 (mm_xor_si128 x2 (mm_slli_epi64 x3 63))
           (mm_xor_si128 (mm_slli_epi64 x3 62) (mm_slli_epi64 x3 57));
         x0 = mm_xor_si128 x0
           (mm_xor_si128 (mm_xor_si128 x2 (mm_srli_epi64 x2 1))
             (mm_xor_si128 (mm_srli_epi64 x2 2) (mm_srli_epi64 x2 7)));
         x1 = mm_xor_si128 (mm_xor_si128 x1 (mm_slli_epi64 x2 63))
           (mm_xor_si128 (mm_slli_epi64 x2 62) (mm_slli_epi64 x2 57))
     in (x0, x1))"

definition SQUARE_F128 :: "u128 \<Rightarrow> u128 \<times> u128" where
  "SQUARE_F128 kw =
    (let z1 = pclmulqdq11 kw kw;
         z3 = pclmulqdq00 kw kw;
         z0 = mm_shuffle_epi32 z1 0x0E;
         z2 = mm_shuffle_epi32 z3 0x0E;
         (z0, z1) = REDUCE_F128 (SL_256 (z0, z1, z2, z3))
     in PBK z0 z1)"

text \<open>The tail of every product of the routine: the three partial products \<open>t1\<close> (high halves),
  \<open>t3\<close> (low halves) and \<open>t2\<close> (the exclusive or of the halves) become a reduced pair of words.\<close>

definition ghash_combine :: "u128 \<Rightarrow> u128 \<Rightarrow> u128 \<Rightarrow> u128 \<times> u128" where
  "ghash_combine t1 t2 t3 =
    (let t2 = mm_xor_si128 t2 (mm_xor_si128 t1 t3);
         t0 = mm_shuffle_epi32 t1 0x0E;
         t1 = mm_xor_si128 t1 (mm_shuffle_epi32 t2 0x0E);
         t2 = mm_xor_si128 t2 (mm_shuffle_epi32 t3 0x0E)
     in REDUCE_F128 (SL_256 (t0, t1, t2, t3)))"

text \<open>The loop body over four blocks, with the powers of the key and their half sums.\<close>

definition ghash_step4 :: "u128 \<times> u128 \<times> u128 \<times> u128 \<Rightarrow> u128 \<times> u128 \<times> u128 \<times> u128 \<Rightarrow> u128 \<Rightarrow> bytes \<Rightarrow> u128" where
  "ghash_step4 hw hx yw buf1 =
    (case hw of (h1w, h2w, h3w, h4w) \<Rightarrow> case hx of (h1x, h2x, h3x, h4x) \<Rightarrow>
      let aw0 = BYTESWAP (mm_loadu_si128 buf1);
          aw1 = BYTESWAP (mm_loadu_si128 (drop 16 buf1));
          aw2 = BYTESWAP (mm_loadu_si128 (drop 32 buf1));
          aw3 = BYTESWAP (mm_loadu_si128 (drop 48 buf1));
          aw0 = mm_xor_si128 aw0 yw;
          ax1 = BK aw1; ax2 = BK aw2; ax3 = BK aw3; ax0 = BK aw0;
          t1 = mm_xor_si128 (mm_xor_si128 (pclmulqdq11 aw0 h4w) (pclmulqdq11 aw1 h3w))
                 (mm_xor_si128 (pclmulqdq11 aw2 h2w) (pclmulqdq11 aw3 h1w));
          t3 = mm_xor_si128 (mm_xor_si128 (pclmulqdq00 aw0 h4w) (pclmulqdq00 aw1 h3w))
                 (mm_xor_si128 (pclmulqdq00 aw2 h2w) (pclmulqdq00 aw3 h1w));
          t2 = mm_xor_si128 (mm_xor_si128 (pclmulqdq00 ax0 h4x) (pclmulqdq00 ax1 h3x))
                 (mm_xor_si128 (pclmulqdq00 ax2 h2x) (pclmulqdq00 ax3 h1x));
          (t0, t1) = ghash_combine t1 t2 t3
      in mm_unpacklo_epi64 t1 t0)"

definition ghash_step1 :: "u128 \<Rightarrow> u128 \<Rightarrow> u128 \<Rightarrow> bytes \<Rightarrow> u128" where
  "ghash_step1 h1w h1x yw buf2 =
    (let aw = BYTESWAP (mm_loadu_si128 buf2);
         aw = mm_xor_si128 aw yw;
         ax = BK aw;
         t1 = pclmulqdq11 aw h1w;
         t3 = pclmulqdq00 aw h1w;
         t2 = pclmulqdq00 ax h1x;
         (t0, t1) = ghash_combine t1 t2 t3
     in mm_unpacklo_epi64 t1 t0)"

definition br_ghash_pclmul :: "bytes \<Rightarrow> bytes \<Rightarrow> bytes \<Rightarrow> bytes" where
  "br_ghash_pclmul y h data =
    (let len = length data;
         num4 = len div 64;
         len = len mod 64;
         buf1 = take (num4 * 64) data;
         buf2 = drop (num4 * 64) data;
         num1 = (len + 15) div 16;
         buf2 = (if len mod 16 \<noteq> 0 then buf2 @ replicate (num1 * 16 - len) 0 else buf2);
         yw = BYTESWAP (mm_loadu_si128 y);
         h1w = BYTESWAP (mm_loadu_si128 h);
         h1x = BK h1w;
         yw =
           (if num4 > 0
            then let (h2w, h2x) = SQUARE_F128 h1w;
                     t1 = pclmulqdq11 h1w h2w;
                     t3 = pclmulqdq00 h1w h2w;
                     (t0, t1) = ghash_combine t1 (pclmulqdq00 h1x h2x) t3;
                     (h3w, h3x) = PBK t0 t1;
                     (h4w, h4x) = SQUARE_F128 h2w
                 in foldl (\<lambda>yw i. ghash_step4 (h1w, h2w, h3w, h4w) (h1x, h2x, h3x, h4x) yw (drop (64 * i) buf1))
                      yw [0..<num4]
            else yw);
         yw = foldl (\<lambda>yw i. ghash_step1 h1w h1x yw (drop (16 * i) buf2)) yw [0..<num1]
     in mm_storeu_si128 (BYTESWAP yw))"

section \<open>The specification\<close>

text \<open>Multiplication of blocks as in NIST SP 800-38D, algorithm 1: a block is the 128-bit number
  whose most significant bit is the leftmost bit of the block.\<close>

definition gcm_mult_step :: "u128 \<Rightarrow> u128 \<times> u128 \<Rightarrow> nat \<Rightarrow> u128 \<times> u128" where
  "gcm_mult_step X ZV i =
    (case ZV of (Z, V) \<Rightarrow>
      (if bit X (127 - i) then Z XOR V else Z,
       if bit V 0 then drop_bit 1 V XOR push_bit 120 0xE1 else drop_bit 1 V))"

definition gcm_mult :: "u128 \<Rightarrow> u128 \<Rightarrow> u128" where
  "gcm_mult X Y = fst (foldl (gcm_mult_step X) (0, Y) [0..<128])"

definition be128 :: "bytes \<Rightarrow> u128" where
  "be128 bs = pack (rev (take 16 bs))"

definition ghash_spec :: "bytes \<Rightarrow> bytes \<Rightarrow> bytes \<Rightarrow> u128" where
  "ghash_spec y h data =
    foldl (\<lambda>y b. gcm_mult (y XOR be128 b) (be128 h)) (be128 y) (chunks 16 (pad16 data))"

section \<open>Registers as polynomials\<close>

abbreviation L0 :: "u128 \<Rightarrow> nat" where "L0 x \<equiv> unat (lane 0 x :: u64)"
abbreviation L1 :: "u128 \<Rightarrow> nat" where "L1 x \<equiv> unat (lane 1 x :: u64)"

lemma take_bit_Suc_xor: "take_bit (Suc n) a = take_bit n a XOR (if bit a n then 2 ^ n else 0)" for a :: nat
  by (rule bit_eqI) (auto simp: bit_simps less_Suc_eq)

lemma unat_clmul64: "unat (clmul64 a b) = cmul (unat a) (unat b)"
proof -
  define f where "f = (\<lambda>i acc. if bit a i then acc XOR push_bit i (ucast b :: u128) else acc)"
  have push: "unat (push_bit n (ucast b :: u128)) = push_bit n (unat b)" if "n < 64" for n
    by (rule bit_eqI) (use that in \<open>auto simp: bit_simps dest: bit_imp_le_length\<close>)
  have "n \<le> 64 \<Longrightarrow> unat (foldr f [0..<n] acc) = unat acc XOR cmul (take_bit n (unat a)) (unat b)" for n acc
  proof (induction n arbitrary: acc)
    case (Suc n)
    have "unat (f n acc) = unat acc XOR (if bit a n then push_bit n (unat b) else 0)"
      using Suc.prems push by (simp add: f_def unsigned_xor_eq)
    then show ?case
      using Suc by (simp add: take_bit_Suc_xor cmul_xor_left cmul_exp xor.assoc xor.commute xor.left_commute bit_unsigned_iff)
  qed simp
  from this [of 64 0] show ?thesis
    by (simp add: clmul64_def f_def take_bit_nat_eq_self unat_lt_pow [where 'a = 64, simplified])
qed

lemma shuffle_0E: "(lane 0 (mm_shuffle_epi32 x 0x0E) :: u64) = lane 1 x"
proof (rule bit_word_eqI)
  fix n assume "n < LENGTH(64)"
  then have n: "n < 64" by simp
  consider "n < 32" | "32 \<le> n" by linarith
  then show "bit (lane 0 (mm_shuffle_epi32 x 0x0E) :: u64) n = bit (lane 1 x :: u64) n"
  proof cases
    case 1
    then show ?thesis using n by (simp add: mm_shuffle_epi32_def bit_lane bit_pack)
  next
    case 2
    define m where "m = n - 32"
    have "n = m + 32" "m < 32" using 2 n by (simp_all add: m_def)
    then show ?thesis by (simp add: mm_shuffle_epi32_def bit_lane bit_pack div_add_self2)
  qed
qed

lemmas lane0_simps = mm_xor_si128_def mm_or_si128_def lane_xor lane_or shuffle_0E

lemma lane_shifts:
  "(lane 0 (mm_slli_epi64 x n) :: u64) = push_bit n (lane 0 x)"
  "(lane 0 (mm_srli_epi64 x n) :: u64) = drop_bit n (lane 0 x)"
  by (simp_all add: mm_slli_epi64_def mm_srli_epi64_def)

lemma lane_unpacklo:
  "(lane 0 (mm_unpacklo_epi64 x y) :: u64) = lane 0 x"
  "(lane 1 (mm_unpacklo_epi64 x y) :: u64) = lane 0 y"
  by (simp_all add: mm_unpacklo_epi64_def)

lemma unat_lanes: "unat x = push_bit 64 (L1 x) XOR L0 x"
proof (rule bit_eqI)
  fix n
  show "bit (unat x) n = bit (push_bit 64 (L1 x) XOR L0 x) n"
    by (cases "n < 64") (auto simp: bit_simps bit_lane dest: bit_imp_le_length)
qed

text \<open>The 256-bit number in the low lanes of four registers.\<close>

fun val4 :: "quad \<Rightarrow> nat" where
  "val4 (x0, x1, x2, x3) =
    push_bit 192 (L0 x0) XOR push_bit 128 (L0 x1) XOR push_bit 64 (L0 x2) XOR L0 x3"

lemma bit_val4:
  "bit (val4 (x0, x1, x2, x3)) n =
    (if n < 64 then bit (lane 0 x3 :: u64) n
     else if n < 128 then bit (lane 0 x2 :: u64) (n - 64)
     else if n < 192 then bit (lane 0 x1 :: u64) (n - 128)
     else bit (lane 0 x0 :: u64) (n - 192))"
  by (auto simp: bit_simps)

lemma val4_SL_256:
  assumes "val4 q < 2 ^ 255"
  shows "val4 (SL_256 q) = push_bit 1 (val4 q)"
proof -
  obtain x0 x1 x2 x3 where q: "q = (x0, x1, x2, x3)" by (cases q)
  have top: "\<not> bit (val4 (x0, x1, x2, x3)) 255"
    using assms by (simp add: q bit_iff_odd del: val4.simps)
  then have t: "\<not> bit (lane 0 x0 :: u64) 63" unfolding bit_val4 by simp
  obtain y0 y1 y2 y3 where s: "SL_256 q = (y0, y1, y2, y3)" by (cases "SL_256 q")
  have y: "(lane 0 y0 :: u64) = push_bit 1 (lane 0 x0) OR drop_bit 63 (lane 0 x1)"
     "(lane 0 y1 :: u64) = push_bit 1 (lane 0 x1) OR drop_bit 63 (lane 0 x2)"
     "(lane 0 y2 :: u64) = push_bit 1 (lane 0 x2) OR drop_bit 63 (lane 0 x3)"
     "(lane 0 y3 :: u64) = push_bit 1 (lane 0 x3)"
    using s by (auto simp: q Let_def lane0_simps lane_shifts)
  show ?thesis
    unfolding s unfolding q
  proof (rule bit_eqI)
    fix n :: nat
    consider "n < 64" "n \<noteq> 0" | "n = 0" | "n = 64" | "64 < n" "n < 128" | "n = 128" | "128 < n" "n < 192"
      | "n = 192" | "192 < n" "n < 256" | "256 = n" | "256 < n" by linarith
    then have "bit (val4 (y0, y1, y2, y3)) n \<longleftrightarrow> 1 \<le> n \<and> bit (val4 (x0, x1, x2, x3)) (n - 1)"
      by cases (simp_all only: bit_val4 y bit_or_iff bit_push_bit_iff bit_drop_bit_eq o_def, use t in auto)
    then show "bit (val4 (y0, y1, y2, y3)) n = bit (push_bit 1 (val4 (x0, x1, x2, x3))) n"
      by (simp only: bit_push_bit_iff_nat)
  qed
qed

definition fold_hi :: "u64 \<Rightarrow> u64" where
  "fold_hi x = (x XOR drop_bit 1 x) XOR drop_bit 2 x XOR drop_bit 7 x"

definition fold_lo :: "u64 \<Rightarrow> u64" where
  "fold_lo x = push_bit 63 x XOR push_bit 62 x XOR push_bit 57 x"

lemma shift_split:
  fixes x :: u64
  assumes "0 < s" "s < 64"
  shows "push_bit (128 - s) (unat x) = push_bit 128 (unat (drop_bit s x)) XOR push_bit 64 (unat (push_bit (64 - s) x))"
proof (rule bit_eqI)
  fix n :: nat
  consider "n < 128 - s" | "128 - s \<le> n" "n < 128" | "128 \<le> n" by linarith
  then show "bit (push_bit (128 - s) (unat x)) n =
      bit (push_bit 128 (unat (drop_bit s x)) XOR push_bit 64 (unat (push_bit (64 - s) x))) n"
  proof cases
    case 2
    then have "n - 64 - (64 - s) = n - (128 - s)" "64 \<le> n" using assms by arith+
    then show ?thesis using assms 2 by (auto simp: bit_simps)
  next
    case 3
    then have "s + (n - 128) = n - (128 - s)" using assms by arith
    then show ?thesis using assms 3 by (auto simp: bit_simps)
  qed (use assms in \<open>auto simp: bit_simps\<close>)
qed

lemma pcong_word: "pcong (unat x) (push_bit 128 (unat (fold_hi x)) XOR push_bit 64 (unat (fold_lo x)))"
proof -
  have s: "push_bit 127 (unat x) = push_bit 128 (unat (drop_bit 1 x)) XOR push_bit 64 (unat (push_bit 63 x))"
    "push_bit 126 (unat x) = push_bit 128 (unat (drop_bit 2 x)) XOR push_bit 64 (unat (push_bit 62 x))"
    "push_bit 121 (unat x) = push_bit 128 (unat (drop_bit 7 x)) XOR push_bit 64 (unat (push_bit 57 x))"
    using shift_split [of 1 x] shift_split [of 2 x] shift_split [of 7 x] by simp_all
  have "push_bit 128 (unat x) XOR push_bit 127 (unat x) XOR push_bit 126 (unat x) XOR push_bit 121 (unat x)
      = push_bit 128 (unat (fold_hi x)) XOR push_bit 64 (unat (fold_lo x))"
    unfolding s fold_hi_def fold_lo_def
    by (simp only: unsigned_xor_eq push_bit_xor_nat xor_ac)
  then show ?thesis using pcong_fold [of "unat x"] by simp
qed

lemma REDUCE_F128_pcong:
  assumes "REDUCE_F128 q = (r0, r1)"
  shows "pcong (push_bit 128 (push_bit 64 (L0 r0) XOR L0 r1)) (val4 q)"
proof -
  obtain x0 x1 x2 x3 where q: "q = (x0, x1, x2, x3)" by (cases q)
  define a0 a1 a2 a3 where a: "a0 = (lane 0 x0 :: u64)" "a1 = (lane 0 x1 :: u64)"
    "a2 = (lane 0 x2 :: u64)" "a3 = (lane 0 x3 :: u64)"
  define b1 b2 where b: "b1 = a1 XOR fold_hi a3" "b2 = a2 XOR fold_lo a3"
  have r: "lane 0 r0 = a0 XOR fold_hi b2" "lane 0 r1 = b1 XOR fold_lo b2"
    using assms
    by (auto simp: q Let_def lane0_simps lane_shifts a b fold_hi_def fold_lo_def xor_ac)
  have "pcong (val4 q) (push_bit 192 (unat a0) XOR push_bit 128 (unat a1) XOR push_bit 64 (unat a2)
      XOR push_bit 128 (unat (fold_hi a3)) XOR push_bit 64 (unat (fold_lo a3)))"
    unfolding q val4.simps a [symmetric] by (intro pcong_xor pcong_refl pcong_word)
  also have "push_bit 192 (unat a0) XOR push_bit 128 (unat a1) XOR push_bit 64 (unat a2)
      XOR push_bit 128 (unat (fold_hi a3)) XOR push_bit 64 (unat (fold_lo a3))
    = push_bit 192 (unat a0) XOR push_bit 128 (unat b1) XOR push_bit 64 (unat b2)"
    unfolding b by (simp only: unsigned_xor_eq push_bit_xor_nat xor_ac)
  also have "pcong \<dots> (push_bit 192 (unat a0) XOR push_bit 128 (unat b1)
      XOR push_bit 64 (push_bit 128 (unat (fold_hi b2)) XOR push_bit 64 (unat (fold_lo b2))))"
    by (intro pcong_xor pcong_refl pcong_push pcong_word)
  also have "\<dots> = push_bit 128 (push_bit 64 (L0 r0) XOR L0 r1)"
    unfolding r by (simp add: unsigned_xor_eq push_bit_xor_nat xor_ac)
  finally show ?thesis by (rule pcong_sym)
qed

lemma ghash_combine_pcong:
  assumes "ghash_combine t1 t2 t3 = (r0, r1)"
    and v: "v = push_bit 128 (unat t1) XOR push_bit 64 (unat t2 XOR unat t1 XOR unat t3) XOR unat t3"
    and "v < 2 ^ 255"
  shows "pcong (push_bit 127 (unat (mm_unpacklo_epi64 r1 r0))) v"
proof -
  define u2 where "u2 = t2 XOR t1 XOR t3"
  define q where "q = (mm_shuffle_epi32 t1 0x0E, mm_xor_si128 t1 (mm_shuffle_epi32 u2 0x0E),
      mm_xor_si128 u2 (mm_shuffle_epi32 t3 0x0E), t3)"
  have red: "REDUCE_F128 (SL_256 q) = (r0, r1)"
    using assms(1) by (simp only: ghash_combine_def Let_def q_def u2_def mm_xor_si128_def)
  have "val4 q = push_bit 128 (push_bit 64 (L1 t1) XOR L0 t1)
      XOR push_bit 64 (push_bit 64 (L1 u2) XOR L0 u2) XOR (push_bit 64 (L1 t3) XOR L0 t3)"
    by (simp add: q_def lane0_simps unsigned_xor_eq push_bit_xor_nat xor_ac)
  then have val: "val4 q = v"
    by (simp only: unat_lanes [symmetric] v) (simp only: u2_def unsigned_xor_eq xor_ac)
  have "pcong (push_bit 128 (push_bit 64 (L0 r0) XOR L0 r1)) (push_bit 1 v)"
    using REDUCE_F128_pcong [OF red] val4_SL_256 [of q] assms(3) by (simp only: val)
  moreover have "unat (mm_unpacklo_epi64 r1 r0) = push_bit 64 (L0 r0) XOR L0 r1"
    by (simp only: unat_lanes [of "mm_unpacklo_epi64 r1 r0"] lane_unpacklo)
  ultimately have "pcong (push_bit 1 (push_bit 127 (unat (mm_unpacklo_epi64 r1 r0)))) (push_bit 1 v)"
    by (simp only: push_bit_push_bit) simp
  then show ?thesis by (rule pcong_cancel1)
qed

text \<open>Karatsuba: \<open>kx\<close> holds the sum of the halves of \<open>kw\<close>.\<close>

definition half_sum :: "u128 \<Rightarrow> u128 \<Rightarrow> bool" where
  "half_sum kx kw \<longleftrightarrow> (lane 0 kx :: u64) = lane 0 kw XOR lane 1 kw"

lemma half_sum_BK: "half_sum (BK kw) kw"
  by (simp add: half_sum_def BK_def lane0_simps)

lemma half_sum_PBK: "PBK z0 z1 = (kw, kx) \<Longrightarrow> half_sum kx kw"
  by (auto simp: half_sum_def PBK_def lane0_simps lane_unpacklo(1) lane_unpacklo(2) [unfolded One_nat_def] xor.commute)

lemma unat_pclmul:
  "unat (pclmulqdq00 x y) = cmul (L0 x) (L0 y)" "unat (pclmulqdq11 x y) = cmul (L1 x) (L1 y)"
  by (simp_all add: pclmulqdq00_def pclmulqdq11_def mm_clmulepi64_si128_def unat_clmul64)

definition kara :: "nat \<Rightarrow> nat \<Rightarrow> nat \<Rightarrow> nat" where
  "kara t1 t2 t3 = push_bit 128 t1 XOR push_bit 64 (t2 XOR t1 XOR t3) XOR t3"

lemma kara_product:
  assumes "half_sum ax a" "half_sum bx b"
  shows "kara (unat (pclmulqdq11 a b)) (unat (pclmulqdq00 ax bx)) (unat (pclmulqdq00 a b))
    = cmul (unat a) (unat b)"
proof -
  define a0 a1 b0 b1 where ab: "a0 = L0 a" "a1 = L1 a" "b0 = L0 b" "b1 = L1 b"
  have "L0 ax = a0 XOR a1" "L0 bx = b0 XOR b1"
    using assms by (simp_all add: half_sum_def unsigned_xor_eq ab)
  then have t2: "unat (pclmulqdq00 ax bx) = cmul a0 b0 XOR cmul a1 b1 XOR cmul a0 b1 XOR cmul a1 b0"
    by (simp add: unat_pclmul cmul_xor_left cmul_xor_right xor_ac)
  have mid: "unat (pclmulqdq00 ax bx) XOR cmul a1 b1 XOR cmul a0 b0 = cmul a0 b1 XOR cmul a1 b0"
    unfolding t2 by (simp add: xor_ac)
  have "cmul (unat a) (unat b) = cmul (push_bit 64 a1 XOR a0) (push_bit 64 b1 XOR b0)"
    by (simp only: unat_lanes [of a] unat_lanes [of b] ab)
  also have "\<dots> = push_bit 128 (cmul a1 b1) XOR push_bit 64 (cmul a0 b1 XOR cmul a1 b0) XOR cmul a0 b0"
    by (simp add: cmul_xor_left cmul_xor_right cmul_push_left cmul_push_right push_bit_xor_nat xor_ac)
  finally show ?thesis
    by (simp only: kara_def mid unat_pclmul ab [symmetric] mid [unfolded unat_pclmul])
qed

lemma cmul_unat_less: "cmul (unat a) (unat b) < 2 ^ 255" for a b :: u128
  using cmul_less [of "unat a" 128 "unat b" 127] unat_lt_pow [of a] unat_lt_pow [of b] by simp

section \<open>The block multiplication\<close>

lemma halve_pcong:
  "pcong (push_bit 1 (unat (if bit V 0 then drop_bit 1 V XOR push_bit 120 0xE1 else drop_bit 1 V))) (unat V)"
  for V :: u128
proof -
  have c: "pcong (push_bit 1 (unat (drop_bit 1 V)) XOR gcm_poly XOR 1) (push_bit 1 (unat (drop_bit 1 V)) XOR 1)"
  proof -
    have "pcong gcm_poly 0" unfolding pcong_def by (rule exI [of _ 1]) simp
    from pcong_xor [OF pcong_refl pcong_xor [OF this pcong_refl]] show ?thesis by simp
  qed
  have p: "push_bit 1 (unat (push_bit 120 0xE1 :: u128)) = gcm_poly XOR 1"
    by (simp add: gcm_poly_def)
  have v: "unat V = push_bit 1 (unat (drop_bit 1 V)) XOR (if bit V 0 then 1 else 0)"
  proof -
    have "unat V div 2 = unat (drop_bit 1 V)"
      by (simp only: drop_bit_eq_div unat_div) simp
    moreover have "odd (unat V) = bit V 0" by (simp add: bit_0 [symmetric] bit_unsigned_iff)
    ultimately show ?thesis using low_bit_split [of "unat V"] by (simp only: xor.commute)
  qed
  show ?thesis
  proof (cases "bit V 0")
    case True
    have "push_bit 1 (unat (drop_bit 1 V XOR push_bit 120 0xE1)) = push_bit 1 (unat (drop_bit 1 V)) XOR gcm_poly XOR 1"
      by (simp only: unsigned_xor_eq push_bit_xor_nat p)
    then show ?thesis using c True v by (simp only: if_True)
  next
    case False
    then show ?thesis using v by (simp only: if_False) simp
  qed
qed

definition top_bits :: "nat \<Rightarrow> u128 \<Rightarrow> nat" where
  "top_bits i X = push_bit (128 - i) (drop_bit (128 - i) (unat X))"

lemma top_bits_Suc:
  assumes "i < 128"
  shows "top_bits (Suc i) X = top_bits i X XOR (if bit X (127 - i) then 2 ^ (127 - i) else 0)"
proof (rule bit_eqI)
  fix n
  have "n = 127 - i \<or> n < 127 - i \<or> 128 - i \<le> n" by linarith
  then show "bit (top_bits (Suc i) X) n = bit (top_bits i X XOR (if bit X (127 - i) then 2 ^ (127 - i) else 0)) n"
    using assms by (auto simp: top_bits_def bit_simps)
qed

lemma gcm_mult_steps:
  assumes "n \<le> 128" "foldl (gcm_mult_step X) (0, Y) [0..<n] = (Z, V)"
  shows "pcong (push_bit n (unat V)) (unat Y)"
    and "pcong (push_bit 127 (unat Z)) (cmul (top_bits n X) (unat Y))"
proof -
  have "pcong (push_bit n (unat V)) (unat Y) \<and> pcong (push_bit 127 (unat Z)) (cmul (top_bits n X) (unat Y))"
    using assms
  proof (induction n arbitrary: Z V)
    case 0
    moreover have "top_bits 0 X = 0"
      using unat_lt_pow [of X] by (simp add: top_bits_def drop_bit_eq_div)
    ultimately show ?case by simp
  next
    case (Suc n)
    obtain Z0 V0 where st: "foldl (gcm_mult_step X) (0, Y) [0..<n] = (Z0, V0)" by fastforce
    have ih: "pcong (push_bit n (unat V0)) (unat Y)" "pcong (push_bit 127 (unat Z0)) (cmul (top_bits n X) (unat Y))"
      using Suc.IH [OF _ st] Suc.prems(1) by simp_all
    have ZV: "Z = (if bit X (127 - n) then Z0 XOR V0 else Z0)"
      "V = (if bit V0 0 then drop_bit 1 V0 XOR push_bit 120 0xE1 else drop_bit 1 V0)"
    proof -
      have "gcm_mult_step X (Z0, V0) n = (Z, V)" using Suc.prems(2) st by simp
      then show "Z = (if bit X (127 - n) then Z0 XOR V0 else Z0)"
        "V = (if bit V0 0 then drop_bit 1 V0 XOR push_bit 120 0xE1 else drop_bit 1 V0)"
        by (simp_all only: gcm_mult_step_def prod.case prod.inject)
    qed
    have p: "push_bit (Suc n) x = push_bit n (push_bit 1 x)" for x :: nat by (simp add: push_bit_double)
    have "pcong (push_bit (Suc n) (unat V)) (push_bit n (unat V0))"
      unfolding p ZV(2) by (rule pcong_push [OF halve_pcong])
    then have v: "pcong (push_bit (Suc n) (unat V)) (unat Y)" using ih(1) by (rule pcong_trans)
    have "pcong (push_bit (127 - n) (push_bit n (unat V0))) (push_bit (127 - n) (unat Y))"
      using ih(1) by (rule pcong_push)
    then have w: "pcong (push_bit 127 (unat V0)) (cmul (2 ^ (127 - n)) (unat Y))"
      using Suc.prems(1) by (simp add: cmul_exp)
    have "pcong (push_bit 127 (unat Z)) (cmul (top_bits (Suc n) X) (unat Y))"
    proof (cases "bit X (127 - n)")
      case True
      then show ?thesis
        using pcong_xor [OF ih(2) w] Suc.prems(1)
        by (simp only: ZV(1) if_True unsigned_xor_eq push_bit_xor_nat top_bits_Suc [of n] cmul_xor_left Suc_le_eq)
    next
      case False
      then show ?thesis using ih(2) Suc.prems(1) by (simp add: ZV(1) top_bits_Suc)
    qed
    then show ?case using v by blast
  qed
  then show "pcong (push_bit n (unat V)) (unat Y)" "pcong (push_bit 127 (unat Z)) (cmul (top_bits n X) (unat Y))"
    by blast+
qed

lemma gcm_mult_pcong: "pcong (push_bit 127 (unat (gcm_mult X Y))) (cmul (unat X) (unat Y))"
proof -
  obtain Z V where st: "foldl (gcm_mult_step X) (0, Y) [0..<128] = (Z, V)" by fastforce
  have "top_bits 128 X = unat X" by (simp add: top_bits_def)
  then show ?thesis using gcm_mult_steps(2) [OF _ st] by (simp add: gcm_mult_def st)
qed

text \<open>The product is the only 128-bit number with this congruence.\<close>

lemma gcm_mult_unique: "pcong (push_bit 127 (unat r)) (cmul (unat X) (unat Y)) \<Longrightarrow> r = gcm_mult X Y"
proof -
  assume "pcong (push_bit 127 (unat r)) (cmul (unat X) (unat Y))"
  also note gcm_mult_pcong [THEN pcong_sym]
  finally have "pcong (unat r) (unat (gcm_mult X Y))" by (rule pcong_cancel)
  then have "unat r = unat (gcm_mult X Y)"
    using unat_lt_pow [of r] unat_lt_pow [of "gcm_mult X Y"] by (intro pcong_unique) simp_all
  then show ?thesis by (rule unsigned_word_eqI)
qed

lemma pcong_unat_eq: "pcong (push_bit 127 (unat r)) (push_bit 127 (unat s)) \<Longrightarrow> r = s" for r s :: u128
proof -
  assume "pcong (push_bit 127 (unat r)) (push_bit 127 (unat s))"
  then have "pcong (unat r) (unat s)" by (rule pcong_cancel)
  then have "unat r = unat s"
    using unat_lt_pow [of r] unat_lt_pow [of s] by (intro pcong_unique) simp_all
  then show ?thesis by (rule unsigned_word_eqI)
qed

lemma gcm_mult_xor: "gcm_mult (a XOR b) h = gcm_mult a h XOR gcm_mult b h"
  using pcong_xor [OF gcm_mult_pcong [of a h] gcm_mult_pcong [of b h]]
  by (intro gcm_mult_unique [symmetric]) (simp only: unsigned_xor_eq push_bit_xor_nat cmul_xor_left)

lemma gcm_mult_commute: "gcm_mult a b = gcm_mult b a"
  using gcm_mult_pcong [of a b] by (intro gcm_mult_unique) (simp only: cmul_commute)

lemma gcm_mult_assoc: "gcm_mult (gcm_mult a b) c = gcm_mult a (gcm_mult b c)"
proof (rule pcong_unat_eq, rule pcong_cancel [of 127])
  have l: "pcong (push_bit 127 (push_bit 127 (unat (gcm_mult (gcm_mult x y) z)))) (cmul (cmul (unat x) (unat y)) (unat z))" for x y z
  proof -
    have "pcong (push_bit 127 (push_bit 127 (unat (gcm_mult (gcm_mult x y) z))))
        (push_bit 127 (cmul (unat (gcm_mult x y)) (unat z)))"
      by (rule pcong_push [OF gcm_mult_pcong])
    also have "push_bit 127 (cmul (unat (gcm_mult x y)) (unat z)) = cmul (unat z) (push_bit 127 (unat (gcm_mult x y)))"
      by (simp only: cmul_push_right cmul_commute)
    also have "pcong \<dots> (cmul (unat z) (cmul (unat x) (unat y)))"
      by (rule pcong_cmul [OF gcm_mult_pcong])
    finally show ?thesis by (simp only: cmul_commute [of "unat z"])
  qed
  have "pcong (push_bit 127 (push_bit 127 (unat (gcm_mult a (gcm_mult b c))))) (cmul (cmul (unat a) (unat b)) (unat c))"
    using l [of b c a] by (simp only: gcm_mult_commute [of a "gcm_mult b c"] cmul_assoc cmul_commute [of _ "unat a"])
  from pcong_trans [OF l [of a b c] pcong_sym [OF this]]
  show "pcong (push_bit 127 (push_bit 127 (unat (gcm_mult (gcm_mult a b) c))))
     (push_bit 127 (push_bit 127 (unat (gcm_mult a (gcm_mult b c)))))" .
qed

lemma SQUARE_F128_eq:
  assumes "SQUARE_F128 k = (dw, dx)"
  shows "dw = gcm_mult k k" "half_sum dx dw"
proof -
  define q where "q = (mm_shuffle_epi32 (pclmulqdq11 k k) 0x0E, pclmulqdq11 k k,
      mm_shuffle_epi32 (pclmulqdq00 k k) 0x0E, pclmulqdq00 k k)"
  obtain r0 r1 where red: "REDUCE_F128 (SL_256 q) = (r0, r1)" by fastforce
  have res: "PBK r0 r1 = (dw, dx)"
    using assms red by (simp add: SQUARE_F128_def Let_def q_def)
  have "val4 q = push_bit 128 (unat (pclmulqdq11 k k)) XOR unat (pclmulqdq00 k k)"
    by (simp only: unat_lanes [of "pclmulqdq11 k k"] unat_lanes [of "pclmulqdq00 k k"])
      (simp add: q_def lane0_simps push_bit_xor_nat xor_ac)
  also have "\<dots> = cmul (unat k) (unat k)"
  proof -
    define a0 a1 where a: "a0 = L0 k" "a1 = L1 k"
    have "cmul (push_bit 64 a1 XOR a0) (push_bit 64 a1 XOR a0) = push_bit 128 (cmul a1 a1) XOR cmul a0 a0"
      using cmul_commute [of a0 a1]
      by (simp add: cmul_xor_left cmul_xor_right cmul_push_left cmul_push_right push_bit_xor_nat xor_ac)
    then show ?thesis by (simp only: unat_pclmul unat_lanes [of k] a)
  qed
  finally have val: "val4 q = cmul (unat k) (unat k)" .
  have "pcong (push_bit 128 (push_bit 64 (L0 r0) XOR L0 r1)) (push_bit 1 (cmul (unat k) (unat k)))"
    using REDUCE_F128_pcong [OF red] val4_SL_256 [of q] cmul_unat_less [of k k] by (simp only: val)
  moreover have "dw = mm_unpacklo_epi64 r1 r0" using res by (simp add: PBK_def)
  moreover have "unat (mm_unpacklo_epi64 r1 r0) = push_bit 64 (L0 r0) XOR L0 r1"
    by (simp only: unat_lanes [of "mm_unpacklo_epi64 r1 r0"] lane_unpacklo)
  ultimately have "pcong (push_bit 1 (push_bit 127 (unat dw))) (push_bit 1 (cmul (unat k) (unat k)))"
    by (simp only: push_bit_push_bit) simp
  then show "dw = gcm_mult k k" using pcong_cancel1 gcm_mult_unique by blast
  show "half_sum dx dw" using res by (rule half_sum_PBK)
qed

lemma ghash_combine_mult:
  assumes "half_sum ax a" "half_sum bx b"
    and "ghash_combine (pclmulqdq11 a b) (pclmulqdq00 ax bx) (pclmulqdq00 a b) = (r0, r1)"
  shows "mm_unpacklo_epi64 r1 r0 = gcm_mult a b"
  using ghash_combine_pcong [OF assms(3)] kara_product [OF assms(1,2)] cmul_unat_less [of a b]
  by (intro gcm_mult_unique) (simp only: kara_def)

section \<open>The routine\<close>

lemma lane_BYTESWAP: "i < 16 \<Longrightarrow> (lane i (BYTESWAP x) :: u8) = lane (15 - i) x"
proof -
  assume i: "i < 16"
  have idx: "(lane i byteswap_index :: u8) = rev [0, 1, 2, 3, 4, 5, 6, 7, 8, 9, 10, 11, 12, 13, 14, 15] ! i"
    using i by (simp add: byteswap_index_def mm_set_epi8_def del: rev.simps)
  have "list_all (\<lambda>i. \<not> bit (rev [0, 1, 2, 3, 4, 5, 6, 7, 8, 9, 10, 11, 12, 13, 14, 15] ! i :: u8) 7
      \<and> unat ((rev [0, 1, 2, 3, 4, 5, 6, 7, 8, 9, 10, 11, 12, 13, 14, 15] ! i :: u8) AND 15) = 15 - i) [0..<16]"
    by (simp add: upt_bits)
  then have "\<not> bit (lane i byteswap_index :: u8) 7 \<and> unat ((lane i byteswap_index :: u8) AND 15) = 15 - i"
    unfolding idx using i by (simp only: list_all_iff set_upt) simp
  then show ?thesis using i by (simp add: BYTESWAP_def mm_shuffle_epi8_def Let_def)
qed

lemma BYTESWAP_BYTESWAP [simp]: "BYTESWAP (BYTESWAP x) = x"
  by (rule lanes_eqI [where 'a = 8]) (simp add: lane_BYTESWAP)

lemma BYTESWAP_load: "16 \<le> length bs \<Longrightarrow> BYTESWAP (mm_loadu_si128 bs) = be128 bs"
  by (rule lanes_eqI [where 'a = 8])
    (simp add: lane_BYTESWAP mm_loadu_si128_def be128_def rev_nth)

definition ghash_block :: "u128 \<Rightarrow> u128 \<Rightarrow> bytes \<Rightarrow> u128" where
  "ghash_block k y b = gcm_mult (y XOR be128 b) k"

lemma ghash_block_take: "16 \<le> n \<Longrightarrow> ghash_block k y (take n b) = ghash_block k y b"
  by (simp add: ghash_block_def be128_def min_def)

lemma ghash_step1_eq:
  assumes "half_sum hx hw" "16 \<le> length b"
  shows "ghash_step1 hw hx y b = ghash_block hw y b"
proof -
  define a where "a = be128 b XOR y"
  obtain r0 r1 where r: "ghash_combine (pclmulqdq11 a hw) (pclmulqdq00 (BK a) hx) (pclmulqdq00 a hw) = (r0, r1)"
    by fastforce
  have "ghash_step1 hw hx y b = mm_unpacklo_epi64 r1 r0"
    using r assms(2) by (simp add: ghash_step1_def BYTESWAP_load mm_xor_si128_def a_def Let_def)
  also have "\<dots> = gcm_mult a hw" by (rule ghash_combine_mult [OF half_sum_BK assms(1) r])
  finally show ?thesis by (simp add: ghash_block_def a_def xor.commute)
qed

lemma gcm_mult_sum4:
  assumes "half_sum x0 a0" "half_sum x1 a1" "half_sum x2 a2" "half_sum x3 a3"
    and "half_sum y0 b0" "half_sum y1 b1" "half_sum y2 b2" "half_sum y3 b3"
    and "ghash_combine
      ((pclmulqdq11 a0 b0 XOR pclmulqdq11 a1 b1) XOR pclmulqdq11 a2 b2 XOR pclmulqdq11 a3 b3)
      ((pclmulqdq00 x0 y0 XOR pclmulqdq00 x1 y1) XOR pclmulqdq00 x2 y2 XOR pclmulqdq00 x3 y3)
      ((pclmulqdq00 a0 b0 XOR pclmulqdq00 a1 b1) XOR pclmulqdq00 a2 b2 XOR pclmulqdq00 a3 b3) = (r0, r1)"
  shows "mm_unpacklo_epi64 r1 r0 =
    (gcm_mult a0 b0 XOR gcm_mult a1 b1) XOR gcm_mult a2 b2 XOR gcm_mult a3 b3"
proof (rule pcong_unat_eq)
  define v where "v = (cmul (unat a0) (unat b0) XOR cmul (unat a1) (unat b1))
      XOR cmul (unat a2) (unat b2) XOR cmul (unat a3) (unat b3)"
  have v: "v < 2 ^ 255" unfolding v_def by (intro xor_nat_less cmul_unat_less)
  have "v = push_bit 128 (unat ((pclmulqdq11 a0 b0 XOR pclmulqdq11 a1 b1) XOR pclmulqdq11 a2 b2 XOR pclmulqdq11 a3 b3))
      XOR push_bit 64 (unat ((pclmulqdq00 x0 y0 XOR pclmulqdq00 x1 y1) XOR pclmulqdq00 x2 y2 XOR pclmulqdq00 x3 y3)
        XOR unat ((pclmulqdq11 a0 b0 XOR pclmulqdq11 a1 b1) XOR pclmulqdq11 a2 b2 XOR pclmulqdq11 a3 b3)
        XOR unat ((pclmulqdq00 a0 b0 XOR pclmulqdq00 a1 b1) XOR pclmulqdq00 a2 b2 XOR pclmulqdq00 a3 b3))
      XOR unat ((pclmulqdq00 a0 b0 XOR pclmulqdq00 a1 b1) XOR pclmulqdq00 a2 b2 XOR pclmulqdq00 a3 b3)"
    unfolding v_def kara_product [OF assms(1,5), symmetric] kara_product [OF assms(2,6), symmetric]
      kara_product [OF assms(3,7), symmetric] kara_product [OF assms(4,8), symmetric] unsigned_xor_eq kara_def
    by (simp only: push_bit_xor_nat xor_ac)
  from ghash_combine_pcong [OF assms(9) this v]
  have "pcong (push_bit 127 (unat (mm_unpacklo_epi64 r1 r0))) v" .
  moreover have "pcong (push_bit 127 (unat ((gcm_mult a0 b0 XOR gcm_mult a1 b1) XOR gcm_mult a2 b2 XOR gcm_mult a3 b3))) v"
    unfolding v_def unsigned_xor_eq push_bit_xor_nat by (intro pcong_xor gcm_mult_pcong)
  ultimately show "pcong (push_bit 127 (unat (mm_unpacklo_epi64 r1 r0)))
      (push_bit 127 (unat ((gcm_mult a0 b0 XOR gcm_mult a1 b1) XOR gcm_mult a2 b2 XOR gcm_mult a3 b3)))"
    using pcong_trans pcong_sym by blast
qed

lemma ghash_step4_eq:
  assumes "half_sum h1x h1" "half_sum h2x h2" "half_sum h3x h3" "half_sum h4x h4"
    and "h2 = gcm_mult h1 h1" "h3 = gcm_mult h1 h2" "h4 = gcm_mult h2 h2" and "64 \<le> length b"
  shows "ghash_step4 (h1, h2, h3, h4) (h1x, h2x, h3x, h4x) y b =
    foldl (ghash_block h1) y [take 16 b, take 16 (drop 16 b), take 16 (drop 32 b), take 16 (drop 48 b)]"
proof -
  define a0 a1 a2 a3 where a: "a0 = be128 b XOR y" "a1 = be128 (drop 16 b)" "a2 = be128 (drop 32 b)" "a3 = be128 (drop 48 b)"
  define t1 where "t1 = (pclmulqdq11 a0 h4 XOR pclmulqdq11 a1 h3) XOR pclmulqdq11 a2 h2 XOR pclmulqdq11 a3 h1"
  define t2 where "t2 = (pclmulqdq00 (BK a0) h4x XOR pclmulqdq00 (BK a1) h3x) XOR pclmulqdq00 (BK a2) h2x XOR pclmulqdq00 (BK a3) h1x"
  define t3 where "t3 = (pclmulqdq00 a0 h4 XOR pclmulqdq00 a1 h3) XOR pclmulqdq00 a2 h2 XOR pclmulqdq00 a3 h1"
  obtain r0 r1 where r: "ghash_combine t1 t2 t3 = (r0, r1)" by fastforce
  have "ghash_step4 (h1, h2, h3, h4) (h1x, h2x, h3x, h4x) y b = mm_unpacklo_epi64 r1 r0"
    using r assms(8)
    by (simp add: ghash_step4_def BYTESWAP_load mm_xor_si128_def a t1_def t2_def t3_def Let_def)
  also have "\<dots> = (gcm_mult a0 h4 XOR gcm_mult a1 h3) XOR gcm_mult a2 h2 XOR gcm_mult a3 h1"
    by (rule gcm_mult_sum4 [OF half_sum_BK half_sum_BK half_sum_BK half_sum_BK assms(4,3,2,1)
        r [unfolded t1_def t2_def t3_def]])
  also have "\<dots> = gcm_mult (gcm_mult (gcm_mult (gcm_mult a0 h1 XOR a1) h1 XOR a2) h1 XOR a3) h1"
    unfolding assms(5-7) by (simp only: gcm_mult_xor gcm_mult_assoc xor.assoc)
  finally show ?thesis by (simp add: ghash_block_take ghash_block_def [of h1 _ "_ :: bytes"] a xor.commute be128_def)
qed

lemma chunks_map:
  "0 < n \<Longrightarrow> length xs = n * k \<Longrightarrow> chunks n xs = map (\<lambda>i. take n (drop (n * i) xs)) [0..<k]"
proof (induction k arbitrary: xs)
  case (Suc k)
  have "chunks n (drop n xs) = map (\<lambda>i. take n (drop (n * i) (drop n xs))) [0..<k]"
    using Suc by (intro Suc.IH) simp_all
  moreover have "chunks n xs = take n xs # chunks n (drop n xs)"
    using Suc.prems by (subst chunks.simps) auto
  ultimately show ?case
    by (simp add: upt_conv_Cons map_Suc_upt [symmetric] add.commute del: upt_Suc)
qed simp

lemma concat_quads: "concat (map (\<lambda>i. [c (4 * i), c (4 * i + 1), c (4 * i + 2), c (4 * i + 3)]) [0..<n]) = map c [0..<4 * n]"
proof (induction n)
  case (Suc n)
  have "[0..<4 * Suc n] = [0..<4 * n] @ [4 * n, 4 * n + 1, 4 * n + 2, 4 * n + 3]"
    by (simp add: upt_rec [of "4 * n"] upt_add_eq_append [of 0 "4 * n" 4, simplified] numeral_eq_Suc)
  then show ?case using Suc by simp
qed simp

lemma ghash_quads:
  assumes "half_sum h1x h1" "half_sum h2x h2" "half_sum h3x h3" "half_sum h4x h4"
    and "h2 = gcm_mult h1 h1" "h3 = gcm_mult h1 h2" "h4 = gcm_mult h2 h2" and "length b = 64 * n"
  shows "foldl (\<lambda>yw i. ghash_step4 (h1, h2, h3, h4) (h1x, h2x, h3x, h4x) yw (drop (64 * i) b)) y [0..<n]
    = foldl (ghash_block h1) y (chunks 16 b)"
proof -
  define c where "c = (\<lambda>i. take 16 (drop (16 * i) b))"
  have "foldl (\<lambda>yw i. ghash_step4 (h1, h2, h3, h4) (h1x, h2x, h3x, h4x) yw (drop (64 * i) b)) y [0..<n]
      = foldl (ghash_block h1) y (concat (map (\<lambda>i. [c (4 * i), c (4 * i + 1), c (4 * i + 2), c (4 * i + 3)]) [0..<n]))"
  proof (rule foldl_blocks)
    fix r i assume "i \<in> set [0..<n]"
    then have "Suc i \<le> n" by simp
    then have "64 * Suc i \<le> length b" unfolding assms(8) by (rule mult_le_mono2)
    then have "64 \<le> length (drop (64 * i) b)" by simp
    from ghash_step4_eq [OF assms(1-7) this]
    show "ghash_step4 (h1, h2, h3, h4) (h1x, h2x, h3x, h4x) r (drop (64 * i) b)
        = foldl (ghash_block h1) r [c (4 * i), c (4 * i + 1), c (4 * i + 2), c (4 * i + 3)]"
      by (simp add: c_def add.commute)
  qed
  also have "\<dots> = foldl (ghash_block h1) y (chunks 16 b)"
    using chunks_map [of 16 b "4 * n"] assms(8) unfolding concat_quads by (simp add: c_def)
  finally show ?thesis .
qed

lemma ghash_singles:
  assumes "half_sum hx hw" "length b = 16 * n"
  shows "foldl (\<lambda>yw i. ghash_step1 hw hx yw (drop (16 * i) b)) y [0..<n] = foldl (ghash_block hw) y (chunks 16 b)"
proof -
  have "foldl (\<lambda>yw i. ghash_step1 hw hx yw (drop (16 * i) b)) y [0..<n]
      = foldl (ghash_block hw) y (concat (map (\<lambda>i. [take 16 (drop (16 * i) b)]) [0..<n]))"
  proof (rule foldl_blocks)
    fix r i assume "i \<in> set [0..<n]"
    then have "Suc i \<le> n" by simp
    then have "16 * Suc i \<le> length b" unfolding assms(2) by (rule mult_le_mono2)
    then have "16 \<le> length (drop (16 * i) b)" by simp
    from ghash_step1_eq [OF assms(1) this]
    show "ghash_step1 hw hx r (drop (16 * i) b) = foldl (ghash_block hw) r [take 16 (drop (16 * i) b)]"
      by (simp add: ghash_block_take)
  qed
  also have "concat (map (\<lambda>i. [take 16 (drop (16 * i) b)]) [0..<n]) = chunks 16 b"
    using chunks_map [of 16 b n] assms(2) by (simp add: concat_map_singleton)
  finally show ?thesis .
qed

lemma pad16_split:
  assumes "b1 = take (length d div 64 * 64) d" "b2 = drop (length d div 64 * 64) d"
    and "l = length d mod 64" "n = (l + 15) div 16"
    and "b2' = (if l mod 16 \<noteq> 0 then b2 @ replicate (n * 16 - l) 0 else b2)"
  shows "pad16 d = b1 @ b2'" "length b1 = 64 * (length d div 64)" "length b2' = 16 * n"
proof -
  have l: "length b2 = l" "l mod 16 = length d mod 16"
    using assms by (simp_all add: minus_div_mult_eq_mod mod_mod_cancel)
  have d: "d = b1 @ b2" using assms by simp
  define q r where qr: "q = l div 16" "r = l mod 16"
  have lq: "l = 16 * q + r" "r < 16" by (simp_all add: qr)
  have n: "r \<noteq> 0 \<Longrightarrow> n = q + 1" "r = 0 \<Longrightarrow> n = q"
    unfolding assms(4) lq(1) using ceil16 [of r q] lq(2) by simp_all
  have z: "r \<noteq> 0 \<Longrightarrow> (16 - length d mod 16) mod 16 = n * 16 - l"
  proof -
    assume r: "r \<noteq> 0"
    have "length d mod 16 = r" using l(2) by (simp only: qr)
    then show ?thesis using lq n(1) [OF r] r by simp
  qed
  show "length b1 = 64 * (length d div 64)" using assms(1) by (simp add: mult.commute)
  show "length b2' = 16 * n"
  proof (cases "r = 0")
    case True
    then show ?thesis using l(1) lq(1) n(2) by (simp add: assms(5) flip: qr)
  next
    case False
    then show ?thesis using l(1) lq n(1) by (simp add: assms(5) flip: qr)
  qed
  show "pad16 d = b1 @ b2'"
  proof (cases "r = 0")
    case True
    then show ?thesis using assms(5) l qr d by (simp add: pad16_def)
  next
    case False
    then have "pad16 d = (b1 @ b2) @ replicate (n * 16 - l) 0" using z [OF False] by (simp only: pad16_def d [symmetric])
    then show ?thesis using False assms(5) qr by simp
  qed
qed

lemma ghash_pclmul_words:
  "br_ghash_pclmul y k d = mm_storeu_si128 (BYTESWAP
    (foldl (ghash_block (BYTESWAP (mm_loadu_si128 k))) (BYTESWAP (mm_loadu_si128 y)) (chunks 16 (pad16 d))))"
proof -
  define b1 b2 l n b2' where b: "b1 = take (length d div 64 * 64) d" "b2 = drop (length d div 64 * 64) d"
    "l = length d mod 64" "n = (l + 15) div 16"
    "b2' = (if l mod 16 \<noteq> 0 then b2 @ replicate (n * 16 - l) 0 else b2)"
  note pad = pad16_split [OF b]
  define hw yw where hy: "hw = BYTESWAP (mm_loadu_si128 k)" "yw = BYTESWAP (mm_loadu_si128 y)"
  obtain h2 h2x where h2: "SQUARE_F128 hw = (h2, h2x)" by fastforce
  obtain h4 h4x where h4: "SQUARE_F128 h2 = (h4, h4x)" by fastforce
  obtain r0 r1 where r: "ghash_combine (pclmulqdq11 hw h2) (pclmulqdq00 (BK hw) h2x) (pclmulqdq00 hw h2) = (r0, r1)"
    by fastforce
  obtain h3 h3x where h3: "PBK r0 r1 = (h3, h3x)" by fastforce
  have e3: "h3 = gcm_mult hw h2"
    using h3 ghash_combine_mult [OF half_sum_BK SQUARE_F128_eq(2) [OF h2] r] by (simp add: PBK_def)
  note quads = ghash_quads [OF half_sum_BK SQUARE_F128_eq(2) [OF h2] half_sum_PBK [OF h3] SQUARE_F128_eq(2) [OF h4]
      SQUARE_F128_eq(1) [OF h2] e3 SQUARE_F128_eq(1) [OF h4] pad(2)]
  define y1 where "y1 = foldl (ghash_block hw) yw (chunks 16 b1)"
  have y1: "(if length d div 64 > 0
      then foldl (\<lambda>yw i. ghash_step4 (hw, h2, h3, h4) (BK hw, h2x, h3x, h4x) yw (drop (64 * i) b1)) yw [0..<length d div 64]
      else yw) = y1"
    using quads b(1) by (auto simp: y1_def)
  have "br_ghash_pclmul y k d =
      mm_storeu_si128 (BYTESWAP (foldl (\<lambda>yw i. ghash_step1 hw (BK hw) yw (drop (16 * i) b2')) y1 [0..<n]))"
    unfolding br_ghash_pclmul_def Let_def hy [symmetric] b(3) [symmetric]
      b(4) [symmetric] b(1) [symmetric] b(2) [symmetric] b(5) [symmetric] h2 prod.case r h3 h4 y1 ..
  also have "foldl (\<lambda>yw i. ghash_step1 hw (BK hw) yw (drop (16 * i) b2')) y1 [0..<n]
      = foldl (ghash_block hw) yw (chunks 16 b1 @ chunks 16 b2')"
    unfolding ghash_singles [OF half_sum_BK pad(3)] by (simp add: y1_def)
  also have "chunks 16 b1 @ chunks 16 b2' = chunks 16 (pad16 d)"
    using chunks_append_dvd [of 16 b1 b2'] pad(2) by (simp add: pad(1))
  finally show ?thesis by (simp only: hy)
qed

lemma ghash_pclmul_spec:
  "length y = 16 \<Longrightarrow> length k = 16 \<Longrightarrow> br_ghash_pclmul y k d = mm_storeu_si128 (BYTESWAP (ghash_spec y k d))"
  by (simp add: ghash_pclmul_words BYTESWAP_load ghash_spec_def ghash_block_def [abs_def])

interpretation pclmul: ghash_fun br_ghash_pclmul
proof
  fix a b d y k :: bytes
  show "16 dvd length a \<Longrightarrow> br_ghash_pclmul y k (a @ b) = br_ghash_pclmul (br_ghash_pclmul y k a) k b"
    by (simp add: ghash_pclmul_words pad16_append pad16_aligned chunks_append_dvd)
  show "br_ghash_pclmul y k d = br_ghash_pclmul y k (pad16 d)"
    by (simp add: ghash_pclmul_words pad16_aligned dvd_pad16)
  show "length y = 16 \<Longrightarrow> br_ghash_pclmul y k [] = y"
    by (simp add: ghash_pclmul_words pad16_def)
  show "length (br_ghash_pclmul y k d) = 16" by (simp add: ghash_pclmul_words)
qed

text \<open>(C22) GHASH with carry-less multiplications is the GHASH of the standard: for any hash state, key and
  data, the routine (Karatsuba products, one-bit shift, folding reduction, four blocks at a time with
  the powers of the key, zero padding of the last block) returns the sixteen bytes that the bit-by-bit
  multiplication of NIST SP 800-38D yields, block after block.\<close>

theorem ghash_pclmul_nist:
  assumes "length y = 16" "length k = 16"
  shows "length (br_ghash_pclmul y k d) = 16 \<and> be128 (br_ghash_pclmul y k d) = ghash_spec y k d"
proof -
  have "be128 (mm_storeu_si128 x) = BYTESWAP x" for x
    by (simp flip: BYTESWAP_load)
  then show ?thesis by (simp add: ghash_pclmul_spec [OF assms])
qed

theorem ghash_pclmul_nist_witness:
  "length (br_ghash_pclmul (replicate 16 0) (map of_nat [1..<17]) [7, 8, 9]) = 16
    \<and> be128 (br_ghash_pclmul (replicate 16 0) (map of_nat [1..<17]) [7, 8, 9])
      = ghash_spec (replicate 16 0) (map of_nat [1..<17]) [7, 8, 9]"
  by (rule ghash_pclmul_nist) simp_all

end
