(* ===== verification/Aes_Gcm.thy ===== *)
theory Aes_Gcm
  imports Aes_Ni Ghash
begin

text \<open>
  AES-GCM as the enclave uses it: the GCM code over the AES-NI counter mode and the carry-less
  multiplication GHASH.  Both satisfy the contracts of \<open>Gcm\<close>, and the two together interpret
  \<open>gcm_parts\<close>.  The results of a session are compared with the definition of AES-GCM in NIST
  SP 800-38D, written over the FIPS 197 cipher and the bitwise field multiplication.
\<close>

section \<open>The specification\<close>

definition gcm_hash_key :: "bytes \<Rightarrow> bytes" where
  "gcm_hash_key key = aes_cipher key (replicate 16 0)"

definition ghash_bytes :: "bytes \<Rightarrow> bytes \<Rightarrow> bytes" where
  "ghash_bytes k d = mm_storeu_si128 (BYTESWAP (ghash_spec (replicate 16 0) k d))"

definition gcm_j0 :: "bytes \<Rightarrow> bytes \<Rightarrow> bytes" where
  "gcm_j0 key iv =
    (if length iv = 12 then iv @ br_enc32be 1
     else ghash_bytes (gcm_hash_key key) (pad16 iv @ replicate 8 0 @ br_enc64be (of_nat (8 * length iv))))"

definition gcm_ctr :: "bytes \<Rightarrow> bytes \<Rightarrow> bytes \<Rightarrow> bytes" where
  "gcm_ctr key j0 d = map (\<lambda>n. d ! n XOR
     aes_cipher key (take 12 j0 @ br_enc32be (br_dec32be (drop 12 j0) + 1 + of_nat (n div 16))) ! (n mod 16)) [0..<length d]"

definition aes_gcm_tag :: "bytes \<Rightarrow> bytes \<Rightarrow> bytes \<Rightarrow> bytes \<Rightarrow> bytes" where
  "aes_gcm_tag key j0 a c = map2 (XOR) (ghash_bytes (gcm_hash_key key)
     (pad16 a @ pad16 c @ br_enc64be (of_nat (8 * length a)) @ br_enc64be (of_nat (8 * length c)))) (aes_cipher key j0)"

section \<open>The instance\<close>

abbreviation x86ni_run :: "(nat \<Rightarrow> u8) \<Rightarrow> (nat \<Rightarrow> u128) \<Rightarrow> br_aes_x86ni_ctr_keys \<Rightarrow> bytes \<Rightarrow> ctr_run" where
  "x86ni_run junk u kctx key \<equiv> br_aes_x86ni_ctr_run junk (br_aes_x86ni_ctr_init u kctx key)"

interpretation aes_gcm: gcm_parts "x86ni_run junk u kctx (aes_key_bytes key)"
  "\<lambda>iv c. aes_cipher (aes_key_bytes key) (iv @ br_enc32be c)" br_ghash_pclmul
  by unfold_locales

text \<open>A session as a caller makes it: the additional data and the data come in any number of pieces.\<close>

definition gcm_session :: "ctr_run \<Rightarrow> br_gcm_context \<Rightarrow> bytes \<Rightarrow> bytes list \<Rightarrow> bool \<Rightarrow> bytes list \<Rightarrow> br_gcm_context \<times> bytes" where
  "gcm_session run ctx iv as enc ds =
    (let ctx = br_gcm_init ctx run br_ghash_pclmul;
         ctx = br_gcm_reset ctx iv;
         ctx = foldl br_gcm_aad_inject ctx as;
         ctx = br_gcm_flip ctx
     in foldl (\<lambda>(ctx, out) d. case br_gcm_run ctx enc d of (ctx, d') \<Rightarrow> (ctx, out @ d')) (ctx, []) ds)"

lemma ghash_bytes_eq: "length k = 16 \<Longrightarrow> br_ghash_pclmul (replicate 16 0) k d = ghash_bytes k d"
  by (simp add: ghash_bytes_def ghash_pclmul_spec)

lemma length_ghash_bytes [simp]: "length (ghash_bytes k d) = 16"
  by (simp add: ghash_bytes_def)

lemma hash_key_eq: "aes_gcm.hash_key key = gcm_hash_key (aes_key_bytes key)"
proof -
  have "replicate 12 0 @ br_enc32be 0 = replicate 16 0" by (simp add: br_enc32be_def numeral_eq_Suc)
  then show ?thesis by (simp add: aes_gcm.hash_key_def gcm_hash_key_def)
qed

lemma length_gcm_hash_key [simp]: "length (gcm_hash_key key) = 16"
  by (simp add: gcm_hash_key_def)

lemma init_block_j0:
  "fst (aes_gcm.init_block key iv) @ br_enc32be (snd (aes_gcm.init_block key iv)) = gcm_j0 (aes_key_bytes key) iv"
  "fst (aes_gcm.init_block key iv) = take 12 (gcm_j0 (aes_key_bytes key) iv)"
  "snd (aes_gcm.init_block key iv) = br_dec32be (drop 12 (gcm_j0 (aes_key_bytes key) iv))"
proof -
  define y where "y = ghash_bytes (gcm_hash_key (aes_key_bytes key)) (pad16 iv @ replicate 8 0 @ br_enc64be (of_nat (8 * length iv)))"
  have y: "br_ghash_pclmul (replicate 16 0) (gcm_hash_key (aes_key_bytes key))
      (pad16 iv @ replicate 8 0 @ br_enc64be (of_nat (8 * length iv))) = y"
    unfolding y_def by (rule ghash_bytes_eq) simp
  have i: "aes_gcm.init_block key iv = (if length iv = 12 then (iv, 1) else (take 12 y, br_dec32be (drop 12 y)))"
    unfolding aes_gcm.init_block_def hash_key_eq y Let_def ..
  have "length y = 16" by (simp add: y_def)
  then have "take 12 y @ br_enc32be (br_dec32be (drop 12 y)) = y"
    by (simp add: be32.enc_dec)
  then have b: "fst (aes_gcm.init_block key iv) @ br_enc32be (snd (aes_gcm.init_block key iv)) = gcm_j0 (aes_key_bytes key) iv"
    by (simp add: i gcm_j0_def y_def)
  then show "fst (aes_gcm.init_block key iv) @ br_enc32be (snd (aes_gcm.init_block key iv)) = gcm_j0 (aes_key_bytes key) iv" .
  have l: "length (fst (aes_gcm.init_block key iv)) = 12" by (rule aes_gcm.length_init_block)
  show "fst (aes_gcm.init_block key iv) = take 12 (gcm_j0 (aes_key_bytes key) iv)"
    "snd (aes_gcm.init_block key iv) = br_dec32be (drop 12 (gcm_j0 (aes_key_bytes key) iv))"
    using l by (simp_all add: be32.dec_enc_exact flip: b)
qed

lemma session_spec:
  assumes "length key = 16 \<or> length key = 24 \<or> length key = 32" "length (gcm_buf ctx) = 16"
    and "gcm_session (x86ni_run junk u kctx key) ctx iv as enc ds = (ctx', out)"
  shows "out = gcm_ctr key (gcm_j0 key iv) (concat ds)"
    and "snd (br_gcm_get_tag ctx') = aes_gcm_tag key (gcm_j0 key iv) (concat as) (if enc then out else concat ds)"
proof -
  obtain k where k: "key = aes_key_bytes k" 
    by (rule that [of "Aes_key key"]) (use assms(1) in \<open>simp add: Aes_key_inverse\<close>)
  note s = aes_gcm.session [OF assms(2) assms(3) [unfolded gcm_session_def Let_def k]]
  show "out = gcm_ctr key (gcm_j0 key iv) (concat ds)"
    unfolding s(1) by (rule nth_equalityI)
      (simp_all add: gcm_ctr_def nth_ctr_xor ks_at_def init_block_j0(2) init_block_j0(3) add.assoc k)
  show "snd (br_gcm_get_tag ctx') = aes_gcm_tag key (gcm_j0 key iv) (concat as) (if enc then out else concat ds)"
    unfolding s(2) aes_gcm.gcm_tag_single aes_gcm_tag_def hash_key_eq k
    by (simp only: ghash_bytes_eq length_gcm_hash_key init_block_j0(1))
qed

lemma length_aes_gcm_tag [simp]: "length (aes_gcm_tag key j0 a c) = 16"
  by (simp add: aes_gcm_tag_def)

lemma length_gcm_ctr [simp]: "length (gcm_ctr key j0 d) = length d"
  by (simp add: gcm_ctr_def)

lemma gcm_ctr_involution: "gcm_ctr key j0 (gcm_ctr key j0 d) = d"
  by (rule nth_equalityI) (simp_all add: gcm_ctr_def xor.assoc)

section \<open>Properties\<close>

text \<open>(C4) Streaming AES-GCM is the AES-GCM of the standard: for every valid key and every IV (twelve bytes or
  not), whatever pieces the additional data and the data arrive in, encrypting or decrypting, the output
  is the counter-mode transformation of the whole data and the tag is the encrypted GHASH of additional
  data, ciphertext and their lengths, all as NIST SP 800-38D defines them over the FIPS 197 cipher and the
  bitwise field product.\<close>

theorem aes_gcm_session_nist:
  assumes "length key = 16 \<or> length key = 24 \<or> length key = 32" "length (gcm_buf ctx) = 16"
  shows "case gcm_session (x86ni_run junk u kctx key) ctx iv as enc ds of (ctx', out) \<Rightarrow>
    out = gcm_ctr key (gcm_j0 key iv) (concat ds)
    \<and> snd (br_gcm_get_tag ctx') = aes_gcm_tag key (gcm_j0 key iv) (concat as) (if enc then out else concat ds)"
  using session_spec [OF assms] by (auto split: prod.splits)

definition idle_gcm :: br_gcm_context where
  "idle_gcm = \<lparr>bctx_run = \<lambda>iv c d. (c, d), gcm_gh = \<lambda>y k d. y, gcm_h = replicate 16 0, j0_1 = replicate 12 0,
    gcm_buf = replicate 16 0, gcm_y = replicate 16 0, j0_2 = 0, jc = 0, count_aad = 0, count_ctr = 0\<rparr>"

definition idle_keys :: br_aes_x86ni_ctr_keys where
  "idle_keys = \<lparr>skni = replicate 240 0, num_rounds = 0\<rparr>"

theorem aes_gcm_session_nist_witness:
  "case gcm_session (x86ni_run (\<lambda>i. 0) (\<lambda>i. 0) idle_keys (replicate 32 1)) idle_gcm
      (replicate 12 7) [[1], [2, 3]] True [[4, 5], [], [6]] of (ctx', out) \<Rightarrow>
    out = gcm_ctr (replicate 32 1) (gcm_j0 (replicate 32 1) (replicate 12 7)) [4, 5, 6]
    \<and> snd (br_gcm_get_tag ctx') = aes_gcm_tag (replicate 32 1) (gcm_j0 (replicate 32 1) (replicate 12 7)) [1, 2, 3] out"
  using aes_gcm_session_nist [where key = "replicate 32 1" and ctx = idle_gcm and junk = "\<lambda>i. 0" and u = "\<lambda>i. 0"
      and kctx = idle_keys and iv = "replicate 12 7" and enc = True and as = "[[1], [2, 3]]" and ds = "[[4, 5], [], [6]]"]
  by (simp add: idle_gcm_def)

text \<open>(C21) Decryption inverts encryption and the tag check accepts exactly the tag of the message: decrypting,
  in any pieces, what an encryption session produced yields the data again, and checking a tag returns 1 if
  it equals the tag the encryption side computed and 0 otherwise.\<close>

theorem aes_gcm_decrypts:
  assumes "length key = 16 \<or> length key = 24 \<or> length key = 32" "length (gcm_buf ctx) = 16" "length (gcm_buf ctxd) = 16"
    and "concat asd = concat as" "concat dsd = snd (gcm_session (x86ni_run junk u kctx key) ctx iv as True ds)"
    and "length tag = 16"
  shows "case gcm_session (x86ni_run junkd ud kctxd key) ctxd iv asd False dsd of (ctx2', out2) \<Rightarrow>
    out2 = concat ds
    \<and> snd (br_gcm_check_tag ctx2' tag) =
      (if tag = snd (br_gcm_get_tag (fst (gcm_session (x86ni_run junk u kctx key) ctx iv as True ds))) then 1 else 0)"
proof -
  obtain ctx' out where s: "gcm_session (x86ni_run junk u kctx key) ctx iv as True ds = (ctx', out)" by fastforce
  obtain ctx2' out2 where s2: "gcm_session (x86ni_run junkd ud kctxd key) ctxd iv asd False dsd = (ctx2', out2)" by fastforce
  note e = session_spec [OF assms(1,2) s]
  note d = session_spec [OF assms(1,3) s2]
  have o: "concat dsd = out" using assms(5) s by simp
  have "out2 = concat ds" unfolding d(1) o e(1) by (rule gcm_ctr_involution)
  moreover have "snd (br_gcm_get_tag ctx2') = snd (br_gcm_get_tag ctx')" using e(2) d(2) assms(4) o by simp
  moreover have "length (snd (br_gcm_get_tag ctx2')) = 16" using d(2) by simp
  ultimately show ?thesis
    using check_tag_trunc_iff [of ctx2' 16 tag] assms(6) by (simp add: br_gcm_check_tag_def s s2)
qed

theorem aes_gcm_decrypts_witness:
  "let enc = gcm_session (x86ni_run (\<lambda>i. 0) (\<lambda>i. 0) idle_keys (replicate 16 1)) idle_gcm (replicate 12 7) [[1, 2]] True [[4], [5, 6]]
   in case gcm_session (x86ni_run (\<lambda>i. 1) (\<lambda>i. 2) idle_keys (replicate 16 1)) idle_gcm (replicate 12 7) [[1], [2]] False [snd enc]
     of (ctx2', out2) \<Rightarrow> out2 = [4, 5, 6]
       \<and> snd (br_gcm_check_tag ctx2' (replicate 16 9)) = (if replicate 16 9 = snd (br_gcm_get_tag (fst enc)) then 1 else 0)"
  using aes_gcm_decrypts [where key = "replicate 16 1" and ctx = idle_gcm and ctxd = idle_gcm and asd = "[[1], [2]]" and as = "[[1, 2]]"
      and dsd = "[snd (gcm_session (x86ni_run (\<lambda>i. 0) (\<lambda>i. 0) idle_keys (replicate 16 1)) idle_gcm (replicate 12 7) [[1, 2]] True [[4], [5, 6]])]"
      and junk = "\<lambda>i. 0" and u = "\<lambda>i. 0" and kctx = idle_keys and iv = "replicate 12 7" and ds = "[[4], [5, 6]]"
      and tag = "replicate 16 9" and junkd = "\<lambda>i. 1" and ud = "\<lambda>i. 2" and kctxd = idle_keys]
  by (simp add: idle_gcm_def Let_def)

end
