(* ===== verification/Hash_Class.thy ===== *)
theory Hash_Class
  imports Codec
begin

text \<open>
  The hash function interface of BearSSL (\<open>bearssl_hash.h\<close>): the class structure
  \<open>br_hash_class\<close> with its descriptor word, the context structures shared by the SHA-1 and
  SHA-2 implementations, and the theory of Merkle-Damgard streaming that both implementations
  rely on.  The class pointer stored in a context is the class itself, which the generic code
  receives beside the context; the C union \<open>br_hash_compat_context\<close> is the type of contexts.
\<close>

section \<open>The class structure\<close>

record 'c br_hash_class =
  context_size :: nat
  desc :: u32
  hc_init :: "'c \<Rightarrow> 'c"
  hc_update :: "'c \<Rightarrow> bytes \<Rightarrow> 'c"
  hc_out :: "'c \<Rightarrow> bytes"
  hc_state :: "'c \<Rightarrow> bytes \<times> u64"
  hc_set_state :: "'c \<Rightarrow> bytes \<Rightarrow> u64 \<Rightarrow> 'c"

definition BR_HASHDESC_ID :: "u32 \<Rightarrow> u32" where
  "BR_HASHDESC_ID i = push_bit 0 i"

definition BR_HASHDESC_OUT :: "u32 \<Rightarrow> u32" where
  "BR_HASHDESC_OUT n = push_bit 8 n"

definition BR_HASHDESC_STATE :: "u32 \<Rightarrow> u32" where
  "BR_HASHDESC_STATE n = push_bit 15 n"

definition BR_HASHDESC_LBLEN :: "u32 \<Rightarrow> u32" where
  "BR_HASHDESC_LBLEN ls = push_bit 23 ls"

definition BR_HASHDESC_MD_PADDING :: u32 where
  "BR_HASHDESC_MD_PADDING = push_bit 28 1"

definition BR_HASHDESC_MD_PADDING_BE :: u32 where
  "BR_HASHDESC_MD_PADDING_BE = push_bit 30 1"

lemmas hashdesc_defs =
  BR_HASHDESC_ID_def BR_HASHDESC_OUT_def BR_HASHDESC_STATE_def BR_HASHDESC_LBLEN_def
  BR_HASHDESC_MD_PADDING_def BR_HASHDESC_MD_PADDING_BE_def

definition br_digest_size :: "'c br_hash_class \<Rightarrow> nat" where
  "br_digest_size dig = unat (drop_bit 8 (desc dig) AND 0x7F)"

definition block_size :: "'c br_hash_class \<Rightarrow> nat" where
  "block_size dig = (let ls = drop_bit 23 (desc dig) AND 0x0F in unat (push_bit (unat ls) (1 :: u64)))"

section \<open>Contexts\<close>

text \<open>The structures \<open>br_sha1_context\<close>, \<open>br_sha224_context\<close> and \<open>br_sha256_context\<close> have the
  same fields; they differ by the length of \<open>val\<close> (5 or 8 words).\<close>

record md_context =
  ctx_buf :: bytes
  ctx_count :: u64
  ctx_val :: "u32 list"

section \<open>Streaming into 64-byte blocks\<close>

type_synonym round_fun = "bytes \<Rightarrow> u32 list \<Rightarrow> u32 list"

text \<open>The reference: the padding of FIPS 180-4 and the iterated compression.\<close>

definition md_pad :: "bytes \<Rightarrow> bytes" where
  "md_pad m = m @ [0x80] @ replicate ((119 - length m mod 64) mod 64) 0
    @ br_enc64be (of_nat (8 * length m))"

definition md_iterate :: "round_fun \<Rightarrow> u32 list \<Rightarrow> bytes \<Rightarrow> u32 list" where
  "md_iterate round iv m = foldl (\<lambda>v b. round b v) iv (chunks 64 m)"

definition md_hash :: "round_fun \<Rightarrow> u32 list \<Rightarrow> nat \<Rightarrow> bytes \<Rightarrow> bytes" where
  "md_hash round iv num m = concat (map br_enc32be (take num (md_iterate round iv (md_pad m))))"

lemma md_zeros:
  fixes r :: nat
  assumes "r < 64"
  shows "(119 - r) mod 64 = (if r < 56 then 55 - r else 119 - r)"
proof (cases "r < 56")
  case True
  then have "(119 - r) mod 64 = (55 - r + 64) mod 64" by simp
  also have "\<dots> = 55 - r" by (subst mod_add_self2) simp
  finally show ?thesis using True by simp
qed (use assms in auto)

lemma length_md_pad: "64 dvd length (md_pad m)"
proof -
  define q r where "q = length m div 64" and "r = length m mod 64"
  have n: "length m = 64 * q + r" "r < 64" by (simp_all add: q_def r_def)
  have "length (md_pad m) = length m + 9 + (119 - r) mod 64"
    by (simp add: md_pad_def r_def)
  also have "\<dots> = 64 * (q + (if r < 56 then 1 else 2))"
    using n by (simp add: md_zeros)
  finally show ?thesis by simp
qed

text \<open>The loop of the update functions, on the buffer and the chaining value.  The loop is
  entered with \<open>ptr < 64\<close> only (\<open>ptr\<close> is a count taken modulo 64); outside that range the model
  returns at once.\<close>

function md_loop :: "round_fun \<Rightarrow> bytes \<Rightarrow> u32 list \<Rightarrow> nat \<Rightarrow> bytes \<Rightarrow> bytes \<times> u32 list" where
  "md_loop round buf val ptr data =
    (if data = [] \<or> 64 \<le> ptr then (buf, val)
     else let clen = (if 64 - ptr > length data then length data else 64 - ptr);
              buf = memcpy buf ptr (take clen data);
              ptr = ptr + clen;
              data = drop clen data
          in if ptr = 64 then md_loop round buf (round buf val) 0 data
             else md_loop round buf val ptr data)"
  by pat_completeness auto
termination
  by (relation "measure (\<lambda>(r, b, v, p, d). length d)") (auto split: if_splits)

declare md_loop.simps [simp del]

text \<open>What a buffer and a chaining value say about the message absorbed so far.\<close>

definition md_full :: "bytes \<Rightarrow> bytes" where
  "md_full m = take (64 * (length m div 64)) m"

definition md_rest :: "bytes \<Rightarrow> bytes" where
  "md_rest m = drop (64 * (length m div 64)) m"

definition md_core :: "round_fun \<Rightarrow> u32 list \<Rightarrow> bytes \<Rightarrow> u32 list \<Rightarrow> bytes \<Rightarrow> bool" where
  "md_core round iv buf val m \<longleftrightarrow> length buf = 64 \<and> val = md_iterate round iv (md_full m)
    \<and> take (length m mod 64) buf = md_rest m"

lemma md_full_rest: "md_full m @ md_rest m = m"
  by (simp add: md_full_def md_rest_def)

lemma length_md_rest [simp]: "length (md_rest m) = length m mod 64"
  by (simp add: md_rest_def minus_mult_div_eq_mod)

lemma length_md_full: "length (md_full m) = 64 * (length m div 64)"
  by (simp add: md_full_def)

lemma md_full_append_small:
  assumes "length m mod 64 + length c < 64"
  shows "md_full (m @ c) = md_full m" "md_rest (m @ c) = md_rest m @ c"
proof -
  have "(length m + length c) div 64 = length m div 64"
    using assms div_add1_eq [of "length m" "length c" 64] by simp
  then show "md_full (m @ c) = md_full m" "md_rest (m @ c) = md_rest m @ c"
    by (simp_all add: md_full_def md_rest_def)
qed

lemma md_full_append_block:
  assumes "length m mod 64 + length c = 64"
  shows "md_full (m @ c) = md_full m @ (md_rest m @ c)" "md_rest (m @ c) = []"
proof -
  have "length (m @ c) = 64 * (length m div 64) + 64"
    using assms by (metis add.assoc length_append mult_div_mod_eq)
  then have "64 * (length (m @ c) div 64) = length (m @ c)" by simp
  then show "md_full (m @ c) = md_full m @ (md_rest m @ c)" "md_rest (m @ c) = []"
    using md_full_rest [of m] by (simp_all add: md_full_def [of "m @ c"] md_rest_def [of "m @ c"])
qed

lemma md_iterate_append:
  "64 dvd length m \<Longrightarrow> md_iterate round iv (m @ b) = md_iterate round (md_iterate round iv m) b"
  by (simp add: md_iterate_def chunks_append_dvd)

lemma md_iterate_block: "length b = 64 \<Longrightarrow> md_iterate round v b = round b v"
  using chunks_append [of 64 b "[]"] by (simp add: md_iterate_def)

lemma md_core_Nil [simp]: "md_core round iv buf val [] \<longleftrightarrow> length buf = 64 \<and> val = iv"
  by (simp add: md_core_def md_iterate_def md_full_def md_rest_def)

lemma md_core_small:
  assumes "md_core round iv buf val m" "length m mod 64 + length c < 64"
  shows "md_core round iv (memcpy buf (length m mod 64) c) val (m @ c)"
proof -
  have "(length m + length c) mod 64 = length m mod 64 + length c"
    using assms(2) by (metis mod_add_left_eq mod_less)
  then show ?thesis
    using assms take_memcpy [of "length m mod 64" buf c]
    by (simp add: md_core_def md_full_append_small)
qed

lemma md_core_block:
  assumes "md_core round iv buf val m" "length m mod 64 + length c = 64"
  defines "buf' \<equiv> memcpy buf (length m mod 64) c"
  shows "md_core round iv buf' (round buf' val) (m @ c)"
proof -
  have buf': "buf' = md_rest m @ c" "length buf' = 64"
    using assms by (simp_all add: md_core_def memcpy_to_end)
  have "64 dvd length (md_full m)" by (simp add: length_md_full)
  then have "round buf' val = md_iterate round iv (md_full (m @ c))"
    using assms buf' by (simp add: md_core_def md_full_append_block md_iterate_append md_iterate_block)
  moreover have "(length m + length c) mod 64 = 0"
    using assms(2) by (metis mod_add_left_eq mod_self)
  ultimately show ?thesis
    using assms(2) buf' by (simp add: md_core_def md_full_append_block)
qed

lemma md_loop_core:
  assumes "md_core round iv buf val m" "ptr = length m mod 64"
    and "md_loop round buf val ptr data = (buf', val')"
  shows "md_core round iv buf' val' (m @ data)"
  using assms
proof (induction round buf val ptr data arbitrary: m rule: md_loop.induct)
  case (1 round buf val ptr data)
  define clen where "clen = (if 64 - ptr > length data then length data else 64 - ptr)"
  define c where "c = take clen data"
  show ?case
  proof (cases "data = []")
    case False
    have ptr: "ptr < 64" using 1(4) by simp
    have c: "length c = clen" "data = c @ drop clen data"
      by (simp_all add: c_def clen_def)
    note IH = 1(1,2) [OF _ clen_def refl refl refl, folded c_def]
    show ?thesis
    proof (cases "ptr + clen = 64")
      case True
      then have "md_core round iv (memcpy buf ptr c) (round (memcpy buf ptr c) val) (m @ c)"
        using md_core_block [OF 1(3)] 1(4) c by simp
      moreover have "0 = length (m @ c) mod 64"
        using True 1(4) c(1) by (metis length_append mod_add_left_eq mod_self)
      ultimately show ?thesis
        using IH(1) [of "m @ c"] 1(5) True False ptr c(2)
        by (simp add: md_loop.simps [of round buf val ptr] Let_def flip: clen_def c_def)
    next
      case F: False
      then have lt: "ptr + clen < 64" using ptr by (cases "64 - ptr > length data") (simp_all add: clen_def)
      then have "md_core round iv (memcpy buf ptr c) val (m @ c)"
        using md_core_small [OF 1(3), of c] 1(4) c by simp
      moreover have "ptr + clen = length (m @ c) mod 64"
        using lt 1(4) c(1) by (metis length_append mod_add_left_eq mod_less)
      ultimately show ?thesis
        using IH(2) [of "m @ c"] 1(5) F False ptr c(2)
        by (simp add: md_loop.simps [of round buf val ptr] Let_def flip: clen_def c_def)
    qed
  qed (use 1 in \<open>simp add: md_loop.simps\<close>)
qed

text \<open>The finalisation of both implementations, on the buffer, the count and the chaining
  value.\<close>

definition md_finish :: "round_fun \<Rightarrow> nat \<Rightarrow> bytes \<Rightarrow> u64 \<Rightarrow> u32 list \<Rightarrow> bytes" where
  "md_finish round num buf0 cnt val =
    (let ptr = unat (cnt AND 63);
         buf = take ptr buf0 @ [0x80];
         ptr = ptr + 1;
         (buf, val) =
           (if ptr > 56 then (replicate 56 0, round (buf @ replicate (64 - ptr) 0) val)
            else (buf @ replicate (56 - ptr) 0, val));
         val = round (buf @ br_enc64be (push_bit 3 cnt)) val
     in br_range_enc32be val num)"

lemma count_mod_64: "unat (of_nat n AND 63 :: u64) = n mod 64"
proof -
  have "(of_nat n AND 63 :: u64) = take_bit 6 (of_nat n)"
    by (rule word_eq_bitwiseI) (simp add: bit_simps upt_bits)
  then have "unat (of_nat n AND 63 :: u64) = n mod 2 ^ 64 mod 64"
    by (simp only: unsigned_take_bit_eq) (simp add: take_bit_eq_mod unat_of_nat)
  then show ?thesis by (simp add: mod_mod_cancel)
qed

lemma md_finish_core:
  assumes "md_core round iv buf val m" "\<And>b v. length (round b v) \<ge> num"
  shows "md_finish round num buf (of_nat (length m)) val = md_hash round iv num m"
proof -
  define r where "r = length m mod 64"
  have r: "r < 64" "take r buf = md_rest m" "val = md_iterate round iv (md_full m)"
    "length (md_rest m) = r" "64 dvd length (md_full m)"
    using assms(1) by (simp_all add: md_core_def r_def length_md_full)
  define e where "e = br_enc64be (of_nat (8 * length m))"
  have e: "length e = 8" "br_enc64be (push_bit 3 (of_nat (length m))) = e"
    by (simp_all add: e_def push_bit_eq_mult ac_simps)
  have pad: "md_pad m = md_full m @ (md_rest m @ [0x80] @ replicate ((119 - r) mod 64) 0 @ e)"
    using md_full_rest [of m] by (metis append_assoc md_pad_def e_def r_def)
  define last where "last = md_iterate round val (md_rest m @ [0x80] @ replicate ((119 - r) mod 64) 0 @ e)"
  have last: "md_iterate round iv (md_pad m) = last"
    using r(3,5) by (simp add: pad md_iterate_append last_def)
  have "\<exists>b v. last = round b v
      \<and> md_finish round num buf (of_nat (length m)) val = br_range_enc32be (round b v) num"
  proof (cases "r < 56")
    case True
    then have "last = round (md_rest m @ [0x80] @ replicate (55 - r) 0 @ e) val"
      using r e by (simp add: last_def md_zeros md_iterate_block)
    then show ?thesis using True r e
      by (intro exI conjI) (assumption, simp add: md_finish_def count_mod_64 Let_def flip: r_def)
  next
    case False
    define b1 where "b1 = md_rest m @ [0x80] @ replicate (63 - r) 0"
    have "replicate (119 - r) (0 :: u8) = replicate (63 - r) 0 @ replicate 56 0"
      using False r(1) by (simp flip: replicate_add)
    then have "last = md_iterate round val (b1 @ (replicate 56 0 @ e))"
      using False r by (simp add: last_def md_zeros b1_def)
    also have "\<dots> = round (replicate 56 0 @ e) (round b1 val)"
      using False r e by (subst md_iterate_append) (simp_all add: b1_def md_iterate_block)
    finally show ?thesis using False r e
      by (intro exI conjI) (assumption, simp add: md_finish_def count_mod_64 Let_def b1_def flip: r_def)
  qed
  then show ?thesis
    using assms(2) by (auto simp: br_range_enc32be_concat md_hash_def last)
qed

section \<open>The contract of a hash class\<close>

text \<open>What the generic code (HMAC, the random generators, the enclave) relies on: a context
  represents the message absorbed so far, and a state exported at a block boundary can be
  restored into another context.\<close>

locale hash_class =
  fixes dig :: "'c br_hash_class"
    and H :: "bytes \<Rightarrow> bytes"
    and repr :: "'c \<Rightarrow> bytes \<Rightarrow> bool"
    and wf :: "'c \<Rightarrow> bool"
  assumes init_repr: "wf c \<Longrightarrow> repr (hc_init dig c) []"
    and update_repr: "repr c m \<Longrightarrow> repr (hc_update dig c d) (m @ d)"
    and out_repr: "repr c m \<Longrightarrow> hc_out dig c = H m"
    and repr_wf: "repr c m \<Longrightarrow> wf c"
    and restore_repr: "repr c m \<Longrightarrow> block_size dig dvd length m \<Longrightarrow> wf c'
      \<Longrightarrow> repr (hc_set_state dig (hc_init dig c') (fst (hc_state dig c) @ r) (of_nat (length m))) m"
    and length_H: "length (H m) = br_digest_size dig"
    and digest_le_block: "br_digest_size dig \<le> block_size dig"
begin

lemma hash_once: "wf c \<Longrightarrow> hc_out dig (hc_update dig (hc_init dig c) d) = H d"
  using update_repr [OF init_repr, of c d] out_repr by auto

lemma updates_repr: "repr c m \<Longrightarrow> repr (foldl (hc_update dig) c ds) (m @ concat ds)"
proof (induction ds arbitrary: c m)
  case (Cons d ds)
  from Cons.IH [OF update_repr [OF Cons.prems, of d]] show ?case by simp
qed simp

lemma hash_stream: "wf c \<Longrightarrow> hc_out dig (foldl (hc_update dig) (hc_init dig c) ds) = H (concat ds)"
  using out_repr [OF updates_repr [OF init_repr]] by simp

lemma update_append:
  "repr c m \<Longrightarrow> hc_out dig (hc_update dig (hc_update dig c d) e) = hc_out dig (hc_update dig c (d @ e))"
  using update_repr [of c m "d @ e"] update_repr [OF update_repr, of c m d e] out_repr by simp

end

definition md_repr :: "round_fun \<Rightarrow> u32 list \<Rightarrow> md_context \<Rightarrow> bytes \<Rightarrow> bool" where
  "md_repr round iv cc m \<longleftrightarrow>
    md_core round iv (ctx_buf cc) (ctx_val cc) m \<and> ctx_count cc = of_nat (length m)"

text \<open>A class whose operations are those of a 64-byte Merkle-Damgard hash meets the contract.\<close>

locale md_class =
  fixes dig :: "md_context br_hash_class" and round :: round_fun and iv :: "u32 list" and num :: nat
  assumes round_length: "length (round b v) = length iv"
    and num_le: "num \<le> length iv" "num \<le> 16"
    and init_eq: "hc_init dig cc = cc\<lparr>ctx_val := iv, ctx_count := 0\<rparr>"
    and update_eq: "hc_update dig cc d =
      (case md_loop round (ctx_buf cc) (ctx_val cc) (unat (ctx_count cc AND 63)) d of (b, v) \<Rightarrow>
        cc\<lparr>ctx_buf := b, ctx_count := ctx_count cc + of_nat (length d), ctx_val := v\<rparr>)"
    and out_eq: "hc_out dig cc = md_finish round num (ctx_buf cc) (ctx_count cc) (ctx_val cc)"
    and state_eq: "hc_state dig cc = (br_range_enc32be (ctx_val cc) (length iv), ctx_count cc)"
    and set_state_eq: "hc_set_state dig cc stb cnt =
      cc\<lparr>ctx_val := br_range_dec32be (length iv) stb, ctx_count := cnt\<rparr>"
    and sizes: "block_size dig = 64" "br_digest_size dig = 4 * num"
begin

lemma length_md_iterate: "length v = length iv \<Longrightarrow> length (md_iterate round v m) = length iv"
proof -
  have "length v = length iv \<Longrightarrow> length (foldl (\<lambda>v b. round b v) v bs) = length iv" for bs
    by (induction bs arbitrary: v) (simp_all add: round_length)
  then show "length v = length iv \<Longrightarrow> length (md_iterate round v m) = length iv"
    by (simp add: md_iterate_def)
qed

end

sublocale md_class \<subseteq> hash_class dig "md_hash round iv num" "md_repr round iv"
  "\<lambda>cc. length (ctx_buf cc) = 64"
proof
  show "length (ctx_buf c) = 64 \<Longrightarrow> md_repr round iv (hc_init dig c) []" for c
    by (simp add: md_repr_def init_eq)
  show "md_repr round iv c m \<Longrightarrow> md_repr round iv (hc_update dig c d) (m @ d)" for c m d
    by (auto simp: md_repr_def update_eq count_mod_64 split: prod.split intro: md_loop_core)
  show "md_repr round iv c m \<Longrightarrow> hc_out dig c = md_hash round iv num m" for c m
    using num_le by (simp add: md_repr_def out_eq md_finish_core round_length)
  show "md_repr round iv c m \<Longrightarrow> length (ctx_buf c) = 64" for c m
    by (simp add: md_repr_def md_core_def)
  show "length (md_hash round iv num m) = br_digest_size dig" for m
    using num_le length_md_iterate [OF refl]
    by (simp add: md_hash_def sizes be32.seq_length)
  show "br_digest_size dig \<le> block_size dig"
    using num_le by (simp add: sizes)
  show "md_repr round iv (hc_set_state dig (hc_init dig c') (fst (hc_state dig c) @ r) (of_nat (length m))) m"
    if "md_repr round iv c m" "block_size dig dvd length m" "length (ctx_buf c') = 64" for c m c' r
  proof -
    have "md_core round iv (ctx_buf c) (ctx_val c) m" "64 dvd length m"
      using that by (simp_all add: md_repr_def sizes)
    moreover from this have "length (ctx_val c) = length iv"
      by (simp add: md_core_def length_md_iterate)
    ultimately show ?thesis
      using that(3)
      by (simp add: md_repr_def md_core_def set_state_eq state_eq init_eq)
  qed
qed

end
