(* ===== verification/Sha1.thy ===== *)
theory Sha1
  imports Hash_Class
begin

text \<open>
  SHA-1 (\<open>hash/sha1.c\<close>): the compression function with its loops unrolled by five, the streaming
  operations and the class structure.  The compression is proved equal to the one of FIPS 180-4,
  and the class meets the contract of \<open>Hash_Class\<close>.
\<close>

section \<open>Definitions\<close>

definition F :: "u32 \<Rightarrow> u32 \<Rightarrow> u32 \<Rightarrow> u32" where
  "F B C D = ((C XOR D) AND B) XOR D"

definition G :: "u32 \<Rightarrow> u32 \<Rightarrow> u32 \<Rightarrow> u32" where
  "G B C D = B XOR C XOR D"

definition H :: "u32 \<Rightarrow> u32 \<Rightarrow> u32 \<Rightarrow> u32" where
  "H B C D = (D AND C) OR ((D OR C) AND B)"

definition I :: "u32 \<Rightarrow> u32 \<Rightarrow> u32 \<Rightarrow> u32" where
  "I B C D = G B C D"

definition ROTL :: "u32 \<Rightarrow> nat \<Rightarrow> u32" where
  "ROTL x n = push_bit n x OR drop_bit (32 - n) x"

definition K1 :: u32 where "K1 = 0x5A827999"
definition K2 :: u32 where "K2 = 0x6ED9EBA1"
definition K3 :: u32 where "K3 = 0x8F1BBCDC"
definition K4 :: u32 where "K4 = 0xCA62C1D6"

definition br_sha1_IV :: "u32 list" where
  "br_sha1_IV = [0x67452301, 0xEFCDAB89, 0x98BADCFE, 0x10325476, 0xC3D2E1F0]"

text \<open>The message schedule: the loop over \<open>i\<close> fills \<open>m[i]\<close>, so it extends the list of the words
  computed so far.\<close>

definition sha1_schedule :: "bytes \<Rightarrow> u32 list" where
  "sha1_schedule buf =
    foldl (\<lambda>m i. let x = m ! (i - 3) XOR m ! (i - 8) XOR m ! (i - 14) XOR m ! (i - 16)
                 in m @ [ROTL x 1])
      (br_range_dec32be 16 buf) [16..<80]"

type_synonym sha1_regs = "u32 \<times> u32 \<times> u32 \<times> u32 \<times> u32"

text \<open>The body of the four loops, which differ by the boolean function and the constant.\<close>

definition sha1_five ::
  "(u32 \<Rightarrow> u32 \<Rightarrow> u32 \<Rightarrow> u32) \<Rightarrow> u32 \<Rightarrow> u32 list \<Rightarrow> sha1_regs \<Rightarrow> nat \<Rightarrow> sha1_regs" where
  "sha1_five f k m r i =
    (case r of (a, b, c, d, e) \<Rightarrow>
      let e = e + (ROTL a 5 + f b c d + k + m ! (i + 0)); b = ROTL b 30;
          d = d + (ROTL e 5 + f a b c + k + m ! (i + 1)); a = ROTL a 30;
          c = c + (ROTL d 5 + f e a b + k + m ! (i + 2)); e = ROTL e 30;
          b = b + (ROTL c 5 + f d e a + k + m ! (i + 3)); d = ROTL d 30;
          a = a + (ROTL b 5 + f c d e + k + m ! (i + 4)); c = ROTL c 30
      in (a, b, c, d, e))"

definition br_sha1_round :: "bytes \<Rightarrow> u32 list \<Rightarrow> u32 list" where
  "br_sha1_round buf val =
    (let m = sha1_schedule buf;
         r = (val ! 0, val ! 1, val ! 2, val ! 3, val ! 4);
         r = foldl (sha1_five F K1 m) r [0, 5, 10, 15];
         r = foldl (sha1_five G K2 m) r [20, 25, 30, 35];
         r = foldl (sha1_five H K3 m) r [40, 45, 50, 55];
         (a, b, c, d, e) = foldl (sha1_five I K4 m) r [60, 65, 70, 75]
     in [val ! 0 + a, val ! 1 + b, val ! 2 + c, val ! 3 + d, val ! 4 + e])"

definition br_sha1_init :: "md_context \<Rightarrow> md_context" where
  "br_sha1_init cc = cc\<lparr>ctx_val := br_sha1_IV, ctx_count := 0\<rparr>"

text \<open>The loop of \<open>br_sha1_update\<close>; as for \<^const>\<open>md_loop\<close>, \<open>ptr\<close> is below 64.\<close>

function sha1_update_loop :: "md_context \<Rightarrow> nat \<Rightarrow> bytes \<Rightarrow> md_context" where
  "sha1_update_loop cc ptr data =
    (if data = [] \<or> 64 \<le> ptr then cc
     else let clen = (if 64 - ptr > length data then length data else 64 - ptr);
              cc = cc\<lparr>ctx_buf := memcpy (ctx_buf cc) ptr (take clen data)\<rparr>;
              ptr = ptr + clen;
              data = drop clen data;
              cc = cc\<lparr>ctx_count := ctx_count cc + of_nat clen\<rparr>
          in if ptr = 64
             then sha1_update_loop (cc\<lparr>ctx_val := br_sha1_round (ctx_buf cc) (ctx_val cc)\<rparr>) 0 data
             else sha1_update_loop cc ptr data)"
  by pat_completeness auto
termination
  by (relation "measure (\<lambda>(c, p, d). length d)") (auto split: if_splits)

declare sha1_update_loop.simps [simp del]

definition br_sha1_update :: "md_context \<Rightarrow> bytes \<Rightarrow> md_context" where
  "br_sha1_update cc data = sha1_update_loop cc (unat (ctx_count cc AND 63)) data"

definition br_sha1_out :: "md_context \<Rightarrow> bytes" where
  "br_sha1_out cc =
    (let ptr = unat (ctx_count cc AND 63);
         buf = take ptr (ctx_buf cc);
         val = ctx_val cc;
         buf = buf @ [0x80];
         ptr = ptr + 1;
         (buf, val) =
           (if ptr > 56
            then let buf = buf @ replicate (64 - ptr) 0;
                     val = br_sha1_round buf val
                 in (replicate 56 0, val)
            else (buf @ replicate (56 - ptr) 0, val));
         buf = buf @ br_enc64be (push_bit 3 (ctx_count cc));
         val = br_sha1_round buf val
     in br_range_enc32be val 5)"

definition br_sha1_state :: "md_context \<Rightarrow> bytes \<times> u64" where
  "br_sha1_state cc = (br_range_enc32be (ctx_val cc) 5, ctx_count cc)"

definition br_sha1_set_state :: "md_context \<Rightarrow> bytes \<Rightarrow> u64 \<Rightarrow> md_context" where
  "br_sha1_set_state cc stb cnt =
    cc\<lparr>ctx_val := br_range_dec32be 5 stb, ctx_count := cnt\<rparr>"

definition br_sha1_vtable :: "md_context br_hash_class" where
  "br_sha1_vtable =
    \<lparr>context_size = 104,
     desc = BR_HASHDESC_ID 2 OR BR_HASHDESC_OUT 20 OR BR_HASHDESC_STATE 20
       OR BR_HASHDESC_LBLEN 6 OR BR_HASHDESC_MD_PADDING OR BR_HASHDESC_MD_PADDING_BE,
     hc_init = br_sha1_init, hc_update = br_sha1_update, hc_out = br_sha1_out,
     hc_state = br_sha1_state, hc_set_state = br_sha1_set_state\<rparr>"

section \<open>The compression function of FIPS 180-4\<close>

definition sha1_f :: "nat \<Rightarrow> u32 \<Rightarrow> u32 \<Rightarrow> u32 \<Rightarrow> u32" where
  "sha1_f t x y z =
    (if t < 20 then (x AND y) XOR (NOT x AND z)
     else if 40 \<le> t \<and> t < 60 then (x AND y) XOR (x AND z) XOR (y AND z)
     else x XOR y XOR z)"

definition sha1_k :: "nat \<Rightarrow> u32" where
  "sha1_k t = (if t < 20 then 0x5A827999 else if t < 40 then 0x6ED9EBA1
    else if t < 60 then 0x8F1BBCDC else 0xCA62C1D6)"

fun sha1_W :: "bytes \<Rightarrow> nat \<Rightarrow> u32" where
  "sha1_W b t =
    (if t < 16 then br_dec32be (drop (4 * t) b)
     else word_rotl 1 (sha1_W b (t - 3) XOR sha1_W b (t - 8) XOR sha1_W b (t - 14) XOR sha1_W b (t - 16)))"

declare sha1_W.simps [simp del]

definition sha1_step :: "bytes \<Rightarrow> sha1_regs \<Rightarrow> nat \<Rightarrow> sha1_regs" where
  "sha1_step b r t =
    (case r of (a, b', c, d, e) \<Rightarrow>
      (word_rotl 5 a + sha1_f t b' c d + e + sha1_k t + sha1_W b t, a, word_rotl 30 b', c, d))"

definition sha1_compress :: "bytes \<Rightarrow> u32 list \<Rightarrow> u32 list" where
  "sha1_compress b val =
    (case foldl (sha1_step b) (val ! 0, val ! 1, val ! 2, val ! 3, val ! 4) [0..<80] of
      (a, b, c, d, e) \<Rightarrow> [val ! 0 + a, val ! 1 + b, val ! 2 + c, val ! 3 + d, val ! 4 + e])"

section \<open>The code computes the standard's compression\<close>

lemma ROTL_rotl: "0 < n \<Longrightarrow> n < 32 \<Longrightarrow> ROTL x n = word_rotl n x"
  using shifts_rotl [of n x] by (simp add: ROTL_def)

lemma sha1_bool_funs:
  "F x y z = (x AND y) XOR (NOT x AND z)"
  "H x y z = (x AND y) XOR (x AND z) XOR (y AND z)"
  by (rule bit_word_eqI; auto simp: F_def H_def bit_simps)+

lemma sha1_schedule_prefix:
  assumes "16 \<le> n"
  shows "foldl (\<lambda>m i. let x = m ! (i - 3) XOR m ! (i - 8) XOR m ! (i - 14) XOR m ! (i - 16)
                 in m @ [ROTL x 1])
      (br_range_dec32be 16 buf) [16..<n] = map (sha1_W buf) [0..<n]"
  using assms
proof (induction n rule: nat_induct_at_least)
  case base
  show ?case
    by (rule nth_equalityI) (simp_all add: br_range_dec32be_nth sha1_W.simps)
next
  case (Suc n)
  then show ?case
    by (simp add: Let_def sha1_W.simps [of buf n] ROTL_rotl)
qed

lemma sha1_schedule_W: "sha1_schedule buf = map (sha1_W buf) [0..<80]"
  unfolding sha1_schedule_def by (rule sha1_schedule_prefix) simp

lemma sha1_five_steps:
  assumes "i + 4 < 80"
    and "\<And>t x y z. i \<le> t \<Longrightarrow> t < i + 5 \<Longrightarrow> sha1_f t x y z = f x y z"
    and "\<And>t. i \<le> t \<Longrightarrow> t < i + 5 \<Longrightarrow> sha1_k t = k"
  shows "sha1_five f k (map (sha1_W buf) [0..<80]) r i = foldl (sha1_step buf) r [i, i+1, i+2, i+3, i+4]"
  using assms
  by (simp add: sha1_five_def sha1_step_def Let_def ROTL_rotl ac_simps split: prod.split)


lemma sha1_twenty_steps:
  assumes "i + 19 < 80"
    and "\<And>t x y z. i \<le> t \<Longrightarrow> t < i + 20 \<Longrightarrow> sha1_f t x y z = f x y z"
    and "\<And>t. i \<le> t \<Longrightarrow> t < i + 20 \<Longrightarrow> sha1_k t = k"
  shows "foldl (sha1_five f k (map (sha1_W buf) [0..<80])) r [i, i + 5, i + 10, i + 15] =
    foldl (sha1_step buf) r [i..<i + 20]"
proof -
  have "[i..<i + 20] = [i, i+1, i+2, i+3, i+4] @ [i+5, i+5+1, i+5+2, i+5+3, i+5+4]
      @ [i+10, i+10+1, i+10+2, i+10+3, i+10+4] @ [i+15, i+15+1, i+15+2, i+15+3, i+15+4]"
    by (simp add: numeral_eq_Suc upt_rec)
  then show ?thesis
    using sha1_five_steps [of i f k buf] sha1_five_steps [of "i + 5" f k buf]
      sha1_five_steps [of "i + 10" f k buf] sha1_five_steps [of "i + 15" f k buf] assms
    by simp
qed

lemmas sha1_ref_defs = sha1_f_def sha1_k_def sha1_bool_funs G_def I_def K1_def K2_def K3_def K4_def

lemma br_sha1_round_compress: "br_sha1_round buf val = sha1_compress buf val"
proof -
  define M where "M = map (sha1_W buf) [0..<80]"
  have t1: "foldl (sha1_five F K1 M) r [0, 5, 10, 15] = foldl (sha1_step buf) r [0..<20]" for r
    using sha1_twenty_steps [of 0 F K1 buf r] by (simp add: sha1_ref_defs M_def)
  have t2: "foldl (sha1_five G K2 M) r [20, 25, 30, 35] = foldl (sha1_step buf) r [20..<40]" for r
    using sha1_twenty_steps [of 20 G K2 buf r] by (simp add: sha1_ref_defs M_def)
  have t3: "foldl (sha1_five H K3 M) r [40, 45, 50, 55] = foldl (sha1_step buf) r [40..<60]" for r
    using sha1_twenty_steps [of 40 H K3 buf r] by (simp add: sha1_ref_defs M_def)
  have t4: "foldl (sha1_five I K4 M) r [60, 65, 70, 75] = foldl (sha1_step buf) r [60..<80]" for r
    using sha1_twenty_steps [of 60 I K4 buf r] by (simp add: sha1_ref_defs M_def)
  have "[0..<80] = [0..<20] @ [20..<40] @ [40..<60] @ [60..<80]"
    using upt_add_eq_append [of 0 20 60] upt_add_eq_append [of 20 40 40]
      upt_add_eq_append [of 40 60 20] by simp
  then have "foldl (sha1_step buf) r [0..<80] = foldl (sha1_step buf) (foldl (sha1_step buf)
      (foldl (sha1_step buf) (foldl (sha1_step buf) r [0..<20]) [20..<40]) [40..<60]) [60..<80]" for r
    by simp
  moreover have "sha1_schedule buf = M" by (simp only: sha1_schedule_W M_def)
  ultimately show ?thesis
    by (simp only: br_sha1_round_def sha1_compress_def Let_def t1 t2 t3 t4)
qed

section \<open>The class meets the contract\<close>

lemma sha1_update_loop_md:
  "sha1_update_loop cc ptr data =
    (case md_loop br_sha1_round (ctx_buf cc) (ctx_val cc) ptr data of (b, v) \<Rightarrow>
      cc\<lparr>ctx_buf := b, ctx_count := ctx_count cc + of_nat (length data), ctx_val := v\<rparr>)"
  if "ptr < 64"
  using that
proof (induction cc ptr data rule: sha1_update_loop.induct)
  case (1 cc ptr data)
  show ?case
  proof (cases "data = []")
    case False
    define clen where "clen = (if 64 - ptr > length data then length data else 64 - ptr)"
    have "(of_nat (length data) :: u64) = of_nat clen + of_nat (length data - clen)"
      by (simp add: clen_def flip: of_nat_add)
    moreover have "ptr + clen \<noteq> 64 \<Longrightarrow> ptr + clen < 64"
      using 1(3) by (cases "64 - ptr > length data") (simp_all add: clen_def)
    ultimately show ?thesis
      using False 1(3) 1(1,2) [OF _ clen_def refl refl refl refl]
      by (subst sha1_update_loop.simps, subst md_loop.simps)
        (simp add: Let_def add.assoc split: prod.split flip: clen_def)
  qed (simp add: sha1_update_loop.simps md_loop.simps)
qed

lemma length_br_sha1_IV [simp, len_simps]: "length br_sha1_IV = 5"
  by (simp add: br_sha1_IV_def)

interpretation sha1: md_class br_sha1_vtable br_sha1_round br_sha1_IV 5
proof unfold_locales
  show "length (br_sha1_round b v) = length br_sha1_IV" for b v
    by (simp add: br_sha1_round_def Let_def split: prod.split)
  show "hc_update br_sha1_vtable cc d =
      (case md_loop br_sha1_round (ctx_buf cc) (ctx_val cc) (unat (ctx_count cc AND 63)) d of (b, v) \<Rightarrow>
        cc\<lparr>ctx_buf := b, ctx_count := ctx_count cc + of_nat (length d), ctx_val := v\<rparr>)" for cc d
    using count_mod_64 [of "unat (ctx_count cc)"]
    by (simp add: br_sha1_vtable_def br_sha1_update_def sha1_update_loop_md)
  show "hc_out br_sha1_vtable cc = md_finish br_sha1_round 5 (ctx_buf cc) (ctx_count cc) (ctx_val cc)" for cc
    by (simp add: br_sha1_vtable_def br_sha1_out_def md_finish_def Let_def)
qed (simp_all add: br_sha1_vtable_def br_sha1_init_def br_sha1_state_def br_sha1_set_state_def
    hashdesc_defs block_size_def br_digest_size_def)

section \<open>Properties\<close>

text \<open>(C26) SHA-1 as streamed by \<open>br_sha1_init\<close>, any number of \<open>br_sha1_update\<close> calls and
  \<open>br_sha1_out\<close> is the FIPS 180-4 hash of the concatenated input, whatever the split and whatever
  the context held before.\<close>

theorem sha1_streaming:
  assumes "length (ctx_buf cc) = 64"
  shows "br_sha1_out (foldl br_sha1_update (br_sha1_init cc) ds) =
    md_hash sha1_compress br_sha1_IV 5 (concat ds)"
proof -
  have ops: "hc_init br_sha1_vtable = br_sha1_init" "hc_update br_sha1_vtable = br_sha1_update"
    "hc_out br_sha1_vtable = br_sha1_out" by (simp_all add: br_sha1_vtable_def)
  have "br_sha1_round = sha1_compress" by (intro ext) (rule br_sha1_round_compress)
  then show ?thesis using sha1.hash_stream [OF assms, of ds] by (simp add: ops)
qed

theorem sha1_streaming_witness:
  "br_sha1_out (foldl br_sha1_update
      (br_sha1_init \<lparr>ctx_buf = replicate 64 7, ctx_count = 9, ctx_val = []\<rparr>) [[1, 2], [], [3]]) =
    md_hash sha1_compress br_sha1_IV 5 [1, 2, 3]"
  using sha1_streaming [of "\<lparr>ctx_buf = replicate 64 7, ctx_count = 9, ctx_val = []\<rparr>" "[[1, 2], [], [3]]"]
  by simp

end
