(* ===== verification/Sha2.thy ===== *)
theory Sha2
  imports Hash_Class
begin

text \<open>
  SHA-224 and SHA-256 (\<open>hash/sha2small.c\<close>): the compression function with its loop unrolled by
  eight, the streaming operations and the two class structures.  The compression is proved
  equal to the one of FIPS 180-4, and both classes meet the contract of \<open>Hash_Class\<close>.
\<close>

section \<open>Definitions\<close>

definition CH :: "u32 \<Rightarrow> u32 \<Rightarrow> u32 \<Rightarrow> u32" where
  "CH X Y Z = ((Y XOR Z) AND X) XOR Z"

definition MAJ :: "u32 \<Rightarrow> u32 \<Rightarrow> u32 \<Rightarrow> u32" where
  "MAJ X Y Z = (Y AND Z) OR ((Y OR Z) AND X)"

definition ROTR :: "u32 \<Rightarrow> nat \<Rightarrow> u32" where
  "ROTR x n = push_bit (32 - n) x OR drop_bit n x"

definition BSG2_0 :: "u32 \<Rightarrow> u32" where
  "BSG2_0 x = ROTR x 2 XOR ROTR x 13 XOR ROTR x 22"

definition BSG2_1 :: "u32 \<Rightarrow> u32" where
  "BSG2_1 x = ROTR x 6 XOR ROTR x 11 XOR ROTR x 25"

definition SSG2_0 :: "u32 \<Rightarrow> u32" where
  "SSG2_0 x = ROTR x 7 XOR ROTR x 18 XOR drop_bit 3 x"

definition SSG2_1 :: "u32 \<Rightarrow> u32" where
  "SSG2_1 x = ROTR x 17 XOR ROTR x 19 XOR drop_bit 10 x"

definition br_sha224_IV :: "u32 list" where
  "br_sha224_IV =
    [0xC1059ED8, 0x367CD507, 0x3070DD17, 0xF70E5939,
     0xFFC00B31, 0x68581511, 0x64F98FA7, 0xBEFA4FA4]"

definition br_sha256_IV :: "u32 list" where
  "br_sha256_IV =
    [0x6A09E667, 0xBB67AE85, 0x3C6EF372, 0xA54FF53A,
     0x510E527F, 0x9B05688C, 0x1F83D9AB, 0x5BE0CD19]"

definition K :: "u32 list" where
  "K = [
      0x428A2F98, 0x71374491, 0xB5C0FBCF, 0xE9B5DBA5,
      0x3956C25B, 0x59F111F1, 0x923F82A4, 0xAB1C5ED5,
      0xD807AA98, 0x12835B01, 0x243185BE, 0x550C7DC3,
      0x72BE5D74, 0x80DEB1FE, 0x9BDC06A7, 0xC19BF174,
      0xE49B69C1, 0xEFBE4786, 0x0FC19DC6, 0x240CA1CC,
      0x2DE92C6F, 0x4A7484AA, 0x5CB0A9DC, 0x76F988DA,
      0x983E5152, 0xA831C66D, 0xB00327C8, 0xBF597FC7,
      0xC6E00BF3, 0xD5A79147, 0x06CA6351, 0x14292967,
      0x27B70A85, 0x2E1B2138, 0x4D2C6DFC, 0x53380D13,
      0x650A7354, 0x766A0ABB, 0x81C2C92E, 0x92722C85,
      0xA2BFE8A1, 0xA81A664B, 0xC24B8B70, 0xC76C51A3,
      0xD192E819, 0xD6990624, 0xF40E3585, 0x106AA070,
      0x19A4C116, 0x1E376C08, 0x2748774C, 0x34B0BCB5,
      0x391C0CB3, 0x4ED8AA4A, 0x5B9CCA4F, 0x682E6FF3,
      0x748F82EE, 0x78A5636F, 0x84C87814, 0x8CC70208,
      0x90BEFFFA, 0xA4506CEB, 0xBEF9A3F7, 0xC67178F2]"

definition sha2_schedule :: "bytes \<Rightarrow> u32 list" where
  "sha2_schedule buf =
    foldl (\<lambda>w i. w @ [SSG2_1 (w ! (i - 2)) + w ! (i - 7) + SSG2_0 (w ! (i - 15)) + w ! (i - 16)])
      (br_range_dec32be 16 buf) [16..<64]"

text \<open>The macro \<open>SHA2_STEP\<close> reads eight registers and assigns the fourth and the eighth.\<close>

definition SHA2_STEP ::
  "u32 list \<Rightarrow> nat \<Rightarrow> u32 \<Rightarrow> u32 \<Rightarrow> u32 \<Rightarrow> u32 \<Rightarrow> u32 \<Rightarrow> u32 \<Rightarrow> u32 \<Rightarrow> u32 \<Rightarrow> u32 \<times> u32" where
  "SHA2_STEP w j A B C D E F G H =
    (let T1 = H + BSG2_1 E + CH E F G + K ! j + w ! j;
         T2 = BSG2_0 A + MAJ A B C
     in (D + T1, T1 + T2))"

type_synonym sha2_regs = "u32 \<times> u32 \<times> u32 \<times> u32 \<times> u32 \<times> u32 \<times> u32 \<times> u32"

text \<open>The body of the loop over \<open>i\<close>: eight steps with the registers renamed.\<close>

definition sha2_eight :: "u32 list \<Rightarrow> sha2_regs \<Rightarrow> nat \<Rightarrow> sha2_regs" where
  "sha2_eight w r i =
    (case r of (a, b, c, d, e, f, g, h) \<Rightarrow>
      let (d, h) = SHA2_STEP w (i + 0) a b c d e f g h;
          (c, g) = SHA2_STEP w (i + 1) h a b c d e f g;
          (b, f) = SHA2_STEP w (i + 2) g h a b c d e f;
          (a, e) = SHA2_STEP w (i + 3) f g h a b c d e;
          (h, d) = SHA2_STEP w (i + 4) e f g h a b c d;
          (g, c) = SHA2_STEP w (i + 5) d e f g h a b c;
          (f, b) = SHA2_STEP w (i + 6) c d e f g h a b;
          (e, a) = SHA2_STEP w (i + 7) b c d e f g h a
      in (a, b, c, d, e, f, g, h))"

definition br_sha2small_round :: "bytes \<Rightarrow> u32 list \<Rightarrow> u32 list" where
  "br_sha2small_round buf val =
    (let w = sha2_schedule buf;
         r = (val ! 0, val ! 1, val ! 2, val ! 3, val ! 4, val ! 5, val ! 6, val ! 7);
         (a, b, c, d, e, f, g, h) = foldl (sha2_eight w) r [0, 8, 16, 24, 32, 40, 48, 56]
     in [val ! 0 + a, val ! 1 + b, val ! 2 + c, val ! 3 + d,
         val ! 4 + e, val ! 5 + f, val ! 6 + g, val ! 7 + h])"

text \<open>The loop of \<open>sha2small_update\<close>; as for \<^const>\<open>md_loop\<close>, \<open>ptr\<close> is below 64.\<close>

function sha2small_loop :: "md_context \<Rightarrow> nat \<Rightarrow> bytes \<Rightarrow> md_context" where
  "sha2small_loop cc ptr data =
    (if data = [] \<or> 64 \<le> ptr then cc
     else let clen = (if 64 - ptr > length data then length data else 64 - ptr);
              cc = cc\<lparr>ctx_buf := memcpy (ctx_buf cc) ptr (take clen data)\<rparr>;
              ptr = ptr + clen;
              data = drop clen data
          in if ptr = 64
             then sha2small_loop (cc\<lparr>ctx_val := br_sha2small_round (ctx_buf cc) (ctx_val cc)\<rparr>) 0 data
             else sha2small_loop cc ptr data)"
  by pat_completeness auto
termination
  by (relation "measure (\<lambda>(c, p, d). length d)") (auto split: if_splits)

declare sha2small_loop.simps [simp del]

definition sha2small_update :: "md_context \<Rightarrow> bytes \<Rightarrow> md_context" where
  "sha2small_update cc data =
    (let ptr = unat (ctx_count cc AND 63);
         cc = cc\<lparr>ctx_count := ctx_count cc + of_nat (length data)\<rparr>
     in sha2small_loop cc ptr data)"

definition sha2small_out :: "md_context \<Rightarrow> nat \<Rightarrow> bytes" where
  "sha2small_out cc num =
    (let ptr = unat (ctx_count cc AND 63);
         buf = take ptr (ctx_buf cc);
         val = ctx_val cc;
         buf = buf @ [0x80];
         ptr = ptr + 1;
         (buf, val) =
           (if ptr > 56
            then let buf = buf @ replicate (64 - ptr) 0;
                     val = br_sha2small_round buf val
                 in (replicate 56 0, val)
            else (buf @ replicate (56 - ptr) 0, val));
         buf = buf @ br_enc64be (push_bit 3 (ctx_count cc));
         val = br_sha2small_round buf val
     in br_range_enc32be val num)"

definition br_sha224_init :: "md_context \<Rightarrow> md_context" where
  "br_sha224_init cc = cc\<lparr>ctx_val := br_sha224_IV, ctx_count := 0\<rparr>"

definition br_sha224_update :: "md_context \<Rightarrow> bytes \<Rightarrow> md_context" where
  "br_sha224_update cc data = sha2small_update cc data"

definition br_sha224_out :: "md_context \<Rightarrow> bytes" where
  "br_sha224_out cc = sha2small_out cc 7"

definition br_sha224_state :: "md_context \<Rightarrow> bytes \<times> u64" where
  "br_sha224_state cc = (br_range_enc32be (ctx_val cc) 8, ctx_count cc)"

definition br_sha224_set_state :: "md_context \<Rightarrow> bytes \<Rightarrow> u64 \<Rightarrow> md_context" where
  "br_sha224_set_state cc stb cnt =
    cc\<lparr>ctx_val := br_range_dec32be 8 stb, ctx_count := cnt\<rparr>"

definition br_sha256_init :: "md_context \<Rightarrow> md_context" where
  "br_sha256_init cc = cc\<lparr>ctx_val := br_sha256_IV, ctx_count := 0\<rparr>"

definition br_sha256_out :: "md_context \<Rightarrow> bytes" where
  "br_sha256_out cc = sha2small_out cc 8"

text \<open>\<open>br_sha256_update\<close>, \<open>br_sha256_state\<close> and \<open>br_sha256_set_state\<close> are macros for the SHA-224
  functions.\<close>

definition br_sha224_vtable :: "md_context br_hash_class" where
  "br_sha224_vtable =
    \<lparr>context_size = 112,
     desc = BR_HASHDESC_ID 3 OR BR_HASHDESC_OUT 28 OR BR_HASHDESC_STATE 32
       OR BR_HASHDESC_LBLEN 6 OR BR_HASHDESC_MD_PADDING OR BR_HASHDESC_MD_PADDING_BE,
     hc_init = br_sha224_init, hc_update = br_sha224_update, hc_out = br_sha224_out,
     hc_state = br_sha224_state, hc_set_state = br_sha224_set_state\<rparr>"

definition br_sha256_vtable :: "md_context br_hash_class" where
  "br_sha256_vtable =
    \<lparr>context_size = 112,
     desc = BR_HASHDESC_ID 4 OR BR_HASHDESC_OUT 32 OR BR_HASHDESC_STATE 32
       OR BR_HASHDESC_LBLEN 6 OR BR_HASHDESC_MD_PADDING OR BR_HASHDESC_MD_PADDING_BE,
     hc_init = br_sha256_init, hc_update = br_sha224_update, hc_out = br_sha256_out,
     hc_state = br_sha224_state, hc_set_state = br_sha224_set_state\<rparr>"

section \<open>The compression function of FIPS 180-4\<close>

fun sha2_W :: "bytes \<Rightarrow> nat \<Rightarrow> u32" where
  "sha2_W b t =
    (if t < 16 then br_dec32be (drop (4 * t) b)
     else (let x = sha2_W b (t - 2); y = sha2_W b (t - 15) in
       (word_rotr 17 x XOR word_rotr 19 x XOR drop_bit 10 x) + sha2_W b (t - 7)
       + (word_rotr 7 y XOR word_rotr 18 y XOR drop_bit 3 y) + sha2_W b (t - 16)))"

declare sha2_W.simps [simp del]

definition sha2_step :: "bytes \<Rightarrow> sha2_regs \<Rightarrow> nat \<Rightarrow> sha2_regs" where
  "sha2_step blk r t =
    (case r of (a, b, c, d, e, f, g, h) \<Rightarrow>
      let T1 = h + (word_rotr 6 e XOR word_rotr 11 e XOR word_rotr 25 e)
            + ((e AND f) XOR (NOT e AND g)) + K ! t + sha2_W blk t;
          T2 = (word_rotr 2 a XOR word_rotr 13 a XOR word_rotr 22 a)
            + ((a AND b) XOR (a AND c) XOR (b AND c))
      in (T1 + T2, a, b, c, d + T1, e, f, g))"

definition sha2_compress :: "bytes \<Rightarrow> u32 list \<Rightarrow> u32 list" where
  "sha2_compress blk val =
    (case foldl (sha2_step blk)
        (val ! 0, val ! 1, val ! 2, val ! 3, val ! 4, val ! 5, val ! 6, val ! 7) [0..<64] of
      (a, b, c, d, e, f, g, h) \<Rightarrow>
        [val ! 0 + a, val ! 1 + b, val ! 2 + c, val ! 3 + d,
         val ! 4 + e, val ! 5 + f, val ! 6 + g, val ! 7 + h])"

section \<open>The code computes the standard's compression\<close>

lemma ROTR_rotr: "0 < n \<Longrightarrow> n < 32 \<Longrightarrow> ROTR x n = word_rotr n x"
  using shifts_rotr [of n x] by (simp add: ROTR_def)

lemma sha2_bool_funs:
  "CH x y z = (x AND y) XOR (NOT x AND z)"
  "MAJ x y z = (x AND y) XOR (x AND z) XOR (y AND z)"
  by (rule bit_word_eqI; auto simp: CH_def MAJ_def bit_simps)+

lemma sha2_schedule_prefix:
  assumes "16 \<le> n"
  shows "foldl (\<lambda>w i. w @ [SSG2_1 (w ! (i - 2)) + w ! (i - 7) + SSG2_0 (w ! (i - 15)) + w ! (i - 16)])
      (br_range_dec32be 16 buf) [16..<n] = map (sha2_W buf) [0..<n]"
  using assms
proof (induction n rule: nat_induct_at_least)
  case base
  show ?case
    by (rule nth_equalityI) (simp_all add: br_range_dec32be_nth sha2_W.simps)
next
  case (Suc n)
  then show ?case
    by (simp add: Let_def sha2_W.simps [of buf n] SSG2_0_def SSG2_1_def ROTR_rotr)
qed

lemma sha2_schedule_W: "sha2_schedule buf = map (sha2_W buf) [0..<64]"
  unfolding sha2_schedule_def by (rule sha2_schedule_prefix) simp

lemma SHA2_STEP_step:
  "j < 64 \<Longrightarrow> SHA2_STEP (map (sha2_W blk) [0..<64]) j a b c d e f g h = (d', h')
    \<Longrightarrow> sha2_step blk (a, b, c, d, e, f, g, h) j = (h', a, b, c, d', e, f, g)"
  by (auto simp: SHA2_STEP_def sha2_step_def Let_def BSG2_0_def BSG2_1_def ROTR_rotr sha2_bool_funs)

lemma sha2_eight_steps:
  assumes "i + 7 < 64"
  shows "sha2_eight (map (sha2_W blk) [0..<64]) r i =
    foldl (sha2_step blk) r [i, i+1, i+2, i+3, i+4, i+5, i+6, i+7]"
  using assms unfolding sha2_eight_def
  by (auto simp: SHA2_STEP_step simp del: upt_Suc split: prod.splits)

lemma br_sha2small_round_compress: "br_sha2small_round buf val = sha2_compress buf val"
proof -
  define M where "M = map (sha2_W buf) [0..<64]"
  have e: "sha2_eight M r i = foldl (sha2_step buf) r [i, i+1, i+2, i+3, i+4, i+5, i+6, i+7]"
    if "i + 7 < 64" for r i
    unfolding M_def using that by (rule sha2_eight_steps)
  have "foldl (sha2_eight M) r [0, 8, 16, 24, 32, 40, 48, 56] = foldl (sha2_step buf) r [0..<64]" for r
  proof -
    have "[0..<64] = concat (map (\<lambda>i. [i, i+1, i+2, i+3, i+4, i+5, i+6, i+7]) [0, 8, 16, 24, 32, 40, 48, 56])"
      by (simp add: upt_bits)
    moreover have "foldl (sha2_eight M) r [0, 8, 16, 24, 32, 40, 48, 56] = foldl (sha2_step buf) r
        (concat (map (\<lambda>i. [i, i+1, i+2, i+3, i+4, i+5, i+6, i+7]) [0, 8, 16, 24, 32, 40, 48, 56]))"
      by (rule foldl_blocks, rule e) auto
    ultimately show ?thesis by simp
  qed
  moreover have "sha2_schedule buf = M" by (simp only: sha2_schedule_W M_def)
  ultimately show ?thesis
    by (simp only: br_sha2small_round_def sha2_compress_def Let_def)
qed

section \<open>The classes meet the contract\<close>

lemma sha2small_loop_md:
  "sha2small_loop cc ptr data =
    (case md_loop br_sha2small_round (ctx_buf cc) (ctx_val cc) ptr data of (b, v) \<Rightarrow>
      cc\<lparr>ctx_buf := b, ctx_val := v\<rparr>)"
proof (induction cc ptr data rule: sha2small_loop.induct)
  case (1 cc ptr data)
  show ?case
  proof (cases "data = [] \<or> 64 \<le> ptr")
    case False
    show ?thesis
      using False 1 [OF False refl refl refl refl]
      by (subst sha2small_loop.simps, subst md_loop.simps)
        (simp add: Let_def split: prod.split)
  qed (simp add: sha2small_loop.simps md_loop.simps)
qed

lemma length_sha2_IV [simp, len_simps]: "length br_sha224_IV = 8" "length br_sha256_IV = 8"
  by (simp_all add: br_sha224_IV_def br_sha256_IV_def)

lemma length_br_sha2small_round [simp, len_simps]: "length (br_sha2small_round b v) = 8"
  by (simp add: br_sha2small_round_def Let_def split: prod.split)

lemma sha2small_update_md:
  "sha2small_update cc d =
    (case md_loop br_sha2small_round (ctx_buf cc) (ctx_val cc) (unat (ctx_count cc AND 63)) d of (b, v) \<Rightarrow>
      cc\<lparr>ctx_buf := b, ctx_count := ctx_count cc + of_nat (length d), ctx_val := v\<rparr>)"
  by (simp add: sha2small_update_def sha2small_loop_md Let_def split: prod.split)

lemma sha2small_out_md:
  "sha2small_out cc num = md_finish br_sha2small_round num (ctx_buf cc) (ctx_count cc) (ctx_val cc)"
  by (simp add: sha2small_out_def md_finish_def Let_def)

lemmas sha2_class_defs =
  br_sha224_vtable_def br_sha256_vtable_def br_sha224_init_def br_sha256_init_def
  br_sha224_update_def br_sha224_out_def br_sha256_out_def br_sha224_state_def
  br_sha224_set_state_def hashdesc_defs block_size_def br_digest_size_def

interpretation sha224: md_class br_sha224_vtable br_sha2small_round br_sha224_IV 7
  by unfold_locales (simp_all add: sha2_class_defs sha2small_update_md sha2small_out_md)

interpretation sha256: md_class br_sha256_vtable br_sha2small_round br_sha256_IV 8
  by unfold_locales (simp_all add: sha2_class_defs sha2small_update_md sha2small_out_md)

section \<open>Properties\<close>

text \<open>(C25) SHA-256 as streamed by \<open>br_sha256_init\<close>, any number of update calls and
  \<open>br_sha256_out\<close> is the FIPS 180-4 hash of the concatenated input, whatever the split of the
  input into updates and whatever the context held before initialisation.\<close>

theorem sha256_streaming:
  assumes "length (ctx_buf cc) = 64"
  shows "br_sha256_out (foldl br_sha224_update (br_sha256_init cc) ds) =
    md_hash sha2_compress br_sha256_IV 8 (concat ds)"
proof -
  have ops: "hc_init br_sha256_vtable = br_sha256_init" "hc_update br_sha256_vtable = br_sha224_update"
    "hc_out br_sha256_vtable = br_sha256_out" by (simp_all add: br_sha256_vtable_def)
  have "br_sha2small_round = sha2_compress" by (intro ext) (rule br_sha2small_round_compress)
  then show ?thesis using sha256.hash_stream [OF assms, of ds] by (simp add: ops)
qed

theorem sha256_streaming_witness:
  "br_sha256_out (foldl br_sha224_update
      (br_sha256_init \<lparr>ctx_buf = replicate 64 7, ctx_count = 9, ctx_val = []\<rparr>) [[1, 2], [], [3]]) =
    md_hash sha2_compress br_sha256_IV 8 [1, 2, 3]"
  using sha256_streaming [of "\<lparr>ctx_buf = replicate 64 7, ctx_count = 9, ctx_val = []\<rparr>" "[[1, 2], [], [3]]"]
  by simp

text \<open>The state of SHA-224 or SHA-256 exported at a block boundary and restored into another
  context continues the computation: hashing any further data gives the hash of the whole
  message.\<close>

lemma sha256_state_restore:
  assumes "length (ctx_buf cc) = 64" "length (ctx_buf cc') = 64" "64 dvd length m"
  shows "br_sha256_out (br_sha224_update (br_sha224_set_state (br_sha256_init cc')
      (fst (br_sha224_state (br_sha224_update (br_sha256_init cc) m)))
      (snd (br_sha224_state (br_sha224_update (br_sha256_init cc) m)))) d) =
    md_hash sha2_compress br_sha256_IV 8 (m @ d)"
proof -
  have ops: "hc_init br_sha256_vtable = br_sha256_init" "hc_update br_sha256_vtable = br_sha224_update"
    "hc_out br_sha256_vtable = br_sha256_out" "hc_state br_sha256_vtable = br_sha224_state"
    "hc_set_state br_sha256_vtable = br_sha224_set_state"
    by (simp_all add: br_sha256_vtable_def)
  have r: "md_repr br_sha2small_round br_sha256_IV (br_sha224_update (br_sha256_init cc) m) m"
    using sha256.update_repr [OF sha256.init_repr [OF assms(1)], of m] by (simp add: ops)
  then have n: "snd (br_sha224_state (br_sha224_update (br_sha256_init cc) m)) = of_nat (length m)"
    by (simp add: md_repr_def br_sha224_state_def)
  have "br_sha2small_round = sha2_compress" by (intro ext) (rule br_sha2small_round_compress)
  then show ?thesis
    using sha256.out_repr [OF sha256.update_repr [OF sha256.restore_repr [OF r _ assms(2), of "[]"], of d]]
      assms(3) by (simp add: ops n sha256.sizes)
qed

end
