(* ===== verification/Hmac.thy ===== *)
theory Hmac
  imports Sha1 Sha2
begin

text \<open>
  HMAC (\<open>mac/hmac.c\<close>) over any hash class: key processing, which stores the two chaining states
  reached after the padded key blocks, then initialisation from such a key, update and output.
  The composition is proved to be the HMAC of RFC 2104 for every class that meets the contract
  of \<open>Hash_Class\<close>, in particular SHA-1, SHA-224 and SHA-256.  Contexts that the C code
  leaves uninitialised on its stack are arguments named \<open>hc\<close>.
\<close>

section \<open>Definitions\<close>

record 'c br_hmac_key_context =
  dig_vtable :: "'c br_hash_class"
  ksi :: bytes
  kso :: bytes

record 'c br_hmac_context =
  hmac_vtable :: "'c br_hash_class"
  hmac_dig :: 'c
  hmac_kso :: bytes
  hmac_out_len :: nat

definition process_key ::
  "'c br_hash_class \<Rightarrow> 'c \<Rightarrow> bytes \<Rightarrow> bytes \<Rightarrow> u8 \<Rightarrow> 'c \<times> bytes" where
  "process_key dig hc ks key bb =
    (let blen = block_size dig;
         tmp = map (\<lambda>b. b XOR bb) key @ replicate (blen - length key) bb;
         hc = hc_init dig hc;
         hc = hc_update dig hc tmp
     in (hc, memcpy ks 0 (fst (hc_state dig hc))))"

definition br_hmac_key_init ::
  "'c br_hmac_key_context \<Rightarrow> 'c br_hash_class \<Rightarrow> bytes \<Rightarrow> 'c \<Rightarrow> 'c br_hmac_key_context" where
  "br_hmac_key_init kc dig key hc =
    (let kc = kc\<lparr>dig_vtable := dig\<rparr>;
         (hc, key) =
           (if length key > block_size dig
            then let hc = hc_update dig (hc_init dig hc) key
                 in (hc, take (br_digest_size dig) (hc_out dig hc))
            else (hc, key));
         (hc, ki) = process_key dig hc (ksi kc) key 0x36;
         (hc, ko) = process_key dig hc (kso kc) key 0x5C
     in kc\<lparr>ksi := ki, kso := ko\<rparr>)"

definition br_hmac_init ::
  "'c br_hmac_context \<Rightarrow> 'c br_hmac_key_context \<Rightarrow> nat \<Rightarrow> 'c br_hmac_context" where
  "br_hmac_init ctx kc out_len =
    (let dig = dig_vtable kc;
         blen = block_size dig;
         d = hc_init dig (hmac_dig ctx);
         d = hc_set_state dig d (ksi kc) (of_nat blen);
         hlen = br_digest_size dig;
         hlen = (if out_len > 0 \<and> out_len < hlen then out_len else hlen)
     in ctx\<lparr>hmac_vtable := dig, hmac_dig := d, hmac_kso := kso kc, hmac_out_len := hlen\<rparr>)"

definition br_hmac_key_get_digest :: "'c br_hmac_key_context \<Rightarrow> 'c br_hash_class" where
  "br_hmac_key_get_digest kc = dig_vtable kc"

definition br_hmac_size :: "'c br_hmac_context \<Rightarrow> nat" where
  "br_hmac_size ctx = hmac_out_len ctx"

definition br_hmac_update :: "'c br_hmac_context \<Rightarrow> bytes \<Rightarrow> 'c br_hmac_context" where
  "br_hmac_update ctx data =
    ctx\<lparr>hmac_dig := hc_update (hmac_vtable ctx) (hmac_dig ctx) data\<rparr>"

definition br_hmac_out :: "'c br_hmac_context \<Rightarrow> 'c \<Rightarrow> bytes" where
  "br_hmac_out ctx hc =
    (let dig = hmac_vtable ctx;
         tmp = hc_out dig (hmac_dig ctx);
         blen = block_size dig;
         hc = hc_init dig hc;
         hc = hc_set_state dig hc (hmac_kso ctx) (of_nat blen);
         hlen = br_digest_size dig;
         hc = hc_update dig hc (take hlen tmp);
         tmp = hc_out dig hc
     in take (hmac_out_len ctx) tmp)"

section \<open>The HMAC of RFC 2104\<close>

definition hmac_key0 :: "(bytes \<Rightarrow> bytes) \<Rightarrow> nat \<Rightarrow> bytes \<Rightarrow> bytes" where
  "hmac_key0 Hf B key =
    (let k = (if length key > B then Hf key else key) in k @ replicate (B - length k) 0)"

definition hmac_spec :: "(bytes \<Rightarrow> bytes) \<Rightarrow> nat \<Rightarrow> bytes \<Rightarrow> bytes \<Rightarrow> bytes" where
  "hmac_spec Hf B key m =
    (let k0 = hmac_key0 Hf B key
     in Hf (map (\<lambda>b. b XOR 0x5C) k0 @ Hf (map (\<lambda>b. b XOR 0x36) k0 @ m)))"

section \<open>Correctness over the contract\<close>

context hash_class
begin

definition key_block :: "bytes \<Rightarrow> u8 \<Rightarrow> bytes" where
  "key_block key bb = map (\<lambda>b. b XOR bb) (hmac_key0 H (block_size dig) key)"

lemma length_key_block: "length (key_block key bb) = block_size dig"
  using digest_le_block by (auto simp: key_block_def hmac_key0_def Let_def length_H)

text \<open>A chaining state exported into a key buffer: it is the state of a context that absorbed
  the block.\<close>

definition holds_state :: "bytes \<Rightarrow> bytes \<Rightarrow> bool" where
  "holds_state ks m \<longleftrightarrow> (\<exists>c r. repr c m \<and> ks = fst (hc_state dig c) @ r)"

lemma process_key_state:
  assumes "wf hc" "length key \<le> block_size dig" "process_key dig hc ks key bb = (hc', ks')"
  shows "holds_state ks' (map (\<lambda>b. b XOR bb) (key @ replicate (block_size dig - length key) 0))"
    and "wf hc'"
proof -
  define m where "m = map (\<lambda>b. b XOR bb) key @ replicate (block_size dig - length key) bb"
  have m: "m = map (\<lambda>b. b XOR bb) (key @ replicate (block_size dig - length key) 0)"
    by (simp add: m_def)
  have c: "hc' = hc_update dig (hc_init dig hc) m" "ks' = memcpy ks 0 (fst (hc_state dig hc'))"
    using assms(3) by (auto simp: process_key_def Let_def m_def)
  then have "repr hc' m" using update_repr [OF init_repr [OF assms(1)], of m] by simp
  then show "holds_state ks' (map (\<lambda>b. b XOR bb) (key @ replicate (block_size dig - length key) 0))"
    and "wf hc'"
    using c repr_wf m by (auto simp: holds_state_def memcpy_0)
qed

lemma key_init_states:
  fixes kc :: "'c br_hmac_key_context" and key :: bytes
  assumes "wf hc"
  defines "kc' \<equiv> br_hmac_key_init kc dig key hc"
  shows "holds_state (ksi kc') (key_block key 0x36)" "holds_state (kso kc') (key_block key 0x5C)"
    and "dig_vtable kc' = dig"
proof -
  define k where "k = (if length key > block_size dig then H key else key)"
  define hc1 where "hc1 = (if length key > block_size dig
    then hc_update dig (hc_init dig hc) key else hc)"
  have k: "length k \<le> block_size dig"
    using digest_le_block by (simp add: k_def length_H)
  have blk: "key_block key bb = map (\<lambda>b. b XOR bb) (k @ replicate (block_size dig - length k) 0)" for bb
    by (simp add: key_block_def hmac_key0_def k_def Let_def)
  have wf1: "wf hc1"
    using assms(1) repr_wf [OF update_repr [OF init_repr [OF assms(1)]]] by (simp add: hc1_def)
  obtain hc2 ki where p1: "process_key dig hc1 (ksi kc) k 0x36 = (hc2, ki)" by fastforce
  obtain hc3 ko where p2: "process_key dig hc2 (kso kc) k 0x5C = (hc3, ko)" by fastforce
  have kc': "kc' = kc\<lparr>dig_vtable := dig, ksi := ki, kso := ko\<rparr>"
    using p1 p2 hash_once [OF assms(1), of key] length_H [of key]
    by (simp add: kc'_def br_hmac_key_init_def k_def hc1_def Let_def split: if_splits)
  note s1 = process_key_state [OF wf1 k p1]
  note s2 = process_key_state [OF s1(2) k p2]
  show "holds_state (ksi kc') (key_block key 0x36)" "holds_state (kso kc') (key_block key 0x5C)"
    "dig_vtable kc' = dig"
    using s1 s2 by (simp_all add: kc' blk)
qed

definition hmac_repr :: "'c br_hmac_context \<Rightarrow> bytes \<Rightarrow> nat \<Rightarrow> bytes \<Rightarrow> bool" where
  "hmac_repr ctx key n m \<longleftrightarrow> hmac_vtable ctx = dig \<and> repr (hmac_dig ctx) (key_block key 0x36 @ m)
    \<and> holds_state (hmac_kso ctx) (key_block key 0x5C)
    \<and> hmac_out_len ctx = (if n = 0 then br_digest_size dig else min n (br_digest_size dig))"

lemma restore_state:
  assumes "holds_state ks m" "length m = block_size dig" "wf c"
  shows "repr (hc_set_state dig (hc_init dig c) ks (of_nat (block_size dig))) m"
  using assms restore_repr [of _ m c] by (auto simp: holds_state_def)

lemma hmac_init_repr:
  assumes "wf hc" "wf (hmac_dig ctx)"
  shows "hmac_repr (br_hmac_init ctx (br_hmac_key_init kc dig key hc) n) key n []"
  using key_init_states [OF assms(1), of kc key] assms(2)
  by (auto simp: hmac_repr_def br_hmac_init_def Let_def restore_state length_key_block)

lemma hmac_update_repr:
  "hmac_repr ctx key n m \<Longrightarrow> hmac_repr (br_hmac_update ctx d) key n (m @ d)"
  using update_repr [of "hmac_dig ctx" "key_block key 0x36 @ m" d]
  by (simp add: hmac_repr_def br_hmac_update_def)

lemma hmac_out_repr:
  assumes "hmac_repr ctx key n m" "wf hc"
  shows "br_hmac_out ctx hc =
    take (if n = 0 then br_digest_size dig else n) (hmac_spec H (block_size dig) key m)"
proof -
  have r: "hmac_vtable ctx = dig" "repr (hmac_dig ctx) (key_block key 0x36 @ m)"
    "holds_state (hmac_kso ctx) (key_block key 0x5C)"
    "hmac_out_len ctx = (if n = 0 then br_digest_size dig else min n (br_digest_size dig))"
    using assms(1) by (simp_all add: hmac_repr_def)
  have "repr (hc_set_state dig (hc_init dig hc) (hmac_kso ctx) (of_nat (block_size dig))) (key_block key 0x5C)"
    using r(3) assms(2) by (simp add: restore_state length_key_block)
  from update_repr [OF this, of "H (key_block key 0x36 @ m)"]
  have "br_hmac_out ctx hc = take (hmac_out_len ctx) (H (key_block key 0x5C @ H (key_block key 0x36 @ m)))"
    using out_repr r(1,2) by (simp add: br_hmac_out_def Let_def length_H)
  also have "H (key_block key 0x5C @ H (key_block key 0x36 @ m)) = hmac_spec H (block_size dig) key m"
    by (simp add: hmac_spec_def key_block_def Let_def)
  also have "take (hmac_out_len ctx) (hmac_spec H (block_size dig) key m) =
      take (if n = 0 then br_digest_size dig else n) (hmac_spec H (block_size dig) key m)"
    using r(4) by (simp add: hmac_spec_def Let_def length_H min_def)
  finally show ?thesis .
qed

text \<open>Any sequence of updates: HMAC of the concatenation.\<close>

lemma hmac_updates_repr:
  "hmac_repr ctx key n m \<Longrightarrow> hmac_repr (foldl br_hmac_update ctx ds) key n (m @ concat ds)"
proof (induction ds arbitrary: ctx m)
  case (Cons d ds)
  from Cons.IH [OF hmac_update_repr [OF Cons.prems, of d]] show ?case by simp
qed simp

lemma hmac_correct:
  assumes "wf hc" "wf hc'" "wf (hmac_dig ctx)"
  shows "br_hmac_out (foldl br_hmac_update (br_hmac_init ctx (br_hmac_key_init kc dig key hc) n) ds) hc'
    = take (if n = 0 then br_digest_size dig else n) (hmac_spec H (block_size dig) key (concat ds))"
  using hmac_out_repr [OF hmac_updates_repr [OF hmac_init_repr [OF assms(1,3)]] assms(2)] by simp

end

section \<open>Properties\<close>

text \<open>(C24) HMAC-SHA-256, with the key processed once by \<open>br_hmac_key_init\<close> and the message fed by
  any sequence of \<open>br_hmac_update\<close> calls, is the HMAC of RFC 2104 over the SHA-256 of FIPS 180-4,
  truncated to the requested output length, for every key length.\<close>

theorem hmac_sha256_correct:
  assumes "length (ctx_buf hc) = 64" "length (ctx_buf hc') = 64" "length (ctx_buf (hmac_dig ctx)) = 64"
  shows "br_hmac_out (foldl br_hmac_update
      (br_hmac_init ctx (br_hmac_key_init kc br_sha256_vtable key hc) n) ds) hc' =
    take (if n = 0 then 32 else n) (hmac_spec (md_hash sha2_compress br_sha256_IV 8) 64 key (concat ds))"
proof -
  have "br_sha2small_round = sha2_compress" by (intro ext) (rule br_sha2small_round_compress)
  then show ?thesis using sha256.hmac_correct [OF assms] by (simp add: sha256.sizes)
qed

theorem hmac_sha256_correct_witness:
  "br_hmac_out (foldl br_hmac_update
      (br_hmac_init
        \<lparr>hmac_vtable = br_sha1_vtable,
         hmac_dig = \<lparr>ctx_buf = replicate 64 0, ctx_count = 0, ctx_val = []\<rparr>,
         hmac_kso = [], hmac_out_len = 0\<rparr>
        (br_hmac_key_init \<lparr>dig_vtable = br_sha1_vtable, ksi = replicate 64 0, kso = replicate 64 0\<rparr>
          br_sha256_vtable [11, 11] \<lparr>ctx_buf = replicate 64 0, ctx_count = 0, ctx_val = []\<rparr>) 16)
      [[1], [2, 3]]) \<lparr>ctx_buf = replicate 64 1, ctx_count = 0, ctx_val = []\<rparr> =
    take 16 (hmac_spec (md_hash sha2_compress br_sha256_IV 8) 64 [11, 11] [1, 2, 3])"
  by (subst hmac_sha256_correct) simp_all

text \<open>The same for HMAC-SHA-1, the function that the generic code selects with
  \<open>br_sha1_vtable\<close>.\<close>

theorem hmac_sha1_correct:
  assumes "length (ctx_buf hc) = 64" "length (ctx_buf hc') = 64" "length (ctx_buf (hmac_dig ctx)) = 64"
  shows "br_hmac_out (foldl br_hmac_update
      (br_hmac_init ctx (br_hmac_key_init kc br_sha1_vtable key hc) n) ds) hc' =
    take (if n = 0 then 20 else n) (hmac_spec (md_hash sha1_compress br_sha1_IV 5) 64 key (concat ds))"
proof -
  have "br_sha1_round = sha1_compress" by (intro ext) (rule br_sha1_round_compress)
  then show ?thesis using sha1.hmac_correct [OF assms] by (simp add: sha1.sizes)
qed

theorem hmac_sha1_correct_witness:
  "br_hmac_out (foldl br_hmac_update
      (br_hmac_init
        \<lparr>hmac_vtable = br_sha256_vtable,
         hmac_dig = \<lparr>ctx_buf = replicate 64 0, ctx_count = 0, ctx_val = []\<rparr>,
         hmac_kso = [], hmac_out_len = 0\<rparr>
        (br_hmac_key_init \<lparr>dig_vtable = br_sha1_vtable, ksi = replicate 64 0, kso = replicate 64 0\<rparr>
          br_sha1_vtable (replicate 70 11) \<lparr>ctx_buf = replicate 64 0, ctx_count = 0, ctx_val = []\<rparr>) 0)
      [[1], [2, 3]]) \<lparr>ctx_buf = replicate 64 1, ctx_count = 0, ctx_val = []\<rparr> =
    take 20 (hmac_spec (md_hash sha1_compress br_sha1_IV 5) 64 (replicate 70 11) [1, 2, 3])"
  by (subst hmac_sha1_correct) simp_all

end
