(* ===== verification/Aead.thy ===== *)
theory Aead
  imports Aes_Gcm Hmac
begin

text \<open>
  The authenticated encryption of the enclave (\<open>sgxsd_aes_gcm_run\<close> and its two callers in
  \<open>sgxsd-enclave.c\<close>), with its null-pointer checks as \<open>None\<close> branches.  Locals that the C code leaves
  uninitialised on its stack are the fields of \<open>stack_mem\<close>; no result depends on them.  A tag
  mismatch erases the output buffer.
\<close>

section \<open>Definitions\<close>

datatype sgx_status = SGX_SUCCESS | SGX_ERROR_UNEXPECTED | SGX_ERROR_INVALID_PARAMETER | SGX_ERROR_OUT_OF_MEMORY
  | SGX_ERROR_INVALID_STATE | SGX_ERROR_MAC_MISMATCH | SGXSD_ERROR_PENDING_REQUEST_NOT_FOUND | SGX_OTHER u32

record stack_mem =
  sm_ivbuf :: "nat \<Rightarrow> u8"
  sm_regs :: "nat \<Rightarrow> u128"
  sm_aes :: br_aes_x86ni_ctr_keys
  sm_gcm :: br_gcm_context
  sm_sha :: md_context

definition SGXSD_AES_GCM_IV_SIZE :: nat where "SGXSD_AES_GCM_IV_SIZE = 12"
definition SGXSD_AES_GCM_MAC_SIZE :: nat where "SGXSD_AES_GCM_MAC_SIZE = 16"
definition SGXSD_AES_GCM_KEY_SIZE :: nat where "SGXSD_AES_GCM_KEY_SIZE = 32"
definition SGXSD_CURVE25519_KEY_SIZE :: nat where "SGXSD_CURVE25519_KEY_SIZE = 32"
definition SGXSD_SHA256_HASH_SIZE :: nat where "SGXSD_SHA256_HASH_SIZE = 32"

lemmas sgxsd_sizes = SGXSD_AES_GCM_IV_SIZE_def SGXSD_AES_GCM_MAC_SIZE_def SGXSD_AES_GCM_KEY_SIZE_def
  SGXSD_CURVE25519_KEY_SIZE_def SGXSD_SHA256_HASH_SIZE_def

text \<open>The result is the status, the destination buffer and the MAC buffer.\<close>

definition sgxsd_aes_gcm_run :: "stack_mem \<Rightarrow> bool \<Rightarrow> bytes option \<Rightarrow> bytes option \<Rightarrow> u32 \<Rightarrow> bytes option \<Rightarrow> bytes option
    \<Rightarrow> bytes option \<Rightarrow> u32 \<Rightarrow> bytes option \<Rightarrow> sgx_status \<times> bytes option \<times> bytes option" where
  "sgxsd_aes_gcm_run m encrypt p_key p_src src_len p_dst p_iv p_aad aad_len p_mac =
    (if p_key = None \<or> (p_src = None \<or> p_dst = None) \<and> src_len \<noteq> 0 \<or> p_iv = None \<or> p_aad = None \<and> aad_len \<noteq> 0 \<or> p_mac = None
     then (SGX_ERROR_INVALID_PARAMETER, p_dst, p_mac)
     else
       let aes_ctx = br_aes_x86ni_ctr_init (sm_regs m) (sm_aes m) (take SGXSD_AES_GCM_KEY_SIZE (the p_key));
           ctx = br_gcm_init (sm_gcm m) (br_aes_x86ni_ctr_run (sm_ivbuf m) aes_ctx) br_ghash_pclmul;
           ctx = br_gcm_reset ctx (take SGXSD_AES_GCM_IV_SIZE (the p_iv));
           ctx = (if aad_len \<noteq> 0 then br_gcm_aad_inject ctx (take (unat aad_len) (the p_aad)) else ctx);
           ctx = br_gcm_flip ctx;
           (ctx, p_dst) =
             (if src_len \<noteq> 0
              then let dst = memcpy (the p_dst) 0 (take (unat src_len) (the p_src));
                       (ctx, d) = br_gcm_run ctx encrypt (take (unat src_len) dst)
                   in (ctx, Some (memcpy dst 0 d))
              else (ctx, p_dst));
           (p_mac, tag_res) =
             (if encrypt then (Some (memcpy (the p_mac) 0 (snd (br_gcm_get_tag ctx))), True)
              else (p_mac, snd (br_gcm_check_tag ctx (the p_mac)) \<noteq> 0))
       in if tag_res then (SGX_SUCCESS, p_dst, p_mac)
          else (SGX_ERROR_MAC_MISMATCH, map_option (\<lambda>dst. memset dst 0 0 (unat src_len)) p_dst, p_mac))"

definition sgxsd_aes_gcm_encrypt :: "stack_mem \<Rightarrow> bytes option \<Rightarrow> bytes option \<Rightarrow> u32 \<Rightarrow> bytes option \<Rightarrow> bytes option
    \<Rightarrow> bytes option \<Rightarrow> u32 \<Rightarrow> bytes option \<Rightarrow> sgx_status \<times> bytes option \<times> bytes option" where
  "sgxsd_aes_gcm_encrypt m p_key p_src src_len p_dst p_iv p_aad aad_len p_out_mac =
    sgxsd_aes_gcm_run m True p_key p_src src_len p_dst p_iv p_aad aad_len p_out_mac"

definition sgxsd_aes_gcm_decrypt :: "stack_mem \<Rightarrow> bytes option \<Rightarrow> bytes option \<Rightarrow> u32 \<Rightarrow> bytes option \<Rightarrow> bytes option
    \<Rightarrow> bytes option \<Rightarrow> u32 \<Rightarrow> bytes option \<Rightarrow> sgx_status \<times> bytes option \<times> bytes option" where
  "sgxsd_aes_gcm_decrypt m p_key p_src src_len p_dst p_iv p_aad aad_len p_in_mac =
    sgxsd_aes_gcm_run m False p_key p_src src_len p_dst p_iv p_aad aad_len p_in_mac"

section \<open>What the calls compute\<close>

definition stack_ok :: "stack_mem \<Rightarrow> bool" where
  "stack_ok m \<longleftrightarrow> length (gcm_buf (sm_gcm m)) = 16 \<and> length (ctx_buf (sm_sha m)) = 64"

definition gcm_cipher :: "bytes \<Rightarrow> bytes \<Rightarrow> bytes \<Rightarrow> bytes" where
  "gcm_cipher key iv d = gcm_ctr key (gcm_j0 key iv) d"

definition gcm_mac :: "bytes \<Rightarrow> bytes \<Rightarrow> bytes \<Rightarrow> bytes \<Rightarrow> bytes" where
  "gcm_mac key iv aad c = aes_gcm_tag key (gcm_j0 key iv) aad c"

lemma length_gcm_cipher [simp]: "length (gcm_cipher key iv d) = length d"
  by (simp add: gcm_cipher_def)

lemma length_gcm_mac [simp]: "length (gcm_mac key iv aad c) = 16"
  by (simp add: gcm_mac_def)

lemma gcm_cipher_involution [simp]: "gcm_cipher key iv (gcm_cipher key iv d) = d"
  by (simp add: gcm_cipher_def gcm_ctr_involution)

lemma memcpy_whole: "length src = length dst \<Longrightarrow> memcpy dst 0 src = src"
  by (simp add: memcpy_def)

text \<open>A non-null call in which every length is the length of its buffer is one session of the GCM
  context, with at most one piece of additional data and one of data.  Of the buffer for the tag
  the first 16 bytes are used.\<close>

lemma aes_gcm_run_buffer:
  assumes "stack_ok m" "length key = 32" "length iv = 12" "16 \<le> length mac" "length dst = length src"
    and "unat src_len = length src" "unat aad_len = length aad"
  shows "sgxsd_aes_gcm_run m enc (Some key) (Some src) src_len (Some dst) (Some iv) (Some aad) aad_len (Some mac) =
    (if enc then (SGX_SUCCESS, Some (gcm_cipher key iv src), Some (gcm_mac key iv aad (gcm_cipher key iv src) @ drop 16 mac))
     else if take 16 mac = gcm_mac key iv aad src then (SGX_SUCCESS, Some (gcm_cipher key iv src), Some mac)
     else (SGX_ERROR_MAC_MISMATCH, Some (replicate (length src) 0), Some mac))"
proof -
  define as where "as = (if aad_len \<noteq> 0 then [aad] else [])"
  define ds where "ds = (if src_len \<noteq> 0 then [src] else [])"
  define run where "run = x86ni_run (sm_ivbuf m) (sm_regs m) (sm_aes m) key"
  obtain ctx out where s: "gcm_session run (sm_gcm m) iv as enc ds = (ctx, out)" by fastforce
  have z: "src_len = 0 \<longleftrightarrow> src = []" "aad_len = 0 \<longleftrightarrow> aad = []"
    using assms(6,7) by (metis length_0_conv unat_eq_zero)+
  have c: "concat as = aad" "concat ds = src" using z by (auto simp: as_def ds_def)
  have "length (gcm_buf (sm_gcm m)) = 16" using assms(1) by (simp add: stack_ok_def)
  note sp = session_spec [OF _ this s [unfolded run_def], unfolded c]
  have out: "out = gcm_cipher key iv src" using sp(1) assms(2) by (simp add: gcm_cipher_def)
  have tag: "snd (br_gcm_get_tag ctx) = gcm_mac key iv aad (if enc then out else src)"
    using sp(2) assms(2) by (simp add: gcm_mac_def)
  have chk: "snd (br_gcm_check_tag ctx mac) \<noteq> 0 \<longleftrightarrow> take 16 mac = gcm_mac key iv aad src" if "\<not> enc"
    using check_tag_trunc_iff [of ctx 16 mac] assms(4) tag that by (simp add: br_gcm_check_tag_def)
  have t: "take SGXSD_AES_GCM_KEY_SIZE key = key" "take SGXSD_AES_GCM_IV_SIZE iv = iv" "take (unat src_len) src = src"
    "take (unat aad_len) aad = aad" using assms by (simp_all add: sgxsd_sizes)
  have cp: "memcpy dst 0 src = src" "memcpy src 0 (gcm_cipher key iv src) = gcm_cipher key iv src" 
    "memcpy mac 0 (gcm_mac key iv aad x) = gcm_mac key iv aad x @ drop 16 mac" for x
    using assms by (simp_all add: memcpy_whole) (simp add: memcpy_def)
  have ms: "memset (gcm_cipher key iv src) 0 0 (unat src_len) = replicate (length src) 0"
    using assms(6) by (simp add: memset_def memcpy_whole)
  define ctx0 where "ctx0 = br_gcm_flip (if aad_len \<noteq> 0 then br_gcm_aad_inject (br_gcm_reset (br_gcm_init (sm_gcm m) run br_ghash_pclmul) iv) aad
      else br_gcm_reset (br_gcm_init (sm_gcm m) run br_ghash_pclmul) iv)"
  have s0: "foldl (\<lambda>(ctx, out) d. case br_gcm_run ctx enc d of (ctx, d') \<Rightarrow> (ctx, out @ d')) (ctx0, []) ds = (ctx, out)"
    using s unfolding gcm_session_def Let_def ctx0_def as_def by (cases "aad_len = 0") simp_all
  obtain ctx1 d1 where mid: "(if src_len \<noteq> 0 then case br_gcm_run ctx0 enc src of (ctx, d) \<Rightarrow> (ctx, Some (memcpy src 0 d)) else (ctx0, Some dst))
      = (ctx1, d1)" by fastforce
  have "ctx1 = ctx \<and> d1 = Some (gcm_cipher key iv src)"
  proof (cases "src_len = 0")
    case True
    then show ?thesis using s0 mid out z assms(5) by (simp add: ds_def gcm_cipher_def gcm_ctr_def)
  next
    case False
    then have "br_gcm_run ctx0 enc src = (ctx, gcm_cipher key iv src)" using s0 out by (simp add: ds_def split: prod.splits)
    then show ?thesis using mid False cp(2) by simp
  qed
  then have mid': "(if src_len \<noteq> 0 then case br_gcm_run ctx0 enc src of (ctx, d) \<Rightarrow> (ctx, Some (memcpy src 0 d)) else (ctx0, Some dst))
      = (ctx, Some (gcm_cipher key iv src))" using mid by simp
  show ?thesis
    unfolding sgxsd_aes_gcm_run_def Let_def option.sel t run_def [symmetric] cp(1) unfolding ctx0_def [symmetric] mid' prod.case
    using tag chk out cp(3) ms by (cases enc) simp_all
qed

lemma aes_gcm_run_session:
  assumes "stack_ok m" "length key = 32" "length iv = 12" "length mac = 16" "length dst = length src"
    and "unat src_len = length src" "unat aad_len = length aad"
  shows "sgxsd_aes_gcm_run m enc (Some key) (Some src) src_len (Some dst) (Some iv) (Some aad) aad_len (Some mac) =
    (if enc then (SGX_SUCCESS, Some (gcm_cipher key iv src), Some (gcm_mac key iv aad (gcm_cipher key iv src)))
     else if mac = gcm_mac key iv aad src then (SGX_SUCCESS, Some (gcm_cipher key iv src), Some mac)
     else (SGX_ERROR_MAC_MISMATCH, Some (replicate (length src) 0), Some mac))"
  using aes_gcm_run_buffer [OF assms(1-3) _ assms(5-7), of mac enc] assms(4) by simp

text \<open>A null pointer for the additional data with length zero is the empty additional data.\<close>

lemma aes_gcm_run_no_aad:
  "sgxsd_aes_gcm_run m enc p_key p_src n p_dst p_iv None 0 p_mac = sgxsd_aes_gcm_run m enc p_key p_src n p_dst p_iv (Some []) 0 p_mac"
  unfolding sgxsd_aes_gcm_run_def option.distinct simp_thms(21,22) if_False option.sel
  by (rule if_cong) auto

section \<open>Properties\<close>

text \<open>(C35) What the enclave encrypts it decrypts again, and only with the tag that the encryption produced:
  with any other tag the status is \<open>SGX_ERROR_MAC_MISMATCH\<close> and the output buffer is erased.\<close>

theorem sgxsd_gcm_roundtrip:
  assumes "stack_ok m" "stack_ok m'" "length key = 32" "length iv = 12" "length mac = 16" "length tag = 16"
    and "length dst = length src" "length dst' = length src" "unat src_len = length src" "unat aad_len = length aad"
  shows "\<exists>c t. sgxsd_aes_gcm_encrypt m (Some key) (Some src) src_len (Some dst) (Some iv) (Some aad) aad_len (Some mac) = (SGX_SUCCESS, Some c, Some t)
    \<and> sgxsd_aes_gcm_decrypt m' (Some key) (Some c) src_len (Some dst') (Some iv) (Some aad) aad_len (Some tag) =
      (if tag = t then (SGX_SUCCESS, Some src, Some tag) else (SGX_ERROR_MAC_MISMATCH, Some (replicate (length src) 0), Some tag))"
proof -
  let ?c = "gcm_cipher key iv src"
  have e: "sgxsd_aes_gcm_encrypt m (Some key) (Some src) src_len (Some dst) (Some iv) (Some aad) aad_len (Some mac) =
      (SGX_SUCCESS, Some ?c, Some (gcm_mac key iv aad ?c))"
    using aes_gcm_run_session [OF assms(1,3,4,5,7,9,10), of True] by (simp add: sgxsd_aes_gcm_encrypt_def)
  have l: "length dst' = length ?c" "unat src_len = length ?c" using assms(8,9) by simp_all
  have "sgxsd_aes_gcm_decrypt m' (Some key) (Some ?c) src_len (Some dst') (Some iv) (Some aad) aad_len (Some tag) =
      (if tag = gcm_mac key iv aad ?c then (SGX_SUCCESS, Some src, Some tag) else (SGX_ERROR_MAC_MISMATCH, Some (replicate (length src) 0), Some tag))"
    using aes_gcm_run_session [OF assms(2,3,4,6) l assms(10), of False] by (simp add: sgxsd_aes_gcm_decrypt_def)
  then show ?thesis using e by blast
qed

definition demo_stack :: stack_mem where
  "demo_stack = \<lparr>sm_ivbuf = \<lambda>i. 3, sm_regs = \<lambda>i. 5, sm_aes = idle_keys, sm_gcm = idle_gcm,
     sm_sha = \<lparr>ctx_buf = replicate 64 7, ctx_count = 9, ctx_val = []\<rparr>\<rparr>"

theorem sgxsd_gcm_roundtrip_witness:
  "\<exists>c t. sgxsd_aes_gcm_encrypt demo_stack (Some (replicate 32 1)) (Some [1, 2, 3]) 3 (Some [0, 0, 0]) (Some (replicate 12 4)) (Some [6]) 1
      (Some (replicate 16 0)) = (SGX_SUCCESS, Some c, Some t)
    \<and> sgxsd_aes_gcm_decrypt demo_stack (Some (replicate 32 1)) (Some c) 3 (Some [0, 0, 0]) (Some (replicate 12 4)) (Some [6]) 1
      (Some (replicate 16 9)) =
      (if replicate 16 9 = t then (SGX_SUCCESS, Some [1, 2, 3], Some (replicate 16 9)) else (SGX_ERROR_MAC_MISMATCH, Some [0, 0, 0], Some (replicate 16 9)))"
proof -
  have s: "stack_ok demo_stack" by (simp add: demo_stack_def stack_ok_def idle_gcm_def)
  have l: "length (replicate 32 (1 :: u8)) = 32" "length (replicate 12 (4 :: u8)) = 12" "length (replicate 16 (0 :: u8)) = 16"
    "length (replicate 16 (9 :: u8)) = 16" "length [0, 0, 0 :: u8] = length [1, 2, 3 :: u8]" "length [0, 0, 0 :: u8] = length [1, 2, 3 :: u8]"
    "unat (3 :: u32) = length [1, 2, 3 :: u8]" "unat (1 :: u32) = length [6 :: u8]" by simp_all
  have z: "replicate (length [1, 2, 3 :: u8]) 0 = [0, 0, 0 :: u8]" by simp
  show ?thesis using sgxsd_gcm_roundtrip [OF s s l] unfolding z .
qed

text \<open>A missing key, IV or MAC buffer, or a missing buffer of non-zero length, is refused with
  \<open>SGX_ERROR_INVALID_PARAMETER\<close> and leaves the output buffers untouched.\<close>

theorem sgxsd_gcm_null_refused:
  assumes "p_key = None \<or> (p_src = None \<or> p_dst = None) \<and> src_len \<noteq> 0 \<or> p_iv = None \<or> p_aad = None \<and> aad_len \<noteq> 0 \<or> p_mac = None"
  shows "sgxsd_aes_gcm_encrypt m p_key p_src src_len p_dst p_iv p_aad aad_len p_mac = (SGX_ERROR_INVALID_PARAMETER, p_dst, p_mac)
    \<and> sgxsd_aes_gcm_decrypt m p_key p_src src_len p_dst p_iv p_aad aad_len p_mac = (SGX_ERROR_INVALID_PARAMETER, p_dst, p_mac)"
  using assms by (simp add: sgxsd_aes_gcm_encrypt_def sgxsd_aes_gcm_decrypt_def sgxsd_aes_gcm_run_def)

theorem sgxsd_gcm_null_refused_witness:
  "fst (sgxsd_aes_gcm_decrypt demo_stack None (Some [1]) 1 (Some [0]) (Some []) None 0 (Some [])) = SGX_ERROR_INVALID_PARAMETER"
  using sgxsd_gcm_null_refused [of None "Some [1]" "Some [0]" 1 "Some []" None 0 "Some []" demo_stack] by simp

end
