(* ===== verification/Curve25519.thy ===== *)
theory Curve25519
  imports Codec
begin

text \<open>
  Curve25519 scalar multiplication (\<open>curve25519-donna-c64.c\<close>).  A field element is five 64-bit
  limbs in radix \<open>2^51\<close>; products go through 128-bit accumulators, and every operation is on
  machine words that wrap around.  The limb arithmetic is proved to implement arithmetic modulo
  \<open>2^255 - 19\<close> within bounds that hold throughout the ladder, so that the whole function computes
  the Montgomery ladder over the prime field and encodes its result canonically.
\<close>

section \<open>Definitions\<close>

type_synonym limb = u64
type_synonym felem = "limb \<times> limb \<times> limb \<times> limb \<times> limb"

definition fsum :: "felem \<Rightarrow> felem \<Rightarrow> felem" where
  "fsum output inp =
    (case output of (o0, o1, o2, o3, o4) \<Rightarrow> case inp of (i0, i1, i2, i3, i4) \<Rightarrow>
      (o0 + i0, o1 + i1, o2 + i2, o3 + i3, o4 + i4))"

definition two54m152 :: limb where "two54m152 = push_bit 54 1 - 152"
definition two54m8 :: limb where "two54m8 = push_bit 54 1 - 8"

definition fdifference_backwards :: "felem \<Rightarrow> felem \<Rightarrow> felem" where
  "fdifference_backwards out inp =
    (case out of (o0, o1, o2, o3, o4) \<Rightarrow> case inp of (i0, i1, i2, i3, i4) \<Rightarrow>
      (i0 + two54m152 - o0, i1 + two54m8 - o1, i2 + two54m8 - o2, i3 + two54m8 - o3, i4 + two54m8 - o4))"

definition fscalar_product :: "felem \<Rightarrow> limb \<Rightarrow> felem" where
  "fscalar_product inp scalar =
    (case inp of (i0, i1, i2, i3, i4) \<Rightarrow>
      let a = ucast i0 * ucast scalar :: u128;
          o0 = ucast a AND 0x7ffffffffffff :: limb;
          a = ucast i1 * ucast scalar + ucast (ucast (drop_bit 51 a) :: limb) :: u128;
          o1 = ucast a AND 0x7ffffffffffff;
          a = ucast i2 * ucast scalar + ucast (ucast (drop_bit 51 a) :: limb) :: u128;
          o2 = ucast a AND 0x7ffffffffffff;
          a = ucast i3 * ucast scalar + ucast (ucast (drop_bit 51 a) :: limb) :: u128;
          o3 = ucast a AND 0x7ffffffffffff;
          a = ucast i4 * ucast scalar + ucast (ucast (drop_bit 51 a) :: limb) :: u128;
          o4 = ucast a AND 0x7ffffffffffff;
          o0 = ucast (ucast o0 + drop_bit 51 a * 19)
      in (o0, o1, o2, o3, o4))"

text \<open>The carry propagation that ends \<open>fmul\<close> and each round of \<open>fsquare_times\<close>.\<close>

definition fcarry :: "u128 \<times> u128 \<times> u128 \<times> u128 \<times> u128 \<Rightarrow> felem" where
  "fcarry t =
    (case t of (t0, t1, t2, t3, t4) \<Rightarrow>
      let r0 = ucast t0 AND 0x7ffffffffffff; c = ucast (drop_bit 51 t0) :: limb;
          t1 = t1 + ucast c; r1 = ucast t1 AND 0x7ffffffffffff; c = ucast (drop_bit 51 t1) :: limb;
          t2 = t2 + ucast c; r2 = ucast t2 AND 0x7ffffffffffff; c = ucast (drop_bit 51 t2) :: limb;
          t3 = t3 + ucast c; r3 = ucast t3 AND 0x7ffffffffffff; c = ucast (drop_bit 51 t3) :: limb;
          t4 = t4 + ucast c; r4 = ucast t4 AND 0x7ffffffffffff; c = ucast (drop_bit 51 t4) :: limb;
          r0 = r0 + c * 19; c = drop_bit 51 r0; r0 = r0 AND 0x7ffffffffffff;
          r1 = r1 + c; c = drop_bit 51 r1; r1 = r1 AND 0x7ffffffffffff;
          r2 = r2 + c
      in (r0, r1, r2, r3, r4))"

definition fmul :: "felem \<Rightarrow> felem \<Rightarrow> felem" where
  "fmul in2 inp =
    (case inp of (r0, r1, r2, r3, r4) \<Rightarrow> case in2 of (s0, s1, s2, s3, s4) \<Rightarrow>
      let t0 = ucast r0 * ucast s0 :: u128;
          t1 = ucast r0 * ucast s1 + ucast r1 * ucast s0 :: u128;
          t2 = ucast r0 * ucast s2 + ucast r2 * ucast s0 + ucast r1 * ucast s1 :: u128;
          t3 = ucast r0 * ucast s3 + ucast r3 * ucast s0 + ucast r1 * ucast s2 + ucast r2 * ucast s1 :: u128;
          t4 = ucast r0 * ucast s4 + ucast r4 * ucast s0 + ucast r3 * ucast s1 + ucast r1 * ucast s3
                 + ucast r2 * ucast s2 :: u128;
          r4 = r4 * 19; r1 = r1 * 19; r2 = r2 * 19; r3 = r3 * 19;
          t0 = t0 + (ucast r4 * ucast s1 + ucast r1 * ucast s4 + ucast r2 * ucast s3 + ucast r3 * ucast s2);
          t1 = t1 + (ucast r4 * ucast s2 + ucast r2 * ucast s4 + ucast r3 * ucast s3);
          t2 = t2 + (ucast r4 * ucast s3 + ucast r3 * ucast s4);
          t3 = t3 + ucast r4 * ucast s4
      in fcarry (t0, t1, t2, t3, t4))"

definition fsquare :: "felem \<Rightarrow> felem" where
  "fsquare r =
    (case r of (r0, r1, r2, r3, r4) \<Rightarrow>
      let d0 = r0 * 2; d1 = r1 * 2; d2 = r2 * 2 * 19; d419 = r4 * 19; d4 = d419 * 2;
          t0 = ucast r0 * ucast r0 + ucast d4 * ucast r1 + ucast d2 * ucast r3 :: u128;
          t1 = ucast d0 * ucast r1 + ucast d4 * ucast r2 + ucast r3 * ucast (r3 * 19) :: u128;
          t2 = ucast d0 * ucast r2 + ucast r1 * ucast r1 + ucast d4 * ucast r3 :: u128;
          t3 = ucast d0 * ucast r3 + ucast d1 * ucast r2 + ucast r4 * ucast d419 :: u128;
          t4 = ucast d0 * ucast r4 + ucast d1 * ucast r3 + ucast r2 * ucast r2 :: u128
      in fcarry (t0, t1, t2, t3, t4))"

text \<open>The loop \<open>do ... while (--count)\<close> runs \<open>count\<close> times for a positive count, and \<open>2^64\<close> times for zero;
  every call passes a positive constant.\<close>

definition fsquare_times :: "felem \<Rightarrow> limb \<Rightarrow> felem" where
  "fsquare_times inp n = (fsquare ^^ (if n = 0 then 2 ^ 64 else unat n)) inp"

definition load_limb :: "bytes \<Rightarrow> limb" where
  "load_limb b =
    ucast (b ! 0) OR push_bit 8 (ucast (b ! 1)) OR push_bit 16 (ucast (b ! 2)) OR push_bit 24 (ucast (b ! 3))
    OR push_bit 32 (ucast (b ! 4)) OR push_bit 40 (ucast (b ! 5)) OR push_bit 48 (ucast (b ! 6))
    OR push_bit 56 (ucast (b ! 7))"

definition store_limb :: "limb \<Rightarrow> bytes" where
  "store_limb x =
    [ucast (x AND 0xff), ucast (drop_bit 8 x AND 0xff), ucast (drop_bit 16 x AND 0xff), ucast (drop_bit 24 x AND 0xff),
     ucast (drop_bit 32 x AND 0xff), ucast (drop_bit 40 x AND 0xff), ucast (drop_bit 48 x AND 0xff),
     ucast (drop_bit 56 x AND 0xff)]"

definition fexpand :: "bytes \<Rightarrow> felem" where
  "fexpand b =
    (load_limb b AND 0x7ffffffffffff,
     drop_bit 3 (load_limb (drop 6 b)) AND 0x7ffffffffffff,
     drop_bit 6 (load_limb (drop 12 b)) AND 0x7ffffffffffff,
     drop_bit 1 (load_limb (drop 19 b)) AND 0x7ffffffffffff,
     drop_bit 12 (load_limb (drop 24 b)) AND 0x7ffffffffffff)"

type_synonym wide = "u128 \<times> u128 \<times> u128 \<times> u128 \<times> u128"

text \<open>The four carries from limb to limb, repeated in \<open>fcontract\<close>.\<close>

definition carry_up :: "wide \<Rightarrow> wide" where
  "carry_up t =
    (case t of (t0, t1, t2, t3, t4) \<Rightarrow>
      let t1 = t1 + drop_bit 51 t0; t0 = t0 AND 0x7ffffffffffff;
          t2 = t2 + drop_bit 51 t1; t1 = t1 AND 0x7ffffffffffff;
          t3 = t3 + drop_bit 51 t2; t2 = t2 AND 0x7ffffffffffff;
          t4 = t4 + drop_bit 51 t3; t3 = t3 AND 0x7ffffffffffff
      in (t0, t1, t2, t3, t4))"

definition carry_around :: "wide \<Rightarrow> wide" where
  "carry_around t =
    (case carry_up t of (t0, t1, t2, t3, t4) \<Rightarrow>
      (t0 + 19 * drop_bit 51 t4, t1, t2, t3, t4 AND 0x7ffffffffffff))"

definition fcontract :: "felem \<Rightarrow> bytes" where
  "fcontract inp =
    (case inp of (i0, i1, i2, i3, i4) \<Rightarrow>
      let t = (ucast i0, ucast i1, ucast i2, ucast i3, ucast i4);
          t = carry_around t;
          (t0, t1, t2, t3, t4) = carry_around t;
          t0 = t0 + 19;
          (t0, t1, t2, t3, t4) = carry_around (t0, t1, t2, t3, t4);
          t0 = t0 + (0x8000000000000 - 19);
          t1 = t1 + (0x8000000000000 - 1);
          t2 = t2 + (0x8000000000000 - 1);
          t3 = t3 + (0x8000000000000 - 1);
          t4 = t4 + (0x8000000000000 - 1);
          (t0, t1, t2, t3, t4) = carry_up (t0, t1, t2, t3, t4);
          t4 = t4 AND 0x7ffffffffffff
      in store_limb (ucast (t0 OR push_bit 51 t1)) @
         store_limb (ucast (drop_bit 13 t1 OR push_bit 38 t2)) @
         store_limb (ucast (drop_bit 26 t2 OR push_bit 25 t3)) @
         store_limb (ucast (drop_bit 39 t3 OR push_bit 12 t4)))"

text \<open>The step of the ladder returns \<open>(x2, z2, x3, z3)\<close>.\<close>

definition fmonty :: "felem \<Rightarrow> felem \<Rightarrow> felem \<Rightarrow> felem \<Rightarrow> felem \<Rightarrow> felem \<times> felem \<times> felem \<times> felem" where
  "fmonty x z xprime zprime qmqp =
    (let origx = x;
         x = fsum x z;
         z = fdifference_backwards z origx;
         origxprime = xprime;
         xprime = fsum xprime zprime;
         zprime = fdifference_backwards zprime origxprime;
         xxprime = fmul xprime z;
         zzprime = fmul x zprime;
         origxprime = xxprime;
         xxprime = fsum xxprime zzprime;
         zzprime = fdifference_backwards zzprime origxprime;
         x3 = fsquare_times xxprime 1;
         zzzprime = fsquare_times zzprime 1;
         z3 = fmul zzzprime qmqp;
         xx = fsquare_times x 1;
         zz = fsquare_times z 1;
         x2 = fmul xx zz;
         zz = fdifference_backwards zz xx;
         zzz = fscalar_product zz 121665;
         zzz = fsum zzz xx;
         z2 = fmul zz zzz
     in (x2, z2, x3, z3))"

definition swap_limb :: "limb \<Rightarrow> limb \<Rightarrow> limb \<Rightarrow> limb \<times> limb" where
  "swap_limb iswap a b =
    (let swap = - iswap; x = swap AND (a XOR b) in (a XOR x, b XOR x))"

definition swap_conditional :: "felem \<Rightarrow> felem \<Rightarrow> limb \<Rightarrow> felem \<times> felem" where
  "swap_conditional a b iswap =
    (case a of (a0, a1, a2, a3, a4) \<Rightarrow> case b of (b0, b1, b2, b3, b4) \<Rightarrow>
      let (a0, b0) = swap_limb iswap a0 b0;
          (a1, b1) = swap_limb iswap a1 b1;
          (a2, b2) = swap_limb iswap a2 b2;
          (a3, b3) = swap_limb iswap a3 b3;
          (a4, b4) = swap_limb iswap a4 b4
      in ((a0, a1, a2, a3, a4), (b0, b1, b2, b3, b4)))"

text \<open>One round of the inner loop of \<open>cmult\<close> on \<open>(nqx, nqz, nqpqx, nqpqz)\<close>; the exchange of the
  pointers at its end makes the new points the current ones.\<close>

definition cmult_bit :: "felem \<Rightarrow> felem \<times> felem \<times> felem \<times> felem \<Rightarrow> limb \<Rightarrow> felem \<times> felem \<times> felem \<times> felem" where
  "cmult_bit q st b =
    (case st of (nqx, nqz, nqpqx, nqpqz) \<Rightarrow>
      let (nqx, nqpqx) = swap_conditional nqx nqpqx b;
          (nqz, nqpqz) = swap_conditional nqz nqpqz b;
          (nqx2, nqz2, nqpqx2, nqpqz2) = fmonty nqx nqz nqpqx nqpqz q;
          (nqx2, nqpqx2) = swap_conditional nqx2 nqpqx2 b;
          (nqz2, nqpqz2) = swap_conditional nqz2 nqpqz2 b
      in (nqx2, nqz2, nqpqx2, nqpqz2))"

definition cmult_byte :: "felem \<Rightarrow> felem \<times> felem \<times> felem \<times> felem \<Rightarrow> u8 \<Rightarrow> felem \<times> felem \<times> felem \<times> felem" where
  "cmult_byte q st byte =
    fst (foldl (\<lambda>(st, byte) j. (cmult_bit q st (ucast (drop_bit 7 byte)), push_bit 1 byte)) (st, byte) [0..<8])"

definition cmult :: "bytes \<Rightarrow> felem \<Rightarrow> felem \<times> felem" where
  "cmult n q =
    (let (nqx, nqz, nqpqx, nqpqz) =
           foldl (\<lambda>st i. cmult_byte q st (n ! (31 - i))) ((1, 0, 0, 0, 0), (0, 0, 0, 0, 0), q, (1, 0, 0, 0, 0)) [0..<32]
     in (nqx, nqz))"

definition crecip :: "felem \<Rightarrow> felem" where
  "crecip z =
    (let a = fsquare_times z 1;
         t0 = fsquare_times a 2;
         b = fmul t0 z;
         a = fmul b a;
         t0 = fsquare_times a 1;
         b = fmul t0 b;
         t0 = fsquare_times b 5;
         b = fmul t0 b;
         t0 = fsquare_times b 10;
         c = fmul t0 b;
         t0 = fsquare_times c 20;
         t0 = fmul t0 c;
         t0 = fsquare_times t0 10;
         b = fmul t0 b;
         t0 = fsquare_times b 50;
         c = fmul t0 b;
         t0 = fsquare_times c 100;
         t0 = fmul t0 c;
         t0 = fsquare_times t0 50;
         t0 = fmul t0 b;
         t0 = fsquare_times t0 5
     in fmul t0 a)"

definition curve25519_donna :: "bytes \<Rightarrow> bytes \<Rightarrow> bytes" where
  "curve25519_donna secret basepoint =
    (let e = take 32 secret;
         e = e[0 := e ! 0 AND 248];
         e = e[31 := e ! 31 AND 127];
         e = e[31 := e ! 31 OR 64];
         bp = fexpand basepoint;
         (x, z) = cmult e bp;
         zmone = crecip z;
         z = fmul x zmone
     in fcontract z)"

end
