(* ===== verification/Curve_Arith.thy ===== *)
theory Curve_Arith
  imports Curve25519
begin

text \<open>
  The limb arithmetic of \<open>curve25519-donna-c64.c\<close> against the integers modulo \<open>2^255 - 19\<close>.  A field
  element has a value; each operation is proved, within stated bounds on the limbs, not to lose a
  carry at 64 or 128 bits and to compute the operation of the field on the values.  The predicate
  \<open>frep\<close> packages both parts, so that compositions of operations are proved by chaining rules.
\<close>

section \<open>Limbs as integers\<close>

abbreviation radix :: int where "radix \<equiv> 2 ^ 51"
abbreviation wi64 :: "int \<Rightarrow> u64" where "wi64 \<equiv> word_of_int"
abbreviation wi128 :: "int \<Rightarrow> u128" where "wi128 \<equiv> word_of_int"

definition p25519 :: int where "p25519 = 2 ^ 255 - 19"

definition fval :: "felem \<Rightarrow> int" where
  "fval f = (case f of (r0, r1, r2, r3, r4) \<Rightarrow>
    uint r0 + radix * uint r1 + radix ^ 2 * uint r2 + radix ^ 3 * uint r3 + radix ^ 4 * uint r4)"

definition fle :: "int \<Rightarrow> felem \<Rightarrow> bool" where
  "fle m f = (case f of (r0, r1, r2, r3, r4) \<Rightarrow>
    uint r0 \<le> m \<and> uint r1 \<le> m \<and> uint r2 \<le> m \<and> uint r3 \<le> m \<and> uint r4 \<le> m)"

lemma fleE:
  assumes "fle m f"
  obtains a0 a1 a2 a3 a4 where "f = (wi64 a0, wi64 a1, wi64 a2, wi64 a3, wi64 a4)"
    "0 \<le> a0" "0 \<le> a1" "0 \<le> a2" "0 \<le> a3" "0 \<le> a4" "a0 \<le> m" "a1 \<le> m" "a2 \<le> m" "a3 \<le> m" "a4 \<le> m"
    "a0 < 2 ^ 64" "a1 < 2 ^ 64" "a2 < 2 ^ 64" "a3 < 2 ^ 64" "a4 < 2 ^ 64"
proof -
  obtain r0 r1 r2 r3 r4 where f: "f = (r0, r1, r2, r3, r4)" by (cases f)
  have u: "0 \<le> uint r" "uint r < 2 ^ 64" for r :: u64 using unsigned_less [where 'a = int, of r] by simp_all
  show ?thesis
    by (rule that [of "uint r0" "uint r1" "uint r2" "uint r3" "uint r4"])
      (use assms f u in \<open>auto simp: fle_def\<close>)
qed

lemma uint_wi64: "0 \<le> a \<Longrightarrow> a < 2 ^ 64 \<Longrightarrow> uint (wi64 a) = a"
  by (simp add: uint_word_of_int)

lemma uint_wi128: "0 \<le> a \<Longrightarrow> a < 2 ^ 128 \<Longrightarrow> uint (wi128 a) = a"
  by (simp add: uint_word_of_int)

lemma widen: "0 \<le> a \<Longrightarrow> a < 2 ^ 64 \<Longrightarrow> ucast (wi64 a) = wi128 a"
  by (rule word_uint_eqI) (simp add: uint_word_of_int unsigned_ucast_eq take_bit_eq_mod)

lemma narrow: "ucast (wi128 a) = wi64 a"
  by (rule bit_word_eqI) (simp add: bit_simps)

lemma low51: "wi64 a AND 0x7ffffffffffff = wi64 (a mod radix)" "wi128 a AND 0x7ffffffffffff = wi128 (a mod radix)"
proof -
  have m: "0x7ffffffffffff = (mask 51 :: int)" by (simp add: mask_eq_exp_minus_1)
  show "wi64 a AND 0x7ffffffffffff = wi64 (a mod radix)" "wi128 a AND 0x7ffffffffffff = wi128 (a mod radix)"
    using of_int_and_eq [where 'a = u64, of a "mask 51"] of_int_and_eq [where 'a = u128, of a "mask 51"]
    by (simp_all add: take_bit_eq_mask [symmetric] take_bit_eq_mod) (simp_all add: m [symmetric])
qed

lemma high64: "0 \<le> a \<Longrightarrow> a < 2 ^ 64 \<Longrightarrow> drop_bit 51 (wi64 a) = wi64 (a div radix)"
  by (rule word_uint_eqI) (simp add: uint_word_of_int drop_bit_eq_div uint_div_distrib take_bit_eq_mod)

lemma high128: "0 \<le> a \<Longrightarrow> a < 2 ^ 128 \<Longrightarrow> drop_bit 51 (wi128 a) = wi128 (a div radix)"
  by (rule word_uint_eqI) (simp add: uint_word_of_int drop_bit_eq_div uint_div_distrib take_bit_eq_mod)

text \<open>A field element given by integers that fit.\<close>

lemma felem_wi64:
  assumes "0 \<le> a" "0 \<le> b" "0 \<le> c" "0 \<le> d" "0 \<le> e" "a \<le> m" "b \<le> m" "c \<le> m" "d \<le> m" "e \<le> m" "m < 2 ^ 64"
  shows "fle m (wi64 a, wi64 b, wi64 c, wi64 d, wi64 e)"
    and "fval (wi64 a, wi64 b, wi64 c, wi64 d, wi64 e) = a + radix * b + radix ^ 2 * c + radix ^ 3 * d + radix ^ 4 * e"
proof -
  have u: "uint (wi64 a) = a" "uint (wi64 b) = b" "uint (wi64 c) = c" "uint (wi64 d) = d" "uint (wi64 e) = e"
    using assms by (intro uint_wi64; linarith)+
  show "fle m (wi64 a, wi64 b, wi64 c, wi64 d, wi64 e)"
    unfolding fle_def prod.case u using assms by blast
  show "fval (wi64 a, wi64 b, wi64 c, wi64 d, wi64 e) = a + radix * b + radix ^ 2 * c + radix ^ 3 * d + radix ^ 4 * e"
    unfolding fval_def prod.case u by (rule refl)
qed

section \<open>Carries\<close>

text \<open>The carry chain on integers, and what it keeps: the value modulo the prime.\<close>

lemma carry_value:
  fixes B :: int
  assumes "T0 = r0 + B * c0" "T1 + c0 = r1 + B * c1" "T2 + c1 = r2 + B * c2" "T3 + c2 = r3 + B * c3" "T4 + c3 = r4 + B * c4"
  shows "T0 + B * T1 + B ^ 2 * T2 + B ^ 3 * T3 + B ^ 4 * T4 = r0 + B * r1 + B ^ 2 * r2 + B ^ 3 * r3 + B ^ 4 * r4 + B ^ 5 * c4"
proof -
  have "T1 = r1 + B * c1 - c0" "T2 = r2 + B * c2 - c1" "T3 = r3 + B * c3 - c2" "T4 = r4 + B * c4 - c3"
    using assms by linarith+
  then show ?thesis using assms(1) by (simp only:) (simp add: algebra_simps eval_nat_numeral)
qed

lemma radix5: "radix ^ 5 = p25519 + 19"
  by (simp add: p25519_def)

lemma div_radix_less: "x < radix * k \<Longrightarrow> x div radix < k" for x k :: int
proof (rule ccontr)
  assume "x < radix * k" "\<not> x div radix < k"
  then have "radix * k \<le> radix * (x div radix)" by simp
  also have "\<dots> \<le> x" using mult_div_mod_eq [of radix x] pos_mod_sign [of radix x] by simp
  finally show False using \<open>x < radix * k\<close> by simp
qed

lemma div_radix_nonneg: "0 \<le> x \<Longrightarrow> 0 \<le> x div radix" for x :: int
  by (simp add: pos_imp_zdiv_nonneg_iff)

lemma fcarry_correct:
  assumes "t = (wi128 T0, wi128 T1, wi128 T2, wi128 T3, wi128 T4)"
    and "0 \<le> T0" "0 \<le> T1" "0 \<le> T2" "0 \<le> T3" "0 \<le> T4"
    and "T0 \<le> 2 ^ 115 - 2 ^ 64" "T1 \<le> 2 ^ 115 - 2 ^ 64" "T2 \<le> 2 ^ 115 - 2 ^ 64" "T3 \<le> 2 ^ 115 - 2 ^ 64" "2 * T4 \<le> 13 * 2 ^ 108"
  shows "fle radix (fcarry t)"
    and "fval (fcarry t) mod p25519 = (T0 + radix * T1 + radix ^ 2 * T2 + radix ^ 3 * T3 + radix ^ 4 * T4) mod p25519"
proof -
  define r0 c0 where 0: "r0 = T0 mod radix" "c0 = T0 div radix"
  define r1 c1 where 1: "r1 = (T1 + c0) mod radix" "c1 = (T1 + c0) div radix"
  define r2 c2 where 2: "r2 = (T2 + c1) mod radix" "c2 = (T2 + c1) div radix"
  define r3 c3 where 3: "r3 = (T3 + c2) mod radix" "c3 = (T3 + c2) div radix"
  define r4 c4 where 4: "r4 = (T4 + c3) mod radix" "c4 = (T4 + c3) div radix"
  define s0 d0 where 5: "s0 = (r0 + 19 * c4) mod radix" "d0 = (r0 + 19 * c4) div radix"
  define s1 d1 where 6: "s1 = (r1 + d0) mod radix" "d1 = (r1 + d0) div radix"
  have hi: "x div radix < 2 ^ 64" "0 \<le> x div radix" if "0 \<le> x" "x < 2 ^ 115" for x :: int
    using div_radix_less [of x "2 ^ 64"] div_radix_nonneg [of x] that by simp_all
  have c0: "0 \<le> c0" "c0 < 2 ^ 64" unfolding 0 using assms(2,7) by (intro hi; simp)+
  have c1: "0 \<le> c1" "c1 < 2 ^ 64" unfolding 1 using assms(3,8) c0 by (intro hi; simp)+
  have c2: "0 \<le> c2" "c2 < 2 ^ 64" unfolding 2 using assms(4,9) c1 by (intro hi; simp)+
  have c3: "0 \<le> c3" "c3 < 2 ^ 64" unfolding 3 using assms(5,10) c2 by (intro hi; simp)+
  have rng: "0 \<le> x mod radix" "x mod radix < radix" for x :: int by simp_all
  have c4: "0 \<le> c4" "19 * c4 < 2 ^ 64 - radix"
  proof -
    show "0 \<le> c4" unfolding 4 using assms(6) c3 by (simp add: pos_imp_zdiv_nonneg_iff)
    have "radix * c4 \<le> T4 + c3" unfolding 4 by (simp add: mult.commute minus_mod_eq_mult_div [symmetric])
    then show "19 * c4 < 2 ^ 64 - radix" using assms(11) c3 by simp
  qed
  have d0: "0 \<le> d0" "d0 < 2 ^ 13"
    unfolding 5 using c4 rng [of T0] 0 div_radix_less [of "r0 + 19 * c4" "2 ^ 13"] div_radix_nonneg [of "r0 + 19 * c4"]
    by simp_all
  have d1: "0 \<le> d1" "d1 \<le> 1"
  proof -
    have "r1 + d0 < 2 * radix" using d0 rng [of "T1 + c0"] 1 by simp
    then show "d1 \<le> 1" unfolding 6 using div_radix_less [of "r1 + d0" 2] by (simp add: mult.commute)
    show "0 \<le> d1" unfolding 6 using d0 rng [of "T1 + c0"] 1 by (simp add: pos_imp_zdiv_nonneg_iff)
  qed
  have res: "fcarry t = (wi64 s0, wi64 s1, wi64 (r2 + d1), wi64 r3, wi64 r4)"
  proof -
    have w: "wi64 a + wi64 b = wi64 (a + b)" "wi64 a * 19 = wi64 (19 * a)" "wi128 a + wi128 b = wi128 (a + b)" for a b
      by (simp_all add: mult.commute)
    have r: "0 \<le> r0" "r0 < radix" "0 \<le> r1" "r1 < radix" using rng by (simp_all only: 0 1)
    have b1: "0 \<le> T1 + c0" "T1 + c0 < 2 ^ 128" using assms(3,8) c0 by simp_all
    have b2: "0 \<le> T2 + c1" "T2 + c1 < 2 ^ 128" using assms(4,9) c1 by simp_all
    have b3: "0 \<le> T3 + c2" "T3 + c2 < 2 ^ 128" using assms(5,10) c2 by simp_all
    have b4: "0 \<le> T4 + c3" "T4 + c3 < 2 ^ 128" using assms(6,11) c3 by simp_all
    have b5: "0 \<le> r0 + 19 * c4" "r0 + 19 * c4 < 2 ^ 64" using c4 r by simp_all
    have b6: "0 \<le> r1 + d0" "r1 + d0 < 2 ^ 64" using d0 r by simp_all
    have b0: "T0 < 2 ^ 128" using assms(7) by simp
    show ?thesis
      unfolding fcarry_def assms(1) prod.case Let_def
      by (simp only: narrow low51 high128 [OF assms(2) b0] widen [OF c0] widen [OF c1] widen [OF c2] widen [OF c3] w
          high128 [OF b1] high128 [OF b2] high128 [OF b3] high128 [OF b4] high64 [OF b5] high64 [OF b6] 0 [symmetric]
          1 [symmetric] 2 [symmetric] 3 [symmetric] 4 [symmetric] 5 [symmetric] 6 [symmetric])
  qed
  have "0 \<le> r2" "r2 < radix" by (simp_all only: 2 rng)
  then have "0 \<le> r2 + d1" "r2 + d1 \<le> radix" using d1 by linarith+
  moreover have "0 \<le> s0" "s0 < radix" "0 \<le> s1" "s1 < radix" "0 \<le> r3" "r3 < radix" "0 \<le> r4" "r4 < radix"
    by (simp_all only: 3 4 5 6 rng)
  ultimately have bnd: "0 \<le> s0" "s0 < radix" "0 \<le> s1" "s1 < radix" "0 \<le> r2 + d1" "r2 + d1 \<le> radix"
    "0 \<le> r3" "r3 < radix" "0 \<le> r4" "r4 < radix" by blast+
  have m: "radix < 2 ^ 64" by simp
  note el = felem_wi64 [OF bnd(1,3,5,7,9) less_imp_le [OF bnd(2)] less_imp_le [OF bnd(4)] bnd(6) less_imp_le [OF bnd(8)]
    less_imp_le [OF bnd(10)] m]
  show "fle radix (fcarry t)"
    unfolding res by (rule el(1))
  have e: "T0 = r0 + radix * c0" "T1 + c0 = r1 + radix * c1" "T2 + c1 = r2 + radix * c2" "T3 + c2 = r3 + radix * c3"
    "T4 + c3 = r4 + radix * c4" "r0 + 19 * c4 = s0 + radix * d0" "r1 + d0 = s1 + radix * d1"
    unfolding 0 1 2 3 4 5 6 by (simp_all only: mod_mult_div_eq)
  have "T0 + radix * T1 + radix ^ 2 * T2 + radix ^ 3 * T3 + radix ^ 4 * T4
      = s0 + radix * s1 + radix ^ 2 * (r2 + d1) + radix ^ 3 * r3 + radix ^ 4 * r4 + p25519 * c4"
    unfolding carry_value [OF e(1-5)] radix5 using e(6,7) by (simp add: algebra_simps)
  moreover have "fval (fcarry t) = s0 + radix * s1 + radix ^ 2 * (r2 + d1) + radix ^ 3 * r3 + radix ^ 4 * r4"
    unfolding res by (rule el(2))
  ultimately show "fval (fcarry t) mod p25519 = (T0 + radix * T1 + radix ^ 2 * T2 + radix ^ 3 * T3 + radix ^ 4 * T4) mod p25519"
    by (simp del: power_mult_numeral)
qed

section \<open>Multiplication and squaring\<close>

text \<open>The largest limb that the operations of the ladder feed to a multiplication.\<close>

abbreviation long_limb :: int where "long_limb \<equiv> 2 ^ 54 + 2 ^ 51"

lemma wi_arith:
  "wi64 a + wi64 b = wi64 (a + b)" "wi64 a * wi64 b = wi64 (a * b)" "wi128 a + wi128 b = wi128 (a + b)"
  "wi128 a * wi128 b = wi128 (a * b)" "wi64 a * 19 = wi64 (19 * a)" "wi64 a * 2 = wi64 (2 * a)"
  by (simp_all add: mult.commute)

lemma limb_product:
  fixes a b :: int
  assumes "0 \<le> a" "0 \<le> b" "a \<le> long_limb" "b \<le> long_limb"
  shows "0 \<le> a * b" "a * b \<le> 81 * 2 ^ 102"
proof -
  show "0 \<le> a * b" using assms by simp
  have "a * b \<le> long_limb * long_limb" using assms by (intro mult_mono) simp_all
  then show "a * b \<le> 81 * 2 ^ 102" by simp
qed

lemma fold_product:
  fixes B :: int
  shows "(r0 + B * r1 + B ^ 2 * r2 + B ^ 3 * r3 + B ^ 4 * r4) * (s0 + B * s1 + B ^ 2 * s2 + B ^ 3 * s3 + B ^ 4 * s4)
    = r0 * s0 + (19 * r4 * s1 + 19 * r1 * s4 + 19 * r2 * s3 + 19 * r3 * s2)
      + B * (r0 * s1 + r1 * s0 + (19 * r4 * s2 + 19 * r2 * s4 + 19 * r3 * s3))
      + B ^ 2 * (r0 * s2 + r2 * s0 + r1 * s1 + (19 * r4 * s3 + 19 * r3 * s4))
      + B ^ 3 * (r0 * s3 + r3 * s0 + r1 * s2 + r2 * s1 + 19 * r4 * s4)
      + B ^ 4 * (r0 * s4 + r4 * s0 + r3 * s1 + r1 * s3 + r2 * s2)
      + (B ^ 5 - 19) * (r4 * s1 + r1 * s4 + r2 * s3 + r3 * s2 + B * (r4 * s2 + r2 * s4 + r3 * s3)
          + B ^ 2 * (r4 * s3 + r3 * s4) + B ^ 3 * (r4 * s4))"
  by (simp add: algebra_simps eval_nat_numeral)

lemma fmul_correct:
  assumes "fle long_limb a" "fle long_limb b"
  shows "fle radix (fmul b a)" and "fval (fmul b a) mod p25519 = fval a * fval b mod p25519"
proof -
  obtain r0 r1 r2 r3 r4 where a: "a = (wi64 r0, wi64 r1, wi64 r2, wi64 r3, wi64 r4)"
    and r: "0 \<le> r0" "0 \<le> r1" "0 \<le> r2" "0 \<le> r3" "0 \<le> r4" "r0 \<le> long_limb" "r1 \<le> long_limb" "r2 \<le> long_limb"
      "r3 \<le> long_limb" "r4 \<le> long_limb"
    and rw: "r0 < 2 ^ 64" "r1 < 2 ^ 64" "r2 < 2 ^ 64" "r3 < 2 ^ 64" "r4 < 2 ^ 64"
    using assms(1) by (rule fleE)
  obtain s0 s1 s2 s3 s4 where b: "b = (wi64 s0, wi64 s1, wi64 s2, wi64 s3, wi64 s4)"
    and s: "0 \<le> s0" "0 \<le> s1" "0 \<le> s2" "0 \<le> s3" "0 \<le> s4" "s0 \<le> long_limb" "s1 \<le> long_limb" "s2 \<le> long_limb"
      "s3 \<le> long_limb" "s4 \<le> long_limb"
    and sw: "s0 < 2 ^ 64" "s1 < 2 ^ 64" "s2 < 2 ^ 64" "s3 < 2 ^ 64" "s4 < 2 ^ 64"
    using assms(2) by (rule fleE)
  have m: "0 \<le> 19 * r1" "0 \<le> 19 * r2" "0 \<le> 19 * r3" "0 \<le> 19 * r4" "19 * r1 < 2 ^ 64" "19 * r2 < 2 ^ 64" "19 * r3 < 2 ^ 64"
    "19 * r4 < 2 ^ 64" using r by simp_all
  define T0 where T0: "T0 = r0 * s0 + (19 * r4 * s1 + 19 * r1 * s4 + 19 * r2 * s3 + 19 * r3 * s2)"
  define T1 where T1: "T1 = r0 * s1 + r1 * s0 + (19 * r4 * s2 + 19 * r2 * s4 + 19 * r3 * s3)"
  define T2 where T2: "T2 = r0 * s2 + r2 * s0 + r1 * s1 + (19 * r4 * s3 + 19 * r3 * s4)"
  define T3 where T3: "T3 = r0 * s3 + r3 * s0 + r1 * s2 + r2 * s1 + 19 * r4 * s4"
  define T4 where T4: "T4 = r0 * s4 + r4 * s0 + r3 * s1 + r1 * s3 + r2 * s2"
  have run: "fmul b a = fcarry (wi128 T0, wi128 T1, wi128 T2, wi128 T3, wi128 T4)"
    unfolding fmul_def a b prod.case Let_def T0 T1 T2 T3 T4
    by (simp only: wi_arith(5) widen [OF r(1) rw(1)] widen [OF r(2) rw(2)] widen [OF r(3) rw(3)] widen [OF r(4) rw(4)]
        widen [OF r(5) rw(5)] widen [OF s(1) sw(1)] widen [OF s(2) sw(2)] widen [OF s(3) sw(3)] widen [OF s(4) sw(4)]
        widen [OF s(5) sw(5)] widen [OF m(1) m(5)] widen [OF m(2) m(6)] widen [OF m(3) m(7)] widen [OF m(4) m(8)] wi_arith(3,4))
  note P = limb_product [OF r(1) s(1) r(6) s(6)] limb_product [OF r(1) s(2) r(6) s(7)] limb_product [OF r(1) s(3) r(6) s(8)]
    limb_product [OF r(1) s(4) r(6) s(9)] limb_product [OF r(1) s(5) r(6) s(10)]
    limb_product [OF r(2) s(1) r(7) s(6)] limb_product [OF r(2) s(2) r(7) s(7)] limb_product [OF r(2) s(3) r(7) s(8)]
    limb_product [OF r(2) s(4) r(7) s(9)] limb_product [OF r(2) s(5) r(7) s(10)]
    limb_product [OF r(3) s(1) r(8) s(6)] limb_product [OF r(3) s(2) r(8) s(7)] limb_product [OF r(3) s(3) r(8) s(8)]
    limb_product [OF r(3) s(4) r(8) s(9)] limb_product [OF r(3) s(5) r(8) s(10)]
    limb_product [OF r(4) s(1) r(9) s(6)] limb_product [OF r(4) s(2) r(9) s(7)] limb_product [OF r(4) s(3) r(9) s(8)]
    limb_product [OF r(4) s(4) r(9) s(9)] limb_product [OF r(4) s(5) r(9) s(10)]
    limb_product [OF r(5) s(1) r(10) s(6)] limb_product [OF r(5) s(2) r(10) s(7)] limb_product [OF r(5) s(3) r(10) s(8)]
    limb_product [OF r(5) s(4) r(10) s(9)] limb_product [OF r(5) s(5) r(10) s(10)]
  have pw: "(2 :: int) ^ 115 = 8192 * 2 ^ 102" "(2 :: int) ^ 108 = 64 * 2 ^ 102" "(2 :: int) ^ 64 \<le> 2 ^ 102" by simp_all
  have B: "0 \<le> T0" "0 \<le> T1" "0 \<le> T2" "0 \<le> T3" "0 \<le> T4"
    "T0 \<le> 2 ^ 115 - 2 ^ 64" "T1 \<le> 2 ^ 115 - 2 ^ 64" "T2 \<le> 2 ^ 115 - 2 ^ 64" "T3 \<le> 2 ^ 115 - 2 ^ 64"
    unfolding T0 T1 T2 T3 T4 mult.assoc using P pw by linarith+
  have "T4 \<le> 405 * 2 ^ 102" unfolding T4 using P by linarith
  then have B4: "2 * T4 \<le> 13 * 2 ^ 108" by simp
  show "fle radix (fmul b a)" unfolding run by (rule fcarry_correct(1) [OF refl B B4])
  have "fval a * fval b = T0 + radix * T1 + radix ^ 2 * T2 + radix ^ 3 * T3 + radix ^ 4 * T4 + (radix ^ 5 - 19) *
      (r4 * s1 + r1 * s4 + r2 * s3 + r3 * s2 + radix * (r4 * s2 + r2 * s4 + r3 * s3) + radix ^ 2 * (r4 * s3 + r3 * s4)
        + radix ^ 3 * (r4 * s4))"
    unfolding a b fval_def prod.case T0 T1 T2 T3 T4 uint_wi64 [OF r(1) rw(1)] uint_wi64 [OF r(2) rw(2)] uint_wi64 [OF r(3) rw(3)]
      uint_wi64 [OF r(4) rw(4)] uint_wi64 [OF r(5) rw(5)] uint_wi64 [OF s(1) sw(1)] uint_wi64 [OF s(2) sw(2)]
      uint_wi64 [OF s(3) sw(3)] uint_wi64 [OF s(4) sw(4)] uint_wi64 [OF s(5) sw(5)]
    by (rule fold_product)
  then show "fval (fmul b a) mod p25519 = fval a * fval b mod p25519"
    unfolding run fcarry_correct(2) [OF refl B B4] by (simp only: radix5 add_diff_cancel mod_mult_self2)
qed

lemma fsquare_correct:
  assumes "fle long_limb a"
  shows "fle radix (fsquare a)" and "fval (fsquare a) mod p25519 = fval a * fval a mod p25519"
proof -
  obtain r0 r1 r2 r3 r4 where a: "a = (wi64 r0, wi64 r1, wi64 r2, wi64 r3, wi64 r4)"
    and r: "0 \<le> r0" "0 \<le> r1" "0 \<le> r2" "0 \<le> r3" "0 \<le> r4" "r0 \<le> long_limb" "r1 \<le> long_limb" "r2 \<le> long_limb"
      "r3 \<le> long_limb" "r4 \<le> long_limb"
    and rw: "r0 < 2 ^ 64" "r1 < 2 ^ 64" "r2 < 2 ^ 64" "r3 < 2 ^ 64" "r4 < 2 ^ 64"
    using assms(1) by (rule fleE)
  have m: "0 \<le> 2 * r0" "0 \<le> 2 * r1" "0 \<le> 19 * (2 * r2)" "0 \<le> 19 * r3" "0 \<le> 19 * r4" "0 \<le> 2 * (19 * r4)"
    "2 * r0 < 2 ^ 64" "2 * r1 < 2 ^ 64" "19 * (2 * r2) < 2 ^ 64" "19 * r3 < 2 ^ 64" "19 * r4 < 2 ^ 64" "2 * (19 * r4) < 2 ^ 64"
    using r by simp_all
  have sq: "fsquare a = fcarry
    (wi128 (r0 * r0 + 2 * (19 * r4) * r1 + 19 * (2 * r2) * r3), wi128 (2 * r0 * r1 + 2 * (19 * r4) * r2 + r3 * (19 * r3)),
     wi128 (2 * r0 * r2 + r1 * r1 + 2 * (19 * r4) * r3), wi128 (2 * r0 * r3 + 2 * r1 * r2 + r4 * (19 * r4)),
     wi128 (2 * r0 * r4 + 2 * r1 * r3 + r2 * r2))"
    unfolding fsquare_def a prod.case Let_def
    by (simp only: wi_arith(5,6) widen [OF r(1) rw(1)] widen [OF r(2) rw(2)] widen [OF r(3) rw(3)] widen [OF r(4) rw(4)]
        widen [OF r(5) rw(5)] widen [OF m(1) m(7)] widen [OF m(2) m(8)] widen [OF m(3) m(9)] widen [OF m(4) m(10)]
        widen [OF m(5) m(11)] widen [OF m(6) m(12)] wi_arith(3,4))
  have n: "0 \<le> 19 * r1" "0 \<le> 19 * r2" "19 * r1 < 2 ^ 64" "19 * r2 < 2 ^ 64" using r by simp_all
  have "fmul a a = fsquare a"
    unfolding sq unfolding fmul_def a prod.case Let_def
    apply (simp only: wi_arith(5) widen [OF r(1) rw(1)] widen [OF r(2) rw(2)] widen [OF r(3) rw(3)] widen [OF r(4) rw(4)]
        widen [OF r(5) rw(5)] widen [OF m(4) m(10)] widen [OF m(5) m(11)] widen [OF n(1) n(3)] widen [OF n(2) n(4)] wi_arith(3,4))
    by (intro arg_cong [where f = fcarry] arg_cong2 [where f = Pair] arg_cong [where f = word_of_int]; simp)
  then show "fle radix (fsquare a)" "fval (fsquare a) mod p25519 = fval a * fval a mod p25519"
    using fmul_correct [OF assms assms] by simp_all
qed

section \<open>Representatives\<close>

text \<open>The element represents an integer modulo the prime, with bounded limbs.\<close>

definition frep :: "int \<Rightarrow> felem \<Rightarrow> int \<Rightarrow> bool" where
  "frep m f x \<longleftrightarrow> fle m f \<and> fval f mod p25519 = x mod p25519"

lemma frep_mono: "frep m f x \<Longrightarrow> m \<le> n \<Longrightarrow> frep n f x"
  by (auto simp: frep_def fle_def)

lemma frep_mod: "frep m f x \<Longrightarrow> x mod p25519 = y mod p25519 \<Longrightarrow> frep m f y"
  by (simp add: frep_def)

lemma fmul_rep:
  assumes "frep long_limb a x" "frep long_limb b y"
  shows "frep radix (fmul b a) (x * y)"
  using fmul_correct [of a b] assms mod_mult_cong [of "fval a" p25519 x "fval b" y] by (simp add: frep_def)

lemma fsquare_rep:
  assumes "frep long_limb a x"
  shows "frep radix (fsquare a) (x * x)"
  using fsquare_correct [of a] assms mod_mult_cong [of "fval a" p25519 x "fval a" x] by (simp add: frep_def)

lemma fsquare_pow_rep:
  assumes "frep long_limb a x"
  shows "frep (if n = 0 then long_limb else radix) ((fsquare ^^ n) a) (x ^ (2 ^ n))"
proof (induction n)
  case 0
  then show ?case using assms by simp
next
  case (Suc n)
  have "frep long_limb ((fsquare ^^ n) a) (x ^ (2 ^ n))"
    using Suc.IH by (rule frep_mono) simp
  from fsquare_rep [OF this] show ?case
    by (simp only: funpow.simps o_apply power_add [symmetric] power_Suc mult_2) simp
qed

lemma fsquare_times_rep:
  assumes "frep long_limb a x" "0 < unat n"
  shows "frep radix (fsquare_times a n) (x ^ (2 ^ unat n))"
proof -
  have "n \<noteq> 0" using assms(2) by auto
  then show ?thesis using fsquare_pow_rep [OF assms(1), of "unat n"] assms(2) unfolding fsquare_times_def by simp
qed

lemma fsum_rep:
  assumes "frep m a x" "frep n b y" "m + n < 2 ^ 64"
  shows "frep (m + n) (fsum a b) (x + y)"
proof -
  obtain r0 r1 r2 r3 r4 where a: "a = (wi64 r0, wi64 r1, wi64 r2, wi64 r3, wi64 r4)"
    and r: "0 \<le> r0" "0 \<le> r1" "0 \<le> r2" "0 \<le> r3" "0 \<le> r4" "r0 \<le> m" "r1 \<le> m" "r2 \<le> m" "r3 \<le> m" "r4 \<le> m"
    using assms(1) unfolding frep_def by (blast elim: fleE)
  obtain s0 s1 s2 s3 s4 where b: "b = (wi64 s0, wi64 s1, wi64 s2, wi64 s3, wi64 s4)"
    and s: "0 \<le> s0" "0 \<le> s1" "0 \<le> s2" "0 \<le> s3" "0 \<le> s4" "s0 \<le> n" "s1 \<le> n" "s2 \<le> n" "s3 \<le> n" "s4 \<le> n"
    using assms(2) unfolding frep_def by (blast elim: fleE)
  have sum: "fsum a b = (wi64 (r0 + s0), wi64 (r1 + s1), wi64 (r2 + s2), wi64 (r3 + s3), wi64 (r4 + s4))"
    by (simp add: fsum_def a b)
  have mn: "m < 2 ^ 64" "n < 2 ^ 64" using assms(3) r(1,6) s(1,6) by linarith+
  note va = felem_wi64(2) [OF r mn(1)] and vb = felem_wi64(2) [OF s mn(2)]
  have bnd: "0 \<le> r0 + s0" "0 \<le> r1 + s1" "0 \<le> r2 + s2" "0 \<le> r3 + s3" "0 \<le> r4 + s4"
    "r0 + s0 \<le> m + n" "r1 + s1 \<le> m + n" "r2 + s2 \<le> m + n" "r3 + s3 \<le> m + n" "r4 + s4 \<le> m + n"
    using r s by linarith+
  note el = felem_wi64 [OF bnd assms(3)]
  have "fval (fsum a b) = fval a + fval b"
    unfolding sum el(2) unfolding a b va vb by (simp only: algebra_simps)
  then show ?thesis
    using assms(1,2) el(1) mod_add_cong [of "fval a" p25519 x "fval b" y] unfolding frep_def by (simp only: sum)
qed

lemma fdifference_rep:
  assumes "frep radix a x" "frep radix b y"
  shows "frep long_limb (fdifference_backwards a b) (y - x)"
proof -
  obtain r0 r1 r2 r3 r4 where a: "a = (wi64 r0, wi64 r1, wi64 r2, wi64 r3, wi64 r4)"
    and r: "0 \<le> r0" "0 \<le> r1" "0 \<le> r2" "0 \<le> r3" "0 \<le> r4" "r0 \<le> radix" "r1 \<le> radix" "r2 \<le> radix" "r3 \<le> radix" "r4 \<le> radix"
    using assms(1) unfolding frep_def by (blast elim: fleE)
  obtain s0 s1 s2 s3 s4 where b: "b = (wi64 s0, wi64 s1, wi64 s2, wi64 s3, wi64 s4)"
    and s: "0 \<le> s0" "0 \<le> s1" "0 \<le> s2" "0 \<le> s3" "0 \<le> s4" "s0 \<le> radix" "s1 \<le> radix" "s2 \<le> radix" "s3 \<le> radix" "s4 \<le> radix"
    using assms(2) unfolding frep_def by (blast elim: fleE)
  have c: "two54m152 = wi64 (2 ^ 54 - 152)" "two54m8 = wi64 (2 ^ 54 - 8)"
    by (simp_all add: two54m152_def two54m8_def)
  have w: "wi64 p + wi64 q - wi64 t = wi64 (p + q - t)" for p q t by simp
  have diff: "fdifference_backwards a b = (wi64 (s0 + (2 ^ 54 - 152) - r0), wi64 (s1 + (2 ^ 54 - 8) - r1),
      wi64 (s2 + (2 ^ 54 - 8) - r2), wi64 (s3 + (2 ^ 54 - 8) - r3), wi64 (s4 + (2 ^ 54 - 8) - r4))"
    unfolding fdifference_backwards_def a b prod.case c w by (rule refl)
  have m: "radix < 2 ^ 64" "long_limb < 2 ^ 64" by simp_all
  note va = felem_wi64(2) [OF r m(1)] and vb = felem_wi64(2) [OF s m(1)]
  have bnd: "0 \<le> s0 + (2 ^ 54 - 152) - r0" "0 \<le> s1 + (2 ^ 54 - 8) - r1" "0 \<le> s2 + (2 ^ 54 - 8) - r2"
    "0 \<le> s3 + (2 ^ 54 - 8) - r3" "0 \<le> s4 + (2 ^ 54 - 8) - r4"
    "s0 + (2 ^ 54 - 152) - r0 \<le> long_limb" "s1 + (2 ^ 54 - 8) - r1 \<le> long_limb" "s2 + (2 ^ 54 - 8) - r2 \<le> long_limb"
    "s3 + (2 ^ 54 - 8) - r3 \<le> long_limb" "s4 + (2 ^ 54 - 8) - r4 \<le> long_limb"
    using r s by simp_all
  note el = felem_wi64 [OF bnd m(2)]
  have "fval (fdifference_backwards a b) = fval b - fval a + 8 * p25519"
    unfolding diff el(2) unfolding a b va vb p25519_def by (simp add: algebra_simps)
  then have "fval (fdifference_backwards a b) mod p25519 = (fval b - fval a) mod p25519" by simp
  then show ?thesis
    using assms(1,2) el(1) mod_diff_cong [of "fval b" p25519 y "fval a" x] unfolding frep_def by (simp only: diff)
qed

lemma fscalar_product_rep:
  assumes "frep long_limb a x"
  shows "frep (2 ^ 52) (fscalar_product a 121665) (121665 * x)"
proof -
  obtain r0 r1 r2 r3 r4 where a: "a = (wi64 r0, wi64 r1, wi64 r2, wi64 r3, wi64 r4)"
    and r: "0 \<le> r0" "0 \<le> r1" "0 \<le> r2" "0 \<le> r3" "0 \<le> r4" "r0 \<le> long_limb" "r1 \<le> long_limb" "r2 \<le> long_limb"
      "r3 \<le> long_limb" "r4 \<le> long_limb"
    using assms unfolding frep_def by (blast elim: fleE)
  have rw: "r0 < 2 ^ 64" "r1 < 2 ^ 64" "r2 < 2 ^ 64" "r3 < 2 ^ 64" "r4 < 2 ^ 64" using r by simp_all
  define k :: int where k: "k = 121665"
  define o0 c0 where 0: "o0 = (r0 * k) mod radix" "c0 = (r0 * k) div radix"
  define o1 c1 where 1: "o1 = (r1 * k + c0) mod radix" "c1 = (r1 * k + c0) div radix"
  define o2 c2 where 2: "o2 = (r2 * k + c1) mod radix" "c2 = (r2 * k + c1) div radix"
  define o3 c3 where 3: "o3 = (r3 * k + c2) mod radix" "c3 = (r3 * k + c2) div radix"
  define o4 c4 where 4: "o4 = (r4 * k + c3) mod radix" "c4 = (r4 * k + c3) div radix"
  have hi: "0 \<le> y div radix" "y div radix < 2 ^ 21" if "0 \<le> y" "y \<le> long_limb * 121665 + 2 ^ 21" for y :: int
    using div_radix_less [of y "2 ^ 21"] div_radix_nonneg [of y] that by simp_all
  have c0: "0 \<le> c0" "c0 < 2 ^ 21" unfolding 0 k using r by (intro hi; simp)+
  have c1: "0 \<le> c1" "c1 < 2 ^ 21" unfolding 1 k using r c0 by (intro hi; simp)+
  have c2: "0 \<le> c2" "c2 < 2 ^ 21" unfolding 2 k using r c1 by (intro hi; simp)+
  have c3: "0 \<le> c3" "c3 < 2 ^ 21" unfolding 3 k using r c2 by (intro hi; simp)+
  have c4: "0 \<le> c4" "c4 < 2 ^ 21" unfolding 4 k using r c3 by (intro hi; simp)+
  have rng: "0 \<le> y mod radix" "y mod radix < radix" for y :: int by simp_all
  have o: "0 \<le> o0" "o0 < radix" "0 \<le> o1" "o1 < radix" "0 \<le> o2" "o2 < radix" "0 \<le> o3" "o3 < radix" "0 \<le> o4" "o4 < radix"
    by (simp_all only: 0 1 2 3 4 rng)
  have w: "ucast (121665 :: u64) = wi128 k" "wi128 p * 19 = wi128 (19 * p)" for p by (simp_all add: k)
  have cw: "c0 < 2 ^ 64" "c1 < 2 ^ 64" "c2 < 2 ^ 64" "c3 < 2 ^ 64" "o0 < 2 ^ 64" using c0 c1 c2 c3 o by simp_all
  have b: "0 \<le> r0 * k" "r0 * k < 2 ^ 128" "0 \<le> r1 * k + c0" "r1 * k + c0 < 2 ^ 128" "0 \<le> r2 * k + c1" "r2 * k + c1 < 2 ^ 128"
    "0 \<le> r3 * k + c2" "r3 * k + c2 < 2 ^ 128" "0 \<le> r4 * k + c3" "r4 * k + c3 < 2 ^ 128"
    unfolding k using r c0 c1 c2 c3 by simp_all
  have run: "fscalar_product a 121665 = (wi64 (o0 + 19 * c4), wi64 o1, wi64 o2, wi64 o3, wi64 o4)"
    unfolding fscalar_product_def a prod.case Let_def
    by (simp only: w widen [OF r(1) rw(1)] widen [OF r(2) rw(2)] widen [OF r(3) rw(3)] widen [OF r(4) rw(4)]
        widen [OF r(5) rw(5)] wi_arith(3,4) high128 [OF b(1,2)] narrow low51 widen [OF c0(1) cw(1)] widen [OF c1(1) cw(2)]
        widen [OF c2(1) cw(3)] widen [OF c3(1) cw(4)] high128 [OF b(3,4)] high128 [OF b(5,6)] high128 [OF b(7,8)]
        high128 [OF b(9,10)] widen [OF o(1) cw(5)] 0 [symmetric] 1 [symmetric] 2 [symmetric] 3 [symmetric] 4 [symmetric])
  have bnd: "0 \<le> o0 + 19 * c4" "0 \<le> o1" "0 \<le> o2" "0 \<le> o3" "0 \<le> o4"
    "o0 + 19 * c4 \<le> 2 ^ 52" "o1 \<le> 2 ^ 52" "o2 \<le> 2 ^ 52" "o3 \<le> 2 ^ 52" "o4 \<le> 2 ^ 52" "2 ^ 52 < (2 ^ 64 :: int)"
    using o c4 by simp_all
  note el = felem_wi64 [OF bnd]
  have m: "long_limb < 2 ^ 64" by simp
  have e: "r0 * k = o0 + radix * c0" "r1 * k + c0 = o1 + radix * c1" "r2 * k + c1 = o2 + radix * c2" "r3 * k + c2 = o3 + radix * c3"
    "r4 * k + c3 = o4 + radix * c4" unfolding 0 1 2 3 4 by (simp_all only: mod_mult_div_eq)
  have "fval a * k = fval (fscalar_product a 121665) + p25519 * c4"
    using carry_value [OF e] unfolding run el(2) unfolding a felem_wi64(2) [OF r m] radix5 by (simp only: algebra_simps)
  then have "fval (fscalar_product a 121665) mod p25519 = fval a * k mod p25519" by simp
  also have "\<dots> = 121665 * x mod p25519"
    unfolding k using assms mod_mult_cong [of "fval a" p25519 x 121665 121665] by (simp add: frep_def mult.commute)
  finally show ?thesis using el(1) unfolding frep_def run by blast
qed

section \<open>Properties\<close>

text \<open>(C27) Multiplication and squaring of field elements whose limbs are at most \<open>2^54 + 2^51\<close> lose no
  carry: the results have limbs of at most \<open>2^51\<close> and represent the product modulo \<open>2^255 - 19\<close>.\<close>

theorem fmul_field:
  assumes "fle long_limb a" "fle long_limb b"
  shows "fle radix (fmul b a) \<and> fval (fmul b a) mod p25519 = fval a * fval b mod p25519 \<and>
    fle radix (fsquare a) \<and> fval (fsquare a) mod p25519 = fval a * fval a mod p25519"
  using fmul_correct [OF assms] fsquare_correct [OF assms(1)] by blast

theorem fmul_field_witness:
  "let a = (5, 4, 3, 2, 0x47ffffffffffff); b = (7, 6, 0x47ffffffffffff, 1, 0) in
    fle long_limb a \<and> fle long_limb b \<and> fval (fmul b a) mod p25519 = fval a * fval b mod p25519"
proof -
  have "fle long_limb (5, 4, 3, 2, 0x47ffffffffffff)" "fle long_limb (7, 6, 0x47ffffffffffff, 1, 0)"
    by (simp_all add: fle_def)
  then show ?thesis unfolding Let_def using fmul_field by blast
qed

text \<open>The bound \<open>2^55\<close> that the comment above \<open>fmul\<close> states is not enough: with every limb equal to
  \<open>2^55 - 1\<close> the product modulo the prime is wrong.\<close>

theorem fmul_documented_bound:
  "\<exists>a. fle (2 ^ 55 - 1) a \<and> fval (fmul a a) mod p25519 \<noteq> fval a * fval a mod p25519"
proof -
  let ?a = "(0x7fffffffffffff, 0x7fffffffffffff, 0x7fffffffffffff, 0x7fffffffffffff, 0x7fffffffffffff) :: felem"
  have "fle (2 ^ 55 - 1) ?a" by (simp add: fle_def)
  moreover have "fval (fmul ?a ?a) mod p25519 \<noteq> fval ?a * fval ?a mod p25519" by code_simp
  ultimately show ?thesis by blast
qed

end
