(* ===== verification/Curve_Ladder.thy ===== *)
theory Curve_Ladder
  imports Curve_Arith
begin

text \<open>
  Reading and writing points, the Montgomery ladder, the inversion and the whole function of
  \<open>curve25519-donna-c64.c\<close>.  The specification \<open>x25519\<close> is the ladder over the integers modulo the
  prime, one step for each of the 256 scalar bits as in the code, and the inverse as a power;
  the function is proved equal to it on every scalar and every point.
\<close>

section \<open>Little-endian integers\<close>

definition le_int :: "bytes \<Rightarrow> int" where
  "le_int bs = horner_sum uint 256 bs"

definition le_bytes :: "nat \<Rightarrow> int \<Rightarrow> bytes" where
  "le_bytes n x = map (\<lambda>i. word_of_int (drop_bit (8 * i) x)) [0..<n]"

lemma bit_le_int: "bit (le_int bs) n \<longleftrightarrow> n < 8 * length bs \<and> bit (bs ! (n div 8)) (n mod 8)"
proof (induction bs arbitrary: n)
  case Nil
  then show ?case by (simp add: le_int_def)
next
  case (Cons b bs)
  have "le_int (b # bs) = uint b + push_bit 8 (le_int bs)" by (simp add: le_int_def push_bit_eq_mult)
  also have "\<dots> = uint b OR push_bit 8 (le_int bs)"
    by (rule disjunctive_add) (auto simp: bit_simps)
  finally have e: "bit (le_int (b # bs)) n \<longleftrightarrow> bit b n \<or> 8 \<le> n \<and> bit (le_int bs) (n - 8)"
    by (simp add: bit_simps)
  show ?case
  proof (cases "n < 8")
    case True
    then show ?thesis by (simp add: e)
  next
    case False
    then have "n div 8 = Suc ((n - 8) div 8)" "n mod 8 = (n - 8) mod 8" by (simp_all add: le_div_geq le_mod_geq)
    with False show ?thesis by (auto simp: e Cons.IH)
  qed
qed

lemma le_int_nonneg: "0 \<le> le_int bs"
  by (induction bs) (simp_all add: le_int_def)

lemma bit_load_limb:
  assumes "n < 64"
  shows "bit (load_limb b) n = bit (b ! (n div 8)) (n mod 8)"
proof -
  have "list_all (\<lambda>n. bit (load_limb b) n = bit (b ! (n div 8)) (n mod 8)) [0..<64]"
    by (simp add: load_limb_def bit_simps upt_bits)
  then show ?thesis using assms by (simp add: list_all_iff)
qed

lemma store_limb_bytes: "store_limb x = le_bytes 8 (uint x)"
  unfolding store_limb_def le_bytes_def upt_bits list.map list.inject
  by (intro conjI refl; rule word_eq_bitwiseI; simp add: bit_simps upt_bits)

section \<open>Reading a point\<close>

lemma bit_low51: "bit (w AND 0x7ffffffffffff) n \<longleftrightarrow> n < 51 \<and> bit w n" for w :: u64
  using bit_mask_iff [where 'a = u64, of 51 n] by (auto simp: mask_eq_exp_minus_1 bit_and_iff)

lemma uint_eq_take_drop:
  fixes w :: u64
  assumes "\<And>n. bit w n \<longleftrightarrow> n < 51 \<and> bit (v :: int) (k + n)"
  shows "w = wi64 (v div 2 ^ k mod radix)"
  unfolding drop_bit_eq_div [symmetric] take_bit_eq_mod [symmetric]
  by (rule bit_word_eqI) (auto simp: assms bit_simps)

lemma fexpand_digits:
  assumes "length b = 32"
  shows "fexpand b = (let v = le_int b in (wi64 (v mod radix), wi64 (v div radix mod radix), wi64 (v div 2 ^ 102 mod radix),
    wi64 (v div 2 ^ 153 mod radix), wi64 (v div 2 ^ 204 mod radix)))"
proof -
  have d: "(8 * k + m) div 8 = k + m div 8" "(8 * k + m) mod 8 = m mod 8" for k m :: nat by simp_all
  have x: "load_limb b AND 0x7ffffffffffff = wi64 (le_int b div 2 ^ 0 mod radix)"
    by (rule uint_eq_take_drop) (auto simp: bit_low51 bit_load_limb bit_le_int assms)
  have y: "drop_bit j (load_limb (drop k b)) AND 0x7ffffffffffff = wi64 (le_int b div 2 ^ (8 * k + j) mod radix)"
    if "j + 51 \<le> 64" "8 * k + j + 51 \<le> 256" for j k
  proof (rule uint_eq_take_drop)
    show "bit (drop_bit j (load_limb (drop k b)) AND 0x7ffffffffffff) n \<longleftrightarrow> n < 51 \<and> bit (le_int b) (8 * k + j + n)" for n
    proof (cases "n < 51")
      case True
      then have "(j + n) div 8 < 32 - k" "k \<le> 32" using that by simp_all
      with True that show ?thesis
        using d [of k "j + n"] by (simp add: bit_low51 bit_load_limb bit_le_int assms bit_drop_bit_eq add.assoc)
    qed (simp add: bit_low51)
  qed
  show ?thesis unfolding fexpand_def Let_def
    using x y [of 3 6] y [of 6 12] y [of 1 19] y [of 12 24] by (simp only: prod.inject) simp
qed

lemma digits_sum:
  "v mod radix + radix * (v div radix mod radix) + radix ^ 2 * (v div 2 ^ 102 mod radix) + radix ^ 3 * (v div 2 ^ 153 mod radix)
    + radix ^ 4 * (v div 2 ^ 204) = (v :: int)"
proof -
  have q: "v div 2 ^ 102 = v div radix div radix" "v div 2 ^ 153 = v div radix div radix div radix"
    "v div 2 ^ 204 = v div radix div radix div radix div radix" by (simp_all add: zdiv_zmult2_eq [symmetric])
  have s: "x mod radix + radix * (x div radix) = x" for x :: int by simp
  have "radix ^ 2 * a = radix * (radix * a)" "radix ^ 3 * a = radix * (radix * (radix * a))"
    "radix ^ 4 * a = radix * (radix * (radix * (radix * a)))" for a :: int by simp_all
  then have "v mod radix + radix * (v div radix mod radix) + radix ^ 2 * (v div 2 ^ 102 mod radix) + radix ^ 3 * (v div 2 ^ 153 mod radix)
    + radix ^ 4 * (v div 2 ^ 204) = v mod radix + radix * (v div radix mod radix + radix * (v div radix div radix mod radix
    + radix * (v div radix div radix div radix mod radix + radix * (v div radix div radix div radix div radix))))"
    unfolding q by (simp only: distrib_left add.assoc)
  then show ?thesis by (simp only: s)
qed

lemma digits_mod:
  "v mod radix + radix * (v div radix mod radix) + radix ^ 2 * (v div 2 ^ 102 mod radix) + radix ^ 3 * (v div 2 ^ 153 mod radix)
    + radix ^ 4 * (v div 2 ^ 204 mod radix) = (v :: int) mod 2 ^ 255"
proof -
  have e: "v div 2 ^ 204 = v div 2 ^ 204 mod radix + radix * (v div 2 ^ 255)" 
    using zdiv_zmult2_eq [of radix v "2 ^ 204"] by simp
  have "v = (v mod radix + radix * (v div radix mod radix) + radix ^ 2 * (v div 2 ^ 102 mod radix) + radix ^ 3 * (v div 2 ^ 153 mod radix)
    + radix ^ 4 * (v div 2 ^ 204 mod radix)) + 2 ^ 255 * (v div 2 ^ 255)"
    using digits_sum [of v] unfolding e [THEN arg_cong, of "\<lambda>x. radix ^ 4 * x"] by (simp add: distrib_left)
  then show ?thesis using mult_div_mod_eq [of "2 ^ 255" v] by linarith
qed

lemma fexpand_value:
  assumes "length b = 32"
  shows "fle radix (fexpand b)" "fval (fexpand b) = le_int b mod 2 ^ 255"
proof -
  let ?v = "le_int b"
  have r: "0 \<le> x mod radix" "x mod radix \<le> radix" for x :: int by (simp_all add: less_imp_le)
  have m: "radix < 2 ^ 64" by simp
  note el = felem_wi64 [OF r(1) [of ?v] r(1) [of "?v div radix"] r(1) [of "?v div 2 ^ 102"] r(1) [of "?v div 2 ^ 153"] r(1) [of "?v div 2 ^ 204"]
    r(2) [of ?v] r(2) [of "?v div radix"] r(2) [of "?v div 2 ^ 102"] r(2) [of "?v div 2 ^ 153"] r(2) [of "?v div 2 ^ 204"] m]
  show "fle radix (fexpand b)" unfolding fexpand_digits [OF assms] Let_def by (rule el(1))
  show "fval (fexpand b) = le_int b mod 2 ^ 255" unfolding fexpand_digits [OF assms] Let_def el(2) digits_mod by (rule refl)
qed

lemma fexpand_rep: "length b = 32 \<Longrightarrow> frep radix (fexpand b) (le_int b mod 2 ^ 255)"
  by (simp add: frep_def fexpand_value del: power_numeral)

section \<open>Writing a field element\<close>

text \<open>The carries of \<open>fcontract\<close> put the value into its digits; each way round subtracts the
  prime as often as the value exceeds \<open>2^255\<close>.\<close>

definition wide_val :: "int \<Rightarrow> int \<Rightarrow> int \<Rightarrow> int \<Rightarrow> int \<Rightarrow> int" where
  "wide_val a b c d e = a + radix * b + radix ^ 2 * c + radix ^ 3 * d + radix ^ 4 * e"

lemma carry_up_digits:
  assumes "0 \<le> a" "0 \<le> b" "0 \<le> c" "0 \<le> d" "0 \<le> e"
    and "a < 2 ^ 64" "b < 2 ^ 64" "c < 2 ^ 64" "d < 2 ^ 64" "e < 2 ^ 64" and v: "v = wide_val a b c d e"
  shows "carry_up (wi128 a, wi128 b, wi128 c, wi128 d, wi128 e)
    = (wi128 (v mod radix), wi128 (v div radix mod radix), wi128 (v div 2 ^ 102 mod radix), wi128 (v div 2 ^ 153 mod radix),
       wi128 (v div 2 ^ 204))"
proof -
  define k0 where k0: "k0 = a div radix"
  define k1 where k1: "k1 = (b + k0) div radix"
  define k2 where k2: "k2 = (c + k1) div radix"
  define k3 where k3: "k3 = (d + k2) div radix"
  have hi: "0 \<le> x div radix" "x div radix < 2 ^ 64" if "0 \<le> x" "x < 2 ^ 65" for x :: int
    using div_radix_less [of x "2 ^ 64"] div_radix_nonneg [of x] that by simp_all
  have b0: "0 \<le> k0" "k0 < 2 ^ 64" unfolding k0 using assms(1,6) by (intro hi; simp)+
  have b1: "0 \<le> k1" "k1 < 2 ^ 64" unfolding k1 using assms(2,7) b0 by (intro hi; simp)+
  have b2: "0 \<le> k2" "k2 < 2 ^ 64" unfolding k2 using assms(3,8) b1 by (intro hi; simp)+
  have w: "0 \<le> a" "a < 2 ^ 128" "0 \<le> b + k0" "b + k0 < 2 ^ 128" "0 \<le> c + k1" "c + k1 < 2 ^ 128" "0 \<le> d + k2" "d + k2 < 2 ^ 128"
    using assms b0 b1 b2 by simp_all
  have run: "carry_up (wi128 a, wi128 b, wi128 c, wi128 d, wi128 e)
    = (wi128 (a mod radix), wi128 ((b + k0) mod radix), wi128 ((c + k1) mod radix), wi128 ((d + k2) mod radix), wi128 (e + k3))"
    unfolding carry_up_def prod.case Let_def
    by (simp only: high128 [OF w(1,2)] wi_arith(3) k0 [symmetric] high128 [OF w(3,4)] k1 [symmetric] high128 [OF w(5,6)]
        k2 [symmetric] high128 [OF w(7,8)] k3 [symmetric] low51)
  have step: "(x + radix * y) mod radix = x mod radix" "(x + radix * y) div radix = y + x div radix" for x y :: int by simp_all
  have h: "v = a + radix * (b + radix * (c + radix * (d + radix * e)))"
    unfolding v wide_val_def by (simp add: algebra_simps)
  have q1: "v div radix = (b + k0) + radix * (c + radix * (d + radix * e))" unfolding h step k0 by simp
  have q2: "v div radix div radix = (c + k1) + radix * (d + radix * e)" unfolding q1 step k1 by simp
  have q3: "v div radix div radix div radix = (d + k2) + radix * e" unfolding q2 step k2 by simp
  have q4: "v div radix div radix div radix div radix = e + k3" unfolding q3 step k3 by simp
  have q: "v div 2 ^ 102 = v div radix div radix" "v div 2 ^ 153 = v div radix div radix div radix"
    "v div 2 ^ 204 = v div radix div radix div radix div radix" by (simp_all add: zdiv_zmult2_eq [symmetric])
  have "v mod radix = a mod radix" unfolding h step by (rule refl)
  moreover have "v div radix mod radix = (b + k0) mod radix" unfolding q1 step by (rule refl)
  moreover have "v div radix div radix mod radix = (c + k1) mod radix" unfolding q2 step by (rule refl)
  moreover have "v div radix div radix div radix mod radix = (d + k2) mod radix" unfolding q3 step by (rule refl)
  ultimately show ?thesis
    unfolding run q q4 by (simp only:)
qed

text \<open>What one way round does to the value, and the bounds it leaves.\<close>

definition around :: "int \<Rightarrow> int" where
  "around v = v mod 2 ^ 255 + 19 * (v div 2 ^ 255)"

lemma around_value: "around v = v - p25519 * (v div 2 ^ 255)"
proof -
  have "p25519 * (v div 2 ^ 255) = 2 ^ 255 * (v div 2 ^ 255) - 19 * (v div 2 ^ 255)"
    unfolding p25519_def by (simp only: left_diff_distrib)
  then show ?thesis unfolding around_def using mult_div_mod_eq [of "2 ^ 255" v] by linarith
qed

lemma carry_around_digits:
  assumes "0 \<le> a" "0 \<le> b" "0 \<le> c" "0 \<le> d" "0 \<le> e"
    and "a < 2 ^ 64" "b < 2 ^ 64" "c < 2 ^ 64" "d < 2 ^ 64" "e < 2 ^ 64" and v: "v = wide_val a b c d e"
  obtains a' b' c' d' e' where "carry_around (wi128 a, wi128 b, wi128 c, wi128 d, wi128 e) = (wi128 a', wi128 b', wi128 c', wi128 d', wi128 e')"
    and "a' = v mod radix + 19 * (v div 2 ^ 255)" "0 \<le> b'" "b' < radix" "0 \<le> c'" "c' < radix" "0 \<le> d'" "d' < radix" "0 \<le> e'" "e' < radix"
    and "wide_val a' b' c' d' e' = around v"
proof (rule that)
  have nn: "0 \<le> v" unfolding v wide_val_def using assms by simp
  have q: "0 \<le> v div 2 ^ 204" using nn by (simp add: pos_imp_zdiv_nonneg_iff)
  have "radix ^ 4 * (v div 2 ^ 204) \<le> v" using mult_div_mod_eq [of "2 ^ 204" v] pos_mod_sign [of "2 ^ 204" v] by simp
  moreover have "v < radix ^ 4 * 2 ^ 65" unfolding v wide_val_def using assms(6-10) by simp
  ultimately have "radix ^ 4 * (v div 2 ^ 204) < radix ^ 4 * 2 ^ 65" by (rule le_less_trans)
  then have q': "v div 2 ^ 204 < 2 ^ 128" by simp
  have e: "v div 2 ^ 204 div radix = v div 2 ^ 255" using zdiv_zmult2_eq [of radix v "2 ^ 204"] by simp
  have w19: "19 * wi128 x = wi128 (19 * x)" for x by simp
  show "carry_around (wi128 a, wi128 b, wi128 c, wi128 d, wi128 e) = (wi128 (v mod radix + 19 * (v div 2 ^ 255)), wi128 (v div radix mod radix),
      wi128 (v div 2 ^ 102 mod radix), wi128 (v div 2 ^ 153 mod radix), wi128 (v div 2 ^ 204 mod radix))"
    unfolding carry_around_def carry_up_digits [OF assms] prod.case high128 [OF q q'] e low51 w19 wi_arith(3) by (rule refl)
  show "wide_val (v mod radix + 19 * (v div 2 ^ 255)) (v div radix mod radix) (v div 2 ^ 102 mod radix) (v div 2 ^ 153 mod radix)
      (v div 2 ^ 204 mod radix) = around v"
    using digits_mod [of v] unfolding wide_val_def around_def by linarith
qed simp_all

lemma around_mod: "around v mod p25519 = v mod p25519"
  unfolding around_value using mod_mult_self2 [of "v - p25519 * (v div 2 ^ 255)" p25519 "v div 2 ^ 255"]
  by (simp only: diff_add_cancel)

lemma around_twice:
  assumes "0 \<le> v" "v < 2 ^ 260"
  shows "0 \<le> around v" "around v < 2 ^ 255 + 2 ^ 10" "0 \<le> around (around v)" "around (around v) < 2 ^ 255"
proof -
  have r: "0 \<le> x mod 2 ^ 255" "x mod 2 ^ 255 < 2 ^ 255" for x :: int by simp_all
  have small: "x div 2 ^ 255 < k" if "x < 2 ^ 255 * k" for x k :: int
  proof (rule ccontr)
    assume "\<not> x div 2 ^ 255 < k"
    then have "2 ^ 255 * k \<le> 2 ^ 255 * (x div 2 ^ 255)" by simp
    then show False using that mult_div_mod_eq [of "2 ^ 255" x] r [of x] by linarith
  qed
  have d: "0 \<le> v div 2 ^ 255" "v div 2 ^ 255 < 32" using small [of v 32] assms by (simp_all add: pos_imp_zdiv_nonneg_iff)
  show a: "0 \<le> around v" "around v < 2 ^ 255 + 2 ^ 10" unfolding around_def using d r [of v] by simp_all
  have d2: "0 \<le> around v div 2 ^ 255" "around v div 2 ^ 255 < 2" using small [of "around v" 2] a by (simp_all add: pos_imp_zdiv_nonneg_iff)
  show "0 \<le> around (around v)" unfolding around_def [of "around v"] using d2 r [of "around v"] by simp
  show "around (around v) < 2 ^ 255"
  proof (cases "around v div 2 ^ 255 = 0")
    case True
    then show ?thesis unfolding around_def [of "around v"] using r [of "around v"] by simp
  next
    case False
    then have "around v div 2 ^ 255 = 1" using d2 by linarith
    then show ?thesis using a(2) unfolding around_value [of "around v"] p25519_def by simp
  qed
qed

lemma wide_val_bounds:
  assumes "0 \<le> a" "0 \<le> b" "0 \<le> c" "0 \<le> d" "0 \<le> e" "a \<le> 2 ^ 53" "b \<le> 2 ^ 53" "c \<le> 2 ^ 53" "d \<le> 2 ^ 53" "e \<le> 2 ^ 53"
  shows "0 \<le> wide_val a b c d e" "wide_val a b c d e < 2 ^ 260"
  unfolding wide_val_def using assms by simp_all

text \<open>Adding 19 and going round once more compares with the prime.\<close>

lemma around_compare:
  assumes "0 \<le> v" "v < 2 ^ 255"
  shows "around (v + 19) = v mod p25519 + 19"
proof (cases "v < p25519")
  case True
  then have "(v + 19) div 2 ^ 255 = 0" using assms by (simp add: p25519_def)
  then show ?thesis unfolding around_value using True assms by simp
next
  case False
  have "v - p25519 < p25519" using assms by (simp add: p25519_def)
  then have m: "v mod p25519 = v - p25519" using False mod_pos_pos_trivial [of "v - p25519" p25519] by simp
  have "0 \<le> v + 19 - 2 ^ 255" "v + 19 - 2 ^ 255 < 2 ^ 255" using False assms unfolding p25519_def by simp_all
  from mod_pos_pos_trivial [OF this] have "(v + 19) mod 2 ^ 255 = v + 19 - 2 ^ 255"
    using minus_mod_self2 [of "v + 19" "2 ^ 255"] by (simp only:)
  then have "2 ^ 255 * ((v + 19) div 2 ^ 255) = 2 ^ 255 * 1" using mult_div_mod_eq [of "2 ^ 255" "v + 19"] by linarith
  then have "(v + 19) div 2 ^ 255 = 1" by simp
  then show ?thesis unfolding around_value m by simp
qed

lemma le_bytes_append: "le_bytes (m + n) x = le_bytes m x @ le_bytes n (drop_bit (8 * m) x)"
  by (rule nth_equalityI) (auto simp: le_bytes_def nth_append algebra_simps)

lemma store_limb_wi64: "store_limb (wi64 x) = le_bytes 8 x"
  unfolding store_limb_bytes le_bytes_def
proof (intro map_cong refl)
  fix i assume "i \<in> set [0..<8 :: nat]"
  then have i: "i < 8" by simp
  show "(word_of_int (drop_bit (8 * i) (uint (wi64 x))) :: u8) = word_of_int (drop_bit (8 * i) x)"
    by (rule bit_word_eqI) (use i in \<open>auto simp: bit_simps\<close>)
qed

text \<open>The four output words, assembled from the digits, are the 64-bit digits of the value.\<close>

lemma output_words:
  fixes m :: int
  assumes "0 \<le> m" "m < 2 ^ 255"
  defines "d \<equiv> (\<lambda>k. wi128 (m div 2 ^ k mod radix))"
  shows "ucast (d 0 OR push_bit 51 (d 51)) = wi64 m"
    and "ucast (drop_bit 13 (d 51) OR push_bit 38 (d 102)) = wi64 (drop_bit 64 m)"
    and "ucast (drop_bit 26 (d 102) OR push_bit 25 (d 153)) = wi64 (drop_bit 128 m)"
    and "ucast (drop_bit 39 (d 153) OR push_bit 12 (d 204)) = wi64 (drop_bit 192 m)"
proof -
  have m: "take_bit 255 m = m" using assms(1,2) by (simp add: take_bit_int_eq_self)
  have top: "\<not> bit m k" if "255 \<le> k" for k
    using that bit_take_bit_iff [of 255 m k] unfolding m by simp
  have bd: "bit (d k) n \<longleftrightarrow> n < 51 \<and> bit m (k + n)" for k n
    unfolding d_def drop_bit_eq_div [symmetric] take_bit_eq_mod [symmetric] by (auto simp: bit_simps)
  have w: "wi64 (drop_bit k m) = (ucast (wi128 (drop_bit k m)) :: u64)" for k by (simp only: narrow)
  show "ucast (d 0 OR push_bit 51 (d 51)) = wi64 m"
    by (rule bit_word_eqI) (auto simp: bit_simps bd top)
  show "ucast (drop_bit 13 (d 51) OR push_bit 38 (d 102)) = wi64 (drop_bit 64 m)"
    by (rule bit_word_eqI) (auto simp: bit_simps bd top)
  show "ucast (drop_bit 26 (d 102) OR push_bit 25 (d 153)) = wi64 (drop_bit 128 m)"
    by (rule bit_word_eqI) (auto simp: bit_simps bd top)
  show "ucast (drop_bit 39 (d 153) OR push_bit 12 (d 204)) = wi64 (drop_bit 192 m)"
  proof (rule bit_word_eqI)
    fix n :: nat assume "n < LENGTH(64)"
    then have "n < 63 \<or> n = 63" by auto
    then show "bit (ucast (drop_bit 39 (d 153) OR push_bit 12 (d 204)) :: u64) n = bit (wi64 (drop_bit 192 m)) n"
      by (auto simp: bit_simps bd top)
  qed
qed

lemma fcontract_bytes:
  assumes "fle (2 ^ 53) f"
  shows "fcontract f = le_bytes 32 (fval f mod p25519)"
proof -
  obtain r0 r1 r2 r3 r4 where f: "f = (wi64 r0, wi64 r1, wi64 r2, wi64 r3, wi64 r4)"
    and r: "0 \<le> r0" "0 \<le> r1" "0 \<le> r2" "0 \<le> r3" "0 \<le> r4" "r0 \<le> 2 ^ 53" "r1 \<le> 2 ^ 53" "r2 \<le> 2 ^ 53" "r3 \<le> 2 ^ 53" "r4 \<le> 2 ^ 53"
    and rw: "r0 < 2 ^ 64" "r1 < 2 ^ 64" "r2 < 2 ^ 64" "r3 < 2 ^ 64" "r4 < 2 ^ 64"
    using assms by (rule fleE)
  define v where v: "v = wide_val r0 r1 r2 r3 r4"
  have fv: "fval f = v" unfolding f v wide_val_def by (rule felem_wi64(2) [OF r]) simp
  note vb = wide_val_bounds [OF r, folded v] note tw = around_twice [OF vb]
  have small: "0 \<le> x div 2 ^ 255" "x div 2 ^ 255 < 32" if "0 \<le> x" "x < 2 ^ 260" for x :: int
  proof -
    have "2 ^ 255 * (x div 2 ^ 255) < 2 ^ 255 * 32"
      using that mult_div_mod_eq [of "2 ^ 255" x] pos_mod_sign [of "2 ^ 255" x] by simp
    then show "x div 2 ^ 255 < 32" by simp
  qed (use that in \<open>simp add: pos_imp_zdiv_nonneg_iff\<close>)
  have lim: "0 \<le> x mod radix + 19 * (x div 2 ^ 255)" "x mod radix + 19 * (x div 2 ^ 255) < 2 ^ 52" if "0 \<le> x" "x < 2 ^ 260" for x
    using small [OF that] pos_mod_bound [of radix x] pos_mod_sign [of radix x] by simp_all
  obtain a1 b1 c1 d1 e1 where 1: "carry_around (wi128 r0, wi128 r1, wi128 r2, wi128 r3, wi128 r4) = (wi128 a1, wi128 b1, wi128 c1, wi128 d1, wi128 e1)"
    and a1: "a1 = v mod radix + 19 * (v div 2 ^ 255)"
    and l1: "0 \<le> b1" "b1 < radix" "0 \<le> c1" "c1 < radix" "0 \<le> d1" "d1 < radix" "0 \<le> e1" "e1 < radix"
    and v1: "wide_val a1 b1 c1 d1 e1 = around v"
    using r(1-5) rw v by (rule carry_around_digits)
  have x1: "0 \<le> a1" "a1 < 2 ^ 52" unfolding a1 by (rule lim [OF vb])+
  obtain a2 b2 c2 d2 e2 where 2: "carry_around (wi128 a1, wi128 b1, wi128 c1, wi128 d1, wi128 e1) = (wi128 a2, wi128 b2, wi128 c2, wi128 d2, wi128 e2)"
    and a2: "a2 = around v mod radix + 19 * (around v div 2 ^ 255)"
    and l2: "0 \<le> b2" "b2 < radix" "0 \<le> c2" "c2 < radix" "0 \<le> d2" "d2 < radix" "0 \<le> e2" "e2 < radix"
    and v2: "wide_val a2 b2 c2 d2 e2 = around (around v)"
    by (rule carry_around_digits [OF x1(1) l1(1,3,5,7) _ _ _ _ _ v1 [symmetric]]) (use x1 l1 in simp_all)
  have x2: "0 \<le> a2" "a2 < 2 ^ 52" unfolding a2 using tw by (intro lim; simp)+
  have v2': "around (around v) + 19 = wide_val (a2 + 19) b2 c2 d2 e2" using v2 unfolding wide_val_def by simp
  have x2': "0 \<le> a2 + 19" using x2 by simp
  obtain a3 b3 c3 d3 e3 where 3: "carry_around (wi128 (a2 + 19), wi128 b2, wi128 c2, wi128 d2, wi128 e2) = (wi128 a3, wi128 b3, wi128 c3, wi128 d3, wi128 e3)"
    and a3: "a3 = (around (around v) + 19) mod radix + 19 * ((around (around v) + 19) div 2 ^ 255)"
    and l3: "0 \<le> b3" "b3 < radix" "0 \<le> c3" "c3 < radix" "0 \<le> d3" "d3 < radix" "0 \<le> e3" "e3 < radix"
    and v3: "wide_val a3 b3 c3 d3 e3 = around (around (around v) + 19)"
    by (rule carry_around_digits [OF x2' l2(1,3,5,7) _ _ _ _ _ v2']) (use x2 l2 in simp_all)
  have x3: "0 \<le> a3" "a3 < 2 ^ 52" unfolding a3 using tw by (intro lim; simp)+
  define m where m: "m = fval f mod p25519"
  have mb: "0 \<le> m" "m < 2 ^ 255" unfolding m
    using pos_mod_bound [of p25519 "fval f"] pos_mod_sign [of p25519 "fval f"] by (simp_all add: p25519_def)
  have v3': "wide_val a3 b3 c3 d3 e3 = m + 19"
    unfolding v3 around_compare [OF tw(3,4)] around_mod m fv by (rule refl)
  define w where w: "w = wide_val (a3 + (radix - 19)) (b3 + (radix - 1)) (c3 + (radix - 1)) (d3 + (radix - 1)) (e3 + (radix - 1))"
  have wm: "w = m + 2 ^ 255" using v3' unfolding w wide_val_def by (simp add: algebra_simps)
  have up: "carry_up (wi128 (a3 + (radix - 19)), wi128 (b3 + (radix - 1)), wi128 (c3 + (radix - 1)), wi128 (d3 + (radix - 1)), wi128 (e3 + (radix - 1)))
    = (wi128 (w mod radix), wi128 (w div radix mod radix), wi128 (w div 2 ^ 102 mod radix), wi128 (w div 2 ^ 153 mod radix), wi128 (w div 2 ^ 204))"
    by (rule carry_up_digits [OF _ _ _ _ _ _ _ _ _ _ w]) (use x3 l3 in simp_all)
  have digit: "w div 2 ^ k mod radix = m div 2 ^ k mod radix" if "(2 :: int) ^ 255 = 2 ^ k * (radix * j)" for j k
    unfolding wm that by simp
  have dig: "w mod radix = m div 2 ^ 0 mod radix" using digit [of 0 "2 ^ 204"] by simp
  have dig': "w div radix mod radix = m div 2 ^ 51 mod radix" "w div 2 ^ 102 mod radix = m div 2 ^ 102 mod radix"
    "w div 2 ^ 153 mod radix = m div 2 ^ 153 mod radix" "w div 2 ^ 204 mod radix = m div 2 ^ 204 mod radix"
    by (rule digit [of 51 "2 ^ 153"], simp, rule digit [of 102 "2 ^ 102"], simp, rule digit [of 153 radix], simp,
        rule digit [of 204 1], simp)
  have c: "wi128 a + 19 = wi128 (a + 19)" "wi128 a + (0x8000000000000 - 19) = wi128 (a + (radix - 19))"
    "wi128 a + (0x8000000000000 - 1) = wi128 (a + (radix - 1))" for a by simp_all
  have "fcontract f = store_limb (wi64 m) @ store_limb (wi64 (drop_bit 64 m)) @ store_limb (wi64 (drop_bit 128 m)) @ store_limb (wi64 (drop_bit 192 m))"
    unfolding fcontract_def f prod.case Let_def widen [OF r(1) rw(1)] widen [OF r(2) rw(2)] widen [OF r(3) rw(3)] widen [OF r(4) rw(4)]
      widen [OF r(5) rw(5)] 1 2 prod.case c 3 up low51 dig dig' output_words [OF mb] by (rule refl)
  also have "\<dots> = le_bytes (8 + (8 + (8 + 8))) m"
    unfolding le_bytes_append store_limb_wi64 by simp
  finally show ?thesis unfolding m by simp
qed

section \<open>The ladder\<close>

text \<open>The specification: the Montgomery ladder over the integers modulo the prime, with the
  constant of RFC 7748, one step for each bit of the scalar from the most significant one.\<close>

definition mont_step :: "int \<Rightarrow> int \<times> int \<times> int \<times> int \<Rightarrow> int \<times> int \<times> int \<times> int" where
  "mont_step q st =
    (case st of (x, z, x', z') \<Rightarrow>
      let a = x + z; b = x - z; c = x' + z'; d = x' - z';
          da = b * c; cb = d * a; aa = a ^ 2; bb = b ^ 2; e = aa - bb
      in (bb * aa mod p25519, (121665 * e + aa) * e mod p25519, (da + cb) ^ 2 mod p25519, q * (da - cb) ^ 2 mod p25519))"

definition swap_if :: "bool \<Rightarrow> 'a \<times> 'a \<times> 'a \<times> 'a \<Rightarrow> 'a \<times> 'a \<times> 'a \<times> 'a" where
  "swap_if b st = (case st of (x, z, x', z') \<Rightarrow> if b then (x', z', x, z) else st)"

definition ladder :: "int \<Rightarrow> bool list \<Rightarrow> int \<times> int \<times> int \<times> int" where
  "ladder q bs = foldl (\<lambda>st b. swap_if b (mont_step q (swap_if b st))) (1, 0, q, 1) bs"

definition x25519 :: "int \<Rightarrow> int \<Rightarrow> int" where
  "x25519 k u = (case ladder u (map (bit k) (rev [0..<256])) of (x, z, _, _) \<Rightarrow> x * z ^ nat (p25519 - 2) mod p25519)"

definition clamp :: "int \<Rightarrow> int" where
  "clamp k = 2 ^ 254 + (k mod 2 ^ 254) div 8 * 8"

fun reps :: "felem \<times> felem \<times> felem \<times> felem \<Rightarrow> int \<times> int \<times> int \<times> int \<Rightarrow> bool" where
  "reps (a, b, c, d) (x, z, x', z') \<longleftrightarrow> frep radix a x \<and> frep radix b z \<and> frep radix c x' \<and> frep radix d z'"

lemma frep_mod_iff: "frep m f (x mod p25519) \<longleftrightarrow> frep m f x"
  by (simp add: frep_def)

lemma swap_limb_if: "swap_limb (if b then 1 else 0) x y = (if b then (y, x) else (x, y))"
proof -
  have "x XOR (x XOR y) = y" "y XOR (x XOR y) = x" by (rule bit_word_eqI; auto simp: bit_simps)+
  then show ?thesis by (cases b) (simp_all add: swap_limb_def Let_def)
qed

lemma swap_conditional_if: "swap_conditional f g (if b then 1 else 0) = (if b then (g, f) else (f, g))"
  unfolding swap_conditional_def swap_limb_if by (cases b) (auto split: prod.split)

lemma fmonty_rep:
  assumes "reps (x, z, x', z') st" "frep radix q u" 
  shows "reps (fmonty x z x' z' q) (mont_step u st)"
proof -
  obtain X Z X' Z' where st: "st = (X, Z, X', Z')" by (cases st)
  have r: "frep radix x X" "frep radix z Z" "frep radix x' X'" "frep radix z' Z'" using assms(1) by (simp_all add: st)
  have m: "radix + radix \<le> long_limb" "radix + radix < 2 ^ 64" "radix \<le> long_limb" "2 ^ 52 + radix \<le> long_limb" "2 ^ 52 + radix < (2 ^ 64 :: int)"
    by simp_all
  note long = frep_mono [OF _ m(3)] note sum = fsum_rep [OF _ _ m(2), THEN frep_mono, OF _ _ m(1)]
  have sq: "frep long_limb f y \<Longrightarrow> frep radix (fsquare_times f 1) (y ^ 2)" for f y
    using fsquare_times_rep [of f y 1] by simp
  note a = sum [OF r(1,2)] note b = fdifference_rep [OF r(2,1)] note c = sum [OF r(3,4)] note d = fdifference_rep [OF r(4,3)]
  note da = fmul_rep [OF b c] note cb = fmul_rep [OF d a]
  note x3 = sq [OF sum [OF da cb]]
  note z3 = fmul_rep [OF long [OF assms(2)] long [OF sq [OF fdifference_rep [OF cb da]]]]
  note aa = sq [OF a] note bb = sq [OF b]
  note x2 = fmul_rep [OF long [OF bb] long [OF aa]]
  note e = fdifference_rep [OF bb aa]
  note z2 = fmul_rep [OF fsum_rep [OF fscalar_product_rep [OF e] aa m(5), THEN frep_mono, OF m(4)] e]
  show ?thesis unfolding fmonty_def st mont_step_def Let_def prod.case reps.simps frep_mod_iff
    using x2 z2 x3 z3 by blast
qed

lemma cmult_bit_rep:
  assumes "reps st sp" "frep radix q u"
  shows "reps (cmult_bit q st (if b then 1 else 0)) (swap_if b (mont_step u (swap_if b sp)))"
proof -
  obtain x z x' z' where st: "st = (x, z, x', z')" by (cases st)
  obtain X Z X' Z' where sp: "sp = (X, Z, X', Z')" by (cases sp)
  show ?thesis
  proof (cases b)
    case True
    have "reps (x', z', x, z) (X', Z', X, Z)" using assms(1) by (simp add: st sp)
    from fmonty_rep [OF this assms(2)] show ?thesis
      unfolding cmult_bit_def swap_conditional_if st sp swap_if_def using True
      by (cases "fmonty x' z' x z q"; cases "mont_step u (X', Z', X, Z)") (simp add: Let_def)
  next
    case False
    from fmonty_rep [OF assms(1) [unfolded st] assms(2)] show ?thesis
      unfolding cmult_bit_def swap_conditional_if st sp swap_if_def using False
      by (cases "fmonty x z x' z' q"; cases "mont_step u (X, Z, X', Z')") (simp add: Let_def)
  qed
qed

lemma cmult_byte_rep:
  assumes "reps st sp" "frep radix q u"
  shows "reps (cmult_byte q st byte) (foldl (\<lambda>st b. swap_if b (mont_step u (swap_if b st))) sp (map (bit byte) (rev [0..<8])))"
proof -
  let ?sp = "foldl (\<lambda>st b. swap_if b (mont_step u (swap_if b st))) sp"
  let ?f = "\<lambda>(st, byte) j. (cmult_bit q st (ucast (drop_bit 7 byte)), push_bit 1 byte)"
  have top: "ucast (drop_bit 7 w) = (if bit w 7 then 1 else 0 :: limb)" for w :: u8
  proof (rule bit_word_eqI)
    show "bit (ucast (drop_bit 7 w) :: limb) n = bit (if bit w 7 then 1 else 0 :: limb) n" for n
      by (cases n) (auto simp: bit_simps bit_1_iff)
  qed
  have "reps (fst (foldl ?f (st, byte) [0..<k])) (?sp (map (bit byte) (take k (rev [0..<8])))) \<and> snd (foldl ?f (st, byte) [0..<k]) = push_bit k byte"
    if "k \<le> 8" for k
    using that
  proof (induction k)
    case 0
    then show ?case using assms(1) by simp
  next
    case (Suc k)
    have t: "take (Suc k) (rev [0..<8]) = take k (rev [0..<8]) @ [7 - k]"
      using Suc.prems by (simp add: take_Suc_conv_app_nth rev_nth)
    have b: "bit (push_bit k byte) 7 = bit byte (7 - k)" using Suc.prems by (simp add: bit_simps)
    obtain s w where sw: "foldl ?f (st, byte) [0..<k] = (s, w)" by (cases "foldl ?f (st, byte) [0..<k]")
    have ih: "reps s (?sp (map (bit byte) (take k (rev [0..<8]))))" "w = push_bit k byte"
      using Suc unfolding sw by simp_all
    have "foldl ?f (st, byte) [0..<Suc k] = (cmult_bit q s (if bit byte (7 - k) then 1 else 0), push_bit 1 w)"
      unfolding upt_Suc_append [OF le0] foldl_append sw unfolding foldl.simps prod.case ih(2) top b by (rule refl)
    moreover have "push_bit 1 w = push_bit (Suc k) byte" unfolding ih(2) push_bit_push_bit by simp
    ultimately show ?case
      unfolding t map_append foldl_append using cmult_bit_rep [OF ih(1) assms(2)] by simp
  qed
  from this [of 8] show ?thesis by (simp add: cmult_byte_def)
qed

lemma cmult_rep:
  assumes "length n = 32" "frep radix q u"
  shows "case cmult n q of (x, z) \<Rightarrow> case ladder u (map (bit (le_int n)) (rev [0..<256])) of (X, Z, _, _) \<Rightarrow> frep radix x X \<and> frep radix z Z"
proof -
  let ?sp = "foldl (\<lambda>st b. swap_if b (mont_step u (swap_if b st)))"
  let ?init = "((1, 0, 0, 0, 0), (0, 0, 0, 0, 0), q, (1, 0, 0, 0, 0)) :: felem \<times> felem \<times> felem \<times> felem"
  let ?run = "\<lambda>k. foldl (\<lambda>st i. cmult_byte q st (n ! (31 - i))) ?init [0..<k]"
  have "reps (?run k) (?sp (1, 0, u, 1) (map (bit (le_int n)) (take (8 * k) (rev [0..<256]))))" if "k \<le> 32" for k
    using that
  proof (induction k)
    case 0
    then show ?case using assms(2) by (simp add: frep_def fle_def fval_def)
  next
    case (Suc k)
    have t: "take (8 * Suc k) (rev [0..<256]) = take (8 * k) (rev [0..<256]) @ take 8 (drop (8 * k) (rev [0..<256 :: nat]))"
      using take_add [of "8 * k" 8 "rev [0..<256 :: nat]"] by (simp add: add.commute)
    have "take 8 (drop (8 * k) (rev [0..<256])) = map (\<lambda>j. 8 * (31 - k) + j) (rev [0..<8])"
      using Suc.prems by (intro nth_equalityI) (auto simp: rev_nth)
    moreover have "bit (le_int n) (8 * (31 - k) + j) = bit (n ! (31 - k)) j" if "j < 8" for j
    proof -
      have "8 * (31 - k) + j < 8 * length n" "(8 * (31 - k) + j) div 8 = 31 - k" "(8 * (31 - k) + j) mod 8 = j"
        using that assms(1) by simp_all
      then show ?thesis by (simp only: bit_le_int) simp
    qed
    ultimately have b: "map (bit (le_int n)) (take 8 (drop (8 * k) (rev [0..<256]))) = map (bit (n ! (31 - k))) (rev [0..<8])"
      by (simp only: map_map) (auto intro!: map_cong)
    show ?case
      unfolding t map_append foldl_append b
      using cmult_byte_rep [OF Suc.IH assms(2), of "n ! (31 - k)"] Suc.prems by simp
  qed
  from this [of 32] have "reps (?run 32) (ladder u (map (bit (le_int n)) (rev [0..<256])))"
    unfolding ladder_def by simp
  then show ?thesis
    unfolding cmult_def by (cases "?run 32"; cases "ladder u (map (bit (le_int n)) (rev [0..<256]))") simp
qed

section \<open>Inversion\<close>

definition rep_power :: "int \<Rightarrow> felem \<Rightarrow> nat \<Rightarrow> bool" where
  "rep_power z f e \<longleftrightarrow> frep radix f (z ^ e)"

lemma long_rep: "frep radix f x \<Longrightarrow> frep long_limb f x"
  by (erule frep_mono) simp

lemma rep_power_mul: "rep_power z f a \<Longrightarrow> rep_power z g b \<Longrightarrow> e = a + b \<Longrightarrow> rep_power z (fmul g f) e"
  unfolding rep_power_def by (simp only: power_add) (intro fmul_rep long_rep)

lemma rep_power_sq: "rep_power z f a \<Longrightarrow> 0 < unat n \<Longrightarrow> e = a * 2 ^ unat n \<Longrightarrow> rep_power z (fsquare_times f n) e"
  unfolding rep_power_def by (simp only: power_mult) (intro fsquare_times_rep long_rep)

lemma crecip_rep:
  assumes "frep radix f z"
  shows "frep radix (crecip f) (z ^ nat (p25519 - 2))"
proof -
  have u: "unat (1 :: limb) = 1" "unat (2 :: limb) = 2" "unat (5 :: limb) = 5" "unat (10 :: limb) = 10" "unat (20 :: limb) = 20"
    "unat (50 :: limb) = 50" "unat (100 :: limb) = 100" by simp_all
  have z: "rep_power z f 1" using assms by (simp add: rep_power_def)
  define a where "a = fsquare_times f 1"
  define b where "b = fmul (fsquare_times a 2) f"
  define a2 where "a2 = fmul b a"
  define b5 where "b5 = fmul (fsquare_times a2 1) b"
  define b10 where "b10 = fmul (fsquare_times b5 5) b5"
  define b20 where "b20 = fmul (fsquare_times b10 10) b10"
  define b40 where "b40 = fmul (fsquare_times b20 20) b20"
  define b50 where "b50 = fmul (fsquare_times b40 10) b10"
  define b100 where "b100 = fmul (fsquare_times b50 50) b50"
  define b200 where "b200 = fmul (fsquare_times b100 100) b100"
  define b250 where "b250 = fmul (fsquare_times b200 50) b50"
  have a: "rep_power z a 2" unfolding a_def by (rule rep_power_sq [OF z]) simp_all
  have b: "rep_power z b 9" unfolding b_def by (rule rep_power_mul [OF z rep_power_sq [OF a]]) simp_all
  have a2: "rep_power z a2 11" unfolding a2_def by (rule rep_power_mul [OF a b]) simp_all
  have b5: "rep_power z b5 (2 ^ 5 - 1)" unfolding b5_def by (rule rep_power_mul [OF b rep_power_sq [OF a2]]) simp_all
  have b10: "rep_power z b10 (2 ^ 10 - 1)" unfolding b10_def by (rule rep_power_mul [OF b5 rep_power_sq [OF b5]]) (simp_all add: u)
  have b20: "rep_power z b20 (2 ^ 20 - 1)" unfolding b20_def by (rule rep_power_mul [OF b10 rep_power_sq [OF b10]]) (simp_all add: u)
  have b40: "rep_power z b40 (2 ^ 40 - 1)" unfolding b40_def by (rule rep_power_mul [OF b20 rep_power_sq [OF b20]]) (simp_all add: u)
  have b50: "rep_power z b50 (2 ^ 50 - 1)" unfolding b50_def by (rule rep_power_mul [OF b10 rep_power_sq [OF b40]]) (simp_all add: u)
  have b100: "rep_power z b100 (2 ^ 100 - 1)" unfolding b100_def by (rule rep_power_mul [OF b50 rep_power_sq [OF b50]]) (simp_all add: u)
  have b200: "rep_power z b200 (2 ^ 200 - 1)" unfolding b200_def by (rule rep_power_mul [OF b100 rep_power_sq [OF b100]]) (simp_all add: u)
  have b250: "rep_power z b250 (2 ^ 250 - 1)" unfolding b250_def by (rule rep_power_mul [OF b50 rep_power_sq [OF b200]]) (simp_all add: u)
  have "rep_power z (fmul (fsquare_times b250 5) a2) (2 ^ 255 - 21)"
    by (rule rep_power_mul [OF a2 rep_power_sq [OF b250]]) (simp_all add: u)
  moreover have "crecip f = fmul (fsquare_times b250 5) a2"
    unfolding crecip_def Let_def a_def b_def a2_def b5_def b10_def b20_def b40_def b50_def b100_def b200_def b250_def by (rule refl)
  moreover have "nat (p25519 - 2) = 2 ^ 255 - 21" by (simp add: p25519_def)
  ultimately show ?thesis unfolding rep_power_def by (simp only:)
qed

section \<open>The whole function\<close>

lemma clamp_bytes:
  assumes "length s = 32"
  shows "le_int (s[0 := s ! 0 AND 248, 31 := s ! 31 AND 127, 31 := s ! 31 AND 127 OR 64]) = clamp (le_int s)"
proof (rule bit_eqI)
  fix n :: nat
  have c: "clamp k = 2 ^ 254 OR take_bit 254 (push_bit 3 (drop_bit 3 k))" for k
  proof -
    have "take_bit 254 (push_bit 3 (drop_bit 3 k)) = push_bit 3 (drop_bit 3 (take_bit 254 k))"
      by (rule bit_eqI) (auto simp: bit_simps)
    moreover have "2 ^ 254 + take_bit 254 (push_bit 3 (drop_bit 3 k)) = 2 ^ 254 OR take_bit 254 (push_bit 3 (drop_bit 3 k))"
    proof (rule disjunctive_add)
      show "\<not> bit (2 ^ 254 :: int) n \<or> \<not> bit (take_bit 254 (push_bit 3 (drop_bit 3 k))) n" for n
        by (simp only: bit_exp_iff bit_take_bit_iff) simp
    qed
    ultimately show ?thesis unfolding clamp_def by (simp only: push_bit_eq_mult drop_bit_eq_div take_bit_eq_mod) simp
  qed
  have bc: "bit (clamp k) n \<longleftrightarrow> n = 254 \<or> 3 \<le> n \<and> n < 254 \<and> bit k n" for k and n :: nat
    unfolding c by (simp only: bit_or_iff bit_exp_iff bit_take_bit_iff bit_push_bit_iff bit_drop_bit_eq) auto
  have m: "bit (248 :: u8) i \<longleftrightarrow> 3 \<le> i \<and> i < 8" "bit (127 :: u8) i \<longleftrightarrow> i < 7" "bit (64 :: u8) i \<longleftrightarrow> i = 6" if "i < 8" for i
  proof -
    have "list_all (\<lambda>i. (bit (248 :: u8) i \<longleftrightarrow> 3 \<le> i \<and> i < 8) \<and> (bit (127 :: u8) i \<longleftrightarrow> i < 7) \<and> (bit (64 :: u8) i \<longleftrightarrow> i = 6)) [0..<8]"
      by (simp add: upt_bits)
    then show "bit (248 :: u8) i \<longleftrightarrow> 3 \<le> i \<and> i < 8" "bit (127 :: u8) i \<longleftrightarrow> i < 7" "bit (64 :: u8) i \<longleftrightarrow> i = 6"
      using that by (auto simp: list_all_iff)
  qed
  have n8: "n mod 8 < 8" "n = 8 * (n div 8) + n mod 8" by simp_all
  consider "n < 8" | "8 \<le> n" "n div 8 < 31" | "n div 8 = 31" | "256 \<le> n" by linarith
  then show "bit (le_int (s[0 := s ! 0 AND 248, 31 := s ! 31 AND 127, 31 := s ! 31 AND 127 OR 64])) n = bit (clamp (le_int s)) n"
  proof cases
    case 1
    then show ?thesis using m [of n] by (auto simp: bc bit_simps bit_le_int assms)
  next
    case 2
    then show ?thesis by (auto simp: bc bit_simps bit_le_int assms)
  next
    case 3
    define j where j: "j = n mod 8"
    have n: "n = 248 + j" "j < 8" using 3 n8 unfolding j by linarith+
    have dm: "(248 + j) div 8 = 31" "(248 + j) mod 8 = j" "248 + j < 256" using n 3 j by simp_all
    have "s[0 := s ! 0 AND 248, 31 := s ! 31 AND 127, 31 := s ! 31 AND 127 OR 64] ! 31 = s ! 31 AND 127 OR 64"
      using assms by simp
    then show ?thesis using m [OF n(2)] n(2) dm(3) unfolding n(1) bc bit_le_int dm(1,2)
      by (simp only: assms bit_or_iff bit_and_iff length_list_update) auto
  next
    case 4
    then show ?thesis by (auto simp: bc bit_simps bit_le_int assms)
  qed
qed

lemma le_int_le_bytes: "le_int (le_bytes n x) = x mod 2 ^ (8 * n)"
proof (rule bit_eqI)
  fix k
  have "bit (le_int (le_bytes n x)) k \<longleftrightarrow> k < 8 * n \<and> bit x k"
  proof (cases "k < 8 * n")
    case True
    then have "k div 8 < n" by (simp add: less_mult_imp_div_less mult.commute)
    then show ?thesis using True by (simp add: bit_le_int le_bytes_def bit_simps)
  qed (simp add: bit_le_int le_bytes_def)
  then show "bit (le_int (le_bytes n x)) k = bit (x mod 2 ^ (8 * n)) k"
    by (simp add: bit_take_bit_iff flip: take_bit_eq_mod)
qed

section \<open>Properties\<close>

text \<open>(C5) On every 32-byte secret and every 32-byte point the function returns the little-endian
  encoding of the Montgomery ladder applied to the clamped scalar and to the point's coordinate
  modulo \<open>2^255\<close>, reduced modulo the prime.\<close>

theorem curve25519_correct:
  assumes "length secret = 32" "length basepoint = 32"
  shows "curve25519_donna secret basepoint = le_bytes 32 (x25519 (clamp (le_int secret)) (le_int basepoint mod 2 ^ 255))"
proof -
  define e where e: "e = secret[0 := secret ! 0 AND 248, 31 := secret ! 31 AND 127, 31 := secret ! 31 AND 127 OR 64]"
  define u where u: "u = le_int basepoint mod 2 ^ 255"
  have le: "length e = 32" using assms(1) by (simp add: e)
  obtain x z where xz: "cmult e (fexpand basepoint) = (x, z)" by (cases "cmult e (fexpand basepoint)")
  obtain X Z A B where l: "ladder u (map (bit (le_int e)) (rev [0..<256])) = (X, Z, A, B)" 
    by (cases "ladder u (map (bit (le_int e)) (rev [0..<256]))")
  have "frep radix x X" "frep radix z Z"
    using cmult_rep [OF le fexpand_rep [OF assms(2)], folded u] unfolding xz l by simp_all
  then have "frep radix (fmul x (crecip z)) (Z ^ nat (p25519 - 2) * X)"
    by (intro fmul_rep long_rep crecip_rep)
  then have r: "fle radix (fmul x (crecip z))" "fval (fmul x (crecip z)) mod p25519 = Z ^ nat (p25519 - 2) * X mod p25519"
    unfolding frep_def by blast+
  have "fle (2 ^ 53) (fmul x (crecip z))" using r(1) by (auto simp: fle_def)
  note fcontract_bytes [OF this, unfolded r(2)]
  moreover have "curve25519_donna secret basepoint = fcontract (fmul x (crecip z))"
  proof -
    have "take 32 secret = secret" using assms(1) by simp
    moreover have "secret[0 := secret ! 0 AND 248] ! 31 = secret ! 31" by simp
    moreover have "secret[0 := secret ! 0 AND 248, 31 := secret ! 31 AND 127] ! 31 = secret ! 31 AND 127"
      using assms(1) by simp
    ultimately show ?thesis unfolding curve25519_donna_def Let_def by (simp only: e [symmetric] xz prod.case)
  qed
  ultimately show ?thesis
    unfolding x25519_def clamp_bytes [OF assms(1), folded e, symmetric] u [symmetric] l prod.case by (simp only: mult.commute)
qed

theorem curve25519_correct_witness:
  "length (replicate 32 (0x77 :: u8)) = 32 \<and> length ((9 :: u8) # replicate 31 0) = 32 \<and>
   curve25519_donna (replicate 32 0x77) (9 # replicate 31 0)
     = le_bytes 32 (x25519 (clamp (le_int (replicate 32 0x77))) (le_int (9 # replicate 31 0) mod 2 ^ 255))"
proof -
  have l: "length (replicate 32 (0x77 :: u8)) = 32" "length ((9 :: u8) # replicate 31 0) = 32" by simp_all
  show ?thesis using curve25519_correct [OF l] l by blast
qed

text \<open>Writing a field element gives the 32-byte encoding of its canonical representative, and
  reading it back gives that representative.\<close>

lemma fexpand_fcontract:
  assumes "fle (2 ^ 53) f"
  shows "length (fcontract f) = 32 \<and> le_int (fcontract f) = fval f mod p25519 \<and>
    fle radix (fexpand (fcontract f)) \<and> fval (fexpand (fcontract f)) = fval f mod p25519"
proof -
  define m where m: "m = fval f mod p25519"
  have b: "0 \<le> m" "m < p25519"
    unfolding m using pos_mod_bound [of p25519 "fval f"] pos_mod_sign [of p25519 "fval f"] by (simp_all add: p25519_def)
  have "p25519 < 2 ^ 255" "p25519 < 2 ^ (8 * 32)" by (simp_all add: p25519_def)
  then have t: "m mod 2 ^ 255 = m" "m mod 2 ^ (8 * 32) = m" using b by (intro mod_pos_pos_trivial; linarith)+
  have l: "length (le_bytes 32 m) = 32" by (simp add: le_bytes_def)
  show ?thesis unfolding fcontract_bytes [OF assms, folded m] fexpand_value(2) [OF l] le_int_le_bytes t m [symmetric]
    using l fexpand_value(1) [OF l] by blast
qed

end
