(* ===== verification/Sgxsd.thy ===== *)
theory Sgxsd
  imports Aead Curve_Ladder
begin

text \<open>
  The enclave service of \<open>sgxsd-enclave.c\<close>.  Its global variables are the record \<open>enclave\<close>; the SGX
  runtime, the untrusted caller and the application callbacks are the fields of \<open>platform\<close>, which act
  on an abstract world.  A null pointer is \<open>None\<close>.  The locks of the global variables guard
  straight-line code and are elided; the lock inside a server descriptor is kept, since callbacks
  run while it is held and \<open>sgxsd_enclave_server_stop_locked\<close> writes to it.
\<close>

section \<open>Data\<close>

record sgxsd_pending_request =
  id_val :: u64
  hkdf_prk :: bytes

record sgxsd_pending_request_id =
  prid_data :: bytes
  prid_iv :: bytes
  prid_mac :: bytes

record sgxsd_curve25519_key_pair =
  privkey :: bytes
  pubkey :: bytes

record sgxsd_msg_header =
  msg_iv :: bytes
  msg_mac :: bytes
  msg_pending_request_id :: sgxsd_pending_request_id

record sgxsd_msg_from =
  from_valid :: bool
  from_tag :: u64
  from_server_key :: bytes

record 's sgxsd_server_state_desc =
  desc_valid :: bool
  desc_lock :: u32
  desc_p_state :: "'s option"

record sgxsd_ra_hkdf_buf =
  t_n :: bytes
  hkdf_n :: u8

record negotiation_response =
  server_static_pubkey :: bytes
  server_ephemeral_pubkey :: bytes
  encrypted_id_data :: bytes
  encrypted_id_iv :: bytes
  encrypted_id_mac :: bytes

record ('s, 'w) enclave =
  node_initialized :: bool
  read_rand_state :: bytes
  dh_keypair :: sgxsd_curve25519_key_pair
  new_dh_keypair :: sgxsd_curve25519_key_pair
  pending_requests :: "sgxsd_pending_request list"
  pending_requests_table_order :: u8
  last_pending_request_id_val :: u64
  pending_request_id_key :: bytes
  server_states :: "'s sgxsd_server_state_desc list"
  world :: 'w

record ('s, 'a, 'r, 'w) platform =
  sgx_read_rand :: "nat \<Rightarrow> 'w \<Rightarrow> sgx_status \<times> bytes \<times> 'w"
  sgx_is_outside_enclave :: "u64 \<Rightarrow> nat \<Rightarrow> int"
  sgx_create_report :: "bytes \<Rightarrow> bytes \<Rightarrow> 'w \<Rightarrow> sgx_status \<times> 'r \<times> 'w"
  enclave_calloc :: "u64 \<Rightarrow> 'w \<Rightarrow> bool \<times> 'w"
  sgxsd_ocall_reply :: "sgxsd_msg_header option \<Rightarrow> bytes option \<Rightarrow> u64 \<Rightarrow> 'w \<Rightarrow> sgx_status \<times> sgx_status \<times> 'w"
  server_init :: "'a \<Rightarrow> 's option \<Rightarrow> 'w \<Rightarrow> sgx_status \<times> 's option \<times> 'w"
  server_handle_call :: "'a \<Rightarrow> bytes \<Rightarrow> sgxsd_msg_from \<Rightarrow> 's option \<Rightarrow> 'w \<Rightarrow> sgx_status \<times> 's option \<times> 'w"
  server_terminate :: "'a \<Rightarrow> 's option \<Rightarrow> 'w \<Rightarrow> sgx_status \<times> 'w"
  create_ratelimit_fingerprint :: "bytes \<Rightarrow> 'a \<Rightarrow> bytes \<Rightarrow> sgxsd_msg_from \<Rightarrow> bytes \<Rightarrow> 'w \<Rightarrow> sgx_status \<times> bytes \<times> 'w"
  id_image :: "sgxsd_pending_request_id \<Rightarrow> bytes"
  stk :: stack_mem
  uninit_header :: sgxsd_msg_header
  uninit_hkdf :: bytes

section \<open>Hashing and key derivation\<close>

definition sgxsd_enclave_sha256 :: "stack_mem \<Rightarrow> bytes list \<Rightarrow> bytes" where
  "sgxsd_enclave_sha256 m bufs = br_sha256_out (foldl br_sha224_update (br_sha256_init (sm_sha m)) bufs)"

definition sgxsd_enclave_hmac_sha256 :: "stack_mem \<Rightarrow> bytes list \<Rightarrow> bytes" where
  "sgxsd_enclave_hmac_sha256 m bufs =
    (let i_key_pad = replicate 64 0x36;
         o_key_pad = replicate 64 0x5c;
         key = hd bufs;
         key = (if length key > 64 then sgxsd_enclave_sha256 m [key] else key);
         (i_key_pad, o_key_pad) =
           foldl (\<lambda>(i, ok) k. (i[k := i ! k XOR key ! k], ok[k := ok ! k XOR key ! k])) (i_key_pad, o_key_pad) [0..<length key];
         hash = sgxsd_enclave_sha256 m (i_key_pad # tl bufs)
     in sgxsd_enclave_sha256 m [o_key_pad, hash])"

definition sgxsd_enclave_ra_hkdf_round :: "stack_mem \<Rightarrow> bytes \<Rightarrow> sgxsd_ra_hkdf_buf \<Rightarrow> sgxsd_ra_hkdf_buf" where
  "sgxsd_enclave_ra_hkdf_round m prk buf =
    (let buf = buf\<lparr>hkdf_n := hkdf_n buf + 1\<rparr>;
         hmac_data = (if hkdf_n buf = 1 then [hkdf_n buf] else t_n buf @ [hkdf_n buf])
     in buf\<lparr>t_n := sgxsd_enclave_hmac_sha256 m [prk, hmac_data]\<rparr>)"

section \<open>Random numbers and key pairs\<close>

definition sgxsd_enclave_read_rand :: "('s, 'a, 'r, 'w) platform \<Rightarrow> ('s, 'w) enclave \<Rightarrow> sgx_status \<times> bytes \<times> ('s, 'w) enclave" where
  "sgxsd_enclave_read_rand P e =
    (let (res, x, w) = sgx_read_rand P SGXSD_CURVE25519_KEY_SIZE (world e); e = e\<lparr>world := w\<rparr>
     in if res \<noteq> SGX_SUCCESS then (res, x, e)
        else let prk = sgxsd_enclave_hmac_sha256 (stk P) [read_rand_state e, x];
                 buf = \<lparr>t_n = uninit_hkdf P, hkdf_n = 0\<rparr>;
                 buf = sgxsd_enclave_ra_hkdf_round (stk P) prk buf;
                 e = e\<lparr>read_rand_state := t_n buf\<rparr>;
                 buf = sgxsd_enclave_ra_hkdf_round (stk P) prk buf
             in (SGX_SUCCESS, t_n buf, e))"

definition BASEPOINT :: bytes where "BASEPOINT = 9 # replicate 31 0"

definition sgxsd_enclave_generate_curve25519_keypair ::
  "('s, 'a, 'r, 'w) platform \<Rightarrow> sgxsd_curve25519_key_pair \<Rightarrow> ('s, 'w) enclave \<Rightarrow> sgx_status \<times> sgxsd_curve25519_key_pair \<times> ('s, 'w) enclave" where
  "sgxsd_enclave_generate_curve25519_keypair P kp e =
    (let (res, x, e) = sgxsd_enclave_read_rand P e; kp = kp\<lparr>privkey := x\<rparr>
     in if res \<noteq> SGX_SUCCESS then (res, kp, e)
        else let x = x[0 := x ! 0 AND 248];
                 x = x[31 := x ! 31 AND 127];
                 x = x[31 := x ! 31 OR 64]
             in (SGX_SUCCESS, \<lparr>privkey = x, pubkey = curve25519_donna x BASEPOINT\<rparr>, e))"

section \<open>The node\<close>

text \<open>The argument of \<open>sgxsd_enclave_node_init\<close> is the table order.\<close>

definition sgxsd_enclave_node_init_locked :: "('s, 'a, 'r, 'w) platform \<Rightarrow> u8 option \<Rightarrow> ('s, 'w) enclave \<Rightarrow> sgx_status \<times> ('s, 'w) enclave" where
  "sgxsd_enclave_node_init_locked P p_args e =
    (if node_initialized e then (SGX_ERROR_INVALID_STATE, e)
     else if sgx_is_outside_enclave P 0 0 \<noteq> 1 then (SGX_ERROR_UNEXPECTED, e)
     else if sgx_is_outside_enclave P (- 1) 0 \<noteq> 1 then (SGX_ERROR_UNEXPECTED, e)
     else case p_args of None \<Rightarrow> (SGX_ERROR_INVALID_PARAMETER, e)
     | Some order \<Rightarrow>
       if order > 63 then (SGX_ERROR_INVALID_PARAMETER, e)
       else let (res, kp, e) = sgxsd_enclave_generate_curve25519_keypair P (dh_keypair e) e; e = e\<lparr>dh_keypair := kp\<rparr>
       in if res \<noteq> SGX_SUCCESS then (res, e)
       else let (res, kp, e) = sgxsd_enclave_generate_curve25519_keypair P (new_dh_keypair e) e; e = e\<lparr>new_dh_keypair := kp\<rparr>
       in if res \<noteq> SGX_SUCCESS then (res, e)
       else let (res, key, w) = sgx_read_rand P SGXSD_AES_GCM_KEY_SIZE (world e); e = e\<lparr>pending_request_id_key := key, world := w\<rparr>
       in if res \<noteq> SGX_SUCCESS then (res, e)
       else let e = e\<lparr>pending_requests_table_order := order\<rparr>;
                (ok, w) = enclave_calloc P (push_bit (unat order) 1) (world e);
                e = e\<lparr>pending_requests := (if ok then replicate (unat (push_bit (unat order) 1 :: u64)) \<lparr>id_val = 0, hkdf_prk = replicate 32 0\<rparr> else []),
                      world := w\<rparr>
       in if \<not> ok then (SGX_ERROR_OUT_OF_MEMORY, e)
       else (SGX_SUCCESS, e\<lparr>node_initialized := True\<rparr>))"

definition sgxsd_enclave_node_init :: "('s, 'a, 'r, 'w) platform \<Rightarrow> u8 option \<Rightarrow> ('s, 'w) enclave \<Rightarrow> sgx_status \<times> ('s, 'w) enclave" where
  "sgxsd_enclave_node_init P p_args e = sgxsd_enclave_node_init_locked P p_args e"

text \<open>\<open>p_report\<close> is the caller's buffer for the report.\<close>

definition sgxsd_enclave_get_next_report ::
  "('s, 'a, 'r, 'w) platform \<Rightarrow> sgxsd_curve25519_key_pair \<Rightarrow> bytes \<Rightarrow> 'r option \<Rightarrow> ('s, 'w) enclave \<Rightarrow> sgx_status \<times> 'r option \<times> ('s, 'w) enclave" where
  "sgxsd_enclave_get_next_report P uninit_kp qe_target_info p_report e =
    (if \<not> node_initialized e then (SGX_ERROR_INVALID_STATE, p_report, e)
     else if p_report = None then (SGX_ERROR_INVALID_PARAMETER, p_report, e)
     else let (res, kp, e) = sgxsd_enclave_generate_curve25519_keypair P uninit_kp e
     in if res \<noteq> SGX_SUCCESS then (res, p_report, e)
     else let report_data = memcpy (replicate 64 0) 0 (pubkey kp);
              (res, report, w) = sgx_create_report P qe_target_info report_data (world e); e = e\<lparr>world := w\<rparr>
     in if res \<noteq> SGX_SUCCESS then (res, Some report, e)
     else (SGX_SUCCESS, Some report, e\<lparr>new_dh_keypair := kp\<rparr>))"

definition sgxsd_enclave_set_current_quote :: "('s, 'w) enclave \<Rightarrow> sgx_status \<times> ('s, 'w) enclave" where
  "sgxsd_enclave_set_current_quote e =
    (if \<not> node_initialized e then (SGX_ERROR_INVALID_STATE, e)
     else (SGX_SUCCESS, e\<lparr>dh_keypair := new_dh_keypair e\<rparr>))"

section \<open>Pending requests\<close>

definition pending_slot :: "('s, 'w) enclave \<Rightarrow> u64 \<Rightarrow> nat" where
  "pending_slot e i = unat (i AND (push_bit (unat (pending_requests_table_order e)) 1 - 1))"

definition sgxsd_enclave_add_pending_request ::
  "('s, 'a, 'r, 'w) platform \<Rightarrow> sgxsd_pending_request_id \<Rightarrow> sgxsd_pending_request \<Rightarrow> ('s, 'w) enclave
    \<Rightarrow> sgx_status \<times> sgxsd_pending_request_id \<times> ('s, 'w) enclave" where
  "sgxsd_enclave_add_pending_request P rid req e =
    (let e = e\<lparr>last_pending_request_id_val := last_pending_request_id_val e + 1\<rparr>;
         i = last_pending_request_id_val e;
         e = e\<lparr>pending_requests := (pending_requests e)[pending_slot e i := \<lparr>id_val = i, hkdf_prk = hkdf_prk req\<rparr>]\<rparr>;
         (res, iv, w) = sgx_read_rand P SGXSD_AES_GCM_IV_SIZE (world e);
         e = e\<lparr>world := w\<rparr>; rid = rid\<lparr>prid_iv := iv\<rparr>
     in if res \<noteq> SGX_SUCCESS then (res, rid, e)
        else let (res, d, mac) = sgxsd_aes_gcm_encrypt (stk P) (Some (pending_request_id_key e)) (Some (br_enc64le i)) 8
                   (Some (prid_data rid)) (Some (prid_iv rid)) None 0 (Some (prid_mac rid));
                 rid = rid\<lparr>prid_data := the d, prid_mac := the mac\<rparr>
             in if res \<noteq> SGX_SUCCESS then (SGX_ERROR_UNEXPECTED, rid, e) else (SGX_SUCCESS, rid, e))"

definition sgxsd_enclave_get_pending_request ::
  "('s, 'a, 'r, 'w) platform \<Rightarrow> sgxsd_pending_request_id \<Rightarrow> sgxsd_pending_request \<Rightarrow> ('s, 'w) enclave \<Rightarrow> sgx_status \<times> sgxsd_pending_request" where
  "sgxsd_enclave_get_pending_request P rid out e =
    (let (res, d, mac) = sgxsd_aes_gcm_decrypt (stk P) (Some (pending_request_id_key e)) (Some (prid_data rid)) 8
           (Some (replicate 8 0)) (Some (prid_iv rid)) None 0 (Some (prid_mac rid))
     in if res \<noteq> SGX_SUCCESS then (res, out)
        else let i = br_dec64le (the d); found = pending_requests e ! pending_slot e i
             in if id_val found = i then (SGX_SUCCESS, found) else (SGXSD_ERROR_PENDING_REQUEST_NOT_FOUND, out))"

definition sgxsd_enclave_remove_pending_request ::
  "('s, 'a, 'r, 'w) platform \<Rightarrow> sgxsd_pending_request_id \<Rightarrow> sgxsd_pending_request \<Rightarrow> ('s, 'w) enclave
    \<Rightarrow> sgx_status \<times> sgxsd_pending_request \<times> ('s, 'w) enclave" where
  "sgxsd_enclave_remove_pending_request P rid out e =
    (let (res, d, mac) = sgxsd_aes_gcm_decrypt (stk P) (Some (pending_request_id_key e)) (Some (prid_data rid)) 8
           (Some (replicate 8 0)) (Some (prid_iv rid)) None 0 (Some (prid_mac rid))
     in if res \<noteq> SGX_SUCCESS then (res, out, e)
        else let i = br_dec64le (the d); found = pending_requests e ! pending_slot e i
             in if id_val found = i
                then (SGX_SUCCESS, found, e\<lparr>pending_requests := (pending_requests e)[pending_slot e i := \<lparr>id_val = 0, hkdf_prk = replicate 32 0\<rparr>]\<rparr>)
                else (SGXSD_ERROR_PENDING_REQUEST_NOT_FOUND, out, e))"

definition sgxsd_enclave_derive_request_keys ::
  "('s, 'a, 'r, 'w) platform \<Rightarrow> sgxsd_pending_request \<Rightarrow> bytes option \<Rightarrow> bytes option \<Rightarrow> bytes option \<times> bytes option" where
  "sgxsd_enclave_derive_request_keys P req p_client_key p_server_key =
    (let buf = \<lparr>t_n = uninit_hkdf P, hkdf_n = 0\<rparr>;
         buf = sgxsd_enclave_ra_hkdf_round (stk P) (hkdf_prk req) buf;
         p_client_key = map_option (\<lambda>k. memcpy k 0 (take SGXSD_AES_GCM_KEY_SIZE (t_n buf))) p_client_key;
         buf = sgxsd_enclave_ra_hkdf_round (stk P) (hkdf_prk req) buf;
         p_server_key = map_option (\<lambda>k. memcpy k 0 (take SGXSD_AES_GCM_KEY_SIZE (t_n buf))) p_server_key
     in (p_client_key, p_server_key))"

section \<open>Negotiation\<close>

text \<open>The request is the client's public key.  The locals that the code leaves uninitialised are
  \<open>kp0\<close>, \<open>req0\<close>, \<open>rid0\<close> and \<open>key0\<close>.\<close>

definition sgxsd_enclave_negotiate_request ::
  "('s, 'a, 'r, 'w) platform \<Rightarrow> sgxsd_curve25519_key_pair \<Rightarrow> sgxsd_pending_request \<Rightarrow> sgxsd_pending_request_id \<Rightarrow> bytes
    \<Rightarrow> bytes option \<Rightarrow> negotiation_response option \<Rightarrow> ('s, 'w) enclave \<Rightarrow> sgx_status \<times> negotiation_response option \<times> ('s, 'w) enclave" where
  "sgxsd_enclave_negotiate_request P kp0 req0 rid0 key0 p_request p_response e =
    (if \<not> node_initialized e then (SGX_ERROR_INVALID_STATE, p_response, e)
     else case p_request of None \<Rightarrow> (SGX_ERROR_INVALID_PARAMETER, p_response, e)
     | Some client_pubkey \<Rightarrow> case p_response of None \<Rightarrow> (SGX_ERROR_INVALID_PARAMETER, p_response, e)
     | Some response \<Rightarrow>
       let (res, eph, e) = sgxsd_enclave_generate_curve25519_keypair P kp0 e
       in if res \<noteq> SGX_SUCCESS then (res, Some response, e)
       else let static = dh_keypair e;
                ephemeral_dh_key = curve25519_donna (privkey eph) client_pubkey;
                static_dh_key = curve25519_donna (privkey static) client_pubkey;
                hkdf_salt = sgxsd_enclave_sha256 (stk P) [client_pubkey, pubkey eph, pubkey static];
                req = req0\<lparr>hkdf_prk := sgxsd_enclave_hmac_sha256 (stk P) [hkdf_salt, ephemeral_dh_key, static_dh_key]\<rparr>;
                response = response\<lparr>encrypted_id_iv := replicate SGXSD_AES_GCM_IV_SIZE 0\<rparr>;
                (_, server_key) = sgxsd_enclave_derive_request_keys P req None (Some key0);
                (res, rid, e) = sgxsd_enclave_add_pending_request P rid0 req e
       in if res \<noteq> SGX_SUCCESS then (res, Some response, e)
       else let (res, d, mac) = sgxsd_aes_gcm_encrypt (stk P) server_key (Some (id_image P rid)) (word_of_nat (length (id_image P rid)))
                  (Some (encrypted_id_data response)) (Some (encrypted_id_iv response)) None 0 (Some (encrypted_id_mac response));
                response = response\<lparr>encrypted_id_data := the d, encrypted_id_mac := the mac\<rparr>
       in if res \<noteq> SGX_SUCCESS then (SGX_ERROR_UNEXPECTED, Some response, e)
       else (SGX_SUCCESS, Some (response\<lparr>server_static_pubkey := pubkey static, server_ephemeral_pubkey := pubkey eph\<rparr>), e))"

section \<open>Replies\<close>

text \<open>The callbacks reply while they run; a reply acts on the world only.  The result is the status,
  the reply buffer and the new world.\<close>

definition sgxsd_enclave_server_reply_noerase ::
  "('s, 'a, 'r, 'w) platform \<Rightarrow> bytes option \<Rightarrow> nat \<Rightarrow> sgxsd_msg_from option \<Rightarrow> 'w \<Rightarrow> sgx_status \<times> bytes option \<times> 'w" where
  "sgxsd_enclave_server_reply_noerase P data sz p_from w =
    (case p_from of None \<Rightarrow> (SGX_ERROR_INVALID_PARAMETER, data, w)
     | Some from \<Rightarrow>
       if \<not> from_valid from then (SGX_ERROR_INVALID_STATE, data, w)
       else if data = None \<and> sz \<noteq> 0 then (SGX_ERROR_INVALID_PARAMETER, data, w)
       else let (res, iv, w) = sgx_read_rand P SGXSD_AES_GCM_IV_SIZE w
       in if res \<noteq> SGX_SUCCESS then (res, data, w)
       else let iv = iv[0 := iv ! 0 OR 1];
                (res, data, mac) = sgxsd_aes_gcm_encrypt (stk P) (Some (from_server_key from)) data (word_of_nat sz) data
                  (Some iv) None 0 (Some (msg_mac (uninit_header P)));
                header = (uninit_header P)\<lparr>msg_iv := iv, msg_mac := the mac\<rparr>
       in if res \<noteq> SGX_SUCCESS then (SGX_ERROR_UNEXPECTED, data, w)
       else let (ocall_res, reply_res, w) = sgxsd_ocall_reply P (Some header) (map_option (take sz) data) (from_tag from) w
       in (if ocall_res = SGX_SUCCESS then reply_res else ocall_res, data, w))"

definition erased_from :: sgxsd_msg_from where
  "erased_from = \<lparr>from_valid = False, from_tag = 0, from_server_key = replicate 32 0\<rparr>"

definition sgxsd_enclave_server_reply ::
  "('s, 'a, 'r, 'w) platform \<Rightarrow> bytes option \<Rightarrow> nat \<Rightarrow> sgxsd_msg_from option \<Rightarrow> 'w
    \<Rightarrow> sgx_status \<times> bytes option \<times> sgxsd_msg_from option \<times> 'w" where
  "sgxsd_enclave_server_reply P data sz p_from w =
    (let (res, data, w) = sgxsd_enclave_server_reply_noerase P data sz p_from w
     in (res, map_option (\<lambda>d. memset d 0 0 sz) data, map_option (\<lambda>_. erased_from) p_from, w))"

definition sgxsd_enclave_server_noreply ::
  "('s, 'a, 'r, 'w) platform \<Rightarrow> sgxsd_msg_from option \<Rightarrow> 'w \<Rightarrow> sgx_status \<times> sgxsd_msg_from option \<times> 'w" where
  "sgxsd_enclave_server_noreply P p_from w =
    (case p_from of None \<Rightarrow> (SGX_ERROR_INVALID_PARAMETER, None, w)
     | Some from \<Rightarrow>
       if \<not> from_valid from then (SGX_ERROR_INVALID_STATE, p_from, w)
       else let (ocall_res, reply_res, w) = sgxsd_ocall_reply P None None (from_tag from) w
            in (if ocall_res = SGX_SUCCESS then reply_res else ocall_res, Some erased_from, w))"

section \<open>Servers\<close>

definition SGXSD_ENCLAVE_MAX_SERVERS :: nat where "SGXSD_ENCLAVE_MAX_SERVERS = 256"

text \<open>Taking a lock that is held does not return: the value is \<open>None\<close>.\<close>

definition sgxsd_spin_lock :: "'s sgxsd_server_state_desc \<Rightarrow> 's sgxsd_server_state_desc option" where
  "sgxsd_spin_lock d = (if desc_lock d = 0 then Some (d\<lparr>desc_lock := 1\<rparr>) else None)"

definition sgxsd_spin_unlock :: "'s sgxsd_server_state_desc \<Rightarrow> 's sgxsd_server_state_desc" where
  "sgxsd_spin_unlock d = d\<lparr>desc_lock := 0\<rparr>"

definition sgxsd_enclave_server_start_locked ::
  "('s, 'a, 'r, 'w) platform \<Rightarrow> 'a \<Rightarrow> 's sgxsd_server_state_desc \<Rightarrow> 'w \<Rightarrow> sgx_status \<times> 's sgxsd_server_state_desc \<times> 'w" where
  "sgxsd_enclave_server_start_locked P args d w =
    (if desc_valid d then (SGX_ERROR_INVALID_STATE, d, w)
     else let (res, p, w) = server_init P args (desc_p_state d) w; d = d\<lparr>desc_p_state := p\<rparr>
          in if res = SGX_SUCCESS then (SGX_SUCCESS, d\<lparr>desc_valid := True\<rparr>, w) else (res, d, w))"

definition sgxsd_enclave_server_start ::
  "('s, 'a, 'r, 'w) platform \<Rightarrow> 'a \<Rightarrow> nat \<Rightarrow> ('s, 'w) enclave \<Rightarrow> (sgx_status \<times> ('s, 'w) enclave) option" where
  "sgxsd_enclave_server_start P args handle e =
    (if \<not> node_initialized e then Some (SGX_ERROR_INVALID_STATE, e)
     else if handle \<ge> SGXSD_ENCLAVE_MAX_SERVERS then Some (SGX_ERROR_INVALID_PARAMETER, e)
     else case sgxsd_spin_lock (server_states e ! handle) of None \<Rightarrow> None
     | Some d \<Rightarrow>
       let (res, d, w) = sgxsd_enclave_server_start_locked P args d (world e)
       in Some (res, e\<lparr>server_states := (server_states e)[handle := sgxsd_spin_unlock d], world := w\<rparr>))"

text \<open>The message is decrypted in place and erased at the end; its buffer is part of the result.\<close>

definition sgxsd_enclave_server_call_locked ::
  "('s, 'a, 'r, 'w) platform \<Rightarrow> sgxsd_pending_request \<Rightarrow> bytes \<Rightarrow> 'a \<Rightarrow> sgxsd_msg_header option \<Rightarrow> bytes option \<Rightarrow> u64
    \<Rightarrow> 's sgxsd_server_state_desc \<Rightarrow> ('s, 'w) enclave \<Rightarrow> sgx_status \<times> bytes option \<times> 's sgxsd_server_state_desc \<times> ('s, 'w) enclave" where
  "sgxsd_enclave_server_call_locked P req0 key0 args p_header msg_data msg_tag d e =
    (if \<not> desc_valid d then (SGX_ERROR_INVALID_STATE, msg_data, d, e)
     else case p_header of None \<Rightarrow> (SGX_ERROR_INVALID_PARAMETER, msg_data, d, e)
     | Some header \<Rightarrow> case msg_data of None \<Rightarrow> (SGX_ERROR_INVALID_PARAMETER, msg_data, d, e)
     | Some msg \<Rightarrow>
       if length msg = 0 then (SGX_ERROR_INVALID_PARAMETER, msg_data, d, e)
       else let (res, req, e) = sgxsd_enclave_remove_pending_request P (msg_pending_request_id header) req0 e
       in if res \<noteq> SGX_SUCCESS then (res, msg_data, d, e)
       else let (client_key, server_key) = sgxsd_enclave_derive_request_keys P req (Some key0) (Some (replicate 32 0));
                from = \<lparr>from_valid = True, from_tag = msg_tag, from_server_key = the server_key\<rparr>;
                aad = id_image P (msg_pending_request_id header);
                (res, msg', mac) = sgxsd_aes_gcm_decrypt (stk P) client_key (Some msg) (word_of_nat (length msg)) (Some msg)
                  (Some (msg_iv header)) (Some aad) (word_of_nat (length aad)) (Some (msg_mac header))
       in if res \<noteq> SGX_SUCCESS
          then (if res = SGX_ERROR_INVALID_PARAMETER then SGX_ERROR_UNEXPECTED else res, msg', d, e)
          else let (res, p, w) = server_handle_call P args (the msg') from (desc_p_state d) (world e)
               in (res, Some (replicate (length msg) 0), d\<lparr>desc_p_state := p\<rparr>, e\<lparr>world := w\<rparr>))"

definition sgxsd_enclave_server_call ::
  "('s, 'a, 'r, 'w) platform \<Rightarrow> sgxsd_pending_request \<Rightarrow> bytes \<Rightarrow> 'a \<Rightarrow> sgxsd_msg_header option \<Rightarrow> bytes option \<Rightarrow> u64 \<Rightarrow> nat
    \<Rightarrow> ('s, 'w) enclave \<Rightarrow> (sgx_status \<times> bytes option \<times> ('s, 'w) enclave) option" where
  "sgxsd_enclave_server_call P req0 key0 args p_header msg_data msg_tag handle e =
    (if \<not> node_initialized e then Some (SGX_ERROR_INVALID_STATE, msg_data, e)
     else if handle \<ge> SGXSD_ENCLAVE_MAX_SERVERS then Some (SGX_ERROR_INVALID_PARAMETER, msg_data, e)
     else case sgxsd_spin_lock (server_states e ! handle) of None \<Rightarrow> None
     | Some d \<Rightarrow>
       let (res, msg', d, e) = sgxsd_enclave_server_call_locked P req0 key0 args p_header msg_data msg_tag d e
       in Some (res, msg', e\<lparr>server_states := (server_states e)[handle := sgxsd_spin_unlock d]\<rparr>))"

text \<open>The descriptor is erased, its lock included, before the callback runs.\<close>

definition erased_desc :: "'s sgxsd_server_state_desc" where
  "erased_desc = \<lparr>desc_valid = False, desc_lock = 0, desc_p_state = None\<rparr>"

definition sgxsd_enclave_server_stop_locked ::
  "('s, 'a, 'r, 'w) platform \<Rightarrow> 'a \<Rightarrow> 's sgxsd_server_state_desc \<Rightarrow> 'w \<Rightarrow> sgx_status \<times> 's sgxsd_server_state_desc \<times> 'w" where
  "sgxsd_enclave_server_stop_locked P args d w =
    (if \<not> desc_valid d then (SGX_ERROR_INVALID_STATE, d, w)
     else let p_state = desc_p_state d; d = erased_desc; (res, w) = server_terminate P args p_state w
          in (res, d, w))"

definition sgxsd_enclave_server_stop ::
  "('s, 'a, 'r, 'w) platform \<Rightarrow> 'a \<Rightarrow> nat \<Rightarrow> ('s, 'w) enclave \<Rightarrow> (sgx_status \<times> ('s, 'w) enclave) option" where
  "sgxsd_enclave_server_stop P args handle e =
    (if \<not> node_initialized e then Some (SGX_ERROR_INVALID_STATE, e)
     else if handle \<ge> SGXSD_ENCLAVE_MAX_SERVERS then Some (SGX_ERROR_INVALID_PARAMETER, e)
     else case sgxsd_spin_lock (server_states e ! handle) of None \<Rightarrow> None
     | Some d \<Rightarrow>
       let (res, d, w) = sgxsd_enclave_server_stop_locked P args d (world e)
       in Some (res, e\<lparr>server_states := (server_states e)[handle := sgxsd_spin_unlock d], world := w\<rparr>))"

definition sgxsd_enclave_ratelimit_fingerprint_locked ::
  "('s, 'a, 'r, 'w) platform \<Rightarrow> sgxsd_pending_request \<Rightarrow> bytes \<Rightarrow> bytes \<Rightarrow> 'a \<Rightarrow> sgxsd_msg_header option \<Rightarrow> bytes option \<Rightarrow> u64
    \<Rightarrow> 's sgxsd_server_state_desc \<Rightarrow> bytes \<Rightarrow> ('s, 'w) enclave \<Rightarrow> sgx_status \<times> bytes option \<times> bytes \<times> ('s, 'w) enclave" where
  "sgxsd_enclave_ratelimit_fingerprint_locked P req0 key0 fingerprint_key args p_header msg_data msg_tag d fingerprint e =
    (if \<not> desc_valid d then (SGX_ERROR_INVALID_STATE, msg_data, fingerprint, e)
     else case p_header of None \<Rightarrow> (SGX_ERROR_INVALID_PARAMETER, msg_data, fingerprint, e)
     | Some header \<Rightarrow> case msg_data of None \<Rightarrow> (SGX_ERROR_INVALID_PARAMETER, msg_data, fingerprint, e)
     | Some msg \<Rightarrow>
       if length msg = 0 then (SGX_ERROR_INVALID_PARAMETER, msg_data, fingerprint, e)
       else let (res, req) = sgxsd_enclave_get_pending_request P (msg_pending_request_id header) req0 e
       in if res \<noteq> SGX_SUCCESS then (res, msg_data, fingerprint, e)
       else let (client_key, server_key) = sgxsd_enclave_derive_request_keys P req (Some key0) (Some (replicate 32 0));
                from = \<lparr>from_valid = True, from_tag = msg_tag, from_server_key = the server_key\<rparr>;
                aad = id_image P (msg_pending_request_id header);
                (res, msg', mac) = sgxsd_aes_gcm_decrypt (stk P) client_key (Some msg) (word_of_nat (length msg)) (Some msg)
                  (Some (msg_iv header)) (Some aad) (word_of_nat (length aad)) (Some (msg_mac header))
       in if res \<noteq> SGX_SUCCESS
          then (if res = SGX_ERROR_INVALID_PARAMETER then SGX_ERROR_UNEXPECTED else res, msg', fingerprint, e)
          else let (res, fp, w) = create_ratelimit_fingerprint P fingerprint_key args (the msg') from fingerprint (world e)
               in (res, Some (replicate (length msg) 0), fp, e\<lparr>world := w\<rparr>))"

definition sgxsd_enclave_ratelimit_fingerprint ::
  "('s, 'a, 'r, 'w) platform \<Rightarrow> sgxsd_pending_request \<Rightarrow> bytes \<Rightarrow> bytes \<Rightarrow> 'a \<Rightarrow> sgxsd_msg_header option \<Rightarrow> bytes option \<Rightarrow> u64 \<Rightarrow> nat
    \<Rightarrow> bytes \<Rightarrow> ('s, 'w) enclave \<Rightarrow> (sgx_status \<times> bytes option \<times> bytes \<times> ('s, 'w) enclave) option" where
  "sgxsd_enclave_ratelimit_fingerprint P req0 key0 fingerprint_key args p_header msg_data msg_tag handle fingerprint e =
    (if \<not> node_initialized e then Some (SGX_ERROR_INVALID_STATE, msg_data, fingerprint, e)
     else if handle \<ge> SGXSD_ENCLAVE_MAX_SERVERS then Some (SGX_ERROR_INVALID_PARAMETER, msg_data, fingerprint, e)
     else case sgxsd_spin_lock (server_states e ! handle) of None \<Rightarrow> None
     | Some d \<Rightarrow>
       let (res, msg', fp, e) =
         sgxsd_enclave_ratelimit_fingerprint_locked P req0 key0 fingerprint_key args p_header msg_data msg_tag d fingerprint e
       in Some (res, msg', fp, e\<lparr>server_states := (server_states e)[handle := sgxsd_spin_unlock d]\<rparr>))"

end
