(* ===== verification/Sgxsd_Pending.thy ===== *)
theory Sgxsd_Pending
  imports Sgxsd
begin

text \<open>
  The hashing, the key derivation and the table of pending requests of \<open>sgxsd-enclave.c\<close>.  The enclave's
  HMAC and HKDF are the ones of RFC 2104 and RFC 5869; a request identifier is an authenticated
  encryption of a counter, and the table is a ring of \<open>2^order\<close> entries indexed by it.
\<close>

section \<open>Hashing\<close>

abbreviation sha256_spec :: "bytes \<Rightarrow> bytes" where
  "sha256_spec \<equiv> md_hash sha2_compress br_sha256_IV 8"

abbreviation hmac_sha256_spec :: "bytes \<Rightarrow> bytes \<Rightarrow> bytes" where
  "hmac_sha256_spec \<equiv> hmac_spec sha256_spec 64"

lemma sha256_round: "br_sha2small_round = sha2_compress"
  by (intro ext) (rule br_sha2small_round_compress)

lemma enclave_sha256: "stack_ok m \<Longrightarrow> sgxsd_enclave_sha256 m bufs = sha256_spec (concat bufs)"
  using sha256.hash_stream [of "sm_sha m" bufs]
  by (simp add: sgxsd_enclave_sha256_def stack_ok_def br_sha256_vtable_def sha256_round)

lemma length_sha256_spec [simp]: "length (sha256_spec d) = 32"
  using sha256.length_H [of d] by (simp add: sha256.sizes sha256_round)

lemma length_hmac_sha256_spec [simp]: "length (hmac_sha256_spec k d) = 32"
  by (simp add: hmac_spec_def Let_def)

text \<open>The loop that adds the key to both pads.\<close>

lemma pad_loop:
  fixes key a b :: bytes
  assumes "n \<le> length key" "n \<le> length a" "n \<le> length b"
  shows "foldl (\<lambda>(i, ok) k. (i[k := i ! k XOR key ! k], ok[k := ok ! k XOR key ! k])) (a, b) [0..<n]
    = (map2 (XOR) (take n a) (take n key) @ drop n a, map2 (XOR) (take n b) (take n key) @ drop n b)"
  using assms
proof (induction n)
  case (Suc n)
  have step: "(map2 (XOR) (take n c) (take n key) @ drop n c)[n := (map2 (XOR) (take n c) (take n key) @ drop n c) ! n XOR key ! n]
      = map2 (XOR) (take (Suc n) c) (take (Suc n) key) @ drop (Suc n) c" if "Suc n \<le> length c" for c :: bytes
  proof -
    have "drop n c = c ! n # drop (Suc n) c" using that by (simp add: Cons_nth_drop_Suc)
    then show ?thesis using that Suc.prems
      by (simp add: nth_append list_update_append take_Suc_conv_app_nth)
  qed
  show ?case using Suc by (simp add: step)
qed simp

lemma pad_key:
  assumes "length key \<le> 64"
  shows "map2 (XOR) (take (length key) (replicate 64 b)) (take (length key) key) @ drop (length key) (replicate 64 b)
    = map (\<lambda>x. x XOR b) (key @ replicate (64 - length key) (0 :: u8))"
  using assms by (intro nth_equalityI) (auto simp: nth_append xor.commute)

lemma enclave_hmac_eq:
  assumes "stack_ok m"
  shows "sgxsd_enclave_hmac_sha256 m (key # bufs) = hmac_sha256_spec key (concat bufs)"
proof -
  define k where "k = (if length key > 64 then sha256_spec key else key)"
  have k: "length k \<le> 64" by (simp add: k_def)
  have "sgxsd_enclave_hmac_sha256 m (key # bufs) = sha256_spec (map (\<lambda>x. x XOR 0x5c) (k @ replicate (64 - length k) 0)
      @ sha256_spec (map (\<lambda>x. x XOR 0x36) (k @ replicate (64 - length k) 0) @ concat bufs))"
    unfolding sgxsd_enclave_hmac_sha256_def Let_def list.sel enclave_sha256 [OF assms] concat.simps append_Nil2 k_def [symmetric]
      pad_loop [of "length k" k "replicate 64 0x36" "replicate 64 0x5c", OF order_refl, unfolded length_replicate, OF k k] prod.case
      pad_key [OF k] by (rule refl)
  then show ?thesis by (simp add: hmac_spec_def hmac_key0_def Let_def k_def)
qed

section \<open>Key derivation\<close>

text \<open>The blocks of the HKDF expansion of RFC 5869 with empty info.\<close>

definition hkdf_t1 :: "bytes \<Rightarrow> bytes" where "hkdf_t1 prk = hmac_sha256_spec prk [1]"
definition hkdf_t2 :: "bytes \<Rightarrow> bytes" where "hkdf_t2 prk = hmac_sha256_spec prk (hkdf_t1 prk @ [2])"

lemma hkdf_rounds:
  assumes "stack_ok m"
  shows "sgxsd_enclave_ra_hkdf_round m prk \<lparr>t_n = x, hkdf_n = 0\<rparr> = \<lparr>t_n = hkdf_t1 prk, hkdf_n = 1\<rparr>"
    and "sgxsd_enclave_ra_hkdf_round m prk \<lparr>t_n = hkdf_t1 prk, hkdf_n = 1\<rparr> = \<lparr>t_n = hkdf_t2 prk, hkdf_n = 2\<rparr>"
  by (simp_all add: sgxsd_enclave_ra_hkdf_round_def Let_def enclave_hmac_eq [OF assms] hkdf_t1_def hkdf_t2_def)

lemma length_hkdf [simp]: "length (hkdf_t1 prk) = 32" "length (hkdf_t2 prk) = 32"
  by (simp_all add: hkdf_t1_def hkdf_t2_def)

lemma derive_request_keys:
  assumes "stack_ok (stk P)" "length k = 32" "length k' = 32"
  shows "sgxsd_enclave_derive_request_keys P req (Some k) (Some k') = (Some (hkdf_t1 (hkdf_prk req)), Some (hkdf_t2 (hkdf_prk req)))"
    and "sgxsd_enclave_derive_request_keys P req None (Some k') = (None, Some (hkdf_t2 (hkdf_prk req)))"
  using assms by (simp_all add: sgxsd_enclave_derive_request_keys_def hkdf_rounds Let_def sgxsd_sizes memcpy_whole)

section \<open>The contracts of the platform and the invariant\<close>

text \<open>What the code relies on: a successful read of random bytes fills the buffer, and the
  uninitialised buffers have the sizes of their types.\<close>

definition platform_ok :: "('s, 'a, 'r, 'w) platform \<Rightarrow> bool" where
  "platform_ok P \<longleftrightarrow> stack_ok (stk P) \<and> length (msg_mac (uninit_header P)) = 16 \<and>
    (\<forall>n w. fst (sgx_read_rand P n w) = SGX_SUCCESS \<longrightarrow> length (fst (snd (sgx_read_rand P n w))) = n)"

lemma platform_okD:
  assumes "platform_ok P"
  shows "stack_ok (stk P)" "length (msg_mac (uninit_header P)) = 16"
    and "sgx_read_rand P n w = (SGX_SUCCESS, b, w') \<Longrightarrow> length b = n"
  using assms by (auto simp: platform_ok_def dest!: spec [of _ n] spec [of _ w])

definition table_ok :: "('s, 'w) enclave \<Rightarrow> bool" where
  "table_ok e \<longleftrightarrow> unat (pending_requests_table_order e) \<le> 63 \<and> length (pending_requests e) = 2 ^ unat (pending_requests_table_order e)
    \<and> length (pending_request_id_key e) = 32"

definition rid_ok :: "sgxsd_pending_request_id \<Rightarrow> bool" where
  "rid_ok rid \<longleftrightarrow> length (prid_data rid) = 8 \<and> length (prid_iv rid) = 12 \<and> length (prid_mac rid) = 16"

section \<open>Request identifiers\<close>

definition issue_id :: "bytes \<Rightarrow> bytes \<Rightarrow> u64 \<Rightarrow> sgxsd_pending_request_id" where
  "issue_id key iv i = (let c = gcm_cipher key iv (br_enc64le i) in \<lparr>prid_data = c, prid_iv = iv, prid_mac = gcm_mac key iv [] c\<rparr>)"

definition open_id :: "bytes \<Rightarrow> sgxsd_pending_request_id \<Rightarrow> u64 option" where
  "open_id key rid = (if prid_mac rid = gcm_mac key (prid_iv rid) [] (prid_data rid)
     then Some (br_dec64le (gcm_cipher key (prid_iv rid) (prid_data rid))) else None)"

lemma open_issue [simp]: "open_id key (issue_id key iv i) = Some i"
  by (simp add: open_id_def issue_id_def Let_def)

lemma issue_id_ok: "length iv = 12 \<Longrightarrow> rid_ok (issue_id key iv i)"
  by (simp add: rid_ok_def issue_id_def Let_def)

lemma slot_mod:
  assumes "unat (pending_requests_table_order e) \<le> 63"
  shows "pending_slot e i = unat i mod 2 ^ unat (pending_requests_table_order e)"
proof -
  have "push_bit n 1 - 1 = (mask n :: u64)" for n by (simp add: mask_eq_exp_minus_1 push_bit_eq_mult)
  then have "pending_slot e i = unat (take_bit (unat (pending_requests_table_order e)) i)"
    unfolding pending_slot_def by (simp only: take_bit_eq_mask)
  then show ?thesis using assms by (simp only: unsigned_take_bit_eq) (simp add: take_bit_eq_mod)
qed

lemma slot_less: "table_ok e \<Longrightarrow> pending_slot e i < length (pending_requests e)"
  by (simp add: table_ok_def slot_mod)

lemma slot_shift:
  assumes "unat (pending_requests_table_order e) \<le> 63"
  shows "pending_slot e (i + word_of_nat k) = (unat i + k) mod 2 ^ unat (pending_requests_table_order e)"
proof -
  let ?o = "unat (pending_requests_table_order e)"
  have "(2 :: nat) ^ ?o dvd 2 ^ 64" using assms by (intro le_imp_power_dvd) simp
  then have "(unat i + k) mod 2 ^ 64 mod 2 ^ ?o = (unat i + k) mod 2 ^ ?o" by (rule mod_mod_cancel)
  moreover have "unat (i + word_of_nat k) = (unat i + k) mod 2 ^ 64"
    by (simp add: unat_word_ariths unsigned_of_nat take_bit_eq_mod mod_simps)
  ultimately show ?thesis by (simp only: slot_mod [OF assms])
qed

lemma add_pending_request:
  assumes "platform_ok P" "table_ok e" "rid_ok rid"
  shows "sgxsd_enclave_add_pending_request P rid req e =
    (let i = last_pending_request_id_val e + 1;
         (res, iv, w) = sgx_read_rand P 12 (world e);
         e' = e\<lparr>last_pending_request_id_val := i,
                pending_requests := (pending_requests e)[pending_slot e i := \<lparr>id_val = i, hkdf_prk = hkdf_prk req\<rparr>], world := w\<rparr>
     in if res = SGX_SUCCESS then (SGX_SUCCESS, issue_id (pending_request_id_key e) iv i, e') else (res, rid\<lparr>prid_iv := iv\<rparr>, e'))"
proof -
  obtain res iv w where rr: "sgx_read_rand P 12 (world e) = (res, iv, w)" by (cases "sgx_read_rand P 12 (world e)")
  have iv: "length iv = 12" if "res = SGX_SUCCESS" using platform_okD(3) [OF assms(1)] rr that by blast
  have "sgxsd_aes_gcm_encrypt (stk P) (Some (pending_request_id_key e)) (Some (br_enc64le i)) 8 (Some (prid_data rid)) (Some iv) None 0 (Some (prid_mac rid))
      = (SGX_SUCCESS, Some (prid_data (issue_id (pending_request_id_key e) iv i)), Some (prid_mac (issue_id (pending_request_id_key e) iv i)))"
    if "res = SGX_SUCCESS" for i
    unfolding sgxsd_aes_gcm_encrypt_def aes_gcm_run_no_aad
    using aes_gcm_run_session [of "stk P" "pending_request_id_key e" iv "prid_mac rid" "prid_data rid" "br_enc64le i" 8 0 "[]" True]
      platform_okD(1) [OF assms(1)] assms(2,3) iv [OF that]
    by (simp add: table_ok_def rid_ok_def issue_id_def Let_def)
  then show ?thesis
    using rr by (simp add: sgxsd_enclave_add_pending_request_def Let_def sgxsd_sizes pending_slot_def issue_id_def)
qed

lemma decrypt_id:
  assumes "platform_ok P" "length key = 32" "rid_ok rid"
  shows "sgxsd_aes_gcm_decrypt (stk P) (Some key) (Some (prid_data rid)) 8 (Some (replicate 8 0)) (Some (prid_iv rid)) None 0 (Some (prid_mac rid)) =
    (case open_id key rid of None \<Rightarrow> (SGX_ERROR_MAC_MISMATCH, Some (replicate 8 0), Some (prid_mac rid))
     | Some i \<Rightarrow> (SGX_SUCCESS, Some (br_enc64le i), Some (prid_mac rid)))"
proof -
  have "br_enc64le (br_dec64le (gcm_cipher key (prid_iv rid) (prid_data rid))) = gcm_cipher key (prid_iv rid) (prid_data rid)"
    using assms(3) by (simp add: le64.enc_dec rid_ok_def)
  then show ?thesis
    unfolding sgxsd_aes_gcm_decrypt_def aes_gcm_run_no_aad
    using aes_gcm_run_session [of "stk P" key "prid_iv rid" "prid_mac rid" "replicate 8 0" "prid_data rid" 8 0 "[]" False]
      platform_okD(1) [OF assms(1)] assms(2,3)
    by (simp add: rid_ok_def open_id_def)
qed

definition cleared_request :: sgxsd_pending_request where
  "cleared_request = \<lparr>id_val = 0, hkdf_prk = replicate 32 0\<rparr>"

lemma get_pending_request:
  assumes "platform_ok P" "table_ok e" "rid_ok rid"
  shows "sgxsd_enclave_get_pending_request P rid out e =
    (case open_id (pending_request_id_key e) rid of None \<Rightarrow> (SGX_ERROR_MAC_MISMATCH, out)
     | Some i \<Rightarrow> let found = pending_requests e ! pending_slot e i
       in if id_val found = i then (SGX_SUCCESS, found) else (SGXSD_ERROR_PENDING_REQUEST_NOT_FOUND, out))"
  using decrypt_id [OF assms(1) _ assms(3)] assms(2)
  by (simp add: sgxsd_enclave_get_pending_request_def table_ok_def Let_def split: option.split)

lemma remove_pending_request:
  assumes "platform_ok P" "table_ok e" "rid_ok rid"
  shows "sgxsd_enclave_remove_pending_request P rid out e =
    (case open_id (pending_request_id_key e) rid of None \<Rightarrow> (SGX_ERROR_MAC_MISMATCH, out, e)
     | Some i \<Rightarrow> let found = pending_requests e ! pending_slot e i
       in if id_val found = i
          then (SGX_SUCCESS, found, e\<lparr>pending_requests := (pending_requests e)[pending_slot e i := cleared_request]\<rparr>)
          else (SGXSD_ERROR_PENDING_REQUEST_NOT_FOUND, out, e))"
  using decrypt_id [OF assms(1) _ assms(3)] assms(2)
  by (simp add: sgxsd_enclave_remove_pending_request_def table_ok_def Let_def cleared_request_def split: option.split)

section \<open>The lifetime of a pending request\<close>

definition add_requests :: "('s, 'a, 'r, 'w) platform \<Rightarrow> sgxsd_pending_request_id \<Rightarrow> sgxsd_pending_request list \<Rightarrow> ('s, 'w) enclave \<Rightarrow> ('s, 'w) enclave" where
  "add_requests P rid reqs e = foldl (\<lambda>e req. snd (snd (sgxsd_enclave_add_pending_request P rid req e))) e reqs"

lemma add_frame:
  assumes "platform_ok P" "table_ok e" "rid_ok rid" "sgxsd_enclave_add_pending_request P rid req e = (res, rid', e')"
  shows "table_ok e'" "pending_request_id_key e' = pending_request_id_key e"
    "pending_requests_table_order e' = pending_requests_table_order e"
    "last_pending_request_id_val e' = last_pending_request_id_val e + 1"
    "pending_requests e' = (pending_requests e)[pending_slot e (last_pending_request_id_val e + 1) :=
       \<lparr>id_val = last_pending_request_id_val e + 1, hkdf_prk = hkdf_prk req\<rparr>]"
    "node_initialized e' = node_initialized e" "server_states e' = server_states e" "dh_keypair e' = dh_keypair e"
  using assms(4) assms(2) unfolding add_pending_request [OF assms(1-3)]
  by (auto simp: Let_def table_ok_def split: prod.splits if_splits)

lemma slot_order: "pending_requests_table_order e' = pending_requests_table_order e \<Longrightarrow> pending_slot e' i = pending_slot e i"
  by (simp add: pending_slot_def)

lemma table_evolution:
  assumes P: "platform_ok P" "rid_ok rid" and e: "table_ok e" "last_pending_request_id_val e = i"
    "pending_requests e ! pending_slot e i = \<lparr>id_val = i, hkdf_prk = k\<rparr>"
  defines "b \<equiv> 2 ^ unat (pending_requests_table_order e)"
  shows "let e' = add_requests P rid reqs e; n = length reqs in table_ok e' \<and> pending_request_id_key e' = pending_request_id_key e
    \<and> pending_requests_table_order e' = pending_requests_table_order e \<and> last_pending_request_id_val e' = i + word_of_nat n
    \<and> id_val (pending_requests e' ! pending_slot e i) = i + word_of_nat (b * (n div b))
    \<and> (n < b \<longrightarrow> hkdf_prk (pending_requests e' ! pending_slot e i) = k)"
proof (induction reqs rule: rev_induct)
  case Nil
  then show ?case using e by (simp add: add_requests_def)
next
  case (snoc req reqs)
  let ?e = "add_requests P rid reqs e" and ?n = "length reqs"
  have o: "unat (pending_requests_table_order e) \<le> 63" using e(1) by (simp add: table_ok_def)
  have ih: "table_ok ?e" "pending_requests_table_order ?e = pending_requests_table_order e" "last_pending_request_id_val ?e = i + word_of_nat ?n"
    "pending_request_id_key ?e = pending_request_id_key e"
    "id_val (pending_requests ?e ! pending_slot e i) = i + word_of_nat (b * (?n div b))"
    "?n < b \<Longrightarrow> hkdf_prk (pending_requests ?e ! pending_slot e i) = k" using snoc.IH by (auto simp: Let_def)
  obtain res rid' e' where a: "sgxsd_enclave_add_pending_request P rid req ?e = (res, rid', e')" 
    by (cases "sgxsd_enclave_add_pending_request P rid req ?e")
  note fr = add_frame [OF P(1) ih(1) P(2) a]
  have e': "add_requests P rid (reqs @ [req]) e = e'" using a by (simp add: add_requests_def)
  have j: "last_pending_request_id_val ?e + 1 = i + word_of_nat (Suc ?n)" using ih(3) by simp
  have same: "pending_slot ?e (i + word_of_nat (Suc ?n)) = pending_slot e i \<longleftrightarrow> b dvd Suc ?n"
  proof -
    have "pending_slot ?e (i + word_of_nat (Suc ?n)) = (unat i + Suc ?n) mod b"
      unfolding slot_order [OF ih(2)] slot_shift [OF o] b_def by (rule refl)
    moreover have "pending_slot e i = unat i mod b" unfolding slot_mod [OF o] b_def by (rule refl)
    ultimately show ?thesis using mod_eq_dvd_iff_nat [of "unat i" "unat i + Suc ?n" b] by (auto simp del: add_Suc_right)
  qed
  have len: "pending_slot e i < length (pending_requests ?e)" using slot_less [OF ih(1), of i] slot_order [OF ih(2)] by simp
  have entry: "pending_requests e' ! pending_slot e i =
      (if b dvd Suc ?n then \<lparr>id_val = i + word_of_nat (Suc ?n), hkdf_prk = hkdf_prk req\<rparr> else pending_requests ?e ! pending_slot e i)"
    unfolding fr(5) j using same len by (auto simp: nth_list_update)
  have q: "b * (Suc ?n div b) = (if b dvd Suc ?n then Suc ?n else b * (?n div b))"
  proof (cases "b dvd Suc ?n")
    case True
    then show ?thesis by (simp only: dvd_mult_div_cancel if_True)
  next
    case False
    then show ?thesis by (simp add: div_Suc dvd_eq_mod_eq_0)
  qed
  have nd: "\<not> b dvd Suc ?n" if "Suc ?n < b" using that by (auto dest: dvd_imp_le)
  have idv: "id_val (pending_requests e' ! pending_slot e i) = i + word_of_nat (b * (Suc ?n div b))"
    unfolding entry q using ih(5) by (cases "b dvd Suc ?n") (simp_all del: of_nat_mult)
  have "Suc ?n < b \<longrightarrow> hkdf_prk (pending_requests e' ! pending_slot e i) = k" using nd entry ih(6) by auto
  then show ?case unfolding e' Let_def length_append_singleton using fr(1-4) ih(2-4) j idv by simp
qed

text \<open>(C29) A request identifier is accepted exactly as long as fewer than \<open>2^order\<close> requests have been
  added after it: then it returns the stored key, afterwards it is not found.\<close>

theorem pending_request_lifetime:
  assumes "platform_ok P" "table_ok e" "rid_ok rid0" "sgxsd_enclave_add_pending_request P rid0 req e = (SGX_SUCCESS, rid, e')"
    and "length reqs < 2 ^ 64"
  shows "sgxsd_enclave_get_pending_request P rid out (add_requests P rid0 reqs e') =
    (if length reqs < 2 ^ unat (pending_requests_table_order e)
     then (SGX_SUCCESS, \<lparr>id_val = last_pending_request_id_val e + 1, hkdf_prk = hkdf_prk req\<rparr>)
     else (SGXSD_ERROR_PENDING_REQUEST_NOT_FOUND, out))"
proof -
  let ?i = "last_pending_request_id_val e + 1" and ?e = "add_requests P rid0 reqs e'" and ?b = "(2 :: nat) ^ unat (pending_requests_table_order e)"
  note fr = add_frame [OF assms(1-4)]
  obtain iv where iv: "length iv = 12" "rid = issue_id (pending_request_id_key e) iv ?i"
    using assms(4) platform_okD(3) [OF assms(1), of 12 "world e"] unfolding add_pending_request [OF assms(1-3)]
    by (auto simp: Let_def split: prod.splits if_splits)
  have "pending_requests e' ! pending_slot e' ?i = \<lparr>id_val = ?i, hkdf_prk = hkdf_prk req\<rparr>"
    using fr(5) slot_less [OF assms(2), of ?i] slot_order [OF fr(3)] by simp
  from table_evolution [OF assms(1,3) fr(1,4) this, of reqs]
  have ev: "table_ok ?e" "pending_request_id_key ?e = pending_request_id_key e" "pending_slot ?e ?i = pending_slot e' ?i"
    "id_val (pending_requests ?e ! pending_slot e' ?i) = ?i + word_of_nat (?b * (length reqs div ?b))"
    "length reqs < ?b \<Longrightarrow> hkdf_prk (pending_requests ?e ! pending_slot e' ?i) = hkdf_prk req"
    using fr(2,3) by (auto simp: Let_def pending_slot_def)
  have ok: "rid_ok rid" using issue_id_ok [OF iv(1)] iv(2) by simp
  have op: "open_id (pending_request_id_key ?e) rid = Some ?i" unfolding ev(2) iv(2) by (rule open_issue)
  have get: "sgxsd_enclave_get_pending_request P rid out ?e = (let found = pending_requests ?e ! pending_slot e' ?i
       in if id_val found = ?i then (SGX_SUCCESS, found) else (SGXSD_ERROR_PENDING_REQUEST_NOT_FOUND, out))"
    unfolding get_pending_request [OF assms(1) ev(1) ok] op option.case ev(3) by (rule refl)
  show ?thesis
  proof (cases "length reqs < ?b")
    case True
    then show ?thesis using get ev(4,5) by (simp add: Let_def)
  next
    case False
    have bnd: "?b * (length reqs div ?b) < 2 ^ 64" using assms(5) by (meson le_less_trans times_div_less_eq_dividend)
    have "0 < length reqs div ?b" using False by (simp add: div_greater_zero_iff)
    then have "word_of_nat (?b * (length reqs div ?b)) \<noteq> (0 :: u64)"
      using bnd by (subst word_of_nat_eq_0_iff) (auto dest: dvd_imp_le)
    then show ?thesis using get ev(4) False by (simp add: Let_def)
  qed
qed

text \<open>(C30) A pending request is consumed once: the first removal returns the stored key, and every later
  removal or look-up with the same identifier reports that it is not found and changes nothing.\<close>

theorem pending_request_once:
  assumes "platform_ok P" "table_ok e" "rid_ok rid0" "sgxsd_enclave_add_pending_request P rid0 req e = (SGX_SUCCESS, rid, e')"
    and "last_pending_request_id_val e \<noteq> - 1"
  shows "case sgxsd_enclave_remove_pending_request P rid out e' of (res, found, e'') \<Rightarrow>
    res = SGX_SUCCESS \<and> hkdf_prk found = hkdf_prk req
    \<and> sgxsd_enclave_remove_pending_request P rid out' e'' = (SGXSD_ERROR_PENDING_REQUEST_NOT_FOUND, out', e'')
    \<and> sgxsd_enclave_get_pending_request P rid out' e'' = (SGXSD_ERROR_PENDING_REQUEST_NOT_FOUND, out')"
proof -
  let ?i = "last_pending_request_id_val e + 1"
  note fr = add_frame [OF assms(1-4)]
  obtain iv where iv: "length iv = 12" "rid = issue_id (pending_request_id_key e) iv ?i"
    using assms(4) platform_okD(3) [OF assms(1), of 12 "world e"] unfolding add_pending_request [OF assms(1-3)]
    by (auto simp: Let_def split: prod.splits if_splits)
  have ok: "rid_ok rid" using issue_id_ok [OF iv(1)] iv(2) by simp
  have en: "pending_requests e' ! pending_slot e' ?i = \<lparr>id_val = ?i, hkdf_prk = hkdf_prk req\<rparr>"
    using fr(5) slot_less [OF assms(2), of ?i] slot_order [OF fr(3)] by simp
  define e'' where "e'' = e'\<lparr>pending_requests := (pending_requests e')[pending_slot e' ?i := cleared_request]\<rparr>"
  have op: "open_id (pending_request_id_key e') rid = Some ?i" "open_id (pending_request_id_key e'') rid = Some ?i"
    unfolding iv(2) using fr(2) by (simp_all add: e''_def)
  have rm: "sgxsd_enclave_remove_pending_request P rid out e' = (SGX_SUCCESS, \<lparr>id_val = ?i, hkdf_prk = hkdf_prk req\<rparr>, e'')"
    unfolding remove_pending_request [OF assms(1) fr(1) ok] op option.case Let_def en by (simp add: e''_def)
  have ok'': "table_ok e''" using fr(1) by (simp add: e''_def table_ok_def)
  have s'': "pending_slot e'' ?i = pending_slot e' ?i" by (simp add: e''_def pending_slot_def)
  have "id_val (pending_requests e'' ! pending_slot e' ?i) = 0"
    using slot_less [OF fr(1)] by (simp add: e''_def cleared_request_def)
  moreover have "?i \<noteq> 0" using assms(5) by (metis add.commute add_eq_0_iff)
  ultimately have "sgxsd_enclave_remove_pending_request P rid out' e'' = (SGXSD_ERROR_PENDING_REQUEST_NOT_FOUND, out', e'')"
    "sgxsd_enclave_get_pending_request P rid out' e'' = (SGXSD_ERROR_PENDING_REQUEST_NOT_FOUND, out')"
    unfolding remove_pending_request [OF assms(1) ok'' ok] get_pending_request [OF assms(1) ok'' ok] op option.case Let_def s''
    by simp_all
  then show ?thesis unfolding rm by simp
qed

end
