(* ===== verification/Sgxsd_Server.thy ===== *)
theory Sgxsd_Server
  imports Sgxsd_Pending
begin

text \<open>
  The entry points of \<open>sgxsd-enclave.c\<close>: the invariant of every reachable state, the results of calls of a running
  server, of negotiations and of replies, what the node refuses before and after its initialisation, the life of a
  server, and the lock of a server descriptor under interleaved threads.  The theory ends with a concrete platform, on which the
  hypotheses hold.
\<close>

section \<open>The invariant of the enclave\<close>

definition initial_enclave :: "'w \<Rightarrow> ('s, 'w) enclave" where
  "initial_enclave w = \<lparr>node_initialized = False, read_rand_state = replicate 32 0,
     dh_keypair = \<lparr>privkey = replicate 32 0, pubkey = replicate 32 0\<rparr>, new_dh_keypair = \<lparr>privkey = replicate 32 0, pubkey = replicate 32 0\<rparr>,
     pending_requests = [], pending_requests_table_order = 0, last_pending_request_id_val = 0, pending_request_id_key = replicate 32 0,
     server_states = replicate SGXSD_ENCLAVE_MAX_SERVERS erased_desc, world = w\<rparr>"

definition enclave_ok :: "('s, 'w) enclave \<Rightarrow> bool" where
  "enclave_ok e \<longleftrightarrow> (node_initialized e \<longrightarrow> table_ok e) \<and> length (server_states e) = SGXSD_ENCLAVE_MAX_SERVERS
    \<and> list_all (\<lambda>d. desc_lock d = 0) (server_states e)"

text \<open>One call of an entry point, by any caller and with any arguments.  A call that would wait for a
  lock for ever gives no step.\<close>

inductive enclave_step :: "('s, 'a, 'r, 'w) platform \<Rightarrow> ('s, 'w) enclave \<Rightarrow> ('s, 'w) enclave \<Rightarrow> bool" for P where
  init: "sgxsd_enclave_node_init P args e = (res, e') \<Longrightarrow> enclave_step P e e'"
| report: "sgxsd_enclave_get_next_report P kp info rep e = (res, rep', e') \<Longrightarrow> enclave_step P e e'"
| quote: "sgxsd_enclave_set_current_quote e = (res, e') \<Longrightarrow> enclave_step P e e'"
| negotiate: "rid_ok rid \<Longrightarrow> sgxsd_enclave_negotiate_request P kp req rid key p_request p_response e = (res, resp, e') \<Longrightarrow> enclave_step P e e'"
| start: "sgxsd_enclave_server_start P sargs handle e = Some (res, e') \<Longrightarrow> enclave_step P e e'"
| call: "(\<And>h. p_header = Some h \<Longrightarrow> rid_ok (msg_pending_request_id h)) \<Longrightarrow>
    sgxsd_enclave_server_call P req key sargs p_header msg tag handle e = Some (res, msg', e') \<Longrightarrow> enclave_step P e e'"
| stop: "sgxsd_enclave_server_stop P sargs handle e = Some (res, e') \<Longrightarrow> enclave_step P e e'"
| fingerprint: "sgxsd_enclave_ratelimit_fingerprint P req key fkey sargs p_header msg tag handle fp e = Some (res, msg', fp', e') \<Longrightarrow> enclave_step P e e'"

lemma keypair_frame:
  assumes "sgxsd_enclave_generate_curve25519_keypair P kp e = (res, kp', e')"
  obtains s w where "e' = e\<lparr>read_rand_state := s, world := w\<rparr>"
proof
  show "e' = e\<lparr>read_rand_state := read_rand_state e', world := world e'\<rparr>"
    using assms by (auto simp: sgxsd_enclave_generate_curve25519_keypair_def sgxsd_enclave_read_rand_def Let_def split: if_splits prod.splits)
qed

lemma table_ok_frame:
  "table_ok (e\<lparr>read_rand_state := s\<rparr>) = table_ok e" "table_ok (e\<lparr>world := w\<rparr>) = table_ok e"
  "table_ok (e\<lparr>dh_keypair := k\<rparr>) = table_ok e" "table_ok (e\<lparr>new_dh_keypair := k\<rparr>) = table_ok e"
  "table_ok (e\<lparr>server_states := ds\<rparr>) = table_ok e"
  by (simp_all add: table_ok_def)

lemma enclave_ok_frame:
  "enclave_ok (e\<lparr>read_rand_state := s\<rparr>) = enclave_ok e" "enclave_ok (e\<lparr>world := w\<rparr>) = enclave_ok e"
  "enclave_ok (e\<lparr>dh_keypair := k\<rparr>) = enclave_ok e" "enclave_ok (e\<lparr>new_dh_keypair := k\<rparr>) = enclave_ok e"
  by (simp_all add: enclave_ok_def table_ok_frame)

lemma init_ok:
  assumes "platform_ok P" "enclave_ok e" "sgxsd_enclave_node_init P args e = (res, e')"
  shows "enclave_ok e'"
proof (cases "node_initialized e")
  case True
  then show ?thesis using assms by (simp add: sgxsd_enclave_node_init_def sgxsd_enclave_node_init_locked_def)
next
  case False
  show ?thesis
  proof (cases "node_initialized e'")
    case i: True
    have ord: "unat (push_bit (unat k) 1 :: u64) = 2 ^ unat k" "unat k \<le> 63" if "\<not> k > 63" for k :: u8
    proof -
      show "unat k \<le> 63" using that unat_mono [of 63 k] by (simp add: word_less_nat_alt)
      then have "(2 :: nat) ^ unat k < 2 ^ 64" by (intro power_strict_increasing) simp_all
      then show "unat (push_bit (unat k) 1 :: u64) = 2 ^ unat k"
        using unsigned_of_nat [where 'a = nat and 'b = 64, of "2 ^ unat k"] by (simp add: push_bit_eq_mult take_bit_eq_mod)
    qed
    show ?thesis
      using assms(3) False i assms(2) platform_okD(3) [OF assms(1)] ord
      unfolding sgxsd_enclave_node_init_def sgxsd_enclave_node_init_locked_def
      by (auto simp: Let_def enclave_ok_def table_ok_def sgxsd_sizes not_less [symmetric]
          split: prod.splits if_splits option.splits elim!: keypair_frame)
  next
    case u: False
    then show ?thesis
      using assms(3) False assms(2) unfolding sgxsd_enclave_node_init_def sgxsd_enclave_node_init_locked_def
      by (auto simp: Let_def enclave_ok_def split: prod.splits if_splits option.splits elim!: keypair_frame)
  qed
qed

lemma report_ok:
  assumes "enclave_ok e" "sgxsd_enclave_get_next_report P kp info rep e = (res, rep', e')"
  shows "enclave_ok e'"
  using assms unfolding sgxsd_enclave_get_next_report_def
  by (auto simp: Let_def enclave_ok_frame split: prod.splits if_splits elim!: keypair_frame)

lemma add_ok:
  assumes "platform_ok P" "enclave_ok e" "node_initialized e" "rid_ok rid" "sgxsd_enclave_add_pending_request P rid req e = (res, rid', e')"
  shows "enclave_ok e'"
proof -
  have t: "table_ok e" using assms(2,3) by (simp add: enclave_ok_def)
  show ?thesis using add_frame [OF assms(1) t assms(4,5)] assms(2) by (simp add: enclave_ok_def)
qed

lemma negotiate_ok:
  assumes "platform_ok P" "enclave_ok e" "rid_ok rid"
    and "sgxsd_enclave_negotiate_request P kp req rid key p_request p_response e = (res, resp, e')"
  shows "enclave_ok e'"
proof -
  obtain r eph e1 where g: "sgxsd_enclave_generate_curve25519_keypair P kp e = (r, eph, e1)" by (cases "sgxsd_enclave_generate_curve25519_keypair P kp e")
  obtain s w where e1: "e1 = e\<lparr>read_rand_state := s, world := w\<rparr>" using g by (rule keypair_frame)
  have ok1: "enclave_ok e1" using assms(2) unfolding e1 by (simp only: enclave_ok_frame)
  have add: "enclave_ok e2" if "node_initialized e" "sgxsd_enclave_add_pending_request P rid q e1 = (r', rid', e2)" for q r' rid' e2
    using add_ok [OF assms(1) ok1 _ assms(3) that(2)] that(1) e1 by simp
  show ?thesis
    using assms(4) assms(2) ok1 add unfolding sgxsd_enclave_negotiate_request_def g
    by (auto simp: Let_def split: prod.splits if_splits option.splits)
qed

lemma enclave_okD:
  assumes "enclave_ok e" "h < SGXSD_ENCLAVE_MAX_SERVERS"
  shows "desc_lock (server_states e ! h) = 0" "sgxsd_spin_lock (server_states e ! h) = Some ((server_states e ! h)\<lparr>desc_lock := 1\<rparr>)"
  using assms by (simp_all add: enclave_ok_def list_all_length sgxsd_spin_lock_def)

lemma enclave_ok_unlock:
  assumes "enclave_ok e"
  shows "enclave_ok (e\<lparr>server_states := (server_states e)[h := sgxsd_spin_unlock d]\<rparr>)"
  using assms set_update_subset_insert [of "server_states e" h "sgxsd_spin_unlock d"]
  by (auto simp: enclave_ok_def list_all_iff sgxsd_spin_unlock_def table_ok_def)

lemma enclave_ok_unlock': "enclave_ok e \<Longrightarrow> enclave_ok (e\<lparr>server_states := (server_states e)[h := sgxsd_spin_unlock d], world := w\<rparr>)"
  by (simp only: enclave_ok_frame enclave_ok_unlock)

lemma remove_ok:
  assumes "platform_ok P" "enclave_ok e" "sgxsd_enclave_remove_pending_request P rid out e = (res, req, e')"
  shows "enclave_ok e'"
  using assms(2,3) unfolding sgxsd_enclave_remove_pending_request_def
  by (auto simp: Let_def enclave_ok_def table_ok_def split: prod.splits if_splits)

lemma call_locked_ok:
  assumes "platform_ok P" "enclave_ok e" "sgxsd_enclave_server_call_locked P req key args p_header msg tag d e = (res, msg', d', e')"
  shows "enclave_ok e'"
  using assms(3) remove_ok [OF assms(1,2)] assms(2) unfolding sgxsd_enclave_server_call_locked_def
  by (auto simp: Let_def enclave_ok_frame split: prod.splits if_splits option.splits)

lemma fingerprint_locked_ok:
  assumes "enclave_ok e" "sgxsd_enclave_ratelimit_fingerprint_locked P req key fkey args p_header msg tag d fp e = (res, msg', fp', e')"
  shows "enclave_ok e'"
  using assms unfolding sgxsd_enclave_ratelimit_fingerprint_locked_def
  by (auto simp: Let_def enclave_ok_frame split: prod.splits if_splits option.splits)

lemma step_ok:
  assumes "platform_ok P" "enclave_step P e e'" "enclave_ok e"
  shows "enclave_ok e'"
  using assms(2,3)
proof cases
  case (start sargs handle res)
  then show ?thesis using assms(3)
    by (auto simp: sgxsd_enclave_server_start_def Let_def intro: enclave_ok_unlock' split: if_splits option.splits prod.splits)
next
  case (stop sargs handle res)
  then show ?thesis using assms(3)
    by (auto simp: sgxsd_enclave_server_stop_def Let_def intro: enclave_ok_unlock' split: if_splits option.splits prod.splits)
next
  case (call p_header req key sargs msg tag handle res msg')
  then show ?thesis using assms(3) call_locked_ok [OF assms(1,3)]
    by (auto simp: sgxsd_enclave_server_call_def Let_def intro!: enclave_ok_unlock split: if_splits option.splits prod.splits)
next
  case (fingerprint req key fkey sargs p_header msg tag handle fp res msg' fp')
  then show ?thesis using assms(3) fingerprint_locked_ok [OF assms(3)]
    by (auto simp: sgxsd_enclave_ratelimit_fingerprint_def Let_def intro!: enclave_ok_unlock split: if_splits option.splits prod.splits)
next
  case (negotiate rid kp req key p_request p_response res resp)
  show ?thesis by (rule negotiate_ok [OF assms(1,3) negotiate])
next
  case (quote res)
  then show ?thesis using assms(3) by (auto simp: sgxsd_enclave_set_current_quote_def enclave_ok_frame split: if_splits)
qed (use assms init_ok report_ok in blast)+

lemma initial_ok: "enclave_ok (initial_enclave w)"
  by (simp add: enclave_ok_def initial_enclave_def list_all_length erased_desc_def)

lemma reachable_ok:
  assumes "platform_ok P" "(enclave_step P)\<^sup>*\<^sup>* (initial_enclave w) e"
  shows "enclave_ok e"
  using assms(2) by (induction rule: rtranclp_induct) (auto intro: initial_ok step_ok [OF assms(1)])

text \<open>(C18) In every state that the enclave can reach from its initial state by calls of its entry points,
  the table of pending requests and the server descriptors are well-formed, no lock is held, and
  every server entry point returns for every handle and every argument.\<close>

theorem enclave_reachable:
  assumes "platform_ok P" "(enclave_step P)\<^sup>*\<^sup>* (initial_enclave w) e"
  shows "enclave_ok e \<and> sgxsd_enclave_server_start P args handle e \<noteq> None \<and> sgxsd_enclave_server_stop P args handle e \<noteq> None
    \<and> sgxsd_enclave_server_call P req key args p_header msg tag handle e \<noteq> None
    \<and> sgxsd_enclave_ratelimit_fingerprint P req key fkey args p_header msg tag handle fp e \<noteq> None"
proof -
  note ok = reachable_ok [OF assms]
  show ?thesis
  proof (cases "handle < SGXSD_ENCLAVE_MAX_SERVERS")
    case True
    show ?thesis using ok enclave_okD(2) [OF ok True]
      by (simp add: sgxsd_enclave_server_start_def sgxsd_enclave_server_stop_def sgxsd_enclave_server_call_def
          sgxsd_enclave_ratelimit_fingerprint_def Let_def split: prod.split)
  next
    case False
    then show ?thesis using ok
      by (simp add: sgxsd_enclave_server_start_def sgxsd_enclave_server_stop_def sgxsd_enclave_server_call_def
          sgxsd_enclave_ratelimit_fingerprint_def)
  qed
qed

section \<open>Calls of a server\<close>

lemma relock: "desc_lock d = 0 \<Longrightarrow> sgxsd_spin_unlock (d\<lparr>desc_lock := 1\<rparr>) = d"
  by (cases d) (simp add: sgxsd_spin_unlock_def)

lemma decrypt_call:
  assumes "stack_ok m" "length k = 32" "length iv = 12" "length mac = 16" "length msg < 2 ^ 32" "length aad < 2 ^ 32"
  shows "sgxsd_aes_gcm_decrypt m (Some k) (Some msg) (word_of_nat (length msg)) (Some msg) (Some iv) (Some aad) (word_of_nat (length aad)) (Some mac) =
    (if mac = gcm_mac k iv aad msg then (SGX_SUCCESS, Some (gcm_cipher k iv msg), Some mac)
     else (SGX_ERROR_MAC_MISMATCH, Some (replicate (length msg) 0), Some mac))"
proof -
  have "unat (word_of_nat (length x) :: u32) = length x" if "length x < 2 ^ 32" for x :: bytes
    using that by (simp add: unsigned_of_nat take_bit_eq_mod)
  then show ?thesis
    using aes_gcm_run_session [of m k iv mac msg msg "word_of_nat (length msg)" "word_of_nat (length aad)" aad False] assms
    by (simp add: sgxsd_aes_gcm_decrypt_def)
qed

definition consume :: "('s, 'w) enclave \<Rightarrow> u64 \<Rightarrow> ('s, 'w) enclave" where
  "consume e i = e\<lparr>pending_requests := (pending_requests e)[pending_slot e i := cleared_request]\<rparr>"

text \<open>(C16) A call of a running server: an identifier that does not authenticate or is not pending is
  refused without any effect; otherwise the request is consumed, a message that does not
  authenticate under the client key is refused and erased, and an authentic one reaches the
  callback decrypted, with the reply key, and is erased afterwards.\<close>

theorem server_call_spec:
  assumes "platform_ok P" "enclave_ok e" "node_initialized e" "handle < SGXSD_ENCLAVE_MAX_SERVERS" "desc_valid (server_states e ! handle)"
    and "rid_ok (msg_pending_request_id hdr)" "length (msg_iv hdr) = 12" "length (msg_mac hdr) = 16" "length key0 = 32"
    and "msg \<noteq> []" "length msg < 2 ^ 32" "length (id_image P (msg_pending_request_id hdr)) < 2 ^ 32"
  defines "d \<equiv> server_states e ! handle"
  shows "sgxsd_enclave_server_call P req0 key0 args (Some hdr) (Some msg) tag handle e = Some
    (case open_id (pending_request_id_key e) (msg_pending_request_id hdr) of
       None \<Rightarrow> (SGX_ERROR_MAC_MISMATCH, Some msg, e)
     | Some i \<Rightarrow>
       let found = pending_requests e ! pending_slot e i; k = hkdf_prk found; iv = msg_iv hdr in
       if id_val found \<noteq> i then (SGXSD_ERROR_PENDING_REQUEST_NOT_FOUND, Some msg, e)
       else if msg_mac hdr \<noteq> gcm_mac (hkdf_t1 k) iv (id_image P (msg_pending_request_id hdr)) msg
       then (SGX_ERROR_MAC_MISMATCH, Some (replicate (length msg) 0), consume e i)
       else case server_handle_call P args (gcm_cipher (hkdf_t1 k) iv msg)
           \<lparr>from_valid = True, from_tag = tag, from_server_key = hkdf_t2 k\<rparr> (desc_p_state d) (world e) of
         (res, p, w) \<Rightarrow> (res, Some (replicate (length msg) 0),
           (consume e i)\<lparr>server_states := (server_states e)[handle := d\<lparr>desc_p_state := p\<rparr>], world := w\<rparr>))"
proof -
  let ?rid = "msg_pending_request_id hdr" and ?d = "d\<lparr>desc_lock := 1\<rparr>"
  have tb: "table_ok e" using assms(2,3) by (simp add: enclave_ok_def)
  note rm = remove_pending_request [OF assms(1) tb assms(6)]
  note dk = derive_request_keys(1) [OF platform_okD(1) [OF assms(1)] assms(9), of "replicate 32 0", simplified]
  note dc = decrypt_call [OF platform_okD(1) [OF assms(1)] length_hkdf(1) assms(7,8,11,12)]
  have lk: "desc_lock d = 0" "sgxsd_spin_lock d = Some ?d" unfolding d_def by (rule enclave_okD [OF assms(2,4)])+
  have same: "e\<lparr>server_states := (server_states e)[handle := d]\<rparr> = e" unfolding d_def by simp
  have same': "e\<lparr>pending_requests := q, server_states := (server_states e)[handle := d]\<rparr> = e\<lparr>pending_requests := q\<rparr>" for q
    unfolding d_def list_update_id by (cases e) simp
  have upd: "sgxsd_spin_unlock (?d\<lparr>desc_p_state := p\<rparr>) = d\<lparr>desc_p_state := p\<rparr>" for p
    using lk(1) by (cases d) (simp add: sgxsd_spin_unlock_def)
  have cl: "sgxsd_enclave_server_call_locked P req0 key0 args (Some hdr) (Some msg) tag ?d e =
    (case open_id (pending_request_id_key e) ?rid of None \<Rightarrow> (SGX_ERROR_MAC_MISMATCH, Some msg, ?d, e)
     | Some i \<Rightarrow>
       let found = pending_requests e ! pending_slot e i; k = hkdf_prk found; iv = msg_iv hdr in
       if id_val found \<noteq> i then (SGXSD_ERROR_PENDING_REQUEST_NOT_FOUND, Some msg, ?d, e)
       else if msg_mac hdr \<noteq> gcm_mac (hkdf_t1 k) iv (id_image P ?rid) msg
       then (SGX_ERROR_MAC_MISMATCH, Some (replicate (length msg) 0), ?d, consume e i)
       else case server_handle_call P args (gcm_cipher (hkdf_t1 k) iv msg)
           \<lparr>from_valid = True, from_tag = tag, from_server_key = hkdf_t2 k\<rparr> (desc_p_state d) (world e) of
         (res, p, w) \<Rightarrow> (res, Some (replicate (length msg) 0), ?d\<lparr>desc_p_state := p\<rparr>, (consume e i)\<lparr>world := w\<rparr>))"
    using assms(5) assms(10) unfolding d_def [symmetric]
    by (simp add: sgxsd_enclave_server_call_locked_def rm dk dc Let_def consume_def split: option.split)
  show ?thesis
    using assms(3,4) unfolding sgxsd_enclave_server_call_def d_def [symmetric] lk(2) option.case cl
    by (auto simp: Let_def relock [OF lk(1)] same same' upd consume_def split: option.split prod.split)
qed

section \<open>Negotiation and replies\<close>

lemma encrypt_plain:
  assumes "stack_ok m" "length k = 32" "length iv = 12" "length mac = 16" "length dst = length src" "length src < 2 ^ 32"
  shows "sgxsd_aes_gcm_encrypt m (Some k) (Some src) (word_of_nat (length src)) (Some dst) (Some iv) None 0 (Some mac) =
    (SGX_SUCCESS, Some (gcm_cipher k iv src), Some (gcm_mac k iv [] (gcm_cipher k iv src)))"
proof -
  have "unat (word_of_nat (length src) :: u32) = length src" using assms(6) by (simp add: unsigned_of_nat take_bit_eq_mod)
  then show ?thesis
    using aes_gcm_run_session [of m k iv mac dst src "word_of_nat (length src)" 0 "[]" True] assms
    by (simp add: sgxsd_aes_gcm_encrypt_def aes_gcm_run_no_aad)
qed

lemma keypair_public:
  assumes "sgxsd_enclave_generate_curve25519_keypair P kp e = (SGX_SUCCESS, kp', e')"
  shows "pubkey kp' = curve25519_donna (privkey kp') BASEPOINT"
  using assms by (auto simp: sgxsd_enclave_generate_curve25519_keypair_def Let_def split: prod.splits if_splits)

lemma issued:
  assumes "platform_ok P" "table_ok e" "rid_ok rid0" "sgxsd_enclave_add_pending_request P rid0 req e = (SGX_SUCCESS, rid, e')"
  shows "rid_ok rid" "sgxsd_enclave_get_pending_request P rid out e' = (SGX_SUCCESS, \<lparr>id_val = last_pending_request_id_val e + 1, hkdf_prk = hkdf_prk req\<rparr>)"
proof -
  let ?i = "last_pending_request_id_val e + 1"
  obtain iv where iv: "length iv = 12" "rid = issue_id (pending_request_id_key e) iv ?i"
    using assms(4) platform_okD(3) [OF assms(1), of 12 "world e"] unfolding add_pending_request [OF assms(1-3)]
    by (auto simp: Let_def split: prod.splits if_splits)
  show ok: "rid_ok rid" using issue_id_ok [OF iv(1)] iv(2) by simp
  note fr = add_frame [OF assms(1-4)]
  have "pending_requests e' ! pending_slot e' ?i = \<lparr>id_val = ?i, hkdf_prk = hkdf_prk req\<rparr>"
    using fr(5) slot_less [OF assms(2), of ?i] slot_order [OF fr(3)] by simp
  moreover have "open_id (pending_request_id_key e') rid = Some ?i" unfolding iv(2) fr(2) by (rule open_issue)
  ultimately show "sgxsd_enclave_get_pending_request P rid out e' = (SGX_SUCCESS, \<lparr>id_val = ?i, hkdf_prk = hkdf_prk req\<rparr>)"
    unfolding get_pending_request [OF assms(1) fr(1) ok] by simp
qed

text \<open>(C17) A successful negotiation stores, under a fresh identifier, the key that RFC 5869 extracts from the
  two Diffie-Hellman secrets with the hash of the three public keys as salt, and sends the
  identifier encrypted under the second expanded key with the zero IV; whoever holds the secrets
  recovers it.\<close>

theorem negotiate_request_spec:
  assumes "platform_ok P" "enclave_ok e" "rid_ok rid0" "length key0 = 32" "length (encrypted_id_mac response) = 16"
    and "\<And>rid. length (id_image P rid) = length (encrypted_id_data response)" "length (encrypted_id_data response) < 2 ^ 32"
    and "sgxsd_enclave_negotiate_request P kp0 req0 rid0 key0 (Some client) (Some response) e = (SGX_SUCCESS, resp', e')"
  shows "\<exists>x rid r. resp' = Some r \<and> server_ephemeral_pubkey r = curve25519_donna x BASEPOINT \<and> server_static_pubkey r = pubkey (dh_keypair e) \<and>
    (let prk = hmac_sha256_spec (sha256_spec (client @ server_ephemeral_pubkey r @ server_static_pubkey r))
           (curve25519_donna x client @ curve25519_donna (privkey (dh_keypair e)) client);
         zero_iv = replicate 12 0
     in encrypted_id_iv r = zero_iv \<and> gcm_cipher (hkdf_t2 prk) zero_iv (encrypted_id_data r) = id_image P rid
       \<and> encrypted_id_mac r = gcm_mac (hkdf_t2 prk) zero_iv [] (encrypted_id_data r) \<and> rid_ok rid
       \<and> sgxsd_enclave_get_pending_request P rid out e' = (SGX_SUCCESS, \<lparr>id_val = last_pending_request_id_val e + 1, hkdf_prk = prk\<rparr>))"
proof -
  have ni: "node_initialized e" using assms(8) unfolding sgxsd_enclave_negotiate_request_def by (auto split: if_splits)
  obtain g eph e1 where g: "sgxsd_enclave_generate_curve25519_keypair P kp0 e = (g, eph, e1)" by (cases "sgxsd_enclave_generate_curve25519_keypair P kp0 e")
  obtain s w where e1: "e1 = e\<lparr>read_rand_state := s, world := w\<rparr>" using g by (rule keypair_frame)
  have gs: "g = SGX_SUCCESS" using assms(8) ni unfolding sgxsd_enclave_negotiate_request_def g by (auto split: if_splits)
  have tb: "table_ok e1" using assms(2) ni unfolding e1 by (simp only: table_ok_frame enclave_ok_def)
  note st = platform_okD(1) [OF assms(1)]
  define prk where "prk = hmac_sha256_spec (sha256_spec (client @ pubkey eph @ pubkey (dh_keypair e)))
    (curve25519_donna (privkey eph) client @ curve25519_donna (privkey (dh_keypair e)) client)"
  have prk: "sgxsd_enclave_hmac_sha256 (stk P) [sgxsd_enclave_sha256 (stk P) [client, pubkey eph, pubkey (dh_keypair e)],
      curve25519_donna (privkey eph) client, curve25519_donna (privkey (dh_keypair e)) client] = prk"
    by (simp add: enclave_hmac_eq [OF st] enclave_sha256 [OF st] prk_def)
  obtain r rid e2 where a: "sgxsd_enclave_add_pending_request P rid0 (req0\<lparr>hkdf_prk := prk\<rparr>) e1 = (r, rid, e2)"
    by (cases "sgxsd_enclave_add_pending_request P rid0 (req0\<lparr>hkdf_prk := prk\<rparr>) e1")
  note dk = derive_request_keys(2) [OF st assms(4,4)]
  have dh: "dh_keypair e1 = dh_keypair e" "last_pending_request_id_val e1 = last_pending_request_id_val e" by (simp_all add: e1)
  have "length (id_image P rid) < 2 ^ 32" "length (replicate 12 (0 :: u8)) = 12" using assms(6,7) by simp_all
  note en = encrypt_plain [OF st length_hkdf(2) this(2) assms(5) assms(6) [symmetric] this(1)]
  have res: "r = SGX_SUCCESS \<and> e' = e2 \<and> resp' = Some (response\<lparr>encrypted_id_iv := replicate 12 0,
      encrypted_id_data := gcm_cipher (hkdf_t2 prk) (replicate 12 0) (id_image P rid),
      encrypted_id_mac := gcm_mac (hkdf_t2 prk) (replicate 12 0) [] (gcm_cipher (hkdf_t2 prk) (replicate 12 0) (id_image P rid)),
      server_static_pubkey := pubkey (dh_keypair e), server_ephemeral_pubkey := pubkey eph\<rparr>)"
    using assms(8) ni unfolding sgxsd_enclave_negotiate_request_def g gs
    by (auto simp: Let_def dh prk dk a sgxsd_sizes en split: if_splits)
  note iss = issued [OF assms(1) tb assms(3) a [unfolded conjunct1 [OF res]]]
  show ?thesis
    using res iss keypair_public [OF g [unfolded gs]] dh(2) unfolding prk_def [symmetric]
    by (intro exI [of _ "privkey eph"] exI [of _ rid]) (simp add: Let_def prk_def)
qed

text \<open>(C33) A reply is sent encrypted under the reply key with an IV whose lowest bit is set, hence
  different from the zero IV of the negotiation under the same key; the message buffer and the
  sender record are erased afterwards.  The identifier field of the header that leaves the
  enclave is whatever the stack held: the code never sets it.\<close>

theorem server_reply_spec:
  assumes "platform_ok P" "from_valid from" "length (from_server_key from) = 32" "length data < 2 ^ 32"
    and "sgx_read_rand P 12 w = (SGX_SUCCESS, iv, w')"
  shows "iv[0 := iv ! 0 OR 1] \<noteq> replicate 12 0 \<and>
    sgxsd_enclave_server_reply P (Some data) (length data) (Some from) w =
      (let iv' = iv[0 := iv ! 0 OR 1]; c = gcm_cipher (from_server_key from) iv' data;
           header = \<lparr>msg_iv = iv', msg_mac = gcm_mac (from_server_key from) iv' [] c,
             msg_pending_request_id = msg_pending_request_id (uninit_header P)\<rparr>;
           (ocall_res, reply_res, w'') = sgxsd_ocall_reply P (Some header) (Some c) (from_tag from) w'
       in (if ocall_res = SGX_SUCCESS then reply_res else ocall_res, Some (replicate (length data) 0), Some erased_from, w''))"
proof
  have iv: "length iv = 12" using platform_okD(3) [OF assms(1,5)] .
  have "bit (iv ! 0 OR 1) 0" by (simp add: bit_simps)
  then have "iv ! 0 OR 1 \<noteq> 0" by auto
  then show "iv[0 := iv ! 0 OR 1] \<noteq> replicate 12 0"
    using iv by (metis length_greater_0_conv list.size(3) nth_list_update_eq nth_replicate zero_neq_numeral zero_less_numeral)
  have "length (iv[0 := iv ! 0 OR 1]) = 12" using iv by simp
  note en = encrypt_plain [OF platform_okD(1) [OF assms(1)] assms(3) this platform_okD(2) [OF assms(1)] refl assms(4)]
  have hd: "(uninit_header P)\<lparr>msg_iv := v, msg_mac := m\<rparr> = \<lparr>msg_iv = v, msg_mac = m, msg_pending_request_id = msg_pending_request_id (uninit_header P)\<rparr>" for v m
    by (cases "uninit_header P") simp
  have ms: "memset (gcm_cipher k v data) 0 0 (length data) = replicate (length data) 0" for k v
    by (simp add: memset_def memcpy_whole)
  show "sgxsd_enclave_server_reply P (Some data) (length data) (Some from) w =
      (let iv' = iv[0 := iv ! 0 OR 1]; c = gcm_cipher (from_server_key from) iv' data;
           header = \<lparr>msg_iv = iv', msg_mac = gcm_mac (from_server_key from) iv' [] c,
             msg_pending_request_id = msg_pending_request_id (uninit_header P)\<rparr>;
           (ocall_res, reply_res, w'') = sgxsd_ocall_reply P (Some header) (Some c) (from_tag from) w'
       in (if ocall_res = SGX_SUCCESS then reply_res else ocall_res, Some (replicate (length data) 0), Some erased_from, w''))"
    using assms(2,5) by (simp add: sgxsd_enclave_server_reply_def sgxsd_enclave_server_reply_noerase_def sgxsd_sizes en hd ms Let_def split: prod.split)
qed

text \<open>What no call changes once the node is initialised, and what no call changes before.\<close>

definition node_config :: "('s, 'w) enclave \<Rightarrow> bytes \<times> u8 \<times> nat" where
  "node_config e = (pending_request_id_key e, pending_requests_table_order e, length (pending_requests e))"

definition untouched :: "('s, 'w) enclave \<Rightarrow> bool" where
  "untouched e \<longleftrightarrow> server_states e = replicate SGXSD_ENCLAVE_MAX_SERVERS erased_desc \<and> pending_requests e = [] \<and> last_pending_request_id_val e = 0"

lemma remove_frame:
  assumes "sgxsd_enclave_remove_pending_request P rid out e = (res, req, e')"
  shows "node_config e' = node_config e \<and> node_initialized e' = node_initialized e \<and> server_states e' = server_states e"
  using assms unfolding sgxsd_enclave_remove_pending_request_def node_config_def
  by (auto simp: Let_def split: prod.splits if_splits)

lemma call_locked_frame:
  assumes "sgxsd_enclave_server_call_locked P req key args p_header msg tag d e = (res, msg', d', e')"
  shows "node_config e' = node_config e \<and> node_initialized e' = node_initialized e \<and> server_states e' = server_states e \<and> desc_lock d' = desc_lock d"
  using assms remove_frame [of P _ req e] unfolding sgxsd_enclave_server_call_locked_def
  by (auto simp: Let_def node_config_def split: prod.splits if_splits option.splits)

lemma fingerprint_locked_frame:
  assumes "sgxsd_enclave_ratelimit_fingerprint_locked P req key fkey args p_header msg tag d fp e = (res, msg', fp', e')"
  shows "node_config e' = node_config e \<and> node_initialized e' = node_initialized e"
  using assms unfolding sgxsd_enclave_ratelimit_fingerprint_locked_def
  by (auto simp: Let_def node_config_def split: prod.splits if_splits option.splits)

lemma negotiate_frame:
  assumes "sgxsd_enclave_negotiate_request P kp req rid key p_request p_response e = (res, resp, e')"
  shows "node_config e' = node_config e \<and> node_initialized e' = node_initialized e"
proof -
  have add: "node_config e2 = node_config e1 \<and> node_initialized e2 = node_initialized e1"
    if "sgxsd_enclave_add_pending_request P r q e1 = (x, y, e2)" for r q e1 x y e2
    using that unfolding sgxsd_enclave_add_pending_request_def by (auto simp: Let_def node_config_def split: prod.splits if_splits)
  have kp: "node_config e1 = node_config e \<and> node_initialized e1 = node_initialized e"
    if "sgxsd_enclave_generate_curve25519_keypair P kp e = (x, y, e1)" for x y e1
    using that by (auto simp: node_config_def elim!: keypair_frame)
  show ?thesis using assms unfolding sgxsd_enclave_negotiate_request_def
    by (auto simp: Let_def split: prod.splits if_splits option.splits dest!: add kp)
qed

lemma initialised_step:
  assumes "enclave_step P e e'" "node_initialized e"
  shows "node_initialized e' \<and> node_config e' = node_config e"
  using assms(1)
proof cases
  case (init args res)
  then show ?thesis using assms(2) by (simp add: sgxsd_enclave_node_init_def sgxsd_enclave_node_init_locked_def)
next
  case (report kp info rep res rep')
  then show ?thesis using assms(2) unfolding sgxsd_enclave_get_next_report_def
    by (auto simp: Let_def node_config_def split: prod.splits if_splits elim!: keypair_frame)
next
  case (quote res)
  then show ?thesis using assms(2) by (auto simp: sgxsd_enclave_set_current_quote_def node_config_def split: if_splits)
next
  case (negotiate rid kp req key p_request p_response res resp)
  then show ?thesis using assms(2) negotiate_frame by blast
next
  case (start sargs handle res)
  then show ?thesis using assms(2)
    by (auto simp: sgxsd_enclave_server_start_def node_config_def Let_def split: if_splits option.splits prod.splits)
next
  case (call p_header req key sargs msg tag handle res msg')
  then show ?thesis using assms(2) call_locked_frame [of P req key sargs p_header msg tag _ e]
    by (auto simp: sgxsd_enclave_server_call_def node_config_def Let_def split: if_splits option.splits prod.splits)
next
  case (stop sargs handle res)
  then show ?thesis using assms(2)
    by (auto simp: sgxsd_enclave_server_stop_def node_config_def Let_def split: if_splits option.splits prod.splits)
next
  case (fingerprint req key fkey sargs p_header msg tag handle fp res msg' fp')
  then show ?thesis using assms(2) fingerprint_locked_frame [of P req key fkey sargs p_header msg tag _ fp e]
    by (auto simp: sgxsd_enclave_ratelimit_fingerprint_def node_config_def Let_def split: if_splits option.splits prod.splits)
qed

lemmas entry_defs = sgxsd_enclave_get_next_report_def sgxsd_enclave_set_current_quote_def sgxsd_enclave_negotiate_request_def
  sgxsd_enclave_server_start_def sgxsd_enclave_server_stop_def sgxsd_enclave_server_call_def sgxsd_enclave_ratelimit_fingerprint_def

lemma untouched_step:
  assumes "enclave_step P e e'" "\<not> node_initialized e" "untouched e" "\<not> node_initialized e'"
  shows "untouched e'"
  using assms(1)
proof cases
  case (init args res)
  then show ?thesis
    using assms(2-4) unfolding sgxsd_enclave_node_init_def sgxsd_enclave_node_init_locked_def
    by (auto simp: Let_def untouched_def split: prod.splits if_splits option.splits elim!: keypair_frame)
qed (use assms(2,3) in \<open>simp_all add: entry_defs\<close>)

lemma initialised_run: "(enclave_step P)\<^sup>*\<^sup>* e e' \<Longrightarrow> node_initialized e \<Longrightarrow> node_initialized e' \<and> node_config e' = node_config e"
  by (induction rule: rtranclp_induct) (auto dest: initialised_step)

lemma untouched_run: "(enclave_step P)\<^sup>*\<^sup>* (initial_enclave w) e \<Longrightarrow> \<not> node_initialized e \<Longrightarrow> untouched e"
proof (induction rule: rtranclp_induct)
  case base
  then show ?case by (simp add: untouched_def initial_enclave_def)
next
  case (step y z)
  then show ?case using initialised_step untouched_step by blast
qed

text \<open>(C34) The node is initialised at most once.  As long as it is not, whatever the caller tries, no server runs, no request is
  pending and no identifier was given out, and every other entry point returns \<open>SGX_ERROR_INVALID_STATE\<close> and changes nothing.  Once it is,
  no sequence of calls undoes it or changes the key of the identifiers, the order or the size of the table, and every
  further initialisation is refused without effect.\<close>

theorem entry_points_guarded:
  assumes "(enclave_step P)\<^sup>*\<^sup>* (initial_enclave w) e" "(enclave_step P)\<^sup>*\<^sup>* e e'"
  shows "(node_initialized e \<longrightarrow> node_initialized e' \<and> pending_request_id_key e' = pending_request_id_key e
      \<and> pending_requests_table_order e' = pending_requests_table_order e \<and> length (pending_requests e') = length (pending_requests e)
      \<and> sgxsd_enclave_node_init P order e' = (SGX_ERROR_INVALID_STATE, e'))
   \<and> (\<not> node_initialized e' \<longrightarrow> server_states e' = replicate SGXSD_ENCLAVE_MAX_SERVERS erased_desc
      \<and> pending_requests e' = [] \<and> last_pending_request_id_val e' = 0
      \<and> sgxsd_enclave_get_next_report P kp info rep e' = (SGX_ERROR_INVALID_STATE, rep, e')
      \<and> sgxsd_enclave_set_current_quote e' = (SGX_ERROR_INVALID_STATE, e')
      \<and> sgxsd_enclave_negotiate_request P kp req rid key p_request p_response e' = (SGX_ERROR_INVALID_STATE, p_response, e')
      \<and> sgxsd_enclave_server_start P args handle e' = Some (SGX_ERROR_INVALID_STATE, e')
      \<and> sgxsd_enclave_server_stop P args handle e' = Some (SGX_ERROR_INVALID_STATE, e')
      \<and> sgxsd_enclave_server_call P req key args p_header msg tag handle e' = Some (SGX_ERROR_INVALID_STATE, msg, e')
      \<and> sgxsd_enclave_ratelimit_fingerprint P req key fkey args p_header msg tag handle fp e' = Some (SGX_ERROR_INVALID_STATE, msg, fp, e'))"
proof (intro conjI impI)
  assume i: "node_initialized e"
  note r = initialised_run [OF assms(2) i]
  show "node_initialized e'" "pending_request_id_key e' = pending_request_id_key e" "pending_requests_table_order e' = pending_requests_table_order e"
    "length (pending_requests e') = length (pending_requests e)" using r by (simp_all add: node_config_def)
  show "sgxsd_enclave_node_init P order e' = (SGX_ERROR_INVALID_STATE, e')"
    using r by (simp add: sgxsd_enclave_node_init_def sgxsd_enclave_node_init_locked_def)
next
  assume u: "\<not> node_initialized e'"
  have "untouched e'" using untouched_run [OF rtranclp_trans [OF assms] u] .
  then show "server_states e' = replicate SGXSD_ENCLAVE_MAX_SERVERS erased_desc" "pending_requests e' = []" "last_pending_request_id_val e' = 0"
    by (simp_all add: untouched_def)
qed (simp_all add: entry_defs)

text \<open>The life of a server: starting it runs the application's initialisation and succeeds only when that
  does; a running server cannot be started again, a server that is not running cannot be
  stopped; stopping hands the state to the application and leaves a descriptor that can be started
  again.\<close>

theorem server_lifecycle:
  assumes "enclave_ok e" "node_initialized e" "handle < SGXSD_ENCLAVE_MAX_SERVERS"
  defines "d \<equiv> server_states e ! handle"
  shows "sgxsd_enclave_server_start P args handle e = Some
      (if desc_valid d then (SGX_ERROR_INVALID_STATE, e)
       else case server_init P args (desc_p_state d) (world e) of (res, p, w) \<Rightarrow>
         (res, e\<lparr>server_states := (server_states e)[handle := d\<lparr>desc_valid := res = SGX_SUCCESS, desc_p_state := p\<rparr>], world := w\<rparr>))
    \<and> sgxsd_enclave_server_stop P args handle e = Some
      (if \<not> desc_valid d then (SGX_ERROR_INVALID_STATE, e)
       else case server_terminate P args (desc_p_state d) (world e) of (res, w) \<Rightarrow>
         (res, e\<lparr>server_states := (server_states e)[handle := erased_desc], world := w\<rparr>))"
proof
  have lk: "desc_lock d = 0" "sgxsd_spin_lock d = Some (d\<lparr>desc_lock := 1\<rparr>)" unfolding d_def by (rule enclave_okD [OF assms(1,3)])+
  have same: "e\<lparr>server_states := (server_states e)[handle := d], world := world e\<rparr> = e" unfolding d_def list_update_id by (cases e) simp
  have upd: "sgxsd_spin_unlock (d\<lparr>desc_lock := 1, desc_valid := v, desc_p_state := p\<rparr>) = d\<lparr>desc_valid := v, desc_p_state := p\<rparr>"
    "sgxsd_spin_unlock erased_desc = erased_desc" for v p
    using lk(1) by (cases d; simp add: sgxsd_spin_unlock_def erased_desc_def)+
  have start: "\<not> desc_valid d \<Longrightarrow> sgxsd_enclave_server_start_locked P args (d\<lparr>desc_lock := 1\<rparr>) w =
     (case server_init P args (desc_p_state d) w of (res, p, w) \<Rightarrow> (res, d\<lparr>desc_lock := 1, desc_valid := res = SGX_SUCCESS, desc_p_state := p\<rparr>, w))" for w
    by (cases d) (simp add: sgxsd_enclave_server_start_locked_def Let_def split: prod.split)
  show "sgxsd_enclave_server_start P args handle e = Some
      (if desc_valid d then (SGX_ERROR_INVALID_STATE, e)
       else case server_init P args (desc_p_state d) (world e) of (res, p, w) \<Rightarrow>
         (res, e\<lparr>server_states := (server_states e)[handle := d\<lparr>desc_valid := res = SGX_SUCCESS, desc_p_state := p\<rparr>], world := w\<rparr>))"
  proof (cases "desc_valid d")
    case True
    then show ?thesis using assms(2,3) unfolding sgxsd_enclave_server_start_def d_def [symmetric] lk(2)
      by (simp add: sgxsd_enclave_server_start_locked_def relock [OF lk(1)] same)
  next
    case False
    then show ?thesis using assms(2,3) start [OF False] unfolding sgxsd_enclave_server_start_def d_def [symmetric] lk(2)
      by (simp add: upd Let_def split: prod.split)
  qed
  show "sgxsd_enclave_server_stop P args handle e = Some
      (if \<not> desc_valid d then (SGX_ERROR_INVALID_STATE, e)
       else case server_terminate P args (desc_p_state d) (world e) of (res, w) \<Rightarrow>
         (res, e\<lparr>server_states := (server_states e)[handle := erased_desc], world := w\<rparr>))"
    using assms(2,3) unfolding sgxsd_enclave_server_stop_def d_def [symmetric] lk(2)
    by (cases "desc_valid d") (simp_all add: sgxsd_enclave_server_stop_locked_def relock [OF lk(1)] same upd Let_def split: prod.split)
qed

section \<open>Threads that share a descriptor\<close>

datatype 'a server_op = Start 'a | Call sgxsd_pending_request bytes 'a "sgxsd_msg_header option" "bytes option" u64 | is_Stop: Stop 'a

datatype ('s, 'a) thread_pc = Outside | Entered "'a server_op" | Starting 'a | Stopping 'a "'s option" | Leaving

abbreviation desc :: "nat \<Rightarrow> ('s, 'w) enclave \<Rightarrow> 's sgxsd_server_state_desc" where
  "desc h e \<equiv> server_states e ! h"

abbreviation set_desc :: "nat \<Rightarrow> 's sgxsd_server_state_desc \<Rightarrow> ('s, 'w) enclave \<Rightarrow> ('s, 'w) enclave" where
  "set_desc h d e \<equiv> e\<lparr>server_states := (server_states e)[h := d]\<rparr>"

text \<open>The statements of \<open>sgxsd_enclave_server_start\<close>, \<open>_call\<close> and \<open>_stop\<close> with their \<open>_locked\<close> bodies, as threads
  interleave them on the descriptor \<open>h\<close>: taking the lock, the test of \<open>valid\<close>, the callback, the release.  The
  locked body of a call is one step.  \<open>stops\<close> tells whether threads stop servers.\<close>

inductive thread_step :: "('s, 'a, 'r, 'w) platform \<Rightarrow> nat \<Rightarrow> bool
    \<Rightarrow> ('s, 'w) enclave \<times> (nat \<Rightarrow> ('s, 'a) thread_pc) \<Rightarrow> ('s, 'w) enclave \<times> (nat \<Rightarrow> ('s, 'a) thread_pc) \<Rightarrow> bool" for P h stops where
  enter: "pc t = Outside \<Longrightarrow> node_initialized e \<Longrightarrow> h < SGXSD_ENCLAVE_MAX_SERVERS \<Longrightarrow> stops \<or> \<not> is_Stop oper \<Longrightarrow>
    sgxsd_spin_lock (desc h e) = Some d \<Longrightarrow> thread_step P h stops (e, pc) (set_desc h d e, pc(t := Entered oper))"
| start_refused: "pc t = Entered (Start args) \<Longrightarrow> desc_valid (desc h e) \<Longrightarrow> thread_step P h stops (e, pc) (e, pc(t := Leaving))"
| start: "pc t = Entered (Start args) \<Longrightarrow> \<not> desc_valid (desc h e) \<Longrightarrow> thread_step P h stops (e, pc) (e, pc(t := Starting args))"
| started: "pc t = Starting args \<Longrightarrow> server_init P args (desc_p_state (desc h e)) (world e) = (res, p, w) \<Longrightarrow>
    d = (desc h e)\<lparr>desc_p_state := p\<rparr> \<Longrightarrow>
    thread_step P h stops (e, pc) (set_desc h (if res = SGX_SUCCESS then d\<lparr>desc_valid := True\<rparr> else d) e\<lparr>world := w\<rparr>, pc(t := Leaving))"
| call: "pc t = Entered (Call req key args p_header msg tag) \<Longrightarrow>
    sgxsd_enclave_server_call_locked P req key args p_header msg tag (desc h e) e = (res, msg', d, e') \<Longrightarrow>
    thread_step P h stops (e, pc) (set_desc h d e', pc(t := Leaving))"
| stop_refused: "pc t = Entered (Stop args) \<Longrightarrow> \<not> desc_valid (desc h e) \<Longrightarrow> thread_step P h stops (e, pc) (e, pc(t := Leaving))"
| stop: "pc t = Entered (Stop args) \<Longrightarrow> desc_valid (desc h e) \<Longrightarrow>
    thread_step P h stops (e, pc) (set_desc h erased_desc e, pc(t := Stopping args (desc_p_state (desc h e))))"
| stopped: "pc t = Stopping args p_state \<Longrightarrow> server_terminate P args p_state (world e) = (res, w) \<Longrightarrow>
    thread_step P h stops (e, pc) (e\<lparr>world := w\<rparr>, pc(t := Leaving))"
| leave: "pc t = Leaving \<Longrightarrow> thread_step P h stops (e, pc) (set_desc h (sgxsd_spin_unlock (desc h e)) e, pc(t := Outside))"

text \<open>A thread that runs alone computes the functions of the model.\<close>

lemma call_locked_states:
  "sgxsd_enclave_server_call_locked P req key args p_header msg tag d (e\<lparr>server_states := ss\<rparr>)
    = (case sgxsd_enclave_server_call_locked P req key args p_header msg tag d e of (res, msg', d', e') \<Rightarrow> (res, msg', d', e'\<lparr>server_states := ss\<rparr>))"
proof -
  have "sgxsd_enclave_remove_pending_request P rid req (e\<lparr>server_states := ss\<rparr>)
      = (case sgxsd_enclave_remove_pending_request P rid req e of (res, q, e') \<Rightarrow> (res, q, e'\<lparr>server_states := ss\<rparr>))" for rid
    by (simp add: sgxsd_enclave_remove_pending_request_def pending_slot_def Let_def split: prod.split)
  then show ?thesis
    by (auto simp: sgxsd_enclave_server_call_locked_def remove_frame Let_def split: prod.splits option.splits)
qed

lemma thread_out:
  assumes "(thread_step P h s)\<^sup>*\<^sup>* (e, pc) (set_desc h d e2, pc(t := Leaving))" "pc t = Outside" "h < length (server_states e2)"
  shows "(thread_step P h s)\<^sup>*\<^sup>* (e, pc) (set_desc h (sgxsd_spin_unlock d) e2, pc)"
proof -
  have "pc(t := Outside) = pc" using assms(2) by auto
  then have "thread_step P h s (set_desc h d e2, pc(t := Leaving)) (set_desc h (sgxsd_spin_unlock d) e2, pc)"
    using leave [of "pc(t := Leaving)" t P h s "set_desc h d e2"] assms(3) by simp
  then show ?thesis by (rule rtranclp.rtrancl_into_rtrancl [OF assms(1)])
qed

lemma world_states: "e\<lparr>world := w, server_states := ss\<rparr> = e\<lparr>server_states := ss, world := w\<rparr>" for e :: "('s, 'w) enclave"
  by (cases e) simp

lemma thread_steps:
  "thread_step P h s a b \<Longrightarrow> thread_step P h s b c \<Longrightarrow> (thread_step P h s)\<^sup>*\<^sup>* a c"
  "thread_step P h s a b \<Longrightarrow> thread_step P h s b c \<Longrightarrow> thread_step P h s c d \<Longrightarrow> (thread_step P h s)\<^sup>*\<^sup>* a d"
  by (meson rtranclp.rtrancl_into_rtrancl r_into_rtranclp)+

lemma alone_start:
  assumes "length (server_states e) = SGXSD_ENCLAVE_MAX_SERVERS" "pc t = Outside" "sgxsd_enclave_server_start P args h e = Some (res, e')"
  shows "(thread_step P h stops)\<^sup>*\<^sup>* (e, pc) (e', pc)"
proof (cases "node_initialized e \<and> h < SGXSD_ENCLAVE_MAX_SERVERS")
  case True
  then have h: "node_initialized e" "h < SGXSD_ENCLAVE_MAX_SERVERS" by simp_all
  then obtain d where d: "sgxsd_spin_lock (desc h e) = Some d" using assms(3) by (auto simp: sgxsd_enclave_server_start_def split: option.splits if_splits)
  have st: "thread_step P h stops (e, pc) (set_desc h d e, pc(t := Entered (Start args)))" by (rule enter) (use assms(2) h d in simp_all)
  obtain r d' w where l: "sgxsd_enclave_server_start_locked P args d (world e) = (r, d', w)" by (cases "sgxsd_enclave_server_start_locked P args d (world e)") auto
  have e': "e' = set_desc h (sgxsd_spin_unlock d') (e\<lparr>world := w\<rparr>)" using assms(3) h d l by (auto simp: sgxsd_enclave_server_start_def)
  have "(thread_step P h stops)\<^sup>*\<^sup>* (e, pc) (set_desc h d' (e\<lparr>world := w\<rparr>), pc(t := Leaving))"
  proof (cases "desc_valid d")
    case True
    then have d': "d' = d" "w = world e" using l by (simp_all add: sgxsd_enclave_server_start_locked_def)
    have "thread_step P h stops (set_desc h d e, pc(t := Entered (Start args))) (set_desc h d e, pc(t := Leaving))"
      using start_refused [where pc = "pc(t := Entered (Start args))" and t = t and args = args and e = "set_desc h d e" and h = h and P = P and stops = stops] True assms(1) h(2) by simp
    with st show ?thesis unfolding d' by (simp add: thread_steps)
  next
    case False
    obtain r0 p w0 where i: "server_init P args (desc_p_state d) (world e) = (r0, p, w0)" by (cases "server_init P args (desc_p_state d) (world e)") auto
    then have d': "d' = (if r0 = SGX_SUCCESS then d\<lparr>desc_p_state := p, desc_valid := True\<rparr> else d\<lparr>desc_p_state := p\<rparr>)" "w = w0"
      using l False by (auto simp: sgxsd_enclave_server_start_locked_def Let_def split: if_splits)
    have "thread_step P h stops (set_desc h d e, pc(t := Entered (Start args))) (set_desc h d e, pc(t := Starting args))"
      using start [where pc = "pc(t := Entered (Start args))" and t = t and args = args and e = "set_desc h d e" and h = h and P = P and stops = stops] False assms(1) h(2) by simp
    moreover have "thread_step P h stops (set_desc h d e, pc(t := Starting args)) (set_desc h d' (e\<lparr>world := w\<rparr>), pc(t := Leaving))"
      using started [where pc = "pc(t := Starting args)" and t = t and args = args and P = P and h = h and e = "set_desc h d e" and res = r0 and p = p and w = w0 and stops = stops] i assms(1) h(2) unfolding d' by (cases "r0 = SGX_SUCCESS") (simp_all add: world_states)
    ultimately show ?thesis by (rule thread_steps(2) [OF st])
  qed
  from thread_out [OF this assms(2)] show ?thesis using assms(1) h(2) by (simp add: e')
qed (use assms(3) in \<open>auto simp: sgxsd_enclave_server_start_def split: if_splits\<close>)

lemma alone_call:
  assumes "length (server_states e) = SGXSD_ENCLAVE_MAX_SERVERS" "pc t = Outside"
    "sgxsd_enclave_server_call P req key args p_header msg tag h e = Some (res, msg', e')"
  shows "(thread_step P h stops)\<^sup>*\<^sup>* (e, pc) (e', pc)"
proof (cases "node_initialized e \<and> h < SGXSD_ENCLAVE_MAX_SERVERS")
  case True
  then have h: "node_initialized e" "h < SGXSD_ENCLAVE_MAX_SERVERS" by simp_all
  then obtain d where d: "sgxsd_spin_lock (desc h e) = Some d" using assms(3) by (auto simp: sgxsd_enclave_server_call_def split: option.splits if_splits)
  let ?op = "Call req key args p_header msg tag"
  obtain d' e2 where l: "sgxsd_enclave_server_call_locked P req key args p_header msg tag d e = (res, msg', d', e2)"
    and e': "e' = set_desc h (sgxsd_spin_unlock d') e2"
    using assms(3) h d by (auto simp: sgxsd_enclave_server_call_def Let_def split: prod.splits)
  have same: "server_states e2 = server_states e" using call_locked_frame [OF l] by simp
  have st: "thread_step P h stops (e, pc) (set_desc h d e, pc(t := Entered ?op))" by (rule enter) (use assms(2) h d in simp_all)
  have "thread_step P h stops (set_desc h d e, pc(t := Entered ?op)) (set_desc h d' e2, pc(t := Leaving))"
    using call [where pc = "pc(t := Entered ?op)" and t = t and P = P and h = h and e = "set_desc h d e" and stops = stops and req = req and key = key
        and args = args and p_header = p_header and msg = msg and tag = tag and d = d' and e' = "e2\<lparr>server_states := (server_states e)[h := d]\<rparr>"]
      call_locked_states [of P req key args p_header msg tag d _ e] l assms(1) h(2) by (simp add: same)
  from thread_out [OF thread_steps(1) [OF st this] assms(2)] show ?thesis using assms(1) h(2) by (simp add: e' same)
qed (use assms(3) in \<open>auto simp: sgxsd_enclave_server_call_def split: if_splits\<close>)

lemma alone_stop:
  assumes "length (server_states e) = SGXSD_ENCLAVE_MAX_SERVERS" "pc t = Outside" "sgxsd_enclave_server_stop P args h e = Some (res, e')"
  shows "(thread_step P h True)\<^sup>*\<^sup>* (e, pc) (e', pc)"
proof (cases "node_initialized e \<and> h < SGXSD_ENCLAVE_MAX_SERVERS")
  case True
  then have h: "node_initialized e" "h < SGXSD_ENCLAVE_MAX_SERVERS" by simp_all
  then obtain d where d: "sgxsd_spin_lock (desc h e) = Some d" using assms(3) by (auto simp: sgxsd_enclave_server_stop_def split: option.splits if_splits)
  have st: "thread_step P h True (e, pc) (set_desc h d e, pc(t := Entered (Stop args)))" by (rule enter) (use assms(2) h d in simp_all)
  obtain r d' w where l: "sgxsd_enclave_server_stop_locked P args d (world e) = (r, d', w)" by (cases "sgxsd_enclave_server_stop_locked P args d (world e)") auto
  have e': "e' = set_desc h (sgxsd_spin_unlock d') (e\<lparr>world := w\<rparr>)" using assms(3) h d l by (auto simp: sgxsd_enclave_server_stop_def)
  have "(thread_step P h True)\<^sup>*\<^sup>* (e, pc) (set_desc h d' (e\<lparr>world := w\<rparr>), pc(t := Leaving))"
  proof (cases "desc_valid d")
    case False
    then have d': "d' = d" "w = world e" using l by (simp_all add: sgxsd_enclave_server_stop_locked_def)
    have "thread_step P h True (set_desc h d e, pc(t := Entered (Stop args))) (set_desc h d e, pc(t := Leaving))"
      using stop_refused [where pc = "pc(t := Entered (Stop args))" and t = t and args = args and e = "set_desc h d e" and h = h and P = P and stops = True] False assms(1) h(2) by simp
    with st show ?thesis unfolding d' by (simp add: thread_steps)
  next
    case True
    obtain r0 w0 where i: "server_terminate P args (desc_p_state d) (world e) = (r0, w0)" by (cases "server_terminate P args (desc_p_state d) (world e)") auto
    then have d': "d' = erased_desc" "w = w0" using l True by (simp_all add: sgxsd_enclave_server_stop_locked_def)
    have "thread_step P h True (set_desc h d e, pc(t := Entered (Stop args))) (set_desc h erased_desc e, pc(t := Stopping args (desc_p_state d)))"
      using stop [where pc = "pc(t := Entered (Stop args))" and t = t and args = args and e = "set_desc h d e" and h = h and P = P and stops = True] True assms(1) h(2) by simp
    moreover have "thread_step P h True (set_desc h erased_desc e, pc(t := Stopping args (desc_p_state d))) (set_desc h d' (e\<lparr>world := w\<rparr>), pc(t := Leaving))"
      using stopped [where pc = "pc(t := Stopping args (desc_p_state d))" and t = t and P = P and h = h and e = "set_desc h erased_desc e" and res = r0 and w = w0 and stops = True] i unfolding d' by (simp add: world_states)
    ultimately show ?thesis by (rule thread_steps(2) [OF st])
  qed
  from thread_out [OF this assms(2)] show ?thesis using assms(1) h(2) by (simp add: e')
qed (use assms(3) in \<open>auto simp: sgxsd_enclave_server_stop_def split: if_splits\<close>)

text \<open>Exclusion, which holds without stops.\<close>

definition exclusive :: "nat \<Rightarrow> ('s, 'w) enclave \<times> (nat \<Rightarrow> ('s, 'a) thread_pc) \<Rightarrow> bool" where
  "exclusive h = (\<lambda>(e, pc). \<forall>t. pc t \<noteq> Outside \<longrightarrow> desc_lock (desc h e) \<noteq> 0 \<and> (\<forall>u. pc u \<noteq> Outside \<longrightarrow> u = t))"

definition stop_free :: "nat \<Rightarrow> ('s, 'w) enclave \<times> (nat \<Rightarrow> ('s, 'a) thread_pc) \<Rightarrow> bool" where
  "stop_free h = (\<lambda>(e, pc). h < length (server_states e) \<and> (\<forall>t args p. pc t \<noteq> Entered (Stop args) \<and> pc t \<noteq> Stopping args p))"

lemma exclusive_move:
  assumes "exclusive h (e, pc)" "pc t \<noteq> Outside" "x \<noteq> Outside \<Longrightarrow> desc_lock (desc h e') = desc_lock (desc h e)"
  shows "exclusive h (e', pc(t := x))"
proof -
  have "desc_lock (desc h e) \<noteq> 0" "\<And>u. u \<noteq> t \<Longrightarrow> pc u = Outside" using assms(1,2) unfolding exclusive_def by blast+
  then show ?thesis using assms(3) by (auto simp: exclusive_def)
qed

lemma exclusive_step:
  assumes "thread_step P h False s s'" "exclusive h s" "stop_free h s"
  shows "exclusive h s' \<and> stop_free h s'"
  using assms(1)
proof cases
  case (enter pc t e oper d)
  then have "desc_lock (desc h e) = 0" "desc_lock d \<noteq> 0" by (auto simp: sgxsd_spin_lock_def split: if_splits)
  moreover then have "pc u = Outside" for u using assms(2) enter(1) unfolding exclusive_def by blast
  ultimately show ?thesis using enter assms(3) by (auto simp: exclusive_def stop_free_def)
next
  case (started pc t args e res p w d)
  then show ?thesis using exclusive_move [of h e pc t Leaving "set_desc h (if res = SGX_SUCCESS then d\<lparr>desc_valid := True\<rparr> else d) e\<lparr>world := w\<rparr>"] assms(2,3)
    by (auto simp: stop_free_def)
next
  case (call pc t req key args p_header msg tag e res msg' d e')
  then show ?thesis using exclusive_move [of h e pc t Leaving "set_desc h d e'"] call_locked_frame [OF call(4)] assms(2,3)
    by (auto simp: stop_free_def)
next
  case (leave pc t e)
  then show ?thesis using exclusive_move [of h e pc t Outside] assms(2,3) by (auto simp: stop_free_def)
next
  case (start_refused pc t args e)
  then show ?thesis using exclusive_move [of h e pc t Leaving e] assms(2,3) by (auto simp: stop_free_def)
next
  case (start pc t args e)
  then show ?thesis using exclusive_move [of h e pc t "Starting args" e] assms(2,3) by (auto simp: stop_free_def)
qed (use assms(3) in \<open>auto simp: stop_free_def\<close>)

lemma exclusive_run:
  assumes "(thread_step P h False)\<^sup>*\<^sup>* (e, \<lambda>t. Outside) s" "h < length (server_states e)"
  shows "exclusive h s \<and> stop_free h s"
  using assms(1)
proof (induction rule: rtranclp_induct)
  case base
  then show ?case using assms(2) by (simp add: exclusive_def stop_free_def)
qed (use exclusive_step in blast)

text \<open>With stops: a thread that stops a running server erases the lock; a second thread enters and starts the
  server again; the first one leaves and releases the lock of the second; a third thread enters.\<close>

lemma stop_race:
  fixes P :: "('s, 'a, 'r, 'w) platform" and e :: "('s, 'w) enclave"
  assumes e: "node_initialized e" "h < SGXSD_ENCLAVE_MAX_SERVERS" "length (server_states e) = SGXSD_ENCLAVE_MAX_SERVERS"
    and d: "desc_lock (desc h e) = 0" "desc_valid (desc h e)"
  shows "\<exists>e' pc. (thread_step P h True)\<^sup>*\<^sup>* (e, \<lambda>t. Outside) (e', pc) \<and> pc 2 = Starting args \<and> pc 3 = Starting args"
proof -
  define S where "S = (\<lambda>d w. e\<lparr>server_states := (server_states e)[h := d], world := w\<rparr>)"
  let ?R = "thread_step P h True"
  have S: "desc h (S d w) = d" "set_desc h d' (S d w) = S d' w" "(S d w)\<lparr>world := w'\<rparr> = S d w'" "world (S d w) = w" "node_initialized (S d w)" for d d' w w'
    using e by (simp_all add: S_def world_states)
  have e0: "e = S (desc h e) (world e)" by (cases e) (simp add: S_def)
  have en: "?R (S d w, pc) (S (d\<lparr>desc_lock := 1\<rparr>) w, pc(t := Entered oper))" if "pc t = Outside" "desc_lock d = 0" for d w pc t oper
    using enter [where P = P and e = "S d w" and h = h and stops = True and pc = pc and t = t and oper = oper and d = "d\<lparr>desc_lock := 1\<rparr>"] that e(2)
    by (simp add: S sgxsd_spin_lock_def)
  have er: "?R (S d w, pc) (S erased_desc w, pc(t := Stopping args (desc_p_state d)))" if "pc t = Entered (Stop args)" "desc_valid d" for d w pc t args
    using stop [where P = P and e = "S d w" and h = h and stops = True and pc = pc and t = t] that by (simp add: S)
  have st: "?R (S d w, pc) (S d w, pc(t := Starting args))" if "pc t = Entered (Start args)" "\<not> desc_valid d" for d w pc t args
    using start [where P = P and e = "S d w" and h = h and stops = True and pc = pc and t = t] that by (simp add: S)
  have sp: "\<exists>w'. ?R (S d w, pc) (S d w', pc(t := Leaving))" if "pc t = Stopping args p" for d w pc t args p
    using stopped [where P = P and e = "S d w" and h = h and stops = True and pc = pc and t = t and args = args and p_state = p] that
    by (cases "server_terminate P args p w") (auto simp: S)
  have lv: "?R (S d w, pc) (S (d\<lparr>desc_lock := 0\<rparr>) w, pc(t := Outside))" if "pc t = Leaving" for d w pc t
    using leave [where P = P and e = "S d w" and h = h and stops = True and pc = pc and t = t] that by (simp add: S sgxsd_spin_unlock_def)
  define D where "D = (erased_desc :: 's sgxsd_server_state_desc)\<lparr>desc_lock := 1\<rparr>"
  define p1 where "p1 = (\<lambda>t :: nat. Outside :: ('s, 'a) thread_pc)(1 := Stopping args (desc_p_state (desc h e)))"
  have ers: "desc_lock erased_desc = 0" "\<not> desc_valid D" "desc_lock (D\<lparr>desc_lock := 0\<rparr>) = 0" "\<not> desc_valid (D\<lparr>desc_lock := 0\<rparr>\<lparr>desc_lock := 1\<rparr>)"
    by (simp_all add: D_def erased_desc_def)
  have "?R\<^sup>*\<^sup>* (S (desc h e) (world e), \<lambda>t. Outside) (S erased_desc (world e), p1)"
    using thread_steps(1) [OF en [of "\<lambda>t. Outside" 1 "desc h e" "world e" "Stop args"] er [of _ 1 args]] d by (simp add: p1_def)
  moreover have "?R\<^sup>*\<^sup>* (S erased_desc w, p1) (S D w, p1(2 := Starting args))" for w
    using thread_steps(1) [OF en [of p1 2 erased_desc w "Start args"] st [of _ 2 args]] ers by (simp add: p1_def D_def)
  moreover obtain w where "?R\<^sup>*\<^sup>* (S D (world e), p1(2 := Starting args)) (S (D\<lparr>desc_lock := 0\<rparr>) w, p1(2 := Starting args, 1 := Outside))"
  proof -
    obtain w where "?R (S D (world e), p1(2 := Starting args)) (S D w, p1(2 := Starting args, 1 := Leaving))"
      using sp [of "p1(2 := Starting args)" 1 args "desc_p_state (desc h e)" D "world e"] by (auto simp: p1_def)
    from that [OF thread_steps(1) [OF this]] show ?thesis using lv [of "p1(2 := Starting args, 1 := Leaving)" 1 D w] by simp
  qed
  moreover have "?R\<^sup>*\<^sup>* (S (D\<lparr>desc_lock := 0\<rparr>) w, p1(2 := Starting args, 1 := Outside)) (S (D\<lparr>desc_lock := 0\<rparr>\<lparr>desc_lock := 1\<rparr>) w, p1(2 := Starting args, 1 := Outside, 3 := Starting args))"
    using thread_steps(1) [OF en [of "p1(2 := Starting args, 1 := Outside)" 3 "D\<lparr>desc_lock := 0\<rparr>" w "Start args"] st [of _ 3 args]] ers by (simp add: p1_def)
  ultimately have "?R\<^sup>*\<^sup>* (e, \<lambda>t. Outside) (S (D\<lparr>desc_lock := 0\<rparr>\<lparr>desc_lock := 1\<rparr>) w, p1(2 := Starting args, 1 := Outside, 3 := Starting args))"
    unfolding e0 [symmetric] by (meson rtranclp_trans)
  then show ?thesis by (intro exI conjI) (assumption, simp_all)
qed

text \<open>(C31) The lock of a server descriptor under interleaved threads.  The entry points are runs of one thread.  As long as no
  thread stops a server, the lock excludes all threads but one from the descriptor.  With stops it does
  not: a stop erases the whole descriptor (\<open>erased_desc\<close>) with the lock that it holds, so that from every state with a
  running server two threads can get into the initialisation callback of one descriptor at the same time.\<close>

theorem descriptor_lock:
  assumes "enclave_ok e" "h < SGXSD_ENCLAVE_MAX_SERVERS"
  shows "(sgxsd_enclave_server_start P args h e = Some (res, e1) \<longrightarrow> (thread_step P h False)\<^sup>*\<^sup>* (e, \<lambda>t. Outside) (e1, \<lambda>t. Outside))
    \<and> (sgxsd_enclave_server_call P req key args p_header msg tag h e = Some (res, msg', e2) \<longrightarrow> (thread_step P h False)\<^sup>*\<^sup>* (e, \<lambda>t. Outside) (e2, \<lambda>t. Outside))
    \<and> (sgxsd_enclave_server_stop P args h e = Some (res, e3) \<longrightarrow> (thread_step P h True)\<^sup>*\<^sup>* (e, \<lambda>t. Outside) (e3, \<lambda>t. Outside))
    \<and> (\<forall>s. (thread_step P h False)\<^sup>*\<^sup>* (e, \<lambda>t. Outside) s \<longrightarrow> exclusive h s)
    \<and> (node_initialized e \<and> desc_valid (server_states e ! h) \<longrightarrow>
        (\<exists>e' pc. (thread_step P h True)\<^sup>*\<^sup>* (e, \<lambda>t. Outside) (e', pc) \<and> pc 2 = Starting args \<and> pc 3 = Starting args))"
proof -
  have len: "length (server_states e) = SGXSD_ENCLAVE_MAX_SERVERS" using assms(1) by (simp add: enclave_ok_def)
  note lk = enclave_okD(1) [OF assms]
  show ?thesis
    using alone_start [OF len, of "\<lambda>t. Outside"] alone_call [OF len, of "\<lambda>t. Outside"] alone_stop [OF len, of "\<lambda>t. Outside"]
      exclusive_run [of P h e] stop_race [OF _ assms(2) len lk] assms(2) len by (intro conjI) auto
qed

section \<open>A concrete platform\<close>

definition blank_rid :: sgxsd_pending_request_id where
  "blank_rid = \<lparr>prid_data = replicate 8 0, prid_iv = replicate 12 0, prid_mac = replicate 16 0\<rparr>"

text \<open>The world counts the calls; random bytes repeat the counter; the server state is a number.\<close>

definition demo_platform :: "(nat, unit, bytes, nat) platform" where
  "demo_platform = \<lparr>sgx_read_rand = \<lambda>n w. (SGX_SUCCESS, replicate n (word_of_nat w), Suc w),
     sgx_is_outside_enclave = \<lambda>p n. 1, sgx_create_report = \<lambda>i d w. (SGX_SUCCESS, d, Suc w),
     enclave_calloc = \<lambda>n w. (True, w), sgxsd_ocall_reply = \<lambda>h d t w. (SGX_SUCCESS, SGX_SUCCESS, Suc w),
     server_init = \<lambda>a p w. (SGX_SUCCESS, Some 0, w), server_handle_call = \<lambda>a d f p w. (SGX_SUCCESS, Some (length d), w),
     server_terminate = \<lambda>a p w. (SGX_SUCCESS, w), create_ratelimit_fingerprint = \<lambda>k a d f fp w. (SGX_SUCCESS, fp, w),
     id_image = \<lambda>rid. take 36 (prid_data rid @ prid_iv rid @ prid_mac rid @ replicate 36 0), stk = demo_stack,
     uninit_header = \<lparr>msg_iv = replicate 12 0, msg_mac = replicate 16 0, msg_pending_request_id = blank_rid\<rparr>, uninit_hkdf = replicate 32 0\<rparr>"

definition demo_enclave :: "(nat, nat) enclave" where
  "demo_enclave = (initial_enclave 0)\<lparr>node_initialized := True, pending_requests_table_order := 1,
     pending_requests := [cleared_request, \<lparr>id_val = 1, hkdf_prk = replicate 32 5\<rparr>], last_pending_request_id_val := 1,
     server_states := \<lparr>desc_valid = True, desc_lock = 0, desc_p_state = Some 4\<rparr> # replicate 255 erased_desc\<rparr>"

lemma demo_ok: "platform_ok demo_platform" "stack_ok demo_stack" "rid_ok blank_rid" "table_ok demo_enclave" "enclave_ok demo_enclave"
  "node_initialized demo_enclave"
  by (simp_all add: platform_ok_def demo_platform_def demo_stack_def stack_ok_def idle_gcm_def blank_rid_def rid_ok_def table_ok_def
      demo_enclave_def initial_enclave_def enclave_ok_def SGXSD_ENCLAVE_MAX_SERVERS_def list_all_iff erased_desc_def)

lemma demo_rand: "sgx_read_rand demo_platform n w = (SGX_SUCCESS, replicate n (word_of_nat w), Suc w)"
  by (simp add: demo_platform_def)

lemma demo_add: "fst (sgxsd_enclave_add_pending_request demo_platform blank_rid req demo_enclave) = SGX_SUCCESS"
  by (simp add: add_pending_request [OF demo_ok(1,4,3)] demo_rand Let_def)

lemma negotiate_succeeds:
  assumes "platform_ok P" "enclave_ok e" "node_initialized e" "rid_ok rid0" "length key0 = 32" "length (encrypted_id_mac response) = 16"
    and "\<And>rid. length (id_image P rid) = length (encrypted_id_data response)" "length (encrypted_id_data response) < 2 ^ 32"
    and "\<And>n w. fst (sgx_read_rand P n w) = SGX_SUCCESS"
  shows "fst (sgxsd_enclave_negotiate_request P kp0 req0 rid0 key0 (Some client) (Some response) e) = SGX_SUCCESS"
proof -
  obtain g eph e1 where g: "sgxsd_enclave_generate_curve25519_keypair P kp0 e = (g, eph, e1)" by (cases "sgxsd_enclave_generate_curve25519_keypair P kp0 e")
  have gs: "g = SGX_SUCCESS"
    using g assms(9) [of SGXSD_CURVE25519_KEY_SIZE "world e"]
    by (auto simp: sgxsd_enclave_generate_curve25519_keypair_def sgxsd_enclave_read_rand_def Let_def split: prod.splits)
  obtain s w where e1: "e1 = e\<lparr>read_rand_state := s, world := w\<rparr>" using g by (rule keypair_frame)
  have tb: "table_ok e1" using assms(2,3) unfolding e1 by (simp only: table_ok_frame enclave_ok_def)
  note st = platform_okD(1) [OF assms(1)]
  have len: "length (id_image P rid) < 2 ^ 32" "length (replicate 12 (0 :: u8)) = 12" for rid using assms(7,8) by simp_all
  note en = encrypt_plain [OF st length_hkdf(2) len(2) assms(6) assms(7) [symmetric] len(1)]
  have add: "fst (sgxsd_enclave_add_pending_request P rid0 q e1) = SGX_SUCCESS" for q
    using assms(9) [of 12 "world e1"] unfolding add_pending_request [OF assms(1) tb assms(4)]
    by (cases "sgx_read_rand P 12 (world e1)") (simp add: Let_def)
  have add': "sgxsd_enclave_add_pending_request P rid0 q e1 = (r, rid, e2) \<Longrightarrow> r = SGX_SUCCESS" for q r rid e2
    using add [of q] by simp
  show ?thesis
    unfolding sgxsd_enclave_negotiate_request_def g gs
    using assms(3) by (auto dest!: add' simp: Let_def derive_request_keys(2) [OF st assms(5,5)] sgxsd_sizes en split: prod.splits)
qed

theorem pending_request_lifetime_witness:
  "case sgxsd_enclave_add_pending_request demo_platform blank_rid cleared_request demo_enclave of (res, rid, e') \<Rightarrow>
     res = SGX_SUCCESS
     \<and> fst (sgxsd_enclave_get_pending_request demo_platform rid cleared_request (add_requests demo_platform blank_rid [cleared_request] e')) = SGX_SUCCESS
     \<and> fst (sgxsd_enclave_get_pending_request demo_platform rid cleared_request
         (add_requests demo_platform blank_rid [cleared_request, cleared_request] e')) = SGXSD_ERROR_PENDING_REQUEST_NOT_FOUND"
proof -
  obtain rid e' where a: "sgxsd_enclave_add_pending_request demo_platform blank_rid cleared_request demo_enclave = (SGX_SUCCESS, rid, e')"
    using demo_add [of cleared_request] by (cases "sgxsd_enclave_add_pending_request demo_platform blank_rid cleared_request demo_enclave") auto
  show ?thesis unfolding a
    using pending_request_lifetime [OF demo_ok(1,4,3) a, of "[cleared_request]"]
      pending_request_lifetime [OF demo_ok(1,4,3) a, of "[cleared_request, cleared_request]"]
    by (simp add: demo_enclave_def)
qed

theorem pending_request_once_witness:
  "case sgxsd_enclave_add_pending_request demo_platform blank_rid cleared_request demo_enclave of (res, rid, e') \<Rightarrow>
     case sgxsd_enclave_remove_pending_request demo_platform rid cleared_request e' of (res', found, e'') \<Rightarrow>
     res' = SGX_SUCCESS \<and> fst (sgxsd_enclave_get_pending_request demo_platform rid cleared_request e'') = SGXSD_ERROR_PENDING_REQUEST_NOT_FOUND"
proof -
  obtain rid e' where a: "sgxsd_enclave_add_pending_request demo_platform blank_rid cleared_request demo_enclave = (SGX_SUCCESS, rid, e')"
    using demo_add [of cleared_request] by (cases "sgxsd_enclave_add_pending_request demo_platform blank_rid cleared_request demo_enclave") auto
  have l: "last_pending_request_id_val demo_enclave \<noteq> - 1" by (simp add: demo_enclave_def)
  show ?thesis unfolding a
    using pending_request_once [OF demo_ok(1,4,3) a l, of cleared_request cleared_request] by (auto split: prod.splits)
qed

theorem enclave_reachable_witness:
  "enclave_step demo_platform (initial_enclave 0) (snd (sgxsd_enclave_node_init demo_platform (Some 1) (initial_enclave 0)))
   \<and> sgxsd_enclave_server_start demo_platform () 7 (snd (sgxsd_enclave_node_init demo_platform (Some 1) (initial_enclave 0))) \<noteq> None"
proof -
  let ?e = "snd (sgxsd_enclave_node_init demo_platform (Some 1) (initial_enclave 0))"
  have s: "enclave_step demo_platform (initial_enclave 0) ?e" by (rule enclave_step.init [OF surjective_pairing])
  then show ?thesis using enclave_reachable [OF demo_ok(1) r_into_rtranclp [of "enclave_step demo_platform", OF s]] by blast
qed

definition demo_header :: sgxsd_msg_header where
  "demo_header = (let rid = issue_id (replicate 32 0) (replicate 12 8) 1 in
     \<lparr>msg_iv = replicate 12 2, msg_mac = gcm_mac (hkdf_t1 (replicate 32 5)) (replicate 12 2) (id_image demo_platform rid) [1, 2, 3],
      msg_pending_request_id = rid\<rparr>)"

theorem server_call_spec_witness:
  "map_option (\<lambda>(res, msg, e). (res, msg, desc_p_state (server_states e ! 0)))
     (sgxsd_enclave_server_call demo_platform cleared_request (replicate 32 0) () (Some demo_header) (Some [1, 2, 3]) 6 0 demo_enclave)
   = Some (SGX_SUCCESS, Some [0, 0, 0], Some 3)"
proof -
  have r: "rid_ok (msg_pending_request_id demo_header)" "length (msg_iv demo_header) = 12" "length (msg_mac demo_header) = 16"
    "length (id_image demo_platform (msg_pending_request_id demo_header)) < 2 ^ 32"
    by (simp_all add: demo_header_def Let_def issue_id_ok demo_platform_def)
  have v: "desc_valid (server_states demo_enclave ! 0)" by (simp add: demo_enclave_def)
  have o: "open_id (pending_request_id_key demo_enclave) (msg_pending_request_id demo_header) = Some 1"
    by (simp add: demo_header_def demo_enclave_def initial_enclave_def Let_def)
  have "pending_slot demo_enclave 1 = 1" by (simp add: pending_slot_def demo_enclave_def)
  then have f: "pending_requests demo_enclave ! pending_slot demo_enclave 1 = \<lparr>id_val = 1, hkdf_prk = replicate 32 5\<rparr>"
    by (simp add: demo_enclave_def)
  have h: "msg_mac demo_header = gcm_mac (hkdf_t1 (replicate 32 5)) (msg_iv demo_header) (id_image demo_platform (msg_pending_request_id demo_header)) [1, 2, 3]"
    by (simp add: demo_header_def Let_def)
  have c: "server_handle_call demo_platform () d fr p w = (SGX_SUCCESS, Some (length d), w)" for d fr p w by (simp add: demo_platform_def)
  have "sgxsd_enclave_server_call demo_platform cleared_request (replicate 32 0) () (Some demo_header) (Some [1, 2, 3]) 6 0 demo_enclave = Some
      (SGX_SUCCESS, Some (replicate 3 0), (consume demo_enclave 1)\<lparr>server_states := (server_states demo_enclave)[0 :=
        (server_states demo_enclave ! 0)\<lparr>desc_p_state := Some 3\<rparr>], world := world demo_enclave\<rparr>)"
    using server_call_spec [OF demo_ok(1,5,6) _ v r(1-3), of "replicate 32 0" "[1, 2, 3]"] r(4)
    by (simp add: SGXSD_ENCLAVE_MAX_SERVERS_def o f h [symmetric] c Let_def numeral_3_eq_3)
  then show ?thesis by (simp add: demo_enclave_def eval_nat_numeral)
qed

theorem negotiate_request_spec_witness:
  "let response = \<lparr>server_static_pubkey = [], server_ephemeral_pubkey = [], encrypted_id_data = replicate 36 0, encrypted_id_iv = replicate 12 1,
       encrypted_id_mac = replicate 16 0\<rparr>;
       (res, resp', e') = sgxsd_enclave_negotiate_request demo_platform \<lparr>privkey = [], pubkey = []\<rparr> cleared_request blank_rid (replicate 32 0)
         (Some (replicate 32 1)) (Some response) demo_enclave
   in res = SGX_SUCCESS \<and> (\<exists>r. resp' = Some r \<and> encrypted_id_iv r = replicate 12 0)"
proof -
  define response where "response = \<lparr>server_static_pubkey = [], server_ephemeral_pubkey = [], encrypted_id_data = replicate 36 (0 :: u8),
       encrypted_id_iv = replicate 12 (1 :: u8), encrypted_id_mac = replicate 16 (0 :: u8)\<rparr>"
  let ?n = "sgxsd_enclave_negotiate_request demo_platform \<lparr>privkey = [], pubkey = []\<rparr> cleared_request blank_rid (replicate 32 0)
         (Some (replicate 32 1)) (Some response) demo_enclave"
  have p: "length (replicate 32 (0 :: u8)) = 32" "length (encrypted_id_mac response) = 16" "length (encrypted_id_data response) < 2 ^ 32"
    "length (id_image demo_platform rid) = length (encrypted_id_data response)" for rid
    by (simp_all add: response_def demo_platform_def)
  have "fst ?n = SGX_SUCCESS" by (rule negotiate_succeeds [OF demo_ok(1,5,6,3) p(1,2,4,3)]) (simp add: demo_rand)
  then obtain resp' e' where n: "?n = (SGX_SUCCESS, resp', e')" by (cases ?n) auto
  show ?thesis unfolding response_def [symmetric] Let_def n prod.case
    using negotiate_request_spec [OF demo_ok(1,5,3) p(1,2,4,3) n] by (auto simp: Let_def)
qed

theorem server_reply_spec_witness:
  "case sgxsd_enclave_server_reply demo_platform (Some [4, 5]) 2 (Some \<lparr>from_valid = True, from_tag = 1, from_server_key = replicate 32 3\<rparr>) 0 of
     (res, data, from, w) \<Rightarrow> res = SGX_SUCCESS \<and> data = Some [0, 0] \<and> from = Some erased_from"
  using server_reply_spec [OF demo_ok(1), of "\<lparr>from_valid = True, from_tag = 1, from_server_key = replicate 32 3\<rparr>" "[4, 5]" 0 "replicate 12 0" 1]
  by (simp add: demo_rand Let_def) (simp add: demo_platform_def eval_nat_numeral)

theorem entry_points_guarded_witness:
  "\<exists>e :: (nat, nat) enclave. (enclave_step demo_platform)\<^sup>*\<^sup>* (initial_enclave 0) e \<and> node_initialized e
    \<and> sgxsd_enclave_node_init demo_platform (Some 3) e = (SGX_ERROR_INVALID_STATE, e)
    \<and> sgxsd_enclave_set_current_quote (initial_enclave 0 :: (nat, nat) enclave) = (SGX_ERROR_INVALID_STATE, initial_enclave 0)"
proof -
  obtain e :: "(nat, nat) enclave" where e: "sgxsd_enclave_node_init demo_platform (Some 2) (initial_enclave 0) = (SGX_SUCCESS, e)" "node_initialized e"
    by (auto simp: sgxsd_enclave_node_init_def sgxsd_enclave_node_init_locked_def sgxsd_enclave_generate_curve25519_keypair_def
        sgxsd_enclave_read_rand_def demo_rand demo_platform_def initial_enclave_def Let_def split: prod.splits)
  have r: "(enclave_step demo_platform)\<^sup>*\<^sup>* (initial_enclave 0) e" using enclave_step.init [OF e(1)] by blast
  have n: "\<not> node_initialized (initial_enclave 0 :: (nat, nat) enclave)" by (simp add: initial_enclave_def)
  have i: "sgxsd_enclave_node_init demo_platform (Some 3) e = (SGX_ERROR_INVALID_STATE, e)"
    using conjunct1 [OF entry_points_guarded [OF r rtranclp.rtrancl_refl, where order = "Some 3"]] e(2) by simp
  have q: "sgxsd_enclave_set_current_quote (initial_enclave 0 :: (nat, nat) enclave) = (SGX_ERROR_INVALID_STATE, initial_enclave 0)"
    using conjunct2 [OF entry_points_guarded [OF rtranclp.rtrancl_refl [of "enclave_step demo_platform" "initial_enclave 0"] rtranclp.rtrancl_refl]] n
    by simp
  show ?thesis using r e(2) i q by blast
qed

theorem server_lifecycle_witness:
  "sgxsd_enclave_server_start demo_platform () 0 demo_enclave = Some (SGX_ERROR_INVALID_STATE, demo_enclave)
   \<and> fst (the (sgxsd_enclave_server_stop demo_platform () 0 demo_enclave)) = SGX_SUCCESS"
proof -
  have v: "desc_valid (server_states demo_enclave ! 0)" by (simp add: demo_enclave_def)
  have h: "0 < SGXSD_ENCLAVE_MAX_SERVERS" by (simp add: SGXSD_ENCLAVE_MAX_SERVERS_def)
  show ?thesis using server_lifecycle [OF demo_ok(5,6) h, of demo_platform "()"] v
    by (simp add: demo_platform_def)
qed

theorem descriptor_lock_witness:
  "\<exists>e' pc. (thread_step demo_platform 0 True)\<^sup>*\<^sup>* (demo_enclave, \<lambda>t. Outside) (e', pc) \<and> pc 2 = Starting () \<and> pc 3 = Starting ()"
proof -
  have v: "desc_valid (server_states demo_enclave ! 0)" by (simp add: demo_enclave_def)
  have h: "0 < SGXSD_ENCLAVE_MAX_SERVERS" by (simp add: SGXSD_ENCLAVE_MAX_SERVERS_def)
  show ?thesis using descriptor_lock [OF demo_ok(5) h, where P = demo_platform and args = "()"] demo_ok(6) v by blast
qed

end
