(* ===== verification/Hmac_Drbg.thy ===== *)
theory Hmac_Drbg
  imports Hmac
begin

text \<open>
  HMAC_DRBG (\<open>rand/hmac_drbg.c\<close>) over any hash class.  The contexts that the functions keep
  uninitialised on their stack are the fields of \<open>drbg_mem\<close>.  The output loop is a partial function:
  for a hash class it is proved to return, with the output and the state of the HMAC_DRBG of NIST
  SP 800-90A.
\<close>

section \<open>Definitions\<close>

record 'c br_hmac_drbg_context =
  drbg_K :: bytes
  drbg_V :: bytes
  drbg_digest_class :: "'c br_hash_class"

record 'c drbg_mem =
  mem_kc :: "'c br_hmac_key_context"
  mem_hc :: "'c br_hmac_context"
  mem_dig :: 'c

definition br_hmac_drbg_update :: "'c drbg_mem \<Rightarrow> 'c br_hmac_drbg_context \<Rightarrow> bytes \<Rightarrow> 'c br_hmac_drbg_context" where
  "br_hmac_drbg_update m ctx seed =
    (let dig = drbg_digest_class ctx;
         hlen = br_digest_size dig;
         kc = br_hmac_key_init (mem_kc m) dig (take hlen (drbg_K ctx)) (mem_dig m);
         hc = br_hmac_init (mem_hc m) kc 0;
         hc = br_hmac_update hc (take hlen (drbg_V ctx));
         hc = br_hmac_update hc [0x00];
         hc = br_hmac_update hc seed;
         ctx = ctx\<lparr>drbg_K := memcpy (drbg_K ctx) 0 (br_hmac_out hc (mem_dig m))\<rparr>;
         kc = br_hmac_key_init kc dig (take hlen (drbg_K ctx)) (mem_dig m);
         hc = br_hmac_init hc kc 0;
         hc = br_hmac_update hc (take hlen (drbg_V ctx));
         ctx = ctx\<lparr>drbg_V := memcpy (drbg_V ctx) 0 (br_hmac_out hc (mem_dig m))\<rparr>
     in if length seed = 0 then ctx
        else
          let hc = br_hmac_init hc kc 0;
              hc = br_hmac_update hc (take hlen (drbg_V ctx));
              hc = br_hmac_update hc [0x01];
              hc = br_hmac_update hc seed;
              ctx = ctx\<lparr>drbg_K := memcpy (drbg_K ctx) 0 (br_hmac_out hc (mem_dig m))\<rparr>;
              kc = br_hmac_key_init kc dig (take hlen (drbg_K ctx)) (mem_dig m);
              hc = br_hmac_init hc kc 0;
              hc = br_hmac_update hc (take hlen (drbg_V ctx))
          in ctx\<lparr>drbg_V := memcpy (drbg_V ctx) 0 (br_hmac_out hc (mem_dig m))\<rparr>)"

definition br_hmac_drbg_init :: "'c drbg_mem \<Rightarrow> 'c br_hmac_drbg_context \<Rightarrow> 'c br_hash_class \<Rightarrow> bytes \<Rightarrow> 'c br_hmac_drbg_context" where
  "br_hmac_drbg_init m ctx digest_class seed =
    (let hlen = br_digest_size digest_class;
         ctx = ctx\<lparr>drbg_K := memset (drbg_K ctx) 0 0x00 hlen, drbg_V := memset (drbg_V ctx) 0 0x01 hlen,
                   drbg_digest_class := digest_class\<rparr>
     in br_hmac_drbg_update m ctx seed)"

partial_function (option) hmac_drbg_loop ::
  "'c drbg_mem \<Rightarrow> 'c br_hmac_key_context \<Rightarrow> nat \<Rightarrow> 'c br_hmac_context \<Rightarrow> bytes \<Rightarrow> nat \<Rightarrow> ('c br_hmac_context \<times> bytes \<times> bytes) option" where
  "hmac_drbg_loop m kc hlen hc V len =
    (if len = 0 then Some (hc, V, [])
     else
       let hc = br_hmac_init hc kc 0;
           hc = br_hmac_update hc (take hlen V);
           V = memcpy V 0 (br_hmac_out hc (mem_dig m));
           clen = (if hlen > len then len else hlen)
       in Option.bind (hmac_drbg_loop m kc hlen hc V (len - clen)) (\<lambda>(hc, V', out). Some (hc, V', take clen V @ out)))"

definition br_hmac_drbg_generate :: "'c drbg_mem \<Rightarrow> 'c br_hmac_drbg_context \<Rightarrow> nat \<Rightarrow> ('c br_hmac_drbg_context \<times> bytes) option" where
  "br_hmac_drbg_generate m ctx len =
    (let dig = drbg_digest_class ctx;
         hlen = br_digest_size dig;
         kc = br_hmac_key_init (mem_kc m) dig (take hlen (drbg_K ctx)) (mem_dig m)
     in Option.bind (hmac_drbg_loop m kc hlen (mem_hc m) (drbg_V ctx) len) (\<lambda>(hc, V, out).
       let ctx = ctx\<lparr>drbg_V := V\<rparr>;
           hc = br_hmac_init hc kc 0;
           hc = br_hmac_update hc (take hlen (drbg_V ctx));
           hc = br_hmac_update hc [0x00];
           ctx = ctx\<lparr>drbg_K := memcpy (drbg_K ctx) 0 (br_hmac_out hc (mem_dig m))\<rparr>;
           kc = br_hmac_key_init kc dig (take hlen (drbg_K ctx)) (mem_dig m);
           hc = br_hmac_init hc kc 0;
           hc = br_hmac_update hc (take hlen (drbg_V ctx));
           ctx = ctx\<lparr>drbg_V := memcpy (drbg_V ctx) 0 (br_hmac_out hc (mem_dig m))\<rparr>
       in Some (ctx, out)))"

section \<open>The generator of SP 800-90A\<close>

definition hmac_drbg_update_spec :: "(bytes \<Rightarrow> bytes \<Rightarrow> bytes) \<Rightarrow> bytes \<times> bytes \<Rightarrow> bytes \<Rightarrow> bytes \<times> bytes" where
  "hmac_drbg_update_spec hm kv seed =
    (let (k, v) = kv; k = hm k (v @ [0] @ seed); v = hm k v
     in if seed = [] then (k, v) else let k = hm k (v @ [1] @ seed) in (k, hm k v))"

definition hmac_drbg_blocks :: "(bytes \<Rightarrow> bytes \<Rightarrow> bytes) \<Rightarrow> bytes \<times> bytes \<Rightarrow> nat \<Rightarrow> bytes list" where
  "hmac_drbg_blocks hm kv n = map (\<lambda>i. (hm (fst kv) ^^ Suc i) (snd kv)) [0..<n]"

definition hmac_drbg_generate_spec :: "(bytes \<Rightarrow> bytes \<Rightarrow> bytes) \<Rightarrow> nat \<Rightarrow> bytes \<times> bytes \<Rightarrow> nat \<Rightarrow> (bytes \<times> bytes) \<times> bytes" where
  "hmac_drbg_generate_spec hm hlen kv len =
    (let n = (len + hlen - 1) div hlen; v = (hm (fst kv) ^^ n) (snd kv)
     in (hmac_drbg_update_spec hm (fst kv, v) [], take len (concat (hmac_drbg_blocks hm kv n))))"

section \<open>Correctness over the contract\<close>

definition drbg_kv :: "'c br_hmac_drbg_context \<Rightarrow> bytes \<times> bytes" where
  "drbg_kv ctx = (let h = br_digest_size (drbg_digest_class ctx) in (take h (drbg_K ctx), take h (drbg_V ctx)))"

context hash_class
begin

definition hm :: "bytes \<Rightarrow> bytes \<Rightarrow> bytes" where
  "hm key d = hmac_spec H (block_size dig) key d"

definition mem_ok :: "'c drbg_mem \<Rightarrow> bool" where
  "mem_ok m \<longleftrightarrow> wf (mem_dig m) \<and> wf (hmac_dig (mem_hc m))"

definition drbg_ok :: "'c br_hmac_drbg_context \<Rightarrow> bool" where
  "drbg_ok ctx \<longleftrightarrow> drbg_digest_class ctx = dig \<and> br_digest_size dig \<le> length (drbg_K ctx) \<and> br_digest_size dig \<le> length (drbg_V ctx)"

lemma length_hm [simp]: "length (hm key d) = br_digest_size dig"
  by (simp add: hm_def hmac_spec_def Let_def length_H)

lemma hmac_run:
  assumes "wf d" "wf (hmac_dig hc)"
  shows "br_hmac_out (foldl br_hmac_update (br_hmac_init hc (br_hmac_key_init kc dig key d) 0) ds) d = hm key (concat ds)"
    and "wf (hmac_dig (foldl br_hmac_update (br_hmac_init hc (br_hmac_key_init kc dig key d) 0) ds))"
proof -
  show "br_hmac_out (foldl br_hmac_update (br_hmac_init hc (br_hmac_key_init kc dig key d) 0) ds) d = hm key (concat ds)"
    using hmac_correct [OF assms(1,1,2), of kc key 0 ds] length_hm [of key "concat ds"] by (simp add: hm_def)
  show "wf (hmac_dig (foldl br_hmac_update (br_hmac_init hc (br_hmac_key_init kc dig key d) 0) ds))"
    using hmac_updates_repr [OF hmac_init_repr [OF assms], of kc key 0 ds] repr_wf unfolding hmac_repr_def by blast
qed

lemmas hmac_run1 = hmac_run [where ds = "[a]" for a, simplified]
lemmas hmac_run2 = hmac_run [where ds = "[a, b]" for a b, simplified]
lemmas hmac_run3 = hmac_run [where ds = "[a, b, c]" for a b c, simplified]

lemma take_overwritten: "length src = n \<Longrightarrow> n \<le> length dst \<Longrightarrow> take n (memcpy dst 0 src) = src"
  by (simp add: memcpy_def)

lemma drbg_update_correct:
  assumes "mem_ok m" "drbg_ok ctx"
  shows "drbg_ok (br_hmac_drbg_update m ctx seed)"
    and "drbg_kv (br_hmac_drbg_update m ctx seed) = hmac_drbg_update_spec hm (drbg_kv ctx) seed"
proof -
  have w: "wf (mem_dig m)" "wf (hmac_dig (mem_hc m))" using assms(1) by (simp_all add: mem_ok_def)
  have c: "drbg_digest_class ctx = dig" "br_digest_size dig \<le> length (drbg_K ctx)" "br_digest_size dig \<le> length (drbg_V ctx)"
    using assms(2) by (simp_all add: drbg_ok_def)
  show "drbg_ok (br_hmac_drbg_update m ctx seed)"
    unfolding br_hmac_drbg_update_def Let_def drbg_ok_def
    by (simp add: c hmac_run1 hmac_run2 hmac_run3 w take_overwritten)
  show "drbg_kv (br_hmac_drbg_update m ctx seed) = hmac_drbg_update_spec hm (drbg_kv ctx) seed"
    unfolding br_hmac_drbg_update_def Let_def drbg_kv_def hmac_drbg_update_spec_def
    by (simp add: c hmac_run1 hmac_run2 hmac_run3 w take_overwritten)
qed

lemma drbg_init_correct:
  assumes "mem_ok m" "br_digest_size dig \<le> length (drbg_K ctx)" "br_digest_size dig \<le> length (drbg_V ctx)"
  shows "drbg_ok (br_hmac_drbg_init m ctx dig seed)"
    and "drbg_kv (br_hmac_drbg_init m ctx dig seed)
      = hmac_drbg_update_spec hm (replicate (br_digest_size dig) 0, replicate (br_digest_size dig) 1) seed"
proof -
  let ?h = "br_digest_size dig"
  define c where "c = ctx\<lparr>drbg_K := memset (drbg_K ctx) 0 0x00 ?h, drbg_V := memset (drbg_V ctx) 0 0x01 ?h, drbg_digest_class := dig\<rparr>"
  have "drbg_ok c" using assms(2,3) by (simp add: drbg_ok_def c_def memset_def)
  moreover have "drbg_kv c = (replicate ?h 0, replicate ?h 1)"
    using assms(2,3) by (simp add: drbg_kv_def c_def memset_def take_overwritten Let_def)
  moreover have "br_hmac_drbg_init m ctx dig seed = br_hmac_drbg_update m c seed" by (simp add: br_hmac_drbg_init_def c_def Let_def)
  ultimately show "drbg_ok (br_hmac_drbg_init m ctx dig seed)"
    "drbg_kv (br_hmac_drbg_init m ctx dig seed) = hmac_drbg_update_spec hm (replicate ?h 0, replicate ?h 1) seed"
    using drbg_update_correct [OF assms(1), of c seed] by simp_all
qed

lemma div_up_step:
  assumes "0 < h" "0 < len"
  shows "(len + h - 1) div h = Suc ((len - min h len + h - 1) div h)"
proof (cases "h \<le> len")
  case True
  have "len + h - 1 = (len - 1) + h" "len - min h len + h - 1 = len - 1" using True assms by simp_all
  then show ?thesis using assms(1) by (simp only: div_add_self2)
next
  case False
  have "(len + h - 1) div h = 1" using False assms by (intro div_nat_eqI) simp_all
  then show ?thesis using False assms by simp
qed

lemma loop_correct:
  assumes "wf (mem_dig m)" "wf (hmac_dig hc)" "0 < br_digest_size dig" "br_digest_size dig \<le> length V"
  shows "\<exists>hc' V'. hmac_drbg_loop m (br_hmac_key_init kc dig key (mem_dig m)) (br_digest_size dig) hc V len = Some (hc', V',
      take len (concat (hmac_drbg_blocks hm (key, take (br_digest_size dig) V) ((len + br_digest_size dig - 1) div br_digest_size dig))))
    \<and> wf (hmac_dig hc') \<and> length V' = length V
    \<and> take (br_digest_size dig) V' = (hm key ^^ ((len + br_digest_size dig - 1) div br_digest_size dig)) (take (br_digest_size dig) V)"
  using assms(2,4)
proof (induction len arbitrary: hc V rule: less_induct)
  case (less len)
  let ?h = "br_digest_size dig" and ?kc = "br_hmac_key_init kc dig key (mem_dig m)"
  show ?case
  proof (cases "len = 0")
    case True
    then show ?thesis using less.prems assms(3) by (subst hmac_drbg_loop.simps) (simp add: hmac_drbg_blocks_def)
  next
    case False
    define V1 where "V1 = memcpy V 0 (hm key (take ?h V))"
    define hc1 where "hc1 = br_hmac_update (br_hmac_init hc ?kc 0) (take ?h V)"
    define n where "n = (len - min ?h len + ?h - 1) div ?h"
    have t: "take ?h V1 = hm key (take ?h V)" "length V1 = length V" using less.prems(2) by (simp_all add: V1_def take_overwritten)
    have w: "br_hmac_out hc1 (mem_dig m) = hm key (take ?h V)" "wf (hmac_dig hc1)"
      unfolding hc1_def by (rule hmac_run1 [OF assms(1) less.prems(1)])+
    have "len - min ?h len < len" using False assms(3) by simp
    from less.IH [OF this w(2), of V1] t less.prems(2)
    obtain hc' V' where ih: "hmac_drbg_loop m ?kc ?h hc1 V1 (len - min ?h len) = Some (hc', V',
        take (len - min ?h len) (concat (hmac_drbg_blocks hm (key, hm key (take ?h V)) n)))"
      "wf (hmac_dig hc')" "length V' = length V" "take ?h V' = (hm key ^^ n) (hm key (take ?h V))"
      unfolding n_def by auto
    have n: "(len + ?h - 1) div ?h = Suc n" unfolding n_def by (rule div_up_step) (use assms(3) False in simp_all)
    have b: "hmac_drbg_blocks hm (key, v) (Suc n) = hm key v # hmac_drbg_blocks hm (key, hm key v) n" for v
      unfolding hmac_drbg_blocks_def upt_conv_Cons [OF zero_less_Suc] list.map map_Suc_upt [symmetric] map_map
      by (simp add: funpow_swap1)
    have m: "(if ?h > len then len else ?h) = min ?h len" by simp
    have mc: "take (min ?h len) V1 = take len (hm key (take ?h V))"
      using t(1) by (metis min.commute take_take)
    have run: "hmac_drbg_loop m ?kc ?h hc V len = Some (hc', V', take (min ?h len) V1 @
        take (len - min ?h len) (concat (hmac_drbg_blocks hm (key, hm key (take ?h V)) n)))"
      using ih(1) False unfolding hmac_drbg_loop.simps [of m ?kc ?h hc V len] Let_def hc1_def [symmetric] w(1) V1_def [symmetric] m by simp
    show ?thesis unfolding n b run mc using ih(2-4) by (simp add: funpow_swap1 min_def)
  qed
qed

lemma drbg_generate_correct:
  assumes "mem_ok m" "drbg_ok ctx" "0 < br_digest_size dig"
  shows "\<exists>ctx' out. br_hmac_drbg_generate m ctx len = Some (ctx', out) \<and> drbg_ok ctx'
    \<and> (drbg_kv ctx', out) = hmac_drbg_generate_spec hm (br_digest_size dig) (drbg_kv ctx) len"
proof -
  let ?h = "br_digest_size dig" and ?k = "take (br_digest_size dig) (drbg_K ctx)" and ?v = "take (br_digest_size dig) (drbg_V ctx)"
  have w: "wf (mem_dig m)" "wf (hmac_dig (mem_hc m))" using assms(1) by (simp_all add: mem_ok_def)
  have c: "drbg_digest_class ctx = dig" "?h \<le> length (drbg_K ctx)" "?h \<le> length (drbg_V ctx)" using assms(2) by (simp_all add: drbg_ok_def)
  obtain hc' V' where l: "hmac_drbg_loop m (br_hmac_key_init (mem_kc m) dig ?k (mem_dig m)) ?h (mem_hc m) (drbg_V ctx) len = Some (hc', V',
      take len (concat (hmac_drbg_blocks hm (?k, ?v) ((len + ?h - 1) div ?h))))"
    "wf (hmac_dig hc')" "length V' = length (drbg_V ctx)" "take ?h V' = (hm ?k ^^ ((len + ?h - 1) div ?h)) ?v"
    using loop_correct [OF w(1,2) assms(3) c(3)] by blast
  show ?thesis
    unfolding br_hmac_drbg_generate_def Let_def c(1) l(1) drbg_kv_def drbg_ok_def hmac_drbg_generate_spec_def hmac_drbg_update_spec_def
    by (simp add: c l(2-4) hmac_run1 hmac_run2 w take_overwritten)
qed

lemma blocks_length:
  assumes "0 < br_digest_size dig"
  shows "length (snd (hmac_drbg_generate_spec hm (br_digest_size dig) kv len)) = len"
proof -
  let ?h = "br_digest_size dig"
  define n where "n = (len + ?h - 1) div ?h"
  have "length (concat (hmac_drbg_blocks hm kv n)) = sum_list (map (\<lambda>i. ?h) [0..<n])"
    unfolding hmac_drbg_blocks_def length_concat map_map by (rule arg_cong [where f = sum_list]) (simp add: comp_def)
  then have "length (concat (hmac_drbg_blocks hm kv n)) = n * ?h" by (simp add: sum_list_triv)
  moreover have "len \<le> n * ?h"
  proof -
    have "len + ?h - 1 = n * ?h + (len + ?h - 1) mod ?h" unfolding n_def by simp
    moreover have "(len + ?h - 1) mod ?h < ?h" using assms by simp
    ultimately show ?thesis by linarith
  qed
  ultimately show ?thesis unfolding hmac_drbg_generate_spec_def Let_def n_def [symmetric] snd_conv length_take by simp
qed

end

section \<open>Properties\<close>

text \<open>(C19) HMAC_DRBG with SHA-256: after initialisation from any seed, requests of any length return, with
  the output bytes and the new state of the HMAC_DRBG of SP 800-90A.\<close>

theorem hmac_drbg_sha256:
  assumes "length (ctx_buf (mem_dig m)) = 64" "length (ctx_buf (hmac_dig (mem_hc m))) = 64"
    and "length (drbg_K ctx) = 64" "length (drbg_V ctx) = 64"
  defines "hm \<equiv> hmac_spec (md_hash sha2_compress br_sha256_IV 8) 64"
  shows "\<exists>ctx1 out1 ctx2 out2.
    br_hmac_drbg_generate m (br_hmac_drbg_init m ctx br_sha256_vtable seed) len1 = Some (ctx1, out1)
    \<and> br_hmac_drbg_generate m (br_hmac_drbg_update m ctx1 seed') len2 = Some (ctx2, out2)
    \<and> length out1 = len1 \<and> length out2 = len2
    \<and> (let kv = hmac_drbg_update_spec hm (replicate 32 0, replicate 32 1) seed;
           (kv1, o1) = hmac_drbg_generate_spec hm 32 kv len1;
           (kv2, o2) = hmac_drbg_generate_spec hm 32 (hmac_drbg_update_spec hm kv1 seed') len2
       in out1 = o1 \<and> out2 = o2)"
proof -
  have s: "block_size br_sha256_vtable = 64" "br_digest_size br_sha256_vtable = 32" by (simp_all add: sha256.sizes)
  have rd: "br_sha2small_round = sha2_compress" by (intro ext) (rule br_sha2small_round_compress)
  have h: "sha256.hm = hm" unfolding hm_def by (intro ext) (simp only: sha256.hm_def, simp only: rd s)
  have mo: "sha256.mem_ok m" using assms(1,2) by (simp add: sha256.mem_ok_def)
  let ?c = "br_hmac_drbg_init m ctx br_sha256_vtable seed"
  have i: "sha256.drbg_ok ?c" "drbg_kv ?c = hmac_drbg_update_spec hm (replicate 32 0, replicate 32 1) seed"
    using sha256.drbg_init_correct [OF mo, of ctx seed] assms(3,4) by (simp_all add: s h)
  obtain c1 o1 where g1: "br_hmac_drbg_generate m ?c len1 = Some (c1, o1)" "sha256.drbg_ok c1"
    "(drbg_kv c1, o1) = hmac_drbg_generate_spec hm 32 (drbg_kv ?c) len1"
    using sha256.drbg_generate_correct [OF mo i(1), of len1] by (auto simp: s h)
  note u = sha256.drbg_update_correct [OF mo g1(2), of seed']
  obtain c2 o2 where g2: "br_hmac_drbg_generate m (br_hmac_drbg_update m c1 seed') len2 = Some (c2, o2)"
    "(drbg_kv c2, o2) = hmac_drbg_generate_spec hm 32 (drbg_kv (br_hmac_drbg_update m c1 seed')) len2"
    using sha256.drbg_generate_correct [OF mo u(1), of len2] by (auto simp: s h)
  have l: "length (snd (hmac_drbg_generate_spec hm 32 kv n)) = n" for kv n
    using sha256.blocks_length [of kv n] by (simp add: s h)
  show ?thesis
    using g1(1) g2(1) g1(3) [unfolded i(2), symmetric] g2(2) [unfolded u(2) h, symmetric] l [of "drbg_kv ?c" len1] 
      l [of "hmac_drbg_update_spec hm (drbg_kv c1) seed'" len2] i(2)
    by (intro exI [of _ c1] exI [of _ o1] exI [of _ c2] exI [of _ o2]) (simp add: Let_def)
qed

theorem hmac_drbg_sha256_witness:
  "\<exists>c out. br_hmac_drbg_generate
      \<lparr>mem_kc = \<lparr>dig_vtable = br_sha256_vtable, ksi = replicate 64 0, kso = replicate 64 0\<rparr>,
       mem_hc = \<lparr>hmac_vtable = br_sha256_vtable, hmac_dig = \<lparr>ctx_buf = replicate 64 0, ctx_count = 0, ctx_val = []\<rparr>, hmac_kso = [], hmac_out_len = 0\<rparr>,
       mem_dig = \<lparr>ctx_buf = replicate 64 1, ctx_count = 0, ctx_val = []\<rparr>\<rparr>
      (br_hmac_drbg_init
      \<lparr>mem_kc = \<lparr>dig_vtable = br_sha256_vtable, ksi = replicate 64 0, kso = replicate 64 0\<rparr>,
       mem_hc = \<lparr>hmac_vtable = br_sha256_vtable, hmac_dig = \<lparr>ctx_buf = replicate 64 0, ctx_count = 0, ctx_val = []\<rparr>, hmac_kso = [], hmac_out_len = 0\<rparr>,
       mem_dig = \<lparr>ctx_buf = replicate 64 1, ctx_count = 0, ctx_val = []\<rparr>\<rparr>
       \<lparr>drbg_K = replicate 64 3, drbg_V = replicate 64 4, drbg_digest_class = br_sha1_vtable\<rparr> br_sha256_vtable [1, 2]) 70 = Some (c, out)
    \<and> length out = 70"
proof -
  define m where "m = \<lparr>mem_kc = \<lparr>dig_vtable = br_sha256_vtable, ksi = replicate 64 (0 :: u8), kso = replicate 64 0\<rparr>,
       mem_hc = \<lparr>hmac_vtable = br_sha256_vtable, hmac_dig = \<lparr>ctx_buf = replicate 64 (0 :: u8), ctx_count = 0, ctx_val = []\<rparr>, hmac_kso = [], hmac_out_len = 0\<rparr>,
       mem_dig = \<lparr>ctx_buf = replicate 64 (1 :: u8), ctx_count = 0, ctx_val = []\<rparr>\<rparr>"
  define c where "c = \<lparr>drbg_K = replicate 64 (3 :: u8), drbg_V = replicate 64 (4 :: u8), drbg_digest_class = br_sha1_vtable\<rparr>"
  have h: "length (ctx_buf (mem_dig m)) = 64" "length (ctx_buf (hmac_dig (mem_hc m))) = 64" "length (drbg_K c) = 64" "length (drbg_V c) = 64"
    by (simp_all add: m_def c_def)
  show ?thesis unfolding m_def [symmetric] c_def [symmetric]
    using hmac_drbg_sha256 [OF h, of "[1, 2]" 70 "[]" 0] by blast
qed

end
