(* ===== verification/Aesctr_Drbg.thy ===== *)
theory Aesctr_Drbg
  imports Aes_Gcm
begin

text \<open>
  AESCTR_DRBG (\<open>rand/aesctr_drbg.c\<close>), a generator over any counter-mode class.  Its output loop, which
  works in pieces of at most 65280 bytes and re-keys every 32768 blocks, is proved to implement a
  generator that produces one block at a time.  Since the AES-NI counter mode does not count a
  last partial block, requests that are not a multiple of 16 bytes repeat output.
\<close>

section \<open>Definitions\<close>

record 'k br_block_ctr_class =
  ctr_class_init :: "'k \<Rightarrow> bytes \<Rightarrow> 'k"
  ctr_class_run :: "'k \<Rightarrow> bytes \<Rightarrow> u32 \<Rightarrow> bytes \<Rightarrow> u32 \<times> bytes"

definition br_aes_x86ni_ctr_vtable :: "(nat \<Rightarrow> u8) \<Rightarrow> (nat \<Rightarrow> u128) \<Rightarrow> br_aes_x86ni_ctr_keys br_block_ctr_class" where
  "br_aes_x86ni_ctr_vtable junk u = \<lparr>ctr_class_init = br_aes_x86ni_ctr_init u, ctr_class_run = br_aes_x86ni_ctr_run junk\<rparr>"

record 'k br_aesctr_drbg_context =
  drbg_class :: "'k br_block_ctr_class"
  drbg_sk :: 'k
  drbg_cc :: u32

text \<open>One round of the hash: the key becomes \<open>H || m\<close>, then both halves are encrypted.\<close>

definition hirose_round :: "'k br_block_ctr_class \<Rightarrow> bytes \<Rightarrow> 'k \<times> bytes \<times> bytes \<Rightarrow> 'k \<times> bytes \<times> bytes" where
  "hirose_round cls m st =
    (let (sk, G, H) = st;
         tmp = H @ m;
         sk = ctr_class_init cls sk tmp;
         iv = take 12 G;
         (_, newG) = ctr_class_run cls sk iv (br_dec32be (drop 12 G)) G;
         iv = iv[0 := iv ! 0 XOR 0x01];
         H = G[0 := G ! 0 XOR 0x01];
         (_, H) = ctr_class_run cls sk iv (br_dec32be (drop 12 G)) H
     in (sk, newG, H))"

function hirose_loop :: "'k br_block_ctr_class \<Rightarrow> bytes \<Rightarrow> 'k \<times> bytes \<times> bytes \<Rightarrow> 'k \<times> bytes \<times> bytes" where
  "hirose_loop cls seed st =
    (if seed = [] then st
     else let clen = (if length seed < 16 then length seed else 16)
          in hirose_loop cls (drop clen seed) (hirose_round cls (take clen seed @ replicate (16 - clen) 0) st))"
  by pat_completeness auto
termination by (relation "measure (\<lambda>(cls, seed, st). length seed)") auto

declare hirose_loop.simps [simp del]

definition br_aesctr_drbg_update :: "'k br_aesctr_drbg_context \<Rightarrow> bytes \<Rightarrow> 'k br_aesctr_drbg_context" where
  "br_aesctr_drbg_update ctx seed =
    (let cls = drbg_class ctx;
         iv = replicate 12 0xFF;
         (_, s) = ctr_class_run cls (drbg_sk ctx) iv 0xFFFFFFFF (replicate 16 0);
         G = replicate 16 0xB6;
         H = replicate 16 0x5A;
         (sk, G, H) = hirose_loop cls seed (hirose_round cls s (drbg_sk ctx, G, H))
     in ctx\<lparr>drbg_sk := ctr_class_init cls sk H, drbg_cc := 0\<rparr>)"

definition br_aesctr_drbg_init :: "'k br_aesctr_drbg_context \<Rightarrow> 'k br_block_ctr_class \<Rightarrow> bytes \<Rightarrow> 'k br_aesctr_drbg_context" where
  "br_aesctr_drbg_init ctx aesctr seed =
    (let tmp = replicate 16 0;
         ctx = ctx\<lparr>drbg_class := aesctr, drbg_sk := ctr_class_init aesctr (drbg_sk ctx) tmp, drbg_cc := 0\<rparr>
     in br_aesctr_drbg_update ctx seed)"

text \<open>The number of bytes that one round of the output loop produces.\<close>

definition aesctr_clen :: "u32 \<Rightarrow> nat \<Rightarrow> nat" where
  "aesctr_clen cc len =
    (let clen = (if len > 65280 then 65280 else len)
     in if (word_of_nat (unat cc + (clen + 15) div 16) :: u32) > 32768
        then let clen = unat (push_bit 4 (32768 - cc)) in if clen > len then len else clen
        else clen)"

partial_function (option) br_aesctr_drbg_generate :: "'k br_aesctr_drbg_context \<Rightarrow> nat \<Rightarrow> ('k br_aesctr_drbg_context \<times> bytes) option" where
  "br_aesctr_drbg_generate ctx len =
    (if len = 0 then Some (ctx, [])
     else
       let iv = replicate 12 0;
           clen = aesctr_clen (drbg_cc ctx) len;
           (cc, buf) = ctr_class_run (drbg_class ctx) (drbg_sk ctx) iv (drbg_cc ctx) (replicate clen 0);
           ctx = ctx\<lparr>drbg_cc := cc\<rparr>;
           ctx = (if drbg_cc ctx \<ge> 32768 then br_aesctr_drbg_update ctx [] else ctx)
       in Option.bind (br_aesctr_drbg_generate ctx (len - clen)) (\<lambda>(ctx, out). Some (ctx, buf @ out)))"

section \<open>The generator of blocks\<close>

definition hirose_spec :: "(bytes \<Rightarrow> bytes \<Rightarrow> bytes) \<Rightarrow> bytes \<times> bytes \<Rightarrow> bytes \<Rightarrow> bytes \<times> bytes" where
  "hirose_spec E st m =
    (let (G, H) = st; key = H @ m; G1 = G[0 := G ! 0 XOR 1]
     in (map2 (XOR) (E key G) G, map2 (XOR) (E key G1) G1))"

definition rekey_spec :: "(bytes \<Rightarrow> bytes \<Rightarrow> bytes) \<Rightarrow> bytes \<Rightarrow> bytes \<Rightarrow> bytes" where
  "rekey_spec E k seed =
    snd (foldl (hirose_spec E) (replicate 16 0xB6, replicate 16 0x5A) (E k (replicate 16 0xFF) # chunks 16 (pad16 seed)))"

definition drbg_next :: "(bytes \<Rightarrow> bytes \<Rightarrow> bytes) \<Rightarrow> bytes \<times> nat \<Rightarrow> bytes \<times> bytes \<times> nat" where
  "drbg_next E st =
    (let (k, c) = st
     in (E k (replicate 12 0 @ br_enc32be (word_of_nat c)), if c + 1 \<ge> 32768 then (rekey_spec E k [], 0) else (k, c + 1)))"

fun drbg_stream :: "(bytes \<Rightarrow> bytes \<Rightarrow> bytes) \<Rightarrow> bytes \<times> nat \<Rightarrow> nat \<Rightarrow> bytes \<times> bytes \<times> nat" where
  "drbg_stream E st 0 = ([], st)"
| "drbg_stream E st (Suc n) = (let (b, st) = drbg_next E st; (out, st) = drbg_stream E st n in (b @ out, st))"

lemma drbg_stream_add:
  "drbg_stream E st (m + n) = (let (a, st) = drbg_stream E st m; (b, st) = drbg_stream E st n in (a @ b, st))"
  by (induction m arbitrary: st) (simp_all add: Let_def split: prod.split)

section \<open>The contract of a counter-mode class\<close>

locale ctr_class =
  fixes cls :: "'k br_block_ctr_class" and E :: "bytes \<Rightarrow> bytes \<Rightarrow> bytes"
  assumes class_run: "length key = 16 \<or> length key = 32 \<Longrightarrow> length iv = 12 \<Longrightarrow>
      ctr_class_run cls (ctr_class_init cls sk key) iv cc d = (cc + of_nat (length d div 16),
        map (\<lambda>n. d ! n XOR E key (iv @ br_enc32be (cc + of_nat (n div 16))) ! (n mod 16)) [0..<length d])"
    and length_E: "length (E key b) = 16"
begin

definition keyed :: "'k br_aesctr_drbg_context \<Rightarrow> bytes \<times> nat \<Rightarrow> bool" where
  "keyed ctx st \<longleftrightarrow> drbg_class ctx = cls \<and> (\<exists>sk. drbg_sk ctx = ctr_class_init cls sk (fst st)) \<and> length (fst st) = 16
    \<and> drbg_cc ctx = word_of_nat (snd st) \<and> snd st < 32768"

lemma run_block:
  assumes "length key = 16 \<or> length key = 32" "length iv = 12" "length d = 16"
  shows "snd (ctr_class_run cls (ctr_class_init cls sk key) iv cc d) = map2 (XOR) (E key (iv @ br_enc32be cc)) d"
  using assms by (auto simp: class_run length_E xor.commute intro!: nth_equalityI)

lemma hirose_round_spec:
  assumes "length G = 16" "length H = 16" "length m = 16"
  shows "\<exists>sk'. hirose_round cls m (sk, G, H) = (sk', hirose_spec E (G, H) m)"
    and "length (fst (hirose_spec E (G, H) m)) = 16" "length (snd (hirose_spec E (G, H) m)) = 16"
proof -
  have g: "take 12 G @ br_enc32be (br_dec32be (drop 12 G)) = G"
    using assms(1) be32.enc_dec [of "drop 12 G"] by simp
  have u: "(take 12 G)[0 := take 12 G ! 0 XOR 1] = take 12 (G[0 := G ! 0 XOR 1])" "drop 12 G = drop 12 (G[0 := G ! 0 XOR 1])"
    using assms(1) by (simp_all add: take_update_swap)
  have g1: "(take 12 G)[0 := take 12 G ! 0 XOR 1] @ br_enc32be (br_dec32be (drop 12 G)) = G[0 := G ! 0 XOR 1]"
    unfolding u using assms(1) be32.enc_dec [of "drop 12 (G[0 := G ! 0 XOR 1])"]
    by (simp add: append_take_drop_id del: drop_update_cancel)
  have k: "length (H @ m) = 16 \<or> length (H @ m) = 32" using assms by simp
  have "length (take 12 G) = 12" "length ((take 12 G)[0 := take 12 G ! 0 XOR 1]) = 12" "length (G[0 := G ! 0 XOR 1]) = 16" using assms by simp_all
  note r = run_block [OF k this(1) assms(1), of sk "br_dec32be (drop 12 G)", unfolded g]
    run_block [OF k this(2,3), of sk "br_dec32be (drop 12 G)", unfolded g1]
  show "\<exists>sk'. hirose_round cls m (sk, G, H) = (sk', hirose_spec E (G, H) m)"
    using r by (auto simp: hirose_round_def hirose_spec_def Let_def split: prod.split)
  show "length (fst (hirose_spec E (G, H) m)) = 16" "length (snd (hirose_spec E (G, H) m)) = 16"
    using assms by (simp_all add: hirose_spec_def Let_def length_E)
qed

lemma hirose_loop_spec:
  assumes "length G = 16" "length H = 16"
  shows "\<exists>sk'. hirose_loop cls seed (sk, G, H) = (sk', foldl (hirose_spec E) (G, H) (chunks 16 (pad16 seed)))"
  using assms
proof (induction "length seed" arbitrary: seed sk G H rule: less_induct)
  case less
  show ?case
  proof (cases "seed = []")
    case True
    then show ?thesis by (subst hirose_loop.simps) (simp add: pad16_def)
  next
    case False
    define m where "m = take 16 seed @ replicate (16 - length seed) 0"
    have m: "length m = 16" using False by (simp add: m_def min_def)
    have cl: "(if length seed < 16 then length seed else 16) = min (length seed) 16" by simp
    have step: "hirose_loop cls seed (sk, G, H) = hirose_loop cls (drop 16 seed) (hirose_round cls m (sk, G, H))"
      using False by (subst hirose_loop.simps) (simp add: Let_def m_def not_less)
    obtain sk' where r: "hirose_round cls m (sk, G, H) = (sk', hirose_spec E (G, H) m)"
      using hirose_round_spec(1) [OF less.prems m] by blast
    obtain G' H' where gh: "hirose_spec E (G, H) m = (G', H')" by (cases "hirose_spec E (G, H) m")
    have l: "length G' = 16" "length H' = 16" using hirose_round_spec(2,3) [OF less.prems m] by (simp_all add: gh)
    have "length (drop 16 seed) < length seed" using False by simp
    from less.hyps [OF this l, of sk'] obtain sk'' where
      ih: "hirose_loop cls (drop 16 seed) (sk', G', H') = (sk'', foldl (hirose_spec E) (G', H') (chunks 16 (pad16 (drop 16 seed))))" by blast
    have "pad16 seed = m @ pad16 (drop 16 seed)"
    proof (cases "16 \<le> length seed")
      case True
      then have "(length seed - 16) mod 16 = length seed mod 16" by (simp add: le_mod_geq)
      then show ?thesis using True by (simp add: pad16_def m_def)
    next
      case l: False
      then have "(16 - length seed mod 16) mod 16 = 16 - length seed" using False by simp
      then show ?thesis using l by (simp add: pad16_def m_def)
    qed
    then have "chunks 16 (pad16 seed) = m # chunks 16 (pad16 (drop 16 seed))" by (simp add: chunks_append m)
    then show ?thesis unfolding step r gh ih by (simp add: gh)
  qed
qed

lemma keyed_update:
  assumes "keyed ctx (k, c)"
  shows "keyed (br_aesctr_drbg_update ctx seed) (rekey_spec E k seed, 0)"
proof -
  obtain sk where k: "drbg_class ctx = cls" "drbg_sk ctx = ctr_class_init cls sk k" "length k = 16" using assms by (auto simp: keyed_def)
  define s where "s = E k (replicate 16 0xFF)"
  have ones: "replicate 12 0xFF @ br_enc32be 0xFFFFFFFF = replicate 16 0xFF" by code_simp
  have x: "map2 (XOR) v (replicate 16 0) = v" if "length v = 16" for v :: bytes
    using that by (intro nth_equalityI) simp_all
  have ls: "length s = 16" by (simp add: s_def length_E)
  have s: "snd (ctr_class_run cls (ctr_class_init cls sk k) (replicate 12 0xFF) 0xFFFFFFFF (replicate 16 0)) = s"
    using run_block [of k "replicate 12 0xFF" "replicate 16 0" sk "0xFFFFFFFF"] k(3) ls by (simp add: ones x s_def)
  have g0: "length (replicate 16 (0xB6 :: u8)) = 16" "length (replicate 16 (0x5A :: u8)) = 16" by simp_all
  obtain sk1 where r: "hirose_round cls s (drbg_sk ctx, replicate 16 0xB6, replicate 16 0x5A) = (sk1, hirose_spec E (replicate 16 0xB6, replicate 16 0x5A) s)"
    using hirose_round_spec(1) [OF g0 ls] by blast
  obtain G H where gh: "hirose_spec E (replicate 16 0xB6, replicate 16 0x5A) s = (G, H)" by (cases "hirose_spec E (replicate 16 0xB6, replicate 16 0x5A) s")
  have l: "length G = 16" "length H = 16" using hirose_round_spec(2,3) [OF g0 ls] by (simp_all add: gh)
  obtain sk2 where lp: "hirose_loop cls seed (sk1, G, H) = (sk2, foldl (hirose_spec E) (G, H) (chunks 16 (pad16 seed)))"
    using hirose_loop_spec [OF l] by blast
  have len: "length (snd (foldl (hirose_spec E) (G, H) ms)) = 16" if "length G = 16" "length H = 16" "\<And>m. m \<in> set ms \<Longrightarrow> length m = 16" for G H ms
    using that
  proof (induction ms arbitrary: G H)
    case (Cons m ms)
    then show ?case using hirose_round_spec(2,3) [OF Cons.prems(1,2), of m] by (cases "hirose_spec E (G, H) m") simp
  qed simp
  have "16 dvd length (pad16 seed)" by (rule dvd_pad16)
  then have ch: "length m = 16" if "m \<in> set (chunks 16 (pad16 seed))" for m using chunks_lengths [OF _ _ that] by simp
  have rk: "rekey_spec E k seed = snd (foldl (hirose_spec E) (G, H) (chunks 16 (pad16 seed)))"
    by (simp add: rekey_spec_def s_def [symmetric] gh)
  have "br_aesctr_drbg_update ctx seed = ctx\<lparr>drbg_sk := ctr_class_init cls sk2 (rekey_spec E k seed), drbg_cc := 0\<rparr>"
    using s r lp unfolding br_aesctr_drbg_update_def Let_def k(1) rk
    by (simp add: k(2) gh split_beta)
  then show ?thesis using len [OF l ch] by (auto simp: keyed_def k(1) rk)
qed

lemma run_zeros:
  assumes "length k = 16"
  shows "ctr_class_run cls (ctr_class_init cls sk k) (replicate 12 0) (word_of_nat c) (replicate (16 * j) 0) =
    (word_of_nat (c + j), concat (map (\<lambda>i. E k (replicate 12 0 @ br_enc32be (word_of_nat (c + i)))) [0..<j]))"
proof -
  have "concat (map (\<lambda>i. E k (replicate 12 0 @ br_enc32be (word_of_nat (c + i)))) [0..<j]) =
      map (\<lambda>n. E k (replicate 12 0 @ br_enc32be (word_of_nat (c + n div 16))) ! (n mod 16)) [0..<16 * j]"
  proof (induction j)
    case (Suc j)
    have "[0..<16 * Suc j] = [0..<16 * j] @ map (\<lambda>i. 16 * j + i) [0..<16]"
      using upt_add_eq_append [of 0 "16 * j" 16] by (simp add: map_add_upt add.commute)
    moreover have "map (\<lambda>n. E k (replicate 12 0 @ br_enc32be (word_of_nat (c + n div 16))) ! (n mod 16)) (map (\<lambda>i. 16 * j + i) [0..<16])
        = E k (replicate 12 0 @ br_enc32be (word_of_nat (c + j)))"
      by (intro nth_equalityI) (simp_all add: length_E)
    ultimately show ?case using Suc by simp
  qed simp
  then show ?thesis using assms by (simp add: class_run)
qed

lemma stream_run:
  assumes "c + j \<le> 32768" "0 < j"
  shows "drbg_stream E (k, c) j = (concat (map (\<lambda>i. E k (replicate 12 0 @ br_enc32be (word_of_nat (c + i)))) [0..<j]),
    if c + j \<ge> 32768 then (rekey_spec E k [], 0) else (k, c + j))"
  using assms
proof (induction j arbitrary: c)
  case (Suc j)
  have m: "map (\<lambda>i. f (c + i)) [0..<Suc j] = f c # map (\<lambda>i. f (Suc c + i)) [0..<j]" for f :: "nat \<Rightarrow> bytes"
    unfolding upt_conv_Cons [OF zero_less_Suc] list.map map_Suc_upt [symmetric] map_map by simp
  show ?case
  proof (cases "j = 0")
    case True
    then show ?thesis using Suc.prems by (simp add: drbg_next_def Let_def)
  next
    case False
    then have "drbg_stream E (k, Suc c) j = (concat (map (\<lambda>i. E k (replicate 12 0 @ br_enc32be (word_of_nat (Suc c + i)))) [0..<j]),
      if Suc c + j \<ge> 32768 then (rekey_spec E k [], 0) else (k, Suc c + j))" using Suc.IH [of "Suc c"] Suc.prems by simp
    then show ?thesis using False Suc.prems
      unfolding drbg_stream.simps m [of "\<lambda>n. E k (replicate 12 0 @ br_enc32be (word_of_nat n))"]
      by (simp add: drbg_next_def Let_def)
  qed
qed simp

lemma clen_spec:
  assumes "c < 32768" "16 dvd len" "0 < len"
  obtains j where "aesctr_clen (word_of_nat c) len = 16 * j" "0 < j" "c + j \<le> 32768" "16 * j \<le> len"
proof -
  obtain n where n: "len = 16 * n" "0 < n" using assms(2,3) by (auto elim!: dvdE)
  define l where "l = (if len > 65280 then 65280 else len)"
  define q where "q = min 4080 n"
  have lq: "l = 16 * q" "0 < q" "q \<le> n" "q \<le> 4080" using n by (auto simp: l_def q_def)
  have up: "(l + 15) div 16 = q" using lq by simp
  have uc: "unat (word_of_nat c :: u32) = c" using assms(1) by (simp add: unsigned_of_nat take_bit_eq_mod)
  have big: "(word_of_nat (c + q) :: u32) > 32768 \<longleftrightarrow> c + q > 32768"
    using assms(1) lq(4) by (simp add: word_less_nat_alt unsigned_of_nat take_bit_eq_mod del: of_nat_add)
  have rest: "unat (push_bit 4 (32768 - word_of_nat c) :: u32) = 16 * (32768 - c)"
  proof -
    have "32768 - word_of_nat c = (word_of_nat (32768 - c) :: u32)" using assms(1) by (simp add: of_nat_diff)
    then have "push_bit 4 (32768 - word_of_nat c) = (word_of_nat (16 * (32768 - c)) :: u32)" by (simp add: push_bit_eq_mult)
    then show ?thesis by (simp add: unsigned_of_nat take_bit_eq_mod del: of_nat_mult)
  qed
  have cl: "aesctr_clen (word_of_nat c) len = (if c + q > 32768 then min (16 * (32768 - c)) len else l)"
    unfolding aesctr_clen_def l_def [symmetric] Let_def up uc rest using big by (simp add: min_def)
  show ?thesis
  proof (cases "c + q > 32768")
    case True
    then have "16 * (32768 - c) \<le> len" using lq(3) n assms(1) by simp
    then show ?thesis using that [of "32768 - c"] True assms(1) cl by (simp add: min_def)
  next
    case False
    then show ?thesis using that [of q] cl lq n by simp
  qed
qed

lemma generate_stream:
  assumes "keyed ctx st" "16 dvd len"
  shows "\<exists>ctx'. br_aesctr_drbg_generate ctx len = Some (ctx', fst (drbg_stream E st (len div 16))) \<and> keyed ctx' (snd (drbg_stream E st (len div 16)))"
  using assms
proof (induction len arbitrary: ctx st rule: less_induct)
  case (less len)
  show ?case
  proof (cases "len = 0")
    case True
    then show ?thesis using less.prems by (subst br_aesctr_drbg_generate.simps) simp
  next
    case False
    obtain k c where st: "st = (k, c)" by (cases st)
    obtain sk where k: "drbg_class ctx = cls" "drbg_sk ctx = ctr_class_init cls sk k" "length k = 16" "drbg_cc ctx = word_of_nat c" "c < 32768"
      using less.prems(1) by (auto simp: keyed_def st)
    obtain j where j: "aesctr_clen (word_of_nat c) len = 16 * j" "0 < j" "c + j \<le> 32768" "16 * j \<le> len"
      by (rule clen_spec [OF k(5) less.prems(2)]) (use False in auto)
    define ctx1 where "ctx1 = (if c + j \<ge> 32768 then br_aesctr_drbg_update (ctx\<lparr>drbg_cc := word_of_nat (c + j)\<rparr>) [] else ctx\<lparr>drbg_cc := word_of_nat (c + j)\<rparr>)"
    have ge: "(32768 :: u32) \<le> word_of_nat (c + j) \<longleftrightarrow> c + j \<ge> 32768"
      using j(3) by (simp add: word_le_nat_alt unsigned_of_nat take_bit_eq_mod del: of_nat_add)
    have up: "keyed (br_aesctr_drbg_update (ctx\<lparr>drbg_cc := x\<rparr>) []) (rekey_spec E k [], 0)" for x
    proof -
      have "br_aesctr_drbg_update (ctx\<lparr>drbg_cc := x\<rparr>) [] = br_aesctr_drbg_update (ctx\<lparr>drbg_cc := word_of_nat 0\<rparr>) []"
        by (simp add: br_aesctr_drbg_update_def Let_def split_beta)
      moreover have "keyed (ctx\<lparr>drbg_cc := word_of_nat 0\<rparr>) (k, 0)" using k by (auto simp: keyed_def)
      ultimately show ?thesis using keyed_update by metis
    qed
    note sr = stream_run [OF j(3,2), of k]
    have k1: "keyed ctx1 (snd (drbg_stream E (k, c) j))"
      unfolding sr ctx1_def using up k j(3) by (auto simp: keyed_def)
    have "len - 16 * j < len" "16 dvd len - 16 * j" using j(2,4) less.prems(2) False by (auto intro: dvd_diff_nat)
    from less.IH [OF this(1) k1 this(2)] obtain ctx2 where
      ih: "br_aesctr_drbg_generate ctx1 (len - 16 * j) = Some (ctx2, fst (drbg_stream E (snd (drbg_stream E (k, c) j)) ((len - 16 * j) div 16)))"
      "keyed ctx2 (snd (drbg_stream E (snd (drbg_stream E (k, c) j)) ((len - 16 * j) div 16)))" by blast
    have "(len - 16 * j) div 16 = len div 16 - j" using j(4) less.prems(2) by (auto elim!: dvdE)
    moreover have "j \<le> len div 16" using j(4) by simp
    ultimately have ad: "drbg_stream E (k, c) (len div 16) = (let (a, s) = drbg_stream E (k, c) j; (b, s) = drbg_stream E s ((len - 16 * j) div 16) in (a @ b, s))"
      using drbg_stream_add [of E "(k, c)" j "len div 16 - j"] by simp
    have run: "br_aesctr_drbg_generate ctx len = Option.bind (br_aesctr_drbg_generate ctx1 (len - 16 * j)) (\<lambda>(c', out). Some (c', fst (drbg_stream E (k, c) j) @ out))"
      unfolding br_aesctr_drbg_generate.simps [of ctx len] using False run_zeros [OF k(3), of sk c j]
      by (simp add: Let_def k(1,2,4) j(1) sr ctx1_def ge del: of_nat_add)
    show ?thesis unfolding run ih(1) st ad using ih(2) by (simp add: Let_def split_beta)
  qed
qed

end

text \<open>The AES-NI class meets the contract.\<close>

interpretation aesni_class: ctr_class "br_aes_x86ni_ctr_vtable junk u" aes_cipher
proof unfold_locales
  show "length (aes_cipher key b) = 16" for key b by simp
  show "ctr_class_run (br_aes_x86ni_ctr_vtable junk u) (ctr_class_init (br_aes_x86ni_ctr_vtable junk u) sk key) iv cc d =
      (cc + of_nat (length d div 16), map (\<lambda>n. d ! n XOR aes_cipher key (iv @ br_enc32be (cc + of_nat (n div 16))) ! (n mod 16)) [0..<length d])"
    if "length key = 16 \<or> length key = 32" "length iv = 12" for key iv sk cc d
  proof -
    have k: "length key = 16 \<or> length key = 24 \<or> length key = 32" using that(1) by blast
    show ?thesis unfolding br_aes_x86ni_ctr_vtable_def br_block_ctr_class.select_convs ctr_run_eq [OF k that(2)]
      by (auto intro!: nth_equalityI simp: nth_ctr_xor ks_at_def)
  qed
qed

lemma init_keyed:
  "aesni_class.keyed junk u (br_aesctr_drbg_init ctx (br_aes_x86ni_ctr_vtable junk u) seed) (rekey_spec aes_cipher (replicate 16 0) seed, 0)"
proof -
  define c where "c = ctx\<lparr>drbg_class := br_aes_x86ni_ctr_vtable junk u,
    drbg_sk := ctr_class_init (br_aes_x86ni_ctr_vtable junk u) (drbg_sk ctx) (replicate 16 0), drbg_cc := 0\<rparr>"
  have "aesni_class.keyed junk u c (replicate 16 0, 0)" by (auto simp: aesni_class.keyed_def c_def)
  from aesni_class.keyed_update [OF this, of seed] show ?thesis
    by (simp add: br_aesctr_drbg_init_def Let_def c_def)
qed

section \<open>Properties\<close>

text \<open>(C20) Over AES-NI, from any seed: requests that are multiples of 16 bytes return, and the first yields the
  AES-128 counter blocks under the hashed seed, with a new key after every 32768 blocks; a second
  request continues the stream where the first one ended.\<close>

theorem aesctr_drbg_blocks:
  assumes "16 dvd n1" "16 dvd n2"
  shows "\<exists>c1 o1 c2 o2. br_aesctr_drbg_generate (br_aesctr_drbg_init ctx (br_aes_x86ni_ctr_vtable junk u) seed) n1 = Some (c1, o1)
    \<and> br_aesctr_drbg_generate c1 n2 = Some (c2, o2)
    \<and> o1 @ o2 = fst (drbg_stream aes_cipher (rekey_spec aes_cipher (replicate 16 0) seed, 0) ((n1 + n2) div 16))"
proof -
  let ?st = "(rekey_spec aes_cipher (replicate 16 0) seed, 0)"
  obtain c1 where c1: "br_aesctr_drbg_generate (br_aesctr_drbg_init ctx (br_aes_x86ni_ctr_vtable junk u) seed) n1 =
      Some (c1, fst (drbg_stream aes_cipher ?st (n1 div 16)))" "aesni_class.keyed junk u c1 (snd (drbg_stream aes_cipher ?st (n1 div 16)))"
    using aesni_class.generate_stream [OF init_keyed assms(1)] by blast
  obtain c2 where c2: "br_aesctr_drbg_generate c1 n2 = Some (c2, fst (drbg_stream aes_cipher (snd (drbg_stream aes_cipher ?st (n1 div 16))) (n2 div 16)))"
    using aesni_class.generate_stream [OF c1(2) assms(2)] by blast
  have "(n1 + n2) div 16 = n1 div 16 + n2 div 16" using assms(1) by (rule div_plus_div_distrib_dvd_left)
  then show ?thesis using c1(1) c2 by (auto simp: drbg_stream_add Let_def split_beta)
qed

definition idle_drbg :: "br_aes_x86ni_ctr_keys br_aesctr_drbg_context" where
  "idle_drbg = \<lparr>drbg_class = br_aes_x86ni_ctr_vtable (\<lambda>i. 1) (\<lambda>i. 2), drbg_sk = idle_keys, drbg_cc = 7\<rparr>"

theorem aesctr_drbg_blocks_witness:
  "\<exists>c1 o1 c2 o2. br_aesctr_drbg_generate (br_aesctr_drbg_init idle_drbg (br_aes_x86ni_ctr_vtable (\<lambda>i. 1) (\<lambda>i. 2)) [1, 2, 3]) 4096 = Some (c1, o1)
    \<and> br_aesctr_drbg_generate c1 (16 * 70000) = Some (c2, o2)
    \<and> o1 @ o2 = fst (drbg_stream aes_cipher (rekey_spec aes_cipher (replicate 16 0) [1, 2, 3], 0) ((4096 + 16 * 70000) div 16))"
  by (rule aesctr_drbg_blocks) simp_all

text \<open>(C36) A request of fewer than 16 bytes leaves the generator unchanged, in every state with a key and a counter below
  the limit at which the key is replaced: it returns the first bytes of the next block and does not count the block, so
  that the next request starts with the same bytes, and two requests of 8 bytes return the same 8 bytes.\<close>

theorem aesctr_drbg_short_repeats:
  assumes c: "drbg_class c = br_aes_x86ni_ctr_vtable junk u" "drbg_sk c = ctr_class_init (br_aes_x86ni_ctr_vtable junk u) sk k"
    "length k = 16" "drbg_cc c < 32768" and n: "n < 16"
  shows "br_aesctr_drbg_generate c n = Some (c, take n (aes_cipher k (replicate 12 0 @ br_enc32be (drbg_cc c))))"
proof (cases "n = 0")
  case True
  then show ?thesis by (subst br_aesctr_drbg_generate.simps) simp
next
  case False
  have cc: "unat (drbg_cc c) < 32768" using c(4) by (simp add: word_less_nat_alt)
  moreover have "(n + 15) div 16 \<le> 1" using n by simp
  ultimately have x: "unat (drbg_cc c) + (n + 15) div 16 \<le> 32768" by linarith
  have "word_of_nat x \<le> (32768 :: u32)" if "x \<le> 32768" for x
    using that by (simp add: word_le_nat_alt unsigned_of_nat take_bit_eq_mod)
  from this [OF x] have "\<not> (word_of_nat (unat (drbg_cc c) + (n + 15) div 16) :: u32) > 32768" by (simp only: not_less)
  then have cl: "aesctr_clen (drbg_cc c) n = n" unfolding aesctr_clen_def Let_def using n by (simp del: of_nat_add)
  have i: "length k = 16 \<or> length k = 32" "length (replicate 12 (0 :: u8)) = 12" using c(3) by simp_all
  have r: "ctr_class_run (drbg_class c) (drbg_sk c) (replicate 12 0) (drbg_cc c) (replicate n 0)
      = (drbg_cc c, take n (aes_cipher k (replicate 12 0 @ br_enc32be (drbg_cc c))))"
    unfolding c(1,2) aesni_class.class_run [OF i] using n by (auto intro!: nth_equalityI)
  have z: "br_aesctr_drbg_generate c 0 = Some (c, [])" by (subst br_aesctr_drbg_generate.simps) simp
  show ?thesis using False c(4) by (subst br_aesctr_drbg_generate.simps) (auto simp: cl r z Let_def dest: leD)
qed

theorem aesctr_drbg_short_repeats_witness:
  "\<exists>out. br_aesctr_drbg_generate \<lparr>drbg_class = br_aes_x86ni_ctr_vtable (\<lambda>i. 1) (\<lambda>i. 2),
      drbg_sk = ctr_class_init (br_aes_x86ni_ctr_vtable (\<lambda>i. 1) (\<lambda>i. 2)) idle_keys (replicate 16 3), drbg_cc = 32767\<rparr> 8
    = Some (\<lparr>drbg_class = br_aes_x86ni_ctr_vtable (\<lambda>i. 1) (\<lambda>i. 2),
      drbg_sk = ctr_class_init (br_aes_x86ni_ctr_vtable (\<lambda>i. 1) (\<lambda>i. 2)) idle_keys (replicate 16 3), drbg_cc = 32767\<rparr>, out)
    \<and> out = take 8 (aes_cipher (replicate 16 3) (replicate 12 0 @ br_enc32be 32767))"
  using aesctr_drbg_short_repeats [of "\<lparr>drbg_class = br_aes_x86ni_ctr_vtable (\<lambda>i. 1) (\<lambda>i. 2),
      drbg_sk = ctr_class_init (br_aes_x86ni_ctr_vtable (\<lambda>i. 1) (\<lambda>i. 2)) idle_keys (replicate 16 3), drbg_cc = 32767\<rparr>" "\<lambda>i. 1" "\<lambda>i. 2" idle_keys "replicate 16 3" 8]
  by simp

end
