(* ===== verification/Encutils.thy ===== *)
theory Encutils
  imports Aead Aesctr_Drbg
begin

text \<open>
  The encryption helpers and the random generator of the sorting library in enclave mode
  (\<open>common/encutils.cpp\<close>, \<open>common/encrypted.hpp\<close>): pages are encrypted with AES-GCM, and random
  numbers come from a 4096-byte buffer that AESCTR_DRBG refills.  The constant key has 16 bytes
  although 32 are read; the bytes behind it in memory are the argument \<open>beyond\<close>.  The tag of a page
  is a buffer of \<open>AES_BLOCK_SIZE\<close> bytes, which is 32 here; the mode writes and checks 16 of them.
\<close>

section \<open>Encryption\<close>

definition AES_BLOCK_SIZE :: nat where "AES_BLOCK_SIZE = 32"

definition enc_gcm_run :: "stack_mem \<Rightarrow> bool \<Rightarrow> bytes option \<Rightarrow> bytes option \<Rightarrow> u32 \<Rightarrow> bytes option \<Rightarrow> bytes option
    \<Rightarrow> bytes option \<Rightarrow> u32 \<Rightarrow> bytes option \<Rightarrow> sgx_status \<times> bytes option \<times> bytes option" where
  "enc_gcm_run m encrypt p_key p_src src_len p_dst p_iv p_aad aad_len p_mac =
    (if p_key = None \<or> (p_src = None \<or> p_dst = None) \<and> src_len \<noteq> 0 \<or> p_iv = None \<or> p_aad = None \<and> aad_len \<noteq> 0 \<or> p_mac = None
     then (SGX_ERROR_INVALID_PARAMETER, p_dst, p_mac)
     else
       let aes_ctx = br_aes_x86ni_ctr_init (sm_regs m) (sm_aes m) (take SGXSD_AES_GCM_KEY_SIZE (the p_key));
           ctx = br_gcm_init (sm_gcm m) (br_aes_x86ni_ctr_run (sm_ivbuf m) aes_ctx) br_ghash_pclmul;
           ctx = br_gcm_reset ctx (take SGXSD_AES_GCM_IV_SIZE (the p_iv));
           ctx = (if aad_len \<noteq> 0 then br_gcm_aad_inject ctx (take (unat aad_len) (the p_aad)) else ctx);
           ctx = br_gcm_flip ctx;
           (ctx, p_dst) =
             (if src_len \<noteq> 0
              then let dst = memcpy (the p_dst) 0 (take (unat src_len) (the p_src));
                       (ctx, d) = br_gcm_run ctx encrypt (take (unat src_len) dst)
                   in (ctx, Some (memcpy dst 0 d))
              else (ctx, p_dst));
           (p_mac, tag_res) =
             (if encrypt then (Some (memcpy (the p_mac) 0 (snd (br_gcm_get_tag ctx))), True)
              else (p_mac, snd (br_gcm_check_tag ctx (the p_mac)) \<noteq> 0))
       in if tag_res then (SGX_SUCCESS, p_dst, p_mac)
          else (SGX_ERROR_MAC_MISMATCH, map_option (\<lambda>dst. memset dst 0 0 (unat src_len)) p_dst, p_mac))"

text \<open>The sizes are 64-bit numbers that the calls narrow to 32 bits.  The results are the tag and the
  output buffer.\<close>

definition aes_256_gcm_encrypt :: "stack_mem \<Rightarrow> u64 \<Rightarrow> bytes \<Rightarrow> bytes \<Rightarrow> bytes \<Rightarrow> bytes \<Rightarrow> bytes \<Rightarrow> bytes \<times> bytes" where
  "aes_256_gcm_encrypt m plaintextSize plaintext key iv tag ciphertext =
    (let (_, c, t) = enc_gcm_run m True (Some key) (Some plaintext) (ucast plaintextSize) (Some ciphertext) (Some iv) None 0 (Some tag)
     in (the t, the c))"

definition aes_256_gcm_decrypt :: "stack_mem \<Rightarrow> u64 \<Rightarrow> bytes \<Rightarrow> bytes \<Rightarrow> bytes \<Rightarrow> bytes \<Rightarrow> bytes \<Rightarrow> bool \<times> bytes" where
  "aes_256_gcm_decrypt m ciphertextSize ciphertext key iv tag plaintext =
    (let (res, p, _) = enc_gcm_run m False (Some key) (Some ciphertext) (ucast ciphertextSize) (Some plaintext) (Some iv) None 0 (Some tag)
     in (res = SGX_SUCCESS, the p))"

definition sgxsd_aes_ctr_run :: "stack_mem \<Rightarrow> bool \<Rightarrow> bytes option \<Rightarrow> bytes option \<Rightarrow> u32 \<Rightarrow> bytes option \<Rightarrow> bytes option \<Rightarrow> sgx_status \<times> bytes option" where
  "sgxsd_aes_ctr_run m encrypt p_key p_src src_len p_dst p_iv =
    (if p_key = None \<or> (p_src = None \<or> p_dst = None) \<and> src_len \<noteq> 0 \<or> p_iv = None then (SGX_ERROR_INVALID_PARAMETER, p_dst)
     else
       let aes_ctx = br_aes_x86ni_ctr_init (sm_regs m) (sm_aes m) (take SGXSD_AES_GCM_KEY_SIZE (the p_key))
       in if src_len \<noteq> 0
          then let dst = memcpy (the p_dst) 0 (take (unat src_len) (the p_src));
                   (_, d) = br_aes_x86ni_ctr_run (sm_ivbuf m) aes_ctx (take 12 (the p_iv)) 0 (take (unat src_len) dst)
               in (SGX_SUCCESS, Some (memcpy dst 0 d))
          else (SGX_SUCCESS, p_dst))"

definition aes_256_ctr_encrypt :: "stack_mem \<Rightarrow> u64 \<Rightarrow> bytes \<Rightarrow> bytes \<Rightarrow> bytes \<Rightarrow> bytes \<Rightarrow> bytes" where
  "aes_256_ctr_encrypt m plaintextSize plaintext key iv ciphertext =
    the (snd (sgxsd_aes_ctr_run m True (Some key) (Some plaintext) (ucast plaintextSize) (Some ciphertext) (Some iv)))"

definition aes_256_ctr_decrypt :: "stack_mem \<Rightarrow> u64 \<Rightarrow> bytes \<Rightarrow> bytes \<Rightarrow> bytes \<Rightarrow> bytes \<Rightarrow> bool \<times> bytes" where
  "aes_256_ctr_decrypt m ciphertextSize ciphertext key iv plaintext =
    (let (res, p) = sgxsd_aes_ctr_run m False (Some key) (Some ciphertext) (ucast ciphertextSize) (Some plaintext) (Some iv)
     in (res = SGX_SUCCESS, the p))"

definition KEY :: bytes where "KEY = replicate 16 0x41"

text \<open>The structure \<open>FreshEncrypted\<close>, for the image of a value in memory; a failed authentication aborts.
  The field \<open>tag\<close> has \<open>AES_BLOCK_SIZE\<close> bytes; the encryption keeps what the second half held before.\<close>

record FreshEncrypted =
  fe_data :: bytes
  fe_tag :: bytes

definition FreshEncrypted_Encrypt :: "stack_mem \<Rightarrow> bytes \<Rightarrow> FreshEncrypted \<Rightarrow> bytes \<Rightarrow> bytes \<Rightarrow> FreshEncrypted" where
  "FreshEncrypted_Encrypt m beyond x inp iv =
    (let (tag, dat) = aes_256_gcm_encrypt m (word_of_nat (length inp)) inp (KEY @ beyond) iv (fe_tag x) (fe_data x)
     in x\<lparr>fe_data := dat, fe_tag := tag\<rparr>)"

definition FreshEncrypted_Decrypt :: "stack_mem \<Rightarrow> bytes \<Rightarrow> FreshEncrypted \<Rightarrow> bytes \<Rightarrow> bytes \<Rightarrow> bytes option" where
  "FreshEncrypted_Decrypt m beyond x out iv =
    (let (r, out) = aes_256_gcm_decrypt m (word_of_nat (length out)) (fe_data x) (KEY @ beyond) iv (fe_tag x) out
     in if \<not> r then None else Some out)"

section \<open>Random numbers\<close>

record RandGen =
  rg_ctx :: "br_aes_x86ni_ctr_keys br_aesctr_drbg_context"
  rg_idx :: nat
  rg_buffer :: bytes

definition RandGen_init :: "(nat \<Rightarrow> u8) \<Rightarrow> (nat \<Rightarrow> u128) \<Rightarrow> RandGen \<Rightarrow> u64 \<Rightarrow> RandGen option" where
  "RandGen_init junk u g seed =
    Option.bind (br_aesctr_drbg_generate (br_aesctr_drbg_init (rg_ctx g) (br_aes_x86ni_ctr_vtable junk u) (br_enc64le seed)) 4096)
      (\<lambda>(ctx, buf). Some (g\<lparr>rg_ctx := ctx, rg_idx := 0, rg_buffer := buf\<rparr>))"

definition RandGen_refill :: "RandGen \<Rightarrow> RandGen option" where
  "RandGen_refill g = Option.bind (br_aesctr_drbg_generate (rg_ctx g) 4096) (\<lambda>(ctx, buf). Some (g\<lparr>rg_ctx := ctx, rg_buffer := buf, rg_idx := 0\<rparr>))"

definition rand64 :: "RandGen \<Rightarrow> (u64 \<times> RandGen) option" where
  "rand64 g =
    Option.bind (if rg_idx g > 4088 then RandGen_refill g else Some g) (\<lambda>g.
      if rg_idx g + 8 \<le> length (rg_buffer g)
      then Some (br_dec64le (drop (rg_idx g) (rg_buffer g)), g\<lparr>rg_idx := rg_idx g + 8\<rparr>) else None)"

definition rand32 :: "RandGen \<Rightarrow> (u32 \<times> RandGen) option" where
  "rand32 g =
    Option.bind (if rg_idx g > 4092 then RandGen_refill g else Some g) (\<lambda>g.
      if rg_idx g + 4 \<le> length (rg_buffer g)
      then Some (br_dec32le (drop (rg_idx g) (rg_buffer g)), g\<lparr>rg_idx := rg_idx g + 4\<rparr>) else None)"

definition rand1 :: "RandGen \<Rightarrow> (u8 \<times> RandGen) option" where
  "rand1 g =
    Option.bind (if rg_idx g > 4095 then RandGen_refill g else Some g) (\<lambda>g.
      if rg_idx g + 1 \<le> length (rg_buffer g)
      then Some (rg_buffer g ! rg_idx g AND 1, g\<lparr>rg_idx := rg_idx g + 1\<rparr>) else None)"

section \<open>The two copies of the authenticated encryption agree\<close>

text \<open>The copy of \<open>sgxsd_aes_gcm_run\<close> in the sorting library computes the same as the one of the enclave
  service, so that what one encrypts the other decrypts.\<close>

theorem gcm_copies_agree:
  "enc_gcm_run m encrypt p_key p_src src_len p_dst p_iv p_aad aad_len p_mac
    = sgxsd_aes_gcm_run m encrypt p_key p_src src_len p_dst p_iv p_aad aad_len p_mac"
  unfolding enc_gcm_run_def sgxsd_aes_gcm_run_def by (rule refl)

lemma enc_gcm_session:
  assumes "stack_ok m" "length key = 32" "length iv = 12" "16 \<le> length mac" "length dst = length src" "length src < 2 ^ 32"
  shows "enc_gcm_run m enc (Some key) (Some src) (ucast (word_of_nat (length src) :: u64)) (Some dst) (Some iv) None 0 (Some mac) =
    (if enc then (SGX_SUCCESS, Some (gcm_cipher key iv src), Some (gcm_mac key iv [] (gcm_cipher key iv src) @ drop 16 mac))
     else if take 16 mac = gcm_mac key iv [] src then (SGX_SUCCESS, Some (gcm_cipher key iv src), Some mac)
     else (SGX_ERROR_MAC_MISMATCH, Some (replicate (length src) 0), Some mac))"
proof -
  have "unat (ucast (word_of_nat (length src) :: u64) :: u32) = length src"
    using assms(6) by (simp add: unsigned_ucast_eq unsigned_of_nat take_bit_eq_mod)
  moreover have "enc_gcm_run m enc (Some key) (Some src) n (Some dst) (Some iv) None 0 (Some mac)
      = sgxsd_aes_gcm_run m enc (Some key) (Some src) n (Some dst) (Some iv) (Some []) 0 (Some mac)" for n
    unfolding enc_gcm_run_def sgxsd_aes_gcm_run_def by simp
  ultimately show ?thesis
    using aes_gcm_run_buffer [OF assms(1-5), of "ucast (word_of_nat (length src) :: u64)" 0 "[]" enc] by simp
qed

lemma FreshEncrypted_Encrypt_eq:
  assumes "stack_ok m" "length beyond = 16" "length iv = 12" "length (fe_tag x) = AES_BLOCK_SIZE" "length (fe_data x) = length page" "length page < 2 ^ 32"
  shows "FreshEncrypted_Encrypt m beyond x page iv = x\<lparr>fe_data := gcm_cipher (KEY @ beyond) iv page,
    fe_tag := gcm_mac (KEY @ beyond) iv [] (gcm_cipher (KEY @ beyond) iv page) @ drop 16 (fe_tag x)\<rparr>"
proof -
  have k: "length (KEY @ beyond) = 32" "16 \<le> length (fe_tag x)" using assms(2,4) by (simp_all add: KEY_def AES_BLOCK_SIZE_def)
  show ?thesis
    using enc_gcm_session [OF assms(1) k(1) assms(3) k(2) assms(5,6), of True] by (simp add: FreshEncrypted_Encrypt_def aes_256_gcm_encrypt_def)
qed

lemma FreshEncrypted_Decrypt_eq:
  assumes "stack_ok m" "length beyond = 16" "length iv = 12" "length (fe_tag z) = AES_BLOCK_SIZE" "length out = length (fe_data z)" "length out < 2 ^ 32"
  shows "FreshEncrypted_Decrypt m beyond z out iv =
    (if take 16 (fe_tag z) = gcm_mac (KEY @ beyond) iv [] (fe_data z) then Some (gcm_cipher (KEY @ beyond) iv (fe_data z)) else None)"
proof -
  have k: "length (KEY @ beyond) = 32" "16 \<le> length (fe_tag z)" using assms(2,4) by (simp_all add: KEY_def AES_BLOCK_SIZE_def)
  have "length (fe_data z) < 2 ^ 32" using assms(5,6) by simp
  from enc_gcm_session [OF assms(1) k(1) assms(3) k(2) assms(5) this, of False] show ?thesis
    using assms(5) by (simp add: FreshEncrypted_Decrypt_def aes_256_gcm_decrypt_def)
qed

text \<open>A page that \<open>FreshEncrypted\<close> encrypts is recovered by its decryption with the same IV; a page whose
  data or tag were replaced by anything that does not authenticate aborts instead of returning data.\<close>

lemma FreshEncrypted_roundtrip:
  assumes "stack_ok m" "stack_ok m'" "length beyond = 16" "length iv = 12" "length (fe_tag x) = AES_BLOCK_SIZE"
    and "length (fe_data x) = length page" "length out = length page" "length page < 2 ^ 32"
    and "length (fe_data y) = length page" "length (fe_tag y) = AES_BLOCK_SIZE"
  shows "FreshEncrypted_Decrypt m' beyond (FreshEncrypted_Encrypt m beyond x page iv) out iv = Some page
    \<and> FreshEncrypted_Decrypt m' beyond y out iv =
      (if take 16 (fe_tag y) = gcm_mac (KEY @ beyond) iv [] (fe_data y) then Some (gcm_cipher (KEY @ beyond) iv (fe_data y)) else None)"
  using assms by (simp add: FreshEncrypted_Encrypt_eq FreshEncrypted_Decrypt_eq AES_BLOCK_SIZE_def)

section \<open>The generator never reads beyond its buffer\<close>

definition rand_ok :: "(nat \<Rightarrow> u8) \<Rightarrow> (nat \<Rightarrow> u128) \<Rightarrow> RandGen \<Rightarrow> bool" where
  "rand_ok junk u g \<longleftrightarrow> (\<exists>st. aesni_class.keyed junk u (rg_ctx g) st) \<and> length (rg_buffer g) = 4096 \<and> rg_idx g \<le> 4096"

lemma stream_length: "length (fst (drbg_stream aes_cipher st n)) = 16 * n"
  by (induction n arbitrary: st) (simp_all add: Let_def drbg_next_def split_beta)

lemma refill_ok:
  assumes "rand_ok junk u g"
  shows "\<exists>g'. RandGen_refill g = Some g' \<and> rand_ok junk u g' \<and> rg_idx g' = 0"
proof -
  obtain st where "aesni_class.keyed junk u (rg_ctx g) st" using assms by (auto simp: rand_ok_def)
  from aesni_class.generate_stream [OF this, of 4096] obtain ctx' where
    "br_aesctr_drbg_generate (rg_ctx g) 4096 = Some (ctx', fst (drbg_stream aes_cipher st 256))"
    "aesni_class.keyed junk u ctx' (snd (drbg_stream aes_cipher st 256))" by auto
  then show ?thesis unfolding RandGen_refill_def rand_ok_def by (auto simp: stream_length intro: exI [of _ "fst (snd (drbg_stream aes_cipher st 256))"] simp del: split_paired_Ex)
qed

lemma init_rand_ok: "\<exists>g'. RandGen_init junk u g seed = Some g' \<and> rand_ok junk u g'"
  using aesni_class.generate_stream [OF init_keyed [of junk u "rg_ctx g" "br_enc64le seed"], of 4096]
  by (auto simp: RandGen_init_def rand_ok_def stream_length simp del: split_paired_Ex)

text \<open>A request for random bits.\<close>

inductive rand_request :: "RandGen \<Rightarrow> RandGen \<Rightarrow> bool" where
  "rand64 g = Some (x, g') \<Longrightarrow> rand_request g g'"
| "rand32 g = Some (y, g') \<Longrightarrow> rand_request g g'"
| "rand1 g = Some (z, g') \<Longrightarrow> rand_request g g'"

lemma requests_return:
  assumes "rand_ok junk u g"
  shows "\<exists>x g'. rand64 g = Some (x, g') \<and> rand_ok junk u g'" "\<exists>y g'. rand32 g = Some (y, g') \<and> rand_ok junk u g'"
    "\<exists>z g'. rand1 g = Some (z, g') \<and> rand_ok junk u g'"
proof -
  obtain g' where r: "RandGen_refill g = Some g'" "rand_ok junk u g'" "rg_idx g' = 0" using refill_ok [OF assms] by blast
  show "\<exists>x g'. rand64 g = Some (x, g') \<and> rand_ok junk u g'" "\<exists>y g'. rand32 g = Some (y, g') \<and> rand_ok junk u g'"
    "\<exists>z g'. rand1 g = Some (z, g') \<and> rand_ok junk u g'"
    using assms r by (auto simp: rand64_def rand32_def rand1_def rand_ok_def)
qed

text \<open>(C37) The random generator always returns: from any seed and after any sequence of requests for 64, 32 or 1
  bits, no request reads outside the buffer, and the generator stays well-formed.\<close>

theorem rand_gen_total:
  "\<exists>g0. RandGen_init junk u g seed = Some g0 \<and>
    (\<forall>g'. rand_request\<^sup>*\<^sup>* g0 g' \<longrightarrow> rand64 g' \<noteq> None \<and> rand32 g' \<noteq> None \<and> rand1 g' \<noteq> None \<and> rg_idx g' \<le> 4096 \<and> length (rg_buffer g') = 4096)"
proof -
  obtain g0 where g0: "RandGen_init junk u g seed = Some g0" "rand_ok junk u g0" using init_rand_ok by blast
  have ok: "rand_ok junk u g'" if "rand_request\<^sup>*\<^sup>* g0 g'" for g'
    using that
  proof (induction rule: rtranclp_induct)
    case (step g1 g2)
    from step.hyps(2) requests_return [OF step.IH] show ?case by cases auto
  qed (rule g0(2))
  have "rand64 g' \<noteq> None \<and> rand32 g' \<noteq> None \<and> rand1 g' \<noteq> None \<and> rg_idx g' \<le> 4096 \<and> length (rg_buffer g') = 4096"
    if "rand_request\<^sup>*\<^sup>* g0 g'" for g'
    using requests_return [OF ok [OF that]] ok [OF that] by (auto simp: rand_ok_def)
  then show ?thesis using g0(1) by blast
qed

theorem rand_gen_total_witness:
  "\<exists>g0. RandGen_init (\<lambda>i. 1) (\<lambda>i. 2) \<lparr>rg_ctx = idle_drbg, rg_idx = 0, rg_buffer = []\<rparr> 5 = Some g0 \<and> rand64 g0 \<noteq> None"
  using rand_gen_total [of "\<lambda>i. 1" "\<lambda>i. 2" "\<lparr>rg_ctx = idle_drbg, rg_idx = 0, rg_buffer = []\<rparr>" 5] by blast

end
