(* ===== verification/Sort_Network.thy ===== *)
theory Sort_Network
  imports Prelude
begin

text \<open>
  The conditional swap of the sorting code (\<open>condSwap\<close> of \<open>sort_def.hpp\<close>) on array elements, and
  the two generic arguments about networks built from it: a network permutes its input, and the
  0-1 principle reduces sorting by a key to sorting boolean lists.
\<close>

section \<open>Conditional swaps\<close>

definition condSwap :: "bool \<Rightarrow> 'a \<Rightarrow> 'a \<Rightarrow> 'a \<times> 'a" where
  "condSwap cond v1 v2 = (if cond then (v2, v1) else (v1, v2))"

text \<open>The same on the elements \<open>i\<close> and \<open>j\<close> of an array.\<close>

definition condSwapAt :: "bool \<Rightarrow> nat \<Rightarrow> nat \<Rightarrow> 'a list \<Rightarrow> 'a list" where
  "condSwapAt cond i j xs =
    (case condSwap cond (xs ! i) (xs ! j) of (a, b) \<Rightarrow> xs[i := a, j := b])"

lemma length_condSwapAt [simp, len_simps]: "length (condSwapAt c i j xs) = length xs"
  by (simp add: condSwapAt_def condSwap_def)

lemma mset_condSwapAt [simp]:
  "i < length xs \<Longrightarrow> j < length xs \<Longrightarrow> mset (condSwapAt c i j xs) = mset xs"
  by (cases "i = j") (simp_all add: condSwapAt_def condSwap_def mset_swap)

lemma nth_condSwapAt:
  "k < length xs \<Longrightarrow> condSwapAt c i j xs ! k =
    (if k = j then (if c then xs ! i else xs ! j) else if k = i then (if c then xs ! j else xs ! i) else xs ! k)"
  by (simp add: condSwapAt_def condSwap_def nth_list_update)

lemma map_condSwapAt:
  "i < length xs \<Longrightarrow> j < length xs \<Longrightarrow> map f (condSwapAt c i j xs) = condSwapAt c i j (map f xs)"
  by (rule nth_equalityI) (auto simp: nth_condSwapAt)

section \<open>The loop over pairs at a fixed distance\<close>

text \<open>The loop \<open>for (i = 0; i < n; ++i) condSwap (dire != cmp (x[i], x[h + i]), x[i], x[h + i])\<close> of the
  bitonic mergers.\<close>

definition compare_loop :: "('a \<Rightarrow> 'a \<Rightarrow> bool) \<Rightarrow> bool \<Rightarrow> nat \<Rightarrow> nat \<Rightarrow> 'a list \<Rightarrow> 'a list" where
  "compare_loop cmp dire h n xs =
    foldl (\<lambda>xs i. condSwapAt (dire \<noteq> cmp (xs ! i) (xs ! (h + i))) i (h + i) xs) xs [0..<n]"

definition lo :: "('a \<Rightarrow> 'a \<Rightarrow> bool) \<Rightarrow> bool \<Rightarrow> 'a \<Rightarrow> 'a \<Rightarrow> 'a" where
  "lo cmp dire x y = fst (condSwap (dire \<noteq> cmp x y) x y)"

definition hi :: "('a \<Rightarrow> 'a \<Rightarrow> bool) \<Rightarrow> bool \<Rightarrow> 'a \<Rightarrow> 'a \<Rightarrow> 'a" where
  "hi cmp dire x y = snd (condSwap (dire \<noteq> cmp x y) x y)"

lemma length_compare_loop [simp, len_simps]: "length (compare_loop cmp dire h n xs) = length xs"
proof -
  have "length (foldl (\<lambda>xs i. condSwapAt (dire \<noteq> cmp (xs ! i) (xs ! (h + i))) i (h + i) xs) xs is) = length xs" for "is"
    by (induction "is" arbitrary: xs) simp_all
  then show ?thesis by (simp add: compare_loop_def)
qed

lemma compare_loop_Suc:
  "compare_loop cmp dire h (Suc n) xs =
    (let ys = compare_loop cmp dire h n xs
     in condSwapAt (dire \<noteq> cmp (ys ! n) (ys ! (h + n))) n (h + n) ys)"
  by (simp add: compare_loop_def Let_def)

lemma mset_compare_loop [simp]:
  "h + n \<le> length xs \<Longrightarrow> mset (compare_loop cmp dire h n xs) = mset xs"
  by (induction n) (simp_all add: compare_loop_Suc Let_def, simp add: compare_loop_def)

lemma nth_compare_loop:
  assumes "n \<le> h" "h + n \<le> length xs" "k < length xs"
  shows "compare_loop cmp dire h n xs ! k =
    (if k < n then lo cmp dire (xs ! k) (xs ! (h + k))
     else if h \<le> k \<and> k < h + n then hi cmp dire (xs ! (k - h)) (xs ! k)
     else xs ! k)"
  using assms
proof (induction n arbitrary: k)
  case 0
  then show ?case by (auto simp: compare_loop_def)
next
  case (Suc n)
  then have "compare_loop cmp dire h n xs ! n = xs ! n"
    "compare_loop cmp dire h n xs ! (h + n) = xs ! (h + n)" by simp_all
  with Suc show ?case
    by (auto simp: compare_loop_Suc Let_def nth_condSwapAt lo_def hi_def condSwap_def less_Suc_eq)
qed

section \<open>The loop over pairs with conditions fixed in advance\<close>

definition swap_loop :: "(nat \<Rightarrow> bool) \<Rightarrow> nat \<Rightarrow> nat \<Rightarrow> 'a list \<Rightarrow> 'a list" where
  "swap_loop c h n xs = foldl (\<lambda>xs i. condSwapAt (c i) i (h + i) xs) xs [0..<n]"

lemma length_swap_loop [simp, len_simps]: "length (swap_loop c h n xs) = length xs"
  by (induction n) (simp_all add: swap_loop_def)

lemma mset_swap_loop [simp]: "h + n \<le> length xs \<Longrightarrow> mset (swap_loop c h n xs) = mset xs"
proof (induction n)
  case (Suc n)
  have "length (swap_loop c h n xs) = length xs" by simp
  with Suc show ?case by (simp add: swap_loop_def)
qed (simp add: swap_loop_def)

lemma nth_swap_loop:
  assumes "n \<le> h" "h + n \<le> length xs" "k < length xs"
  shows "swap_loop c h n xs ! k =
    (if k < n then xs ! (if c k then h + k else k)
     else if h \<le> k \<and> k < h + n then xs ! (if c (k - h) then k - h else k)
     else xs ! k)"
  using assms
proof (induction n arbitrary: k)
  case 0
  then show ?case by (auto simp: swap_loop_def)
next
  case (Suc n)
  define ys where "ys = swap_loop c h n xs"
  have ys: "swap_loop c h (Suc n) xs = condSwapAt (c n) n (h + n) ys" "length ys = length xs"
    by (simp_all add: swap_loop_def ys_def) (simp flip: swap_loop_def)
  have "ys ! n = xs ! n" "ys ! (h + n) = xs ! (h + n)"
    using Suc by (simp_all add: ys_def)
  moreover have "ys ! k = (if k < n then xs ! (if c k then h + k else k)
     else if h \<le> k \<and> k < h + n then xs ! (if c (k - h) then k - h else k) else xs ! k)"
    using Suc by (simp add: ys_def)
  ultimately show ?case
    using Suc.prems unfolding ys(1)
    by (subst nth_condSwapAt) (auto simp: ys(2) less_Suc_eq)
qed

section \<open>The 0-1 principle\<close>

text \<open>The order of the booleans and sortedness of boolean lists, kept as constants of their own.\<close>

definition blt :: "bool \<Rightarrow> bool \<Rightarrow> bool" where
  "blt a b \<longleftrightarrow> \<not> a \<and> b"

definition bsorted :: "bool list \<Rightarrow> bool" where
  "bsorted bs \<longleftrightarrow> (\<forall>i j. i < j \<longrightarrow> j < length bs \<longrightarrow> bs ! i \<longrightarrow> bs ! j)"

lemma bsorted_append:
  "bsorted (xs @ ys) \<longleftrightarrow> bsorted xs \<and> bsorted ys \<and> (True \<in> set xs \<longrightarrow> False \<notin> set ys)"
proof -
  have "bsorted bs \<longleftrightarrow> sorted bs" for bs
    unfolding bsorted_def sorted_iff_nth_mono_less le_bool_def by auto
  moreover have "(\<forall>x\<in>A. \<forall>y\<in>B. x \<le> y) \<longleftrightarrow> (True \<in> A \<longrightarrow> False \<notin> B)" for A B :: "bool set"
    by (metis (full_types) le_bool_def)
  ultimately show ?thesis by (simp only: sorted_append)
qed

lemma bsorted_const: "set bs \<subseteq> {c} \<Longrightarrow> bsorted bs"
  by (auto simp: bsorted_def subset_iff) (metis nth_mem order.strict_trans)+

lemma bsorted_rev: "bsorted (map Not bs) \<Longrightarrow> bsorted (rev bs)"
  unfolding bsorted_def
proof (intro allI impI)
  fix i j
  assume s: "\<forall>i j. i < j \<longrightarrow> j < length (map Not bs) \<longrightarrow> map Not bs ! i \<longrightarrow> map Not bs ! j"
    and ij: "i < j" "j < length (rev bs)" "rev bs ! i"
  then have "length bs - Suc j < length bs - Suc i" "length bs - Suc i < length bs" by auto
  then have "\<not> bs ! (length bs - Suc j) \<Longrightarrow> \<not> bs ! (length bs - Suc i)"
    using s [rule_format, of "length bs - Suc j" "length bs - Suc i"] by simp
  then show "rev bs ! j" using ij by (auto simp: rev_nth)
qed

lemma blt_lo_hi: "lo blt True x y = (x \<and> y)" "hi blt True x y = (x \<or> y)"
  "lo blt False x y = (x \<or> y)" "hi blt False x y = (x \<and> y)"
  by (auto simp: lo_def hi_def condSwap_def blt_def)

text \<open>A function that commutes with every compare-exchange, possibly reversing the direction,
  commutes with every network of compare-exchanges.\<close>

definition redirect :: "bool \<Rightarrow> bool \<Rightarrow> bool" where
  "redirect flip dire = (if flip then \<not> dire else dire)"

lemma redirect_simps [simp]:
  "redirect False dire = dire" "redirect True dire = (\<not> dire)"
  "redirect flip (\<not> dire) = (\<not> redirect flip dire)"
  by (simp_all add: redirect_def)

locale net_hom =
  fixes f :: "'a \<Rightarrow> 'b" and cmp :: "'a \<Rightarrow> 'a \<Rightarrow> bool" and cmp' :: "'b \<Rightarrow> 'b \<Rightarrow> bool" and flip :: bool
  assumes hom_lo: "f (lo cmp dire x y) = lo cmp' (redirect flip dire) (f x) (f y)"
    and hom_hi: "f (hi cmp dire x y) = hi cmp' (redirect flip dire) (f x) (f y)"
begin

lemma hom_compare_loop:
  assumes "n \<le> h" "h + n \<le> length xs"
  shows "map f (compare_loop cmp dire h n xs) = compare_loop cmp' (redirect flip dire) h n (map f xs)"
  using assms by (intro nth_equalityI) (auto simp: nth_compare_loop hom_lo hom_hi)

end

interpretation neg: net_hom Not blt blt True
  by unfold_locales (auto simp: lo_def hi_def condSwap_def blt_def)

text \<open>A comparator is an order by key when it holds for strictly smaller keys and does not hold for
  strictly larger ones; on equal keys it may answer anything.  The
  threshold at \<open>t\<close> maps an element to whether its key is at least \<open>t\<close>; comparing exchanges
  commutes with it.\<close>

locale key_order =
  fixes cmp :: "'a \<Rightarrow> 'a \<Rightarrow> bool" and key :: "'a \<Rightarrow> 'k::linorder"
  assumes cmp_less: "key a < key b \<Longrightarrow> cmp a b" and cmp_greater: "key b < key a \<Longrightarrow> \<not> cmp a b"
begin

definition thr :: "'k \<Rightarrow> 'a \<Rightarrow> bool" where
  "thr t x \<longleftrightarrow> t \<le> key x"

lemma thr_lo: "thr t (lo cmp dire x y) = lo blt dire (thr t x) (thr t y)"
  using cmp_less [of x y] cmp_greater [of y x]
  by (cases "key x" "key y" rule: linorder_cases) (auto simp: thr_def lo_def condSwap_def blt_def)

lemma thr_hi: "thr t (hi cmp dire x y) = hi blt dire (thr t x) (thr t y)"
  using cmp_less [of x y] cmp_greater [of y x]
  by (cases "key x" "key y" rule: linorder_cases) (auto simp: thr_def hi_def condSwap_def blt_def)

lemma zero_one_sorted:
  assumes "\<And>t. bsorted (map (thr t) xs)"
  shows "sorted (map key xs)"
proof (rule sorted_iff_nth_mono_less [THEN iffD2], intro allI impI)
  fix i j assume ij: "i < j" "j < length (map key xs)"
  then show "map key xs ! i \<le> map key xs ! j"
    using assms [of "key (xs ! i)"] by (auto simp: bsorted_def thr_def)
qed

lemma zero_one_rev_sorted:
  assumes "\<And>t. bsorted (rev (map (thr t) xs))"
  shows "sorted (rev (map key xs))"
  using zero_one_sorted [of "rev xs"] assms by (simp add: rev_map)

end

sublocale key_order \<subseteq> th: net_hom "thr t" cmp blt False for t
  by unfold_locales (simp_all add: thr_lo thr_hi)

end
