(* ===== verification/Pow2.thy ===== *)
theory Pow2
  imports Const_Time
begin

text \<open>
  The power-of-two and logarithm helpers of \<open>common/utils.hpp\<close>, which size every network and
  every loop of the sorting code.
\<close>

definition GetNextPowerOfTwo :: "u64 \<Rightarrow> u64" where
  "GetNextPowerOfTwo n =
    (let n = n - 1;
         n = n OR drop_bit 1 n;
         n = n OR drop_bit 2 n;
         n = n OR drop_bit 4 n;
         n = n OR drop_bit 8 n;
         n = n OR drop_bit 16 n;
         n = n OR drop_bit 32 n
     in n + 1)"

text \<open>\<open>GetLogBaseTwo\<close> runs its loop for \<open>i = 5, ..., 0\<close> with \<open>c = 32, 16, ..., 1\<close>; \<open>obliMove\<close> assigns
  when the condition holds.\<close>

definition log_masks :: "u64 list" where
  "log_masks = [0x2, 0xC, 0xF0, 0xFF00, 0xFFFF0000, 0xFFFFFFFF00000000]"

definition GetLogBaseTwo :: "u64 \<Rightarrow> u64" where
  "GetLogBaseTwo n =
    (case foldl (\<lambda>(n, r, c) i.
        let cond = (n AND log_masks ! i \<noteq> 0);
            n = (if cond then drop_bit (unat c) n else n);
            r = (if cond then r OR c else r);
            c = drop_bit 1 c
        in (n, r, c)) (n, 0, 32) [5, 4, 3, 2, 1, 0]
     of (n, r, c) \<Rightarrow> r)"

definition CeilLog2 :: "u64 \<Rightarrow> u64" where
  "CeilLog2 x =
    (let y = (if x AND (x - 1) = 0 then 0 else 1);
         (y, x, j) = foldl (\<lambda>(y, x, j) t.
            let k = (if x AND t = 0 then 0 else j)
            in (y + of_nat k, drop_bit k x, j div 2)) (y, x, 32)
          [0xFFFFFFFF00000000, 0x00000000FFFF0000, 0x000000000000FF00,
           0x00000000000000F0, 0x000000000000000C, 0x0000000000000002]
     in y)"

definition divRoundUp :: "u64 \<Rightarrow> u64 \<Rightarrow> u64" where
  "divRoundUp x y = (x + y - 1) div y"

definition getVecProduct :: "u64 list \<Rightarrow> u64" where
  "getVecProduct xs = foldl (\<lambda>p x. p * x) 1 xs"

section \<open>The next power of two\<close>

lemma smear_step:
  fixes x m :: u64
  assumes "\<And>i. bit x i \<longleftrightarrow> (\<exists>d<w. bit m (i + d))" and "v = 2 * w"
  shows "bit (x OR drop_bit w x) i \<longleftrightarrow> (\<exists>d<v. bit m (i + d))"
proof -
  have "bit (x OR drop_bit w x) i \<longleftrightarrow> (\<exists>d<w. bit m (i + d)) \<or> (\<exists>d<w. bit m (i + (w + d)))"
    using assms(1) by (simp add: bit_simps ac_simps)
  also have "\<dots> \<longleftrightarrow> (\<exists>d<2 * w. bit m (i + d))"
  proof
    assume "\<exists>d<2 * w. bit m (i + d)"
    then obtain d where d: "d < 2 * w" "bit m (i + d)" by blast
    show "(\<exists>d<w. bit m (i + d)) \<or> (\<exists>d<w. bit m (i + (w + d)))"
    proof (cases "d < w")
      case False
      then show ?thesis using d by (intro disjI2 exI [of _ "d - w"]) simp
    qed (use d in blast)
  next
    assume "(\<exists>d<w. bit m (i + d)) \<or> (\<exists>d<w. bit m (i + (w + d)))"
    then show "\<exists>d<2 * w. bit m (i + d)"
    proof (elim disjE exE conjE)
      fix d assume "d < w" "bit m (i + d)"
      then show ?thesis by (intro exI [of _ d]) simp
    next
      fix d assume "d < w" "bit m (i + (w + d))"
      then show ?thesis by (intro exI [of _ "w + d"]) simp
    qed
  qed
  finally show ?thesis by (simp only: assms(2))
qed

text \<open>All positions up to the highest set bit.\<close>

lemma blen_bit_iff: "(\<exists>d. bit m (i + d)) \<longleftrightarrow> i < blen m" for m :: nat
proof (induction m arbitrary: i rule: blen.induct)
  case (1 m)
  show ?case
  proof (cases "m = 0")
    case False
    show ?thesis
    proof (cases i)
      case 0
      have "\<exists>d. bit m d" using False bit_eq_iff [of m 0] by auto
      then show ?thesis using 0 False by (simp add: blen.simps [of m])
    next
      case (Suc j)
      have "(\<exists>d. bit m (i + d)) \<longleftrightarrow> (\<exists>d. bit (m div 2) (j + d))"
        by (simp add: Suc bit_Suc)
      then show ?thesis using 1 [OF False, of j] Suc False by (simp add: blen.simps [of m])
    qed
  qed (simp add: blen.simps)
qed

lemma smear_mask:
  fixes x m :: u64
  assumes "\<And>i. bit x i \<longleftrightarrow> (\<exists>d<64. bit m (i + d))"
  shows "x = mask (blen (unat m))"
proof (rule bit_word_eqI)
  fix i assume "i < LENGTH(64)"
  have "(\<exists>d<64. bit m (i + d)) \<longleftrightarrow> (\<exists>d. bit m (i + d))"
  proof -
    have "d < 64" if "bit m (i + d)" for d
      using bit_imp_le_length [OF that] by simp
    then show ?thesis by blast
  qed
  also have "\<dots> \<longleftrightarrow> i < blen (unat m)"
    using blen_bit_iff [of "unat m" i] by (simp add: bit_simps)
  finally show "bit x i = bit (mask (blen (unat m)) :: u64) i"
    using assms \<open>i < LENGTH(64)\<close> by (simp add: bit_simps)
qed

lemma GetNextPowerOfTwo_blen: "GetNextPowerOfTwo n = mask (blen (unat (n - 1))) + 1"
proof -
  define m where "m = n - 1"
  define n1 where "n1 = m OR drop_bit 1 m"
  define n2 where "n2 = n1 OR drop_bit 2 n1"
  define n3 where "n3 = n2 OR drop_bit 4 n2"
  define n4 where "n4 = n3 OR drop_bit 8 n3"
  define n5 where "n5 = n4 OR drop_bit 16 n4"
  define n6 where "n6 = n5 OR drop_bit 32 n5"
  have b0: "bit m i \<longleftrightarrow> (\<exists>d<1. bit m (i + d))" for i by simp
  have b1: "bit n1 i \<longleftrightarrow> (\<exists>d<2. bit m (i + d))" for i
    unfolding n1_def by (rule smear_step [OF b0]) simp
  have b2: "bit n2 i \<longleftrightarrow> (\<exists>d<4. bit m (i + d))" for i
    unfolding n2_def by (rule smear_step [OF b1]) simp
  have b3: "bit n3 i \<longleftrightarrow> (\<exists>d<8. bit m (i + d))" for i
    unfolding n3_def by (rule smear_step [OF b2]) simp
  have b4: "bit n4 i \<longleftrightarrow> (\<exists>d<16. bit m (i + d))" for i
    unfolding n4_def by (rule smear_step [OF b3]) simp
  have b5: "bit n5 i \<longleftrightarrow> (\<exists>d<32. bit m (i + d))" for i
    unfolding n5_def by (rule smear_step [OF b4]) simp
  have b6: "bit n6 i \<longleftrightarrow> (\<exists>d<64. bit m (i + d))" for i
    unfolding n6_def by (rule smear_step [OF b5]) simp
  have "n6 = mask (blen (unat m))" using b6 by (rule smear_mask)
  then show ?thesis
    by (simp only: GetNextPowerOfTwo_def Let_def n6_def n5_def n4_def n3_def n2_def n1_def m_def)
qed

lemma unat_pow2: "k < 64 \<Longrightarrow> unat (2 ^ k :: u64) = 2 ^ k"
proof -
  assume "k < 64"
  then have "(2::nat) ^ k < 2 ^ 64" by (intro power_strict_increasing) simp_all
  moreover have "(2 ^ k :: u64) = of_nat (2 ^ k)" by simp
  ultimately show ?thesis by (simp only: unat_of_nat) simp
qed

definition next_pow2 :: "nat \<Rightarrow> nat" where
  "next_pow2 n = 2 ^ blen (n - 1)"

lemma next_pow2_bounds:
  "n \<le> next_pow2 n" "1 < n \<Longrightarrow> next_pow2 n < 2 * n" "1 < n \<Longrightarrow> even (next_pow2 n)"
proof -
  show "n \<le> next_pow2 n"
    using blen_bounds(1) [of "n - 1"] by (simp add: next_pow2_def)
  assume n: "1 < n"
  then have "blen (n - 1) = Suc (blen ((n - 1) div 2))" by (subst blen.simps) simp
  then obtain k where k: "blen (n - 1) = Suc k" by blast
  then have p: "next_pow2 n = 2 * 2 ^ k" by (simp only: next_pow2_def power_Suc)
  have "2 ^ k \<le> n - 1"
    using blen_bounds(2) [of "n - 1"] n unfolding k by simp
  then show "next_pow2 n < 2 * n" using n unfolding p by linarith
  show "even (next_pow2 n)" by (simp add: p)
qed

lemma GetNextPowerOfTwo_nat:
  assumes "0 < n" "n \<le> 2 ^ 63"
  shows "unat (GetNextPowerOfTwo (of_nat n)) = next_pow2 n"
proof -
  have "(of_nat n - 1 :: u64) = of_nat (n - 1)" using assms(1) by (simp add: of_nat_diff)
  then have "unat (of_nat n - 1 :: u64) = n - 1"
    using assms(2) by (simp only: unat_of_nat) simp
  moreover have "blen (n - 1) \<le> 63"
  proof (rule ccontr)
    assume "\<not> blen (n - 1) \<le> 63"
    then have "(2::nat) ^ 63 \<le> 2 ^ (blen (n - 1) - 1)" by (intro power_increasing) auto
    moreover have "0 < n - 1" using \<open>\<not> blen (n - 1) \<le> 63\<close> by (intro gr0I) (simp add: blen.simps)
    ultimately show False using blen_bounds(2) [of "n - 1"] assms by simp
  qed
  moreover have "unat (mask k + 1 :: u64) = 2 ^ k" if "k \<le> 63" for k
  proof -
    have "mask k + 1 = (of_nat (2 ^ k) :: u64)" by (simp add: mask_eq_exp_minus_1)
    moreover have "(2::nat) ^ k < 2 ^ 64" using that by (intro power_strict_increasing) simp_all
    ultimately show ?thesis by (simp only: unat_of_nat) simp
  qed
  ultimately show ?thesis by (simp add: GetNextPowerOfTwo_blen next_pow2_def)
qed


section \<open>Logarithms\<close>

text \<open>A mask test of the loops: with the operand below \<open>2^(2m)\<close>, the bits \<open>m, ..., 2m - 1\<close> are all
  clear exactly when the operand is below \<open>2^m\<close>.\<close>

lemma mask_test:
  fixes n :: u64
  assumes "unat n < 2 ^ (2 * m)" "t = push_bit m (mask m)"
  shows "n AND t \<noteq> 0 \<longleftrightarrow> 2 ^ m \<le> unat n"
proof -
  have "n AND t = push_bit m (take_bit m (drop_bit m n))"
    unfolding assms(2) by (rule bit_word_eqI) (auto simp: bit_simps)
  moreover have "take_bit m (drop_bit m n) = drop_bit m n"
  proof -
    have "unat (drop_bit m n) < 2 ^ m"
      using assms(1) unat_drop_bit_eq [of m n] by (simp add: drop_bit_eq_div less_mult_imp_div_less power_add mult_2)
    then show ?thesis
      by (simp add: word_unat_eq_iff unsigned_take_bit_eq take_bit_nat_eq_self)
  qed
  moreover have "push_bit m (drop_bit m n) = 0 \<longleftrightarrow> drop_bit m n = 0"
  proof
    assume z: "push_bit m (drop_bit m n) = 0"
    show "drop_bit m n = 0"
    proof (rule bit_word_eqI)
      fix k
      have "\<not> bit (push_bit m (drop_bit m n)) (m + k)" by (simp add: z)
      then show "bit (drop_bit m n) k = bit 0 k"
        using bit_imp_le_length [of n "m + k"] by (auto simp: bit_simps)
    qed
  qed simp
  ultimately show ?thesis
    using unat_drop_bit_eq [of m n] by (auto simp: drop_bit_eq_div div_eq_0_iff unat_eq_0 [symmetric] not_less)
qed


lemma unat_lt_64: "unat (n :: u64) < 2 ^ (2 * 32)"
  using unat_lt_pow [of n] by simp

lemma log_masks_shape:
  "log_masks ! 5 = push_bit 32 (mask 32)" "log_masks ! 4 = push_bit 16 (mask 16)"
  "log_masks ! 3 = push_bit 8 (mask 8)" "log_masks ! 2 = push_bit 4 (mask 4)"
  "log_masks ! 1 = push_bit 2 (mask 2)" "log_masks ! 0 = push_bit 1 (mask 1)"
  by (simp_all add: log_masks_def mask_eq_exp_minus_1)

text \<open>The six halving steps of a search for the highest bit, as both loops perform them.\<close>

definition halve :: "nat \<Rightarrow> u64 \<Rightarrow> u64" where
  "halve m n = (if 2 ^ m \<le> unat n then drop_bit m n else n)"

lemma halve_step:
  assumes "unat n < 2 ^ (2 * m)"
  shows "unat (halve m n) < 2 ^ m" "blen (unat n) = of_bool (2 ^ m \<le> unat n) * m + blen (unat (halve m n))"
  using blen_step [OF assms refl] by (simp_all only: halve_def)

lemma halve_nonzero: "n \<noteq> 0 \<Longrightarrow> halve m n \<noteq> 0"
proof -
  assume "n \<noteq> 0"
  moreover have "unat (drop_bit m n) = unat n div 2 ^ m"
    by (metis drop_bit_eq_div unat_drop_bit_eq)
  ultimately show ?thesis
    by (auto simp: halve_def unat_eq_0 [symmetric] div_greater_zero_iff)
qed

lemma halving_steps:
  assumes "n \<noteq> 0" "n1 = halve 32 n" "n2 = halve 16 n1" "n3 = halve 8 n2" "n4 = halve 4 n3" "n5 = halve 2 n4"
  shows "unat n1 < 2 ^ (2 * 16)" "unat n2 < 2 ^ (2 * 8)" "unat n3 < 2 ^ (2 * 4)"
    "unat n4 < 2 ^ (2 * 2)" "unat n5 < 2 ^ (2 * 1)"
    and "blen (unat n) = 1 + of_bool (2 ^ 32 \<le> unat n) * 32 + of_bool (2 ^ 16 \<le> unat n1) * 16
      + of_bool (2 ^ 8 \<le> unat n2) * 8 + of_bool (2 ^ 4 \<le> unat n3) * 4 + of_bool (2 ^ 2 \<le> unat n4) * 2
      + of_bool (2 ^ 1 \<le> unat n5)"
proof -
  show b1: "unat n1 < 2 ^ (2 * 16)" using halve_step(1) [OF unat_lt_64, of n] by (simp add: assms(2))
  show b2: "unat n2 < 2 ^ (2 * 8)" using halve_step(1) [OF b1] by (simp add: assms(3))
  show b3: "unat n3 < 2 ^ (2 * 4)" using halve_step(1) [OF b2] by (simp add: assms(4))
  show b4: "unat n4 < 2 ^ (2 * 2)" using halve_step(1) [OF b3] by (simp add: assms(5))
  show b5: "unat n5 < 2 ^ (2 * 1)" using halve_step(1) [OF b4] by (simp add: assms(6))
  have "n5 \<noteq> 0" using assms by (simp add: halve_nonzero)
  then have "blen (unat n5) = 1 + of_bool (2 ^ 1 \<le> unat n5)"
    using blen_small [of "unat n5"] b5 by (simp add: unat_eq_0 Suc_le_eq numeral_2_eq_2)
  then show "blen (unat n) = 1 + of_bool (2 ^ 32 \<le> unat n) * 32 + of_bool (2 ^ 16 \<le> unat n1) * 16
      + of_bool (2 ^ 8 \<le> unat n2) * 8 + of_bool (2 ^ 4 \<le> unat n3) * 4 + of_bool (2 ^ 2 \<le> unat n4) * 2
      + of_bool (2 ^ 1 \<le> unat n5)"
    using halve_step(2) [OF unat_lt_64, of n, folded assms(2)] halve_step(2) [OF b1, folded assms(3)]
      halve_step(2) [OF b2, folded assms(4)] halve_step(2) [OF b3, folded assms(5)]
      halve_step(2) [OF b4, folded assms(6)]
    by linarith
qed

lemma GetLogBaseTwo_blen:
  assumes "n \<noteq> 0"
  shows "unat (GetLogBaseTwo n) = blen (unat n) - 1"
proof -
  define n1 where "n1 = halve 32 n" define n2 where "n2 = halve 16 n1" define n3 where "n3 = halve 8 n2"
  define n4 where "n4 = halve 4 n3" define n5 where "n5 = halve 2 n4"
  note h = halving_steps [OF assms n1_def n2_def n3_def n4_def n5_def]
  note c = mask_test [OF unat_lt_64 log_masks_shape(1)] mask_test [OF h(1) log_masks_shape(2)]
    mask_test [OF h(2) log_masks_shape(3)] mask_test [OF h(3) log_masks_shape(4)]
    mask_test [OF h(4) log_masks_shape(5)] mask_test [OF h(5) log_masks_shape(6)]
  define f where "f = (\<lambda>(n :: u64, r :: u64, c :: u64) i.
        let cond = (n AND log_masks ! i \<noteq> 0);
            n = (if cond then drop_bit (unat c) n else n);
            r = (if cond then r OR c else r);
            c = drop_bit 1 c
        in (n, r, c))"
  have u: "unat (32 :: u64) = 32" "unat (16 :: u64) = 16" "unat (8 :: u64) = 8" "unat (4 :: u64) = 4"
    "unat (2 :: u64) = 2" "unat (1 :: u64) = 1" by simp_all
  have d: "drop_bit 1 (32 :: u64) = 16" "drop_bit 1 (16 :: u64) = 8" "drop_bit 1 (8 :: u64) = 4"
    "drop_bit 1 (4 :: u64) = 2" "drop_bit 1 (2 :: u64) = 1" by simp_all
  have f: "f (n, r, 32) 5 = (n1, if 2 ^ 32 \<le> unat n then r OR 32 else r, 16)"
    "f (n1, r, 16) 4 = (n2, if 2 ^ 16 \<le> unat n1 then r OR 16 else r, 8)"
    "f (n2, r, 8) 3 = (n3, if 2 ^ 8 \<le> unat n2 then r OR 8 else r, 4)"
    "f (n3, r, 4) 2 = (n4, if 2 ^ 4 \<le> unat n3 then r OR 4 else r, 2)"
    "f (n4, r, 2) 1 = (n5, if 2 ^ 2 \<le> unat n4 then r OR 2 else r, 1)"
    "f (n5, r, 1) 0 = (halve 1 n5, if 2 ^ 1 \<le> unat n5 then r OR 1 else r, drop_bit 1 1)" for r
    unfolding f_def Let_def prod.case c u d
    unfolding n1_def n2_def n3_def n4_def n5_def unfolding halve_def by (rule refl)+
  have "GetLogBaseTwo n = (case f (f (f (f (f (f (n, 0, 32) 5) 4) 3) 2) 1) 0 of (n, r, c) \<Rightarrow> r)"
    by (simp only: GetLogBaseTwo_def f_def foldl.simps)
  then show ?thesis
    unfolding h(6) f prod.case
    by (cases "2 ^ 32 \<le> unat n"; cases "2 ^ 16 \<le> unat n1"; cases "2 ^ 8 \<le> unat n2";
        cases "2 ^ 4 \<le> unat n3"; cases "2 ^ 2 \<le> unat n4"; cases "2 ^ 1 \<le> unat n5") simp_all
qed

lemma GetLogBaseTwo_bounds:
  assumes "n \<noteq> 0"
  shows "2 ^ unat (GetLogBaseTwo n) \<le> unat n" "unat n < 2 * 2 ^ unat (GetLogBaseTwo n)"
proof -
  have n: "0 < unat n" using assms by (simp add: unat_gt_0)
  then have "blen (unat n) = Suc (unat (GetLogBaseTwo n))"
    by (simp add: GetLogBaseTwo_blen [OF assms] blen.simps [of "unat n"])
  then show "2 ^ unat (GetLogBaseTwo n) \<le> unat n" "unat n < 2 * 2 ^ unat (GetLogBaseTwo n)"
    using blen_bounds [of "unat n"] n by simp_all
qed

end
