(* ===== verification/Bitonic.thy ===== *)
theory Bitonic
  imports Sort_Network Pow2
begin

text \<open>
  Bitonic sorting (\<open>bitonic.hpp\<close>) for arrays of any length: \<open>BitonicMergePow2\<close>, \<open>BitonicMerge\<close>,
  \<open>BitonicSort\<close> and the shuffle by random tags.  An iterator range is the list of its elements.
  The functions are proved to permute their input and, for a comparator that orders by a key,
  to sort it in the requested direction.
\<close>

section \<open>Definitions\<close>

function BitonicMergePow2 :: "('a \<Rightarrow> 'a \<Rightarrow> bool) \<Rightarrow> bool \<Rightarrow> 'a list \<Rightarrow> 'a list" where
  "BitonicMergePow2 cmp dire xs =
    (let size = length xs
     in if size > 1
        then let halfSize = size div 2;
                 xs = compare_loop cmp dire halfSize halfSize xs
             in BitonicMergePow2 cmp dire (take halfSize xs) @ BitonicMergePow2 cmp dire (drop halfSize xs)
        else xs)"
  by pat_completeness auto
termination by (relation "measure (\<lambda>(c, d, xs). length xs)") auto

declare BitonicMergePow2.simps [simp del]

text \<open>\<open>GetNextPowerOfTwo\<close> asserts that its argument is at most \<open>2^63\<close>; on a longer range, which no
  machine holds, the assertion fails and the model returns the range unchanged.\<close>

function BitonicMerge :: "('a \<Rightarrow> 'a \<Rightarrow> bool) \<Rightarrow> bool \<Rightarrow> 'a list \<Rightarrow> 'a list" where
  "BitonicMerge cmp dire xs =
    (let size = length xs
     in if size > 1 \<and> size \<le> 2 ^ 63
        then let halfSize = unat (GetNextPowerOfTwo (of_nat size)) div 2;
                 xs = compare_loop cmp dire halfSize (size - halfSize) xs
             in BitonicMergePow2 cmp dire (take halfSize xs) @ BitonicMerge cmp dire (drop halfSize xs)
        else xs)"
  by pat_completeness auto

lemma half_bounds:
  assumes "1 < n" "n \<le> 2 ^ 63"
  defines "h \<equiv> unat (GetNextPowerOfTwo (of_nat n)) div 2"
  shows "0 < h" "h < n" "n \<le> 2 * h" "h = 2 ^ (blen (n - 1) - 1)"
proof -
  have b: "blen (n - 1) = Suc (blen ((n - 1) div 2))"
    using assms(1) by (subst blen.simps) simp
  have h: "h = next_pow2 n div 2"
    using assms by (simp add: h_def GetNextPowerOfTwo_nat)
  then show e: "h = 2 ^ (blen (n - 1) - 1)"
    unfolding next_pow2_def b by simp
  then show "0 < h" by simp
  have "next_pow2 n = 2 * h" unfolding e next_pow2_def b by simp
  then show "h < n" "n \<le> 2 * h"
    using next_pow2_bounds(1) [of n] next_pow2_bounds(2) [OF assms(1)] by simp_all
qed

termination BitonicMerge
proof (relation "measure (\<lambda>(c, d, xs). length xs)")
  fix cmp :: "'a \<Rightarrow> 'a \<Rightarrow> bool" and dire and xs ys :: "'a list" and n h
  assume "n = length xs" "1 < n \<and> n \<le> 2 ^ 63" "h = unat (GetNextPowerOfTwo (of_nat n)) div 2"
    "ys = compare_loop cmp dire h (n - h) xs"
  then show "((cmp, dire, drop h ys), (cmp, dire, xs)) \<in> measure (\<lambda>(c, d, xs). length xs)"
    using half_bounds(1,2) [of n] by simp
qed simp

declare BitonicMerge.simps [simp del]

function BitonicSort :: "('a \<Rightarrow> 'a \<Rightarrow> bool) \<Rightarrow> bool \<Rightarrow> 'a list \<Rightarrow> 'a list" where
  "BitonicSort cmp dire xs =
    (let size = length xs
     in if size > 1
        then let halfSize = size div 2;
                 left = BitonicSort cmp (\<not> dire) (take halfSize xs);
                 right = BitonicSort cmp dire (drop halfSize xs)
             in BitonicMerge cmp dire (left @ right)
        else xs)"
  by pat_completeness auto
termination by (relation "measure (\<lambda>(c, d, xs). length xs)") auto

declare BitonicSort.simps [simp del]

text \<open>The shuffle attaches a random 64-bit tag to every element, sorts by the tags and removes
  them; the tags that \<open>UniformRandom\<close> draws are an argument.\<close>

record 'a TaggedT =
  tag :: u64
  v :: 'a

definition cmpTag :: "'a TaggedT \<Rightarrow> 'a TaggedT \<Rightarrow> bool" where
  "cmpTag a b \<longleftrightarrow> tag a < tag b"

definition BitonicShuffle :: "u64 list \<Rightarrow> 'a list \<Rightarrow> 'a list" where
  "BitonicShuffle rnd xs =
    (let taggedData = map2 (\<lambda>r x. \<lparr>tag = r, v = x\<rparr>) rnd xs
     in map v (BitonicSort cmpTag True taggedData))"

section \<open>The functions permute their input\<close>

lemma length_BitonicMergePow2 [simp, len_simps]: "length (BitonicMergePow2 cmp dire xs) = length xs"
  by (induction cmp dire xs rule: BitonicMergePow2.induct)
    (subst BitonicMergePow2.simps, simp add: Let_def)

lemma mset_BitonicMergePow2 [simp]: "mset (BitonicMergePow2 cmp dire xs) = mset xs"
proof (induction cmp dire xs rule: BitonicMergePow2.induct)
  case (1 cmp dire xs)
  show ?case
  proof (cases "length xs > 1")
    case True
    define ys where "ys = compare_loop cmp dire (length xs div 2) (length xs div 2) xs"
    have "mset (take (length xs div 2) ys) + mset (drop (length xs div 2) ys) = mset ys"
      by (metis append_take_drop_id mset_append)
    moreover have "mset ys = mset xs"
      using mult_2 [of "length xs div 2"] by (simp add: ys_def)
    ultimately show ?thesis
      using 1 [OF refl True refl ys_def] True
      by (subst BitonicMergePow2.simps) (simp add: Let_def flip: ys_def)
  qed (simp add: BitonicMergePow2.simps)
qed

lemma mset_BitonicMerge [simp]: "mset (BitonicMerge cmp dire xs) = mset xs"
proof (induction cmp dire xs rule: BitonicMerge.induct)
  case (1 cmp dire xs)
  show ?case
  proof (cases "length xs > 1 \<and> length xs \<le> 2 ^ 63")
    case True
    define h where "h = unat (GetNextPowerOfTwo (of_nat (length xs))) div 2"
    define ys where "ys = compare_loop cmp dire h (length xs - h) xs"
    have "mset (take h ys) + mset (drop h ys) = mset ys"
      by (metis append_take_drop_id mset_append)
    moreover have "mset ys = mset xs"
      using half_bounds [of "length xs"] True by (simp add: ys_def h_def)
    ultimately show ?thesis
      using 1 [OF refl True h_def ys_def] True
      by (subst BitonicMerge.simps) (simp add: Let_def flip: h_def ys_def)
  qed (subst BitonicMerge.simps, auto simp: Let_def)
qed

lemma length_BitonicMerge [simp, len_simps]: "length (BitonicMerge cmp dire xs) = length xs"
  by (metis mset_BitonicMerge size_mset)

lemma mset_BitonicSort [simp]: "mset (BitonicSort cmp dire xs) = mset xs"
proof (induction cmp dire xs rule: BitonicSort.induct)
  case (1 cmp dire xs)
  show ?case
  proof (cases "length xs > 1")
    case True
    have "mset (take (length xs div 2) xs) + mset (drop (length xs div 2) xs) = mset xs"
      by (metis append_take_drop_id mset_append)
    then show ?thesis
      using 1(1) [OF refl True refl] 1(2) [OF refl True refl refl] True
      by (subst BitonicSort.simps) (simp add: Let_def)
  qed (simp add: BitonicSort.simps)
qed

lemma length_BitonicSort [simp, len_simps]: "length (BitonicSort cmp dire xs) = length xs"
  by (metis mset_BitonicSort size_mset)


section \<open>The functions commute with homomorphisms of the compare-exchange\<close>

context net_hom
begin

lemma hom_BitonicMergePow2:
  "map f (BitonicMergePow2 cmp dire xs) = BitonicMergePow2 cmp' (redirect flip dire) (map f xs)"
proof (induction "length xs" arbitrary: xs rule: less_induct)
  case less
  show ?case
  proof (cases "length xs > 1")
    case True
    define h where "h = length xs div 2"
    define ys where "ys = compare_loop cmp dire h h xs"
    have h: "0 < h" "h < length xs" "h + h \<le> length xs" using True by (auto simp: h_def)
    then have "compare_loop cmp' (redirect flip dire) h h (map f xs) = map f ys"
      by (simp add: ys_def hom_compare_loop)
    moreover have "length ys = length xs" by (simp add: ys_def)
    ultimately show ?thesis
      using less [of "take h ys"] less [of "drop h ys"] h True
      by (simp add: BitonicMergePow2.simps [of cmp dire xs]
          BitonicMergePow2.simps [of cmp' "redirect flip dire" "map f xs"] Let_def
          take_map drop_map flip: h_def ys_def)
  qed (simp add: BitonicMergePow2.simps)
qed

lemma hom_BitonicMerge:
  "map f (BitonicMerge cmp dire xs) = BitonicMerge cmp' (redirect flip dire) (map f xs)"
proof (induction "length xs" arbitrary: xs rule: less_induct)
  case less
  show ?case
  proof (cases "length xs > 1 \<and> length xs \<le> 2 ^ 63")
    case True
    define h where "h = unat (GetNextPowerOfTwo (of_nat (length xs))) div 2"
    define ys where "ys = compare_loop cmp dire h (length xs - h) xs"
    have h: "0 < h" "h < length xs" "length xs \<le> 2 * h" using half_bounds [of "length xs"] True by (auto simp: h_def)
    then have "compare_loop cmp' (redirect flip dire) h (length xs - h) (map f xs) = map f ys"
      by (simp add: ys_def hom_compare_loop)
    moreover have "length ys = length xs" by (simp add: ys_def)
    ultimately show ?thesis
      using less [of "drop h ys"] h True
      by (simp add: BitonicMerge.simps [of cmp dire xs]
          BitonicMerge.simps [of cmp' "redirect flip dire" "map f xs"] Let_def
          take_map drop_map hom_BitonicMergePow2 flip: h_def ys_def)
  next
    case False
    then show ?thesis
      by (auto simp: BitonicMerge.simps [of cmp dire xs]
          BitonicMerge.simps [of cmp' "redirect flip dire" "map f xs"] Let_def)
  qed
qed

lemma hom_BitonicSort:
  "map f (BitonicSort cmp dire xs) = BitonicSort cmp' (redirect flip dire) (map f xs)"
proof (induction "length xs" arbitrary: xs dire rule: less_induct)
  case less
  show ?case
  proof (cases "length xs > 1")
    case True
    then show ?thesis
      using less [of "take (length xs div 2) xs" "\<not> dire"] less [of "drop (length xs div 2) xs" dire]
      by (simp add: BitonicSort.simps [of cmp dire xs]
          BitonicSort.simps [of cmp' "redirect flip dire" "map f xs"] Let_def
          take_map drop_map hom_BitonicMerge)
  qed (simp add: BitonicSort.simps)
qed

end

section \<open>Boolean lists\<close>

text \<open>A boolean list is a window when it is true exactly on an interval, or false exactly on an
  interval; these are the rotations of bitonic boolean lists.\<close>

definition window :: "bool \<Rightarrow> bool list \<Rightarrow> bool" where
  "window b bs \<longleftrightarrow> (\<exists>a e. \<forall>i<length bs. bs ! i = (b = (a \<le> i \<and> i < e)))"

abbreviation merge2 :: "bool list \<Rightarrow> bool list" where
  "merge2 \<equiv> BitonicMergePow2 blt True"

lemma merge2_set: "set (merge2 bs) = set bs"
  by (metis mset_BitonicMergePow2 set_mset_mset)

text \<open>One half cleaner on a window: one half becomes constant, both halves are windows, and the
  constant half is the right one for a sorted result.\<close>

lemma half_cleaner:
  fixes h a e :: nat
  assumes "e \<le> 2 * h"
  defines "l \<equiv> \<lambda>i. (a \<le> i \<and> i < e) \<and> (a \<le> h + i \<and> h + i < e)"
    and "u \<equiv> \<lambda>i. (a \<le> i \<and> i < e) \<or> (a \<le> h + i \<and> h + i < e)"
  shows "(\<forall>i<h. \<not> l i) \<and> (\<exists>b a e. \<forall>i<h. u i = (b = (a \<le> i \<and> i < e)))
    \<or> (\<forall>i<h. u i) \<and> (\<exists>a e. \<forall>i<h. l i = (a \<le> i \<and> i < e))"
proof -
  consider "e \<le> h + a" "e \<le> h" | "e \<le> h + a" "h \<le> a" | "e \<le> h + a" "a < h" "h < e" | "h + a < e"
    by linarith
  then show ?thesis
  proof cases
    case 1
    have "\<forall>i<h. u i = (True = (a \<le> i \<and> i < e))" using 1 by (auto simp: u_def)
    moreover have "\<forall>i<h. \<not> l i" using 1 by (auto simp: l_def)
    ultimately show ?thesis by blast
  next
    case 2
    have "\<forall>i<h. u i = (True = (a - h \<le> i \<and> i < e - h))" using 2 by (auto simp: u_def)
    moreover have "\<forall>i<h. \<not> l i" using 2 by (auto simp: l_def)
    ultimately show ?thesis by blast
  next
    case 3
    have "\<forall>i<h. u i = (False = (e - h \<le> i \<and> i < a))" using 3 by (auto simp: u_def)
    moreover have "\<forall>i<h. \<not> l i" using 3 by (auto simp: l_def)
    ultimately show ?thesis by blast
  next
    case 4
    have "\<forall>i<h. u i" using 4 assms(1) by (auto simp: u_def)
    moreover have "\<forall>i<h. l i = (a \<le> i \<and> i < e - h)" using 4 by (auto simp: l_def)
    ultimately show ?thesis by blast
  qed
qed

lemma window_clip:
  "window b bs \<longleftrightarrow> (\<exists>a e. e \<le> length bs \<and> (\<forall>i<length bs. bs ! i = (b = (a \<le> i \<and> i < e))))"
proof
  assume "window b bs"
  then obtain a e where "\<forall>i<length bs. bs ! i = (b = (a \<le> i \<and> i < e))"
    by (auto simp: window_def)
  then show "\<exists>a e. e \<le> length bs \<and> (\<forall>i<length bs. bs ! i = (b = (a \<le> i \<and> i < e)))"
    by (intro exI [of _ a] exI [of _ "min e (length bs)"]) auto
qed (auto simp: window_def)

text \<open>The two halves after the compare loop, for any window.\<close>

lemma cleaned_halves:
  assumes "window b bs" "length bs = 2 * h"
  defines "ys \<equiv> compare_loop blt True h h bs"
  shows "set (take h ys) \<subseteq> {False} \<and> (\<exists>b. window b (drop h ys))
    \<or> set (drop h ys) \<subseteq> {True} \<and> (\<exists>b. window b (take h ys))"
proof -
  obtain a e where w: "e \<le> 2 * h" "\<forall>i<2 * h. bs ! i = (b = (a \<le> i \<and> i < e))"
    using assms by (auto simp: window_clip)
  have l: "take h ys ! i = (bs ! i \<and> bs ! (h + i))" and u: "drop h ys ! i = (bs ! i \<or> bs ! (h + i))"
    if "i < h" for i
    using that assms(2) by (simp_all add: ys_def nth_compare_loop blt_lo_hi)
  have len: "length (take h ys) = h" "length (drop h ys) = h"
    using assms(2) by (simp_all add: ys_def)
  have const: "set zs \<subseteq> {c}" if "length zs = h" "\<forall>i<h. zs ! i = c" for zs and c :: bool
    using that by (auto simp: in_set_conv_nth)
  show ?thesis
  proof (cases b)
    case True
    from half_cleaner [OF w(1), of a] show ?thesis
    proof (elim disjE conjE exE)
      fix b' a' e'
      assume "\<forall>i<h. \<not> ((a \<le> i \<and> i < e) \<and> a \<le> h + i \<and> h + i < e)"
        "\<forall>i<h. ((a \<le> i \<and> i < e) \<or> a \<le> h + i \<and> h + i < e) = (b' = (a' \<le> i \<and> i < e'))"
      then have "\<forall>i<h. take h ys ! i = False" "\<forall>i<h. drop h ys ! i = (b' = (a' \<le> i \<and> i < e'))"
        using l u w(2) True by auto
      then show ?thesis using const [OF len(1)] len(2) unfolding window_def by metis
    next
      fix a' e'
      assume "\<forall>i<h. (a \<le> i \<and> i < e) \<or> a \<le> h + i \<and> h + i < e"
        "\<forall>i<h. ((a \<le> i \<and> i < e) \<and> a \<le> h + i \<and> h + i < e) = (a' \<le> i \<and> i < e')"
      then have "\<forall>i<h. drop h ys ! i = True" "\<forall>i<h. take h ys ! i = (True = (a' \<le> i \<and> i < e'))"
        using l u w(2) True by auto
      then show ?thesis using const [OF len(2)] len(1) unfolding window_def by metis
    qed
  next
    case False
    from half_cleaner [OF w(1), of a] show ?thesis
    proof (elim disjE conjE exE)
      fix b' a' e'
      assume "\<forall>i<h. \<not> ((a \<le> i \<and> i < e) \<and> a \<le> h + i \<and> h + i < e)"
        "\<forall>i<h. ((a \<le> i \<and> i < e) \<or> a \<le> h + i \<and> h + i < e) = (b' = (a' \<le> i \<and> i < e'))"
      then have "\<forall>i<h. drop h ys ! i = True" "\<forall>i<h. take h ys ! i = ((\<not> b') = (a' \<le> i \<and> i < e'))"
        using l u w(2) False by auto
      then show ?thesis using const [OF len(2)] len(1) unfolding window_def by metis
    next
      fix a' e'
      assume "\<forall>i<h. (a \<le> i \<and> i < e) \<or> a \<le> h + i \<and> h + i < e"
        "\<forall>i<h. ((a \<le> i \<and> i < e) \<and> a \<le> h + i \<and> h + i < e) = (a' \<le> i \<and> i < e')"
      then have "\<forall>i<h. take h ys ! i = False" "\<forall>i<h. drop h ys ! i = (False = (a' \<le> i \<and> i < e'))"
        using l u w(2) False by auto
      then show ?thesis using const [OF len(1)] len(2) unfolding window_def by metis
    qed
  qed
qed

lemma merge2_sorts:
  "window b bs \<Longrightarrow> length bs = 2 ^ k \<Longrightarrow> bsorted (merge2 bs)"
proof (induction k arbitrary: b bs)
  case 0
  then show ?case by (simp add: BitonicMergePow2.simps bsorted_def)
next
  case (Suc k)
  define h where "h = (2::nat) ^ k"
  define ys where "ys = compare_loop blt True h h bs"
  have h: "length bs = 2 * h" "0 < h" using Suc.prems(2) by (simp_all add: h_def)
  have m: "merge2 bs = merge2 (take h ys) @ merge2 (drop h ys)"
    using h by (subst BitonicMergePow2.simps) (simp add: Let_def ys_def)
  have len: "length (take h ys) = 2 ^ k" "length (drop h ys) = 2 ^ k"
    using h by (simp_all add: ys_def h_def)
  from cleaned_halves [OF Suc.prems(1) h(1), folded ys_def] show ?case
  proof (elim disjE conjE exE)
    fix b' assume "set (take h ys) \<subseteq> {False}" "window b' (drop h ys)"
    then show ?thesis
      using Suc.IH [OF _ len(2)] bsorted_const [of "merge2 (take h ys)" False]
      by (auto simp: m bsorted_append merge2_set)
  next
    fix b' assume "set (drop h ys) \<subseteq> {True}" "window b' (take h ys)"
    then show ?thesis
      using Suc.IH [OF _ len(1)] bsorted_const [of "merge2 (drop h ys)" True]
      by (auto simp: m bsorted_append merge2_set)
  qed
qed

text \<open>Merging any list of the shape true, false, true.  The list is completed with true elements
  to the next power of two: the compare loop leaves the left half as the complete loop would,
  and the right half keeps the shape.\<close>

abbreviation merge :: "bool list \<Rightarrow> bool list" where
  "merge \<equiv> BitonicMerge blt True"

lemma merge_set: "set (merge bs) = set bs"
  by (metis mset_BitonicMerge set_mset_mset)

lemma merge_loop_pad:
  assumes "length bs = n" "h \<le> n" "n \<le> 2 * h"
  defines "ys \<equiv> compare_loop blt True h (n - h) bs"
    and "zs \<equiv> compare_loop blt True h h (bs @ replicate (2 * h - n) True)"
  shows "take h ys = take h zs" "drop h ys = take (n - h) (drop h zs)"
proof -
  have len: "length ys = n" "length zs = 2 * h"
    using assms by (simp_all add: ys_def zs_def)
  have "ys ! i = (bs ! i \<and> (h + i < n \<longrightarrow> bs ! (h + i)))"
    "zs ! i = (bs ! i \<and> (h + i < n \<longrightarrow> bs ! (h + i)))" if "i < h" for i
    using assms(1-3) that
    by (auto simp: ys_def zs_def nth_compare_loop nth_append blt_lo_hi)
  then show "take h ys = take h zs"
    using len assms(2,3) by (intro nth_equalityI) auto
  have "ys ! (h + i) = (bs ! i \<or> bs ! (h + i))" "zs ! (h + i) = (bs ! i \<or> bs ! (h + i))"
    if "i < n - h" for i
    using assms(1-3) that
    by (auto simp: ys_def zs_def nth_compare_loop nth_append blt_lo_hi)
  then show "drop h ys = take (n - h) (drop h zs)"
    using len assms(2,3) by (intro nth_equalityI) auto
qed

lemma window_pad: "window False bs \<Longrightarrow> window False (bs @ replicate k True)"
proof -
  assume "window False bs"
  then obtain a e where w: "e \<le> length bs" "\<forall>i<length bs. bs ! i = (False = (a \<le> i \<and> i < e))"
    unfolding window_clip by blast
  show ?thesis
    unfolding window_def
  proof (intro exI allI impI)
    fix i assume "i < length (bs @ replicate k True)"
    then show "(bs @ replicate k True) ! i = (False = (a \<le> i \<and> i < e))"
      using w by (cases "i < length bs") (simp_all add: nth_append)
  qed
qed

lemma window_take: "window b bs \<Longrightarrow> window b (take k bs)"
  by (auto simp: window_def)

text \<open>For a list with its false elements in one interval the right half has the same shape.\<close>

lemma cleaned_right_false:
  assumes "window False bs" "length bs = 2 * h"
  shows "window False (drop h (compare_loop blt True h h bs))"
proof -
  obtain a e where w: "\<forall>i<2 * h. bs ! i = (False = (a \<le> i \<and> i < e))"
    using assms by (auto simp: window_def)
  then have "\<forall>i<h. drop h (compare_loop blt True h h bs) ! i = (False = (a \<le> i \<and> i < e - h))"
    using assms(2) by (auto simp: nth_compare_loop blt_lo_hi)
  then show ?thesis using assms(2) by (auto simp: window_def)
qed

lemma merge_sorts:
  "window False bs \<Longrightarrow> length bs \<le> 2 ^ 63 \<Longrightarrow> bsorted (merge bs)"
proof (induction "length bs" arbitrary: bs rule: less_induct)
  case less
  show ?case
  proof (cases "length bs > 1")
    case True
    define n where "n = length bs"
    define h where "h = unat (GetNextPowerOfTwo (of_nat n)) div 2"
    define ys where "ys = compare_loop blt True h (n - h) bs"
    define ps where "ps = bs @ replicate (2 * h - n) True"
    define zs where "zs = compare_loop blt True h h ps"
    have n: "1 < n" "n \<le> 2 ^ 63" using True less.prems by (simp_all add: n_def)
    note h = half_bounds [OF n, folded h_def]
    have m: "merge bs = merge2 (take h ys) @ merge (drop h ys)"
      using n by (subst BitonicMerge.simps) (simp add: Let_def ys_def h_def n_def)
    have ps: "window False ps" "length ps = 2 * h"
      using window_pad [OF less.prems(1)] h(3) by (simp_all add: ps_def n_def)
    have halves: "take h ys = take h zs" "drop h ys = take (n - h) (drop h zs)"
      using merge_loop_pad [of bs n h] h by (simp_all add: n_def ys_def zs_def ps_def)
    have right: "window False (drop h ys)"
      using cleaned_right_false [OF ps] by (simp add: halves window_take zs_def)
    then have R: "bsorted (merge (drop h ys))"
      using less.hyps [of "drop h ys"] h n by (simp add: n_def ys_def)
    have L: "bsorted (merge2 (take h zs))" if "window b (take h zs)" for b
      using that h ps(2) by (intro merge2_sorts [of b]) (simp_all add: zs_def)
    from cleaned_halves [OF ps, folded zs_def] show ?thesis
    proof (elim disjE conjE exE)
      assume "set (take h zs) \<subseteq> {False}"
      then show ?thesis
        using R bsorted_const [of "merge2 (take h zs)" False]
        by (auto simp: m bsorted_append halves(1) merge2_set)
    next
      fix b assume "set (drop h zs) \<subseteq> {True}" "window b (take h zs)"
      moreover from this have "set (drop h ys) \<subseteq> {True}"
        using set_take_subset [of "n - h" "drop h zs"] by (auto simp: halves(2))
      ultimately show ?thesis
        using R L by (auto simp: m bsorted_append halves(1) merge_set)
    qed
  qed (auto simp: BitonicMerge.simps bsorted_def)
qed

section \<open>Sorting\<close>

text \<open>Two sorted boolean lists, the first in the opposite direction, have the shape the merger
  needs.\<close>

lemma bsorted_window: "bsorted bs \<Longrightarrow> \<exists>e. \<forall>i<length bs. bs ! i = (e \<le> i)"
proof (cases "\<exists>i<length bs. bs ! i")
  case True
  assume s: "bsorted bs"
  define e where "e = (LEAST i. i < length bs \<and> bs ! i)"
  have e: "e < length bs" "bs ! e" using LeastI_ex [of "\<lambda>i. i < length bs \<and> bs ! i"] True by (auto simp: e_def)
  have "bs ! i = (e \<le> i)" if "i < length bs" for i
    using s e that Least_le [of "\<lambda>i. i < length bs \<and> bs ! i" i]
    by (cases "e = i") (auto simp: bsorted_def e_def [symmetric] le_less)
  then show ?thesis by blast
next
  case False
  then show ?thesis by (intro exI [of _ "length bs"]) auto
qed

lemma window_valley:
  assumes "bsorted (map Not xs)" "bsorted ys"
  shows "window False (xs @ ys)"
proof -
  obtain a where a: "\<forall>i<length xs. map Not xs ! i = (a \<le> i)"
    using bsorted_window [OF assms(1)] by auto
  obtain e where e: "\<forall>i<length ys. ys ! i = (e \<le> i)"
    using bsorted_window [OF assms(2)] by auto
  show ?thesis
    unfolding window_def
  proof (rule exI [of _ "min a (length xs)"], rule exI [of _ "length xs + e"], intro allI impI)
    fix i assume "i < length (xs @ ys)"
    then show "(xs @ ys) ! i = (False = (min a (length xs) \<le> i \<and> i < length xs + e))"
      using a e by (cases "i < length xs") (auto simp: nth_append)
  qed
qed

lemma BitonicSort_bool: "length bs \<le> 2 ^ 63 \<Longrightarrow> bsorted (BitonicSort blt True bs)"
proof (induction "length bs" arbitrary: bs rule: less_induct)
  case less
  show ?case
  proof (cases "length bs > 1")
    case True
    define l where "l = BitonicSort blt False (take (length bs div 2) bs)"
    define r where "r = BitonicSort blt True (drop (length bs div 2) bs)"
    have "map Not l = BitonicSort blt True (map Not (take (length bs div 2) bs))"
      using neg.hom_BitonicSort [of False] by (simp add: l_def)
    then have "bsorted (map Not l)" "bsorted r"
      using less True by (simp_all add: r_def)
    then have "window False (l @ r)" by (rule window_valley)
    moreover have "length (l @ r) = length bs" by (simp add: l_def r_def)
    ultimately have "bsorted (merge (l @ r))" using less.prems by (intro merge_sorts) simp_all
    then show ?thesis
      using True by (subst BitonicSort.simps) (simp add: Let_def l_def r_def)
  qed (simp add: BitonicSort.simps bsorted_def)
qed

context key_order
begin

lemma BitonicSort_ascending:
  "length xs \<le> 2 ^ 63 \<Longrightarrow> sorted (map key (BitonicSort cmp True xs))"
  by (rule zero_one_sorted) (simp add: th.hom_BitonicSort BitonicSort_bool)

lemma BitonicSort_descending:
  assumes "length xs \<le> 2 ^ 63"
  shows "sorted (rev (map key (BitonicSort cmp False xs)))"
proof (rule zero_one_rev_sorted)
  fix t
  define bs where "bs = BitonicSort blt False (map (thr t) xs)"
  have "bsorted (map Not bs)"
    using neg.hom_BitonicSort [of False "map (thr t) xs"] BitonicSort_bool assms by (simp add: bs_def)
  then have "bsorted (rev bs)" by (rule bsorted_rev)
  then show "bsorted (rev (map (thr t) (BitonicSort cmp False xs)))"
    by (simp add: th.hom_BitonicSort bs_def)
qed

end

context key_order
begin

lemma bsorted_thr: "sorted (map key ys) \<Longrightarrow> bsorted (map (thr t) ys)"
  by (auto simp: bsorted_def thr_def sorted_iff_nth_mono_less intro: order.trans)

lemma bsorted_thr_rev: "sorted (rev (map key xs)) \<Longrightarrow> bsorted (map Not (map (thr t) xs))"
  using sorted_rev_iff_nth_mono [of "map key xs"]
  by (auto simp: bsorted_def thr_def not_le) (metis le_less_trans less_imp_le)

lemma BitonicMerge_valley:
  assumes "sorted (rev (map key xs))" "sorted (map key ys)" "length (xs @ ys) \<le> 2 ^ 63"
  shows "sorted (map key (BitonicMerge cmp True (xs @ ys)))"
proof (rule zero_one_sorted)
  fix t
  have "window False (map (thr t) xs @ map (thr t) ys)"
    using assms by (intro window_valley bsorted_thr bsorted_thr_rev)
  then show "bsorted (map (thr t) (BitonicMerge cmp True (xs @ ys)))"
    using assms(3) merge_sorts [of "map (thr t) xs @ map (thr t) ys"]
    by (simp add: th.hom_BitonicMerge)
qed

end

interpretation tag_order: key_order cmpTag tag
  by unfold_locales (simp_all add: cmpTag_def)

interpretation less_order: key_order "(<) :: 'k::linorder \<Rightarrow> 'k \<Rightarrow> bool" id
  by unfold_locales simp_all

section \<open>Properties\<close>

text \<open>(C7) \<open>BitonicSort\<close> sorts: for a comparator that holds when the key of its first argument is smaller and
  does not hold when it is larger, whatever it answers on equal keys, the result is a permutation of the input and is ordered by the key,
  ascending when \<open>dire\<close> is true and descending otherwise, for every length and not only for
  powers of two.\<close>

theorem BitonicSort_sorts:
  fixes key :: "'a \<Rightarrow> 'k::linorder"
  assumes "\<And>a b. key a < key b \<Longrightarrow> cmp a b" "\<And>a b. key b < key a \<Longrightarrow> \<not> cmp a b" and "length xs \<le> 2 ^ 63"
  shows "mset (BitonicSort cmp dire xs) = mset xs
    \<and> sorted (map key (if dire then BitonicSort cmp dire xs else rev (BitonicSort cmp dire xs)))"
proof -
  have k: "key_order cmp key" using assms(1,2) by unfold_locales
  show ?thesis
    using key_order.BitonicSort_ascending [OF k assms(3)]
      key_order.BitonicSort_descending [OF k assms(3)] by (simp add: rev_map)
qed

theorem BitonicSort_sorts_witness:
  "mset (BitonicSort (\<lambda>a b. a < b) False [3, 1, 2 :: nat]) = mset [3, 1, 2]
    \<and> sorted (map id (rev (BitonicSort (\<lambda>a b. a < b) False [3, 1, 2 :: nat])))"
  using BitonicSort_sorts [of id "\<lambda>a b. a < b" "[3, 1, 2 :: nat]" False] by simp

text \<open>\<open>BitonicMerge\<close> merges: from a range that is descending and then ascending, of any length,
  it produces the sorted range.\<close>

lemma BitonicMerge_merges:
  fixes key :: "'a \<Rightarrow> 'k::linorder"
  assumes "\<And>a b. key a < key b \<Longrightarrow> cmp a b" "\<And>a b. key b < key a \<Longrightarrow> \<not> cmp a b"
    and "sorted (rev (map key xs))" "sorted (map key ys)" "length (xs @ ys) \<le> 2 ^ 63"
  shows "sorted (map key (BitonicMerge cmp True (xs @ ys)))"
proof -
  have k: "key_order cmp key" using assms(1,2) by unfold_locales
  show ?thesis using key_order.BitonicMerge_valley [OF k assms(3-5)] .
qed

text \<open>(C32) \<open>BitonicShuffle\<close> returns its input in the order of the random tags: the pairs of tags and
  elements are permuted so that the tags ascend.\<close>

theorem BitonicShuffle_by_tags:
  assumes "length rnd = length xs" "length xs \<le> 2 ^ 63"
  shows "\<exists>ys. mset ys = mset (zip rnd xs) \<and> sorted (map fst ys) \<and> BitonicShuffle rnd xs = map snd ys"
proof -
  define td where "td = map2 (\<lambda>r x. \<lparr>tag = r, v = x\<rparr>) rnd xs"
  define ys where "ys = map (\<lambda>t. (tag t, v t)) (BitonicSort cmpTag True td)"
  have "mset ys = image_mset (\<lambda>t. (tag t, v t)) (mset td)" by (simp add: ys_def)
  also have "\<dots> = mset (zip rnd xs)" by (simp add: td_def comp_def case_prod_unfold flip: mset_map)
  finally have "mset ys = mset (zip rnd xs)" .
  moreover have "sorted (map fst ys)"
    using tag_order.BitonicSort_ascending [of td] assms by (simp add: ys_def td_def comp_def)
  moreover have "BitonicShuffle rnd xs = map snd ys"
    by (simp add: BitonicShuffle_def Let_def ys_def td_def comp_def)
  ultimately show ?thesis by blast
qed

theorem BitonicShuffle_by_tags_witness:
  "\<exists>ys. mset ys = mset (zip [7, 3, 5 :: u64] ''abc'') \<and> sorted (map fst ys) \<and> BitonicShuffle [7, 3, 5] ''abc'' = map snd ys"
  by (rule BitonicShuffle_by_tags) simp_all

end
