(* ===== verification/Or_Compact.thy ===== *)
theory Or_Compact
  imports Sort_Network Pow2
begin

text \<open>
  Oblivious compaction and shuffling (\<open>or_compact_shuffle.hpp\<close>): \<open>OrOffCompactSeparateMark\<close>,
  \<open>OrCompactSeparateMark\<close>, \<open>OrCompact\<close> and \<open>OrShuffle\<close>.  The marks are given by their prefix sums,
  one more than there are elements; the iterator into them is the list of the prefix sums from
  that position on.  The sums are machine words: \<open>OrCompact\<close> keeps them in a 32-bit \<open>MarkType\<close>,
  \<open>OrShuffle\<close> in \<open>size_t\<close>, and the functions that read them are generic in the width.  Compaction is proved to bring the marked elements to the front in their
  order and to permute the input.
\<close>

section \<open>Definitions\<close>

text \<open>The function is called on ranges whose length is a power of two, at least 2; below that the
  code divides by zero, and the model returns the range.  The sum in the middle is read into a
  \<open>size_t\<close>, so that the differences are taken at 64 bits.\<close>

function OrOffCompactSeparateMark :: "'a list \<Rightarrow> 'w::len word list \<Rightarrow> nat \<Rightarrow> 'a list" where
  "OrOffCompactSeparateMark xs marks z =
    (let n = length xs;
         valMarkMid = (ucast (marks ! (n div 2)) :: u64);
         m = unat (valMarkMid - ucast (marks ! 0))
     in if n < 2 then xs
        else if n = 2
        then let swapFlag = ((of_bool (m = 0) AND unat (ucast (marks ! 2) - valMarkMid)) \<noteq> z)
             in condSwapAt swapFlag 0 1 xs
        else let zLeft = z mod (n div 2);
                 zRight = (z + m) mod (n div 2);
                 left = OrOffCompactSeparateMark (take (n div 2) xs) marks zLeft;
                 right = OrOffCompactSeparateMark (drop (n div 2) xs) (drop (n div 2) marks) zRight;
                 s = ((zLeft + m \<ge> n div 2) \<noteq> (z \<ge> n div 2))
             in swap_loop (\<lambda>i. s \<noteq> (i \<ge> zRight)) (n div 2) (n div 2) (left @ right))"
  by pat_completeness auto
termination by (relation "measure (\<lambda>(xs, ms, z). length xs)") auto

declare OrOffCompactSeparateMark.simps [simp del]

text \<open>The size \<open>1 << GetLogBaseTwo (n)\<close> is taken modulo the word size, as in the code; a range of
  more than \<open>2^64 - 1\<close> elements does not exist.  The difference of two sums has their width.\<close>

function OrCompactSeparateMark :: "'a list \<Rightarrow> 'w::len word list \<Rightarrow> 'a list" where
  "OrCompactSeparateMark xs marks =
    (let n = length xs
     in if n \<le> 1 \<or> 2 ^ 64 \<le> n then xs
        else let n1 = unat (push_bit (unat (GetLogBaseTwo (of_nat n))) 1 :: u64);
                 n2 = n - n1
             in if n2 = 0 then OrOffCompactSeparateMark xs marks 0
                else let m = unat (marks ! n2 - marks ! 0);
                         left = OrCompactSeparateMark (take n2 xs) marks;
                         right = OrOffCompactSeparateMark (drop n2 xs) (drop n2 marks) ((n1 - n2 + m) mod n1)
                     in swap_loop (\<lambda>i. i \<ge> m) n1 n2 (left @ right))"
  by pat_completeness auto

lemma log_size:
  assumes "0 < n" "n < 2 ^ 64"
  defines "n1 \<equiv> unat (push_bit (unat (GetLogBaseTwo (of_nat n))) 1 :: u64)"
  shows "n1 \<le> n" "n < 2 * n1" "\<exists>k. n1 = 2 ^ k"
proof -
  define k where "k = unat (GetLogBaseTwo (of_nat n))"
  have u: "unat (of_nat n :: u64) = n" using assms(2) by (simp only: unat_of_nat) simp
  then have nz: "(of_nat n :: u64) \<noteq> 0" using assms(1) by (metis unat_0 less_irrefl)
  note b = GetLogBaseTwo_bounds [OF nz, unfolded u, folded k_def]
  have "(2::nat) ^ k < 2 ^ 64" using b(1) assms(2) by linarith
  then have "k < 64" by (rule power_less_imp_less_exp [rotated]) simp
  then have "n1 = 2 ^ k"
    unfolding n1_def k_def [symmetric] push_bit_of_1 by (rule unat_pow2)
  then show "n1 \<le> n" "n < 2 * n1" "\<exists>k. n1 = 2 ^ k" using b by auto
qed

termination OrCompactSeparateMark
proof (relation "measure (\<lambda>(xs, ms). length xs)")
  fix xs :: "'a list" and marks :: "'w::len word list" and n n1 n2 m
  assume "n = length xs" "\<not> (n \<le> 1 \<or> 2 ^ 64 \<le> n)" "n2 \<noteq> 0" "n2 = n - n1"
    "n1 = unat (push_bit (unat (GetLogBaseTwo (of_nat n))) 1 :: u64)"
  then show "((take n2 xs, marks), (xs, marks)) \<in> measure (\<lambda>(xs, ms). length xs)"
    using log_size(2) [of n] by (cases "n1 = 0") (auto simp del: push_bit_of_1)
qed simp

declare OrCompactSeparateMark.simps [simp del]

text \<open>The prefix sums of the marks, in the 32-bit \<open>MarkType\<close> of \<open>OrCompact\<close>, in which they wrap around.
  The code asserts that the range has fewer than \<open>2^32 - 1\<close> elements (\<open>Assert\<close> is compiled away in
  a release build); for such a range no sum wraps.\<close>

fun mark_prefix :: "('a \<Rightarrow> bool) \<Rightarrow> u32 \<Rightarrow> 'a list \<Rightarrow> u32 list" where
  "mark_prefix isMarked prefixSum [] = [prefixSum]"
| "mark_prefix isMarked prefixSum (x # xs) =
    prefixSum # mark_prefix isMarked (prefixSum + of_bool (isMarked x)) xs"

definition OrCompact :: "('a \<Rightarrow> bool) \<Rightarrow> 'a list \<Rightarrow> 'a list" where
  "OrCompact isMarked xs =
    (let n = length xs
     in if n \<le> 1 then xs
        else OrCompactSeparateMark xs (mark_prefix isMarked 0 xs))"

text \<open>\<open>OrShuffle\<close> draws from the random generator: \<open>rand64\<close> and \<open>rand1\<close> return a draw and the next
  generator state.  The loop over \<open>N = n, ..., 1\<close> marks exactly half of the elements.\<close>

definition UniformRandom :: "('g \<Rightarrow> u64 \<times> 'g) \<Rightarrow> u64 \<Rightarrow> u64 \<Rightarrow> 'g \<Rightarrow> u64 \<times> 'g" where
  "UniformRandom rand64 left right g =
    (case rand64 g of (r, g) \<Rightarrow> (r mod (right - left + 1) + left, g))"

fun or_choose :: "('g \<Rightarrow> u64 \<times> 'g) \<Rightarrow> nat \<Rightarrow> nat \<Rightarrow> nat \<Rightarrow> 'g \<Rightarrow> nat list \<times> 'g" where
  "or_choose rand64 0 k currsum g = ([], g)"
| "or_choose rand64 (Suc N) k currsum g =
    (let (r, g) = UniformRandom rand64 0 (of_nat (Suc N - 1)) g;
         chooseFlag = (unat r < k);
         k = (if chooseFlag then k - 1 else k);
         currsum = (if chooseFlag then currsum + 1 else currsum);
         (ms, g) = or_choose rand64 N k currsum g
     in (currsum # ms, g))"

function OrShuffle ::
  "('g \<Rightarrow> u64 \<times> 'g) \<Rightarrow> ('g \<Rightarrow> bool \<times> 'g) \<Rightarrow> 'a list \<Rightarrow> 'g \<Rightarrow> 'a list \<times> 'g" where
  "OrShuffle rand64 rand1 xs g =
    (let n = length xs
     in if n \<le> 1 then (xs, g)
        else if n = 2 then (case rand1 g of (flag, g) \<Rightarrow> (condSwapAt flag 0 1 xs, g))
        else let halfSize = n div 2;
                 k = halfSize;
                 (ms, g) = or_choose rand64 n k 0 g;
                 xs = OrCompactSeparateMark xs (0 # map of_nat ms :: u64 list);
                 (left, g) = OrShuffle rand64 rand1 (take halfSize xs) g;
                 (right, g) = OrShuffle rand64 rand1 (drop halfSize xs) g
             in (left @ right, g))"
  by pat_completeness auto

text \<open>Compaction by distances (the internal-memory version of Goodrich's algorithm).\<close>

definition goodrich_dist :: "('a \<Rightarrow> bool) \<Rightarrow> 'a list \<Rightarrow> nat list" where
  "goodrich_dist isMarked xs =
    fst (foldl (\<lambda>(dist, numMarked) i.
        (dist @ [i - numMarked], if isMarked (xs ! i) then numMarked + 1 else numMarked))
      ([], 0) [0..<length xs])"

definition GoodrichCompact :: "('a \<Rightarrow> bool) \<Rightarrow> 'a list \<Rightarrow> 'a list" where
  "GoodrichCompact isMarked xs =
    (let n = length xs;
         dist = goodrich_dist isMarked xs;
         level = unat (GetLogBaseTwo (GetNextPowerOfTwo (of_nat n)))
     in fst (foldl (\<lambda>(xs, dist) i.
          foldl (\<lambda>(xs, dist) j.
            let jMarked = isMarked (xs ! j);
                swapFlag = (jMarked \<and> (dist ! j AND (2 * 2 ^ i - 1)) \<noteq> 0);
                xs = condSwapAt swapFlag j (j - 2 ^ i) xs;
                dist = (if swapFlag
                        then dist[j - 2 ^ i := push_bit (i + 1) (drop_bit (i + 1) (dist ! j))]
                        else dist)
            in (xs, dist)) (xs, dist) [2 ^ i..<n]) (xs, dist) [0..<level]))"

section \<open>Correctness of the compaction at an offset\<close>

text \<open>The list of prefix sums that belongs to a range and a marking.\<close>

definition prefix_sums :: "('a \<Rightarrow> bool) \<Rightarrow> nat \<Rightarrow> 'a list \<Rightarrow> 'w::len word list \<Rightarrow> bool" where
  "prefix_sums P b xs ms \<longleftrightarrow>
    length xs < length ms \<and> (\<forall>i\<le>length xs. unat (ms ! i) = b + length (filter P (take i xs)))"

lemma prefix_sums_nth:
  "prefix_sums P b xs ms \<Longrightarrow> i \<le> length xs \<Longrightarrow> unat (ms ! i) = b + length (filter P (take i xs))"
  by (simp add: prefix_sums_def)

lemma unat_minus: "unat y \<le> unat x \<Longrightarrow> unat (x - y) = unat x - unat y"
  by (simp add: unat_sub word_le_nat_alt)

lemma unat_ucast_minus:
  fixes x y :: "'w::len word"
  assumes "unat y \<le> unat x" "LENGTH('w) \<le> 64"
  shows "unat (ucast x - ucast y :: u64) = unat x - unat y"
proof -
  have u: "unat (ucast z :: u64) = unat z" for z :: "'w word"
  proof -
    have "unat z < 2 ^ LENGTH('w)" by (rule unsigned_less)
    also have "\<dots> \<le> 2 ^ 64" using assms(2) by (intro power_increasing) auto
    finally show ?thesis by (simp add: unsigned_ucast_eq take_bit_nat_eq_self)
  qed
  then show ?thesis using assms(1) by (simp add: unat_minus)
qed

lemma prefix_sums_diff:
  fixes ms :: "'w::len word list"
  assumes "prefix_sums P b xs ms" "i \<le> j" "j \<le> length xs"
  shows "unat (ms ! j - ms ! i) = length (filter P (take (j - i) (drop i xs)))"
    "LENGTH('w) \<le> 64 \<Longrightarrow>
      unat (ucast (ms ! j) - ucast (ms ! i) :: u64) = length (filter P (take (j - i) (drop i xs)))"
proof -
  have "take j xs = take i xs @ take (j - i) (drop i xs)"
    using assms(2) by (simp add: take_add [symmetric])
  then have "unat (ms ! j) = unat (ms ! i) + length (filter P (take (j - i) (drop i xs)))"
    using prefix_sums_nth [OF assms(1), of i] prefix_sums_nth [OF assms(1), of j] assms(2,3) by simp
  then show "unat (ms ! j - ms ! i) = length (filter P (take (j - i) (drop i xs)))"
    "LENGTH('w) \<le> 64 \<Longrightarrow>
      unat (ucast (ms ! j) - ucast (ms ! i) :: u64) = length (filter P (take (j - i) (drop i xs)))"
    by (simp_all add: unat_minus unat_ucast_minus)
qed

lemma prefix_sums_take: "prefix_sums P b xs ms \<Longrightarrow> prefix_sums P b (take k xs) ms"
  by (auto simp: prefix_sums_def min_def)

lemma prefix_sums_drop:
  assumes "prefix_sums P b xs ms" "k \<le> length xs"
  shows "prefix_sums P (b + length (filter P (take k xs))) (drop k xs) (drop k ms)"
proof -
  have "unat (drop k ms ! i) = b + length (filter P (take k xs)) + length (filter P (take i (drop k xs)))"
    if "i \<le> length (drop k xs)" for i
    using assms that prefix_sums_nth [OF assms(1), of "k + i"]
    by (simp add: prefix_sums_def take_add)
  then show ?thesis using assms unfolding prefix_sums_def by auto
qed

lemma mark_prefix_sums:
  "unat b + length xs < 2 ^ 32 \<Longrightarrow> prefix_sums P (unat b) xs (mark_prefix P b xs)"
proof (induction P b xs rule: mark_prefix.induct)
  case (2 P b x xs)
  have "unat (b + of_bool (P x)) = unat b + of_bool (P x)"
    using 2(2) by (cases "P x") (simp_all add: unat_plus_simple [THEN iffD1] unat_word_ariths)
  then show ?case using 2 by (auto simp: prefix_sums_def nth_Cons split: nat.split)
qed (simp add: prefix_sums_def)

text \<open>The marked elements lie, in order, at the cyclic positions from \<open>z\<close> on.\<close>

definition placed :: "nat \<Rightarrow> 'a list \<Rightarrow> 'a list \<Rightarrow> bool" where
  "placed z ms ys \<longleftrightarrow> (\<forall>j<length ms. ys ! ((z + j) mod length ys) = ms ! j)"

lemma mod_2h: "x < 2 * h \<Longrightarrow> x mod h = (if h \<le> x then x - h else x)" for x h :: nat
  by (cases "h \<le> x") (auto simp: le_mod_geq)

text \<open>The arithmetic of one level: where the element that the left or the right half holds at
  the position \<open>i\<close> has to go.\<close>

lemma off_left_arith:
  fixes h m j zL :: nat
  assumes "zL < h" "m \<le> h" "j < m"
    and "zR = (if h \<le> zL + m then zL + m - h else zL + m)"
    and "i = (if h \<le> zL + j then zL + j - h else zL + j)"
  shows "(zL + j + (if c then h else 0)) mod (2 * h) =
    (if ((zL + m \<ge> h) \<noteq> c) \<noteq> (i \<ge> zR) then h + i else i)"
proof -
  have "(zL + j + (if c then h else 0)) mod (2 * h) =
      (if 2 * h \<le> zL + j + (if c then h else 0) then zL + j + (if c then h else 0) - 2 * h
       else zL + j + (if c then h else 0))"
    using assms(1-3) by (intro mod_2h) auto
  then show ?thesis
    using assms by (cases c; cases "h \<le> zL + m"; cases "h \<le> zL + j") auto
qed

lemma off_left_position:
  fixes h z m j :: nat
  assumes "z < 2 * h" "m \<le> h" "j < m"
  defines "zL \<equiv> z mod h" and "zR \<equiv> (z + m) mod h"
  defines "i \<equiv> (zL + j) mod h" and "s \<equiv> (zL + m \<ge> h) \<noteq> (z \<ge> h)"
  shows "(z + j) mod (2 * h) = (if s \<noteq> (i \<ge> zR) then h + i else i)" "i < h"
proof -
  have h: "0 < h" using assms(1) by auto
  have zL: "z = zL + (if h \<le> z then h else 0)" "zL < h"
    using assms(1) h mod_2h [OF assms(1)] by (auto simp: zL_def)
  have zR: "zR = (if h \<le> zL + m then zL + m - h else zL + m)"
  proof -
    have "zR = (zL + m) mod h" by (simp add: zR_def zL_def mod_add_left_eq)
    then show ?thesis using zL(2) assms(2) mod_2h [of "zL + m" h] by simp
  qed
  have i: "i = (if h \<le> zL + j then zL + j - h else zL + j)" "i < h"
    using zL(2) assms(2,3) h mod_2h [of "zL + j" h] by (auto simp: i_def)
  have "z + j = zL + j + (if h \<le> z then h else 0)" using zL(1) by linarith
  then have "(z + j) mod (2 * h) = (zL + j + (if h \<le> z then h else 0)) mod (2 * h)" by (rule arg_cong)
  also have "\<dots> = (if s \<noteq> (i \<ge> zR) then h + i else i)"
    unfolding s_def using off_left_arith [OF zL(2) assms(2,3) zR i(1)] .
  finally show "(z + j) mod (2 * h) = (if s \<noteq> (i \<ge> zR) then h + i else i)" .
  show "i < h" by (rule i(2))
qed

lemma off_right_position:
  fixes h z m j :: nat
  assumes "z < 2 * h" "m \<le> h" "j < h"
  defines "zL \<equiv> z mod h" and "zR \<equiv> (z + m) mod h"
  defines "i \<equiv> (zR + j) mod h" and "s \<equiv> (zL + m \<ge> h) \<noteq> (z \<ge> h)"
  shows "(z + (m + j)) mod (2 * h) = (if s \<noteq> (i \<ge> zR) then i else h + i)" "i < h"
proof -
  have h: "0 < h" using assms(1) by auto
  have zL: "zL = (if h \<le> z then z - h else z)" "zL < h"
    using assms(1) h mod_2h [OF assms(1)] by (auto simp: zL_def)
  have zR: "zR = (if h \<le> zL + m then zL + m - h else zL + m)" "zR < h"
  proof -
    have "zR = (zL + m) mod h" by (simp add: zR_def zL_def mod_add_left_eq)
    then show "zR = (if h \<le> zL + m then zL + m - h else zL + m)" "zR < h"
      using zL(2) assms(2) h mod_2h [of "zL + m" h] by auto
  qed
  have i: "i = (if h \<le> zR + j then zR + j - h else zR + j)" "i < h"
    using zR(2) assms(3) h mod_2h [of "zR + j" h] by (auto simp: i_def)
  have "(z + (m + j)) mod (2 * h) = (zR + j + (if s then h else 0)) mod (2 * h)"
  proof -
    have "z + (m + j) = zR + j + (if s then h else 0) + (if h \<le> z \<and> h \<le> zL + m then 2 * h else 0)"
      using zL zR assms(1-3) unfolding s_def by (auto split: if_splits)
    then have "(z + (m + j)) mod (2 * h) =
        (zR + j + (if s then h else 0) + (if h \<le> z \<and> h \<le> zL + m then 2 * h else 0)) mod (2 * h)"
      by (rule arg_cong)
    also have "\<dots> = (zR + j + (if s then h else 0)) mod (2 * h)"
      by (cases "h \<le> z \<and> h \<le> zL + m") (simp_all only: simp_thms if_True if_False mod_add_self2 add_0_right)
    finally show ?thesis .
  qed
  also have "\<dots> = (if s \<noteq> (i \<ge> zR) then i else h + i)"
    using zR(2) i assms(3) by (subst mod_2h) (auto split: if_splits)
  finally show "(z + (m + j)) mod (2 * h) = (if s \<noteq> (i \<ge> zR) then i else h + i)" .
  show "i < h" by (rule i(2))
qed

lemma length_OrOff [simp, len_simps]: "length (OrOffCompactSeparateMark xs ms z) = length xs"
proof (induction xs ms z rule: OrOffCompactSeparateMark.induct)
  case (1 xs ms z)
  then show ?case by (subst OrOffCompactSeparateMark.simps) (simp add: Let_def)
qed

lemma mset_OrOff [simp]: "mset (OrOffCompactSeparateMark xs ms z) = mset xs"
proof (induction xs ms z rule: OrOffCompactSeparateMark.induct)
  case (1 xs ms z)
  define h where "h = length xs div 2"
  show ?case
  proof (cases "length xs \<le> 2")
    case False
    then have h: "h + h \<le> length xs" "h < length xs" by (auto simp: h_def)
    have "mset (take h xs) + mset (drop h xs) = mset xs"
      by (metis append_take_drop_id mset_append)
    then show ?thesis
      using 1 False h by (subst OrOffCompactSeparateMark.simps) (simp add: Let_def flip: h_def)
  qed (subst OrOffCompactSeparateMark.simps, auto simp: Let_def)
qed

lemma of_bool_and_nat: "(of_bool p AND of_bool q :: nat) = of_bool (p \<and> q)"
  by auto

lemma placed_pair:
  fixes ms :: "'w::len word list"
  assumes "length xs = 2" "prefix_sums P b xs ms" "z < 2" "LENGTH('w) \<le> 64"
  shows "placed z (filter P xs) (OrOffCompactSeparateMark xs ms z)"
proof -
  obtain x y where xs: "xs = [x, y]" using assms(1) by (auto simp: length_Suc_conv numeral_2_eq_2)
  have m: "unat (ucast (ms ! 1) - ucast (ms ! 0) :: u64) = of_bool (P x)"
    "unat (ucast (ms ! 2) - ucast (ms ! 1) :: u64) = of_bool (P y)"
    using prefix_sums_diff(2) [OF assms(2), of 0 1] prefix_sums_diff(2) [OF assms(2), of 1 2] assms(4)
    by (auto simp: xs)
  have "z = 0 \<or> z = 1" using assms(3) by auto
  then show ?thesis
    using m unfolding xs
    by (subst OrOffCompactSeparateMark.simps)
      (auto simp: placed_def Let_def condSwapAt_def condSwap_def of_bool_and_nat nth_Cons
        less_Suc_eq split: nat.splits)
qed

lemma placed_OrOff:
  fixes ms :: "'w::len word list"
  assumes "length xs = 2 ^ Suc k" "prefix_sums P b xs ms" "z < 2 ^ Suc k" "LENGTH('w) \<le> 64"
  shows "placed z (filter P xs) (OrOffCompactSeparateMark xs ms z)"
  using assms
proof (induction k arbitrary: xs b ms z)
  case 0
  then show ?case by (simp add: placed_pair)
next
  case (Suc k)
  define h where "h = (2::nat) ^ Suc k"
  have h: "length xs = 2 * h" "2 \<le> h" "z < 2 * h" "length xs div 2 = h"
    using Suc.prems by (simp_all add: h_def)
  define m where "m = length (filter P (take h xs))"
  define zL where "zL = z mod h"
  define zR where "zR = (z + m) mod h"
  define L where "L = OrOffCompactSeparateMark (take h xs) ms zL"
  define R where "R = OrOffCompactSeparateMark (drop h xs) (drop h ms) zR"
  define s where "s \<longleftrightarrow> (zL + m \<ge> h) \<noteq> (z \<ge> h)"
  define out where "out = swap_loop (\<lambda>i. s \<noteq> (i \<ge> zR)) h h (L @ R)"
  have m: "unat (ucast (ms ! h) - ucast (ms ! 0) :: u64) = m" "m \<le> h"
    using prefix_sums_diff(2) [OF Suc.prems(2), of 0 h] Suc.prems(4) h length_filter_le [of P "take h xs"]
    by (simp_all add: m_def)
  have out: "OrOffCompactSeparateMark xs ms z = out"
    using h by (subst OrOffCompactSeparateMark.simps)
      (simp add: Let_def out_def L_def R_def s_def zL_def zR_def m)
  have len: "length L = h" "length R = h" "length out = 2 * h"
    using h by (simp_all add: L_def R_def out_def)
  have pos: "0 < h" using h by simp
  have pL: "placed zL (filter P (take h xs)) L"
    unfolding L_def using Suc.prems h pos
    by (intro Suc.IH [where b = b]) (simp_all add: h_def zL_def prefix_sums_take)
  have pR: "placed zR (filter P (drop h xs)) R"
    unfolding R_def using Suc.prems h pos prefix_sums_drop [OF Suc.prems(2), of h]
    by (intro Suc.IH) (simp_all add: h_def zR_def)
  have swap: "out ! i = (if s \<noteq> (i \<ge> zR) then R ! i else L ! i)"
    "out ! (h + i) = (if s \<noteq> (i \<ge> zR) then L ! i else R ! i)" if "i < h" for i
    using that len unfolding out_def
    by (simp_all add: nth_swap_loop nth_append)
  have f: "filter P xs = filter P (take h xs) @ filter P (drop h xs)"
    by (metis append_take_drop_id filter_append)
  have "out ! ((z + j) mod (2 * h)) = filter P xs ! j" if j: "j < length (filter P xs)" for j
  proof (cases "j < m")
    case True
    define i where "i = (zL + j) mod h"
    have p: "(z + j) mod (2 * h) = (if s \<noteq> (i \<ge> zR) then h + i else i)" "i < h"
      using off_left_position [OF h(3) m(2) True] by (simp_all only: i_def s_def zL_def zR_def)
    then have "out ! ((z + j) mod (2 * h)) = L ! i" using swap [of i] by auto
    also have "\<dots> = filter P xs ! j"
      using pL True len by (simp add: placed_def i_def m_def f nth_append)
    finally show ?thesis .
  next
    case False
    define j' where "j' = j - m"
    define i where "i = (zR + j') mod h"
    have j': "j = m + j'" "j' < length (filter P (drop h xs))"
      using False j by (auto simp: j'_def f m_def)
    then have jh: "j' < h" using length_filter_le [of P "drop h xs"] h by simp
    have p: "(z + j) mod (2 * h) = (if s \<noteq> (i \<ge> zR) then i else h + i)" "i < h"
      using off_right_position [OF h(3) m(2) jh] by (simp_all only: i_def s_def zL_def zR_def j'(1))
    then have "out ! ((z + j) mod (2 * h)) = R ! i" using swap [of i] by auto
    also have "\<dots> = filter P xs ! j"
      using pR j' len by (simp add: placed_def i_def m_def f nth_append)
    finally show ?thesis .
  qed
  then show ?case using len by (simp add: placed_def out)
qed

section \<open>Correctness of the compaction\<close>

lemma mset_OrCompactSeparateMark [simp]: "mset (OrCompactSeparateMark xs ms) = mset xs"
proof (induction xs ms rule: OrCompactSeparateMark.induct)
  case (1 xs ms)
  show ?case
  proof (cases "length xs \<le> 1 \<or> 2 ^ 64 \<le> length xs")
    case False
    define n1 where "n1 = unat (push_bit (unat (GetLogBaseTwo (of_nat (length xs)))) 1 :: u64)"
    define n2 where "n2 = length xs - n1"
    have "n1 \<le> length xs"
      unfolding n1_def using False by (intro log_size(1)) auto
    then have n: "n1 \<le> length xs" "n1 + n2 = length xs"
      by (simp_all add: n2_def)
    have "mset (take n2 xs) + mset (drop n2 xs) = mset xs"
      by (metis append_take_drop_id mset_append)
    moreover have "length (OrCompactSeparateMark (take n2 xs) ms) = min (length xs) n2" if "n2 \<noteq> 0"
      using arg_cong [OF 1 [OF refl False n1_def n2_def that refl], of size] by simp
    ultimately show ?thesis
      using 1 [OF refl False n1_def n2_def] False n
      by (subst OrCompactSeparateMark.simps)
        (simp add: Let_def flip: n1_def n2_def del: push_bit_of_1)
  qed (subst OrCompactSeparateMark.simps, auto simp: Let_def)
qed

lemma length_OrCompactSeparateMark [simp, len_simps]: "length (OrCompactSeparateMark xs ms) = length xs"
  by (metis mset_OrCompactSeparateMark size_mset)

lemma OrCompactSeparateMark_front:
  fixes ms :: "'w::len word list"
  assumes "prefix_sums P b xs ms" "length xs < 2 ^ 64" "LENGTH('w) \<le> 64"
  shows "take (length (filter P xs)) (OrCompactSeparateMark xs ms) = filter P xs"
  using assms
proof (induction "length xs" arbitrary: xs rule: less_induct)
  case less
  define n where "n = length xs"
  show ?case
  proof (cases "n \<le> 1")
    case True
    then show ?thesis
      by (subst OrCompactSeparateMark.simps) (cases xs; auto simp: n_def)
  next
    case False
    then have n: "0 < n" "n < 2 ^ 64" "1 < n" using less.prems(2) by (auto simp: n_def)
    define n1 where "n1 = unat (push_bit (unat (GetLogBaseTwo (of_nat n))) 1 :: u64)"
    define n2 where "n2 = n - n1"
    note sz = log_size [OF n(1,2), folded n1_def]
    obtain k where k: "n1 = 2 ^ k" using sz(3) by blast
    show ?thesis
    proof (cases "n2 = 0")
      case True
      then have "n = 2 ^ k" using sz k by (simp add: n2_def)
      then obtain k' where k': "n = 2 ^ Suc k'" using n(3) by (cases k) auto
      have "OrCompactSeparateMark xs ms = OrOffCompactSeparateMark xs ms 0"
        using n True by (subst OrCompactSeparateMark.simps)
          (simp add: Let_def n_def n1_def n2_def del: push_bit_of_1)
      then show ?thesis
        using placed_OrOff [of xs k' P b ms 0] less.prems(1,3) k' length_filter_le [of P xs]
        by (intro nth_equalityI) (auto simp: placed_def n_def)
    next
      case n2: False
      define m where "m = length (filter P (take n2 xs))"
      define L where "L = OrCompactSeparateMark (take n2 xs) ms"
      define R where "R = OrOffCompactSeparateMark (drop n2 xs) (drop n2 ms) ((n1 - n2 + m) mod n1)"
      define out where "out = swap_loop (\<lambda>i. i \<ge> m) n1 n2 (L @ R)"
      have s: "n2 < n1" "n = n1 + n2" "m \<le> n2" "0 < n1"
        using sz n2 length_filter_le [of P "take n2 xs"] by (auto simp: n2_def m_def n_def)
      have "unat (ms ! n2 - ms ! 0) = m"
        using prefix_sums_diff(1) [OF less.prems(1), of 0 n2] s by (simp add: m_def n_def)
      then have out: "OrCompactSeparateMark xs ms = out"
        using n n2 by (subst OrCompactSeparateMark.simps)
          (simp add: Let_def out_def L_def R_def n_def n1_def n2_def del: push_bit_of_1)
      have len: "length L = n2" "length R = n1" "length out = n"
        using s by (simp_all add: L_def R_def out_def n_def)
      have pL: "take m L = filter P (take n2 xs)"
        unfolding L_def m_def using less.hyps [of "take n2 xs"] s less.prems
        by (simp add: n_def prefix_sums_take)
      obtain k' where k': "n1 = 2 ^ Suc k'" using k s n2 by (cases k) auto
      have "(n1 - n2 + m) mod n1 < 2 ^ Suc k'"
        using s(4) by (simp only: k' [symmetric] mod_less_divisor)
      moreover have "length (drop n2 xs) = 2 ^ Suc k'"
        using s(2) by (simp only: k' [symmetric] length_drop n_def [symmetric] diff_add_inverse2)
      moreover have "prefix_sums P (b + length (filter P (take n2 xs))) (drop n2 xs) (drop n2 ms)"
        using s(2) by (intro prefix_sums_drop [OF less.prems(1)]) (simp add: n_def)
      ultimately have pR: "placed ((n1 - n2 + m) mod n1) (filter P (drop n2 xs)) R"
        unfolding R_def using less.prems(3) by (intro placed_OrOff)
      have f: "filter P xs = filter P (take n2 xs) @ filter P (drop n2 xs)"
        by (metis append_take_drop_id filter_append)
      have R_at: "R ! ((n1 - n2 + m + j) mod n1) = filter P (drop n2 xs) ! j"
        if "j < length (filter P (drop n2 xs))" for j
        using pR that len(2) by (simp add: placed_def mod_add_left_eq)
      have o: "out ! i = (if i < n2 then (L @ R) ! (if m \<le> i then n1 + i else i)
          else if n1 \<le> i \<and> i < n1 + n2 then (L @ R) ! (if m \<le> i - n1 then i - n1 else i)
          else (L @ R) ! i)" if "i < n" for i
        unfolding out_def using that s len by (subst nth_swap_loop) auto
      have "out ! i = filter P xs ! i" if i: "i < length (filter P xs)" for i
      proof (cases "i < m")
        case True
        then have "out ! i = L ! i" using o [of i] s len by (simp add: nth_append)
        also have "\<dots> = filter P xs ! i"
          using pL True by (metis f m_def nth_append nth_take)
        finally show ?thesis .
      next
        case False
        define j where "j = i - m"
        have j: "i = m + j" "j < length (filter P (drop n2 xs))"
          using False i by (auto simp: j_def f m_def)
        have j1: "j < n1" using j(2) length_filter_le [of P "drop n2 xs"] s by (simp add: n_def)
        have i_lt: "i < n" using i length_filter_le [of P xs] unfolding n_def by linarith
        have fi: "filter P xs ! i = filter P (drop n2 xs) ! j"
          by (simp add: f j(1) m_def nth_append)
        show ?thesis
        proof (cases "i < n2")
          case True
          have "out ! i = R ! (n1 - n2 + i)"
            using o [OF i_lt] True False s len by (simp add: nth_append)
          moreover have "(n1 - n2 + m + j) mod n1 = n1 - n2 + i" using True s j(1) by simp
          ultimately show ?thesis using R_at [OF j(2)] fi by simp
        next
          case F: False
          have "out ! i = R ! (i - n2)"
            using o [OF i_lt] F False s len j j1 i_lt by (auto simp: nth_append)
          moreover have "(n1 - n2 + m + j) mod n1 = i - n2"
          proof -
            have "n1 - n2 + m + j = (i - n2) + n1" using F s j(1) by simp
            then have "(n1 - n2 + m + j) mod n1 = (i - n2) mod n1" by (simp only: mod_add_self2)
            then show ?thesis using i_lt s by simp
          qed
          ultimately show ?thesis using R_at [OF j(2)] fi by simp
        qed
      qed
      then show ?thesis
        using len(3) length_filter_le [of P xs] unfolding out
        by (intro nth_equalityI) (auto simp: n_def)
    qed
  qed
qed

section \<open>The shuffle\<close>

termination OrShuffle
  by (relation "measure (\<lambda>(a, b, xs, g). length xs)") auto

declare OrShuffle.simps [simp del]

text \<open>The marking loop chooses exactly \<open>k\<close> of the remaining \<open>N\<close> elements, whatever is drawn.\<close>

lemma UniformRandom_bound:
  assumes "UniformRandom rand64 0 (of_nat N) g = (r, g')" "Suc N < 2 ^ 64"
  shows "unat r \<le> N"
proof -
  have "unat (of_nat (Suc N) :: u64) = Suc N" using assms(2) by (simp only: unat_of_nat) simp
  moreover have "r = fst (rand64 g) mod of_nat (Suc N)"
    using assms(1) by (auto simp: UniformRandom_def add.commute split: prod.splits)
  ultimately have "unat r = unat (fst (rand64 g)) mod Suc N" by (simp only: unat_mod)
  then show ?thesis by (simp add: less_Suc_eq_le [symmetric])
qed

lemma or_choose_total:
  assumes "or_choose rand64 N k c g = (ms, g')" "k \<le> N" "N < 2 ^ 64"
  shows "length ms = N \<and> last (c # ms) = c + k"
  using assms
proof (induction N arbitrary: k c g ms g')
  case (Suc N)
  obtain r g1 where r: "UniformRandom rand64 0 (of_nat N) g = (r, g1)" by fastforce
  define f where "f \<longleftrightarrow> unat r < k"
  define c1 where "c1 = (if f then c + 1 else c)"
  define k1 where "k1 = (if f then k - 1 else k)"
  obtain ms1 g2 where ms1: "or_choose rand64 N k1 c1 g1 = (ms1, g2)" by fastforce
  have ms: "ms = c1 # ms1"
    using Suc.prems(1) r ms1 by (simp add: Let_def flip: f_def c1_def k1_def)
  have "unat r \<le> N" using UniformRandom_bound [OF r] Suc.prems(3) by simp
  then have "k1 \<le> N" using Suc.prems(2) by (auto simp: f_def k1_def)
  moreover have "c1 + k1 = c + k" by (auto simp: f_def c1_def k1_def)
  ultimately show ?case
    using Suc.IH [OF ms1] Suc.prems(3) ms by simp
qed simp

lemma mset_OrShuffle:
  "OrShuffle rand64 rand1 xs g = (ys, g') \<Longrightarrow> mset ys = mset xs"
proof (induction rand64 rand1 xs g arbitrary: ys g' rule: OrShuffle.induct)
  case (1 rand64 rand1 xs g)
  define h where "h = length xs div 2"
  consider "length xs \<le> 1" | "length xs = 2" | "length xs > 2" by linarith
  then show ?case
  proof cases
    case 1
    then show ?thesis using 1(1) "1.prems" by (simp add: OrShuffle.simps [of rand64 rand1 xs])
  next
    case 2
    then show ?thesis using "1.prems"
      by (auto simp: OrShuffle.simps [of rand64 rand1 xs] split: prod.splits)
  next
    case 3
    obtain ms g1 where ms: "or_choose rand64 (length xs) h 0 g = (ms, g1)" by fastforce
    define zs where "zs = OrCompactSeparateMark xs (0 # map of_nat ms :: u64 list)"
    obtain l g2 where l: "OrShuffle rand64 rand1 (take h zs) g1 = (l, g2)" by fastforce
    obtain rr g3 where rr: "OrShuffle rand64 rand1 (drop h zs) g2 = (rr, g3)" by fastforce
    have n: "\<not> length xs \<le> 1" "length xs \<noteq> 2" using 3 by auto
    have ys: "ys = l @ rr"
      using "1.prems" n ms l rr
      by (simp add: OrShuffle.simps [of rand64 rand1 xs] Let_def flip: h_def zs_def)
    have "mset l = mset (take h zs)" "mset rr = mset (drop h zs)"
      using "1.IH" [OF refl n h_def refl ms [symmetric] refl zs_def] l rr by auto
    then have "mset ys = mset (take h zs @ drop h zs)" by (simp only: ys mset_append)
    then show ?thesis by (simp add: zs_def)
  qed
qed

lemma OrCompact_front:
  assumes "length xs < 2 ^ 32"
  shows "take (length (filter isMarked xs)) (OrCompact isMarked xs) = filter isMarked xs
    \<and> mset (OrCompact isMarked xs) = mset xs"
proof (cases "length xs \<le> 1")
  case True
  then show ?thesis by (cases xs) (auto simp: OrCompact_def)
next
  case False
  then show ?thesis
    using OrCompactSeparateMark_front [OF mark_prefix_sums [of 0 xs isMarked]] assms by (simp add: OrCompact_def)
qed

section \<open>Properties\<close>

text \<open>(C8) \<open>OrCompact\<close> compacts: the marked elements come first, in their original order, and the
  result is a permutation of the input, for every length that passes the assertion of the code
  (fewer than \<open>2^32 - 1\<close> elements): up to it the 32-bit prefix sums do not wrap.\<close>

theorem OrCompact_compacts:
  assumes "length xs < 2 ^ 32 - 1"
  shows "take (length (filter isMarked xs)) (OrCompact isMarked xs) = filter isMarked xs
    \<and> mset (OrCompact isMarked xs) = mset xs"
  using assms by (intro OrCompact_front) simp

theorem OrCompact_compacts_witness:
  "take (length (filter even [3, 4, 5, 6, 8 :: nat])) (OrCompact even [3, 4, 5, 6, 8 :: nat]) =
      filter even [3, 4, 5, 6, 8]
    \<and> mset (OrCompact even [3, 4, 5, 6, 8 :: nat]) = mset [3, 4, 5, 6, 8]"
  by (rule OrCompact_compacts) simp

text \<open>\<open>OrShuffle\<close> permutes its input whatever the random generator returns.\<close>

lemma OrShuffle_permutes: "mset (fst (OrShuffle rand64 rand1 xs g)) = mset xs"
  by (metis mset_OrShuffle prod.collapse)

text \<open>The marking loop of \<open>OrShuffle\<close> marks exactly \<open>k\<close> of the \<open>N\<close> elements it runs over,
  whatever is drawn: the last prefix sum is \<open>k\<close>.\<close>

theorem or_choose_exact:
  assumes "k \<le> N" "N < 2 ^ 64"
  shows "length (fst (or_choose rand64 N k c g)) = N
    \<and> last (c # fst (or_choose rand64 N k c g)) = c + k"
  using or_choose_total [of rand64 N k c g] assms by (metis prod.collapse)

theorem or_choose_exact_witness:
  "length (fst (or_choose (\<lambda>g. (g * 5 + 1, g + 3)) 5 2 0 (7 :: u64))) = 5
    \<and> last (0 # fst (or_choose (\<lambda>g. (g * 5 + 1, g + 3)) 5 2 0 (7 :: u64))) = 0 + 2"
  by (rule or_choose_exact) simp_all

end
