(* ===== verification/Edge_Rec.thy ===== *)
theory Edge_Rec
  imports Prelude
begin

text \<open>
  The edge records of \<open>edge_rec.hpp\<close>: a 64-bit word holds the adjacency matrix of a graph on at most
  eight vertices.  \<open>EulerPath\<close> walks along the edges that occur an odd number of times and returns an
  orientation; edges that occur an even number of times are directed from the larger vertex to
  the smaller one at first.
\<close>

unbundle bit_operations_syntax

section \<open>Definitions\<close>

record EdgeRec =
  edges :: u64
  er_k :: nat

definition EdgeRec_new :: "nat \<Rightarrow> EdgeRec" where
  "EdgeRec_new k = \<lparr>edges = 0, er_k = k\<rparr>"

definition getEdgeOffset :: "nat \<Rightarrow> nat \<Rightarrow> nat" where
  "getEdgeOffset v0 v1 = (push_bit 3 v0 OR v1)"

definition getEdgesMask :: "nat \<Rightarrow> nat \<Rightarrow> u64" where
  "getEdgesMask v0 v1 = (push_bit (getEdgeOffset v0 v1) 1 OR push_bit (getEdgeOffset v1 v0) 1)"

definition flipEdgeMask :: "u64 \<Rightarrow> EdgeRec \<Rightarrow> EdgeRec" where
  "flipEdgeMask m rec = rec\<lparr>edges := edges rec XOR m\<rparr>"

definition flipEdge :: "nat \<Rightarrow> nat \<Rightarrow> EdgeRec \<Rightarrow> EdgeRec" where
  "flipEdge v0 v1 rec = flipEdgeMask (getEdgesMask v0 v1) rec"

definition retrieveEdge :: "nat \<Rightarrow> nat \<Rightarrow> EdgeRec \<Rightarrow> bool" where
  "retrieveEdge v0 v1 rec \<longleftrightarrow> (drop_bit (getEdgeOffset v0 v1) (edges rec) AND 1) \<noteq> 0"

definition retrieveAndFlipEdge :: "nat \<Rightarrow> nat \<Rightarrow> EdgeRec \<Rightarrow> bool \<times> EdgeRec" where
  "retrieveAndFlipEdge v0 v1 rec =
    (let v0_to_v1_mask = push_bit (getEdgeOffset v0 v1) 1;
         v1_to_v0_mask = push_bit (getEdgeOffset v1 v0) 1;
         e = edges rec XOR (v0_to_v1_mask OR v1_to_v0_mask)
     in ((e AND v0_to_v1_mask) = 0, rec\<lparr>edges := e\<rparr>))"

definition countr_zero :: "u64 \<Rightarrow> nat" where
  "countr_zero x = length (takeWhile (\<lambda>i. \<not> bit x i) [0..<64])"

text \<open>When no edge is left, \<open>countr_zero\<close> is 64 and the code evaluates \<open>1UL << 64\<close>, which the language
  leaves undefined; the shift instruction of the processor takes its count modulo 64, and so does
  the model.\<close>

definition shl1 :: "nat \<Rightarrow> u64" where
  "shl1 n = push_bit (n mod 64) 1"

fun euler_loop :: "nat \<Rightarrow> u64 \<Rightarrow> u64 \<Rightarrow> nat \<Rightarrow> u64 \<times> u64" where
  "euler_loop 0 es path v8 = (es, path)"
| "euler_loop (Suc r) es path v8 =
    (let choices = es AND push_bit v8 (- 1);
         trailingZeros = countr_zero choices;
         next = trailingZeros AND 7;
         v0 = drop_bit 3 trailingZeros;
         v0_to_next_mask = shl1 trailingZeros;
         v8 = push_bit 3 next;
         next_to_v0_mask = shl1 (v8 OR v0);
         es = es AND NOT (v0_to_next_mask OR next_to_v0_mask);
         path = path OR v0_to_next_mask
     in euler_loop r es path v8)"

definition EulerPath :: "nat \<Rightarrow> EdgeRec \<Rightarrow> EdgeRec" where
  "EulerPath numEdge rec =
    (let k = er_k rec;
         numEdge = min numEdge (k * (k - 1) div 2);
         path = NOT (edges rec) AND 0xFF7F3F1F0F070301;
         simpleMask = NOT 0x8040201008040201;
         es = edges rec AND simpleMask;
         (es, path) = euler_loop numEdge es path 0
     in (EdgeRec_new k)\<lparr>edges := path\<rparr>)"

section \<open>Edge records as relations\<close>

definition edge :: "u64 \<Rightarrow> nat \<Rightarrow> nat \<Rightarrow> bool" where
  "edge w a b \<longleftrightarrow> bit w (8 * a + b)"

lemma offset_less: "a < 8 \<Longrightarrow> b < 8 \<Longrightarrow> 8 * a + b < (64::nat)" by simp

lemma offset_eq: "b < 8 \<Longrightarrow> d < 8 \<Longrightarrow> 8 * a + b = 8 * c + d \<longleftrightarrow> a = c \<and> b = (d :: nat)"
proof (intro iffI)
  assume "b < 8" "d < 8" and e: "8 * a + b = 8 * c + d"
  then have "(8 * a + b) div 8 = a" "(8 * c + d) div 8 = c" by simp_all
  with e have "a = c" by simp
  with e show "a = c \<and> b = d" by simp
qed simp

lemma or_offset: "b < 8 \<Longrightarrow> (push_bit 3 a OR b) = 8 * a + (b :: nat)"
proof -
  assume "b < 8"
  then have "push_bit 3 a + take_bit 3 b = (push_bit 3 a OR take_bit 3 b)"
    by (intro disjunctive_add) (auto simp: bit_simps)
  moreover have "take_bit 3 b = b" using \<open>b < 8\<close> by (simp add: take_bit_eq_mod)
  ultimately show ?thesis by (simp add: push_bit_eq_mult)
qed

lemma bit_shift1: "m < 64 \<Longrightarrow> bit (2 ^ m :: u64) n \<longleftrightarrow> n = m"
  by (auto simp: bit_simps)

lemma er_k_flip [simp]: "er_k (flipEdge a b rec) = er_k rec"
  by (simp add: flipEdge_def flipEdgeMask_def)

lemma edge_flip:
  assumes "a < 8" "b < 8" "c < 8" "d < 8"
  shows "edge (edges (flipEdge a b rec)) c d \<longleftrightarrow> (edge (edges rec) c d \<noteq> (c = a \<and> d = b \<or> c = b \<and> d = a))"
  using assms
  by (auto simp: flipEdge_def flipEdgeMask_def getEdgesMask_def getEdgeOffset_def or_offset edge_def
      bit_xor_iff bit_or_iff bit_shift1 offset_less offset_eq)

lemma retrieve_flip:
  assumes "a < 8" "b < 8"
  shows "retrieveAndFlipEdge a b rec = (edge (edges rec) a b, flipEdge a b rec)"
proof -
  have "(e AND 2 ^ m) = 0 \<longleftrightarrow> \<not> bit e m" if "m < 64" for e :: u64 and m
    by (simp add: and_exp_eq_0_iff_not_bit)
  then show ?thesis
    using assms by (simp add: retrieveAndFlipEdge_def Let_def getEdgeOffset_def or_offset flipEdge_def
        flipEdgeMask_def getEdgesMask_def edge_def bit_xor_iff bit_or_iff bit_shift1 offset_less)
qed

lemma retrieveEdge_edge: "a < 8 \<Longrightarrow> b < 8 \<Longrightarrow> retrieveEdge a b rec = edge (edges rec) a b"
  by (simp add: retrieveEdge_def getEdgeOffset_def or_offset edge_def and_one_eq odd_iff_mod_2_eq_one[symmetric] flip: bit_iff_odd_drop_bit)

lemma edge_flip_all: "a < 8 \<Longrightarrow> b < 8 \<Longrightarrow> edge (edges (flipEdgeMask (- of_bool r) rec)) a b \<longleftrightarrow> (edge (edges rec) a b \<noteq> r)"
  by (cases r) (auto simp: flipEdgeMask_def edge_def bit_xor_iff bit_not_iff)

lemma edge_ext: "(\<And>a b. a < 8 \<Longrightarrow> b < 8 \<Longrightarrow> \<not> edge w a b) \<Longrightarrow> w = 0"
proof (rule bit_word_eqI)
  fix n assume "\<And>a b. a < 8 \<Longrightarrow> b < 8 \<Longrightarrow> \<not> edge w a b" "n < LENGTH(64)"
  from this(1) [of "n div 8" "n mod 8"] this(2) show "bit w n \<longleftrightarrow> bit 0 n" by (simp add: edge_def)
qed

section \<open>One step of the walk\<close>

lemma countr_zero_Some:
  assumes "x \<noteq> 0"
  shows "countr_zero x < 64" "bit x (countr_zero x)" "\<And>i. i < countr_zero x \<Longrightarrow> \<not> bit x i"
proof -
  define P where "P = (\<lambda>i. \<not> bit x i)"
  have t: "countr_zero x = length (takeWhile P [0..<64])" by (simp add: countr_zero_def P_def)
  have le: "countr_zero x \<le> 64" unfolding t using length_takeWhile_le [of P "[0..<64]"] by simp
  have "\<exists>n<64. \<not> P n"
  proof (rule ccontr)
    assume "\<not> ?thesis"
    then have "x = 0" by (intro bit_word_eqI) (auto simp: P_def)
    with assms show False ..
  qed
  then have "takeWhile P [0..<64] \<noteq> [0..<64]" by (auto simp: takeWhile_eq_all_conv)
  then show lt: "countr_zero x < 64"
    using le unfolding t by (metis length_upt diff_zero le_neq_implies_less takeWhile_dropWhile_id append_Nil2 append_eq_conv_conj take_all_iff order_refl takeWhile_eq_take)
  show "bit x (countr_zero x)"
    using nth_length_takeWhile [of P "[0..<64]"] lt unfolding t by (simp add: P_def)
  show "\<not> bit x i" if "i < countr_zero x" for i
  proof -
    have "takeWhile P [0..<64] ! i = i" using that lt by (simp add: takeWhile_nth t)
    then have "i \<in> set (takeWhile P [0..<64])" using that unfolding t by (metis nth_mem)
    then show ?thesis by (auto dest: set_takeWhileD simp: P_def)
  qed
qed

lemma countr_zero_0: "countr_zero 0 = 64"
proof -
  have "takeWhile (\<lambda>i. True) [0..<64::nat] = [0..<64]" by (simp add: takeWhile_eq_all_conv)
  then have "length (takeWhile (\<lambda>i. True) [0..<64::nat]) = 64" by (metis length_upt diff_zero)
  then show ?thesis unfolding countr_zero_def by simp
qed

definition drop_edge :: "nat \<Rightarrow> nat \<Rightarrow> u64 \<Rightarrow> u64" where
  "drop_edge a b es = (es AND NOT (2 ^ (8 * a + b) OR 2 ^ (8 * b + a)))"

definition add_edge :: "nat \<Rightarrow> nat \<Rightarrow> u64 \<Rightarrow> u64" where
  "add_edge a b path = (path OR 2 ^ (8 * a + b))"

lemma edge_drop:
  assumes "a < 8" "b < 8" "c < 8" "d < 8"
  shows "edge (drop_edge a b es) c d \<longleftrightarrow> edge es c d \<and> \<not> (c = a \<and> d = b \<or> c = b \<and> d = a)"
  using assms by (auto simp: drop_edge_def edge_def bit_and_iff bit_not_iff bit_or_iff bit_shift1 offset_less offset_eq)

lemma edge_add:
  assumes "a < 8" "b < 8" "c < 8" "d < 8"
  shows "edge (add_edge a b path) c d \<longleftrightarrow> edge path c d \<or> c = a \<and> d = b"
  using assms by (auto simp: add_edge_def edge_def bit_or_iff bit_shift1 offset_less offset_eq)

lemma bit_choices: "n < 64 \<Longrightarrow> bit (es AND NOT (mask m) :: u64) n \<longleftrightarrow> bit es n \<and> m \<le> n"
  by (auto simp: bit_simps)

lemma euler_step:
  assumes "c < 8" "\<exists>a b. c \<le> a \<and> a < 8 \<and> b < 8 \<and> edge es a b"
  obtains v0 nxt where "c \<le> v0" "v0 < 8" "nxt < 8" "edge es v0 nxt"
    "\<And>a b. c \<le> a \<Longrightarrow> a < v0 \<Longrightarrow> b < 8 \<Longrightarrow> \<not> edge es a b"
    "euler_loop (Suc r) es path (8 * c) = euler_loop r (drop_edge v0 nxt es) (add_edge v0 nxt path) (8 * nxt)"
proof -
  define choices where "choices = (es AND NOT (mask (8 * c)))"
  obtain a b where ab: "c \<le> a" "a < 8" "b < 8" "edge es a b" using assms(2) by blast
  then have "bit choices (8 * a + b)" by (simp add: choices_def bit_choices edge_def)
  then have ne: "choices \<noteq> 0" by auto
  define t where "t = countr_zero choices"
  note t = countr_zero_Some [OF ne, folded t_def]
  define v0 nxt where v: "v0 = t div 8" "nxt = t mod 8"
  have tv: "t = 8 * v0 + nxt" "v0 < 8" "nxt < 8" using t(1) by (simp_all add: v)
  have bt: "bit es t" "8 * c \<le> t" using t(1,2) by (simp_all add: choices_def bit_choices)
  have n7: "(t AND 7) = nxt" using take_bit_eq_mask [of 3 t] by (simp add: v mask_eq_exp_minus_1 take_bit_eq_mod)
  have ch: "(es AND push_bit (8 * c) (- 1)) = choices" by (simp add: choices_def)
  have d3: "drop_bit 3 t = v0" by (simp add: v drop_bit_eq_div)
  have "euler_loop (Suc r) es path (8 * c) = euler_loop r (drop_edge v0 nxt es) (add_edge v0 nxt path) (8 * nxt)"
    unfolding euler_loop.simps Let_def ch t_def [symmetric] n7 d3
    using t(1) tv(2,3) or_offset [OF tv(2), of nxt]
    by (simp add: shl1_def tv(1) drop_edge_def add_edge_def) (simp add: push_bit_eq_mult mult.commute [of nxt 8])
  moreover have "\<not> edge es a b" if "c \<le> a" "a < v0" "b < 8" for a b
  proof
    assume "edge es a b"
    then have "bit choices (8 * a + b)" using that tv by (simp add: choices_def bit_choices edge_def)
    moreover have "8 * a + b < t" using that tv by linarith
    ultimately show False using t(3) by blast
  qed
  ultimately show thesis using that [of v0 nxt] tv bt by (simp add: edge_def)
qed

lemma euler_stop:
  assumes "es = 0"
  shows "euler_loop (Suc r) es path v8 = euler_loop r 0 (add_edge 0 0 path) 0"
  unfolding assms by (simp add: countr_zero_0 shl1_def add_edge_def)

section \<open>The walk orients every edge and is balanced\<close>

definition sg :: "bool \<Rightarrow> int" where
  "sg b = (if b then 1 else - 1)"

text \<open>The edges of \<open>S\<close> that are not in \<open>R\<close> have been walked along in the direction of the path \<open>Q\<close>; the
  flow into a vertex counts an incoming edge as 1 and an outgoing edge as -1.\<close>

definition flow_term :: "u64 \<Rightarrow> u64 \<Rightarrow> u64 \<Rightarrow> nat \<Rightarrow> nat \<Rightarrow> int" where
  "flow_term S R Q u v = (if edge S u v \<and> \<not> edge R u v then sg (edge Q u v) else 0)"

definition flow :: "u64 \<Rightarrow> u64 \<Rightarrow> u64 \<Rightarrow> nat \<Rightarrow> int" where
  "flow S R Q v = (\<Sum>u<8. flow_term S R Q u v)"

definition simple_even :: "u64 \<Rightarrow> bool" where
  "simple_even S \<longleftrightarrow> (\<forall>a<8. \<forall>b<8. edge S a b = edge S b a) \<and> (\<forall>a<8. \<not> edge S a a)
    \<and> (\<forall>v<8. even (card {u. u < 8 \<and> edge S u v}))"

definition walk_inv :: "u64 \<Rightarrow> u64 \<Rightarrow> u64 \<Rightarrow> nat \<Rightarrow> nat \<Rightarrow> bool" where
  "walk_inv S R Q c s \<longleftrightarrow> c < 8 \<and> s < 8
    \<and> (\<forall>a<8. \<forall>b<8. edge R a b = edge R b a \<and> (edge R a b \<longrightarrow> edge S a b))
    \<and> (\<forall>a<8. \<forall>b<8. a \<noteq> b \<longrightarrow> (\<not> edge S a b \<longrightarrow> edge Q a b = (b < a))
        \<and> (edge R a b \<longrightarrow> \<not> edge Q a b) \<and> (edge S a b \<and> \<not> edge R a b \<longrightarrow> edge Q a b \<noteq> edge Q b a))
    \<and> (\<forall>v<8. flow S R Q v = of_bool (v = c) - of_bool (v = s))
    \<and> (\<forall>a < s. \<forall>b<8. \<not> edge R a b)"

lemma walk_invD:
  assumes "walk_inv S R Q c s"
  shows "c < 8" "s < 8" "a < 8 \<Longrightarrow> b < 8 \<Longrightarrow> edge R a b = edge R b a" "a < 8 \<Longrightarrow> b < 8 \<Longrightarrow> edge R a b \<Longrightarrow> edge S a b"
    "a < 8 \<Longrightarrow> b < 8 \<Longrightarrow> a \<noteq> b \<Longrightarrow> \<not> edge S a b \<Longrightarrow> edge Q a b = (b < a)"
    "a < 8 \<Longrightarrow> b < 8 \<Longrightarrow> a \<noteq> b \<Longrightarrow> edge R a b \<Longrightarrow> \<not> edge Q a b"
    "a < 8 \<Longrightarrow> b < 8 \<Longrightarrow> a \<noteq> b \<Longrightarrow> edge S a b \<Longrightarrow> \<not> edge R a b \<Longrightarrow> edge Q a b \<noteq> edge Q b a"
    "v < 8 \<Longrightarrow> flow S R Q v = of_bool (v = c) - of_bool (v = s)" "a < s \<Longrightarrow> b < 8 \<Longrightarrow> \<not> edge R a b"
  using assms unfolding walk_inv_def by blast+

lemma even_sum_sg: "finite A \<Longrightarrow> even (\<Sum>u\<in>A. if P u then sg (q u) else 0) \<longleftrightarrow> even (card {u \<in> A. P u})"
proof (induction A rule: finite_induct)
  case (insert x A)
  have "{u \<in> insert x A. P u} = (if P x then insert x {u \<in> A. P u} else {u \<in> A. P u})" by auto
  then show ?case using insert by (simp add: sg_def)
qed simp

lemma degree_parity:
  assumes "simple_even S" "walk_inv S R Q c s" "v < 8"
  shows "odd (card {u. u < 8 \<and> edge R u v}) \<longleftrightarrow> (v = c) \<noteq> (v = s)"
proof -
  have "{u. u < 8 \<and> edge S u v} = {u. u < 8 \<and> edge R u v} \<union> {u \<in> {..<8}. edge S u v \<and> \<not> edge R u v}"
    using walk_invD(4) [OF assms(2)] assms(3) by auto
  moreover have "card ({u. u < 8 \<and> edge R u v} \<union> {u \<in> {..<8}. edge S u v \<and> \<not> edge R u v})
      = card {u. u < 8 \<and> edge R u v} + card {u \<in> {..<8}. edge S u v \<and> \<not> edge R u v}"
    by (rule card_Un_disjoint) auto
  moreover have "even (card {u. u < 8 \<and> edge S u v})" using assms(1,3) by (simp add: simple_even_def)
  moreover have "even (card {u \<in> {..<8}. edge S u v \<and> \<not> edge R u v}) \<longleftrightarrow> even (flow S R Q v)"
    unfolding flow_def flow_term_def by (rule even_sum_sg [symmetric]) simp
  ultimately show ?thesis using walk_invD(8) [OF assms(2,3)] by auto
qed

lemma flow_step:
  assumes "walk_inv S R Q c s" "simple_even S" "v0 < 8" "nxt < 8" "edge R v0 nxt" "v < 8"
  shows "flow S (drop_edge v0 nxt R) (add_edge v0 nxt Q) v = flow S R Q v + of_bool (v = nxt) - of_bool (v = v0)"
proof -
  note w = walk_invD [OF assms(1)]
  have ne: "v0 \<noteq> nxt" using w(4) assms(2-5) by (auto simp: simple_even_def)
  have S: "edge S v0 nxt" "edge S nxt v0" "edge R nxt v0" using w(3,4) assms(3-5) by blast+
  have Q: "\<not> edge Q nxt v0" "\<not> edge Q v0 nxt" using w(6) [of nxt v0] w(6) [of v0 nxt] S ne assms(3-5) by auto
  have "flow_term S (drop_edge v0 nxt R) (add_edge v0 nxt Q) u v
      = flow_term S R Q u v + of_bool (u = v0 \<and> v = nxt) - of_bool (u = nxt \<and> v = v0)" if "u < 8" for u
    using that assms(3-6) ne S Q by (auto simp: flow_term_def edge_drop edge_add sg_def)
  then have "flow S (drop_edge v0 nxt R) (add_edge v0 nxt Q) v
      = (\<Sum>u<8. flow_term S R Q u v + of_bool (u = v0 \<and> v = nxt) - of_bool (u = nxt \<and> v = v0))"
    unfolding flow_def by (intro sum.cong) auto
  also have "\<dots> = flow S R Q v + (\<Sum>u<8. of_bool (u = v0 \<and> v = nxt)) - (\<Sum>u<8. of_bool (u = nxt \<and> v = v0))"
    by (simp add: flow_def sum.distrib sum_subtractf)
  also have "(\<Sum>u<8. of_bool (u = v0 \<and> v = nxt) :: int) = of_bool (v = nxt)"
    using assms(3) by (cases "v = nxt") (simp_all add: of_bool_def sum.delta)
  also have "(\<Sum>u<8. of_bool (u = nxt \<and> v = v0) :: int) = of_bool (v = v0)"
    using assms(4) by (cases "v = v0") (simp_all add: of_bool_def sum.delta)
  finally show ?thesis .
qed

definition ecount :: "u64 \<Rightarrow> nat" where
  "ecount R = card {(a, b). a < b \<and> b < 8 \<and> edge R a b}"

lemma finite_pairs: "finite {(a, b). a < b \<and> b < (8::nat) \<and> P a b}"
  by (rule finite_subset [of _ "{..<8} \<times> {..<8}"]) auto

lemma ecount_drop:
  assumes "v0 < 8" "nxt < 8" "edge R v0 nxt" "edge R nxt v0" "v0 \<noteq> nxt"
  shows "Suc (ecount (drop_edge v0 nxt R)) = ecount R"
proof -
  have "{(a, b). a < b \<and> b < 8 \<and> edge R a b} = insert (min v0 nxt, max v0 nxt) {(a, b). a < b \<and> b < 8 \<and> edge (drop_edge v0 nxt R) a b}"
    using assms by (auto simp: edge_drop min_def max_def)
  moreover have "(min v0 nxt, max v0 nxt) \<notin> {(a, b). a < b \<and> b < 8 \<and> edge (drop_edge v0 nxt R) a b}"
    using assms by (auto simp: edge_drop min_def max_def split: if_splits)
  ultimately show ?thesis by (simp add: ecount_def finite_pairs)
qed

lemma ecount_0: "ecount R = 0 \<Longrightarrow> walk_inv S R Q c s \<Longrightarrow> simple_even S \<Longrightarrow> R = 0"
proof (rule edge_ext)
  fix a b :: nat assume *: "ecount R = 0" "walk_inv S R Q c s" "simple_even S" "a < 8" "b < (8::nat)"
  have "{(a, b). a < b \<and> b < 8 \<and> edge R a b} = {}" using *(1) finite_pairs by (simp add: ecount_def)
  then have "x < y \<Longrightarrow> y < 8 \<Longrightarrow> \<not> edge R x y" for x y by blast
  then show "\<not> edge R a b"
    using walk_invD(3,4) [OF *(2,4,5)] *(3-5) by (cases a b rule: linorder_cases) (auto simp: simple_even_def)
qed

lemma walk_step:
  assumes "simple_even S" "walk_inv S R Q c s" "R \<noteq> 0"
  obtains R' Q' c' s' where "euler_loop (Suc r) R Q (8 * c) = euler_loop r R' Q' (8 * c')" "walk_inv S R' Q' c' s'" "Suc (ecount R') = ecount R"
proof -
  note w = walk_invD [OF assms(2)]
  have irr: "\<not> edge R a a" if "a < 8" for a using w(4) [of a a] that assms(1) by (auto simp: simple_even_def)
  have has: "\<exists>b<8. edge R c b" if "c \<noteq> s"
  proof -
    have "card {u. u < 8 \<and> edge R u c} \<noteq> 0" using degree_parity [OF assms(1,2) w(1)] that by (metis even_zero)
    then show ?thesis using w(1,3) by (auto simp: card_eq_0_iff)
  qed
  have "\<exists>a b. c \<le> a \<and> a < 8 \<and> b < 8 \<and> edge R a b"
  proof (cases "c = s")
    case True
    obtain a b where "a < 8" "b < 8" "edge R a b" using assms(3) edge_ext by blast
    then show ?thesis using w(9) [of a b] True by (metis not_le_imp_less)
  qed (use has w(1) in blast)
  from euler_step [OF w(1) this, of r Q]
  obtain v0 nxt where v: "c \<le> v0" "v0 < 8" "nxt < 8" "edge R v0 nxt"
    "\<And>a b. c \<le> a \<Longrightarrow> a < v0 \<Longrightarrow> b < 8 \<Longrightarrow> \<not> edge R a b"
    "euler_loop (Suc r) R Q (8 * c) = euler_loop r (drop_edge v0 nxt R) (add_edge v0 nxt Q) (8 * nxt)" by blast
  define s' where "s' = (if c = s then v0 else s)"
  have vc: "v0 = c" if "c \<noteq> s" using has [OF that] v(1) v(5) [of c] by (metis le_neq_implies_less order_refl)
  have ne: "v0 \<noteq> nxt" using irr v(2,4) by blast
  have sym: "edge R nxt v0" using w(3) v(2-4) by blast
  have "walk_inv S (drop_edge v0 nxt R) (add_edge v0 nxt Q) nxt s'"
    unfolding walk_inv_def
  proof (intro conjI allI impI)
    show "nxt < 8" "s' < 8" using v(2,3) w(2) by (simp_all add: s'_def)
    fix a b :: nat assume ab: "a < 8" "b < 8"
    show "edge (drop_edge v0 nxt R) a b = edge (drop_edge v0 nxt R) b a" using w(3) [OF ab] ab v(2,3) by (auto simp: edge_drop)
    show "edge (drop_edge v0 nxt R) a b \<Longrightarrow> edge S a b" using w(4) [OF ab] ab v(2,3) by (auto simp: edge_drop)
    assume "a \<noteq> b"
    note f = w(5-7) [OF ab this] w(7) [of b a] w(6) [of v0 nxt] w(6) [of nxt v0] w(4) [OF v(2,3,4)] w(4) [OF v(3,2) sym]
    show "\<not> edge S a b \<Longrightarrow> edge (add_edge v0 nxt Q) a b = (b < a)" using f ab v(2,3) by (auto simp: edge_add)
    show "edge (drop_edge v0 nxt R) a b \<Longrightarrow> \<not> edge (add_edge v0 nxt Q) a b" using f ab v(2,3) by (auto simp: edge_add edge_drop)
    show "edge S a b \<and> \<not> edge (drop_edge v0 nxt R) a b \<Longrightarrow> edge (add_edge v0 nxt Q) a b \<noteq> edge (add_edge v0 nxt Q) b a"
      using f ab v(2-4) sym ne by (auto simp: edge_add edge_drop)
  next
    fix x :: nat assume x: "x < 8"
    show "flow S (drop_edge v0 nxt R) (add_edge v0 nxt Q) x = of_bool (x = nxt) - of_bool (x = s')"
      using flow_step [OF assms(2,1) v(2-4) x] w(8) [OF x] vc by (auto simp: s'_def)
  next
    fix a b :: nat assume "a < s'" "b < 8"
    then show "\<not> edge (drop_edge v0 nxt R) a b"
      using w(9) [of a b] v(5) [of a b] v(2,3) w(2)
      by (cases "c = s"; cases "a < c") (auto simp: s'_def edge_drop)
  qed
  then show thesis using that v(6) ecount_drop [OF v(2-4) sym ne] by blast
qed

lemma walk_all:
  assumes "simple_even S" "walk_inv S R Q c s" "ecount R \<le> r"
  shows "\<exists>Q' c' s'. euler_loop r R Q (8 * c) = (0, Q') \<and> walk_inv S 0 Q' c' s'"
  using assms(2,3)
proof (induction r arbitrary: R Q c s)
  case 0
  then show ?case using ecount_0 [OF _ 0(1) assms(1)] by auto
next
  case (Suc r)
  show ?case
  proof (cases "R = 0")
    case False
    from walk_step [OF assms(1) Suc.prems(1) this, of r] Suc.IH Suc.prems(2) show ?thesis
      by (metis Suc_le_mono)
  next
    case True
    note w = walk_invD [OF Suc.prems(1)]
    have n: "\<not> edge 0 a b" for a b by (simp add: edge_def)
    then have cs: "c = s" using degree_parity [OF assms(1) Suc.prems(1) w(1)] unfolding True by auto
    have S0: "\<not> edge S 0 0" using assms(1) by (simp add: simple_even_def)
    have fl: "flow S 0 (add_edge 0 0 Q) x = 0" if "x < 8" for x
    proof -
      have "flow S 0 (add_edge 0 0 Q) x = flow S 0 Q x"
        unfolding flow_def by (rule sum.cong) (use S0 that in \<open>auto simp: flow_term_def edge_add sg_def\<close>)
      then show ?thesis using w(8) [OF that] unfolding True cs by simp
    qed
    have "walk_inv S 0 (add_edge 0 0 Q) 0 0"
      unfolding walk_inv_def
    proof (intro conjI allI impI)
      fix a b :: nat assume ab: "a < 8" "b < 8" "a \<noteq> b"
      note f = w(5,7) [OF ab, unfolded True]
      show "\<not> edge S a b \<Longrightarrow> edge (add_edge 0 0 Q) a b = (b < a)" using f ab by (auto simp: edge_add)
      show "edge S a b \<and> \<not> edge 0 a b \<Longrightarrow> edge (add_edge 0 0 Q) a b \<noteq> edge (add_edge 0 0 Q) b a" using f ab by (auto simp: edge_add)
    qed (simp_all add: n fl)
    moreover have "ecount 0 \<le> r" by (simp add: ecount_def edge_def)
    ultimately show ?thesis using Suc.IH [of 0 "add_edge 0 0 Q" 0 0] euler_stop [OF True, of r Q "8 * c"] by simp
  qed
qed

lemma euler_loop_balanced:
  assumes "simple_even S" "ecount S \<le> r"
    and "\<And>a b. a < 8 \<Longrightarrow> b < 8 \<Longrightarrow> a \<noteq> b \<Longrightarrow> edge Q0 a b \<longleftrightarrow> \<not> edge S a b \<and> b < a"
  shows "\<exists>Q. euler_loop r S Q0 0 = (0, Q) \<and> (\<forall>a<8. \<forall>b<8. a \<noteq> b \<longrightarrow> edge Q a b \<noteq> edge Q b a)
    \<and> (\<forall>v<8. (\<Sum>u<8. if edge S u v then sg (edge Q u v) else 0) = 0)"
proof -
  have "walk_inv S S Q0 0 0"
    using assms(1,3) unfolding walk_inv_def simple_even_def flow_def flow_term_def by auto
  from walk_all [OF assms(1) this assms(2)]
  obtain Q c s where q: "euler_loop r S Q0 0 = (0, Q)" "walk_inv S 0 Q c s" by auto
  note w = walk_invD [OF q(2)]
  have n: "\<not> edge 0 a b" for a b by (simp add: edge_def)
  have "c = s" using degree_parity [OF assms(1) q(2) w(1)] n by auto
  then have "(\<Sum>u<8. if edge S u v then sg (edge Q u v) else 0) = 0" if "v < 8" for v
    using w(8) [OF that] n by (simp add: flow_def flow_term_def cong: if_cong)
  moreover have "edge Q a b \<noteq> edge Q b a" if "a < 8" "b < 8" "a \<noteq> b" for a b
    using w(5) [OF that] w(5) [of b a] w(7) [OF that] that n assms(1) by (cases "edge S a b") (auto simp: simple_even_def)
  ultimately show ?thesis using q(1) by blast
qed

section \<open>The path of a list of edges\<close>

definition joins :: "nat \<Rightarrow> nat \<Rightarrow> nat \<times> nat \<Rightarrow> bool" where
  "joins a b e \<longleftrightarrow> e = (a, b) \<or> e = (b, a)"

definition par :: "(nat \<times> nat) list \<Rightarrow> nat \<Rightarrow> nat \<Rightarrow> bool" where
  "par es a b \<longleftrightarrow> odd (length (filter (joins a b) es))"

lemma par_simps [simp]: "par [] a b = False" "par (e # es) a b = (par es a b \<noteq> joins a b e)"
  by (simp_all add: par_def)

lemma joins_commute: "joins a b = joins b a" by (auto simp: joins_def fun_eq_iff)

lemma par_commute: "par es a b = par es b a"
  unfolding par_def joins_commute [of a b] ..

definition record_edges :: "nat \<Rightarrow> (nat \<times> nat) list \<Rightarrow> EdgeRec" where
  "record_edges k es = foldl (\<lambda>rec (l, r). flipEdge l r rec) (EdgeRec_new k) es"

lemma edge_record:
  assumes "\<forall>(l, r)\<in>set es. l < 8 \<and> r < 8" "a < 8" "b < 8"
  shows "edge (edges (record_edges k es)) a b = par es a b" "er_k (record_edges k es) = k"
proof -
  have "edge (edges (foldl (\<lambda>rec (l, r). flipEdge l r rec) rec es)) a b = (edge (edges rec) a b \<noteq> par es a b)
      \<and> er_k (foldl (\<lambda>rec (l, r). flipEdge l r rec) rec es) = er_k rec" for rec
    using assms(1)
  proof (induction es arbitrary: rec)
    case (Cons e es)
    then show ?case using assms(2,3) by (cases e) (auto simp: edge_flip joins_def)
  qed simp
  from this [of "EdgeRec_new k"] show "edge (edges (record_edges k es)) a b = par es a b" "er_k (record_edges k es) = k"
    by (simp_all add: record_edges_def EdgeRec_new_def edge_def)
qed

definition degree :: "(nat \<times> nat) list \<Rightarrow> nat \<Rightarrow> nat" where
  "degree es v = length (filter (\<lambda>e. fst e = v) es) + length (filter (\<lambda>e. snd e = v) es)"

lemma odd_neighbours:
  assumes "\<forall>(l, r)\<in>set es. l < 8 \<and> r < 8"
  shows "odd (card {u. u < 8 \<and> u \<noteq> v \<and> par es u v}) \<longleftrightarrow> odd (degree es v)"
  using assms
proof (induction es)
  case (Cons e es)
  obtain l r where e: "e = (l, r)" "l < 8" "r < 8" using Cons.prems by (cases e) auto
  define N where "N = {u. u < 8 \<and> u \<noteq> v \<and> par es u v}"
  have toggle: "odd (card {u. u < 8 \<and> u \<noteq> v \<and> (par es u v \<noteq> (u = w))}) \<longleftrightarrow> even (card N)" if "w < 8" "w \<noteq> v" for w
  proof -
    have "{u. u < 8 \<and> u \<noteq> v \<and> (par es u v \<noteq> (u = w))} = (if w \<in> N then N - {w} else insert w N)"
      using that by (auto simp: N_def)
    moreover have "finite N" by (simp add: N_def)
    moreover have "w \<in> N \<Longrightarrow> 0 < card N" using \<open>finite N\<close> card_gt_0_iff by blast
    ultimately show ?thesis by (auto simp: card_Diff_singleton)
  qed
  have deg: "degree (e # es) v = degree es v + of_bool (l = v) + of_bool (r = v)" by (simp add: degree_def e)
  have ih: "odd (card N) \<longleftrightarrow> odd (degree es v)" using Cons by (simp add: N_def)
  consider "l = v" "r \<noteq> v" | "r = v" "l \<noteq> v" | "l = v" "r = v" | "l \<noteq> v" "r \<noteq> v" by blast
  then show ?case
  proof cases
    case 1
    have "{u. u < 8 \<and> u \<noteq> v \<and> par (e # es) u v} = {u. u < 8 \<and> u \<noteq> v \<and> (par es u v \<noteq> (u = r))}"
      using 1 by (auto simp: e joins_def)
    then show ?thesis using toggle [OF e(3) 1(2)] ih deg 1 by simp
  next
    case 2
    have "{u. u < 8 \<and> u \<noteq> v \<and> par (e # es) u v} = {u. u < 8 \<and> u \<noteq> v \<and> (par es u v \<noteq> (u = l))}"
      using 2 by (auto simp: e joins_def)
    then show ?thesis using toggle [OF e(2) 2(2)] ih deg 2 by simp
  next
    case 3
    have "{u. u < 8 \<and> u \<noteq> v \<and> par (e # es) u v} = N" using 3 by (auto simp: e joins_def N_def)
    then show ?thesis using ih deg 3 by simp
  next
    case 4
    have "{u. u < 8 \<and> u \<noteq> v \<and> par (e # es) u v} = N" using 4 by (auto simp: e joins_def N_def)
    then show ?thesis using ih deg 4 by simp
  qed
qed (simp add: degree_def)

lemma odd_edges_length: "card {(a, b). a < b \<and> b < 8 \<and> par es a b} \<le> length es"
proof (induction es)
  case (Cons e es)
  obtain l r where e: "e = (l, r)" by fastforce
  have "{(a, b). a < b \<and> b < 8 \<and> par (e # es) a b} \<subseteq> insert (min l r, max l r) {(a, b). a < b \<and> b < 8 \<and> par es a b}"
    by (auto simp: e joins_def min_def max_def)
  then have "card {(a, b). a < b \<and> b < 8 \<and> par (e # es) a b} \<le> card (insert (min l r, max l r) {(a, b). a < b \<and> b < 8 \<and> par es a b})"
    by (intro card_mono) (simp_all add: finite_pairs)
  also have "\<dots> \<le> Suc (card {(a, b). a < b \<and> b < 8 \<and> par es a b})" by (rule card_insert_le_m1) simp_all
  finally show ?case using Cons by simp
qed simp

lemma card_pairs: "card {(a, b). a < b \<and> b < (k::nat)} = k * (k - 1) div 2"
proof (induction k)
  case (Suc k)
  have "{(a, b). a < b \<and> b < Suc k} = {(a, b). a < b \<and> b < k} \<union> (\<lambda>a. (a, k)) ` {..<k}" by auto
  moreover have "card ({(a, b). a < b \<and> b < k} \<union> (\<lambda>a. (a, k)) ` {..<k}) = card {(a, b). a < b \<and> b < k} + k"
    by (subst card_Un_disjoint) (auto simp: card_image inj_on_def intro: finite_subset [of _ "{..<k} \<times> {..<k}"])
  moreover have "Suc k * k div 2 = k * (k - 1) div 2 + k"
    by (cases k) (simp_all add: algebra_simps)
  ultimately show ?case using Suc by simp
qed simp

lemma par_vertices: "\<forall>(l, r)\<in>set es. l < k \<and> r < k \<Longrightarrow> par es a b \<Longrightarrow> a < k \<and> b < k"
  by (induction es) (auto simp: joins_def)

lemma mask_bits:
  assumes "a < 8" "b < 8"
  shows "edge 0xFF7F3F1F0F070301 a b \<longleftrightarrow> b \<le> a" "edge 0x8040201008040201 a b \<longleftrightarrow> a = b"
proof -
  have "list_all (\<lambda>a. list_all (\<lambda>b. (bit (0xFF7F3F1F0F070301 :: u64) (8 * a + b) = (b \<le> a))
      \<and> bit (0x8040201008040201 :: u64) (8 * a + b) = (a = b)) [0..<8]) [0..<8]" by code_simp
  then show "edge 0xFF7F3F1F0F070301 a b \<longleftrightarrow> b \<le> a" "edge 0x8040201008040201 a b \<longleftrightarrow> a = b"
    using assms by (simp_all add: list_all_iff edge_def)
qed

lemma EulerPath_balanced:
  assumes "\<forall>(l, r)\<in>set es. l < k \<and> r < k" "k \<le> 8" "\<And>v. v < 8 \<Longrightarrow> even (degree es v)"
  defines "P \<equiv> edges (EulerPath (length es) (record_edges k es))"
  shows "\<forall>a<8. \<forall>b<8. a \<noteq> b \<longrightarrow> edge P a b \<noteq> edge P b a"
    "v < 8 \<Longrightarrow> (\<Sum>u<8. if u \<noteq> v \<and> par es u v then sg (edge P u v) else 0) = 0"
proof -
  define rec where "rec = record_edges k es"
  have es8: "\<forall>(l, r)\<in>set es. l < 8 \<and> r < 8" using assms(1,2) by fastforce
  have rec: "edge (edges rec) a b = par es a b" if "a < 8" "b < 8" for a b
    using edge_record(1) [OF es8 that] by (simp add: rec_def)
  have k: "er_k rec = k" using edge_record(2) [OF es8, of 0 0] by (simp add: rec_def)
  define S where "S = (edges rec AND NOT 0x8040201008040201)"
  define Q0 where "Q0 = (NOT (edges rec) AND 0xFF7F3F1F0F070301)"
  define n where "n = min (length es) (k * (k - 1) div 2)"
  have S: "edge S a b \<longleftrightarrow> par es a b \<and> a \<noteq> b" if "a < 8" "b < 8" for a b
  proof -
    define diag :: u64 where "diag = 0x8040201008040201"
    show ?thesis
      using rec [OF that] mask_bits(2) [OF that] that
      unfolding S_def edge_def diag_def [symmetric] by (simp add: bit_and_iff bit_not_iff)
  qed
  have Q0: "edge Q0 a b \<longleftrightarrow> \<not> edge S a b \<and> b < a" if "a < 8" "b < 8" "a \<noteq> b" for a b
    using rec [OF that(1,2)] mask_bits(1) [OF that(1,2)] S [OF that(1,2)] that
    by (auto simp: Q0_def edge_def bit_and_iff bit_not_iff)
  have even: "simple_even S"
    unfolding simple_even_def
  proof (intro conjI allI impI)
    fix v :: nat assume v: "v < 8"
    have "{u. u < 8 \<and> edge S u v} = {u. u < 8 \<and> u \<noteq> v \<and> par es u v}" using S v by auto
    then show "even (card {u. u < 8 \<and> edge S u v})" using odd_neighbours [OF es8, of v] assms(3) [OF v] by simp
  next
    fix a b :: nat assume "a < 8" "b < 8"
    then show "edge S a b = edge S b a" using S par_commute [of es a b] by auto
  qed (use S in simp)
  have pairs: "{(a, b). a < b \<and> b < 8 \<and> edge S a b} = {(a, b). a < b \<and> b < 8 \<and> par es a b}"
    using S by auto
  have "card {(a, b). a < b \<and> b < 8 \<and> par es a b} \<le> k * (k - 1) div 2"
    unfolding card_pairs [symmetric] by (rule card_mono)
      (use par_vertices [OF assms(1)] in \<open>auto intro: finite_subset [of _ "{..<k} \<times> {..<k}"]\<close>)
  then have "ecount S \<le> n" using odd_edges_length [of es] unfolding ecount_def pairs n_def by simp
  from euler_loop_balanced [OF even this Q0] obtain Q where q: "euler_loop n S Q0 0 = (0, Q)"
    "\<forall>a<8. \<forall>b<8. a \<noteq> b \<longrightarrow> edge Q a b \<noteq> edge Q b a" "\<forall>v<8. (\<Sum>u<8. if edge S u v then sg (edge Q u v) else 0) = 0" by blast
  have P: "P = Q" unfolding P_def EulerPath_def Let_def rec_def [symmetric] k n_def [symmetric] Q0_def [symmetric] S_def [symmetric] q(1) by simp
  show "\<forall>a<8. \<forall>b<8. a \<noteq> b \<longrightarrow> edge P a b \<noteq> edge P b a" unfolding P by (rule q(2))
  assume v: "v < 8"
  have "(\<Sum>u<8. if u \<noteq> v \<and> par es u v then sg (edge Q u v) else 0) = (\<Sum>u<8. if edge S u v then sg (edge Q u v) else 0)"
    using S v by (intro sum.cong) auto
  also have "\<dots> = 0" using q(3) v by blast
  finally show "(\<Sum>u<8. if u \<noteq> v \<and> par es u v then sg (edge P u v) else 0) = 0" unfolding P .
qed

end
