(* ===== verification/Static_Sort.thy ===== *)
theory Static_Sort
  imports Sort_Network
begin

text \<open>
  The Bose-Nelson sorting networks that \<open>static_sort.hpp\<close> generates at compile time, and the base case
  of the interleave that uses them: an array is sorted together with the marks of its elements.
\<close>

section \<open>Definitions\<close>

text \<open>The templates \<open>PB\<close> and \<open>PS\<close> expand to sequences of comparators; a comparator is a pair of indices.
  The expansion for an empty part does not end at compile time and does not occur; the model
  returns no comparators.\<close>

function PB :: "nat \<Rightarrow> nat \<Rightarrow> nat \<Rightarrow> nat \<Rightarrow> (nat \<times> nat) list" where
  "PB I J X Y =
    (if X = 0 \<or> Y = 0 then []
     else if X = 1 \<and> Y = 1 then [(I - 1, J - 1)]
     else if X = 1 \<and> Y = 2 then [(I - 1, J), (I - 1, J - 1)]
     else if X = 2 \<and> Y = 1 then [(I - 1, J - 1), (I, J - 1)]
     else let L = X div 2;
              M = (if odd X then Y else Y + 1) div 2
          in PB I J L M @ PB (I + L) (J + M) (X - L) (Y - M) @ PB (I + L) J (X - L) M)"
  by pat_completeness auto
termination by (relation "measure (\<lambda>(I, J, X, Y). X + Y)") (auto split: if_splits)

function PS :: "nat \<Rightarrow> nat \<Rightarrow> (nat \<times> nat) list" where
  "PS I M =
    (if M \<le> 1 then []
     else let L = M div 2 in PS I L @ PS (I + L) (M - L) @ PB I (I + L) L (M - L))"
  by pat_completeness auto
termination by (relation "measure (\<lambda>(I, M). M)") auto

declare PB.simps [simp del] PS.simps [simp del]

text \<open>\<open>Swap<A, void>\<close> compares the marks and exchanges elements and marks.\<close>

definition Swap :: "'a list \<times> 'm::linorder list \<Rightarrow> nat \<times> nat \<Rightarrow> 'a list \<times> 'm list" where
  "Swap = (\<lambda>(a, marks) (i0, i1).
    let cond = marks ! i0 > marks ! i1
    in (condSwapAt cond i0 i1 a, condSwapAt cond i0 i1 marks))"

definition StaticSort :: "nat \<Rightarrow> 'a list \<times> 'm::linorder list \<Rightarrow> 'a list \<times> 'm list" where
  "StaticSort n arr = foldl Swap arr (PS 1 n)"

text \<open>The base case of the interleave; any other number of ways aborts.\<close>

definition InterleaveBaseCase :: "nat \<Rightarrow> 'a list \<times> 'm::linorder list \<Rightarrow> ('a list \<times> 'm list) option" where
  "InterleaveBaseCase k arr = (if k \<in> {3, 4, 5, 6, 7, 8} then Some (StaticSort k arr) else None)"

section \<open>Comparator networks\<close>

definition run_net :: "('a \<Rightarrow> 'a \<Rightarrow> bool) \<Rightarrow> (nat \<times> nat) list \<Rightarrow> 'a list \<Rightarrow> 'a list" where
  "run_net gt net xs = foldl (\<lambda>xs (i, j). condSwapAt (gt (xs ! i) (xs ! j)) i j xs) xs net"

definition net_in :: "nat \<Rightarrow> (nat \<times> nat) list \<Rightarrow> bool" where
  "net_in n net \<longleftrightarrow> list_all (\<lambda>(i, j). i < n \<and> j < n) net"

lemma run_net_simps [simp]:
  "run_net gt [] xs = xs"
  "run_net gt ((i, j) # net) xs = run_net gt net (condSwapAt (gt (xs ! i) (xs ! j)) i j xs)"
  by (simp_all add: run_net_def)

lemma mset_run_net: "net_in (length xs) net \<Longrightarrow> mset (run_net gt net xs) = mset xs"
  by (induction net arbitrary: xs) (auto simp: net_in_def)

lemma map_run_net:
  assumes "net_in (length xs) net"
    and "\<And>x y. gt x y \<noteq> gt' (f x) (f y) \<Longrightarrow> f x = f y"
  shows "map f (run_net gt net xs) = run_net gt' net (map f xs)"
  using assms(1)
proof (induction net arbitrary: xs)
  case (Cons c net)
  obtain i j where c: "c = (i, j)" by fastforce
  have ij: "i < length xs" "j < length xs" using Cons.prems by (simp_all add: net_in_def c)
  have "map f (condSwapAt b i j xs) = condSwapAt b' i j (map f xs)" if "b \<noteq> b' \<Longrightarrow> f (xs ! i) = f (xs ! j)" for b b'
    by (rule nth_equalityI) (use ij that in \<open>auto simp: nth_condSwapAt\<close>)
  from this [OF assms(2)]
  have "map f (condSwapAt (gt (xs ! i) (xs ! j)) i j xs) = condSwapAt (gt' (f (xs ! i)) (f (xs ! j))) i j (map f xs)" by blast
  then show ?case using Cons ij by (simp add: c net_in_def)
qed simp

text \<open>The 0-1 principle for networks of this form.\<close>

definition bgt :: "bool \<Rightarrow> bool \<Rightarrow> bool" where
  "bgt a b \<longleftrightarrow> a \<and> \<not> b"

lemma net_sorts:
  fixes key :: "'a \<Rightarrow> 'k::linorder"
  assumes "net_in (length xs) net"
    and "\<And>bs. length bs = length xs \<Longrightarrow> bsorted (run_net bgt net bs)"
  shows "sorted (map key (run_net (\<lambda>x y. key x > key y) net xs))"
proof (rule sorted_iff_nth_mono_less [THEN iffD2], intro allI impI)
  define ys where "ys = run_net (\<lambda>x y. key x > key y) net xs"
  fix i j assume ij: "i < j" "j < length (map key ys)"
  define thr where "thr x \<longleftrightarrow> key (ys ! i) \<le> key x" for x
  have "map thr ys = run_net bgt net (map thr xs)"
    unfolding ys_def by (rule map_run_net [OF assms(1)]) (auto simp: bgt_def thr_def)
  then have "bsorted (map thr ys)" using assms(2) by simp
  then show "map key ys ! i \<le> map key ys ! j"
    using ij by (auto simp: bsorted_def thr_def dest: spec2 [of _ i j])
qed

section \<open>The Bose-Nelson networks sort\<close>

text \<open>A segment of a boolean list is sorted with \<open>z\<close> zeros.\<close>

definition seg :: "bool list \<Rightarrow> nat \<Rightarrow> nat \<Rightarrow> nat \<Rightarrow> bool" where
  "seg bs a n z \<longleftrightarrow> z \<le> n \<and> a + n \<le> length bs \<and> (\<forall>i<n. bs ! (a + i) = (z \<le> i))"

definition frame :: "nat \<Rightarrow> nat \<Rightarrow> nat \<Rightarrow> nat \<Rightarrow> bool list \<Rightarrow> bool list \<Rightarrow> bool" where
  "frame a n b m bs cs \<longleftrightarrow> length cs = length bs
    \<and> (\<forall>k<length bs. \<not> (a \<le> k \<and> k < a + n) \<longrightarrow> \<not> (b \<le> k \<and> k < b + m) \<longrightarrow> cs ! k = bs ! k)"

lemma exchange_nth:
  assumes "i < length bs" "j < length bs" "i \<noteq> j"
  defines "cs \<equiv> condSwapAt (bgt (bs ! i) (bs ! j)) i j bs"
  shows "length cs = length bs" "cs ! i = (bs ! i \<and> bs ! j)" "cs ! j = (bs ! i \<or> bs ! j)"
    "k < length bs \<Longrightarrow> k \<noteq> i \<Longrightarrow> k \<noteq> j \<Longrightarrow> cs ! k = bs ! k"
  using assms by (auto simp: cs_def nth_condSwapAt bgt_def)

lemma run_net_append: "run_net gt (n1 @ n2) xs = run_net gt n2 (run_net gt n1 xs)"
  by (simp add: run_net_def)

lemma seg_frame:
  assumes "seg bs c n z" "frame a x b y bs cs" "c + n \<le> a \<or> a + x \<le> c" "c + n \<le> b \<or> b + y \<le> c"
  shows "seg cs c n z"
  using assms unfolding seg_def frame_def by auto

lemma seg_split: "seg bs a n z \<Longrightarrow> l \<le> n \<Longrightarrow> seg bs a l (min z l) \<and> seg bs (a + l) (n - l) (z - l)"
  by (auto simp: seg_def min_def add.assoc)

lemma seg_join:
  assumes "seg bs a l z1" "seg bs (a + l) m z2" "z1 < l \<Longrightarrow> z2 = 0"
  shows "seg bs a (l + m) (z1 + z2)"
proof -
  have "bs ! (a + i) = (z1 + z2 \<le> i)" if "i < l + m" for i
  proof (cases "i < l")
    case True
    then show ?thesis using assms unfolding seg_def by (cases "z1 < l") auto
  next
    case False
    moreover have "\<forall>k<m. bs ! (a + l + k) = (z2 \<le> k)" using assms(2) by (simp add: seg_def)
    from this [rule_format, of "i - l"] have "bs ! (a + l + (i - l)) = (z2 \<le> i - l)" using that False by simp
    ultimately show ?thesis using assms(1,3) unfolding seg_def by (cases "z1 < l") auto
  qed
  then show ?thesis using assms by (auto simp: seg_def)
qed

lemma frame_trans: "frame a n b m bs cs \<Longrightarrow> frame a n b m cs ds \<Longrightarrow> frame a n b m bs ds"
  by (auto simp: frame_def)

lemma frame_widen:
  "frame a' n' b' m' bs cs \<Longrightarrow> a \<le> a' \<Longrightarrow> a' + n' \<le> a + n \<Longrightarrow> b \<le> b' \<Longrightarrow> b' + m' \<le> b + m \<Longrightarrow> frame a n b m bs cs"
  unfolding frame_def by auto

text \<open>The sizes and the numbers of zeros in the recursive calls of \<open>PB\<close>.\<close>

lemma PB_halves:
  fixes X Y :: nat
  defines "L \<equiv> X div 2" and "M \<equiv> (if odd X then Y else Y + 1) div 2"
  shows "X = 2 * L \<and> Y = 2 * M \<or> X = 2 * L \<and> Y + 1 = 2 * M \<or> X = 2 * L + 1 \<and> Y = 2 * M \<or> X = 2 * L + 1 \<and> Y = 2 * M + 1"
  unfolding L_def M_def by presburger

lemma PB_sizes:
  fixes X Y L M :: nat
  assumes "X \<le> Y + 1" "Y \<le> X + 1"
    and "X = 2 * L \<and> Y = 2 * M \<or> X = 2 * L \<and> Y + 1 = 2 * M \<or> X = 2 * L + 1 \<and> Y = 2 * M \<or> X = 2 * L + 1 \<and> Y = 2 * M + 1"
  shows "L \<le> X" "M \<le> Y" "L \<le> M + 1" "M \<le> L + 1" "X - L \<le> Y - M + 1" "Y - M \<le> X - L + 1" "X - L \<le> M + 1" "M \<le> X - L + 1"
  using assms by linarith+

lemma PB_zeros:
  fixes X Y p q :: nat
  assumes "X \<le> Y + 1" "Y \<le> X + 1" "p \<le> X" "q \<le> Y"
    and "X = 2 * L \<and> Y = 2 * M \<or> X = 2 * L \<and> Y + 1 = 2 * M \<or> X = 2 * L + 1 \<and> Y = 2 * M \<or> X = 2 * L + 1 \<and> Y = 2 * M + 1"
  defines "z1 \<equiv> min p L + min q M" and "z2 \<equiv> (p - L) + (q - M)"
  defines "z3 \<equiv> min (X - L) z2 + (z1 - L)"
  shows "min L z1 < L \<Longrightarrow> min (X - L) z3 = 0" "min L z1 + min (X - L) z3 = min X (p + q)"
    "z3 - (X - L) < M \<Longrightarrow> z2 - (X - L) = 0" "z3 - (X - L) + (z2 - (X - L)) = p + q - X"
proof -
  have z1: "z1 = (if p \<le> L then p else L) + (if q \<le> M then q else M)" by (simp add: z1_def min_def)
  have s: "X - L = L \<or> X - L = L + 1" "X = (X - L) + L" using assms(5) by linarith+
  define K where "K = X - L"
  note * = assms(1-5) s [folded K_def]
  show "min L z1 < L \<Longrightarrow> min (X - L) z3 = 0"
    using * unfolding K_def [symmetric] z3_def z2_def z1 by (cases "p \<le> L"; cases "q \<le> M") auto
  show "min L z1 + min (X - L) z3 = min X (p + q)"
    using * unfolding K_def [symmetric] z3_def z2_def z1
    by (cases "p \<le> L"; cases "q \<le> M"; cases "p + q \<le> L") (auto simp: min_def)
  show "z3 - (X - L) < M \<Longrightarrow> z2 - (X - L) = 0"
    using * unfolding K_def [symmetric] z3_def z2_def z1
    by (cases "p \<le> L"; cases "q \<le> M") (auto simp: min_def split: if_splits)
  show "z3 - (X - L) + (z2 - (X - L)) = p + q - X"
    using * unfolding K_def [symmetric] z3_def z2_def z1 by (cases "p \<le> L"; cases "q \<le> M") (auto simp: min_def)
qed

lemma seg_1: "seg bs a (Suc 0) z \<longleftrightarrow> a < length bs \<and> z \<le> 1 \<and> bs ! a = (z = 0)"
  by (auto simp: seg_def)

lemma seg_2: "seg bs a 2 z \<longleftrightarrow> Suc a < length bs \<and> z \<le> 2 \<and> bs ! a = (z = 0) \<and> bs ! Suc a = (z \<le> 1)"
  by (auto simp: seg_def numeral_2_eq_2 less_Suc_eq)

lemma PB_base:
  assumes "a + X \<le> b" "seg bs a X p" "seg bs b Y q" "X = 0 \<and> Y \<le> 1 \<or> Y = 0 \<and> X \<le> 1 \<or> X = 1 \<and> Y = 1 \<or> X = 1 \<and> Y = 2 \<or> X = 2 \<and> Y = 1"
  defines "cs \<equiv> run_net bgt (PB (Suc a) (Suc b) X Y) bs"
  shows "seg cs a X (min X (p + q)) \<and> seg cs b Y (p + q - X) \<and> frame a X b Y bs cs"
proof -
  have z: "p \<le> X" "q \<le> Y" "a + X \<le> length bs" "b + Y \<le> length bs" using assms(2,3) by (simp_all add: seg_def)
  consider (0) "X = 0 \<or> Y = 0" | (11) "X = 1" "Y = 1" | (12) "X = 1" "Y = 2" | (21) "X = 2" "Y = 1"
    using assms(4) by blast
  then show ?thesis
  proof cases
    case 0
    then show ?thesis using assms(2,3) z by (auto simp: cs_def PB.simps [of "Suc a"] frame_def min_def seg_def)
  next
    case 11
    have "cs = condSwapAt (bgt (bs ! a) (bs ! b)) a b bs" by (simp add: cs_def PB.simps [of "Suc a"] 11)
    note c = exchange_nth [of a bs b, folded this]
    show ?thesis
      using c assms(1-3) z unfolding 11 by (auto simp: seg_1 frame_def)
  next
    case 12
    define ds where "ds = condSwapAt (bgt (bs ! a) (bs ! Suc b)) a (Suc b) bs"
    have e: "cs = condSwapAt (bgt (ds ! a) (ds ! b)) a b ds" by (simp add: cs_def ds_def PB.simps [of "Suc a"] 12)
    have i: "a < length bs" "Suc b < length bs" "a \<noteq> Suc b" "b < length bs" "a \<noteq> b" using z assms(1) by (simp_all add: 12)
    note d = exchange_nth [OF i(1-3), folded ds_def]
    note c = exchange_nth [of a ds b, unfolded d(1), OF i(1,4,5), folded e]
    have "p = 0 \<or> p = 1" "q = 0 \<or> q = 1 \<or> q = 2" using z by (auto simp: 12)
    then have "seg cs a 1 (min 1 (p + q)) \<and> seg cs b 2 (p + q - 1)"
      using assms(2,3) i c(1-3) d(2,3) d(4) [of b] c(4) [of "Suc b"] unfolding 12
      by (elim disjE) (simp_all add: seg_1 seg_2)
    moreover have "frame a 1 b 2 bs cs" using c(1,4) d(4) by (auto simp: frame_def)
    ultimately show ?thesis by (simp add: 12)
  next
    case 21
    define ds where "ds = condSwapAt (bgt (bs ! a) (bs ! b)) a b bs"
    have e: "cs = condSwapAt (bgt (ds ! Suc a) (ds ! b)) (Suc a) b ds" by (simp add: cs_def ds_def PB.simps [of "Suc a"] 21)
    have i: "a < length bs" "b < length bs" "a \<noteq> b" "Suc a < length bs" "Suc a \<noteq> b" using z assms(1) by (simp_all add: 21)
    note d = exchange_nth [OF i(1-3), folded ds_def]
    note c = exchange_nth [of "Suc a" ds b, unfolded d(1), OF i(4,2,5), folded e]
    have "q = 0 \<or> q = 1" "p = 0 \<or> p = 1 \<or> p = 2" using z by (auto simp: 21)
    then have "seg cs a 2 (min 2 (p + q)) \<and> seg cs b 1 (p + q - 2)"
      using assms(2,3) i c(1-3) d(2,3) d(4) [of "Suc a"] c(4) [of a] unfolding 21
      by (elim disjE) (simp_all add: seg_1 seg_2)
    moreover have "frame a 2 b 1 bs cs" using c(1,4) d(4) by (auto simp: frame_def)
    ultimately show ?thesis by (simp add: 21)
  qed
qed

lemma PB_merges:
  assumes "a + X \<le> b" "X \<le> Y + 1" "Y \<le> X + 1" "seg bs a X p" "seg bs b Y q"
  defines "cs \<equiv> run_net bgt (PB (Suc a) (Suc b) X Y) bs"
  shows "seg cs a X (min X (p + q)) \<and> seg cs b Y (p + q - X) \<and> frame a X b Y bs cs"
  using assms(1-5) unfolding cs_def
proof (induction "X + Y" arbitrary: a b X Y bs p q rule: less_induct)
  case less
  show ?case
  proof (cases "X = 0 \<and> Y \<le> 1 \<or> Y = 0 \<and> X \<le> 1 \<or> X = 1 \<and> Y = 1 \<or> X = 1 \<and> Y = 2 \<or> X = 2 \<and> Y = 1")
    case True
    then show ?thesis using PB_base [OF less.prems(1,4,5)] by blast
  next
    case False
    define L M where LM: "L = X div 2" "M = (if odd X then Y else Y + 1) div 2"
    have XY: "0 < L" "0 < M" "L < X" "M < Y \<or> M \<le> Y" "\<not> (X = 0 \<or> Y = 0)" using False less.prems(2,3) unfolding LM by presburger+
    note h = PB_halves [of X Y, folded LM]
    note sz = PB_sizes [OF less.prems(2,3) h]
    have pq: "p \<le> X" "q \<le> Y" using less.prems(4,5) by (simp_all add: seg_def)
    note zs = PB_zeros [OF less.prems(2,3) pq h]
    define z1 z2 where z: "z1 = min p L + min q M" "z2 = (p - L) + (q - M)"
    define z3 where z3: "z3 = min (X - L) z2 + (z1 - L)"
    note zs = zs [folded z, folded z3]
    define b1 where "b1 = run_net bgt (PB (Suc a) (Suc b) L M) bs"
    define b2 where "b2 = run_net bgt (PB (Suc (a + L)) (Suc (b + M)) (X - L) (Y - M)) b1"
    define b3 where "b3 = run_net bgt (PB (Suc (a + L)) (Suc b) (X - L) M) b2"
    have net: "run_net bgt (PB (Suc a) (Suc b) X Y) bs = b3"
      using False XY(5) unfolding b3_def b2_def b1_def LM
      by (subst PB.simps) (auto simp: Let_def run_net_append)
    have sa: "seg bs a L (min p L)" "seg bs (a + L) (X - L) (p - L)" using seg_split [OF less.prems(4) sz(1)] by simp_all
    have sb: "seg bs b M (min q M)" "seg bs (b + M) (Y - M) (q - M)" using seg_split [OF less.prems(5) sz(2)] by simp_all
    have 1: "seg b1 a L (min L z1)" "seg b1 b M (z1 - L)" "frame a L b M bs b1"
      using less.hyps [of L M a b bs, OF _ _ sz(3,4) sa(1) sb(1)] less.prems(1) XY sz unfolding b1_def z by simp_all
    have "seg b1 (a + L) (X - L) (p - L)" "seg b1 (b + M) (Y - M) (q - M)"
      using seg_frame [OF sa(2) 1(3)] seg_frame [OF sb(2) 1(3)] less.prems(1) sz by auto
    then have 2: "seg b2 (a + L) (X - L) (min (X - L) z2)" "seg b2 (b + M) (Y - M) (z2 - (X - L))" "frame (a + L) (X - L) (b + M) (Y - M) b1 b2"
      using less.hyps [of "X - L" "Y - M" "a + L" "b + M" b1, OF _ _ sz(5,6)] less.prems(1) XY sz unfolding b2_def z by simp_all
    have "seg b2 b M (z1 - L)" "seg b2 a L (min L z1)"
      using seg_frame [OF 1(2) 2(3)] seg_frame [OF 1(1) 2(3)] less.prems(1) sz by auto
    then have 3: "seg b3 (a + L) (X - L) (min (X - L) z3)" "seg b3 b M (z3 - (X - L))" "frame (a + L) (X - L) b M b2 b3" "seg b3 a L (min L z1)"
      using less.hyps [of "X - L" M "a + L" b b2, OF _ _ sz(7,8) 2(1)] less.prems(1) XY sz seg_frame [of b2 a L "min L z1" "a + L" "X - L" b M b3]
      unfolding b3_def z3 by auto
    have "seg b3 (b + M) (Y - M) (z2 - (X - L))"
      using seg_frame [OF 2(2) 3(3)] less.prems(1) sz by auto
    from seg_join [OF 3(2) this zs(3)] have "seg b3 b Y (p + q - X)"
      using sz(2) unfolding zs(4) by simp
    moreover have "seg b3 a X (min X (p + q))"
      using seg_join [OF 3(4,1) zs(1)] sz(1) unfolding zs(2) by simp
    moreover have "frame a X b Y bs b3"
      using frame_widen [OF 1(3), of a X b Y] frame_widen [OF 2(3), of a X b Y] frame_widen [OF 3(3), of a X b Y] sz
      by (auto intro: frame_trans)
    ultimately show ?thesis unfolding net by blast
  qed
qed

lemma PS_sorts:
  assumes "a + n \<le> length bs"
  defines "cs \<equiv> run_net bgt (PS (Suc a) n) bs"
  shows "(\<exists>z. seg cs a n z) \<and> frame a n a 0 bs cs"
  using assms(1) unfolding cs_def
proof (induction n arbitrary: a bs rule: less_induct)
  case (less n)
  show ?case
  proof (cases "n \<le> 1")
    case True
    then consider "n = 0" | "n = 1" by linarith
    then show ?thesis
    proof cases
      case 2
      then have "seg bs a n (of_bool (\<not> bs ! a))" using less.prems by (simp add: seg_1)
      then show ?thesis using True by (auto simp: PS.simps [of "Suc a" n] frame_def)
    qed (use less.prems in \<open>auto simp: PS.simps [of "Suc a" 0] frame_def seg_def\<close>)
  next
    case False
    define L where "L = n div 2"
    have L: "L < n" "n - L < n" "a + L \<le> a + L" "L \<le> n - L + 1" "n - L \<le> L + 1" using False by (auto simp: L_def)
    define b1 where "b1 = run_net bgt (PS (Suc a) L) bs"
    define b2 where "b2 = run_net bgt (PS (Suc (a + L)) (n - L)) b1"
    define b3 where "b3 = run_net bgt (PB (Suc a) (Suc (a + L)) L (n - L)) b2"
    have net: "run_net bgt (PS (Suc a) n) bs = b3"
      using False unfolding b3_def b2_def b1_def L_def by (subst PS.simps) (simp add: Let_def run_net_append)
    obtain p where 1: "seg b1 a L p" "frame a L a 0 bs b1"
      using less.IH [OF L(1), of a bs] less.prems L(1) unfolding b1_def by auto
    have len: "length b1 = length bs" using 1(2) by (simp add: frame_def)
    obtain q where 2: "seg b2 (a + L) (n - L) q" "frame (a + L) (n - L) (a + L) 0 b1 b2"
      using less.IH [OF L(2), of "a + L" b1] less.prems L(1) len unfolding b2_def by auto
    have "seg b2 a L p" using seg_frame [OF 1(1) 2(2)] by simp
    from PB_merges [OF L(3,4,5) this 2(1), folded b3_def]
    have 3: "seg b3 a L (min L (p + q))" "seg b3 (a + L) (n - L) (p + q - L)" "frame a L (a + L) (n - L) b2 b3" by simp_all
    have "seg b3 a (L + (n - L)) (min L (p + q) + (p + q - L))" by (rule seg_join [OF 3(1,2)]) simp
    moreover have "frame a n a 0 bs b3"
      using 1(2) 2(2) 3(3) L(1) unfolding frame_def by auto
    ultimately show ?thesis unfolding net using L(1) by auto
  qed
qed

lemma PB_in:
  assumes "a + X \<le> n" "b + Y \<le> n"
  shows "net_in n (PB (Suc a) (Suc b) X Y)"
  using assms
proof (induction "X + Y" arbitrary: a b X Y rule: less_induct)
  case less
  define L M where LM: "L = X div 2" "M = (if odd X then Y else Y + 1) div 2"
  have le: "M \<le> Y" "L \<le> X" unfolding LM by auto
  show ?case
  proof (cases "X = 0 \<or> Y = 0 \<or> X = 1 \<and> Y = 1 \<or> X = 1 \<and> Y = 2 \<or> X = 2 \<and> Y = 1")
    case True
    then show ?thesis using less.prems by (subst PB.simps) (auto simp: net_in_def)
  next
    case False
    have m: "L + M < X + Y" "X - L + (Y - M) < X + Y" "X - L + M < X + Y" using False le unfolding LM by (auto split: if_splits)
    have "PB (Suc a) (Suc b) X Y = PB (Suc a) (Suc b) L M @ PB (Suc (a + L)) (Suc (b + M)) (X - L) (Y - M) @ PB (Suc (a + L)) (Suc b) (X - L) M"
      using False unfolding LM by (subst PB.simps) (auto simp: Let_def)
    moreover have "net_in n (PB (Suc a) (Suc b) L M)" by (rule less.hyps [OF m(1)]) (use less.prems le in auto)
    moreover have "net_in n (PB (Suc (a + L)) (Suc (b + M)) (X - L) (Y - M))" by (rule less.hyps [OF m(2)]) (use less.prems le in auto)
    moreover have "net_in n (PB (Suc (a + L)) (Suc b) (X - L) M)" by (rule less.hyps [OF m(3)]) (use less.prems le in auto)
    ultimately show ?thesis by (simp add: net_in_def)
  qed
qed

lemma PS_in: "a + m \<le> n \<Longrightarrow> net_in n (PS (Suc a) m)"
proof (induction m arbitrary: a rule: less_induct)
  case (less m)
  show ?case
  proof (cases "m \<le> 1")
    case False
    have "PS (Suc a) m = PS (Suc a) (m div 2) @ PS (Suc (a + m div 2)) (m - m div 2) @ PB (Suc a) (Suc (a + m div 2)) (m div 2) (m - m div 2)"
      using False by (subst PS.simps) (simp add: Let_def)
    moreover have "net_in n (PS (Suc a) (m div 2))" "net_in n (PS (Suc (a + m div 2)) (m - m div 2))"
      using less.IH [of "m div 2" a] less.IH [of "m - m div 2" "a + m div 2"] less.prems False by simp_all
    moreover have "net_in n (PB (Suc a) (Suc (a + m div 2)) (m div 2) (m - m div 2))"
      using less.prems by (intro PB_in) auto
    ultimately show ?thesis by (simp add: net_in_def)
  qed (simp add: PS.simps [of "Suc a" m] net_in_def)
qed

lemma PS_bsorted: "length bs = n \<Longrightarrow> bsorted (run_net bgt (PS 1 n) bs)"
  using PS_sorts [of 0 n bs] by (auto simp: seg_def frame_def bsorted_def)

section \<open>Sorting elements by their marks\<close>

lemma StaticSort_zip:
  assumes "length a = n" "length marks = n"
  defines "z \<equiv> run_net (\<lambda>x y. snd x > snd y) (PS 1 n) (zip a marks)"
  shows "StaticSort n (a, marks) = (map fst z, map snd z)"
proof -
  have "foldl Swap (map fst ps, map snd ps) net = (map fst (run_net (\<lambda>x y. snd x > snd y) net ps), map snd (run_net (\<lambda>x y. snd x > snd y) net ps))"
    if "net_in (length ps) net" for ps :: "('a \<times> 'b) list" and net
    using that
  proof (induction net arbitrary: ps)
    case (Cons c net)
    obtain i j where c: "c = (i, j)" by fastforce
    have ij: "i < length ps" "j < length ps" "net_in (length ps) net" using Cons.prems by (simp_all add: net_in_def c)
    have "Swap (map fst ps, map snd ps) c = (map fst (condSwapAt (snd (ps ! i) > snd (ps ! j)) i j ps), map snd (condSwapAt (snd (ps ! i) > snd (ps ! j)) i j ps))"
      using ij(1,2) by (simp add: Swap_def c map_condSwapAt Let_def)
    then show ?case using Cons.IH [of "condSwapAt (snd (ps ! i) > snd (ps ! j)) i j ps"] ij by (simp add: c)
  qed simp
  from this [of "zip a marks" "PS 1 n"] PS_in [of 0 n n] assms(1,2) show ?thesis
    by (simp add: StaticSort_def z_def)
qed

lemma StaticSort_spec:
  assumes "length a = n" "length marks = n" "StaticSort n (a, marks) = (a', marks')"
  shows "length a' = n \<and> length marks' = n \<and> mset (zip a' marks') = mset (zip a marks) \<and> sorted marks'"
proof -
  define z where "z = run_net (\<lambda>x y. snd x > snd y) (PS 1 n) (zip a marks)"
  have e: "a' = map fst z" "marks' = map snd z" using StaticSort_zip [OF assms(1,2)] assms(3) by (simp_all add: z_def)
  have i: "net_in (length (zip a marks)) (PS 1 n)" using PS_in [of 0 n n] assms(1,2) by simp
  have m: "mset z = mset (zip a marks)" unfolding z_def by (rule mset_run_net [OF i])
  have "sorted (map snd z)" unfolding z_def by (rule net_sorts [OF i], rule PS_bsorted) (simp add: assms(1,2))
  then show ?thesis using mset_eq_length [OF m] m assms(1,2) by (simp add: e zip_map_fst_snd)
qed

section \<open>Properties\<close>

text \<open>(C38) The sorting networks that the template \<open>StaticSort\<close> generates sort for every size \<open>n\<close>: the marks are
  sorted and the elements move together with their marks.\<close>

theorem StaticSort_sorts:
  assumes "length a = n" "length marks = n" "StaticSort n (a, marks) = (a', marks')"
  shows "sorted marks' \<and> mset (zip a' marks') = mset (zip a marks) \<and> length a' = n \<and> length marks' = n"
  using StaticSort_spec [OF assms] by simp

theorem StaticSort_sorts_witness:
  "\<exists>a' marks'. StaticSort 5 (''hello'', [3, 1, 4, 0, 2 :: u8]) = (a', marks') \<and> sorted marks'
    \<and> mset (zip a' marks') = mset (zip ''hello'' [3, 1, 4, 0, 2])"
proof -
  obtain a' marks' where s: "StaticSort 5 (''hello'', [3, 1, 4, 0, 2 :: u8]) = (a', marks')" by fastforce
  show ?thesis using StaticSort_sorts [OF _ _ s] s by auto
qed

end
