(* ===== verification/Interleave_Kway.thy ===== *)
theory Interleave_Kway
  imports Edge_Rec Static_Sort
begin

text \<open>
  The interleave for more than two ways (\<open>sort_building_blocks.hpp\<close>).  The marks of the two halves
  are the edges of a multigraph on the ways; orienting the edges along Euler circuits tells which
  pairs of elements have to be exchanged so that every mark occurs equally often in both halves.
\<close>

section \<open>Definitions\<close>

text \<open>Elements and marks are in two arrays that are permuted together; the model has one list of pairs.\<close>

abbreviation mark :: "'a \<times> u8 \<Rightarrow> nat" where
  "mark x \<equiv> unat (snd x)"

fun orient_loop :: "EdgeRec \<Rightarrow> ('a \<times> u8) list \<Rightarrow> ('a \<times> u8) list \<Rightarrow> ('a \<times> u8) list \<times> ('a \<times> u8) list" where
  "orient_loop path (l # left) (r # right) =
    (let (swapFlag, path) = retrieveAndFlipEdge (mark l) (mark r) path;
         (l, r) = condSwap swapFlag l r;
         (left, right) = orient_loop path left right
     in (l # left, r # right))"
| "orient_loop path left right = (left, right)"

text \<open>The first pair is not exchanged; if its edge points in the wrong direction, all directions are
  reversed.  The code asserts that the size is \<open>k\<close> times a power of two; for other sizes the model
  stops.\<close>

definition interleave_pass :: "nat \<Rightarrow> ('a \<times> u8) list \<Rightarrow> ('a \<times> u8) list \<Rightarrow> ('a \<times> u8) list \<times> ('a \<times> u8) list" where
  "interleave_pass k left right =
    (let rec = foldl (\<lambda>rec (l, r). flipEdge (mark l) (mark r) rec) (EdgeRec_new k) (zip left right);
         path = EulerPath (length left) rec;
         (reverse, path) = retrieveAndFlipEdge (mark (hd left)) (mark (hd right)) path;
         path = flipEdgeMask (- of_bool reverse) path;
         (left', right') = orient_loop path (tl left) (tl right)
     in (hd left # left', hd right # right'))"

lemma length_orient_loop:
  "length (fst (orient_loop path ls rs)) = length ls" "length (snd (orient_loop path ls rs)) = length rs"
proof (induction ls arbitrary: path rs)
  case (Cons l ls)
  { case 1 show ?case using Cons(1) by (cases rs) (simp_all add: split_beta Let_def) next
    case 2 show ?case using Cons(2) by (cases rs) (simp_all add: split_beta Let_def) }
qed simp_all

lemma length_interleave_pass:
  "ls \<noteq> [] \<Longrightarrow> length (fst (interleave_pass k ls rs)) = length ls"
  "rs \<noteq> [] \<Longrightarrow> length (snd (interleave_pass k ls rs)) = length rs"
  by (simp_all add: interleave_pass_def Let_def split_beta length_orient_loop)

function Interleave :: "nat \<Rightarrow> ('a \<times> u8) list \<Rightarrow> ('a \<times> u8) list option" where
  "Interleave k xs =
    (let size = length xs
     in if size = k
        then map_option (\<lambda>(a, marks). zip a marks) (InterleaveBaseCase k (map fst xs, map snd xs))
        else if size < 2 \<or> odd size then None
        else let (left, right) = interleave_pass k (take (size div 2) xs) (drop (size div 2) xs)
             in case Interleave k left of None \<Rightarrow> None
                | Some left \<Rightarrow> case Interleave k right of None \<Rightarrow> None
                | Some right \<Rightarrow> Some (left @ right))"
  by pat_completeness auto
termination
proof (relation "measure (\<lambda>(k, xs). length xs)", goal_cases)
  case (2 k xs n p left right)
  have "length left = n div 2"
    using length_interleave_pass(1) [of "take (n div 2) xs" k "drop (n div 2) xs"] 2(1,3) arg_cong [OF 2(5), of fst]
    unfolding 2(4) by (cases "xs = []") auto
  then show ?case using 2(1,3) by auto
next
  case (3 k xs n p left right l)
  have "length right = n - n div 2"
    using length_interleave_pass(2) [of "drop (n div 2) xs" k "take (n div 2) xs"] 3(1,3) arg_cong [OF 3(5), of snd]
    unfolding 3(4) by (cases "xs = []") auto
  then show ?case using 3(1,3) by auto
qed simp

declare Interleave.simps [simp del]

section \<open>A pass balances every mark\<close>

definition net_flow :: "u64 \<Rightarrow> (nat \<times> nat) list \<Rightarrow> nat \<Rightarrow> int" where
  "net_flow P es v = (\<Sum>u<8. if u \<noteq> v \<and> par es u v then sg (edge P u v) else 0)"

lemma net_flow_Cons:
  assumes "l < 8" "r < 8" "v < 8" "edges rec = P" "\<forall>a<8. \<forall>b<8. a \<noteq> b \<longrightarrow> edge P a b \<noteq> edge P b a"
  shows "net_flow P ((l, r) # es) v = net_flow (edges (flipEdge l r rec)) es v
    + (if edge P l r then of_bool (v = r) - of_bool (v = l) else of_bool (v = l) - of_bool (v = r))"
proof -
  define t where "t u = (if l \<noteq> r \<and> (u = l \<and> v = r \<or> u = r \<and> v = l) then sg (edge P u v) else 0)" for u
  have summand: "(if u \<noteq> v \<and> par ((l, r) # es) u v then sg (edge P u v) else 0)
      = (if u \<noteq> v \<and> par es u v then sg (edge (edges (flipEdge l r rec)) u v) else 0) + t u" if "u < 8" for u
  proof -
    have t: "t u = (if u \<noteq> v \<and> joins u v (l, r) then sg (edge P u v) else 0)" by (auto simp: t_def joins_def)
    have f: "edge (edges (flipEdge l r rec)) u v = (edge P u v \<noteq> joins u v (l, r))"
      using edge_flip [OF assms(1,2) that assms(3), of rec] assms(4) by (auto simp: joins_def)
    show ?thesis
      unfolding par_simps t f by (cases "joins u v (l, r)"; cases "par es u v"; cases "edge P u v") (simp_all add: sg_def)
  qed
  have "net_flow P ((l, r) # es) v = net_flow (edges (flipEdge l r rec)) es v + (\<Sum>u<8. t u)"
    unfolding net_flow_def sum.distrib [symmetric] by (rule sum.cong [OF refl summand]) simp
  moreover have "(\<Sum>u<8. t u) = (if edge P l r then of_bool (v = r) - of_bool (v = l) else of_bool (v = l) - of_bool (v = r))"
  proof -
    define x y where xy: "x = (if l \<noteq> r \<and> v = r then sg (edge P l r) else 0)" "y = (if l \<noteq> r \<and> v = l then sg (edge P r l) else 0)"
    have "t u = (if u = l then x else 0) + (if u = r then y else 0)" for u
      unfolding t_def xy by (cases "u = l"; cases "u = r"; cases "v = l"; cases "v = r") simp_all
    then have "(\<Sum>u<8. t u) = x + y" using assms(1,2) by (simp add: sum.distrib sum.delta)
    also have "\<dots> = (if edge P l r then of_bool (v = r) - of_bool (v = l) else of_bool (v = l) - of_bool (v = r))"
    proof (cases "l = r")
      case False
      then have "edge P l r \<noteq> edge P r l" using assms(1,2,5) by blast
      then show ?thesis using False by (auto simp: sg_def xy)
    qed (simp add: xy)
    finally show ?thesis .
  qed
  ultimately show ?thesis by simp
qed

abbreviation count_mark :: "nat \<Rightarrow> ('a \<times> u8) list \<Rightarrow> nat" where
  "count_mark v xs \<equiv> length (filter (\<lambda>x. mark x = v) xs)"

lemma orient_loop_flow:
  assumes "length ls = length rs" "\<forall>x\<in>set (ls @ rs). mark x < 8" "v < 8"
    and "\<forall>a<8. \<forall>b<8. a \<noteq> b \<longrightarrow> edge (edges path) a b \<noteq> edge (edges path) b a"
  shows "int (count_mark v (fst (orient_loop path ls rs))) - int (count_mark v (snd (orient_loop path ls rs)))
    = net_flow (edges path) (zip (map mark ls) (map mark rs)) v
    \<and> mset (fst (orient_loop path ls rs)) + mset (snd (orient_loop path ls rs)) = mset ls + mset rs"
  using assms(1,2,4)
proof (induction ls rs arbitrary: path rule: list_induct2)
  case Nil
  then show ?case by (simp add: net_flow_def)
next
  case (Cons l ls r rs)
  have lr: "mark l < 8" "mark r < 8" using Cons.prems by simp_all
  define path' where "path' = flipEdge (mark l) (mark r) path"
  define p where "p = orient_loop path' ls rs"
  have anti: "\<forall>a<8. \<forall>b<8. a \<noteq> b \<longrightarrow> edge (edges path') a b \<noteq> edge (edges path') b a"
  proof (intro allI impI)
    fix a b :: nat assume "a < 8" "b < 8" "a \<noteq> b"
    moreover from this have "edge (edges path) a b \<noteq> edge (edges path) b a" using Cons.prems(2) by blast
    ultimately show "edge (edges path') a b \<noteq> edge (edges path') b a" using lr by (auto simp: edge_flip path'_def)
  qed
  have ih: "int (count_mark v (fst p)) - int (count_mark v (snd p)) = net_flow (edges path') (zip (map mark ls) (map mark rs)) v"
    "mset (fst p) + mset (snd p) = mset ls + mset rs"
    using Cons.IH [OF _ anti] Cons.prems(1) unfolding p_def by simp_all
  have o: "orient_loop path (l # ls) (r # rs) = (if edge (edges path) (mark l) (mark r) then (r # fst p, l # snd p) else (l # fst p, r # snd p))"
    using retrieve_flip [OF lr, of path] by (simp add: condSwap_def split_beta p_def path'_def)
  note f = net_flow_Cons [OF lr assms(3) refl Cons.prems(2), of "zip (map mark ls) (map mark rs)", folded path'_def]
  show ?case
    using ih f unfolding o by (auto simp: of_bool_def split: if_splits)
qed

lemma pass_is_orient_loop:
  fixes k :: nat and l r :: "'a \<times> u8"
  assumes "\<forall>x\<in>set (l # ls @ r # rs). mark x < 8"
  defines "path \<equiv> EulerPath (length (l # ls)) (record_edges k (zip (map mark (l # ls)) (map mark (r # rs))))"
  shows "interleave_pass k (l # ls) (r # rs)
    = orient_loop (flipEdgeMask (- of_bool (edge (edges path) (mark l) (mark r))) path) (l # ls) (r # rs)"
proof -
  define b where "b = edge (edges path) (mark l) (mark r)"
  have lr: "mark l < 8" "mark r < 8" using assms(1) by simp_all
  have rec: "foldl (\<lambda>rec (l, r). flipEdge (mark l) (mark r) rec) (EdgeRec_new k) (zip (l # ls) (r # rs))
      = record_edges k (zip (map mark (l # ls)) (map mark (r # rs)))"
    unfolding record_edges_def zip_map_map foldl_map by (simp add: case_prod_unfold)
  have comm: "flipEdge (mark l) (mark r) (flipEdgeMask m path) = flipEdgeMask m (flipEdge (mark l) (mark r) path)" for m
    by (simp add: flipEdge_def flipEdgeMask_def xor.assoc xor.commute xor.left_commute)
  have no: "\<not> edge (edges (flipEdgeMask (- of_bool b) path)) (mark l) (mark r)"
    using edge_flip_all [OF lr] by (simp add: b_def)
  have "interleave_pass k (l # ls) (r # rs) =
      (let p = orient_loop (flipEdgeMask (- of_bool b) (flipEdge (mark l) (mark r) path)) ls rs in (l # fst p, r # snd p))"
    unfolding interleave_pass_def rec Let_def path_def [symmetric] list.sel retrieve_flip [OF lr] prod.case b_def [symmetric]
    by (simp add: split_beta)
  then show ?thesis
    unfolding b_def [symmetric] orient_loop.simps retrieve_flip [OF lr] comm using no
    by (simp add: condSwap_def split_beta Let_def)
qed

lemma interleave_pass_balances:
  assumes "length ls = length rs" "ls \<noteq> []" "\<forall>x\<in>set (ls @ rs). mark x < k" "k \<le> 8"
    and "\<And>v. v < k \<Longrightarrow> even (count_mark v (ls @ rs))"
  defines "p \<equiv> interleave_pass k ls rs"
  shows "mset (fst p) + mset (snd p) = mset ls + mset rs" "v < k \<Longrightarrow> count_mark v (fst p) = count_mark v (snd p)"
    "length (fst p) = length ls" "length (snd p) = length ls"
proof -
  obtain l ls' r rs' where e: "ls = l # ls'" "rs = r # rs'" using assms(1,2) by (cases ls; cases rs) auto
  define es where "es = zip (map mark ls) (map mark rs)"
  define path where "path = EulerPath (length ls) (record_edges k es)"
  define b where "b = edge (edges path) (mark l) (mark r)"
  define path' where "path' = flipEdgeMask (- of_bool b) path"
  have m8: "\<forall>x\<in>set (ls @ rs). mark x < 8" using assms(3,4) by fastforce
  have p: "p = orient_loop path' ls rs"
    using pass_is_orient_loop [of l ls' r rs' k] m8 unfolding p_def path'_def b_def path_def es_def e by simp
  have len: "length es = length ls" using assms(1) by (simp add: es_def)
  have vert: "\<forall>(l, r)\<in>set es. l < k \<and> r < k"
    using assms(3) unfolding es_def by (auto simp: set_zip)
  have deg: "degree es v = count_mark v (ls @ rs)" for v
  proof -
    have "length (filter (\<lambda>e. fst e = v) es) = length (filter (\<lambda>m. m = v) (map fst es))" by (simp add: filter_map comp_def)
    moreover have "length (filter (\<lambda>e. snd e = v) es) = length (filter (\<lambda>m. m = v) (map snd es))" by (simp add: filter_map comp_def)
    ultimately show ?thesis using assms(1) by (simp add: degree_def es_def filter_map comp_def)
  qed
  have even: "even (degree es v)" if "v < 8" for v
  proof (cases "v < k")
    case False
    then have "filter (\<lambda>x. mark x = v) (ls @ rs) = []" using assms(3) by (auto simp: filter_empty_conv)
    then show ?thesis unfolding deg by simp
  qed (use assms(5) deg in simp)
  have ep: "\<forall>a<8. \<forall>b<8. a \<noteq> b \<longrightarrow> edge (edges path) a b \<noteq> edge (edges path) b a"
    "v < 8 \<Longrightarrow> (\<Sum>u<8. if u \<noteq> v \<and> par es u v then sg (edge (edges path) u v) else 0) = 0" for v
    using EulerPath_balanced [OF vert assms(4)] even unfolding path_def len [symmetric] by blast+
  have anti: "\<forall>a<8. \<forall>b<8. a \<noteq> b \<longrightarrow> edge (edges path') a b \<noteq> edge (edges path') b a"
    using ep(1) unfolding path'_def by (metis edge_flip_all)
  have zero: "net_flow (edges path') es v = 0" if "v < 8" for v
  proof -
    have "net_flow (edges path') es v = (\<Sum>u<8. (if b then - 1 else 1) * (if u \<noteq> v \<and> par es u v then sg (edge (edges path) u v) else 0))"
      unfolding net_flow_def path'_def using that by (intro sum.cong) (auto simp: edge_flip_all sg_def)
    also have "\<dots> = 0" unfolding sum_distrib_left [symmetric] using ep(2) [OF that] by simp
    finally show ?thesis .
  qed
  show "mset (fst p) + mset (snd p) = mset ls + mset rs"
    using orient_loop_flow [OF assms(1) m8 _ anti, of 0] by (simp add: p)
  show "count_mark v (fst p) = count_mark v (snd p)" if "v < k"
    using orient_loop_flow [OF assms(1) m8 _ anti, of v] zero [of v] that assms(4) unfolding p es_def by simp
  show "length (fst p) = length ls" "length (snd p) = length ls"
    using length_orient_loop [of path' ls rs] assms(1) by (simp_all add: p)
qed

section \<open>Interleaving\<close>

lemma base_case_marks:
  assumes "length xs = k" "3 \<le> k" "k \<le> 8" "\<forall>x\<in>set xs. mark x < k" "\<And>v. v < k \<Longrightarrow> count_mark v xs = 1"
  shows "\<exists>ys. Interleave k xs = Some ys \<and> mset ys = mset xs \<and> map mark ys = [0..<k]"
proof -
  obtain a ms where s: "StaticSort k (map fst xs, map snd xs) = (a, ms)" by fastforce
  have sp: "length a = k" "length ms = k" "mset (zip a ms) = mset xs" "sorted ms"
    using StaticSort_spec [OF _ _ s] assms(1) by (simp_all add: zip_map_fst_snd)
  have "k \<in> {3, 4, 5, 6, 7, 8}" using assms(2,3) by auto
  then have i: "Interleave k xs = Some (zip a ms)"
    using assms(1) s by (simp add: Interleave.simps [of k xs] InterleaveBaseCase_def)
  have "mset (map mark (zip a ms)) = mset (map mark xs)" using sp(3) by (metis mset_map)
  also have "\<dots> = mset [0..<k]"
  proof (rule multiset_eqI)
    fix v
    have c: "count (mset (map mark xs)) v = count_mark v xs" by (induction xs) auto
    show "count (mset (map mark xs)) v = count (mset [0..<k]) v"
    proof (cases "v < k")
      case False
      then have "filter (\<lambda>x. mark x = v) xs = []" using assms(4) by (auto simp: filter_empty_conv)
      then show ?thesis using c False by (simp add: count_eq_zero_iff)
    qed (use c assms(5) distinct_upt [of 0 k] in \<open>simp add: distinct_count_atmost_1\<close>)
  qed
  moreover have "sorted (map mark (zip a ms))"
  proof -
    have "map mark (zip a ms) = map unat ms" using sp(1,2) by (intro nth_equalityI) simp_all
    then show ?thesis using sp(4) by (auto simp: sorted_iff_nth_mono word_le_nat_alt)
  qed
  ultimately have "map mark (zip a ms) = [0..<k]" by (metis sorted_upt properties_for_sort)
  then show ?thesis using i sp(3) by blast
qed

lemma Interleave_spec:
  assumes "length xs = k * 2 ^ m" "3 \<le> k" "k \<le> 8" "\<forall>x\<in>set xs. mark x < k" "\<And>v. v < k \<Longrightarrow> count_mark v xs = 2 ^ m"
  shows "\<exists>ys. Interleave k xs = Some ys \<and> mset ys = mset xs \<and> map mark ys = concat (replicate (2 ^ m) [0..<k])"
  using assms(1,4,5)
proof (induction m arbitrary: xs)
  case 0
  then show ?case using base_case_marks [of xs k] assms(2,3) by simp
next
  case (Suc m)
  define h where "h = length xs div 2"
  have h: "length xs = 2 * h" "h = k * 2 ^ m" "0 < h" using Suc.prems(1) assms(2) by (simp_all add: h_def)
  define p where "p = interleave_pass k (take h xs) (drop h xs)"
  have all: "take h xs @ drop h xs = xs" by simp
  have ne: "take h xs \<noteq> []" "length (take h xs) = length (drop h xs)" using h by auto
  note b = interleave_pass_balances [OF ne(2,1), unfolded all, OF Suc.prems(2) assms(3), folded p_def]
  have ev: "even (count_mark v xs)" if "v < k" for v using Suc.prems(3) [OF that] by simp
  have ms: "mset (fst p) + mset (snd p) = mset xs" using b(1) [OF ev] by (simp flip: mset_append)
  have cnt: "count_mark v (fst p) = 2 ^ m" "count_mark v (snd p) = 2 ^ m" if "v < k" for v
  proof -
    have "count_mark v (fst p) + count_mark v (snd p) = count_mark v xs"
      using arg_cong [OF ms, of "\<lambda>M. size (filter_mset (\<lambda>x. mark x = v) M)"] by (simp flip: mset_filter)
    then show "count_mark v (fst p) = 2 ^ m" "count_mark v (snd p) = 2 ^ m"
      using b(2) [OF ev that] Suc.prems(3) [OF that] by simp_all
  qed
  have len: "length (fst p) = h" "length (snd p) = h" using b(3,4) [OF ev] h(1) by simp_all
  have "set (fst p) \<union> set (snd p) = set xs" using arg_cong [OF ms, of set_mset] by simp
  then have mk: "\<forall>x\<in>set (fst p). mark x < k" "\<forall>x\<in>set (snd p). mark x < k" using Suc.prems(2) by auto
  from Suc.IH [OF _ mk(1) cnt(1)] Suc.IH [OF _ mk(2) cnt(2)] len h(2)
  obtain l r where lr: "Interleave k (fst p) = Some l" "mset l = mset (fst p)" "map mark l = concat (replicate (2 ^ m) [0..<k])"
    "Interleave k (snd p) = Some r" "mset r = mset (snd p)" "map mark r = concat (replicate (2 ^ m) [0..<k])" by auto
  have "length xs \<noteq> k" "\<not> (length xs < 2 \<or> odd (length xs))" using h Suc.prems(1) assms(2) by auto
  then have "Interleave k xs = Some (l @ r)"
    using lr(1,4) by (simp add: Interleave.simps [of k xs] Let_def split_beta flip: h_def p_def)
  moreover have "map mark (l @ r) = concat (replicate (2 ^ Suc m) [0..<k])"
    using lr(3,6) by (simp add: mult_2 replicate_add)
  ultimately show ?case using lr(2,5) ms by (intro exI [of _ "l @ r"]) simp
qed

section \<open>Properties\<close>

text \<open>(C6) The interleave for three to eight ways returns on every array of \<open>k * 2 ^ m\<close> elements in which
  every mark below \<open>k\<close> occurs \<open>2 ^ m\<close> times: the result is a permutation of the pairs of elements and
  marks in which the marks are \<open>0, 1, ..., k - 1\<close> over and over again.\<close>

theorem Interleave_interleaves:
  assumes "length xs = k * 2 ^ m" "3 \<le> k" "k \<le> 8" "\<forall>x\<in>set xs. mark x < k" "\<forall>w<k. count_mark w xs = 2 ^ m"
  shows "\<exists>ys. Interleave k xs = Some ys \<and> mset ys = mset xs \<and> map mark ys = concat (replicate (2 ^ m) [0..<k])"
  using Interleave_spec [OF assms(1-4)] assms(5) by simp

theorem Interleave_interleaves_witness:
  "\<exists>ys. Interleave 3 (zip ''abcdef'' [0, 0, 1, 1, 2, 2]) = Some ys \<and> map mark ys = [0, 1, 2, 0, 1, 2]"
proof -
  have "\<forall>w<3. count_mark w (zip ''abcdef'' [0, 0, 1, 1, 2, 2]) = 2 ^ 1"
  proof (intro allI impI)
    fix w :: nat assume "w < 3"
    then have "w = 0 \<or> w = 1 \<or> w = 2" by linarith
    then show "count_mark w (zip ''abcdef'' [0, 0, 1, 1, 2, 2]) = 2 ^ 1" by auto
  qed
  from Interleave_interleaves [OF _ _ _ _ this]
  have "\<exists>ys. Interleave 3 (zip ''abcdef'' [0, 0, 1, 1, 2, 2]) = Some ys \<and> map mark ys = concat (replicate (2 ^ 1) [0..<3])" by auto
  moreover have "concat (replicate (2 ^ 1) [0..<3]) = [0, 1, 2, 0, 1, 2 :: nat]" by (simp add: numeral_2_eq_2 upt_rec)
  ultimately show ?thesis by (simp only:)
qed

end
