(* ===== verification/Interleave.thy ===== *)
theory Interleave
  imports Or_Compact
begin

text \<open>
  The two-way interleave and partition of \<open>sort_building_blocks.hpp\<close>.  A range with as many marked as
  unmarked elements is rearranged so that marked and unmarked elements alternate: one pass over
  the two halves exchanges elements until both halves are balanced, and each half is treated in
  the same way.  The partition then moves the marked elements to the front.
\<close>

section \<open>Definitions\<close>

text \<open>The pass over the two halves: \<open>targetBit\<close> is the mark that the left element of the next pair with
  different marks receives.\<close>

fun balance_loop :: "('a \<Rightarrow> bool) \<Rightarrow> bool \<Rightarrow> 'a list \<Rightarrow> 'a list \<Rightarrow> 'a list \<times> 'a list" where
  "balance_loop isMarked targetBit (l # left) (r # right) =
    (let leftTag = isMarked l;
         rightTag = isMarked r;
         swapFlag = (leftTag \<noteq> targetBit);
         targetBit = (rightTag \<noteq> swapFlag);
         (l, r) = condSwap swapFlag l r;
         (left, right) = balance_loop isMarked targetBit left right
     in (l # left, r # right))"
| "balance_loop isMarked targetBit left right = (left, right)"

lemma length_balance_loop [len_simps]:
  "length (fst (balance_loop m t ls rs)) = length ls" "length (snd (balance_loop m t ls rs)) = length rs"
proof (induction ls arbitrary: t rs)
  case (Cons l ls)
  { case 1 show ?case using Cons(1) by (cases rs) (simp_all add: Let_def split_beta) next
    case 2 show ?case using Cons(2) by (cases rs) (simp_all add: Let_def split_beta) }
qed simp_all

text \<open>The code asserts that the size is even and positive; the model returns any other range unchanged.
  The left half is two elements longer than the right one when the size is not a multiple of four;
  the loop then starts behind the first two elements on the left.\<close>

definition leftHalfSize :: "nat \<Rightarrow> nat" where
  "leftHalfSize n = (n + 2) div 4 * 2"

function InterleaveTwoWay :: "('a \<Rightarrow> bool) \<Rightarrow> 'a list \<Rightarrow> 'a list" where
  "InterleaveTwoWay isMarked xs =
    (let size = length xs
     in if size = 2 then condSwapAt (\<not> isMarked (xs ! 0)) 0 1 xs
        else if size = 0 \<or> odd size then xs
        else let targetBit = (\<not> isMarked (xs ! 0));
                 (l, r) = (if size mod 4 = 0 then (1, 1) else (2, 0));
                 left = take (leftHalfSize size) xs;
                 right = drop (leftHalfSize size) xs;
                 (left', right') = balance_loop isMarked targetBit (drop l left) (drop r right)
             in InterleaveTwoWay isMarked (take l left @ left') @ InterleaveTwoWay isMarked (take r right @ right'))"
  by pat_completeness auto

lemma left_half_size:
  assumes "even n" "0 < n" "n \<noteq> 2"
  shows "0 < leftHalfSize n" "leftHalfSize n < n" "even (leftHalfSize n)"
    "n mod 4 = 0 \<Longrightarrow> n = 2 * leftHalfSize n" "n mod 4 \<noteq> 0 \<Longrightarrow> n + 2 = 2 * leftHalfSize n"
proof -
  obtain q where q: "n = 2 * q" using assms(1) by (auto elim: evenE)
  have h: "leftHalfSize n = (q + 1) div 2 * 2" by (simp add: leftHalfSize_def q)
  then show "0 < leftHalfSize n" "leftHalfSize n < n" "even (leftHalfSize n)"
    unfolding h using assms(2,3) q by presburger+
  show "n mod 4 = 0 \<Longrightarrow> n = 2 * leftHalfSize n" "n mod 4 \<noteq> 0 \<Longrightarrow> n + 2 = 2 * leftHalfSize n"
    unfolding h using q by presburger+
qed

lemma half_lengths:
  assumes "even n" "0 < n" "n \<noteq> 2" "length xs = n" "(l, r) = (if n mod 4 = 0 then (1, 1) else (2, 0))"
    "(left', right') = balance_loop m t (drop l (take (leftHalfSize n) xs)) (drop r (drop (leftHalfSize n) xs))"
  shows "length (take l (take (leftHalfSize n) xs) @ left') = leftHalfSize n"
    "length (take r (drop (leftHalfSize n) xs) @ right') = n - leftHalfSize n"
    "length left' = length right'"
proof -
  define h where "h = leftHalfSize n"
  note h = left_half_size [OF assms(1-3), folded h_def]
  have lr: "l = 1 \<and> r = 1 \<and> n = 2 * h \<or> l = 2 \<and> r = 0 \<and> n + 2 = 2 * h"
    using assms(5) h(4,5) by (cases "n mod 4 = 0") simp_all
  have "length left' = h - l" "length right' = n - h - r"
    using arg_cong [OF assms(6), of "length \<circ> fst"] arg_cong [OF assms(6), of "length \<circ> snd"] h(2) assms(4)
    by (simp_all add: len_simps flip: h_def)
  moreover have "2 \<le> h" using h(1,3) by presburger
  moreover have "length (take l (take h xs)) = min l h" "length (take r (drop h xs)) = min r (n - h)"
    using h(2) assms(4) by simp_all
  ultimately show "length (take l (take (leftHalfSize n) xs) @ left') = leftHalfSize n"
    "length (take r (drop (leftHalfSize n) xs) @ right') = n - leftHalfSize n"
    "length left' = length right'"
    using lr h(2) unfolding h_def [symmetric] length_append by linarith+
qed

termination InterleaveTwoWay
proof (relation "measure (\<lambda>(m, xs). length xs)", goal_cases)
  case (2 m xs n t lr l r left right p left' right')
  have e: "even n" "0 < n" "n \<noteq> 2" "length xs = n" using 2(1-3) by auto
  have "(l, r) = (if n mod 4 = 0 then (1, 1) else (2, 0))"
    "(left', right') = balance_loop m t (drop l (take (leftHalfSize n) xs)) (drop r (drop (leftHalfSize n) xs))"
    using 2(5-10) by (simp_all only:)
  then have "length (take l left @ left') = leftHalfSize n"
    unfolding 2(7) by (rule half_lengths(1) [OF e])
  then show ?case using 2(1) left_half_size(2) [OF e(1-3)] by simp
next
  case (3 m xs n t lr l r left right p left' right')
  have e: "even n" "0 < n" "n \<noteq> 2" "length xs = n" using 3(1-3) by auto
  have "(l, r) = (if n mod 4 = 0 then (1, 1) else (2, 0))"
    "(left', right') = balance_loop m t (drop l (take (leftHalfSize n) xs)) (drop r (drop (leftHalfSize n) xs))"
    using 3(5-10) by (simp_all only:)
  then have "length (take r right @ right') = n - leftHalfSize n"
    unfolding 3(8) by (rule half_lengths(2) [OF e])
  then show ?case using 3(1) left_half_size(1,2) [OF e(1-3)] by simp
qed simp

declare InterleaveTwoWay.simps [simp del]

text \<open>The second overload takes two buckets of the same even size.\<close>

definition InterleaveTwoWayBuckets :: "('a \<Rightarrow> bool) \<Rightarrow> 'a list \<Rightarrow> 'a list \<Rightarrow> 'a list \<times> 'a list" where
  "InterleaveTwoWayBuckets isMarked left right =
    (let targetBit = isMarked (hd right);
         (left', right') = balance_loop isMarked targetBit (tl left) (tl right)
     in (InterleaveTwoWay isMarked (hd left # left'), InterleaveTwoWay isMarked (hd right # right')))"

text \<open>The loop \<open>for (; it2 < end; it1 += 2, it2 += 2) swap (*it1, *it2)\<close>.\<close>

function swap_alternate :: "nat \<Rightarrow> nat \<Rightarrow> 'a list \<Rightarrow> 'a list" where
  "swap_alternate it1 it2 xs =
    (if it2 < length xs then swap_alternate (it1 + 2) (it2 + 2) (condSwapAt True it1 it2 xs) else xs)"
  by pat_completeness auto
termination by (relation "measure (\<lambda>(i, j, xs). length xs - j)") auto

declare swap_alternate.simps [simp del]

definition InterleaveTwoWayPartition :: "('a \<Rightarrow> bool) \<Rightarrow> 'a list \<Rightarrow> 'a list" where
  "InterleaveTwoWayPartition isMarked xs =
    (let Z = length xs div 2;
         xs = InterleaveTwoWay isMarked xs
     in swap_alternate 1 (Z + Z mod 2) xs)"

text \<open>With two buckets the loop exchanges elements of the left and of the right one; the model runs it
  on their concatenation.\<close>

definition InterleaveTwoWayPartitionBuckets :: "('a \<Rightarrow> bool) \<Rightarrow> 'a list \<Rightarrow> 'a list \<Rightarrow> 'a list \<times> 'a list" where
  "InterleaveTwoWayPartitionBuckets isMarked left right =
    (let Z = length right;
         (left, right) = InterleaveTwoWayBuckets isMarked left right;
         xs = swap_alternate 1 (Z + Z mod 2) (left @ right)
     in (take Z xs, drop Z xs))"

section \<open>The pass balances the two halves\<close>

abbreviation marks_in :: "('a \<Rightarrow> bool) \<Rightarrow> 'a list \<Rightarrow> nat" where
  "marks_in m xs \<equiv> length (filter m xs)"

lemma marks_in_mset: "marks_in m xs = size (filter_mset m (mset xs))"
  by (simp flip: mset_filter)

lemma balance_loop_step:
  "balance_loop m t (l # ls) (r # rs) =
    (let t' = (if m l \<noteq> m r then \<not> t else t); p = balance_loop m t' ls rs
     in if m l \<noteq> t then (r # fst p, l # snd p) else (l # fst p, r # snd p))"
  by (cases "m l"; cases "m r"; cases t) (simp_all add: condSwap_def split_beta Let_def)

lemma balance_loop_mset:
  "mset (fst (balance_loop m t ls rs)) + mset (snd (balance_loop m t ls rs)) = mset ls + mset rs"
proof (induction ls arbitrary: t rs)
  case (Cons l ls)
  then show ?case
    by (cases rs) (simp_all add: balance_loop_step Let_def del: balance_loop.simps(1))
qed simp

lemma balance_loop_marks:
  assumes "length ls = length rs"
  shows "int (marks_in m (fst (balance_loop m t ls rs))) - int (marks_in m (snd (balance_loop m t ls rs)))
    = (if even (marks_in m ls + marks_in m rs) then 0 else if t then 1 else -1)"
  using assms
proof (induction ls rs arbitrary: t rule: list_induct2)
  case (Cons l ls r rs)
  show ?case
    using Cons(2) [of t] Cons(2) [of "\<not> t"]
    by (cases "m l"; cases "m r"; cases t)
      (simp_all add: balance_loop_step Let_def del: balance_loop.simps(1) split: if_splits)
qed simp

lemma split_lengths:
  assumes "length xs = n" "h \<le> n"
  shows "mset (take l (take h xs)) + mset (drop l (take h xs)) + mset (take r (drop h xs)) + mset (drop r (drop h xs)) = mset xs"
  by (metis append_take_drop_id mset_append add.assoc)

lemma balanced_halves:
  assumes "even n" "0 < n" "n \<noteq> 2" "length xs = n"
  obtains L R where "InterleaveTwoWay m xs = InterleaveTwoWay m L @ InterleaveTwoWay m R"
    "length L = leftHalfSize n" "length R = n - leftHalfSize n" "mset L + mset R = mset xs"
    "2 * marks_in m xs = n \<Longrightarrow> 2 * marks_in m L = leftHalfSize n"
    "2 * marks_in m xs = n \<Longrightarrow> 2 * marks_in m R = n - leftHalfSize n"
proof -
  define h where "h = leftHalfSize n"
  note h = left_half_size [OF assms(1-3), folded h_def]
  define t where "t = (\<not> m (xs ! 0))"
  obtain l r where lr: "(l, r) = (if n mod 4 = 0 then (1, 1) else (2, 0) :: nat \<times> nat)" by fastforce
  obtain left' right' where b: "(left', right') = balance_loop m t (drop l (take h xs)) (drop r (drop h xs))"
    by (metis surj_pair)
  define L R where LR: "L = take l (take h xs) @ left'" "R = take r (drop h xs) @ right'"
  note len = half_lengths [OF assms lr, of left' right' m t, folded h_def, OF b, folded LR]
  have "mset left' + mset right' = mset (drop l (take h xs)) + mset (drop r (drop h xs))"
    using balance_loop_mset [of m t "drop l (take h xs)" "drop r (drop h xs)"] unfolding b [symmetric] by simp
  then have "mset L + mset R = mset (take l (take h xs)) + mset (take r (drop h xs))
      + (mset (drop l (take h xs)) + mset (drop r (drop h xs)))"
    unfolding LR by (simp add: ac_simps)
  also have "\<dots> = mset xs"
    using split_lengths [OF assms(4) less_imp_le [OF h(2)], of l r] by (simp only: ac_simps)
  finally have ms: "mset L + mset R = mset xs" .
  have eq: "InterleaveTwoWay m xs = InterleaveTwoWay m L @ InterleaveTwoWay m R"
    using assms unfolding LR
    by (simp add: InterleaveTwoWay.simps [of m xs] Let_def del: drop_drop take_take flip: t_def lr h_def b)
  define cl cr where c: "cl = marks_in m (drop l (take h xs))" "cr = marks_in m (drop r (drop h xs))"
  define pl pr where p: "pl = marks_in m (take l (take h xs))" "pr = marks_in m (take r (drop h xs))"
  have "length (drop l (take h xs)) = length (drop r (drop h xs))"
    using length_balance_loop [of m t "drop l (take h xs)" "drop r (drop h xs)"] len(3) unfolding b [symmetric] by simp
  from balance_loop_marks [OF this, of m t, folded c b]
  have d: "int (marks_in m left') - int (marks_in m right') = (if even (cl + cr) then 0 else if t then 1 else -1)" by simp
  have sum: "marks_in m L + marks_in m R = marks_in m xs"
    unfolding marks_in_mset ms [symmetric] by simp
  have tot: "marks_in m xs = pl + pr + (cl + cr)"
    unfolding c p marks_in_mset split_lengths [OF assms(4) less_imp_le [OF h(2)], of l r, symmetric] by simp
  define cc where "cc = cl + cr"
  note d = d [folded cc_def] and tot = tot [folded cc_def]
  have L: "marks_in m L = pl + marks_in m left'" "marks_in m R = pr + marks_in m right'"
    by (simp_all add: LR p)
  have ne: "xs \<noteq> []" using assms(2,4) by auto
  have diff: "2 * marks_in m L = h \<and> 2 * marks_in m R = n - h" if "2 * marks_in m xs = n"
  proof (cases "n mod 4 = 0")
    case True
    then have lr': "l = 1" "r = 1" "n = 2 * h" using lr h(4) by simp_all
    have "pl = of_bool (\<not> t)" using ne h(1) unfolding p t_def lr' by (cases xs; cases h) auto
    moreover have "pr \<le> 1" unfolding p lr' by (cases "drop h xs") auto
    moreover have "even (pl + pr + cc)" using tot that lr'(3) h(3) by presburger
    ultimately show ?thesis using d sum tot L that lr'(3) by (cases t; cases "pr = 0") (auto split: if_splits)
  next
    case False
    then have lr': "l = 2" "r = 0" "n + 2 = 2 * h" using lr h(5) by simp_all
    have "pr = 0" unfolding p lr' by simp
    moreover obtain a b zs where xs: "xs = a # b # zs"
      using assms(1,2,4) by (cases xs; cases "tl xs") auto
    moreover obtain h' where "h = Suc (Suc h')" using h(1,3) by (cases h; cases "h - 1") auto
    ultimately have pl: "pl = of_bool (\<not> t) + of_bool (m b)" unfolding p t_def lr' by simp
    have "odd (pl + cc)" using tot that lr'(3) h(3) \<open>pr = 0\<close> by simp presburger
    with pl \<open>pr = 0\<close> show ?thesis
      using d sum L that lr'(3) by (cases t; cases "m b") (auto split: if_splits)
  qed
  show thesis
    by (rule that [OF eq]) (use len(1,2) ms diff in \<open>simp_all add: h_def\<close>)
qed


section \<open>Interleaving and partition\<close>

lemma mset_InterleaveTwoWay [simp]: "mset (InterleaveTwoWay m xs) = mset xs"
proof (induction "length xs" arbitrary: xs rule: less_induct)
  case less
  show ?case
  proof (cases "even (length xs) \<and> 0 < length xs \<and> length xs \<noteq> 2")
    case True
    then obtain L R where *: "InterleaveTwoWay m xs = InterleaveTwoWay m L @ InterleaveTwoWay m R"
      "length L = leftHalfSize (length xs)" "length R = length xs - leftHalfSize (length xs)" "mset L + mset R = mset xs"
      using balanced_halves [of "length xs" xs m] by blast
    with True left_half_size(1,2) [of "length xs"] show ?thesis using less [of L] less [of R] by simp
  qed (auto simp: InterleaveTwoWay.simps [of m xs] Let_def)
qed

lemma length_InterleaveTwoWay [simp, len_simps]: "length (InterleaveTwoWay m xs) = length xs"
  by (metis mset_InterleaveTwoWay size_mset)

text \<open>When half of the elements are marked, marked and unmarked elements alternate afterwards.\<close>

lemma InterleaveTwoWay_alternates:
  assumes "even (length xs)" "2 * marks_in m xs = length xs" "i < length xs"
  shows "m (InterleaveTwoWay m xs ! i) \<longleftrightarrow> even i"
  using assms
proof (induction "length xs" arbitrary: xs i rule: less_induct)
  case less
  show ?case
  proof (cases "length xs = 2")
    case True
    then obtain a b where "xs = [a, b]" by (auto simp: length_Suc_conv numeral_2_eq_2)
    with less.prems show ?thesis
      by (cases "m a"; cases "m b") (auto simp: InterleaveTwoWay.simps [of m "[a, b]"] condSwapAt_def condSwap_def less_Suc_eq)
  next
    case False
    define h where "h = leftHalfSize (length xs)"
    have p: "0 < length xs" using less.prems by auto
    note h = left_half_size [OF less.prems(1) p False, folded h_def]
    obtain L R where *: "InterleaveTwoWay m xs = InterleaveTwoWay m L @ InterleaveTwoWay m R"
      "length L = h" "length R = length xs - h" "2 * marks_in m L = h" "2 * marks_in m R = length xs - h"
      using balanced_halves [OF less.prems(1) p False refl, of m, folded h_def] less.prems(2) by metis
    show ?thesis
      using less.hyps [of L i] less.hyps [of R "i - h"] * h less.prems(1,3) by (simp add: nth_append)
  qed
qed

lemma mset_swap_alternate [simp]: "i < j \<Longrightarrow> mset (swap_alternate i j xs) = mset xs"
  by (induction i j xs rule: swap_alternate.induct) (subst swap_alternate.simps, simp)

lemma length_swap_alternate [simp, len_simps]: "i < j \<Longrightarrow> length (swap_alternate i j xs) = length xs"
  by (metis mset_swap_alternate size_mset)

text \<open>The exchange of the odd positions on the left with the even positions on the right: before the
  exchange of \<open>i\<close> and \<open>j\<close> the odd positions below \<open>i\<close> and the even positions of the right half below \<open>j\<close>
  are done.\<close>

lemma swap_alternate_partitions:
  assumes "length xs = 2 * Z" "odd i" "even j" "Z \<le> j" "j + 1 = i + Z + Z mod 2"
    and "\<And>k. k < 2 * Z \<Longrightarrow> m (xs ! k) \<longleftrightarrow> (if k < Z then even k \<or> k < i else even k \<and> j \<le> k)" and "k < 2 * Z"
  shows "m (swap_alternate i j xs ! k) \<longleftrightarrow> k < Z"
  using assms
proof (induction i j xs rule: swap_alternate.induct)
  case (1 i j xs)
  show ?case
  proof (cases "j < length xs")
    case True
    have i: "i < Z" using True 1(2,3,4,6) by (cases "even Z") presburger+
    have "m (swap_alternate (i + 2) (j + 2) (condSwapAt True i j xs) ! k) \<longleftrightarrow> k < Z"
    proof (rule 1(1) [OF True])
      fix k assume k: "k < 2 * Z"
      have "m (xs ! j)" "\<not> m (xs ! i)" using 1(2-7) True i by auto
      moreover have "odd k \<Longrightarrow> k < i + 2 \<longleftrightarrow> k < i \<or> k = i" "even k \<Longrightarrow> j + 2 \<le> k \<longleftrightarrow> j \<le> k \<and> k \<noteq> j"
        using 1(3,4) by presburger+
      ultimately show "m (condSwapAt True i j xs ! k) \<longleftrightarrow> (if k < Z then even k \<or> k < i + 2 else even k \<and> j + 2 \<le> k)"
        using k 1(2-5) 1(7) [OF k] i by (auto simp: nth_condSwapAt)
    qed (use 1(2-6,8) in auto)
    then show ?thesis using True by (simp add: swap_alternate.simps [of i j xs])
  next
    case False
    then have "Z \<le> i" using 1(2,6) by (cases "even Z") presburger+
    with False show ?thesis using 1(2,7,8) by (auto simp: swap_alternate.simps [of i j xs])
  qed
qed

lemma mset_InterleaveTwoWayPartition [simp]:
  "even (length xs) \<Longrightarrow> mset (InterleaveTwoWayPartition m xs) = mset xs"
proof (cases "length xs = 0")
  case False
  moreover assume "even (length xs)"
  ultimately have "1 < length xs div 2 + length xs div 2 mod 2" by presburger
  then show ?thesis by (simp add: InterleaveTwoWayPartition_def Let_def)
qed (simp add: InterleaveTwoWayPartition_def InterleaveTwoWay.simps swap_alternate.simps)

lemma InterleaveTwoWayPartition_marks:
  assumes "length xs = 2 * Z" "marks_in m xs = Z" "k < 2 * Z"
  shows "m (InterleaveTwoWayPartition m xs ! k) \<longleftrightarrow> k < Z"
proof -
  have "m (swap_alternate 1 (Z + Z mod 2) (InterleaveTwoWay m xs) ! k) \<longleftrightarrow> k < Z"
  proof (rule swap_alternate_partitions)
    fix k assume "k < 2 * Z"
    then have "m (InterleaveTwoWay m xs ! k) \<longleftrightarrow> even k"
      using InterleaveTwoWay_alternates [of xs m k] assms(1,2) by simp
    then show "m (InterleaveTwoWay m xs ! k) \<longleftrightarrow> (if k < Z then even k \<or> k < 1 else even k \<and> Z + Z mod 2 \<le> k)"
      by (cases "k < Z") (simp, presburger+)
  qed (use assms in \<open>auto simp: mod2_eq_if\<close>)
  then show ?thesis by (simp add: InterleaveTwoWayPartition_def Let_def assms(1))
qed

text \<open>The same for two buckets.\<close>

lemma buckets_balanced:
  assumes "length left = Z" "length right = Z" "even Z" "0 < Z" "marks_in m left + marks_in m right = Z"
  obtains L R where "InterleaveTwoWayBuckets m left right = (InterleaveTwoWay m L, InterleaveTwoWay m R)"
    "length L = Z" "length R = Z" "mset L + mset R = mset left + mset right" "2 * marks_in m L = Z" "2 * marks_in m R = Z"
proof -
  obtain l ls r rs where lr: "left = l # ls" "right = r # rs"
    using assms(1,2,4) by (cases left; cases right) auto
  obtain ls' rs' where b: "balance_loop m (m r) ls rs = (ls', rs')" by fastforce
  have d: "int (marks_in m ls') - int (marks_in m rs') = (if even (marks_in m ls + marks_in m rs) then 0 else if m r then 1 else -1)"
    using balance_loop_marks [of ls rs m "m r"] assms(1,2) unfolding lr b by simp
  have ms: "mset ls' + mset rs' = mset ls + mset rs"
    using balance_loop_mset [of m "m r" ls rs] unfolding b by simp
  then have sum: "marks_in m ls' + marks_in m rs' = marks_in m ls + marks_in m rs"
    unfolding marks_in_mset by (metis filter_union_mset size_union)
  define c where "c = marks_in m ls + marks_in m rs"
  have c: "of_bool (m l) + of_bool (m r) + c = Z" using assms(5) unfolding lr c_def by auto
  have "2 * marks_in m (l # ls') = Z \<and> 2 * marks_in m (r # rs') = Z"
    using d sum c assms(3) unfolding c_def [symmetric] by (cases "m l"; cases "m r") (auto split: if_splits)
  moreover have "length ls' = length ls" "length rs' = length rs"
    using length_balance_loop [of m "m r" ls rs] unfolding b by simp_all
  ultimately show thesis
    using assms(1,2) ms b unfolding lr
    by (intro that [of "l # ls'" "r # rs'"]) (auto simp: InterleaveTwoWayBuckets_def Let_def lr)
qed

lemma InterleaveTwoWayPartitionBuckets_spec:
  assumes "length left = Z" "length right = Z" "even Z" "0 < Z" "marks_in m left + marks_in m right = Z"
  defines "p \<equiv> InterleaveTwoWayPartitionBuckets m left right"
  shows "length (fst p) = Z" "length (snd p) = Z" "mset (fst p) + mset (snd p) = mset left + mset right"
    "\<forall>x\<in>set (fst p). m x" "\<forall>x\<in>set (snd p). \<not> m x"
proof -
  obtain L R where b: "InterleaveTwoWayBuckets m left right = (InterleaveTwoWay m L, InterleaveTwoWay m R)"
    and l: "length L = Z" "length R = Z" "mset L + mset R = mset left + mset right" "2 * marks_in m L = Z" "2 * marks_in m R = Z"
    using buckets_balanced [OF assms(1-5)] by metis
  define xs where "xs = swap_alternate 1 (Z + Z mod 2) (InterleaveTwoWay m L @ InterleaveTwoWay m R)"
  have p: "p = (take Z xs, drop Z xs)"
    using assms(2) by (simp add: p_def InterleaveTwoWayPartitionBuckets_def b xs_def Let_def)
  have Z: "1 < Z + Z mod 2" using assms(3,4) by presburger
  have m: "mset xs = mset left + mset right" using Z l(3) by (simp add: xs_def)
  have len: "length xs = 2 * Z" using Z l(1,2) by (simp add: xs_def)
  show "length (fst p) = Z" "length (snd p) = Z" using len by (simp_all add: p)
  show "mset (fst p) + mset (snd p) = mset left + mset right"
    unfolding p m [symmetric] by (simp flip: mset_append)
  have "m (xs ! k) \<longleftrightarrow> k < Z" if "k < 2 * Z" for k
    unfolding xs_def
  proof (rule swap_alternate_partitions)
    fix k assume k: "k < 2 * Z"
    have "m ((InterleaveTwoWay m L @ InterleaveTwoWay m R) ! k) \<longleftrightarrow> even k"
      using InterleaveTwoWay_alternates [of L m k] InterleaveTwoWay_alternates [of R m "k - Z"] l assms(3) k
      by (simp add: nth_append)
    then show "m ((InterleaveTwoWay m L @ InterleaveTwoWay m R) ! k) \<longleftrightarrow> (if k < Z then even k \<or> k < 1 else even k \<and> Z + Z mod 2 \<le> k)"
      using assms(3) by auto
  qed (use l assms(3,4) that in auto)
  then show "\<forall>x\<in>set (fst p). m x" "\<forall>x\<in>set (snd p). \<not> m x"
    using len by (auto simp: p in_set_conv_nth)
qed

end
