(* ===== verification/Goodrich.thy ===== *)
theory Goodrich
  imports Or_Compact
begin

text \<open>
  Correctness of \<open>GoodrichCompact\<close> (\<open>or_compact_shuffle.hpp\<close>).  Level \<open>i\<close> moves every marked element
  whose remaining distance has bit \<open>i\<close> set by \<open>2^i\<close> positions to the left; the marked elements never
  overtake each other, so that the position they move to is free.
\<close>

section \<open>Positions of the marked elements\<close>

text \<open>The \<open>k\<close>-th marked element is at position \<open>pos k\<close>, and its entry of \<open>dist\<close> is the distance to \<open>k\<close>.\<close>

definition located :: "('a \<Rightarrow> bool) \<Rightarrow> 'a list \<Rightarrow> (nat \<Rightarrow> nat) \<Rightarrow> 'a list \<Rightarrow> nat list \<Rightarrow> bool" where
  "located m F pos xs dist \<longleftrightarrow> length dist = length xs
    \<and> (\<forall>k<length F. pos k < length xs \<and> k \<le> pos k \<and> xs ! pos k = F ! k \<and> dist ! pos k = pos k - k)
    \<and> (\<forall>k l. k < l \<longrightarrow> l < length F \<longrightarrow> pos k < pos l)
    \<and> (\<forall>p<length xs. m (xs ! p) \<longleftrightarrow> (\<exists>k<length F. pos k = p))"

lemma locatedD:
  assumes "located m F pos xs dist"
  shows "length dist = length xs" "k < length F \<Longrightarrow> pos k < length xs" "k < length F \<Longrightarrow> k \<le> pos k"
    "k < length F \<Longrightarrow> xs ! pos k = F ! k" "k < length F \<Longrightarrow> dist ! pos k = pos k - k"
    "k < l \<Longrightarrow> l < length F \<Longrightarrow> pos k < pos l" "p < length xs \<Longrightarrow> m (xs ! p) \<longleftrightarrow> (\<exists>k<length F. pos k = p)"
  using assms by (auto simp: located_def)

lemma located_cong:
  "located m F p xs dist \<Longrightarrow> (\<And>k. k < length F \<Longrightarrow> q k = p k) \<Longrightarrow> located m F q xs dist"
  unfolding located_def by (auto dest: order.strict_trans)

lemma goodrich_fold:
  assumes "n \<le> length xs"
  shows "foldl (\<lambda>(dist, numMarked) i.
        (dist @ [i - numMarked], if m (xs ! i) then numMarked + 1 else numMarked)) ([], 0) [0..<n]
    = (map (\<lambda>i. i - length (filter m (take i xs))) [0..<n], length (filter m (take n xs)))"
  using assms by (induction n) (simp_all add: take_Suc_conv_app_nth)

lemma goodrich_dist_eq: "goodrich_dist m xs = map (\<lambda>i. i - length (filter m (take i xs))) [0..<length xs]"
  by (simp add: goodrich_dist_def goodrich_fold)

lemma located_initial: "\<exists>pos. located m (filter m xs) pos xs (goodrich_dist m xs)"
proof (induction xs rule: rev_induct)
  case (snoc x xs)
  then obtain pos where p: "located m (filter m xs) pos xs (goodrich_dist m xs)" by blast
  have d: "goodrich_dist m (xs @ [x]) = goodrich_dist m xs @ [length xs - length (filter m xs)]"
    by (auto simp: goodrich_dist_eq)
  have l: "length (goodrich_dist m xs) = length xs" by (simp add: goodrich_dist_eq)
  define pos' where "pos' = pos(length (filter m xs) := length xs)"
  have "located m (filter m (xs @ [x])) pos' (xs @ [x]) (goodrich_dist m (xs @ [x]))"
    using p l length_filter_le [of m xs] unfolding located_def d pos'_def
    by (cases "m x") (auto simp: nth_append less_Suc_eq, (metis nat_neq_iff)+)
  then show ?case by blast
qed (auto simp: located_def goodrich_dist_def)

section \<open>One level\<close>

lemma condSwapAt_False [simp]: "condSwapAt False i j xs = xs"
  by (simp add: condSwapAt_def condSwap_def)

definition clear :: "nat \<Rightarrow> nat \<Rightarrow> nat" where
  "clear i d = push_bit (i + 1) (drop_bit (i + 1) d)"

lemma clear_eq: "clear i d = d - d mod 2 ^ (i + 1)"
  by (simp add: clear_def push_bit_eq_mult drop_bit_eq_div minus_mod_eq_div_mult del: power_Suc)

lemma clear_mono: "d \<le> d' \<Longrightarrow> clear i d \<le> clear i d'"
  by (simp add: clear_def push_bit_eq_mult drop_bit_eq_div div_le_mono del: power_Suc)

lemma clear_le: "clear i d \<le> d" by (simp add: clear_eq)

lemma clear_step:
  assumes "2 ^ i dvd d"
  shows "clear i d = (if d mod 2 ^ (i + 1) \<noteq> 0 then d - 2 ^ i else d)" "d mod 2 ^ (i + 1) \<noteq> 0 \<Longrightarrow> 2 ^ i \<le> d"
proof -
  obtain q where q: "d = 2 ^ i * q" using assms by (auto elim: dvdE)
  have m: "d mod 2 ^ (i + 1) = 2 ^ i * (q mod 2)" unfolding q power_add power_one_right by (rule mod_mult_mult1)
  show "clear i d = (if d mod 2 ^ (i + 1) \<noteq> 0 then d - 2 ^ i else d)"
    unfolding clear_eq m by (cases "even q") (auto simp: mod2_eq_if)
  show "d mod 2 ^ (i + 1) \<noteq> 0 \<Longrightarrow> 2 ^ i \<le> d" unfolding m q by (cases q) auto
qed

definition goodrich_step :: "('a \<Rightarrow> bool) \<Rightarrow> nat \<Rightarrow> 'a list \<times> nat list \<Rightarrow> nat \<Rightarrow> 'a list \<times> nat list" where
  "goodrich_step m i = (\<lambda>(xs, dist) j.
            let jMarked = m (xs ! j);
                swapFlag = (jMarked \<and> (dist ! j AND (2 * 2 ^ i - 1)) \<noteq> 0);
                xs = condSwapAt swapFlag j (j - 2 ^ i) xs;
                dist = (if swapFlag
                        then dist[j - 2 ^ i := push_bit (i + 1) (drop_bit (i + 1) (dist ! j))]
                        else dist)
            in (xs, dist))"

lemma located_move:
  assumes p: "located m F p xs dist" and k: "k < length F" "p k = j" "j' < j" "k \<le> j'" "\<And>l. l < k \<Longrightarrow> p l < j'"
  shows "located m F (p(k := j')) (condSwapAt True j j' xs) (dist[j' := j' - k])"
proof -
  note d = locatedD [OF p]
  have j: "j < length xs" "j' < length xs" using d(2) [OF k(1)] k(2,3) by simp_all
  have other: "p l \<noteq> j" "p l \<noteq> j'" if "l < length F" "l \<noteq> k" for l
    using d(6) [of l k] d(6) [of k l] k that by (fastforce simp: nat_neq_iff)+
  have free: "\<not> m (xs ! j')" using d(7) [OF j(2)] other(2) k(2,3) by (metis less_irrefl)
  have mono: "(p(k := j')) a < (p(k := j')) b" if "a < b" "b < length F" for a b
    using that k(5) [of a] d(6) [OF that] d(6) [of k b] k(2,3) by auto
  have val: "(p(k := j')) l < length xs \<and> l \<le> (p(k := j')) l \<and> condSwapAt True j j' xs ! (p(k := j')) l = F ! l
      \<and> dist[j' := j' - k] ! (p(k := j')) l = (p(k := j')) l - l" if "l < length F" for l
    using that k(2,4) j d(1) d(2-5) [OF that] other [OF that] by (auto simp: nth_condSwapAt)
  have "m (condSwapAt True j j' xs ! q) \<longleftrightarrow> (\<exists>l<length F. (p(k := j')) l = q)" if q: "q < length xs" for q
  proof -
    have "m (xs ! j)" using d(7) [OF j(1)] k(1,2) by blast
    then show ?thesis
      using d(7) [OF q] free j k(1-3) other q by (auto simp: nth_condSwapAt) metis+
  qed
  with mono val d(1) show ?thesis by (simp add: located_def)
qed

text \<open>The positions while level \<open>i\<close> has treated the array below \<open>j\<close>.\<close>

definition moved :: "nat \<Rightarrow> (nat \<Rightarrow> nat) \<Rightarrow> nat \<Rightarrow> nat \<Rightarrow> nat" where
  "moved i pos j k = (if pos k < j then k + clear i (pos k - k) else pos k)"

lemma moved_mono:
  assumes "located m F pos xs0 dist0" "k < l" "l < length F"
  shows "k + clear i (pos k - k) < l + clear i (pos l - l)"
proof -
  have "pos k + (n - k) \<le> pos n" if "k \<le> n" "n < length F" for n
    using that
  proof (induction n)
    case (Suc n)
    then show ?case
      using locatedD(6) [OF assms(1), of n "Suc n"] by (cases "k = Suc n") (auto simp: Suc_diff_le)
  qed simp
  from this [of l] have "pos k - k \<le> pos l - l" using assms(2,3) locatedD(3) [OF assms(1), of k] by simp
  then show ?thesis using clear_mono [of "pos k - k" "pos l - l" i] assms(2) by linarith
qed

lemma goodrich_step_located:
  assumes pos: "located m F pos xs0 dist0" and dvd: "\<And>k. k < length F \<Longrightarrow> 2 ^ i dvd (pos k - k)"
    and st: "located m F (moved i pos j) xs dist" "2 ^ i \<le> j" "j < length xs" "length xs = length xs0"
  shows "located m F (moved i pos (Suc j)) (fst (goodrich_step m i (xs, dist) j)) (snd (goodrich_step m i (xs, dist) j))"
    "mset (fst (goodrich_step m i (xs, dist) j)) = mset xs" "length (fst (goodrich_step m i (xs, dist) j)) = length xs"
proof -
  show "mset (fst (goodrich_step m i (xs, dist) j)) = mset xs" "length (fst (goodrich_step m i (xs, dist) j)) = length xs"
    using st(3) by (simp_all add: goodrich_step_def Let_def)
  have le: "k + clear i (pos k - k) \<le> pos k" if "k < length F" for k
    using clear_le [of i "pos k - k"] locatedD(3) [OF pos that] by linarith
  have at_j: "moved i pos j k = j \<longleftrightarrow> pos k = j" if "k < length F" for k
    using le [OF that] by (auto simp: moved_def)
  show "located m F (moved i pos (Suc j)) (fst (goodrich_step m i (xs, dist) j)) (snd (goodrich_step m i (xs, dist) j))"
  proof (cases "\<exists>k<length F. pos k = j")
    case False
    then have "moved i pos (Suc j) k = moved i pos j k" if "k < length F" for k
      using that by (auto simp: moved_def less_Suc_eq)
    moreover have "\<not> m (xs ! j)" using locatedD(7) [OF st(1,3)] at_j False by auto
    ultimately show ?thesis using located_cong [OF st(1)] by (simp add: goodrich_step_def Let_def)
  next
    case True
    then obtain k where k: "k < length F" "pos k = j" by blast
    note mk = le [OF k(1)]
    have inj: "pos l \<noteq> j" if "l < length F" "l \<noteq> k" for l
      using locatedD(6) [OF pos, of l k] locatedD(6) [OF pos, of k l] k that by (auto simp: nat_neq_iff)
    have j: "m (xs ! j)" "dist ! j = j - k"
      using locatedD(7) [OF st(1,3)] locatedD(5) [OF st(1) k(1)] k at_j [OF k(1)] by (metis+)
    define flag where "flag = ((j - k) mod 2 ^ (i + 1) \<noteq> 0)"
    have mask: "(d AND (2 * 2 ^ i - 1)) = d mod 2 ^ (i + 1)" for d :: nat
      using take_bit_eq_mask [of "i + 1" d] by (simp add: mask_eq_exp_minus_1 take_bit_eq_mod)
    have fl: "(m (xs ! j) \<and> (dist ! j AND (2 * 2 ^ i - 1)) \<noteq> 0) = flag" unfolding mask flag_def using j by simp
    have step: "goodrich_step m i (xs, dist) j =
        (if flag then (condSwapAt True j (j - 2 ^ i) xs, dist[j - 2 ^ i := clear i (j - k)]) else (xs, dist))"
      unfolding goodrich_step_def prod.case Let_def fl by (simp add: condSwapAt_False j(2) clear_def)
    note c = clear_step [OF dvd [OF k(1)]]
    have new: "moved i pos (Suc j) l = (if l = k then k + clear i (j - k) else moved i pos j l)" if "l < length F" for l
      using that inj k by (auto simp: moved_def less_Suc_eq)
    show ?thesis
    proof (cases flag)
      case False
      then have "moved i pos (Suc j) l = moved i pos j l" if "l < length F" for l
        using new [OF that] c(1) k locatedD(3) [OF pos k(1)] by (simp add: flag_def moved_def)
      with False located_cong [OF st(1)] show ?thesis by (simp add: step)
    next
      case True
      then have j': "k + clear i (j - k) = j - 2 ^ i" "2 ^ i \<le> j - k"
        using c k locatedD(3) [OF pos k(1)] by (auto simp: flag_def)
      have "located m F ((moved i pos j)(k := j - 2 ^ i)) (condSwapAt True j (j - 2 ^ i) xs) (dist[j - 2 ^ i := j - 2 ^ i - k])"
      proof (rule located_move [OF st(1) k(1)])
        show "moved i pos j l < j - 2 ^ i" if "l < k" for l
          using moved_mono [OF pos that k(1), of i] locatedD(6) [OF pos that k(1)] k j' by (simp add: moved_def)
        show "moved i pos j k = j" using k(2) by (simp add: moved_def)
        have "(0::nat) < 2 ^ i" by simp
        then show "j - 2 ^ i < j" "k \<le> j - 2 ^ i" using j'(2) st(2) by linarith+
      qed
      moreover have "clear i (j - k) = j - 2 ^ i - k" using j' by linarith
      ultimately have "located m F ((moved i pos j)(k := j - 2 ^ i)) (fst (goodrich_step m i (xs, dist) j)) (snd (goodrich_step m i (xs, dist) j))"
        using True by (simp add: step)
      then show ?thesis by (rule located_cong) (use new j'(1) in simp)
    qed
  qed
qed

definition goodrich_level :: "('a \<Rightarrow> bool) \<Rightarrow> nat \<Rightarrow> 'a list \<times> nat list \<Rightarrow> nat \<Rightarrow> 'a list \<times> nat list" where
  "goodrich_level m n = (\<lambda>(xs, dist) i. foldl (goodrich_step m i) (xs, dist) [2 ^ i..<n])"

lemma goodrich_level_located:
  assumes pos: "located m F pos xs dist" and dvd: "\<And>k. k < length F \<Longrightarrow> 2 ^ i dvd (pos k - k)"
    and n: "length xs = n"
  defines "p \<equiv> goodrich_level m n (xs, dist) i"
  shows "located m F (\<lambda>k. k + clear i (pos k - k)) (fst p) (snd p) \<and> mset (fst p) = mset xs"
proof -
  have loop: "located m F (moved i pos j) (fst (foldl (goodrich_step m i) (xs, dist) [2 ^ i..<j])) (snd (foldl (goodrich_step m i) (xs, dist) [2 ^ i..<j]))
      \<and> mset (fst (foldl (goodrich_step m i) (xs, dist) [2 ^ i..<j])) = mset xs"
    if "2 ^ i \<le> j" "j \<le> n" for j
    using that
  proof (induction j rule: dec_induct)
    case base
    have "moved i pos (2 ^ i) k = pos k" if "k < length F" for k
    proof (cases "pos k < 2 ^ i")
      case True
      then have "pos k - k < 2 ^ i" by linarith
      with dvd [OF that] have "pos k - k = 0" by (metis dvd_imp_le not_le neq0_conv)
      then show ?thesis using True locatedD(3) [OF pos that] by (simp add: moved_def clear_def)
    qed (simp add: moved_def)
    then show ?case using located_cong [OF pos] by simp
  next
    case (step j)
    define q where "q = foldl (goodrich_step m i) (xs, dist) [2 ^ i..<j]"
    have q: "located m F (moved i pos j) (fst q) (snd q)" "mset (fst q) = mset xs"
      using step by (simp_all add: q_def)
    then have "length (fst q) = length xs" by (metis size_mset)
    with goodrich_step_located [OF pos dvd q(1) step(1)] q(2) step(2,4) n show ?case
      by (simp add: step(1) flip: q_def)
  qed
  have fin: "located m F (\<lambda>k. k + clear i (pos k - k)) ys ds" if "located m F (moved i pos n) ys ds" for ys ds
    by (rule located_cong [OF that]) (use locatedD(2) [OF pos] n in \<open>simp add: moved_def\<close>)
  show ?thesis
  proof (cases "2 ^ i \<le> n")
    case True
    then show ?thesis using loop [of n] fin by (auto simp: p_def goodrich_level_def)
  next
    case False
    have "k + clear i (pos k - k) = pos k" if "k < length F" for k
    proof -
      have "pos k - k < 2 ^ i" using False locatedD(2) [OF pos that] n by linarith
      with dvd [OF that] have "pos k - k = 0" by (metis dvd_imp_le not_le neq0_conv)
      then show ?thesis using locatedD(3) [OF pos that] by (simp add: clear_def)
    qed
    with located_cong [OF pos] False show ?thesis by (simp add: p_def goodrich_level_def)
  qed
qed

section \<open>All levels\<close>

lemma goodrich_levels:
  assumes "located m F pos xs dist" "length xs = n"
  shows "\<exists>pos'. located m F pos' (fst (foldl (goodrich_level m n) (xs, dist) [0..<l])) (snd (foldl (goodrich_level m n) (xs, dist) [0..<l]))
    \<and> mset (fst (foldl (goodrich_level m n) (xs, dist) [0..<l])) = mset xs \<and> (\<forall>k<length F. 2 ^ l dvd (pos' k - k))"
proof (induction l)
  case 0
  show ?case using assms by auto
next
  case (Suc l)
  define q where "q = foldl (goodrich_level m n) (xs, dist) [0..<l]"
  obtain pos' where q: "located m F pos' (fst q) (snd q)" "mset (fst q) = mset xs" "\<forall>k<length F. 2 ^ l dvd (pos' k - k)"
    using Suc by (auto simp: q_def)
  have "length (fst q) = n" using q(2) assms(2) by (metis size_mset)
  from goodrich_level_located [OF q(1) _ this, of l] q(3)
  have "located m F (\<lambda>k. k + clear l (pos' k - k)) (fst (goodrich_level m n q l)) (snd (goodrich_level m n q l))"
    "mset (fst (goodrich_level m n q l)) = mset (fst q)" by simp_all
  moreover have "2 ^ Suc l dvd clear l d" for d
    by (simp add: clear_def push_bit_eq_mult del: power_Suc)
  ultimately show ?case
    using q(2) by (intro exI [of _ "\<lambda>k. k + clear l (pos' k - k)"]) (simp flip: q_def)
qed

lemma level_bound:
  assumes "n \<le> 2 ^ 63" "0 < n"
  shows "n \<le> 2 ^ unat (GetLogBaseTwo (GetNextPowerOfTwo (of_nat n)))"
proof -
  define w :: u64 where "w = GetNextPowerOfTwo (of_nat n)"
  have w: "unat w = next_pow2 n" using GetNextPowerOfTwo_nat [OF assms(2,1)] by (simp add: w_def)
  also have p: "\<dots> = 2 ^ blen (n - 1)" by (simp add: next_pow2_def)
  finally have "w \<noteq> 0" by (metis power_not_zero unat_0 zero_neq_numeral)
  from GetLogBaseTwo_bounds(2) [OF this] have "(2::nat) ^ blen (n - 1) < 2 ^ Suc (unat (GetLogBaseTwo w))"
    by (simp add: w p)
  then have "blen (n - 1) \<le> unat (GetLogBaseTwo w)" by (simp del: power_Suc)
  then have "(2::nat) ^ blen (n - 1) \<le> 2 ^ unat (GetLogBaseTwo w)" by simp
  then show ?thesis using next_pow2_bounds(1) [of n] unfolding w_def [symmetric] p by linarith
qed

lemma GoodrichCompact_front:
  assumes "length xs \<le> 2 ^ 63"
  shows "take (length (filter m xs)) (GoodrichCompact m xs) = filter m xs \<and> mset (GoodrichCompact m xs) = mset xs"
proof -
  define n where "n = length xs"
  define l where "l = unat (GetLogBaseTwo (GetNextPowerOfTwo (of_nat n)))"
  define F where "F = filter m xs"
  define q where "q = foldl (goodrich_level m n) (xs, goodrich_dist m xs) [0..<l]"
  have g: "GoodrichCompact m xs = fst q"
    unfolding GoodrichCompact_def Let_def q_def n_def l_def goodrich_level_def goodrich_step_def by simp
  obtain pos where "located m F pos xs (goodrich_dist m xs)"
    using located_initial unfolding F_def by blast
  from goodrich_levels [OF this n_def [symmetric], of l]
  obtain pos' where p: "located m F pos' (fst q) (snd q)" "mset (fst q) = mset xs" "\<forall>k<length F. 2 ^ l dvd (pos' k - k)"
    unfolding q_def by blast
  have len: "length (fst q) = n" using p(2) unfolding n_def by (metis size_mset)
  have id: "pos' k = k" if "k < length F" for k
  proof -
    have "pos' k < n" using locatedD(2) [OF p(1) that] len by simp
    moreover have "n \<le> 2 ^ l" unfolding l_def using assms calculation by (intro level_bound) (auto simp: n_def)
    ultimately have "pos' k - k < 2 ^ l" by linarith
    then have "pos' k - k = 0" using p(3) that by (metis dvd_imp_le not_le neq0_conv)
    then show ?thesis using locatedD(3) [OF p(1) that] by simp
  qed
  have "length F \<le> n" by (simp add: F_def n_def)
  then have "take (length F) (fst q) = F"
    using len locatedD(4) [OF p(1)] id by (intro nth_equalityI) simp_all
  then show ?thesis using p(2) g by (simp add: F_def)
qed

section \<open>Properties\<close>

text \<open>(C39) The compaction of Goodrich is order preserving: it moves the marked elements to the front in
  their original order and permutes the list.  On the marked elements it agrees with \<open>OrCompact\<close>, for the
  lengths below \<open>2^32 - 1\<close> on which the prefix sums of \<open>OrCompact\<close> do not wrap.\<close>

theorem GoodrichCompact_compacts:
  assumes "length xs \<le> 2 ^ 63"
  shows "take (length (filter m xs)) (GoodrichCompact m xs) = filter m xs
    \<and> mset (GoodrichCompact m xs) = mset xs
    \<and> (length xs < 2 ^ 32 - 1 \<longrightarrow>
      take (length (filter m xs)) (GoodrichCompact m xs) = take (length (filter m xs)) (OrCompact m xs))"
  using GoodrichCompact_front [OF assms, of m] OrCompact_front [of xs m] assms by simp

theorem GoodrichCompact_compacts_witness:
  "take 3 (GoodrichCompact even [3, 4, 5, 6, 8 :: nat]) = [4, 6, 8]
    \<and> take 3 (OrCompact even [3, 4, 5, 6, 8 :: nat]) = [4, 6, 8]"
    using GoodrichCompact_compacts [of "[3, 4, 5, 6, 8 :: nat]" even] by (auto simp: numeral_3_eq_3)

end
