(* ===== verification/Merge_Split.thy ===== *)
theory Merge_Split
  imports Interleave Bitonic Goodrich
begin

text \<open>
  The elements that the sorting algorithms move (\<open>TaggedT\<close> and \<open>Block\<close> of \<open>sort_def.hpp\<close>) and the
  two-way merge-split of \<open>sort_building_blocks.hpp\<close>: the marks of dummies are changed until half of
  the elements are marked, and one of four partition methods moves the marked elements to the
  front.  The function templates use their elements through four methods; a record of these
  methods stands for the template argument, and the locale \<open>mark_laws\<close> is their contract.
\<close>

section \<open>Elements\<close>

record ('i, 'e) mark_class =
  mc_setAndGetMarked :: "'i \<Rightarrow> 'e \<Rightarrow> 'e \<times> bool"
  mc_isMarked :: "'i \<Rightarrow> 'e \<Rightarrow> bool"
  mc_condChangeMark :: "bool \<Rightarrow> 'i \<Rightarrow> 'e \<Rightarrow> 'e"
  mc_isDummy :: "'e \<Rightarrow> bool"

subsection \<open>Tagged elements\<close>

text \<open>The most significant bit of the tag is the dummy flag.  \<open>setData\<close> takes the draw of
  \<open>UniformRandom ()\<close> as an argument.\<close>

definition setData :: "u64 \<Rightarrow> 'a \<Rightarrow> 'a TaggedT \<Rightarrow> 'a TaggedT" where
  "setData rnd x e = e\<lparr>v := x, tag := rnd AND 0x7fffffffffffffff\<rparr>"

definition getData :: "'a TaggedT \<Rightarrow> 'a" where
  "getData e = v e"

definition isDummy :: "'a TaggedT \<Rightarrow> bool" where
  "isDummy e \<longleftrightarrow> drop_bit 63 (tag e) \<noteq> 0"

definition setDummy :: "'a TaggedT \<Rightarrow> 'a TaggedT" where
  "setDummy e = e\<lparr>tag := tag e OR 0x8000000000000000\<rparr>"

definition setTag :: "u64 \<Rightarrow> 'a TaggedT \<Rightarrow> 'a TaggedT" where
  "setTag t e = e\<lparr>tag := t AND 0x7fffffffffffffff\<rparr>"

definition isMarked :: "u64 \<Rightarrow> 'a TaggedT \<Rightarrow> bool" where
  "isMarked bitMask e \<longleftrightarrow> (tag e AND bitMask) = 0"

definition setAndGetMarked :: "u64 \<Rightarrow> 'a TaggedT \<Rightarrow> 'a TaggedT \<times> bool" where
  "setAndGetMarked bitMask e = (e, isMarked bitMask e)"

definition condChangeMark :: "bool \<Rightarrow> u64 \<Rightarrow> 'a TaggedT \<Rightarrow> 'a TaggedT" where
  "condChangeMark cond bitMask e = (if cond then e\<lparr>tag := tag e XOR bitMask\<rparr> else e)"

definition getMarkAndUpdate :: "u64 \<Rightarrow> 'a TaggedT \<Rightarrow> 'a TaggedT \<times> u8" where
  "getMarkAndUpdate k e =
    (let realTag = tag e AND 0x7fffffffffffffff;
         t = (tag e AND 0x8000000000000000) OR (realTag div k)
     in (e\<lparr>tag := t\<rparr>, ucast (realTag mod k)))"

definition tagged_class :: "(u64, 'a TaggedT) mark_class" where
  "tagged_class = \<lparr>mc_setAndGetMarked = setAndGetMarked, mc_isMarked = isMarked,
    mc_condChangeMark = condChangeMark, mc_isDummy = isDummy\<rparr>"

subsection \<open>Blocks\<close>

text \<open>The data of a block are compared by \<open>operator<\<close> and \<open>operator==\<close> of the element type; both compare
  a key, which is an argument.  The padding is not modelled.\<close>

record 'a Block =
  bk_data :: 'a
  bk_tag :: u32
  dummyFlag :: bool
  lessFlag :: bool

definition block_less :: "('a \<Rightarrow> 'k::linorder) \<Rightarrow> 'a Block \<Rightarrow> 'a Block \<Rightarrow> bool" where
  "block_less key a b \<longleftrightarrow> key (bk_data a) < key (bk_data b) \<or> key (bk_data a) = key (bk_data b) \<and> bk_tag a < bk_tag b"

definition block_setData :: "u32 \<Rightarrow> 'a \<Rightarrow> 'a Block \<Rightarrow> 'a Block" where
  "block_setData i x b = b\<lparr>bk_data := x, bk_tag := i, dummyFlag := False\<rparr>"

definition block_isDummy :: "'a Block \<Rightarrow> bool" where
  "block_isDummy b = dummyFlag b"

definition block_setAndGetMarked :: "('a \<Rightarrow> 'k::linorder) \<Rightarrow> 'a Block \<Rightarrow> 'a Block \<Rightarrow> 'a Block \<times> bool" where
  "block_setAndGetMarked key pivot b =
    (let flag = (\<not> block_less key pivot b) in (b\<lparr>lessFlag := flag\<rparr>, flag))"

definition block_isMarked :: "'a Block \<Rightarrow> 'a Block \<Rightarrow> bool" where
  "block_isMarked unused b = lessFlag b"

definition block_condChangeMark :: "bool \<Rightarrow> 'a Block \<Rightarrow> 'a Block \<Rightarrow> 'a Block" where
  "block_condChangeMark cond unused b = b\<lparr>lessFlag := (lessFlag b \<noteq> cond)\<rparr>"

definition setDummyFlagCond :: "bool \<Rightarrow> bool \<Rightarrow> 'a Block \<Rightarrow> 'a Block" where
  "setDummyFlagCond cond flag b = b\<lparr>dummyFlag := (if cond then flag else dummyFlag b)\<rparr>"

definition block_class :: "('a \<Rightarrow> 'k::linorder) \<Rightarrow> ('a Block, 'a Block) mark_class" where
  "block_class key = \<lparr>mc_setAndGetMarked = block_setAndGetMarked key, mc_isMarked = block_isMarked,
    mc_condChangeMark = block_condChangeMark, mc_isDummy = block_isDummy\<rparr>"

section \<open>Merge-split\<close>

datatype PartitionMethod = INTERLEAVE_PARTITION | OR_COMPACT | GOODRICH_COMPACT | BITONIC

text \<open>The loop that sets the marks and counts them.\<close>

fun set_marks :: "('i, 'e) mark_class \<Rightarrow> 'i \<Rightarrow> 'e list \<Rightarrow> 'e list \<times> u64" where
  "set_marks C indicator [] = ([], 0)"
| "set_marks C indicator (x # xs) =
    (let (x, b) = mc_setAndGetMarked C indicator x;
         (xs, markCount) = set_marks C indicator xs
     in (x # xs, markCount + of_bool b))"

text \<open>The loop that changes the marks of dummies as long as \<open>diff\<close> is not zero.\<close>

fun change_marks :: "('i, 'e) mark_class \<Rightarrow> 'i \<Rightarrow> bool \<Rightarrow> u64 \<Rightarrow> 'e list \<Rightarrow> 'e list \<times> u64" where
  "change_marks C indicator dir diff [] = ([], diff)"
| "change_marks C indicator dir diff (x # xs) =
    (let changeMark = (mc_isDummy C x \<and> diff \<noteq> 0 \<and> mc_isMarked C indicator x = dir);
         x = mc_condChangeMark C changeMark indicator x;
         (xs, diff) = change_marks C indicator dir (diff - of_bool changeMark) xs
     in (x # xs, diff))"

definition balance_marks :: "('i, 'e) mark_class \<Rightarrow> 'i \<Rightarrow> nat \<Rightarrow> 'e list \<Rightarrow> 'e list option" where
  "balance_marks C indicator Z xs =
    (let (xs, markCount) = set_marks C indicator xs;
         dir = (markCount > of_nat Z);
         diff = of_nat Z - markCount;
         diff = (if dir then - diff else diff);
         (xs, diff) = change_marks C indicator dir diff xs
     in if diff \<noteq> 0 then None else Some xs)"

text \<open>\<open>None\<close> stands for \<open>std::abort\<close>, which the code calls when there are not enough dummies.\<close>

definition cmpMark :: "('i, 'e) mark_class \<Rightarrow> 'i \<Rightarrow> 'e \<Rightarrow> 'e \<Rightarrow> bool" where
  "cmpMark C indicator e1 e2 \<longleftrightarrow> mc_isMarked C indicator e1 > mc_isMarked C indicator e2
    \<or> mc_isDummy C e2 \<and> \<not> mc_isMarked C indicator e2"

definition MergeSplitInPlace :: "('i, 'e) mark_class \<Rightarrow> PartitionMethod \<Rightarrow> 'i \<Rightarrow> 'e list \<Rightarrow> 'e list option" where
  "MergeSplitInPlace C pmethod indicator xs =
    (case balance_marks C indicator (length xs div 2) xs of
       None \<Rightarrow> None
     | Some xs \<Rightarrow> Some (case pmethod of
         INTERLEAVE_PARTITION \<Rightarrow> InterleaveTwoWayPartition (mc_isMarked C indicator) xs
       | OR_COMPACT \<Rightarrow> OrCompact (mc_isMarked C indicator) xs
       | GOODRICH_COMPACT \<Rightarrow> GoodrichCompact (mc_isMarked C indicator) xs
       | BITONIC \<Rightarrow> BitonicSort (cmpMark C indicator) True xs))"

text \<open>The two buckets of \<open>MergeSplitTwoWay\<close> are visited one after the other; both have \<open>Z\<close> elements.\<close>

definition MergeSplitTwoWay ::
  "('i, 'e) mark_class \<Rightarrow> PartitionMethod \<Rightarrow> 'i \<Rightarrow> 'e list \<Rightarrow> 'e list \<Rightarrow> ('e list \<times> 'e list) option" where
  "MergeSplitTwoWay C pmethod indicator left right =
    (let Z = length left
     in if pmethod \<noteq> INTERLEAVE_PARTITION
        then case MergeSplitInPlace C pmethod indicator (left @ right) of
               None \<Rightarrow> None
             | Some temp \<Rightarrow> Some (take Z temp, drop Z temp)
        else case balance_marks C indicator Z (left @ right) of
               None \<Rightarrow> None
             | Some xs \<Rightarrow> Some (InterleaveTwoWayPartitionBuckets (mc_isMarked C indicator) (take Z xs) (drop Z xs)))"

text \<open>The partition of dummies to the back, which is not oblivious: the loop scans from both ends; its
  result is the array and the number of elements before the returned iterator.  Outside the array
  the model stops.\<close>

function partition_scan :: "('e \<Rightarrow> bool) \<Rightarrow> nat \<Rightarrow> nat \<Rightarrow> 'e list \<Rightarrow> 'e list \<times> nat" where
  "partition_scan dummy left right xs =
    (if length xs \<le> left \<or> length xs \<le> right then (xs, left)
     else if \<not> dummy (xs ! left)
     then if right \<le> left + 1 then (xs, left + 1) else partition_scan dummy (left + 1) right xs
     else if dummy (xs ! right)
     then if right - 1 \<le> left then (xs, left) else partition_scan dummy left (right - 1) xs
     else partition_scan dummy left right (condSwapAt True left right xs))"
  by pat_completeness auto
termination
  by (relation "measure (\<lambda>(dummy, left, right, xs). 2 * (right - left) + of_bool (dummy (xs ! left)))")
    (auto simp: nth_condSwapAt)

declare partition_scan.simps [simp del]

definition partitionDummy :: "('e \<Rightarrow> bool) \<Rightarrow> 'e list \<Rightarrow> 'e list \<times> nat" where
  "partitionDummy dummy xs = partition_scan dummy 0 (length xs - 1) xs"

section \<open>The contract of the marks\<close>

locale mark_laws =
  fixes C :: "('i, 'e) mark_class" and indicator :: 'i
  assumes set_marked: "mc_setAndGetMarked C indicator x = (y, b) \<Longrightarrow> mc_isMarked C indicator y = b"
    and set_dummy: "mc_setAndGetMarked C indicator x = (y, b) \<Longrightarrow> mc_isDummy C y = mc_isDummy C x"
    and change_marked: "mc_isDummy C x \<Longrightarrow> mc_isMarked C indicator (mc_condChangeMark C True indicator x) = (\<not> mc_isMarked C indicator x)"
    and change_dummy: "mc_isDummy C x \<Longrightarrow> mc_isDummy C (mc_condChangeMark C True indicator x)"
    and change_False: "mc_condChangeMark C False indicator x = x"
begin

abbreviation marked where "marked \<equiv> mc_isMarked C indicator"
abbreviation dummy where "dummy \<equiv> mc_isDummy C"
abbreviation setm where "setm x \<equiv> fst (mc_setAndGetMarked C indicator x)"

lemma set_marks_eq:
  "set_marks C indicator xs = (map setm xs, of_nat (marks_in marked (map setm xs)))"
proof (induction xs)
  case (Cons x xs)
  obtain y b where "mc_setAndGetMarked C indicator x = (y, b)" by fastforce
  with Cons set_marked [OF this] show ?case by (cases b) simp_all
qed simp

lemma dummy_setm [simp]: "dummy (setm x) = dummy x"
  using set_dummy [of x "setm x" "snd (mc_setAndGetMarked C indicator x)"] by simp

lemma change_marks_spec:
  assumes "change_marks C indicator dir diff xs = (ys, diff')"
  defines "a \<equiv> marks_in (\<lambda>x. dummy x \<and> marked x = dir) xs"
  shows "length ys = length xs \<and> map dummy ys = map dummy xs
    \<and> filter (\<lambda>x. \<not> dummy x) ys = filter (\<lambda>x. \<not> dummy x) xs \<and> unat diff' = unat diff - a
    \<and> int (marks_in marked ys) = int (marks_in marked xs) + (if dir then -1 else 1) * int (min (unat diff) a)"
  using assms(1) unfolding a_def
proof (induction xs arbitrary: ys diff)
  case (Cons x xs)
  define c where "c = (dummy x \<and> diff \<noteq> 0 \<and> marked x = dir)"
  obtain zs where zs: "change_marks C indicator dir (diff - of_bool c) xs = (zs, diff')"
    "ys = mc_condChangeMark C c indicator x # zs"
    using Cons.prems by (auto simp: c_def Let_def split: prod.splits)
  have u: "unat (diff - of_bool c) = unat diff - of_bool c" "c \<Longrightarrow> 0 < unat diff"
    using unat_minus_one [of diff] by (auto simp: c_def unat_gt_0)
  show ?case
    using Cons.IH [OF zs(1)] change_marked [of x] change_dummy [of x] change_False [of x] u
    by (cases c) (auto simp: zs(2) c_def of_bool_def split: if_splits)
qed simp

lemma word_diff:
  assumes "M < 2 ^ 64" "Z < 2 ^ 64"
  shows "(of_nat M :: u64) > of_nat Z \<longleftrightarrow> M > Z"
    "unat (if M > Z then - (of_nat Z - of_nat M) else of_nat Z - of_nat M :: u64) = (if M > Z then M - Z else Z - M)"
proof -
  have u: "unat (of_nat M :: u64) = M" "unat (of_nat Z :: u64) = Z"
    using assms by (simp_all only: unat_of_nat) simp_all
  show g: "(of_nat M :: u64) > of_nat Z \<longleftrightarrow> M > Z" unfolding word_less_nat_alt u ..
  show "unat (if M > Z then - (of_nat Z - of_nat M) else of_nat Z - of_nat M :: u64) = (if M > Z then M - Z else Z - M)"
    using unat_sub [of "of_nat Z :: u64" "of_nat M"] unat_sub [of "of_nat M :: u64" "of_nat Z"]
    by (auto simp: u word_le_nat_alt)
qed

text \<open>The number of marks to change, and the dummies whose marks can be changed.\<close>

definition surplus :: "nat \<Rightarrow> 'e list \<Rightarrow> nat" where
  "surplus Z xs = (let M = marks_in marked (map setm xs) in if M > Z then M - Z else Z - M)"

definition reserve :: "nat \<Rightarrow> 'e list \<Rightarrow> nat" where
  "reserve Z xs = marks_in (\<lambda>x. dummy x \<and> marked x = (marks_in marked (map setm xs) > Z)) (map setm xs)"

lemma balance_marks_spec:
  assumes "length xs = 2 * Z" "length xs < 2 ^ 64"
  shows "balance_marks C indicator Z xs = None \<longleftrightarrow> reserve Z xs < surplus Z xs"
    "balance_marks C indicator Z xs = Some ys \<Longrightarrow> length ys = 2 * Z \<and> marks_in marked ys = Z
      \<and> map dummy ys = map dummy xs \<and> filter (\<lambda>x. \<not> dummy x) ys = filter (\<lambda>x. \<not> dummy x) (map setm xs)"
proof -
  define M where "M = marks_in marked (map setm xs)"
  have M: "M \<le> 2 * Z" using length_filter_le [of marked "map setm xs"] assms(1) by (simp add: M_def)
  have b: "M < 2 ^ 64" "Z < 2 ^ 64" using M assms by simp_all
  define d :: u64 where "d = (if M > Z then - (of_nat Z - of_nat M) else of_nat Z - of_nat M)"
  have d: "unat d = surplus Z xs" unfolding d_def word_diff(2) [OF b] by (simp add: surplus_def M_def Let_def)
  obtain zs d' where z: "change_marks C indicator (M > Z) d (map setm xs) = (zs, d')" by fastforce
  have e: "balance_marks C indicator Z xs = (if d' \<noteq> 0 then None else Some zs)"
    unfolding balance_marks_def Let_def set_marks_eq M_def [symmetric] prod.case word_diff(1) [OF b] d_def [symmetric] z by simp
  note c = change_marks_spec [OF z, folded reserve_def M_def]
  have r: "marks_in (\<lambda>x. dummy x \<and> marked x = (M > Z)) (map setm xs) = reserve Z xs" by (simp add: reserve_def M_def)
  have "unat d' = 0 \<longleftrightarrow> surplus Z xs \<le> reserve Z xs" using c unfolding d r by (elim conjE) (simp only: diff_is_0_eq)
  then have "d' = 0 \<longleftrightarrow> surplus Z xs \<le> reserve Z xs" unfolding unat_eq_0 .
  then show "balance_marks C indicator Z xs = None \<longleftrightarrow> reserve Z xs < surplus Z xs" by (auto simp: e)
  show "length ys = 2 * Z \<and> marks_in marked ys = Z
      \<and> map dummy ys = map dummy xs \<and> filter (\<lambda>x. \<not> dummy x) ys = filter (\<lambda>x. \<not> dummy x) (map setm xs)"
    if "balance_marks C indicator Z xs = Some ys"
  proof -
    have y: "ys = zs" "surplus Z xs \<le> reserve Z xs" using that \<open>d' = 0 \<longleftrightarrow> _\<close> by (auto simp: e split: if_splits)
    have "marks_in marked zs = Z"
      using c y(2) unfolding d r by (auto simp: surplus_def M_def Let_def min_def split: if_splits)
    then show ?thesis using c y(1) assms(1) by (simp add: comp_def)
  qed
qed

text \<open>There are not enough dummies exactly when the real elements of one side do not fit.\<close>

lemma overflow_iff:
  assumes "length xs = 2 * Z"
  shows "reserve Z xs < surplus Z xs \<longleftrightarrow> Z < marks_in (\<lambda>x. \<not> dummy x \<and> marked x) (map setm xs)
    \<or> Z < marks_in (\<lambda>x. \<not> dummy x \<and> \<not> marked x) (map setm xs)"
proof -
  define n where "n P = marks_in P (map setm xs)" for P
  have split: "n P = n (\<lambda>x. P x \<and> Q x) + n (\<lambda>x. P x \<and> \<not> Q x)" for P Q
    unfolding n_def by (induction xs) auto
  define A where "A = n (\<lambda>x. \<not> dummy x \<and> marked x)"
  define B where "B = n (\<lambda>x. \<not> dummy x \<and> \<not> marked x)"
  define C where "C = n (\<lambda>x. dummy x \<and> marked x)"
  define D where "D = n (\<lambda>x. dummy x \<and> \<not> marked x)"
  have "n (\<lambda>x. True) = 2 * Z" using assms by (simp add: n_def)
  then have tot: "A + B + C + D = 2 * Z"
    using split [of "\<lambda>x. True" dummy] split [of dummy marked] split [of "\<lambda>x. \<not> dummy x" marked]
    by (simp add: A_def B_def C_def D_def)
  have M: "marks_in marked (map setm xs) = A + C"
    using split [of marked dummy] by (simp add: A_def C_def n_def conj_commute)
  have "reserve Z xs = (if A + C > Z then C else D)"
    unfolding reserve_def M by (simp add: C_def D_def n_def)
  moreover have "surplus Z xs = (if A + C > Z then A + C - Z else Z - (A + C))"
    unfolding surplus_def M Let_def ..
  ultimately have "reserve Z xs < surplus Z xs \<longleftrightarrow> Z < A \<or> Z < B" using tot by (cases "A + C > Z") (simp_all, linarith+)
  then show ?thesis by (simp add: A_def B_def n_def)
qed

section \<open>Partition\<close>

text \<open>Every method moves the marked elements to the front when exactly half of the elements are marked.\<close>

lemma bitonic_partition:
  assumes "length ys = 2 * Z" "length ys \<le> 2 ^ 63" "marks_in marked ys = Z"
  shows "take Z (BitonicSort (cmpMark C indicator) True ys) = filter marked (BitonicSort (cmpMark C indicator) True ys)"
proof -
  define key :: "'e \<Rightarrow> nat" where "key x = (if marked x then 0 else if dummy x then 2 else 1)" for x
  have "key_order (cmpMark C indicator) key"
    by unfold_locales (auto simp: key_def cmpMark_def split: if_splits)
  from key_order.BitonicSort_ascending [OF this assms(2)]
  have s: "sorted (map key zs)" if "zs = BitonicSort (cmpMark C indicator) True ys" for zs using that by simp
  define zs where "zs = BitonicSort (cmpMark C indicator) True ys"
  have "take (marks_in marked zs) zs = filter marked zs" if "sorted (map key zs)" for zs
    using that
  proof (induction zs)
    case (Cons z zs)
    show ?case
    proof (cases "marked z")
      case False
      then have "\<forall>x\<in>set zs. \<not> marked x" using Cons.prems by (fastforce simp: key_def split: if_splits)
      then have "filter marked zs = []" by simp
      then show ?thesis using False by simp
    qed (use Cons in simp)
  qed simp
  moreover have "marks_in marked zs = Z" using assms(3) unfolding zs_def marks_in_mset by simp
  ultimately show ?thesis using s [OF zs_def] by (metis zs_def)
qed

definition partitioned :: "nat \<Rightarrow> 'e list \<Rightarrow> bool" where
  "partitioned Z zs \<longleftrightarrow> (\<forall>x\<in>set (take Z zs). marked x) \<and> (\<forall>x\<in>set (drop Z zs). \<not> marked x)"

lemma partitionedI:
  assumes "marks_in marked zs = Z" "\<forall>x\<in>set (take Z zs). marked x"
  shows "partitioned Z zs"
proof -
  have "marks_in marked (take Z zs) + marks_in marked (drop Z zs) = Z"
    unfolding assms(1) [symmetric] length_append [symmetric] filter_append [symmetric] by simp
  moreover have "filter marked (take Z zs) = take Z zs" using assms(2) by simp
  moreover have "Z \<le> length zs" using assms(1) length_filter_le [of marked zs] by simp
  ultimately have "filter marked (drop Z zs) = []" by simp
  then show ?thesis using assms(2) by (auto simp: partitioned_def filter_empty_conv)
qed

lemma MergeSplitInPlace_spec:
  assumes "length xs = 2 * Z" "length xs \<le> 2 ^ 63" "pmethod = OR_COMPACT \<longrightarrow> length xs < 2 ^ 32 - 1"
  shows "MergeSplitInPlace C pmethod indicator xs = None \<longleftrightarrow> reserve Z xs < surplus Z xs"
    "MergeSplitInPlace C pmethod indicator xs = Some zs \<Longrightarrow> length zs = 2 * Z \<and> partitioned Z zs
      \<and> mset (filter (\<lambda>x. \<not> dummy x) zs) = mset (filter (\<lambda>x. \<not> dummy x) (map setm xs))"
proof -
  have Z: "length xs div 2 = Z" "length xs < 2 ^ 64" using assms by simp_all
  note b = balance_marks_spec [OF assms(1) Z(2)]
  show "MergeSplitInPlace C pmethod indicator xs = None \<longleftrightarrow> reserve Z xs < surplus Z xs"
    using b(1) by (auto simp: MergeSplitInPlace_def Z(1) split: option.split)
  assume "MergeSplitInPlace C pmethod indicator xs = Some zs"
  then obtain ys where y: "balance_marks C indicator Z xs = Some ys"
    and z: "zs = (case pmethod of
         INTERLEAVE_PARTITION \<Rightarrow> InterleaveTwoWayPartition marked ys
       | OR_COMPACT \<Rightarrow> OrCompact marked ys | GOODRICH_COMPACT \<Rightarrow> GoodrichCompact marked ys
       | BITONIC \<Rightarrow> BitonicSort (cmpMark C indicator) True ys)"
    by (auto simp: MergeSplitInPlace_def Z(1) split: option.splits)
  note y = b(2) [OF y]
  have len: "length ys = 2 * Z" "length ys \<le> 2 ^ 63" "pmethod = OR_COMPACT \<Longrightarrow> length ys < 2 ^ 32" "marks_in marked ys = Z"
    using y assms by simp_all
  have m: "mset zs = mset ys"
    using OrCompact_front [OF len(3)] GoodrichCompact_front [OF len(2)] len(1) by (cases pmethod) (simp_all add: z)
  have k: "marks_in marked zs = Z" using len(4) unfolding marks_in_mset m .
  have "partitioned Z zs"
  proof (cases "pmethod = INTERLEAVE_PARTITION")
    case True
    then show ?thesis
      using InterleaveTwoWayPartition_marks [OF len(1,4)] m len(1) mset_eq_length [OF m]
      by (auto simp: partitioned_def z in_set_conv_nth)
  next
    case False
    then have "set (take Z zs) \<subseteq> set (filter marked ys) \<union> set (filter marked zs)"
      using OrCompact_front [OF len(3), of marked] GoodrichCompact_front [OF len(2), of marked]
        bitonic_partition [OF len(1,2,4)] len(4) by (cases pmethod) (auto simp: z)
    then show ?thesis using k by (intro partitionedI) auto
  qed
  then show "length zs = 2 * Z \<and> partitioned Z zs \<and> mset (filter (\<lambda>x. \<not> dummy x) zs) = mset (filter (\<lambda>x. \<not> dummy x) (map setm xs))"
    using y mset_eq_length [OF m] arg_cong [OF m, of "filter_mset (\<lambda>x. \<not> dummy x)"] by (metis mset_filter)
qed

lemma MergeSplitTwoWay_spec:
  assumes "length left = Z" "length right = Z" "even Z" "0 < Z" "2 * Z \<le> 2 ^ 63"
    "pmethod = OR_COMPACT \<longrightarrow> 2 * Z < 2 ^ 32 - 1"
  shows "MergeSplitTwoWay C pmethod indicator left right = None \<longleftrightarrow> reserve Z (left @ right) < surplus Z (left @ right)"
    "MergeSplitTwoWay C pmethod indicator left right = Some (left', right') \<Longrightarrow> length left' = Z \<and> length right' = Z
      \<and> (\<forall>x\<in>set left'. marked x) \<and> (\<forall>x\<in>set right'. \<not> marked x)
      \<and> mset (filter (\<lambda>x. \<not> dummy x) (left' @ right')) = mset (filter (\<lambda>x. \<not> dummy x) (map setm (left @ right)))"
proof -
  have len: "length (left @ right) = 2 * Z" "length (left @ right) \<le> 2 ^ 63" "length (left @ right) < 2 ^ 64" using assms by simp_all
  have "pmethod = OR_COMPACT \<longrightarrow> length (left @ right) < 2 ^ 32 - 1" using assms(6) len(1) by simp
  note ip = MergeSplitInPlace_spec [OF len(1,2) this] and b = balance_marks_spec [OF len(1,3)]
  show "MergeSplitTwoWay C pmethod indicator left right = None \<longleftrightarrow> reserve Z (left @ right) < surplus Z (left @ right)"
    using ip(1) b(1) assms(1) by (auto simp: MergeSplitTwoWay_def split: option.split)
  assume *: "MergeSplitTwoWay C pmethod indicator left right = Some (left', right')"
  show "length left' = Z \<and> length right' = Z \<and> (\<forall>x\<in>set left'. marked x) \<and> (\<forall>x\<in>set right'. \<not> marked x)
      \<and> mset (filter (\<lambda>x. \<not> dummy x) (left' @ right')) = mset (filter (\<lambda>x. \<not> dummy x) (map setm (left @ right)))"
  proof (cases "pmethod = INTERLEAVE_PARTITION")
    case False
    with * assms(1) obtain zs where z: "MergeSplitInPlace C pmethod indicator (left @ right) = Some zs"
      "left' = take Z zs" "right' = drop Z zs"
      by (auto simp: MergeSplitTwoWay_def split: option.splits)
    with ip(2) [OF z(1)] show ?thesis by (simp add: partitioned_def)
  next
    case True
    with * assms(1) obtain ys where y: "balance_marks C indicator Z (left @ right) = Some ys"
      "InterleaveTwoWayPartitionBuckets marked (take Z ys) (drop Z ys) = (left', right')"
      by (auto simp: MergeSplitTwoWay_def split: option.splits)
    note y1 = b(2) [OF y(1)]
    have "marks_in marked (take Z ys) + marks_in marked (drop Z ys) = Z"
      using y1 unfolding length_append [symmetric] filter_append [symmetric] by simp
    from InterleaveTwoWayPartitionBuckets_spec [of "take Z ys" Z "drop Z ys" marked, unfolded y(2), OF _ _ assms(3,4) this] y1
    have p: "length left' = Z" "length right' = Z" "mset (left' @ right') = mset ys" "\<forall>x\<in>set left'. marked x" "\<forall>x\<in>set right'. \<not> marked x"
      by (simp_all flip: mset_append)
    have "mset (filter (\<lambda>x. \<not> dummy x) (left' @ right')) = mset (filter (\<lambda>x. \<not> dummy x) ys)"
      unfolding mset_filter p(3) ..
    then show ?thesis using p y1 by metis
  qed
qed

end

section \<open>The two classes of elements satisfy the contract\<close>

lemma single_bit_flip:
  fixes t :: u64
  assumes "j < 63"
  shows "((t XOR 2 ^ j) AND 2 ^ j = 0) \<longleftrightarrow> \<not> (t AND 2 ^ j = 0)" "drop_bit 63 (t XOR 2 ^ j) = drop_bit 63 t"
proof -
  have b: "(s AND 2 ^ j = 0) \<longleftrightarrow> \<not> bit s j" for s :: u64
    by (simp add: and_exp_eq_0_iff_not_bit)
  show "((t XOR 2 ^ j) AND 2 ^ j = 0) \<longleftrightarrow> \<not> (t AND 2 ^ j = 0)"
    unfolding b using assms by (simp add: bit_xor_iff bit_exp_iff)
  show "drop_bit 63 (t XOR 2 ^ j) = drop_bit 63 t"
    using assms by (intro bit_word_eqI) (simp add: bit_simps)
qed

lemma tagged_laws: "j < 63 \<Longrightarrow> mark_laws tagged_class (2 ^ j)"
  using single_bit_flip
  by unfold_locales (auto simp: tagged_class_def setAndGetMarked_def isMarked_def condChangeMark_def isDummy_def)

interpretation tagged: mark_laws tagged_class 1
  using tagged_laws [of 0] by simp

interpretation block: mark_laws "block_class key" pivot for key :: "'a \<Rightarrow> 'k::linorder" and pivot
  by unfold_locales (auto simp: block_class_def block_setAndGetMarked_def block_isMarked_def
      block_condChangeMark_def block_isDummy_def Let_def)

section \<open>Partition of the dummies\<close>

lemma partition_scan_spec:
  assumes "left \<le> right" "right < length xs" "\<forall>i<left. \<not> dummy (xs ! i)" "\<forall>i<length xs. right < i \<longrightarrow> dummy (xs ! i)"
    "\<exists>i. left \<le> i \<and> i \<le> right \<and> dummy (xs ! i)" "partition_scan dummy left right xs = (ys, c)"
  shows "mset ys = mset xs \<and> c < length xs \<and> (\<forall>i<length xs. dummy (ys ! i) \<longleftrightarrow> c \<le> i)"
  using assms
proof (induction dummy left right xs rule: partition_scan.induct)
  case (1 dummy left right xs)
  have in_range: "\<not> (length xs \<le> left \<or> length xs \<le> right)" using 1(4,5) by simp
  consider (skip) "\<not> dummy (xs ! left)" "\<not> right \<le> left + 1" | (stop) "\<not> dummy (xs ! left)" "right \<le> left + 1"
    | (retreat) "dummy (xs ! left)" "dummy (xs ! right)" "\<not> right - 1 \<le> left"
    | (meet) "dummy (xs ! left)" "dummy (xs ! right)" "right - 1 \<le> left"
    | (exchange) "dummy (xs ! left)" "\<not> dummy (xs ! right)" by blast
  then show ?case
  proof cases
    case skip
    have "partition_scan dummy (left + 1) right xs = (ys, c)"
      using 1(9) in_range skip by (simp add: partition_scan.simps [of dummy left right xs])
    moreover have "\<forall>i<left + 1. \<not> dummy (xs ! i)" using 1(6) skip(1) by (auto simp: less_Suc_eq)
    moreover have "\<exists>i. left + 1 \<le> i \<and> i \<le> right \<and> dummy (xs ! i)"
      using 1(8) skip(1) by (metis Suc_eq_plus1 le_neq_implies_less Suc_leI)
    ultimately show ?thesis using 1(1) [OF in_range skip] 1(5,7) skip(2) by simp
  next
    case stop
    then have "right = left + 1" "dummy (xs ! right)" using 1(4,8) by (metis le_antisym le_Suc_eq Suc_eq_plus1)+
    moreover have "ys = xs" "c = left + 1" using 1(9) in_range stop by (simp_all add: partition_scan.simps [of dummy left right xs])
    moreover have "dummy (xs ! i) \<longleftrightarrow> right \<le> i" if "i < length xs" for i
      using that 1(6,7) stop(1) calculation by (cases i right rule: linorder_cases) (auto simp: less_Suc_eq)
    ultimately show ?thesis using 1(5) by simp
  next
    case retreat
    have "partition_scan dummy left (right - 1) xs = (ys, c)"
      using 1(9) in_range retreat by (simp add: partition_scan.simps [of dummy left right xs])
    moreover have "\<forall>i<length xs. right - 1 < i \<longrightarrow> dummy (xs ! i)" using 1(7) retreat(2) by (metis diff_Suc_1 less_Suc_eq_le less_imp_Suc_add Suc_pred' nat_neq_iff not_less_eq not_less_zero gr_zeroI)
    moreover have "left \<le> right - 1" "right - 1 < length xs" "\<exists>i. left \<le> i \<and> i \<le> right - 1 \<and> dummy (xs ! i)"
      using 1(5) retreat(1,3) by (auto intro: exI [of _ left])
    ultimately show ?thesis using 1(2) [OF in_range _ retreat(2,3)] 1(6) retreat(1) by blast
  next
    case meet
    then have "ys = xs" "c = left" using 1(9) in_range by (simp_all add: partition_scan.simps [of dummy left right xs])
    moreover have "dummy (xs ! i)" if "left \<le> i" "i < length xs" for i
    proof (cases "right < i")
      case False
      then have "i = left \<or> i = right" using that(1) meet(3) by linarith
      then show ?thesis using meet(1,2) by blast
    qed (use 1(7) that in blast)
    ultimately show ?thesis using 1(4-6) in_range by (auto simp flip: not_less)
  next
    case exchange
    define zs where "zs = condSwapAt True left right xs"
    have z: "length zs = length xs" "mset zs = mset xs" using in_range by (simp_all add: zs_def)
    have n: "zs ! i = (if i = right then xs ! left else if i = left then xs ! right else xs ! i)" if "i < length xs" for i
      using that by (simp add: zs_def nth_condSwapAt)
    have "partition_scan dummy left right zs = (ys, c)"
      using 1(9) in_range exchange by (simp add: partition_scan.simps [of dummy left right xs] zs_def)
    moreover have "\<exists>i. left \<le> i \<and> i \<le> right \<and> dummy (zs ! i)"
      using 1(4,5) exchange(1) n by (intro exI [of _ right]) simp
    ultimately show ?thesis
      using 1(3) [OF in_range _ exchange(2), folded zs_def] 1(4-7) exchange n z by auto
  qed
qed

lemma take_filter_prefix:
  assumes "c \<le> length ys" "\<forall>i<length ys. P (ys ! i) \<longleftrightarrow> i < c"
  shows "take c ys = filter P ys"
proof -
  have "filter P (take c ys) = take c ys" using assms by (auto simp: filter_id_conv in_set_conv_nth)
  moreover have "filter P (drop c ys) = []" using assms by (auto simp: filter_empty_conv in_set_conv_nth)
  ultimately show ?thesis by (metis append_Nil2 append_take_drop_id filter_append)
qed

lemma partitionDummy_reals:
  assumes "\<exists>x\<in>set xs. dummy x" "partitionDummy dummy xs = (ys, c)"
  shows "mset (take c ys) = mset (filter (\<lambda>x. \<not> dummy x) xs)" "mset ys = mset xs" "c \<le> length ys"
proof -
  have len: "0 < length xs" using assms(1) by auto
  have "\<exists>i. 0 \<le> i \<and> i \<le> length xs - 1 \<and> dummy (xs ! i)"
    using assms(1) len by (metis Suc_pred' in_set_conv_nth less_Suc_eq_le zero_le)
  moreover have "\<forall>i<length xs. length xs - 1 < i \<longrightarrow> dummy (xs ! i)" by auto
  ultimately have p: "mset ys = mset xs" "c < length xs" "\<forall>i<length xs. dummy (ys ! i) \<longleftrightarrow> c \<le> i"
    using partition_scan_spec [OF _ _ _ _ _ assms(2) [unfolded partitionDummy_def]] len by simp_all
  have "length ys = length xs" using p(1) by (rule mset_eq_length)
  then have "take c ys = filter (\<lambda>x. \<not> dummy x) ys"
    using p(2,3) by (intro take_filter_prefix) (simp_all add: not_le)
  then show "mset (take c ys) = mset (filter (\<lambda>x. \<not> dummy x) xs)" using p(1) by simp
  show "mset ys = mset xs" by (rule p(1))
  show "c \<le> length ys" using p(2) \<open>length ys = length xs\<close> by simp
qed

lemma partition_scan_no_dummy:
  assumes "\<forall>x\<in>set xs. \<not> dummy x" "left < right" "right < length xs"
  shows "partition_scan dummy left right xs = (xs, right)"
  using assms(2)
proof (induction "right - left" arbitrary: left)
  case (Suc n)
  have "\<not> dummy (xs ! left)" using assms(1,3) Suc.prems by simp
  then show ?case
    using Suc assms(3) by (cases "right = left + 1") (auto simp: partition_scan.simps [of dummy left right xs] partition_scan.simps [of dummy left "Suc left" xs])
qed simp

section \<open>Properties\<close>

text \<open>(C28) The merge-split of two buckets of \<open>Z\<close> tagged elements on bit \<open>j\<close> of the tags, with each of the
  four partition methods.  The code aborts exactly when more than \<open>Z\<close> real elements have the bit clear or more
  than \<open>Z\<close> have it set.  Otherwise the left bucket has the elements with the bit clear, the right
  bucket those with the bit set, both have \<open>Z\<close> elements, and no real element is lost or changed.  With
  \<open>OR_COMPACT\<close> the two buckets have fewer than \<open>2^32 - 1\<close> elements, as \<open>OrCompact\<close> asserts.\<close>

theorem MergeSplitTwoWay_splits:
  assumes "length left = Z" "length right = Z" "even Z" "0 < Z" "2 * Z \<le> 2 ^ 63" "j < 63"
    "pmethod = OR_COMPACT \<longrightarrow> 2 * Z < 2 ^ 32 - 1"
  shows "case MergeSplitTwoWay tagged_class pmethod (2 ^ j) left right of
      None \<Rightarrow> Z < marks_in (\<lambda>e. \<not> isDummy e \<and> isMarked (2 ^ j) e) (left @ right)
        \<or> Z < marks_in (\<lambda>e. \<not> isDummy e \<and> \<not> isMarked (2 ^ j) e) (left @ right)
    | Some (left', right') \<Rightarrow> marks_in (\<lambda>e. \<not> isDummy e \<and> isMarked (2 ^ j) e) (left @ right) \<le> Z
        \<and> marks_in (\<lambda>e. \<not> isDummy e \<and> \<not> isMarked (2 ^ j) e) (left @ right) \<le> Z
        \<and> length left' = Z \<and> length right' = Z
        \<and> (\<forall>e\<in>set left'. isMarked (2 ^ j) e) \<and> (\<forall>e\<in>set right'. \<not> isMarked (2 ^ j) e)
        \<and> mset (filter (\<lambda>e. \<not> isDummy e) (left' @ right')) = mset (filter (\<lambda>e. \<not> isDummy e) (left @ right))"
proof -
  have laws: "mark_laws tagged_class (2 ^ j)" using assms(6) by (rule tagged_laws)
  have c: "mc_isDummy tagged_class = (isDummy :: 'a TaggedT \<Rightarrow> bool)" "mc_isMarked tagged_class = (isMarked :: u64 \<Rightarrow> 'a TaggedT \<Rightarrow> bool)"
    "map (\<lambda>x. fst (mc_setAndGetMarked tagged_class (2 ^ j) x)) (left @ right) = left @ right"
    by (simp_all add: tagged_class_def setAndGetMarked_def)
  have len: "length (left @ right) = 2 * Z" using assms(1,2) by simp
  note s = mark_laws.MergeSplitTwoWay_spec [OF laws assms(1-5,7), unfolded c]
    and o = mark_laws.overflow_iff [OF laws len, unfolded c]
  show ?thesis
  proof (cases "MergeSplitTwoWay tagged_class pmethod (2 ^ j) left right")
    case None
    then show ?thesis using s(1) o by simp
  next
    case (Some p)
    then show ?thesis using s(1) s(2) [of "fst p" "snd p"] o by (simp add: split_beta)
  qed
qed

theorem MergeSplitTwoWay_splits_witness:
  "(let d = \<lparr>tag = 2 ^ 63, v = 0\<rparr>; left = [\<lparr>tag = 5, v = 1\<rparr>, d]; right = [d, \<lparr>tag = 2, v = 2\<rparr>]
    in \<exists>left' right'. MergeSplitTwoWay tagged_class OR_COMPACT (2 ^ 0) left right = Some (left', right' :: nat TaggedT list)
      \<and> list_all (isMarked 1) left' \<and> list_all (\<lambda>e. \<not> isMarked 1 e) right')"
proof -
  let ?d = "\<lparr>tag = 2 ^ 63, v = 0 :: nat\<rparr>"
  have "marks_in (\<lambda>e. \<not> isDummy e \<and> isMarked (2 ^ 0) e) ([\<lparr>tag = 5, v = 1\<rparr>, ?d] @ [?d, \<lparr>tag = 2, v = 2\<rparr>]) \<le> 2"
    "marks_in (\<lambda>e. \<not> isDummy e \<and> \<not> isMarked (2 ^ 0) e) ([\<lparr>tag = 5, v = 1\<rparr>, ?d] @ [?d, \<lparr>tag = 2, v = 2\<rparr>]) \<le> 2"
    by (simp_all add: isDummy_def isMarked_def)
  then show ?thesis
    using MergeSplitTwoWay_splits [of "[\<lparr>tag = 5, v = 1\<rparr>, ?d]" 2 "[?d, \<lparr>tag = 2, v = 2\<rparr>]" 0 OR_COMPACT]
    unfolding Let_def list_all_iff by (fastforce split: option.splits)
qed

text \<open>(C40) The partition that moves dummies to the back before the final sort.  If the range has a dummy, the
  elements before the returned iterator are exactly the real ones.  If it has none (and two elements
  or more), the iterator stops in front of the last element, which is a real one and is lost.\<close>

theorem partitionDummy_splits:
  assumes "partitionDummy dummy xs = (ys, c)"
  shows "((\<exists>x\<in>set xs. dummy x) \<longrightarrow> mset (take c ys) = mset (filter (\<lambda>x. \<not> dummy x) xs))
    \<and> (2 \<le> length xs \<and> (\<forall>x\<in>set xs. \<not> dummy x) \<longrightarrow> ys = xs \<and> c = length xs - 1)"
  using partitionDummy_reals(1) [OF _ assms] partition_scan_no_dummy [of xs dummy 0 "length xs - 1"] assms
  by (auto simp: partitionDummy_def)

theorem partitionDummy_splits_witness:
  "mset (take 2 [5, 7, 0 :: nat]) = mset (filter (\<lambda>x. \<not> x = 0) [5, 0, 7])
    \<and> partitionDummy (\<lambda>x. x = 0) [5, 7 :: nat] = ([5, 7], 1)"
proof -
  have "partitionDummy (\<lambda>x. x = 0) [5, 0, 7 :: nat] = ([5, 7, 0], 2)"
    by (simp add: partitionDummy_def partition_scan.simps condSwapAt_def condSwap_def)
  from partitionDummy_splits [OF this]
  have "mset (take 2 [5, 7, 0 :: nat]) = mset (filter (\<lambda>x. \<not> x = 0) [5, 0, 7])" by simp
  moreover obtain ys c where p: "partitionDummy (\<lambda>x. x = 0) [5, 7 :: nat] = (ys, c)" by fastforce
  ultimately show ?thesis using partitionDummy_splits [OF p] by simp
qed

end
