(* ===== verification/Merge_Split_Kway.thy ===== *)
theory Merge_Split_Kway
  imports Interleave_Kway Merge_Split
begin

text \<open>
  The multi-way merge-split of \<open>sort_building_blocks.hpp\<close>: \<open>k\<close> buckets of \<open>Z\<close> elements are redistributed
  so that bucket \<open>j\<close> receives the elements with mark \<open>j\<close>; dummies fill the buckets.  The counters of
  free places are the eight lanes of a 256-bit register.
\<close>

unbundle bit_operations_syntax

section \<open>Definitions\<close>

text \<open>The vector operations of \<open>mov_intrinsics.hpp\<close> (the AVX2 variants).  The extraction takes its index
  modulo 8, as the instruction does; the decrement ignores an index outside the vector.\<close>

type_synonym m256i = "u32 list"

definition mm256_set1_epi32 :: "u32 \<Rightarrow> m256i" where
  "mm256_set1_epi32 z = replicate 8 z"

definition mm256_extract_epi32_var_indx :: "m256i \<Rightarrow> nat \<Rightarrow> u32" where
  "mm256_extract_epi32_var_indx vec i = vec ! (i mod 8)"

definition mm256_decrement_epi32_var_indx :: "m256i \<Rightarrow> nat \<Rightarrow> m256i" where
  "mm256_decrement_epi32_var_indx vec i = map (\<lambda>j. if j = i then vec ! j - 1 else vec ! j) [0..<8]"

definition mm256_contain_le_zero :: "m256i \<Rightarrow> bool" where
  "mm256_contain_le_zero vec \<longleftrightarrow> list_ex (\<lambda>x. sint x < 1) vec"

text \<open>The loop that copies the buckets to the temporary array, computes the marks and counts down the
  free places; a dummy gets the mark 255.\<close>

definition kway_mark :: "('e \<Rightarrow> 'e \<times> u8) \<Rightarrow> ('e \<Rightarrow> bool) \<Rightarrow> 'e \<Rightarrow> 'e \<times> u8" where
  "kway_mark getMark dummy e =
    (let d = dummy e; (e, m) = getMark e in (e, m OR - of_bool d))"

definition kway_remain :: "nat \<Rightarrow> ('e \<times> u8) list \<Rightarrow> m256i" where
  "kway_remain Z xs =
    foldl (\<lambda>vec x. mm256_decrement_epi32_var_indx vec (unat (snd x))) (mm256_set1_epi32 (of_nat Z)) xs"

text \<open>The loop that gives the dummies the marks that still have free places.\<close>

fun fill_dummies :: "m256i \<Rightarrow> nat \<Rightarrow> u32 \<Rightarrow> ('e \<times> u8) list \<Rightarrow> ('e \<times> u8) list" where
  "fill_dummies remainCounts currMark currRemain [] = []"
| "fill_dummies remainCounts currMark currRemain ((e, m) # xs) =
    (let isDummy = (m = - 1);
         m = (if isDummy then of_nat currMark else m);
         currRemain = currRemain - of_bool isDummy;
         currMark = currMark + of_bool (currRemain = 0);
         remainCount = mm256_extract_epi32_var_indx remainCounts currMark;
         currRemain = (if currRemain = 0 then remainCount else currRemain)
     in (e, m) # fill_dummies remainCounts currMark currRemain xs)"

text \<open>The part for more than two ways, for any way of computing the marks.  \<open>None\<close> is \<open>std::abort\<close>.\<close>

definition merge_split_many ::
  "('e \<Rightarrow> 'e \<times> u8) \<Rightarrow> ('e \<Rightarrow> bool) \<Rightarrow> nat \<Rightarrow> nat \<Rightarrow> 'e list list \<Rightarrow> 'e list list option" where
  "merge_split_many getMark dummy k Z buckets =
    (let xs = map (kway_mark getMark dummy) (concat buckets);
         remainCounts = kway_remain Z xs
     in if mm256_contain_le_zero remainCounts then None
        else let xs = fill_dummies remainCounts 0 (mm256_extract_epi32_var_indx remainCounts 0) xs
             in case Interleave k xs of
                  None \<Rightarrow> None
                | Some temp \<Rightarrow> Some (map (\<lambda>j. map (\<lambda>i. fst (temp ! (i * k + j))) [0..<Z]) [0..<k]))"

text \<open>\<open>MergeSplitKWay\<close> without pivots, for tagged elements: two ways are a special case, in which the tags
  are shifted afterwards (an arithmetic shift, which keeps the dummy flag).\<close>

definition shift_tag :: "'a TaggedT \<Rightarrow> 'a TaggedT" where
  "shift_tag e = e\<lparr>tag := signed_drop_bit 1 (tag e)\<rparr>"

definition MergeSplitKWay :: "nat \<Rightarrow> nat \<Rightarrow> 'a TaggedT list list \<Rightarrow> 'a TaggedT list list option" where
  "MergeSplitKWay k Z buckets =
    (if k = 2
     then case MergeSplitTwoWay tagged_class INTERLEAVE_PARTITION 1 (buckets ! 0) (buckets ! 1) of
            None \<Rightarrow> None
          | Some (left, right) \<Rightarrow> Some [map shift_tag left, map shift_tag right]
     else merge_split_many (getMarkAndUpdate (of_nat k)) isDummy k Z buckets)"

text \<open>With pivots, for blocks: the mark is the number of pivots that are smaller.\<close>

definition pivot_mark :: "('a \<Rightarrow> 'k::linorder) \<Rightarrow> 'a Block list \<Rightarrow> 'a Block \<Rightarrow> 'a Block \<times> u8" where
  "pivot_mark key pivots e = (e, foldl (\<lambda>m p. m + of_bool (block_less key p e)) 0 pivots)"

definition MergeSplitKWayPivots ::
  "('a \<Rightarrow> 'k::linorder) \<Rightarrow> 'a Block list \<Rightarrow> nat \<Rightarrow> nat \<Rightarrow> 'a Block list list \<Rightarrow> 'a Block list list option" where
  "MergeSplitKWayPivots key pivots k Z buckets =
    (if k = 2
     then case MergeSplitTwoWay (block_class key) INTERLEAVE_PARTITION (hd pivots) (buckets ! 0) (buckets ! 1) of
            None \<Rightarrow> None
          | Some (left, right) \<Rightarrow> Some [left, right]
     else merge_split_many (pivot_mark key (take (k - 1) pivots)) block_isDummy k Z buckets)"

section \<open>The counters\<close>

lemma nth_decrement: "length vec = 8 \<Longrightarrow> w < 8 \<Longrightarrow> mm256_decrement_epi32_var_indx vec i ! w = vec ! w - of_bool (w = i)"
  by (simp add: mm256_decrement_epi32_var_indx_def)

lemma length_decrement [simp]: "length (mm256_decrement_epi32_var_indx vec i) = 8"
  by (simp add: mm256_decrement_epi32_var_indx_def)

lemma nth_remain:
  assumes "w < 8"
  shows "kway_remain Z xs ! w = of_nat Z - of_nat (count_mark w xs)" "length (kway_remain Z xs) = 8"
proof -
  have "foldl (\<lambda>vec x. mm256_decrement_epi32_var_indx vec (unat (snd x))) vec xs ! w = vec ! w - of_nat (count_mark w xs)
      \<and> length (foldl (\<lambda>vec x. mm256_decrement_epi32_var_indx vec (unat (snd x))) vec xs) = 8" if "length vec = 8" for vec
    using that by (induction xs arbitrary: vec) (use assms in \<open>auto simp: nth_decrement\<close>)
  from this [of "mm256_set1_epi32 (of_nat Z)"] assms
  show "kway_remain Z xs ! w = of_nat Z - of_nat (count_mark w xs)" "length (kway_remain Z xs) = 8"
    by (simp_all add: kway_remain_def mm256_set1_epi32_def)
qed

lemma sint_difference:
  assumes "a < 2 ^ 31" "b < 2 ^ 31"
  shows "sint (of_nat a - of_nat b :: u32) = int a - int b"
proof -
  have "sint (word_of_int (int a - int b) :: u32) = signed_take_bit 31 (int a - int b)"
    by (simp only: signed_of_int) simp
  also have "\<dots> = int a - int b" using assms by (intro signed_take_bit_int_eq_self) auto
  finally show ?thesis by simp
qed

lemma contain_le_zero_iff:
  assumes "length xs < 2 ^ 31" "Z < 2 ^ 31"
  shows "mm256_contain_le_zero (kway_remain Z xs) \<longleftrightarrow> (\<exists>w<8. Z \<le> count_mark w xs)"
proof -
  have "sint (kway_remain Z xs ! w) < 1 \<longleftrightarrow> Z \<le> count_mark w xs" if "w < 8" for w
  proof -
    have "count_mark w xs < 2 ^ 31" using assms(1) length_filter_le [of "\<lambda>x. mark x = w" xs] by linarith
    from sint_difference [OF assms(2) this] show ?thesis unfolding nth_remain(1) [OF that] by linarith
  qed
  then show ?thesis
    unfolding mm256_contain_le_zero_def list_ex_iff using nth_remain(2) [of 0 Z xs]
    by (metis in_set_conv_nth nth_mem zero_less_numeral)
qed


section \<open>The marks of the dummies\<close>

lemma unat_minus_1_u8: "unat (- 1 :: u8) = 255"
  by (simp add: unsigned_minus_1_eq_mask mask_eq_exp_minus_1)

definition dummies_left :: "m256i \<Rightarrow> nat \<Rightarrow> nat \<Rightarrow> u32 \<Rightarrow> nat" where
  "dummies_left vec k currMark currRemain =
    (if currMark < k then unat currRemain else 0) + (\<Sum>w\<in>{currMark<..<k}. unat (vec ! w))"

lemma dummies_left_step:
  assumes "currMark < k" "k \<le> 8" "vec ! ((currMark + 1) mod 8) = cr"
  shows "dummies_left vec k currMark 1 = Suc (dummies_left vec k (currMark + 1) cr)"
proof (cases "currMark + 1 < k")
  case True
  then have "{currMark<..<k} = insert (currMark + 1) {currMark + 1<..<k}" by auto
  then show ?thesis using assms True by (simp add: dummies_left_def)
next
  case False
  then have "{currMark<..<k} = {}" "{currMark + 1<..<k} = {}" using assms(1) by auto
  then show ?thesis using assms(1) False by (simp add: dummies_left_def)
qed

lemma dummies_left_dec: "currRemain \<noteq> 0 \<Longrightarrow> currMark < k \<Longrightarrow>
    dummies_left vec k currMark currRemain = Suc (dummies_left vec k currMark (currRemain - 1))"
  using unat_minus_one [of currRemain] unat_gt_0 [of currRemain] by (simp add: dummies_left_def)

lemma fill_dummies_spec:
  assumes "\<forall>i<8. vec ! i \<noteq> 0" "k \<le> 8" "currMark \<le> k" "currRemain \<noteq> 0"
    "length (filter (\<lambda>x. snd x = - 1) xs) = dummies_left vec k currMark currRemain" "\<forall>x\<in>set xs. snd x \<noteq> - 1 \<longrightarrow> mark x < k"
  shows "list_all2 (\<lambda>x y. fst y = fst x \<and> (snd x \<noteq> - 1 \<longrightarrow> snd y = snd x)) xs (fill_dummies vec currMark currRemain xs)
    \<and> (\<forall>y\<in>set (fill_dummies vec currMark currRemain xs). mark y < k)
    \<and> (\<forall>w<k. count_mark w (fill_dummies vec currMark currRemain xs) = count_mark w xs
        + (if w < currMark then 0 else if w = currMark then unat currRemain else unat (vec ! w)))"
  using assms(3-)
proof (induction xs arbitrary: currMark currRemain)
  case Nil
  then have "unat currRemain \<noteq> 0" "dummies_left vec k currMark currRemain = 0" by (simp_all add: unat_eq_0)
  then have "\<not> currMark < k" by (auto simp: dummies_left_def)
  then show ?case by simp
next
  case (Cons x xs)
  obtain e m where x: "x = (e, m)" by fastforce
  show ?case
  proof (cases "m = - 1")
    case False
    then show ?thesis using Cons.IH [of currMark currRemain] Cons.prems by (simp add: x Let_def)
  next
    case True
    have "dummies_left vec k currMark currRemain \<noteq> 0" using Cons.prems(3) True by (simp add: x)
    then have lt: "currMark < k" by (auto simp: dummies_left_def split: if_splits)
    have u: "unat (of_nat currMark :: u8) = currMark" using lt assms(2) by (simp add: unat_of_nat)
    show ?thesis
    proof (cases "currRemain = 1")
      case one: True
      define cr where "cr = vec ! ((currMark + 1) mod 8)"
      have f: "fill_dummies vec currMark currRemain (x # xs) = (e, of_nat currMark) # fill_dummies vec (currMark + 1) cr xs"
        using True one by (simp add: x Let_def cr_def mm256_extract_epi32_var_indx_def)
      have "cr \<noteq> 0" using assms(1) by (simp add: cr_def)
      moreover have "length (filter (\<lambda>x. snd x = - 1) xs) = dummies_left vec k (currMark + 1) cr"
        using Cons.prems(3) dummies_left_step [OF lt assms(2) cr_def [symmetric]] True one by (simp add: x)
      moreover have "cr = vec ! (currMark + 1)" if "currMark + 1 < k" using that assms(2) by (simp add: cr_def)
      ultimately show ?thesis
        using Cons.IH [of "currMark + 1" cr] Cons.prems lt assms(2) True one u unat_minus_1_u8 unfolding f by (auto simp: x less_Suc_eq)
    next
      case more: False
      have f: "fill_dummies vec currMark currRemain (x # xs) = (e, of_nat currMark) # fill_dummies vec currMark (currRemain - 1) xs"
        using True more by (simp add: x Let_def)
      have "length (filter (\<lambda>x. snd x = - 1) xs) = dummies_left vec k currMark (currRemain - 1)"
        using Cons.prems(3) dummies_left_dec [OF Cons.prems(2) lt, of vec] True by (simp add: x)
      moreover have "unat currRemain = Suc (unat (currRemain - 1))"
        using unat_minus_one [OF Cons.prems(2)] Cons.prems(2) unat_gt_0 [of currRemain] by simp
      ultimately show ?thesis
        using Cons.IH [of currMark "currRemain - 1"] Cons.prems lt assms(2) True more u unat_minus_1_u8 unfolding f by (auto simp: x)
    qed
  qed
qed


section \<open>Routing\<close>

lemma marks_total:
  "\<forall>x\<in>set xs. snd x \<noteq> - 1 \<longrightarrow> mark x < k \<Longrightarrow> k \<le> 8 \<Longrightarrow>
    length xs = length (filter (\<lambda>x. snd x = - 1) xs) + (\<Sum>w<k. count_mark w xs)"
proof (induction xs)
  case (Cons x xs)
  have "(\<Sum>w<k. count_mark w (x # xs)) = (\<Sum>w<k. of_bool (mark x = w)) + (\<Sum>w<k. count_mark w xs)"
    unfolding sum.distrib [symmetric] by (intro sum.cong) auto
  also have "(\<Sum>w<k. of_bool (mark x = w)) = (of_bool (mark x < k) :: nat)"
    by (simp add: of_bool_def)
  finally show ?case using Cons unat_minus_1_u8 by (cases "snd x = - 1") auto
qed simp

lemma periodic_filter:
  assumes "map f xs = concat (replicate n [0..<k])" "j < k"
  shows "filter (\<lambda>x. f x = j) xs = map (\<lambda>i. xs ! (i * k + j)) [0..<n]"
  using assms(1)
proof (induction n arbitrary: xs)
  case (Suc n)
  define as where "as = take k xs"
  define bs where "bs = drop k xs"
  have xs: "xs = as @ bs" by (simp add: as_def bs_def)
  have "map f as = take k (map f xs)" "map f bs = drop k (map f xs)" by (simp_all add: as_def bs_def take_map drop_map)
  then have m: "map f as = [0..<k]" "map f bs = concat (replicate n [0..<k])" using Suc.prems by simp_all
  have la: "length as = k" using arg_cong [OF m(1), of length] by simp
  have fa: "f (as ! i) = i" if "i < k" for i using arg_cong [OF m(1), of "\<lambda>l. l ! i"] that la by simp
  have "filter (\<lambda>x. f x = j) as = filter (\<lambda>x. f x = j) (map ((!) as) [0..<k])" unfolding la [symmetric] map_nth ..
  also have "\<dots> = map ((!) as) (filter (\<lambda>i. f (as ! i) = j) [0..<k])" unfolding filter_map comp_def ..
  also have "filter (\<lambda>i. f (as ! i) = j) [0..<k] = filter (\<lambda>i. i = j) [0..<k]" using fa by (intro filter_cong) auto
  also have "\<dots> = [j]" using assms(2) by (induction k) (auto simp: less_Suc_eq)
  finally have "filter (\<lambda>x. f x = j) xs = as ! j # map (\<lambda>i. bs ! (i * k + j)) [0..<n]"
    using Suc.IH [OF m(2)] by (simp add: xs)
  also have "map (\<lambda>i. bs ! (i * k + j)) [0..<n] = map (\<lambda>i. xs ! (Suc i * k + j)) [0..<n]"
    using la by (simp add: xs nth_append)
  also have "as ! j # \<dots> = map (\<lambda>i. xs ! (i * k + j)) [0..<Suc n]"
    unfolding upt_conv_Cons [OF zero_less_Suc] map_Suc_upt [symmetric] list.map map_map comp_def using assms(2) la
    by (simp add: xs nth_append)
  finally show ?case .
qed simp

lemma all2_filter:
  assumes "list_all2 (\<lambda>x y. fst y = fst x \<and> (snd x \<noteq> - 1 \<longrightarrow> snd y = snd x)) xs ys" "\<forall>x\<in>set xs. dummy (fst x) \<longleftrightarrow> snd x = - 1"
  shows "filter (\<lambda>y. \<not> dummy (fst y) \<and> mark y = j) ys = filter (\<lambda>x. \<not> dummy (fst x) \<and> mark x = j) xs"
  using assms by (induction rule: list_all2_induct) (auto simp: prod_eq_iff)

lemma merge_split_many_spec:
  fixes getMark :: "'e \<Rightarrow> 'e \<times> u8"
  assumes "3 \<le> k" "k \<le> 8" "length bs = k" "\<forall>b\<in>set bs. length b = 2 ^ m" "k * 2 ^ m < 2 ^ 31"
    and mk: "\<forall>e\<in>set (concat bs). \<not> dummy e \<longrightarrow> unat (snd (getMark e)) < k"
    and dm: "\<forall>e\<in>set (concat bs). dummy (fst (getMark e)) = dummy e"
  defines "sel \<equiv> \<lambda>j. filter (\<lambda>e. \<not> dummy e \<and> unat (snd (getMark e)) = j) (concat bs)"
  shows "merge_split_many getMark dummy k (2 ^ m) bs = None \<longleftrightarrow> (\<exists>j<k. 2 ^ m \<le> length (sel j))"
    "merge_split_many getMark dummy k (2 ^ m) bs = Some bs' \<Longrightarrow> length bs' = k \<and> (\<forall>b\<in>set bs'. length b = 2 ^ m)
      \<and> (\<forall>j<k. mset (filter (\<lambda>e. \<not> dummy e) (bs' ! j)) = mset (map (\<lambda>e. fst (getMark e)) (sel j)))"
proof -
  define Z :: nat where "Z = 2 ^ m"
  define xs where "xs = map (kway_mark getMark dummy) (concat bs)"
  define vec where "vec = kway_remain Z xs"
  have km: "kway_mark getMark dummy e = (fst (getMark e), if dummy e then - 1 else snd (getMark e))" for e
    by (simp add: kway_mark_def split_beta Let_def)
  have len: "length xs = k * Z"
  proof -
    have "map length bs = replicate k Z" using assms(3,4) by (simp add: Z_def map_replicate_const flip: map_cong)
    then show ?thesis by (simp add: xs_def length_concat sum_list_replicate)
  qed
  have m1: "snd x = - 1 \<longleftrightarrow> dummy (fst x)" "snd x \<noteq> - 1 \<Longrightarrow> mark x < k" if x: "x \<in> set xs" for x
  proof -
    obtain e where e: "e \<in> set (concat bs)" "x = kway_mark getMark dummy e" using x by (auto simp: xs_def)
    have "snd (getMark e) \<noteq> - 1" if "\<not> dummy e"
    proof
      assume "snd (getMark e) = - 1"
      then show False using mk e(1) that unat_minus_1_u8 assms(2) by force
    qed
    then show "snd x = - 1 \<longleftrightarrow> dummy (fst x)" using e dm by (auto simp: km)
    show "mark x < k" if "snd x \<noteq> - 1" using that e mk by (auto simp: km split: if_splits)
  qed
  have sel: "filter (\<lambda>x. \<not> dummy (fst x) \<and> mark x = j) xs = map (kway_mark getMark dummy) (sel j)" for j
    unfolding xs_def sel_def filter_map comp_def using dm by (intro arg_cong [of _ _ "map _"] filter_cong) (auto simp: km)
  have cm: "count_mark j xs = length (sel j)" if "j < 8" for j
  proof -
    have "filter (\<lambda>x. mark x = j) xs = filter (\<lambda>x. \<not> dummy (fst x) \<and> mark x = j) xs"
    proof (intro filter_cong refl)
      fix x assume "x \<in> set xs"
      then have "mark x = 255" if "dummy (fst x)" using m1(1) that unat_minus_1_u8 by metis
      then show "mark x = j \<longleftrightarrow> \<not> dummy (fst x) \<and> mark x = j" using \<open>j < 8\<close> by auto
    qed
    then show ?thesis unfolding sel by simp
  qed
  have Zb: "Z < 2 ^ 31" "length xs < 2 ^ 31" "0 < Z" using assms(1,5) len by (auto simp: Z_def intro: le_less_trans [of _ "k * 2 ^ m"])
  have none8: "(\<exists>j<8. Z \<le> count_mark j xs) \<longleftrightarrow> (\<exists>j<k. Z \<le> length (sel j))"
  proof -
    have "sel j = []" if "k \<le> j" for j using mk that unfolding sel_def filter_empty_conv by (metis not_le)
    then have "\<not> Z \<le> length (sel j)" if "k \<le> j" for j using that Zb(3) by simp
    then have "Z \<le> count_mark j xs \<longleftrightarrow> j < k \<and> Z \<le> length (sel j)" if "j < 8" for j
      using cm [OF that] by (cases "j < k") auto
    then have "(\<exists>j<8. Z \<le> count_mark j xs) \<longleftrightarrow> (\<exists>j<8. j < k \<and> Z \<le> length (sel j))" by blast
    also have "\<dots> \<longleftrightarrow> (\<exists>j<k. Z \<le> length (sel j))" using assms(2) by (meson less_le_trans)
    finally show ?thesis .
  qed
  have abort: "mm256_contain_le_zero vec \<longleftrightarrow> (\<exists>j<k. Z \<le> length (sel j))"
    unfolding vec_def contain_le_zero_iff [OF Zb(2,1)] none8 ..
  define ys where "ys = fill_dummies vec 0 (vec ! 0) xs"
  have run: "merge_split_many getMark dummy k Z bs = (if mm256_contain_le_zero vec then None
      else case Interleave k ys of None \<Rightarrow> None | Some temp \<Rightarrow> Some (map (\<lambda>j. map (\<lambda>i. fst (temp ! (i * k + j))) [0..<Z]) [0..<k]))"
    unfolding merge_split_many_def Let_def xs_def [symmetric] vec_def [symmetric] ys_def mm256_extract_epi32_var_indx_def by simp
  have fine: "\<exists>temp. Interleave k ys = Some temp \<and> (\<forall>j<k. length (map (\<lambda>i. fst (temp ! (i * k + j))) [0..<Z]) = Z
      \<and> mset (filter (\<lambda>e. \<not> dummy e) (map (\<lambda>i. fst (temp ! (i * k + j))) [0..<Z])) = mset (map (\<lambda>e. fst (getMark e)) (sel j)))"
    if "\<not> mm256_contain_le_zero vec"
  proof -
    have small: "count_mark w xs < Z" if "w < 8" for w
      using that \<open>\<not> mm256_contain_le_zero vec\<close> contain_le_zero_iff [OF Zb(2,1)] by (metis vec_def not_less)
    have vec: "unat (vec ! w) = Z - count_mark w xs" if "w < 8" for w
    proof -
      have "vec ! w = of_nat (Z - count_mark w xs)"
        using small [OF that] unfolding vec_def nth_remain(1) [OF that] by (simp add: of_nat_diff)
      moreover have "Z - count_mark w xs < 2 ^ 32" using Zb(1) by simp
      ultimately show ?thesis by (simp add: unat_of_nat)
    qed
    have nz: "\<forall>i<8. vec ! i \<noteq> 0"
    proof (intro allI impI)
      fix i :: nat assume "i < 8"
      then have "0 < unat (vec ! i)" using vec [of i] small [of i] by linarith
      then show "vec ! i \<noteq> 0" by auto
    qed
    have total: "length (filter (\<lambda>x. snd x = - 1) xs) = dummies_left vec k 0 (vec ! 0)"
    proof -
      have "k * Z = length (filter (\<lambda>x. snd x = - 1) xs) + (\<Sum>w<k. count_mark w xs)"
        using marks_total [of xs k] m1(2) assms(2) len by simp
      moreover have "(\<Sum>w<k. unat (vec ! w)) + (\<Sum>w<k. count_mark w xs) = (\<Sum>w<k. Z)"
        unfolding sum.distrib [symmetric] using vec small assms(2) by (intro sum.cong) (auto simp: less_imp_le)
      moreover have "{..<k} = insert 0 {0<..<k}" using assms(1) by auto
      ultimately show ?thesis using assms(1) by (simp add: dummies_left_def)
    qed
    have nz0: "vec ! 0 \<noteq> 0" using nz by simp
    have "\<forall>x\<in>set xs. snd x \<noteq> - 1 \<longrightarrow> mark x < k" using m1(2) by blast
    note f = fill_dummies_spec [OF nz assms(2) le0 nz0 total this, folded ys_def]
    have ly: "length ys = k * 2 ^ m" using list_all2_lengthD [OF conjunct1 [OF f]] len by (simp add: Z_def)
    have cy: "count_mark w ys = 2 ^ m" if "w < k" for w
    proof -
      have "count_mark w ys = count_mark w xs + unat (vec ! w)" using f that by auto
      then show ?thesis using vec [of w] small [of w] that assms(2) by (simp add: Z_def)
    qed
    from Interleave_spec [OF ly assms(1,2) _ cy] f obtain temp where t: "Interleave k ys = Some temp" "mset temp = mset ys"
      "map mark temp = concat (replicate Z [0..<k])" by (auto simp: Z_def)
    have "mset (filter (\<lambda>e. \<not> dummy e) (map (\<lambda>i. fst (temp ! (i * k + j))) [0..<Z])) = mset (map (\<lambda>e. fst (getMark e)) (sel j))"
      if "j < k" for j
    proof -
      have "map (\<lambda>i. fst (temp ! (i * k + j))) [0..<Z] = map fst (filter (\<lambda>x. mark x = j) temp)"
        unfolding periodic_filter [OF t(3) that] by simp
      then have "mset (filter (\<lambda>e. \<not> dummy e) (map (\<lambda>i. fst (temp ! (i * k + j))) [0..<Z]))
          = mset (map fst (filter (\<lambda>x. \<not> dummy (fst x) \<and> mark x = j) temp))"
        by (simp add: filter_map comp_def conj_commute)
      also have "\<dots> = mset (map fst (filter (\<lambda>x. \<not> dummy (fst x) \<and> mark x = j) ys))"
        unfolding mset_map mset_filter t(2) ..
      also have "filter (\<lambda>x. \<not> dummy (fst x) \<and> mark x = j) ys = map (kway_mark getMark dummy) (sel j)"
        unfolding sel [symmetric] using f m1(1) by (intro all2_filter) auto
      finally show ?thesis by (simp add: km comp_def)
    qed
    then show ?thesis using t(1) by auto
  qed
  show "merge_split_many getMark dummy k (2 ^ m) bs = None \<longleftrightarrow> (\<exists>j<k. 2 ^ m \<le> length (sel j))"
    using run fine abort unfolding Z_def by auto
  show "length bs' = k \<and> (\<forall>b\<in>set bs'. length b = 2 ^ m)
      \<and> (\<forall>j<k. mset (filter (\<lambda>e. \<not> dummy e) (bs' ! j)) = mset (map (\<lambda>e. fst (getMark e)) (sel j)))"
    if "merge_split_many getMark dummy k (2 ^ m) bs = Some bs'"
    using run fine that unfolding Z_def by (auto split: if_splits)
qed

subsection \<open>Tagged elements\<close>

text \<open>The reals of the buckets that go to way \<open>j\<close>, and what happens to them.\<close>

definition route :: "nat \<Rightarrow> nat \<Rightarrow> 'a TaggedT list list \<Rightarrow> 'a TaggedT list" where
  "route k j bs = filter (\<lambda>e. \<not> isDummy e \<and> unat (tag e) mod k = j) (concat bs)"

definition next_tag :: "nat \<Rightarrow> 'a TaggedT \<Rightarrow> 'a TaggedT" where
  "next_tag k e = e\<lparr>tag := tag e div of_nat k\<rparr>"

lemma isDummy_iff: "isDummy e \<longleftrightarrow> bit (tag e) 63"
proof
  assume "isDummy e"
  then obtain n where "bit (drop_bit 63 (tag e)) n" unfolding isDummy_def by (metis bit_eqI bit_0_eq bot_apply bot_bool_def)
  then have "bit (tag e) (63 + n)" by (simp add: bit_drop_bit_eq)
  moreover from this have "63 + n < 64" using bit_imp_le_length by fastforce
  ultimately show "bit (tag e) 63" by (cases n) auto
next
  assume "bit (tag e) 63"
  then have "bit (drop_bit 63 (tag e)) 0" by (simp add: bit_drop_bit_eq)
  then show "isDummy e" by (auto simp: isDummy_def)
qed

lemma low_tag:
  shows "0x7fffffffffffffff = (mask 63 :: u64)" "0x8000000000000000 = (2 ^ 63 :: u64)"
  by (simp_all add: mask_eq_exp_minus_1)

lemma real_tag:
  assumes "\<not> isDummy e"
  shows "tag e AND 0x7fffffffffffffff = tag e" "tag e AND 0x8000000000000000 = 0" "unat (tag e) < 2 ^ 63"
proof -
  have b: "\<not> bit (tag e) i" if "63 \<le> i" for i
    using that assms isDummy_iff [of e] bit_word_beyond [of i "tag e"] by (cases "i = 63") auto
  show "tag e AND 0x7fffffffffffffff = tag e" unfolding low_tag
    using b by (intro bit_word_eqI) (auto simp: bit_simps not_le intro: leI)
  then have "tag e = take_bit 63 (tag e)" unfolding low_tag by (simp add: take_bit_eq_mask)
  then show "unat (tag e) < 2 ^ 63" by (metis take_bit_nat_less_exp unsigned_take_bit_eq)
  show "tag e AND 0x8000000000000000 = 0" unfolding low_tag
    and_exp_eq_0_iff_not_bit using b [of 63] by simp
qed

lemma getMark_dummy:
  assumes "2 \<le> k" "k < 2 ^ 63"
  shows "isDummy (fst (getMarkAndUpdate (of_nat k) e)) = isDummy e"
proof -
  define r where "r = tag e AND 0x7fffffffffffffff"
  have "unat r < 2 ^ 63"
    unfolding r_def low_tag take_bit_eq_mask [symmetric] unsigned_take_bit_eq by (rule take_bit_nat_less_exp)
  then have "unat (r div of_nat k) < 2 ^ 63"
    unfolding unat_div by (rule le_less_trans [OF div_le_dividend])
  then have "\<not> bit (unat (r div of_nat k)) 63" unfolding bit_iff_odd by (simp only: div_less) simp
  then have "\<not> bit (r div of_nat k) 63" by (simp add: bit_unsigned_iff)
  moreover have "tag (fst (getMarkAndUpdate (of_nat k) e)) = (tag e AND 2 ^ 63) OR (r div of_nat k)"
    unfolding getMarkAndUpdate_def Let_def r_def low_tag by simp
  ultimately show ?thesis unfolding isDummy_iff by (simp only: bit_or_iff bit_and_iff bit_exp_iff) simp
qed

lemma getMark_real:
  assumes "\<not> isDummy e" "2 \<le> k" "k \<le> 8"
  shows "fst (getMarkAndUpdate (of_nat k) e) = next_tag k e" "unat (snd (getMarkAndUpdate (of_nat k) e)) = unat (tag e) mod k"
proof -
  have k: "unat (of_nat k :: u64) = k" using assms(3) by (simp add: unat_of_nat)
  show "fst (getMarkAndUpdate (of_nat k) e) = next_tag k e"
    unfolding getMarkAndUpdate_def Let_def real_tag [OF assms(1)] by (simp add: next_tag_def)
  have "unat (tag e mod of_nat k) = unat (tag e) mod k" unfolding unat_mod k ..
  moreover have "unat (tag e) mod k < 256" using assms by (intro less_trans [OF mod_less_divisor [of k]]) auto
  ultimately show "unat (snd (getMarkAndUpdate (of_nat k) e)) = unat (tag e) mod k"
    unfolding getMarkAndUpdate_def Let_def real_tag [OF assms(1)] by (simp add: unsigned_ucast_eq take_bit_nat_eq_self)
qed

lemma shift_tag_real:
  assumes "\<not> isDummy e"
  shows "shift_tag e = next_tag 2 e"
proof -
  have "signed_drop_bit 1 (tag e) = drop_bit 1 (tag e)"
    using assms bit_word_beyond [of _ "tag e"] unfolding isDummy_iff
    by (intro bit_word_eqI) (auto simp: bit_simps bit_signed_drop_bit_iff)
  then show ?thesis by (simp add: shift_tag_def next_tag_def drop_bit_eq_div)
qed

lemma shift_tag_dummy: "isDummy (shift_tag e) = isDummy e"
  unfolding isDummy_iff shift_tag_def by (simp add: bit_signed_drop_bit_iff)

lemma marked_iff: "mc_isMarked tagged_class 1 e \<longleftrightarrow> unat (tag e) mod 2 = 0"
proof -
  have "tag e AND 1 = 0 \<longleftrightarrow> even (tag e)" by (simp add: and_one_eq even_iff_mod_2_eq_zero)
  also have "\<dots> \<longleftrightarrow> even (unat (tag e))" using bit_unsigned_iff [of "tag e" 0] by (metis bit_0 possible_bit_0 possible_bit_nat)
  finally show ?thesis by (simp add: tagged_class_def isMarked_def even_iff_mod_2_eq_zero)
qed

lemma two_way_overflow:
  assumes "length l = Z" "length r = Z"
  shows "tagged.reserve Z (l @ r) < tagged.surplus Z (l @ r) \<longleftrightarrow> (\<exists>j<2. Z < length (route 2 j [l, r]))"
proof -
  have c: "mc_isDummy tagged_class = (isDummy :: 'a TaggedT \<Rightarrow> bool)"
    "map (\<lambda>x. fst (mc_setAndGetMarked tagged_class 1 x)) (l @ r) = l @ r"
    by (simp_all add: tagged_class_def setAndGetMarked_def)
  have len: "length (l @ r) = 2 * Z" using assms by simp
  have "route 2 0 [l, r] = filter (\<lambda>e. \<not> isDummy e \<and> unat (tag e) mod 2 = 0) (l @ r)"
    "route 2 1 [l, r] = filter (\<lambda>e. \<not> isDummy e \<and> unat (tag e) mod 2 \<noteq> 0) (l @ r)" by (simp_all add: route_def)
  then show ?thesis
    using tagged.overflow_iff [OF len, unfolded c marked_iff]
    by (simp add: less_2_cases_iff ex_disj_distrib conj_disj_distribR)
qed

lemma two_way_spec:
  assumes "length l = 2 ^ m" "length r = 2 ^ m" "0 < m" "2 * 2 ^ m < (2 :: nat) ^ 31"
  shows "MergeSplitKWay 2 (2 ^ m) [l, r] = None \<longleftrightarrow> (\<exists>j<2. 2 ^ m < length (route 2 j [l, r]))"
    "MergeSplitKWay 2 (2 ^ m) [l, r] = Some bs' \<Longrightarrow> length bs' = 2 \<and> (\<forall>b\<in>set bs'. length b = 2 ^ m)
      \<and> (\<forall>j<2. mset (filter (\<lambda>e. \<not> isDummy e) (bs' ! j)) = mset (map (next_tag 2) (route 2 j [l, r])))"
proof -
  have Z: "even ((2 :: nat) ^ m)" "(0 :: nat) < 2 ^ m" "2 * 2 ^ m \<le> (2 :: nat) ^ 63" using assms(3,4) by auto
  have "INTERLEAVE_PARTITION = OR_COMPACT \<longrightarrow> 2 * 2 ^ m < (2 :: nat) ^ 32 - 1" by simp
  note t = tagged.MergeSplitTwoWay_spec [OF assms(1,2) Z this]
  show "MergeSplitKWay 2 (2 ^ m) [l, r] = None \<longleftrightarrow> (\<exists>j<2. 2 ^ m < length (route 2 j [l, r]))"
    using t(1) two_way_overflow [OF assms(1,2)] by (auto simp: MergeSplitKWay_def split: option.split)
  assume "MergeSplitKWay 2 (2 ^ m) [l, r] = Some bs'"
  then obtain l' r' where m: "MergeSplitTwoWay tagged_class INTERLEAVE_PARTITION 1 l r = Some (l', r')"
    and b: "bs' = [map shift_tag l', map shift_tag r']"
    by (auto simp: MergeSplitKWay_def split: option.splits)
  have id: "map (\<lambda>x. fst (mc_setAndGetMarked tagged_class 1 x)) xs = xs" for xs :: "'a TaggedT list"
    by (simp add: tagged_class_def setAndGetMarked_def)
  have d: "mc_isDummy tagged_class e = isDummy e" for e :: "'a TaggedT" by (simp add: tagged_class_def)
  note s = t(2) [OF m, unfolded d id marked_iff]
  have reals: "mset (filter (\<lambda>e. \<not> isDummy e) (map shift_tag xs)) = mset (map (next_tag 2) (filter (\<lambda>e. \<not> isDummy e) xs))"
    for xs :: "'a TaggedT list"
    by (induction xs) (simp_all add: shift_tag_dummy shift_tag_real)
  have l': "filter (\<lambda>e. \<not> isDummy e \<and> unat (tag e) mod 2 = j) (l' @ r') = filter (\<lambda>e. \<not> isDummy e) ([l', r'] ! j)" if "j < 2" for j
  proof -
    have "filter (\<lambda>e. \<not> isDummy e \<and> unat (tag e) mod 2 = j) l' = (if j = 0 then filter (\<lambda>e. \<not> isDummy e) l' else [])"
      "filter (\<lambda>e. \<not> isDummy e \<and> unat (tag e) mod 2 = j) r' = (if j = 0 then [] else filter (\<lambda>e. \<not> isDummy e) r')"
      using s that by (auto simp: filter_empty_conv less_2_cases_iff intro!: filter_cong)
    then show ?thesis using that by (auto simp: less_2_cases_iff)
  qed
  have "mset (filter (\<lambda>e. \<not> isDummy e) ([l', r'] ! j)) = mset (route 2 j [l, r])" if "j < 2" for j
  proof -
    have "mset (filter (\<lambda>e. \<not> isDummy e \<and> unat (tag e) mod 2 = j) (l' @ r'))
        = filter_mset (\<lambda>e. unat (tag e) mod 2 = j) (mset (filter (\<lambda>e. \<not> isDummy e) (l' @ r')))"
      by (simp add: conj_commute flip: mset_filter)
    also have "\<dots> = filter_mset (\<lambda>e. unat (tag e) mod 2 = j) (mset (filter (\<lambda>e. \<not> isDummy e) (l @ r)))" using s by simp
    also have "\<dots> = mset (route 2 j [l, r])" by (simp add: route_def conj_commute flip: mset_filter)
    finally show ?thesis unfolding l' [OF that] .
  qed
  then have "mset (filter (\<lambda>e. \<not> isDummy e) (bs' ! j)) = mset (map (next_tag 2) (route 2 j [l, r]))" if "j < 2" for j
    using that reals [of "[l', r'] ! j"] unfolding mset_map b by (auto simp: less_2_cases_iff)
  then show "length bs' = 2 \<and> (\<forall>b\<in>set bs'. length b = 2 ^ m)
      \<and> (\<forall>j<2. mset (filter (\<lambda>e. \<not> isDummy e) (bs' ! j)) = mset (map (next_tag 2) (route 2 j [l, r])))"
    using s by (simp add: b)
qed

lemma many_way_spec:
  assumes "3 \<le> k" "k \<le> 8" "length bs = k" "\<forall>b\<in>set bs. length b = 2 ^ m" "k * 2 ^ m < 2 ^ 31"
  shows "MergeSplitKWay k (2 ^ m) bs = None \<longleftrightarrow> (\<exists>j<k. 2 ^ m \<le> length (route k j bs))"
    "MergeSplitKWay k (2 ^ m) bs = Some bs' \<Longrightarrow> length bs' = k \<and> (\<forall>b\<in>set bs'. length b = 2 ^ m)
      \<and> (\<forall>j<k. mset (filter (\<lambda>e. \<not> isDummy e) (bs' ! j)) = mset (map (next_tag k) (route k j bs)))"
proof -
  have k: "2 \<le> k" "k < 2 ^ 63" using assms(1,2) by simp_all
  have mk: "\<forall>e\<in>set (concat bs). \<not> isDummy e \<longrightarrow> unat (snd (getMarkAndUpdate (of_nat k) e)) < k"
    using getMark_real(2) [OF _ k(1) assms(2)] mod_less_divisor [of k] assms(1) by force
  have dm: "\<forall>e\<in>set (concat bs). isDummy (fst (getMarkAndUpdate (of_nat k) e)) = isDummy e"
    using getMark_dummy [OF k] by blast
  have r: "filter (\<lambda>e. \<not> isDummy e \<and> unat (snd (getMarkAndUpdate (of_nat k) e)) = j) (concat bs) = route k j bs" for j
    unfolding route_def using getMark_real(2) [OF _ k(1) assms(2)] by (intro filter_cong) auto
  have g: "map (\<lambda>e. fst (getMarkAndUpdate (of_nat k) e)) (route k j bs) = map (next_tag k) (route k j bs)" for j
    using getMark_real(1) [OF _ k(1) assms(2)] by (auto simp: route_def)
  have e: "MergeSplitKWay k (2 ^ m) bs = merge_split_many (getMarkAndUpdate (of_nat k)) isDummy k (2 ^ m) bs"
    using assms(1) by (simp add: MergeSplitKWay_def)
  note s = merge_split_many_spec [OF assms mk dm, unfolded r g]
  show "MergeSplitKWay k (2 ^ m) bs = None \<longleftrightarrow> (\<exists>j<k. 2 ^ m \<le> length (route k j bs))" unfolding e by (rule s(1))
  show "length bs' = k \<and> (\<forall>b\<in>set bs'. length b = 2 ^ m)
      \<and> (\<forall>j<k. mset (filter (\<lambda>e. \<not> isDummy e) (bs' ! j)) = mset (map (next_tag k) (route k j bs)))"
    if "MergeSplitKWay k (2 ^ m) bs = Some bs'" using that unfolding e by (rule s(2))
qed

lemma MergeSplitKWay_spec:
  assumes "2 \<le> k" "k \<le> 8" "length bs = k" "\<forall>b\<in>set bs. length b = 2 ^ m" "0 < m" "k * 2 ^ m < 2 ^ 31"
  shows "MergeSplitKWay k (2 ^ m) bs = None \<longleftrightarrow> (\<exists>j<k. 2 ^ m + of_bool (k = 2) \<le> length (route k j bs))"
    "MergeSplitKWay k (2 ^ m) bs = Some bs' \<Longrightarrow> length bs' = k \<and> (\<forall>b\<in>set bs'. length b = 2 ^ m)
      \<and> (\<forall>j<k. mset (filter (\<lambda>e. \<not> isDummy e) (bs' ! j)) = mset (map (next_tag k) (route k j bs)))"
proof -
  have *: "(MergeSplitKWay k (2 ^ m) bs = None \<longleftrightarrow> (\<exists>j<k. 2 ^ m + of_bool (k = 2) \<le> length (route k j bs)))
    \<and> (\<forall>bs'. MergeSplitKWay k (2 ^ m) bs = Some bs' \<longrightarrow> length bs' = k \<and> (\<forall>b\<in>set bs'. length b = 2 ^ m)
      \<and> (\<forall>j<k. mset (filter (\<lambda>e. \<not> isDummy e) (bs' ! j)) = mset (map (next_tag k) (route k j bs))))"
  proof (cases "k = 2")
    case True
    then obtain l r where lr: "bs = [l, r]" using assms(3) by (auto simp: numeral_2_eq_2 length_Suc_conv)
    have "length l = 2 ^ m" "length r = 2 ^ m" "2 * 2 ^ m < (2 :: nat) ^ 31" using assms(4,6) True by (simp_all add: lr)
    from two_way_spec [OF this(1,2) assms(5) this(3)] show ?thesis unfolding True lr by (simp add: Suc_le_eq)
  next
    case False
    then have "3 \<le> k" using assms(1) by simp
    from many_way_spec [OF this assms(2,3,4,6)] False show ?thesis by simp
  qed
  then show "MergeSplitKWay k (2 ^ m) bs = None \<longleftrightarrow> (\<exists>j<k. 2 ^ m + of_bool (k = 2) \<le> length (route k j bs))" by blast
  show "length bs' = k \<and> (\<forall>b\<in>set bs'. length b = 2 ^ m)
      \<and> (\<forall>j<k. mset (filter (\<lambda>e. \<not> isDummy e) (bs' ! j)) = mset (map (next_tag k) (route k j bs)))"
    if "MergeSplitKWay k (2 ^ m) bs = Some bs'" using * that by blast
qed

section \<open>Properties\<close>

text \<open>(C3) The multi-way merge-split of \<open>k\<close> buckets of \<open>2 ^ m\<close> tagged elements aborts exactly when the
  real elements of one way do not fit: for more than two ways the code requires a free place in
  every bucket, for two ways a full bucket is fine.  Otherwise every bucket keeps its size and bucket
  \<open>j\<close> receives exactly the real elements whose tag is \<open>j\<close> modulo \<open>k\<close>, with their tags divided by \<open>k\<close> for
  the next layer of the network.\<close>

theorem MergeSplitKWay_routes:
  assumes "2 \<le> k" "k \<le> 8" "length bs = k" "\<forall>b\<in>set bs. length b = 2 ^ m" "0 < m" "k * 2 ^ m < 2 ^ 31"
  shows "case MergeSplitKWay k (2 ^ m) bs of
      None \<Rightarrow> \<exists>j<k. 2 ^ m + of_bool (k = 2) \<le> length (route k j bs)
    | Some bs' \<Rightarrow> (\<forall>j<k. length (route k j bs) < 2 ^ m + of_bool (k = 2)) \<and> length bs' = k \<and> (\<forall>b\<in>set bs'. length b = 2 ^ m)
        \<and> (\<forall>j<k. mset (filter (\<lambda>e. \<not> isDummy e) (bs' ! j)) = mset (map (next_tag k) (route k j bs)))"
  using MergeSplitKWay_spec [OF assms] by (auto simp: not_le split: option.split)

text \<open>Three buckets of two elements, of which three are real.\<close>

definition demo_buckets :: "nat TaggedT list list" where
  "demo_buckets = (let d = \<lparr>tag = 2 ^ 63, v = 0\<rparr>
    in [[\<lparr>tag = 5, v = 10\<rparr>, d], [\<lparr>tag = 7, v = 11\<rparr>, d], [d, \<lparr>tag = 3, v = 12\<rparr>]])"

theorem MergeSplitKWay_routes_witness:
  "map length demo_buckets = [2, 2, 2]
    \<and> (\<exists>bs. MergeSplitKWay 3 (2 ^ 1) demo_buckets = Some bs \<and> filter (\<lambda>e. \<not> isDummy e) (bs ! 1) = [\<lparr>tag = 2, v = 11\<rparr>])"
proof -
  have d: "length demo_buckets = 3" "\<forall>b\<in>set demo_buckets. length b = 2 ^ 1" by (simp_all add: demo_buckets_def Let_def)
  have r: "route 3 0 demo_buckets = [\<lparr>tag = 3, v = 12\<rparr>]" "route 3 1 demo_buckets = [\<lparr>tag = 7, v = 11\<rparr>]" "route 3 2 demo_buckets = [\<lparr>tag = 5, v = 10\<rparr>]"
    by (simp_all add: route_def demo_buckets_def Let_def isDummy_def)
  have "length (route 3 j demo_buckets) < 2 ^ 1" if "j < 3" for j
  proof -
    have "j = 0 \<or> j = 1 \<or> j = 2" using that by linarith
    then show ?thesis using r by auto
  qed
  then obtain bs where b: "MergeSplitKWay 3 (2 ^ 1) demo_buckets = Some bs" "mset (filter (\<lambda>e. \<not> isDummy e) (bs ! 1)) = mset (map (next_tag 3) (route 3 1 demo_buckets))"
    using MergeSplitKWay_routes [of 3 demo_buckets 1] d by (fastforce split: option.splits)
  have "mset (map (next_tag 3) (route 3 1 demo_buckets)) = {#\<lparr>tag = 2, v = 11\<rparr>#}"
    unfolding r(2) by (simp add: next_tag_def)
  from b(2) [unfolded this mset_single_iff] have "filter (\<lambda>e. \<not> isDummy e) (bs ! 1) = [\<lparr>tag = 2, v = 11\<rparr>]" .
  moreover have "map length demo_buckets = [2, 2, 2]" by (simp add: demo_buckets_def Let_def)
  ultimately show ?thesis using b(1) by blast
qed

end
