(* ===== verification/Butterfly.thy ===== *)
theory Butterfly
  imports Merge_Split_Kway
begin

text \<open>
  The butterfly network of \<open>kway_butterfly_sort.hpp\<close> in memory: elements get random tags and are routed
  through layers of multi-way merge-splits.  Main result (\<open>basic_spec\<close>): the layers bring every real
  element to the bucket given by its tag modulo the number of buckets, unless a block of buckets has
  too many elements for one residue.
\<close>

section \<open>Definitions\<close>

text \<open>All arrays hold a whole number of buckets of \<open>Z\<close> elements and are lists of buckets.  The reader is
  the rest of the input and the number of elements read; the number indexes the draws of the random
  generator.\<close>

type_synonym 'a bucket = "'a TaggedT list"
type_synonym 'a reader = "'a list \<times> nat"

text \<open>A loop whose body may abort.\<close>

fun ofold :: "('s \<Rightarrow> 'b \<Rightarrow> 's option) \<Rightarrow> 's \<Rightarrow> 'b list \<Rightarrow> 's option" where
  "ofold f s [] = Some s"
| "ofold f s (x # xs) = (case f s x of None \<Rightarrow> None | Some s \<Rightarrow> ofold f s xs)"

text \<open>The loop that tags and pads the input.  The dummies keep what the memory held.\<close>

fun pad_bucket :: "(nat \<Rightarrow> u64) \<Rightarrow> nat \<Rightarrow> nat \<Rightarrow> 'a bucket \<Rightarrow> 'a reader \<Rightarrow> 'a bucket \<times> 'a reader" where
  "pad_bucket rnd numReal offset [] rd = ([], rd)"
| "pad_bucket rnd numReal offset (it # its) (rest, n) =
    (let (it, rd) = (if offset < numReal \<and> rest \<noteq> []
                     then (setData (rnd n) (hd rest) it, (tl rest, n + 1))
                     else (setDummy it, (rest, n)));
         (its, rd) = pad_bucket rnd numReal (offset + 1) its rd
     in (it # its, rd))"

fun pad_buckets :: "(nat \<Rightarrow> u64) \<Rightarrow> nat \<Rightarrow> 'a bucket list \<Rightarrow> 'a reader \<Rightarrow> 'a bucket list \<times> 'a reader" where
  "pad_buckets rnd numReal [] rd = ([], rd)"
| "pad_buckets rnd numReal (b # bs) rd =
    (let (b, rd) = pad_bucket rnd numReal 0 b rd; (bs, rd) = pad_buckets rnd numReal bs rd in (b # bs, rd))"

text \<open>One merge-split takes the \<open>j\<close>-th bucket of every way.\<close>

definition merge_column :: "nat \<Rightarrow> nat \<Rightarrow> nat \<Rightarrow> 'a bucket list \<Rightarrow> nat \<Rightarrow> 'a bucket list option" where
  "merge_column way Z wayBucket bs j =
    (case MergeSplitKWay way Z (map (\<lambda>i. bs ! (i * wayBucket + j)) [0..<way]) of
       None \<Rightarrow> None
     | Some cs \<Rightarrow> Some (foldl (\<lambda>bs i. bs[i * wayBucket + j := cs ! i]) bs [0..<way]))"

text \<open>\<open>KWayButterflySortBasic\<close> on the batch \<open>bs\<close>; \<open>ws\<close> are the ways of the layer \<open>ioLayer\<close>.\<close>

fun KWayButterflySortBasic ::
  "(nat \<Rightarrow> u64) \<Rightarrow> nat \<Rightarrow> nat \<Rightarrow> nat list \<Rightarrow> nat \<Rightarrow> nat \<Rightarrow> 'a bucket list \<Rightarrow> 'a reader \<Rightarrow> ('a bucket list \<times> 'a reader) option" where
  "KWayButterflySortBasic rnd numReal Z ws ioLayer 0 bs rd =
    (let way = ws ! 0;
         wayBucket = length bs div way;
         (bs, rd) = (if ioLayer = 0 then pad_buckets rnd numReal bs rd else (bs, rd))
     in case ofold (merge_column way Z wayBucket) bs [0..<wayBucket] of
          None \<Rightarrow> None | Some bs \<Rightarrow> Some (bs, rd))"
| "KWayButterflySortBasic rnd numReal Z ws ioLayer (Suc innerLayer) bs rd =
    (let way = ws ! Suc innerLayer;
         wayBucket = length bs div way
     in case ofold (\<lambda>(out, rd) sub.
              case KWayButterflySortBasic rnd numReal Z ws ioLayer innerLayer sub rd of
                None \<Rightarrow> None | Some (sub, rd) \<Rightarrow> Some (out @ sub, rd)) ([], rd) (chunks wayBucket bs) of
          None \<Rightarrow> None
        | Some (bs, rd) \<Rightarrow> (case ofold (merge_column way Z wayBucket) bs [0..<wayBucket] of
            None \<Rightarrow> None | Some bs \<Rightarrow> Some (bs, rd)))"

section \<open>Loops and arrays\<close>

lemma ofold_append: "ofold f s (xs @ ys) = (case ofold f s xs of None \<Rightarrow> None | Some s \<Rightarrow> ofold f s ys)"
  by (induction xs arbitrary: s) (auto split: option.split)

lemma length_updates [simp]: "length (foldl (\<lambda>bs i. bs[pos i := f i]) bs is) = length bs"
  by (induction "is" arbitrary: bs) simp_all

lemma nth_updates:
  assumes "inj_on pos {..<n}" "q < length bs"
  shows "foldl (\<lambda>bs i. bs[pos i := f i]) bs [0..<n] ! q = (if q \<in> pos ` {..<n} then f (THE i. i < n \<and> pos i = q) else bs ! q)"
  using assms(1)
proof (induction n)
  case (Suc n)
  have inj: "inj_on pos {..<n}" using Suc.prems by (rule inj_on_subset) auto
  have the: "(THE i. i < Suc n \<and> pos i = pos m) = m" if "m < Suc n" for m
    using that Suc.prems by (intro the_equality) (auto dest: inj_onD)
  have the': "(THE i. i < n \<and> pos i = pos m) = m" if "m < n" for m
    using that inj by (intro the_equality) (auto dest: inj_onD)
  show ?case
  proof (cases "q = pos n")
    case True
    then show ?thesis using assms(2) the [of n] by simp
  next
    case False
    then show ?thesis using Suc.IH [OF inj] assms(2) the the' by (auto simp: lessThan_Suc)
  qed
qed simp

lemma updates_at:
  assumes "inj_on pos {..<n}" "i < n" "pos i < length bs"
  shows "foldl (\<lambda>bs i. bs[pos i := f i]) bs [0..<n] ! pos i = f i"
proof -
  have "(THE l. l < n \<and> pos l = pos i) = i" using assms by (intro the_equality) (auto dest: inj_onD)
  then show ?thesis using nth_updates [OF assms(1,3)] assms(2) by auto
qed

lemma updates_other:
  assumes "q \<notin> pos ` {..<n}"
  shows "foldl (\<lambda>bs i. bs[pos i := f i]) bs [0..<n] ! q = bs ! q"
  using assms by (induction n) (auto simp: lessThan_Suc)

lemma grid_index:
  fixes i j W :: nat
  assumes "i < k" "j < W"
  shows "i * W + j < k * W" "(i * W + j) div W = i" "(i * W + j) mod W = j"
proof -
  have "i * W + j < Suc i * W" using assms(2) by simp
  also have "\<dots> \<le> k * W" using assms(1) by (intro mult_le_mono1) simp
  finally show "i * W + j < k * W" .
qed (use assms in simp_all)

lemma grid_inj:
  fixes W :: nat
  assumes "j < W" "j' < W"
  shows "i * W + j = i' * W + j' \<longleftrightarrow> i = i' \<and> j = j'"
proof
  assume "i * W + j = i' * W + j'"
  then have "(i * W + j) div W = (i' * W + j') div W" "(i * W + j) mod W = (i' * W + j') mod W" by simp_all
  then show "i = i' \<and> j = j'" using assms by simp
qed simp

definition column :: "nat \<Rightarrow> nat \<Rightarrow> 'b list \<Rightarrow> nat \<Rightarrow> 'b list" where
  "column way wayBucket bs j = map (\<lambda>i. bs ! (i * wayBucket + j)) [0..<way]"

lemma merge_columns:
  assumes "length bs = k * W" "n \<le> W"
  shows "case ofold (merge_column k Z W) bs [0..<n] of
      None \<Rightarrow> \<exists>j<n. MergeSplitKWay k Z (column k W bs j) = None
    | Some bs' \<Rightarrow> length bs' = k * W \<and> (\<forall>i<k. \<forall>j<W. bs' ! (i * W + j) =
          (if j < n then the (MergeSplitKWay k Z (column k W bs j)) ! i else bs ! (i * W + j)))
        \<and> (\<forall>j<n. MergeSplitKWay k Z (column k W bs j) \<noteq> None)"
  using assms(2)
proof (induction n)
  case (Suc n)
  have n: "n < W" using Suc.prems by simp
  show ?case
  proof (cases "ofold (merge_column k Z W) bs [0..<n]")
    case None
    then have "ofold (merge_column k Z W) bs [0..<Suc n] = None" by (simp add: ofold_append)
    then show ?thesis using Suc.IH None n by (auto intro: less_SucI)
  next
    case (Some bs1)
    note ih = Suc.IH [unfolded Some option.case, OF less_imp_le [OF n]]
    have "map (\<lambda>i. bs1 ! (i * W + n)) [0..<k] = column k W bs n" using ih n by (simp add: column_def)
    then have step: "ofold (merge_column k Z W) bs [0..<Suc n] = (case MergeSplitKWay k Z (column k W bs n) of None \<Rightarrow> None
        | Some cs \<Rightarrow> Some (foldl (\<lambda>bs i. bs[i * W + n := cs ! i]) bs1 [0..<k]))"
      using Some by (simp add: ofold_append merge_column_def split: option.split)
    show ?thesis
    proof (cases "MergeSplitKWay k Z (column k W bs n)")
      case None
      then show ?thesis unfolding step by auto
    next
      case cs: (Some cs)
      define bs' where "bs' = foldl (\<lambda>bs i. bs[i * W + n := cs ! i]) bs1 [0..<k]"
      have inj: "inj_on (\<lambda>i. i * W + n) {..<k}" using n by (auto simp: inj_on_def)
      have "bs' ! (i * W + j) = (if j < Suc n then the (MergeSplitKWay k Z (column k W bs j)) ! i else bs ! (i * W + j))"
        if "i < k" "j < W" for i j
      proof (cases "j = n")
        case True
        then show ?thesis
          using updates_at [OF inj that(1), of bs1 "(!) cs"] grid_index(1) [OF that(1) n] ih cs by (simp add: bs'_def)
      next
        case False
        then have "i * W + j \<notin> (\<lambda>i. i * W + n) ` {..<k}" using grid_inj [OF that(2) n] by auto
        then have "bs' ! (i * W + j) = bs1 ! (i * W + j)" unfolding bs'_def by (rule updates_other)
        then show ?thesis using ih that False by auto
      qed
      moreover have "length bs' = k * W" using ih by (simp add: bs'_def)
      ultimately show ?thesis unfolding step cs option.case bs'_def [symmetric] using ih cs by (auto simp: less_Suc_eq)
    qed
  qed
qed (use assms(1) in simp)

section \<open>Routing\<close>

abbreviation reals :: "'a bucket \<Rightarrow> 'a bucket" where
  "reals \<equiv> filter (\<lambda>e. \<not> isDummy e)"

definition class_of :: "nat \<Rightarrow> nat \<Rightarrow> 'a TaggedT multiset \<Rightarrow> 'a TaggedT multiset" where
  "class_of W j M = filter_mset (\<lambda>e. unat (tag e) mod W = j) M"

text \<open>The buckets \<open>bs\<close> hold the elements \<open>M\<close> by their tags modulo the number \<open>W\<close> of buckets, with the tags
  divided by \<open>W\<close>.\<close>

definition routed :: "nat \<Rightarrow> nat \<Rightarrow> 'a TaggedT multiset \<Rightarrow> 'a bucket list \<Rightarrow> bool" where
  "routed Z W M bs \<longleftrightarrow> length bs = W \<and> (\<forall>b\<in>set bs. length b = Z)
    \<and> (\<forall>j<W. mset (reals (bs ! j)) = image_mset (next_tag W) (class_of W j M))"

lemma class_of_union [simp]: "class_of W j (M + N) = class_of W j M + class_of W j N"
  by (simp add: class_of_def)

lemma class_of_sum: "class_of W j (\<Sum>i<k. f i) = (\<Sum>i<(k::nat). class_of W j (f i))"
  by (induction k) (simp_all add: class_of_def)

lemma next_tag_1 [simp]: "next_tag (Suc 0) = (\<lambda>e. e)"
  by (simp add: fun_eq_iff next_tag_def word_div_def)

lemma unat_tag_div:
  assumes "W < 2 ^ 64"
  shows "unat (tag e div of_nat W) = unat (tag e) div W"
  unfolding unat_div using assms by (simp add: unat_of_nat)

lemma factor_bounds:
  assumes "k * W < (B :: nat)" "0 < k" "0 < W"
  shows "k < B" "W < B"
proof -
  have "k * 1 \<le> k * W" "1 * W \<le> k * W" using assms(2,3) by (intro mult_le_mono; simp)+
  then show "k < B" "W < B" using assms(1) by linarith+
qed

lemma next_tag_mult:
  assumes "k * W < 2 ^ 64" "0 < k" "0 < W"
  shows "next_tag k (next_tag W e) = next_tag (k * W) e"
proof -
  note b = factor_bounds [OF assms]
  have "unat (tag e div of_nat W div of_nat k) = unat (tag e) div W div k"
    unfolding unat_div using b by (simp add: unat_of_nat)
  also have "\<dots> = unat (tag e) div (k * W)" by (simp add: div_mult2_eq mult.commute)
  also have "\<dots> = unat (tag e div of_nat (k * W))" using unat_tag_div [OF assms(1), of e] by simp
  finally have "tag e div of_nat W div of_nat k = tag e div of_nat (k * W)" by (simp only: word_unat_eq_iff)
  then show ?thesis by (simp add: next_tag_def)
qed

lemma next_tag_real: "W < 2 ^ 64 \<Longrightarrow> \<not> isDummy e \<Longrightarrow> \<not> isDummy (next_tag W e)"
proof -
  assume W: "W < 2 ^ 64" and e: "\<not> isDummy e"
  have "unat (tag e) div W < 2 ^ 63" using real_tag(3) [OF e] by (rule le_less_trans [OF div_le_dividend])
  then have "\<not> bit (unat (tag (next_tag W e))) 63"
    unfolding bit_iff_odd next_tag_def using unat_tag_div [OF W, of e] by simp
  then show "\<not> isDummy (next_tag W e)" by (simp add: isDummy_iff bit_unsigned_iff)
qed

lemma digit_iff:
  fixes t :: nat
  assumes "i < k" "j < W"
  shows "t mod (k * W) = i * W + j \<longleftrightarrow> t mod W = j \<and> t div W mod k = i"
proof -
  have "t mod (W * k) = W * (t div W mod k) + t mod W" by (rule mod_mult2_eq)
  then have "t mod (k * W) = t div W mod k * W + t mod W" by (simp add: mult.commute)
  then show ?thesis using grid_inj [of "t mod W" W j "t div W mod k" i] assms(2) by auto
qed

text \<open>Two layers of routing compose.\<close>

lemma class_of_next:
  assumes "i < k" "j < W" "k * W < 2 ^ 64"
  shows "class_of k i (image_mset (next_tag W) (class_of W j M)) = image_mset (next_tag W) (class_of (k * W) (i * W + j) M)"
proof -
  have W: "W < 2 ^ 64" by (rule factor_bounds(2) [OF assms(3)]) (use assms(1,2) in linarith)+
  have t: "unat (tag (next_tag W e)) = unat (tag e) div W" for e :: "'a TaggedT"
    using unat_tag_div [OF W, of e] by (simp add: next_tag_def)
  show ?thesis
    unfolding class_of_def filter_mset_image_mset filter_filter_mset t digit_iff [OF assms(1,2)] ..
qed

lemma mset_concat_map: "mset (concat (map f [0..<k])) = (\<Sum>i<(k::nat). mset (f i))"
  by (induction k) simp_all

lemma image_mset_sum: "image_mset g (\<Sum>i<(k::nat). f i) = (\<Sum>i<k. image_mset g (f i))"
  by (induction k) simp_all

lemma reals_concat: "reals (concat bs) = concat (map reals bs)"
  by (induction bs) simp_all

text \<open>The reals of a column.\<close>

lemma column_reals:
  assumes "\<And>i. i < k \<Longrightarrow> routed Z W (M i) (take W (drop (i * W) bs))" "j < W" "length bs = k * W"
  shows "mset (reals (concat (column k W bs j))) = (\<Sum>i<k. image_mset (next_tag W) (class_of W j (M i)))"
    "\<forall>b\<in>set (column k W bs j). length b = Z" "length (column k W bs j) = k"
proof -
  have nth: "take W (drop (i * W) bs) ! j = bs ! (i * W + j)" "j < length (take W (drop (i * W) bs))" if "i < k" for i
  proof -
    have "i * W \<le> length bs" using assms(3) grid_index(1) [OF that assms(2)] by linarith
    then show "take W (drop (i * W) bs) ! j = bs ! (i * W + j)" using assms(2) by simp
    show "j < length (take W (drop (i * W) bs))" using assms(2) assms(1) [OF that] by (simp only: routed_def)
  qed
  have "mset (reals (bs ! (i * W + j))) = image_mset (next_tag W) (class_of W j (M i))" if "i < k" for i
  proof -
    have "\<forall>j<W. mset (reals (take W (drop (i * W) bs) ! j)) = image_mset (next_tag W) (class_of W j (M i))"
      using assms(1) [OF that] unfolding routed_def by blast
    then show ?thesis unfolding nth(1) [OF that, symmetric] using assms(2) by blast
  qed
  then show "mset (reals (concat (column k W bs j))) = (\<Sum>i<k. image_mset (next_tag W) (class_of W j (M i)))"
    unfolding reals_concat column_def map_map comp_def mset_concat_map by (intro sum.cong) simp_all
  have "length (bs ! (i * W + j)) = Z" if "i < k" for i
    using assms(1) [OF that] nth [OF that] by (metis nth_mem routed_def)
  then show "\<forall>b\<in>set (column k W bs j). length b = Z" by (auto simp: column_def)
qed (simp add: column_def)

lemma route_mset: "mset (route k j bs) = class_of k j (mset (reals (concat bs)))"
  by (simp add: route_def class_of_def filter_filter_mset flip: mset_filter)

lemma merge_split_routed:
  assumes "2 \<le> k" "k \<le> 8" "length bs = k" "\<forall>b\<in>set bs. length b = 2 ^ m" "0 < m" "k * 2 ^ m < 2 ^ 31"
  shows "case MergeSplitKWay k (2 ^ m) bs of
      None \<Rightarrow> \<exists>j<k. 2 ^ m \<le> size (class_of k j (mset (reals (concat bs))))
    | Some cs \<Rightarrow> routed (2 ^ m) k (mset (reals (concat bs))) cs
        \<and> (\<forall>j<k. size (class_of k j (mset (reals (concat bs)))) < 2 ^ m + of_bool (k = 2))"
proof -
  have sz: "length (route k j bs) = size (class_of k j (mset (reals (concat bs))))" for j
    unfolding route_mset [symmetric] by simp
  show ?thesis
  proof (cases "MergeSplitKWay k (2 ^ m) bs")
    case None
    then show ?thesis using MergeSplitKWay_spec(1) [OF assms] unfolding sz by (auto dest: add_leD1)
  next
    case (Some cs)
    then have "\<not> (\<exists>j<k. 2 ^ m + of_bool (k = 2) \<le> length (route k j bs))" using MergeSplitKWay_spec(1) [OF assms] by simp
    then show ?thesis
      using MergeSplitKWay_spec(2) [OF assms Some] Some unfolding sz routed_def by (simp add: not_le route_mset)
  qed
qed

text \<open>Routing every column of \<open>k\<close> routed blocks of \<open>W\<close> buckets gives one routed block.\<close>

abbreviation column_content :: "nat \<Rightarrow> nat \<Rightarrow> (nat \<Rightarrow> 'a TaggedT multiset) \<Rightarrow> nat \<Rightarrow> 'a TaggedT multiset" where
  "column_content k W M j \<equiv> (\<Sum>i<k. image_mset (next_tag W) (class_of W j (M i)))"

lemma column_class:
  assumes "i < k" "j < W" "k * W < 2 ^ 64"
  shows "class_of k i (column_content k' W M j) = image_mset (next_tag W) (class_of (k * W) (i * W + j) (\<Sum>i<k'. M i))"
  unfolding class_of_sum image_mset_sum class_of_next [OF assms, symmetric] by (simp only: class_of_sum)

lemma grid_split:
  fixes r k W :: nat
  assumes "r < k * W"
  shows "\<exists>i j. i < k \<and> j < W \<and> r = i * W + j"
proof -
  have "0 < W" using assms by (cases W) simp_all
  then show ?thesis
    using assms by (intro exI [of _ "r div W"] exI [of _ "r mod W"]) (simp add: less_mult_imp_div_less)
qed

lemma compose_routed:
  assumes "0 < k" "0 < W" "k * W < 2 ^ 64" "length bs' = k * W"
    and cols: "\<And>j. j < W \<Longrightarrow> routed Z k (column_content k W M j) (cols j)"
    and nth: "\<And>i j. i < k \<Longrightarrow> j < W \<Longrightarrow> bs' ! (i * W + j) = cols j ! i"
  shows "routed Z (k * W) (\<Sum>i<k. M i) bs'"
proof -
  have at: "length (bs' ! (i * W + j)) = Z"
    "mset (reals (bs' ! (i * W + j))) = image_mset (next_tag (k * W)) (class_of (k * W) (i * W + j) (\<Sum>i<k. M i))"
    if ij: "i < k" "j < W" for i j
  proof -
    note c = cols [OF ij(2), unfolded routed_def]
    show "length (bs' ! (i * W + j)) = Z" using c ij(1) unfolding nth [OF ij] by simp
    have "mset (reals (cols j ! i)) = image_mset (next_tag k) (image_mset (next_tag W) (class_of (k * W) (i * W + j) (\<Sum>i<k. M i)))"
      using c ij(1) column_class [OF ij assms(3)] by metis
    then show "mset (reals (bs' ! (i * W + j))) = image_mset (next_tag (k * W)) (class_of (k * W) (i * W + j) (\<Sum>i<k. M i))"
      unfolding nth [OF ij] image_mset.compositionality comp_def using assms(1) by (simp add: next_tag_mult [OF assms(3) _ assms(2)])
  qed
  have "\<forall>b\<in>set bs'. length b = Z" using at(1) grid_split assms(4) by (metis in_set_conv_nth)
  then show ?thesis unfolding routed_def using at(2) assms(4) grid_split by metis
qed

text \<open>The merge phase of a layer.\<close>

lemma merge_phase:
  assumes way: "2 \<le> k" "k \<le> 8" "0 < m" "k * 2 ^ m < 2 ^ 31" and W: "0 < W" "k * W < 2 ^ 64"
    and blocks: "\<And>i. i < k \<Longrightarrow> routed (2 ^ m) W (M i) (take W (drop (i * W) bs))" and len: "length bs = k * W"
  shows "case ofold (merge_column k (2 ^ m) W) bs [0..<W] of
      None \<Rightarrow> \<exists>r<k * W. 2 ^ m \<le> size (class_of (k * W) r (\<Sum>i<k. M i))
    | Some bs' \<Rightarrow> routed (2 ^ m) (k * W) (\<Sum>i<k. M i) bs'
        \<and> (\<forall>r<k * W. size (class_of (k * W) r (\<Sum>i<k. M i)) < 2 ^ m + of_bool (k = 2))"
proof -
  have k0: "0 < k" using way(1) by simp
  have ms: "case MergeSplitKWay k (2 ^ m) (column k W bs j) of
      None \<Rightarrow> \<exists>i<k. 2 ^ m \<le> size (class_of k i (column_content k W M j))
    | Some cs \<Rightarrow> routed (2 ^ m) k (column_content k W M j) cs
        \<and> (\<forall>i<k. size (class_of k i (column_content k W M j)) < 2 ^ m + of_bool (k = 2))" if "j < W" for j
  proof -
    have "mset (reals (concat (column k W bs j))) = column_content k W M j"
      by (rule column_reals(1) [OF _ that len]) (rule blocks)
    then show ?thesis using merge_split_routed [OF way(1,2) column_reals(3,2) [OF blocks that len] way(3,4)] by (simp only:)
  qed
  note sz = column_class [OF _ _ W(2), THEN arg_cong [of _ _ size], unfolded size_image_mset]
  note mc = merge_columns [OF len order_refl, of "2 ^ m"]
  show ?thesis
  proof (cases "ofold (merge_column k (2 ^ m) W) bs [0..<W]")
    case None
    with mc obtain j where j: "j < W" "MergeSplitKWay k (2 ^ m) (column k W bs j) = None" by auto
    from ms [OF j(1), unfolded j(2)] obtain i where i: "i < k" "2 ^ m \<le> size (class_of k i (column_content k W M j))" by auto
    then show ?thesis unfolding sz [OF i(1) j(1)] using None grid_index(1) [OF i(1) j(1)] by auto
  next
    case (Some bs')
    note b = mc [unfolded Some option.case]
    define cols where "cols j = the (MergeSplitKWay k (2 ^ m) (column k W bs j))" for j
    have c: "routed (2 ^ m) k (column_content k W M j) (cols j)"
      "\<forall>i<k. size (class_of k i (column_content k W M j)) < 2 ^ m + of_bool (k = 2)" if "j < W" for j
      using ms [OF that] b that by (cases "MergeSplitKWay k (2 ^ m) (column k W bs j)"; simp add: cols_def)+
    have "routed (2 ^ m) (k * W) (\<Sum>i<k. M i) bs'"
      using b c(1) by (intro compose_routed [OF k0 W, of bs' "2 ^ m" M cols]) (simp_all add: cols_def)
    moreover have "size (class_of (k * W) r (\<Sum>i<k. M i)) < 2 ^ m + of_bool (k = 2)" if "r < k * W" for r
      using grid_split [OF that] c(2) sz by metis
    ultimately show ?thesis unfolding Some option.case by blast
  qed
qed

section \<open>The layers in memory\<close>

text \<open>The buckets as the first merge-splits see them.\<close>

definition prepare :: "(nat \<Rightarrow> u64) \<Rightarrow> nat \<Rightarrow> nat \<Rightarrow> 'a bucket list \<Rightarrow> 'a reader \<Rightarrow> 'a bucket list \<times> 'a reader" where
  "prepare rnd numReal ioLayer bs rd = (if ioLayer = 0 then pad_buckets rnd numReal bs rd else (bs, rd))"

lemma pad_buckets_append:
  "pad_buckets rnd numReal (as @ bs) rd = (let (as', rd) = pad_buckets rnd numReal as rd; (bs', rd) = pad_buckets rnd numReal bs rd in (as' @ bs', rd))"
  by (induction as arbitrary: rd) (simp_all add: Let_def split_beta)

lemma prepare_append:
  "prepare rnd numReal l (as @ bs) rd = (let (as', rd) = prepare rnd numReal l as rd; (bs', rd) = prepare rnd numReal l bs rd in (as' @ bs', rd))"
  by (simp add: prepare_def pad_buckets_append)

lemma length_pad_bucket: "length (fst (pad_bucket rnd numReal offset b rd)) = length b"
  by (induction b arbitrary: offset rd) (auto simp: Let_def split_beta split: prod.split)

lemma lengths_prepare: "map length (fst (prepare rnd numReal l bs rd)) = map length bs"
proof -
  have "map length (fst (pad_buckets rnd numReal bs rd)) = map length bs"
    by (induction bs arbitrary: rd) (simp_all add: Let_def split_beta length_pad_bucket)
  then show ?thesis by (simp add: prepare_def)
qed

lemma length_prepare [simp]: "length (fst (prepare rnd numReal l bs rd)) = length bs"
  using arg_cong [OF lengths_prepare, of length] by simp

lemma prepare_bucket_lengths:
  assumes "\<forall>b\<in>set bs. length b = Z" "prepare rnd numReal l bs rd = (bs0, rd0)"
  shows "\<forall>b\<in>set bs0. length b = Z" "length bs0 = length bs"
proof -
  have m: "map length bs0 = map length bs" using lengths_prepare [of rnd numReal l bs rd] assms(2) by simp
  then have "set (map length bs0) = set (map length bs)" by simp
  then show "\<forall>b\<in>set bs0. length b = Z" using assms(1) by (auto simp: image_def)
  show "length bs0 = length bs" using arg_cong [OF m, of length] by simp
qed

text \<open>A block of \<open>P\<close> consecutive buckets has too many elements for one residue.\<close>

definition crowded :: "nat \<Rightarrow> nat set \<Rightarrow> 'a TaggedT multiset list \<Rightarrow> bool" where
  "crowded Z Ps srcs \<longleftrightarrow> (\<exists>P\<in>Ps. \<exists>g j. (g + 1) * P \<le> length srcs \<and> j < P
    \<and> Z \<le> size (class_of P j (sum_list (take P (drop (g * P) srcs)))))"

lemma crowded_mono: "crowded Z Ps srcs \<Longrightarrow> Ps \<subseteq> Qs \<Longrightarrow> crowded Z Qs srcs"
  unfolding crowded_def by blast

lemma concat_window:
  assumes "\<forall>c\<in>set cs. length c = W" "n < length cs" "a + p \<le> W"
  shows "take p (drop (n * W + a) (concat cs)) = take p (drop a (cs ! n))" "n * W + W \<le> length (concat cs)"
proof -
  have len: "length (concat ds) = length ds * W" if "\<forall>c\<in>set ds. length c = W" for ds :: "'b list list"
    using that by (induction ds) simp_all
  have cs: "concat cs = concat (take n cs) @ cs ! n @ concat (drop (Suc n) cs)"
    using arg_cong [OF id_take_nth_drop [OF assms(2)], of concat] unfolding concat_append concat.simps .
  have "\<forall>c\<in>set (take n cs). length c = W" using assms(1) in_set_takeD by metis
  from len [OF this] have l: "length (concat (take n cs)) = n * W" using assms(2) by (simp only: length_take min_absorb2 less_imp_le)
  have c: "length (cs ! n) = W" using assms(1,2) by simp
  show "take p (drop (n * W + a) (concat cs)) = take p (drop a (cs ! n))"
    unfolding cs using l c assms(3) by simp
  show "n * W + W \<le> length (concat cs)" unfolding cs using l c by simp
qed

lemma crowded_concat:
  assumes "\<forall>c\<in>set cs. length c = W" "n < length cs" "crowded Z Ps (cs ! n)" "\<forall>P\<in>Ps. P dvd W"
  shows "crowded Z Ps (concat cs)"
proof -
  from assms(3) obtain P g j where P: "P \<in> Ps" "(g + 1) * P \<le> length (cs ! n)" "j < P"
    "Z \<le> size (class_of P j (sum_list (take P (drop (g * P) (cs ! n)))))" unfolding crowded_def by blast
  obtain q where q: "W = P * q" using assms(4) P(1) by (auto elim: dvdE)
  have c: "g * P + P \<le> W" using P(2) assms(1,2) by simp
  have e: "(n * q + g) * P = n * W + g * P" by (simp add: q algebra_simps)
  note w = concat_window [OF assms(1,2) c]
  have "take P (drop ((n * q + g) * P) (concat cs)) = take P (drop (g * P) (cs ! n))" unfolding e by (rule w(1))
  moreover have "(n * q + g + 1) * P \<le> length (concat cs)" using w(2) c e by simp
  ultimately show ?thesis using P unfolding crowded_def by (metis (no_types))
qed

text \<open>The recursive calls on the blocks of a batch.\<close>

lemma basic_blocks:
  fixes rec :: "'a bucket list \<Rightarrow> 'a reader \<Rightarrow> ('a bucket list \<times> 'a reader) option"
  assumes rec: "\<And>c rd c0 rd0. length c = W \<Longrightarrow> \<forall>b\<in>set c. length b = Z \<Longrightarrow> prepare rnd numReal l c rd = (c0, rd0) \<Longrightarrow>
      case rec c rd of None \<Rightarrow> crowded Z Ps (map (\<lambda>b. mset (reals b)) c0)
      | Some (c', rd') \<Rightarrow> rd' = rd0 \<and> routed Z W (mset (reals (concat c0))) c'"
    and "\<forall>c\<in>set cs. length c = W \<and> (\<forall>b\<in>set c. length b = Z)"
  shows "\<exists>css rd0. prepare rnd numReal l (concat cs) rd = (concat css, rd0) \<and> length css = length cs \<and> (\<forall>c\<in>set css. length c = W)
    \<and> (case ofold (\<lambda>(out, rd) c. case rec c rd of None \<Rightarrow> None | Some (c, rd) \<Rightarrow> Some (out @ c, rd)) (out, rd) cs of
         None \<Rightarrow> \<exists>c\<in>set css. crowded Z Ps (map (\<lambda>b. mset (reals b)) c)
       | Some (out', rd') \<Rightarrow> rd' = rd0 \<and> (\<exists>os. out' = out @ concat os \<and> list_all2 (\<lambda>c c'. routed Z W (mset (reals (concat c))) c') css os))"
  using assms(2)
proof (induction cs arbitrary: out rd)
  case Nil
  have p: "prepare rnd numReal l ([] :: 'a bucket list) rd = ([], rd)" by (simp add: prepare_def)
  show ?case by (intro exI [of _ "[]"] exI [of _ rd]) (auto simp: p intro: exI [of _ "[]"])
next
  case (Cons c cs)
  obtain c0 rd1 where c0: "prepare rnd numReal l c rd = (c0, rd1)" by (cases "prepare rnd numReal l c rd")
  have c: "length c = W" "\<forall>b\<in>set c. length b = Z" using Cons.prems by simp_all
  note r = rec [OF c c0]
  have l0: "length c0 = W" using prepare_bucket_lengths(2) [OF c(2) c0] c(1) by simp
  define out1 where "out1 = (case rec c rd of None \<Rightarrow> out | Some (c', rd') \<Rightarrow> out @ c')"
  from Cons.IH [of rd1 out1] Cons.prems obtain css rd0 where ih: "prepare rnd numReal l (concat cs) rd1 = (concat css, rd0)"
    "length css = length cs" "\<forall>c\<in>set css. length c = W"
    "case ofold (\<lambda>(out, rd) c. case rec c rd of None \<Rightarrow> None | Some (c, rd) \<Rightarrow> Some (out @ c, rd)) (out1, rd1) cs of
         None \<Rightarrow> \<exists>c\<in>set css. crowded Z Ps (map (\<lambda>b. mset (reals b)) c)
       | Some (out', rd') \<Rightarrow> rd' = rd0 \<and> (\<exists>os. out' = out1 @ concat os \<and> list_all2 (\<lambda>c c'. routed Z W (mset (reals (concat c))) c') css os)"
    by auto
  have p: "prepare rnd numReal l (concat (c # cs)) rd = (concat (c0 # css), rd0)" using c0 ih(1) by (simp add: prepare_append)
  show ?case
  proof (cases "rec c rd")
    case None
    then show ?thesis using r p ih(2,3) l0 by (intro exI [of _ "c0 # css"] exI [of _ rd0]) simp
  next
    case (Some q)
    then obtain c' where q: "rec c rd = Some (c', rd1)" "routed Z W (mset (reals (concat c0))) c'" "out1 = out @ c'"
      using r by (auto simp: out1_def)
    show ?thesis
    proof (cases "ofold (\<lambda>(out, rd) c. case rec c rd of None \<Rightarrow> None | Some (c, rd) \<Rightarrow> Some (out @ c, rd)) (out1, rd1) cs")
      case None
      then show ?thesis using p ih l0 q by (intro exI [of _ "c0 # css"] exI [of _ rd0]) simp
    next
      case (Some w)
      with ih(4) obtain os where os: "w = (out1 @ concat os, rd0)" "list_all2 (\<lambda>c c'. routed Z W (mset (reals (concat c))) c') css os"
        by (cases w) auto
      show ?thesis
        using p ih(2,3) l0 q Some os by (intro exI [of _ "c0 # css"] exI [of _ rd0]) (auto intro!: exI [of _ "c' # os"])
    qed
  qed
qed

lemma length_concat_same: "\<forall>c\<in>set cs. length c = W \<Longrightarrow> length (concat cs) = length cs * W"
  by (induction cs) simp_all

lemma chunks_blocks:
  assumes "length bs = k * W" "0 < W"
  shows "concat (chunks W bs) = bs" "\<forall>c\<in>set (chunks W bs). length c = W" "length (chunks W bs) = k"
proof -
  show c: "concat (chunks W bs) = bs" using assms(2) by simp
  show l: "\<forall>c\<in>set (chunks W bs). length c = W" using chunks_lengths [OF assms(2)] assms(1) by (metis dvd_triv_right)
  show "length (chunks W bs) = k" using length_concat_same [OF l] assms unfolding c by simp
qed

lemma block_of_concat:
  assumes "\<forall>c\<in>set cs. length c = W" "i < length cs"
  shows "take W (drop (i * W) (concat cs)) = cs ! i"
  using concat_window(1) [OF assms, of 0 W] assms by simp

lemma sum_list_nth: "(\<Sum>i<length xs. xs ! i) = sum_list (xs :: 'b::comm_monoid_add list)"
  by (simp add: sum_list_sum_nth atLeast0LessThan)

lemma mset_reals_concat: "mset (reals (concat bs)) = (\<Sum>i<length bs. mset (reals (bs ! i)))"
  by (induction bs) (simp_all add: lessThan_Suc_eq_insert_0 sum.reindex flip: mset_filter)

text \<open>What a network needs: two to eight ways, and a merge-split of the widest fits the counters.\<close>

definition ways_ok :: "nat \<Rightarrow> nat list \<Rightarrow> bool" where
  "ways_ok m ws \<longleftrightarrow> 0 < m \<and> (\<forall>w\<in>set ws. 2 \<le> w \<and> w \<le> 8 \<and> w * 2 ^ m < 2 ^ 31) \<and> prod_list ws < 2 ^ 63"

definition prefixes :: "nat list \<Rightarrow> nat set" where
  "prefixes ws = (\<lambda>l. prod_list (take (Suc l) ws)) ` {..<length ws}"

lemma ways_pos: "ways_ok m ws \<Longrightarrow> 0 < prod_list ws"
proof -
  assume "ways_ok m ws"
  then have "\<forall>w\<in>set ws. 0 < w" by (auto simp: ways_ok_def)
  then show "0 < prod_list ws" by (induction ws) auto
qed

lemma prod_take_dvd: "l \<le> n \<Longrightarrow> prod_list (take l ws) dvd prod_list (take n ws)" for ws :: "nat list"
  by (metis dvd_triv_left prod_list.append take_take take_add le_add_diff_inverse)

lemma ways_take:
  assumes "ways_ok m ws" "i < length ws"
  shows "0 < prod_list (take i ws)" "prod_list (take (Suc i) ws) = ws ! i * prod_list (take i ws)"
    "prod_list (take (Suc i) ws) < 2 ^ 63" "2 \<le> ws ! i" "ws ! i \<le> 8" "ws ! i * 2 ^ m < 2 ^ 31"
proof -
  show "2 \<le> ws ! i" "ws ! i \<le> 8" "ws ! i * 2 ^ m < 2 ^ 31" using assms by (auto simp: ways_ok_def)
  have p: "0 < prod_list ws" using assms(1) by (rule ways_pos)
  have d: "prod_list (take n ws) dvd prod_list ws" for n using prod_take_dvd [of n "max n (length ws)" ws] by simp
  then show "0 < prod_list (take i ws)" using p by (meson dvd_pos_nat)
  show "prod_list (take (Suc i) ws) = ws ! i * prod_list (take i ws)"
    using assms(2) by (simp add: take_Suc_conv_app_nth mult.commute)
  have "prod_list (take (Suc i) ws) \<le> prod_list ws" using d p by (rule dvd_imp_le)
  then show "prod_list (take (Suc i) ws) < 2 ^ 63" using assms(1) unfolding ways_ok_def by (meson le_less_trans)
qed

lemma basic_spec:
  assumes ok: "ways_ok m ws" and "i < length ws" "length bs = prod_list (take (Suc i) ws)" "\<forall>b\<in>set bs. length b = 2 ^ m"
    "prepare rnd numReal l bs rd = (bs0, rd0)"
  shows "case KWayButterflySortBasic rnd numReal (2 ^ m) ws l i bs rd of
      None \<Rightarrow> crowded (2 ^ m) (prefixes (take (Suc i) ws)) (map (\<lambda>b. mset (reals b)) bs0)
    | Some (bs', rd') \<Rightarrow> rd' = rd0 \<and> routed (2 ^ m) (prod_list (take (Suc i) ws)) (mset (reals (concat bs0))) bs'
        \<and> (\<forall>r<prod_list (take (Suc i) ws). size (class_of (prod_list (take (Suc i) ws)) r (mset (reals (concat bs0)))) < 2 ^ m + of_bool (ws ! i = 2))"
  using assms(2-)
proof (induction i arbitrary: bs rd bs0 rd0)
  case 0
  define k where "k = ws ! 0"
  have k: "2 \<le> k" "k \<le> 8" "k * 2 ^ m < 2 ^ 31" "0 < m" "prod_list (take (Suc 0) ws) = k"
    using ways_take [OF ok 0(1)] ok by (simp_all add: k_def ways_ok_def)
  note l0 = prepare_bucket_lengths [OF 0(3,4)]
  have len: "length bs0 = k * 1" using 0(2) k(5) l0(2) by simp
  have blocks: "routed (2 ^ m) 1 (mset (reals (bs0 ! i))) (take 1 (drop (i * 1) bs0))" if "i < k" for i
  proof -
    have "take 1 (drop (i * 1) bs0) = [bs0 ! i]" using that len by (simp add: take_Suc_conv_app_nth Cons_nth_drop_Suc [symmetric])
    then show ?thesis using that len l0(1) by (simp add: routed_def class_of_def)
  qed
  have sum: "(\<Sum>i<k. mset (reals (bs0 ! i))) = mset (reals (concat bs0))" unfolding mset_reals_concat using len by simp
  have "k * 1 < 2 ^ 64" using k(2) by simp
  note mp = merge_phase [where M = "\<lambda>i. mset (reals (bs0 ! i))", OF k(1,2,4,3) zero_less_one this blocks len, unfolded sum mult_1_right]
  have run: "KWayButterflySortBasic rnd numReal (2 ^ m) ws l 0 bs rd =
      (case ofold (merge_column k (2 ^ m) 1) bs0 [0..<1] of None \<Rightarrow> None | Some bs \<Rightarrow> Some (bs, rd0))"
    using 0(2,4) k(1,5) by (simp add: prepare_def Let_def flip: k_def)
  show ?case
  proof (cases "ofold (merge_column k (2 ^ m) 1) bs0 [0..<1]")
    case None
    then obtain r where r: "r < k" "2 ^ m \<le> size (class_of k r (mset (reals (concat bs0))))" using mp by auto
    have p: "prefixes (take (Suc 0) ws) = {k}" using 0(1) by (cases ws) (auto simp: prefixes_def k_def)
    have "sum_list (take k (drop (0 * k) (map (\<lambda>b. mset (reals b)) bs0))) = mset (reals (concat bs0))"
      unfolding mset_reals_concat sum_list_nth [symmetric] using len by simp
    then have "crowded (2 ^ m) {k} (map (\<lambda>b. mset (reals b)) bs0)"
      unfolding crowded_def using r len by (intro bexI [of _ k] exI [of _ 0] exI [of _ r]) simp_all
    then show ?thesis unfolding run None p by simp
  next
    case (Some bs')
    then show ?thesis using mp unfolding run k(5) k_def [symmetric] by simp
  qed
next
  case (Suc i)
  define W where "W = prod_list (take (Suc i) ws)"
  define k where "k = ws ! Suc i"
  have i: "i < length ws" using Suc.prems(1) by simp
  have k: "2 \<le> k" "k \<le> 8" "k * 2 ^ m < 2 ^ 31" "0 < m" "prod_list (take (Suc (Suc i)) ws) = k * W" "0 < W" "k * W < 2 ^ 63"
    using ways_take [OF ok Suc.prems(1)] ok by (simp_all add: k_def W_def ways_ok_def)
  have W64: "k * W < 2 ^ 64" using k(7) by (rule less_trans) simp
  have lb: "length bs = k * W" using Suc.prems(2) k(5) by simp
  note ch = chunks_blocks [OF lb k(6)]
  have cs: "\<forall>c\<in>set (chunks W bs). length c = W \<and> (\<forall>b\<in>set c. length b = 2 ^ m)"
    using ch(2) Suc.prems(3) arg_cong [OF ch(1), of set] by auto
  define loop where "loop = ofold (\<lambda>(out, rd) c. case KWayButterflySortBasic rnd numReal (2 ^ m) ws l i c rd of
      None \<Rightarrow> None | Some (c, rd) \<Rightarrow> Some (out @ c, rd)) ([], rd) (chunks W bs)"
  have "\<exists>css rd1. prepare rnd numReal l (concat (chunks W bs)) rd = (concat css, rd1) \<and> length css = length (chunks W bs) \<and> (\<forall>c\<in>set css. length c = W)
    \<and> (case loop of None \<Rightarrow> \<exists>c\<in>set css. crowded (2 ^ m) (prefixes (take (Suc i) ws)) (map (\<lambda>b. mset (reals b)) c)
       | Some (out', rd') \<Rightarrow> rd' = rd1 \<and> (\<exists>os. out' = [] @ concat os \<and> list_all2 (\<lambda>c c'. routed (2 ^ m) W (mset (reals (concat c))) c') css os))"
    unfolding loop_def
  proof (rule basic_blocks [OF _ cs])
    fix c :: "'a bucket list" and rd c0 rd0
    assume c: "length c = W" "\<forall>b\<in>set c. length b = 2 ^ m" "prepare rnd numReal l c rd = (c0, rd0)"
    from Suc.IH [OF i _ c(2,3)] c(1)
    show "case KWayButterflySortBasic rnd numReal (2 ^ m) ws l i c rd of
        None \<Rightarrow> crowded (2 ^ m) (prefixes (take (Suc i) ws)) (map (\<lambda>b. mset (reals b)) c0)
      | Some (c', rd') \<Rightarrow> rd' = rd0 \<and> routed (2 ^ m) W (mset (reals (concat c0))) c'"
      unfolding W_def by (auto split: option.splits)
  qed
  then obtain css where css: "bs0 = concat css" "length css = k" "\<forall>c\<in>set css. length c = W"
    "case loop of None \<Rightarrow> \<exists>c\<in>set css. crowded (2 ^ m) (prefixes (take (Suc i) ws)) (map (\<lambda>b. mset (reals b)) c)
       | Some (out', rd') \<Rightarrow> rd' = rd0 \<and> (\<exists>os. out' = concat os \<and> list_all2 (\<lambda>c c'. routed (2 ^ m) W (mset (reals (concat c))) c') css os)"
    unfolding ch(1,3) Suc.prems(4) append_Nil by auto
  have run: "KWayButterflySortBasic rnd numReal (2 ^ m) ws l (Suc i) bs rd = (case loop of None \<Rightarrow> None
      | Some (bs, rd) \<Rightarrow> (case ofold (merge_column k (2 ^ m) W) bs [0..<W] of None \<Rightarrow> None | Some bs \<Rightarrow> Some (bs, rd)))"
  proof -
    have wb: "length bs div k = W" using lb k(1) by simp
    show ?thesis unfolding loop_def KWayButterflySortBasic.simps Let_def k_def [symmetric] wb ..
  qed
  have sub: "prefixes (take (Suc i) ws) \<subseteq> prefixes (take (Suc (Suc i)) ws)"
    using Suc.prems(1) by (auto simp: prefixes_def min_def)
  have dvd: "\<forall>P\<in>prefixes (take (Suc i) ws). P dvd W"
    unfolding prefixes_def W_def using prod_take_dvd by (auto simp: min_def)
  have sum: "(\<Sum>i<k. mset (reals (concat (css ! i)))) = mset (reals (concat bs0))"
  proof -
    have "mset (reals (concat (concat css))) = (\<Sum>i<length css. mset (reals (concat (css ! i))))"
      by (induction css) (simp_all add: lessThan_Suc_eq_insert_0 sum.reindex flip: mset_filter)
    then show ?thesis using css(1,2) by simp
  qed
  show ?case
  proof (cases loop)
    case None
    with css(4) obtain c where c: "c \<in> set css" "crowded (2 ^ m) (prefixes (take (Suc i) ws)) (map (\<lambda>b. mset (reals b)) c)" by auto
    then obtain n where n: "n < length css" "css ! n = c" by (auto simp: in_set_conv_nth)
    have "crowded (2 ^ m) (prefixes (take (Suc i) ws)) (concat (map (map (\<lambda>b. mset (reals b))) css))"
      by (rule crowded_concat [of _ W n]) (use css(3) n c(2) dvd in auto)
    then show ?thesis using crowded_mono [OF _ sub] unfolding run None css(1) map_concat by simp
  next
    case (Some p)
    with css(4) obtain os where os: "p = (concat os, rd0)" "list_all2 (\<lambda>c c'. routed (2 ^ m) W (mset (reals (concat c))) c') css os"
      by (cases p) auto
    have lo: "length os = k" "\<forall>c\<in>set os. length c = W"
      using os(2) css(2) by (auto simp: list_all2_conv_all_nth routed_def in_set_conv_nth)
    have blocks: "routed (2 ^ m) W (mset (reals (concat (css ! i)))) (take W (drop (i * W) (concat os)))" if "i < k" for i
      using os(2) that css(2) block_of_concat [OF lo(2)] lo(1) by (simp add: list_all2_conv_all_nth)
    have len: "length (concat os) = k * W" using length_concat_same [OF lo(2)] lo(1) by simp
    note mp = merge_phase [where M = "\<lambda>i. mset (reals (concat (css ! i)))", OF k(1,2,4,3) k(6) W64 blocks len, unfolded sum]
    show ?thesis
    proof (cases "ofold (merge_column k (2 ^ m) W) (concat os) [0..<W]")
      case None
      then obtain r where r: "r < k * W" "2 ^ m \<le> size (class_of (k * W) r (mset (reals (concat bs0))))" using mp by auto
      have p: "k * W \<in> prefixes (take (Suc (Suc i)) ws)"
        unfolding prefixes_def using Suc.prems(1) k(5) by (auto intro!: image_eqI [of _ _ "Suc i"])
      have lb0: "length bs0 = k * W" using css(1-3) length_concat_same by metis
      then have "sum_list (take (k * W) (drop (0 * (k * W)) (map (\<lambda>b. mset (reals b)) bs0))) = mset (reals (concat bs0))"
        unfolding mset_reals_concat sum_list_nth [symmetric] by simp
      then have "crowded (2 ^ m) (prefixes (take (Suc (Suc i)) ws)) (map (\<lambda>b. mset (reals b)) bs0)"
        unfolding crowded_def using r lb0 p by (intro bexI [of _ "k * W"] exI [of _ 0] exI [of _ r]) simp_all
      then show ?thesis unfolding run Some os(1) option.case prod.case None by simp
    next
      case bs': (Some bs')
      then show ?thesis using mp unfolding run Some os(1) option.case prod.case bs' k(5) k_def [symmetric] by simp
    qed
  qed
qed

section \<open>Reading the input\<close>

definition tagged_input :: "(nat \<Rightarrow> u64) \<Rightarrow> 'a list \<Rightarrow> 'a TaggedT list" where
  "tagged_input rnd xs = map (\<lambda>i. \<lparr>tag = rnd i AND 0x7fffffffffffffff, v = xs ! i\<rparr>) [0..<length xs]"

definition rd_at :: "'a list \<Rightarrow> nat \<Rightarrow> nat \<Rightarrow> 'a reader" where
  "rd_at xs R c = (drop (c * R) xs, min (length xs) (c * R))"

definition src :: "(nat \<Rightarrow> u64) \<Rightarrow> 'a list \<Rightarrow> nat \<Rightarrow> nat \<Rightarrow> 'a TaggedT list" where
  "src rnd xs R c = take R (drop (c * R) (tagged_input rnd xs))"

lemma length_tagged_input [simp]: "length (tagged_input rnd xs) = length xs"
  by (simp add: tagged_input_def)

lemma isDummy_flags:
  "\<not> isDummy \<lparr>tag = t AND 0x7fffffffffffffff, v = x\<rparr>" "isDummy (setDummy e)"
proof -
  show "\<not> isDummy \<lparr>tag = t AND 0x7fffffffffffffff, v = x\<rparr>"
    unfolding isDummy_iff low_tag TaggedT.simps bit_and_iff bit_mask_iff by simp
  have "tag (setDummy e) = tag e OR 2 ^ 63" by (simp add: setDummy_def)
  then show "isDummy (setDummy e)" unfolding isDummy_iff by (simp only: bit_or_iff bit_exp_iff) simp
qed

lemma setData_eq: "setData r x e = \<lparr>tag = r AND 0x7fffffffffffffff, v = x\<rparr>"
  by (cases e) (simp add: setData_def)

lemma tagged_input_real: "e \<in> set (tagged_input rnd xs) \<Longrightarrow> \<not> isDummy e"
  by (auto simp: tagged_input_def isDummy_flags)

lemma pad_bucket_reals:
  assumes "p \<le> length xs" "pad_bucket rnd R off b (drop p xs, p) = (b', rd')"
  shows "reals b' = take (min (R - off) (length b)) (drop p (tagged_input rnd xs))
    \<and> rd' = (let q = min (length xs) (p + min (R - off) (length b)) in (drop q xs, q))"
  using assms
proof (induction b arbitrary: off p b' rd')
  case (Cons it its)
  show ?case
  proof (cases "off < R \<and> drop p xs \<noteq> []")
    case True
    then have p: "p < length xs" by simp
    define e where "e = \<lparr>tag = rnd p AND 0x7fffffffffffffff, v = xs ! p\<rparr>"
    have d: "drop p xs = xs ! p # drop (Suc p) xs" "drop p (tagged_input rnd xs) = e # drop (Suc p) (tagged_input rnd xs)"
      using p by (simp_all add: Cons_nth_drop_Suc [symmetric] tagged_input_def e_def)
    obtain b1 where b1: "pad_bucket rnd R (off + 1) its (drop (Suc p) xs, Suc p) = (b1, rd')" "b' = e # b1"
      using Cons.prems(2) True d(1) by (auto simp: Let_def setData_eq e_def split: prod.splits)
    have "\<not> isDummy e" unfolding e_def by (rule isDummy_flags)
    moreover have "R - off = Suc (R - Suc off)" using True by linarith
    ultimately show ?thesis using Cons.IH [OF _ b1(1)] p d(2) b1(2) by (simp add: Let_def)
  next
    case False
    obtain b1 where b1: "pad_bucket rnd R (off + 1) its (drop p xs, p) = (b1, rd')" "b' = setDummy it # b1"
      using Cons.prems(2) False by (auto simp: Let_def split: prod.splits)
    have "R - off = 0 \<or> p = length xs" using False Cons.prems(1) by auto
    then show ?thesis
      using Cons.IH [OF Cons.prems(1) b1(1)] b1(2) isDummy_flags(2) [of it] Cons.prems(1) by (auto simp: Let_def)
  qed
qed simp

lemma pad_bucket_at:
  assumes "length b = Z" "R \<le> Z" "pad_bucket rnd R 0 b (rd_at xs R c) = (b', rd')"
  shows "reals b' = src rnd xs R c \<and> rd' = rd_at xs R (Suc c)"
proof -
  have d: "drop (min (length xs) (c * R)) ys = drop (c * R) ys" if "length ys = length xs" for ys :: "'b list"
    using that by (simp add: min_def)
  have "rd_at xs R c = (drop (min (length xs) (c * R)) xs, min (length xs) (c * R))" by (simp add: rd_at_def d)
  from pad_bucket_reals [OF _ assms(3) [unfolded this]] assms(1,2)
  have "reals b' = take R (drop (c * R) (tagged_input rnd xs))"
    "rd' = (let q = min (length xs) (min (length xs) (c * R) + R) in (drop q xs, q))" by (simp_all add: d min_absorb1)
  moreover have "min (length xs) (min (length xs) (c * R) + R) = min (length xs) (Suc c * R)" by simp
  moreover have "drop (min (length xs) (Suc c * R)) xs = drop (Suc c * R) xs" by (simp add: min_def)
  ultimately show ?thesis by (simp add: src_def rd_at_def Let_def)
qed

lemma prepare_first:
  assumes "\<forall>b\<in>set bs. length b = Z" "R \<le> Z" "prepare rnd R 0 bs (rd_at xs R c) = (bs0, rd0)"
  shows "map reals bs0 = map (src rnd xs R) [c..<c + length bs] \<and> rd0 = rd_at xs R (c + length bs)"
proof -
  have "pad_buckets rnd R bs (rd_at xs R c) = (bs0, rd0) \<Longrightarrow> \<forall>b\<in>set bs. length b = Z \<Longrightarrow>
      map reals bs0 = map (src rnd xs R) [c..<c + length bs] \<and> rd0 = rd_at xs R (c + length bs)"
  proof (induction bs arbitrary: c bs0)
    case (Cons b bs)
    obtain b' rd1 where b: "pad_bucket rnd R 0 b (rd_at xs R c) = (b', rd1)" by (cases "pad_bucket rnd R 0 b (rd_at xs R c)")
    note b1 = pad_bucket_at [OF _ assms(2) b]
    obtain bs1 where bs: "pad_buckets rnd R bs (rd_at xs R (Suc c)) = (bs1, rd0)" "bs0 = b' # bs1"
      using Cons.prems b b1 by (auto simp: Let_def split: prod.splits)
    show ?case using Cons.IH [OF bs(1)] Cons.prems(2) b1 bs(2) by (simp add: upt_conv_Cons del: upt_Suc)
  qed simp
  then show ?thesis using assms(1,3) by (simp add: prepare_def)
qed

end
