(* ===== verification/Butterfly_Sort.thy ===== *)
theory Butterfly_Sort
  imports Butterfly
begin

text \<open>
  The class \<open>ButterflySorter\<close> of \<open>kway_butterfly_sort.hpp\<close>: the layers of the butterfly network that do not fit
  in memory together are exchanged through an external vector; the last layer writes the output.
\<close>

section \<open>Definitions\<close>

record KWayButterflyParams =
  ways :: "nat list list"
  kp_Z :: nat
  totalBucket :: nat

text \<open>The member variables of \<open>ButterflySorter\<close>: the constants of an object and its memory.  The external
  vector is passed separately; the ranges of the merge sort are positions in the output.\<close>

datatype SortMethod = CABUCKETSORT | BITONICSORT | ORSHUFFLE | CABUCKETSHUFFLE | BITONICSHUFFLE | KWAYDISTRIBUTIONOSORT
  | KWAYDISTRIBUTIONOSORTSHUFFLED | KWAYBUTTERFLYOSORT | KWAYBUTTERFLYOSHUFFLE | UNOPTBITONICSORT | EXTMERGESORT
  | HISTOGRAM | DBJOIN | ORAMINIT | LOADBALANCE

record 'a sorter =
  task :: SortMethod
  singleBatch :: bool
  bf_ways :: "nat list list"
  bf_Z :: nat
  numTotalBucket :: nat
  numRealPerBucket :: nat
  numElementFit :: nat
  bf_rnd :: "nat \<Rightarrow> u64"

record 'a sorter_state =
  inputReader :: "'a reader"
  batch :: "'a bucket list"
  outputWriter :: "'a list"
  mergeSortRanges :: "(nat \<times> nat) list"

definition needsExtMerge :: "'a sorter \<Rightarrow> bool" where
  "needsExtMerge S \<longleftrightarrow> \<not> singleBatch S \<and> task S = KWAYBUTTERFLYOSORT"

text \<open>Buckets are written to an array one after the other.\<close>

definition write_buckets :: "(nat \<Rightarrow> nat) \<Rightarrow> 'b list \<Rightarrow> 'b list \<Rightarrow> 'b list" where
  "write_buckets pos cs bs = foldl (\<lambda>bs i. bs[pos i := cs ! i]) bs [0..<length cs]"

text \<open>The end of a chunk of batches: dummies are moved to the back, the reals are sorted by value and
  written.  \<open>std::sort\<close> is \<open>sort_key\<close>; it may order equal elements differently.\<close>

definition flush_chunk :: "('a \<Rightarrow> 'k::linorder) \<Rightarrow> 'a sorter \<Rightarrow> nat \<Rightarrow> 'a sorter_state \<Rightarrow> 'a sorter_state" where
  "flush_chunk key S n st =
    (let (ys, realEnd) = partitionDummy isDummy (concat (take n (batch st)));
         reals = sort_key (\<lambda>e. key (v e)) (take realEnd ys);
         pos = length (outputWriter st)
     in st\<lparr>batch := chunks (bf_Z S) (reals @ drop realEnd ys) @ drop n (batch st),
           outputWriter := outputWriter st @ map getData reals,
           mergeSortRanges := (if needsExtMerge S then mergeSortRanges st @ [(pos, pos + realEnd)] else mergeSortRanges st)\<rparr>)"

text \<open>The last layer: the buckets of the batch are sorted by tag; a shuffle writes the reals at once.\<close>

definition finish_batch ::
  "('a \<Rightarrow> 'k::linorder) \<Rightarrow> 'a sorter \<Rightarrow> nat \<Rightarrow> nat \<Rightarrow> nat \<Rightarrow> nat \<Rightarrow> 'a sorter_state \<Rightarrow> 'a sorter_state" where
  "finish_batch key S numInternalWay batchPerEnclave batchCount batchIdx st =
    (let intBatchIdx = batchIdx mod batchPerEnclave;
         slot = intBatchIdx * numInternalWay;
         sorted_buckets = map (BitonicSort cmpTag True) (take numInternalWay (drop slot (batch st)));
         st = st\<lparr>batch := write_buckets (\<lambda>i. slot + i) sorted_buckets (batch st)\<rparr>
     in if task S = KWAYBUTTERFLYOSHUFFLE
        then st\<lparr>outputWriter := outputWriter st @ map getData (filter (\<lambda>e. \<not> isDummy e) (concat sorted_buckets))\<rparr>
        else if task S = KWAYBUTTERFLYOSORT \<and> (intBatchIdx = batchPerEnclave - 1 \<or> batchIdx = batchCount - 1)
        then flush_chunk key S (numInternalWay *
          (if batchIdx = batchCount - 1 then batchIdx mod batchPerEnclave + 1 else batchPerEnclave)) st
        else st)"

text \<open>One batch: fetch from the external vector, run the layer in memory, finish or write back.\<close>

definition butterfly_batch ::
  "('a \<Rightarrow> 'k::linorder) \<Rightarrow> 'a sorter \<Rightarrow> nat \<Rightarrow> nat \<Rightarrow> nat \<Rightarrow> 'a bucket list \<times> 'a sorter_state \<Rightarrow> nat
    \<Rightarrow> ('a bucket list \<times> 'a sorter_state) option" where
  "butterfly_batch key S ioLayer batchPerEnclave batchCount = (\<lambda>(ext, st) batchIdx.
    let numInternalWay = prod_list (bf_ways S ! ioLayer);
        fetchInterval = prod_list (map prod_list (take ioLayer (bf_ways S)));
        slot = batchIdx mod batchPerEnclave * numInternalWay;
        st = (if ioLayer > 0
              then st\<lparr>batch := write_buckets (\<lambda>b. slot + b)
                       (map (\<lambda>b. ext ! (batchIdx + fetchInterval * b)) [0..<numInternalWay]) (batch st)\<rparr>
              else st)
    in case KWayButterflySortBasic (bf_rnd S) (numRealPerBucket S) (bf_Z S) (bf_ways S ! ioLayer) ioLayer
              (length (bf_ways S ! ioLayer) - 1) (take numInternalWay (drop slot (batch st))) (inputReader st) of
         None \<Rightarrow> None
       | Some (bs, rd) \<Rightarrow>
           let st = st\<lparr>inputReader := rd, batch := write_buckets (\<lambda>b. slot + b) bs (batch st)\<rparr>
           in if ioLayer = length (bf_ways S) - 1
              then Some (ext, finish_batch key S numInternalWay batchPerEnclave batchCount batchIdx st)
              else Some (write_buckets (\<lambda>b. batchIdx + fetchInterval * b) (take numInternalWay (batch st)) ext, st))"

text \<open>\<open>KWayButterflySort\<close> on a range of the external vector.  Without room for one batch the code divides by
  zero.\<close>

definition layer_batches ::
  "('a \<Rightarrow> 'k::linorder) \<Rightarrow> 'a sorter \<Rightarrow> nat \<Rightarrow> 'a bucket list \<times> 'a sorter_state \<Rightarrow> ('a bucket list \<times> 'a sorter_state) option" where
  "layer_batches key S ioLayer = (\<lambda>(ext, st).
    let numInternalWay = prod_list (bf_ways S ! ioLayer);
        batchPerEnclave = (if task S = KWAYBUTTERFLYOSORT \<and> ioLayer = length (bf_ways S) - 1
                           then numElementFit S div (numInternalWay * bf_Z S) else 1);
        batchCount = (length ext + numInternalWay - 1) div numInternalWay
    in if batchPerEnclave = 0 then None
       else ofold (butterfly_batch key S ioLayer batchPerEnclave batchCount) (ext, st) [0..<batchCount])"

fun KWayButterflySortLayer ::
  "('a \<Rightarrow> 'k::linorder) \<Rightarrow> 'a sorter \<Rightarrow> nat \<Rightarrow> 'a bucket list \<times> 'a sorter_state \<Rightarrow> ('a bucket list \<times> 'a sorter_state) option" where
  "KWayButterflySortLayer key S 0 es = layer_batches key S 0 es"
| "KWayButterflySortLayer key S (Suc ioLayer) (ext, st) =
    (let subSize = length ext div prod_list (bf_ways S ! Suc ioLayer)
     in case ofold (\<lambda>(out, st) sub.
              case KWayButterflySortLayer key S ioLayer (sub, st) of
                None \<Rightarrow> None | Some (sub, st) \<Rightarrow> Some (out @ sub, st)) ([], st) (chunks subSize ext) of
          None \<Rightarrow> None
        | Some es \<Rightarrow> layer_batches key S (Suc ioLayer) es)"


section \<open>Well-formed sorters\<close>

definition sorter_ok :: "nat \<Rightarrow> 'a sorter \<Rightarrow> bool" where
  "sorter_ok m S \<longleftrightarrow> bf_Z S = 2 ^ m \<and> ways_ok m (concat (bf_ways S)) \<and> bf_ways S \<noteq> [] \<and> (\<forall>ws\<in>set (bf_ways S). ws \<noteq> [])
    \<and> numRealPerBucket S \<le> 2 ^ m"

definition batch_ok :: "nat \<Rightarrow> 'a sorter \<Rightarrow> 'a bucket list \<Rightarrow> bool" where
  "batch_ok m S bt \<longleftrightarrow> (\<forall>b\<in>set bt. length b = 2 ^ m) \<and> (\<forall>ws\<in>set (bf_ways S). prod_list ws \<le> length bt)"

text \<open>The buckets of a layer, and of the layers below it.\<close>

abbreviation layer_size :: "'a sorter \<Rightarrow> nat \<Rightarrow> nat" where
  "layer_size S l \<equiv> prod_list (bf_ways S ! l)"

abbreviation below :: "'a sorter \<Rightarrow> nat \<Rightarrow> nat" where
  "below S l \<equiv> prod_list (map prod_list (take l (bf_ways S)))"

lemma prod_list_concat: "prod_list (concat wss) = prod_list (map prod_list wss)" for wss :: "nat list list"
  by (induction wss) simp_all

lemma below_Suc: "l < length (bf_ways S) \<Longrightarrow> below S (Suc l) = layer_size S l * below S l"
  by (simp add: take_Suc_conv_app_nth mult.commute)

lemma layer_ways:
  assumes "sorter_ok m S" "l < length (bf_ways S)"
  shows "ways_ok m (bf_ways S ! l)" "bf_ways S ! l \<noteq> []" "0 < layer_size S l" "0 < below S l" "below S (Suc l) < 2 ^ 63"
    "layer_size S l * below S l < 2 ^ 64" "0 < m" "bf_Z S = 2 ^ m"
proof -
  have ok: "ways_ok m (concat (bf_ways S))" using assms(1) by (simp add: sorter_ok_def)
  have all: "0 < prod_list (map prod_list (bf_ways S))" "prod_list (map prod_list (bf_ways S)) < 2 ^ 63"
    using ways_pos [OF ok] ok unfolding ways_ok_def prod_list_concat by simp_all
  have split: "prod_list (map prod_list (bf_ways S)) = below S (Suc l) * prod_list (map prod_list (drop (Suc l) (bf_ways S)))"
    by (metis append_take_drop_id map_append prod_list.append)
  then have pos: "0 < below S (Suc l)" "0 < prod_list (map prod_list (drop (Suc l) (bf_ways S)))" using all(1) by simp_all
  show lt: "below S (Suc l) < 2 ^ 63" using factor_bounds(1) [OF _ pos] split all(2) by simp
  show p: "0 < layer_size S l" "0 < below S l" using pos(1) unfolding below_Suc [OF assms(2)] by simp_all
  show "layer_size S l * below S l < 2 ^ 64" using lt unfolding below_Suc [OF assms(2)] by simp
  show "bf_ways S ! l \<noteq> []" "bf_Z S = 2 ^ m" using assms by (simp_all add: sorter_ok_def)
  have "layer_size S l < 2 ^ 63" using lt unfolding below_Suc [OF assms(2)] by (rule factor_bounds) (use p in simp_all)
  moreover have "set (bf_ways S ! l) \<subseteq> set (concat (bf_ways S))" using nth_mem [OF assms(2)] by auto
  ultimately show "ways_ok m (bf_ways S ! l)" "0 < m" using ok unfolding ways_ok_def by blast+
qed

lemma write_block:
  assumes "slot + length cs \<le> length bs"
  shows "write_buckets (\<lambda>i. slot + i) cs bs = take slot bs @ cs @ drop (slot + length cs) bs"
proof (rule nth_equalityI)
  fix q assume "q < length (write_buckets (\<lambda>i. slot + i) cs bs)"
  then have q: "q < length bs" by (simp add: write_buckets_def)
  have inj: "inj_on (\<lambda>i. slot + i) {..<length cs}" by (simp add: inj_on_def)
  show "write_buckets (\<lambda>i. slot + i) cs bs ! q = (take slot bs @ cs @ drop (slot + length cs) bs) ! q"
  proof (cases "slot \<le> q \<and> q < slot + length cs")
    case True
    then have "write_buckets (\<lambda>i. slot + i) cs bs ! (slot + (q - slot)) = cs ! (q - slot)"
      unfolding write_buckets_def using q True by (intro updates_at [OF inj]) auto
    moreover have "q - slot < length cs" using True by linarith
    ultimately show ?thesis using True assms by (simp add: nth_append)
  next
    case False
    then have "write_buckets (\<lambda>i. slot + i) cs bs ! q = bs ! q"
      unfolding write_buckets_def by (intro updates_other) auto
    then show ?thesis using False assms by (auto simp: nth_append)
  qed
qed (use assms in \<open>simp add: write_buckets_def\<close>)

text \<open>Crowding of a column is crowding of the whole.\<close>

definition block_sum :: "nat \<Rightarrow> 'b::comm_monoid_add list \<Rightarrow> nat \<Rightarrow> 'b" where
  "block_sum F srcs i = sum_list (take F (drop (i * F) srcs))"

lemma block_sum_add: "(\<Sum>i<P. block_sum F srcs (g + i)) = sum_list (take (P * F) (drop (g * F) srcs))"
proof (induction P)
  case (Suc P)
  have "take (Suc P * F) (drop (g * F) srcs) = take (P * F) (drop (g * F) srcs) @ take F (drop ((g + P) * F) srcs)"
  proof -
    have "Suc P * F = P * F + F" "(g + P) * F = P * F + g * F" by (simp_all add: add_mult_distrib)
    then show ?thesis by (simp only: take_add drop_drop)
  qed
  then show ?case using Suc by (simp add: block_sum_def)
qed simp

lemma crowded_column:
  assumes "j < F" "k * F < 2 ^ 64" "length srcs = k * F"
    "crowded Z Ps (map (\<lambda>i. image_mset (next_tag F) (class_of F j (block_sum F srcs i))) [0..<k])"
  shows "crowded Z ((\<lambda>P. P * F) ` Ps) srcs"
proof -
  define f where "f i = image_mset (next_tag F) (class_of F j (block_sum F srcs i))" for i
  from assms(4) obtain P g r where P: "P \<in> Ps" "(g + 1) * P \<le> k" "r < P"
    "Z \<le> size (class_of P r (sum_list (take P (drop (g * P) (map f [0..<k])))))"
    unfolding crowded_def f_def [symmetric] by auto
  have "take P (drop (g * P) (map f [0..<k])) = map (\<lambda>i. f (g * P + i)) [0..<P]"
    using P(2) by (intro nth_equalityI) (auto simp: algebra_simps)
  then have s: "sum_list (take P (drop (g * P) (map f [0..<k]))) = column_content P F (\<lambda>i. block_sum F srcs (g * P + i)) j"
    by (simp add: f_def sum_list_sum_nth atLeast0LessThan)
  have PF: "P * F < 2 ^ 64" using P(2) assms(2) by (metis add_leE le_less_trans mult_le_mono1 mult_Suc Suc_eq_plus1)
  have "Z \<le> size (class_of (P * F) (r * F + j) (sum_list (take (P * F) (drop (g * (P * F)) srcs))))"
    using P(4) unfolding s column_class [OF P(3) assms(1) PF] size_image_mset block_sum_add by (simp add: mult.assoc)
  moreover have "(g + 1) * (P * F) \<le> length srcs" using mult_le_mono1 [OF P(2), of F] unfolding assms(3) mult.assoc .
  moreover have "r * F + j < P * F" using P(3) assms(1) by (rule grid_index)
  ultimately show ?thesis using P(1) unfolding crowded_def by blast
qed

section \<open>One batch\<close>

definition batch_input :: "'a sorter \<Rightarrow> nat \<Rightarrow> nat \<Rightarrow> 'a bucket list \<Rightarrow> 'a bucket list \<Rightarrow> nat \<Rightarrow> 'a bucket list" where
  "batch_input S l slot ext bt j =
    (if l > 0 then column (layer_size S l) (below S l) ext j else take (layer_size S l) (drop slot bt))"

definition put_batch :: "'a sorter \<Rightarrow> nat \<Rightarrow> nat \<Rightarrow> 'a bucket list \<Rightarrow> 'a reader \<Rightarrow> 'a sorter_state \<Rightarrow> 'a sorter_state" where
  "put_batch S l slot bs rd st =
    st\<lparr>inputReader := rd, batch := take slot (batch st) @ bs @ drop (slot + layer_size S l) (batch st)\<rparr>"

lemma length_column [simp]: "length (column k W bs j) = k"
  by (simp add: column_def)

lemma batch_run:
  assumes slot: "slot = j mod bpe * layer_size S l" "slot + layer_size S l \<le> length (batch st)"
    and len: "\<And>bs rd. KWayButterflySortBasic (bf_rnd S) (numRealPerBucket S) (bf_Z S) (bf_ways S ! l) l
      (length (bf_ways S ! l) - 1) (batch_input S l slot ext (batch st) j) (inputReader st) = Some (bs, rd) \<Longrightarrow> length bs = layer_size S l"
  shows "butterfly_batch key S l bpe bc (ext, st) j =
    (case KWayButterflySortBasic (bf_rnd S) (numRealPerBucket S) (bf_Z S) (bf_ways S ! l) l
        (length (bf_ways S ! l) - 1) (batch_input S l slot ext (batch st) j) (inputReader st) of
       None \<Rightarrow> None
     | Some (bs, rd) \<Rightarrow> let st1 = put_batch S l slot bs rd st
         in if l = length (bf_ways S) - 1 then Some (ext, finish_batch key S (layer_size S l) bpe bc j st1)
            else Some (write_buckets (\<lambda>b. j + below S l * b) (take (layer_size S l) (batch st1)) ext, st1))"
proof -
  define W where "W = layer_size S l"
  define col where "col = map (\<lambda>b. ext ! (j + below S l * b)) [0..<W]"
  have col: "col = column W (below S l) ext j" by (simp add: col_def column_def add.commute mult.commute)
  define bt where "bt = (if l > 0 then take slot (batch st) @ col @ drop (slot + W) (batch st) else batch st)"
  have lc: "length col = W" "j mod bpe * W = slot" by (simp_all add: col W_def slot(1))
  have inp: "take W (drop slot bt) = batch_input S l slot ext (batch st) j" "length bt = length (batch st)"
    "take slot bt = take slot (batch st)" "drop (slot + W) bt = drop (slot + W) (batch st)"
    using slot(2) lc(1) by (auto simp: bt_def batch_input_def W_def col)
  have wb: "write_buckets (\<lambda>b. slot + b) col (batch st) = take slot (batch st) @ col @ drop (slot + W) (batch st)"
    using write_block [of slot col "batch st"] lc(1) slot(2) by (simp add: W_def)
  have st: "(if l > 0 then st\<lparr>batch := write_buckets (\<lambda>b. slot + b) col (batch st)\<rparr> else st) = st\<lparr>batch := bt\<rparr>"
    by (simp add: bt_def wb)
  show ?thesis
  proof (cases "KWayButterflySortBasic (bf_rnd S) (numRealPerBucket S) (bf_Z S) (bf_ways S ! l) l
        (length (bf_ways S ! l) - 1) (batch_input S l slot ext (batch st) j) (inputReader st)")
    case None
    then show ?thesis
      unfolding butterfly_batch_def prod.case Let_def W_def [symmetric] lc(2) col_def [symmetric] st
      by (simp add: inp(1))
  next
    case (Some p)
    obtain bs rd where p: "p = (bs, rd)" by (cases p)
    have lb: "length bs = W" using len Some by (simp add: p W_def)
    have w: "write_buckets (\<lambda>b. slot + b) bs bt = take slot (batch st) @ bs @ drop (slot + W) (batch st)"
      using write_block [of slot bs bt] lb inp slot(2) by (simp add: W_def)
    have pb: "put_batch S l slot bs rd st = st\<lparr>inputReader := rd, batch := take slot (batch st) @ bs @ drop (slot + W) (batch st)\<rparr>"
      by (simp add: put_batch_def W_def)
    define lst where "lst \<longleftrightarrow> l = length (bf_ways S) - 1"
    show ?thesis
      unfolding butterfly_batch_def prod.case Let_def W_def [symmetric] lc(2) col_def [symmetric] st lst_def [symmetric]
      using Some p by (simp add: inp(1) w pb)
  qed
qed

lemma batch_basic:
  assumes "sorter_ok m S" "l < length (bf_ways S)" "length bs = layer_size S l" "\<forall>b\<in>set bs. length b = 2 ^ m"
    "prepare (bf_rnd S) (numRealPerBucket S) l bs rd = (bs0, rd0)"
  shows "case KWayButterflySortBasic (bf_rnd S) (numRealPerBucket S) (bf_Z S) (bf_ways S ! l) l (length (bf_ways S ! l) - 1) bs rd of
      None \<Rightarrow> crowded (2 ^ m) (prefixes (bf_ways S ! l)) (map (\<lambda>b. mset (reals b)) bs0)
    | Some (bs', rd') \<Rightarrow> rd' = rd0 \<and> routed (2 ^ m) (layer_size S l) (mset (reals (concat bs0))) bs'
        \<and> (\<forall>r<layer_size S l. size (class_of (layer_size S l) r (mset (reals (concat bs0)))) < 2 ^ m + of_bool (last (bf_ways S ! l) = 2))"
proof -
  define ws where "ws = bf_ways S ! l"
  note lw = layer_ways [OF assms(1,2), folded ws_def]
  have i: "length ws - 1 < length ws" "take (Suc (length ws - 1)) ws = ws" "ws ! (length ws - 1) = last ws"
    using lw(2) by (simp_all add: last_conv_nth)
  have "length bs = prod_list (take (Suc (length ws - 1)) ws)" using assms(3) i(2) by (simp add: ws_def)
  from basic_spec [OF lw(1) i(1) this assms(4,5), unfolded i(2,3)]
  show ?thesis unfolding ws_def lw(8) .
qed

text \<open>The columns of routed blocks.\<close>

lemma routed_columns:
  assumes "\<And>i. i < k \<Longrightarrow> routed Z F (M i) (take F (drop (i * F) ext))" "j < F" "length ext = k * F"
  shows "map (\<lambda>b. mset (reals b)) (column k F ext j) = map (\<lambda>i. image_mset (next_tag F) (class_of F j (M i))) [0..<k]"
    "mset (reals (concat (column k F ext j))) = column_content k F M j" "\<forall>b\<in>set (column k F ext j). length b = Z"
proof -
  show "mset (reals (concat (column k F ext j))) = column_content k F M j" "\<forall>b\<in>set (column k F ext j). length b = Z"
    using column_reals [OF assms] by blast+
  have "mset (reals (ext ! (i * F + j))) = image_mset (next_tag F) (class_of F j (M i))" if "i < k" for i
  proof -
    have le: "i * F \<le> length ext" using assms(3) grid_index(1) [OF that assms(2)] by linarith
    have "mset (reals (take F (drop (i * F) ext) ! j)) = image_mset (next_tag F) (class_of F j (M i))"
      using assms(1) [OF that] assms(2) unfolding routed_def by blast
    then show ?thesis using le assms(2) by (simp only: nth_take nth_drop)
  qed
  then show "map (\<lambda>b. mset (reals b)) (column k F ext j) = map (\<lambda>i. image_mset (next_tag F) (class_of F j (M i))) [0..<k]"
    unfolding column_def map_map comp_def by simp
qed

lemma batch_ok_put:
  assumes "batch_ok m S (batch st)" "slot + layer_size S l \<le> length (batch st)" "length bs = layer_size S l" "\<forall>b\<in>set bs. length b = 2 ^ m"
  shows "batch_ok m S (batch (put_batch S l slot bs rd st))" "length (batch (put_batch S l slot bs rd st)) = length (batch st)"
  using assms by (auto simp: batch_ok_def put_batch_def dest: in_set_takeD in_set_dropD)

section \<open>Layers that are not the last\<close>

lemma inner_batches:
  assumes ok: "sorter_ok m S" "0 < l" "l < length (bf_ways S) - 1"
    and blocks: "\<And>i. i < layer_size S l \<Longrightarrow> routed (2 ^ m) (below S l) (block_sum (below S l) srcs i) (take (below S l) (drop (i * below S l) ext))"
    and len: "length ext = layer_size S l * below S l" "length srcs = layer_size S l * below S l"
    and bt: "batch_ok m S (batch st)" and "n \<le> below S l"
  shows "case ofold (butterfly_batch key S l 1 bc) (ext, st) [0..<n] of
      None \<Rightarrow> crowded (2 ^ m) ((\<lambda>P. P * below S l) ` prefixes (bf_ways S ! l)) srcs
    | Some (ext', st') \<Rightarrow> \<exists>cols. (\<forall>j<n. routed (2 ^ m) (layer_size S l) (column_content (layer_size S l) (below S l) (block_sum (below S l) srcs) j) (cols j))
        \<and> length ext' = length ext
        \<and> (\<forall>i<layer_size S l. \<forall>j<below S l. ext' ! (i * below S l + j) = (if j < n then cols j ! i else ext ! (i * below S l + j)))
        \<and> inputReader st' = inputReader st \<and> batch_ok m S (batch st') \<and> length (batch st') = length (batch st)
        \<and> outputWriter st' = outputWriter st \<and> mergeSortRanges st' = mergeSortRanges st"
  using assms(8)
proof (induction n)
  case (Suc n)
  define W where "W = layer_size S l"
  define F where "F = below S l"
  define C where "C j = column_content W F (block_sum F srcs) j" for j
  have l: "l < length (bf_ways S)" "l \<noteq> length (bf_ways S) - 1" using ok(3) by simp_all
  note lw = layer_ways [OF ok(1) l(1), folded W_def F_def]
  have n: "n < F" using Suc.prems by (simp add: F_def)
  have step: "ofold (butterfly_batch key S l 1 bc) (ext, st) [0..<Suc n] =
      (case ofold (butterfly_batch key S l 1 bc) (ext, st) [0..<n] of None \<Rightarrow> None | Some es \<Rightarrow> butterfly_batch key S l 1 bc es n)"
    by (auto simp: ofold_append split: option.split)
  show ?case
  proof (cases "ofold (butterfly_batch key S l 1 bc) (ext, st) [0..<n]")
    case None
    then show ?thesis using Suc.IH Suc.prems unfolding step by simp
  next
    case (Some es)
    obtain ext1 st1 where es: "es = (ext1, st1)" by (cases es)
    obtain cols where ih: "\<forall>j<n. routed (2 ^ m) W (C j) (cols j)" "length ext1 = length ext"
      "\<forall>i<W. \<forall>j<F. ext1 ! (i * F + j) = (if j < n then cols j ! i else ext ! (i * F + j))"
      "inputReader st1 = inputReader st" "batch_ok m S (batch st1)" "length (batch st1) = length (batch st)"
      "outputWriter st1 = outputWriter st" "mergeSortRanges st1 = mergeSortRanges st"
      using Suc.IH Suc.prems unfolding Some es option.case prod.case C_def W_def F_def by auto
    have col: "column W F ext1 n = column W F ext n" unfolding column_def using ih(3) n by simp
    note rc = routed_columns [OF blocks, folded W_def F_def, OF _ n len(1) [folded W_def F_def]]
    have slot: "W \<le> length (batch st1)" using ih(5) l(1) by (auto simp: batch_ok_def W_def)
    have bi: "batch_input S l 0 ext1 (batch st1) n = column W F ext n" using ok(2) col by (simp add: batch_input_def W_def F_def)
    have prep: "prepare (bf_rnd S) (numRealPerBucket S) l (column W F ext n) (inputReader st1) = (column W F ext n, inputReader st1)"
      using ok(2) by (simp add: prepare_def)
    have b2: "\<forall>b\<in>set (column W F ext n). length b = 2 ^ m" using rc(3) by blast
    define B where "B = KWayButterflySortBasic (bf_rnd S) (numRealPerBucket S) (bf_Z S) (bf_ways S ! l) l
      (length (bf_ways S ! l) - 1) (column W F ext n) (inputReader st1)"
    have bb: "case B of None \<Rightarrow> crowded (2 ^ m) (prefixes (bf_ways S ! l)) (map (\<lambda>b. mset (reals b)) (column W F ext n))
        | Some (bs', rd') \<Rightarrow> rd' = inputReader st \<and> routed (2 ^ m) W (C n) bs'"
    proof -
      have m: "mset (reals (concat (column W F ext n))) = C n" unfolding C_def using rc(2) by blast
      have "length (column W F ext n) = layer_size S l" by (simp add: W_def)
      from batch_basic [OF ok(1) l(1) this b2 prep, folded W_def B_def, unfolded m] show ?thesis
        using ih(4) by (auto split: option.splits)
    qed
    have run: "butterfly_batch key S l 1 bc (ext1, st1) n = (case B of None \<Rightarrow> None
      | Some (bs, rd) \<Rightarrow> let st2 = put_batch S l 0 bs rd st1 in Some (write_buckets (\<lambda>b. n + F * b) (take W (batch st2)) ext1, st2))"
      unfolding B_def bi [symmetric]
    proof (subst batch_run [where slot = 0])
      show "0 + layer_size S l \<le> length (batch st1)" using slot by (simp add: W_def)
      show "length bs = layer_size S l" if "KWayButterflySortBasic (bf_rnd S) (numRealPerBucket S) (bf_Z S) (bf_ways S ! l) l
          (length (bf_ways S ! l) - 1) (batch_input S l 0 ext1 (batch st1) n) (inputReader st1) = Some (bs, rd)" for bs rd
        using bb that unfolding B_def bi by (simp add: routed_def W_def)
    qed (use l(2) in \<open>simp_all add: W_def F_def Let_def split: option.split\<close>)
    show ?thesis
    proof (cases B)
      case None
      have "map (\<lambda>b. mset (reals b)) (column W F ext n) = map (\<lambda>i. image_mset (next_tag F) (class_of F n (block_sum F srcs i))) [0..<W]"
        using rc(1) by blast
      then have "crowded (2 ^ m) ((\<lambda>P. P * F) ` prefixes (bf_ways S ! l)) srcs"
        using bb None crowded_column [OF n lw(6) len(2) [folded W_def F_def]] by simp
      then show ?thesis unfolding step Some es option.case run None by (simp add: F_def)
    next
      case b: (Some p)
      then obtain bs where p: "B = Some (bs, inputReader st)" "routed (2 ^ m) W (C n) bs" using bb by (cases p) auto
      define st2 where "st2 = put_batch S l 0 bs (inputReader st) st1"
      define ext2 where "ext2 = write_buckets (\<lambda>b. n + F * b) bs ext1"
      have bs: "length bs = W" "\<forall>b\<in>set bs. length b = 2 ^ m" using p(2) by (simp_all add: routed_def)
      have tk: "take W (batch st2) = bs" using bs(1) by (simp add: st2_def put_batch_def)
      have r: "ofold (butterfly_batch key S l 1 bc) (ext, st) [0..<Suc n] = Some (ext2, st2)"
        unfolding step Some es option.case run p(1) prod.case Let_def st2_def [symmetric] tk ext2_def ..
      define cols' where "cols' = cols(n := bs)"
      have inj: "inj_on (\<lambda>b. n + F * b) {..<W}" using lw(4) by (auto simp: inj_on_def)
      have "ext2 ! (i * F + j) = (if j < Suc n then cols' j ! i else ext ! (i * F + j))" if "i < W" "j < F" for i j
      proof (cases "j = n")
        case True
        have "ext2 ! (n + F * i) = bs ! i" unfolding ext2_def write_buckets_def bs(1)
          by (rule updates_at [OF inj that(1)]) (use grid_index(1) [OF that(1) n] ih(2) len(1) in \<open>simp add: W_def F_def mult.commute add.commute\<close>)
        then show ?thesis using True by (simp add: cols'_def mult.commute add.commute)
      next
        case False
        then have "i * F + j \<notin> (\<lambda>b. n + F * b) ` {..<W}" using grid_inj [OF that(2) n] by (auto simp: mult.commute [of F] add.commute [of n])
        then have "ext2 ! (i * F + j) = ext1 ! (i * F + j)" unfolding ext2_def write_buckets_def bs(1) by (rule updates_other)
        then show ?thesis using ih(3) that False by (auto simp: cols'_def)
      qed
      moreover have "\<forall>j<Suc n. routed (2 ^ m) W (C j) (cols' j)" using ih(1) p(2) by (auto simp: cols'_def less_Suc_eq)
      moreover have "length ext2 = length ext" using ih(2) by (simp add: ext2_def write_buckets_def)
      moreover have "batch_ok m S (batch st2)" "length (batch st2) = length (batch st)"
        using batch_ok_put [of m S st1 0 l bs "inputReader st"] ih(5,6) slot bs by (simp_all add: st2_def W_def)
      moreover have "inputReader st2 = inputReader st" "outputWriter st2 = outputWriter st" "mergeSortRanges st2 = mergeSortRanges st"
        using ih(7,8) by (simp_all add: st2_def put_batch_def)
      ultimately show ?thesis unfolding r option.case prod.case W_def F_def C_def by blast
    qed
  qed
qed (auto intro: exI [of _ "\<lambda>_. []"] simp: bt)

text \<open>What the buckets of a range of the network get from the input.\<close>

definition sources :: "'a sorter \<Rightarrow> 'a list \<Rightarrow> nat \<Rightarrow> nat \<Rightarrow> 'a TaggedT multiset list" where
  "sources S xs c n = map (\<lambda>b. mset (src (bf_rnd S) xs (numRealPerBucket S) b)) [c..<c + n]"

lemma length_sources [simp]: "length (sources S xs c n) = n"
  by (simp add: sources_def)

lemma sources_block: "i * F + F \<le> n \<Longrightarrow> take F (drop (i * F) (sources S xs c n)) = sources S xs (c + i * F) F"
  by (intro nth_equalityI) (simp_all add: sources_def add.assoc)

lemma block_sum_sources: "i < k \<Longrightarrow> block_sum F (sources S xs c (k * F)) i = sum_list (sources S xs (c + i * F) F)"
proof -
  assume "i < k"
  then have "Suc i * F \<le> k * F" by (intro mult_le_mono1) simp
  then show "block_sum F (sources S xs c (k * F)) i = sum_list (sources S xs (c + i * F) F)"
    unfolding block_sum_def by (subst sources_block) simp_all
qed

lemma sources_concat: "sources S xs c (k * F) = concat (map (\<lambda>i. sources S xs (c + i * F) F) [0..<k])"
proof (induction k)
  case (Suc k)
  have "sources S xs c (a + b) = sources S xs c a @ sources S xs (c + a) b" for a b
    unfolding sources_def add.assoc [symmetric] by (subst upt_add_eq_append) simp_all
  from this [of "k * F" F] show ?case using Suc by (simp add: add.commute)
qed (simp add: sources_def)

lemma crowded_slice:
  assumes "i < k" "crowded Z Ps (sources S xs (c + i * F) F)" "\<forall>P\<in>Ps. P dvd F"
  shows "crowded Z Ps (sources S xs c (k * F))"
  unfolding sources_concat by (rule crowded_concat [of _ F i]) (use assms in auto)

lemma prefixes_append: "prefixes (as @ bs) = prefixes as \<union> (\<lambda>P. P * prod_list as) ` prefixes bs"
proof -
  have a: "prod_list (take (Suc l) (as @ bs)) = prod_list (take (Suc l) as)" if "l < length as" for l
    using that by simp
  have b: "prod_list (take (Suc (length as + d)) (as @ bs)) = prod_list (take (Suc d) bs) * prod_list as" for d
    by simp
  have "prod_list (take (Suc l) (as @ bs)) \<in> prefixes as \<union> (\<lambda>P. P * prod_list as) ` prefixes bs" if "l < length as + length bs" for l
  proof (cases "l < length as")
    case False
    then obtain d where "l = length as + d" by (metis le_add_diff_inverse not_less)
    then show ?thesis using b [of d] that by (auto simp: prefixes_def)
  qed (use a in \<open>auto simp: prefixes_def\<close>)
  moreover have "prod_list (take (Suc l) as) \<in> prefixes (as @ bs)" if "l < length as" for l
    using a [OF that] that unfolding prefixes_def by (auto intro!: image_eqI [of _ _ l])
  moreover have "prod_list (take (Suc d) bs) * prod_list as \<in> prefixes (as @ bs)" if "d < length bs" for d
    using b [of d] that unfolding prefixes_def by (auto intro!: image_eqI [of _ _ "length as + d"])
  ultimately show ?thesis unfolding prefixes_def by auto
qed

lemma prefixes_layer:
  assumes "l < length (bf_ways S)"
  shows "prefixes (concat (take (Suc l) (bf_ways S))) = prefixes (concat (take l (bf_ways S))) \<union> (\<lambda>P. P * below S l) ` prefixes (bf_ways S ! l)"
  using assms by (simp add: take_Suc_conv_app_nth prefixes_append prod_list_concat)

lemma prefixes_dvd: "\<forall>P\<in>prefixes ws. P dvd prod_list ws"
  unfolding prefixes_def using prod_take_dvd [of _ "length ws" ws] by auto

text \<open>What a call leaves alone.\<close>

definition same_output :: "nat \<Rightarrow> 'a sorter \<Rightarrow> 'a sorter_state \<Rightarrow> 'a sorter_state \<Rightarrow> bool" where
  "same_output m S st st' \<longleftrightarrow> batch_ok m S (batch st') \<and> length (batch st') = length (batch st)
    \<and> outputWriter st' = outputWriter st \<and> mergeSortRanges st' = mergeSortRanges st"

lemma same_output_trans: "same_output m S st st1 \<Longrightarrow> same_output m S st1 st2 \<Longrightarrow> same_output m S st st2"
  by (simp add: same_output_def)

lemma slices_loop:
  fixes rec :: "'a bucket list \<times> 'a sorter_state \<Rightarrow> ('a bucket list \<times> 'a sorter_state) option"
  assumes rec: "\<And>ext st c. length ext = F \<Longrightarrow> batch_ok m S (batch st) \<Longrightarrow> inputReader st = rd_at xs (numRealPerBucket S) c \<Longrightarrow>
      case rec (ext, st) of None \<Rightarrow> crowded Z Ps (sources S xs c F)
      | Some (ext', st') \<Rightarrow> routed Z F (sum_list (sources S xs c F)) ext' \<and> inputReader st' = rd_at xs (numRealPerBucket S) (c + F) \<and> same_output m S st st'"
    and "\<forall>e\<in>set cs. length e = F" "batch_ok m S (batch st)" "inputReader st = rd_at xs (numRealPerBucket S) c"
  shows "case ofold (\<lambda>(out, st) e. case rec (e, st) of None \<Rightarrow> None | Some (e, st) \<Rightarrow> Some (out @ e, st)) (out, st) cs of
      None \<Rightarrow> \<exists>i<length cs. crowded Z Ps (sources S xs (c + i * F) F)
    | Some (out', st') \<Rightarrow> (\<exists>os. out' = out @ concat os \<and> length os = length cs
          \<and> (\<forall>i<length cs. routed Z F (sum_list (sources S xs (c + i * F) F)) (os ! i)))
        \<and> inputReader st' = rd_at xs (numRealPerBucket S) (c + length cs * F) \<and> same_output m S st st'"
  using assms(2-)
proof (induction cs arbitrary: out st c)
  case Nil
  then show ?case by (simp add: same_output_def)
next
  case (Cons e cs)
  note r = rec [OF _ Cons.prems(2,3), of e]
  show ?case
  proof (cases "rec (e, st)")
    case None
    then show ?thesis using r Cons.prems(1) by (auto intro: exI [of _ 0])
  next
    case (Some q)
    then obtain e' st1 where q: "rec (e, st) = Some (e', st1)" "routed Z F (sum_list (sources S xs c F)) e'"
      "inputReader st1 = rd_at xs (numRealPerBucket S) (c + F)" "same_output m S st st1" using r Cons.prems(1) by (cases q) auto
    have b1: "batch_ok m S (batch st1)" using q(4) by (simp add: same_output_def)
    have pos: "c + F + i * F = c + Suc i * F" for i by simp
    from Cons.IH [OF _ b1 q(3), of "out @ e'"] Cons.prems(1)
    have ih: "case ofold (\<lambda>(out, st) e. case rec (e, st) of None \<Rightarrow> None | Some (e, st) \<Rightarrow> Some (out @ e, st)) (out @ e', st1) cs of
        None \<Rightarrow> \<exists>i<length cs. crowded Z Ps (sources S xs (c + Suc i * F) F)
      | Some (out', st') \<Rightarrow> (\<exists>os. out' = (out @ e') @ concat os \<and> length os = length cs
          \<and> (\<forall>i<length cs. routed Z F (sum_list (sources S xs (c + Suc i * F) F)) (os ! i)))
        \<and> inputReader st' = rd_at xs (numRealPerBucket S) (c + Suc (length cs) * F) \<and> same_output m S st1 st'"
      unfolding pos by simp
    show ?thesis
    proof (cases "ofold (\<lambda>(out, st) e. case rec (e, st) of None \<Rightarrow> None | Some (e, st) \<Rightarrow> Some (out @ e, st)) (out @ e', st1) cs")
      case None
      with ih obtain i where "i < length cs" "crowded Z Ps (sources S xs (c + Suc i * F) F)" by auto
      then show ?thesis using None q(1) by (auto intro!: exI [of _ "Suc i"])
    next
      case (Some w)
      obtain out' st' where w: "w = (out', st')" by (cases w)
      from ih [unfolded Some w option.case prod.case] obtain os where os: "out' = (out @ e') @ concat os" "length os = length cs"
        "\<forall>i<length cs. routed Z F (sum_list (sources S xs (c + Suc i * F) F)) (os ! i)" by blast
      have "\<forall>i<Suc (length cs). routed Z F (sum_list (sources S xs (c + i * F) F)) ((e' # os) ! i)"
        using os(3) q(2) by (auto simp: less_Suc_eq_0_disj)
      then show ?thesis
        using ih [unfolded Some w option.case prod.case] Some q(1) w os same_output_trans [OF q(4)]
        by (auto intro!: exI [of _ "e' # os"])
    qed
  qed
qed

text \<open>The first layer: the batch is padded and routed.\<close>

lemma first_batch:
  fixes ext :: "'a bucket list"
  assumes ok: "sorter_ok m S" and bt: "batch_ok m S (batch st)" and rd: "inputReader st = rd_at xs (numRealPerBucket S) c"
  defines "B \<equiv> KWayButterflySortBasic (bf_rnd S) (numRealPerBucket S) (bf_Z S) (bf_ways S ! 0) 0
      (length (bf_ways S ! 0) - 1) (batch_input S 0 0 ext (batch st) 0) (inputReader st)"
  shows "case B of None \<Rightarrow> crowded (2 ^ m) (prefixes (bf_ways S ! 0)) (sources S xs c (layer_size S 0))
    | Some (bs, rd') \<Rightarrow> routed (2 ^ m) (layer_size S 0) (sum_list (sources S xs c (layer_size S 0))) bs
        \<and> rd' = rd_at xs (numRealPerBucket S) (c + layer_size S 0)
        \<and> (\<forall>r<layer_size S 0. size (class_of (layer_size S 0) r (sum_list (sources S xs c (layer_size S 0)))) < 2 ^ m + of_bool (last (bf_ways S ! 0) = 2))"
proof -
  have l: "0 < length (bf_ways S)" using ok by (auto simp: sorter_ok_def)
  define W where "W = layer_size S 0"
  have W: "W \<le> length (batch st)" using bt l by (auto simp: batch_ok_def W_def)
  define bs where "bs = take W (batch st)"
  have bs: "length bs = layer_size S 0" "\<forall>b\<in>set bs. length b = 2 ^ m" "batch_input S 0 0 ext (batch st) 0 = bs"
    using W bt by (auto simp: bs_def W_def batch_ok_def batch_input_def dest: in_set_takeD)
  obtain bs0 rd0 where prep: "prepare (bf_rnd S) (numRealPerBucket S) 0 bs (inputReader st) = (bs0, rd0)"
    by (cases "prepare (bf_rnd S) (numRealPerBucket S) 0 bs (inputReader st)")
  have R: "numRealPerBucket S \<le> 2 ^ m" using ok by (simp add: sorter_ok_def)
  from prepare_first [OF bs(2) R prep [unfolded rd]] bs(1)
  have p: "map reals bs0 = map (src (bf_rnd S) xs (numRealPerBucket S)) [c..<c + W]" "rd0 = rd_at xs (numRealPerBucket S) (c + W)"
    by (simp_all add: W_def)
  have "map (\<lambda>b. mset (reals b)) bs0 = map mset (map reals bs0)" by simp
  then have s: "map (\<lambda>b. mset (reals b)) bs0 = sources S xs c W" unfolding p(1) sources_def map_map comp_def .
  have t: "mset (reals (concat bs0)) = sum_list (sources S xs c W)"
    unfolding mset_reals_concat s [symmetric] sum_list_nth [symmetric] by simp
  show ?thesis
    using batch_basic [OF ok l bs(1,2) prep] p(2) unfolding B_def bs(3) s t W_def [symmetric] by (auto split: option.splits)
qed

lemma write_all: "length cs = length bs \<Longrightarrow> write_buckets (\<lambda>i. i) cs bs = cs"
  using write_block [of 0 cs bs] by simp

lemma inner_first:
  assumes ok: "sorter_ok m S" "1 < length (bf_ways S)" and ext: "length ext = layer_size S 0"
    and bt: "batch_ok m S (batch st)" and rd: "inputReader st = rd_at xs (numRealPerBucket S) c"
  shows "case layer_batches key S 0 (ext, st) of
      None \<Rightarrow> crowded (2 ^ m) (prefixes (bf_ways S ! 0)) (sources S xs c (layer_size S 0))
    | Some (ext', st') \<Rightarrow> routed (2 ^ m) (layer_size S 0) (sum_list (sources S xs c (layer_size S 0))) ext'
        \<and> inputReader st' = rd_at xs (numRealPerBucket S) (c + layer_size S 0) \<and> same_output m S st st'"
proof -
  define W where "W = layer_size S 0"
  have l: "0 < length (bf_ways S)" "0 \<noteq> length (bf_ways S) - 1" using ok(2) by linarith+
  have W: "0 < W" "W \<le> length (batch st)" using layer_ways(3) [OF ok(1) l(1)] bt l(1) by (auto simp: W_def batch_ok_def)
  define B where "B = KWayButterflySortBasic (bf_rnd S) (numRealPerBucket S) (bf_Z S) (bf_ways S ! 0) 0
      (length (bf_ways S ! 0) - 1) (batch_input S 0 0 ext (batch st) 0) (inputReader st)"
  note fb = first_batch [OF ok(1) bt rd, of ext, folded B_def W_def]
  have "(W + W - 1) div W = 1" using W(1) by (simp add: div_nat_eqI)
  then have lb: "layer_batches key S 0 (ext, st) = butterfly_batch key S 0 1 1 (ext, st) 0"
    using l(2) by (auto simp: layer_batches_def Let_def ext W_def split: option.split)
  have run: "butterfly_batch key S 0 1 1 (ext, st) 0 = (case B of None \<Rightarrow> None
    | Some (bs, rd) \<Rightarrow> let st1 = put_batch S 0 0 bs rd st in Some (write_buckets (\<lambda>b. b) (take W (batch st1)) ext, st1))"
    unfolding B_def
  proof (subst batch_run [where slot = 0])
    show "0 + layer_size S 0 \<le> length (batch st)" using W by (simp add: W_def)
    show "length bs = layer_size S 0" if "KWayButterflySortBasic (bf_rnd S) (numRealPerBucket S) (bf_Z S) (bf_ways S ! 0) 0
        (length (bf_ways S ! 0) - 1) (batch_input S 0 0 ext (batch st) 0) (inputReader st) = Some (bs, rd)" for bs rd
      using fb that unfolding B_def by (simp add: routed_def W_def)
  qed (use l(2) in \<open>simp_all add: W_def Let_def split: option.split\<close>)
  show ?thesis
  proof (cases B)
    case None
    then show ?thesis using fb unfolding lb run W_def [symmetric] by simp
  next
    case (Some p)
    then obtain bs where p: "B = Some (bs, rd_at xs (numRealPerBucket S) (c + W))" "routed (2 ^ m) W (sum_list (sources S xs c W)) bs"
      using fb by (cases p) auto
    have bs: "length bs = W" "\<forall>b\<in>set bs. length b = 2 ^ m" using p(2) by (simp_all add: routed_def)
    define st1 where "st1 = put_batch S 0 0 bs (rd_at xs (numRealPerBucket S) (c + W)) st"
    have "take W (batch st1) = bs" "inputReader st1 = rd_at xs (numRealPerBucket S) (c + W)"
      "outputWriter st1 = outputWriter st" "mergeSortRanges st1 = mergeSortRanges st"
      using bs(1) by (simp_all add: st1_def put_batch_def)
    moreover have "batch_ok m S (batch st1)" "length (batch st1) = length (batch st)"
      using batch_ok_put [of m S st 0 0 bs] bt W(2) bs by (simp_all add: st1_def W_def)
    moreover have "write_buckets (\<lambda>b. b) bs ext = bs" using bs(1) ext by (intro write_all) (simp add: W_def)
    ultimately show ?thesis
      using p(2) unfolding lb run p(1) option.case prod.case Let_def st1_def [symmetric] W_def [symmetric] by (simp add: same_output_def)
  qed
qed

definition layer_spec :: "nat \<Rightarrow> 'a sorter \<Rightarrow> 'a list \<Rightarrow> nat \<Rightarrow> 'a bucket list \<Rightarrow> 'a sorter_state \<Rightarrow> nat
    \<Rightarrow> ('a bucket list \<times> 'a sorter_state) option \<Rightarrow> bool" where
  "layer_spec m S xs l ext st c res = (case res of
      None \<Rightarrow> crowded (2 ^ m) (prefixes (concat (take (Suc l) (bf_ways S)))) (sources S xs c (below S (Suc l)))
    | Some (ext', st') \<Rightarrow> routed (2 ^ m) (below S (Suc l)) (sum_list (sources S xs c (below S (Suc l)))) ext'
        \<and> inputReader st' = rd_at xs (numRealPerBucket S) (c + below S (Suc l)) \<and> same_output m S st st')"

lemma layer_slices:
  assumes ok: "sorter_ok m S" "Suc l < length (bf_ways S)"
    and rec: "\<And>ext st c. length ext = below S (Suc l) \<Longrightarrow> batch_ok m S (batch st) \<Longrightarrow> inputReader st = rd_at xs (numRealPerBucket S) c \<Longrightarrow>
      layer_spec m S xs l ext st c (KWayButterflySortLayer key S l (ext, st))"
    and len: "length ext = W * below S (Suc l)" and bt: "batch_ok m S (batch st)" and rd: "inputReader st = rd_at xs (numRealPerBucket S) c"
  shows "case ofold (\<lambda>(out, st) sub. case KWayButterflySortLayer key S l (sub, st) of None \<Rightarrow> None | Some (sub, st) \<Rightarrow> Some (out @ sub, st))
        ([], st) (chunks (below S (Suc l)) ext) of
      None \<Rightarrow> crowded (2 ^ m) (prefixes (concat (take (Suc l) (bf_ways S)))) (sources S xs c (W * below S (Suc l)))
    | Some (ext1, st1) \<Rightarrow> length ext1 = W * below S (Suc l)
        \<and> (\<forall>i<W. routed (2 ^ m) (below S (Suc l)) (block_sum (below S (Suc l)) (sources S xs c (W * below S (Suc l))) i) (take (below S (Suc l)) (drop (i * below S (Suc l)) ext1)))
        \<and> inputReader st1 = rd_at xs (numRealPerBucket S) (c + W * below S (Suc l)) \<and> same_output m S st st1"
proof -
  define F where "F = below S (Suc l)"
  define Ps where "Ps = prefixes (concat (take (Suc l) (bf_ways S)))"
  have "0 < F" using layer_ways(4) [OF ok] by (simp add: F_def)
  note ch = chunks_blocks [OF len [folded F_def] this]
  have dvd: "\<forall>P\<in>Ps. P dvd F" unfolding Ps_def F_def using prefixes_dvd [of "concat (take (Suc l) (bf_ways S))"] by (simp add: prod_list_concat)
  define loop where "loop = ofold (\<lambda>(out, st) sub. case KWayButterflySortLayer key S l (sub, st) of None \<Rightarrow> None | Some (sub, st) \<Rightarrow> Some (out @ sub, st))
        ([], st) (chunks F ext)"
  have "case loop of None \<Rightarrow> \<exists>i<length (chunks F ext). crowded (2 ^ m) Ps (sources S xs (c + i * F) F)
    | Some (out', st') \<Rightarrow> (\<exists>os. out' = [] @ concat os \<and> length os = length (chunks F ext)
          \<and> (\<forall>i<length (chunks F ext). routed (2 ^ m) F (sum_list (sources S xs (c + i * F) F)) (os ! i)))
        \<and> inputReader st' = rd_at xs (numRealPerBucket S) (c + length (chunks F ext) * F) \<and> same_output m S st st'"
    unfolding loop_def using rec [unfolded layer_spec_def, folded F_def Ps_def] ch(2) bt rd by (intro slices_loop) blast+
  then have lp: "case loop of None \<Rightarrow> \<exists>i<W. crowded (2 ^ m) Ps (sources S xs (c + i * F) F)
    | Some (out', st') \<Rightarrow> (\<exists>os. out' = concat os \<and> length os = W \<and> (\<forall>i<W. routed (2 ^ m) F (sum_list (sources S xs (c + i * F) F)) (os ! i)))
        \<and> inputReader st' = rd_at xs (numRealPerBucket S) (c + W * F) \<and> same_output m S st st'"
    unfolding ch(3) append_Nil .
  show ?thesis
  proof (cases loop)
    case None
    then show ?thesis
      using lp crowded_slice [OF _ _ dvd, of _ W] unfolding loop_def F_def Ps_def by auto
  next
    case (Some p)
    obtain ext1 st1 where p: "p = (ext1, st1)" by (cases p)
    from lp obtain os where os: "ext1 = concat os" "length os = W" "\<forall>i<W. routed (2 ^ m) F (sum_list (sources S xs (c + i * F) F)) (os ! i)"
      "inputReader st1 = rd_at xs (numRealPerBucket S) (c + W * F)" "same_output m S st st1" unfolding Some p by auto
    have lo: "\<forall>e\<in>set os. length e = F" using os(2,3) by (auto simp: in_set_conv_nth routed_def)
    have "length ext1 = W * F" using length_concat_same [OF lo] os(1,2) by simp
    moreover have "routed (2 ^ m) F (block_sum F (sources S xs c (W * F)) i) (take F (drop (i * F) ext1))" if "i < W" for i
      using os(3) that block_of_concat [OF lo] unfolding os(1) block_sum_sources [OF that] by (simp add: os(2))
    ultimately show ?thesis using os(4,5) Some unfolding loop_def p F_def by simp
  qed
qed

lemma inner_layer:
  assumes ok: "sorter_ok m S" "l < length (bf_ways S) - 1" "length ext = below S (Suc l)" "batch_ok m S (batch st)"
    "inputReader st = rd_at xs (numRealPerBucket S) c"
  shows "layer_spec m S xs l ext st c (KWayButterflySortLayer key S l (ext, st))"
  using assms(2-)
proof (induction l arbitrary: ext st c)
  case 0
  have l: "0 < length (bf_ways S)" "1 < length (bf_ways S)" using 0(1) by linarith+
  have e: "below S (Suc 0) = layer_size S 0" "concat (take (Suc 0) (bf_ways S)) = bf_ways S ! 0"
    using l(1) by (cases "bf_ways S"; simp)+
  have "length ext = layer_size S 0" using 0(2) e(1) by simp
  from inner_first [OF ok(1) l(2) this 0(3,4)] show ?case unfolding layer_spec_def e KWayButterflySortLayer.simps .
next
  case (Suc l)
  have l: "Suc l < length (bf_ways S)" "Suc l \<noteq> length (bf_ways S) - 1" "l < length (bf_ways S) - 1" using Suc.prems(1) by linarith+
  define W where "W = layer_size S (Suc l)"
  define F where "F = below S (Suc l)"
  define srcs where "srcs = sources S xs c (W * F)"
  note lw = layer_ways [OF ok(1) l(1), folded W_def F_def]
  have WF: "below S (Suc (Suc l)) = W * F" unfolding W_def F_def by (rule below_Suc [OF l(1)])
  have len: "length ext = W * below S (Suc l)" using Suc.prems(2) WF by (simp add: F_def)
  have sub: "length ext div W = F" using len lw(3) by (simp add: F_def)
  define loop where "loop = ofold (\<lambda>(out, st) sub. case KWayButterflySortLayer key S l (sub, st) of None \<Rightarrow> None | Some (sub, st) \<Rightarrow> Some (out @ sub, st))
        ([], st) (chunks F ext)"
  note ls = layer_slices [OF ok(1) l(1) Suc.IH [OF l(3)] len Suc.prems(3,4), folded F_def, folded loop_def srcs_def]
  have run: "KWayButterflySortLayer key S (Suc l) (ext, st) = (case loop of None \<Rightarrow> None | Some es \<Rightarrow> layer_batches key S (Suc l) es)"
    unfolding KWayButterflySortLayer.simps Let_def W_def [symmetric] sub loop_def ..
  note pre = prefixes_layer [OF l(1), folded F_def]
  show ?case
  proof (cases loop)
    case None
    have "crowded (2 ^ m) (prefixes (concat (take (Suc l) (bf_ways S)))) srcs" using ls unfolding None option.case .
    from crowded_mono [OF this Un_upper1]
    show ?thesis unfolding layer_spec_def run None WF srcs_def [symmetric] pre by simp
  next
    case (Some p)
    obtain ext1 st1 where p: "p = (ext1, st1)" by (cases p)
    have s1: "length ext1 = W * F" "\<forall>i<W. routed (2 ^ m) F (block_sum F srcs i) (take F (drop (i * F) ext1))"
      "inputReader st1 = rd_at xs (numRealPerBucket S) (c + W * F)" "same_output m S st st1"
      using ls unfolding Some p option.case prod.case by blast+
    have bt1: "batch_ok m S (batch st1)" using s1(4) by (simp add: same_output_def)
    have bc: "(W * F + W - 1) div W = F" using lw(3) by (intro div_nat_eqI) (simp_all add: mult.commute)
    have lb: "layer_batches key S (Suc l) (ext1, st1) = ofold (butterfly_batch key S (Suc l) 1 F) (ext1, st1) [0..<F]"
      using l(2) s1(1) bc unfolding W_def by (simp add: layer_batches_def Let_def)
    have blocks: "i < W \<Longrightarrow> routed (2 ^ m) F (block_sum F srcs i) (take F (drop (i * F) ext1))" for i using s1(2) by simp
    have ib: "case ofold (butterfly_batch key S (Suc l) 1 F) (ext1, st1) [0..<F] of
      None \<Rightarrow> crowded (2 ^ m) ((\<lambda>P. P * F) ` prefixes (bf_ways S ! Suc l)) srcs
    | Some (ext', st') \<Rightarrow> \<exists>cols. (\<forall>j<F. routed (2 ^ m) W (column_content W F (block_sum F srcs) j) (cols j))
        \<and> length ext' = length ext1 \<and> (\<forall>i<W. \<forall>j<F. ext' ! (i * F + j) = (if j < F then cols j ! i else ext1 ! (i * F + j)))
        \<and> inputReader st' = inputReader st1 \<and> batch_ok m S (batch st') \<and> length (batch st') = length (batch st1)
        \<and> outputWriter st' = outputWriter st1 \<and> mergeSortRanges st' = mergeSortRanges st1"
      unfolding W_def F_def
      by (rule inner_batches [OF ok(1) zero_less_Suc Suc.prems(1)]) (use blocks s1(1) bt1 in \<open>simp_all add: W_def F_def srcs_def\<close>)
    show ?thesis
    proof (cases "ofold (butterfly_batch key S (Suc l) 1 F) (ext1, st1) [0..<F]")
      case None
      have "crowded (2 ^ m) ((\<lambda>P. P * F) ` prefixes (bf_ways S ! Suc l)) srcs" using ib unfolding None option.case .
      from crowded_mono [OF this Un_upper2]
      show ?thesis unfolding layer_spec_def run Some p option.case lb None WF srcs_def [symmetric] pre by simp
    next
      case r: (Some q)
      obtain ext2 st2 where q: "q = (ext2, st2)" by (cases q)
      from ib [unfolded r q option.case prod.case] obtain cols where c: "\<forall>j<F. routed (2 ^ m) W (column_content W F (block_sum F srcs) j) (cols j)"
        "length ext2 = length ext1" "\<forall>i<W. \<forall>j<F. ext2 ! (i * F + j) = (if j < F then cols j ! i else ext1 ! (i * F + j))"
        "inputReader st2 = inputReader st1" "same_output m S st1 st2" unfolding same_output_def by blast
      have "routed (2 ^ m) (W * F) (\<Sum>i<W. block_sum F srcs i) ext2"
        using c(1-3) s1(1) by (intro compose_routed [OF lw(3,4,6), of ext2 "2 ^ m" "block_sum F srcs" cols]) simp_all
      moreover have "(\<Sum>i<W. block_sum F srcs i) = sum_list srcs" using block_sum_add [of F srcs 0 W] by (simp add: srcs_def)
      ultimately show ?thesis
        using c(4) s1(3) same_output_trans [OF s1(4) c(5)] unfolding layer_spec_def run Some p option.case lb r q prod.case WF srcs_def [symmetric] by simp
    qed
  qed
qed

section \<open>The last layer\<close>

abbreviation last_layer :: "'a sorter \<Rightarrow> nat" where
  "last_layer S \<equiv> length (bf_ways S) - 1"

text \<open>The elements that arrive in batch \<open>j\<close> of the last layer.\<close>

definition arrivals :: "'a sorter \<Rightarrow> 'a list \<Rightarrow> nat \<Rightarrow> 'a TaggedT multiset" where
  "arrivals S xs j = (let W = layer_size S (last_layer S); F = below S (last_layer S)
    in column_content W F (block_sum F (sources S xs 0 (W * F))) j)"

text \<open>The state before a batch of the last layer.\<close>

definition before_last :: "nat \<Rightarrow> 'a sorter \<Rightarrow> 'a list \<Rightarrow> 'a bucket list \<Rightarrow> 'a reader \<Rightarrow> nat \<Rightarrow> bool" where
  "before_last m S xs ext rd j = (let W = layer_size S (last_layer S); F = below S (last_layer S)
    in length ext = W * F \<and> (if last_layer S > 0
       then \<forall>i<W. routed (2 ^ m) F (block_sum F (sources S xs 0 (W * F)) i) (take F (drop (i * F) ext))
       else j = 0 \<longrightarrow> rd = rd_at xs (numRealPerBucket S) 0))"

lemma last_layer_less: "sorter_ok m S \<Longrightarrow> last_layer S < length (bf_ways S)"
  by (auto simp: sorter_ok_def)

lemma arrivals_single:
  assumes "sorter_ok m S" "last_layer S = 0"
  shows "arrivals S xs 0 = sum_list (sources S xs 0 (layer_size S 0))" "below S 0 = 1"
proof -
  define W where "W = layer_size S 0"
  have c: "class_of (Suc 0) 0 M = M" for M :: "'a TaggedT multiset" by (simp add: class_of_def)
  have "arrivals S xs 0 = (\<Sum>i<W. block_sum 1 (sources S xs 0 W) (0 + i))"
    using assms(2) by (simp add: arrivals_def Let_def W_def c)
  also have "\<dots> = sum_list (sources S xs 0 W)" unfolding block_sum_add by simp
  finally show "arrivals S xs 0 = sum_list (sources S xs 0 (layer_size S 0))" by (simp add: W_def)
qed simp

lemma last_batch:
  assumes ok: "sorter_ok m S" and st: "before_last m S xs ext (inputReader st) j" "batch_ok m S (batch st)"
    and j: "j < below S (last_layer S)" "slot = j mod bpe * layer_size S (last_layer S)" "slot + layer_size S (last_layer S) \<le> length (batch st)"
      "last_layer S = 0 \<Longrightarrow> slot = 0"
  shows "case butterfly_batch key S (last_layer S) bpe bc (ext, st) j of
      None \<Rightarrow> crowded (2 ^ m) (prefixes (concat (bf_ways S))) (sources S xs 0 (layer_size S (last_layer S) * below S (last_layer S)))
    | Some (ext', st') \<Rightarrow> ext' = ext \<and> (\<exists>bs rd. st' = finish_batch key S (layer_size S (last_layer S)) bpe bc j (put_batch S (last_layer S) slot bs rd st)
        \<and> routed (2 ^ m) (layer_size S (last_layer S)) (arrivals S xs j) bs
        \<and> (\<forall>r<layer_size S (last_layer S). size (class_of (layer_size S (last_layer S)) r (arrivals S xs j)) < 2 ^ m + of_bool (last (last (bf_ways S)) = 2)))"
proof -
  define l where "l = last_layer S"
  define W where "W = layer_size S l"
  define F where "F = below S l"
  define srcs where "srcs = sources S xs 0 (W * F)"
  define Ps where "Ps = prefixes (concat (bf_ways S))"
  have l: "l < length (bf_ways S)" unfolding l_def by (rule last_layer_less [OF ok])
  note lw = layer_ways [OF ok l, folded W_def F_def]
  have ne: "bf_ways S \<noteq> []" using l by auto
  then have ws: "take (Suc l) (bf_ways S) = bf_ways S" "bf_ways S ! l = last (bf_ways S)" by (simp_all add: l_def last_conv_nth)
  have pre: "Ps = prefixes (concat (take l (bf_ways S))) \<union> (\<lambda>P. P * F) ` prefixes (bf_ways S ! l)"
    using prefixes_layer [OF l] unfolding ws(1) Ps_def F_def .
  define bi where "bi = batch_input S l slot ext (batch st) j"
  define B where "B = KWayButterflySortBasic (bf_rnd S) (numRealPerBucket S) (bf_Z S) (bf_ways S ! l) l (length (bf_ways S ! l) - 1) bi (inputReader st)"
  have B: "case B of None \<Rightarrow> crowded (2 ^ m) Ps srcs
    | Some (bs, rd) \<Rightarrow> routed (2 ^ m) W (arrivals S xs j) bs \<and> (\<forall>r<W. size (class_of W r (arrivals S xs j)) < 2 ^ m + of_bool (last (last (bf_ways S)) = 2))"
  proof (cases "l = 0")
    case True
    have F1: "F = 1" "below S 0 = 1" "j = 0" using arrivals_single(2) [OF ok] True j(1) by (simp_all add: l_def F_def)
    have rd: "inputReader st = rd_at xs (numRealPerBucket S) 0" "slot = 0" using st(1) True F1(3) j(4) by (simp_all add: before_last_def Let_def l_def)
    have a: "arrivals S xs j = sum_list (sources S xs 0 (layer_size S 0))" using arrivals_single(1) [OF ok] True F1(3) by (simp add: l_def)
    have "crowded (2 ^ m) Ps srcs" if "crowded (2 ^ m) (prefixes (bf_ways S ! 0)) (sources S xs 0 (layer_size S 0))"
    proof (rule crowded_mono)
      show "crowded (2 ^ m) (prefixes (bf_ways S ! 0)) srcs" using that True F1(1) by (simp add: srcs_def W_def)
      show "prefixes (bf_ways S ! 0) \<subseteq> Ps" unfolding pre True F1(1) by auto
    qed
    then show ?thesis
      using first_batch [OF ok st(2) rd(1), of ext] unfolding B_def bi_def True rd(2) F1(3) a [unfolded F1(3)] W_def ws(2) [unfolded True, symmetric]
      by (auto split: option.splits)
  next
    case False
    then have l0: "0 < l" "last_layer S > 0" by (simp_all add: l_def)
    have e: "length ext = W * F" "\<And>i. i < W \<Longrightarrow> routed (2 ^ m) F (block_sum F srcs i) (take F (drop (i * F) ext))"
      using st(1) l0(2) by (simp_all add: before_last_def Let_def l_def W_def F_def srcs_def)
    have jF: "j < F" using j(1) by (simp add: F_def l_def)
    have bi: "bi = column W F ext j" using l0(1) by (simp add: bi_def batch_input_def W_def F_def)
    note rc = routed_columns [OF e(2) jF e(1)]
    have a: "arrivals S xs j = column_content W F (block_sum F srcs) j" by (simp add: arrivals_def Let_def W_def F_def srcs_def l_def)
    have prep: "prepare (bf_rnd S) (numRealPerBucket S) l bi (inputReader st) = (bi, inputReader st)" using l0(1) by (simp add: prepare_def)
    have m1: "map (\<lambda>b. mset (reals b)) bi = map (\<lambda>i. image_mset (next_tag F) (class_of F j (block_sum F srcs i))) [0..<W]"
      "mset (reals (concat bi)) = arrivals S xs j" "\<forall>b\<in>set bi. length b = 2 ^ m" "length bi = layer_size S l"
      using rc unfolding bi a by (blast, blast, blast, simp add: W_def)
    have "crowded (2 ^ m) Ps srcs" if "crowded (2 ^ m) (prefixes (bf_ways S ! l)) (map (\<lambda>i. image_mset (next_tag F) (class_of F j (block_sum F srcs i))) [0..<W])"
    proof (rule crowded_mono)
      show "crowded (2 ^ m) ((\<lambda>P. P * F) ` prefixes (bf_ways S ! l)) srcs"
        by (rule crowded_column [OF jF lw(6) _ that]) (simp add: srcs_def)
    qed (simp add: pre)
    then show ?thesis
      using batch_basic [OF ok l m1(4,3) prep, folded B_def, unfolded m1(1,2) ws(2) [symmetric]] unfolding W_def ws(2) [symmetric]
      by (auto split: option.splits)
  qed
  have run: "butterfly_batch key S l bpe bc (ext, st) j = (case B of None \<Rightarrow> None
      | Some (bs, rd) \<Rightarrow> Some (ext, finish_batch key S W bpe bc j (put_batch S l slot bs rd st)))"
    unfolding B_def bi_def
  proof (subst batch_run)
    show "slot = j mod bpe * layer_size S l" "slot + layer_size S l \<le> length (batch st)" using j(2,3) by (simp_all add: l_def)
    show "length bs = layer_size S l" if "KWayButterflySortBasic (bf_rnd S) (numRealPerBucket S) (bf_Z S) (bf_ways S ! l) l
        (length (bf_ways S ! l) - 1) (batch_input S l slot ext (batch st) j) (inputReader st) = Some (bs, rd)" for bs rd
      using B that unfolding B_def bi_def by (simp add: routed_def W_def)
  qed (simp add: l_def W_def Let_def split: option.split)
  show ?thesis
  proof (cases B)
    case None
    then show ?thesis
      using B unfolding l_def [symmetric] W_def [symmetric] F_def [symmetric] srcs_def [symmetric] Ps_def [symmetric] run by simp
  next
    case (Some p)
    obtain bs rd where p: "p = (bs, rd)" by (cases p)
    then show ?thesis
      using B Some unfolding l_def [symmetric] W_def [symmetric] F_def [symmetric] srcs_def [symmetric] Ps_def [symmetric] run Some p option.case prod.case
      by blast
  qed
qed

end
