(* ===== verification/Ext_Merge.thy ===== *)
theory Ext_Merge
  imports Merge_Split
begin

text \<open>
  The external merge sort of \<open>sort_building_blocks.hpp\<close>.  Ranges of a vector are the lists of their
  elements.  The comparison of elements is the comparison of a key.
\<close>

section \<open>Definitions\<close>

text \<open>The loop on the heap of readers.  Only the first element of a standard heap is used, and that it is a
  least one; the model keeps the readers sorted by their next element.\<close>

function heap_merge :: "('a \<Rightarrow> 'k::linorder) \<Rightarrow> 'a list list \<Rightarrow> 'a list" where
  "heap_merge key heap =
    (case sort_key (\<lambda>r. key (hd r)) heap of
       [] \<Rightarrow> []
     | topr # rest \<Rightarrow> hd topr # heap_merge key (if tl topr = [] then rest else rest @ [tl topr]))"
  by pat_completeness auto
termination
proof (relation "measure (\<lambda>(key, heap). sum_list (map (\<lambda>r. Suc (length r)) heap))", goal_cases)
  case (2 key heap topr rest)
  have "sum_list (map (\<lambda>r. Suc (length r)) heap) = sum_list (map (\<lambda>r. Suc (length r)) (sort_key (\<lambda>r. key (hd r)) heap))"
    by (simp flip: sum_mset_sum_list)
  then show ?case using 2 by (cases topr) auto
qed simp

declare heap_merge.simps [simp del]

text \<open>A single range is copied.  Otherwise the first element of every reader is looked at, which is out of
  range for an empty one.  \<open>n\<close> is the number of the ranges that the caller passed.\<close>

definition merge_runs :: "('a \<Rightarrow> 'k::linorder) \<Rightarrow> nat \<Rightarrow> 'a list list \<Rightarrow> 'a list option" where
  "merge_runs key n runs =
    (if n = 1 then Some (hd runs) else if list_ex (\<lambda>r. r = []) runs then None else Some (heap_merge key runs))"

text \<open>With more ranges than \<open>maxWay\<close> groups of ranges are merged first.  The size of the groups is computed in
  floating point (\<open>pow (rangeCount, 1.0 / passNeeded)\<close>); \<open>pow_way\<close> stands for this number.  Groups that are not
  smaller than the whole make the code call itself for ever.\<close>

lemma chunks_le: "c \<in> set (chunks n xs) \<Longrightarrow> length c \<le> n"
proof (induction n xs rule: chunks.induct)
  case (1 n xs)
  then show ?case by (cases "n = 0 \<or> xs = []") (auto simp: chunks.simps [of n xs])
qed

function ExtMergeSort :: "('a \<Rightarrow> 'k::linorder) \<Rightarrow> (nat \<Rightarrow> nat \<Rightarrow> nat) \<Rightarrow> nat \<Rightarrow> 'a list list \<Rightarrow> 'a list option" where
  "ExtMergeSort key pow_way maxWay mergeRanges =
    (let rangeCount = length mergeRanges
     in if rangeCount \<le> maxWay then merge_runs key rangeCount mergeRanges
        else let way = pow_way rangeCount maxWay;
                 subRangeCount = (rangeCount + way - 1) div way
             in if way = 0 \<or> rangeCount \<le> subRangeCount then None
                else case those (map (ExtMergeSort key pow_way maxWay) (chunks subRangeCount mergeRanges)) of
                       None \<Rightarrow> None
                     | Some newMergeRanges \<Rightarrow> merge_runs key rangeCount newMergeRanges)"
  by pat_completeness auto
termination
  by (relation "measure (\<lambda>(key, pow_way, maxWay, runs). length runs)") (auto dest!: chunks_le)

declare ExtMergeSort.simps [simp del]

text \<open>The sort of a whole vector: batches that fit in memory are sorted by \<open>std::sort\<close>.\<close>

definition ExtMergeSortVec ::
  "('a \<Rightarrow> 'k::linorder) \<Rightarrow> (nat \<Rightarrow> nat \<Rightarrow> nat) \<Rightarrow> nat \<Rightarrow> nat \<Rightarrow> 'a list \<Rightarrow> 'a list option" where
  "ExtMergeSortVec key pow_way batchSize item_per_page xs =
    (let batchCount = (length xs + batchSize - 1) div batchSize
     in if batchCount = 1 then Some (sort_key key xs)
        else ExtMergeSort key pow_way (batchSize div (2 * item_per_page)) (map (sort_key key) (chunks batchSize xs)))"

section \<open>Merging\<close>

lemma heap_merge_spec:
  assumes "\<forall>r\<in>set heap. r \<noteq> [] \<and> sorted (map key r)"
  shows "mset (heap_merge key heap) = mset (concat heap) \<and> sorted (map key (heap_merge key heap))"
  using assms
proof (induction key heap rule: heap_merge.induct)
  case (1 key heap)
  have m: "mset (sort_key (\<lambda>r. key (hd r)) heap) = mset heap" by simp
  then have set: "set (sort_key (\<lambda>r. key (hd r)) heap) = set heap" by simp
  show ?case
  proof (cases "sort_key (\<lambda>r. key (hd r)) heap")
    case Nil
    then show ?thesis using m by (simp add: heap_merge.simps [of key "[]"])
  next
    case (Cons topr rest)
    define heap' where "heap' = (if tl topr = [] then rest else rest @ [tl topr])"
    have e: "heap_merge key heap = hd topr # heap_merge key heap'" using Cons by (simp add: heap_merge.simps [of key heap] heap'_def)
    have topr: "topr \<in> set heap" "set rest \<subseteq> set heap" using set Cons by auto
    then have t: "topr = hd topr # tl topr" "sorted (map key topr)" using 1(2) by auto
    have s: "sorted (map key (tl topr))" "\<forall>x\<in>set (tl topr). key (hd topr) \<le> key x"
      using t by (metis list.simps(9) sorted_simps(2), metis (no_types, lifting) imageE image_eqI list.set_map list.simps(9) sorted_simps(2))
    have h': "\<forall>r\<in>set heap'. r \<noteq> [] \<and> sorted (map key r)" using 1(2) topr(2) s(1) by (auto simp: heap'_def)
    note ih = 1(1) [OF Cons, folded heap'_def, OF h']
    have "mset (concat xss) = sum_mset (image_mset mset (mset xss))" for xss :: "'a list list" by (induction xss) simp_all
    then have "mset (concat heap) = mset (concat (sort_key (\<lambda>r. key (hd r)) heap))" using m by simp
    also have "\<dots> = add_mset (hd topr) (mset (concat heap'))" unfolding Cons by (subst t(1)) (simp add: heap'_def)
    finally have c: "mset (concat heap) = add_mset (hd topr) (mset (concat heap'))" .
    have least: "key (hd topr) \<le> key x" if "x \<in> set (concat heap')" for x
    proof -
      from that consider "x \<in> set (tl topr)" | r where "r \<in> set rest" "x \<in> set r" by (auto simp: heap'_def split: if_splits)
      then show ?thesis
      proof cases
        case 2
        have "sorted (map (\<lambda>r. key (hd r)) (topr # rest))" unfolding Cons [symmetric] by (rule sorted_sort_key)
        then have "key (hd topr) \<le> key (hd r)" using 2(1) by auto
        also have "r \<noteq> []" "sorted (map key r)" using 1(2) topr(2) 2(1) by auto
        then have "key (hd r) \<le> key x" using 2(2) by (cases r) auto
        finally show ?thesis .
      qed (use s(2) in blast)
    qed
    have "set (heap_merge key heap') = set (concat heap')" using ih by (metis set_mset_mset)
    then show ?thesis using ih c least by (auto simp: e)
  qed
qed

lemma those_Some: "those (map f cs) = Some ys \<longleftrightarrow> list_all2 (\<lambda>c y. f c = Some y) cs ys"
  by (induction cs arbitrary: ys) (auto simp: list_all2_Cons1 split: option.splits)

lemma chunks_nonempty: "c \<in> set (chunks n xs) \<Longrightarrow> c \<noteq> []"
proof (induction n xs rule: chunks.induct)
  case (1 n xs)
  then show ?case by (cases "n = 0 \<or> xs = []") (auto simp: chunks.simps [of n xs])
qed

lemma mset_concat_parts:
  "(\<And>c. c \<in> set cs \<Longrightarrow> mset (f c) = mset (concat c)) \<Longrightarrow> mset (concat (map f cs)) = mset (concat (concat cs))"
  by (induction cs) simp_all

lemma ExtMergeSort_spec:
  assumes "\<forall>r\<in>set runs. r \<noteq> [] \<and> sorted (map key r)" "0 < maxWay" "\<And>n. maxWay < n \<Longrightarrow> 2 \<le> pow_way n maxWay"
  shows "\<exists>ys. ExtMergeSort key pow_way maxWay runs = Some ys \<and> mset ys = mset (concat runs) \<and> sorted (map key ys)"
  using assms(1)
proof (induction "length runs" arbitrary: runs rule: less_induct)
  case less
  have mr: "\<exists>ys. merge_runs key n rs = Some ys \<and> mset ys = mset (concat rs) \<and> sorted (map key ys)"
    if "\<forall>r\<in>set rs. r \<noteq> [] \<and> sorted (map key r)" "n = 1 \<Longrightarrow> length rs = 1" for n and rs :: "'a list list"
    using heap_merge_spec [OF that(1)] that by (cases rs) (auto simp: merge_runs_def list_ex_iff)
  show ?case
  proof (cases "length runs \<le> maxWay")
    case True
    then show ?thesis using mr [OF less(2)] by (simp add: ExtMergeSort.simps [of key pow_way maxWay runs])
  next
    case False
    define way where "way = pow_way (length runs) maxWay"
    define sub where "sub = (length runs + way - 1) div way"
    have way: "2 \<le> way" using assms(3) False by (simp add: way_def)
    have n: "2 \<le> length runs" using False assms(2) by linarith
    have "length runs + way - 1 < length runs * way"
    proof -
      have "length runs * way \<ge> length runs * 2" "length runs * way \<ge> 2 * way" using way n by simp_all
      then show ?thesis using way n by linarith
    qed
    then have sub: "0 < sub" "sub < length runs"
      using way n by (auto simp: sub_def div_greater_zero_iff less_mult_imp_div_less)
    have cs: "\<exists>y. ExtMergeSort key pow_way maxWay c = Some y \<and> mset y = mset (concat c) \<and> sorted (map key y) \<and> y \<noteq> []"
      if "c \<in> set (chunks sub runs)" for c
    proof -
      have "set c \<subseteq> set runs" using that arg_cong [OF concat_chunks [OF sub(1)], of set runs] by auto
      moreover have "c \<noteq> []" using chunks_nonempty [OF that] .
      moreover have "length c < length runs" using chunks_le [OF that] sub(2) by linarith
      ultimately have ok: "\<forall>r\<in>set c. r \<noteq> [] \<and> sorted (map key r)" "mset (concat c) \<noteq> {#}" using less(2) by (cases c; auto)+
      from less(1) [OF \<open>length c < length runs\<close> ok(1)] ok(2) show ?thesis by (metis mset.simps(1))
    qed
    define ys where "ys = map (\<lambda>c. the (ExtMergeSort key pow_way maxWay c)) (chunks sub runs)"
    have th: "those (map (ExtMergeSort key pow_way maxWay) (chunks sub runs)) = Some ys"
      unfolding those_Some ys_def list_all2_map2 by (rule list.rel_refl_strong) (use cs in force)
    have ys: "\<forall>r\<in>set ys. r \<noteq> [] \<and> sorted (map key r)" using cs by (fastforce simp: ys_def)
    have "mset (concat ys) = mset (concat (concat (chunks sub runs)))"
      unfolding ys_def
    proof (rule mset_concat_parts)
      show "mset (the (ExtMergeSort key pow_way maxWay c)) = mset (concat c)" if "c \<in> set (chunks sub runs)" for c
        using cs [OF that] by auto
    qed
    then have m: "mset (concat ys) = mset (concat runs)" using sub(1) by simp
    have "ExtMergeSort key pow_way maxWay runs = merge_runs key (length runs) ys"
      unfolding ExtMergeSort.simps [of key pow_way maxWay runs] Let_def way_def [symmetric] sub_def [symmetric]
      using False way sub(2) th by simp
    then show ?thesis using mr [OF ys, of "length runs"] n m by simp
  qed
qed

lemma ExtMergeSortVec_spec:
  assumes "0 < item_per_page" "2 * item_per_page \<le> batchSize"
    and "\<And>n. batchSize div (2 * item_per_page) < n \<Longrightarrow> 2 \<le> pow_way n (batchSize div (2 * item_per_page))"
  shows "\<exists>ys. ExtMergeSortVec key pow_way batchSize item_per_page xs = Some ys \<and> mset ys = mset xs \<and> sorted (map key ys)"
proof -
  have b: "0 < batchSize" "0 < batchSize div (2 * item_per_page)" using assms(1,2) by (simp_all add: div_greater_zero_iff)
  have runs: "\<forall>r\<in>set (map (sort_key key) (chunks batchSize xs)). r \<noteq> [] \<and> sorted (map key r)"
    using chunks_nonempty [of _ batchSize xs] by (auto simp: sorted_sort_key) (metis length_0_conv length_sort)
  have "mset (concat (map (sort_key key) cs)) = mset (concat cs)" for cs by (induction cs) simp_all
  then have "mset (concat (map (sort_key key) (chunks batchSize xs))) = mset xs" using b(1) by simp
  then show ?thesis using ExtMergeSort_spec [where pow_way = pow_way, OF runs b(2) assms(3)] by (auto simp: ExtMergeSortVec_def Let_def)
qed

section \<open>Properties\<close>

text \<open>(C9) The external merge sort sorts: it returns for every vector and the result is a sorted permutation,
  whatever number of passes its floating-point formula chooses, as long as every pass merges at least two
  ranges.\<close>

theorem ExtMergeSort_sorts:
  assumes "0 < item_per_page" "2 * item_per_page \<le> batchSize"
    and "\<And>n. batchSize div (2 * item_per_page) < n \<Longrightarrow> 2 \<le> pow_way n (batchSize div (2 * item_per_page))"
  shows "\<exists>ys. ExtMergeSortVec key pow_way batchSize item_per_page xs = Some ys \<and> mset ys = mset xs \<and> sorted (map key ys)"
  using ExtMergeSortVec_spec [where pow_way = pow_way, OF assms] .

theorem ExtMergeSort_sorts_witness:
  "\<exists>ys. ExtMergeSortVec id (\<lambda>n maxWay. 2) 2 1 [5, 3, 9, 1, 7 :: nat] = Some ys \<and> sorted ys"
  using ExtMergeSort_sorts [of 1 2 "\<lambda>n maxWay. 2" id "[5, 3, 9, 1, 7 :: nat]"] by auto

end
