(* ===== verification/Butterfly_Output.thy ===== *)
theory Butterfly_Output
  imports Butterfly_Sort Ext_Merge
begin

text \<open>
  What the butterfly sort and shuffle write, and the functions that call \<open>ButterflySorter\<close>
  (\<open>kway_butterfly_sort.hpp\<close>).
\<close>

section \<open>Definitions\<close>

text \<open>Subtraction of \<open>uint64_t\<close> wraps.\<close>

definition sub64 :: "nat \<Rightarrow> nat \<Rightarrow> nat" where
  "sub64 a b = nat ((int a - int b) mod 2 ^ 64)"

text \<open>The constructor.  \<open>wrapped\<close> is the size of a tagged element in bytes.\<close>

definition ButterflySorter ::
  "SortMethod \<Rightarrow> bool \<Rightarrow> KWayButterflyParams \<Rightarrow> nat \<Rightarrow> nat \<Rightarrow> nat \<Rightarrow> (nat \<Rightarrow> u64) \<Rightarrow> 'a sorter" where
  "ButterflySorter tsk single P sz heapSize wrapped rnd =
    \<lparr>task = tsk, singleBatch = single, bf_ways = ways P, bf_Z = kp_Z P, numTotalBucket = totalBucket P,
     numRealPerBucket = 1 + (sz - 1) div totalBucket P,
     numElementFit = sub64 (sub64 heapSize (16 * kp_Z P) div wrapped) (8 * kp_Z P), bf_rnd = rnd\<rparr>"

text \<open>The batch holds what the memory held.\<close>

definition raw_buckets :: "(nat \<Rightarrow> 'a TaggedT) \<Rightarrow> nat \<Rightarrow> nat \<Rightarrow> 'a bucket list" where
  "raw_buckets mem Z n = map (\<lambda>b. map (\<lambda>i. mem (b * Z + i)) [0..<Z]) [0..<n]"

definition batch_buckets :: "'a sorter \<Rightarrow> nat" where
  "batch_buckets S = (if singleBatch S then Max (set (map prod_list (bf_ways S))) else numElementFit S div bf_Z S)"

text \<open>\<open>ButterflySorter::sort\<close>; in a single batch there is no external vector, and the layer does not read it.\<close>

definition ButterflySorter_sort ::
  "('a \<Rightarrow> 'k::linorder) \<Rightarrow> 'a sorter \<Rightarrow> (nat \<Rightarrow> 'a TaggedT) \<Rightarrow> 'a list \<Rightarrow> ('a list \<times> (nat \<times> nat) list) option" where
  "ButterflySorter_sort key S mem xs =
    (let st = \<lparr>inputReader = (xs, 0), batch = raw_buckets mem (bf_Z S) (batch_buckets S), outputWriter = [], mergeSortRanges = []\<rparr>
     in case KWayButterflySortLayer key S (length (bf_ways S) - 1) (raw_buckets mem (bf_Z S) (numTotalBucket S), st) of
          None \<Rightarrow> None
        | Some (ext, st) \<Rightarrow> Some (outputWriter st, mergeSortRanges st))"

text \<open>\<open>KWayButterflySort\<close> and \<open>KWayButterflyOShuffle\<close> between a reader and a writer.  The parameters come from
  \<open>bestKWayButterflyParams\<close> of \<open>param_select.hpp\<close>, which computes in floating point; it is an argument.
  \<open>szT\<close> and \<open>wrapped\<close> are the sizes of the elements.\<close>

definition vec_range :: "'a list \<Rightarrow> nat \<times> nat \<Rightarrow> 'a list" where
  "vec_range out r = take (snd r - fst r) (drop (fst r) out)"

definition KWayButterflySort ::
  "('a \<Rightarrow> 'k::linorder) \<Rightarrow> (nat \<Rightarrow> nat \<Rightarrow> KWayButterflyParams) \<Rightarrow> (nat \<Rightarrow> nat \<Rightarrow> nat) \<Rightarrow> nat \<Rightarrow> nat \<Rightarrow> nat \<Rightarrow> nat
    \<Rightarrow> (nat \<Rightarrow> u64) \<Rightarrow> (nat \<Rightarrow> 'a TaggedT) \<Rightarrow> 'a list \<Rightarrow> 'a list option" where
  "KWayButterflySort key bestParams pow_way szT wrapped item_per_page heapSize rnd mem xs =
    (let N = length xs
     in if N \<le> 512 then Some (BitonicSort (\<lambda>a b. key a < key b) True xs)
        else let heapSize = min heapSize (max N 4096 * wrapped * 2);
                 P = bestParams N (heapSize div wrapped);
                 single = (length (ways P) = 1);
                 S = ButterflySorter KWAYBUTTERFLYOSORT single P N heapSize wrapped rnd
             in case ButterflySorter_sort key S mem xs of
                  None \<Rightarrow> None
                | Some (out, ranges) \<Rightarrow>
                    if single then Some out
                    else ExtMergeSort key pow_way (heapSize div (szT * item_per_page * 2)) (map (vec_range out) ranges))"

definition KWayButterflyOShuffle ::
  "(nat \<Rightarrow> nat \<Rightarrow> KWayButterflyParams) \<Rightarrow> ('g \<Rightarrow> u64 \<times> 'g) \<Rightarrow> ('g \<Rightarrow> bool \<times> 'g) \<Rightarrow> 'g \<Rightarrow> nat \<Rightarrow> nat
    \<Rightarrow> (nat \<Rightarrow> u64) \<Rightarrow> (nat \<Rightarrow> 'a TaggedT) \<Rightarrow> 'a list \<Rightarrow> 'a list option" where
  "KWayButterflyOShuffle bestParams rand64 rand1 g wrapped heapSize rnd mem xs =
    (let N = length xs
     in if N \<le> 512 then Some (fst (OrShuffle rand64 rand1 xs g))
        else let heapSize = min heapSize (max N 4096 * wrapped * 2);
                 P = bestParams N (heapSize div wrapped);
                 S = ButterflySorter KWAYBUTTERFLYOSHUFFLE (length (ways P) = 1) P N heapSize wrapped rnd
             in case ButterflySorter_sort (\<lambda>x. 0 :: nat) S mem xs of
                  None \<Rightarrow> None | Some (out, ranges) \<Rightarrow> Some out)"

section \<open>Sorting the buckets of a batch\<close>

lemma bucket_sort:
  assumes "length b \<le> 2 ^ 63"
  shows "mset (BitonicSort cmpTag True b) = mset b" "sorted (map tag (BitonicSort cmpTag True b))" "length (BitonicSort cmpTag True b) = length b"
  using tag_order.BitonicSort_ascending [OF assms] by simp_all

lemma routed_sorted:
  assumes "routed (2 ^ m) W M bs" "m \<le> 63"
  shows "routed (2 ^ m) W M (map (BitonicSort cmpTag True) bs)"
proof -
  have len: "length b \<le> 2 ^ 63" if "b \<in> set bs" for b
    using assms that power_increasing [of m 63 "2 :: nat"] by (simp add: routed_def)
  have "mset (reals (BitonicSort cmpTag True (bs ! j))) = mset (reals (bs ! j))" if "j < length bs" for j
    using bucket_sort(1) [OF len [OF nth_mem [OF that]]] by simp
  then show ?thesis using assms(1) len bucket_sort(3) by (auto simp: routed_def)
qed

lemma class_of_all: "0 < W \<Longrightarrow> (\<Sum>j<W. class_of W j M) = M"
proof (induction M)
  case (add e M)
  have "(\<Sum>j<W. class_of W j (add_mset e M)) = (\<Sum>j<W. (if j = unat (tag e) mod W then {#e#} else {#}) + class_of W j M)"
    by (intro sum.cong) (auto simp: class_of_def)
  also have "\<dots> = {#e#} + (\<Sum>j<W. class_of W j M)" using add(2) by (simp add: sum.distrib sum.delta)
  finally show ?case using add by simp
qed (simp add: class_of_def)

lemma v_next_tag [simp]: "v (next_tag W e) = v e"
  by (simp add: next_tag_def)

lemma values_next_tag: "image_mset v (image_mset (next_tag W) N) = image_mset v N"
  unfolding image_mset.compositionality by (simp add: comp_def)

lemma routed_content:
  assumes "routed Z W M bs" "0 < W"
  shows "image_mset v (mset (reals (concat bs))) = image_mset v M"
proof -
  have "mset (reals (concat bs)) = (\<Sum>j<W. image_mset (next_tag W) (class_of W j M))"
    unfolding mset_reals_concat using assms(1) by (auto simp: routed_def intro!: sum.cong)
  then have "image_mset v (mset (reals (concat bs))) = (\<Sum>j<W. image_mset v (class_of W j M))" by (simp only: image_mset_sum values_next_tag)
  also have "\<dots> = image_mset v (\<Sum>j<W. class_of W j M)" by (simp only: image_mset_sum)
  finally show ?thesis unfolding class_of_all [OF assms(2)] .
qed

text \<open>A bucket that is not full has a dummy.\<close>

lemma has_dummy:
  assumes "length (reals b) < length b"
  shows "\<exists>e\<in>set b. isDummy e"
proof (rule ccontr)
  assume "\<not> (\<exists>e\<in>set b. isDummy e)"
  then have "reals b = b" by simp
  then show False using assms by simp
qed

lemma routed_dummy:
  assumes "routed Z W M bs" "0 < W" "(\<forall>r<W. size (class_of W r M) < Z) \<or> size M < W * Z"
  shows "\<exists>e\<in>set (concat bs). isDummy e"
proof (cases "\<forall>r<W. size (class_of W r M) < Z")
  case True
  have "mset (reals (bs ! 0)) = image_mset (next_tag W) (class_of W 0 M)" using assms(1,2) by (simp add: routed_def)
  then have "length (reals (bs ! 0)) = size (class_of W 0 M)" by (metis size_image_mset size_mset)
  then have "\<exists>e\<in>set (bs ! 0). isDummy e" using True assms(1,2) by (intro has_dummy) (simp add: routed_def)
  moreover have "bs ! 0 \<in> set bs" using assms(1,2) by (simp add: routed_def)
  ultimately show ?thesis by auto
next
  case False
  have "length (reals (concat bs)) = size (image_mset v (mset (reals (concat bs))))" by (simp only: size_image_mset size_mset)
  also have "\<dots> = size M" unfolding routed_content [OF assms(1,2)] by simp
  finally have "length (reals (concat bs)) = size M" .
  moreover have "length (concat bs) = W * Z" using assms(1) length_concat_same [of bs Z] by (simp add: routed_def)
  ultimately show ?thesis using assms(3) False by (intro has_dummy) simp
qed

section \<open>The chunks of the sort\<close>

text \<open>A slot of the batch holds the elements of batch \<open>j\<close> of the last layer, and at least one dummy.\<close>

definition slot_holds :: "'a sorter \<Rightarrow> 'a list \<Rightarrow> 'a bucket list \<Rightarrow> nat \<Rightarrow> nat \<Rightarrow> bool" where
  "slot_holds S xs bt t j = (let W = layer_size S (last_layer S); es = concat (take W (drop (t * W) bt))
    in image_mset v (mset (reals es)) = image_mset v (arrivals S xs j) \<and> (\<exists>e\<in>set es. isDummy e))"

lemma concat_slots:
  "concat (take (k * W) bt) = concat (map (\<lambda>t. concat (take W (drop (t * W) bt))) [0..<k])"
proof (induction k)
  case (Suc k)
  have "take (Suc k * W) bt = take (k * W) bt @ take W (drop (k * W) bt)" by (simp add: take_add add.commute flip: take_add)
  then show ?case using Suc by simp
qed simp

lemma slots_content:
  assumes "\<And>t. t < k \<Longrightarrow> slot_holds S xs bt t (a + t)"
  shows "image_mset v (mset (reals (concat (take (k * layer_size S (last_layer S)) bt)))) = (\<Sum>t<k. image_mset v (arrivals S xs (a + t)))"
    "0 < k \<Longrightarrow> \<exists>e\<in>set (concat (take (k * layer_size S (last_layer S)) bt)). isDummy e"
proof -
  define W where "W = layer_size S (last_layer S)"
  have "image_mset v (mset (reals (concat (map (\<lambda>t. concat (take W (drop (t * W) bt))) [0..<k]))))
      = (\<Sum>t<k. image_mset v (mset (reals (concat (take W (drop (t * W) bt))))))"
    by (induction k) simp_all
  also have "\<dots> = (\<Sum>t<k. image_mset v (arrivals S xs (a + t)))"
    using assms by (intro sum.cong) (simp_all add: slot_holds_def Let_def W_def)
  finally show "image_mset v (mset (reals (concat (take (k * layer_size S (last_layer S)) bt)))) = (\<Sum>t<k. image_mset v (arrivals S xs (a + t)))"
    unfolding concat_slots W_def .
  assume "0 < k"
  from assms [OF this] obtain e where e: "e \<in> set (concat (take W bt))" "isDummy e"
    by (auto simp: slot_holds_def Let_def W_def)
  have "take W bt = take W (take (k * W) bt)" using \<open>0 < k\<close> by (simp add: min_def)
  then have "set (take W bt) \<subseteq> set (take (k * W) bt)" by (metis set_take_subset)
  then show "\<exists>e\<in>set (concat (take (k * layer_size S (last_layer S)) bt)). isDummy e"
    unfolding W_def [symmetric] using e by auto
qed

text \<open>Flushing writes the sorted reals of the chunk.\<close>

lemma flush_spec:
  assumes ok: "bf_Z S = Z" "0 < Z" "\<forall>b\<in>set (batch st). length b = Z" "n \<le> length (batch st)" "\<exists>e\<in>set (concat (take n (batch st))). isDummy e"
  shows "\<exists>run. outputWriter (flush_chunk key S n st) = outputWriter st @ run \<and> sorted (map key run)
    \<and> mset run = image_mset v (mset (reals (concat (take n (batch st)))))
    \<and> mergeSortRanges (flush_chunk key S n st) = mergeSortRanges st @ (if needsExtMerge S then [(length (outputWriter st), length (outputWriter st) + length run)] else [])
    \<and> (\<forall>b\<in>set (batch (flush_chunk key S n st)). length b = Z) \<and> length (batch (flush_chunk key S n st)) = length (batch st)
    \<and> inputReader (flush_chunk key S n st) = inputReader st"
proof -
  define es where "es = concat (take n (batch st))"
  obtain ys c where p: "partitionDummy isDummy es = (ys, c)" by fastforce
  have r: "mset (take c ys) = mset (reals es)" using partitionDummy_reals(1) [OF _ p] ok(5) unfolding es_def by blast
  have ys: "mset ys = mset es" "c \<le> length ys" using partitionDummy_reals(2,3) [OF _ p] ok(5) unfolding es_def by blast+
  define rs where "rs = sort_key (\<lambda>e. key (v e)) (take c ys)"
  have rs: "mset rs = mset (reals es)" "length rs = c" "sorted (map (\<lambda>e. key (v e)) rs)"
    using r ys(2) by (simp_all add: rs_def)
  have len: "length (rs @ drop c ys) = n * Z"
  proof -
    have "length es = n * Z" unfolding es_def using ok(3,4) length_concat_same [of "take n (batch st)" Z] by (auto dest: in_set_takeD)
    then show ?thesis using rs(2) ys mset_eq_length [OF ys(1)] by simp
  qed
  note ch = chunks_blocks [OF len ok(2)]
  have f: "flush_chunk key S n st = st\<lparr>batch := chunks Z (rs @ drop c ys) @ drop n (batch st), outputWriter := outputWriter st @ map getData rs,
      mergeSortRanges := (if needsExtMerge S then mergeSortRanges st @ [(length (outputWriter st), length (outputWriter st) + c)] else mergeSortRanges st)\<rparr>"
    unfolding flush_chunk_def es_def [symmetric] p by (simp add: rs_def ok(1) Let_def)
  have "mset (map getData rs) = image_mset v (mset (reals es))" using rs(1) by (simp add: getData_def [abs_def])
  moreover have "sorted (map key (map getData rs))" using rs(3) by (simp add: getData_def comp_def)
  moreover have "\<forall>b\<in>set (chunks Z (rs @ drop c ys) @ drop n (batch st)). length b = Z" using ch(2) ok(3) by (auto dest: in_set_dropD)
  moreover have "length (chunks Z (rs @ drop c ys) @ drop n (batch st)) = length (batch st)" using ch(3) ok(4) by simp
  ultimately show ?thesis
    unfolding f es_def [symmetric] using rs(2) by (intro exI [of _ "map getData rs"]) simp
qed

text \<open>A batch of the last layer in its slot, sorted by tag.\<close>

definition placed :: "nat \<Rightarrow> 'a bucket list \<Rightarrow> 'a sorter_state \<Rightarrow> 'a reader \<Rightarrow> 'a sorter_state" where
  "placed slot bs st rd = st\<lparr>inputReader := rd,
    batch := take slot (batch st) @ map (BitonicSort cmpTag True) bs @ drop (slot + length bs) (batch st)\<rparr>"

lemma finish_placed:
  assumes "length bs = layer_size S l" "slot = j mod bpe * layer_size S l" "slot + layer_size S l \<le> length (batch st)"
  shows "finish_batch key S (layer_size S l) bpe bc j (put_batch S l slot bs rd st) =
    (let st2 = placed slot bs st rd
     in if task S = KWAYBUTTERFLYOSHUFFLE
        then st2\<lparr>outputWriter := outputWriter st @ map getData (reals (concat (map (BitonicSort cmpTag True) bs)))\<rparr>
        else if task S = KWAYBUTTERFLYOSORT \<and> (j mod bpe = bpe - 1 \<or> j = bc - 1)
        then flush_chunk key S (layer_size S l * (if j = bc - 1 then j mod bpe + 1 else bpe)) st2 else st2)"
proof -
  define W where "W = layer_size S l"
  define b1 where "b1 = take slot (batch st) @ bs @ drop (slot + W) (batch st)"
  have b1: "take W (drop slot b1) = bs" "length b1 = length (batch st)" "take slot b1 = take slot (batch st)" "drop (slot + W) b1 = drop (slot + W) (batch st)"
    using assms(1,3) by (simp_all add: b1_def W_def)
  have w: "write_buckets (\<lambda>i. slot + i) (map (BitonicSort cmpTag True) bs) b1 =
      take slot (batch st) @ map (BitonicSort cmpTag True) bs @ drop (slot + W) (batch st)"
    using write_block [of slot "map (BitonicSort cmpTag True) bs" b1] b1 assms(1,3) by (simp add: W_def)
  have st1: "put_batch S l slot bs rd st = st\<lparr>inputReader := rd, batch := b1\<rparr>" by (simp add: put_batch_def b1_def W_def)
  have st2: "placed slot bs st rd = st\<lparr>inputReader := rd, batch := take slot (batch st) @ map (BitonicSort cmpTag True) bs @ drop (slot + W) (batch st)\<rparr>"
    using assms(1) by (simp add: placed_def W_def)
  define T where "T = j mod bpe"
  have T: "T * W = slot" using assms(2) by (simp add: T_def W_def)
  show ?thesis
    unfolding finish_batch_def Let_def st1 W_def [symmetric] T_def [symmetric] T st2
    by (cases "task S = KWAYBUTTERFLYOSORT") (simp_all add: b1(1) w)
qed

lemma slot_placed:
  fixes f :: "'b \<Rightarrow> 'b" and bs bt :: "'b list"
  assumes "slot = T * W" "length bs = W" "slot + W \<le> length bt"
  defines "bt2 \<equiv> take slot bt @ map f bs @ drop (slot + length bs) bt"
  shows "t < T \<Longrightarrow> take W (drop (t * W) bt2) = take W (drop (t * W) bt)" "take W (drop (T * W) bt2) = map f bs" "length bt2 = length bt"
proof -
  show "take W (drop (T * W) bt2) = map f bs" "length bt2 = length bt" using assms(1-3) by (simp_all add: bt2_def)
  assume "t < T"
  then have "Suc t * W \<le> T * W" by (intro mult_le_mono1) simp
  then have "t * W + W \<le> slot" using assms(1) by simp
  then show "take W (drop (t * W) bt2) = take W (drop (t * W) bt)"
    using assms(3) by (simp add: bt2_def drop_take)
qed

section \<open>The batches of the sort\<close>

definition chunk_content :: "'a sorter \<Rightarrow> 'a list \<Rightarrow> nat \<Rightarrow> nat \<Rightarrow> 'a multiset" where
  "chunk_content S xs bpe i = (\<Sum>j\<in>{i * bpe..<min (below S (last_layer S)) (Suc i * bpe)}. image_mset v (arrivals S xs j))"

definition runs_of :: "('a \<Rightarrow> 'k::linorder) \<Rightarrow> 'a sorter \<Rightarrow> 'a list \<Rightarrow> nat \<Rightarrow> 'a list list \<Rightarrow> 'a sorter_state \<Rightarrow> bool" where
  "runs_of key S xs bpe runs st \<longleftrightarrow> outputWriter st = concat runs
    \<and> (\<forall>i<length runs. sorted (map key (runs ! i)) \<and> mset (runs ! i) = chunk_content S xs bpe i)
    \<and> (needsExtMerge S \<longrightarrow> map (vec_range (outputWriter st)) (mergeSortRanges st) = runs
        \<and> (\<forall>r\<in>set (mergeSortRanges st). fst r \<le> snd r \<and> snd r \<le> length (outputWriter st)))"

lemma vec_range_append: "snd r \<le> length out \<Longrightarrow> vec_range (out @ zs) r = vec_range out r"
  by (cases "fst r \<le> snd r") (simp_all add: vec_range_def)

lemma runs_extend:
  assumes "runs_of key S xs bpe runs st" "sorted (map key run)" "mset run = chunk_content S xs bpe (length runs)"
    "outputWriter st' = outputWriter st @ run"
    "mergeSortRanges st' = mergeSortRanges st @ (if needsExtMerge S then [(length (outputWriter st), length (outputWriter st) + length run)] else [])"
  shows "runs_of key S xs bpe (runs @ [run]) st'"
  unfolding runs_of_def
proof (intro conjI impI allI)
  fix i assume "i < length (runs @ [run])"
  then show "sorted (map key ((runs @ [run]) ! i))" "mset ((runs @ [run]) ! i) = chunk_content S xs bpe i"
    using assms(1-3) by (auto simp: runs_of_def nth_append less_Suc_eq)
next
  assume n: "needsExtMerge S"
  then have old: "map (vec_range (outputWriter st)) (mergeSortRanges st) = runs" "\<forall>r\<in>set (mergeSortRanges st). fst r \<le> snd r \<and> snd r \<le> length (outputWriter st)"
    using assms(1) unfolding runs_of_def by blast+
  have "map (vec_range (outputWriter st @ run)) (mergeSortRanges st) = runs"
    using old vec_range_append by (metis (no_types, lifting) map_eq_conv)
  then show "map (vec_range (outputWriter st')) (mergeSortRanges st') = runs @ [run]" using n assms(4,5) by (simp add: vec_range_def)
  show "\<forall>r\<in>set (mergeSortRanges st'). fst r \<le> snd r \<and> snd r \<le> length (outputWriter st')"
    using n old(2) assms(4,5) by auto
qed (use assms(1,4) in \<open>simp add: runs_of_def\<close>)

text \<open>After \<open>n\<close> batches the full chunks are written and the slots of the batch hold the others.\<close>

definition sort_inv :: "('a \<Rightarrow> 'k::linorder) \<Rightarrow> nat \<Rightarrow> 'a sorter \<Rightarrow> 'a list \<Rightarrow> nat \<Rightarrow> nat \<Rightarrow> nat \<Rightarrow> 'a sorter_state \<Rightarrow> bool" where
  "sort_inv key m S xs bpe size0 n st \<longleftrightarrow> batch_ok m S (batch st) \<and> length (batch st) = size0
    \<and> (\<exists>runs. runs_of key S xs bpe runs st
        \<and> length runs = (if n = below S (last_layer S) then (n + bpe - 1) div bpe else n div bpe))
    \<and> (n < below S (last_layer S) \<longrightarrow> (\<forall>t<n mod bpe. slot_holds S xs (batch st) t (n div bpe * bpe + t)))"

definition roomy :: "nat \<Rightarrow> 'a sorter \<Rightarrow> 'a list \<Rightarrow> bool" where
  "roomy m S xs \<longleftrightarrow> last (last (bf_ways S)) \<noteq> 2 \<or> (last_layer S = 0 \<and> length xs < layer_size S 0 * 2 ^ m)"

lemma sources_take: "sum_list (sources S xs 0 n) = mset (take (n * numRealPerBucket S) (tagged_input (bf_rnd S) xs))"
proof -
  define R where "R = numRealPerBucket S"
  have "concat (map (src (bf_rnd S) xs R) [0..<n]) = take (n * R) (tagged_input (bf_rnd S) xs)"
    by (induction n) (simp_all add: src_def take_add add.commute flip: take_add)
  moreover have "sum_list (sources S xs 0 n) = mset (concat (map (src (bf_rnd S) xs R) [0..<n]))"
    unfolding sources_def R_def by (induction n) simp_all
  ultimately show ?thesis by (simp add: R_def)
qed

lemma arrivals_roomy:
  assumes "sorter_ok m S" "roomy m S xs" "j < below S (last_layer S)"
    "\<forall>r<W. size (class_of W r (arrivals S xs j)) < 2 ^ m + of_bool (last (last (bf_ways S)) = 2)" "W = layer_size S (last_layer S)"
  shows "(\<forall>r<W. size (class_of W r (arrivals S xs j)) < 2 ^ m) \<or> size (arrivals S xs j) < W * 2 ^ m"
proof (cases "last (last (bf_ways S)) = 2")
  case True
  then have l: "last_layer S = 0" "length xs < layer_size S 0 * 2 ^ m" using assms(2) by (simp_all add: roomy_def)
  then have j: "j = 0" using assms(3) by simp
  have "size (arrivals S xs 0) = length (take (layer_size S 0 * numRealPerBucket S) (tagged_input (bf_rnd S) xs))"
    unfolding arrivals_single(1) [OF assms(1) l(1)] sources_take by (rule size_mset)
  also have "\<dots> \<le> length xs" by simp
  finally have "size (arrivals S xs 0) \<le> length xs" .
  then show ?thesis using l j assms(5) by simp
qed (use assms(4) in simp)

lemma slot_holds_cong:
  "take (layer_size S (last_layer S)) (drop (t * layer_size S (last_layer S)) b) = take (layer_size S (last_layer S)) (drop (t * layer_size S (last_layer S)) b')
    \<Longrightarrow> slot_holds S xs b t j \<longleftrightarrow> slot_holds S xs b' t j"
  unfolding slot_holds_def Let_def by simp

lemma sort_step:
  assumes ok: "sorter_ok m S" "m \<le> 63" "task S = KWAYBUTTERFLYOSORT" "roomy m S xs" "0 < bpe"
    and n: "n < below S (last_layer S)" and size0: "min bpe (below S (last_layer S)) * layer_size S (last_layer S) \<le> size0"
    and inv: "sort_inv key m S xs bpe size0 n st" "before_last m S xs ext (inputReader st) n"
  shows "case butterfly_batch key S (last_layer S) bpe (below S (last_layer S)) (ext, st) n of
      None \<Rightarrow> crowded (2 ^ m) (prefixes (concat (bf_ways S))) (sources S xs 0 (layer_size S (last_layer S) * below S (last_layer S)))
    | Some (ext', st') \<Rightarrow> ext' = ext \<and> sort_inv key m S xs bpe size0 (Suc n) st'"
proof -
  define l where "l = last_layer S"
  define W where "W = layer_size S l"
  define F where "F = below S l"
  define T where "T = n mod bpe"
  define slot where "slot = T * W"
  have nF: "n < F" using n by (simp add: F_def l_def)
  have W0: "0 < W" using layer_ways(3) [OF ok(1) last_layer_less [OF ok(1)]] by (simp add: W_def l_def)
  have lb: "batch_ok m S (batch st)" "length (batch st) = size0" using inv(1) by (simp_all add: sort_inv_def)
  have T: "T < bpe" "T \<le> n" "T < F" using ok(5) nF by (simp_all add: T_def le_less_trans [OF mod_less_eq_dividend])
  have fits: "slot + W \<le> length (batch st)"
  proof -
    have "Suc T * W \<le> min bpe F * W" using T(1,3) by (intro mult_le_mono1) simp
    then show ?thesis using size0 lb(2) by (simp add: slot_def W_def F_def l_def)
  qed
  have single: "slot = 0" if "last_layer S = 0" using that nF arrivals_single(2) [OF ok(1) that] by (simp add: slot_def T_def F_def l_def)
  obtain runs where runs: "runs_of key S xs bpe runs st" "length runs = n div bpe" using inv(1) n by (auto simp: sort_inv_def)
  have held: "slot_holds S xs (batch st) t (n div bpe * bpe + t)" if "t < T" for t using inv(1) n that by (simp add: sort_inv_def T_def)
  have lbt: "case butterfly_batch key S l bpe F (ext, st) n of
      None \<Rightarrow> crowded (2 ^ m) (prefixes (concat (bf_ways S))) (sources S xs 0 (W * F))
    | Some (ext', st') \<Rightarrow> ext' = ext \<and> (\<exists>bs rd. st' = finish_batch key S W bpe F n (put_batch S l slot bs rd st)
        \<and> routed (2 ^ m) W (arrivals S xs n) bs
        \<and> (\<forall>r<W. size (class_of W r (arrivals S xs n)) < 2 ^ m + of_bool (last (last (bf_ways S)) = 2)))"
    unfolding W_def F_def l_def
    by (rule last_batch [OF ok(1) inv(2) lb(1) n]) (use fits single in \<open>simp_all add: slot_def T_def W_def l_def\<close>)
  show ?thesis
    unfolding l_def [symmetric] W_def [symmetric] F_def [symmetric]
  proof (cases "butterfly_batch key S l bpe F (ext, st) n")
    case None
    then show "case butterfly_batch key S l bpe F (ext, st) n of
        None \<Rightarrow> crowded (2 ^ m) (prefixes (concat (bf_ways S))) (sources S xs 0 (W * F))
      | Some (ext', st') \<Rightarrow> ext' = ext \<and> sort_inv key m S xs bpe size0 (Suc n) st'" using lbt by simp
  next
    case (Some p)
    obtain ext' st' where p': "p = (ext', st')" by (cases p)
    from lbt [unfolded Some p' option.case prod.case] obtain bs rd where p: "p = (ext, finish_batch key S W bpe F n (put_batch S l slot bs rd st))"
      "routed (2 ^ m) W (arrivals S xs n) bs"
      "\<forall>r<W. size (class_of W r (arrivals S xs n)) < 2 ^ m + of_bool (last (last (bf_ways S)) = 2)"
      unfolding p' by blast
    have bs: "length bs = W" using p(2) by (simp add: routed_def)
    define st2 where "st2 = placed slot bs st rd"
    have b2: "batch st2 = take slot (batch st) @ map (BitonicSort cmpTag True) bs @ drop (slot + length bs) (batch st)"
      "outputWriter st2 = outputWriter st" "mergeSortRanges st2 = mergeSortRanges st" by (simp_all add: st2_def placed_def)
    note sp = slot_placed [OF slot_def bs fits, where f = "BitonicSort cmpTag True", folded b2(1)]
    have rs: "routed (2 ^ m) W (arrivals S xs n) (map (BitonicSort cmpTag True) bs)" using routed_sorted [OF p(2) ok(2)] .
    have room: "(\<forall>r<W. size (class_of W r (arrivals S xs n)) < 2 ^ m) \<or> size (arrivals S xs n) < W * 2 ^ m"
      using arrivals_roomy [OF ok(1,4) n p(3)] by (simp add: W_def l_def)
    have "slot_holds S xs (batch st2) T n"
      using routed_content [OF rs W0] routed_dummy [OF rs W0 room] sp(2) unfolding slot_holds_def Let_def l_def [symmetric] W_def [symmetric] by simp
    moreover have "slot_holds S xs (batch st2) t j \<longleftrightarrow> slot_holds S xs (batch st) t j" if "t < T" for t j
      by (rule slot_holds_cong) (use sp(1) [OF that] in \<open>simp add: W_def l_def\<close>)
    moreover have "n div bpe * bpe + T = n" by (simp add: T_def)
    ultimately have held2: "slot_holds S xs (batch st2) t (n div bpe * bpe + t)" if "t < Suc T" for t
      using held [of t] that by (cases "t = T") simp_all
    have ok2: "batch_ok m S (batch st2)" "length (batch st2) = size0"
    proof -
      have "\<forall>b\<in>set (batch st2). length b = 2 ^ m"
        unfolding b2(1) using lb(1) rs by (auto simp: batch_ok_def routed_def dest: in_set_takeD in_set_dropD)
      then show "batch_ok m S (batch st2)" using lb(1) sp(3) by (simp add: batch_ok_def)
      show "length (batch st2) = size0" using sp(3) lb(2) by simp
    qed
    have runs2: "runs_of key S xs bpe runs st2" using runs(1) unfolding runs_of_def b2(2,3) .
    define i where "i = n div bpe"
    have iT: "n = i * bpe + T" by (simp add: i_def T_def)
    have fin: "finish_batch key S W bpe F n (put_batch S l slot bs rd st) =
        (if T = bpe - 1 \<or> n = F - 1 then flush_chunk key S (Suc T * W) st2 else st2)"
    proof -
      have "finish_batch key S W bpe F n (put_batch S l slot bs rd st) =
          (if T = bpe - 1 \<or> n = F - 1 then flush_chunk key S (W * (if n = F - 1 then T + 1 else bpe)) st2 else st2)"
        using finish_placed [of bs S l slot n bpe st key F rd] bs fits ok(3) unfolding W_def [symmetric] T_def [symmetric] st2_def
        by (simp add: slot_def)
      moreover have "W * (if n = F - 1 then T + 1 else bpe) = Suc T * W" if "T = bpe - 1 \<or> n = F - 1"
      proof -
        have "(if n = F - 1 then T + 1 else bpe) = Suc T" using that ok(5) by auto
        then show ?thesis by (simp only: mult.commute)
      qed
      ultimately show ?thesis by auto
    qed
    have "sort_inv key m S xs bpe size0 (Suc n) (finish_batch key S W bpe F n (put_batch S l slot bs rd st))"
    proof (cases "T = bpe - 1 \<or> n = F - 1")
      case False
      then have lt: "Suc n < F" "Suc T < bpe" using nF T(1) by linarith+
      have sn: "Suc n = i * bpe + Suc T" using iT by simp
      have d: "Suc n mod bpe = Suc T" "Suc n div bpe = i"
        unfolding sn by (rule grid_index(3) [OF lessI lt(2)], rule grid_index(2) [OF lessI lt(2)])
      have "\<exists>runs. runs_of key S xs bpe runs st2 \<and> length runs = (if Suc n = F then (Suc n + bpe - 1) div bpe else Suc n div bpe)"
        using runs2 runs(2) lt(1) unfolding d(2) i_def by auto
      moreover have "\<forall>t<Suc n mod bpe. slot_holds S xs (batch st2) t (Suc n div bpe * bpe + t)"
        using held2 unfolding d i_def by blast
      ultimately show ?thesis
        unfolding fin sort_inv_def l_def [symmetric] F_def [symmetric] using False ok2 by simp
    next
      case True
      have Z: "bf_Z S = 2 ^ m" "0 < (2 :: nat) ^ m" using ok(1) by (simp_all add: sorter_ok_def)
      have sc: "image_mset v (mset (reals (concat (take (Suc T * W) (batch st2))))) = (\<Sum>t<Suc T. image_mset v (arrivals S xs (i * bpe + t)))"
        "\<exists>e\<in>set (concat (take (Suc T * W) (batch st2))). isDummy e"
        using slots_content [of "Suc T" S xs "batch st2" "i * bpe"] held2 zero_less_Suc [of T] unfolding i_def W_def l_def by blast+
      have le: "Suc T * W \<le> length (batch st2)" using fits sp(3) by (simp add: slot_def)
      have lens: "\<forall>b\<in>set (batch st2). length b = 2 ^ m" using ok2(1) by (simp add: batch_ok_def)
      define st3 where "st3 = flush_chunk key S (Suc T * W) st2"
      from flush_spec [OF Z lens le, of key, folded st3_def] sc(2) obtain run where run: "outputWriter st3 = outputWriter st2 @ run" "sorted (map key run)"
        "mset run = image_mset v (mset (reals (concat (take (Suc T * W) (batch st2)))))"
        "mergeSortRanges st3 = mergeSortRanges st2 @ (if needsExtMerge S then [(length (outputWriter st2), length (outputWriter st2) + length run)] else [])"
        "\<forall>b\<in>set (batch st3). length b = 2 ^ m" "length (batch st3) = length (batch st2)" by auto
      have top: "min F (Suc i * bpe) = i * bpe + Suc T"
      proof (cases "T = bpe - 1")
        case True
        then have "Suc i * bpe = i * bpe + Suc T" using T(1) by simp
        then show ?thesis using nF iT by simp
      next
        case False
        then have "F = i * bpe + Suc T" using True nF iT by linarith
        then show ?thesis using T(1) by simp
      qed
      have "chunk_content S xs bpe i = (\<Sum>t<Suc T. image_mset v (arrivals S xs (i * bpe + t)))"
        unfolding chunk_content_def l_def [symmetric] F_def [symmetric] top by (simp add: sum.atLeastLessThan_shift_0 atLeast0LessThan comp_def)
      then have "mset run = chunk_content S xs bpe (length runs)" using run(3) sc(1) unfolding runs(2) i_def [symmetric] by (simp only:)
      from runs_extend [OF runs2 run(2) this run(1,4)] have r3: "runs_of key S xs bpe (runs @ [run]) st3" .
      have "length (runs @ [run]) = (if Suc n = F then (Suc n + bpe - 1) div bpe else Suc n div bpe)"
      proof (cases "Suc n = F")
        case False
        then have "T = bpe - 1" using True nF by linarith
        then have "Suc n = Suc i * bpe" using T(1) iT by simp
        then show ?thesis using False ok(5) runs(2) by (simp add: i_def)
      next
        case True
        have "(Suc n + bpe - 1) div bpe = Suc (n div bpe)" using ok(5) div_add_self2 [of bpe n] by simp
        then show ?thesis using True runs(2) by (simp only: length_append list.size if_True) simp
      qed
      moreover have "Suc n mod bpe = 0" if "Suc n < F"
      proof -
        have "T = bpe - 1" using that True by linarith
        then have "Suc n = Suc i * bpe" using T(1) iT by simp
        then show ?thesis by simp
      qed
      moreover have "batch_ok m S (batch st3)" "length (batch st3) = size0" using run(5,6) ok2 by (simp_all add: batch_ok_def)
      ultimately show ?thesis
        unfolding fin sort_inv_def l_def [symmetric] F_def [symmetric] st3_def [symmetric] using True r3 by auto
    qed
    then show "case butterfly_batch key S l bpe F (ext, st) n of
        None \<Rightarrow> crowded (2 ^ m) (prefixes (concat (bf_ways S))) (sources S xs 0 (W * F))
      | Some (ext', st') \<Rightarrow> ext' = ext \<and> sort_inv key m S xs bpe size0 (Suc n) st'" unfolding Some p(1) by simp
  qed
qed

end
