(* ===== verification/Butterfly_Correct.thy ===== *)
theory Butterfly_Correct
  imports Butterfly_Output
begin

text \<open>
  Correctness of the butterfly sort and of the butterfly shuffle, from the layers up to the functions on a
  reader and a writer (\<open>kway_butterfly_sort.hpp\<close>).
\<close>

section \<open>What arrives at the last layer\<close>

lemma arrivals_next:
  assumes "sorter_ok m S" "W = layer_size S (last_layer S)" "F = below S (last_layer S)"
  shows "arrivals S xs j = image_mset (next_tag F) (class_of F j (sum_list (sources S xs 0 (W * F))))"
proof -
  have "arrivals S xs j = image_mset (next_tag F) (class_of F j (\<Sum>i<W. block_sum F (sources S xs 0 (W * F)) (0 + i)))"
    unfolding class_of_sum image_mset_sum by (simp add: arrivals_def Let_def assms(2,3))
  then show ?thesis unfolding block_sum_add by simp
qed

lemma sources_all:
  assumes "length xs \<le> n * numRealPerBucket S"
  shows "sum_list (sources S xs 0 n) = mset (tagged_input (bf_rnd S) xs)"
  using assms by (simp add: sources_take)

lemma tagged_values [simp]: "map v (tagged_input rnd xs) = xs"
  by (simp add: tagged_input_def comp_def map_nth)

lemma arrivals_values:
  assumes ok: "sorter_ok m S" and W: "W = layer_size S (last_layer S)" "F = below S (last_layer S)"
    and N: "length xs \<le> W * F * numRealPerBucket S"
  shows "(\<Sum>j<F. image_mset v (arrivals S xs j)) = mset xs"
proof -
  have F: "0 < F" using layer_ways(4) [OF ok last_layer_less [OF ok]] W(2) by simp
  have "(\<Sum>j<F. image_mset v (arrivals S xs j)) = image_mset v (\<Sum>j<F. class_of F j (sum_list (sources S xs 0 (W * F))))"
    unfolding arrivals_next [OF ok W] values_next_tag by (simp only: image_mset_sum)
  also have "\<dots> = mset (map v (tagged_input (bf_rnd S) xs))"
    unfolding class_of_all [OF F] sources_all [OF N] by (simp only: mset_map)
  finally show ?thesis by simp
qed

section \<open>The last layer of the sort\<close>

lemma before_last_next:
  assumes "sorter_ok m S" "before_last m S xs ext rd 0" "n < below S (last_layer S)" "n = 0 \<longrightarrow> rd' = rd"
  shows "before_last m S xs ext rd' n"
  using assms arrivals_single(2) [OF assms(1)] by (auto simp: before_last_def Let_def split: if_splits)

text \<open>A loop over the batches.\<close>

lemma ofold_loop:
  assumes "\<And>n s. n < k \<Longrightarrow> P n s \<Longrightarrow> case f s n of None \<Rightarrow> Q | Some s' \<Rightarrow> P (Suc n) s'" "P 0 s"
  shows "case ofold f s [0..<k] of None \<Rightarrow> Q | Some s' \<Rightarrow> P k s'"
proof -
  have "case ofold f s [0..<n] of None \<Rightarrow> Q | Some s' \<Rightarrow> P n s'" if "n \<le> k" for n
    using that
  proof (induction n)
    case (Suc n)
    show ?case
    proof (cases "ofold f s [0..<n]")
      case (Some s1)
      then show ?thesis using Suc assms(1) [of n s1] by (cases "f s1 n") (simp_all add: ofold_append)
    qed (use Suc in \<open>simp add: ofold_append\<close>)
  qed (simp add: assms(2))
  then show ?thesis by simp
qed

lemma sort_loop:
  assumes ok: "sorter_ok m S" "m \<le> 63" "task S = KWAYBUTTERFLYOSORT" "roomy m S xs" "0 < bpe"
    and size0: "min bpe (below S (last_layer S)) * layer_size S (last_layer S) \<le> size0"
    and inv: "sort_inv key m S xs bpe size0 0 st" "before_last m S xs ext (inputReader st) 0"
  shows "case ofold (butterfly_batch key S (last_layer S) bpe (below S (last_layer S))) (ext, st) [0..<below S (last_layer S)] of
      None \<Rightarrow> crowded (2 ^ m) (prefixes (concat (bf_ways S))) (sources S xs 0 (layer_size S (last_layer S) * below S (last_layer S)))
    | Some s \<Rightarrow> fst s = ext \<and> sort_inv key m S xs bpe size0 (below S (last_layer S)) (snd s)
        \<and> (below S (last_layer S) = 0 \<longrightarrow> snd s = st)"
proof (rule ofold_loop [where P = "\<lambda>n s. fst s = ext \<and> sort_inv key m S xs bpe size0 n (snd s) \<and> (n = 0 \<longrightarrow> snd s = st)"], goal_cases)
  case (1 n s)
  have "before_last m S xs ext (inputReader (snd s)) n" using before_last_next [OF ok(1) inv(2) 1(1)] 1(2) by blast
  from sort_step [OF ok 1(1) size0 _ this, of key] 1(2) show ?case by (cases s) (auto split: option.splits)
qed (simp add: inv(1))

text \<open>The chunks of the last layer together hold the input.\<close>

lemma chunk_sum:
  assumes "0 < (bpe :: nat)"
  shows "(\<Sum>i<k. \<Sum>j\<in>{i * bpe..<min F (Suc i * bpe)}. (f j :: 'b::comm_monoid_add)) = (\<Sum>j<min F (k * bpe). f j)"
proof (induction k)
  case (Suc k)
  have "{..<min F (Suc k * bpe)} = {..<min F (k * bpe)} \<union> {k * bpe..<min F (Suc k * bpe)}" by auto
  then have "(\<Sum>j<min F (Suc k * bpe). f j) = (\<Sum>j<min F (k * bpe). f j) + (\<Sum>j\<in>{k * bpe..<min F (Suc k * bpe)}. f j)"
    using sum.union_disjoint [of "{..<min F (k * bpe)}" "{k * bpe..<min F (Suc k * bpe)}" f] by (simp add: disjoint_iff)
  then show ?case using Suc by simp
qed simp

lemma runs_content:
  assumes "runs_of key S xs bpe runs st" "length runs = (F + bpe - 1) div bpe" "0 < bpe" "F = below S (last_layer S)"
  shows "mset (concat runs) = (\<Sum>j<F. image_mset v (arrivals S xs j))"
proof -
  have "mset (concat runs) = (\<Sum>i<length runs. mset (runs ! i))"
    by (simp add: mset_concat sum_list_sum_nth atLeast0LessThan)
  also have "\<dots> = (\<Sum>i<length runs. chunk_content S xs bpe i)" using assms(1) by (intro sum.cong) (auto simp: runs_of_def)
  also have "\<dots> = (\<Sum>j<min F (length runs * bpe). image_mset v (arrivals S xs j))"
    unfolding chunk_content_def assms(4) [symmetric] chunk_sum [OF assms(3)] ..
  also have "min F (length runs * bpe) = F"
    using div_mult_mod_eq [of "F + bpe - 1" bpe] mod_less_divisor [OF assms(3), of "F + bpe - 1"] unfolding assms(2) by linarith
  finally show ?thesis .
qed

section \<open>All layers\<close>

lemma reach_last:
  assumes ok: "sorter_ok m S" and W: "W = layer_size S (last_layer S)" "F = below S (last_layer S)"
    and st: "length ext = W * F" "batch_ok m S (batch st)" "inputReader st = rd_at xs (numRealPerBucket S) 0"
  shows "KWayButterflySortLayer key S (last_layer S) (ext, st) = None \<and> crowded (2 ^ m) (prefixes (concat (bf_ways S))) (sources S xs 0 (W * F))
    \<or> (\<exists>ext1 st1. KWayButterflySortLayer key S (last_layer S) (ext, st) = layer_batches key S (last_layer S) (ext1, st1)
        \<and> before_last m S xs ext1 (inputReader st1) 0 \<and> same_output m S st st1)"
proof (cases "last_layer S")
  case 0
  then show ?thesis using st W by (intro disjI2 exI [of _ ext] exI [of _ st]) (simp add: before_last_def Let_def same_output_def)
next
  case (Suc l)
  have l: "Suc l < length (bf_ways S)" "l < length (bf_ways S) - 1" using Suc last_layer_less [OF ok] by linarith+
  note lw = layer_ways [OF ok l(1)]
  have W': "W = layer_size S (Suc l)" "F = below S (Suc l)" unfolding W Suc by simp_all
  have sub: "length ext div layer_size S (Suc l) = F" using st(1) lw(3) by (simp add: W')
  define loop where "loop = ofold (\<lambda>(out, st) sub. case KWayButterflySortLayer key S l (sub, st) of None \<Rightarrow> None | Some (sub, st) \<Rightarrow> Some (out @ sub, st))
        ([], st) (chunks F ext)"
  have run: "KWayButterflySortLayer key S (last_layer S) (ext, st) = (case loop of None \<Rightarrow> None | Some es \<Rightarrow> layer_batches key S (Suc l) es)"
    unfolding Suc KWayButterflySortLayer.simps Let_def sub loop_def ..
  have len: "length ext = W * below S (Suc l)" using st(1) by (simp add: W'(2))
  have il: "layer_spec m S xs l ext st c (KWayButterflySortLayer key S l (ext, st))"
    if "length ext = below S (Suc l)" "batch_ok m S (batch st)" "inputReader st = rd_at xs (numRealPerBucket S) c" for ext st c
    using inner_layer [OF ok l(2) that] .
  note ls = layer_slices [OF ok l(1) il len st(2,3), folded W'(2), folded loop_def]
  show ?thesis
  proof (cases loop)
    case None
    have all: "take (Suc (Suc l)) (bf_ways S) = bf_ways S" using Suc by simp
    have "prefixes (concat (take (Suc l) (bf_ways S))) \<subseteq> prefixes (concat (bf_ways S))"
      using prefixes_layer [OF l(1)] unfolding all by blast
    moreover have "crowded (2 ^ m) (prefixes (concat (take (Suc l) (bf_ways S)))) (sources S xs 0 (W * F))"
      using ls unfolding None option.case .
    ultimately have "crowded (2 ^ m) (prefixes (concat (bf_ways S))) (sources S xs 0 (W * F))" by (rule crowded_mono [rotated])
    then show ?thesis using run None by simp
  next
    case (Some p)
    obtain ext1 st1 where p: "p = (ext1, st1)" by (cases p)
    have s1: "length ext1 = W * F" "\<forall>i<W. routed (2 ^ m) F (block_sum F (sources S xs 0 (W * F)) i) (take F (drop (i * F) ext1))" "same_output m S st st1"
      using ls unfolding Some p option.case prod.case by blast+
    have "before_last m S xs ext1 (inputReader st1) 0" using s1(1,2) Suc unfolding before_last_def Let_def W [symmetric] by simp
    then show ?thesis using s1(3) run unfolding Some p option.case Suc by blast
  qed
qed

lemma last_batches:
  assumes ok: "sorter_ok m S" and W: "W = layer_size S (last_layer S)" "F = below S (last_layer S)" and len: "length ext = W * F"
    and bpe: "bpe = (if task S = KWAYBUTTERFLYOSORT then numElementFit S div (W * bf_Z S) else 1)" "0 < bpe"
  shows "layer_batches key S (last_layer S) (ext, st) = ofold (butterfly_batch key S (last_layer S) bpe F) (ext, st) [0..<F]"
proof -
  have "0 < W" using layer_ways(3) [OF ok last_layer_less [OF ok]] W(1) by simp
  then have "(W * F + W - 1) div W = F" by (intro div_nat_eqI) (simp_all add: mult.commute)
  then show ?thesis using bpe len unfolding layer_batches_def Let_def W(1) by simp
qed

lemma sort_layers:
  assumes ok: "sorter_ok m S" "m \<le> 63" "task S = KWAYBUTTERFLYOSORT" "roomy m S xs"
    and W: "W = layer_size S (last_layer S)" "F = below S (last_layer S)"
    and bpe: "bpe = numElementFit S div (W * 2 ^ m)" "0 < bpe" "min bpe F * W \<le> length (batch st)"
    and N: "length xs \<le> W * F * numRealPerBucket S"
    and st: "length ext = W * F" "batch_ok m S (batch st)" "inputReader st = rd_at xs (numRealPerBucket S) 0"
      "outputWriter st = []" "mergeSortRanges st = []"
  shows "case KWayButterflySortLayer key S (last_layer S) (ext, st) of
      None \<Rightarrow> crowded (2 ^ m) (prefixes (concat (bf_ways S))) (sources S xs 0 (W * F))
    | Some (ext', st') \<Rightarrow> \<exists>runs. runs_of key S xs bpe runs st' \<and> length runs = (F + bpe - 1) div bpe \<and> mset (concat runs) = mset xs"
proof -
  consider "KWayButterflySortLayer key S (last_layer S) (ext, st) = None" "crowded (2 ^ m) (prefixes (concat (bf_ways S))) (sources S xs 0 (W * F))"
    | ext1 st1 where "KWayButterflySortLayer key S (last_layer S) (ext, st) = layer_batches key S (last_layer S) (ext1, st1)"
        "before_last m S xs ext1 (inputReader st1) 0" "same_output m S st st1"
    using reach_last [OF ok(1) W st(1-3), where key = key] by (elim disjE exE conjE) simp_all
  then show ?thesis
  proof cases
    case 2
    have Z: "bf_Z S = 2 ^ m" "0 < F" using ok(1) layer_ways(4) [OF ok(1) last_layer_less [OF ok(1)]] W(2) by (simp_all add: sorter_ok_def)
    have len: "length ext1 = W * F" using 2(2) unfolding before_last_def Let_def W [symmetric] by simp
    have lb: "layer_batches key S (last_layer S) (ext1, st1) = ofold (butterfly_batch key S (last_layer S) bpe F) (ext1, st1) [0..<F]"
      by (rule last_batches [OF ok(1) W len]) (use bpe Z ok(3) in simp_all)
    have inv: "sort_inv key m S xs bpe (length (batch st)) 0 st1"
      using 2(3) st(4,5) Z(2) unfolding W(2) by (auto simp: sort_inv_def same_output_def runs_of_def)
    note sl = sort_loop [OF ok bpe(2) bpe(3) [unfolded W] inv 2(2), folded W]
    show ?thesis
    proof (cases "ofold (butterfly_batch key S (last_layer S) bpe F) (ext1, st1) [0..<F]")
      case None
      then show ?thesis using sl unfolding 2(1) lb by simp
    next
      case (Some p)
      obtain ext2 st2 where p: "p = (ext2, st2)" by (cases p)
      obtain runs where r: "runs_of key S xs bpe runs st2" "length runs = (F + bpe - 1) div bpe"
        using sl unfolding Some p option.case prod.case by (auto simp: sort_inv_def W(2))
      have "mset (concat runs) = mset xs" using runs_content [OF r bpe(2) W(2)] arrivals_values [OF ok(1) W N] by simp
      then show ?thesis using r unfolding 2(1) lb Some p by auto
    qed
  qed simp
qed

section \<open>The shuffle\<close>

text \<open>The position of an element is decided by its tag: first the batch of the last layer, then the bucket,
  then what is left of the tag.\<close>

definition shuffle_rank :: "nat \<Rightarrow> nat \<Rightarrow> nat \<Rightarrow> nat" where
  "shuffle_rank W F t = (t mod F * W + t div F mod W) * 2 ^ 64 + t div (W * F)"

lemma shuffle_rank_inj:
  assumes "0 < W" "0 < F" "t < 2 ^ 64" "u < 2 ^ 64" "shuffle_rank W F t = shuffle_rank W F u"
  shows "t = u"
proof -
  have lt: "a div (W * F) < 2 ^ 64" if "a < 2 ^ 64" for a using that by (rule le_less_trans [OF div_le_dividend])
  have q: "t mod F * W + t div F mod W = u mod F * W + u div F mod W" "t div (W * F) = u div (W * F)"
    using assms(5) unfolding shuffle_rank_def grid_inj [OF lt [OF assms(3)] lt [OF assms(4)]] by simp_all
  have m: "a div F mod W < W" for a using assms(1) by simp
  have "t mod F = u mod F" "t div F mod W = u div F mod W" using q(1) unfolding grid_inj [OF m m] by simp_all
  moreover have "a div F = a div (W * F) * W + a div F mod W" for a :: nat
    using div_mult_mod_eq [of "a div F" W] by (simp add: div_mult2_eq mult.commute [of W F])
  ultimately have "t div F = u div F" using q(2) by metis
  then show ?thesis using \<open>t mod F = u mod F\<close> by (metis div_mult_mod_eq)
qed

lemma mset_preimage: "mset q = image_mset f N \<Longrightarrow> \<exists>L. mset L = N \<and> map f L = q"
proof (induction q arbitrary: N)
  case (Cons x q)
  have "x \<in># image_mset f N" by (simp flip: Cons.prems)
  then obtain a where a: "a \<in># N" "x = f a" by auto
  then have "mset q = image_mset f (N - {#a#})" using Cons.prems by (simp add: image_mset_Diff flip: Cons.prems)
  from Cons.IH [OF this] obtain L where "mset L = N - {#a#}" "map f L = q" by auto
  then show ?case using a by (intro exI [of _ "a # L"]) simp
qed simp

lemma sorted_blocks:
  fixes rk :: "'b \<Rightarrow> nat"
  assumes "\<And>q. q < length ls \<Longrightarrow> sorted (map rk (ls ! q))" "\<And>q e. q < length ls \<Longrightarrow> e \<in> set (ls ! q) \<Longrightarrow> rk e div B = q"
  shows "sorted (map rk (concat ls))"
  using assms
proof (induction ls rule: rev_induct)
  case (snoc l ls)
  have "rk e \<le> rk e'" if "e \<in> set (concat ls)" "e' \<in> set l" for e e'
  proof -
    from that(1) obtain l0 where "l0 \<in> set ls" "e \<in> set l0" by auto
    then obtain q where q: "q < length ls" "e \<in> set (ls ! q)" by (metis in_set_conv_nth)
    have "rk e div B = q" "rk e' div B = length ls" using snoc.prems(2) [of q e] snoc.prems(2) [of "length ls" e'] q that(2) by (simp_all add: nth_append)
    then show ?thesis using q(1) by (metis div_le_mono linorder_not_less nless_le)
  qed
  moreover have "sorted (map rk (concat ls))"
    using snoc.prems by (intro snoc.IH) (metis (no_types) length_append_singleton less_SucI nth_append)+
  moreover have "sorted (map rk l)" using snoc.prems(1) [of "length ls"] by simp
  ultimately show ?case by (auto simp: sorted_append)
qed simp

text \<open>What the buckets of the last layer contribute.\<close>

definition shuffled :: "nat \<Rightarrow> nat \<Rightarrow> 'a TaggedT multiset \<Rightarrow> nat \<Rightarrow> 'a TaggedT list \<Rightarrow> bool" where
  "shuffled W F M q L \<longleftrightarrow> mset L = class_of (W * F) (q mod W * F + q div W) M \<and> sorted (map (\<lambda>e. unat (tag e) div (W * F)) L)"

lemma bucket_shuffled:
  assumes "routed (2 ^ m) W (image_mset (next_tag F) (class_of F j M)) bs" "m \<le> 63" "W * F < 2 ^ 64" "j < F" "r < W"
  shows "\<exists>L. shuffled W F M (j * W + r) L \<and> map v L = map v (reals (BitonicSort cmpTag True (bs ! r)))"
proof -
  define rs where "rs = reals (BitonicSort cmpTag True (bs ! r))"
  have len: "length (bs ! r) \<le> 2 ^ 63" using assms(1,2,5) power_increasing [of m 63 "2 :: nat"] by (simp add: routed_def)
  have "mset rs = mset (reals (bs ! r))" unfolding rs_def using bucket_sort(1) [OF len] by simp
  also have "\<dots> = image_mset (next_tag W) (image_mset (next_tag F) (class_of (W * F) (r * F + j) M))"
    using assms(1,5) unfolding class_of_next [OF assms(5,4,3), symmetric] routed_def by blast
  also have "\<dots> = image_mset (next_tag (W * F)) (class_of (W * F) (r * F + j) M)"
    unfolding image_mset.compositionality comp_def
    using next_tag_mult [OF assms(3)] assms(4,5) by (intro image_mset_cong) simp
  finally obtain L where L: "mset L = class_of (W * F) (r * F + j) M" "map (next_tag (W * F)) L = rs" using mset_preimage by blast
  have "sorted (map tag rs)" unfolding rs_def by (rule sorted_filter) (rule bucket_sort(2) [OF len])
  then have "sorted (map unat (map tag rs))" by (rule sorted_map_mono) (simp add: mono_on_def word_le_nat_alt)
  then have "sorted (map (\<lambda>e. unat (tag e) div (W * F)) L)"
    unfolding L(2) [symmetric] by (simp add: comp_def next_tag_def unat_tag_div [OF assms(3)] del: of_nat_mult)
  moreover have "map v L = map v rs" unfolding L(2) [symmetric] by simp
  ultimately show ?thesis
    using L(1) grid_index(2,3) [OF assms(4,5)] unfolding rs_def shuffled_def by auto
qed

lemma batch_shuffled:
  assumes "routed (2 ^ m) W (image_mset (next_tag F) (class_of F j M)) bs" "m \<le> 63" "W * F < 2 ^ 64" "j < F"
  shows "\<exists>ls. length ls = W \<and> (\<forall>r<W. shuffled W F M (j * W + r) (ls ! r)) \<and> map v (concat ls) = map v (reals (concat (map (BitonicSort cmpTag True) bs)))"
proof -
  define f where "f r = (SOME L. shuffled W F M (j * W + r) L \<and> map v L = map v (reals (BitonicSort cmpTag True (bs ! r))))" for r
  have f: "shuffled W F M (j * W + r) (f r)" "map v (f r) = map v (reals (BitonicSort cmpTag True (bs ! r)))" if "r < W" for r
    using someI_ex [OF bucket_shuffled [OF assms that]] unfolding f_def by simp_all
  have len: "length bs = W" using assms(1) by (simp add: routed_def)
  have "map v (concat (map f [0..<n])) = map v (reals (concat (map (BitonicSort cmpTag True) (take n bs))))" if "n \<le> W" for n
    using that
  proof (induction n)
    case (Suc n)
    then show ?case using f(2) [of n] len by (simp add: take_Suc_conv_app_nth)
  qed simp
  from this [OF order.refl] show ?thesis using f(1) len by (intro exI [of _ "map f [0..<W]"]) simp
qed

text \<open>The batches of the last layer, one after the other.\<close>

definition shuffle_inv :: "nat \<Rightarrow> 'a sorter \<Rightarrow> 'a TaggedT multiset \<Rightarrow> nat \<Rightarrow> 'a sorter_state \<Rightarrow> bool" where
  "shuffle_inv m S M n st \<longleftrightarrow> batch_ok m S (batch st)
    \<and> (let W = layer_size S (last_layer S); F = below S (last_layer S)
       in \<exists>ls. length ls = n * W \<and> (\<forall>q<n * W. shuffled W F M q (ls ! q)) \<and> outputWriter st = map v (concat ls))"

lemma shuffle_step:
  assumes ok: "sorter_ok m S" "m \<le> 63" "task S = KWAYBUTTERFLYOSHUFFLE"
    and W: "W = layer_size S (last_layer S)" "F = below S (last_layer S)" and M: "M = sum_list (sources S xs 0 (W * F))"
    and n: "n < F" and inv: "shuffle_inv m S M n st" "before_last m S xs ext (inputReader st) n"
  shows "case butterfly_batch key S (last_layer S) 1 F (ext, st) n of
      None \<Rightarrow> crowded (2 ^ m) (prefixes (concat (bf_ways S))) (sources S xs 0 (W * F))
    | Some (ext', st') \<Rightarrow> ext' = ext \<and> shuffle_inv m S M (Suc n) st'"
proof -
  have bt: "batch_ok m S (batch st)" using inv(1) by (simp add: shuffle_inv_def)
  have less: "last_layer S < length (bf_ways S)" by (rule last_layer_less [OF ok(1)])
  have WF: "W * F < 2 ^ 64" using layer_ways(6) [OF ok(1) less] by (simp add: W)
  have fits: "0 + W \<le> length (batch st)" using bt nth_mem [OF less] by (simp add: batch_ok_def W(1))
  have lb: "case butterfly_batch key S (last_layer S) 1 F (ext, st) n of
      None \<Rightarrow> crowded (2 ^ m) (prefixes (concat (bf_ways S))) (sources S xs 0 (W * F))
    | Some (ext', st') \<Rightarrow> ext' = ext \<and> (\<exists>bs rd. st' = finish_batch key S W 1 F n (put_batch S (last_layer S) 0 bs rd st) \<and> routed (2 ^ m) W (arrivals S xs n) bs)"
    using last_batch [OF ok(1) inv(2) bt, where bpe = 1 and slot = 0 and bc = F and key = key] n fits
    unfolding W by (auto split: option.splits)
  show ?thesis
  proof (cases "butterfly_batch key S (last_layer S) 1 F (ext, st) n")
    case None
    then show ?thesis using lb by simp
  next
    case (Some p)
    from lb obtain bs rd where p: "p = (ext, finish_batch key S W 1 F n (put_batch S (last_layer S) 0 bs rd st))"
      "routed (2 ^ m) W (arrivals S xs n) bs" unfolding Some by (cases p) auto
    have r: "routed (2 ^ m) W (image_mset (next_tag F) (class_of F n M)) bs"
      using p(2) unfolding arrivals_next [OF ok(1) W] M .
    have bs: "length bs = W" using r by (simp add: routed_def)
    have fin: "finish_batch key S W 1 F n (put_batch S (last_layer S) 0 bs rd st) =
        (placed 0 bs st rd)\<lparr>outputWriter := outputWriter st @ map getData (reals (concat (map (BitonicSort cmpTag True) bs)))\<rparr>"
      using finish_placed [of bs S "last_layer S" 0 n 1 st key F rd] bs fits ok(3) by (simp add: W)
    obtain ls where ls: "length ls = n * W" "\<forall>q<n * W. shuffled W F M q (ls ! q)" "outputWriter st = map v (concat ls)"
      using inv(1) by (auto simp: shuffle_inv_def Let_def W)
    obtain l2 where l2: "length l2 = W" "\<forall>r<W. shuffled W F M (n * W + r) (l2 ! r)" "map v (concat l2) = map v (reals (concat (map (BitonicSort cmpTag True) bs)))"
      using batch_shuffled [OF r ok(2) WF n] by blast
    have "shuffled W F M q ((ls @ l2) ! q)" if "q < Suc n * W" for q
      using that ls(1,2) l2(2) [rule_format, of "q - n * W"] by (cases "q < n * W") (simp_all add: nth_append)
    moreover have "outputWriter st @ map getData (reals (concat (map (BitonicSort cmpTag True) bs))) = map v (concat (ls @ l2))"
      using ls(3) l2(3) by (simp add: getData_def [abs_def])
    ultimately have "\<exists>ls. length ls = Suc n * W \<and> (\<forall>q<Suc n * W. shuffled W F M q (ls ! q))
        \<and> outputWriter st @ map getData (reals (concat (map (BitonicSort cmpTag True) bs))) = map v (concat ls)"
      using ls(1) l2(1) by (intro exI [of _ "ls @ l2"]) simp
    moreover have "batch_ok m S (batch (placed 0 bs st rd))"
      using bt routed_sorted [OF r ok(2)] bs fits by (auto simp: batch_ok_def placed_def routed_def dest: in_set_dropD)
    ultimately show ?thesis unfolding Some p(1) fin shuffle_inv_def Let_def W [symmetric] by simp
  qed
qed

lemma shuffle_loop:
  assumes ok: "sorter_ok m S" "m \<le> 63" "task S = KWAYBUTTERFLYOSHUFFLE"
    and W: "W = layer_size S (last_layer S)" "F = below S (last_layer S)" and M: "M = sum_list (sources S xs 0 (W * F))"
    and inv: "shuffle_inv m S M 0 st" "before_last m S xs ext (inputReader st) 0"
  shows "case ofold (butterfly_batch key S (last_layer S) 1 F) (ext, st) [0..<F] of
      None \<Rightarrow> crowded (2 ^ m) (prefixes (concat (bf_ways S))) (sources S xs 0 (W * F))
    | Some s \<Rightarrow> fst s = ext \<and> shuffle_inv m S M F (snd s) \<and> (F = 0 \<longrightarrow> snd s = st)"
proof (rule ofold_loop [where P = "\<lambda>n s. fst s = ext \<and> shuffle_inv m S M n (snd s) \<and> (n = 0 \<longrightarrow> snd s = st)"], goal_cases)
  case (1 n s)
  have "before_last m S xs ext (inputReader (snd s)) n" using before_last_next [OF ok(1) inv(2)] 1 W(2) by blast
  from shuffle_step [OF ok W M 1(1) _ this, of key] 1(2) show ?case by (cases s) (auto split: option.splits)
qed (simp add: inv(1))

lemma shuffled_all:
  assumes ls: "length ls = F * W" "\<forall>q<F * W. shuffled W F M q (ls ! q)" and W: "0 < W" "0 < F"
  shows "mset (concat ls) = M" "sorted (map (\<lambda>e. shuffle_rank W F (unat (tag e))) (concat ls))"
proof -
  have "mset (concat ls) = (\<Sum>q<F * W. mset (ls ! q))" by (simp add: mset_concat sum_list_sum_nth atLeast0LessThan ls(1))
  also have "\<dots> = (\<Sum>q<F * W. class_of (W * F) (q mod W * F + q div W) M)" using ls(2) by (intro sum.cong) (simp_all add: shuffled_def)
  also have "\<dots> = (\<Sum>i<W * F. class_of (W * F) i M)"
  proof (rule sum.reindex_bij_witness [where i = "\<lambda>i. i mod F * W + i div F" and j = "\<lambda>q. q mod W * F + q div W"])
    fix q assume "q \<in> {..<F * W}"
    then have q: "q mod W < W" "q div W < F" using W by (simp_all add: less_mult_imp_div_less)
    then show "(q mod W * F + q div W) mod F * W + (q mod W * F + q div W) div F = q" "q mod W * F + q div W \<in> {..<W * F}"
      using grid_index [OF q] by simp_all
  next
    fix i assume "i \<in> {..<W * F}"
    then have i: "i mod F < F" "i div F < W" using W by (simp_all add: less_mult_imp_div_less mult.commute)
    then show "(i mod F * W + i div F) mod W * F + (i mod F * W + i div F) div W = i" "i mod F * W + i div F \<in> {..<F * W}"
      using grid_index [OF i] by simp_all
  qed simp
  finally show "mset (concat ls) = M" using class_of_all [of "W * F" M] W by simp
  show "sorted (map (\<lambda>e. shuffle_rank W F (unat (tag e))) (concat ls))"
  proof (rule sorted_blocks [where B = "2 ^ 64"])
    fix q assume "q < length ls"
    then have q: "q div W < F" "q mod W < W" "shuffled W F M q (ls ! q)" using ls W by (simp_all add: less_mult_imp_div_less)
    have rk: "shuffle_rank W F (unat (tag e)) = q * 2 ^ 64 + unat (tag e) div (W * F)" if "e \<in> set (ls ! q)" for e
    proof -
      have "e \<in># class_of (W * F) (q mod W * F + q div W) M" using q(3) that by (metis shuffled_def set_mset_mset)
      then have t: "unat (tag e) mod (F * W) = q mod W * F + q div W" by (simp add: class_of_def mult.commute)
      have "unat (tag e) mod F = q div W" "unat (tag e) div F mod W = q mod W"
        using arg_cong [OF t, of "\<lambda>a. a mod F"] arg_cong [OF t, of "\<lambda>a. a div F"] q(1,2) W
        by (simp_all add: mod_mult2_eq)
      then show ?thesis by (simp add: shuffle_rank_def)
    qed
    have "unat (tag e) div (W * F) < 2 ^ 64" for e :: "'a TaggedT"
      using unsigned_less [of "tag e"] by (intro le_less_trans [OF div_le_dividend]) simp
    then show "shuffle_rank W F (unat (tag e)) div 2 ^ 64 = q" if "e \<in> set (ls ! q)" for e
      unfolding rk [OF that] by (rule grid_index(2) [OF lessI])
    have "sorted (map (\<lambda>e. q * 2 ^ 64 + unat (tag e) div (W * F)) (ls ! q))"
      using q(3) by (simp add: shuffled_def sorted_map sorted_wrt_iff_nth_less)
    then show "sorted (map (\<lambda>e. shuffle_rank W F (unat (tag e))) (ls ! q))" using rk by (metis (no_types, lifting) map_eq_conv)
  qed
qed

section \<open>The whole sort\<close>

text \<open>A merge sort that returns has sorted its ranges, empty ones too.\<close>

lemma merge_runs_partial:
  assumes "\<forall>r\<in>set rs. sorted (map key r)" "merge_runs key n rs = Some ys" "n = 1 \<Longrightarrow> length rs = 1"
  shows "mset ys = mset (concat rs) \<and> sorted (map key ys)"
proof (cases "n = 1")
  case True
  then show ?thesis using assms by (cases rs) (auto simp: merge_runs_def)
next
  case False
  then show ?thesis using assms heap_merge_spec [of rs key] by (auto simp: merge_runs_def list_ex_iff split: if_splits)
qed

lemma ExtMergeSort_partial:
  assumes "\<forall>r\<in>set runs. sorted (map key r)" "ExtMergeSort key pow_way maxWay runs = Some ys"
  shows "mset ys = mset (concat runs) \<and> sorted (map key ys)"
  using assms
proof (induction "length runs" arbitrary: runs ys rule: less_induct)
  case less
  define way where "way = pow_way (length runs) maxWay"
  define sub where "sub = (length runs + way - 1) div way"
  note e = less.prems(2) [unfolded ExtMergeSort.simps [of key pow_way maxWay runs] Let_def, folded way_def, folded sub_def]
  show ?case
  proof (cases "length runs \<le> maxWay")
    case True
    then show ?thesis using e merge_runs_partial [OF less.prems(1)] by simp
  next
    case False
    from e False obtain zs where zs: "0 < way" "sub < length runs" "those (map (ExtMergeSort key pow_way maxWay) (chunks sub runs)) = Some zs"
      "merge_runs key (length runs) zs = Some ys" by (auto split: if_splits option.splits)
    have n: "length runs \<noteq> 1" "0 < sub"
    proof -
      have "way \<le> length runs + way - 1" using False by (cases "length runs") simp_all
      then show "0 < sub" using zs(1) by (simp add: sub_def div_greater_zero_iff)
      then show "length runs \<noteq> 1" using zs(2) by linarith
    qed
    have cs: "ExtMergeSort key pow_way maxWay c = Some z \<Longrightarrow> mset z = mset (concat c) \<and> sorted (map key z)" if "c \<in> set (chunks sub runs)" for c z
    proof (rule less.hyps)
      have "set c \<subseteq> set runs" using that arg_cong [OF concat_chunks [OF n(2)], of set runs] by auto
      then show "\<forall>r\<in>set c. sorted (map key r)" using less.prems(1) by blast
      show "length c < length runs" using chunks_le [OF that] zs(2) by linarith
    qed
    have z: "list_all2 (\<lambda>c z. c \<in> set (chunks sub runs) \<and> ExtMergeSort key pow_way maxWay c = Some z) (chunks sub runs) zs"
      using zs(3) unfolding those_Some by (simp add: list_all2_conv_all_nth)
    then have z2: "list_all2 (\<lambda>c z. mset z = mset (concat c) \<and> sorted (map key z)) (chunks sub runs) zs"
      by (rule list_all2_mono) (use cs in blast)
    have "mset (concat zs) = mset (concat (concat (chunks sub runs)))" using z2 by (induction rule: list_all2_induct) auto
    moreover have "\<forall>r\<in>set zs. sorted (map key r)" using z2 by (auto simp: list_all2_conv_all_nth in_set_conv_nth)
    ultimately show ?thesis using merge_runs_partial [OF _ zs(4)] n by simp
  qed
qed

text \<open>The parameters that the sorter needs: a power of two as the size of buckets, room for the elements in the
  buckets and for every layer in memory.\<close>

definition params_fit :: "nat \<Rightarrow> nat \<Rightarrow> nat \<Rightarrow> KWayButterflyParams \<Rightarrow> bool" where
  "params_fit m N fit P \<longleftrightarrow> m \<le> 63 \<and> kp_Z P = 2 ^ m \<and> ways_ok m (concat (ways P)) \<and> ways P \<noteq> [] \<and> [] \<notin> set (ways P)
    \<and> totalBucket P = prod_list (concat (ways P)) \<and> N \<le> totalBucket P * 2 ^ m
    \<and> (\<forall>ws\<in>set (ways P). prod_list ws * 2 ^ m \<le> fit)"

lemma sorter_init:
  fixes S :: "'a sorter"
  assumes S: "S = ButterflySorter tsk (length (ways P) = 1) P N heapSize wrapped rnd" and P: "params_fit m N (numElementFit S) P" and N: "0 < N"
    and W: "W = layer_size S (last_layer S)" "F = below S (last_layer S)"
  shows "sorter_ok m S" "W * F = numTotalBucket S" "N \<le> W * F * numRealPerBucket S"
    "batch_ok m S (raw_buckets mem (bf_Z S) (batch_buckets S))"
    "0 < numElementFit S div (W * 2 ^ m)" "min (numElementFit S div (W * 2 ^ m)) F * W \<le> batch_buckets S"
proof -
  define T where "T = totalBucket P"
  have f: "bf_ways S = ways P" "bf_Z S = 2 ^ m" "numTotalBucket S = T" "numRealPerBucket S = 1 + (N - 1) div T"
    "singleBatch S \<longleftrightarrow> length (ways P) = 1" using P by (simp_all add: S ButterflySorter_def params_fit_def T_def)
  have p: "ways_ok m (concat (ways P))" "ways P \<noteq> []" "[] \<notin> set (ways P)" "T = prod_list (concat (ways P))" "N \<le> T * 2 ^ m"
    using P unfolding params_fit_def T_def by blast+
  have T: "0 < T" using ways_pos [OF p(1)] p(4) by simp
  have "(N - 1) div T < 2 ^ m" using p(5) N by (intro less_mult_imp_div_less) (simp add: mult.commute)
  then show ok: "sorter_ok m S" using p f by (auto simp: sorter_ok_def)
  have less: "last_layer S < length (bf_ways S)" by (rule last_layer_less [OF ok])
  have pos: "0 < W" using layer_ways(3) [OF ok less] by (simp add: W(1))
  have "Suc (last_layer S) = length (bf_ways S)" using less by linarith
  then have "W * F = prod_list (map prod_list (bf_ways S))" using below_Suc [OF less] by (simp add: W)
  then show WF: "W * F = numTotalBucket S" using f p(4) by (simp add: prod_list_concat)
  show "N \<le> W * F * numRealPerBucket S"
    using dividend_less_times_div [OF T, of "N - 1"] N unfolding WF f(3,4) by (simp add: add_mult_distrib2)
  have fit: "prod_list ws * 2 ^ m \<le> numElementFit S" if "ws \<in> set (ways P)" for ws using P that by (simp add: params_fit_def)
  have mem: "bf_ways S ! last_layer S \<in> set (ways P)" using nth_mem [OF less] f(1) by simp
  have room: "prod_list ws \<le> batch_buckets S" if "ws \<in> set (ways P)" for ws
  proof (cases "singleBatch S")
    case True
    then show ?thesis using that by (simp add: batch_buckets_def f)
  next
    case False
    have "prod_list ws = prod_list ws * 2 ^ m div 2 ^ m" by simp
    also have "\<dots> \<le> numElementFit S div 2 ^ m" by (rule div_le_mono [OF fit [OF that]])
    finally show ?thesis using False by (simp add: batch_buckets_def f)
  qed
  then show "batch_ok m S (raw_buckets mem (bf_Z S) (batch_buckets S))" by (auto simp: batch_ok_def raw_buckets_def f)
  show "0 < numElementFit S div (W * 2 ^ m)" using fit [OF mem] pos by (simp add: div_greater_zero_iff W(1))
  show "min (numElementFit S div (W * 2 ^ m)) F * W \<le> batch_buckets S"
  proof (cases "singleBatch S")
    case True
    then have "last_layer S = 0" using f by simp
    then have "F = 1" using arrivals_single(2) [OF ok] W(2) by simp
    then have "min (numElementFit S div (W * 2 ^ m)) F * W \<le> 1 * W" by (intro mult_le_mono1) simp
    also have "1 * W \<le> batch_buckets S" using room [OF mem] by (simp add: W(1))
    finally show ?thesis .
  next
    case False
    have "min (numElementFit S div (W * 2 ^ m)) F * W \<le> numElementFit S div (W * 2 ^ m) * W" by (intro mult_le_mono1) simp
    also have "\<dots> \<le> numElementFit S div 2 ^ m"
      unfolding mult.commute [of W] div_mult2_eq by (rule div_times_less_eq_dividend)
    finally show ?thesis using False by (simp add: batch_buckets_def f)
  qed
qed

text \<open>The sorter of a call, and what makes it fail: more elements than a bucket holds somewhere in the network,
  or a range of the merge sort that nothing falls into.\<close>

definition butterfly_sorter :: "SortMethod \<Rightarrow> (nat \<Rightarrow> nat \<Rightarrow> KWayButterflyParams) \<Rightarrow> nat \<Rightarrow> nat \<Rightarrow> (nat \<Rightarrow> u64) \<Rightarrow> nat \<Rightarrow> 'a sorter" where
  "butterfly_sorter tsk bestParams wrapped heapSize rnd N =
    (let heapSize = min heapSize (max N 4096 * wrapped * 2); P = bestParams N (heapSize div wrapped)
     in ButterflySorter tsk (length (ways P) = 1) P N heapSize wrapped rnd)"

definition overflows :: "'a sorter \<Rightarrow> 'a list \<Rightarrow> bool" where
  "overflows S xs \<longleftrightarrow> crowded (bf_Z S) (prefixes (concat (bf_ways S))) (sources S xs 0 (numTotalBucket S))"

definition empty_range :: "'a sorter \<Rightarrow> 'a list \<Rightarrow> bool" where
  "empty_range S xs \<longleftrightarrow> needsExtMerge S \<and> (\<exists>i. chunk_content S xs (numElementFit S div (layer_size S (last_layer S) * bf_Z S)) i = {#}
    \<and> i * (numElementFit S div (layer_size S (last_layer S) * bf_Z S)) < below S (last_layer S))"

lemma ButterflySorter_sorts:
  fixes S :: "'a sorter"
  assumes S: "S = ButterflySorter KWAYBUTTERFLYOSORT (length (ways P) = 1) P (length xs) heapSize wrapped rnd"
    and P: "params_fit m (length xs) (numElementFit S) P" and N: "0 < length xs" and r: "roomy m S xs"
  shows "case ButterflySorter_sort key S mem xs of None \<Rightarrow> overflows S xs
    | Some (out, ranges) \<Rightarrow> \<exists>runs. out = concat runs \<and> (\<forall>r\<in>set runs. sorted (map key r)) \<and> mset (concat runs) = mset xs
        \<and> (singleBatch S \<longrightarrow> length runs = 1) \<and> (\<not> singleBatch S \<longrightarrow> map (vec_range out) ranges = runs)
        \<and> (\<not> singleBatch S \<longrightarrow> [] \<in> set runs \<longrightarrow> empty_range S xs)"
proof -
  define W where "W = layer_size S (last_layer S)"
  define F where "F = below S (last_layer S)"
  define bpe where "bpe = numElementFit S div (W * 2 ^ m)"
  note i = sorter_init [OF S P N W_def F_def, folded bpe_def]
  have f: "task S = KWAYBUTTERFLYOSORT" "bf_Z S = 2 ^ m" "m \<le> 63" "singleBatch S \<longleftrightarrow> length (bf_ways S) = 1"
    using P by (simp_all add: S ButterflySorter_def params_fit_def)
  define st where "st = \<lparr>inputReader = (xs, 0 :: nat), batch = raw_buckets mem (bf_Z S) (batch_buckets S), outputWriter = [] :: 'a list, mergeSortRanges = []\<rparr>"
  define ext where "ext = raw_buckets mem (bf_Z S) (numTotalBucket S)"
  have run: "ButterflySorter_sort key S mem xs = (case KWayButterflySortLayer key S (last_layer S) (ext, st) of
      None \<Rightarrow> None | Some (ext, st) \<Rightarrow> Some (outputWriter st, mergeSortRanges st))"
    by (simp add: ButterflySorter_sort_def Let_def st_def ext_def)
  have sl: "case KWayButterflySortLayer key S (last_layer S) (ext, st) of
      None \<Rightarrow> crowded (2 ^ m) (prefixes (concat (bf_ways S))) (sources S xs 0 (W * F))
    | Some (ext', st') \<Rightarrow> \<exists>runs. runs_of key S xs bpe runs st' \<and> length runs = (F + bpe - 1) div bpe \<and> mset (concat runs) = mset xs"
    by (rule sort_layers [OF i(1) f(3,1) r W_def F_def bpe_def i(5)])
      (use i in \<open>simp_all add: st_def ext_def raw_buckets_def rd_at_def\<close>)
  show ?thesis
  proof (cases "KWayButterflySortLayer key S (last_layer S) (ext, st)")
    case None
    then show ?thesis using sl i(2) f(2) by (simp add: run overflows_def)
  next
    case (Some p)
    obtain ext' st' where p: "p = (ext', st')" by (cases p)
    from sl [unfolded Some p option.case prod.case] obtain runs where runs: "runs_of key S xs bpe runs st'" "length runs = (F + bpe - 1) div bpe" "mset (concat runs) = mset xs" by blast
    have sorted: "\<forall>r\<in>set runs. sorted (map key r)" using runs(1) unfolding runs_of_def by (metis in_set_conv_nth)
    have one: "length runs = 1" if "singleBatch S"
      using that f(4) arrivals_single(2) [OF i(1)] runs(2) i(5) by (simp add: F_def)
    have empty: "empty_range S xs" if "\<not> singleBatch S" "[] \<in> set runs"
    proof -
      from that(2) obtain q where q: "q < length runs" "runs ! q = []" by (metis in_set_conv_nth)
      then have "chunk_content S xs bpe q = {#}" using runs(1) by (auto simp: runs_of_def)
      moreover have "q * bpe < F"
      proof -
        have "Suc q * bpe \<le> (F + bpe - 1) div bpe * bpe" using q(1) unfolding runs(2) by (intro mult_le_mono1) simp
        also have "\<dots> \<le> F + bpe - 1" by (rule div_times_less_eq_dividend)
        finally show ?thesis using i(5) by simp
      qed
      ultimately show ?thesis using that(1) f(1,2) by (auto simp: empty_range_def needsExtMerge_def bpe_def W_def F_def)
    qed
    have "needsExtMerge S" if "\<not> singleBatch S" using that f(1) by (simp add: needsExtMerge_def)
    then have "outputWriter st' = concat runs" "\<not> singleBatch S \<Longrightarrow> map (vec_range (outputWriter st')) (mergeSortRanges st') = runs"
      using runs(1) unfolding runs_of_def by blast+
    then show ?thesis using runs(3) sorted one empty unfolding run Some p option.case prod.case by blast
  qed
qed

lemma ButterflySorter_shuffles:
  fixes S :: "'a sorter"
  assumes S: "S = ButterflySorter KWAYBUTTERFLYOSHUFFLE (length (ways P) = 1) P (length xs) heapSize wrapped rnd"
    and P: "params_fit m (length xs) (numElementFit S) P" and N: "0 < length xs"
    and W: "W = layer_size S (last_layer S)" "F = below S (last_layer S)"
  shows "case ButterflySorter_sort key S mem xs of None \<Rightarrow> overflows S xs
    | Some (out, ranges) \<Rightarrow> \<exists>L. mset L = mset (tagged_input rnd xs) \<and> out = map v L \<and> sorted (map (\<lambda>e. shuffle_rank W F (unat (tag e))) L)"
proof -
  note i = sorter_init [OF S P N W]
  have f: "task S = KWAYBUTTERFLYOSHUFFLE" "bf_Z S = 2 ^ m" "m \<le> 63" "bf_rnd S = rnd"
    using P by (simp_all add: S ButterflySorter_def params_fit_def)
  have pos: "0 < W" "0 < F" using layer_ways(3,4) [OF i(1) last_layer_less [OF i(1)]] W by simp_all
  define st where "st = \<lparr>inputReader = (xs, 0 :: nat), batch = raw_buckets mem (bf_Z S) (batch_buckets S), outputWriter = [] :: 'a list, mergeSortRanges = []\<rparr>"
  define ext where "ext = raw_buckets mem (bf_Z S) (numTotalBucket S)"
  have run: "ButterflySorter_sort key S mem xs = (case KWayButterflySortLayer key S (last_layer S) (ext, st) of
      None \<Rightarrow> None | Some (ext, st) \<Rightarrow> Some (outputWriter st, mergeSortRanges st))"
    by (simp add: ButterflySorter_sort_def Let_def st_def ext_def)
  have st: "length ext = W * F" "batch_ok m S (batch st)" "inputReader st = rd_at xs (numRealPerBucket S) 0"
    using i(2,4) by (simp_all add: st_def ext_def raw_buckets_def rd_at_def)
  consider "KWayButterflySortLayer key S (last_layer S) (ext, st) = None" "crowded (2 ^ m) (prefixes (concat (bf_ways S))) (sources S xs 0 (W * F))"
    | ext1 st1 where "KWayButterflySortLayer key S (last_layer S) (ext, st) = layer_batches key S (last_layer S) (ext1, st1)"
        "before_last m S xs ext1 (inputReader st1) 0" "same_output m S st st1"
    using reach_last [OF i(1) W st, where key = key] by (elim disjE exE conjE) simp_all
  then show ?thesis
  proof cases
    case 1
    then show ?thesis using i(2) f(2) by (simp add: run overflows_def)
  next
    case 2
    define M where "M = sum_list (sources S xs 0 (W * F))"
    have M: "M = mset (tagged_input rnd xs)" using sources_all [OF i(3)] f(4) by (simp add: M_def)
    have len: "length ext1 = W * F" using 2(2) unfolding before_last_def Let_def W [symmetric] by simp
    have lb: "layer_batches key S (last_layer S) (ext1, st1) = ofold (butterfly_batch key S (last_layer S) 1 F) (ext1, st1) [0..<F]"
      by (rule last_batches [OF i(1) W len]) (use f(1) in simp_all)
    have inv: "shuffle_inv m S M 0 st1" using 2(3) by (simp add: shuffle_inv_def same_output_def st_def Let_def)
    note sl = shuffle_loop [OF i(1) f(3,1) W M_def inv 2(2), where key = key]
    show ?thesis
    proof (cases "ofold (butterfly_batch key S (last_layer S) 1 F) (ext1, st1) [0..<F]")
      case None
      then show ?thesis using sl i(2) f(2) unfolding run 2(1) lb by (simp add: overflows_def)
    next
      case (Some p)
      obtain ext2 st2 where p: "p = (ext2, st2)" by (cases p)
      obtain ls where ls: "length ls = F * W" "\<forall>q<F * W. shuffled W F M q (ls ! q)" "outputWriter st2 = map v (concat ls)"
        using sl unfolding Some p by (auto simp: shuffle_inv_def Let_def W)
      have "\<exists>L. mset L = mset (tagged_input rnd xs) \<and> outputWriter st2 = map v L \<and> sorted (map (\<lambda>e. shuffle_rank W F (unat (tag e))) L)"
        using shuffled_all [OF ls(1,2) pos] ls(3) M by auto
      then show ?thesis unfolding run 2(1) lb Some p option.case prod.case .
    qed
  qed
qed

section \<open>Properties\<close>

text \<open>(C1) The butterfly sort sorts: with parameters that fit, whatever the random tags are, the result of
  \<open>KWayButterflySort\<close> is a sorted permutation of the input, unless it gives up; it gives up only if more
  elements are sent to one bucket than it holds, or if one of the ranges of the final merge sort is empty.  Inputs
  of at most 512 elements are always sorted.\<close>

theorem KWayButterflySort_sorts:
  assumes S: "S = butterfly_sorter KWAYBUTTERFLYOSORT bestParams wrapped heapSize rnd (length xs)"
    and heap: "heap = min heapSize (max (length xs) 4096 * wrapped * 2)"
    and P: "params_fit m (length xs) (numElementFit S) (bestParams (length xs) (heap div wrapped))" "roomy m S xs"
    and merge: "0 < szT * item_per_page" "szT * item_per_page * 2 \<le> heap" "\<And>n. 2 \<le> pow_way n (heap div (szT * item_per_page * 2))"
  shows "case KWayButterflySort key bestParams pow_way szT wrapped item_per_page heapSize rnd mem xs of
      None \<Rightarrow> 512 < length xs \<and> (overflows S xs \<or> empty_range S xs)
    | Some ys \<Rightarrow> mset ys = mset xs \<and> sorted (map key ys)"
proof (cases "length xs \<le> 512")
  case True
  have "key_order (\<lambda>a b. key a < key b) key" by unfold_locales simp_all
  then show ?thesis using key_order.BitonicSort_ascending [of _ key xs] True by (simp add: KWayButterflySort_def)
next
  case False
  define PP where "PP = bestParams (length xs) (heap div wrapped)"
  have S': "S = ButterflySorter KWAYBUTTERFLYOSORT (length (ways PP) = 1) PP (length xs) heap wrapped rnd"
    by (simp add: S butterfly_sorter_def Let_def heap PP_def)
  have single: "singleBatch S \<longleftrightarrow> length (ways PP) = 1" by (simp add: S' ButterflySorter_def)
  have run: "KWayButterflySort key bestParams pow_way szT wrapped item_per_page heapSize rnd mem xs =
    (case ButterflySorter_sort key S mem xs of None \<Rightarrow> None
     | Some (out, ranges) \<Rightarrow> if singleBatch S then Some out
         else ExtMergeSort key pow_way (heap div (szT * item_per_page * 2)) (map (vec_range out) ranges))"
    unfolding KWayButterflySort_def Let_def heap [symmetric] PP_def [symmetric] S' [symmetric] single using False by simp
  have N: "0 < length xs" using False by linarith
  note bs = ButterflySorter_sorts [OF S' P(1) [folded PP_def] N P(2), where key = key and mem = mem]
  show ?thesis
  proof (cases "ButterflySorter_sort key S mem xs")
    case None
    then show ?thesis using bs False by (simp add: run)
  next
    case (Some p)
    obtain out ranges where p: "p = (out, ranges)" by (cases p)
    from bs [unfolded Some p option.case prod.case] obtain runs where runs: "out = concat runs" "\<forall>r\<in>set runs. sorted (map key r)" "mset (concat runs) = mset xs"
      "singleBatch S \<longrightarrow> length runs = 1" "\<not> singleBatch S \<longrightarrow> map (vec_range out) ranges = runs" "\<not> singleBatch S \<longrightarrow> [] \<in> set runs \<longrightarrow> empty_range S xs" by blast
    show ?thesis
    proof (cases "singleBatch S")
      case True
      then obtain r where "runs = [r]" using runs(4) by (cases runs) auto
      then show ?thesis using runs(1-3) True unfolding run Some p by simp
    next
      case False': False
      define way where "way = heap div (szT * item_per_page * 2)"
      have way: "0 < way" using merge(1,2) by (simp add: way_def div_greater_zero_iff)
      have "\<exists>ys. ExtMergeSort key pow_way way runs = Some ys" if "[] \<notin> set runs"
        using ExtMergeSort_spec [of runs key way pow_way] that runs(2) way merge(3) unfolding way_def by metis
      then have "case ExtMergeSort key pow_way way runs of None \<Rightarrow> [] \<in> set runs | Some ys \<Rightarrow> mset ys = mset xs \<and> sorted (map key ys)"
        using ExtMergeSort_partial [OF runs(2), of pow_way way] runs(3) by (cases "ExtMergeSort key pow_way way runs") auto
      then show ?thesis using runs(5,6) False False' unfolding run Some p way_def by (auto split: option.splits)
    qed
  qed
qed

theorem KWayButterflySort_sorts_witness:
  "case KWayButterflySort id (\<lambda>N n. \<lparr>ways = [[2], [3]], kp_Z = 128, totalBucket = 6\<rparr>) (\<lambda>n w. 2) 8 16 512 1000000 (\<lambda>i. of_nat i)
      (\<lambda>i. \<lparr>tag = 0, v = 0 :: nat\<rparr>) (rev [0..<600]) of
      None \<Rightarrow> overflows (butterfly_sorter KWAYBUTTERFLYOSORT (\<lambda>N n. \<lparr>ways = [[2], [3]], kp_Z = 128, totalBucket = 6\<rparr>) 16 1000000 (\<lambda>i. of_nat i) 600) (rev [0..<600])
        \<or> empty_range (butterfly_sorter KWAYBUTTERFLYOSORT (\<lambda>N n. \<lparr>ways = [[2], [3]], kp_Z = 128, totalBucket = 6\<rparr>) 16 1000000 (\<lambda>i. of_nat i) 600) (rev [0..<600])
    | Some ys \<Rightarrow> mset ys = mset [0..<600] \<and> sorted ys"
  using KWayButterflySort_sorts [of _ "\<lambda>N n. \<lparr>ways = [[2], [3]], kp_Z = 128, totalBucket = 6\<rparr>" 16 1000000 "\<lambda>i. of_nat i" "rev [0..<600]" _ 7
      8 512 "\<lambda>n w. 2" id "\<lambda>i. \<lparr>tag = 0, v = 0 :: nat\<rparr>", OF refl refl]
  by (simp add: params_fit_def ways_ok_def roomy_def butterfly_sorter_def ButterflySorter_def Let_def sub64_def split: option.splits)

text \<open>(C2) The butterfly shuffle orders its input by the random tags: for more than 512 elements (below, the code calls
  \<open>OrShuffle\<close>) and parameters that fit (\<open>params_fit\<close>), the result is the input in the order of a fixed function of the
  tags, which is injective on 64-bit numbers, unless more elements are sent to one bucket than it holds.\<close>

theorem KWayButterflyOShuffle_by_tags:
  assumes S: "S = butterfly_sorter KWAYBUTTERFLYOSHUFFLE bestParams wrapped heapSize rnd (length xs)"
    and P: "params_fit m (length xs) (numElementFit S) (bestParams (length xs) (min heapSize (max (length xs) 4096 * wrapped * 2) div wrapped))"
    and N: "512 < length xs" and W: "W = layer_size S (last_layer S)" "F = below S (last_layer S)"
  shows "inj_on (shuffle_rank W F) {..<2 ^ 64} \<and> (case KWayButterflyOShuffle bestParams rand64 rand1 g wrapped heapSize rnd mem xs of
      None \<Rightarrow> overflows S xs
    | Some ys \<Rightarrow> \<exists>L. mset L = mset (tagged_input rnd xs) \<and> ys = map v L \<and> sorted (map (\<lambda>e. shuffle_rank W F (unat (tag e))) L))"
proof -
  define heap where "heap = min heapSize (max (length xs) 4096 * wrapped * 2)"
  define PP where "PP = bestParams (length xs) (heap div wrapped)"
  have S': "S = ButterflySorter KWAYBUTTERFLYOSHUFFLE (length (ways PP) = 1) PP (length xs) heap wrapped rnd"
    by (simp add: S butterfly_sorter_def Let_def heap_def PP_def)
  have "KWayButterflyOShuffle bestParams rand64 rand1 g wrapped heapSize rnd mem xs =
      (case ButterflySorter_sort (\<lambda>x. 0 :: nat) S mem xs of None \<Rightarrow> None | Some (out, ranges) \<Rightarrow> Some out)"
    unfolding KWayButterflyOShuffle_def Let_def heap_def [symmetric] PP_def [symmetric] S' [symmetric] using N by simp
  moreover have N0: "0 < length xs" using N by linarith
  note ButterflySorter_shuffles [OF S' P [folded heap_def, folded PP_def] N0 W, where key = "\<lambda>x. 0 :: nat" and mem = mem]
  moreover note i = sorter_init(1) [OF S' P [folded heap_def, folded PP_def] N0 W]
  have "0 < W" "0 < F" using layer_ways(3,4) [OF i last_layer_less [OF i]] W by simp_all
  then have "inj_on (shuffle_rank W F) {..<2 ^ 64}" using shuffle_rank_inj by (intro inj_onI) auto
  ultimately show ?thesis by (auto split: option.splits)
qed

theorem KWayButterflyOShuffle_by_tags_witness:
  "inj_on (shuffle_rank 3 2) {..<2 ^ 64} \<and> (case KWayButterflyOShuffle (\<lambda>N n. \<lparr>ways = [[2], [3]], kp_Z = 128, totalBucket = 6\<rparr>) (\<lambda>g. (g, g + 1)) (\<lambda>g. (True, g)) (0 :: u64) 16 1000000 (\<lambda>i. of_nat i)
      (\<lambda>i. \<lparr>tag = 0, v = 0 :: nat\<rparr>) [0..<600] of
      None \<Rightarrow> overflows (butterfly_sorter KWAYBUTTERFLYOSHUFFLE (\<lambda>N n. \<lparr>ways = [[2], [3]], kp_Z = 128, totalBucket = 6\<rparr>) 16 1000000 (\<lambda>i. of_nat i) 600) [0..<600]
    | Some ys \<Rightarrow> \<exists>L. mset L = mset (tagged_input (\<lambda>i. of_nat i) [0..<600]) \<and> ys = map v L \<and> sorted (map (\<lambda>e. shuffle_rank 3 2 (unat (tag e))) L))"
  using KWayButterflyOShuffle_by_tags [of _ "\<lambda>N n. \<lparr>ways = [[2], [3]], kp_Z = 128, totalBucket = 6\<rparr>" 16 1000000 "\<lambda>i. of_nat i" "[0..<600]" 7
      _ _ "\<lambda>g. (g, g + 1)" "\<lambda>g. (True, g)" 0 "\<lambda>i. \<lparr>tag = 0, v = 0 :: nat\<rparr>", OF refl _ _ refl refl]
  by (simp add: params_fit_def ways_ok_def butterfly_sorter_def ButterflySorter_def Let_def sub64_def split: option.splits)

end
