(* ===== verification/Allocator.thy ===== *)
theory Allocator
  imports Prelude
begin

text \<open>
  The allocator of external memory (\<open>serverAllocator.hpp\<close>): a list of free blocks, best-fit allocation, and
  coalescing when a block is freed.  In every reachable state the free blocks and the allocated ones are
  disjoint and together are the whole memory.
\<close>

section \<open>Definitions\<close>

record AllocatorSlot =
  sl_base :: u64
  sl_size :: u64

record LargeBlockAllocator =
  al_size :: u64
  freeList :: "AllocatorSlot list"

definition LargeBlockAllocator_new :: "u64 \<Rightarrow> LargeBlockAllocator" where
  "LargeBlockAllocator_new n = \<lparr>al_size = n, freeList = [\<lparr>sl_base = 0, sl_size = n\<rparr>]\<rparr>"

text \<open>The search for the smallest block that is large enough; no index found is \<open>None\<close>.\<close>

fun best_fit :: "u64 \<Rightarrow> nat \<Rightarrow> nat option \<Rightarrow> u64 \<Rightarrow> AllocatorSlot list \<Rightarrow> nat option" where
  "best_fit n i bestIdx bestSize [] = bestIdx"
| "best_fit n i bestIdx bestSize (s # ss) =
    (if sl_size s \<ge> n \<and> sl_size s < bestSize
     then if sl_size s = n then Some i else best_fit n (i + 1) (Some i) (sl_size s) ss
     else best_fit n (i + 1) bestIdx bestSize ss)"

text \<open>Without a block the code aborts.\<close>

definition Allocate :: "LargeBlockAllocator \<Rightarrow> u64 \<Rightarrow> (AllocatorSlot \<times> LargeBlockAllocator) option" where
  "Allocate A n =
    (case best_fit n 0 None (- 1) (freeList A) of
       None \<Rightarrow> None
     | Some bestIdx \<Rightarrow>
         let s = freeList A ! bestIdx;
             s' = s\<lparr>sl_size := sl_size s - n, sl_base := sl_base s + n\<rparr>;
             fl = (freeList A)[bestIdx := s'];
             fl = (if sl_size s' = 0 then take bestIdx fl @ drop (bestIdx + 1) fl else fl)
         in Some (s\<lparr>sl_size := n\<rparr>, A\<lparr>freeList := fl\<rparr>))"

text \<open>The insertion by swaps, and the loop that joins neighbours in place.\<close>

fun insert_slot :: "AllocatorSlot \<Rightarrow> AllocatorSlot list \<Rightarrow> AllocatorSlot list" where
  "insert_slot tmp [] = [tmp]"
| "insert_slot tmp (s # ss) = (if sl_base s > sl_base tmp then tmp # insert_slot s ss else s # insert_slot tmp ss)"

definition coalesce_step :: "AllocatorSlot list \<times> nat \<Rightarrow> nat \<Rightarrow> AllocatorSlot list \<times> nat" where
  "coalesce_step = (\<lambda>(fl, j) i.
    if sl_base (fl ! j) + sl_size (fl ! j) = sl_base (fl ! i)
    then (fl[j := (fl ! j)\<lparr>sl_size := sl_size (fl ! j) + sl_size (fl ! i)\<rparr>], j)
    else let j = j + 1 in (if i \<noteq> j then fl[j := fl ! i] else fl, j))"

definition Free :: "LargeBlockAllocator \<Rightarrow> AllocatorSlot \<Rightarrow> LargeBlockAllocator" where
  "Free A slot =
    (if sl_size slot = 0 then A
     else let fl = insert_slot slot (freeList A);
              (fl, j) = foldl coalesce_step (fl, 0) [1..<length fl]
          in A\<lparr>freeList := take (j + 1) fl\<rparr>)"

section \<open>Blocks as sets of addresses\<close>

lemma unat_add_small: "unat a + unat b < 2 ^ 64 \<Longrightarrow> unat (a + b) = unat a + unat b" for a b :: u64
  by (simp add: unat_word_ariths)

definition lo :: "AllocatorSlot \<Rightarrow> nat" where "lo s = unat (sl_base s)"
definition hi :: "AllocatorSlot \<Rightarrow> nat" where "hi s = unat (sl_base s) + unat (sl_size s)"

definition slot_bytes :: "AllocatorSlot \<Rightarrow> nat set" where "slot_bytes s = {lo s..<hi s}"

definition free_bytes :: "AllocatorSlot list \<Rightarrow> nat set" where "free_bytes fl = (\<Union>s\<in>set fl. slot_bytes s)"

text \<open>The free list is sorted, no two blocks touch, and no block is empty.\<close>

definition blocks_ok :: "nat \<Rightarrow> AllocatorSlot list \<Rightarrow> bool" where
  "blocks_ok n fl \<longleftrightarrow> sorted_wrt (\<lambda>s t. hi s < lo t) fl \<and> (\<forall>s\<in>set fl. lo s < hi s \<and> hi s \<le> n)"

lemma free_bytes_simps [simp]:
  "free_bytes [] = {}" "free_bytes (s # fl) = slot_bytes s \<union> free_bytes fl" "free_bytes (fl @ fl') = free_bytes fl \<union> free_bytes fl'"
  by (auto simp: free_bytes_def)

section \<open>Allocation\<close>

lemma best_fit_spec:
  "case best_fit n i b B ss of
     None \<Rightarrow> b = None \<and> (\<forall>s\<in>set ss. n \<le> sl_size s \<longrightarrow> B \<le> sl_size s)
   | Some k \<Rightarrow> (b = Some k \<and> (\<forall>s\<in>set ss. n \<le> sl_size s \<longrightarrow> B \<le> sl_size s))
       \<or> (i \<le> k \<and> k < i + length ss \<and> n \<le> sl_size (ss ! (k - i)) \<and> sl_size (ss ! (k - i)) < B
          \<and> (\<forall>s\<in>set ss. n \<le> sl_size s \<longrightarrow> sl_size (ss ! (k - i)) \<le> sl_size s))"
proof (induction n i b B ss rule: best_fit.induct)
  case (2 n i b B s ss)
  have shift: "(s # ss) ! (k - i) = ss ! (k - (i + 1))" if "i + 1 \<le> k" for k
    using that by (simp add: nth_Cons' )
  consider "n \<le> sl_size s" "sl_size s < B" "sl_size s = n" | "n \<le> sl_size s" "sl_size s < B" "sl_size s \<noteq> n" | "\<not> (n \<le> sl_size s \<and> sl_size s < B)"
    by blast
  then show ?case
  proof cases
    case 2
    then show ?thesis using "2.IH"(1) shift by (auto split: option.splits)
  next
    case 3
    then show ?thesis using "2.IH"(2) shift by (auto split: option.splits)
  qed auto
qed (simp split: option.split)

lemma Allocate_spec:
  assumes ok: "blocks_ok m (freeList A)" "m < 2 ^ 64" and al: "Allocate A n = Some (s, A')"
  shows "blocks_ok m (freeList A')" "slot_bytes s \<subseteq> free_bytes (freeList A)" "free_bytes (freeList A') = free_bytes (freeList A) - slot_bytes s"
    "sl_size s = n" "hi s \<le> m" "al_size A' = al_size A"
proof -
  obtain k where k: "best_fit n 0 None (- 1) (freeList A) = Some k" using al by (auto simp: Allocate_def split: option.splits)
  define t where "t = freeList A ! k"
  define t' where "t' = t\<lparr>sl_size := sl_size t - n, sl_base := sl_base t + n\<rparr>"
  define xs ys where "xs = take k (freeList A)" and "ys = drop (Suc k) (freeList A)"
  have kt: "k < length (freeList A)" "n \<le> sl_size t"
    using best_fit_spec [where n = n and i = 0 and b = None and B = "- 1" and ss = "freeList A"] unfolding k t_def by auto
  then have fl: "freeList A = xs @ t # ys" unfolding xs_def ys_def t_def by (simp add: id_take_nth_drop [symmetric])
  have upd: "(freeList A)[k := t'] = xs @ t' # ys" "length xs = k" using kt(1) by (simp_all add: xs_def ys_def upd_conv_take_nth_drop)
  have "Some (t\<lparr>sl_size := n\<rparr>, A\<lparr>freeList := (if sl_size t' = 0 then take k (xs @ t' # ys) @ drop (k + 1) (xs @ t' # ys) else xs @ t' # ys)\<rparr>) = Some (s, A')"
    using al unfolding Allocate_def k option.case Let_def t_def [symmetric] t'_def [symmetric] upd(1) .
  then have A': "freeList A' = xs @ (if sl_size t' = 0 then [] else [t']) @ ys" "s = t\<lparr>sl_size := n\<rparr>" "al_size A' = al_size A"
    using upd(2) by auto
  have sorted: "sorted_wrt (\<lambda>s t. hi s < lo t) (xs @ t # ys)" and pos: "\<forall>s\<in>set (xs @ t # ys). lo s < hi s \<and> hi s \<le> m"
    using ok(1) by (simp_all add: blocks_ok_def fl)
  have nt: "unat n \<le> unat (sl_size t)" using kt(2) by (simp add: word_le_nat_alt)
  have "unat (sl_base t) + unat n < 2 ^ 64" using nt pos ok(2) by (auto simp: hi_def)
  then have t': "lo t' = lo t + unat n" "hi t' = hi t" "sl_size t' = 0 \<longleftrightarrow> unat n = unat (sl_size t)"
    using nt by (auto simp: lo_def hi_def t'_def unat_add_small unat_sub word_le_nat_alt word_unat_eq_iff)
  have s: "lo s = lo t" "hi s = lo t + unat n" by (simp_all add: A'(2) lo_def hi_def)
  have le: "lo t + unat n \<le> hi t" using nt by (simp add: lo_def hi_def)
  have e: "sl_size t' = 0 \<longleftrightarrow> lo t + unat n = hi t" using t'(3) by (auto simp: lo_def hi_def)
  show "sl_size s = n" "al_size A' = al_size A" using A' by simp_all
  show "hi s \<le> m" using pos le by (auto simp: s)
  show "blocks_ok m (freeList A')"
    unfolding A'(1) blocks_ok_def using sorted pos le e by (auto simp: sorted_wrt_append t'(1,2))
  show "slot_bytes s \<subseteq> free_bytes (freeList A)" using le by (auto simp: fl slot_bytes_def s)
  have "free_bytes (freeList A') = free_bytes xs \<union> {lo t + unat n..<hi t} \<union> free_bytes ys"
    using e by (auto simp: A'(1) slot_bytes_def t'(1,2))
  moreover have "a < lo t" if "a \<in> free_bytes xs" for a using that sorted by (fastforce simp: sorted_wrt_append free_bytes_def slot_bytes_def)
  moreover have "hi t \<le> a" if "a \<in> free_bytes ys" for a using that sorted by (fastforce simp: sorted_wrt_append free_bytes_def slot_bytes_def)
  ultimately show "free_bytes (freeList A') = free_bytes (freeList A) - slot_bytes s"
    using le by (fastforce simp: fl slot_bytes_def s)
qed

text \<open>Without a result there is no block that is large enough; the code cannot use a block of \<open>2 ^ 64 - 1\<close> bytes.\<close>

lemma Allocate_none: "Allocate A n = None \<longleftrightarrow> (\<forall>s\<in>set (freeList A). n \<le> sl_size s \<longrightarrow> sl_size s = - 1)"
proof -
  have "Allocate A n = None \<longleftrightarrow> best_fit n 0 None (- 1) (freeList A) = None" by (simp add: Allocate_def Let_def split: option.splits)
  also have "\<dots> \<longleftrightarrow> (\<forall>s\<in>set (freeList A). n \<le> sl_size s \<longrightarrow> sl_size s = - 1)"
  proof (cases "best_fit n 0 None (- 1) (freeList A)")
    case None
    then show ?thesis using best_fit_spec [where n = n and i = 0 and b = None and B = "- 1" and ss = "freeList A"] by (auto simp: order.antisym)
  next
    case (Some k)
    then have "k < length (freeList A)" "n \<le> sl_size (freeList A ! k)" "sl_size (freeList A ! k) < - 1"
      using best_fit_spec [where n = n and i = 0 and b = None and B = "- 1" and ss = "freeList A"] by auto
    then show ?thesis using Some nth_mem [of k "freeList A"] by auto
  qed
  finally show ?thesis .
qed

section \<open>Freeing\<close>

text \<open>The loop in place joins neighbours as the function on lists does.\<close>

fun merge_adj :: "AllocatorSlot list \<Rightarrow> AllocatorSlot list" where
  "merge_adj [] = []"
| "merge_adj [s] = [s]"
| "merge_adj (s # t # ss) =
    (if sl_base s + sl_size s = sl_base t then merge_adj (s\<lparr>sl_size := sl_size s + sl_size t\<rparr> # ss) else s # merge_adj (t # ss))"

lemma coalesce_loop:
  assumes "j < i" "i \<le> length fl"
  shows "case foldl coalesce_step (fl, j) [i..<length fl] of (fl', j') \<Rightarrow> take (j' + 1) fl' = take j fl @ merge_adj (fl ! j # drop i fl)"
  using assms
proof (induction "length fl - i" arbitrary: fl i j)
  case 0
  then show ?case by (simp add: take_Suc_conv_app_nth)
next
  case (Suc d)
  then have i: "i < length fl" by simp
  define fl1 where "fl1 = fst (coalesce_step (fl, j) i)"
  define j1 where "j1 = snd (coalesce_step (fl, j) i)"
  have up: "[i..<length fl] = i # [Suc i..<length fl]" "drop i fl = fl ! i # drop (Suc i) fl" using i by (simp_all add: upt_conv_Cons Cons_nth_drop_Suc)
  have l1: "length fl1 = length fl" "j1 < Suc i" "drop (Suc i) fl1 = drop (Suc i) fl" "d = length fl1 - Suc i" "Suc i \<le> length fl1"
    using Suc(2,3) i by (auto simp: fl1_def j1_def coalesce_step_def Let_def)
  have "take j1 fl1 @ merge_adj (fl1 ! j1 # drop (Suc i) fl) = take j fl @ merge_adj (fl ! j # drop i fl)"
  proof (cases "sl_base (fl ! j) + sl_size (fl ! j) = sl_base (fl ! i)")
    case True
    then show ?thesis using Suc(3) i by (simp add: fl1_def j1_def coalesce_step_def up(2))
  next
    case False
    then show ?thesis using Suc(3) i by (auto simp: fl1_def j1_def coalesce_step_def up(2) Let_def take_Suc_conv_app_nth)
  qed
  moreover have "foldl coalesce_step (fl, j) [i..<length fl] = foldl coalesce_step (fl1, j1) [Suc i..<length fl1]"
    by (simp add: up(1) fl1_def j1_def l1(1) [unfolded fl1_def])
  ultimately show ?case using Suc(1) [OF l1(4,2,5)] by (simp add: l1(3))
qed

lemma merge_adj_spec:
  assumes "sorted_wrt (\<lambda>s t. hi s \<le> lo t) fl" "\<forall>s\<in>set fl. lo s < hi s \<and> hi s \<le> m" "m < 2 ^ 64"
  shows "blocks_ok m (merge_adj fl) \<and> free_bytes (merge_adj fl) = free_bytes fl \<and> (fl \<noteq> [] \<longrightarrow> (\<forall>u\<in>set (merge_adj fl). lo (hd fl) \<le> lo u))"
  using assms
proof (induction fl rule: merge_adj.induct)
  case (3 s t ss)
  have st: "hi s \<le> lo t" "lo s < hi s" "lo t < hi t" "hi t \<le> m" "hi s \<le> m" using "3.prems" by auto
  have wrap: "unat (sl_base s + sl_size s) = hi s" "lo t < 2 ^ 64" using st "3.prems"(3) by (simp_all add: hi_def unat_add_small)
  then have adj: "sl_base s + sl_size s = sl_base t \<longleftrightarrow> hi s = lo t" by (simp add: word_unat_eq_iff lo_def)
  show ?case
  proof (cases "hi s = lo t")
    case True
    define u where "u = s\<lparr>sl_size := sl_size s + sl_size t\<rparr>"
    have "unat (sl_size s) + unat (sl_size t) < 2 ^ 64" using True st "3.prems"(3) by (simp add: hi_def lo_def)
    then have u: "lo u = lo s" "hi u = hi t" using True by (simp_all add: u_def lo_def hi_def unat_add_small)
    have "blocks_ok m (merge_adj (u # ss)) \<and> free_bytes (merge_adj (u # ss)) = free_bytes (u # ss) \<and> (\<forall>w\<in>set (merge_adj (u # ss)). lo u \<le> lo w)"
      using "3.IH"(1) [unfolded adj, OF True, folded u_def] "3.prems" u st by auto
    moreover have "free_bytes (u # ss) = free_bytes (s # t # ss)" using True st by (auto simp: slot_bytes_def u)
    ultimately show ?thesis using True adj u by (simp add: u_def)
  next
    case False
    then have "blocks_ok m (merge_adj (t # ss)) \<and> free_bytes (merge_adj (t # ss)) = free_bytes (t # ss) \<and> (\<forall>w\<in>set (merge_adj (t # ss)). lo t \<le> lo w)"
      using "3.IH"(2) [unfolded adj, OF False] "3.prems" by auto
    then show ?thesis using False adj st by (fastforce simp: blocks_ok_def)
  qed
qed (auto simp: blocks_ok_def)

lemma insert_slot_spec:
  assumes "sorted_wrt (\<lambda>s t. hi s \<le> lo t) fl" "\<forall>s\<in>set fl. lo s < hi s" "lo tmp < hi tmp" "\<forall>s\<in>set fl. slot_bytes s \<inter> slot_bytes tmp = {}"
  shows "sorted_wrt (\<lambda>s t. hi s \<le> lo t) (insert_slot tmp fl) \<and> set (insert_slot tmp fl) = insert tmp (set fl)"
  using assms
proof (induction tmp fl rule: insert_slot.induct)
  case (2 tmp s ss)
  have dis: "hi s \<le> lo tmp \<or> hi tmp \<le> lo s" using "2.prems"(2-4) by (auto simp: slot_bytes_def)
  have gt: "sl_base s > sl_base tmp \<longleftrightarrow> lo tmp < lo s" by (simp add: lo_def word_less_nat_alt)
  show ?case
  proof (cases "lo tmp < lo s")
    case True
    have "slot_bytes u \<inter> slot_bytes s = {}" if "u \<in> set ss" for u using that "2.prems"(1) by (auto simp: slot_bytes_def)
    then have ih: "sorted_wrt (\<lambda>s t. hi s \<le> lo t) (insert_slot s ss)" "set (insert_slot s ss) = insert s (set ss)"
      using "2.IH"(1) gt True "2.prems" by auto
    have "hi tmp \<le> lo s" using dis True "2.prems"(2,3) by auto
    then have "hi tmp \<le> lo u" if "u \<in> insert s (set ss)" for u using that "2.prems"(1,2) by fastforce
    then show ?thesis using gt True ih by auto
  next
    case False
    then have ih: "sorted_wrt (\<lambda>s t. hi s \<le> lo t) (insert_slot tmp ss)" "set (insert_slot tmp ss) = insert tmp (set ss)"
      using "2.IH"(2) gt "2.prems" by auto
    have "hi s \<le> lo tmp" using dis False "2.prems"(2,3) by auto
    then show ?thesis using gt False ih "2.prems"(1) by auto
  qed
qed simp

lemma Free_spec:
  assumes ok: "blocks_ok m (freeList A)" "m < 2 ^ 64" "hi s \<le> m" "slot_bytes s \<inter> free_bytes (freeList A) = {}"
  shows "blocks_ok m (freeList (Free A s))" "free_bytes (freeList (Free A s)) = free_bytes (freeList A) \<union> slot_bytes s" "al_size (Free A s) = al_size A"
proof -
  have "blocks_ok m (freeList (Free A s)) \<and> free_bytes (freeList (Free A s)) = free_bytes (freeList A) \<union> slot_bytes s \<and> al_size (Free A s) = al_size A"
  proof (cases "sl_size s = 0")
    case True
    then show ?thesis using ok by (simp add: Free_def slot_bytes_def lo_def hi_def)
  next
    case False
    then have s: "lo s < hi s" by (simp add: lo_def hi_def unat_gt_0)
    define fl where "fl = insert_slot s (freeList A)"
    have old: "sorted_wrt (\<lambda>s t. hi s \<le> lo t) (freeList A)" "\<forall>s\<in>set (freeList A). lo s < hi s"
      using ok(1) by (auto simp: blocks_ok_def elim: sorted_wrt_mono_rel [rotated])
    have "\<forall>t\<in>set (freeList A). slot_bytes t \<inter> slot_bytes s = {}" using ok(4) by (auto simp: free_bytes_def)
    from insert_slot_spec [OF old s this] have fl: "sorted_wrt (\<lambda>s t. hi s \<le> lo t) fl" "set fl = insert s (set (freeList A))"
      by (simp_all add: fl_def)
    have ne: "0 < length fl" using fl(2) by auto
    obtain fl' j' where loop: "foldl coalesce_step (fl, 0) [1..<length fl] = (fl', j')" by fastforce
    have "take (j' + 1) fl' = merge_adj (fl ! 0 # drop 1 fl)" using coalesce_loop [of 0 1 fl] ne unfolding loop by simp
    also have "fl ! 0 # drop 1 fl = fl" using ne by (cases fl) simp_all
    finally have f: "freeList (Free A s) = merge_adj fl" "al_size (Free A s) = al_size A" using False loop by (simp_all add: Free_def fl_def)
    have "\<forall>t\<in>set fl. lo t < hi t \<and> hi t \<le> m" using fl(2) s ok(1,3) by (auto simp: blocks_ok_def)
    from merge_adj_spec [OF fl(1) this ok(2)] show ?thesis unfolding f using fl(2) by (auto simp: free_bytes_def)
  qed
  then show "blocks_ok m (freeList (Free A s))" "free_bytes (freeList (Free A s)) = free_bytes (freeList A) \<union> slot_bytes s" "al_size (Free A s) = al_size A"
    by blast+
qed

section \<open>Reachable states\<close>

text \<open>An allocator with the slots that are in use: slots are requested and given back in any order.\<close>

inductive alloc_run :: "u64 \<Rightarrow> LargeBlockAllocator \<Rightarrow> AllocatorSlot list \<Rightarrow> bool" for n where
  start: "alloc_run n (LargeBlockAllocator_new n) []"
| alloc: "alloc_run n A L \<Longrightarrow> Allocate A k = Some (s, A') \<Longrightarrow> alloc_run n A' (s # L)"
| free: "alloc_run n A (L1 @ s # L2) \<Longrightarrow> alloc_run n (Free A s) (L1 @ L2)"

definition alloc_inv :: "u64 \<Rightarrow> LargeBlockAllocator \<Rightarrow> AllocatorSlot list \<Rightarrow> bool" where
  "alloc_inv n A L \<longleftrightarrow> blocks_ok (unat n) (freeList A) \<and> (\<forall>s\<in>set L. hi s \<le> unat n)
    \<and> sorted_wrt (\<lambda>s t. slot_bytes s \<inter> slot_bytes t = {}) L
    \<and> free_bytes L \<inter> free_bytes (freeList A) = {} \<and> free_bytes L \<union> free_bytes (freeList A) = {0..<unat n}"

lemma alloc_run_inv:
  assumes "0 < n" "alloc_run n A L"
  shows "alloc_inv n A L"
  using assms(2)
proof (induction rule: alloc_run.induct)
  case start
  show ?case using assms(1) by (simp add: alloc_inv_def LargeBlockAllocator_new_def blocks_ok_def lo_def hi_def slot_bytes_def unat_gt_0)
next
  case (alloc A L k s A')
  have ok: "blocks_ok (unat n) (freeList A)" "unat n < 2 ^ 64" using alloc.IH unsigned_less [of n] by (simp_all add: alloc_inv_def)
  note sp = Allocate_spec [OF ok alloc.hyps(2)]
  have dis: "slot_bytes s \<inter> slot_bytes t = {}" if "t \<in> set L" for t
    using that sp(2) alloc.IH by (fastforce simp: alloc_inv_def free_bytes_def)
  have old: "free_bytes L \<inter> free_bytes (freeList A) = {}" "free_bytes L \<union> free_bytes (freeList A) = {0..<unat n}"
    using alloc.IH by (simp_all add: alloc_inv_def)
  have "free_bytes (s # L) \<inter> free_bytes (freeList A') = {}" "free_bytes (s # L) \<union> free_bytes (freeList A') = {0..<unat n}"
    using old sp(2) unfolding sp(3) by auto
  then show ?case using alloc.IH sp(1,5) dis by (simp add: alloc_inv_def)
next
  case (free A L1 s L2)
  have ok: "blocks_ok (unat n) (freeList A)" "unat n < 2 ^ 64" "hi s \<le> unat n" "slot_bytes s \<inter> free_bytes (freeList A) = {}"
    using free.IH unsigned_less [of n] by (auto simp: alloc_inv_def)
  note sp = Free_spec [OF ok]
  have "slot_bytes s \<inter> free_bytes (L1 @ L2) = {}" using free.IH by (fastforce simp: alloc_inv_def sorted_wrt_append free_bytes_def)
  moreover have "free_bytes (L1 @ s # L2) \<inter> free_bytes (freeList A) = {}" "free_bytes (L1 @ s # L2) \<union> free_bytes (freeList A) = {0..<unat n}"
    using free.IH by (simp_all add: alloc_inv_def)
  ultimately have "free_bytes (L1 @ L2) \<inter> free_bytes (freeList (Free A s)) = {}" "free_bytes (L1 @ L2) \<union> free_bytes (freeList (Free A s)) = {0..<unat n}"
    unfolding sp(2) by auto
  then show ?case using free.IH sp(1) by (simp add: alloc_inv_def sorted_wrt_append)
qed

text \<open>A sorted list of blocks that do not touch is determined by its addresses if these are an interval.\<close>

lemma blocks_interval:
  assumes "blocks_ok m fl" "free_bytes fl = {0..<m}" "0 < m"
  shows "\<exists>s. fl = [s] \<and> lo s = 0 \<and> hi s = m"
proof (cases fl)
  case (Cons s ss)
  have s: "lo s < hi s" "hi s \<le> m" "\<forall>t\<in>set ss. hi s < lo t" using assms(1) Cons by (auto simp: blocks_ok_def)
  have "hi s \<notin> free_bytes fl" using s by (auto simp: Cons free_bytes_def slot_bytes_def)
  then have m: "hi s = m" using assms(2) s(2) by auto
  have "ss = []"
  proof (cases ss)
    case c: (Cons t ts)
    then have "lo t < hi t" "hi t \<le> m" "hi s < lo t" using assms(1) Cons by (auto simp: blocks_ok_def)
    then show ?thesis using m by simp
  qed
  moreover have "0 \<in> free_bytes fl" using assms(2,3) by simp
  ultimately have "lo s = 0" using Cons by (simp add: slot_bytes_def)
  then show ?thesis using m Cons \<open>ss = []\<close> by simp
qed (use assms in simp)

section \<open>Properties\<close>

text \<open>(C14) In every state that the allocator reaches the slots in use are inside the memory and pairwise
  disjoint, the free list is sorted without empty or touching blocks, and free and used addresses together are the
  whole memory; an allocation fails only if no free block is large enough; and when every slot has been given back, the
  free list is the one block it was at the start.\<close>

theorem allocator_reachable:
  assumes "alloc_run n A L" "0 < n" "n < - 1"
  shows "sorted_wrt (\<lambda>s t. slot_bytes s \<inter> slot_bytes t = {}) L \<and> free_bytes L \<inter> free_bytes (freeList A) = {}
    \<and> free_bytes L \<union> free_bytes (freeList A) = {0..<unat n} \<and> blocks_ok (unat n) (freeList A)
    \<and> (Allocate A k = None \<longleftrightarrow> (\<forall>s\<in>set (freeList A). sl_size s < k))
    \<and> (L = [] \<longrightarrow> A = LargeBlockAllocator_new n)"
proof (intro conjI impI)
  note inv = alloc_run_inv [OF assms(2,1), unfolded alloc_inv_def]
  show "sorted_wrt (\<lambda>s t. slot_bytes s \<inter> slot_bytes t = {}) L" "free_bytes L \<inter> free_bytes (freeList A) = {}"
    "free_bytes L \<union> free_bytes (freeList A) = {0..<unat n}" "blocks_ok (unat n) (freeList A)" using inv by blast+
  have "sl_size s < - 1" if "s \<in> set (freeList A)" for s
  proof -
    have "unat (sl_size s) \<le> unat n" using inv that by (auto simp: blocks_ok_def hi_def)
    then show ?thesis using assms(3) by (simp add: word_le_nat_alt [symmetric])
  qed
  then show "Allocate A k = None \<longleftrightarrow> (\<forall>s\<in>set (freeList A). sl_size s < k)" unfolding Allocate_none by (metis linorder_not_le less_irrefl)
  assume "L = []"
  then obtain s where s: "freeList A = [s]" "lo s = 0" "hi s = unat n" using inv blocks_interval [of "unat n" "freeList A"] assms(2) by (auto simp: unat_gt_0)
  have "sl_base s = 0" "sl_size s = n" using s(2,3) by (simp_all add: lo_def hi_def unat_eq_0 unsigned_word_eqI)
  then have "s = \<lparr>sl_base = 0, sl_size = n\<rparr>" by simp
  moreover have "al_size A = n" using assms(1)
    by (induction rule: alloc_run.induct) (auto simp: LargeBlockAllocator_new_def Allocate_def Free_def Let_def split: option.splits prod.splits)
  ultimately show "A = LargeBlockAllocator_new n" using s(1) by (cases A) (simp add: LargeBlockAllocator_new_def)
qed

theorem allocator_reachable_witness:
  "blocks_ok 100 (freeList (Free \<lparr>al_size = 100, freeList = [\<lparr>sl_base = 30, sl_size = 70\<rparr>]\<rparr> \<lparr>sl_base = 0, sl_size = 10\<rparr>))"
proof -
  have "alloc_run 100 \<lparr>al_size = 100, freeList = [\<lparr>sl_base = 10, sl_size = 90\<rparr>]\<rparr> [\<lparr>sl_base = 0, sl_size = 10\<rparr>]"
    by (rule alloc_run.alloc [OF alloc_run.start, of _ 10]) (simp add: Allocate_def LargeBlockAllocator_new_def)
  then have "alloc_run 100 \<lparr>al_size = 100, freeList = [\<lparr>sl_base = 30, sl_size = 70\<rparr>]\<rparr> [\<lparr>sl_base = 10, sl_size = 20\<rparr>, \<lparr>sl_base = 0, sl_size = 10\<rparr>]"
    by (rule alloc_run.alloc [of _ _ _ 20]) (simp add: Allocate_def)
  then have "alloc_run 100 (Free \<lparr>al_size = 100, freeList = [\<lparr>sl_base = 30, sl_size = 70\<rparr>]\<rparr> \<lparr>sl_base = 0, sl_size = 10\<rparr>) ([\<lparr>sl_base = 10, sl_size = 20\<rparr>] @ [])"
    by (intro alloc_run.free) simp
  from allocator_reachable [OF this] show ?thesis by simp
qed

end
