(* ===== verification/Page_Server.thy ===== *)
theory Page_Server
  imports Encutils Allocator
begin

text \<open>
  The storage of encrypted pages: the memory back end (\<open>serverBackend.hpp\<close>) and the front end that encrypts and
  authenticates pages (\<open>serverFrontend.hpp\<close> with \<open>ENCRYPTED\<close> and \<open>AUTH\<close>).  A page is the image of its bytes in memory.
  The contract of a page server is the locale \<open>page_server\<close>, which the front end satisfies.
\<close>

unbundle bit_operations_syntax

section \<open>Definitions\<close>

text \<open>The back end.  Accesses outside of its memory are undefined behaviour and are \<open>None\<close>.\<close>

record MemServerBackend =
  mb_alloc :: LargeBlockAllocator
  mb_data :: bytes

definition MemServerBackend_new :: "(nat \<Rightarrow> u8) \<Rightarrow> u64 \<Rightarrow> MemServerBackend" where
  "MemServerBackend_new junk n =
    \<lparr>mb_alloc = LargeBlockAllocator_new n, mb_data = map junk [0..<4096 * (unat (n - 1) div 4096 + 1)]\<rparr>"

definition backend_Read :: "MemServerBackend \<Rightarrow> u64 \<Rightarrow> nat \<Rightarrow> bytes option" where
  "backend_Read b offset sz =
    (if unat offset + sz \<le> length (mb_data b) then Some (take sz (drop (unat offset) (mb_data b))) else None)"

definition backend_Write :: "MemServerBackend \<Rightarrow> u64 \<Rightarrow> bytes \<Rightarrow> MemServerBackend option" where
  "backend_Write b offset from =
    (if unat offset + length from \<le> length (mb_data b) then Some (b\<lparr>mb_data := memcpy (mb_data b) (unat offset) from\<rparr>) else None)"

text \<open>The front end.  The template arguments \<open>sizeof (T)\<close> and \<open>LATE_INIT\<close> are fields.\<close>

record nounce_t =
  indexPart :: u64
  counterPart :: u32

record ServerFrontend =
  sizeT :: nat
  LATE_INIT :: bool
  defaultVal :: bytes
  modified :: "bool list"
  slot :: AllocatorSlot
  nounce :: nounce_t

definition nounce_bytes :: "nounce_t \<Rightarrow> bytes" where
  "nounce_bytes n = br_enc64le (indexPart n) @ br_enc32le (counterPart n)"

definition sizeOfT :: "ServerFrontend \<Rightarrow> nat" where
  "sizeOfT fe = sizeT fe + AES_BLOCK_SIZE"

definition page_iv :: "ServerFrontend \<Rightarrow> u64 \<Rightarrow> u32 \<Rightarrow> bytes" where
  "page_iv fe i counter =
    nounce_bytes ((nounce fe)\<lparr>indexPart := indexPart (nounce fe) XOR i, counterPart := counterPart (nounce fe) XOR counter\<rparr>)"

text \<open>What the encryption finds in memory: stack contents, the bytes behind the key, the uninitialised structure.\<close>

record enc_env =
  ee_stack :: stack_mem
  ee_beyond :: bytes
  ee_local :: FreshEncrypted

definition server_Write :: "enc_env \<Rightarrow> ServerFrontend \<times> MemServerBackend \<Rightarrow> u64 \<Rightarrow> bytes \<Rightarrow> u32 \<Rightarrow> (ServerFrontend \<times> MemServerBackend) option" where
  "server_Write E = (\<lambda>(fe, b) i inp counter.
    if LATE_INIT fe \<and> length (modified fe) \<le> unat i then None
    else let fe = (if LATE_INIT fe then fe\<lparr>modified := (modified fe)[unat i := True]\<rparr> else fe);
             inEnc = FreshEncrypted_Encrypt (ee_stack E) (ee_beyond E) (ee_local E) inp (page_iv fe i counter)
         in map_option (\<lambda>b. (fe, b)) (backend_Write b (sl_base (slot fe) + i * of_nat (sizeOfT fe)) (fe_data inEnc @ fe_tag inEnc)))"

definition server_Read :: "enc_env \<Rightarrow> ServerFrontend \<times> MemServerBackend \<Rightarrow> u64 \<Rightarrow> bytes \<Rightarrow> u32 \<Rightarrow> bytes option" where
  "server_Read E = (\<lambda>(fe, b) i out counter.
    if LATE_INIT fe \<and> length (modified fe) \<le> unat i then None
    else if LATE_INIT fe \<and> \<not> modified fe ! unat i then Some (defaultVal fe)
    else case backend_Read b (sl_base (slot fe) + i * of_nat (sizeOfT fe)) (sizeOfT fe) of
           None \<Rightarrow> None
         | Some d \<Rightarrow> FreshEncrypted_Decrypt (ee_stack E) (ee_beyond E)
             \<lparr>fe_data = take (sizeT fe) d, fe_tag = drop (sizeT fe) d\<rparr> out (page_iv fe i counter))"

text \<open>The constructor with a default value and the destructor.  The random parts of the nonce are arguments.\<close>

fun write_default :: "enc_env \<Rightarrow> nat \<Rightarrow> bytes \<Rightarrow> ServerFrontend \<times> MemServerBackend \<Rightarrow> (ServerFrontend \<times> MemServerBackend) option" where
  "write_default E 0 d s = Some s"
| "write_default E (Suc i) d s = Option.bind (write_default E i d s) (\<lambda>s. server_Write E s (of_nat i) d 0)"

definition server_new ::
  "enc_env \<Rightarrow> MemServerBackend \<Rightarrow> ServerFrontend \<Rightarrow> nat \<Rightarrow> bytes \<Rightarrow> u64 \<Rightarrow> u32 \<Rightarrow> (ServerFrontend \<times> MemServerBackend) option" where
  "server_new E b fe initialSize d r64 r32 =
    (if initialSize = 0 then Some (fe\<lparr>slot := (slot fe)\<lparr>sl_base := - 1\<rparr>\<rparr>, b)
     else case Allocate (mb_alloc b) (of_nat initialSize * of_nat (sizeOfT fe)) of
            None \<Rightarrow> None
          | Some (s, A) \<Rightarrow>
              let b = b\<lparr>mb_alloc := A\<rparr>;
                  fe = fe\<lparr>slot := s, nounce := \<lparr>indexPart = r64, counterPart = r32\<rparr>\<rparr>
              in if LATE_INIT fe then Some (fe\<lparr>defaultVal := d, modified := replicate initialSize False\<rparr>, b)
                 else write_default E initialSize d (fe, b))"

definition server_delete :: "ServerFrontend \<times> MemServerBackend \<Rightarrow> MemServerBackend" where
  "server_delete = (\<lambda>(fe, b). if sl_base (slot fe) = - 1 then b else b\<lparr>mb_alloc := Free (mb_alloc b) (slot fe)\<rparr>)"

text \<open>The constructor without a default value, \<open>preventFree\<close>, and the constructor that takes over the slot of another
  front end of the same type, which returns both.\<close>

definition server_alloc :: "MemServerBackend \<Rightarrow> ServerFrontend \<Rightarrow> nat \<Rightarrow> u64 \<Rightarrow> u32 \<Rightarrow> (ServerFrontend \<times> MemServerBackend) option" where
  "server_alloc b fe initialSize r64 r32 =
    (if initialSize = 0 then Some (fe\<lparr>slot := (slot fe)\<lparr>sl_base := - 1\<rparr>\<rparr>, b)
     else case Allocate (mb_alloc b) (of_nat initialSize * of_nat (sizeOfT fe)) of
            None \<Rightarrow> None
          | Some (s, A) \<Rightarrow> Some (fe\<lparr>slot := s, nounce := \<lparr>indexPart = r64, counterPart = r32\<rparr>\<rparr>, b\<lparr>mb_alloc := A\<rparr>))"

definition preventFree :: "ServerFrontend \<Rightarrow> ServerFrontend" where
  "preventFree fe = fe\<lparr>slot := (slot fe)\<lparr>sl_base := - 1\<rparr>\<rparr>"

definition server_move :: "ServerFrontend \<Rightarrow> ServerFrontend \<Rightarrow> ServerFrontend \<times> ServerFrontend" where
  "server_move fe other =
    (let fe = fe\<lparr>defaultVal := defaultVal other, slot := slot other, nounce := nounce other\<rparr>;
         other = other\<lparr>slot := (slot other)\<lparr>sl_base := - 1\<rparr>\<rparr>
     in if LATE_INIT fe then (fe\<lparr>modified := modified other\<rparr>, other\<lparr>modified := modified fe\<rparr>) else (fe, other))"

section \<open>The contract of a page server\<close>

locale page_server =
  fixes rd :: "'s \<Rightarrow> u64 \<Rightarrow> u32 \<Rightarrow> 'p option" and wr :: "'s \<Rightarrow> u64 \<Rightarrow> 'p \<Rightarrow> u32 \<Rightarrow> 's option"
    and inv :: "'s \<Rightarrow> bool" and index :: "u64 \<Rightarrow> bool" and page :: "'p \<Rightarrow> bool"
  assumes write_inv: "inv s \<Longrightarrow> index i \<Longrightarrow> page p \<Longrightarrow> \<exists>s'. wr s i p c = Some s' \<and> inv s'"
    and read_same: "inv s \<Longrightarrow> index i \<Longrightarrow> page p \<Longrightarrow> wr s i p c = Some s' \<Longrightarrow> rd s' i c = Some p"
    and read_other: "inv s \<Longrightarrow> index i \<Longrightarrow> index j \<Longrightarrow> page p \<Longrightarrow> wr s i p c = Some s' \<Longrightarrow> i \<noteq> j \<Longrightarrow> rd s' j d = rd s j d"
    and read_page: "inv s \<Longrightarrow> index i \<Longrightarrow> rd s i c = Some p \<Longrightarrow> page p"
begin

lemma write_obtain:
  assumes "inv s" "index i" "page p"
  obtains s' where "wr s i p c = Some s'" "inv s'" "rd s' i c = Some p" "\<And>j d. index j \<Longrightarrow> j \<noteq> i \<Longrightarrow> rd s' j d = rd s j d"
proof -
  obtain s' where s': "wr s i p c = Some s'" "inv s'" using write_inv [OF assms] by blast
  then show ?thesis using that read_same [OF assms s'(1)] read_other [OF assms(1,2) _ assms(3) s'(1)] by blast
qed

end

section \<open>The front end is a page server\<close>

definition env_ok :: "nat \<Rightarrow> enc_env \<Rightarrow> bool" where
  "env_ok n E \<longleftrightarrow> stack_ok (ee_stack E) \<and> length (ee_beyond E) = 16 \<and> length (fe_tag (ee_local E)) = AES_BLOCK_SIZE
    \<and> length (fe_data (ee_local E)) = n \<and> n < 2 ^ 32"

text \<open>The slot has room for \<open>n\<close> pages inside the memory.\<close>

definition server_ok :: "nat \<Rightarrow> ServerFrontend \<times> MemServerBackend \<Rightarrow> bool" where
  "server_ok n = (\<lambda>(fe, b). hi (slot fe) \<le> length (mb_data b) \<and> unat (sl_size (slot fe)) = n * sizeOfT fe \<and> hi (slot fe) < 2 ^ 64
    \<and> (LATE_INIT fe \<longrightarrow> length (modified fe) = n))"

lemma length_page_iv [simp]: "length (page_iv fe i c) = 12"
  by (simp add: page_iv_def nounce_bytes_def br_enc64le_def br_enc32le_def)

text \<open>Different pages and counters have different nonces.\<close>

lemma xor_cancel: "a XOR x = a XOR y \<longleftrightarrow> x = y" for a :: "'a::len word"
  by (metis xor.assoc xor_self_eq xor.left_neutral)

lemma page_iv_inj: "page_iv fe i c = page_iv fe j d \<longleftrightarrow> i = j \<and> c = d"
  by (simp add: page_iv_def nounce_bytes_def le64.enc_prefix_free le32.enc_inj xor_cancel)

lemma page_address:
  assumes "unat i < n" "unat (sl_size s) = n * sz" "hi s < 2 ^ 64"
  shows "unat (sl_base s + i * of_nat sz) = lo s + unat i * sz" "lo s + unat i * sz + sz \<le> hi s"
proof -
  have "Suc (unat i) * sz \<le> n * sz" using assms(1) by (intro mult_le_mono1) simp
  then have le: "lo s + unat i * sz + sz \<le> hi s" using assms(2) by (simp add: lo_def hi_def)
  then show "lo s + unat i * sz + sz \<le> hi s" .
  show "unat (sl_base s + i * of_nat sz) = lo s + unat i * sz"
  proof (cases "sz = 0")
    case False
    have "sz < 2 ^ 64" "unat i * sz < 2 ^ 64" using le assms(3) by linarith+
    then have "unat (i * of_nat sz) = unat i * sz" by (simp add: unat_word_ariths unsigned_of_nat take_bit_eq_mod)
    then show ?thesis using le assms(3) by (simp add: unat_add_small lo_def)
  qed (simp add: lo_def)
qed

lemma read_write_same:
  assumes "off + length src \<le> length d"
  shows "take (length src) (drop off (memcpy d off src)) = src"
  using assms by (simp add: memcpy_def)

lemma read_write_other:
  assumes "off + length src \<le> length d" "off' + n \<le> off \<or> off + length src \<le> off'"
  shows "take n (drop off' (memcpy d off src)) = take n (drop off' d)"
  using assms(2)
proof
  assume o: "off' + n \<le> off"
  have "take n (drop off' (memcpy d off src)) = drop off' (take (off' + n) (memcpy d off src))" by (simp add: drop_take)
  also have "take (off' + n) (memcpy d off src) = take (off' + n) d" using o assms(1) by (simp add: memcpy_def min_def)
  finally show ?thesis by (simp add: drop_take)
next
  assume o: "off + length src \<le> off'"
  have "drop off' (memcpy d off src) = drop (off' - (off + length src)) (drop (off + length src) (memcpy d off src))" using o by simp
  also have "drop (off + length src) (memcpy d off src) = drop (off + length src) d" using assms(1) by (simp add: memcpy_def)
  finally show ?thesis using o by simp
qed

text \<open>The image of an encrypted page: the cipher text, 16 bytes of tag, and the bytes that the uninitialised
  structure held in the second half of its tag.\<close>

definition cipher_image :: "enc_env \<Rightarrow> bytes \<Rightarrow> bytes \<Rightarrow> bytes" where
  "cipher_image E iv p = (let c = gcm_cipher (KEY @ ee_beyond E) iv p in c @ gcm_mac (KEY @ ee_beyond E) iv [] c @ drop 16 (fe_tag (ee_local E)))"

lemma length_cipher_image: "env_ok n E \<Longrightarrow> length iv = 12 \<Longrightarrow> length (cipher_image E iv p) = length p + AES_BLOCK_SIZE"
  by (simp add: cipher_image_def Let_def env_ok_def KEY_def AES_BLOCK_SIZE_def)

lemma server_Write_eq:
  assumes "env_ok (sizeT fe) E" "server_ok n (fe, b)" "unat i < n" "length p = sizeT fe"
  shows "server_Write E (fe, b) i p c = Some (if LATE_INIT fe then fe\<lparr>modified := (modified fe)[unat i := True]\<rparr> else fe,
      b\<lparr>mb_data := memcpy (mb_data b) (lo (slot fe) + unat i * sizeOfT fe) (cipher_image E (page_iv fe i c) p)\<rparr>)"
    "lo (slot fe) + unat i * sizeOfT fe + sizeOfT fe \<le> hi (slot fe)"
proof -
  have ok: "unat (sl_size (slot fe)) = n * sizeOfT fe" "hi (slot fe) < 2 ^ 64" "hi (slot fe) \<le> length (mb_data b)" using assms(2) by (simp_all add: server_ok_def)
  note a = page_address [OF assms(3) ok(1,2)]
  show "lo (slot fe) + unat i * sizeOfT fe + sizeOfT fe \<le> hi (slot fe)" by (rule a(2))
  define fe' where "fe' = (if LATE_INIT fe then fe\<lparr>modified := (modified fe)[unat i := True]\<rparr> else fe)"
  have fe': "page_iv fe' i c = page_iv fe i c" "slot fe' = slot fe" "sizeOfT fe' = sizeOfT fe" by (simp_all add: fe'_def page_iv_def sizeOfT_def)
  define x where "x = FreshEncrypted_Encrypt (ee_stack E) (ee_beyond E) (ee_local E) p (page_iv fe i c)"
  have x: "fe_data x @ fe_tag x = cipher_image E (page_iv fe i c) p"
    unfolding x_def cipher_image_def Let_def using assms(1,4) by (simp add: env_ok_def FreshEncrypted_Encrypt_eq)
  have "length (cipher_image E (page_iv fe i c) p) = sizeOfT fe" using length_cipher_image [OF assms(1)] assms(4) by (simp add: sizeOfT_def)
  then have w: "backend_Write b (sl_base (slot fe) + i * of_nat (sizeOfT fe)) (cipher_image E (page_iv fe i c) p)
      = Some (b\<lparr>mb_data := memcpy (mb_data b) (lo (slot fe) + unat i * sizeOfT fe) (cipher_image E (page_iv fe i c) p)\<rparr>)"
    unfolding backend_Write_def a(1) using a(2) ok(3) by simp
  have m: "LATE_INIT fe \<longrightarrow> unat i < length (modified fe)" using assms(2,3) by (simp add: server_ok_def)
  show "server_Write E (fe, b) i p c = Some (if LATE_INIT fe then fe\<lparr>modified := (modified fe)[unat i := True]\<rparr> else fe,
      b\<lparr>mb_data := memcpy (mb_data b) (lo (slot fe) + unat i * sizeOfT fe) (cipher_image E (page_iv fe i c) p)\<rparr>)"
    unfolding server_Write_def prod.case fe'_def [symmetric] Let_def fe' x_def [symmetric] x w using m by auto
qed

lemma server_Read_eq:
  assumes "env_ok (sizeT fe) E" "server_ok n (fe, b)" "unat i < n" "length out = sizeT fe"
  defines "d \<equiv> take (sizeOfT fe) (drop (lo (slot fe) + unat i * sizeOfT fe) (mb_data b))"
  shows "server_Read E (fe, b) i out c =
    (if LATE_INIT fe \<and> \<not> modified fe ! unat i then Some (defaultVal fe)
     else if take 16 (drop (sizeT fe) d) = gcm_mac (KEY @ ee_beyond E) (page_iv fe i c) [] (take (sizeT fe) d)
     then Some (gcm_cipher (KEY @ ee_beyond E) (page_iv fe i c) (take (sizeT fe) d)) else None)"
proof -
  have ok: "unat (sl_size (slot fe)) = n * sizeOfT fe" "hi (slot fe) < 2 ^ 64" "hi (slot fe) \<le> length (mb_data b)" using assms(2) by (simp_all add: server_ok_def)
  note a = page_address [OF assms(3) ok(1,2)]
  have r: "backend_Read b (sl_base (slot fe) + i * of_nat (sizeOfT fe)) (sizeOfT fe) = Some d"
    unfolding backend_Read_def a(1) d_def using a(2) ok(3) by simp
  have "length d = sizeT fe + AES_BLOCK_SIZE" unfolding d_def using a(2) ok(3) by (simp add: sizeOfT_def)
  then have l: "length (drop (sizeT fe) d) = AES_BLOCK_SIZE" "length (take (sizeT fe) d) = sizeT fe" by simp_all
  have "FreshEncrypted_Decrypt (ee_stack E) (ee_beyond E) \<lparr>fe_data = take (sizeT fe) d, fe_tag = drop (sizeT fe) d\<rparr> out (page_iv fe i c) =
     (if take 16 (drop (sizeT fe) d) = gcm_mac (KEY @ ee_beyond E) (page_iv fe i c) [] (take (sizeT fe) d)
     then Some (gcm_cipher (KEY @ ee_beyond E) (page_iv fe i c) (take (sizeT fe) d)) else None)"
    using assms(1,4) l by (subst FreshEncrypted_Decrypt_eq) (simp_all add: env_ok_def)
  moreover have "LATE_INIT fe \<longrightarrow> unat i < length (modified fe)" using assms(2,3) by (simp add: server_ok_def)
  ultimately show ?thesis unfolding server_Read_def prod.case r option.case by auto
qed

text \<open>A write through one front end: its page is read back, and nothing else changes, neither in its own slot nor in
  slots that are disjoint from it.\<close>

lemma server_Write_Read:
  assumes "env_ok (sizeT fe) E" "server_ok n (fe, b)" "unat i < n" "length p = sizeT fe" "server_Write E (fe, b) i p c = Some (fe', b')"
  shows "server_ok n (fe', b')" "sizeT fe' = sizeT fe" "slot fe' = slot fe" "length out = sizeT fe \<Longrightarrow> server_Read E (fe', b') i out c = Some p"
    "unat j < n \<Longrightarrow> j \<noteq> i \<Longrightarrow> length out = sizeT fe \<Longrightarrow> server_Read E (fe', b') j out d = server_Read E (fe, b) j out d"
    "mb_alloc b' = mb_alloc b" "length (mb_data b') = length (mb_data b)"
proof -
  define sz where "sz = sizeOfT fe"
  define at where "at k = lo (slot fe) + unat k * sz" for k :: u64
  define img where "img = cipher_image E (page_iv fe i c) p"
  note w = server_Write_eq(1) [OF assms(1-4), of c, folded sz_def, folded at_def img_def] server_Write_eq(2) [OF assms(1-4), folded sz_def, folded at_def]
  have ok: "hi (slot fe) \<le> length (mb_data b)" using assms(2) by (simp add: server_ok_def)
  have img: "length img = sz" using length_cipher_image [OF assms(1)] assms(4) by (simp add: img_def sz_def sizeOfT_def)
  have room: "at i + length img \<le> length (mb_data b)" using w(2) ok img by simp
  have fe': "fe' = (if LATE_INIT fe then fe\<lparr>modified := (modified fe)[unat i := True]\<rparr> else fe)" "b' = b\<lparr>mb_data := memcpy (mb_data b) (at i) img\<rparr>"
    using w(1) assms(5) by auto
  have same: "sizeT fe' = sizeT fe" "slot fe' = slot fe" "sizeOfT fe' = sz" "\<And>k e. page_iv fe' k e = page_iv fe k e" "LATE_INIT fe' = LATE_INIT fe" "defaultVal fe' = defaultVal fe"
    by (simp_all add: fe'(1) sz_def sizeOfT_def page_iv_def)
  show "sizeT fe' = sizeT fe" "slot fe' = slot fe" "mb_alloc b' = mb_alloc b" "length (mb_data b') = length (mb_data b)" using same room by (simp_all add: fe'(2))
  show ok': "server_ok n (fe', b')" using assms(2) room by (simp add: server_ok_def fe' sizeOfT_def)
  have env': "env_ok (sizeT fe') E" using assms(1) same by simp
  show "server_Read E (fe', b') i out c = Some p" if "length out = sizeT fe"
  proof -
    have "take sz (drop (at i) (mb_data b')) = img" using read_write_same [OF room] img by (simp add: fe'(2))
    moreover have "take (sizeT fe) img = gcm_cipher (KEY @ ee_beyond E) (page_iv fe i c) p"
      "take 16 (drop (sizeT fe) img) = gcm_mac (KEY @ ee_beyond E) (page_iv fe i c) [] (gcm_cipher (KEY @ ee_beyond E) (page_iv fe i c) p)"
      using assms(4) by (simp_all add: img_def cipher_image_def Let_def)
    moreover have "LATE_INIT fe \<longrightarrow> modified fe' ! unat i" using assms(2,3) by (simp add: server_ok_def fe'(1))
    ultimately show ?thesis
      using server_Read_eq [OF env' ok' assms(3), of out c] that by (cases "LATE_INIT fe") (simp_all add: same at_def sz_def)
  qed
  show "server_Read E (fe', b') j out d = server_Read E (fe, b) j out d" if "unat j < n" "j \<noteq> i" "length out = sizeT fe"
  proof -
    have "at j + sz \<le> at i \<or> at i + sz \<le> at j"
    proof (cases "unat j < unat i")
      case True
      then have "Suc (unat j) * sz \<le> unat i * sz" by (intro mult_le_mono1) simp
      then show ?thesis by (simp add: at_def)
    next
      case False
      then have "Suc (unat i) * sz \<le> unat j * sz" using that(2) by (intro mult_le_mono1) (metis Suc_leI linorder_neqE_nat unsigned_word_eqI)
      then show ?thesis by (simp add: at_def)
    qed
    then have "take sz (drop (at j) (mb_data b')) = take sz (drop (at j) (mb_data b))" using read_write_other [OF room] img by (simp add: fe'(2))
    moreover have "unat i \<noteq> unat j" using that(2) unsigned_word_eqI by metis
    then have "LATE_INIT fe \<longrightarrow> modified fe' ! unat j = modified fe ! unat j" by (simp add: fe'(1))
    ultimately show ?thesis
      using server_Read_eq [OF env' ok' that(1), of out d] server_Read_eq [OF assms(1,2) that(1), of out d] that(3)
      by (cases "LATE_INIT fe") (simp_all add: same at_def sz_def)
  qed
qed

lemma server_Write_image:
  assumes "env_ok (sizeT fe) E" "server_ok n (fe, b)" "unat i < n" "length p = sizeT fe" "server_Write E (fe, b) i p c = Some (fe', b')"
  shows "take (sizeOfT fe) (drop (lo (slot fe) + unat i * sizeOfT fe) (mb_data b')) = cipher_image E (page_iv fe i c) p"
proof -
  have len: "length (cipher_image E (page_iv fe i c) p) = sizeOfT fe" using length_cipher_image [OF assms(1)] assms(4) by (simp add: sizeOfT_def)
  have "lo (slot fe) + unat i * sizeOfT fe + length (cipher_image E (page_iv fe i c) p) \<le> length (mb_data b)"
    using server_Write_eq(2) [OF assms(1-4)] assms(2) len by (simp add: server_ok_def)
  from read_write_same [OF this] show ?thesis using server_Write_eq(1) [OF assms(1-4), of c] assms(5) len by simp
qed

lemma server_frame:
  assumes "env_ok (sizeT fe) E" "server_ok n (fe, b)" "unat i < n" "length p = sizeT fe" "server_Write E (fe, b) i p c = Some (fe', b')"
    and "env_ok (sizeT fe2) E" "server_ok k (fe2, b)" "slot_bytes (slot fe) \<inter> slot_bytes (slot fe2) = {}" "unat j < k" "length out = sizeT fe2"
  shows "server_ok k (fe2, b')" "server_Read E (fe2, b') j out d = server_Read E (fe2, b) j out d"
proof -
  have len: "length (mb_data b') = length (mb_data b)" using server_Write_Read [OF assms(1-5)] by blast
  show ok': "server_ok k (fe2, b')" using assms(7) len by (simp add: server_ok_def)
  define img where "img = cipher_image E (page_iv fe i c) p"
  define at where "at = lo (slot fe) + unat i * sizeOfT fe"
  define at2 where "at2 = lo (slot fe2) + unat j * sizeOfT fe2"
  have b': "b' = b\<lparr>mb_data := memcpy (mb_data b) at img\<rparr>" using server_Write_eq(1) [OF assms(1-4), of c] assms(5) by (simp add: at_def img_def)
  have img: "length img = sizeOfT fe" using length_cipher_image [OF assms(1)] assms(4) by (simp add: img_def sizeOfT_def)
  have r1: "lo (slot fe) \<le> at" "at + sizeOfT fe \<le> hi (slot fe)" "hi (slot fe) \<le> length (mb_data b)"
    using server_Write_eq(2) [OF assms(1-4)] assms(2) by (simp_all add: at_def server_ok_def)
  have ok2: "unat (sl_size (slot fe2)) = k * sizeOfT fe2" "hi (slot fe2) < 2 ^ 64" using assms(7) by (simp_all add: server_ok_def)
  have r2: "lo (slot fe2) \<le> at2" "at2 + sizeOfT fe2 \<le> hi (slot fe2)" using page_address(2) [OF assms(9) ok2] by (simp_all add: at2_def)
  have "0 < sizeOfT fe" "0 < sizeOfT fe2" by (simp_all add: sizeOfT_def AES_BLOCK_SIZE_def)
  then have "lo (slot fe) \<in> slot_bytes (slot fe)" "at2 \<in> slot_bytes (slot fe2)" "at \<in> slot_bytes (slot fe)" "lo (slot fe2) \<in> slot_bytes (slot fe2)"
    using r1 r2 by (simp_all add: slot_bytes_def)
  then have "hi (slot fe) \<le> lo (slot fe2) \<or> hi (slot fe2) \<le> lo (slot fe)" using assms(8) by (auto simp: slot_bytes_def)
  then have "at2 + sizeOfT fe2 \<le> at \<or> at + sizeOfT fe \<le> at2" using r1 r2 by linarith
  then have "take (sizeOfT fe2) (drop at2 (mb_data b')) = take (sizeOfT fe2) (drop at2 (mb_data b))"
    using read_write_other [of at img "mb_data b" at2 "sizeOfT fe2"] r1 img by (simp add: b')
  then show "server_Read E (fe2, b') j out d = server_Read E (fe2, b) j out d"
    unfolding server_Read_eq [OF assms(6) ok' assms(9,10)] server_Read_eq [OF assms(6,7,9,10)] at2_def by simp
qed

text \<open>The front end with its back end is a page server; the buffer that receives a page does not matter.\<close>

definition frontend_inv :: "enc_env \<Rightarrow> nat \<Rightarrow> nat \<Rightarrow> ServerFrontend \<times> MemServerBackend \<Rightarrow> bool" where
  "frontend_inv E sz n s \<longleftrightarrow> server_ok n s \<and> sizeT (fst s) = sz \<and> env_ok sz E \<and> (LATE_INIT (fst s) \<longrightarrow> length (defaultVal (fst s)) = sz)"

interpretation frontend: page_server "\<lambda>s i c. server_Read E s i (replicate sz 0) c" "server_Write E" "frontend_inv E sz n"
  "\<lambda>i. unat i < n" "\<lambda>p. length p = sz" for E sz n
proof unfold_locales
  show "length p = sz" if "frontend_inv E sz n s" "unat i < n" "server_Read E s i (replicate sz 0) c = Some p" for s i c p
  proof -
    obtain fe b where s: "s = (fe, b)" by (cases s)
    have ok: "env_ok (sizeT fe) E" "server_ok n (fe, b)" "sizeT fe = sz" "LATE_INIT fe \<longrightarrow> length (defaultVal fe) = sz"
      using that(1) by (simp_all add: frontend_inv_def s)
    have a: "unat (sl_size (slot fe)) = n * sizeOfT fe" "hi (slot fe) < 2 ^ 64" "hi (slot fe) \<le> length (mb_data b)" using ok(2) by (simp_all add: server_ok_def)
    show ?thesis
      using that(3) ok(3,4) page_address(2) [OF that(2) a(1,2)] a(3) unfolding s
      by (subst (asm) server_Read_eq [OF ok(1,2) that(2)]) (auto simp: sizeOfT_def split: if_splits)
  qed
next
  fix s s' :: "ServerFrontend \<times> MemServerBackend" and i j :: u64 and p :: bytes and c d
  obtain fe b where s: "s = (fe, b)" by (cases s)
  obtain fe' b' where s': "s' = (fe', b')" by (cases s')
  assume "frontend_inv E sz n s" and i: "unat i < n" and "length p = sz"
  then have ok: "env_ok (sizeT fe) E" "server_ok n (fe, b)" "length p = sizeT fe" "sizeT fe = sz" "env_ok sz E" "LATE_INIT fe \<longrightarrow> length (defaultVal fe) = sz"
    by (simp_all add: frontend_inv_def s)
  obtain fe1 b1 where w: "server_Write E (fe, b) i p c = Some (fe1, b1)" using server_Write_eq(1) [OF ok(1,2) i ok(3)] by blast
  note r = server_Write_Read [OF ok(1,2) i ok(3) w]
  have "LATE_INIT fe1 \<longrightarrow> length (defaultVal fe1) = sz" using server_Write_eq(1) [OF ok(1,2) i ok(3), of c] w ok(6) by auto
  then show "\<exists>s'. server_Write E s i p c = Some s' \<and> frontend_inv E sz n s'" using w r(1,2) ok(4,5) by (auto simp: s frontend_inv_def)
  assume "server_Write E s i p c = Some s'"
  then have e: "s' = (fe1, b1)" using w by (simp add: s)
  show "server_Read E s' i (replicate sz 0) c = Some p" using r(4) ok(4) by (simp add: e)
  show "server_Read E s' j (replicate sz 0) d = server_Read E s j (replicate sz 0) d" if "unat j < n" "i \<noteq> j"
    using r(5) [OF that(1)] that(2) ok(4) by (simp add: e s)
qed

section \<open>Construction\<close>

context page_server
begin

lemma fill_pages:
  assumes "inv s" "page p" "n < 2 ^ 64" "\<And>i. i < n \<Longrightarrow> index (of_nat i)"
  shows "\<exists>s'. foldl (\<lambda>s i. Option.bind s (\<lambda>s. wr s (of_nat i) p c)) (Some s) [0..<n] = Some s' \<and> inv s' \<and> (\<forall>i<n. rd s' (of_nat i) c = Some p)"
  using assms(3,4)
proof (induction n)
  case 0
  then show ?case using assms(1) by simp
next
  case (Suc n)
  then obtain s1 where s1: "foldl (\<lambda>s i. Option.bind s (\<lambda>s. wr s (of_nat i) p c)) (Some s) [0..<n] = Some s1" "inv s1" "\<forall>i<n. rd s1 (of_nat i) c = Some p"
    by auto
  obtain s2 where s2: "wr s1 (of_nat n) p c = Some s2" "inv s2" "rd s2 (of_nat n) c = Some p" "\<And>j d. index j \<Longrightarrow> j \<noteq> of_nat n \<Longrightarrow> rd s2 j d = rd s1 j d"
    using write_obtain [OF s1(2) Suc.prems(2) [OF lessI] assms(2)] by blast
  have "rd s2 (of_nat i) c = Some p" if "i < Suc n" for i
  proof (cases "i = n")
    case False
    then have "i < n" using that by simp
    moreover have "(of_nat i :: u64) \<noteq> of_nat n" using \<open>i < n\<close> Suc.prems(1) by (simp add: word_unat_eq_iff unsigned_of_nat take_bit_eq_mod)
    ultimately show ?thesis using s2(4) [OF Suc.prems(2) [OF that]] s1(3) by simp
  qed (use s2(3) in simp)
  then show ?case using s1(1) s2(1,2) by simp
qed

end

lemma write_default_foldl: "write_default E n d s = foldl (\<lambda>s i. Option.bind s (\<lambda>s. server_Write E s (of_nat i) d 0)) (Some s) [0..<n]"
  by (induction n) simp_all

lemma server_Write_keeps:
  assumes "server_Write E (fe, b) i p c = Some (fe', b')"
  shows "slot fe' = slot fe \<and> mb_alloc b' = mb_alloc b \<and> length (mb_data b') = length (mb_data b)"
  using assms by (auto simp: server_Write_def Let_def backend_Write_def split: if_splits)

lemma write_default_keeps:
  "write_default E k d (fe, b) = Some (fe', b') \<Longrightarrow> slot fe' = slot fe \<and> mb_alloc b' = mb_alloc b \<and> length (mb_data b') = length (mb_data b)"
proof (induction k arbitrary: fe' b')
  case (Suc k)
  then obtain fe1 b1 where "write_default E k d (fe, b) = Some (fe1, b1)" "server_Write E (fe1, b1) (of_nat k) d 0 = Some (fe', b')"
    by (auto simp: bind_eq_Some_conv)
  then show ?case using Suc.IH server_Write_keeps by metis
qed simp

text \<open>A new front end on a back end whose allocator is in a reachable state: it gets a slot of its own, and all its
  pages hold the default value.\<close>

lemma server_new_spec:
  assumes A: "alloc_run m (mb_alloc b) L" "0 < m" "unat m \<le> length (mb_data b)"
    and fe: "env_ok (sizeT fe) E" "0 < n" "n * sizeOfT fe < 2 ^ 64" "length d = sizeT fe"
    and al: "Allocate (mb_alloc b) (of_nat n * of_nat (sizeOfT fe)) = Some (s, A')"
  shows "\<exists>fe' b'. server_new E b fe n d r64 r32 = Some (fe', b') \<and> server_ok n (fe', b') \<and> sizeT fe' = sizeT fe \<and> slot fe' = s \<and> mb_alloc b' = A'
    \<and> length (mb_data b') = length (mb_data b) \<and> (\<forall>i<n. server_Read E (fe', b') (of_nat i) (replicate (sizeT fe) 0) 0 = Some d)" (is ?new)
    and "alloc_run m A' (s # L)" "unat (sl_size s) = n * sizeOfT fe" "hi s \<le> length (mb_data b)" "hi s < 2 ^ 64"
proof -
  show "alloc_run m A' (s # L)" by (rule alloc_run.alloc [OF A(1) al])
  have ok: "blocks_ok (unat m) (freeList (mb_alloc b))" "unat m < 2 ^ 64" using alloc_run_inv [OF A(2,1)] unsigned_less [of m] by (simp_all add: alloc_inv_def)
  note sp = Allocate_spec [OF ok al]
  define fe1 where "fe1 = fe\<lparr>slot := s, nounce := \<lparr>indexPart = r64, counterPart = r32\<rparr>\<rparr>"
  define b1 where "b1 = b\<lparr>mb_alloc := A'\<rparr>"
  have "(of_nat n * of_nat (sizeOfT fe) :: u64) = of_nat (n * sizeOfT fe)" by simp
  then show sz: "unat (sl_size s) = n * sizeOfT fe" using sp(4) fe(3) by (simp only: unsigned_of_nat) (simp add: take_bit_eq_mod)
  have nn: "n < 2 ^ 64" using fe(3) by (rule le_less_trans [rotated]) (simp add: sizeOfT_def AES_BLOCK_SIZE_def)
  show hi: "hi s \<le> length (mb_data b)" "hi s < 2 ^ 64" using sp(5) A(3) ok(2) by linarith+
  have un: "unat (of_nat i :: u64) = i" if "i < n" for i using that nn by (simp add: unsigned_of_nat take_bit_eq_mod)
  show ?new
  proof (cases "LATE_INIT fe")
    case True
    then have "server_new E b fe n d r64 r32 = Some (fe1\<lparr>defaultVal := d, modified := replicate n False\<rparr>, b1)"
      using fe(2) by (simp add: server_new_def al fe1_def b1_def Let_def)
    then show ?thesis using True sz hi un by (simp add: server_ok_def fe1_def b1_def sizeOfT_def server_Read_def)
  next
    case False
    then have run: "server_new E b fe n d r64 r32 = write_default E n d (fe1, b1)"
      using fe(2) by (simp add: server_new_def al fe1_def b1_def Let_def)
    have inv: "frontend_inv E (sizeT fe) n (fe1, b1)"
      using fe(1) sz hi False by (simp add: frontend_inv_def server_ok_def fe1_def b1_def sizeOfT_def)
    obtain fe' b' where w: "write_default E n d (fe1, b1) = Some (fe', b')" "frontend_inv E (sizeT fe) n (fe', b')"
      "\<forall>i<n. server_Read E (fe', b') (of_nat i) (replicate (sizeT fe) 0) 0 = Some d"
      using frontend.fill_pages [OF inv fe(4) nn, of 0] un unfolding write_default_foldl by fastforce
    then show ?thesis using run write_default_keeps [OF w(1)] by (auto simp: frontend_inv_def fe1_def b1_def)
  qed
qed

lemma server_Read_cong:
  assumes "sizeT fe' = sizeT fe" "LATE_INIT fe' = LATE_INIT fe" "slot fe' = slot fe" "nounce fe' = nounce fe" "defaultVal fe' = defaultVal fe"
    "LATE_INIT fe \<Longrightarrow> modified fe' = modified fe"
  shows "server_Read E (fe', b) = server_Read E (fe, b)"
proof -
  have pv: "page_iv fe' = page_iv fe" "sizeOfT fe' = sizeOfT fe" using assms(1,4) by (simp_all add: page_iv_def sizeOfT_def fun_eq_iff)
  show ?thesis
  proof (cases "LATE_INIT fe")
    case True
    show ?thesis unfolding server_Read_def prod.case assms(1-5) pv assms(6) [OF True] ..
  next
    case False
    then show ?thesis unfolding server_Read_def prod.case assms(1-5) pv by simp
  qed
qed

lemma slot_not_sentinel:
  assumes "0 < unat (sl_size s)" "hi s < 2 ^ 64"
  shows "sl_base s \<noteq> - 1"
proof
  assume "sl_base s = - 1"
  then have "unat (sl_base s) = 2 ^ 64 - 1" by (simp add: unsigned_minus_1_eq_mask mask_eq_exp_minus_1)
  then show False using assms by (simp add: hi_def)
qed

section \<open>Properties\<close>

text \<open>(C12) External memory is encrypted and authenticated, and front ends do not disturb each other: a page that is
  written is read back with the same counter; other pages of the front end, and all pages of other front ends with slots
  of the same allocator, are unchanged; no two pages or counters of a front end share a nonce; and what is read from
  memory is returned only if it authenticates under the nonce of the page and the counter, otherwise the program aborts.
  The image of a page in memory is its cipher text, the 16 bytes of its tag, and the 16 uninitialised bytes of the
  second half of the field \<open>tag\<close>, which no read depends on.\<close>

theorem server_pages:
  assumes "env_ok (sizeT fe) E" "server_ok n (fe, b)" "unat i < n" "length p = sizeT fe" "length out = sizeT fe"
    and "alloc_run m (mb_alloc b) (slot fe # slot fe2 # L)" "0 < m" "env_ok (sizeT fe2) E" "server_ok k (fe2, b)" "unat j2 < k" "length out2 = sizeT fe2"
    and "unat j < n" "j \<noteq> i"
  shows "\<exists>fe' b'. server_Write E (fe, b) i p c = Some (fe', b') \<and> server_ok n (fe', b') \<and> server_Read E (fe', b') i out c = Some p
    \<and> server_Read E (fe', b') j out d = server_Read E (fe, b) j out d
    \<and> server_ok k (fe2, b') \<and> server_Read E (fe2, b') j2 out2 d = server_Read E (fe2, b) j2 out2 d
    \<and> take (sizeOfT fe) (drop (lo (slot fe) + unat i * sizeOfT fe) (mb_data b')) =
        (let ct = gcm_cipher (KEY @ ee_beyond E) (page_iv fe i c) p
         in ct @ gcm_mac (KEY @ ee_beyond E) (page_iv fe i c) [] ct @ drop 16 (fe_tag (ee_local E)))
    \<and> page_iv fe i c \<noteq> page_iv fe j d \<and> (c \<noteq> d \<longrightarrow> page_iv fe i c \<noteq> page_iv fe i d)
    \<and> (\<not> LATE_INIT fe \<longrightarrow> server_Read E (fe, b) i out d =
        (let x = take (sizeOfT fe) (drop (lo (slot fe) + unat i * sizeOfT fe) (mb_data b)); ct = take (sizeT fe) x
         in if take 16 (drop (sizeT fe) x) = gcm_mac (KEY @ ee_beyond E) (page_iv fe i d) [] ct
            then Some (gcm_cipher (KEY @ ee_beyond E) (page_iv fe i d) ct) else None))"
proof -
  obtain fe' b' where w: "server_Write E (fe, b) i p c = Some (fe', b')" using server_Write_eq(1) [OF assms(1-4)] by blast
  note r = server_Write_Read [OF assms(1-4) w]
  have "slot_bytes (slot fe) \<inter> slot_bytes (slot fe2) = {}" using alloc_run_inv [OF assms(7,6)] by (simp add: alloc_inv_def)
  note f = server_frame [OF assms(1-4) w assms(8,9) this assms(10,11)]
  have img: "take (sizeOfT fe) (drop (lo (slot fe) + unat i * sizeOfT fe) (mb_data b')) = cipher_image E (page_iv fe i c) p"
    by (rule server_Write_image [OF assms(1-4) w])
  show ?thesis
    using w r(1) r(4) [OF assms(5)] r(5) [OF assms(12,13,5)] f img [unfolded cipher_image_def] server_Read_eq [OF assms(1-3,5)] assms(13)
    by (intro exI [of _ fe'] exI [of _ b'] conjI impI) (simp_all add: page_iv_inj Let_def)
qed

definition demo_env :: enc_env where
  "demo_env = \<lparr>ee_stack = demo_stack, ee_beyond = replicate 16 3, ee_local = \<lparr>fe_data = [0, 0, 0], fe_tag = replicate 32 0\<rparr>\<rparr>"

definition demo_frontend :: "u64 \<Rightarrow> u64 \<Rightarrow> ServerFrontend" where
  "demo_frontend base len = \<lparr>sizeT = 3, LATE_INIT = False, defaultVal = [0, 0, 0], modified = [], slot = \<lparr>sl_base = base, sl_size = len\<rparr>,
    nounce = \<lparr>indexPart = 11, counterPart = 12\<rparr>\<rparr>"

definition demo_backend :: MemServerBackend where
  "demo_backend = \<lparr>mb_alloc = \<lparr>al_size = 1000, freeList = [\<lparr>sl_base = 105, sl_size = 895\<rparr>]\<rparr>, mb_data = replicate 4096 0\<rparr>"

lemma demo_server:
  "env_ok 3 demo_env" "server_ok 2 (demo_frontend 35 70, demo_backend)" "server_ok 1 (demo_frontend 0 35, demo_backend)"
  "alloc_run 1000 (mb_alloc demo_backend) [slot (demo_frontend 35 70), slot (demo_frontend 0 35)]"
proof -
  show "env_ok 3 demo_env" by (simp add: env_ok_def demo_env_def demo_stack_def stack_ok_def idle_gcm_def AES_BLOCK_SIZE_def)
  show "server_ok 2 (demo_frontend 35 70, demo_backend)" "server_ok 1 (demo_frontend 0 35, demo_backend)"
    by (simp_all add: server_ok_def demo_frontend_def demo_backend_def hi_def sizeOfT_def AES_BLOCK_SIZE_def)
  have "alloc_run 1000 \<lparr>al_size = 1000, freeList = [\<lparr>sl_base = 35, sl_size = 965\<rparr>]\<rparr> [\<lparr>sl_base = 0, sl_size = 35\<rparr>]"
    by (rule alloc_run.alloc [OF alloc_run.start, of _ 35]) (simp add: Allocate_def LargeBlockAllocator_new_def)
  then have "alloc_run 1000 \<lparr>al_size = 1000, freeList = [\<lparr>sl_base = 105, sl_size = 895\<rparr>]\<rparr> [\<lparr>sl_base = 35, sl_size = 70\<rparr>, \<lparr>sl_base = 0, sl_size = 35\<rparr>]"
    by (rule alloc_run.alloc [of _ _ _ 70]) (simp add: Allocate_def)
  then show "alloc_run 1000 (mb_alloc demo_backend) [slot (demo_frontend 35 70), slot (demo_frontend 0 35)]"
    by (simp add: demo_backend_def demo_frontend_def)
qed

theorem server_pages_witness:
  "\<exists>fe' b'. server_Write demo_env (demo_frontend 35 70, demo_backend) 1 [7, 8, 9] 5 = Some (fe', b') \<and> server_Read demo_env (fe', b') 1 [0, 0, 0] 5 = Some [7, 8, 9]"
proof -
  have sz: "sizeT (demo_frontend x y) = 3" for x y by (simp add: demo_frontend_def)
  show ?thesis
    using server_pages [of "demo_frontend 35 70" demo_env 2 demo_backend 1 "[7, 8, 9]" "[0, 0, 0]" 1000 "demo_frontend 0 35" "[]" 1 0 "[0, 0, 0]" 0 5 0]
      demo_server unfolding sz by (simp del: One_nat_def) blast
qed

text \<open>(C15) The life of a front end.  Construction fails only if the allocator has no block; otherwise the front end owns a
  slot that no other front end uses, and every page reads as the default value.  When another front end takes the slot
  over it reads the same pages, and the destructor of the first has no effect, as after \<open>preventFree\<close>.  The destructor of the owner gives
  the slot back.  The constructor without a default value gives a working front end only without \<open>LATE_INIT\<close>: with it,
  the vector \<open>modified\<close> stays empty and every access is outside of it.\<close>

theorem server_lifetime:
  assumes A: "alloc_run m (mb_alloc b) L" "0 < m" "unat m \<le> length (mb_data b)"
    and fe: "env_ok (sizeT fe) E" "0 < n" "n * sizeOfT fe < 2 ^ 64" "length d = sizeT fe"
  shows "(server_new E b fe n d r64 r32 = None \<longleftrightarrow> Allocate (mb_alloc b) (of_nat n * of_nat (sizeOfT fe)) = None)
    \<and> (\<forall>fe' b'. server_new E b fe n d r64 r32 = Some (fe', b') \<longrightarrow>
        server_ok n (fe', b') \<and> (\<forall>i<n. server_Read E (fe', b') (of_nat i) (replicate (sizeT fe) 0) 0 = Some d)
        \<and> alloc_run m (mb_alloc b') (slot fe' # L) \<and> alloc_run m (mb_alloc (server_delete (fe', b'))) L
        \<and> server_delete (preventFree fe', b') = b'
        \<and> (\<forall>fe0 fe2 fe3. sizeT fe0 = sizeT fe' \<and> LATE_INIT fe0 = LATE_INIT fe' \<and> server_move fe0 fe' = (fe2, fe3) \<longrightarrow>
            server_Read E (fe2, b') = server_Read E (fe', b') \<and> server_delete (fe3, b') = b' \<and> server_delete (fe2, b') = server_delete (fe', b')))
    \<and> (\<forall>fe' b'. server_alloc b fe n r64 r32 = Some (fe', b') \<longrightarrow>
        (\<not> LATE_INIT fe \<longrightarrow> frontend_inv E (sizeT fe) n (fe', b')) \<and> alloc_run m (mb_alloc b') (slot fe' # L)
        \<and> (LATE_INIT fe \<and> modified fe = [] \<longrightarrow> server_Write E (fe', b') i p c = None \<and> server_Read E (fe', b') i out c = None))"
proof (cases "Allocate (mb_alloc b) (of_nat n * of_nat (sizeOfT fe))")
  case None
  then show ?thesis using fe(2) by (simp add: server_new_def server_alloc_def)
next
  case (Some sA)
  obtain s A' where al: "Allocate (mb_alloc b) (of_nat n * of_nat (sizeOfT fe)) = Some (s, A')" using Some by (cases sA) simp
  note sp = server_new_spec [OF A fe al]
  obtain fe' b' where new: "server_new E b fe n d r64 r32 = Some (fe', b')" "server_ok n (fe', b')" "sizeT fe' = sizeT fe" "slot fe' = s" "mb_alloc b' = A'"
    "\<forall>i<n. server_Read E (fe', b') (of_nat i) (replicate (sizeT fe) 0) 0 = Some d" using sp(1) [of r64 r32] by auto
  have "0 < n * sizeOfT fe" using fe(2) by (simp add: sizeOfT_def AES_BLOCK_SIZE_def)
  then have ns: "sl_base s \<noteq> - 1" using sp(3,5) by (intro slot_not_sentinel) simp_all
  then have del: "alloc_run m (mb_alloc (server_delete (fe', b'))) L"
    using alloc_run.free [of m A' "[]" s L] sp(2) new(4,5) by (simp add: server_delete_def)
  have move: "server_Read E (fe2, b') = server_Read E (fe', b') \<and> server_delete (fe3, b') = b' \<and> server_delete (fe2, b') = server_delete (fe', b')"
    if "sizeT fe0 = sizeT fe'" "LATE_INIT fe0 = LATE_INIT fe'" "server_move fe0 fe' = (fe2, fe3)" for fe0 fe2 fe3
  proof -
    have "server_Read E (fe2, b') = server_Read E (fe', b')"
      by (rule server_Read_cong) (use that in \<open>auto simp: server_move_def Let_def split: if_splits\<close>)
    moreover have "slot fe2 = slot fe'" "sl_base (slot fe3) = - 1" using that(3) by (auto simp: server_move_def Let_def split: if_splits)
    ultimately show ?thesis by (simp add: server_delete_def)
  qed
  have prevent: "server_delete (preventFree fe', b') = b'" by (simp add: server_delete_def preventFree_def)
  have alloc: "server_alloc b fe n r64 r32 = Some (fe\<lparr>slot := s, nounce := \<lparr>indexPart = r64, counterPart = r32\<rparr>\<rparr>, b\<lparr>mb_alloc := A'\<rparr>)"
    using fe(2) by (simp add: server_alloc_def al)
  define fe1 where "fe1 = fe\<lparr>slot := s, nounce := \<lparr>indexPart = r64, counterPart = r32\<rparr>\<rparr>"
  have fresh: "(\<not> LATE_INIT fe \<longrightarrow> frontend_inv E (sizeT fe) n (fe1, b\<lparr>mb_alloc := A'\<rparr>)) \<and> alloc_run m (mb_alloc (b\<lparr>mb_alloc := A'\<rparr>)) (slot fe1 # L)
      \<and> (LATE_INIT fe \<and> modified fe = [] \<longrightarrow> server_Write E (fe1, b\<lparr>mb_alloc := A'\<rparr>) i p c = None \<and> server_Read E (fe1, b\<lparr>mb_alloc := A'\<rparr>) i out c = None)"
    using sp(2-5) fe(1) by (simp add: fe1_def frontend_inv_def server_ok_def sizeOfT_def server_Write_def server_Read_def)
  show ?thesis unfolding al new(1) alloc fe1_def [symmetric] using new(2,4-6) sp(2) del move prevent fresh by auto
qed

theorem server_lifetime_witness:
  "\<exists>fe' b'. server_new demo_env \<lparr>mb_alloc = LargeBlockAllocator_new 1000, mb_data = replicate 4096 0\<rparr> (demo_frontend 0 0) 2 [4, 5, 6] 1 2 = Some (fe', b')
    \<and> server_Read demo_env (fe', b') (of_nat 1) (replicate 3 0) 0 = Some [4, 5, 6]"
proof -
  have sz: "sizeT (demo_frontend x y) = 3" "sizeOfT (demo_frontend x y) = 35" for x y by (simp_all add: demo_frontend_def sizeOfT_def AES_BLOCK_SIZE_def)
  define b where "b = \<lparr>mb_alloc = LargeBlockAllocator_new 1000, mb_data = replicate 4096 (0 :: u8)\<rparr>"
  have p: "alloc_run 1000 (mb_alloc b) []" "0 < (1000 :: u64)" "unat (1000 :: u64) \<le> length (mb_data b)" "env_ok (sizeT (demo_frontend 0 0)) demo_env"
    "0 < (2 :: nat)" "2 * sizeOfT (demo_frontend 0 0) < 2 ^ 64" "length [4, 5, 6 :: u8] = sizeT (demo_frontend 0 0)"
    using alloc_run.start [of 1000] demo_server(1) by (simp_all add: b_def sz)
  have "Allocate (mb_alloc b) (of_nat 2 * of_nat (sizeOfT (demo_frontend 0 0))) \<noteq> None" by (simp add: b_def sz Allocate_def LargeBlockAllocator_new_def Let_def)
  then obtain fe' b' where new: "server_new demo_env b (demo_frontend 0 0) 2 [4, 5, 6] 1 2 = Some (fe', b')"
    using conjunct1 [OF server_lifetime [OF p, of 1 2]] by (metis not_None_eq surj_pair)
  have "server_Read demo_env (fe', b') (of_nat 1) (replicate (sizeT (demo_frontend 0 0)) 0) 0 = Some [4, 5, 6]"
    using conjunct1 [OF conjunct2 [OF server_lifetime [OF p, of 1 2]]] new by (metis one_less_numeral_iff semiring_norm(76))
  then show ?thesis using new unfolding b_def sz by blast
qed

end
