(* ===== verification/Page_Cache.thy ===== *)
theory Page_Cache
  imports Page_Server
begin

text \<open>
  The direct-mapped page cache (\<open>dmcache.hpp\<close>) in front of a page server (\<open>cached.hpp\<close>).  The results are proved
  over the contract of a page server and hold for the encrypted front end.
\<close>

section \<open>Definitions\<close>

record 'p CacheEntry =
  ce_val :: 'p
  ce_idx :: u64
  ce_dirty :: bool

text \<open>A cache is the vector of its entries.  The constructor resizes it, which sets every entry to zero; \<open>zero\<close> is
  the page of zero bytes.\<close>

definition DMCache_new :: "nat \<Rightarrow> 'p \<Rightarrow> 'p CacheEntry list" where
  "DMCache_new cacheSize zero = replicate cacheSize \<lparr>ce_val = zero, ce_idx = 0, ce_dirty = False\<rparr>"

definition dm_slot :: "'p CacheEntry list \<Rightarrow> u64 \<Rightarrow> nat" where
  "dm_slot cache i = unat i mod length cache"

definition DMCache_CheckContains :: "'p CacheEntry list \<Rightarrow> u64 \<Rightarrow> bool" where
  "DMCache_CheckContains cache i \<longleftrightarrow> ce_idx (cache ! dm_slot cache i) = i"

definition DMCache_Insert :: "'p CacheEntry list \<Rightarrow> u64 \<Rightarrow> 'p \<Rightarrow> 'p CacheEntry list" where
  "DMCache_Insert cache i val = cache[dm_slot cache i := \<lparr>ce_val = val, ce_idx = i, ce_dirty = False\<rparr>]"

text \<open>The functions that return a reference return the new cache; the reference is to the value of the slot.\<close>

definition DMCache_Access :: "bool \<Rightarrow> bool \<Rightarrow> 'p CacheEntry list \<Rightarrow> u64 \<Rightarrow> 'p CacheEntry list" where
  "DMCache_Access dirty writeBack cache i =
    (let k = dm_slot cache i; e = cache ! k in cache[k := e\<lparr>ce_dirty := (ce_dirty e \<or> dirty) \<and> writeBack\<rparr>])"

text \<open>\<open>Cached::AccessDM\<close> over the operations \<open>rd\<close> and \<open>wr\<close> of the server; an abort of the server is \<open>None\<close>.\<close>

definition AccessDM ::
  "('s \<Rightarrow> u64 \<Rightarrow> u32 \<Rightarrow> 'p option) \<Rightarrow> ('s \<Rightarrow> u64 \<Rightarrow> 'p \<Rightarrow> u32 \<Rightarrow> 's option) \<Rightarrow> bool \<Rightarrow> bool \<Rightarrow> bool
    \<Rightarrow> 'p CacheEntry list \<times> 's \<Rightarrow> u64 \<Rightarrow> ('p CacheEntry list \<times> 's) option" where
  "AccessDM rd wr dirty skip_read writeBack = (\<lambda>(cache, s) i.
    let k = dm_slot cache i; mappedSlot = cache ! k
    in case (if ce_idx mappedSlot \<noteq> i
             then case (if ce_dirty mappedSlot then wr s (ce_idx mappedSlot) (ce_val mappedSlot) 0 else Some s) of
                    None \<Rightarrow> None
                  | Some s \<Rightarrow>
                      if skip_read then Some (mappedSlot\<lparr>ce_idx := i\<rparr>, s)
                      else case rd s i 0 of
                             None \<Rightarrow> None
                           | Some p \<Rightarrow> Some (mappedSlot\<lparr>ce_val := p, ce_dirty := False, ce_idx := i\<rparr>, s)
             else Some (mappedSlot, s)) of
         None \<Rightarrow> None
       | Some (e, s) \<Rightarrow> Some (cache[k := e\<lparr>ce_dirty := (ce_dirty e \<or> dirty) \<and> writeBack\<rparr>], s))"

text \<open>The uses of a returned reference: read the page, or overwrite it.\<close>

datatype 'p cache_op = AccessReadOnly u64 | Access u64 'p | AccessWriteOnly u64 'p

definition slot_val :: "'p CacheEntry list \<Rightarrow> u64 \<Rightarrow> 'p" where
  "slot_val cache i = ce_val (cache ! dm_slot cache i)"

definition slot_set :: "'p CacheEntry list \<Rightarrow> u64 \<Rightarrow> 'p \<Rightarrow> 'p CacheEntry list" where
  "slot_set cache i p = (let k = dm_slot cache i in cache[k := (cache ! k)\<lparr>ce_val := p\<rparr>])"

fun Cached_op ::
  "('s \<Rightarrow> u64 \<Rightarrow> u32 \<Rightarrow> 'p option) \<Rightarrow> ('s \<Rightarrow> u64 \<Rightarrow> 'p \<Rightarrow> u32 \<Rightarrow> 's option) \<Rightarrow> 'p CacheEntry list \<times> 's \<Rightarrow> 'p cache_op
    \<Rightarrow> (('p CacheEntry list \<times> 's) \<times> 'p) option" where
  "Cached_op rd wr st (AccessReadOnly i) = map_option (\<lambda>(cache, s). ((cache, s), slot_val cache i)) (AccessDM rd wr False False True st i)"
| "Cached_op rd wr st (Access i p) = map_option (\<lambda>(cache, s). ((slot_set cache i p, s), p)) (AccessDM rd wr True False True st i)"
| "Cached_op rd wr st (AccessWriteOnly i p) = map_option (\<lambda>(cache, s). ((slot_set cache i p, s), p)) (AccessDM rd wr True True True st i)"

fun Cached_run where
  "Cached_run rd wr st [] = Some (st, [])"
| "Cached_run rd wr st (x # xs) = (case Cached_op rd wr st x of None \<Rightarrow> None
    | Some (st, r) \<Rightarrow> map_option (\<lambda>(st, rs). (st, r # rs)) (Cached_run rd wr st xs))"

section \<open>Specification: an array of pages\<close>

fun flat_op :: "(u64 \<Rightarrow> 'p) \<Rightarrow> 'p cache_op \<Rightarrow> (u64 \<Rightarrow> 'p) \<times> 'p" where
  "flat_op mem (AccessReadOnly i) = (mem, mem i)"
| "flat_op mem (Access i p) = (mem(i := p), p)"
| "flat_op mem (AccessWriteOnly i p) = (mem(i := p), p)"

fun flat_run :: "(u64 \<Rightarrow> 'p) \<Rightarrow> 'p cache_op list \<Rightarrow> (u64 \<Rightarrow> 'p) \<times> 'p list" where
  "flat_run mem [] = (mem, [])"
| "flat_run mem (x # xs) = (let (mem, r) = flat_op mem x; (mem, rs) = flat_run mem xs in (mem, r # rs))"

fun op_index :: "'p cache_op \<Rightarrow> u64" where
  "op_index (AccessReadOnly i) = i" | "op_index (Access i p) = i" | "op_index (AccessWriteOnly i p) = i"

fun op_page :: "('p \<Rightarrow> bool) \<Rightarrow> 'p cache_op \<Rightarrow> bool" where
  "op_page ok (AccessReadOnly i) = True" | "op_page ok (Access i p) = ok p" | "op_page ok (AccessWriteOnly i p) = ok p"

section \<open>The cache refines the array\<close>

context page_server
begin

definition entry_ok :: "'s \<Rightarrow> nat \<Rightarrow> nat \<Rightarrow> 'p CacheEntry \<Rightarrow> bool" where
  "entry_ok s sz k e \<longleftrightarrow> (if unat (ce_idx e) mod sz = k
    then index (ce_idx e) \<and> page (ce_val e) \<and> (ce_dirty e \<or> rd s (ce_idx e) 0 = Some (ce_val e)) else \<not> ce_dirty e)"

definition cache_inv :: "'p CacheEntry list \<times> 's \<Rightarrow> (u64 \<Rightarrow> 'p) \<Rightarrow> bool" where
  "cache_inv = (\<lambda>(cache, s) mem. inv s \<and> 0 < length cache \<and> (\<forall>k<length cache. entry_ok s (length cache) k (cache ! k))
    \<and> (\<forall>i. index i \<longrightarrow> page (mem i) \<and> (if ce_idx (cache ! dm_slot cache i) = i then ce_val (cache ! dm_slot cache i) = mem i else rd s i 0 = Some (mem i))))"

lemma dm_slot_update [simp]: "dm_slot (cache[k := e]) i = dm_slot cache i"
  by (simp add: dm_slot_def)

text \<open>Writing back the entry of a slot makes the server hold every page of the slot.\<close>

lemma flush_slot:
  assumes "cache_inv (cache, s) mem" "k < length cache"
  shows "\<exists>s'. (if ce_dirty (cache ! k) then wr s (ce_idx (cache ! k)) (ce_val (cache ! k)) 0 else Some s) = Some s' \<and> inv s'
    \<and> (\<forall>j. index j \<and> dm_slot cache j = k \<longrightarrow> rd s' j 0 = Some (mem j)) \<and> (\<forall>j. index j \<and> dm_slot cache j \<noteq> k \<longrightarrow> rd s' j 0 = rd s j 0)"
proof -
  define e where "e = cache ! k"
  have inv: "inv s" and ok: "entry_ok s (length cache) k e" using assms by (simp_all add: cache_inv_def e_def)
  have view: "if ce_idx e = j then ce_val e = mem j else rd s j 0 = Some (mem j)" if "index j" "dm_slot cache j = k" for j
    using assms(1) that by (auto simp: cache_inv_def e_def)
  show ?thesis
  proof (cases "ce_dirty e")
    case False
    then have "rd s j 0 = Some (mem j)" if "index j" "dm_slot cache j = k" for j
      using view [OF that] ok that by (auto simp: entry_ok_def dm_slot_def split: if_splits)
    then show ?thesis using False inv by (auto simp: e_def)
  next
    case True
    then have x: "unat (ce_idx e) mod length cache = k" "index (ce_idx e)" "page (ce_val e)" using ok by (auto simp: entry_ok_def split: if_splits)
    obtain s' where s': "wr s (ce_idx e) (ce_val e) 0 = Some s'" "inv s'" "rd s' (ce_idx e) 0 = Some (ce_val e)"
      "\<And>j d. index j \<Longrightarrow> j \<noteq> ce_idx e \<Longrightarrow> rd s' j d = rd s j d" using write_obtain [OF inv x(2,3)] by metis
    have "rd s' j 0 = Some (mem j)" if "index j" "dm_slot cache j = k" for j
      using view [OF that] s'(3,4) that(1) by (cases "j = ce_idx e") auto
    moreover have "rd s' j 0 = rd s j 0" if "index j" "dm_slot cache j \<noteq> k" for j
      using s'(4) that x(1) by (auto simp: dm_slot_def)
    ultimately show ?thesis using True s'(1,2) by (auto simp: e_def)
  qed
qed

lemma place_entry:
  assumes "cache_inv (cache, s) mem" "inv s'" "index i" "k = dm_slot cache i" "page (ce_val e)" "ce_idx e = i" "ce_dirty e \<or> rd s' i 0 = Some (ce_val e)"
    and same: "\<And>j. index j \<Longrightarrow> j \<noteq> i \<Longrightarrow> dm_slot cache j = k \<Longrightarrow> rd s' j 0 = Some (mem j)" "\<And>j. index j \<Longrightarrow> dm_slot cache j \<noteq> k \<Longrightarrow> rd s' j 0 = rd s j 0"
  shows "cache_inv (cache[k := e], s') (mem(i := ce_val e))"
proof -
  have len: "0 < length cache" "k < length cache" using assms(1,4) by (simp_all add: cache_inv_def dm_slot_def)
  have "entry_ok s' (length cache) q (cache[k := e] ! q)" if "q < length cache" for q
  proof (cases "q = k")
    case True
    then show ?thesis using assms(3-7) len(2) by (simp add: entry_ok_def dm_slot_def)
  next
    case False
    moreover have "entry_ok s (length cache) q (cache ! q)" using assms(1) that by (simp add: cache_inv_def)
    ultimately show ?thesis using same(2) [of "ce_idx (cache ! q)"] by (auto simp: entry_ok_def dm_slot_def split: if_splits)
  qed
  moreover have "page ((mem(i := ce_val e)) j) \<and> (if ce_idx (cache[k := e] ! dm_slot cache j) = j then ce_val (cache[k := e] ! dm_slot cache j) = (mem(i := ce_val e)) j
      else rd s' j 0 = Some ((mem(i := ce_val e)) j))" if "index j" for j
  proof (cases "j = i")
    case True
    then show ?thesis using assms(4-6) len(2) by simp
  next
    case False
    then show ?thesis using assms(1,6) that same [OF that] len(2) by (cases "dm_slot cache j = k") (auto simp: cache_inv_def)
  qed
  ultimately show ?thesis using assms(2) len(1) by (simp add: cache_inv_def)
qed

lemma AccessDM_spec:
  assumes "cache_inv (cache, s) mem" "index i" "skip \<longrightarrow> dirty" "k = dm_slot cache i"
  shows "\<exists>e s'. AccessDM rd wr dirty skip True (cache, s) i = Some (cache[k := e], s') \<and> (\<not> skip \<longrightarrow> ce_val e = mem i \<and> cache_inv (cache[k := e], s') mem)
    \<and> (dirty \<longrightarrow> (\<forall>p. page p \<longrightarrow> cache_inv (cache[k := e\<lparr>ce_val := p\<rparr>], s') (mem(i := p))))"
proof -
  have k: "k < length cache" "page (mem i)" using assms(1,2,4) by (simp_all add: cache_inv_def dm_slot_def)
  define e where "e = cache ! k"
  show ?thesis
  proof (cases "ce_idx e = i")
    case True
    define e' where "e' = e\<lparr>ce_dirty := ce_dirty e \<or> dirty\<rparr>"
    have acc: "AccessDM rd wr dirty skip True (cache, s) i = Some (cache[k := e'], s)"
      using True by (simp add: AccessDM_def Let_def assms(4) [symmetric] e_def [symmetric] e'_def)
    have val: "ce_val e = mem i" "entry_ok s (length cache) k e" "inv s" using assms(1,2,4) True k by (auto simp: cache_inv_def e_def)
    have upd: "cache_inv (cache[k := e'\<lparr>ce_val := p\<rparr>], s) (mem(i := p))" if p: "page p" "p = mem i \<or> dirty" for p
    proof -
      have d: "ce_dirty (e'\<lparr>ce_val := p\<rparr>) \<or> rd s i 0 = Some p"
        using p(2) val(1,2) True assms(4) by (auto simp: e'_def entry_ok_def dm_slot_def)
      have "rd s j 0 = Some (mem j)" if "index j" "j \<noteq> i" "dm_slot cache j = k" for j
        using assms(1) that True by (auto simp: cache_inv_def e_def)
      then show ?thesis using place_entry [OF assms(1) val(3) assms(2,4), of "e'\<lparr>ce_val := p\<rparr>"] p(1) d True by (simp add: e'_def)
    qed
    have eq: "e'\<lparr>ce_val := mem i\<rparr> = e'" "ce_val e' = mem i" using val(1) by (simp_all add: e'_def)
    have "cache_inv (cache[k := e'], s) mem" using upd [of "mem i", unfolded eq(1)] k(2) by simp
    then show ?thesis using acc upd eq(2) by (intro exI [of _ e'] exI [of _ s]) auto
  next
    case False
    obtain s' where s': "(if ce_dirty e then wr s (ce_idx e) (ce_val e) 0 else Some s) = Some s'" "inv s'"
      "\<And>j. index j \<Longrightarrow> dm_slot cache j = k \<Longrightarrow> rd s' j 0 = Some (mem j)" "\<And>j. index j \<Longrightarrow> dm_slot cache j \<noteq> k \<Longrightarrow> rd s' j 0 = rd s j 0"
      using flush_slot [OF assms(1) k(1)] unfolding e_def by blast
    have ri: "rd s' i 0 = Some (mem i)" using s'(3) assms(2,4) by simp
    define e' where "e' = (if skip then e\<lparr>ce_idx := i, ce_dirty := True\<rparr> else e\<lparr>ce_val := mem i, ce_idx := i, ce_dirty := dirty\<rparr>)"
    have acc: "AccessDM rd wr dirty skip True (cache, s) i = Some (cache[k := e'], s')"
      using False s'(1) ri assms(3) by (auto simp: AccessDM_def Let_def assms(4) [symmetric] e_def [symmetric] e'_def)
    have upd: "cache_inv (cache[k := e'\<lparr>ce_val := p\<rparr>], s') (mem(i := p))" if "page p" "p = mem i \<or> dirty" for p
    proof -
      have "ce_dirty (e'\<lparr>ce_val := p\<rparr>) \<or> rd s' i 0 = Some p" using that(2) ri assms(3) by (auto simp: e'_def)
      then show ?thesis using place_entry [OF assms(1) s'(2) assms(2,4), of "e'\<lparr>ce_val := p\<rparr>"] that(1) s'(3,4) by (simp add: e'_def)
    qed
    have eq: "e'\<lparr>ce_val := mem i\<rparr> = e'" "ce_val e' = mem i" if "\<not> skip" using that by (simp_all add: e'_def)
    have "cache_inv (cache[k := e'], s') mem" if "\<not> skip" using upd [of "mem i", unfolded eq(1) [OF that]] k(2) by simp
    then show ?thesis using acc upd eq(2) by (intro exI [of _ e'] exI [of _ s']) auto
  qed
qed

lemma Cached_op_refines:
  assumes "cache_inv st mem" "index (op_index x)" "op_page page x"
  shows "\<exists>st'. Cached_op rd wr st x = Some (st', snd (flat_op mem x)) \<and> cache_inv st' (fst (flat_op mem x))"
proof -
  obtain cache s where st: "st = (cache, s)" by (cases st)
  define k where "k = dm_slot cache (op_index x)"
  have k: "k < length cache" using assms(1) by (simp add: cache_inv_def st k_def dm_slot_def)
  show ?thesis
  proof (cases x)
    case (AccessReadOnly i)
    then obtain e s' where e: "AccessDM rd wr False False True (cache, s) i = Some (cache[k := e], s')" "ce_val e = mem i" "cache_inv (cache[k := e], s') mem"
      using AccessDM_spec [OF assms(1) [unfolded st] assms(2) _ k_def, of False False] by auto
    then show ?thesis using AccessReadOnly k by (simp add: st slot_val_def k_def)
  next
    case (Access i p)
    then obtain e s' where e: "AccessDM rd wr True False True (cache, s) i = Some (cache[k := e], s')" "cache_inv (cache[k := e\<lparr>ce_val := p\<rparr>], s') (mem(i := p))"
      using AccessDM_spec [OF assms(1) [unfolded st] assms(2) _ k_def, of False True] assms(3) by auto
    then show ?thesis using Access k by (simp add: st slot_set_def k_def Let_def)
  next
    case (AccessWriteOnly i p)
    then obtain e s' where e: "AccessDM rd wr True True True (cache, s) i = Some (cache[k := e], s')" "cache_inv (cache[k := e\<lparr>ce_val := p\<rparr>], s') (mem(i := p))"
      using AccessDM_spec [OF assms(1) [unfolded st] assms(2) _ k_def, of True True] assms(3) by auto
    then show ?thesis using AccessWriteOnly k by (simp add: st slot_set_def k_def Let_def)
  qed
qed

lemma Cached_run_refines:
  assumes "cache_inv st mem" "\<forall>x\<in>set xs. index (op_index x) \<and> op_page page x"
  shows "\<exists>st'. Cached_run rd wr st xs = Some (st', snd (flat_run mem xs)) \<and> cache_inv st' (fst (flat_run mem xs))"
  using assms
proof (induction xs arbitrary: st mem)
  case (Cons x xs)
  from Cached_op_refines [OF Cons.prems(1), of x] Cons.prems(2) obtain st1 where st1: "Cached_op rd wr st x = Some (st1, snd (flat_op mem x))"
    "cache_inv st1 (fst (flat_op mem x))" by auto
  from Cons.IH [OF st1(2)] Cons.prems(2) obtain st2 where "Cached_run rd wr st1 xs = Some (st2, snd (flat_run (fst (flat_op mem x)) xs))"
    "cache_inv st2 (fst (flat_run (fst (flat_op mem x)) xs))" by auto
  then show ?case using st1(1) by (simp add: split_beta Let_def)
qed simp

lemma cache_inv_new:
  assumes "inv s" "0 < sz" "\<And>i. index i \<Longrightarrow> page (mem i) \<and> rd s i 0 = Some (mem i)" "index 0" "mem 0 = zero"
  shows "cache_inv (DMCache_new sz zero, s) mem"
  using assms by (auto simp: cache_inv_def DMCache_new_def entry_ok_def dm_slot_def)

end

section \<open>Properties\<close>

text \<open>(C13) The cached server behaves as an array of pages: any sequence of reads, updates and write-only accesses of
  pages in range returns the values of the array, through encryption, evictions and write-backs, if the first page
  holds zeros when the cache is created.  Whatever the first page holds, a read of page 0 that is the first access
  of a new cache returns zeros: the new cache claims to contain page 0.\<close>

theorem cached_server_refines:
  fixes mem :: "u64 \<Rightarrow> bytes"
  assumes "frontend_inv E sz n s" "0 < n" "0 < cacheSize" "\<And>i. unat i < n \<Longrightarrow> length (mem i) = sz \<and> server_Read E s i (replicate sz 0) 0 = Some (mem i)"
    and "\<forall>x\<in>set xs. unat (op_index x) < n \<and> op_page (\<lambda>p. length p = sz) x"
  defines "rd \<equiv> \<lambda>s i c. server_Read E s i (replicate sz 0) c" and "new \<equiv> (DMCache_new cacheSize (replicate sz 0), s)"
  shows "(mem 0 = replicate sz 0 \<longrightarrow> map_option snd (Cached_run rd (server_Write E) new xs) = Some (snd (flat_run mem xs)))
    \<and> map_option snd (Cached_run rd (server_Write E) new [AccessReadOnly 0]) = Some [replicate sz 0]"
proof (intro conjI impI)
  assume z: "mem 0 = replicate sz 0"
  have "frontend.cache_inv E sz n new mem"
    unfolding new_def by (rule frontend.cache_inv_new) (use assms(1-4) z in auto)
  from frontend.Cached_run_refines [OF this assms(5)] show "map_option snd (Cached_run rd (server_Write E) new xs) = Some (snd (flat_run mem xs))"
    by (auto simp: rd_def)
next
  show "map_option snd (Cached_run rd (server_Write E) new [AccessReadOnly 0]) = Some [replicate sz 0]"
    using assms(3) by (simp add: new_def AccessDM_def DMCache_new_def dm_slot_def slot_val_def Let_def)
qed

definition demo_late :: ServerFrontend where
  "demo_late = \<lparr>sizeT = 3, LATE_INIT = True, defaultVal = [0, 0, 0], modified = [False, False], slot = \<lparr>sl_base = 35, sl_size = 70\<rparr>,
    nounce = \<lparr>indexPart = 11, counterPart = 12\<rparr>\<rparr>"

theorem cached_server_refines_witness:
  "map_option snd (Cached_run (\<lambda>s i c. server_Read demo_env s i (replicate 3 0) c) (server_Write demo_env)
      (DMCache_new 1 (replicate 3 0), (demo_late, demo_backend)) [Access 1 [1, 2, 3], AccessReadOnly 0, AccessReadOnly 1])
    = Some [[1, 2, 3], [0, 0, 0], [1, 2, 3]]"
proof -
  have inv: "frontend_inv demo_env 3 2 (demo_late, demo_backend)"
    using demo_server(1) by (simp add: frontend_inv_def server_ok_def demo_late_def demo_backend_def hi_def sizeOfT_def AES_BLOCK_SIZE_def)
  have rd: "server_Read demo_env (demo_late, demo_backend) i (replicate 3 0) 0 = Some [0, 0, 0]" if "unat i < 2" for i
    using that by (cases "unat i") (auto simp: server_Read_def demo_late_def less_2_cases_iff)
  show ?thesis
    using cached_server_refines [OF inv, of 1 "\<lambda>i. [0, 0, 0]" "[Access 1 [1, 2, 3], AccessReadOnly 0, AccessReadOnly 1]"] rd
    by (simp add: numeral_3_eq_3)
qed

end
