(* ===== verification/Ext_Vector.thy ===== *)
theory Ext_Vector
  imports Page_Server
begin

text \<open>
  The external vector without a cache (\<open>noncachedvector.hpp\<close>), as compiled without \<open>DISK_IO\<close>: readers and writers, which
  keep one page in memory, and the copy functions.  What is written with a counter is read back with the same
  counter, in order; this is what the lists of the sorting theories stand for.
\<close>

section \<open>Definitions\<close>

text \<open>The operations of the server are arguments.  A page is the list of its elements; an iterator is its
  position \<open>m_ptr\<close>.  The shared page \<open>cachePage\<close> keeps what it held.\<close>

record ('s, 'a) ext_vector =
  vec_N :: nat
  item_per_page :: nat
  sv_Read :: "'s \<Rightarrow> u64 \<Rightarrow> u32 \<Rightarrow> 'a list option"
  sv_Write :: "'s \<Rightarrow> u64 \<Rightarrow> 'a list \<Rightarrow> u32 \<Rightarrow> 's option"

definition get_page_idx :: "('s, 'a) ext_vector \<Rightarrow> nat \<Rightarrow> nat" where
  "get_page_idx V m_ptr = m_ptr div item_per_page V"

definition get_page_offset :: "('s, 'a) ext_vector \<Rightarrow> nat \<Rightarrow> nat" where
  "get_page_offset V m_ptr = m_ptr mod item_per_page V"

definition derefAuth :: "('s, 'a) ext_vector \<Rightarrow> 's \<Rightarrow> nat \<Rightarrow> u32 \<Rightarrow> 'a option" where
  "derefAuth V s m_ptr inAuth =
    map_option (\<lambda>page. page ! get_page_offset V m_ptr) (sv_Read V s (of_nat (get_page_idx V m_ptr)) inAuth)"

text \<open>The pointer \<open>curr\<close> is an offset in the page; the initial value \<open>UINT64_MAX\<close> is \<open>None\<close>.\<close>

record 'a Reader =
  r_cache :: "'a list"
  r_it :: nat
  r_end :: nat
  r_curr :: "nat option"
  r_counter :: u32

definition Reader_new :: "'a list \<Rightarrow> nat \<Rightarrow> nat \<Rightarrow> u32 \<Rightarrow> 'a Reader" where
  "Reader_new junk b e counter = \<lparr>r_cache = junk, r_it = b, r_end = e, r_curr = None, r_counter = counter\<rparr>"

definition Reader_eof :: "'a Reader \<Rightarrow> bool" where
  "Reader_eof R \<longleftrightarrow> r_end R \<le> r_it R"

definition Reader_get :: "('s, 'a) ext_vector \<Rightarrow> 's \<Rightarrow> 'a Reader \<Rightarrow> 'a Reader option" where
  "Reader_get V s R =
    (if (case r_curr R of None \<Rightarrow> True | Some k \<Rightarrow> item_per_page V \<le> k)
     then map_option (\<lambda>page. R\<lparr>r_cache := page,
            r_curr := Some (if r_curr R \<noteq> Some (item_per_page V) then get_page_offset V (r_it R) else 0)\<rparr>)
          (sv_Read V s (of_nat (get_page_idx V (r_it R))) (r_counter R))
     else Some R)"

definition Reader_read :: "('s, 'a) ext_vector \<Rightarrow> 's \<Rightarrow> 'a Reader \<Rightarrow> ('a \<times> 'a Reader) option" where
  "Reader_read V s R = map_option (\<lambda>R. (r_cache R ! the (r_curr R), R\<lparr>r_it := r_it R + 1, r_curr := Some (the (r_curr R) + 1)\<rparr>)) (Reader_get V s R)"

text \<open>Reading until the end.\<close>

function (sequential) Reader_all :: "('s, 'a) ext_vector \<Rightarrow> 's \<Rightarrow> 'a Reader \<Rightarrow> 'a list option" where
  "Reader_all V s R =
    (if Reader_eof R then Some []
     else case Reader_read V s R of None \<Rightarrow> None | Some (x, R') \<Rightarrow> map_option ((#) x) (Reader_all V s R'))"
  by pat_completeness auto
termination
  by (relation "measure (\<lambda>(V, s, R). r_end R - r_it R)")
    (auto simp: Reader_read_def Reader_get_def Reader_eof_def split: if_splits)

declare Reader_all.simps [simp del]

record 'a Writer =
  w_cache :: "'a list"
  w_it :: nat
  w_end :: nat
  w_curr :: nat
  w_counter :: u32

definition Writer_init :: "('s, 'a) ext_vector \<Rightarrow> 's \<Rightarrow> 'a list \<Rightarrow> nat \<Rightarrow> nat \<Rightarrow> u32 \<Rightarrow> 'a Writer option" where
  "Writer_init V s junk b e counter =
    (let pageOffset = get_page_offset V b
     in map_option (\<lambda>cache. \<lparr>w_cache = cache, w_it = b, w_end = e, w_curr = pageOffset, w_counter = counter\<rparr>)
          (if pageOffset \<noteq> 0 \<and> b \<noteq> 0 then sv_Read V s (of_nat (get_page_idx V b)) counter else Some junk))"

definition Writer_write :: "('s, 'a) ext_vector \<Rightarrow> 's \<times> 'a Writer \<Rightarrow> 'a \<Rightarrow> ('s \<times> 'a Writer) option" where
  "Writer_write V = (\<lambda>(s, w) x.
    let w = w\<lparr>w_cache := (w_cache w)[w_curr w := x], w_curr := w_curr w + 1, w_it := w_it w + 1\<rparr>
    in if w_curr w = item_per_page V
       then map_option (\<lambda>s. (s, w\<lparr>w_curr := 0\<rparr>)) (sv_Write V s (of_nat (get_page_idx V (w_it w) - 1)) (w_cache w) (w_counter w))
       else Some (s, w))"

definition Writer_flush :: "('s, 'a) ext_vector \<Rightarrow> 'a list \<Rightarrow> 's \<times> 'a Writer \<Rightarrow> 's option" where
  "Writer_flush V junk = (\<lambda>(s, w).
    let pageOffset = get_page_offset V (w_it w); pageIdx = of_nat (get_page_idx V (w_it w))
    in if pageOffset \<noteq> 0
       then case (if w_it w \<noteq> vec_N V \<and> w_counter w = 0 then sv_Read V s pageIdx (w_counter w) else Some junk) of
              None \<Rightarrow> None
            | Some originalPage \<Rightarrow> sv_Write V s pageIdx (memcpy originalPage 0 (take pageOffset (w_cache w))) (w_counter w)
       else Some s)"

fun Writer_all :: "('s, 'a) ext_vector \<Rightarrow> 's \<times> 'a Writer \<Rightarrow> 'a list \<Rightarrow> ('s \<times> 'a Writer) option" where
  "Writer_all V sw [] = Some sw"
| "Writer_all V sw (x # xs) = (case Writer_write V sw x of None \<Rightarrow> None | Some sw \<Rightarrow> Writer_all V sw xs)"

text \<open>The copy functions.  \<open>page\<close> is the shared page of the vector.\<close>

fun write_pages :: "('s, 'a) ext_vector \<Rightarrow> u32 \<Rightarrow> 's \<Rightarrow> nat \<Rightarrow> nat \<Rightarrow> 'a list \<Rightarrow> ('s \<times> 'a list) option" where
  "write_pages V counter s pageIdx 0 from = Some (s, from)"
| "write_pages V counter s pageIdx (Suc n) from =
    (case sv_Write V s (of_nat pageIdx) (take (item_per_page V) from) counter of
       None \<Rightarrow> None | Some s \<Rightarrow> write_pages V counter s (pageIdx + 1) n (drop (item_per_page V) from))"

text \<open>A page that is partly overwritten, starting from its old contents or from the shared page.\<close>

definition patch_page :: "('s, 'a) ext_vector \<Rightarrow> 's \<Rightarrow> 'a list option \<Rightarrow> nat \<Rightarrow> nat \<Rightarrow> 'a list \<Rightarrow> u32 \<Rightarrow> ('s \<times> 'a list) option" where
  "patch_page V s old pageIdx pageOffset from counter =
    (case old of
       None \<Rightarrow> None
     | Some page \<Rightarrow> let page = memcpy page pageOffset from
         in map_option (\<lambda>s. (s, page)) (sv_Write V s (of_nat pageIdx) page counter))"

definition CopyOut :: "('s, 'a) ext_vector \<Rightarrow> 's \<times> 'a list \<Rightarrow> 'a list \<Rightarrow> nat \<Rightarrow> u32 \<Rightarrow> ('s \<times> 'a list) option" where
  "CopyOut V = (\<lambda>(s, page) from to counter.
    let toBeginOffset = get_page_offset V to;
        toBeginPageIdx = get_page_idx V to;
        toEnd = to + length from;
        toEndOffset = get_page_offset V toEnd;
        toEndPageIdx = get_page_idx V toEnd
    in if toBeginPageIdx = toEndPageIdx
       then if from \<noteq> []
            then patch_page V s (if (to \<noteq> 0 \<or> toEnd \<noteq> vec_N V) \<and> counter > 0 then sv_Read V s (of_nat toBeginPageIdx) (counter - 1) else Some page)
                   toBeginPageIdx toBeginOffset from counter
            else Some (s, page)
       else case (if toBeginOffset \<noteq> 0
                  then let n = item_per_page V - toBeginOffset
                       in map_option (\<lambda>(s, page). (s, page, drop n from, toBeginPageIdx + 1))
                            (patch_page V s (if to \<noteq> 0 then sv_Read V s (of_nat toBeginPageIdx) counter else Some page)
                              toBeginPageIdx toBeginOffset (take n from) counter)
                  else Some (s, page, from, toBeginPageIdx)) of
              None \<Rightarrow> None
            | Some (s, page, from, pageIdx) \<Rightarrow>
                (case write_pages V counter s pageIdx (toEndPageIdx - pageIdx) from of
                   None \<Rightarrow> None
                 | Some (s, from) \<Rightarrow>
                     if toEndOffset \<noteq> 0
                     then patch_page V s (if toEnd \<noteq> vec_N V \<and> counter > 0 then sv_Read V s (of_nat toEndPageIdx) (counter - 1) else Some page)
                            toEndPageIdx 0 (take toEndOffset from) counter
                     else Some (s, page)))"

fun read_pages :: "('s, 'a) ext_vector \<Rightarrow> u32 \<Rightarrow> 's \<Rightarrow> nat \<Rightarrow> nat \<Rightarrow> 'a list option" where
  "read_pages V counter s pageIdx 0 = Some []"
| "read_pages V counter s pageIdx (Suc n) =
    (case sv_Read V s (of_nat pageIdx) counter of
       None \<Rightarrow> None | Some p \<Rightarrow> map_option ((@) p) (read_pages V counter s (pageIdx + 1) n))"

definition CopyIn :: "('s, 'a) ext_vector \<Rightarrow> 's \<Rightarrow> 'a list \<Rightarrow> nat \<Rightarrow> nat \<Rightarrow> u32 \<Rightarrow> ('a list \<times> 'a list) option" where
  "CopyIn V s page b e counter =
    (let beginOffset = get_page_offset V b;
         beginPageIdx = get_page_idx V b;
         endOffset = get_page_offset V e;
         endPageIdx = get_page_idx V e
     in case (if beginOffset \<noteq> 0
              then let endPageOffset = if beginPageIdx = endPageIdx then endOffset else item_per_page V
                   in map_option (\<lambda>page. (page, take (endPageOffset - beginOffset) (drop beginOffset page))) (sv_Read V s (of_nat beginPageIdx) counter)
              else Some (page, [])) of
          None \<Rightarrow> None
        | Some (page, to) \<Rightarrow>
            if beginOffset \<noteq> 0 \<and> beginPageIdx = endPageIdx then Some (page, to)
            else let beginPageIdx = (if beginOffset \<noteq> 0 then beginPageIdx + 1 else beginPageIdx)
                 in case read_pages V counter s beginPageIdx (endPageIdx - beginPageIdx) of
                      None \<Rightarrow> None
                    | Some mid \<Rightarrow>
                        if endOffset \<noteq> 0
                        then map_option (\<lambda>page. (page, to @ mid @ take endOffset page)) (sv_Read V s (of_nat endPageIdx) counter)
                        else Some (page, to @ mid))"

text \<open>What the readers, the copy function and the iterators see of a range: the elements \<open>xs\<close> from position \<open>b\<close> on.\<close>

definition vector_holds :: "('s, 'a) ext_vector \<Rightarrow> 's \<Rightarrow> u32 \<Rightarrow> nat \<Rightarrow> 'a list \<Rightarrow> bool" where
  "vector_holds V s c b xs \<longleftrightarrow>
    (\<forall>i<length xs. derefAuth V s (b + i) c = Some (xs ! i)) \<and>
    (\<forall>i\<le>length xs. \<forall>j<i. \<forall>junk.
       Reader_all V s (Reader_new junk (b + j) (b + i) c) = Some (take (i - j) (drop j xs)) \<and>
       map_option snd (CopyIn V s junk (b + j) (b + i) c) = Some (take (i - j) (drop j xs)))"

section \<open>Vectors on a page server\<close>

locale vector_pages = page_server rd wr inv index "\<lambda>p. length p = ipp \<and> list_all elem p"
  for rd :: "'s \<Rightarrow> u64 \<Rightarrow> u32 \<Rightarrow> 'a list option" and wr inv index and ipp :: nat and elem :: "'a \<Rightarrow> bool" +
  fixes N :: nat
  assumes ipp_pos: "0 < ipp" and pages: "i * ipp < N \<Longrightarrow> index (of_nat i)" and small: "N < 2 ^ 64"
begin

definition V :: "('s, 'a) ext_vector" where
  "V = \<lparr>vec_N = N, item_per_page = ipp, sv_Read = rd, sv_Write = wr\<rparr>"

lemma V_simps [simp]: "vec_N V = N" "item_per_page V = ipp" "sv_Read V = rd" "sv_Write V = wr"
  "get_page_idx V p = p div ipp" "get_page_offset V p = p mod ipp"
  by (simp_all add: V_def get_page_idx_def get_page_offset_def)

text \<open>The vector holds \<open>x\<close> at position \<open>p\<close>, under the given counter.\<close>

definition stored :: "'s \<Rightarrow> u32 \<Rightarrow> nat \<Rightarrow> 'a \<Rightarrow> bool" where
  "stored s c p x \<longleftrightarrow> (\<exists>pg. rd s (of_nat (p div ipp)) c = Some pg \<and> pg ! (p mod ipp) = x)"

lemma page_index: "p < N \<Longrightarrow> index (of_nat (p div ipp))"
  by (rule pages) (metis div_times_less_eq_dividend le_less_trans)

lemma page_neq:
  assumes "p < N" "q < N" "p div ipp \<noteq> q div ipp"
  shows "(of_nat (p div ipp) :: u64) \<noteq> of_nat (q div ipp)"
proof -
  have "p div ipp < 2 ^ 64" "q div ipp < 2 ^ 64" using assms(1,2) small div_le_dividend [of p ipp] div_le_dividend [of q ipp] by linarith+
  then show ?thesis using assms(3) by (simp add: word_unat_eq_iff unsigned_of_nat take_bit_eq_mod)
qed

text \<open>Writing the page of position \<open>q\<close>.\<close>

lemma write_page:
  assumes "inv s" "q < N" "length pg = ipp" "list_all elem pg"
  obtains s' where "wr s (of_nat (q div ipp)) pg c = Some s'" "inv s'" "\<And>p. p div ipp = q div ipp \<Longrightarrow> stored s' c p (pg ! (p mod ipp))"
    "\<And>p d x. p < N \<Longrightarrow> p div ipp \<noteq> q div ipp \<Longrightarrow> stored s' d p x = stored s d p x"
proof -
  obtain s' where s': "wr s (of_nat (q div ipp)) pg c = Some s'" "inv s'" "rd s' (of_nat (q div ipp)) c = Some pg"
    "\<And>j d. index j \<Longrightarrow> j \<noteq> of_nat (q div ipp) \<Longrightarrow> rd s' j d = rd s j d"
    using write_obtain [OF assms(1) page_index [OF assms(2)], of pg c] assms(3,4) by blast
  show ?thesis
  proof (rule that [OF s'(1,2)])
    show "stored s' c p (pg ! (p mod ipp))" if "p div ipp = q div ipp" for p using s'(3) that by (simp add: stored_def)
    show "stored s' d p x = stored s d p x" if "p < N" "p div ipp \<noteq> q div ipp" for p d x
      using s'(4) [OF page_index [OF that(1)] page_neq [OF that(1) assms(2) that(2)]] by (simp add: stored_def)
  qed
qed

section \<open>Reading\<close>

definition reader_ok :: "'s \<Rightarrow> 'a Reader \<Rightarrow> bool" where
  "reader_ok s R \<longleftrightarrow> (case r_curr R of None \<Rightarrow> True
    | Some k \<Rightarrow> if k < ipp then k = r_it R mod ipp \<and> rd s (of_nat (r_it R div ipp)) (r_counter R) = Some (r_cache R) else k = ipp \<and> r_it R mod ipp = 0)"

lemma next_position:
  "Suc (p mod ipp) < ipp \<Longrightarrow> Suc p mod ipp = Suc (p mod ipp) \<and> Suc p div ipp = p div ipp"
  "\<not> Suc (p mod ipp) < ipp \<Longrightarrow> Suc (p mod ipp) = ipp \<and> Suc p mod ipp = 0 \<and> Suc p div ipp = Suc (p div ipp)"
  using ipp_pos mod_less_divisor [OF ipp_pos, of p] by (auto simp: mod_Suc div_Suc)

lemma Reader_read_spec:
  assumes "reader_ok s R" "stored s (r_counter R) (r_it R) x"
  shows "\<exists>R'. Reader_read V s R = Some (x, R') \<and> reader_ok s R' \<and> r_it R' = Suc (r_it R) \<and> r_end R' = r_end R \<and> r_counter R' = r_counter R"
proof -
  obtain pg where pg: "rd s (of_nat (r_it R div ipp)) (r_counter R) = Some pg" "pg ! (r_it R mod ipp) = x" using assms(2) by (auto simp: stored_def)
  have get: "Reader_get V s R = Some (R\<lparr>r_cache := pg, r_curr := Some (r_it R mod ipp)\<rparr>)"
  proof (cases "case r_curr R of None \<Rightarrow> True | Some k \<Rightarrow> ipp \<le> k")
    case True
    then have "r_curr R = Some ipp \<longrightarrow> r_it R mod ipp = 0" using assms(1) by (auto simp: reader_ok_def)
    then show ?thesis using True pg(1) by (cases "r_curr R") (auto simp: Reader_get_def)
  next
    case False
    then have "r_curr R = Some (r_it R mod ipp)" "r_cache R = pg" using assms(1) pg(1) by (auto simp: reader_ok_def split: option.splits if_splits)
    then show ?thesis using False by (simp add: Reader_get_def)
  qed
  define R' where "R' = R\<lparr>r_cache := pg, r_it := Suc (r_it R), r_curr := Some (Suc (r_it R mod ipp))\<rparr>"
  have "Reader_read V s R = Some (x, R')" unfolding Reader_read_def get by (simp add: pg(2) R'_def)
  moreover have "reader_ok s R'"
    using next_position [of "r_it R"] pg(1) by (cases "Suc (r_it R mod ipp) < ipp") (simp_all add: reader_ok_def R'_def)
  ultimately show ?thesis by (simp add: R'_def)
qed

lemma Reader_all_spec:
  assumes "reader_ok s R" "\<And>p. r_it R \<le> p \<Longrightarrow> p < r_end R \<Longrightarrow> stored s (r_counter R) p (f p)"
  shows "Reader_all V s R = Some (map f [r_it R..<r_end R])"
  using assms
proof (induction "r_end R - r_it R" arbitrary: R)
  case 0
  then show ?case by (simp add: Reader_all.simps [of V s R] Reader_eof_def)
next
  case (Suc n)
  then have lt: "r_it R < r_end R" by simp
  obtain R' where R': "Reader_read V s R = Some (f (r_it R), R')" "reader_ok s R'" "r_it R' = Suc (r_it R)" "r_end R' = r_end R" "r_counter R' = r_counter R"
    using Reader_read_spec [OF Suc.prems(1) Suc.prems(2) [OF order.refl lt]] by blast
  have "Reader_all V s R' = Some (map f [Suc (r_it R)..<r_end R])"
    using Suc.hyps(1) [of R'] R' Suc.hyps(2) Suc.prems(2) by simp
  then show ?case using R'(1) lt by (simp add: Reader_all.simps [of V s R] Reader_eof_def upt_conv_Cons)
qed

section \<open>Writing\<close>

text \<open>A writer at position \<open>it\<close> that started at \<open>b\<close> and has received the elements \<open>f\<close>: full pages are in the
  server, the others in its page.\<close>

definition writer_ok :: "nat \<Rightarrow> (nat \<Rightarrow> 'a) \<Rightarrow> 's \<times> 'a Writer \<Rightarrow> bool" where
  "writer_ok b f = (\<lambda>(s, w). inv s \<and> length (w_cache w) = ipp \<and> list_all elem (w_cache w) \<and> w_curr w = w_it w mod ipp
    \<and> (\<forall>p. b \<le> p \<and> p < w_it w div ipp * ipp \<longrightarrow> stored s (w_counter w) p (f p))
    \<and> (\<forall>p. b \<le> p \<and> w_it w div ipp * ipp \<le> p \<and> p < w_it w \<longrightarrow> w_cache w ! (p mod ipp) = f p))"

lemma page_position: "p div ipp = q div ipp \<longleftrightarrow> q div ipp * ipp \<le> p \<and> p < q div ipp * ipp + ipp"
  using ipp_pos by (metis div_nat_eqI div_times_less_eq_dividend dividend_less_div_times mult.commute mult_Suc add.commute)

lemma Writer_write_spec:
  assumes ok: "writer_ok b f (s, w)" and x: "f (w_it w) = x" "elem x" and N: "w_it w < N" "b \<le> w_it w"
  shows "\<exists>s' w'. Writer_write V (s, w) x = Some (s', w') \<and> writer_ok b f (s', w') \<and> w_it w' = Suc (w_it w) \<and> w_counter w' = w_counter w
    \<and> (\<forall>p d y. p < N \<longrightarrow> p div ipp \<noteq> w_it w div ipp \<longrightarrow> stored s' d p y = stored s d p y)"
proof -
  define it where "it = w_it w"
  define q where "q = it div ipp"
  define cache where "cache = (w_cache w)[it mod ipp := x]"
  have o: "inv s" "length (w_cache w) = ipp" "list_all elem (w_cache w)" "w_curr w = it mod ipp"
    and full: "\<And>p. b \<le> p \<Longrightarrow> p < q * ipp \<Longrightarrow> stored s (w_counter w) p (f p)"
    and part: "\<And>p. b \<le> p \<Longrightarrow> q * ipp \<le> p \<Longrightarrow> p < it \<Longrightarrow> w_cache w ! (p mod ipp) = f p"
    using ok by (auto simp: writer_ok_def it_def q_def)
  have c: "length cache = ipp" "list_all elem cache" using o x(2) by (auto simp: cache_def list_all_iff dest!: set_update_subset_insert [THEN subsetD])
  have at: "cache ! (p mod ipp) = f p" if "b \<le> p" "q * ipp \<le> p" "p < Suc it" for p
  proof (cases "p = it")
    case True
    then show ?thesis using o(2) x(1) ipp_pos by (simp add: cache_def it_def)
  next
    case False
    then have "p < it" using that(3) by simp
    moreover have "p div ipp = it div ipp" using that(2) \<open>p < it\<close> by (metis div_le_mono less_or_eq_imp_le nat_less_le le_antisym q_def div_mult_self_is_m [OF ipp_pos])
    then have "p mod ipp \<noteq> it mod ipp" using False by (metis div_mult_mod_eq)
    ultimately show ?thesis using part that(1,2) by (simp add: cache_def)
  qed
  show ?thesis
  proof (cases "Suc (it mod ipp) < ipp")
    case True
    define w' where "w' = w\<lparr>w_cache := cache, w_curr := Suc (it mod ipp), w_it := Suc it\<rparr>"
    have "Writer_write V (s, w) x = Some (s, w')" using True o(4) by (simp add: Writer_write_def w'_def cache_def it_def)
    moreover have "writer_ok b f (s, w')" using next_position(1) [OF True] o(1) c full at by (simp add: writer_ok_def w'_def q_def)
    ultimately show ?thesis by (auto simp: w'_def it_def)
  next
    case False
    note np = next_position(2) [OF False]
    obtain s' where s': "wr s (of_nat (it div ipp)) cache (w_counter w) = Some s'" "inv s'"
      "\<And>p. p div ipp = it div ipp \<Longrightarrow> stored s' (w_counter w) p (cache ! (p mod ipp))" "\<And>p d y. p < N \<Longrightarrow> p div ipp \<noteq> it div ipp \<Longrightarrow> stored s' d p y = stored s d p y"
      using write_page [OF o(1) N(1) c, folded it_def] by metis
    define w' where "w' = w\<lparr>w_cache := cache, w_curr := 0, w_it := Suc it\<rparr>"
    have "Writer_write V (s, w) x = Some (s', w')" using np o(4) s'(1) by (simp add: Writer_write_def w'_def cache_def it_def)
    have sq: "Suc it = Suc q * ipp" using np by (metis add.right_neutral div_mult_mod_eq q_def)
    have "stored s' (w_counter w) p (f p)" if "b \<le> p" "p < Suc q * ipp" for p
    proof (cases "p < q * ipp")
      case True
      then have "p div ipp \<noteq> it div ipp" "p < N"
        using page_position [of p it] N(1) div_times_less_eq_dividend [of it ipp] unfolding q_def it_def by linarith+
      then show ?thesis using s'(4) full that(1) True by simp
    next
      case False
      have "p div ipp = it div ipp" using page_position [of p it] False that(2) by (simp add: q_def)
      then show ?thesis using s'(3) [of p] at [OF that(1)] False that(2) sq by simp
    qed
    then have "writer_ok b f (s', w')" using np s'(2) c sq unfolding writer_ok_def w'_def q_def by auto
    then show ?thesis using \<open>Writer_write V (s, w) x = Some (s', w')\<close> s'(4) unfolding it_def w'_def by auto
  qed
qed

lemma Writer_all_spec:
  assumes "writer_ok b f (s, w)" "\<And>i. i < length xs \<Longrightarrow> f (w_it w + i) = xs ! i" "list_all elem xs" "w_it w + length xs \<le> N" "b \<le> w_it w"
  shows "\<exists>s' w'. Writer_all V (s, w) xs = Some (s', w') \<and> writer_ok b f (s', w') \<and> w_it w' = w_it w + length xs \<and> w_counter w' = w_counter w
    \<and> (\<forall>p d y. p < w_it w div ipp * ipp \<longrightarrow> stored s' d p y = stored s d p y)"
  using assms
proof (induction xs arbitrary: s w)
  case (Cons x xs)
  obtain s1 w1 where 1: "Writer_write V (s, w) x = Some (s1, w1)" "writer_ok b f (s1, w1)" "w_it w1 = Suc (w_it w)" "w_counter w1 = w_counter w"
    "\<And>p d y. p < N \<Longrightarrow> p div ipp \<noteq> w_it w div ipp \<Longrightarrow> stored s1 d p y = stored s d p y"
    using Writer_write_spec [OF Cons.prems(1), of x] Cons.prems(2) [of 0] Cons.prems(3-5) by (simp, metis)
  have "f (w_it w1 + i) = xs ! i" if "i < length xs" for i using Cons.prems(2) [of "Suc i"] that 1(3) by simp
  from Cons.IH [OF 1(2) this] Cons.prems(3-5) 1(3) obtain s2 w2 where 2: "Writer_all V (s1, w1) xs = Some (s2, w2)" "writer_ok b f (s2, w2)"
    "w_it w2 = Suc (w_it w) + length xs" "w_counter w2 = w_counter w1" "\<And>p d y. p < Suc (w_it w) div ipp * ipp \<Longrightarrow> stored s2 d p y = stored s1 d p y" by auto
  have "stored s2 d p y = stored s d p y" if "p < w_it w div ipp * ipp" for p d y
  proof -
    have "w_it w div ipp * ipp \<le> Suc (w_it w) div ipp * ipp" by (intro mult_le_mono1 div_le_mono) simp
    moreover have "w_it w < N" using Cons.prems(4) by simp
    moreover have "p div ipp \<noteq> w_it w div ipp" using page_position [of p "w_it w"] that by simp
    ultimately show ?thesis
      using that 1(5) [of p d y] 2(5) [of p d y] div_times_less_eq_dividend [of "w_it w" ipp] by (metis order_less_le_trans less_trans)
  qed
  then show ?case using 1(1,4) 2 by simp
qed simp

lemma Writer_flush_spec:
  assumes ok: "writer_ok b f (s, w)" and N: "w_it w \<le> N" "w_it w = N \<or> w_counter w \<noteq> 0" "length junk = ipp" "list_all elem junk"
  shows "\<exists>s'. Writer_flush V junk (s, w) = Some s' \<and> inv s' \<and> (\<forall>p. b \<le> p \<and> p < w_it w \<longrightarrow> stored s' (w_counter w) p (f p))
    \<and> (\<forall>p d y. p < w_it w div ipp * ipp \<longrightarrow> stored s' d p y = stored s d p y)"
proof -
  define it where "it = w_it w"
  have o: "inv s" "length (w_cache w) = ipp" "list_all elem (w_cache w)"
    and full: "\<And>p. b \<le> p \<Longrightarrow> p < it div ipp * ipp \<Longrightarrow> stored s (w_counter w) p (f p)"
    and part: "\<And>p. b \<le> p \<Longrightarrow> it div ipp * ipp \<le> p \<Longrightarrow> p < it \<Longrightarrow> w_cache w ! (p mod ipp) = f p"
    using ok by (auto simp: writer_ok_def it_def)
  show ?thesis
  proof (cases "it mod ipp = 0")
    case True
    then have "it div ipp * ipp = it" by (metis add.right_neutral div_mult_mod_eq)
    then show ?thesis using True o full by (simp add: Writer_flush_def it_def [symmetric])
  next
    case False
    define q where "q = it div ipp * ipp"
    define pg where "pg = memcpy junk 0 (take (it mod ipp) (w_cache w))"
    have q: "q div ipp = it div ipp" "it = q + it mod ipp" "it mod ipp < ipp" using ipp_pos by (simp_all add: q_def)
    then have qN: "q < N" using False N(1) by (simp add: it_def)
    have pg: "length pg = ipp" "list_all elem pg" "\<And>k. k < it mod ipp \<Longrightarrow> pg ! k = w_cache w ! k"
      using o(2,3) N(3,4) q(3) by (auto simp: pg_def memcpy_def nth_append list_all_iff min_def dest!: in_set_takeD in_set_dropD)
    obtain s' where s': "wr s (of_nat (it div ipp)) pg (w_counter w) = Some s'" "inv s'"
      "\<And>p. p div ipp = it div ipp \<Longrightarrow> stored s' (w_counter w) p (pg ! (p mod ipp))" "\<And>p d y. p < N \<Longrightarrow> p div ipp \<noteq> it div ipp \<Longrightarrow> stored s' d p y = stored s d p y"
      using write_page [OF o(1) qN pg(1,2)] unfolding q(1) by metis
    have fl: "Writer_flush V junk (s, w) = Some s'" using False N(2) s'(1) by (auto simp: Writer_flush_def it_def [symmetric] pg_def)
    have old: "stored s' d p y = stored s d p y" if "p < q" for p d y
      using s'(4) [of p] that qN page_position [of p it] by (simp add: q_def [symmetric])
    have "stored s' (w_counter w) p (f p)" if "b \<le> p" "p < it" for p
    proof (cases "p < q")
      case False
      then have same: "p div ipp = it div ipp" using page_position [of p it] that(2) q(2,3) by (simp add: q_def [symmetric])
      then have "p mod ipp < it mod ipp" using that(2) by (metis div_mult_mod_eq nat_add_left_cancel_less)
      then show ?thesis using s'(3) [OF same] pg(3) part [OF that(1)] False that(2) by (simp add: q_def)
    qed (use full that old in \<open>simp add: q_def\<close>)
    then show ?thesis using fl s'(2) old by (auto simp: it_def q_def)
  qed
qed

section \<open>Copying\<close>

lemma read_pages_spec:
  assumes "\<And>p. i * ipp \<le> p \<Longrightarrow> p < (i + n) * ipp \<Longrightarrow> stored s c p (f p)" "inv s" "(i + n) * ipp \<le> N + ipp - 1"
  shows "read_pages V c s i n = Some (map f [i * ipp..<(i + n) * ipp])"
  using assms
proof (induction n arbitrary: i)
  case (Suc n)
  have "i * ipp < (i + Suc n) * ipp" using ipp_pos by (simp add: add_mult_distrib)
  then obtain pg where pg: "rd s (of_nat i) c = Some pg" using Suc.prems(1) [of "i * ipp"] ipp_pos by (auto simp: stored_def)
  have "i * ipp < N" using Suc.prems(3) ipp_pos by (auto simp: algebra_simps)
  then have len: "length pg = ipp" using read_page [OF assms(2) pages pg] by simp
  have "pg ! k = f (i * ipp + k)" if "k < ipp" for k
  proof -
    have "i * ipp + k < (i + Suc n) * ipp" using that by (simp add: add_mult_distrib)
    then show ?thesis using Suc.prems(1) [of "i * ipp + k"] that pg by (auto simp: stored_def)
  qed
  then have "pg = map f [i * ipp..<i * ipp + ipp]" using len by (intro nth_equalityI) auto
  moreover have "read_pages V c s (Suc i) n = Some (map f [i * ipp + ipp..<(i + Suc n) * ipp])"
    using Suc.IH [of "Suc i"] Suc.prems by (simp add: algebra_simps)
  moreover have "[i * ipp..<(i + Suc n) * ipp] = [i * ipp..<i * ipp + ipp] @ [i * ipp + ipp..<(i + Suc n) * ipp]"
    using upt_add_eq_append [of "i * ipp" "i * ipp + ipp" "n * ipp"] by (simp add: algebra_simps)
  ultimately show ?case using pg by simp
qed simp

lemma stored_page:
  assumes "stored s c q y" "inv s" "q < N"
  obtains pg where "rd s (of_nat (q div ipp)) c = Some pg" "length pg = ipp" "\<And>p x. p div ipp = q div ipp \<Longrightarrow> stored s c p x \<Longrightarrow> pg ! (p mod ipp) = x"
proof -
  obtain pg where pg: "rd s (of_nat (q div ipp)) c = Some pg" using assms(1) by (auto simp: stored_def)
  then show ?thesis using that read_page [OF assms(2) page_index [OF assms(3)] pg] by (auto simp: stored_def)
qed

text \<open>A part of a page, between two positions.\<close>

lemma page_part:
  assumes "\<And>p. b \<le> p \<Longrightarrow> p < e \<Longrightarrow> stored s c p (f p)" "b < e" "b div ipp = (e - 1) div ipp" "inv s" "e \<le> N" "off = b mod ipp" "n = e - b"
  shows "\<exists>pg. rd s (of_nat (b div ipp)) c = Some pg \<and> take n (drop off pg) = map f [b..<e]"
proof -
  have bN: "b < N" using assms(2,5) by linarith
  obtain pg where pg: "rd s (of_nat (b div ipp)) c = Some pg" "length pg = ipp" "\<And>p x. p div ipp = b div ipp \<Longrightarrow> stored s c p x \<Longrightarrow> pg ! (p mod ipp) = x"
    using stored_page [OF assms(1) [OF order.refl assms(2)] assms(4) bN] by metis
  have in_page: "p div ipp = b div ipp" "p mod ipp = b mod ipp + (p - b)" if "b \<le> p" "p < e" for p
  proof -
    have "b div ipp \<le> p div ipp" "p div ipp \<le> (e - 1) div ipp" using that by (auto intro: div_le_mono)
    then show d: "p div ipp = b div ipp" using assms(3) by simp
    have "p = b div ipp * ipp + p mod ipp" "b = b div ipp * ipp + b mod ipp" using d by (metis div_mult_mod_eq)+
    then show "p mod ipp = b mod ipp + (p - b)" using that(1) by linarith
  qed
  have "(e - 1) mod ipp < ipp" using ipp_pos by simp
  then have "b mod ipp + n \<le> ipp" using in_page(2) [of "e - 1"] assms(2,7) by simp
  then have "take n (drop off pg) = map f [b..<e]"
  proof (intro nth_equalityI)
    fix k assume "k < length (take n (drop off pg))"
    then have k: "k < n" by simp
    have "pg ! ((b + k) mod ipp) = f (b + k)" using pg(3) [OF in_page(1) assms(1)] k assms(7) by simp
    then show "take n (drop off pg) ! k = map f [b..<e] ! k" using in_page(2) [of "b + k"] k assms(6,7) \<open>b mod ipp + n \<le> ipp\<close> pg(2) by simp
  qed (use pg(2) assms(6,7) in simp)
  then show ?thesis using pg(1) by blast
qed

lemma CopyIn_spec:
  assumes st: "\<And>p. b \<le> p \<Longrightarrow> p < e \<Longrightarrow> stored s c p (f p)" and be: "b < e" "e \<le> N" "inv s"
  shows "map_option snd (CopyIn V s page b e c) = Some (map f [b..<e])"
proof -
  define bp where "bp = b div ipp"
  define ep where "ep = e div ipp"
  have b: "b = bp * ipp + b mod ipp" "b mod ipp < ipp" and e: "e = ep * ipp + e mod ipp" "e mod ipp < ipp" using ipp_pos by (simp_all add: bp_def ep_def)
  have le: "bp \<le> ep" using be(1) by (auto simp: bp_def ep_def intro: div_le_mono)
  show ?thesis
  proof (cases "b mod ipp \<noteq> 0 \<and> bp = ep")
    case True
    have "(e - 1) div ipp = bp" using be(1) le True by (metis bp_def ep_def diff_le_self div_le_mono le_antisym less_imp_Suc_add Suc_leI diff_Suc_1 le_add1)
    moreover have "e = bp * ipp + e mod ipp" using e(1) True by simp
    then have n: "e mod ipp - b mod ipp = e - b" using b(1) by linarith
    ultimately obtain pg where "rd s (of_nat (b div ipp)) c = Some pg" "take (e - b) (drop (b mod ipp) pg) = map f [b..<e]"
      using page_part [OF st be(1) _ be(3,2) refl refl] by (auto simp: bp_def)
    then show ?thesis using True n by (simp add: CopyIn_def Let_def bp_def ep_def)
  next
    case False
    define q where "q = (if b mod ipp \<noteq> 0 then bp + 1 else bp)"
    have q: "b \<le> q * ipp" "q \<le> ep" "q * ipp \<le> e"
    proof -
      show "q \<le> ep" using False le by (auto simp: q_def)
      then have "q * ipp \<le> ep * ipp" by (rule mult_le_mono1)
      then show "q * ipp \<le> e" using e(1) by linarith
      show "b \<le> q * ipp" using b by (auto simp: q_def)
    qed
    have "\<exists>page1. (if b mod ipp \<noteq> 0 then map_option (\<lambda>page. (page, take ((if bp = ep then e mod ipp else ipp) - b mod ipp) (drop (b mod ipp) page))) (rd s (of_nat bp) c)
        else Some (page, [])) = Some (page1, map f [b..<q * ipp])"
    proof (cases "b mod ipp = 0")
      case True
      then show ?thesis using b(1) by (simp add: q_def)
    next
      case nz: False
      have lt: "b < q * ipp" "q * ipp - b = ipp - b mod ipp" using b nz by (simp_all add: q_def)
      have "(q * ipp - 1) div ipp = bp" using nz b(2) by (intro div_nat_eqI) (auto simp: q_def mult.commute)
      then obtain pg where "rd s (of_nat bp) c = Some pg" "take (ipp - b mod ipp) (drop (b mod ipp) pg) = map f [b..<q * ipp]"
        using page_part [of b "q * ipp" s c f "b mod ipp" "ipp - b mod ipp"] st lt q(3) be(2,3) by (auto simp: bp_def)
      moreover have "bp \<noteq> ep" using False nz by simp
      ultimately show ?thesis using nz by simp
    qed
    then obtain page1 where head: "(if b mod ipp \<noteq> 0 then map_option (\<lambda>page. (page, take ((if bp = ep then e mod ipp else ipp) - b mod ipp) (drop (b mod ipp) page))) (rd s (of_nat bp) c)
        else Some (page, [])) = Some (page1, map f [b..<q * ipp])" by blast
    have mid: "read_pages V c s q (ep - q) = Some (map f [q * ipp..<ep * ipp])"
    proof -
      have "ep * ipp \<le> N + ipp - 1" using e(1) be(2) ipp_pos by linarith
      then show ?thesis using read_pages_spec [of q "ep - q" s c f] q st be(3) e(1) by simp
    qed
    have tail: "map_option snd (if e mod ipp \<noteq> 0 then map_option (\<lambda>page. (page, out @ m @ take (e mod ipp) page)) (rd s (of_nat ep) c) else Some (page1, out @ m))
        = Some (out @ m @ map f [ep * ipp..<e])" for out m
    proof (cases "e mod ipp = 0")
      case True
      then show ?thesis using e(1) by simp
    next
      case nz: False
      have lt: "ep * ipp < e" "ep * ipp div ipp = ep" "e - ep * ipp = e mod ipp" using e(1) nz ipp_pos by simp_all
      have low: "b \<le> ep * ipp" using q(1) mult_le_mono1 [OF q(2), of ipp] by linarith
      have "(e - 1) div ipp = ep" using nz e by (intro div_nat_eqI) (auto simp: mult.commute)
      then obtain pg where "rd s (of_nat ep) c = Some pg" "take (e mod ipp) (drop 0 pg) = map f [ep * ipp..<e]"
        using page_part [of "ep * ipp" e s c f 0 "e mod ipp"] st lt low be(2,3) by auto
      then show ?thesis using nz by simp
    qed
    have "[b..<e] = [b..<q * ipp] @ [q * ipp..<ep * ipp] @ [ep * ipp..<e]"
      using q e(1) mult_le_mono1 [OF q(2), of ipp] by (metis le_add1 le_add_diff_inverse upt_add_eq_append)
    then have all: "map f [b..<e] = map f [b..<q * ipp] @ map f [q * ipp..<ep * ipp] @ map f [ep * ipp..<e]" by simp
    show ?thesis
      unfolding CopyIn_def Let_def V_simps bp_def [symmetric] ep_def [symmetric] all head option.case prod.case if_not_P [OF False] q_def [symmetric] mid
      by (rule tail)
  qed
qed

lemma patch_spec:
  assumes "inv s" "length pg = ipp" "list_all elem pg" "q < N" "off + length from \<le> ipp" "list_all elem from"
  obtains s' where "patch_page V s (Some pg) (q div ipp) off from c = Some (s', memcpy pg off from)" "inv s'"
    "length (memcpy pg off from) = ipp" "list_all elem (memcpy pg off from)"
    "\<And>p. p div ipp = q div ipp \<Longrightarrow> off \<le> p mod ipp \<Longrightarrow> p mod ipp < off + length from \<Longrightarrow> stored s' c p (from ! (p mod ipp - off))"
    "\<And>p d y. p < N \<Longrightarrow> p div ipp \<noteq> q div ipp \<Longrightarrow> stored s' d p y = stored s d p y"
proof -
  define pg' where "pg' = memcpy pg off from"
  have pg': "length pg' = ipp" "list_all elem pg'" "\<And>k. off \<le> k \<Longrightarrow> k < off + length from \<Longrightarrow> pg' ! k = from ! (k - off)"
    using assms(2,3,5,6) by (auto simp: pg'_def memcpy_def nth_append list_all_iff min_def dest!: in_set_takeD in_set_dropD)
  obtain s' where s': "wr s (of_nat (q div ipp)) pg' c = Some s'" "inv s'" "\<And>p. p div ipp = q div ipp \<Longrightarrow> stored s' c p (pg' ! (p mod ipp))"
    "\<And>p d y. p < N \<Longrightarrow> p div ipp \<noteq> q div ipp \<Longrightarrow> stored s' d p y = stored s d p y"
    using write_page [OF assms(1,4) pg'(1,2)] by metis
  show ?thesis
  proof (rule that [of s'])
    show "patch_page V s (Some pg) (q div ipp) off from c = Some (s', memcpy pg off from)" using s'(1) by (simp add: patch_page_def pg'_def)
    show "stored s' c p (from ! (p mod ipp - off))" if "p div ipp = q div ipp" "off \<le> p mod ipp" "p mod ipp < off + length from" for p
      using s'(3) [OF that(1)] pg'(3) [OF that(2,3)] by simp
  qed (use s'(2,4) pg' in \<open>simp_all add: pg'_def\<close>)
qed

lemma write_pages_spec:
  assumes "inv s" "n * ipp \<le> length from" "list_all elem from" "i * ipp + n * ipp \<le> N"
  shows "\<exists>s'. write_pages V c s i n from = Some (s', drop (n * ipp) from) \<and> inv s'
    \<and> (\<forall>p. i * ipp \<le> p \<and> p < (i + n) * ipp \<longrightarrow> stored s' c p (from ! (p - i * ipp)))
    \<and> (\<forall>p d y. p < N \<longrightarrow> p < i * ipp \<or> (i + n) * ipp \<le> p \<longrightarrow> stored s' d p y = stored s d p y)"
  using assms
proof (induction n arbitrary: s i "from")
  case (Suc n)
  define q where "q = i * ipp"
  have q: "q div ipp = i" "q < N" "q + ipp \<le> N" using ipp_pos Suc.prems(4) by (simp_all add: q_def)
  have pg: "length (take ipp from) = ipp" "list_all elem (take ipp from)" using Suc.prems(2,3) by (auto simp: list_all_iff dest: in_set_takeD)
  obtain s1 where s1: "wr s (of_nat i) (take ipp from) c = Some s1" "inv s1" "\<And>p. p div ipp = i \<Longrightarrow> stored s1 c p (take ipp from ! (p mod ipp))"
    "\<And>p d y. p < N \<Longrightarrow> p div ipp \<noteq> i \<Longrightarrow> stored s1 d p y = stored s d p y"
    using write_page [OF Suc.prems(1) q(2) pg] unfolding q(1) by metis
  have "list_all elem (drop ipp from)" using Suc.prems(3) by (auto simp: list_all_iff dest: in_set_dropD)
  moreover have "n * ipp \<le> length (drop ipp from)" "Suc i * ipp + n * ipp \<le> N" using Suc.prems(2,4) by simp_all
  ultimately obtain s2 where s2: "write_pages V c s1 (Suc i) n (drop ipp from) = Some (s2, drop (n * ipp) (drop ipp from))" "inv s2"
    "\<And>p. Suc i * ipp \<le> p \<Longrightarrow> p < (Suc i + n) * ipp \<Longrightarrow> stored s2 c p (drop ipp from ! (p - Suc i * ipp))"
    "\<And>p d y. p < N \<Longrightarrow> p < Suc i * ipp \<or> (Suc i + n) * ipp \<le> p \<Longrightarrow> stored s2 d p y = stored s1 d p y"
    using Suc.IH [OF s1(2)] by metis
  have in_page: "p div ipp = i \<longleftrightarrow> i * ipp \<le> p \<and> p < Suc i * ipp" for p using page_position [of p q] by (simp add: q(1) add.commute)
  have "stored s2 c p (from ! (p - i * ipp))" if "i * ipp \<le> p" "p < (i + Suc n) * ipp" for p
  proof (cases "p < Suc i * ipp")
    case True
    then have d: "p div ipp = i" "p < N" using that(1) in_page q(3) by (simp_all add: q_def)
    then have "p mod ipp = p - i * ipp" by (metis minus_div_mult_eq_mod)
    then show ?thesis using s1(3) [OF d(1)] s2(4) [OF d(2)] True ipp_pos by simp
  next
    case False
    moreover have "ipp + (p - Suc i * ipp) = p - i * ipp" using False by simp
    ultimately show ?thesis using s2(3) [of p] that(2) Suc.prems(2) by (simp add: add.commute)
  qed
  moreover have "stored s2 d p y = stored s d p y" if "p < N" "p < i * ipp \<or> (i + Suc n) * ipp \<le> p" for p d y
  proof -
    have "(i + Suc n) * ipp = ipp + i * ipp + n * ipp" by (simp add: add_mult_distrib)
    then have "p div ipp \<noteq> i" "p < Suc i * ipp \<or> (Suc i + n) * ipp \<le> p" using that(2) in_page [of p] by (auto simp: add_mult_distrib)
    then show ?thesis using s1(4) s2(4) that(1) by simp
  qed
  ultimately show ?case using s1(1) s2(1,2) by (auto simp: add.commute)
qed auto

text \<open>The page that a partial overwrite starts from.\<close>

definition page_ok :: "'a list \<Rightarrow> bool" where
  "page_ok pg \<longleftrightarrow> length pg = ipp \<and> list_all elem pg"

lemma old_page:
  assumes "inv s" "q < N" "page_ok pg" "cond \<Longrightarrow> \<exists>x. stored s d q x"
  obtains pg' where "(if cond then rd s (of_nat (q div ipp)) d else Some pg) = Some pg'" "page_ok pg'"
proof (cases cond)
  case True
  then obtain pg' where r: "rd s (of_nat (q div ipp)) d = Some pg'" using assms(4) by (auto simp: stored_def)
  then show ?thesis using that True read_page [OF assms(1) page_index [OF assms(2)] r] by (auto simp: page_ok_def)
qed (use that assms(3) in simp)

lemma patch_old:
  assumes "inv s" "q < N" "page_ok pg" "cond \<Longrightarrow> \<exists>x. stored s d q x" "off + length from \<le> ipp" "list_all elem from"
  obtains s' pg' where "patch_page V s (if cond then rd s (of_nat (q div ipp)) d else Some pg) (q div ipp) off from c = Some (s', pg')" "inv s'" "page_ok pg'"
    "\<And>p. p div ipp = q div ipp \<Longrightarrow> off \<le> p mod ipp \<Longrightarrow> p mod ipp < off + length from \<Longrightarrow> stored s' c p (from ! (p mod ipp - off))"
    "\<And>p d y. p < N \<Longrightarrow> p div ipp \<noteq> q div ipp \<Longrightarrow> stored s' d p y = stored s d p y"
proof -
  obtain pg0 where 0: "(if cond then rd s (of_nat (q div ipp)) d else Some pg) = Some pg0" "page_ok pg0" using old_page [OF assms(1-4)] by metis
  then have 1: "length pg0 = ipp" "list_all elem pg0" by (simp_all add: page_ok_def)
  show ?thesis
  proof (rule patch_spec [OF assms(1) 1 assms(2,5,6), of c], goal_cases)
    case (1 s')
    then show ?thesis unfolding 0(1) by (intro that [unfolded 0(1), of s' "memcpy pg0 off from"]) (simp_all add: page_ok_def)
  qed
qed

lemma page_offset:
  assumes "a \<le> p" "p div ipp = a div ipp"
  shows "p mod ipp = a mod ipp + (p - a)"
  using assms(1) div_mult_mod_eq [of p ipp, unfolded assms(2)] div_mult_mod_eq [of a ipp] by linarith

text \<open>Overwriting the positions from \<open>a\<close> to \<open>e\<close> of one page.\<close>

lemma patch_range:
  assumes "inv s" "e \<le> N" "page_ok pg" "cond \<longrightarrow> (\<exists>x. stored s d a x)" "a < e" "(e - 1) div ipp = a div ipp" "list_all elem from" "length from = e - a"
  shows "\<exists>s' pg'. patch_page V s (if cond then rd s (of_nat (a div ipp)) d else Some pg) (a div ipp) (a mod ipp) from c = Some (s', pg') \<and> inv s' \<and> page_ok pg'
    \<and> (\<forall>p. a \<le> p \<and> p < e \<longrightarrow> stored s' c p (from ! (p - a)))
    \<and> (\<forall>p d y. p < N \<longrightarrow> p div ipp \<noteq> a div ipp \<longrightarrow> stored s' d p y = stored s d p y)"
proof -
  have in_page: "p div ipp = a div ipp" if "a \<le> p" "p < e" for p
  proof -
    have "a div ipp \<le> p div ipp" "p div ipp \<le> (e - 1) div ipp" using that by (auto intro: div_le_mono)
    then show ?thesis using assms(6) by simp
  qed
  have "(e - 1) mod ipp < ipp" using ipp_pos by simp
  then have fits: "a mod ipp + length from \<le> ipp" using page_offset [of a "e - 1"] assms(5,6,8) by simp
  have aN: "a < N" using assms(2,5) by linarith
  show ?thesis
  proof (rule patch_old [where cond = cond and d = d and c = c, OF assms(1) aN assms(3) assms(4) [THEN mp] fits assms(7)], goal_cases)
    case (2 s' pg')
    have "stored s' c p (from ! (p - a))" if "a \<le> p" "p < e" for p
      using 2(4) [OF in_page [OF that]] page_offset [OF that(1) in_page [OF that]] that assms(8) by simp
    then show ?thesis using 2(1-3,5) by blast
  qed simp
qed

text \<open>Copying out.  What the code reads to keep the rest of a page must be there: the first page under the same counter,
  the last page under the counter before.\<close>

lemma CopyOut_head:
  assumes s: "inv s" "page_ok pg" "list_all elem from" and T: "T = to + length from" "T \<le> N"
    and first: "to mod ipp \<noteq> 0 \<Longrightarrow> \<exists>x. stored s c to x" and multi: "to div ipp \<noteq> T div ipp"
  defines "i1 \<equiv> if to mod ipp \<noteq> 0 then to div ipp + 1 else to div ipp"
  shows "\<exists>s1 pg1. (if to mod ipp \<noteq> 0
       then map_option (\<lambda>(s, page). (s, page, drop (ipp - to mod ipp) from, to div ipp + 1))
             (patch_page V s (if to \<noteq> 0 then rd s (of_nat (to div ipp)) c else Some pg) (to div ipp) (to mod ipp) (take (ipp - to mod ipp) from) c)
       else Some (s, pg, from, to div ipp)) = Some (s1, pg1, drop (i1 * ipp - to) from, i1)
    \<and> inv s1 \<and> page_ok pg1 \<and> (\<forall>p. to \<le> p \<and> p < i1 * ipp \<longrightarrow> stored s1 c p (from ! (p - to)))
    \<and> (\<forall>p d y. p < N \<longrightarrow> p div ipp \<noteq> to div ipp \<longrightarrow> stored s1 d p y = stored s d p y)"
    and "to \<le> i1 * ipp" "i1 \<le> T div ipp"
proof -
  have to: "to = to div ipp * ipp + to mod ipp" "to mod ipp < ipp" using ipp_pos by simp_all
  have "to div ipp \<le> T div ipp" by (rule div_le_mono) (simp add: T(1))
  then show le: "i1 \<le> T div ipp" using multi by (auto simp: i1_def)
  show ge: "to \<le> i1 * ipp"
  proof (cases "to mod ipp = 0")
    case False
    then have "i1 * ipp = to div ipp * ipp + ipp" by (simp add: i1_def)
    then show ?thesis using to by linarith
  qed (use to(1) in \<open>simp add: i1_def\<close>)
  show "\<exists>s1 pg1. (if to mod ipp \<noteq> 0
       then map_option (\<lambda>(s, page). (s, page, drop (ipp - to mod ipp) from, to div ipp + 1))
             (patch_page V s (if to \<noteq> 0 then rd s (of_nat (to div ipp)) c else Some pg) (to div ipp) (to mod ipp) (take (ipp - to mod ipp) from) c)
       else Some (s, pg, from, to div ipp)) = Some (s1, pg1, drop (i1 * ipp - to) from, i1)
    \<and> inv s1 \<and> page_ok pg1 \<and> (\<forall>p. to \<le> p \<and> p < i1 * ipp \<longrightarrow> stored s1 c p (from ! (p - to)))
    \<and> (\<forall>p d y. p < N \<longrightarrow> p div ipp \<noteq> to div ipp \<longrightarrow> stored s1 d p y = stored s d p y)"
  proof (cases "to mod ipp = 0")
    case True
    then have "i1 * ipp = to" "i1 = to div ipp" using to(1) by (simp_all add: i1_def)
    then show ?thesis using s True by auto
  next
    case False
    have i: "i1 = to div ipp + 1" "i1 * ipp = to div ipp * ipp + ipp" using False by (simp_all add: i1_def)
    have i1: "i1 = to div ipp + 1" "i1 * ipp - to = ipp - to mod ipp" "to < i1 * ipp" using i to by linarith+
    have "i1 * ipp \<le> T" using mult_le_mono1 [OF le, of ipp] div_times_less_eq_dividend [of T ipp] by linarith
    then have n: "length (take (ipp - to mod ipp) from) = i1 * ipp - to" "i1 * ipp \<le> N" using T i1(2) by auto
    have pg: "(i1 * ipp - 1) div ipp = to div ipp" using False to(2) by (intro div_nat_eqI) (auto simp: i1(1) mult.commute)
    have el: "list_all elem (take (ipp - to mod ipp) from)" using s(3) by (auto simp: list_all_iff dest: in_set_takeD)
    obtain s1 pg1 where 1: "patch_page V s (if to \<noteq> 0 then rd s (of_nat (to div ipp)) c else Some pg) (to div ipp) (to mod ipp) (take (ipp - to mod ipp) from) c = Some (s1, pg1)"
      "inv s1" "page_ok pg1" "\<forall>p. to \<le> p \<and> p < i1 * ipp \<longrightarrow> stored s1 c p (take (ipp - to mod ipp) from ! (p - to))"
      "\<forall>p d y. p < N \<longrightarrow> p div ipp \<noteq> to div ipp \<longrightarrow> stored s1 d p y = stored s d p y"
      using patch_range [where cond = "to \<noteq> 0" and d = c and c = c, OF s(1) n(2) s(2) impI [OF first [OF False]] i1(3) pg el n(1)] by metis
    have "\<forall>p. to \<le> p \<and> p < i1 * ipp \<longrightarrow> stored s1 c p (from ! (p - to))"
    proof (intro allI impI)
      fix p assume p: "to \<le> p \<and> p < i1 * ipp"
      then have "p - to < ipp - to mod ipp" using i1(2) by linarith
      then show "stored s1 c p (from ! (p - to))" using 1(4) p by fastforce
    qed
    then show ?thesis using 1 i1 False by simp
  qed
qed

lemma before_page:
  assumes "p < a div ipp * ipp"
  shows "p div ipp \<noteq> a div ipp" "p < a" "a \<le> b \<Longrightarrow> p div ipp \<noteq> b div ipp" "T = a + n \<Longrightarrow> T \<le> N \<Longrightarrow> p < N"
proof -
  have lt: "p div ipp < a div ipp" using assms ipp_pos by (simp add: div_less_iff_less_mult)
  then show "p div ipp \<noteq> a div ipp" by simp
  show "p < a" using assms div_times_less_eq_dividend [of a ipp] by linarith
  then show "T = a + n \<Longrightarrow> T \<le> N \<Longrightarrow> p < N" by simp
  show "p div ipp \<noteq> b div ipp" if "a \<le> b" using lt div_le_mono [OF that, of ipp] by simp
qed

lemma CopyOut_spec:
  assumes s: "inv s" "page_ok pg" "list_all elem from" and T: "T = to + length from" "T \<le> N"
    and one: "to div ipp = T div ipp \<Longrightarrow> from \<noteq> [] \<Longrightarrow> to \<noteq> 0 \<or> T \<noteq> N \<Longrightarrow> c > 0 \<Longrightarrow> \<exists>x. stored s (c - 1) to x"
    and first: "to div ipp \<noteq> T div ipp \<Longrightarrow> to mod ipp \<noteq> 0 \<Longrightarrow> \<exists>x. stored s c to x"
    and last: "to div ipp \<noteq> T div ipp \<Longrightarrow> T mod ipp \<noteq> 0 \<Longrightarrow> T \<noteq> N \<Longrightarrow> c > 0 \<Longrightarrow> \<exists>x. stored s (c - 1) T x"
  shows "\<exists>s' pg'. CopyOut V (s, pg) from to c = Some (s', pg') \<and> inv s' \<and> page_ok pg' \<and> (\<forall>p. to \<le> p \<and> p < T \<longrightarrow> stored s' c p (from ! (p - to)))
    \<and> (\<forall>p d y. p < to div ipp * ipp \<longrightarrow> stored s' d p y = stored s d p y)"
proof (cases "to div ipp = T div ipp")
  case True
  show ?thesis
  proof (cases "from = []")
    case True
    then show ?thesis using s T by (auto simp: CopyOut_def Let_def)
  next
    case False
    then have lt: "to < T" "length from = T - to" using T(1) by auto
    have pg: "(T - 1) div ipp = to div ipp" using True lt(1) div_le_mono [of to "T - 1" ipp] div_le_mono [of "T - 1" T ipp] by simp
    have rd: "(to \<noteq> 0 \<or> T \<noteq> N) \<and> c > 0 \<longrightarrow> (\<exists>x. stored s (c - 1) to x)" using one [OF True False] by blast
    have "CopyOut V (s, pg) from to c
      = patch_page V s (if (to \<noteq> 0 \<or> T \<noteq> N) \<and> c > 0 then rd s (of_nat (to div ipp)) (c - 1) else Some pg) (to div ipp) (to mod ipp) from c"
      unfolding CopyOut_def Let_def prod.case V_simps T(1) [symmetric] using False True by presburger
    then show ?thesis using patch_range [OF s(1) T(2) s(2) rd lt(1) pg s(3) lt(2), where c = c] before_page T by metis
  qed
next
  case False
  define i1 where "i1 = (if to mod ipp \<noteq> 0 then to div ipp + 1 else to div ipp)"
  define te where "te = T div ipp"
  note h = CopyOut_head [OF s T first [OF False] False, folded i1_def te_def]
  obtain s1 pg1 where 1: "(if to mod ipp \<noteq> 0
       then map_option (\<lambda>(s, page). (s, page, drop (ipp - to mod ipp) from, to div ipp + 1))
             (patch_page V s (if to \<noteq> 0 then rd s (of_nat (to div ipp)) c else Some pg) (to div ipp) (to mod ipp) (take (ipp - to mod ipp) from) c)
       else Some (s, pg, from, to div ipp)) = Some (s1, pg1, drop (i1 * ipp - to) from, i1)"
    "inv s1" "page_ok pg1" "\<forall>p. to \<le> p \<and> p < i1 * ipp \<longrightarrow> stored s1 c p (from ! (p - to))"
    "\<forall>p d y. p < N \<longrightarrow> p div ipp \<noteq> to div ipp \<longrightarrow> stored s1 d p y = stored s d p y"
    using h(1) by metis
  define from1 where "from1 = drop (i1 * ipp - to) from"
  have te: "T = te * ipp + T mod ipp" "(te - i1) * ipp = te * ipp - i1 * ipp" "i1 * ipp \<le> te * ipp"
    using mult_le_mono1 [OF h(3)] by (simp_all add: te_def diff_mult_distrib)
  have len: "length from1 = T - i1 * ipp" using T(1) h(2) by (simp add: from1_def)
  have n1: "(te - i1) * ipp \<le> length from1" "i1 * ipp + (te - i1) * ipp \<le> N" using te T(2) unfolding len by linarith+
  have e1: "list_all elem from1" using s(3) by (auto simp: from1_def list_all_iff dest: in_set_dropD)
  obtain s2 where 2: "write_pages V c s1 i1 (te - i1) from1 = Some (s2, drop ((te - i1) * ipp) from1)" "inv s2"
    "\<forall>p. i1 * ipp \<le> p \<and> p < (i1 + (te - i1)) * ipp \<longrightarrow> stored s2 c p (from1 ! (p - i1 * ipp))"
    "\<forall>p d y. p < N \<longrightarrow> p < i1 * ipp \<or> (i1 + (te - i1)) * ipp \<le> p \<longrightarrow> stored s2 d p y = stored s1 d p y"
    using write_pages_spec [OF 1(2) n1(1) e1 n1(2), of c] by metis
  have st2: "stored s2 c p (from ! (p - to))" if "to \<le> p" "p < te * ipp" for p
  proof (cases "p < i1 * ipp")
    case True
    then show ?thesis using 1(4) 2(4) that T(2) te(1) by simp
  next
    case False
    then have "from1 ! (p - i1 * ipp) = from ! (p - to)" using h(2) T(1) te(1) that(2) by (simp add: from1_def)
    then show ?thesis using 2(3) [rule_format, of p] False that(2) h(3) by simp
  qed
  have keep: "stored s2 d p y = stored s d p y" if "p < to div ipp * ipp" for p d y
    using 1(5) 2(4) before_page [OF that] T h(2) by auto
  define from2 where "from2 = drop ((te - i1) * ipp) from1"
  have len2: "length from2 = T mod ipp" using len te by (simp add: from2_def)
  have run: "CopyOut V (s, pg) from to c =
    (if T mod ipp \<noteq> 0
     then patch_page V s2 (if T \<noteq> N \<and> c > 0 then rd s2 (of_nat te) (c - 1) else Some pg1) te 0 (take (T mod ipp) from2) c
     else Some (s2, pg1))"
    unfolding CopyOut_def Let_def prod.case V_simps T(1) [symmetric] if_not_P [OF False] 1(1) option.case te_def [symmetric] from1_def [symmetric]
      2(1) from2_def [symmetric] using False by (simp add: te_def)
  show ?thesis
  proof (cases "T mod ipp = 0")
    case True
    then show ?thesis using run 1(3) 2(2) st2 te(1) keep by auto
  next
    case nz: False
    have q: "te * ipp < T" "te * ipp div ipp = te" "te * ipp mod ipp = 0" "length from2 = T - te * ipp" using nz te(1) ipp_pos len2 by simp_all
    have "te * ipp \<le> T - 1" "T - 1 < te * ipp + ipp" using nz te(1) mod_less_divisor [OF ipp_pos, of T] by linarith+
    then have pg: "(T - 1) div ipp = te * ipp div ipp" using page_position [of "T - 1" "te * ipp"] unfolding q(2) by blast
    have e2: "list_all elem from2" using e1 by (auto simp: from2_def list_all_iff dest: in_set_dropD)
    have old: "T \<noteq> N \<and> c > 0 \<longrightarrow> (\<exists>x. stored s2 (c - 1) (te * ipp) x)"
    proof
      assume "T \<noteq> N \<and> c > 0"
      then obtain x where "stored s (c - 1) T x" "T < N" using last [OF False nz] T(2) by auto
      moreover have "T div ipp \<noteq> to div ipp" "(i1 + (te - i1)) * ipp \<le> T" using False te(1) h(3) by simp_all
      ultimately have "stored s2 (c - 1) T x" using 1(5) 2(4) by metis
      then show "\<exists>x. stored s2 (c - 1) (te * ipp) x" using q(2) by (auto simp: stored_def te_def)
    qed
    obtain s3 pg3 where 3: "patch_page V s2 (if T \<noteq> N \<and> c > 0 then rd s2 (of_nat te) (c - 1) else Some pg1) te 0 from2 c = Some (s3, pg3)" "inv s3" "page_ok pg3"
      "\<forall>p. te * ipp \<le> p \<and> p < T \<longrightarrow> stored s3 c p (from2 ! (p - te * ipp))" "\<forall>p d y. p < N \<longrightarrow> p div ipp \<noteq> te \<longrightarrow> stored s3 d p y = stored s2 d p y"
      using patch_range [OF 2(2) T(2) 1(3) old q(1) pg e2 q(4), where c = c] unfolding q(2,3) by metis
    have "stored s3 c p (from ! (p - to))" if "to \<le> p" "p < T" for p
    proof (cases "p < te * ipp")
      case True
      then have "p div ipp \<noteq> te" by (metis div_times_less_eq_dividend not_le)
      then show ?thesis using st2 [OF that(1) True] 3(5) that(2) T(2) by simp
    next
      case False
      have i: "(te - i1) * ipp + (p - te * ipp) = p - i1 * ipp" "i1 * ipp - to + (p - i1 * ipp) = p - to" "i1 * ipp - to \<le> length from"
        using te False h(2) T(1) by linarith+
      have "from2 ! (p - te * ipp) = from ! (p - to)" unfolding from2_def nth_drop [OF n1(1)] i(1) unfolding from1_def nth_drop [OF i(3)] i(2) ..
      then show ?thesis using 3(4) [rule_format, of p] False that(2) by simp
    qed
    moreover have "stored s3 d p y = stored s d p y" if "p < to div ipp * ipp" for p d y
      using 3(5) keep [OF that] before_page(3,4) [OF that] T unfolding te_def by auto
    ultimately show ?thesis using run nz 3(1-3) len2 by auto
  qed
qed

section \<open>Round trips\<close>

lemma holds_stored:
  assumes "inv s" "b + length xs \<le> N"
  shows "vector_holds V s c b xs \<longleftrightarrow> (\<forall>i<length xs. stored s c (b + i) (xs ! i))"
proof -
  have st: "derefAuth V s p c = Some x \<longleftrightarrow> stored s c p x" for p x by (auto simp: derefAuth_def stored_def)
  have rng: "map (\<lambda>p. xs ! (p - b)) [b + j..<b + i] = take (i - j) (drop j xs)" if "j < i" "i \<le> length xs" for i j
    using that by (intro nth_equalityI) auto
  have "Reader_all V s (Reader_new junk (b + j) (b + i) c) = Some (take (i - j) (drop j xs)) \<and>
       map_option snd (CopyIn V s junk (b + j) (b + i) c) = Some (take (i - j) (drop j xs))"
    if all: "\<forall>i<length xs. stored s c (b + i) (xs ! i)" and ij: "i \<le> length xs" "j < i" for i j junk
  proof -
    have at: "stored s c p (xs ! (p - b))" if "b + j \<le> p" "p < b + i" for p using all [rule_format, of "p - b"] that ij by simp
    have "Reader_all V s (Reader_new junk (b + j) (b + i) c) = Some (map (\<lambda>p. xs ! (p - b)) [b + j..<b + i])"
      using Reader_all_spec [of s "Reader_new junk (b + j) (b + i) c" "\<lambda>p. xs ! (p - b)"] at by (simp add: Reader_new_def reader_ok_def)
    moreover have "map_option snd (CopyIn V s junk (b + j) (b + i) c) = Some (map (\<lambda>p. xs ! (p - b)) [b + j..<b + i])"
      by (rule CopyIn_spec [OF at]) (use ij assms in simp_all)
    ultimately show ?thesis by (simp add: rng ij)
  qed
  then show ?thesis unfolding vector_holds_def st by blast
qed

lemma Writer_roundtrip:
  assumes s: "inv s" "page_ok junk" "page_ok junk'" "list_all elem xs" and b: "b mod ipp = 0" "b + length xs \<le> N" "b + length xs = N \<or> c \<noteq> 0"
  shows "\<exists>w sw s'. Writer_init V s junk b (b + length xs) c = Some w \<and> Writer_all V (s, w) xs = Some sw \<and> Writer_flush V junk' sw = Some s' \<and> inv s'
    \<and> vector_holds V s' c b xs \<and> (\<forall>d a ys. a + length ys \<le> b \<longrightarrow> vector_holds V s d a ys \<longrightarrow> vector_holds V s' d a ys)"
proof -
  define w where "w = \<lparr>w_cache = junk, w_it = b, w_end = b + length xs, w_curr = 0, w_counter = c\<rparr>"
  have init: "Writer_init V s junk b (b + length xs) c = Some w" using b(1) by (simp add: Writer_init_def w_def)
  have bb: "b div ipp * ipp = b" using b(1) by auto
  then have ok: "writer_ok b (\<lambda>p. xs ! (p - b)) (s, w)" using s b(1) by (auto simp: writer_ok_def w_def page_ok_def)
  obtain s1 w1 where 1: "Writer_all V (s, w) xs = Some (s1, w1)" "writer_ok b (\<lambda>p. xs ! (p - b)) (s1, w1)" "w_it w1 = b + length xs" "w_counter w1 = c"
    "\<forall>p d y. p < b \<longrightarrow> stored s1 d p y = stored s d p y"
    using Writer_all_spec [OF ok _ s(4)] b(2) bb by (auto simp: w_def)
  obtain s2 where 2: "Writer_flush V junk' (s1, w1) = Some s2" "inv s2" "\<forall>p. b \<le> p \<and> p < b + length xs \<longrightarrow> stored s2 c p (xs ! (p - b))"
    "\<forall>p d y. p < (b + length xs) div ipp * ipp \<longrightarrow> stored s2 d p y = stored s1 d p y"
    using Writer_flush_spec [OF 1(2), of junk'] 1(3,4) b(2,3) s(3) by (auto simp: page_ok_def)
  have "b div ipp * ipp \<le> (b + length xs) div ipp * ipp" by (intro mult_le_mono1 div_le_mono) simp
  then have keep: "stored s2 d p y = stored s d p y" if "p < b" for d p y using 1(5) 2(4) that bb by simp
  have "stored s2 c (b + i) (xs ! i)" if "i < length xs" for i using 2(3) [rule_format, of "b + i"] that by simp
  then have "vector_holds V s2 c b xs" using 2(2) b(2) by (simp add: holds_stored)
  moreover have "vector_holds V s2 d a ys" if "a + length ys \<le> b" "vector_holds V s d a ys" for d a ys
    using that keep b(2) by (simp add: holds_stored [OF 2(2)] holds_stored [OF s(1)])
  ultimately show ?thesis using init 1(1) 2(1,2) by blast
qed

lemma CopyOut_roundtrip:
  assumes s: "inv s" "page_ok pg" "list_all elem xs" and b: "b mod ipp = 0" "b + length xs \<le> N" "c = 0 \<or> b = 0 \<and> length xs = N"
  shows "\<exists>s' pg'. CopyOut V (s, pg) xs b c = Some (s', pg') \<and> inv s' \<and> page_ok pg' \<and> vector_holds V s' c b xs
    \<and> (\<forall>d a ys. a + length ys \<le> b \<longrightarrow> vector_holds V s d a ys \<longrightarrow> vector_holds V s' d a ys)"
proof -
  have "\<exists>s' pg'. CopyOut V (s, pg) xs b c = Some (s', pg') \<and> inv s' \<and> page_ok pg' \<and> (\<forall>p. b \<le> p \<and> p < b + length xs \<longrightarrow> stored s' c p (xs ! (p - b)))
      \<and> (\<forall>p d y. p < b div ipp * ipp \<longrightarrow> stored s' d p y = stored s d p y)"
    by (rule CopyOut_spec [OF s refl b(2)]) (use b in auto)
  then obtain s' pg' where 1: "CopyOut V (s, pg) xs b c = Some (s', pg')" "inv s'" "page_ok pg'" "\<And>p. b \<le> p \<Longrightarrow> p < b + length xs \<Longrightarrow> stored s' c p (xs ! (p - b))"
    "\<And>p d y. p < b div ipp * ipp \<Longrightarrow> stored s' d p y = stored s d p y"
    by blast
  have "stored s' c (b + i) (xs ! i)" if "i < length xs" for i using 1(4) [of "b + i"] that by simp
  then have "vector_holds V s' c b xs" using 1(2) b(2) by (simp add: holds_stored)
  moreover have "b div ipp * ipp = b" using b(1) by auto
  then have "vector_holds V s' d a ys" if "a + length ys \<le> b" "vector_holds V s d a ys" for d a ys
    using that 1(5) b(2) by (simp add: holds_stored [OF 1(2)] holds_stored [OF s(1)])
  ultimately show ?thesis using 1(1-3) by blast
qed

end

section \<open>The vector of encrypted pages\<close>

text \<open>Elements are their \<open>szT\<close> bytes in memory.\<close>

definition enc_vector :: "enc_env \<Rightarrow> nat \<Rightarrow> nat \<Rightarrow> nat \<Rightarrow> (ServerFrontend \<times> MemServerBackend, bytes) ext_vector" where
  "enc_vector E szT ipp N = \<lparr>vec_N = N, item_per_page = ipp,
    sv_Read = \<lambda>s i c. map_option (chunks szT) (server_Read E s i (replicate (ipp * szT) 0) c),
    sv_Write = \<lambda>s i page c. server_Write E s i (concat page) c\<rparr>"

lemma length_concat_const: "list_all (\<lambda>x. length x = n) xs \<Longrightarrow> length (concat xs) = length xs * n"
  by (induction xs) simp_all

lemma chunks_of_page:
  assumes "0 < n" "length p = k * n"
  shows "length (chunks n p) = k \<and> list_all (\<lambda>x. length x = n) (chunks n p)"
proof -
  have all: "list_all (\<lambda>x. length x = n) (chunks n p)" using chunks_lengths [of n p] assms by (auto simp: list_all_iff)
  then have "length p = length (chunks n p) * n" using length_concat_const [OF all] assms(1) by simp
  then show ?thesis using all assms by simp
qed

definition vector_inv :: "enc_env \<Rightarrow> nat \<Rightarrow> nat \<Rightarrow> nat \<Rightarrow> nat \<Rightarrow> ServerFrontend \<times> MemServerBackend \<Rightarrow> bool" where
  "vector_inv E szT ipp N n s \<longleftrightarrow> frontend_inv E (ipp * szT) n s \<and> 0 < szT \<and> 0 < ipp \<and> N < 2 ^ 64 \<and> N \<le> n * ipp"

interpretation encvec: vector_pages "\<lambda>s i c. map_option (chunks (Suc m)) (server_Read E s i (replicate (Suc k * Suc m) 0) c)"
  "\<lambda>s i page c. server_Write E s i (concat page) c" "frontend_inv E (Suc k * Suc m) n" "\<lambda>i. unat i < n" "Suc k"
  "\<lambda>x. length x = Suc m" "min M (min (n * Suc k) (2 ^ 64 - 1))" for E m k n M
proof unfold_locales
  fix s s' :: "ServerFrontend \<times> MemServerBackend" and i j :: u64 and p :: "bytes list" and c d
  assume inv: "frontend_inv E (Suc k * Suc m) n s" and i: "unat i < n" and p: "length p = Suc k \<and> list_all (\<lambda>x. length x = Suc m) p"
  then have len: "length (concat p) = Suc k * Suc m" using length_concat_const [of "Suc m" p] by metis
  show "\<exists>s'. server_Write E s i (concat p) c = Some s' \<and> frontend_inv E (Suc k * Suc m) n s'"
    using frontend.write_inv [OF inv i len] .
  assume w: "server_Write E s i (concat p) c = Some s'"
  show "map_option (chunks (Suc m)) (server_Read E s' i (replicate (Suc k * Suc m) 0) c) = Some p"
    unfolding frontend.read_same [OF inv i len w] using p by (simp add: chunks_concat)
  show "map_option (chunks (Suc m)) (server_Read E s' j (replicate (Suc k * Suc m) 0) d) = map_option (chunks (Suc m)) (server_Read E s j (replicate (Suc k * Suc m) 0) d)"
    if "unat j < n" "i \<noteq> j"
    unfolding frontend.read_other [OF inv i that(1) len w that(2)] ..
next
  fix s :: "ServerFrontend \<times> MemServerBackend" and i :: u64 and p c
  assume inv: "frontend_inv E (Suc k * Suc m) n s" and i: "unat i < n"
    and "map_option (chunks (Suc m)) (server_Read E s i (replicate (Suc k * Suc m) 0) c) = Some p"
  then obtain q where q: "server_Read E s i (replicate (Suc k * Suc m) 0) c = Some q" "p = chunks (Suc m) q" by auto
  show "length p = Suc k \<and> list_all (\<lambda>x. length x = Suc m) p"
    unfolding q(2) using frontend.read_page [OF inv i q(1)] by (intro chunks_of_page) simp_all
next
  fix i assume "i * Suc k < min M (min (n * Suc k) (2 ^ 64 - 1))"
  then have lt: "i * Suc k < n * Suc k" "i * Suc k < 2 ^ 64" by simp_all
  have "i < n" using lt(1) by (simp only: mult_less_cancel2)
  moreover have "i < 2 ^ 64" by (rule le_less_trans [OF _ lt(2)]) simp
  ultimately show "unat (of_nat i :: u64) < n" by (simp add: unsigned_of_nat take_bit_eq_mod)
qed simp_all

lemma enc_vector_V:
  assumes "vector_inv E szT ipp N n s"
  obtains m k where "szT = Suc m" "ipp = Suc k" "min N (min (n * Suc k) (2 ^ 64 - 1)) = N" "enc_vector E szT ipp N = encvec.V m E k N n"
    "frontend_inv E (Suc k * Suc m) n s"
proof -
  obtain m k where mk: "szT = Suc m" "ipp = Suc k" using assms by (auto simp: vector_inv_def gr0_conv_Suc)
  then have N: "min N (min (n * Suc k) (2 ^ 64 - 1)) = N" using assms by (simp add: vector_inv_def min_def)
  show ?thesis
  proof (rule that [OF mk N])
    show "enc_vector E szT ipp N = encvec.V m E k N n" unfolding enc_vector_def encvec.V_def mk unfolding N ..
  qed (use assms mk in \<open>simp add: vector_inv_def\<close>)
qed

section \<open>Properties\<close>

text \<open>(C10) A vector in external memory keeps what is put into it.  A writer that starts on a page boundary, is given the
  elements of a range and is flushed, and likewise a copy into the vector, does not abort; then every reader, every copy
  and every iterator with the same counter yields the elements of its range, in order.  Ranges before the one
  that is written or copied to keep their elements, under every counter.  The range starts on a page boundary.  A writer
  stops at the end of the vector or has a counter above zero, as the code otherwise overwrites the rest of the page; a
  copy has counter zero or covers the whole vector.\<close>

theorem vector_roundtrip:
  assumes inv: "vector_inv E szT ipp N n s" and xs: "list_all (\<lambda>x. length x = szT) xs" "b mod ipp = 0" "b + length xs \<le> N"
    and pages: "length pg = ipp" "list_all (\<lambda>x. length x = szT) pg" "length pg' = ipp" "list_all (\<lambda>x. length x = szT) pg'"
  shows "(b + length xs = N \<or> c \<noteq> 0 \<longrightarrow>
      (\<exists>w sw s'. Writer_init (enc_vector E szT ipp N) s pg b (b + length xs) c = Some w \<and> Writer_all (enc_vector E szT ipp N) (s, w) xs = Some sw
        \<and> Writer_flush (enc_vector E szT ipp N) pg' sw = Some s' \<and> vector_inv E szT ipp N n s'
        \<and> vector_holds (enc_vector E szT ipp N) s' c b xs
        \<and> (\<forall>d a ys. a + length ys \<le> b \<longrightarrow> vector_holds (enc_vector E szT ipp N) s d a ys \<longrightarrow> vector_holds (enc_vector E szT ipp N) s' d a ys)))
    \<and> (c = 0 \<or> b = 0 \<and> length xs = N \<longrightarrow>
      (\<exists>s' page. CopyOut (enc_vector E szT ipp N) (s, pg) xs b c = Some (s', page) \<and> vector_inv E szT ipp N n s'
        \<and> vector_holds (enc_vector E szT ipp N) s' c b xs
        \<and> (\<forall>d a ys. a + length ys \<le> b \<longrightarrow> vector_holds (enc_vector E szT ipp N) s d a ys \<longrightarrow> vector_holds (enc_vector E szT ipp N) s' d a ys)))"
proof -
  obtain m k where mk: "szT = Suc m" "ipp = Suc k" "min N (min (n * Suc k) (2 ^ 64 - 1)) = N" "enc_vector E szT ipp N = encvec.V m E k N n"
    "frontend_inv E (Suc k * Suc m) n s" using enc_vector_V [OF inv] by metis
  have inv': "vector_inv E szT ipp N n s' \<longleftrightarrow> frontend_inv E (Suc k * Suc m) n s'" for s' using inv by (simp add: vector_inv_def mk(1,2))
  have pg: "encvec.page_ok k m pg" "encvec.page_ok k m pg'" using pages by (simp_all add: encvec.page_ok_def mk(1,2))
  have x: "list_all (\<lambda>x. length x = Suc m) xs" "b mod Suc k = 0" "b + length xs \<le> min N (min (n * Suc k) (2 ^ 64 - 1))"
    using xs unfolding mk(1-3) by simp_all
  show ?thesis unfolding mk(4) inv'
  proof (intro conjI impI)
    assume "b + length xs = N \<or> c \<noteq> 0"
    then have "b + length xs = min N (min (n * Suc k) (2 ^ 64 - 1)) \<or> c \<noteq> 0" unfolding mk(3) .
    from encvec.Writer_roundtrip [OF mk(5) pg x this]
    show "\<exists>w sw s'. Writer_init (encvec.V m E k N n) s pg b (b + length xs) c = Some w \<and> Writer_all (encvec.V m E k N n) (s, w) xs = Some sw
        \<and> Writer_flush (encvec.V m E k N n) pg' sw = Some s' \<and> frontend_inv E (Suc k * Suc m) n s' \<and> vector_holds (encvec.V m E k N n) s' c b xs
        \<and> (\<forall>d a ys. a + length ys \<le> b \<longrightarrow> vector_holds (encvec.V m E k N n) s d a ys \<longrightarrow> vector_holds (encvec.V m E k N n) s' d a ys)" .
  next
    assume "c = 0 \<or> b = 0 \<and> length xs = N"
    then have "c = 0 \<or> b = 0 \<and> length xs = min N (min (n * Suc k) (2 ^ 64 - 1))" unfolding mk(3) .
    from encvec.CopyOut_roundtrip [OF mk(5) pg(1) x this]
    show "\<exists>s' page. CopyOut (encvec.V m E k N n) (s, pg) xs b c = Some (s', page) \<and> frontend_inv E (Suc k * Suc m) n s'
        \<and> vector_holds (encvec.V m E k N n) s' c b xs
        \<and> (\<forall>d a ys. a + length ys \<le> b \<longrightarrow> vector_holds (encvec.V m E k N n) s d a ys \<longrightarrow> vector_holds (encvec.V m E k N n) s' d a ys)" by blast
  qed
qed

theorem vector_roundtrip_witness:
  "\<exists>w sw s'. Writer_init (enc_vector demo_env 1 3 4) (demo_frontend 35 70, demo_backend) [[0], [0], [0]] 0 4 7 = Some w
    \<and> Writer_all (enc_vector demo_env 1 3 4) ((demo_frontend 35 70, demo_backend), w) [[1], [2], [3], [4]] = Some sw
    \<and> Writer_flush (enc_vector demo_env 1 3 4) [[9], [9], [9]] sw = Some s'
    \<and> Reader_all (enc_vector demo_env 1 3 4) s' (Reader_new [] 0 4 7) = Some [[1], [2], [3], [4]]
    \<and> map_option snd (CopyIn (enc_vector demo_env 1 3 4) s' [] 1 4 7) = Some [[2], [3], [4]]"
proof -
  have inv: "vector_inv demo_env 1 3 4 2 (demo_frontend 35 70, demo_backend)"
    using demo_server(1,2) by (simp add: vector_inv_def frontend_inv_def demo_frontend_def)
  have p: "list_all (\<lambda>x. length x = 1) [[1], [2], [3], [4 :: u8]]" "0 mod 3 = (0 :: nat)" "0 + length [[1], [2], [3], [4 :: u8]] \<le> 4"
    "length [[0], [0], [0 :: u8]] = 3" "list_all (\<lambda>x. length x = 1) [[0], [0], [0 :: u8]]"
    "length [[9], [9], [9 :: u8]] = 3" "list_all (\<lambda>x. length x = 1) [[9], [9], [9 :: u8]]"
    and four: "0 + length [[1], [2], [3], [4 :: u8]] = 4" by simp_all
  obtain w sw s' where 1: "Writer_init (enc_vector demo_env 1 3 4) (demo_frontend 35 70, demo_backend) [[0], [0], [0]] 0 4 7 = Some w"
    "Writer_all (enc_vector demo_env 1 3 4) ((demo_frontend 35 70, demo_backend), w) [[1], [2], [3], [4]] = Some sw"
    "Writer_flush (enc_vector demo_env 1 3 4) [[9], [9], [9]] sw = Some s'" "vector_holds (enc_vector demo_env 1 3 4) s' 7 0 [[1], [2], [3], [4]]"
    using conjunct1 [OF vector_roundtrip [OF inv p, of 7]] unfolding four by blast
  have "Reader_all (enc_vector demo_env 1 3 4) s' (Reader_new junk (0 + j) (0 + 4) 7) = Some (take (4 - j) (drop j [[1], [2], [3], [4]]))
      \<and> map_option snd (CopyIn (enc_vector demo_env 1 3 4) s' junk (0 + j) (0 + 4) 7) = Some (take (4 - j) (drop j [[1], [2], [3], [4]]))" if "j < 4" for j junk
    using 1(4) [unfolded vector_holds_def, THEN conjunct2, rule_format, of 4 j junk] that by simp
  from this [of 0 "[]"] this [of 1 "[]"] have "Reader_all (enc_vector demo_env 1 3 4) s' (Reader_new [] 0 4 7) = Some [[1], [2], [3], [4]]"
    "map_option snd (CopyIn (enc_vector demo_env 1 3 4) s' [] 1 4 7) = Some [[2], [3], [4]]" by simp_all
  then show ?thesis using 1(1-3) by blast
qed

end
