(* ===== verification/Bucket_Sort.thy ===== *)
theory Bucket_Sort
  imports Ext_Merge
begin

text \<open>
  The bucket oblivious sort of \<open>ca_bucket_sort.hpp\<close>.  Ranges and vectors are lists; \<open>asserts\<close> tells whether the
  assertions are compiled in, which release builds switch off (\<open>NDEBUG\<close>).  An abort, and a recursion on the whole range that
  never ends, are \<open>None\<close>.
\<close>

unbundle bit_operations_syntax

section \<open>Definitions\<close>

text \<open>The dummy flag is the least significant bit of a tag.  The loop that counts the elements of a bucket.\<close>

definition ca_dummy :: "'a TaggedT \<Rightarrow> bool" where
  "ca_dummy e \<longleftrightarrow> tag e AND 1 \<noteq> 0"

fun mark_excess :: "bool \<Rightarrow> nat \<Rightarrow> u64 \<Rightarrow> nat \<Rightarrow> u64 \<Rightarrow> 'a TaggedT list \<Rightarrow> 'a TaggedT list option" where
  "mark_excess asserts Z rangeMask cnt cur [] = Some []"
| "mark_excess asserts Z rangeMask cnt cur (e # es) =
    (let newCurr = tag e AND rangeMask;
         cnt = (if newCurr \<noteq> cur then 0 else cnt)
     in if asserts \<and> cnt \<ge> Z \<and> \<not> ca_dummy e then None
        else map_option ((#) (if cnt \<ge> Z then e\<lparr>tag := - 1\<rparr> else e)) (mark_excess asserts Z rangeMask (cnt + 1) newCurr es))"

text \<open>The second half of the temporary vector has elements that are set to zero, except for their tags.\<close>

definition binPacking :: "bool \<Rightarrow> 'a \<Rightarrow> nat \<Rightarrow> u64 \<Rightarrow> 'a TaggedT list \<Rightarrow> 'a TaggedT list option" where
  "binPacking asserts zero Z bitMask xs =
    (let size = length xs;
         numBucket = size div Z;
         logNumBucket = unat (GetLogBaseTwo (of_nat numBucket));
         baseMask = push_bit 1 (drop_bit logNumBucket bitMask);
         rangeMask = baseMask * (of_nat numBucket - 1);
         rangeMaskWithDummyFlag = rangeMask + 1;
         temp = xs @ concat (map (\<lambda>i. replicate Z \<lparr>tag = of_nat i * baseMask + 1, v = zero\<rparr>) [0..<numBucket]);
         cmp = (\<lambda>a b. (tag a AND rangeMaskWithDummyFlag) < (tag b AND rangeMaskWithDummyFlag))
     in map_option (\<lambda>temp. take size (BitonicSort cmp True temp)) (mark_excess asserts Z rangeMask 0 0 (BitonicSort cmp True temp)))"

text \<open>Bucket \<open>i\<close> of every batch goes to batch \<open>i\<close> of the next layer.\<close>

definition next_layer :: "nat \<Rightarrow> nat \<Rightarrow> 'a TaggedT list list \<Rightarrow> 'a TaggedT list" where
  "next_layer Z numBucketPerBatch batches =
    concat (map (\<lambda>bucketIdx. concat (map (\<lambda>batch. take Z (drop (bucketIdx * Z) batch)) batches)) [0..<numBucketPerBatch])"

function butterflyRouting :: "bool \<Rightarrow> 'a \<Rightarrow> nat \<Rightarrow> nat \<Rightarrow> u64 \<Rightarrow> 'a TaggedT list \<Rightarrow> 'a TaggedT list option" where
  "butterflyRouting asserts zero Z gamma bitMask xs =
    (let size = length xs;
         numBucket = size div Z
     in if numBucket \<le> gamma then binPacking asserts zero Z bitMask xs
        else let num_layer = unat (GetLogBaseTwo (of_nat numBucket));
                 half_num_layer = num_layer div 2;
                 numBucketPerBatch = 2 ^ half_num_layer;
                 batchSize = Z * numBucketPerBatch;
                 nextLayerBatchSize = 2 ^ (num_layer - half_num_layer) * Z
             in if size \<le> batchSize \<or> size \<le> nextLayerBatchSize then None
                else case those (map (butterflyRouting asserts zero Z gamma bitMask) (chunks batchSize xs)) of
                       None \<Rightarrow> None
                     | Some batches \<Rightarrow>
                         map_option concat (those (map (butterflyRouting asserts zero Z gamma (drop_bit half_num_layer bitMask))
                           (chunks nextLayerBatchSize (next_layer Z numBucketPerBatch batches)))))"
  by pat_completeness auto
termination
  by (relation "measure (\<lambda>(asserts, zero, Z, gamma, bitMask, xs). length xs)") (auto dest!: chunks_le)

declare butterflyRouting.simps [simp del]



text \<open>The slots of the buckets in order: the first ones of every bucket take elements of the input while there are any.  The
  draws of the random generator and the uninitialised elements are arguments.\<close>

fun tag_slots :: "(nat \<Rightarrow> u64) \<Rightarrow> (nat \<Rightarrow> 'a) \<Rightarrow> nat \<Rightarrow> nat \<Rightarrow> nat list \<Rightarrow> 'a list \<Rightarrow> 'a TaggedT list" where
  "tag_slots rnd junk Z numRealPerBucket [] xs = []"
| "tag_slots rnd junk Z numRealPerBucket (i # is) xs =
    (let r = rnd i AND (- 2)
     in if i mod Z < numRealPerBucket \<and> xs \<noteq> []
        then \<lparr>tag = r, v = hd xs\<rparr> # tag_slots rnd junk Z numRealPerBucket is (tl xs)
        else \<lparr>tag = r OR 1, v = junk i\<rparr> # tag_slots rnd junk Z numRealPerBucket is xs)"

definition tagAndPad :: "(nat \<Rightarrow> u64) \<Rightarrow> (nat \<Rightarrow> 'a) \<Rightarrow> nat \<Rightarrow> 'a list \<Rightarrow> 'a TaggedT list" where
  "tagAndPad rnd junk Z xs =
    (let inputSize = length xs;
         intermidiateSize = max (unat (GetNextPowerOfTwo (2 * of_nat inputSize))) Z;
         numBucket = intermidiateSize div Z;
         numRealPerBucket = unat (divRoundUp (of_nat inputSize) (of_nat numBucket))
     in tag_slots rnd junk Z numRealPerBucket [0..<numBucket * Z] xs)"

text \<open>The elements that are handed to the writer.  The assertion keeps not the tag but its disjunction with \<open>true\<close>.\<close>

fun write_reals :: "bool \<Rightarrow> u64 \<Rightarrow> 'a TaggedT list \<Rightarrow> 'a list option" where
  "write_reals asserts prev [] = Some []"
| "write_reals asserts prev (e # es) =
    (if \<not> ca_dummy e
     then if asserts \<and> \<not> tag e \<ge> prev then None else map_option ((#) (v e)) (write_reals asserts 1 es)
     else write_reals asserts prev es)"


text \<open>The version in memory, which does not flush the writer.\<close>

definition CABucketShuffleInternal :: "bool \<Rightarrow> (nat \<Rightarrow> u64) \<Rightarrow> (nat \<Rightarrow> 'a) \<Rightarrow> 'a \<Rightarrow> nat \<Rightarrow> 'a list \<Rightarrow> 'a list option" where
  "CABucketShuffleInternal asserts rnd junk zero Z xs =
    (let tv = tagAndPad rnd junk Z xs
     in Option.bind (butterflyRouting asserts zero Z (unat (GetLogBaseTwo (of_nat (length tv)))) (2 ^ 63) tv)
          (\<lambda>tv. write_reals asserts 0 (concat (map (BitonicSort cmpTag True) (chunks Z tv)))))"


section \<open>Groups of a tag\<close>

text \<open>Bits \<open>s\<close> to \<open>s + m - 1\<close> of the tag, and the dummy flag.\<close>

definition grp :: "nat \<Rightarrow> nat \<Rightarrow> 'a TaggedT \<Rightarrow> nat" where
  "grp s m e = unat (tag e) div 2 ^ s mod 2 ^ m"

abbreviation reals :: "'a TaggedT list \<Rightarrow> 'a TaggedT list" where
  "reals \<equiv> filter (\<lambda>e. \<not> ca_dummy e)"

lemma unat_and_one: "unat (t AND 1) = unat t mod 2" for t :: u64
  by (simp add: and_one_eq unat_mod)

lemma ca_dummy_odd: "ca_dummy e \<longleftrightarrow> unat (tag e) mod 2 = 1"
  unfolding ca_dummy_def unat_and_one [symmetric] by (auto simp: unat_and_one unat_eq_0 [symmetric])

definition range_mask :: "nat \<Rightarrow> nat \<Rightarrow> u64" where
  "range_mask s m = push_bit s (mask m)"

lemma bit_range_mask: "bit (range_mask s m) i \<longleftrightarrow> s \<le> i \<and> i < s + m \<and> i < 64"
  by (auto simp: range_mask_def bit_push_bit_iff bit_mask_iff)

lemma and_range_mask:
  assumes "s + m \<le> 64"
  shows "unat (t AND range_mask s m) = 2 ^ s * (unat t div 2 ^ s mod 2 ^ m)"
proof -
  have "t AND range_mask s m = push_bit s (take_bit m (drop_bit s t))"
    by (rule bit_word_eqI) (use assms in \<open>auto simp: bit_and_iff bit_range_mask bit_push_bit_iff bit_take_bit_iff bit_drop_bit_eq\<close>)
  moreover have full: "take_bit 64 (unat t) = unat t" by (rule take_bit_nat_eq_self) (use unat_lt_64 [of t] in simp)
  ultimately have "unat (t AND range_mask s m) = take_bit 64 (push_bit s (take_bit m (drop_bit s (unat t))))"
    by (simp add: unsigned_push_bit_eq unsigned_take_bit_eq unsigned_drop_bit_eq full)
  also have "\<dots> = take_bit 64 (2 ^ s * (unat t div 2 ^ s mod 2 ^ m))" by (simp add: push_bit_eq_mult take_bit_eq_mod drop_bit_eq_div mult.commute)
  also have "\<dots> = 2 ^ s * (unat t div 2 ^ s mod 2 ^ m)"
  proof -
    have "2 ^ s * (unat t div 2 ^ s mod 2 ^ m) < 2 ^ s * 2 ^ m" by simp
    also have "\<dots> \<le> (2 :: nat) ^ 64" unfolding power_add [symmetric] using assms by (intro power_increasing) simp_all
    finally show ?thesis by (simp add: take_bit_eq_mod)
  qed
  finally show ?thesis .
qed

lemma and_range_mask_dummy:
  assumes "s + m \<le> 64" "0 < s"
  shows "unat (t AND (range_mask s m + 1)) = 2 ^ s * (unat t div 2 ^ s mod 2 ^ m) + unat t mod 2"
proof -
  have dis: "\<not> bit (range_mask s m) n \<or> \<not> bit (1 :: u64) n" for n using assms(2) by (auto simp: bit_range_mask bit_1_iff)
  then have "range_mask s m + 1 = range_mask s m OR 1" by (rule disjunctive_add)
  then have "t AND (range_mask s m + 1) = (t AND range_mask s m) OR (t AND 1)" by (simp add: bit.conj_disj_distrib)
  also have "\<dots> = (t AND range_mask s m) + (t AND 1)" using dis by (intro disjunctive_add [symmetric]) (auto simp: bit_and_iff)
  finally have e: "t AND (range_mask s m + 1) = (t AND range_mask s m) + (t AND 1)" .
  have "unat (t AND (range_mask s m + 1)) = unat (t AND range_mask s m) + unat (t AND 1)"
    unfolding \<open>t AND (range_mask s m + 1) = (t AND range_mask s m) OR (t AND 1)\<close> unsigned_or_eq
    using dis by (intro disjunctive_add [symmetric]) (auto simp: bit_and_iff bit_unsigned_iff)
  then show ?thesis by (simp add: and_range_mask [OF assms(1)] unat_and_one)
qed

text \<open>The masks that the code computes.\<close>

lemma masks:
  assumes "m \<le> b" "b \<le> 63"
  defines "base \<equiv> push_bit 1 (drop_bit m (2 ^ b)) :: u64"
  shows "base * (of_nat (2 ^ m) - 1) = range_mask (b + 1 - m) m" "i < 2 ^ m \<Longrightarrow> unat (of_nat i * base) = 2 ^ (b + 1 - m) * i"
proof -
  have "drop_bit m (2 ^ b) = (2 ^ (b - m) :: u64)" using assms(1,2)
    by (intro bit_word_eqI) (auto simp: bit_drop_bit_eq bit_exp_iff)
  then have base: "base = 2 ^ (b + 1 - m)" using assms(1) by (simp add: base_def push_bit_eq_mult Suc_diff_le)
  then show "base * (of_nat (2 ^ m) - 1) = range_mask (b + 1 - m) m" by (simp add: range_mask_def push_bit_eq_mult mask_eq_exp_minus_1 mult.commute)
  assume i: "i < 2 ^ m"
  have "2 ^ (b + 1 - m) * i < 2 ^ (b + 1 - m) * 2 ^ m" using i by simp
  also have "\<dots> = (2 :: nat) ^ (b + 1)" unfolding power_add [symmetric] using assms(1) by simp
  also have "\<dots> \<le> 2 ^ 64" using assms(2) by (intro power_increasing) simp_all
  finally have "2 ^ (b + 1 - m) * i < 2 ^ 64" .
  moreover have "of_nat i * base = of_nat (2 ^ (b + 1 - m) * i)" by (simp add: base mult.commute)
  ultimately show "unat (of_nat i * base) = 2 ^ (b + 1 - m) * i" by (simp only: unsigned_of_nat) (simp add: take_bit_eq_mod)
qed

section \<open>Marking what does not fit\<close>

abbreviation excess :: "'a TaggedT \<Rightarrow> 'a TaggedT" where
  "excess e \<equiv> e\<lparr>tag := - 1\<rparr>"

lemma mark_reset: "es = [] \<or> tag (hd es) AND R = g \<Longrightarrow> g \<noteq> cur \<Longrightarrow> mark_excess a Z R c cur es = mark_excess a Z R 0 g es"
  by (cases es) simp_all

lemma mark_run:
  assumes "\<forall>e\<in>set es. tag e AND R = g"
  shows "mark_excess a Z R c g (es @ rest) =
    (if a \<and> (\<exists>e\<in>set (drop (Z - c) es). \<not> ca_dummy e) then None
     else map_option ((@) (take (Z - c) es @ map excess (drop (Z - c) es))) (mark_excess a Z R (c + length es) g rest))"
  using assms
proof (induction es arbitrary: c)
  case Nil
  show ?case by (cases "mark_excess a Z R c g rest") simp_all
next
  case (Cons e es)
  show ?case
  proof (cases "Z \<le> c")
    case True
    then show ?thesis using Cons by (auto simp: option.map_comp comp_def)
  next
    case False
    then have "Z - c = Suc (Z - Suc c)" by simp
    then show ?thesis using Cons False by (auto simp: option.map_comp comp_def)
  qed
qed

lemma mark_groups:
  assumes "distinct (map w is)" "\<forall>i\<in>set is. L i \<noteq> [] \<and> (\<forall>e\<in>set (L i). tag e AND R = w i)" "cur \<notin> w ` set is \<or> w (hd is) = cur \<and> c = 0"
  shows "mark_excess a Z R c cur (concat (map L is)) =
    (if a \<and> (\<exists>i\<in>set is. \<exists>e\<in>set (drop Z (L i)). \<not> ca_dummy e) then None
     else Some (concat (map (\<lambda>i. take Z (L i) @ map excess (drop Z (L i))) is)))"
  using assms
proof (induction "is" arbitrary: c cur)
  case (Cons i "is")
  have hd: "hd (L i @ concat (map L is)) = hd (L i)" "tag (hd (L i)) AND R = w i" using Cons.prems(2) by auto
  have "mark_excess a Z R c cur (L i @ concat (map L is)) = mark_excess a Z R 0 (w i) (L i @ concat (map L is))"
    using Cons.prems(3) hd by (cases "w i = cur") (auto intro!: mark_reset)
  also have "\<dots> = (if a \<and> (\<exists>e\<in>set (drop Z (L i)). \<not> ca_dummy e) then None
     else map_option ((@) (take Z (L i) @ map excess (drop Z (L i)))) (mark_excess a Z R (length (L i)) (w i) (concat (map L is))))"
    by (rule mark_run [where c = 0, unfolded diff_zero add_0]) (use Cons.prems(2) in simp)
  also have "mark_excess a Z R (length (L i)) (w i) (concat (map L is)) =
    (if a \<and> (\<exists>i\<in>set is. \<exists>e\<in>set (drop Z (L i)). \<not> ca_dummy e) then None
     else Some (concat (map (\<lambda>i. take Z (L i) @ map excess (drop Z (L i))) is)))"
    using Cons.prems by (intro Cons.IH) auto
  finally show ?case by auto
qed simp

section \<open>Sorted lists as groups\<close>

lemma sorted_split: "sorted (map G l) \<Longrightarrow> filter (\<lambda>e. G e < k) l @ filter (\<lambda>e. \<not> G e < k) l = l" for G :: "'a \<Rightarrow> nat"
proof (induction l)
  case (Cons x l)
  then have "filter (\<lambda>e. G e < k) l = []" if "\<not> G x < k" using that by (auto simp: filter_empty_conv dest: bspec)
  then show ?case using Cons by auto
qed simp

lemma sorted_prefix: "sorted (map G l) \<Longrightarrow> filter (\<lambda>e. G e < k) l = concat (map (\<lambda>g. filter (\<lambda>e. G e = g) l) [0..<k])" for G :: "'a \<Rightarrow> nat"
proof (induction k)
  case (Suc k)
  have "sorted (map G (filter (\<lambda>e. G e < Suc k) l))" using Suc.prems by (simp add: sorted_filter)
  from sorted_split [OF this, of k] have "filter (\<lambda>e. G e < Suc k) l = filter (\<lambda>e. G e < k) l @ filter (\<lambda>e. G e = k) l"
    by (simp add: less_Suc_eq conj_disj_distribL conj_disj_distribR cong: conj_cong)
  then show ?case using Suc by simp
qed simp

lemma sorted_groups:
  fixes G :: "'a \<Rightarrow> nat"
  assumes "sorted (map G l)" "\<forall>e\<in>set l. G e < B"
  shows "l = concat (map (\<lambda>g. filter (\<lambda>e. G e = g) l) [0..<B])"
  using sorted_prefix [OF assms(1), of B] assms(2) by (simp add: filter_id_conv)

definition bucket :: "nat \<Rightarrow> nat \<Rightarrow> 'a list \<Rightarrow> 'a list" where
  "bucket Z i xs = take Z (drop (i * Z) xs)"

lemma bucket_concat:
  assumes "i < length Ls" "\<And>j. j < i \<Longrightarrow> length (Ls ! j) = Z"
  shows "bucket Z i (concat Ls) = take Z (Ls ! i @ concat (drop (Suc i) Ls))"
  using assms
proof (induction i arbitrary: Ls)
  case 0
  then show ?case by (cases Ls) (simp_all add: bucket_def)
next
  case (Suc i)
  then obtain L Ls' where Ls: "Ls = L # Ls'" by (cases Ls) auto
  have "length L = Z" using Suc.prems(2) [of 0] Ls by simp
  moreover have "bucket Z i (concat Ls') = take Z (Ls' ! i @ concat (drop (Suc i) Ls'))"
    using Suc.prems Ls by (intro Suc.IH) (auto dest!: Suc.prems(2) [OF Suc_mono])
  ultimately show ?case by (simp add: Ls bucket_def)
qed

section \<open>Packing\<close>

text \<open>When the buckets overflow.  A packing that has looked at the first \<open>e\<close> bits of the tags brings together, from a block of
  \<open>2 ^ e\<close> buckets of the input, the real elements with the same \<open>e\<close> bits; they have to fit in one bucket.  Which \<open>e\<close> there are depends
  on how the recursion cuts the \<open>m\<close> bits, in memory and in external memory.\<close>

definition group_count :: "nat \<Rightarrow> nat \<Rightarrow> nat \<Rightarrow> nat \<Rightarrow> nat \<Rightarrow> 'a TaggedT list \<Rightarrow> nat" where
  "group_count Z b e c p xs = length (filter (\<lambda>x. grp (b + 1 - e) e x = p) (reals (bucket (2 ^ e * Z) c xs)))"

definition fits :: "nat \<Rightarrow> nat \<Rightarrow> nat \<Rightarrow> nat list \<Rightarrow> 'a TaggedT list \<Rightarrow> bool" where
  "fits Z b m es xs \<longleftrightarrow> (\<forall>e\<in>set es. \<forall>c<2 ^ (m - e). \<forall>p<2 ^ e. group_count Z b e c p xs \<le> Z)"

function pack_levels :: "nat \<Rightarrow> nat \<Rightarrow> nat list" where
  "pack_levels gamma m =
    (if 2 ^ m \<le> gamma \<or> m \<le> 1 then [m] else pack_levels gamma (m div 2) @ map ((+) (m div 2)) (pack_levels gamma (m - m div 2)))"
  by pat_completeness auto
termination by (relation "measure snd") auto

function ext_levels :: "nat \<Rightarrow> nat \<Rightarrow> nat \<Rightarrow> nat \<Rightarrow> nat list" where
  "ext_levels szT heapSize k m =
    (if (2 ^ m * 2 ^ k * 2 + (m + k) * 2 ^ k) * szT \<le> heapSize \<or> m \<le> 1 then pack_levels (m + k) m
     else ext_levels szT heapSize k (m div 2) @ map ((+) (m div 2)) (ext_levels szT heapSize k (m - m div 2)))"
  by pat_completeness auto
termination by (relation "measure (\<lambda>(szT, heapSize, k, m). m)") auto

declare pack_levels.simps [simp del] ext_levels.simps [simp del]

text \<open>What a routing function promises, in \<open>2 ^ m\<close> buckets of \<open>Z\<close> elements by \<open>m\<close> bits of the tags from bit \<open>b\<close> down: without
  assertions it returns, the real elements of a bucket are among those with its bits, and none is lost exactly if the packings
  do not overflow; with assertions it returns the same exactly if no real element was lost.\<close>

definition routed :: "nat \<Rightarrow> nat \<Rightarrow> nat \<Rightarrow> 'a TaggedT list \<Rightarrow> 'a TaggedT list \<Rightarrow> bool" where
  "routed Z b m xs out \<longleftrightarrow> length out = length xs
    \<and> (\<forall>i<2 ^ m. mset (reals (bucket Z i out)) \<subseteq># filter_mset (\<lambda>e. grp (b + 1 - m) m e = i) (mset (reals xs)))"

definition routes :: "nat \<Rightarrow> nat \<Rightarrow> nat \<Rightarrow> nat list \<Rightarrow> (bool \<Rightarrow> 'a TaggedT list \<Rightarrow> 'a TaggedT list option) \<Rightarrow> bool" where
  "routes Z b m es f \<longleftrightarrow> (\<forall>e\<in>set es. e \<le> m) \<and> (\<forall>xs. length xs = 2 ^ m * Z \<longrightarrow> (\<exists>out. f False xs = Some out \<and> routed Z b m xs out
    \<and> (length (reals out) = length (reals xs) \<longleftrightarrow> fits Z b m es xs)
    \<and> f True xs = (if length (reals out) = length (reals xs) then Some out else None)))"

lemma routesD:
  assumes "routes Z b m es f" "length xs = 2 ^ m * Z"
  obtains out where "f False xs = Some out" "routed Z b m xs out" "length (reals out) = length (reals xs) \<longleftrightarrow> fits Z b m es xs"
    "f True xs = (if length (reals out) = length (reals xs) then Some out else None)"
  using assms unfolding routes_def by blast

lemma sorted_reals_first:
  assumes "sorted (map (\<lambda>e. unat (tag e) mod 2) l)" "length (reals l) \<le> n"
  shows "reals (take n l) = reals l"
proof -
  have cd: "ca_dummy = (\<lambda>e :: 'a TaggedT. unat (tag e) mod 2 = 1)" by (simp add: fun_eq_iff ca_dummy_odd)
  have "filter (\<lambda>e. unat (tag e) mod 2 < 1) l @ filter (\<lambda>e. \<not> unat (tag e) mod 2 < 1) l = l" by (rule sorted_split [OF assms(1)])
  then have l: "l = reals l @ filter ca_dummy l" by (simp add: cd)
  have "reals (drop n l) = []" using assms(2) by (subst l) (auto simp: filter_empty_conv dest!: in_set_dropD)
  then show ?thesis by (metis append_Nil2 append_take_drop_id filter_append)
qed

lemma padding_reals: "reals (concat (map (\<lambda>i. replicate Z \<lparr>tag = of_nat i * push_bit 1 x + 1, v = zero\<rparr>) is)) = []"
proof -
  have "odd (of_nat i * push_bit 1 x + 1 :: u64)" for i by (simp add: push_bit_eq_mult)
  then show ?thesis by (auto simp: filter_empty_conv ca_dummy_def and_one_eq mod_2_eq_odd)
qed

lemma excess_group:
  assumes "s + m \<le> 64"
  shows "grp s m (excess e) = 2 ^ m - 1" "ca_dummy (excess e)"
proof -
  have "unat (- 1 :: u64) = 2 ^ 64 - 1" by (simp add: unsigned_minus_1_eq_mask mask_eq_exp_minus_1)
  also have "\<dots> = mask 64" by (simp add: mask_eq_exp_minus_1)
  finally have u: "unat (- 1 :: u64) = mask 64" .
  have "take_bit m (drop_bit s (mask 64 :: nat)) = mask m"
    using assms by (intro bit_eqI) (auto simp: bit_take_bit_iff bit_drop_bit_eq bit_mask_iff)
  moreover have "grp s m (excess e) = take_bit m (drop_bit s (unat (- 1 :: u64)))" by (simp add: grp_def take_bit_eq_mod drop_bit_eq_div)
  ultimately show "grp s m (excess e) = 2 ^ m - 1" unfolding u by (simp only: mask_eq_exp_minus_1)
  show "ca_dummy (excess e)" by (simp add: ca_dummy_def)
qed

lemma concat_only: "g < B \<Longrightarrow> concat (map (\<lambda>h. if h = g then f h else []) [0..<B]) = f g"
proof (induction B)
  case (Suc B)
  then show ?case by (cases "g = B") (auto simp: concat_eq_Nil_conv)
qed simp

lemma buckets_concat: "length xs = B * Z \<Longrightarrow> concat (map (\<lambda>i. bucket Z i xs) [0..<B]) = xs"
proof -
  have "concat (map (\<lambda>i. bucket Z i xs) [0..<k]) = take (k * Z) xs" for k
    by (induction k) (simp_all add: bucket_def take_add [symmetric] add.commute)
  then show "length xs = B * Z \<Longrightarrow> ?thesis" by simp
qed

text \<open>The second sort puts every group in its bucket.\<close>

lemma group_buckets:
  fixes L :: "nat \<Rightarrow> 'a TaggedT list"
  assumes sm: "s + m \<le> 64" and L: "\<And>h. h < 2 ^ m \<Longrightarrow> (\<forall>e\<in>set (L h). grp s m e = h) \<and> Z \<le> length (L h)"
    and l2: "mset l2 = mset (concat (map (\<lambda>h. take Z (L h) @ map excess (drop Z (L h))) [0..<2 ^ m]))" "sorted (map (grp s m) l2)"
      "\<And>g. sorted (map (\<lambda>e. unat (tag e) mod 2) (filter (\<lambda>e. grp s m e = g) l2))"
    and i: "i < 2 ^ m"
  shows "mset (reals (bucket Z i l2)) = mset (reals (take Z (L i)))"
proof -
  define B where "B = (2 :: nat) ^ m"
  define F where "F = (\<lambda>g. filter (\<lambda>e. grp s m e = g) l2)"
  define t where "t = concat (map (\<lambda>h. take Z (L h) @ map excess (drop Z (L h))) [0..<B])"
  have mF: "mset (F g) = mset (filter (\<lambda>e. grp s m e = g) t)" for g using l2(1) by (simp add: F_def t_def B_def)
  have part: "filter (\<lambda>e. grp s m e = g) (take Z (L h)) = (if h = g then take Z (L h) else [])" if "h < B" for g h
    using L [of h] that by (auto simp: B_def filter_id_conv filter_empty_conv dest!: in_set_takeD)
  have ex: "filter (\<lambda>e. grp s m e = g) (map excess es) = (if g = B - 1 then map excess es else [])" for g and es :: "'a TaggedT list"
    using excess_group(1) [OF sm] by (auto simp: B_def filter_id_conv filter_empty_conv)
  have split: "filter (\<lambda>e. grp s m e = g) t = concat (map (\<lambda>h. (if h = g then take Z (L h) else []) @ (if g = B - 1 then map excess (drop Z (L h)) else [])) [0..<B])" for g
    unfolding t_def filter_concat map_map comp_def filter_append ex by (intro arg_cong [where f = concat] map_cong refl) (simp add: part)
  have rt: "reals (filter (\<lambda>e. grp s m e = g) t) = concat (map (\<lambda>h. if h = g then reals (take Z (L h)) else []) [0..<B])" for g
    unfolding split filter_concat map_map comp_def filter_append using excess_group(2) [OF sm]
    by (intro arg_cong [where f = concat] map_cong refl) (auto simp: filter_empty_conv)
  have re: "mset (reals (F g)) = mset (reals (take Z (L g)))" if "g < B" for g
  proof -
    have "mset (reals (F g)) = mset (reals (filter (\<lambda>e. grp s m e = g) t))" unfolding mset_filter [of _ "F g"] mF mset_filter ..
    also have "\<dots> = mset (reals (take Z (L g)))" unfolding rt concat_only [OF that, of "\<lambda>h. reals (take Z (L h))"] ..
    finally show ?thesis .
  qed
  have eq: "length (F g) = Z" if "g < B - 1" for g
  proof -
    have "filter (\<lambda>e. grp s m e = g) t = take Z (L g)"
      unfolding split using that concat_only [of g B "\<lambda>h. take Z (L h)"] by simp
    then show ?thesis using mF [of g] L [of g] that mset_eq_length [of "F g"] by (simp add: B_def)
  qed
  have ge: "Z \<le> length (F g)" if "g < B" for g
  proof (cases "g < B - 1")
    case False
    then have "g = B - 1" using that by simp
    have "length (F g) = length (filter (\<lambda>e. grp s m e = g) t)" by (rule mset_eq_length) (rule mF)
    also have "\<dots> \<ge> length (concat (map (\<lambda>h. if h = g then take Z (L h) else []) [0..<B]))"
      unfolding split length_concat map_map comp_def by (rule sum_list_mono) simp
    finally show ?thesis using concat_only [OF that, of "\<lambda>h. take Z (L h)"] L [of g] that by (simp add: B_def)
  qed (use eq in simp)
  have lt: "\<forall>e\<in>set l2. grp s m e < B" by (simp add: grp_def B_def)
  have "bucket Z i (concat (map F [0..<B])) = take Z (F i)"
    using bucket_concat [of i "map F [0..<B]" Z] i eq ge [of i] by (simp add: B_def)
  moreover have "concat (map F [0..<B]) = l2" unfolding F_def by (rule sorted_groups [OF l2(2) lt, symmetric])
  moreover have "length (reals (F i)) = length (reals (take Z (L i)))" by (rule mset_eq_length) (use re i in \<open>simp add: B_def\<close>)
  then have "length (reals (F i)) \<le> Z" using length_filter_le [of "\<lambda>e. \<not> ca_dummy e" "take Z (L i)"] by simp
  then have "reals (take Z (F i)) = reals (F i)" using l2(3) [of i] by (intro sorted_reals_first) (simp_all add: F_def)
  ultimately show ?thesis using re [of i] i by (simp add: B_def)
qed

lemma log_pow2: "m < 64 \<Longrightarrow> unat (GetLogBaseTwo (of_nat (2 ^ m))) = m"
proof -
  assume m: "m < 64"
  define k where "k = unat (GetLogBaseTwo (of_nat (2 ^ m)))"
  have u: "unat (of_nat (2 ^ m) :: u64) = 2 ^ m" using unat_pow2 [OF m] by simp
  then have nz: "(of_nat (2 ^ m) :: u64) \<noteq> 0" by (metis power_not_zero unat_0 zero_neq_numeral)
  have "(2 :: nat) ^ k \<le> 2 ^ m" "(2 :: nat) ^ m < 2 ^ Suc k" using GetLogBaseTwo_bounds [OF nz] unfolding u k_def by simp_all
  then have "k \<le> m" "m < Suc k" by (metis power_le_imp_le_exp one_less_numeral_iff semiring_norm(76), metis power_less_imp_less_exp one_less_numeral_iff semiring_norm(76))
  then show ?thesis by (simp add: k_def)
qed

text \<open>The order of the two sorts.\<close>

lemma sorted_by_mask:
  assumes "s + m \<le> 64" "0 < s" "length xs \<le> 2 ^ 63"
  defines "cmp \<equiv> \<lambda>a b :: 'a TaggedT. (tag a AND (range_mask s m + 1)) < (tag b AND (range_mask s m + 1))"
  shows "sorted (map (grp s m) (BitonicSort cmp True xs))"
    "sorted (map (\<lambda>e. unat (tag e) mod 2) (filter (\<lambda>e. grp s m e = g) (BitonicSort cmp True xs)))"
proof -
  define K where "K = (\<lambda>e :: 'a TaggedT. 2 ^ s * grp s m e + unat (tag e) mod 2)"
  have "unat (tag e AND (range_mask s m + 1)) = K e" for e using and_range_mask_dummy [OF assms(1,2)] by (simp add: K_def grp_def)
  then have ko: "key_order cmp K" by unfold_locales (simp_all add: cmp_def word_less_nat_alt)
  define l where "l = BitonicSort cmp True xs"
  have so: "sorted (map K l)" unfolding l_def by (rule key_order.BitonicSort_ascending [OF ko assms(3)])
  have "unat (tag e) mod 2 < 2 ^ s" for e :: "'a TaggedT" using assms(2) by (cases s) (auto intro: less_le_trans [of _ 2])
  then have "grp s m e = K e div 2 ^ s" for e by (simp add: K_def)
  then have "map (grp s m) l = map (\<lambda>k. k div 2 ^ s) (map K l)" by simp
  then show "sorted (map (grp s m) (BitonicSort cmp True xs))" using so unfolding l_def [symmetric]
    by (simp add: sorted_wrt_map) (auto elim!: sorted_wrt_mono_rel [rotated] intro: div_le_mono)
  have "sorted (map K (filter (\<lambda>e. grp s m e = g) l))" using so by (rule sorted_filter)
  then show "sorted (map (\<lambda>e. unat (tag e) mod 2) (filter (\<lambda>e. grp s m e = g) (BitonicSort cmp True xs)))" unfolding l_def [symmetric]
    by (simp add: sorted_wrt_map) (auto elim!: sorted_wrt_mono_rel [rotated] simp: K_def)
qed

text \<open>The groups after the first sort: at least \<open>Z\<close> elements each, because of the padding.\<close>

lemma padding_group:
  assumes "m \<le> b" "b \<le> 63" "i < 2 ^ m"
  shows "grp (b + 1 - m) m \<lparr>tag = of_nat i * push_bit 1 (drop_bit m (2 ^ b)) + 1, v = zero\<rparr> = i"
proof -
  define s where "s = b + 1 - m"
  define x where "x = (of_nat i * push_bit 1 (drop_bit m (2 ^ b)) :: u64)"
  have s: "0 < s" "s + m = b + 1" using assms(1) by (simp_all add: s_def)
  have x: "unat x = 2 ^ s * i" using masks(2) [OF assms] by (simp add: x_def s_def)
  have "2 ^ s * Suc i \<le> 2 ^ s * 2 ^ m" using assms(3) by (intro mult_le_mono2) simp
  also have "\<dots> \<le> (2 :: nat) ^ 64" unfolding power_add [symmetric] s(2) using assms(2) by (intro power_increasing) simp_all
  moreover have "(2 :: nat) \<le> 2 ^ s" using s(1) by (cases s) simp_all
  ultimately have "unat (x + 1) = 2 ^ s * i + 1" using x by (simp add: unat_word_ariths)
  moreover have "(2 ^ s * i + 1) div 2 ^ s = i" using \<open>2 \<le> 2 ^ s\<close> by (intro div_nat_eqI) simp_all
  then have "(2 ^ s * i + 1) div 2 ^ s mod 2 ^ m = i" using assms(3) by simp
  ultimately show ?thesis unfolding grp_def TaggedT.simps x_def [symmetric] s_def [symmetric] by (simp only:)
qed

lemma filter_sum_groups:
  fixes G :: "'a \<Rightarrow> nat"
  assumes "\<forall>e\<in>set l. G e < B"
  shows "length (filter P l) = (\<Sum>g<B. length (filter P (filter (\<lambda>e. G e = g) l)))"
  using assms
proof (induction l)
  case (Cons x l)
  have "length (filter P (filter (\<lambda>e. G e = g) (x # l))) = length (filter P (filter (\<lambda>e. G e = g) l)) + (if g = G x then of_bool (P x) else 0)" for g
    by simp
  then have "(\<Sum>g<B. length (filter P (filter (\<lambda>e. G e = g) (x # l)))) = (\<Sum>g<B. length (filter P (filter (\<lambda>e. G e = g) l))) + (\<Sum>g<B. if g = G x then of_bool (P x) else 0)"
    by (simp only: sum.distrib)
  then show ?case using Cons by simp
qed simp

lemma padding_filter:
  assumes mb: "m \<le> b" "b \<le> 63" and g: "g < 2 ^ m"
  defines "base \<equiv> push_bit 1 (drop_bit m (2 ^ b)) :: u64"
  shows "filter (\<lambda>e. grp (b + 1 - m) m e = g) (concat (map (\<lambda>i. replicate Z \<lparr>tag = of_nat i * base + 1, v = zero\<rparr>) [0..<2 ^ m]))
    = replicate Z \<lparr>tag = of_nat g * base + 1, v = zero\<rparr>"
proof -
  have "filter (\<lambda>e. grp (b + 1 - m) m e = g) (concat (map (\<lambda>i. replicate Z \<lparr>tag = of_nat i * base + 1, v = zero\<rparr>) [0..<2 ^ m]))
      = concat (map (\<lambda>i. if i = g then replicate Z \<lparr>tag = of_nat i * base + 1, v = zero\<rparr> else []) [0..<2 ^ m])"
    unfolding filter_concat map_map comp_def
    by (intro arg_cong [where f = concat] map_cong refl) (simp add: padding_group [OF mb, folded base_def, simplified] filter_replicate)
  then show ?thesis using concat_only [OF g] by simp
qed

text \<open>The counting loop on a list that is sorted by groups.\<close>

lemma mark_sorted:
  fixes l :: "'a TaggedT list"
  assumes s: "s + m \<le> 64" and so: "sorted (map (grp s m) l)" and ne: "\<And>g. g < 2 ^ m \<Longrightarrow> filter (\<lambda>e. grp s m e = g) l \<noteq> []"
  defines "L \<equiv> \<lambda>g. filter (\<lambda>e. grp s m e = g) l"
  shows "mark_excess a Z (range_mask s m) 0 0 l = (if a \<and> (\<exists>g<2 ^ m. \<exists>e\<in>set (drop Z (L g)). \<not> ca_dummy e) then None
    else Some (concat (map (\<lambda>h. take Z (L h) @ map excess (drop Z (L h))) [0..<2 ^ m])))"
proof -
  have lt: "grp s m e < 2 ^ m" for e :: "'a TaggedT" by (simp add: grp_def)
  define w :: "nat \<Rightarrow> u64" where "w = (\<lambda>g. of_nat (2 ^ s * g))"
  have u: "unat (w g) = 2 ^ s * g" if "g < 2 ^ m" for g
  proof -
    have "2 ^ s * g < 2 ^ s * 2 ^ m" using that by simp
    also have "\<dots> \<le> (2 :: nat) ^ 64" unfolding power_add [symmetric] using s by (intro power_increasing) simp_all
    finally show ?thesis unfolding w_def by (simp only: unsigned_of_nat) (simp add: take_bit_eq_mod)
  qed
  have key: "tag e AND range_mask s m = w (grp s m e)" for e :: "'a TaggedT"
    unfolding word_unat_eq_iff u [OF lt] and_range_mask [OF s] unfolding grp_def ..
  have "inj_on w {0..<2 ^ m}"
  proof (rule inj_onI)
    fix g h assume "g \<in> {0..<2 ^ m}" "h \<in> {0..<2 ^ m}" and e: "w g = w h"
    then have "g < 2 ^ m" "h < 2 ^ m" by simp_all
    from u [OF this(1)] u [OF this(2)] have "2 ^ s * g = 2 ^ s * h" unfolding e by (rule trans [OF sym])
    then show "g = h" by simp
  qed
  then have "distinct (map w [0..<2 ^ m])" by (simp add: distinct_map)
  moreover have "L i \<noteq> [] \<and> (\<forall>e\<in>set (L i). tag e AND range_mask s m = w i)" if "i < 2 ^ m" for i
    using ne [OF that] key by (auto simp: L_def)
  moreover have "w (hd [0..<2 ^ m]) = 0" by (simp add: w_def hd_upt)
  moreover have "l = concat (map L [0..<2 ^ m])" unfolding L_def by (rule sorted_groups [OF so]) (use lt in simp)
  ultimately show ?thesis using mark_groups [of w "[0..<2 ^ m]" L "range_mask s m" 0 0 a Z] by auto
qed

lemma reals_blocks: "length out = B * Z \<Longrightarrow> length (reals out) = (\<Sum>i<B. length (reals (bucket Z i out)))"
  using arg_cong [where f = "\<lambda>l. length (reals l)", OF buckets_concat [of out B Z]]
  by (simp add: filter_concat length_concat comp_def sum_list_sum_nth lessThan_atLeast0)

text \<open>Buckets that hold the first \<open>Z\<close> elements of the groups of a list.\<close>

lemma first_of_groups:
  assumes l: "mset (reals l) = mset (reals xs)" and out: "length out = 2 ^ m * Z" "length xs = 2 ^ m * Z"
    and bo: "\<And>i. i < 2 ^ m \<Longrightarrow> mset (reals (bucket Z i out)) = mset (reals (take Z (filter (\<lambda>e. grp (b + 1 - m) m e = i) l)))"
    and so: "\<And>g. sorted (map (\<lambda>e. unat (tag e) mod 2) (filter (\<lambda>e. grp (b + 1 - m) m e = g) l))"
  shows "routed Z b m xs out" "length (reals out) = length (reals xs) \<longleftrightarrow> fits Z b m [m] xs"
    "length (reals out) = length (reals xs) \<longleftrightarrow> (\<forall>g<2 ^ m. reals (drop Z (filter (\<lambda>e. grp (b + 1 - m) m e = g) l)) = [])"
proof -
  define L where "L = (\<lambda>g. filter (\<lambda>e. grp (b + 1 - m) m e = g) l)"
  have "reals (L i) = filter (\<lambda>e. grp (b + 1 - m) m e = i) (reals l)" for i by (simp add: L_def conj_commute)
  then have rL: "mset (reals (L i)) = filter_mset (\<lambda>e. grp (b + 1 - m) m e = i) (mset (reals xs))" for i unfolding l [symmetric] by (simp only: mset_filter)
  have sub: "mset (reals (take Z (L i))) \<subseteq># mset (reals (L i))" for i
    by (metis append_take_drop_id filter_append mset_append mset_subset_eq_add_left)
  show "routed Z b m xs out" unfolding routed_def
  proof (intro conjI allI impI)
    show "mset (reals (bucket Z i out)) \<subseteq># filter_mset (\<lambda>e. grp (b + 1 - m) m e = i) (mset (reals xs))" if "i < 2 ^ m" for i
      using sub [of i, unfolded rL] unfolding bo [OF that] L_def .
  qed (use out in simp)
  have "length (reals out) = (\<Sum>i<2 ^ m. length (reals (bucket Z i out)))" by (rule reals_blocks [OF out(1)])
  also have "\<dots> = (\<Sum>i<2 ^ m. length (reals (take Z (L i))))" using bo by (intro sum.cong refl mset_eq_length) (simp add: L_def)
  finally have o: "length (reals out) = (\<Sum>i<2 ^ m. length (reals (take Z (L i))))" .
  have "length (reals xs) = length (reals l)" by (rule mset_eq_length [OF l [symmetric]])
  also have "\<dots> = (\<Sum>g<2 ^ m. length (reals (L g)))" unfolding L_def by (rule filter_sum_groups) (simp add: grp_def)
  also have "\<dots> = (\<Sum>g<2 ^ m. length (reals (take Z (L g))) + length (reals (drop Z (L g))))"
    by (intro sum.cong refl) (metis append_take_drop_id filter_append length_append)
  finally show dr: "length (reals out) = length (reals xs) \<longleftrightarrow> (\<forall>g<2 ^ m. reals (drop Z (filter (\<lambda>e. grp (b + 1 - m) m e = g) l)) = [])"
    unfolding o sum.distrib L_def by auto
  have "reals (drop Z (L g)) = [] \<longleftrightarrow> length (reals (L g)) \<le> Z" for g
  proof
    assume "reals (drop Z (L g)) = []"
    then have "reals (L g) = reals (take Z (L g))" by (metis append_Nil2 append_take_drop_id filter_append)
    then show "length (reals (L g)) \<le> Z" using length_filter_le [of "\<lambda>e. \<not> ca_dummy e" "take Z (L g)"] by simp
  next
    assume "length (reals (L g)) \<le> Z"
    moreover have "sorted (map (\<lambda>e. unat (tag e) mod 2) (L g))" unfolding L_def by (rule so)
    ultimately have "reals (take Z (L g)) = reals (L g)" by (intro sorted_reals_first)
    then show "reals (drop Z (L g)) = []" by (metis append_take_drop_id filter_append same_append_eq append_Nil2)
  qed
  moreover have "length (reals (L g)) = group_count Z b m 0 g xs" for g
  proof -
    have "bucket (2 ^ m * Z) 0 xs = xs" using out(2) by (simp add: bucket_def)
    then show ?thesis unfolding group_count_def size_mset [symmetric] rL mset_filter [symmetric] by simp
  qed
  ultimately show "length (reals out) = length (reals xs) \<longleftrightarrow> fits Z b m [m] xs" unfolding dr fits_def L_def by simp
qed

lemma binPacking_routes:
  assumes mb: "m \<le> b" "b \<le> 63" and Z: "0 < Z" "2 * (2 ^ m * Z) \<le> 2 ^ 63"
  shows "routes Z b m [m] (\<lambda>a. binPacking a zero Z (2 ^ b))"
  unfolding routes_def
proof (intro conjI allI impI)
  show "\<forall>e\<in>set [m]. e \<le> m" by simp
  fix xs :: "'a TaggedT list"
  assume len: "length xs = 2 ^ m * Z"
  define s where "s = b + 1 - m"
  define base where "base = (push_bit 1 (drop_bit m (2 ^ b)) :: u64)"
  define pad where "pad = concat (map (\<lambda>i. replicate Z \<lparr>tag = of_nat i * base + 1, v = zero\<rparr>) [0..<2 ^ m])"
  define cmp where "cmp = (\<lambda>(a :: 'a TaggedT) (b :: 'a TaggedT). (tag a AND (range_mask s m + 1)) < (tag b AND (range_mask s m + 1)))"
  define l1 where "l1 = BitonicSort cmp True (xs @ pad)"
  define L where "L = (\<lambda>g. filter (\<lambda>e. grp s m e = g) l1)"
  define t where "t = concat (map (\<lambda>h. take Z (L h) @ map excess (drop Z (L h))) [0..<2 ^ m])"
  define out where "out = take (2 ^ m * Z) (BitonicSort cmp True t)"
  have s: "s + m \<le> 64" "0 < s" using mb by (simp_all add: s_def)
  have len_pad: "length pad = 2 ^ m * Z" by (simp add: pad_def length_concat comp_def sum_list_triv)
  have len1: "length (xs @ pad) \<le> 2 ^ 63" unfolding length_append len len_pad using Z(2) by linarith
  note so1 = sorted_by_mask [OF s len1, folded cmp_def l1_def]
  have Lok: "(\<forall>e\<in>set (L h). grp s m e = h) \<and> Z \<le> length (L h)" if "h < 2 ^ m" for h
  proof -
    have "mset (L h) = filter_mset (\<lambda>e. grp s m e = h) (mset xs) + mset (filter (\<lambda>e. grp s m e = h) pad)" by (simp add: L_def l1_def)
    also have "filter (\<lambda>e. grp s m e = h) pad = replicate Z \<lparr>tag = of_nat h * base + 1, v = zero\<rparr>"
      unfolding pad_def base_def s_def by (rule padding_filter [OF mb that])
    finally have "size (mset (L h)) = size (filter_mset (\<lambda>e. grp s m e = h) (mset xs)) + Z" by simp
    then have "Z \<le> length (L h)" unfolding size_mset by simp
    then show ?thesis by (auto simp: L_def)
  qed
  have ne: "filter (\<lambda>e. grp s m e = g) l1 \<noteq> []" if "g < 2 ^ m" for g using Lok [OF that] Z(1) by (auto simp: L_def)
  have run: "binPacking a zero Z (2 ^ b) xs = (if a \<and> (\<exists>g<2 ^ m. \<exists>e\<in>set (drop Z (L g)). \<not> ca_dummy e) then None else Some out)" for a
  proof -
    have nb: "length xs div Z = 2 ^ m" using Z(1) len by simp
    have lg: "unat (GetLogBaseTwo (of_nat (2 ^ m))) = m" using mb by (intro log_pow2) simp
    have mark: "mark_excess a Z (range_mask s m) 0 0 l1 = (if a \<and> (\<exists>g<2 ^ m. \<exists>e\<in>set (drop Z (L g)). \<not> ca_dummy e) then None else Some t)"
      unfolding t_def L_def by (rule mark_sorted [OF s(1) so1(1) ne])
    show ?thesis
      unfolding binPacking_def Let_def nb lg base_def [symmetric] masks(1) [OF mb, folded s_def base_def] cmp_def [symmetric] pad_def [symmetric]
        l1_def [symmetric] mark using len by (simp add: out_def)
  qed
  have "length t = length (concat (map L [0..<2 ^ m]))" unfolding t_def length_concat map_map comp_def
    by (intro arg_cong [where f = sum_list] map_cong refl) simp
  also have "concat (map L [0..<2 ^ m]) = l1" unfolding L_def by (rule sorted_groups [OF so1(1), symmetric]) (simp add: grp_def)
  finally have len_t: "length t = 2 ^ m * Z + 2 ^ m * Z" using len len_pad by (simp add: l1_def)
  then have "length t \<le> 2 ^ 63" using Z(2) by linarith
  note so2 = sorted_by_mask [OF s this, folded cmp_def]
  have "mset (BitonicSort cmp True t) = mset (concat (map (\<lambda>h. take Z (L h) @ map excess (drop Z (L h))) [0..<2 ^ m]))" by (simp add: t_def)
  note gb = group_buckets [OF s(1) Lok this so2]
  have bo: "mset (reals (bucket Z i out)) = mset (reals (take Z (L i)))" if "i < 2 ^ m" for i
  proof -
    have "Suc i * Z \<le> 2 ^ m * Z" using that by (intro mult_le_mono1) simp
    then have "bucket Z i out = bucket Z i (BitonicSort cmp True t)" by (simp add: bucket_def out_def drop_take min_def)
    then show ?thesis using gb [OF _ that] by simp
  qed
  have pr: "reals pad = []" unfolding pad_def base_def by (rule padding_reals)
  have "mset (reals l1) = filter_mset (\<lambda>e. \<not> ca_dummy e) (mset (xs @ pad))" unfolding mset_filter l1_def mset_BitonicSort ..
  also have "\<dots> = mset (reals (xs @ pad))" by (rule mset_filter [symmetric])
  finally have r1: "mset (reals l1) = mset (reals xs)" unfolding filter_append pr append_Nil2 .
  have lo: "length out = 2 ^ m * Z" using len_t by (simp add: out_def)
  note fg = first_of_groups [OF r1 lo len bo [unfolded L_def s_def] so1(2) [unfolded s_def], folded s_def, folded L_def]
  show "\<exists>out. binPacking False zero Z (2 ^ b) xs = Some out \<and> routed Z b m xs out \<and> (length (reals out) = length (reals xs) \<longleftrightarrow> fits Z b m [m] xs)
    \<and> binPacking True zero Z (2 ^ b) xs = (if length (reals out) = length (reals xs) then Some out else None)"
    using fg(1,3) fg(2) [symmetric] by (intro exI [of _ out] conjI) (auto simp: run filter_empty_conv L_def)
qed

section \<open>Two layers\<close>

lemma length_bucket: "i < k \<Longrightarrow> length xs = k * n \<Longrightarrow> length (bucket n i xs) = n"
proof -
  assume "i < k" "length xs = k * n"
  then have "Suc i * n \<le> length xs" by (metis Suc_leI mult_le_mono1)
  then show ?thesis by (simp add: bucket_def)
qed

lemma chunks_buckets: "0 < n \<Longrightarrow> length xs = k * n \<Longrightarrow> chunks n xs = map (\<lambda>i. bucket n i xs) [0..<k]"
  using chunks_concat [of n "map (\<lambda>i. bucket n i xs) [0..<k]"] buckets_concat [of xs k n] length_bucket [of _ k xs n] by (simp add: list_all_iff)

lemma those_map: "(\<And>i. i \<in> set is \<Longrightarrow> f i = (if P i then Some (g i) else None)) \<Longrightarrow> those (map f is) = (if \<forall>i\<in>set is. P i then Some (map g is) else None)"
  by (induction "is") auto

definition layers_step :: "nat \<Rightarrow> nat \<Rightarrow> nat \<Rightarrow> ('a TaggedT list \<Rightarrow> 'a TaggedT list option) \<Rightarrow> ('a TaggedT list \<Rightarrow> 'a TaggedT list option) \<Rightarrow> 'a TaggedT list \<Rightarrow> 'a TaggedT list option" where
  "layers_step Z m h f1 f2 xs =
    (case those (map f1 (chunks (Z * 2 ^ h) xs)) of
       None \<Rightarrow> None
     | Some batches \<Rightarrow> map_option concat (those (map f2 (chunks (2 ^ (m - h) * Z) (next_layer Z (2 ^ h) batches)))))"

lemma routed_le:
  assumes "routed Z b m xs out" "length xs = 2 ^ m * Z"
  shows "length (reals out) \<le> length (reals xs)"
proof -
  have "length (reals out) = (\<Sum>i<2 ^ m. length (reals (bucket Z i out)))" using assms by (intro reals_blocks) (simp add: routed_def)
  also have "\<dots> \<le> (\<Sum>i<2 ^ m. length (filter (\<lambda>e. grp (b + 1 - m) m e = i) (reals xs)))"
  proof (rule sum_mono)
    fix i :: nat assume "i \<in> {..<2 ^ m}"
    then have "mset (reals (bucket Z i out)) \<subseteq># filter_mset (\<lambda>e. grp (b + 1 - m) m e = i) (mset (reals xs))" using assms(1) unfolding routed_def by blast
    then have "mset (reals (bucket Z i out)) \<subseteq># mset (filter (\<lambda>e. grp (b + 1 - m) m e = i) (reals xs))" unfolding mset_filter .
    from size_mset_mono [OF this] show "length (reals (bucket Z i out)) \<le> length (filter (\<lambda>e. grp (b + 1 - m) m e = i) (reals xs))" unfolding size_mset .
  qed
  also have "\<dots> = length (filter (\<lambda>e. True) (reals xs))"
    using filter_sum_groups [of "reals xs" "grp (b + 1 - m) m" "2 ^ m" "\<lambda>e. True"] by (simp add: grp_def)
  finally show ?thesis by simp
qed

lemma grp_split:
  assumes "h \<le> m" "m \<le> b"
  shows "grp (b + 1 - m) m e = grp (b + 1 - h) h e * 2 ^ (m - h) + grp (b + 1 - m) (m - h) e"
proof -
  define t where "t = unat (tag e) div 2 ^ (b + 1 - m)"
  have "b + 1 - h = (b + 1 - m) + (m - h)" using assms by simp
  then have "grp (b + 1 - h) h e = t div 2 ^ (m - h) mod 2 ^ h" by (simp add: grp_def t_def power_add div_mult2_eq)
  moreover have "grp (b + 1 - m) m e = t mod 2 ^ m" "grp (b + 1 - m) (m - h) e = t mod 2 ^ (m - h)" by (simp_all add: grp_def t_def)
  moreover have p: "(2 :: nat) ^ m = 2 ^ (m - h) * 2 ^ h" using assms(1) by (simp flip: power_add)
  have "t mod 2 ^ m = t div 2 ^ (m - h) mod 2 ^ h * 2 ^ (m - h) + t mod 2 ^ (m - h)" unfolding p mod_mult2_eq by simp
  ultimately show ?thesis by simp
qed

lemma bucket_bucket:
  assumes "j < C"
  shows "bucket Z j (bucket (C * Z) i l) = bucket Z (i * C + j) l"
proof -
  have "Suc j * Z \<le> C * Z" using assms by (intro mult_le_mono1) simp
  then have "Z \<le> C * Z - j * Z" by simp
  then show ?thesis by (simp add: bucket_def drop_take min_def add_mult_distrib add_mult_distrib2 ac_simps)
qed

lemma bucket_of_blocks:
  assumes "\<And>i. i < K \<Longrightarrow> length (f i) = C * Z" "i < K" "j < C"
  shows "bucket Z (i * C + j) (concat (map f [0..<K])) = bucket Z j (f i)"
proof -
  have "bucket (C * Z) i (concat (map f [0..<K])) = f i"
    using bucket_concat [of i "map f [0..<K]" "C * Z"] assms(1,2) by simp
  then show ?thesis using bucket_bucket [OF assms(3), of Z i "concat (map f [0..<K])"] by simp
qed

lemma length_reals_concat: "length (reals (concat (map f [0..<K]))) = (\<Sum>i<K. length (reals (f i)))"
  by (simp add: filter_concat length_concat comp_def sum_list_sum_nth lessThan_atLeast0)

lemma mset_reals_blocks: "mset (reals (concat (map f [0..<K]))) = (\<Sum>i<K. mset (reals (f i)))"
  by (induction K) (simp_all add: lessThan_Suc add.commute)

lemma filter_mset_sum: "filter_mset P (\<Sum>i<(K :: nat). M i) = (\<Sum>i<K. filter_mset P (M i))"
  by (induction K) (simp_all add: lessThan_Suc)

lemma sum_mset_mono: "(\<And>i. i < K \<Longrightarrow> M i \<subseteq># M' i) \<Longrightarrow> (\<Sum>i<K. M i) \<subseteq># (\<Sum>i<(K::nat). M' i)"
  by (induction K) (simp_all add: lessThan_Suc subset_mset.add_mono)

lemma layers_routed:
  fixes xs :: "'a TaggedT list"
  assumes Z: "0 < Z" and m: "h \<le> m" "m \<le> b" and len: "length xs = 2 ^ m * Z"
    and o1: "\<And>c. c < 2 ^ (m - h) \<Longrightarrow> routed Z b h (bucket (2 ^ h * Z) c xs) (o1 c)"
    and N: "N = (\<lambda>i. concat (map (\<lambda>c. bucket Z i (o1 c)) [0..<2 ^ (m - h)]))"
    and o2: "\<And>i. i < 2 ^ h \<Longrightarrow> routed Z (b - h) (m - h) (N i) (o2 i)"
  shows "routed Z b m xs (concat (map o2 [0..<2 ^ h]))"
    "(\<Sum>i<2 ^ h. length (reals (N i))) = (\<Sum>c<2 ^ (m - h). length (reals (o1 c)))"
    "(\<Sum>c<2 ^ (m - h). length (reals (bucket (2 ^ h * Z) c xs))) = length (reals xs)"
    "i < 2 ^ h \<Longrightarrow> length (N i) = 2 ^ (m - h) * Z"
proof -
  define C where "C = (2 :: nat) ^ (m - h)"
  have mC: "(2 :: nat) ^ m = C * 2 ^ h" using m(1) by (simp add: C_def flip: power_add)
  have lx: "length xs = C * (2 ^ h * Z)" using len mC by simp
  have xs: "xs = concat (map (\<lambda>c. bucket (2 ^ h * Z) c xs) [0..<C])" using buckets_concat [OF lx] by simp
  have l1: "length (o1 c) = 2 ^ h * Z" if "c < C" for c using o1 [of c] that length_bucket [OF that lx] by (simp add: routed_def C_def)
  have lN: "length (N i) = C * Z" if "i < 2 ^ h" for i
  proof -
    have "length (N i) = sum_list (map (\<lambda>c. Z) [0..<C])" unfolding N length_concat map_map comp_def C_def [symmetric]
      by (intro arg_cong [where f = sum_list] map_cong refl) (use l1 that in \<open>simp add: length_bucket\<close>)
    then show ?thesis by (simp add: sum_list_triv)
  qed
  then show "i < 2 ^ h \<Longrightarrow> length (N i) = 2 ^ (m - h) * Z" by (simp add: C_def)
  show "(\<Sum>c<2 ^ (m - h). length (reals (bucket (2 ^ h * Z) c xs))) = length (reals xs)"
    unfolding C_def [symmetric] length_reals_concat [symmetric] xs [symmetric] ..
  have "(\<Sum>i<2 ^ h. length (reals (N i))) = (\<Sum>i<2 ^ h. \<Sum>c<C. length (reals (bucket Z i (o1 c))))" unfolding N length_reals_concat C_def ..
  also have "\<dots> = (\<Sum>c<C. \<Sum>i<2 ^ h. length (reals (bucket Z i (o1 c))))" by (rule sum.swap)
  also have "\<dots> = (\<Sum>c<C. length (reals (o1 c)))" using l1 by (intro sum.cong refl reals_blocks [symmetric]) simp
  finally show "(\<Sum>i<2 ^ h. length (reals (N i))) = (\<Sum>c<2 ^ (m - h). length (reals (o1 c)))" by (simp add: C_def)
  have l2: "length (o2 i) = C * Z" if "i < 2 ^ h" for i using o2 [OF that] lN [OF that] by (simp add: routed_def)
  define P1 where "P1 = (\<lambda>i (e :: 'a TaggedT). grp (b + 1 - h) h e = i)"
  define P2 where "P2 = (\<lambda>j (e :: 'a TaggedT). grp (b + 1 - m) (m - h) e = j)"
  have rN: "mset (reals (N i)) \<subseteq># filter_mset (P1 i) (mset (reals xs))" if "i < 2 ^ h" for i
  proof -
    have "mset (reals (N i)) = (\<Sum>c<C. mset (reals (bucket Z i (o1 c))))" unfolding N mset_reals_blocks C_def ..
    also have "\<dots> \<subseteq># (\<Sum>c<C. filter_mset (P1 i) (mset (reals (bucket (2 ^ h * Z) c xs))))"
      by (rule sum_mset_mono) (use o1 that in \<open>auto simp: routed_def P1_def C_def simp del: mset_filter\<close>)
    also have "\<dots> = filter_mset (P1 i) (mset (reals xs))" unfolding filter_mset_sum [symmetric] mset_reals_blocks [symmetric] xs [symmetric] ..
    finally show ?thesis .
  qed
  have ro2: "mset (reals (bucket Z j (o2 i))) \<subseteq># filter_mset (P2 j) (mset (reals (N i)))" if "i < 2 ^ h" "j < C" for i j
  proof -
    have "b - h + 1 - (m - h) = b + 1 - m" using m by simp
    then show ?thesis using o2 [OF that(1)] that(2) unfolding routed_def P2_def C_def by metis
  qed
  have "mset (reals (bucket Z k (concat (map o2 [0..<2 ^ h])))) \<subseteq># filter_mset (\<lambda>e. grp (b + 1 - m) m e = k) (mset (reals xs))" if "k < 2 ^ m" for k
  proof -
    define i j where "i = k div C" and "j = k mod C"
    have C0: "0 < C" by (simp add: C_def)
    then have ij: "i < 2 ^ h" "j < C" "k = i * C + j" using that by (simp_all add: i_def j_def mC less_mult_imp_div_less mult.commute)
    have "bucket Z k (concat (map o2 [0..<2 ^ h])) = bucket Z j (o2 i)" unfolding ij(3) by (rule bucket_of_blocks [OF l2 ij(1,2)])
    then have "mset (reals (bucket Z k (concat (map o2 [0..<2 ^ h])))) \<subseteq># filter_mset (P2 j) (filter_mset (P1 i) (mset (reals xs)))"
      using ro2 [OF ij(1,2)] multiset_filter_mono [OF rN [OF ij(1)], of "P2 j"] by (simp del: mset_filter)
    also have "\<dots> = filter_mset (\<lambda>e. P2 j e \<and> P1 i e) (mset (reals xs))" unfolding filter_filter_mset by (simp only: conj_commute)
    also have "(\<lambda>e. P2 j e \<and> P1 i e) = (\<lambda>e. grp (b + 1 - m) m e = k)"
    proof
      fix e :: "'a TaggedT"
      have "grp (b + 1 - m) (m - h) e < C" by (simp add: grp_def C_def)
      then show "(P2 j e \<and> P1 i e) = (grp (b + 1 - m) m e = k)"
        unfolding grp_split [OF m, of e] P1_def P2_def C_def [symmetric] ij(3) using ij(2)
        by (metis add.commute div_mult_self1_is_m C0 mod_mult_self2 mod_less div_less add_cancel_right_left div_mult_self3 less_irrefl mult.commute)
    qed
    finally show ?thesis .
  qed
  moreover have "length (concat (map o2 [0..<2 ^ h])) = length xs"
  proof -
    have "length (concat (map o2 [0..<2 ^ h])) = sum_list (map (\<lambda>i. C * Z) [0..<2 ^ h])" unfolding length_concat map_map comp_def
      by (intro arg_cong [where f = sum_list] map_cong refl) (use l2 in simp)
    then show ?thesis by (simp add: sum_list_triv len mC)
  qed
  ultimately show "routed Z b m xs (concat (map o2 [0..<2 ^ h]))" by (simp add: routed_def del: mset_filter)
qed

lemma sum_eq_iff: "(\<And>i. i < K \<Longrightarrow> f i \<le> g i) \<Longrightarrow> (\<Sum>i<K. f i) = (\<Sum>i<(K :: nat). g i) \<longleftrightarrow> (\<forall>i<K. f i = g i)" for f g :: "nat \<Rightarrow> nat"
proof (induction K)
  case (Suc K)
  have "(\<Sum>i<K. f i) \<le> (\<Sum>i<K. g i)" using Suc.prems by (intro sum_mono) simp
  then have "sum f {..<Suc K} = sum g {..<Suc K} \<longleftrightarrow> sum f {..<K} = sum g {..<K} \<and> f K = g K" using Suc.prems [of K] by auto
  moreover have "sum f {..<K} = sum g {..<K} \<longleftrightarrow> (\<forall>i<K. f i = g i)" using Suc.prems by (intro Suc.IH) simp
  ultimately show ?case by (auto simp: less_Suc_eq)
qed simp

text \<open>If nothing is lost, a bucket has all the elements with its bits.\<close>

lemma routed_exact:
  assumes r: "routed Z b m xs out" "length xs = 2 ^ m * Z" "length (reals out) = length (reals xs)" and i: "i < 2 ^ m"
  shows "mset (reals (bucket Z i out)) = filter_mset (\<lambda>e. grp (b + 1 - m) m e = i) (mset (reals xs))"
proof -
  have sub: "mset (reals (bucket Z i out)) \<subseteq># mset (filter (\<lambda>e. grp (b + 1 - m) m e = i) (reals xs))" if "i < 2 ^ m" for i
    using r(1) that unfolding routed_def mset_filter [of "\<lambda>e. grp (b + 1 - m) m e = i"] by blast
  have "(\<Sum>i<2 ^ m. length (reals (bucket Z i out))) = (\<Sum>i<2 ^ m. length (filter (\<lambda>e. grp (b + 1 - m) m e = i) (reals xs)))"
    using r reals_blocks [of out "2 ^ m" Z] filter_sum_groups [of "reals xs" "grp (b + 1 - m) m" "2 ^ m" "\<lambda>e. True"]
    by (simp add: routed_def grp_def)
  then have "length (reals (bucket Z i out)) = length (filter (\<lambda>e. grp (b + 1 - m) m e = i) (reals xs))"
    using sum_eq_iff [of "2 ^ m" "\<lambda>i. length (reals (bucket Z i out))", OF size_mset_mono [OF sub, unfolded size_mset]] i by (simp only:)
  then have "mset (reals (bucket Z i out)) = mset (filter (\<lambda>e. grp (b + 1 - m) m e = i) (reals xs))"
    using sub [OF i] by (metis mset_subset_size size_mset subset_mset.le_neq_trans less_irrefl)
  then show ?thesis unfolding mset_filter [of "\<lambda>e. grp (b + 1 - m) m e = i"] .
qed

text \<open>The overflow conditions of the two layers are those of the whole.\<close>

lemma all_blocks: "(\<forall>c<A * B. P c) \<longleftrightarrow> (\<forall>i<A. \<forall>j<B. P (i * B + j))" for A B :: nat
proof (intro iffI allI impI)
  fix i j assume "\<forall>c<A * B. P c" "i < A" "j < B"
  moreover have "Suc i * B \<le> A * B" using \<open>i < A\<close> by (intro mult_le_mono1) simp
  ultimately show "P (i * B + j)" by simp
next
  fix c assume a: "\<forall>i<A. \<forall>j<B. P (i * B + j)" and c: "c < A * B"
  have "0 < B" using c by (cases B) simp_all
  then show "P c" using a [rule_format, of "c div B" "c mod B"] c by (simp add: less_mult_imp_div_less)
qed

lemma pow_split: "a \<le> b \<Longrightarrow> (2 :: nat) ^ b = 2 ^ (b - a) * 2 ^ a"
  by (simp flip: power_add)

lemma fits_append: "fits Z b m (es @ ds) xs \<longleftrightarrow> fits Z b m es xs \<and> fits Z b m ds xs"
  by (auto simp: fits_def)

lemma fits_first:
  assumes "h \<le> m" "\<forall>e\<in>set es. e \<le> h"
  shows "fits Z b m es xs \<longleftrightarrow> (\<forall>C<2 ^ (m - h). fits Z b h es (bucket (2 ^ h * Z) C xs))"
proof -
  have "(\<forall>c<2 ^ (m - e). \<forall>p<2 ^ e. group_count Z b e c p xs \<le> Z) \<longleftrightarrow>
      (\<forall>C<2 ^ (m - h). \<forall>c<2 ^ (h - e). \<forall>p<2 ^ e. group_count Z b e c p (bucket (2 ^ h * Z) C xs) \<le> Z)" if "e \<in> set es" for e
  proof -
    have e: "e \<le> h" using assms(2) that by blast
    have "m - e - (h - e) = m - h" using e assms(1) by simp
    then have "(2 :: nat) ^ (m - e) = 2 ^ (m - h) * 2 ^ (h - e)" using pow_split [of "h - e" "m - e"] e assms(1) by simp
    moreover have "group_count Z b e c p (bucket (2 ^ h * Z) C xs) = group_count Z b e (C * 2 ^ (h - e) + c) p xs" if "c < 2 ^ (h - e)" for c p C
      using bucket_bucket [OF that, of "2 ^ e * Z" C xs] pow_split [OF e] by (simp add: group_count_def mult.assoc)
    ultimately show ?thesis by (simp add: all_blocks)
  qed
  then show ?thesis unfolding fits_def by blast
qed

lemma group_count_second:
  fixes xs :: "'a TaggedT list"
  assumes m: "h \<le> m" "m \<le> b" "e \<le> m - h" and len: "length xs = 2 ^ m * Z"
    and B: "\<And>c. c < 2 ^ (m - h) \<Longrightarrow> length (B c) = Z \<and> mset (reals (B c)) = filter_mset (\<lambda>x. grp (b + 1 - h) h x = i) (mset (reals (bucket (2 ^ h * Z) c xs)))"
    and c: "c < 2 ^ (m - h - e)" "p < 2 ^ e"
  shows "group_count Z (b - h) e c p (concat (map B [0..<2 ^ (m - h)])) = group_count Z b (h + e) c (i * 2 ^ e + p) xs"
proof -
  define E where "E = (2 :: nat) ^ e"
  define N where "N = concat (map B [0..<2 ^ (m - h)])"
  define H where "H = 2 ^ h * Z"
  have pw: "(2 :: nat) ^ (m - h) = 2 ^ (m - h - e) * E" "(2 :: nat) ^ m = 2 ^ (m - h - e) * (E * 2 ^ h)" "(2 :: nat) ^ (h + e) = E * 2 ^ h"
    using pow_split [OF m(3)] pow_split [OF m(1)] by (simp_all only: E_def power_add mult.assoc mult.commute [of "2 ^ h"])
  have "Suc c * E \<le> 2 ^ (m - h - e) * E" using c(1) by (intro mult_le_mono1) simp
  then have cd: "c * E + d < 2 ^ (m - h)" if "d < E" for d using that pw(1) by simp
  have "length N = sum_list (map (\<lambda>c. Z) [0..<2 ^ (m - h)])" unfolding N_def length_concat map_map comp_def
    by (intro arg_cong [where f = sum_list] map_cong refl) (use B in simp)
  then have lN: "length N = 2 ^ (m - h - e) * (E * Z)" using pw(1) by (simp add: sum_list_triv)
  have lx: "length xs = 2 ^ (m - h - e) * (E * H)" using len pw(2) by (simp add: H_def)
  have "bucket (E * Z) c N = concat (map (\<lambda>d. bucket Z d (bucket (E * Z) c N)) [0..<E])"
    by (rule buckets_concat [symmetric]) (rule length_bucket [OF c(1) lN])
  also have "\<dots> = concat (map (\<lambda>d. B (c * E + d)) [0..<E])"
  proof (intro arg_cong [where f = concat] map_cong refl)
    fix d assume "d \<in> set [0..<E]"
    then have d: "d < E" by simp
    show "bucket Z d (bucket (E * Z) c N) = B (c * E + d)"
      unfolding bucket_bucket [OF d] N_def using bucket_concat [of "c * E + d" "map B [0..<2 ^ (m - h)]" Z] B cd [OF d] by simp
  qed
  finally have "mset (reals (bucket (E * Z) c N)) = (\<Sum>d<E. mset (reals (B (c * E + d))))" by (simp only: mset_reals_blocks)
  also have "\<dots> = (\<Sum>d<E. filter_mset (\<lambda>x. grp (b + 1 - h) h x = i) (mset (reals (bucket H (c * E + d) xs))))"
    by (intro sum.cong refl) (use B [OF cd] in \<open>simp add: H_def del: mset_filter\<close>)
  finally have 1: "mset (reals (bucket (E * Z) c N)) = (\<Sum>d<E. filter_mset (\<lambda>x. grp (b + 1 - h) h x = i) (mset (reals (bucket H (c * E + d) xs))))" .
  have "bucket (E * H) c xs = concat (map (\<lambda>d. bucket H d (bucket (E * H) c xs)) [0..<E])"
    by (rule buckets_concat [symmetric]) (rule length_bucket [OF c(1) lx])
  also have "\<dots> = concat (map (\<lambda>d. bucket H (c * E + d) xs) [0..<E])"
    by (intro arg_cong [where f = concat] map_cong refl) (simp add: bucket_bucket)
  finally have 2: "mset (reals (bucket (E * H) c xs)) = (\<Sum>d<E. mset (reals (bucket H (c * E + d) xs)))" by (simp only: mset_reals_blocks)
  have b: "b - h + 1 - e = b + 1 - (h + e)" using m by simp
  have g: "grp (b + 1 - (h + e)) (h + e) x = i * E + p \<longleftrightarrow> grp (b + 1 - h) h x = i \<and> grp (b + 1 - (h + e)) e x = p" for x :: "'a TaggedT"
  proof -
    have s: "grp (b + 1 - (h + e)) (h + e) x = grp (b + 1 - h) h x * E + grp (b + 1 - (h + e)) e x"
      using grp_split [of h "h + e" b x] m by (simp add: E_def)
    have lt: "grp (b + 1 - (h + e)) e x < E" by (simp add: grp_def E_def)
    show ?thesis unfolding s
    proof
      assume q: "grp (b + 1 - h) h x * E + grp (b + 1 - (h + e)) e x = i * E + p"
      from arg_cong [OF q, of "\<lambda>n. n div E"] arg_cong [OF q, of "\<lambda>n. n mod E"]
      show "grp (b + 1 - h) h x = i \<and> grp (b + 1 - (h + e)) e x = p" using lt c(2) by (simp add: E_def [symmetric])
    qed simp
  qed
  have "filter_mset (\<lambda>x. grp (b + 1 - (h + e)) e x = p) (mset (reals (bucket (E * Z) c N)))
      = filter_mset (\<lambda>x. grp (b + 1 - (h + e)) (h + e) x = i * E + p) (mset (reals (bucket (E * H) c xs)))"
    unfolding 1 2 filter_mset_sum filter_filter_mset g by (simp only: conj_commute)
  then have "mset (filter (\<lambda>x. grp (b + 1 - (h + e)) e x = p) (reals (bucket (E * Z) c N)))
      = mset (filter (\<lambda>x. grp (b + 1 - (h + e)) (h + e) x = i * E + p) (reals (bucket (E * H) c xs)))" by (simp only: mset_filter)
  from mset_eq_length [OF this] show ?thesis
    unfolding group_count_def b pw(3) N_def [symmetric] E_def [symmetric] H_def by (simp add: mult.assoc)
qed

lemma fits_second:
  fixes xs :: "'a TaggedT list"
  assumes m: "h \<le> m" "m \<le> b" and es: "\<forall>e\<in>set es. e \<le> m - h" and len: "length xs = 2 ^ m * Z"
    and B: "\<And>i c. i < 2 ^ h \<Longrightarrow> c < 2 ^ (m - h) \<Longrightarrow>
      length (B i c) = Z \<and> mset (reals (B i c)) = filter_mset (\<lambda>x. grp (b + 1 - h) h x = i) (mset (reals (bucket (2 ^ h * Z) c xs)))"
  shows "fits Z b m (map ((+) h) es) xs \<longleftrightarrow> (\<forall>i<2 ^ h. fits Z (b - h) (m - h) es (concat (map (B i) [0..<2 ^ (m - h)])))"
proof -
  have "(\<forall>c<2 ^ (m - (h + e)). \<forall>p<2 ^ (h + e). group_count Z b (h + e) c p xs \<le> Z) \<longleftrightarrow>
      (\<forall>i<2 ^ h. \<forall>c<2 ^ (m - h - e). \<forall>p<2 ^ e. group_count Z (b - h) e c p (concat (map (B i) [0..<2 ^ (m - h)])) \<le> Z)" if "e \<in> set es" for e
  proof -
    have e: "e \<le> m - h" using es that by blast
    have "(\<forall>p<2 ^ (h + e). Q p) \<longleftrightarrow> (\<forall>i<2 ^ h. \<forall>p<2 ^ e. Q (i * 2 ^ e + p))" for Q :: "nat \<Rightarrow> bool"
      using all_blocks [of "2 ^ h" "2 ^ e" Q] by (simp add: power_add)
    moreover have "group_count Z (b - h) e c p (concat (map (B i) [0..<2 ^ (m - h)])) = group_count Z b (h + e) c (i * 2 ^ e + p) xs"
      if "i < 2 ^ h" "c < 2 ^ (m - h - e)" "p < 2 ^ e" for i c p
      by (rule group_count_second [OF m e len B [OF that(1)] that(2,3)])
    ultimately show ?thesis unfolding diff_diff_left [symmetric] by (simp cong: imp_cong) blast
  qed
  then show ?thesis unfolding fits_def by auto
qed

lemma routes_step:
  assumes Z: "0 < Z" and m: "h \<le> m" "m \<le> b" and f: "routes Z b h es1 f1" "routes Z (b - h) (m - h) es2 f2"
  shows "routes Z b m (es1 @ map ((+) h) es2) (\<lambda>a. layers_step Z m h (f1 a) (f2 a))"
  unfolding routes_def
proof (intro conjI allI impI)
  show "\<forall>e\<in>set (es1 @ map ((+) h) es2). e \<le> m" using f m by (auto simp: routes_def)
  fix xs :: "'a TaggedT list"
  assume len: "length xs = 2 ^ m * Z"
  define C where "C = (2 :: nat) ^ (m - h)"
  define X where "X = (\<lambda>c. bucket (2 ^ h * Z) c xs)"
  define o1 where "o1 = (\<lambda>c. the (f1 False (X c)))"
  define N where "N = (\<lambda>i. concat (map (\<lambda>c. bucket Z i (o1 c)) [0..<C]))"
  define o2 where "o2 = (\<lambda>i. the (f2 False (N i)))"
  define out where "out = concat (map o2 [0..<2 ^ h])"
  have lx: "length xs = C * (2 ^ h * Z)" using len m(1) by (simp add: C_def flip: power_add)
  have lX: "length (X c) = 2 ^ h * Z" if "c < C" for c unfolding X_def by (rule length_bucket [OF that lx])
  have 1: "routed Z b h (X c) (o1 c) \<and> f1 a (X c) = (if a \<longrightarrow> length (reals (o1 c)) = length (reals (X c)) then Some (o1 c) else None)"
    and fit1: "length (reals (o1 c)) = length (reals (X c)) \<longleftrightarrow> fits Z b h es1 (X c)" if "c < C" for c a
    by (rule routesD [OF f(1) lX [OF that]]; cases a; simp add: o1_def)+
  have l1: "length (o1 c) = 2 ^ h * Z" if "c < C" for c using 1 [OF that] lX [OF that] by (simp add: routed_def)
  have lN: "length (N i) = C * Z" if "i < 2 ^ h" for i
  proof -
    have "length (N i) = sum_list (map (\<lambda>c. Z) [0..<C])" unfolding N_def length_concat map_map comp_def
      by (intro arg_cong [where f = sum_list] map_cong refl) (use l1 that in \<open>simp add: length_bucket\<close>)
    then show ?thesis by (simp add: sum_list_triv)
  qed
  have 2: "routed Z (b - h) (m - h) (N i) (o2 i) \<and> f2 a (N i) = (if a \<longrightarrow> length (reals (o2 i)) = length (reals (N i)) then Some (o2 i) else None)"
    and fit2: "length (reals (o2 i)) = length (reals (N i)) \<longleftrightarrow> fits Z (b - h) (m - h) es2 (N i)" if "i < 2 ^ h" for i a
    by (rule routesD [OF f(2) lN [OF that, unfolded C_def]]; cases a; simp add: o2_def)+
  have X': "routed Z b h (bucket (2 ^ h * Z) c xs) (o1 c)" if "c < 2 ^ (m - h)" for c using 1 that by (simp add: C_def X_def)
  have N': "N = (\<lambda>i. concat (map (\<lambda>c. bucket Z i (o1 c)) [0..<2 ^ (m - h)]))" by (simp add: N_def C_def)
  have O2: "routed Z (b - h) (m - h) (N i) (o2 i)" if "i < 2 ^ h" for i using 2 that by blast
  note R = layers_routed [OF Z m len X' N' O2, folded C_def X_def out_def]
  have R1: "routed Z b m xs out" "(\<Sum>i<2 ^ h. length (reals (N i))) = (\<Sum>c<C. length (reals (o1 c)))" "(\<Sum>c<C. length (reals (X c))) = length (reals xs)"
    using R(1-3) by (simp_all add: X_def)
  have t1: "those (map (f1 a) (chunks (Z * 2 ^ h) xs)) = (if \<forall>c<C. a \<longrightarrow> length (reals (o1 c)) = length (reals (X c)) then Some (map o1 [0..<C]) else None)" for a
  proof -
    have "chunks (Z * 2 ^ h) xs = map X [0..<C]" unfolding X_def mult.commute [of Z] using Z lx by (intro chunks_buckets) simp_all
    then show ?thesis using those_map [of "[0..<C]" "\<lambda>c. f1 a (X c)" "\<lambda>c. a \<longrightarrow> length (reals (o1 c)) = length (reals (X c))" o1] 1 by (simp add: comp_def)
  qed
  have "chunks (C * Z) (concat (map N [0..<2 ^ h])) = map N [0..<2 ^ h]" using Z lN by (intro chunks_concat) (auto simp: list_all_iff C_def)
  then have t2: "those (map (f2 a) (chunks (C * Z) (next_layer Z (2 ^ h) (map o1 [0..<C]))))
      = (if \<forall>i<2 ^ h. a \<longrightarrow> length (reals (o2 i)) = length (reals (N i)) then Some (map o2 [0..<2 ^ h]) else None)" for a
    using those_map [of "[0..<2 ^ h]" "\<lambda>i. f2 a (N i)" "\<lambda>i. a \<longrightarrow> length (reals (o2 i)) = length (reals (N i))" o2] 2
    by (simp add: comp_def next_layer_def N_def bucket_def)
  have run: "layers_step Z m h (f1 a) (f2 a) xs = (if (\<forall>c<C. a \<longrightarrow> length (reals (o1 c)) = length (reals (X c)))
      \<and> (\<forall>i<2 ^ h. a \<longrightarrow> length (reals (o2 i)) = length (reals (N i))) then Some out else None)" for a
    unfolding layers_step_def C_def [symmetric] t1 using t2 [of a] by (auto simp: out_def)
  have le: "length (reals (o1 c)) \<le> length (reals (X c))" if "c < C" for c using routed_le 1 [OF that] lX [OF that] by blast
  have le2: "length (reals (o2 i)) \<le> length (reals (N i))" if "i < 2 ^ h" for i using routed_le [OF O2 [OF that]] lN [OF that] by (simp add: C_def)
  have "length (reals out) = (\<Sum>i<2 ^ h. length (reals (o2 i)))" unfolding out_def by (rule length_reals_concat)
  then have loss: "length (reals out) = length (reals xs) \<longleftrightarrow> (\<forall>c<C. length (reals (o1 c)) = length (reals (X c))) \<and> (\<forall>i<2 ^ h. length (reals (o2 i)) = length (reals (N i)))"
    using sum_eq_iff [of C "\<lambda>c. length (reals (o1 c))", OF le] sum_eq_iff [of "2 ^ h" "\<lambda>i. length (reals (o2 i))", OF le2] R1(2,3)
      sum_mono [of "{..<C}" "\<lambda>c. length (reals (o1 c))", OF le] sum_mono [of "{..<2 ^ h}" "\<lambda>i. length (reals (o2 i))", OF le2] by auto
  have e1: "\<forall>e\<in>set es1. e \<le> h" using f(1) by (simp add: routes_def)
  have first: "fits Z b m es1 xs \<longleftrightarrow> (\<forall>c<C. fits Z b h es1 (X c))" unfolding fits_first [OF m(1) e1] by (simp add: C_def X_def)
  have fit: "fits Z b m (es1 @ map ((+) h) es2) xs \<longleftrightarrow> length (reals out) = length (reals xs)"
  proof (cases "\<forall>c<C. length (reals (o1 c)) = length (reals (X c))")
    case True
    have B: "length (bucket Z i (o1 c)) = Z \<and> mset (reals (bucket Z i (o1 c))) = filter_mset (\<lambda>x. grp (b + 1 - h) h x = i) (mset (reals (bucket (2 ^ h * Z) c xs)))"
      if "i < 2 ^ h" "c < 2 ^ (m - h)" for i c
      using that True 1 [of c] lX [of c] l1 [of c] routed_exact [of Z b h "X c" "o1 c" i] by (simp add: C_def X_def length_bucket)
    have e2: "\<forall>e\<in>set es2. e \<le> m - h" using f(2) by (simp add: routes_def)
    have "fits Z b m (map ((+) h) es2) xs \<longleftrightarrow> (\<forall>i<2 ^ h. fits Z (b - h) (m - h) es2 (N i))"
      unfolding N_def C_def by (rule fits_second [OF m e2 len B])
    then show ?thesis unfolding fits_append first loss using True fit1 fit2 by simp
  next
    case False
    then show ?thesis unfolding fits_append first loss using fit1 by auto
  qed
  show "\<exists>out. layers_step Z m h (f1 False) (f2 False) xs = Some out \<and> routed Z b m xs out
      \<and> (length (reals out) = length (reals xs) \<longleftrightarrow> fits Z b m (es1 @ map ((+) h) es2) xs)
      \<and> layers_step Z m h (f1 True) (f2 True) xs = (if length (reals out) = length (reals xs) then Some out else None)"
    using R1(1) run loss fit by (intro exI [of _ out]) auto
qed

section \<open>Routing\<close>

lemma routes_cong:
  assumes "\<And>a xs. length xs = 2 ^ m * Z \<Longrightarrow> f a xs = g a xs"
  shows "routes Z b m es f = routes Z b m es g"
  using assms by (auto simp: routes_def)

lemma drop_bit_mask: "h \<le> b \<Longrightarrow> b \<le> 63 \<Longrightarrow> drop_bit h (2 ^ b) = (2 ^ (b - h) :: u64)"
  by (intro bit_word_eqI) (auto simp: bit_drop_bit_eq bit_exp_iff)

lemma halves:
  assumes "2 \<le> m" "0 < (Z :: nat)"
  shows "\<not> (2 ^ m * Z \<le> Z * 2 ^ (m div 2) \<or> 2 ^ m * Z \<le> 2 ^ (m - m div 2) * Z)"
proof -
  have "(2 :: nat) ^ (m div 2) < 2 ^ m" "(2 :: nat) ^ (m - m div 2) < 2 ^ m" using assms(1) by (intro power_strict_increasing; simp)+
  then show ?thesis using assms(2) by (simp add: mult.commute [of Z])
qed

lemma butterflyRouting_routes:
  assumes "0 < Z" "m \<le> b" "b \<le> 63" "2 * (2 ^ m * Z) \<le> 2 ^ 63" "2 \<le> gamma \<or> 2 ^ m \<le> gamma"
  shows "routes Z b m (pack_levels gamma m) (\<lambda>a. butterflyRouting a zero Z gamma (2 ^ b))"
  using assms(2-5)
proof (induction m arbitrary: b rule: less_induct)
  case (less m)
  have nb: "2 ^ m * Z div Z = 2 ^ m" using assms(1) by simp
  show ?case
  proof (cases "2 ^ m \<le> gamma")
    case True
    then have "routes Z b m [m] (\<lambda>a. butterflyRouting a zero Z gamma (2 ^ b)) = routes Z b m [m] (\<lambda>a. binPacking a zero Z (2 ^ b))"
      by (intro routes_cong) (simp add: butterflyRouting.simps Let_def)
    moreover have "pack_levels gamma m = [m]" using True by (simp add: pack_levels.simps)
    ultimately show ?thesis using binPacking_routes [OF less.prems(1,2) assms(1) less.prems(3)] by simp
  next
    case False
    then have g: "2 \<le> gamma" "2 < (2 :: nat) ^ m" using less.prems(4) by auto
    have "(2 :: nat) ^ 1 < 2 ^ m" using g(2) by simp
    then have m: "2 \<le> m" by (metis Suc_leI Suc_1 one_less_numeral_iff power_less_imp_less_exp semiring_norm(76))
    define h where "h = m div 2"
    have h: "h < m" "m - h < m" "h \<le> m" "m \<le> b" "b - h \<le> 63" "m - h \<le> b - h" "h \<le> b" using m less.prems(1,2) by (auto simp: h_def)
    have sz: "2 * (2 ^ k * Z) \<le> 2 ^ 63" if "k \<le> m" for k
    proof -
      have "(2 :: nat) ^ k * Z \<le> 2 ^ m * Z" using that by (intro mult_le_mono1 power_increasing) simp_all
      then show ?thesis using less.prems(3) by linarith
    qed
    have lg: "unat (GetLogBaseTwo (of_nat (2 ^ m))) = m" using less.prems(1,2) by (intro log_pow2) simp
    have lv: "pack_levels gamma m = pack_levels gamma h @ map ((+) h) (pack_levels gamma (m - h))"
      unfolding pack_levels.simps [of gamma m] h_def [symmetric] using False m by simp
    have "routes Z b m (pack_levels gamma m) (\<lambda>a. butterflyRouting a zero Z gamma (2 ^ b)) =
        routes Z b m (pack_levels gamma m) (\<lambda>a. layers_step Z m h (butterflyRouting a zero Z gamma (2 ^ b)) (butterflyRouting a zero Z gamma (2 ^ (b - h))))"
    proof (rule routes_cong)
      fix a and xs :: "'a TaggedT list"
      assume len: "length xs = 2 ^ m * Z"
      show "butterflyRouting a zero Z gamma (2 ^ b) xs = layers_step Z m h (butterflyRouting a zero Z gamma (2 ^ b)) (butterflyRouting a zero Z gamma (2 ^ (b - h))) xs"
        unfolding butterflyRouting.simps [of a zero Z gamma _ xs] Let_def len nb if_not_P [OF False] lg if_not_P [OF halves [OF m assms(1), folded h_def]]
          layers_step_def h_def [symmetric] drop_bit_mask [OF h(7) less.prems(2)] ..
    qed
    also have "\<dots>" unfolding lv
      by (rule routes_step [OF assms(1) h(3,4)]) (use less.IH [OF h(1)] less.IH [OF h(2)] h less.prems(2) g(1) sz in simp_all)
    finally show ?thesis .
  qed
qed


section \<open>Tags\<close>

lemma tag_flags: "\<not> ca_dummy \<lparr>tag = r AND (- 2), v = x\<rparr>" "ca_dummy \<lparr>tag = r OR 1, v = x\<rparr>"
  by (simp_all add: ca_dummy_def and_one_eq mod_2_eq_odd even_and_iff even_or_iff)

lemma length_tag_slots [simp]: "length (tag_slots rnd junk Z R is xs) = length is"
  by (induction "is" arbitrary: xs) (simp_all add: Let_def)

lemma reals_tag_slots: "reals (tag_slots rnd junk Z R is xs) = map2 (\<lambda>i x. \<lparr>tag = rnd i AND (- 2), v = x\<rparr>) (filter (\<lambda>i. i mod Z < R) is) xs"
proof (induction "is" arbitrary: xs)
  case (Cons i "is")
  then show ?case by (cases xs) (auto simp: Let_def tag_flags)
qed simp

lemma count_slots: "R \<le> Z \<Longrightarrow> length (filter (\<lambda>i. i mod Z < R) [0..<B * Z]) = B * R"
proof (induction B)
  case (Suc B)
  have "[0..<Suc B * Z] = [0..<B * Z] @ map (\<lambda>j. j + B * Z) [0..<Z]"
    using upt_add_eq_append [of 0 "B * Z" Z] by (simp add: add.commute map_add_upt)
  moreover have "filter (\<lambda>j. (j + B * Z) mod Z < R) [0..<Z] = filter (\<lambda>j. j < R) [0..<Z]" by (intro filter_cong refl) simp
  moreover have "length (filter (\<lambda>j. j < R) [0..<Z]) = R"
  proof -
    have "[0..<Z] = [0..<R] @ [R..<Z]" using Suc.prems by (metis le_add_diff_inverse upt_add_eq_append zero_le)
    then show ?thesis by (simp add: filter_empty_conv)
  qed
  ultimately show ?case using Suc by (simp add: filter_map comp_def)
qed simp

text \<open>The input fits: the tagged vector has \<open>2 ^ m\<close> buckets, and its real elements are the input.\<close>

lemma tagAndPad_spec:
  assumes Z: "Z = 2 ^ k" "1 \<le> k" "k \<le> 61" and n: "2 * length xs \<le> 2 ^ 61"
  obtains m where "length (tagAndPad rnd junk Z xs) = 2 ^ m * Z" "2 * (2 ^ m * Z) \<le> 2 ^ 63" "m \<le> 63"
    "map v (reals (tagAndPad rnd junk Z xs)) = xs"
proof -
  define n where "n = length xs"
  obtain j where j: "unat (GetNextPowerOfTwo (2 * of_nat n)) \<in> {0, 2 ^ j}" "j \<le> 62" "2 * n \<le> 2 ^ j" "max (unat (GetNextPowerOfTwo (2 * of_nat n))) Z = 2 ^ max j k"
  proof (cases "n = 0")
    case True
    have "GetNextPowerOfTwo 0 = 0" by (simp add: GetNextPowerOfTwo_def)
    then show ?thesis using that [of 0] True by (simp add: Z(1) max_def)
  next
    case False
    define j where "j = blen (2 * n - 1)"
    have p: "unat (GetNextPowerOfTwo (of_nat (2 * n))) = 2 ^ j"
      using GetNextPowerOfTwo_nat [of "2 * n"] False n by (simp add: n_def [symmetric] next_pow2_def j_def)
    have le: "2 * n \<le> 2 ^ j" "(2 :: nat) ^ j < 2 * (2 * n)" using next_pow2_bounds(1,2) [of "2 * n"] False by (simp_all add: next_pow2_def j_def)
    have "(2 :: nat) ^ j < 2 ^ 62" using le(2) n by (simp add: n_def)
    then have "j < 62" by (rule power_less_imp_less_exp [rotated]) simp
    moreover have "max ((2 :: nat) ^ j) (2 ^ k) = 2 ^ max j k" by (simp add: max_def)
    ultimately show ?thesis using that [of j] p le(1) by (simp add: Z(1))
  qed
  define m where "m = max j k - k"
  have mk: "(2 :: nat) ^ max j k = 2 ^ m * Z" by (simp add: m_def Z(1) flip: power_add)
  have nb: "max (unat (GetNextPowerOfTwo (2 * of_nat n))) Z div Z = 2 ^ m" using j(4) mk by (simp add: Z(1))
  define R where "R = (n + 2 ^ m - 1) div 2 ^ m"
  have m: "m \<le> 62" using j(2) Z(3) by (simp add: m_def)
  then have m2: "(2 :: nat) ^ m \<le> 2 ^ 62" by (intro power_increasing) simp_all
  have "n + 2 ^ m = Suc (n + 2 ^ m - 1)" by simp
  then have "(of_nat (n + 2 ^ m) :: u64) = of_nat (n + 2 ^ m - 1) + 1" by (metis of_nat_Suc add.commute)
  then have "of_nat n + of_nat (2 ^ m) - 1 = (of_nat (n + 2 ^ m - 1) :: u64)" by (simp only: of_nat_add add_diff_cancel_right')
  moreover have "n + 2 ^ m - 1 < 2 ^ 64" using m2 n by (simp add: n_def [symmetric])
  moreover have "unat (of_nat (2 ^ m) :: u64) = 2 ^ m" using unat_pow2 [of m] m by simp
  ultimately have R: "unat (divRoundUp (of_nat n) (of_nat (2 ^ m))) = R"
    unfolding divRoundUp_def unat_div by (simp only: unsigned_of_nat R_def) (simp add: take_bit_eq_mod)
  have tv: "tagAndPad rnd junk Z xs = tag_slots rnd junk Z R [0..<2 ^ m * Z] xs"
    unfolding tagAndPad_def Let_def n_def [symmetric] nb R ..
  have "n \<le> 2 ^ m * Z" using j(3) mk power_increasing [of j "max j k" "2 :: nat"] by simp
  then have "n + 2 ^ m - 1 < 2 ^ m * Z + 2 ^ m" using zero_less_power [of "2 :: nat" m] by linarith
  then have "n + 2 ^ m - 1 < Suc Z * 2 ^ m" by (simp add: algebra_simps)
  then have RZ: "R \<le> Z" unfolding R_def by (simp add: less_mult_imp_div_less less_Suc_eq_le [symmetric])
  have "n + 2 ^ m - 1 < 2 ^ m * R + 2 ^ m"
    unfolding R_def add.commute [of "_ * _"] by (rule dividend_less_times_div) simp
  then have "n \<le> 2 ^ m * R" by simp
  then have "length xs \<le> length (filter (\<lambda>i. i mod Z < R) [0..<2 ^ m * Z])" unfolding count_slots [OF RZ] by (simp add: n_def)
  then have "map v (reals (tagAndPad rnd junk Z xs)) = xs" unfolding tv reals_tag_slots
    by (simp add: comp_def case_prod_unfold) (metis map_snd_zip_take min.absorb2 take_all_iff order_refl)
  moreover have "2 * (2 ^ m * Z) \<le> 2 ^ 63"
  proof -
    have "(2 :: nat) ^ max j k \<le> 2 ^ 62" using j(2) Z(3) by (intro power_increasing) simp_all
    then show ?thesis unfolding mk by (simp add: mult.commute)
  qed
  ultimately show ?thesis using that [of m] m by (simp add: tv)
qed

section \<open>The output\<close>

lemma write_reals_release: "write_reals False prev es = Some (map v (reals es))"
  by (induction es arbitrary: prev) auto

lemma write_reals_asserts:
  "write_reals True prev es = (if (reals es = [] \<or> prev \<le> tag (hd (reals es))) \<and> (\<forall>e\<in>set (tl (reals es)). 1 \<le> tag e) then Some (map v (reals es)) else None)"
proof (induction es arbitrary: prev)
  case (Cons e es)
  then show ?case by (cases "reals es") (auto simp: not_le)
qed simp

lemma sum_groups: "(\<forall>e\<in>#M. G e < B) \<Longrightarrow> (\<Sum>i<B. filter_mset (\<lambda>e. G e = i) M) = M" for G :: "'a \<Rightarrow> nat"
proof (induction M)
  case (add x M)
  have "filter_mset (\<lambda>e. G e = i) (add_mset x M) = (if i = G x then {#x#} else {#}) + filter_mset (\<lambda>e. G e = i) M" for i by auto
  then show ?case using add by (simp add: sum.distrib)
qed simp

lemma routed_subset:
  assumes "routed Z b m xs out" "length xs = 2 ^ m * Z"
  shows "mset (reals out) \<subseteq># mset (reals xs)"
proof -
  have "length out = 2 ^ m * Z" using assms by (simp add: routed_def)
  then have "mset (reals out) = (\<Sum>i<2 ^ m. mset (reals (bucket Z i out)))" using mset_reals_blocks [of "\<lambda>i. bucket Z i out" "2 ^ m"] buckets_concat by metis
  also have "\<dots> \<subseteq># (\<Sum>i<2 ^ m. filter_mset (\<lambda>e. grp (b + 1 - m) m e = i) (mset (reals xs)))"
    using assms(1) unfolding routed_def by (intro sum_mset_mono) blast
  also have "\<dots> = mset (reals xs)" by (rule sum_groups) (simp add: grp_def)
  finally show ?thesis .
qed

lemma sorted_tag_blocks:
  assumes "\<And>i. i < K \<Longrightarrow> sorted (map tag (f i)) \<and> (\<forall>e\<in>set (f i). unat (tag e) div d = i)"
  shows "sorted (map tag (concat (map f [0..<K])))"
  using assms
proof (induction K)
  case (Suc K)
  have "tag a \<le> tag b" if "a \<in> set (f i)" "i < K" "b \<in> set (f K)" for a b i
  proof -
    have "unat (tag a) div d < unat (tag b) div d" using Suc.prems [of i] Suc.prems [of K] that by simp
    then have "\<not> unat (tag b) \<le> unat (tag a)" using div_le_mono [of "unat (tag b)" "unat (tag a)" d] by linarith
    then show ?thesis by (simp add: word_le_nat_alt)
  qed
  then show ?case using Suc by (auto simp: sorted_append)
qed simp

lemma output_order:
  assumes ro: "routed Z 63 m xs out" and len: "length xs = 2 ^ m * Z" "0 < Z" "m \<le> 63" "Z \<le> 2 ^ 63"
  defines "S \<equiv> concat (map (BitonicSort cmpTag True) (chunks Z out))"
  shows "sorted (map tag (reals S))" "mset (reals S) = mset (reals out)"
proof -
  define f where "f = (\<lambda>i. BitonicSort cmpTag True (bucket Z i out))"
  have lo: "length out = 2 ^ m * Z" using ro len(1) by (simp add: routed_def)
  have S: "S = concat (map f [0..<2 ^ m])" unfolding S_def chunks_buckets [OF len(2) lo] by (simp add: f_def comp_def)
  have lf: "length (bucket Z i out) \<le> 2 ^ 63" for i using len(4) by (simp add: bucket_def)
  have rf: "mset (reals (f i)) = mset (reals (bucket Z i out))" for i by (simp add: f_def)
  show "mset (reals S) = mset (reals out)"
    unfolding S mset_reals_blocks rf unfolding mset_reals_blocks [symmetric] buckets_concat [OF lo] ..
  have "reals S = concat (map (\<lambda>i. reals (f i)) [0..<2 ^ m])" by (simp add: S filter_concat comp_def)
  moreover have "sorted (map tag (concat (map (\<lambda>i. reals (f i)) [0..<2 ^ m])))"
  proof (rule sorted_tag_blocks [where d = "2 ^ (64 - m)"], intro conjI ballI)
    fix i :: nat assume i: "i < 2 ^ m"
    show "sorted (map tag (reals (f i)))" unfolding f_def by (intro sorted_filter tag_order.BitonicSort_ascending lf)
    fix e assume e: "e \<in> set (reals (f i))"
    have "mset (reals (bucket Z i out)) \<subseteq># filter_mset (\<lambda>e. grp (63 + 1 - m) m e = i) (mset (reals xs))" using ro i unfolding routed_def by blast
    moreover have "e \<in># mset (reals (bucket Z i out))" unfolding rf [of i, symmetric] using e by (simp only: set_mset_mset)
    ultimately have "e \<in># filter_mset (\<lambda>e. grp (63 + 1 - m) m e = i) (mset (reals xs))" by (rule mset_subset_eqD)
    then have g: "grp (64 - m) m e = i" by simp
    have "(2 :: nat) ^ 64 = 2 ^ m * 2 ^ (64 - m)" using len(3) by (simp flip: power_add)
    then have "unat (tag e) div 2 ^ (64 - m) < 2 ^ m" using unat_lt_64 [of "tag e"] by (intro less_mult_imp_div_less) simp
    then show "unat (tag e) div 2 ^ (64 - m) = i" using g by (simp add: grp_def)
  qed
  ultimately show "sorted (map tag (reals S))" by simp
qed

lemma shuffle_output:
  assumes ro: "routes Z 63 m es f" and len: "length tv = 2 ^ m * Z" "0 < Z" "m \<le> 63" "Z \<le> 2 ^ 63"
  defines "g \<equiv> \<lambda>a. Option.bind (f a tv) (\<lambda>tv. write_reals a 0 (concat (map (BitonicSort cmpTag True) (chunks Z tv))))"
  shows "\<exists>qs. mset qs \<subseteq># mset (reals tv) \<and> sorted (map tag qs) \<and> g False = Some (map v qs)
    \<and> (length qs = length (reals tv) \<longleftrightarrow> fits Z 63 m es tv)
    \<and> (\<forall>zs. g True = Some zs \<longrightarrow> zs = map v qs \<and> length qs = length (reals tv))
    \<and> (length qs = length (reals tv) \<and> distinct (map tag (reals tv)) \<longrightarrow> g True = Some (map v qs))"
proof -
  obtain out where out: "f False tv = Some out" "routed Z 63 m tv out" "f True tv = (if length (reals out) = length (reals tv) then Some out else None)"
    "length (reals out) = length (reals tv) \<longleftrightarrow> fits Z 63 m es tv"
    by (rule routesD [OF ro len(1)])
  define qs where "qs = reals (concat (map (BitonicSort cmpTag True) (chunks Z out)))"
  note oo = output_order [OF out(2) len, folded qs_def]
  have sub: "mset qs \<subseteq># mset (reals tv)" unfolding oo(2) by (rule routed_subset [OF out(2) len(1)])
  have lq: "length qs = length (reals out)" using oo(2) by (rule mset_eq_length)
  have rel: "g False = Some (map v qs)" unfolding g_def by (simp add: out(1) write_reals_release qs_def)
  have asr: "g True = (if length qs = length (reals tv) \<and> (\<forall>e\<in>set (tl qs). 1 \<le> tag e) then Some (map v qs) else None)"
    unfolding g_def lq by (simp add: out(3) write_reals_asserts qs_def)
  have "1 \<le> tag e" if "length qs = length (reals tv)" "distinct (map tag (reals tv))" "e \<in> set (tl qs)" for e
  proof -
    have "mset qs = mset (reals tv)" using sub that(1) by (metis mset_subset_size subset_mset.le_neq_trans less_irrefl size_mset)
    then have "mset (map tag qs) = mset (map tag (reals tv))" by (simp only: mset_map)
    then have "distinct (map tag qs)" using that(2) by (metis mset_eq_imp_distinct_iff)
    then have "sorted_wrt (<) (map tag qs)" using oo(1) by (simp add: strict_sorted_iff)
    then have "tag (hd qs) < tag e" using that(3) by (cases qs) auto
    then show ?thesis by (simp add: word_le_nat_alt word_less_nat_alt)
  qed
  then show ?thesis using sub oo(1) rel asr out(4) lq by (intro exI [of _ qs]) auto
qed

text \<open>The shuffle in memory.\<close>

lemma CABucketShuffleInternal_by_tags:
  fixes rnd :: "nat \<Rightarrow> u64" and junk :: "nat \<Rightarrow> 'a"
  assumes Z: "Z = 2 ^ k" "1 \<le> k" "k \<le> 61" and n: "2 * length xs \<le> 2 ^ 61"
  defines "ps \<equiv> reals (tagAndPad rnd junk Z xs)"
  shows "\<exists>m qs. length (tagAndPad rnd junk Z xs) = 2 ^ m * Z \<and> mset qs \<subseteq># mset ps \<and> sorted (map tag qs)
    \<and> CABucketShuffleInternal False rnd junk zero Z xs = Some (map v qs)
    \<and> (length qs = length ps \<longleftrightarrow> fits Z 63 m (pack_levels (m + k) m) (tagAndPad rnd junk Z xs))
    \<and> (\<forall>zs. CABucketShuffleInternal True rnd junk zero Z xs = Some zs \<longrightarrow> zs = map v qs \<and> length qs = length ps)
    \<and> (length qs = length ps \<and> distinct (map tag ps) \<longrightarrow> CABucketShuffleInternal True rnd junk zero Z xs = Some (map v qs))"
proof -
  define tv where "tv = tagAndPad rnd junk Z xs"
  obtain m where m: "length tv = 2 ^ m * Z" "2 * (2 ^ m * Z) \<le> 2 ^ 63" "m \<le> 63"
    using tagAndPad_spec [OF Z n, of rnd junk] unfolding tv_def by metis
  have Z0: "0 < Z" using Z(1) by simp
  have "1 * Z \<le> 2 ^ m * Z" by (intro mult_le_mono1) simp
  then have Zle: "Z \<le> 2 ^ 63" using m(2) by linarith
  have "(2 :: nat) ^ Suc (m + k) \<le> 2 ^ 63" using m(2) unfolding Z(1) by (simp add: power_add)
  then have "Suc (m + k) \<le> 63" by (rule power_le_imp_le_exp [rotated]) simp
  then have lg: "unat (GetLogBaseTwo (of_nat (length tv))) = m + k" unfolding m(1) Z(1) using log_pow2 [of "m + k"] by (simp only: power_add)
  have g: "2 \<le> m + k \<or> 2 ^ m \<le> m + k" using Z(2) by (cases m) auto
  have "routes Z 63 m (pack_levels (m + k) m) (\<lambda>a. butterflyRouting a zero Z (m + k) (2 ^ 63))"
    using butterflyRouting_routes [OF Z0 m(3) order.refl m(2) g] .
  from shuffle_output [OF this m(1) Z0 m(3) Zle] m(1) show ?thesis
    unfolding ps_def CABucketShuffleInternal_def Let_def tv_def [symmetric] lg by blast
qed

section \<open>Properties\<close>






end
