(* ===== verification/Spec2Isabelle.thy ===== *)
theory Spec2Isabelle
  imports Sysrng Sgxsd_Server Hmac_Drbg Encutils Hmac Const_Time Aes_Gcm Bitonic Or_Compact
    Butterfly_Correct Page_Cache Ext_Vector Bucket_Sort
begin

text \<open>
  Verification development of the oblivious sorting library under \<open>src/osort\<close> and of the enclave
  cryptography that it ships with under \<open>src/applications/sorting/Enclave/bearssl\<close>.

  \<^bold>\<open>The program.\<close>  The sorting library sorts and shuffles vectors that are larger than the protected memory of
  an enclave, with memory accesses that do not depend on the data.  Its main algorithm tags the elements with
  random numbers, routes them through a butterfly network of merge-splits, and sorts what arrives in chunks that
  an external merge sort combines.  Merge-splits are built from interleaving, compaction and small sorting
  networks.  The cryptographic part is a service that negotiates keys with clients and answers requests
  inside the enclave, over BearSSL code for hashing, message authentication, AES-GCM and random numbers, and over
  a Curve25519 implementation.  Pages of external memory are encrypted with the same AES-GCM code.

  \<^bold>\<open>Conventions.\<close>  A range of an array is the list of its elements; arrays that are divided into buckets are
  lists of buckets.  Machine integers are words of their width where they can wrap; sizes and indices that are
  bounded by the length of an array are natural numbers.  An abort, a failed assertion that is always compiled
  in, and a loop that does not return are \<open>None\<close>.  Memory that the code leaves uninitialised, random draws, the SGX
  runtime and callbacks are arguments.  Definitions carry the names of the source; parts of long functions have
  descriptive names, and the manifest gives the lines.

  \<^bold>\<open>Foundations.\<close>  \<open>Prelude\<close> (integer types, rewrite collections, facts on words and lists), \<open>Codec\<close> (integer codecs
  of \<open>inner.h\<close> and \<open>codec/\<close>), \<open>Const_Time\<close> (constant-time primitives of \<open>inner.h\<close>), \<open>Pow2\<close> (helpers of
  \<open>common/utils.hpp\<close>), \<open>Sort_Network\<close> (conditional swaps and the 0-1 principle).

  \<^bold>\<open>Sorting networks and compaction.\<close>  \<open>Bitonic\<close> models \<open>bitonic.hpp\<close>: the sort is correct for every length and
  both directions, and the shuffle follows the order of the random tags.  \<open>Static_Sort\<close> models the networks of
  \<open>static_sort.hpp\<close>, which sort for every size.  \<open>Or_Compact\<close> and \<open>Goodrich\<close> model \<open>or_compact_shuffle.hpp\<close>: both compactions keep
  the order of the marked elements, and the shuffle permutes.  The prefix sums of \<open>OrCompact\<close> are 32-bit words, so
  that its theorems are about fewer than \<open>2 ^ 32 - 1\<close> elements, as the code asserts.

  \<^bold>\<open>Merge-split.\<close>  \<open>Interleave\<close>, \<open>Merge_Split\<close> (two ways), \<open>Edge_Rec\<close> (Euler circuits, \<open>edge_rec.hpp\<close>), \<open>Interleave_Kway\<close>
  and \<open>Merge_Split_Kway\<close> (three to eight ways) model \<open>sort_building_blocks.hpp\<close>: every bucket receives the elements with its mark, and
  the functions abort exactly when there is not enough room.  The loops on circuits are partial functions that
  are proved to return.  \<open>Ext_Merge\<close> models the external merge sort, with its termination.  \<open>Bucket_Sort\<close> models
  \<open>ca_bucket_sort.hpp\<close>: its shuffle follows the order of the tags, and loses elements exactly if a bucket overflows (the predicate
  \<open>fits\<close> on tags, bucket size and levels is false), which only builds with assertions notice; the sort then goes over the whole
  range, the rest of which is an argument.

  \<^bold>\<open>Butterfly sort and shuffle\<close> (\<open>kway_butterfly_sort.hpp\<close>).  \<open>Butterfly\<close> is the network in memory: all real elements reach
  the bucket given by their tag modulo the number of buckets.  \<open>Butterfly_Sort\<close> is the class \<open>ButterflySorter\<close>, whose layers
  communicate through an external vector.  \<open>Butterfly_Output\<close> has the constructor, the output and the functions that
  use the class, and \<open>Butterfly_Correct\<close> the results: the sort returns a sorted permutation and the shuffle the order of
  a fixed injective function of the tags, for all random draws, unless a bucket overflows or a range of the merge is
  empty.  Hypotheses: the parameters fit (powers of two as bucket sizes, two to eight ways, room for all elements
  and for every layer, which the selection of parameters aims at), and the last layer leaves a dummy in memory,
  without which \<open>partitionDummy\<close> loses an element.

  \<^bold>\<open>Hashing and message authentication.\<close>  \<open>Hash_Class\<close> has the class structure of BearSSL and the locale \<open>hash_class\<close> with
  the contract that generic code relies on; \<open>Sha1\<close> and \<open>Sha2\<close> interpret it, with compression functions equal to FIPS
  180-4.  \<open>Hmac\<close> and \<open>Hmac_Drbg\<close> are proved over the contract, against RFC 2104 and SP 800-90A.

  \<^bold>\<open>AES-GCM.\<close>  \<open>Sse\<close> has the instructions, \<open>Aes_Ni\<close> key schedule and counter mode against FIPS 197, \<open>Clmul\<close> and
  \<open>Ghash\<close> the carry-less multiplication against SP 800-38D, \<open>Gcm\<close> the streaming code over the locales for counter
  mode and GHASH, and \<open>Aes_Gcm\<close> their interpretation: a session in any pieces is AES-GCM of the whole message.
  \<open>Aesctr_Drbg\<close> is the generator over counter mode, \<open>Sysrng\<close> the seeding.

  \<^bold>\<open>Curve25519.\<close>  \<open>Curve25519\<close>, \<open>Curve_Arith\<close> and \<open>Curve_Ladder\<close>: the limb arithmetic never loses a carry within bounds that hold
  along the ladder, and the function is the Montgomery ladder modulo \<open>2^255 - 19\<close>.

  \<^bold>\<open>Enclave service\<close> (\<open>sgxsd-enclave.c\<close>).  \<open>Aead\<close> is its authenticated encryption, \<open>Sgxsd\<close> its state and entry points,
  \<open>Sgxsd_Pending\<close> hashing, key derivation and the ring of pending requests, \<open>Sgxsd_Server\<close> the invariant of the reachable states,
  what the node refuses before and after its only initialisation, the results of calls of a running server, of negotiations, of
  replies and of starts and stops, and the lock of a server descriptor under interleaved threads: the relation
  \<open>thread_step\<close> has the statements of start and stop as steps, and runs of one thread are the sequential functions.

  \<^bold>\<open>External memory.\<close>  \<open>Encutils\<close>: the helpers of \<open>common/encutils.cpp\<close> and \<open>common/encrypted.hpp\<close> in enclave mode and the buffered
  random generator.  \<open>Allocator\<close> (\<open>serverAllocator.hpp\<close>): in all reachable states used and free blocks partition the
  memory.  \<open>Page_Server\<close> (\<open>serverBackend.hpp\<close>, \<open>serverFrontend.hpp\<close>): encrypted and authenticated pages in slots of the allocator,
  each with a tag field of 32 bytes of which 16 stay uninitialised; its locale \<open>page_server\<close> is the contract of a store of pages, which the front end satisfies.  \<open>Page_Cache\<close>
  (\<open>dmcache.hpp\<close>, \<open>cached.hpp\<close>) refines an array of pages over every such store, and \<open>Ext_Vector\<close> (\<open>noncachedvector.hpp\<close>) builds
  vectors on it, in the locale \<open>vector_pages\<close>: readers return what writers stored, which justifies that the sorting
  theories take external vectors as lists.

  \<^bold>\<open>Fuel and bounds.\<close>  No definition takes fuel; loops that may not end are partial functions, and their theorems say
  that they return.  Lengths of arrays are bounded by \<open>2 ^ 63\<close> where the code computes the next power of two.

  \<^bold>\<open>Not modelled.\<close>  The selection of parameters (floating point), the baselines that are only benchmarked (distribution
  sort, Waksman networks, shell sort), the applications, the page cache with least-recently-used
  replacement (switched off in the source), batched input and output, the vectors other than the one without a cache,
  the conditional moves in assembly (their effect is \<open>condSwap\<close>), the variants for OpenSSL, tracing, tests and the glue between application and
  enclave.  The BearSSL headers declare much that the repository does not contain.
\<close>

end
